(* ===== verification/Prelude.thy ===== *)
theory Prelude
  imports Main "HOL-Library.List_Lexorder" "HOL-Library.Char_ord"
begin

text \<open>
  What the component theories share: the limits of Rust's \<open>usize\<close>, one-based slot
  access, ordered and unordered finite maps as association lists, lemmas on counting
  filters and list updates, and the generic interface of a state machine whose steps
  may be refused.
\<close>

section \<open>Collections of facts\<close>

named_theorems guard_defs \<open>guards and slot accessors of the state machines\<close>
named_theorems handler_defs \<open>one definition per handler of a state machine\<close>

section \<open>Machine integers\<close>

text \<open>\<open>usize\<close> on the 64-bit targets; a \<open>Vec\<close> holds at most \<open>isize::MAX\<close> elements.\<close>

definition usize_max :: nat where
  "usize_max = 2 ^ 64 - 1"

definition isize_max :: nat where
  "isize_max = 2 ^ 63 - 1"

definition u64_max :: nat where
  "u64_max = 2 ^ 64 - 1"

lemma isize_max_less: "isize_max < usize_max"
  by (simp add: isize_max_def usize_max_def)

text \<open>\<open>c.wrapping_sub(1)\<close> on a \<open>usize\<close>, and \<open>saturating_add(1)\<close>.\<close>

definition wrapping_pred :: "nat \<Rightarrow> nat" where
  "wrapping_pred c = (if c = 0 then usize_max else c - 1)"

definition saturating_succ :: "nat \<Rightarrow> nat" where
  "saturating_succ n = (if n < usize_max then n + 1 else usize_max)"

text \<open>\<open>xs.get(c.wrapping_sub(1))\<close>: access by a one-based slot number.\<close>

definition slot_get :: "'a list \<Rightarrow> nat \<Rightarrow> 'a option" where
  "slot_get xs c = (let i = wrapping_pred c in if i < length xs then Some (xs ! i) else None)"

lemma slot_get_SomeD:
  assumes "slot_get xs c = Some x" and "length xs \<le> isize_max"
  shows "1 \<le> c \<and> c \<le> length xs \<and> x = xs ! (c - 1)"
  using assms isize_max_less
  by (auto simp: slot_get_def wrapping_pred_def Let_def split: if_splits)

lemma slot_get_in_set: "slot_get xs c = Some x \<Longrightarrow> x \<in> set xs"
  by (auto simp: slot_get_def Let_def split: if_splits)

lemma slot_get_ball: "slot_get xs c = Some x \<Longrightarrow> \<forall>y \<in> set xs. P y \<Longrightarrow> P x"
  by (blast dest: slot_get_in_set)

lemma slot_get_in_range: "1 \<le> c \<Longrightarrow> c \<le> length xs \<Longrightarrow> slot_get xs c = Some (xs ! (c - 1))"
  by (auto simp: slot_get_def wrapping_pred_def Let_def)

lemma slot_get_eq_Some:
  "length xs \<le> isize_max \<Longrightarrow>
   slot_get xs c = Some x \<longleftrightarrow> 1 \<le> c \<and> c \<le> length xs \<and> x = xs ! (c - 1)"
  using slot_get_SomeD slot_get_in_range by metis

lemma slot_get_eq_None:
  "length xs \<le> isize_max \<Longrightarrow> slot_get xs c = None \<longleftrightarrow> c = 0 \<or> length xs < c"
  using isize_max_less by (auto simp: slot_get_def wrapping_pred_def Let_def)

section \<open>Lists\<close>

lemma all_set_update:
  "(\<forall>x \<in> set xs. P x) \<Longrightarrow> P y \<Longrightarrow> (\<forall>x \<in> set (xs[i := y]). P x)"
  using set_update_subset_insert by fastforce

lemma length_filter_update:
  "i < length xs \<Longrightarrow>
   length (filter P (xs[i := y])) + (if P (xs ! i) then 1 else 0)
     = length (filter P xs) + (if P y then 1 else 0)"
proof (induction xs arbitrary: i)
  case Nil
  then show ?case by simp
next
  case (Cons x xs)
  then show ?case by (cases i) auto
qed

lemma length_filter_update_same:
  "i < length xs \<Longrightarrow> P (xs ! i) = P y \<Longrightarrow> length (filter P (xs[i := y])) = length (filter P xs)"
  using length_filter_update [of i xs P y] by (cases "P y") simp_all

lemma nth_update_cases:
  "i < length xs \<Longrightarrow> (xs[i := y]) ! j = (if j = i then y else xs ! j)"
  by auto

lemma set_updateD: "x \<in> set (xs[i := y]) \<Longrightarrow> x = y \<or> x \<in> set xs"
  using set_update_subset_insert by fastforce

section \<open>Maps as association lists\<close>

text \<open>
  A \<open>HashMap\<close> is an association list with distinct keys; its iteration order is no part
  of the model. \<open>al_put\<close> is \<open>insert\<close>, \<open>al_del\<close> is \<open>remove\<close>.
\<close>

definition al_del :: "'k \<Rightarrow> ('k \<times> 'v) list \<Rightarrow> ('k \<times> 'v) list" where
  "al_del k m = filter (\<lambda>(k', _). k' \<noteq> k) m"

definition al_put :: "'k \<Rightarrow> 'v \<Rightarrow> ('k \<times> 'v) list \<Rightarrow> ('k \<times> 'v) list" where
  "al_put k v m = (k, v) # al_del k m"

definition al_keys :: "('k \<times> 'v) list \<Rightarrow> 'k list" where
  "al_keys m = map fst m"

lemma map_of_al_del [simp]: "map_of (al_del k m) = (map_of m)(k := None)"
  by (rule ext, induction m) (auto simp: al_del_def)

lemma map_of_al_put [simp]: "map_of (al_put k v m) = (map_of m)(k \<mapsto> v)"
  by (simp add: al_put_def)

lemma set_al_del: "set (al_del k m) = {p \<in> set m. fst p \<noteq> k}"
  by (auto simp: al_del_def)

lemma distinct_al_del [simp]: "distinct (map fst m) \<Longrightarrow> distinct (map fst (al_del k m))"
  by (induction m) (auto simp: al_del_def)

lemma distinct_al_put [simp]: "distinct (map fst m) \<Longrightarrow> distinct (map fst (al_put k v m))"
  by (auto simp: al_put_def set_al_del)

lemma al_del_absent: "map_of m k = None \<Longrightarrow> al_del k m = m"
  by (induction m) (auto simp: al_del_def split: if_splits)

lemma length_al_del_le: "length (al_del k m) \<le> length m"
  by (simp add: al_del_def)

lemma length_al_del:
  "distinct (map fst m) \<Longrightarrow> map_of m k = Some v \<Longrightarrow> Suc (length (al_del k m)) = length m"
proof (induction m)
  case Nil
  then show ?case by simp
next
  case (Cons p m)
  obtain k' v' where p: "p = (k', v')" by (cases p)
  have del: "al_del k (p # m) = (if k' = k then al_del k m else p # al_del k m)"
    by (simp add: al_del_def p)
  show ?case
  proof (cases "k' = k")
    case True
    with Cons.prems p have "map_of m k = None" by (auto simp: map_of_eq_None_iff)
    with True show ?thesis by (simp add: del al_del_absent)
  next
    case False
    with Cons.prems p have "distinct (map fst m)" and "map_of m k = Some v" by auto
    with Cons.IH False show ?thesis by (simp add: del)
  qed
qed

text \<open>
  A \<open>BTreeMap\<close> iterates in key order: an association list sorted strictly by key.
\<close>

fun bt_put :: "'k::linorder \<Rightarrow> 'v \<Rightarrow> ('k \<times> 'v) list \<Rightarrow> ('k \<times> 'v) list" where
  "bt_put k v [] = [(k, v)]"
| "bt_put k v ((k', v') # m) =
     (if k < k' then (k, v) # (k', v') # m
      else if k = k' then (k, v) # m
      else (k', v') # bt_put k v m)"

definition bt_sorted :: "('k::linorder \<times> 'v) list \<Rightarrow> bool" where
  "bt_sorted m \<longleftrightarrow> sorted_wrt (<) (map fst m)"

lemma bt_sorted_Nil [simp]: "bt_sorted []"
  by (simp add: bt_sorted_def)

lemma bt_sorted_distinct: "bt_sorted m \<Longrightarrow> distinct (map fst m)"
  by (simp add: bt_sorted_def strict_sorted_iff)

lemma set_bt_put_keys: "fst ` set (bt_put k v m) = insert k (fst ` set m)"
  by (induction k v m rule: bt_put.induct) auto

lemma bt_sorted_put [simp]: "bt_sorted m \<Longrightarrow> bt_sorted (bt_put k v m)"
proof (induction k v m rule: bt_put.induct)
  case (2 k v k' v' m)
  have keys: "fst ` set (bt_put k v m) = insert k (fst ` set m)"
    by (rule set_bt_put_keys)
  show ?case
  proof (cases "k' < k")
    case True
    with 2 have "bt_sorted (bt_put k v m)" by (auto simp: bt_sorted_def)
    with True 2(2) keys show ?thesis
      by (auto simp: bt_sorted_def)
  next
    case False
    with 2(2) show ?thesis by (auto simp: bt_sorted_def)
  qed
qed (simp add: bt_sorted_def)

lemma map_of_bt_put [simp]: "bt_sorted m \<Longrightarrow> map_of (bt_put k v m) = (map_of m)(k \<mapsto> v)"
proof (induction k v m rule: bt_put.induct)
  case (2 k v k' v' m)
  then show ?case by (auto simp: bt_sorted_def fun_eq_iff)
qed (simp add: fun_eq_iff)

lemma bt_sorted_del [simp]: "bt_sorted m \<Longrightarrow> bt_sorted (al_del k m)"
  by (induction m) (auto simp: bt_sorted_def al_del_def)

lemma map_of_eq_emptyD: "map_of m = (\<lambda>_. None) \<Longrightarrow> m = []"
  by (cases m) (auto simp: fun_eq_iff split: if_splits)

text \<open>Two key-sorted lists with the same lookups are the same list.\<close>

lemma bt_sorted_unique:
  assumes "bt_sorted m" and "bt_sorted m'" and "map_of m = map_of m'"
  shows "m = m'"
  using assms
proof (intro map_sorted_distinct_set_unique [of fst])
  show "inj_on fst (set m \<union> set m')"
    using assms by (auto simp: inj_on_def bt_sorted_distinct dest!: map_of_is_SomeI [rotated]) 
  show "sorted (map fst m)" "distinct (map fst m)" "sorted (map fst m')" "distinct (map fst m')"
    using assms by (auto simp: bt_sorted_def strict_sorted_iff)
  have "set m = set m'"
    using assms(3) map_of_eq_Some_iff [OF bt_sorted_distinct [OF assms(1)]]
      map_of_eq_Some_iff [OF bt_sorted_distinct [OF assms(2)]]
    by auto
  then show "set m = set m'" .
qed

section \<open>Machines whose steps may be refused\<close>

text \<open>
  The interface the event-driven components share: a set of start states, a step that
  either refuses an event or returns the next state, and an invariant the provider
  promises to hold at the start and to keep in every accepted step.
\<close>

locale refusable_machine =
  fixes start :: "'s \<Rightarrow> bool"
    and mstep :: "'s \<Rightarrow> 'e \<Rightarrow> 'r + 's"
    and inv :: "'s \<Rightarrow> bool"
  assumes inv_start: "start s \<Longrightarrow> inv s"
    and inv_step: "inv s \<Longrightarrow> mstep s e = Inr s' \<Longrightarrow> inv s'"
begin

text \<open>Running a list of events, stopping at the first refusal.\<close>

fun mrun :: "'s \<Rightarrow> 'e list \<Rightarrow> 'r + 's" where
  "mrun s [] = Inr s"
| "mrun s (e # es) = (case mstep s e of Inl r \<Rightarrow> Inl r | Inr s' \<Rightarrow> mrun s' es)"

inductive reachable :: "'s \<Rightarrow> bool" where
  reach_start: "start s \<Longrightarrow> reachable s"
| reach_step: "reachable s \<Longrightarrow> mstep s e = Inr s' \<Longrightarrow> reachable s'"

lemma reachable_inv: "reachable s \<Longrightarrow> inv s"
  by (induction rule: reachable.induct) (auto intro: inv_start inv_step)

lemma mrun_inv: "inv s \<Longrightarrow> mrun s es = Inr s' \<Longrightarrow> inv s'"
proof (induction es arbitrary: s)
  case Nil
  then show ?case by simp
next
  case (Cons e es)
  then show ?case by (auto split: sum.splits dest: inv_step)
qed

lemma mrun_reachable: "reachable s \<Longrightarrow> mrun s es = Inr s' \<Longrightarrow> reachable s'"
proof (induction es arbitrary: s)
  case Nil
  then show ?case by simp
next
  case (Cons e es)
  then show ?case by (auto split: sum.splits intro: reach_step)
qed

lemma mrun_append:
  "mrun s (es @ fs) = (case mrun s es of Inl r \<Rightarrow> Inl r | Inr s' \<Rightarrow> mrun s' fs)"
  by (induction es arbitrary: s) (auto split: sum.splits)

lemma reachable_run: "reachable s \<Longrightarrow> \<exists>s0 es. start s0 \<and> mrun s0 es = Inr s"
proof (induction rule: reachable.induct)
  case (reach_start s)
  then show ?case by (intro exI [of _ s] exI [of _ "[]"]) simp
next
  case (reach_step s e s')
  then obtain s0 es where "start s0" and "mrun s0 es = Inr s" by blast
  with reach_step.hyps(2) have "mrun s0 (es @ [e]) = Inr s'" by (simp add: mrun_append)
  with \<open>start s0\<close> show ?case by blast
qed

end

text \<open>
  A machine whose operations always succeed is one that never refuses.
\<close>

locale total_machine =
  fixes start :: "'s \<Rightarrow> bool"
    and tstep :: "'s \<Rightarrow> 'e \<Rightarrow> 's"
    and inv :: "'s \<Rightarrow> bool"
  assumes start_inv: "start s \<Longrightarrow> inv s"
    and step_inv: "inv s \<Longrightarrow> inv (tstep s e)"

sublocale total_machine \<subseteq> refusable_machine start "\<lambda>s e. Inr (tstep s e)" inv
  by unfold_locales (auto intro: start_inv step_inv)

context total_machine
begin

lemma mrun_total: "mrun s es = Inr (foldl tstep s es)"
  by (induction es arbitrary: s) simp_all

lemma foldl_inv: "start s \<Longrightarrow> inv (foldl tstep s es)"
  using mrun_inv [OF start_inv mrun_total] .

end

end
