(* ===== verification/Kernel.thy ===== *)
theory Kernel
  imports Prelude
begin

text \<open>
  The agent kernel, \<^verbatim>\<open>src-tauri/agent-kernel/src/machine.rs\<close>: the state machine that decides
  which protocol events of a model run are legal. The types keep the Rust names with a prefix
  where two enums share a constructor. Every arm of \<open>Kernel::step\<close> is one definition
  \<open>on_<Event>\<close>; its guards come in the order of the code. A slot number is a \<open>usize\<close>
  (\<open>nat\<close> here), one-based, read with \<open>slot_get\<close>, which writes out \<open>get(c.wrapping_sub(1))\<close>.
  The guard texts of the code are the constructors of \<open>kguard\<close>.
\<close>

section \<open>Data\<close>

type_synonym slot_id = nat
type_synonym task_id = nat

datatype turn_phase = TurnIdle | TurnRunning | TurnCancelling

datatype round_phase = Prep | InRound

datatype call_phase = Unused | Requested | Allowed | Denied | Executing | ExecBg | CallDone

datatype agent_phase = NoAgent | AgentRunning | AgentDone

record kernel_config =
  call_slots :: nat
  agent_slots :: nat
  max_live_agents :: nat
  task_ids :: nat

definition MODEL_SCOPE :: kernel_config where
  "MODEL_SCOPE = \<lparr>call_slots = 2, agent_slots = 2, max_live_agents = 1, task_ids = 2\<rparr>"

record call_slot =
  call_phase :: call_phase
  danger :: bool
  fresh :: bool

record agent_slot =
  agent_phase :: agent_phase
  rid :: task_id
  waited :: bool

datatype kernel_event =
    TurnStart | TurnCancel | TurnEnd | ContextEdit | RoundStart | RoundEnd
  | SteerEnqueue | SteerJoin
  | ToolRequest slot_id bool
  | ToolAllow slot_id | ToolApprove slot_id | ToolDeny slot_id
  | ToolExecStart slot_id | ToolExecEnd slot_id | ToolSettle slot_id
  | ToolBackground slot_id slot_id task_id
  | PolicyTighten
  | AgentSpawn slot_id task_id | AgentComplete slot_id task_id | AgentFold slot_id task_id
  | TaskWait slot_id task_id | TaskWaitTimeout slot_id task_id | TaskWaitDeliver slot_id task_id

fun event_name :: "kernel_event \<Rightarrow> string" where
  "event_name TurnStart = ''TurnStart''"
| "event_name TurnCancel = ''TurnCancel''"
| "event_name TurnEnd = ''TurnEnd''"
| "event_name ContextEdit = ''ContextEdit''"
| "event_name RoundStart = ''RoundStart''"
| "event_name RoundEnd = ''RoundEnd''"
| "event_name SteerEnqueue = ''SteerEnqueue''"
| "event_name SteerJoin = ''SteerJoin''"
| "event_name (ToolRequest _ _) = ''ToolRequest''"
| "event_name (ToolAllow _) = ''ToolAllow''"
| "event_name (ToolApprove _) = ''ToolApprove''"
| "event_name (ToolDeny _) = ''ToolDeny''"
| "event_name (ToolExecStart _) = ''ToolExecStart''"
| "event_name (ToolExecEnd _) = ''ToolExecEnd''"
| "event_name (ToolSettle _) = ''ToolSettle''"
| "event_name (ToolBackground _ _ _) = ''ToolBackground''"
| "event_name PolicyTighten = ''PolicyTighten''"
| "event_name (AgentSpawn _ _) = ''AgentSpawn''"
| "event_name (AgentComplete _ _) = ''AgentComplete''"
| "event_name (AgentFold _ _) = ''AgentFold''"
| "event_name (TaskWait _ _) = ''TaskWait''"
| "event_name (TaskWaitTimeout _ _) = ''TaskWaitTimeout''"
| "event_name (TaskWaitDeliver _ _) = ''TaskWaitDeliver''"

definition NAMES :: "string list" where
  "NAMES = [''TurnStart'', ''TurnCancel'', ''TurnEnd'', ''ContextEdit'', ''RoundStart'',
     ''RoundEnd'', ''SteerEnqueue'', ''SteerJoin'', ''ToolRequest'', ''ToolAllow'',
     ''ToolApprove'', ''ToolDeny'', ''PolicyTighten'', ''ToolExecStart'', ''ToolExecEnd'',
     ''ToolSettle'', ''ToolBackground'', ''AgentSpawn'', ''AgentComplete'', ''AgentFold'',
     ''TaskWait'', ''TaskWaitTimeout'', ''TaskWaitDeliver'']"

datatype kguard =
    GTurnIdle | GTurnRunning | GTurnActive | GRoundPrep | GRoundIn | GAgentsQuiet | GNoDebt
  | GWakeFoldEmpty | GRoundDue | GNoSteer | GSteerPending | GCallsUnused | GNoWaits
  | GCallInScope | GAgentInScope | GTaskIdInScope
  | GCallUnused | GCallGrantable | GNotDanger | GDanger | GCallRequested | GCallFresh
  | GCallExecuting | GCallInExecution | GCallSettleable
  | GCapacity | GAgentNone | GIdFresh | GIdCurrent | GAgentRunning | GAgentDone
  | GAgentPresent | GNotWaited | GWaited

record kernel_refusal =
  ref_event :: string
  ref_guard :: kguard

record kernel_state =
  turn :: turn_phase
  round :: round_phase
  round_due :: bool
  steer_pending :: bool
  wake_fold_pending :: "slot_id list"
  calls :: "call_slot list"
  agents :: "agent_slot list"

definition kernel_state_new :: "kernel_config \<Rightarrow> kernel_state" where
  "kernel_state_new cfg =
     \<lparr>turn = TurnIdle, round = Prep, round_due = False, steer_pending = False,
      wake_fold_pending = [],
      calls = replicate (call_slots cfg) \<lparr>call_phase = Unused, danger = False, fresh = False\<rparr>,
      agents = replicate (agent_slots cfg) \<lparr>agent_phase = NoAgent, rid = 1, waited = False\<rparr>\<rparr>"

definition running_agents :: "kernel_state \<Rightarrow> nat" where
  "running_agents s = length (filter (\<lambda>a. agent_phase a = AgentRunning) (agents s))"

record kernel =
  config :: kernel_config
  state :: kernel_state

definition kernel_new :: "kernel_config \<Rightarrow> kernel" where
  "kernel_new cfg = \<lparr>config = cfg, state = kernel_state_new cfg\<rparr>"

section \<open>Guards\<close>

type_synonym outcome = "kernel_refusal + kernel_state"

definition guard :: "bool \<Rightarrow> string \<Rightarrow> kguard \<Rightarrow> outcome \<Rightarrow> outcome" where
  "guard cond event g k = (if cond then k else Inl \<lparr>ref_event = event, ref_guard = g\<rparr>)"

definition with_call :: "kernel_state \<Rightarrow> slot_id \<Rightarrow> string \<Rightarrow> (call_slot \<Rightarrow> outcome) \<Rightarrow> outcome" where
  "with_call s c event k =
     (case slot_get (calls s) c of
        None \<Rightarrow> Inl \<lparr>ref_event = event, ref_guard = GCallInScope\<rparr>
      | Some x \<Rightarrow> k x)"

definition with_agent :: "kernel_state \<Rightarrow> slot_id \<Rightarrow> string \<Rightarrow> (agent_slot \<Rightarrow> outcome) \<Rightarrow> outcome" where
  "with_agent s a event k =
     (case slot_get (agents s) a of
        None \<Rightarrow> Inl \<lparr>ref_event = event, ref_guard = GAgentInScope\<rparr>
      | Some x \<Rightarrow> k x)"

definition tid_in_scope :: "kernel_config \<Rightarrow> task_id \<Rightarrow> string \<Rightarrow> outcome \<Rightarrow> outcome" where
  "tid_in_scope cfg r event k =
     (if 1 \<le> r \<and> r \<le> task_ids cfg then k
      else Inl \<lparr>ref_event = event, ref_guard = GTaskIdInScope\<rparr>)"

lemma guard_Inr [simp]: "guard p e g k = Inr s \<longleftrightarrow> p \<and> k = Inr s"
  by (simp add: guard_def)

lemma with_call_Inr [simp]:
  "with_call s c e k = Inr s' \<longleftrightarrow> (\<exists>x. x \<in> set (calls s) \<and> slot_get (calls s) c = Some x \<and> k x = Inr s')"
  by (auto simp: with_call_def slot_get_in_set split: option.splits)

lemma with_agent_Inr [simp]:
  "with_agent s c e k = Inr s' \<longleftrightarrow> (\<exists>x. x \<in> set (agents s) \<and> slot_get (agents s) c = Some x \<and> k x = Inr s')"
  by (auto simp: with_agent_def slot_get_in_set split: option.splits)

lemma tid_in_scope_Inr [simp]:
  "tid_in_scope cfg r e k = Inr s \<longleftrightarrow> 1 \<le> r \<and> r \<le> task_ids cfg \<and> k = Inr s"
  by (auto simp: tid_in_scope_def)

lemma guard_Inl:
  "guard p e g k = Inl x \<longleftrightarrow> (if p then k = Inl x else x = \<lparr>ref_event = e, ref_guard = g\<rparr>)"
  by (auto simp: guard_def)

lemma with_call_Inl:
  "with_call s c e k = Inl x \<longleftrightarrow>
     (case slot_get (calls s) c of None \<Rightarrow> x = \<lparr>ref_event = e, ref_guard = GCallInScope\<rparr>
      | Some y \<Rightarrow> k y = Inl x)"
  by (auto simp: with_call_def split: option.splits)

lemma with_agent_Inl:
  "with_agent s c e k = Inl x \<longleftrightarrow>
     (case slot_get (agents s) c of None \<Rightarrow> x = \<lparr>ref_event = e, ref_guard = GAgentInScope\<rparr>
      | Some y \<Rightarrow> k y = Inl x)"
  by (auto simp: with_agent_def split: option.splits)

lemma tid_in_scope_Inl:
  "tid_in_scope cfg r e k = Inl x \<longleftrightarrow>
     (if 1 \<le> r \<and> r \<le> task_ids cfg then k = Inl x
      else x = \<lparr>ref_event = e, ref_guard = GTaskIdInScope\<rparr>)"
  by (auto simp: tid_in_scope_def)

lemmas refusal_iffs = guard_Inl with_call_Inl with_agent_Inl tid_in_scope_Inl

abbreviation set_call :: "kernel_state \<Rightarrow> slot_id \<Rightarrow> call_slot \<Rightarrow> kernel_state" where
  "set_call s c x \<equiv> s\<lparr>calls := (calls s)[c - 1 := x]\<rparr>"

abbreviation set_agent :: "kernel_state \<Rightarrow> slot_id \<Rightarrow> agent_slot \<Rightarrow> kernel_state" where
  "set_agent s a x \<equiv> s\<lparr>agents := (agents s)[a - 1 := x]\<rparr>"

section \<open>Turn and round events\<close>

definition done_slots :: "agent_slot list \<Rightarrow> slot_id list" where
  "done_slots as =
     map (\<lambda>(index, _). index + 1)
       (filter (\<lambda>(_, slot). agent_phase slot = AgentDone) (enumerate 0 as))"

definition on_TurnStart :: "kernel_state \<Rightarrow> outcome" where
  [handler_defs]: "on_TurnStart s =
     guard (turn s = TurnIdle) ''TurnStart'' GTurnIdle
       (Inr (s\<lparr>turn := TurnRunning, round_due := True,
               wake_fold_pending := done_slots (agents s)\<rparr>))"

definition on_TurnCancel :: "kernel_state \<Rightarrow> outcome" where
  [handler_defs]: "on_TurnCancel s =
     guard (turn s = TurnRunning) ''TurnCancel'' GTurnRunning
       (Inr (s\<lparr>turn := TurnCancelling,
               agents := map (\<lambda>slot. slot\<lparr>waited := False\<rparr>) (agents s)\<rparr>))"

definition on_TurnEnd :: "kernel_state \<Rightarrow> outcome" where
  [handler_defs]: "on_TurnEnd s =
     guard (turn s = TurnRunning \<or> turn s = TurnCancelling) ''TurnEnd'' GTurnActive
    (guard (round s = Prep) ''TurnEnd'' GRoundPrep
    (guard (\<forall>x \<in> set (agents s).
              agent_phase x = NoAgent \<or> agent_phase x = AgentRunning
              \<or> (turn s = TurnCancelling \<and> agent_phase x = AgentDone)) ''TurnEnd'' GAgentsQuiet
    (guard (turn s = TurnCancelling \<or> (\<not> round_due s \<and> \<not> steer_pending s)) ''TurnEnd'' GNoDebt
       (Inr (s\<lparr>turn := TurnIdle, round_due := False\<rparr>)))))"

definition on_ContextEdit :: "kernel_state \<Rightarrow> outcome" where
  [handler_defs]: "on_ContextEdit s = guard (turn s = TurnIdle) ''ContextEdit'' GTurnIdle (Inr s)"

definition on_RoundStart :: "kernel_state \<Rightarrow> outcome" where
  [handler_defs]: "on_RoundStart s =
     guard (turn s = TurnRunning) ''RoundStart'' GTurnRunning
    (guard (wake_fold_pending s = []) ''RoundStart'' GWakeFoldEmpty
    (guard (round s = Prep) ''RoundStart'' GRoundPrep
    (guard (round_due s) ''RoundStart'' GRoundDue
    (guard (\<not> steer_pending s) ''RoundStart'' GNoSteer
       (Inr (s\<lparr>round := InRound, round_due := False\<rparr>))))))"

definition on_RoundEnd :: "kernel_state \<Rightarrow> outcome" where
  [handler_defs]: "on_RoundEnd s =
     guard (round s = InRound) ''RoundEnd'' GRoundIn
    (guard (\<forall>x \<in> set (calls s). call_phase x = Unused) ''RoundEnd'' GCallsUnused
    (guard (\<forall>x \<in> set (agents s). \<not> waited x) ''RoundEnd'' GNoWaits
       (Inr (s\<lparr>round := Prep\<rparr>))))"

definition on_SteerEnqueue :: "kernel_state \<Rightarrow> outcome" where
  [handler_defs]: "on_SteerEnqueue s =
     guard (turn s = TurnRunning \<or> turn s = TurnCancelling) ''SteerEnqueue'' GTurnActive
       (Inr (s\<lparr>steer_pending := True\<rparr>))"

definition on_SteerJoin :: "kernel_state \<Rightarrow> outcome" where
  [handler_defs]: "on_SteerJoin s =
     guard (turn s = TurnRunning) ''SteerJoin'' GTurnRunning
    (guard (round s = Prep) ''SteerJoin'' GRoundPrep
    (guard (steer_pending s) ''SteerJoin'' GSteerPending
       (Inr (s\<lparr>steer_pending := False, round_due := True\<rparr>))))"

section \<open>Call events\<close>

definition on_ToolRequest :: "kernel_state \<Rightarrow> slot_id \<Rightarrow> bool \<Rightarrow> outcome" where
  [handler_defs]: "on_ToolRequest s c d =
     guard (turn s = TurnRunning) ''ToolRequest'' GTurnRunning
    (guard (round s = InRound) ''ToolRequest'' GRoundIn
    (with_call s c ''ToolRequest'' (\<lambda>slot.
     guard (call_phase slot = Unused) ''ToolRequest'' GCallUnused
       (Inr (set_call s c (slot\<lparr>call_phase := Requested, danger := d, fresh := False\<rparr>))))))"

definition on_ToolAllow :: "kernel_state \<Rightarrow> slot_id \<Rightarrow> outcome" where
  [handler_defs]: "on_ToolAllow s c =
     guard (turn s = TurnRunning) ''ToolAllow'' GTurnRunning
    (with_call s c ''ToolAllow'' (\<lambda>slot.
     guard (call_phase slot = Requested \<or> call_phase slot = Allowed) ''ToolAllow'' GCallGrantable
    (guard (\<not> danger slot) ''ToolAllow'' GNotDanger
       (Inr (set_call s c (slot\<lparr>call_phase := Allowed, fresh := True\<rparr>))))))"

definition on_ToolApprove :: "kernel_state \<Rightarrow> slot_id \<Rightarrow> outcome" where
  [handler_defs]: "on_ToolApprove s c =
     guard (turn s = TurnRunning) ''ToolApprove'' GTurnRunning
    (with_call s c ''ToolApprove'' (\<lambda>slot.
     guard (call_phase slot = Requested \<or> call_phase slot = Allowed) ''ToolApprove'' GCallGrantable
    (guard (danger slot) ''ToolApprove'' GDanger
       (Inr (set_call s c (slot\<lparr>call_phase := Allowed, fresh := True\<rparr>))))))"

definition on_ToolDeny :: "kernel_state \<Rightarrow> slot_id \<Rightarrow> outcome" where
  [handler_defs]: "on_ToolDeny s c =
     guard (turn s = TurnRunning) ''ToolDeny'' GTurnRunning
    (with_call s c ''ToolDeny'' (\<lambda>slot.
     guard (call_phase slot = Requested) ''ToolDeny'' GCallRequested
       (Inr (set_call s c (slot\<lparr>call_phase := Denied, fresh := False\<rparr>)))))"

definition on_PolicyTighten :: "kernel_state \<Rightarrow> outcome" where
  [handler_defs]: "on_PolicyTighten s =
     Inr (s\<lparr>calls := map (\<lambda>slot. slot\<lparr>fresh := False\<rparr>) (calls s)\<rparr>)"

definition on_ToolExecStart :: "kernel_state \<Rightarrow> slot_id \<Rightarrow> outcome" where
  [handler_defs]: "on_ToolExecStart s c =
     guard (turn s = TurnRunning) ''ToolExecStart'' GTurnRunning
    (with_call s c ''ToolExecStart'' (\<lambda>slot.
     guard (fresh slot) ''ToolExecStart'' GCallFresh
       (Inr (set_call s c (slot\<lparr>call_phase := Executing, fresh := False\<rparr>)))))"

definition on_ToolExecEnd :: "kernel_state \<Rightarrow> slot_id \<Rightarrow> outcome" where
  [handler_defs]: "on_ToolExecEnd s c =
     with_call s c ''ToolExecEnd'' (\<lambda>slot.
     guard (call_phase slot = Executing \<or> call_phase slot = ExecBg) ''ToolExecEnd'' GCallInExecution
       (Inr (set_call s c (slot\<lparr>call_phase := CallDone\<rparr>))))"

definition settleable :: "turn_phase \<Rightarrow> call_phase \<Rightarrow> bool" where
  "settleable t p \<longleftrightarrow>
     p = CallDone \<or> p = Denied \<or> ((p = Requested \<or> p = Allowed) \<and> t = TurnCancelling)"

definition on_ToolSettle :: "kernel_state \<Rightarrow> slot_id \<Rightarrow> outcome" where
  [handler_defs]: "on_ToolSettle s c =
     with_call s c ''ToolSettle'' (\<lambda>slot.
     guard (settleable (turn s) (call_phase slot)) ''ToolSettle'' GCallSettleable
       (Inr ((set_call s c (slot\<lparr>call_phase := Unused, fresh := False\<rparr>))\<lparr>round_due := True\<rparr>)))"

definition on_ToolBackground ::
  "kernel_config \<Rightarrow> kernel_state \<Rightarrow> slot_id \<Rightarrow> slot_id \<Rightarrow> task_id \<Rightarrow> outcome" where
  [handler_defs]: "on_ToolBackground cfg s c a r =
     guard (turn s = TurnRunning) ''ToolBackground'' GTurnRunning
    (with_call s c ''ToolBackground'' (\<lambda>call.
     guard (call_phase call = Executing) ''ToolBackground'' GCallExecuting
    (guard (running_agents s < max_live_agents cfg) ''ToolBackground'' GCapacity
    (tid_in_scope cfg r ''ToolBackground''
    (with_agent s a ''ToolBackground'' (\<lambda>agent.
     guard (agent_phase agent = NoAgent) ''ToolBackground'' GAgentNone
    (guard (r \<noteq> rid agent) ''ToolBackground'' GIdFresh
       (Inr (set_agent (set_call s c (call\<lparr>call_phase := ExecBg\<rparr>)) a
               (agent\<lparr>agent_phase := AgentRunning, rid := r\<rparr>))))))))))"

section \<open>Task events\<close>

definition on_AgentSpawn :: "kernel_config \<Rightarrow> kernel_state \<Rightarrow> slot_id \<Rightarrow> task_id \<Rightarrow> outcome" where
  [handler_defs]: "on_AgentSpawn cfg s a r =
     guard (turn s = TurnRunning) ''AgentSpawn'' GTurnRunning
    (guard (round s = InRound) ''AgentSpawn'' GRoundIn
    (tid_in_scope cfg r ''AgentSpawn''
    (with_agent s a ''AgentSpawn'' (\<lambda>slot.
     guard (agent_phase slot = NoAgent) ''AgentSpawn'' GAgentNone
    (guard (running_agents s < max_live_agents cfg) ''AgentSpawn'' GCapacity
    (guard (r \<noteq> rid slot) ''AgentSpawn'' GIdFresh
       (Inr ((set_agent s a (slot\<lparr>agent_phase := AgentRunning, rid := r\<rparr>))\<lparr>round_due := True\<rparr>))))))))"

definition on_AgentComplete :: "kernel_config \<Rightarrow> kernel_state \<Rightarrow> slot_id \<Rightarrow> task_id \<Rightarrow> outcome" where
  [handler_defs]: "on_AgentComplete cfg s a r =
     tid_in_scope cfg r ''AgentComplete''
    (with_agent s a ''AgentComplete'' (\<lambda>slot.
     guard (agent_phase slot = AgentRunning) ''AgentComplete'' GAgentRunning
    (guard (r = rid slot) ''AgentComplete'' GIdCurrent
       (Inr (set_agent s a (slot\<lparr>agent_phase := AgentDone\<rparr>))))))"

definition on_AgentFold :: "kernel_config \<Rightarrow> kernel_state \<Rightarrow> slot_id \<Rightarrow> task_id \<Rightarrow> outcome" where
  [handler_defs]: "on_AgentFold cfg s a r =
     guard (turn s = TurnRunning) ''AgentFold'' GTurnRunning
    (guard (round s = Prep) ''AgentFold'' GRoundPrep
    (tid_in_scope cfg r ''AgentFold''
    (with_agent s a ''AgentFold'' (\<lambda>slot.
     guard (agent_phase slot = AgentDone) ''AgentFold'' GAgentDone
    (guard (r = rid slot) ''AgentFold'' GIdCurrent
       (Inr ((set_agent s a (slot\<lparr>agent_phase := NoAgent\<rparr>))
               \<lparr>wake_fold_pending := filter (\<lambda>pending. pending \<noteq> a) (wake_fold_pending s),
                round_due := True\<rparr>)))))))"

definition on_TaskWait :: "kernel_config \<Rightarrow> kernel_state \<Rightarrow> slot_id \<Rightarrow> task_id \<Rightarrow> outcome" where
  [handler_defs]: "on_TaskWait cfg s a r =
     guard (turn s = TurnRunning) ''TaskWait'' GTurnRunning
    (guard (round s = InRound) ''TaskWait'' GRoundIn
    (tid_in_scope cfg r ''TaskWait''
    (with_agent s a ''TaskWait'' (\<lambda>slot.
     guard (agent_phase slot \<noteq> NoAgent) ''TaskWait'' GAgentPresent
    (guard (\<not> waited slot) ''TaskWait'' GNotWaited
    (guard (r = rid slot) ''TaskWait'' GIdCurrent
       (Inr (set_agent s a (slot\<lparr>waited := True\<rparr>)))))))))"

definition on_TaskWaitTimeout :: "kernel_config \<Rightarrow> kernel_state \<Rightarrow> slot_id \<Rightarrow> task_id \<Rightarrow> outcome" where
  [handler_defs]: "on_TaskWaitTimeout cfg s a r =
     tid_in_scope cfg r ''TaskWaitTimeout''
    (with_agent s a ''TaskWaitTimeout'' (\<lambda>slot.
     guard (waited slot) ''TaskWaitTimeout'' GWaited
    (guard (agent_phase slot = AgentRunning) ''TaskWaitTimeout'' GAgentRunning
    (guard (r = rid slot) ''TaskWaitTimeout'' GIdCurrent
       (Inr ((set_agent s a (slot\<lparr>waited := False\<rparr>))\<lparr>round_due := True\<rparr>))))))"

definition on_TaskWaitDeliver :: "kernel_config \<Rightarrow> kernel_state \<Rightarrow> slot_id \<Rightarrow> task_id \<Rightarrow> outcome" where
  [handler_defs]: "on_TaskWaitDeliver cfg s a r =
     tid_in_scope cfg r ''TaskWaitDeliver''
    (with_agent s a ''TaskWaitDeliver'' (\<lambda>slot.
     guard (waited slot) ''TaskWaitDeliver'' GWaited
    (guard (agent_phase slot = AgentDone) ''TaskWaitDeliver'' GAgentDone
    (guard (r = rid slot) ''TaskWaitDeliver'' GIdCurrent
       (Inr ((set_agent s a (slot\<lparr>agent_phase := NoAgent, waited := False\<rparr>))
               \<lparr>round_due := True\<rparr>))))))"

section \<open>The step\<close>

fun step_state :: "kernel_config \<Rightarrow> kernel_state \<Rightarrow> kernel_event \<Rightarrow> outcome" where
  "step_state cfg s TurnStart = on_TurnStart s"
| "step_state cfg s TurnCancel = on_TurnCancel s"
| "step_state cfg s TurnEnd = on_TurnEnd s"
| "step_state cfg s ContextEdit = on_ContextEdit s"
| "step_state cfg s RoundStart = on_RoundStart s"
| "step_state cfg s RoundEnd = on_RoundEnd s"
| "step_state cfg s SteerEnqueue = on_SteerEnqueue s"
| "step_state cfg s SteerJoin = on_SteerJoin s"
| "step_state cfg s (ToolRequest c d) = on_ToolRequest s c d"
| "step_state cfg s (ToolAllow c) = on_ToolAllow s c"
| "step_state cfg s (ToolApprove c) = on_ToolApprove s c"
| "step_state cfg s (ToolDeny c) = on_ToolDeny s c"
| "step_state cfg s PolicyTighten = on_PolicyTighten s"
| "step_state cfg s (ToolExecStart c) = on_ToolExecStart s c"
| "step_state cfg s (ToolExecEnd c) = on_ToolExecEnd s c"
| "step_state cfg s (ToolSettle c) = on_ToolSettle s c"
| "step_state cfg s (ToolBackground c a r) = on_ToolBackground cfg s c a r"
| "step_state cfg s (AgentSpawn a r) = on_AgentSpawn cfg s a r"
| "step_state cfg s (AgentComplete a r) = on_AgentComplete cfg s a r"
| "step_state cfg s (AgentFold a r) = on_AgentFold cfg s a r"
| "step_state cfg s (TaskWait a r) = on_TaskWait cfg s a r"
| "step_state cfg s (TaskWaitTimeout a r) = on_TaskWaitTimeout cfg s a r"
| "step_state cfg s (TaskWaitDeliver a r) = on_TaskWaitDeliver cfg s a r"

text \<open>
  \<open>Kernel::step\<close> mutates the kernel; every guard precedes the first write, so a refusal
  leaves the state as it was, which the pair below writes out.
\<close>

definition kernel_step :: "kernel \<Rightarrow> kernel_event \<Rightarrow> (kernel_refusal + unit) \<times> kernel" where
  "kernel_step k e =
     (case step_state (config k) (state k) e of
        Inl refusal \<Rightarrow> (Inl refusal, k)
      | Inr s' \<Rightarrow> (Inr (), k\<lparr>state := s'\<rparr>))"

fun run_events :: "kernel_config \<Rightarrow> kernel_state \<Rightarrow> kernel_event list \<Rightarrow> outcome" where
  "run_events cfg s [] = Inr s"
| "run_events cfg s (e # es) =
     (case step_state cfg s e of Inl r \<Rightarrow> Inl r | Inr s' \<Rightarrow> run_events cfg s' es)"

lemma run_events_append:
  "run_events cfg s (es @ fs) =
     (case run_events cfg s es of Inl r \<Rightarrow> Inl r | Inr s' \<Rightarrow> run_events cfg s' fs)"
  by (induction es arbitrary: s) (auto split: sum.splits)

end
