(* ===== verification/KernelInv.thy ===== *)
theory KernelInv
  imports Kernel
begin

text \<open>
  The invariants the kernel promises (the \<open>Inv...\<close> predicates of
  \<^verbatim>\<open>formal/tla/AgentKernel.tla\<close>, with what makes them inductive) and their preservation by
  every event, packaged as an interpretation of \<open>refusable_machine\<close>.
\<close>

section \<open>The invariant\<close>

definition config_ok :: "kernel_config \<Rightarrow> bool" where
  "config_ok cfg \<longleftrightarrow> call_slots cfg \<le> isize_max \<and> agent_slots cfg \<le> isize_max \<and> 1 \<le> task_ids cfg"

definition inv_scope :: "kernel_config \<Rightarrow> kernel_state \<Rightarrow> bool" where
  "inv_scope cfg s \<longleftrightarrow>
     config_ok cfg \<and> length (calls s) = call_slots cfg \<and> length (agents s) = agent_slots cfg
     \<and> (\<forall>x \<in> set (agents s). 1 \<le> rid x \<and> rid x \<le> task_ids cfg)"

definition inv_quiescent_idle :: "kernel_state \<Rightarrow> bool" where
  "inv_quiescent_idle s \<longleftrightarrow>
     (turn s = TurnIdle \<longrightarrow>
        (\<forall>x \<in> set (calls s). call_phase x = Unused) \<and> round s = Prep \<and> \<not> round_due s)"

definition inv_calls_in_round :: "kernel_state \<Rightarrow> bool" where
  "inv_calls_in_round s \<longleftrightarrow> (round s = Prep \<longrightarrow> (\<forall>x \<in> set (calls s). call_phase x = Unused))"

definition inv_wait_pending :: "kernel_state \<Rightarrow> bool" where
  "inv_wait_pending s \<longleftrightarrow>
     (\<forall>x \<in> set (agents s). waited x \<longrightarrow>
        turn s = TurnRunning \<and> round s = InRound \<and> agent_phase x \<noteq> NoAgent)"

definition inv_capacity :: "kernel_config \<Rightarrow> kernel_state \<Rightarrow> bool" where
  "inv_capacity cfg s \<longleftrightarrow> running_agents s \<le> max_live_agents cfg"

definition inv_fresh_only_allowed :: "kernel_state \<Rightarrow> bool" where
  "inv_fresh_only_allowed s \<longleftrightarrow> (\<forall>x \<in> set (calls s). fresh x \<longrightarrow> call_phase x = Allowed)"

definition inv_wake_fold :: "kernel_state \<Rightarrow> bool" where
  "inv_wake_fold s \<longleftrightarrow>
     (wake_fold_pending s \<noteq> [] \<longrightarrow> round s = Prep)
     \<and> (\<forall>i \<in> set (wake_fold_pending s).
          1 \<le> i \<and> i \<le> length (agents s) \<and> agent_phase (agents s ! (i - 1)) = AgentDone)"

definition kernel_inv :: "kernel_config \<Rightarrow> kernel_state \<Rightarrow> bool" where
  "kernel_inv cfg s \<longleftrightarrow>
     inv_scope cfg s \<and> inv_quiescent_idle s \<and> inv_calls_in_round s \<and> inv_wait_pending s
     \<and> inv_capacity cfg s \<and> inv_fresh_only_allowed s \<and> inv_wake_fold s"

lemmas kernel_inv_defs =
  kernel_inv_def inv_scope_def inv_quiescent_idle_def inv_calls_in_round_def
  inv_wait_pending_def inv_capacity_def inv_fresh_only_allowed_def inv_wake_fold_def

section \<open>Slots under the scope invariant\<close>

lemma scope_lengths:
  assumes "inv_scope cfg s"
  shows "length (calls s) \<le> isize_max" and "length (agents s) \<le> isize_max"
  using assms by (simp_all add: inv_scope_def config_ok_def)

lemma call_slotD:
  assumes "inv_scope cfg s" and "slot_get (calls s) c = Some x"
  shows "1 \<le> c \<and> c \<le> length (calls s) \<and> x = calls s ! (c - 1)"
  using slot_get_SomeD [OF assms(2)] scope_lengths [OF assms(1)] by blast

lemma agent_slotD:
  assumes "inv_scope cfg s" and "slot_get (agents s) a = Some x"
  shows "1 \<le> a \<and> a \<le> length (agents s) \<and> x = agents s ! (a - 1)"
  using slot_get_SomeD [OF assms(2)] scope_lengths [OF assms(1)] by blast

lemma set_done_slots:
  "i \<in> set (done_slots xs) \<longleftrightarrow>
     1 \<le> i \<and> i \<le> length xs \<and> agent_phase (xs ! (i - 1)) = AgentDone"
proof
  assume "i \<in> set (done_slots xs)"
  then show "1 \<le> i \<and> i \<le> length xs \<and> agent_phase (xs ! (i - 1)) = AgentDone"
    by (auto simp: done_slots_def in_set_enumerate_eq)
next
  assume i: "1 \<le> i \<and> i \<le> length xs \<and> agent_phase (xs ! (i - 1)) = AgentDone"
  then have "(i - 1, xs ! (i - 1)) \<in> set (enumerate 0 xs)"
    by (auto simp: in_set_enumerate_eq)
  with i show "i \<in> set (done_slots xs)"
    by (force simp: done_slots_def image_iff)
qed

section \<open>Preservation, one conjunct at a time\<close>

lemma step_scope:
  assumes "inv_scope cfg s" and "step_state cfg s e = Inr s'"
  shows "inv_scope cfg s'"
  using assms
  by (cases e)
     (auto simp: handler_defs inv_scope_def dest!: set_updateD
           dest: slot_get_in_set)

lemma step_quiescent_idle:
  assumes "kernel_inv cfg s" and "step_state cfg s e = Inr s'"
  shows "inv_quiescent_idle s'"
  using assms
  by (cases e)
     (auto simp: handler_defs kernel_inv_def inv_quiescent_idle_def inv_calls_in_round_def
        inv_wait_pending_def settleable_def
      dest!: set_updateD dest: slot_get_in_set)

lemma step_calls_in_round:
  assumes "kernel_inv cfg s" and "step_state cfg s e = Inr s'"
  shows "inv_calls_in_round s'"
  using assms
  by (cases e)
     (auto simp: handler_defs kernel_inv_def inv_quiescent_idle_def inv_calls_in_round_def
        inv_fresh_only_allowed_def settleable_def
      dest!: set_updateD dest: slot_get_in_set)

lemma step_wait_pending:
  assumes "kernel_inv cfg s" and "step_state cfg s e = Inr s'"
  shows "inv_wait_pending s'"
  using assms
  by (cases e)
     (auto simp: handler_defs kernel_inv_def inv_wait_pending_def dest!: set_updateD)

lemma step_fresh_only_allowed:
  assumes "kernel_inv cfg s" and "step_state cfg s e = Inr s'"
  shows "inv_fresh_only_allowed s'"
  using assms
  by (cases e)
     (auto simp: handler_defs kernel_inv_def inv_fresh_only_allowed_def dest!: set_updateD)

text \<open>How each event moves the count of running tasks.\<close>

lemma running_agents_set_agent:
  assumes "inv_scope cfg s" and "slot_get (agents s) a = Some x"
  shows "running_agents (set_agent s a y) + (if agent_phase x = AgentRunning then 1 else 0)
       = running_agents s + (if agent_phase y = AgentRunning then 1 else 0)"
proof -
  have "a - 1 < length (agents s)" and "x = agents s ! (a - 1)"
    using agent_slotD [OF assms] by auto
  then show ?thesis
    using length_filter_update [of "a - 1" "agents s" "\<lambda>a. agent_phase a = AgentRunning" y]
    by (simp add: running_agents_def)
qed

lemma running_set_same:
  assumes "inv_scope cfg s" and "slot_get (agents s) a = Some x"
    and "agent_phase x = AgentRunning \<longleftrightarrow> agent_phase y = AgentRunning"
  shows "running_agents (set_agent s a y) = running_agents s"
  using running_agents_set_agent [OF assms(1,2), of y] assms(3) by (auto split: if_splits)

lemma running_set_start:
  assumes "inv_scope cfg s" and "slot_get (agents s) a = Some x"
    and "agent_phase x \<noteq> AgentRunning" and "agent_phase y = AgentRunning"
  shows "running_agents (set_agent s a y) = running_agents s + 1"
  using running_agents_set_agent [OF assms(1,2), of y] assms(3,4) by auto

lemma running_set_stop:
  assumes "inv_scope cfg s" and "slot_get (agents s) a = Some x"
    and "agent_phase x = AgentRunning" and "agent_phase y \<noteq> AgentRunning"
  shows "running_agents (set_agent s a y) = running_agents s - 1"
  using running_agents_set_agent [OF assms(1,2), of y] assms(3,4) by auto

lemma running_agents_frame [simp]:
  "running_agents (s\<lparr>turn := t\<rparr>) = running_agents s"
  "running_agents (s\<lparr>round := rd\<rparr>) = running_agents s"
  "running_agents (s\<lparr>round_due := b\<rparr>) = running_agents s"
  "running_agents (s\<lparr>steer_pending := b\<rparr>) = running_agents s"
  "running_agents (s\<lparr>wake_fold_pending := w\<rparr>) = running_agents s"
  "running_agents (s\<lparr>calls := cs\<rparr>) = running_agents s"
  by (simp_all add: running_agents_def)

lemma running_agents_unwait [simp]:
  "running_agents (s\<lparr>turn := t, agents := map (\<lambda>slot. slot\<lparr>waited := False\<rparr>) (agents s)\<rparr>)
     = running_agents s"
  by (simp add: running_agents_def filter_map comp_def)

fun starts_task :: "kernel_event \<Rightarrow> bool" where
  "starts_task (ToolBackground _ _ _) = True"
| "starts_task (AgentSpawn _ _) = True"
| "starts_task _ = False"

lemma step_running_agents:
  assumes scope: "inv_scope cfg s" and step: "step_state cfg s e = Inr s'"
  shows "running_agents s' =
    (if starts_task e then running_agents s + 1
     else case e of AgentComplete _ _ \<Rightarrow> running_agents s - 1 | _ \<Rightarrow> running_agents s)"
proof -
  have frame: "running_agents (s\<lparr>calls := cs, agents := as\<rparr>) = running_agents (s\<lparr>agents := as\<rparr>)" for cs as
    by (simp add: running_agents_def)
  note count = running_set_same [OF scope, unfolded One_nat_def]
    running_set_start [OF scope, unfolded One_nat_def]
    running_set_stop [OF scope, unfolded One_nat_def]
  show ?thesis
    using step by (cases e) (auto simp: handler_defs count frame)
qed

lemma starts_task_capacity:
  assumes "step_state cfg s e = Inr s'" and "starts_task e"
  shows "running_agents s < max_live_agents cfg"
  using assms by (cases e) (auto simp: handler_defs)

lemma step_capacity:
  assumes inv: "kernel_inv cfg s" and step: "step_state cfg s e = Inr s'"
  shows "inv_capacity cfg s'"
proof -
  have scope: "inv_scope cfg s" and cap: "running_agents s \<le> max_live_agents cfg"
    using inv by (simp_all add: kernel_inv_def inv_capacity_def)
  show ?thesis
    using step_running_agents [OF scope step] starts_task_capacity [OF step] cap
    by (auto simp: inv_capacity_def split: if_splits kernel_event.splits)
qed

lemma wake_slot_done:
  assumes "inv_wake_fold s" and "i \<in> set (wake_fold_pending s)"
    and "inv_scope cfg s" and "slot_get (agents s) a = Some x" and "agent_phase x \<noteq> AgentDone"
  shows "i - 1 \<noteq> a - 1"
proof -
  have "agent_phase (agents s ! (i - 1)) = AgentDone"
    using assms(1,2) by (simp add: inv_wake_fold_def)
  moreover have "x = agents s ! (a - 1)" using agent_slotD [OF assms(3,4)] by simp
  ultimately show ?thesis using assms(5) by auto
qed

lemma step_wake_fold:
  assumes inv: "kernel_inv cfg s" and step: "step_state cfg s e = Inr s'"
  shows "inv_wake_fold s'"
proof -
  have scope: "inv_scope cfg s" and wake: "inv_wake_fold s" and idle: "inv_quiescent_idle s"
    and calls: "inv_calls_in_round s" and wait: "inv_wait_pending s"
    using inv by (simp_all add: kernel_inv_def)
  have lens: "length (calls s) \<le> isize_max" "length (agents s) \<le> isize_max"
    using scope_lengths [OF scope] .
  show ?thesis
  proof (cases e)
    case TurnStart
    with step idle show ?thesis
      by (auto simp: handler_defs inv_wake_fold_def inv_quiescent_idle_def set_done_slots)
  next
    case TurnCancel
    with step have s': "s' = s\<lparr>turn := TurnCancelling,
        agents := map (\<lambda>slot. slot\<lparr>waited := False\<rparr>) (agents s)\<rparr>"
      by (simp add: handler_defs)
    have "i - 1 < length (agents s)" if "i \<in> set (wake_fold_pending s)" for i
      using wake that by (fastforce simp: inv_wake_fold_def)
    with wake show ?thesis by (auto simp: s' inv_wake_fold_def)
  next
    case (ToolBackground c a r)
    with step wake_slot_done [OF wake _ scope] wake show ?thesis
      by (fastforce simp: handler_defs inv_wake_fold_def nth_list_update)
  next
    case (AgentSpawn a r)
    with step wake_slot_done [OF wake _ scope] wake show ?thesis
      by (fastforce simp: handler_defs inv_wake_fold_def nth_list_update)
  next
    case (AgentFold a r)
    with step wake agent_slotD [OF scope] show ?thesis
      by (fastforce simp: handler_defs inv_wake_fold_def nth_list_update)
  next
    case (TaskWaitDeliver a r)
    with step wake wait show ?thesis
      by (auto simp: handler_defs inv_wake_fold_def inv_wait_pending_def)
  next
    case (TaskWaitTimeout a r)
    with step wake wait show ?thesis
      by (auto simp: handler_defs inv_wake_fold_def inv_wait_pending_def)
  next
    case (AgentComplete a r)
    with step wake agent_slotD [OF scope] show ?thesis
      by (fastforce simp: handler_defs inv_wake_fold_def nth_list_update)
  next
    case (TaskWait a r)
    with step wake show ?thesis
      by (auto simp: handler_defs inv_wake_fold_def)
  qed (use step wake in \<open>auto simp: handler_defs inv_wake_fold_def\<close>)
qed

section \<open>The kernel as a refusable machine\<close>

lemma kernel_inv_init: "config_ok cfg \<Longrightarrow> kernel_inv cfg (kernel_state_new cfg)"
  by (simp add: kernel_inv_defs kernel_state_new_def running_agents_def config_ok_def)

lemma kernel_inv_step:
  assumes "kernel_inv cfg s" and "step_state cfg s e = Inr s'"
  shows "kernel_inv cfg s'"
  unfolding kernel_inv_def
  using step_scope [OF _ assms(2)] step_quiescent_idle [OF assms] step_calls_in_round [OF assms]
    step_wait_pending [OF assms] step_capacity [OF assms] step_fresh_only_allowed [OF assms]
    step_wake_fold [OF assms] assms(1)
  by (simp add: kernel_inv_def)

interpretation kern: refusable_machine
  "\<lambda>s. config_ok cfg \<and> s = kernel_state_new cfg" "step_state cfg" "kernel_inv cfg" for cfg
  by unfold_locales (auto intro: kernel_inv_init kernel_inv_step)

lemma mrun_eq_run_events: "kern.mrun cfg s es = run_events cfg s es"
  by (induction es arbitrary: s) (auto split: sum.splits)

lemma run_events_inv: "kernel_inv cfg s \<Longrightarrow> run_events cfg s es = Inr s' \<Longrightarrow> kernel_inv cfg s'"
  using kern.mrun_inv [of cfg s es s'] by (simp add: mrun_eq_run_events)

end
