(* ===== verification/KernelSpec.thy ===== *)
theory KernelSpec
  imports KernelInv
begin

text \<open>
  The abstract specification of the kernel: the TLA+ actions of
  \<^verbatim>\<open>formal/tla/AgentKernel.tla\<close> over functions on slots and a set of owed folds, without the
  ghost variables that audit the guards. One rule per action, with the quantifier bounds of
  \<open>Next\<close> as premises. The theorem below says that the Rust kernel and the actions allow the
  same events with the same results.
\<close>

record tla_state =
  t_turn :: turn_phase
  t_round :: round_phase
  t_round_due :: bool
  t_steer :: bool
  t_wake :: "nat set"
  t_call :: "nat \<Rightarrow> call_phase"
  t_danger :: "nat \<Rightarrow> bool"
  t_fresh :: "nat \<Rightarrow> bool"
  t_agent :: "nat \<Rightarrow> agent_phase"
  t_rid :: "nat \<Rightarrow> nat"
  t_waited :: "nat \<Rightarrow> bool"

definition Calls :: "kernel_config \<Rightarrow> nat set" where "Calls cfg = {1..call_slots cfg}"

definition Agents :: "kernel_config \<Rightarrow> nat set" where "Agents cfg = {1..agent_slots cfg}"

definition TaskIds :: "kernel_config \<Rightarrow> nat set" where "TaskIds cfg = {1..task_ids cfg}"

definition RunningAgents :: "kernel_config \<Rightarrow> tla_state \<Rightarrow> nat set" where
  "RunningAgents cfg t = {a \<in> Agents cfg. t_agent t a = AgentRunning}"

lemmas scope_sets = Calls_def Agents_def TaskIds_def

inductive tla_step :: "kernel_config \<Rightarrow> tla_state \<Rightarrow> kernel_event \<Rightarrow> tla_state \<Rightarrow> bool"
  for cfg :: kernel_config where
  turn_start: "t_turn t = TurnIdle \<Longrightarrow>
     tla_step cfg t TurnStart
       (t\<lparr>t_turn := TurnRunning, t_round_due := True,
          t_wake := {a \<in> Agents cfg. t_agent t a = AgentDone}\<rparr>)"
| turn_cancel: "t_turn t = TurnRunning \<Longrightarrow>
     tla_step cfg t TurnCancel (t\<lparr>t_turn := TurnCancelling, t_waited := (\<lambda>_. False)\<rparr>)"
| turn_end: "t_turn t \<in> {TurnRunning, TurnCancelling} \<Longrightarrow> t_round t = Prep \<Longrightarrow>
     \<forall>a \<in> Agents cfg. t_agent t a \<in> {NoAgent, AgentRunning}
        \<or> (t_turn t = TurnCancelling \<and> t_agent t a = AgentDone) \<Longrightarrow>
     t_turn t = TurnCancelling \<or> (\<not> t_round_due t \<and> \<not> t_steer t) \<Longrightarrow>
     tla_step cfg t TurnEnd (t\<lparr>t_turn := TurnIdle, t_round_due := False\<rparr>)"
| context_edit: "t_turn t = TurnIdle \<Longrightarrow> tla_step cfg t ContextEdit t"
| round_start: "t_turn t = TurnRunning \<Longrightarrow> t_wake t = {} \<Longrightarrow> t_round t = Prep \<Longrightarrow>
     t_round_due t \<Longrightarrow> \<not> t_steer t \<Longrightarrow>
     tla_step cfg t RoundStart (t\<lparr>t_round := InRound, t_round_due := False\<rparr>)"
| round_end: "t_round t = InRound \<Longrightarrow> \<forall>c \<in> Calls cfg. t_call t c = Unused \<Longrightarrow>
     \<forall>a \<in> Agents cfg. \<not> t_waited t a \<Longrightarrow>
     tla_step cfg t RoundEnd (t\<lparr>t_round := Prep\<rparr>)"
| steer_enqueue: "t_turn t \<in> {TurnRunning, TurnCancelling} \<Longrightarrow>
     tla_step cfg t SteerEnqueue (t\<lparr>t_steer := True\<rparr>)"
| steer_join: "t_turn t = TurnRunning \<Longrightarrow> t_round t = Prep \<Longrightarrow> t_steer t \<Longrightarrow>
     tla_step cfg t SteerJoin (t\<lparr>t_steer := False, t_round_due := True\<rparr>)"
| tool_request: "c \<in> Calls cfg \<Longrightarrow> t_turn t = TurnRunning \<Longrightarrow> t_round t = InRound \<Longrightarrow>
     t_call t c = Unused \<Longrightarrow>
     tla_step cfg t (ToolRequest c d)
       (t\<lparr>t_call := (t_call t)(c := Requested), t_danger := (t_danger t)(c := d),
          t_fresh := (t_fresh t)(c := False)\<rparr>)"
| tool_allow: "c \<in> Calls cfg \<Longrightarrow> t_turn t = TurnRunning \<Longrightarrow>
     t_call t c \<in> {Requested, Allowed} \<Longrightarrow> \<not> t_danger t c \<Longrightarrow>
     tla_step cfg t (ToolAllow c)
       (t\<lparr>t_call := (t_call t)(c := Allowed), t_fresh := (t_fresh t)(c := True)\<rparr>)"
| tool_approve: "c \<in> Calls cfg \<Longrightarrow> t_turn t = TurnRunning \<Longrightarrow>
     t_call t c \<in> {Requested, Allowed} \<Longrightarrow> t_danger t c \<Longrightarrow>
     tla_step cfg t (ToolApprove c)
       (t\<lparr>t_call := (t_call t)(c := Allowed), t_fresh := (t_fresh t)(c := True)\<rparr>)"
| tool_deny: "c \<in> Calls cfg \<Longrightarrow> t_turn t = TurnRunning \<Longrightarrow> t_call t c = Requested \<Longrightarrow>
     tla_step cfg t (ToolDeny c)
       (t\<lparr>t_call := (t_call t)(c := Denied), t_fresh := (t_fresh t)(c := False)\<rparr>)"
| policy_tighten: "tla_step cfg t PolicyTighten (t\<lparr>t_fresh := (\<lambda>_. False)\<rparr>)"
| tool_exec_start: "c \<in> Calls cfg \<Longrightarrow> t_turn t = TurnRunning \<Longrightarrow> t_fresh t c \<Longrightarrow>
     tla_step cfg t (ToolExecStart c)
       (t\<lparr>t_call := (t_call t)(c := Executing), t_fresh := (t_fresh t)(c := False)\<rparr>)"
| tool_exec_end: "c \<in> Calls cfg \<Longrightarrow> t_call t c \<in> {Executing, ExecBg} \<Longrightarrow>
     tla_step cfg t (ToolExecEnd c) (t\<lparr>t_call := (t_call t)(c := CallDone)\<rparr>)"
| tool_settle: "c \<in> Calls cfg \<Longrightarrow>
     t_call t c \<in> {CallDone, Denied}
       \<or> (t_call t c \<in> {Requested, Allowed} \<and> t_turn t = TurnCancelling) \<Longrightarrow>
     tla_step cfg t (ToolSettle c)
       (t\<lparr>t_call := (t_call t)(c := Unused), t_fresh := (t_fresh t)(c := False),
          t_round_due := True\<rparr>)"
| tool_background: "c \<in> Calls cfg \<Longrightarrow> a \<in> Agents cfg \<Longrightarrow> r \<in> TaskIds cfg \<Longrightarrow>
     t_turn t = TurnRunning \<Longrightarrow> t_call t c = Executing \<Longrightarrow>
     card (RunningAgents cfg t) < max_live_agents cfg \<Longrightarrow>
     t_agent t a = NoAgent \<Longrightarrow> r \<noteq> t_rid t a \<Longrightarrow>
     tla_step cfg t (ToolBackground c a r)
       (t\<lparr>t_call := (t_call t)(c := ExecBg), t_agent := (t_agent t)(a := AgentRunning),
          t_rid := (t_rid t)(a := r)\<rparr>)"
| agent_spawn: "a \<in> Agents cfg \<Longrightarrow> r \<in> TaskIds cfg \<Longrightarrow> t_turn t = TurnRunning \<Longrightarrow>
     t_round t = InRound \<Longrightarrow> t_agent t a = NoAgent \<Longrightarrow>
     card (RunningAgents cfg t) < max_live_agents cfg \<Longrightarrow> r \<noteq> t_rid t a \<Longrightarrow>
     tla_step cfg t (AgentSpawn a r)
       (t\<lparr>t_agent := (t_agent t)(a := AgentRunning), t_rid := (t_rid t)(a := r),
          t_round_due := True\<rparr>)"
| agent_complete: "a \<in> Agents cfg \<Longrightarrow> r \<in> TaskIds cfg \<Longrightarrow> t_agent t a = AgentRunning \<Longrightarrow>
     r = t_rid t a \<Longrightarrow>
     tla_step cfg t (AgentComplete a r) (t\<lparr>t_agent := (t_agent t)(a := AgentDone)\<rparr>)"
| agent_fold: "a \<in> Agents cfg \<Longrightarrow> r \<in> TaskIds cfg \<Longrightarrow> t_turn t = TurnRunning \<Longrightarrow>
     t_round t = Prep \<Longrightarrow> t_agent t a = AgentDone \<Longrightarrow> r = t_rid t a \<Longrightarrow>
     tla_step cfg t (AgentFold a r)
       (t\<lparr>t_agent := (t_agent t)(a := NoAgent), t_round_due := True, t_wake := t_wake t - {a}\<rparr>)"
| task_wait: "a \<in> Agents cfg \<Longrightarrow> r \<in> TaskIds cfg \<Longrightarrow> t_turn t = TurnRunning \<Longrightarrow>
     t_round t = InRound \<Longrightarrow> t_agent t a \<noteq> NoAgent \<Longrightarrow> \<not> t_waited t a \<Longrightarrow> r = t_rid t a \<Longrightarrow>
     tla_step cfg t (TaskWait a r) (t\<lparr>t_waited := (t_waited t)(a := True)\<rparr>)"
| task_wait_timeout: "a \<in> Agents cfg \<Longrightarrow> r \<in> TaskIds cfg \<Longrightarrow> t_waited t a \<Longrightarrow>
     t_agent t a = AgentRunning \<Longrightarrow> r = t_rid t a \<Longrightarrow>
     tla_step cfg t (TaskWaitTimeout a r)
       (t\<lparr>t_round_due := True, t_waited := (t_waited t)(a := False)\<rparr>)"
| task_wait_deliver: "a \<in> Agents cfg \<Longrightarrow> r \<in> TaskIds cfg \<Longrightarrow> t_waited t a \<Longrightarrow>
     t_agent t a = AgentDone \<Longrightarrow> r = t_rid t a \<Longrightarrow>
     tla_step cfg t (TaskWaitDeliver a r)
       (t\<lparr>t_agent := (t_agent t)(a := NoAgent), t_waited := (t_waited t)(a := False),
          t_round_due := True\<rparr>)"

inductive_simps tla_turn_iffs:
  "tla_step cfg t TurnStart t'" "tla_step cfg t TurnCancel t'" "tla_step cfg t TurnEnd t'"
  "tla_step cfg t ContextEdit t'" "tla_step cfg t RoundStart t'" "tla_step cfg t RoundEnd t'"
  "tla_step cfg t SteerEnqueue t'" "tla_step cfg t SteerJoin t'"
  "tla_step cfg t PolicyTighten t'"

inductive_simps tla_call_iffs:
  "tla_step cfg t (ToolRequest c d) t'" "tla_step cfg t (ToolAllow c) t'"
  "tla_step cfg t (ToolApprove c) t'" "tla_step cfg t (ToolDeny c) t'"
  "tla_step cfg t (ToolExecStart c) t'" "tla_step cfg t (ToolExecEnd c) t'"
  "tla_step cfg t (ToolSettle c) t'"

inductive_simps tla_task_iffs:
  "tla_step cfg t (ToolBackground c a r) t'" "tla_step cfg t (AgentSpawn a r) t'"
  "tla_step cfg t (AgentComplete a r) t'" "tla_step cfg t (AgentFold a r) t'"
  "tla_step cfg t (TaskWait a r) t'" "tla_step cfg t (TaskWaitTimeout a r) t'"
  "tla_step cfg t (TaskWaitDeliver a r) t'"

section \<open>Abstraction\<close>

text \<open>A slot vector as a function on one-based slot numbers, with a default outside it.\<close>

definition at :: "('a \<Rightarrow> 'b) \<Rightarrow> 'b \<Rightarrow> 'a list \<Rightarrow> nat \<Rightarrow> 'b" where
  "at f d xs c = (if 1 \<le> c \<and> c \<le> length xs then f (xs ! (c - 1)) else d)"

definition abs_state :: "kernel_state \<Rightarrow> tla_state" where
  "abs_state s =
     \<lparr>t_turn = turn s, t_round = round s, t_round_due = round_due s, t_steer = steer_pending s,
      t_wake = set (wake_fold_pending s),
      t_call = at call_phase Unused (calls s), t_danger = at danger False (calls s),
      t_fresh = at fresh False (calls s),
      t_agent = at agent_phase NoAgent (agents s), t_rid = at rid 1 (agents s),
      t_waited = at waited False (agents s)\<rparr>"

lemma at_update:
  "1 \<le> c \<Longrightarrow> c \<le> length xs \<Longrightarrow> at f d (xs[c - 1 := y]) = (at f d xs)(c := f y)"
  by (auto simp: at_def fun_eq_iff nth_list_update)

lemma at_update_same:
  "1 \<le> c \<Longrightarrow> c \<le> length xs \<Longrightarrow> f y = f (xs ! (c - 1)) \<Longrightarrow> at f d (xs[c - 1 := y]) = at f d xs"
  by (auto simp: at_def fun_eq_iff nth_list_update)

lemma at_map: "at f d (map g xs) = at (f \<circ> g) d xs"
  by (auto simp: at_def fun_eq_iff)

lemma at_const: "at (\<lambda>_. d) d xs = (\<lambda>_. d)"
  by (auto simp: at_def fun_eq_iff)

lemma slots_image: "{1..length xs} = Suc ` {..<length xs}"
  by (simp add: image_Suc_lessThan)

lemma at_Suc: "i < length xs \<Longrightarrow> at f d xs (Suc i) = f (xs ! i)"
  by (simp add: at_def)

lemma ball_at: "(\<forall>x \<in> set xs. P (f x)) \<longleftrightarrow> (\<forall>c \<in> {1..length xs}. P (at f d xs c))"
  unfolding slots_image by (auto simp: at_Suc all_set_conv_all_nth)

lemma card_at:
  "length (filter (\<lambda>x. P (f x)) xs) = card {c \<in> {1..length xs}. P (at f d xs c)}"
proof -
  have "{c \<in> {1..length xs}. P (at f d xs c)} = Suc ` {i. i < length xs \<and> P (f (xs ! i))}"
    unfolding slots_image by (auto simp: at_Suc)
  then show ?thesis by (simp add: length_filter_conv_card card_image)
qed

section \<open>The kernel implements the actions\<close>

lemma abs_running:
  "inv_scope cfg s \<Longrightarrow> running_agents s = card (RunningAgents cfg (abs_state s))"
  by (simp add: running_agents_def RunningAgents_def Agents_def abs_state_def inv_scope_def
      card_at [where f = agent_phase and P = "\<lambda>p. p = AgentRunning" and d = NoAgent])

lemma abs_calls_unused:
  "inv_scope cfg s \<Longrightarrow>
   (\<forall>x \<in> set (calls s). call_phase x = Unused) \<longleftrightarrow> (\<forall>c \<in> Calls cfg. t_call (abs_state s) c = Unused)"
  by (simp add: Calls_def abs_state_def inv_scope_def
      ball_at [where f = call_phase and P = "\<lambda>p. p = Unused" and d = Unused])

lemma abs_no_waits:
  "inv_scope cfg s \<Longrightarrow>
   (\<forall>x \<in> set (agents s). \<not> waited x) \<longleftrightarrow> (\<forall>a \<in> Agents cfg. \<not> t_waited (abs_state s) a)"
  by (simp add: Agents_def abs_state_def inv_scope_def
      ball_at [where f = waited and P = "\<lambda>w. \<not> w" and d = False])

lemma abs_agents:
  "inv_scope cfg s \<Longrightarrow>
   (\<forall>x \<in> set (agents s). P (agent_phase x)) \<longleftrightarrow> (\<forall>a \<in> Agents cfg. P (t_agent (abs_state s) a))"
  by (simp add: Agents_def abs_state_def inv_scope_def
      ball_at [where f = agent_phase and P = P and d = NoAgent])

text \<open>A call slot in scope, as the actions see it.\<close>

lemma with_call_abs:
  assumes "inv_scope cfg s"
  shows "with_call s c ev k = Inr s' \<longleftrightarrow> c \<in> Calls cfg \<and> k (calls s ! (c - 1)) = Inr s'"
  using slot_get_eq_Some [OF scope_lengths(1) [OF assms], of c] assms slot_get_in_set
  by (auto simp: Calls_def inv_scope_def slot_get_in_range)

lemma with_agent_abs:
  assumes "inv_scope cfg s"
  shows "with_agent s a ev k = Inr s' \<longleftrightarrow> a \<in> Agents cfg \<and> k (agents s ! (a - 1)) = Inr s'"
  using slot_get_eq_Some [OF scope_lengths(2) [OF assms], of a] assms slot_get_in_set
  by (auto simp: Agents_def inv_scope_def slot_get_in_range)

lemma tid_abs: "tid_in_scope cfg r ev k = Inr s' \<longleftrightarrow> r \<in> TaskIds cfg \<and> k = Inr s'"
  by (auto simp: TaskIds_def)

lemma abs_call_fields:
  assumes "inv_scope cfg s" and "c \<in> Calls cfg"
  shows "call_phase (calls s ! (c - 1)) = t_call (abs_state s) c"
    and "danger (calls s ! (c - 1)) = t_danger (abs_state s) c"
    and "fresh (calls s ! (c - 1)) = t_fresh (abs_state s) c"
  using assms by (simp_all add: Calls_def abs_state_def inv_scope_def at_def)

lemma abs_agent_fields:
  assumes "inv_scope cfg s" and "a \<in> Agents cfg"
  shows "agent_phase (agents s ! (a - 1)) = t_agent (abs_state s) a"
    and "rid (agents s ! (a - 1)) = t_rid (abs_state s) a"
    and "waited (agents s ! (a - 1)) = t_waited (abs_state s) a"
  using assms by (simp_all add: Agents_def abs_state_def inv_scope_def at_def)

lemma abs_set_call:
  assumes "inv_scope cfg s" and "c \<in> Calls cfg"
  shows "abs_state (set_call s c x) = (abs_state s)
    \<lparr>t_call := (t_call (abs_state s))(c := call_phase x),
     t_danger := (t_danger (abs_state s))(c := danger x),
     t_fresh := (t_fresh (abs_state s))(c := fresh x)\<rparr>"
  using assms by (simp add: abs_state_def Calls_def inv_scope_def at_update [unfolded One_nat_def])

lemma abs_set_agent:
  assumes "inv_scope cfg s" and "a \<in> Agents cfg"
  shows "abs_state (set_agent s a x) = (abs_state s)
    \<lparr>t_agent := (t_agent (abs_state s))(a := agent_phase x),
     t_rid := (t_rid (abs_state s))(a := rid x),
     t_waited := (t_waited (abs_state s))(a := waited x)\<rparr>"
  using assms by (simp add: abs_state_def Agents_def inv_scope_def at_update [unfolded One_nat_def])

lemma abs_simps [simp]:
  "t_turn (abs_state s) = turn s" "t_round (abs_state s) = round s"
  "t_round_due (abs_state s) = round_due s" "t_steer (abs_state s) = steer_pending s"
  "t_wake (abs_state s) = set (wake_fold_pending s)"
  by (simp_all add: abs_state_def)

lemma abs_frame [simp]:
  "abs_state (s\<lparr>turn := x1\<rparr>) = (abs_state s)\<lparr>t_turn := x1\<rparr>"
  "abs_state (s\<lparr>round := x2\<rparr>) = (abs_state s)\<lparr>t_round := x2\<rparr>"
  "abs_state (s\<lparr>round_due := b\<rparr>) = (abs_state s)\<lparr>t_round_due := b\<rparr>"
  "abs_state (s\<lparr>steer_pending := b\<rparr>) = (abs_state s)\<lparr>t_steer := b\<rparr>"
  "abs_state (s\<lparr>wake_fold_pending := w\<rparr>) = (abs_state s)\<lparr>t_wake := set w\<rparr>"
  by (simp_all add: abs_state_def)


lemma abs_TurnCancel:
  "abs_state (s\<lparr>turn := t, agents := map (\<lambda>slot. slot\<lparr>waited := False\<rparr>) (agents s)\<rparr>)
     = (abs_state s)\<lparr>t_turn := t, t_waited := (\<lambda>_. False)\<rparr>"
  by (simp add: abs_state_def at_map comp_def at_const)

lemma abs_PolicyTighten:
  "abs_state (s\<lparr>calls := map (\<lambda>slot. slot\<lparr>fresh := False\<rparr>) (calls s)\<rparr>)
     = (abs_state s)\<lparr>t_fresh := (\<lambda>_. False)\<rparr>"
  by (simp add: abs_state_def at_map comp_def at_const)

lemma abs_done_slots:
  "inv_scope cfg s \<Longrightarrow>
   set (done_slots (agents s)) = {a \<in> Agents cfg. t_agent (abs_state s) a = AgentDone}"
  by (auto simp: set_done_slots Agents_def abs_state_def inv_scope_def at_def)

text \<open>
  The simulation, both ways at once: from an invariant state, an event is accepted with
  result \<open>s'\<close> only as the action allows, and every action enabled at the abstract state is
  an accepted event.
\<close>

definition simulates :: "kernel_config \<Rightarrow> kernel_state \<Rightarrow> kernel_event \<Rightarrow> bool" where
  "simulates cfg s e \<longleftrightarrow>
     (\<forall>t'. tla_step cfg (abs_state s) e t' \<longleftrightarrow>
        (\<exists>s'. step_state cfg s e = Inr s' \<and> t' = abs_state s'))"

lemma simulates_turn:
  assumes scope: "inv_scope cfg s"
    and e: "e \<in> {TurnStart, TurnCancel, TurnEnd, ContextEdit, RoundStart, RoundEnd, SteerEnqueue,
                SteerJoin, PolicyTighten}"
  shows "simulates cfg s e"
proof -
  have quiet: "(\<forall>x \<in> set (agents s). agent_phase x = NoAgent \<or> agent_phase x = AgentRunning
       \<or> (turn s = TurnCancelling \<and> agent_phase x = AgentDone))
    \<longleftrightarrow> (\<forall>a \<in> Agents cfg. t_agent (abs_state s) a = NoAgent \<or> t_agent (abs_state s) a = AgentRunning
       \<or> (turn s = TurnCancelling \<and> t_agent (abs_state s) a = AgentDone))"
    using abs_agents [OF scope, where P = "\<lambda>p. p = NoAgent \<or> p = AgentRunning
       \<or> (turn s = TurnCancelling \<and> p = AgentDone)"] .
  show ?thesis
    using e
    by (auto simp: simulates_def handler_defs tla_turn_iffs abs_TurnCancel abs_PolicyTighten
        abs_done_slots [OF scope] abs_calls_unused [OF scope] abs_no_waits [OF scope] quiet)
qed

lemma simulates_call:
  assumes scope: "inv_scope cfg s"
    and e: "e \<in> {ToolRequest c d, ToolAllow c, ToolApprove c, ToolDeny c, ToolExecStart c,
                ToolExecEnd c, ToolSettle c}"
  shows "simulates cfg s e"
proof (cases "c \<in> Calls cfg")
  case True
  show ?thesis
    using e True
    by (auto simp: simulates_def handler_defs tla_call_iffs settleable_def
        with_call_abs [OF scope] abs_set_call [OF scope True] abs_call_fields [OF scope True] fun_upd_idem
        simp del: One_nat_def with_call_Inr)
next
  case False
  with e show ?thesis
    by (auto simp: simulates_def handler_defs tla_call_iffs with_call_abs [OF scope]
        simp del: One_nat_def with_call_Inr)
qed

lemma simulates_task:
  assumes scope: "inv_scope cfg s"
    and e: "e \<in> {AgentSpawn a r, AgentComplete a r, AgentFold a r, TaskWait a r,
                TaskWaitTimeout a r, TaskWaitDeliver a r}"
  shows "simulates cfg s e"
proof (cases "a \<in> Agents cfg")
  case True
  have diff: "{x \<in> set w. x \<noteq> a} = set w - {a}" for w by auto
  show ?thesis
    using e True
    by (auto simp: simulates_def handler_defs tla_task_iffs tid_abs abs_running [OF scope] diff
        with_agent_abs [OF scope] abs_set_agent [OF scope True] abs_agent_fields [OF scope True] fun_upd_idem
        simp del: One_nat_def with_agent_Inr tid_in_scope_Inr)
next
  case False
  with e show ?thesis
    by (auto simp: simulates_def handler_defs tla_task_iffs with_agent_abs [OF scope]
        simp del: One_nat_def with_agent_Inr)
qed


text \<open>
  \<open>ToolBackground\<close> writes a call slot and a task slot. In the code the capacity guard stands
  between the two slot lookups, which makes no difference to what is accepted.
\<close>

lemma abs_set_both:
  assumes "inv_scope cfg s" and "c \<in> Calls cfg" and "a \<in> Agents cfg"
  shows "abs_state (s\<lparr>calls := (calls s)[c - 1 := x], agents := (agents s)[a - 1 := y]\<rparr>)
    = (abs_state s)
    \<lparr>t_call := (t_call (abs_state s))(c := call_phase x),
     t_danger := (t_danger (abs_state s))(c := danger x),
     t_fresh := (t_fresh (abs_state s))(c := fresh x),
     t_agent := (t_agent (abs_state s))(a := agent_phase y),
     t_rid := (t_rid (abs_state s))(a := rid y),
     t_waited := (t_waited (abs_state s))(a := waited y)\<rparr>"
  using assms
  by (simp add: abs_state_def Calls_def Agents_def inv_scope_def at_update [unfolded One_nat_def])

lemma simulates_background:
  assumes scope: "inv_scope cfg s"
  shows "simulates cfg s (ToolBackground c a r)"
proof (cases "c \<in> Calls cfg \<and> a \<in> Agents cfg")
  case True
  then have c: "c \<in> Calls cfg" and a: "a \<in> Agents cfg" by simp_all
  show ?thesis
    by (auto simp: simulates_def handler_defs tla_task_iffs tid_abs abs_running [OF scope]
        with_call_abs [OF scope] with_agent_abs [OF scope] abs_set_both [OF scope c a] c a
        abs_call_fields [OF scope c] abs_agent_fields [OF scope a] fun_upd_idem
        simp del: One_nat_def with_call_Inr with_agent_Inr tid_in_scope_Inr)
next
  case False
  then show ?thesis
    by (auto simp: simulates_def handler_defs tla_task_iffs
        with_call_abs [OF scope] with_agent_abs [OF scope]
        simp del: One_nat_def with_call_Inr with_agent_Inr)
qed

lemma simulates_all: "inv_scope cfg s \<Longrightarrow> simulates cfg s e"
  by (cases e) (simp_all add: simulates_turn simulates_call simulates_task simulates_background)

lemma abs_init:
  "abs_state (kernel_state_new cfg) =
     \<lparr>t_turn = TurnIdle, t_round = Prep, t_round_due = False, t_steer = False, t_wake = {},
      t_call = (\<lambda>_. Unused), t_danger = (\<lambda>_. False), t_fresh = (\<lambda>_. False),
      t_agent = (\<lambda>_. NoAgent), t_rid = (\<lambda>_. 1), t_waited = (\<lambda>_. False)\<rparr>"
  by (auto simp: abs_state_def kernel_state_new_def at_def fun_eq_iff)

section \<open>Runs of the specification\<close>

inductive tla_run :: "kernel_config \<Rightarrow> tla_state \<Rightarrow> kernel_event list \<Rightarrow> tla_state \<Rightarrow> bool"
  for cfg :: kernel_config where
  run_nil: "tla_run cfg t [] t"
| run_cons: "tla_step cfg t e t' \<Longrightarrow> tla_run cfg t' es t'' \<Longrightarrow> tla_run cfg t (e # es) t''"

inductive_cases tla_run_NilE: "tla_run cfg t [] t'"
inductive_cases tla_run_ConsE: "tla_run cfg t (e # es) t'"

lemma runs_agree:
  assumes "kernel_inv cfg s"
  shows "tla_run cfg (abs_state s) es t' \<longleftrightarrow>
    (\<exists>s'. run_events cfg s es = Inr s' \<and> t' = abs_state s')"
  using assms
proof (induction es arbitrary: s)
  case Nil
  then show ?case by (auto elim: tla_run_NilE intro: run_nil)
next
  case (Cons e es)
  have sim: "simulates cfg s e" using Cons.prems by (simp add: kernel_inv_def simulates_all)
  have IH: "tla_run cfg (abs_state s1) es t' \<longleftrightarrow>
      (\<exists>s'. run_events cfg s1 es = Inr s' \<and> t' = abs_state s')" if "step_state cfg s e = Inr s1" for s1
    using Cons.IH kernel_inv_step [OF Cons.prems that] by blast
  show ?case
  proof
    assume "tla_run cfg (abs_state s) (e # es) t'"
    then obtain t1 where "tla_step cfg (abs_state s) e t1" and run: "tla_run cfg t1 es t'"
      by (rule tla_run_ConsE)
    with sim obtain s1 where "step_state cfg s e = Inr s1" and "t1 = abs_state s1"
      by (auto simp: simulates_def)
    with run IH show "\<exists>s'. run_events cfg s (e # es) = Inr s' \<and> t' = abs_state s'" by auto
  next
    assume "\<exists>s'. run_events cfg s (e # es) = Inr s' \<and> t' = abs_state s'"
    then obtain s1 s' where s1: "step_state cfg s e = Inr s1"
      and "run_events cfg s1 es = Inr s'" "t' = abs_state s'"
      by (auto split: sum.splits)
    with IH have "tla_run cfg (abs_state s1) es t'" by blast
    moreover have "tla_step cfg (abs_state s) e (abs_state s1)"
      using sim s1 by (auto simp: simulates_def)
    ultimately show "tla_run cfg (abs_state s) (e # es) t'" by (rule run_cons [rotated])
  qed
qed

text \<open>
  Claim C1. The kernel refines its TLA+ specification exactly: from every state that satisfies
  the invariants (in particular the initial one), an event sequence is accepted by the Rust
  kernel if and only if it is a run of the specification's actions, and the final states agree.
\<close>

theorem kernel_refines_tla:
  assumes "kernel_inv cfg s"
  shows "tla_run cfg (abs_state s) es t' \<longleftrightarrow>
    (\<exists>s'. run_events cfg s es = Inr s' \<and> abs_state s' = t')"
  using runs_agree [OF assms] by auto

theorem kernel_refines_tla_witness:
  "tla_run MODEL_SCOPE (abs_state (kernel_state_new MODEL_SCOPE))
     [TurnStart, RoundStart, ToolRequest 1 True, ToolApprove 1, ToolExecStart 1]
     (abs_state (kernel_state_new MODEL_SCOPE
       \<lparr>turn := TurnRunning, round := InRound,
        calls := [\<lparr>call_phase = Executing, danger = True, fresh = False\<rparr>,
                  \<lparr>call_phase = Unused, danger = False, fresh = False\<rparr>]\<rparr>))"
proof -
  have "kernel_inv MODEL_SCOPE (kernel_state_new MODEL_SCOPE)"
    by (rule kernel_inv_init) (simp add: config_ok_def MODEL_SCOPE_def isize_max_def)
  then show ?thesis
    unfolding kernel_refines_tla [OF \<open>kernel_inv MODEL_SCOPE (kernel_state_new MODEL_SCOPE)\<close>]
    by (simp add: handler_defs guard_def with_call_def slot_get_def wrapping_pred_def
        kernel_state_new_def MODEL_SCOPE_def done_slots_def numeral_2_eq_2)
qed

end
