(* ===== verification/KernelProps.thy ===== *)
theory KernelProps
  imports KernelSpec
begin

text \<open>
  What the kernel guarantees about whole runs: the safety properties S1 to S12 of the
  specification, as statements about accepted event sequences, and that every turn can be
  brought back to idle. The history lemmas are proved on the specification's actions and carried
  over by the simulation.
\<close>

section \<open>Histories\<close>

lemma step_tla:
  "kernel_inv cfg s \<Longrightarrow> step_state cfg s e = Inr s' \<Longrightarrow> tla_step cfg (abs_state s) e (abs_state s')"
  using simulates_all [of cfg s e] by (auto simp: simulates_def kernel_inv_def)

lemma history_induct [consumes 2, case_names init step]:
  assumes run: "run_events cfg (kernel_state_new cfg) es = Inr s" and cfg: "config_ok cfg"
    and init: "P [] (abs_state (kernel_state_new cfg))"
    and step: "\<And>es s e s'. run_events cfg (kernel_state_new cfg) es = Inr s \<Longrightarrow> kernel_inv cfg s \<Longrightarrow>
       P es (abs_state s) \<Longrightarrow> step_state cfg s e = Inr s' \<Longrightarrow>
       tla_step cfg (abs_state s) e (abs_state s') \<Longrightarrow> P (es @ [e]) (abs_state s')"
  shows "P es (abs_state s)"
  using run
proof (induction es arbitrary: s rule: rev_induct)
  case Nil
  with init show ?case by simp
next
  case (snoc e es)
  from snoc.prems obtain s1 where s1: "run_events cfg (kernel_state_new cfg) es = Inr s1"
    and e: "step_state cfg s1 e = Inr s"
    by (auto simp: run_events_append split: sum.splits)
  have inv: "kernel_inv cfg s1" using run_events_inv [OF kernel_inv_init [OF cfg] s1] .
  show ?case by (rule step [OF s1 inv snoc.IH [OF s1] e step_tla [OF inv e]])
qed

lemma run_snocE:
  assumes "run_events cfg s0 (es @ [e]) = Inr s'"
  obtains s where "run_events cfg s0 es = Inr s" and "step_state cfg s e = Inr s'"
  using assms by (auto simp: run_events_append split: sum.splits)

section \<open>Reachable states\<close>

text \<open>
  Claim C2. Every state the kernel reaches from its initial state by accepted events satisfies
  all the invariants: scope, quiescent idle, calls only in rounds, pending waits only in a running
  round, capacity, freshness only in allowed calls, and owed folds only for done tasks in prep.
\<close>

theorem kernel_reachable_invariant:
  assumes "config_ok cfg" and "run_events cfg (kernel_state_new cfg) es = Inr s"
  shows "kernel_inv cfg s"
  using run_events_inv [OF kernel_inv_init [OF assms(1)] assms(2)] .

theorem kernel_reachable_invariant_witness:
  "kernel_inv MODEL_SCOPE (kernel_state_new MODEL_SCOPE \<lparr>turn := TurnRunning, round_due := True\<rparr>)"
proof (rule kernel_reachable_invariant [where es = "[TurnStart]"])
  show "config_ok MODEL_SCOPE" by (simp add: config_ok_def MODEL_SCOPE_def isize_max_def)
  show "run_events MODEL_SCOPE (kernel_state_new MODEL_SCOPE) [TurnStart] =
      Inr (kernel_state_new MODEL_SCOPE \<lparr>turn := TurnRunning, round_due := True\<rparr>)"
    by (simp add: handler_defs guard_def kernel_state_new_def MODEL_SCOPE_def done_slots_def
        numeral_2_eq_2)
qed

section \<open>Approval before execution\<close>


















section \<open>Cancellation\<close>

text \<open>The events that start new work for the model.\<close>

fun new_work :: "kernel_event \<Rightarrow> bool" where
  "new_work (ToolRequest _ _) = True"
| "new_work (ToolAllow _) = True"
| "new_work (ToolApprove _) = True"
| "new_work (ToolExecStart _) = True"
| "new_work (ToolBackground _ _ _) = True"
| "new_work (AgentSpawn _ _) = True"
| "new_work (TaskWait _ _) = True"
| "new_work (TaskWaitTimeout _ _) = True"
| "new_work (TaskWaitDeliver _ _) = True"
| "new_work (AgentFold _ _) = True"
| "new_work SteerJoin = True"
| "new_work RoundStart = True"
| "new_work _ = False"

lemma step_cancelling:
  assumes "tla_step cfg t e t'" and "t_turn t = TurnCancelling" and "\<forall>a. \<not> t_waited t a"
  shows "\<not> new_work e \<and> (\<forall>a. \<not> t_waited t' a)
    \<and> (if e = TurnEnd then t_turn t' = TurnIdle else t_turn t' = TurnCancelling)"
  using assms by (cases rule: tla_step.cases) auto

lemma cancelling_no_new_work:
  assumes "tla_run cfg t es t'" and "t_turn t = TurnCancelling" and "\<forall>a. \<not> t_waited t a"
    and "TurnEnd \<notin> set es"
  shows "t_turn t' = TurnCancelling \<and> (\<forall>e \<in> set es. \<not> new_work e)"
  using assms
proof (induction rule: tla_run.induct)
  case (run_nil t)
  then show ?case by simp
next
  case (run_cons t e t' es t'')
  have "\<not> new_work e \<and> (\<forall>a. \<not> t_waited t' a) \<and> t_turn t' = TurnCancelling"
    using step_cancelling [OF run_cons.hyps(1) run_cons.prems(1,2)] run_cons.prems(3) by auto
  with run_cons show ?case by auto
qed

text \<open>
  S4: from a cancellation to the end of its turn the kernel accepts no event that
  starts work: no request, grant, execution start, hand-off, spawn, wait, wait outcome, fold,
  steer join or round start.
\<close>

theorem no_new_work_while_cancelling:
  assumes "kernel_inv cfg s" and "run_events cfg s (TurnCancel # es) = Inr s'"
    and "TurnEnd \<notin> set es"
  shows "turn s' = TurnCancelling \<and> (\<forall>e \<in> set es. \<not> new_work e)"
proof -
  from assms(2) obtain s1 where s1: "step_state cfg s TurnCancel = Inr s1"
    and run: "run_events cfg s1 es = Inr s'"
    by (auto split: sum.splits)
  have "t_turn (abs_state s1) = TurnCancelling \<and> (\<forall>a. \<not> t_waited (abs_state s1) a)"
    using step_tla [OF assms(1) s1] by (simp add: tla_turn_iffs)
  moreover have "tla_run cfg (abs_state s1) es (abs_state s')"
    using runs_agree [OF kernel_inv_step [OF assms(1) s1]] run by blast
  ultimately show ?thesis using cancelling_no_new_work assms(3) by fastforce
qed

theorem no_new_work_while_cancelling_witness:
  "turn (kernel_state_new MODEL_SCOPE \<lparr>turn := TurnCancelling, round_due := True, steer_pending := True\<rparr>)
     = TurnCancelling \<and> \<not> new_work SteerEnqueue \<and> \<not> new_work PolicyTighten"
proof -
  let ?s = "kernel_state_new MODEL_SCOPE \<lparr>turn := TurnRunning, round_due := True\<rparr>"
  have "kernel_inv MODEL_SCOPE ?s"
    by (simp add: kernel_inv_defs kernel_state_new_def MODEL_SCOPE_def running_agents_def
        config_ok_def isize_max_def)
  moreover have "run_events MODEL_SCOPE ?s (TurnCancel # [SteerEnqueue, PolicyTighten]) =
    Inr (kernel_state_new MODEL_SCOPE \<lparr>turn := TurnCancelling, round_due := True, steer_pending := True\<rparr>)"
    by (simp add: handler_defs guard_def kernel_state_new_def MODEL_SCOPE_def)
  ultimately show ?thesis
    using no_new_work_while_cancelling [of MODEL_SCOPE ?s "[SteerEnqueue, PolicyTighten]"] by simp
qed

section \<open>Delivery obligations\<close>

lemma step_due:
  assumes "tla_step cfg t e t'" and "t_turn t = TurnRunning" and "t_round_due t \<or> t_steer t"
    and "e \<noteq> RoundStart" and "e \<noteq> TurnCancel"
  shows "t_turn t' = TurnRunning \<and> (t_round_due t' \<or> t_steer t') \<and> e \<noteq> TurnEnd"
  using assms by (cases rule: tla_step.cases) auto

lemma due_persists:
  assumes "tla_run cfg t es t'" and "t_turn t = TurnRunning" and "t_round_due t \<or> t_steer t"
    and "RoundStart \<notin> set es" and "TurnCancel \<notin> set es"
  shows "t_turn t' = TurnRunning \<and> (t_round_due t' \<or> t_steer t') \<and> TurnEnd \<notin> set es"
  using assms
proof (induction rule: tla_run.induct)
  case (run_nil t)
  then show ?case by simp
next
  case (run_cons t e t' es t'')
  have "t_turn t' = TurnRunning \<and> (t_round_due t' \<or> t_steer t') \<and> e \<noteq> TurnEnd"
    using step_due [OF run_cons.hyps(1)] run_cons.prems by auto
  with run_cons show ?case by auto
qed

text \<open>The events after which the model is owed another round.\<close>

fun owes_round :: "kernel_event \<Rightarrow> bool" where
  "owes_round TurnStart = True"
| "owes_round SteerEnqueue = True"
| "owes_round SteerJoin = True"
| "owes_round (ToolSettle _) = True"
| "owes_round (AgentSpawn _ _) = True"
| "owes_round (AgentFold _ _) = True"
| "owes_round (TaskWaitTimeout _ _) = True"
| "owes_round (TaskWaitDeliver _ _) = True"
| "owes_round _ = False"

lemma step_owes:
  assumes "tla_step cfg t e t'" and "owes_round e"
  shows "t_round_due t' \<or> t_steer t'"
  using assms by (cases rule: tla_step.cases) auto

lemma step_owes_turn:
  assumes "tla_step cfg t e t'" and "owes_round e" and "t_turn t \<noteq> TurnCancelling"
    and "t_turn t = TurnIdle \<longrightarrow> (\<forall>c. t_call t c = Unused) \<and> (\<forall>a. \<not> t_waited t a)"
  shows "t_turn t' = TurnRunning"
  using assms by (cases rule: tla_step.cases) (auto intro: turn_phase.exhaust [of "t_turn t"])

text \<open>
  S9: what is owed to the model is delivered. After a turn start, a steer, a settled
  call, a spawn, a fold or the outcome of a wait, a running turn cannot end before another round
  has started, unless it is cancelled.
\<close>

theorem obligation_forces_round:
  assumes "kernel_inv cfg s" and "owes_round e" and "run_events cfg s (e # es) = Inr s'"
    and "turn s' = TurnIdle" and "turn s \<noteq> TurnCancelling"
  shows "RoundStart \<in> set es \<or> TurnCancel \<in> set es"
proof (rule ccontr)
  assume no: "\<not> ?thesis"
  from assms(3) obtain s1 where s1: "step_state cfg s e = Inr s1"
    and run: "run_events cfg s1 es = Inr s'"
    by (auto split: sum.splits)
  have step: "tla_step cfg (abs_state s) e (abs_state s1)" by (rule step_tla [OF assms(1) s1])
  have "turn s = TurnIdle \<longrightarrow> (\<forall>c. t_call (abs_state s) c = Unused) \<and> (\<forall>a. \<not> t_waited (abs_state s) a)"
    using assms(1)
    by (auto simp: kernel_inv_def inv_quiescent_idle_def inv_wait_pending_def abs_state_def at_def)
  then have "turn s1 = TurnRunning"
    using step_owes_turn [OF step assms(2)] assms(5) by simp
  moreover have "t_round_due (abs_state s1) \<or> t_steer (abs_state s1)"
    by (rule step_owes [OF step assms(2)])
  moreover have "tla_run cfg (abs_state s1) es (abs_state s')"
    using runs_agree [OF kernel_inv_step [OF assms(1) s1]] run by blast
  ultimately have "turn s' = TurnRunning" using due_persists no by fastforce
  with assms(4) show False by simp
qed

theorem obligation_forces_round_witness:
  "RoundStart \<in> set [RoundStart, RoundEnd, TurnEnd] \<or> TurnCancel \<in> set [RoundStart, RoundEnd, TurnEnd]"
proof (rule obligation_forces_round [where e = TurnStart and cfg = MODEL_SCOPE])
  show "kernel_inv MODEL_SCOPE (kernel_state_new MODEL_SCOPE)"
    by (rule kernel_inv_init) (simp add: config_ok_def MODEL_SCOPE_def isize_max_def)
  show "run_events MODEL_SCOPE (kernel_state_new MODEL_SCOPE)
      (TurnStart # [RoundStart, RoundEnd, TurnEnd]) = Inr (kernel_state_new MODEL_SCOPE)"
    by (simp add: handler_defs guard_def kernel_state_new_def MODEL_SCOPE_def done_slots_def
        numeral_2_eq_2)
qed (simp_all add: kernel_state_new_def)

section \<open>Task identities and exactly-once delivery\<close>

text \<open>Events that put a task into slot \<open>a\<close>, and that hand its result to the model.\<close>

fun starts_in :: "slot_id \<Rightarrow> kernel_event \<Rightarrow> bool" where
  "starts_in a (AgentSpawn a' _) = (a' = a)"
| "starts_in a (ToolBackground _ a' _) = (a' = a)"
| "starts_in a _ = False"

fun completes_in :: "slot_id \<Rightarrow> kernel_event \<Rightarrow> bool" where
  "completes_in a (AgentComplete a' _) = (a' = a)"
| "completes_in a _ = False"

fun delivers_in :: "slot_id \<Rightarrow> kernel_event \<Rightarrow> bool" where
  "delivers_in a (AgentFold a' _) = (a' = a)"
| "delivers_in a (TaskWaitDeliver a' _) = (a' = a)"
| "delivers_in a _ = False"

definition count_events :: "(kernel_event \<Rightarrow> bool) \<Rightarrow> kernel_event list \<Rightarrow> nat" where
  "count_events P es = length (filter P es)"

lemma count_snoc: "count_events P (es @ [e]) = count_events P es + (if P e then 1 else 0)"
  by (simp add: count_events_def)

definition tasks_counted :: "slot_id \<Rightarrow> kernel_event list \<Rightarrow> tla_state \<Rightarrow> bool" where
  "tasks_counted a es t \<longleftrightarrow>
     count_events (starts_in a) es =
       count_events (completes_in a) es + (if t_agent t a = AgentRunning then 1 else 0)
     \<and> count_events (completes_in a) es =
       count_events (delivers_in a) es + (if t_agent t a = AgentDone then 1 else 0)"

lemma tasks_counted_step:
  assumes "tla_step cfg t e t'" and "tasks_counted a es t"
  shows "tasks_counted a (es @ [e]) t'"
  using assms by (cases rule: tla_step.cases) (auto simp: tasks_counted_def count_snoc)

text \<open>
  Claim C4. Every task that is started completes at most once and its result is handed to the
  model exactly once after that: in every accepted run and slot, starts are completions plus the
  running task, and completions are deliveries (folds and waits) plus the undelivered result.
\<close>

theorem results_delivered_exactly_once:
  assumes "config_ok cfg" and "run_events cfg (kernel_state_new cfg) es = Inr s"
    and "1 \<le> a" and "a \<le> agent_slots cfg"
  shows "count_events (starts_in a) es =
       count_events (completes_in a) es
         + (if agent_phase (agents s ! (a - 1)) = AgentRunning then 1 else 0)
     \<and> count_events (completes_in a) es =
       count_events (delivers_in a) es
         + (if agent_phase (agents s ! (a - 1)) = AgentDone then 1 else 0)"
proof -
  have "tasks_counted a es (abs_state s)"
    using assms(2,1)
  proof (induction rule: history_induct)
    case init
    then show ?case by (simp add: abs_init tasks_counted_def count_events_def)
  next
    case (step es s e s')
    then show ?case by (blast intro: tasks_counted_step)
  qed
  moreover have "t_agent (abs_state s) a = agent_phase (agents s ! (a - 1))"
    using kernel_reachable_invariant [OF assms(1,2)] assms(3,4)
    by (simp add: kernel_inv_def inv_scope_def abs_state_def at_def)
  ultimately show ?thesis by (simp add: tasks_counted_def)
qed

theorem results_delivered_exactly_once_witness:
  "count_events (starts_in 1) [TurnStart, RoundStart, AgentSpawn 1 2, AgentComplete 1 2] = 1 + 0
   \<and> count_events (completes_in 1) [TurnStart, RoundStart, AgentSpawn 1 2, AgentComplete 1 2] = 0 + 1"
proof -
  let ?es = "[TurnStart, RoundStart, AgentSpawn 1 2, AgentComplete 1 2]"
  let ?s = "kernel_state_new MODEL_SCOPE
    \<lparr>turn := TurnRunning, round := InRound, round_due := True,
     agents := [\<lparr>agent_phase = AgentDone, rid = 2, waited = False\<rparr>,
                \<lparr>agent_phase = NoAgent, rid = 1, waited = False\<rparr>]\<rparr>"
  have cfg: "config_ok MODEL_SCOPE" by (simp add: config_ok_def MODEL_SCOPE_def isize_max_def)
  have run: "run_events MODEL_SCOPE (kernel_state_new MODEL_SCOPE) ?es = Inr ?s"
    by (simp add: handler_defs guard_def with_agent_def tid_in_scope_def slot_get_def
        wrapping_pred_def running_agents_def kernel_state_new_def MODEL_SCOPE_def done_slots_def
        numeral_2_eq_2)
  show ?thesis
    using results_delivered_exactly_once [OF cfg run, of 1]
    by (simp add: MODEL_SCOPE_def count_events_def)
qed

text \<open>The identity under which slot \<open>a\<close> was last started; the initial one is 1.\<close>

fun id_after :: "slot_id \<Rightarrow> kernel_event \<Rightarrow> task_id \<Rightarrow> task_id" where
  "id_after a (AgentSpawn a' r) r0 = (if a' = a then r else r0)"
| "id_after a (ToolBackground _ a' r) r0 = (if a' = a then r else r0)"
| "id_after a _ r0 = r0"

definition id_of :: "slot_id \<Rightarrow> kernel_event list \<Rightarrow> task_id" where
  "id_of a es = fold (id_after a) es 1"

fun task_ref :: "kernel_event \<Rightarrow> (slot_id \<times> task_id) option" where
  "task_ref (AgentComplete a r) = Some (a, r)"
| "task_ref (AgentFold a r) = Some (a, r)"
| "task_ref (TaskWait a r) = Some (a, r)"
| "task_ref (TaskWaitTimeout a r) = Some (a, r)"
| "task_ref (TaskWaitDeliver a r) = Some (a, r)"
| "task_ref _ = None"

fun start_ref :: "kernel_event \<Rightarrow> (slot_id \<times> task_id) option" where
  "start_ref (AgentSpawn a r) = Some (a, r)"
| "start_ref (ToolBackground _ a r) = Some (a, r)"
| "start_ref _ = None"

lemma step_id: "tla_step cfg t e t' \<Longrightarrow> t_rid t' a = id_after a e (t_rid t a)"
  by (cases rule: tla_step.cases) auto

lemma step_refs:
  assumes "tla_step cfg t e t'"
  shows "(task_ref e = Some (a, r) \<longrightarrow> r = t_rid t a) \<and> (start_ref e = Some (a, r) \<longrightarrow> r \<noteq> t_rid t a)"
  using assms by (cases rule: tla_step.cases) auto

lemma id_of_run:
  assumes "config_ok cfg" and "run_events cfg (kernel_state_new cfg) es = Inr s"
  shows "t_rid (abs_state s) a = id_of a es"
  using assms(2,1)
proof (induction rule: history_induct)
  case init
  then show ?case by (simp add: abs_init id_of_def)
next
  case (step es s e s')
  then show ?case by (simp add: step_id [OF step.hyps(4)] id_of_def)
qed

text \<open>
  S10: a completion, fold, wait or wait outcome is accepted only under the identity
  with which the slot was last started, and a start only under a different one, so a late event
  of the previous generation of a slot never touches its replacement.
\<close>

theorem task_events_carry_current_identity:
  assumes "config_ok cfg" and "run_events cfg (kernel_state_new cfg) (es @ [e]) = Inr s'"
  shows "(task_ref e = Some (a, r) \<longrightarrow> r = id_of a es) \<and> (start_ref e = Some (a, r) \<longrightarrow> r \<noteq> id_of a es)"
proof -
  obtain s where s: "run_events cfg (kernel_state_new cfg) es = Inr s"
    and step: "step_state cfg s e = Inr s'"
    using assms(2) by (rule run_snocE)
  show ?thesis
    using step_refs [OF step_tla [OF kernel_reachable_invariant [OF assms(1) s] step], of a r]
    by (simp add: id_of_run [OF assms(1) s])
qed

theorem task_events_carry_current_identity_witness:
  "(2::nat) \<noteq> id_of 1 [TurnStart, RoundStart]"
proof -
  have cfg: "config_ok MODEL_SCOPE" by (simp add: config_ok_def MODEL_SCOPE_def isize_max_def)
  have "\<exists>s'. run_events MODEL_SCOPE (kernel_state_new MODEL_SCOPE)
     ([TurnStart, RoundStart] @ [AgentSpawn 1 2]) = Inr s'"
    by (simp add: handler_defs guard_def with_agent_def tid_in_scope_def slot_get_def
        wrapping_pred_def running_agents_def kernel_state_new_def MODEL_SCOPE_def done_slots_def
        numeral_2_eq_2)
  then obtain s' where s': "run_events MODEL_SCOPE (kernel_state_new MODEL_SCOPE)
     ([TurnStart, RoundStart] @ [AgentSpawn 1 2]) = Inr s'" ..
  show ?thesis using task_events_carry_current_identity [OF cfg s', of 1 2] by simp
qed

section \<open>Refusals\<close>

lemma refused_by_own_name:
  "step_state cfg s e = Inl x \<Longrightarrow> ref_event x = event_name e"
  by (cases e) (auto simp: handler_defs refusal_iffs split: if_splits option.splits)

lemma event_name_in_NAMES: "event_name e \<in> set NAMES"
  by (cases e) (simp_all add: NAMES_def)

text \<open>
  A refused event leaves the kernel unchanged and the refusal names the event, by a
  name of the vocabulary; an accepted event changes the state only, never the configuration.
\<close>

theorem refusal_leaves_kernel_unchanged:
  "case kernel_step k e of
     (Inl x, k') \<Rightarrow> k' = k \<and> ref_event x = event_name e \<and> event_name e \<in> set NAMES
   | (Inr u, k') \<Rightarrow> config k' = config k \<and> step_state (config k) (state k) e = Inr (state k')"
  by (auto simp: kernel_step_def refused_by_own_name event_name_in_NAMES split: sum.splits)

section \<open>Every turn can be brought back to idle\<close>

text \<open>The events that retire one call, by its phase.\<close>

fun drain_call :: "slot_id \<Rightarrow> call_phase \<Rightarrow> kernel_event list" where
  "drain_call c Unused = []"
| "drain_call c Executing = [ToolExecEnd c, ToolSettle c]"
| "drain_call c ExecBg = [ToolExecEnd c, ToolSettle c]"
| "drain_call c _ = [ToolSettle c]"

fun drain_calls :: "nat \<Rightarrow> (nat \<Rightarrow> call_phase) \<Rightarrow> kernel_event list" where
  "drain_calls 0 ph = []"
| "drain_calls (Suc n) ph = drain_calls n ph @ drain_call (Suc n) (ph (Suc n))"

definition abort_events :: "kernel_config \<Rightarrow> kernel_state \<Rightarrow> kernel_event list" where
  "abort_events cfg s =
     (if turn s = TurnRunning then [TurnCancel] else [])
     @ drain_calls (call_slots cfg) (t_call (abs_state s))
     @ (if round s = InRound then [RoundEnd] else [])
     @ [TurnEnd]"

lemma tla_run_append: "tla_run cfg t es t' \<Longrightarrow> tla_run cfg t' fs t'' \<Longrightarrow> tla_run cfg t (es @ fs) t''"
  by (induction rule: tla_run.induct) (auto intro: tla_run.intros)

lemma tla_run_one: "tla_step cfg t e t' \<Longrightarrow> tla_run cfg t [e] t'"
  by (blast intro: tla_run.intros)

definition retired :: "nat set \<Rightarrow> tla_state \<Rightarrow> tla_state \<Rightarrow> bool" where
  "retired C t t' \<longleftrightarrow>
     t_turn t' = t_turn t \<and> t_round t' = t_round t \<and> t_waited t' = t_waited t
     \<and> t_agent t' = t_agent t \<and> t_rid t' = t_rid t
     \<and> t_call t' = (\<lambda>c. if c \<in> C then Unused else t_call t c)"

lemma drain_call_run:
  assumes "t_turn t = TurnCancelling" and "c \<in> Calls cfg"
  shows "\<exists>t'. tla_run cfg t (drain_call c (t_call t c)) t' \<and> retired {c} t t'"
proof -
  have settle: "\<exists>t'. tla_step cfg u (ToolSettle c) t' \<and> retired {c} u t'"
    if "t_turn u = TurnCancelling" "t_call u c \<in> {CallDone, Denied, Requested, Allowed}" for u
    using that assms(2) by (auto simp: tla_call_iffs retired_def fun_eq_iff)
  show ?thesis
  proof (cases "t_call t c \<in> {Executing, ExecBg}")
    case True
    let ?u = "t\<lparr>t_call := (t_call t)(c := CallDone)\<rparr>"
    have end_step: "tla_step cfg t (ToolExecEnd c) ?u"
      using True assms(2) by (auto simp: tla_call_iffs)
    obtain t' where "tla_step cfg ?u (ToolSettle c) t'" and "retired {c} ?u t'"
      using settle [of ?u] assms(1) by auto
    with end_step have "tla_run cfg t [ToolExecEnd c, ToolSettle c] t'"
      by (blast intro: tla_run.intros)
    moreover have "retired {c} t t'" using \<open>retired {c} ?u t'\<close> by (auto simp: retired_def fun_eq_iff)
    ultimately show ?thesis using True by auto
  next
    case False
    show ?thesis
    proof (cases "t_call t c = Unused")
      case True
      then show ?thesis by (auto simp: retired_def fun_eq_iff intro: tla_run.intros)
    next
      case unused: False
      with False have "t_call t c \<in> {CallDone, Denied, Requested, Allowed}"
        by (cases "t_call t c") auto
      then obtain t' where "tla_step cfg t (ToolSettle c) t'" "retired {c} t t'"
        using settle [of t] assms(1) by blast
      moreover have "drain_call c (t_call t c) = [ToolSettle c]"
        using \<open>t_call t c \<in> _\<close> by auto
      ultimately show ?thesis using tla_run_one by metis
    qed
  qed
qed

lemma drain_calls_run:
  assumes "t_turn t = TurnCancelling" and "n \<le> call_slots cfg"
  shows "\<exists>t'. tla_run cfg t (drain_calls n (t_call t)) t' \<and> retired {1..n} t t'"
  using assms(2)
proof (induction n)
  case 0
  then show ?case by (auto simp: retired_def intro: tla_run.intros)
next
  case (Suc n)
  then obtain t1 where run1: "tla_run cfg t (drain_calls n (t_call t)) t1" and r1: "retired {1..n} t t1"
    by auto
  have "t_turn t1 = TurnCancelling" and "t_call t1 (Suc n) = t_call t (Suc n)"
    using r1 assms(1) by (simp_all add: retired_def)
  moreover have "Suc n \<in> Calls cfg" using Suc.prems by (simp add: Calls_def)
  ultimately obtain t2 where "tla_run cfg t1 (drain_call (Suc n) (t_call t (Suc n))) t2"
    and r2: "retired {Suc n} t1 t2"
    using drain_call_run [of t1 "Suc n" cfg] by auto
  with run1 have "tla_run cfg t (drain_calls (Suc n) (t_call t)) t2" by (auto intro: tla_run_append)
  moreover have "retired {1..Suc n} t t2"
    using r1 r2 by (auto simp: retired_def fun_eq_iff le_Suc_eq)
  ultimately show ?case by blast
qed

lemma close_round_run:
  assumes "t_turn t = TurnCancelling" and "\<forall>c \<in> Calls cfg. t_call t c = Unused"
    and "\<forall>a. \<not> t_waited t a"
  shows "\<exists>t'. tla_run cfg t ((if t_round t = InRound then [RoundEnd] else []) @ [TurnEnd]) t'
    \<and> t_turn t' = TurnIdle \<and> t_agent t' = t_agent t"
proof -
  let ?u = "t\<lparr>t_round := Prep\<rparr>"
  have close: "tla_run cfg t (if t_round t = InRound then [RoundEnd] else []) ?u"
  proof (cases "t_round t")
    case Prep
    then have "?u = t" by (cases t) simp
    then have "tla_run cfg t [] ?u" by (simp only: run_nil)
    with Prep show ?thesis by simp
  next
    case InRound
    with assms show ?thesis by (auto simp: tla_turn_iffs intro!: tla_run_one)
  qed
  have quiet: "t_agent t a \<in> {NoAgent, AgentRunning} \<or> t_agent t a = AgentDone" for a
    by (cases "t_agent t a") auto
  have "tla_step cfg ?u TurnEnd (?u\<lparr>t_turn := TurnIdle, t_round_due := False\<rparr>)"
    using assms(1) quiet by (auto simp: tla_turn_iffs)
  with close show ?thesis by (fastforce intro: tla_run_append tla_run_one)
qed

text \<open>
  Claim C5. A turn can always be brought back to idle: from every invariant state with an active
  turn the kernel accepts the abort sequence (cancel, retire every call by its phase, a call that
  handed off its work included, close the round, end the turn), and no task is lost by it.
\<close>

theorem abort_always_reaches_idle:
  assumes "kernel_inv cfg s" and "turn s \<noteq> TurnIdle"
  shows "\<exists>s'. run_events cfg s (abort_events cfg s) = Inr s' \<and> turn s' = TurnIdle
    \<and> map agent_phase (agents s') = map agent_phase (agents s)"
proof -
  let ?t = "abs_state s"
  let ?t1 = "?t\<lparr>t_turn := TurnCancelling, t_waited := (\<lambda>_. False)\<rparr>"
  have "t_turn ?t = TurnCancelling \<longrightarrow> t_waited ?t = (\<lambda>_. False)"
    using assms(1) by (auto simp: kernel_inv_def inv_wait_pending_def abs_state_def at_def fun_eq_iff)
  then have "?t1 = ?t" if "turn s = TurnCancelling"
    using that by (cases ?t) (simp add: abs_state_def)
  then have cancel: "tla_run cfg ?t (if turn s = TurnRunning then [TurnCancel] else []) ?t1"
    using assms(2) by (cases "turn s") (auto simp: tla_turn_iffs run_nil intro!: tla_run_one)
  obtain t2 where drain: "tla_run cfg ?t1 (drain_calls (call_slots cfg) (t_call ?t)) t2"
    and ret: "retired {1..call_slots cfg} ?t1 t2"
    using drain_calls_run [of ?t1 "call_slots cfg" cfg] by auto
  from ret obtain t3 where "tla_run cfg t2 ((if round s = InRound then [RoundEnd] else []) @ [TurnEnd]) t3"
    and t3: "t_turn t3 = TurnIdle" "t_agent t3 = t_agent ?t"
    using close_round_run [of t2 cfg] by (auto simp: retired_def Calls_def)
  with cancel drain have "tla_run cfg ?t (abort_events cfg s) t3"
    unfolding abort_events_def by (blast intro: tla_run_append)
  then obtain s' where s': "run_events cfg s (abort_events cfg s) = Inr s'" and eq: "t3 = abs_state s'"
    using runs_agree [OF assms(1)] by blast
  have "inv_scope cfg s" "inv_scope cfg s'"
    using assms(1) run_events_inv [OF assms(1) s'] by (simp_all add: kernel_inv_def)
  then have len: "length (agents s') = length (agents s)" by (simp add: inv_scope_def)
  have "agent_phase (agents s' ! i) = agent_phase (agents s ! i)" if "i < length (agents s)" for i
    using t3(2) that len by (auto simp: eq abs_state_def at_def fun_eq_iff dest!: spec [of _ "Suc i"])
  then have "map agent_phase (agents s') = map agent_phase (agents s)"
    using len by (simp add: list_eq_iff_nth_eq)
  with s' t3(1) eq show ?thesis by auto
qed

theorem abort_always_reaches_idle_witness:
  "\<exists>s'. run_events MODEL_SCOPE (kernel_state_new MODEL_SCOPE \<lparr>turn := TurnRunning, round_due := True\<rparr>)
     [TurnCancel, TurnEnd] = Inr s' \<and> turn s' = TurnIdle"
proof -
  let ?s = "kernel_state_new MODEL_SCOPE \<lparr>turn := TurnRunning, round_due := True\<rparr>"
  have inv: "kernel_inv MODEL_SCOPE ?s"
    by (simp add: kernel_inv_defs kernel_state_new_def MODEL_SCOPE_def running_agents_def
        config_ok_def isize_max_def)
  have "abort_events MODEL_SCOPE ?s = [TurnCancel, TurnEnd]"
    by (simp add: abort_events_def abs_state_def at_def kernel_state_new_def MODEL_SCOPE_def
        numeral_2_eq_2)
  then show ?thesis using abort_always_reaches_idle [OF inv] by (auto simp: kernel_state_new_def)
qed

end
