(* ===== verification/Json.thy ===== *)
theory Json
  imports Prelude Complex_Main
begin

text \<open>
  Rust strings as lists of Unicode code points, \<open>serde_json::Value\<close> as a datatype with the
  accessors the source uses, and the decimal text of a \<open>usize\<close>. \<open>serde_json\<close> is built without
  \<open>preserve_order\<close>, so an object is a \<open>BTreeMap\<close>: an association list in key order.
  A finite \<open>f64\<close> is the rational number it denotes (the sign of zero is not kept: \<open>==\<close> does
  not see it), and an integer is converted to it by rounding to 53 bits, ties to even.
\<close>

section \<open>Strings\<close>

type_synonym ustring = "nat list"

definition lit :: "string \<Rightarrow> ustring" where
  "lit s = map of_char s"

lemma lit_simps [simp]: "lit [] = []" "lit (c # s) = of_char c # lit s"
  by (simp_all add: lit_def)

lemma lit_eq_iff: "lit s = lit t \<longleftrightarrow> s = t"
proof -
  have "inj (of_char :: char \<Rightarrow> nat)" by (simp add: inj_def)
  then show ?thesis by (simp add: lit_def inj_map_eq_map)
qed

text \<open>\<open>usize::to_string\<close>.\<close>

fun decimal :: "nat \<Rightarrow> ustring" where
  "decimal n = (if n < 10 then [48 + n] else decimal (n div 10) @ [48 + n mod 10])"

declare decimal.simps [simp del]

definition decimal_value :: "ustring \<Rightarrow> nat" where
  "decimal_value ds = foldl (\<lambda>a d. 10 * a + (d - 48)) 0 ds"

lemma decimal_value_decimal: "decimal_value (decimal n) = n"
proof (induction n rule: decimal.induct)
  case (1 n)
  show ?case
  proof (cases "n < 10")
    case True
    then show ?thesis by (simp add: decimal.simps [of n] decimal_value_def)
  next
    case False
    then have "decimal_value (decimal n) = 10 * decimal_value (decimal (n div 10)) + n mod 10"
      by (subst decimal.simps) (simp add: decimal_value_def)
    also have "decimal_value (decimal (n div 10)) = n div 10" using 1 False by simp
    finally show ?thesis by simp
  qed
qed

lemma decimal_inj: "decimal m = decimal n \<longleftrightarrow> m = n"
  using decimal_value_decimal by metis

section \<open>Numbers\<close>

datatype json_number = PosInt nat | NegInt int | Float rat

text \<open>\<open>n as f64\<close> for an unsigned integer: at most 53 significant bits, ties to even.\<close>

fun bit_length :: "nat \<Rightarrow> nat" where
  "bit_length n = (if n = 0 then 0 else Suc (bit_length (n div 2)))"

declare bit_length.simps [simp del]

definition round_to_bits :: "nat \<Rightarrow> nat \<Rightarrow> nat" where
  "round_to_bits p n =
     (let k = bit_length n - p; q = n div 2 ^ k; r = n mod 2 ^ k
      in if k = 0 then n
         else if 2 * r > 2 ^ k \<or> (2 * r = 2 ^ k \<and> odd q) then (q + 1) * 2 ^ k
         else q * 2 ^ k)"

definition f64_of_nat :: "nat \<Rightarrow> rat" where
  "f64_of_nat n = of_nat (round_to_bits 53 n)"

definition f64_of_int :: "int \<Rightarrow> rat" where
  "f64_of_int i = (if i < 0 then - f64_of_nat (nat (- i)) else f64_of_nat (nat i))"

fun number_f64 :: "json_number \<Rightarrow> rat" where
  "number_f64 (PosInt n) = f64_of_nat n"
| "number_f64 (NegInt i) = f64_of_int i"
| "number_f64 (Float x) = x"

lemma bit_length_bound: "n < 2 ^ bit_length n"
proof (induction n rule: bit_length.induct)
  case (1 n)
  show ?case
  proof (cases "n = 0")
    case False
    then have "n div 2 < 2 ^ bit_length (n div 2)" using 1 by blast
    then have "n < 2 * 2 ^ bit_length (n div 2)" by linarith
    with False show ?thesis by (simp add: bit_length.simps [of n])
  qed (simp add: bit_length.simps)
qed

lemma bit_length_le: "n < 2 ^ p \<Longrightarrow> bit_length n \<le> p"
proof (induction p arbitrary: n)
  case 0
  then show ?case by (simp add: bit_length.simps)
next
  case (Suc p)
  then have "n div 2 < 2 ^ p" by simp
  then show ?case using Suc.IH by (simp add: bit_length.simps [of n])
qed

text \<open>Integers of up to 53 bits are exact.\<close>

lemma f64_of_nat_exact: "n < 2 ^ 53 \<Longrightarrow> f64_of_nat n = of_nat n"
  by (simp add: f64_of_nat_def round_to_bits_def bit_length_le)

section \<open>Values\<close>

datatype json =
    JNull
  | JBool bool
  | JNum json_number
  | JStr ustring
  | JArr "json list"
  | JObj "(ustring \<times> json) list"

text \<open>The values that \<open>serde_json\<close> can hold: every object in strict key order.\<close>

fun json_wf :: "json \<Rightarrow> bool" where
  "json_wf (JArr xs) = (\<forall>x \<in> set xs. json_wf x)"
| "json_wf (JObj m) = (bt_sorted m \<and> (\<forall>p \<in> set m. json_wf (snd p)))"
| "json_wf _ = True"

fun as_object :: "json \<Rightarrow> (ustring \<times> json) list option" where
  "as_object (JObj m) = Some m"
| "as_object _ = None"

fun as_array :: "json \<Rightarrow> json list option" where
  "as_array (JArr xs) = Some xs"
| "as_array _ = None"

fun as_str :: "json \<Rightarrow> ustring option" where
  "as_str (JStr s) = Some s"
| "as_str _ = None"

fun as_u64 :: "json \<Rightarrow> nat option" where
  "as_u64 (JNum (PosInt n)) = Some n"
| "as_u64 _ = None"

fun as_f64 :: "json \<Rightarrow> rat option" where
  "as_f64 (JNum n) = Some (number_f64 n)"
| "as_f64 _ = None"

text \<open>Size of a value, counting every array element and object entry.\<close>

fun nodes :: "json \<Rightarrow> nat" where
  "nodes (JArr xs) = Suc (\<Sum>x \<leftarrow> xs. nodes x)"
| "nodes (JObj m) = Suc (\<Sum>p \<leftarrow> m. nodes (snd p))"
| "nodes _ = 1"

lemma nodes_pos [simp]: "0 < nodes v"
  by (cases v) simp_all

lemma nodes_item: "x \<in> set xs \<Longrightarrow> nodes x < nodes (JArr xs)"
  using member_le_sum_list [of "nodes x" "map nodes xs"] by auto

lemma nodes_entry: "p \<in> set m \<Longrightarrow> nodes (snd p) < nodes (JObj m)"
  using member_le_sum_list [of "nodes (snd p)" "map (nodes \<circ> snd) m"] by (auto simp: comp_def)

end
