(* ===== verification/Trace.thy ===== *)
theory Trace
  imports Kernel Json
begin

text \<open>
  \<^verbatim>\<open>src-tauri/agent-kernel/src/trace.rs\<close>: the recorder of accepted events and its export as a
  ProB replay. \<open>json!\<close> and \<open>Map::insert\<close> build objects in key order.
\<close>

record trace_recorder =
  events :: "kernel_event list"

definition recorder_new :: trace_recorder where
  "recorder_new = \<lparr>events = []\<rparr>"

definition record_event :: "trace_recorder \<Rightarrow> kernel_event \<Rightarrow> trace_recorder" where
  "record_event t e = t\<lparr>events := events t @ [e]\<rparr>"

definition bool_param :: "bool \<Rightarrow> json" where
  "bool_param b = JStr (lit (if b then ''TRUE'' else ''FALSE''))"

definition slot_param :: "nat \<Rightarrow> json" where
  "slot_param n = JStr (decimal n)"

fun event_params :: "kernel_event \<Rightarrow> (ustring \<times> json) list" where
  "event_params (ToolRequest c d) =
     bt_put (lit ''d'') (bool_param d) (bt_put (lit ''c'') (slot_param c) [])"
| "event_params (ToolAllow c) = bt_put (lit ''c'') (slot_param c) []"
| "event_params (ToolApprove c) = bt_put (lit ''c'') (slot_param c) []"
| "event_params (ToolDeny c) = bt_put (lit ''c'') (slot_param c) []"
| "event_params (ToolExecStart c) = bt_put (lit ''c'') (slot_param c) []"
| "event_params (ToolExecEnd c) = bt_put (lit ''c'') (slot_param c) []"
| "event_params (ToolSettle c) = bt_put (lit ''c'') (slot_param c) []"
| "event_params (AgentSpawn a r) =
     bt_put (lit ''r'') (slot_param r) (bt_put (lit ''a'') (slot_param a) [])"
| "event_params (AgentComplete a r) =
     bt_put (lit ''r'') (slot_param r) (bt_put (lit ''a'') (slot_param a) [])"
| "event_params (AgentFold a r) =
     bt_put (lit ''r'') (slot_param r) (bt_put (lit ''a'') (slot_param a) [])"
| "event_params (TaskWait a r) =
     bt_put (lit ''r'') (slot_param r) (bt_put (lit ''a'') (slot_param a) [])"
| "event_params (TaskWaitTimeout a r) =
     bt_put (lit ''r'') (slot_param r) (bt_put (lit ''a'') (slot_param a) [])"
| "event_params (TaskWaitDeliver a r) =
     bt_put (lit ''r'') (slot_param r) (bt_put (lit ''a'') (slot_param a) [])"
| "event_params (ToolBackground c a r) =
     bt_put (lit ''r'') (slot_param r)
       (bt_put (lit ''a'') (slot_param a) (bt_put (lit ''c'') (slot_param c) []))"
| "event_params _ = []"

definition transition_json :: "kernel_event \<Rightarrow> json" where
  "transition_json e =
     (if event_params e = [] then JObj [(lit ''name'', JStr (lit (event_name e)))]
      else JObj [(lit ''name'', JStr (lit (event_name e))), (lit ''params'', JObj (event_params e))])"

definition to_prob_json :: "trace_recorder \<Rightarrow> json" where
  "to_prob_json t =
     JObj [(lit ''transitionList'',
       JArr (JObj [(lit ''name'', JStr (lit ''$initialise_machine''))]
             # map transition_json (events t)))]"

lemma bool_param_inj: "bool_param b = bool_param b' \<longleftrightarrow> b = b'"
  by (auto simp: bool_param_def split: if_splits)

lemma slot_param_inj: "slot_param m = slot_param n \<longleftrightarrow> m = n"
  by (simp add: slot_param_def decimal_inj)

text \<open>An event is determined by its name and its parameters.\<close>

lemma event_of_name_and_params:
  assumes "event_name e = event_name e'" and "event_params e = event_params e'"
  shows "e = e'"
  using assms by (cases e; cases e') (simp_all add: bool_param_inj slot_param_inj)

lemma transition_json_inj: "transition_json e = transition_json e' \<longleftrightarrow> e = e'"
proof
  assume eq: "transition_json e = transition_json e'"
  then have "event_params e = event_params e'"
    by (auto simp: transition_json_def simp del: lit_simps split: if_splits)
  moreover have "event_name e = event_name e'"
    using eq by (auto simp: transition_json_def lit_eq_iff simp del: lit_simps split: if_splits)
  ultimately show "e = e'" by (rule event_of_name_and_params [rotated])
qed simp

lemma event_params_wf: "json_wf (JObj (event_params e))"
  by (cases e) (simp_all add: bt_sorted_def bool_param_def slot_param_def)

lemma transition_json_wf: "json_wf (transition_json e)"
  using event_params_wf [of e] by (simp add: transition_json_def bt_sorted_def)

text \<open>
  The exported replay loses nothing: two recorded traces with the same export are the
  same event sequence, and the export is a value serde_json can hold (keys in order).
\<close>

theorem export_determines_trace:
  "json_wf (to_prob_json t)
   \<and> (to_prob_json t = to_prob_json t' \<longleftrightarrow> events t = events t')"
proof -
  have "inj transition_json" by (simp add: inj_def transition_json_inj)
  then show ?thesis
    by (auto simp: to_prob_json_def bt_sorted_def transition_json_wf inj_map_eq_map)
qed

end
