(* ===== verification/Shadow.thy ===== *)
theory Shadow
  imports KernelInv Json
begin

text \<open>
  The shadow kernel, \<^verbatim>\<open>src-tauri/src/kernel_shadow.rs\<close>: the projection of what the host does
  onto events of the agent kernel. Calls and tasks of the host, named by strings, are mapped to
  the kernel's numbered slots; a refused event is recorded as a divergence, and in strict mode it
  panics. A panic inside an operation is \<open>Inl\<close> of the state the panic leaves behind: it poisons
  the mutex, after which every operation is a no-op. The notes of the code are constructors of
  \<open>divergence\<close>. A \<open>Vec\<close> of free slots is a list whose head is the end that \<open>push\<close> and
  \<open>pop\<close> use. The iteration order of the \<open>HashMap\<close> of calls is an argument of the
  operations that sweep it.
\<close>

section \<open>Data\<close>

record task_identity =
  generation :: nat
  params_digest :: nat

definition SHADOW_CALL_SLOTS :: nat where "SHADOW_CALL_SLOTS = 4"
definition SHADOW_AGENT_SLOTS :: nat where "SHADOW_AGENT_SLOTS = 32"
definition SHADOW_TASK_IDS :: nat where "SHADOW_TASK_IDS = 2"

lemmas shadow_limits = SHADOW_CALL_SLOTS_def SHADOW_AGENT_SLOTS_def SHADOW_TASK_IDS_def

definition other_rid :: "nat \<Rightarrow> nat" where
  "other_rid r = r mod SHADOW_TASK_IDS + 1"

record call_entry =
  ce_slot :: slot_id
  ce_danger :: bool
  prompt_outcome :: "bool option"
  ce_digest :: nat

record agent_entry =
  ae_slot :: slot_id
  ae_rid :: task_id
  identity :: task_identity

datatype identity_match = Tracked | NewerIncarnation | Stale

definition classify :: "agent_entry \<Rightarrow> task_identity \<Rightarrow> identity_match" where
  "classify entry tid =
     (if tid = identity entry then Tracked
      else if generation tid > generation (identity entry) then NewerIncarnation
      else Stale)"

datatype divergence =
    Refused kernel_refusal kernel_event
  | FinishedUnregistered ustring
  | DigestMismatch ustring
  | BackgroundedUnregistered ustring
  | ResidualCall ustring
  | DuplicateCall ustring
  | DuplicateTask ustring

record shadow =
  kern :: kernel
  sh_calls :: "(ustring \<times> call_entry) list"
  sh_agents :: "(ustring \<times> agent_entry) list"
  free_calls :: "slot_id list"
  free_agents :: "slot_id list"
  unmapped :: "ustring list"
  active_prompt_call :: "ustring option"
  pending_injection :: bool
  divergences :: "divergence list"
  scope_gaps :: nat

definition shadow_config :: "nat \<Rightarrow> kernel_config" where
  "shadow_config live =
     \<lparr>call_slots = SHADOW_CALL_SLOTS, agent_slots = SHADOW_AGENT_SLOTS, max_live_agents = live,
      task_ids = SHADOW_TASK_IDS\<rparr>"

definition shadow_new :: "nat \<Rightarrow> shadow" where
  "shadow_new live =
     \<lparr>kern = kernel_new (shadow_config live), sh_calls = [], sh_agents = [],
      free_calls = [1..<SHADOW_CALL_SLOTS + 1], free_agents = [1..<SHADOW_AGENT_SLOTS + 1],
      unmapped = [], active_prompt_call = None, pending_injection = False, divergences = [],
      scope_gaps = 0\<rparr>"

section \<open>Sequencing\<close>

type_synonym effect = "shadow + shadow"

definition bindE :: "effect \<Rightarrow> (shadow \<Rightarrow> effect) \<Rightarrow> effect" where
  "bindE x f = (case x of Inl s \<Rightarrow> Inl s | Inr s \<Rightarrow> f s)"

definition diverge :: "divergence \<Rightarrow> shadow \<Rightarrow> shadow" where
  "diverge d s = s\<lparr>divergences := divergences s @ [d]\<rparr>"

definition gap :: "shadow \<Rightarrow> shadow" where
  "gap s = s\<lparr>scope_gaps := scope_gaps s + 1\<rparr>"

section \<open>Operations on the inner state\<close>

definition shadow_step :: "bool \<Rightarrow> kernel_event \<Rightarrow> shadow \<Rightarrow> effect" where
  "shadow_step strict e s =
     (case kernel_step (kern s) e of
        (Inr _, k) \<Rightarrow> Inr (s\<lparr>kern := k\<rparr>)
      | (Inl refusal, k) \<Rightarrow>
          (let s' = diverge (Refused refusal e) (s\<lparr>kern := k\<rparr>) in if strict then Inl s' else Inr s'))"

fun shadow_steps :: "bool \<Rightarrow> kernel_event list \<Rightarrow> shadow \<Rightarrow> effect" where
  "shadow_steps strict [] s = Inr s"
| "shadow_steps strict (e # es) s = bindE (shadow_step strict e s) (shadow_steps strict es)"

text \<open>Indexing \<open>calls[slot - 1]\<close> and \<open>agents[slot - 1]\<close>, which panics out of range.\<close>

definition index_call :: "shadow \<Rightarrow> slot_id \<Rightarrow> (call_slot \<Rightarrow> effect) \<Rightarrow> effect" where
  "index_call s slot k =
     (case slot_get (calls (state (kern s))) slot of
        None \<Rightarrow> Inl s
      | Some x \<Rightarrow> k x)"

definition index_agent :: "shadow \<Rightarrow> slot_id \<Rightarrow> (agent_slot \<Rightarrow> effect) \<Rightarrow> effect" where
  "index_agent s slot k =
     (case slot_get (agents (state (kern s))) slot of
        None \<Rightarrow> Inl s
      | Some x \<Rightarrow> k x)"

definition allocate_call ::
    "ustring \<Rightarrow> bool \<Rightarrow> nat \<Rightarrow> shadow \<Rightarrow> slot_id option \<times> shadow" where
  "allocate_call call_id d digest s =
     (if map_of (sh_calls s) call_id \<noteq> None then (None, diverge (DuplicateCall call_id) s)
      else case free_calls s of
             [] \<Rightarrow> (None, (gap s)\<lparr>unmapped := List.insert call_id (unmapped s)\<rparr>)
           | slot # rest \<Rightarrow>
               (Some slot,
                s\<lparr>free_calls := rest,
                  sh_calls := al_put call_id
                    \<lparr>ce_slot = slot, ce_danger = d, prompt_outcome = None, ce_digest = digest\<rparr>
                    (sh_calls s)\<rparr>))"

definition release_call :: "ustring \<Rightarrow> shadow \<Rightarrow> shadow" where
  "release_call call_id s =
     (case map_of (sh_calls s) call_id of
        None \<Rightarrow> s
      | Some entry \<Rightarrow>
          s\<lparr>sh_calls := al_del call_id (sh_calls s), free_calls := ce_slot entry # free_calls s\<rparr>)"

text \<open>\<open>allocate_agent\<close> reads the slot's rid, which is the one indexing it does.\<close>

definition allocate_agent ::
    "ustring \<Rightarrow> task_identity \<Rightarrow> shadow \<Rightarrow> (slot_id \<times> task_id \<Rightarrow> shadow \<Rightarrow> effect) \<Rightarrow> effect" where
  "allocate_agent name tid s k =
     (if map_of (sh_agents s) name \<noteq> None then Inr (diverge (DuplicateTask name) s)
      else case free_agents s of
             [] \<Rightarrow> Inr ((gap s)\<lparr>unmapped := List.insert name (unmapped s)\<rparr>)
           | slot # rest \<Rightarrow>
               index_agent (s\<lparr>free_agents := rest\<rparr>) slot (\<lambda>x.
                 let r = other_rid (rid x) in
                 k (slot, r)
                   (s\<lparr>free_agents := rest,
                      sh_agents := al_put name \<lparr>ae_slot = slot, ae_rid = r, identity = tid\<rparr>
                        (sh_agents s)\<rparr>)))"

definition release_agent :: "ustring \<Rightarrow> shadow \<Rightarrow> shadow" where
  "release_agent name s =
     (case map_of (sh_agents s) name of
        None \<Rightarrow> s
      | Some entry \<Rightarrow>
          s\<lparr>sh_agents := al_del name (sh_agents s), free_agents := ae_slot entry # free_agents s\<rparr>)"

fun sweep_calls :: "bool \<Rightarrow> ustring list \<Rightarrow> shadow \<Rightarrow> effect" where
  "sweep_calls strict [] s = Inr s"
| "sweep_calls strict (call_id # ids) s =
     (let s = diverge (ResidualCall call_id) s in
      case map_of (sh_calls s) call_id of
        None \<Rightarrow> sweep_calls strict ids s
      | Some entry \<Rightarrow>
          let slot = ce_slot entry in
          index_call s slot (\<lambda>x.
            bindE (shadow_steps strict
                     ((if call_phase x = Executing then [ToolExecEnd slot] else []) @ [ToolSettle slot]) s)
                  (\<lambda>s. sweep_calls strict ids (release_call call_id s))))"

section \<open>Operations of the host\<close>

fun observe_completed :: "bool \<Rightarrow> (ustring \<times> task_identity) list \<Rightarrow> shadow \<Rightarrow> effect" where
  "observe_completed strict [] s = Inr s"
| "observe_completed strict ((name, tid) # completed) s =
     (case map_of (sh_agents s) name of
        None \<Rightarrow> observe_completed strict completed (gap s)
      | Some entry \<Rightarrow>
          (case classify entry tid of
             Tracked \<Rightarrow>
               index_agent s (ae_slot entry) (\<lambda>x.
                 if agent_phase x = AgentDone then observe_completed strict completed s
                 else bindE (shadow_step strict (AgentComplete (ae_slot entry) (ae_rid entry)) s)
                            (observe_completed strict completed))
           | NewerIncarnation \<Rightarrow> observe_completed strict completed (gap s)
           | Stale \<Rightarrow>
               bindE (shadow_step strict (AgentComplete (ae_slot entry) (other_rid (ae_rid entry))) s)
                     (observe_completed strict completed)))"

definition begin_turn_with_completed ::
    "bool \<Rightarrow> (ustring \<times> task_identity) list \<Rightarrow> shadow \<Rightarrow> effect" where
  "begin_turn_with_completed strict completed s =
     bindE (observe_completed strict completed s) (shadow_step strict TurnStart)"

definition round_boundary :: "bool \<Rightarrow> shadow \<Rightarrow> effect" where
  "round_boundary strict s =
     (if kernel_state.round (state (kern s)) = InRound then shadow_step strict RoundEnd s else Inr s)"

definition steer_joined :: "bool \<Rightarrow> shadow \<Rightarrow> effect" where
  "steer_joined strict s = shadow_steps strict [SteerEnqueue, SteerJoin] s"

definition host_injection :: "shadow \<Rightarrow> effect" where
  "host_injection s = Inr (s\<lparr>pending_injection := True\<rparr>)"

definition turn_aborting :: "bool \<Rightarrow> ustring list \<Rightarrow> shadow \<Rightarrow> effect" where
  "turn_aborting strict ids s =
     bindE (if turn (state (kern s)) = TurnRunning then shadow_step strict TurnCancel s else Inr s) (\<lambda>s.
     bindE (sweep_calls strict ids s) (\<lambda>s.
     round_boundary strict s))"

definition round_started :: "bool \<Rightarrow> shadow \<Rightarrow> effect" where
  "round_started strict s =
     bindE (if pending_injection s
            then shadow_steps strict [SteerEnqueue, SteerJoin] (s\<lparr>pending_injection := False\<rparr>)
            else Inr s)
           (shadow_step strict RoundStart)"

definition rejected_precheck :: "bool \<Rightarrow> ustring \<Rightarrow> shadow \<Rightarrow> effect" where
  "rejected_precheck strict call_id s =
     (case allocate_call call_id False 0 s of
        (None, s) \<Rightarrow> Inr s
      | (Some slot, s) \<Rightarrow>
          bindE (shadow_steps strict [ToolRequest slot False, ToolDeny slot, ToolSettle slot] s)
                (\<lambda>s. Inr (release_call call_id s)))"

definition tool_request :: "bool \<Rightarrow> ustring \<Rightarrow> bool \<Rightarrow> nat \<Rightarrow> shadow \<Rightarrow> effect" where
  "tool_request strict call_id d digest s =
     (case allocate_call call_id d digest s of
        (None, s) \<Rightarrow> Inr s
      | (Some slot, s) \<Rightarrow> shadow_step strict (ToolRequest slot d) s)"

definition tool_dispatched :: "bool \<Rightarrow> ustring \<Rightarrow> shadow \<Rightarrow> effect" where
  "tool_dispatched strict call_id s =
     (case map_of (sh_calls s) call_id of
        None \<Rightarrow> Inr s
      | Some entry \<Rightarrow>
          if ce_danger entry
          then Inr (s\<lparr>sh_calls := al_put call_id (entry\<lparr>prompt_outcome := None\<rparr>) (sh_calls s),
                      active_prompt_call := Some call_id\<rparr>)
          else shadow_steps strict [ToolAllow (ce_slot entry), ToolExecStart (ce_slot entry)] s)"

definition record_prompt_outcome :: "bool \<Rightarrow> shadow \<Rightarrow> effect" where
  "record_prompt_outcome granted s =
     (case active_prompt_call s of
        None \<Rightarrow> Inr s
      | Some call_id \<Rightarrow>
          (case map_of (sh_calls s) call_id of
             None \<Rightarrow> Inr s
           | Some entry \<Rightarrow>
               Inr (if prompt_outcome entry = None
                    then s\<lparr>sh_calls := al_put call_id (entry\<lparr>prompt_outcome := Some granted\<rparr>) (sh_calls s)\<rparr>
                    else s)))"

text \<open>The events that close a call, by what the host observed of its approval.\<close>

definition finish_events ::
    "call_entry \<Rightarrow> bool \<Rightarrow> bool \<Rightarrow> bool \<Rightarrow> kernel_event list" where
  "finish_events entry rejected hook_allows success =
     (let slot = ce_slot entry in
      (if rejected then [ToolDeny slot]
       else if \<not> ce_danger entry then [ToolExecEnd slot]
       else if prompt_outcome entry = Some True \<or> hook_allows
            then [ToolApprove slot, ToolExecStart slot, ToolExecEnd slot]
       else if prompt_outcome entry = Some False \<or> \<not> success then [ToolDeny slot]
       else [ToolExecStart slot, ToolDeny slot])
      @ [ToolSettle slot])"

definition tool_finished ::
    "bool \<Rightarrow> ustring \<Rightarrow> bool \<Rightarrow> bool \<Rightarrow> bool \<Rightarrow> nat \<Rightarrow> shadow \<Rightarrow> effect" where
  "tool_finished strict call_id rejected hook_allows success digest s =
     (if call_id \<in> set (unmapped s) then Inr s
      else case map_of (sh_calls s) call_id of
             None \<Rightarrow> Inr (diverge (FinishedUnregistered call_id) s)
           | Some entry \<Rightarrow>
               bindE (if ce_digest entry \<noteq> digest
                      then (let s' = diverge (DigestMismatch call_id) s in if strict then Inl s' else Inr s')
                      else Inr s) (\<lambda>s.
               bindE (shadow_steps strict (finish_events entry rejected hook_allows success)
                        (s\<lparr>active_prompt_call := None\<rparr>)) (\<lambda>s.
               Inr (release_call call_id s))))"

definition tool_backgrounded :: "bool \<Rightarrow> ustring \<Rightarrow> ustring \<Rightarrow> task_identity \<Rightarrow> shadow \<Rightarrow> effect" where
  "tool_backgrounded strict call_id name tid s =
     (if call_id \<in> set (unmapped s) then Inr s
      else case map_of (sh_calls s) call_id of
             None \<Rightarrow> Inr (diverge (BackgroundedUnregistered call_id) s)
           | Some entry \<Rightarrow>
               allocate_agent name tid s (\<lambda>(a, r). shadow_step strict (ToolBackground (ce_slot entry) a r)))"

definition agent_spawned :: "bool \<Rightarrow> ustring \<Rightarrow> task_identity \<Rightarrow> shadow \<Rightarrow> effect" where
  "agent_spawned strict name tid s =
     allocate_agent name tid s (\<lambda>(slot, r). shadow_step strict (AgentSpawn slot r))"

definition task_wait_started :: "bool \<Rightarrow> ustring \<Rightarrow> task_identity \<Rightarrow> shadow \<Rightarrow> effect" where
  "task_wait_started strict name tid s =
     (case map_of (sh_agents s) name of
        None \<Rightarrow> Inr (gap s)
      | Some entry \<Rightarrow>
          (let r = (case classify entry tid of Stale \<Rightarrow> other_rid (ae_rid entry) | _ \<Rightarrow> ae_rid entry)
           in shadow_step strict (TaskWait (ae_slot entry) r) s))"

definition task_wait_claimed :: "bool \<Rightarrow> ustring \<Rightarrow> task_identity \<Rightarrow> shadow \<Rightarrow> effect" where
  "task_wait_claimed strict name tid s =
     (case map_of (sh_agents s) name of
        None \<Rightarrow> Inr (gap s)
      | Some entry \<Rightarrow>
          (let slot = ae_slot entry in
           case classify entry tid of
             Tracked \<Rightarrow>
               bindE (shadow_steps strict
                        [AgentComplete slot (ae_rid entry), TaskWaitDeliver slot (ae_rid entry)] s)
                     (\<lambda>s. Inr (release_agent name s))
           | NewerIncarnation \<Rightarrow> Inr (gap s)
           | Stale \<Rightarrow>
               shadow_steps strict
                 [AgentComplete slot (other_rid (ae_rid entry)),
                  TaskWaitDeliver slot (other_rid (ae_rid entry))] s))"

definition task_wait_timed_out :: "bool \<Rightarrow> ustring \<Rightarrow> task_identity \<Rightarrow> shadow \<Rightarrow> effect" where
  "task_wait_timed_out strict name tid s =
     (case map_of (sh_agents s) name of
        None \<Rightarrow> Inr (gap s)
      | Some entry \<Rightarrow>
          (let r = (case classify entry tid of Stale \<Rightarrow> other_rid (ae_rid entry) | _ \<Rightarrow> ae_rid entry)
           in shadow_step strict (TaskWaitTimeout (ae_slot entry) r) s))"

text \<open>A stale identity skips the look at the phase (\<open>||\<close> stops at \<open>!tracked\<close>).\<close>

definition agent_folded :: "bool \<Rightarrow> ustring \<Rightarrow> task_identity \<Rightarrow> shadow \<Rightarrow> effect" where
  "agent_folded strict name tid s =
     (case map_of (sh_agents s) name of
        None \<Rightarrow> Inr (gap s)
      | Some entry \<Rightarrow>
          (let slot = ae_slot entry in
           case classify entry tid of
             Tracked \<Rightarrow>
               index_agent s slot (\<lambda>x.
                 bindE (shadow_steps strict
                          ((if agent_phase x \<noteq> AgentDone then [AgentComplete slot (ae_rid entry)] else [])
                           @ [AgentFold slot (ae_rid entry)]) s)
                       (\<lambda>s. Inr (release_agent name s)))
           | NewerIncarnation \<Rightarrow> Inr (gap s)
           | Stale \<Rightarrow>
               shadow_steps strict
                 [AgentComplete slot (other_rid (ae_rid entry)),
                  AgentFold slot (other_rid (ae_rid entry))] s))"

definition turn_finished :: "bool \<Rightarrow> bool \<Rightarrow> ustring list \<Rightarrow> shadow \<Rightarrow> effect" where
  "turn_finished strict aborted ids s =
     bindE (if aborted \<and> turn (state (kern s)) = TurnRunning
            then shadow_step strict TurnCancel s else Inr s) (\<lambda>s.
     bindE (sweep_calls strict ids s) (\<lambda>s.
     bindE (round_boundary strict s) (\<lambda>s.
     shadow_step strict TurnEnd (s\<lparr>pending_injection := False\<rparr>))))"

section \<open>The observation surface\<close>

datatype shadow_op =
    BeginTurn "(ustring \<times> task_identity) list"
  | RoundBoundary
  | SteerJoined
  | HostInjection
  | TurnAborting "ustring list"
  | RoundStarted
  | RejectedPrecheck ustring
  | ToolRequested ustring bool nat
  | ToolDispatched ustring
  | PromptOutcome bool
  | ToolFinished ustring bool bool bool nat
  | ToolBackgrounded ustring ustring task_identity
  | AgentSpawned ustring task_identity
  | WaitStarted ustring task_identity
  | WaitClaimed ustring task_identity
  | WaitTimedOut ustring task_identity
  | AgentFolded ustring task_identity
  | TurnFinished bool "ustring list"

fun shadow_apply :: "bool \<Rightarrow> shadow_op \<Rightarrow> shadow \<Rightarrow> effect" where
  "shadow_apply strict (BeginTurn completed) s = begin_turn_with_completed strict completed s"
| "shadow_apply strict RoundBoundary s = round_boundary strict s"
| "shadow_apply strict SteerJoined s = steer_joined strict s"
| "shadow_apply strict HostInjection s = host_injection s"
| "shadow_apply strict (TurnAborting ids) s = turn_aborting strict ids s"
| "shadow_apply strict RoundStarted s = round_started strict s"
| "shadow_apply strict (RejectedPrecheck call_id) s = rejected_precheck strict call_id s"
| "shadow_apply strict (ToolRequested call_id d digest) s = tool_request strict call_id d digest s"
| "shadow_apply strict (ToolDispatched call_id) s = tool_dispatched strict call_id s"
| "shadow_apply strict (PromptOutcome granted) s = record_prompt_outcome granted s"
| "shadow_apply strict (ToolFinished call_id rejected hook success digest) s =
     tool_finished strict call_id rejected hook success digest s"
| "shadow_apply strict (ToolBackgrounded call_id name tid) s = tool_backgrounded strict call_id name tid s"
| "shadow_apply strict (AgentSpawned name tid) s = agent_spawned strict name tid s"
| "shadow_apply strict (WaitStarted name tid) s = task_wait_started strict name tid s"
| "shadow_apply strict (WaitClaimed name tid) s = task_wait_claimed strict name tid s"
| "shadow_apply strict (WaitTimedOut name tid) s = task_wait_timed_out strict name tid s"
| "shadow_apply strict (AgentFolded name tid) s = agent_folded strict name tid s"
| "shadow_apply strict (TurnFinished aborted ids) s = turn_finished strict aborted ids s"

record kernel_shadow =
  strict_mode :: bool
  poisoned :: bool
  inner :: shadow

definition kernel_shadow_new :: "bool \<Rightarrow> nat \<Rightarrow> kernel_shadow" where
  "kernel_shadow_new strict live = \<lparr>strict_mode = strict, poisoned = False, inner = shadow_new live\<rparr>"

text \<open>\<open>with_inner\<close>: a poisoned lock disables observation.\<close>

definition with_inner :: "kernel_shadow \<Rightarrow> (bool \<Rightarrow> shadow \<Rightarrow> effect) \<Rightarrow> kernel_shadow" where
  "with_inner sh f =
     (if poisoned sh then sh
      else case f (strict_mode sh) (inner sh) of
             Inr s \<Rightarrow> sh\<lparr>inner := s\<rparr>
           | Inl s \<Rightarrow> sh\<lparr>poisoned := True, inner := s\<rparr>)"

definition observe :: "kernel_shadow \<Rightarrow> shadow_op \<Rightarrow> kernel_shadow" where
  "observe sh op = with_inner sh (\<lambda>strict. shadow_apply strict op)"

end
