(* ===== verification/ShadowProps.thy ===== *)
theory ShadowProps
  imports Shadow
begin

text \<open>
  Properties of the shadow kernel of \<^verbatim>\<open>src-tauri/src/kernel_shadow.rs\<close>: its slot books stay
  consistent and in range under every sequence of observations, and as long as it has recorded no
  divergence they agree with the phases of the kernel it drives.
\<close>

section \<open>Which slots a kernel event occupies and frees\<close>

definition used_calls :: "kernel_state \<Rightarrow> slot_id set" where
  "used_calls s = {c. 1 \<le> c \<and> c \<le> length (calls s) \<and> call_phase (calls s ! (c - 1)) \<noteq> Unused}"

definition live_agents :: "kernel_state \<Rightarrow> slot_id set" where
  "live_agents s = {a. 1 \<le> a \<and> a \<le> length (agents s) \<and> agent_phase (agents s ! (a - 1)) \<noteq> NoAgent}"

definition rid_at :: "kernel_state \<Rightarrow> slot_id \<Rightarrow> task_id" where
  "rid_at s a = rid (agents s ! (a - 1))"

lemma used_frame [simp]:
  "used_calls (s\<lparr>turn := t\<rparr>) = used_calls s" "used_calls (s\<lparr>kernel_state.round := rd\<rparr>) = used_calls s"
  "used_calls (s\<lparr>round_due := b\<rparr>) = used_calls s" "used_calls (s\<lparr>steer_pending := b\<rparr>) = used_calls s"
  "used_calls (s\<lparr>wake_fold_pending := w\<rparr>) = used_calls s" "used_calls (s\<lparr>agents := xs\<rparr>) = used_calls s"
  "used_calls (s\<lparr>calls := map (\<lambda>slot. slot\<lparr>fresh := False\<rparr>) (calls s)\<rparr>) = used_calls s"
  by (auto simp: used_calls_def)

lemma live_frame [simp]:
  "live_agents (s\<lparr>turn := t\<rparr>) = live_agents s" "live_agents (s\<lparr>kernel_state.round := rd\<rparr>) = live_agents s"
  "live_agents (s\<lparr>round_due := b\<rparr>) = live_agents s" "live_agents (s\<lparr>steer_pending := b\<rparr>) = live_agents s"
  "live_agents (s\<lparr>wake_fold_pending := w\<rparr>) = live_agents s" "live_agents (s\<lparr>calls := cs\<rparr>) = live_agents s"
  "live_agents (s\<lparr>turn := t, agents := map (\<lambda>slot. slot\<lparr>waited := False\<rparr>) (agents s)\<rparr>) = live_agents s"
  by (auto simp: live_agents_def)

lemma used_set_call:
  assumes "inv_scope cfg s" and "slot_get (calls s) c = Some x"
  shows "used_calls (set_call s c y) =
      (if call_phase y = Unused then used_calls s - {c} else insert c (used_calls s))"
    and "c \<in> used_calls s \<longleftrightarrow> call_phase x \<noteq> Unused"
  using call_slotD [OF assms] by (auto simp: used_calls_def nth_list_update split: if_splits)

lemma live_set_agent:
  assumes "inv_scope cfg s" and "slot_get (agents s) a = Some x"
  shows "live_agents (set_agent s a y) =
      (if agent_phase y = NoAgent then live_agents s - {a} else insert a (live_agents s))"
    and "a \<in> live_agents s \<longleftrightarrow> agent_phase x \<noteq> NoAgent"
  using agent_slotD [OF assms] by (auto simp: live_agents_def nth_list_update split: if_splits)

text \<open>The slot an event takes from unused, the one it returns to unused, and the same for tasks.\<close>

fun takes_call :: "kernel_event \<Rightarrow> slot_id option" where
  "takes_call (ToolRequest c _) = Some c"
| "takes_call _ = None"

fun frees_call :: "kernel_event \<Rightarrow> slot_id option" where
  "frees_call (ToolSettle c) = Some c"
| "frees_call _ = None"

fun takes_agent :: "kernel_event \<Rightarrow> (slot_id \<times> task_id) option" where
  "takes_agent (AgentSpawn a r) = Some (a, r)"
| "takes_agent (ToolBackground _ a r) = Some (a, r)"
| "takes_agent _ = None"

fun frees_agent :: "kernel_event \<Rightarrow> slot_id option" where
  "frees_agent (AgentFold a _) = Some a"
| "frees_agent (TaskWaitDeliver a _) = Some a"
| "frees_agent _ = None"

lemma step_used_calls:
  assumes inv: "kernel_inv cfg s" and step: "step_state cfg s e = Inr s'"
  shows "used_calls s' = (used_calls s \<union> set_option (takes_call e)) - set_option (frees_call e)"
    and "set_option (takes_call e) \<inter> used_calls s = {}" and "set_option (frees_call e) \<subseteq> used_calls s"
proof -
  have scope: "inv_scope cfg s" and fresh: "inv_fresh_only_allowed s"
    using inv by (simp_all add: kernel_inv_def)
  note upd = used_set_call [OF scope, unfolded One_nat_def]
  have frame: "used_calls (s\<lparr>calls := cs, agents := as\<rparr>) = used_calls (s\<lparr>calls := cs\<rparr>)" 
    "used_calls (s\<lparr>turn := t, agents := as\<rparr>) = used_calls s"
    "used_calls (s\<lparr>turn := t, round_due := b\<rparr>) = used_calls s" for cs as t b
    by (simp_all add: used_calls_def)
  show "used_calls s' = (used_calls s \<union> set_option (takes_call e)) - set_option (frees_call e)"
    using step fresh
    by (cases e) (auto simp: handler_defs upd frame inv_fresh_only_allowed_def settleable_def)
  show "set_option (takes_call e) \<inter> used_calls s = {}" and "set_option (frees_call e) \<subseteq> used_calls s"
    using step by (cases e; auto simp: handler_defs upd settleable_def)+
qed

lemma step_live_agents:
  assumes inv: "kernel_inv cfg s" and step: "step_state cfg s e = Inr s'"
  shows "live_agents s' = (live_agents s \<union> fst ` set_option (takes_agent e)) - set_option (frees_agent e)"
    and "set_option (frees_agent e) \<subseteq> live_agents s"
proof -
  have scope: "inv_scope cfg s" using inv by (simp add: kernel_inv_def)
  note upd = live_set_agent [OF scope, unfolded One_nat_def]
  have frame: "live_agents (s\<lparr>calls := cs, agents := as\<rparr>) = live_agents (s\<lparr>agents := as\<rparr>)"
    "live_agents (s\<lparr>turn := t, round_due := b\<rparr>) = live_agents s" for cs as t b
    by (simp_all add: live_agents_def)
  show "live_agents s' = (live_agents s \<union> fst ` set_option (takes_agent e)) - set_option (frees_agent e)"
    using step by (cases e) (auto simp: handler_defs upd frame)
  show "set_option (frees_agent e) \<subseteq> live_agents s"
    using step by (cases e) (auto simp: handler_defs upd)
qed

lemma step_rid_at:
  assumes inv: "kernel_inv cfg s" and step: "step_state cfg s e = Inr s'"
    and a: "1 \<le> a" "a \<le> length (agents s)"
  shows "rid_at s' a = (case takes_agent e of None \<Rightarrow> rid_at s a
      | Some (b, r) \<Rightarrow> if b = a then r else rid_at s a)"
proof -
  have scope: "inv_scope cfg s" using inv by (simp add: kernel_inv_def)
  have idx: "(b - Suc 0 = a - Suc 0) \<longleftrightarrow> b = a" if "1 \<le> b" for b using that a by auto
  have idx0: "a - Suc 0 < length (agents s)" using a by auto
  show ?thesis
    using step a idx0 agent_slotD [OF scope]
    by (cases e) (fastforce simp: handler_defs rid_at_def nth_list_update idx)+
qed

section \<open>Slot books\<close>

text \<open>A map from names to slots and a free list that together hold every slot exactly once.\<close>

definition books :: "('v \<Rightarrow> slot_id) \<Rightarrow> ('k \<times> 'v) list \<Rightarrow> slot_id list \<Rightarrow> nat \<Rightarrow> bool" where
  "books slot m free n \<longleftrightarrow>
     distinct (map fst m) \<and> distinct (map (slot \<circ> snd) m @ free)
     \<and> set (map (slot \<circ> snd) m @ free) = {1..n}"

definition slots_of :: "('v \<Rightarrow> slot_id) \<Rightarrow> ('k \<times> 'v) list \<Rightarrow> slot_id set" where
  "slots_of slot m = set (map (slot \<circ> snd) m)"

lemma books_range:
  "books slot m free n \<Longrightarrow> map_of m k = Some v \<Longrightarrow> 1 \<le> slot v \<and> slot v \<le> n \<and> slot v \<in> slots_of slot m"
  unfolding books_def slots_of_def by (force dest: map_of_SomeD)

lemma books_member: "books slot m free n \<Longrightarrow> (k, v) \<in> set m \<Longrightarrow> 1 \<le> slot v \<and> slot v \<le> n"
  unfolding books_def by force

lemma al_del_slots:
  assumes "distinct (map fst m)" and "distinct (map (slot \<circ> snd) m)" and "map_of m k = Some v"
  shows "slots_of slot (al_del k m) = slots_of slot m - {slot v}"
    and "distinct (map (slot \<circ> snd) (al_del k m))"
proof -
  have kv: "(k, v) \<in> set m" using assms(3) by (rule map_of_SomeD)
  have same: "fst p = k" if "p \<in> set m" "slot (snd p) = slot v" for p
  proof -
    have "inj_on (slot \<circ> snd) (set m)" using assms(2) by (simp add: distinct_map)
    then have "p = (k, v)" using that kv by (auto simp: inj_on_def)
    then show ?thesis by simp
  qed
  have val: "snd p = v" if "p \<in> set m" "fst p = k" for p
    using that assms(1,3) by (metis map_of_is_SomeI option.inject prod.collapse)
  show "slots_of slot (al_del k m) = slots_of slot m - {slot v}"
  proof -
    have "set (al_del k m) = {p \<in> set m. slot (snd p) \<noteq> slot v}"
      unfolding set_al_del using same val by blast
    then show ?thesis by (auto simp: slots_of_def)
  qed
  show "distinct (map (slot \<circ> snd) (al_del k m))"
    using assms(2) by (simp add: al_del_def distinct_map_filter)
qed

lemma books_alloc:
  assumes "books slot m (c # rest) n" and "map_of m k = None" and "slot v = c"
  shows "books slot (al_put k v m) rest n" and "slots_of slot (al_put k v m) = insert c (slots_of slot m)"
    and "c \<notin> slots_of slot m"
  using assms by (auto simp: books_def slots_of_def al_put_def al_del_absent map_of_eq_None_iff)

lemma books_release:
  assumes "books slot m free n" and "map_of m k = Some v"
  shows "books slot (al_del k m) (slot v # free) n"
    and "slots_of slot (al_del k m) = slots_of slot m - {slot v}"
proof -
  have d: "distinct (map fst m)" "distinct (map (slot \<circ> snd) m)" using assms(1) by (simp_all add: books_def)
  note del = al_del_slots [OF d assms(2)]
  have v: "slot v \<in> slots_of slot m" using books_range [OF assms] by simp
  show "slots_of slot (al_del k m) = slots_of slot m - {slot v}" by (rule del)
  have free: "set free \<inter> slots_of slot m = {}" "distinct free"
    and all: "slots_of slot m \<union> set free = {1..n}"
    using assms(1) by (auto simp: books_def slots_of_def)
  have "set (map (slot \<circ> snd) (al_del k m)) = slots_of slot m - {slot v}"
    using del(1) by (simp only: slots_of_def)
  then have "distinct (map (slot \<circ> snd) (al_del k m) @ slot v # free)"
    and "set (map (slot \<circ> snd) (al_del k m) @ slot v # free) = {1..n}"
    using del(2) free v all by auto
  then show "books slot (al_del k m) (slot v # free) n"
    using d(1) by (simp add: books_def)
qed

lemma books_update:
  assumes "books slot m free n" and "map_of m k = Some v" and "slot v' = slot v"
  shows "books slot (al_put k v' m) free n" and "slots_of slot (al_put k v' m) = slots_of slot m"
proof -
  have rel: "books slot (al_del k m) (slot v # free) n" by (rule books_release [OF assms(1,2)])
  have absent: "map_of (al_del k m) k = None" by simp
  have put: "al_put k v' (al_del k m) = al_put k v' m" by (simp add: al_put_def al_del_absent)
  show "books slot (al_put k v' m) free n"
    using books_alloc(1) [OF rel absent assms(3)] by (simp only: put)
  have "insert (slot v) (slots_of slot m - {slot v}) = slots_of slot m"
    using books_range [OF assms(1,2)] by blast
  then show "slots_of slot (al_put k v' m) = slots_of slot m"
    using books_alloc(2) [OF rel absent assms(3)] books_release(2) [OF assms(1,2)] by (simp only: put)
qed

section \<open>The invariant of the shadow\<close>

abbreviation kstate :: "shadow \<Rightarrow> kernel_state" where
  "kstate s \<equiv> state (kern s)"

definition base_inv :: "nat \<Rightarrow> shadow \<Rightarrow> bool" where
  "base_inv n s \<longleftrightarrow>
     config (kern s) = shadow_config n \<and> kernel_inv (shadow_config n) (kstate s)
     \<and> books ce_slot (sh_calls s) (free_calls s) SHADOW_CALL_SLOTS
     \<and> books ae_slot (sh_agents s) (free_agents s) SHADOW_AGENT_SLOTS
     \<and> (\<forall>p \<in> set (sh_agents s). ae_rid (snd p) \<in> {1, 2})"

text \<open>
  Agreement of the books with the kernel, up to call slots \<open>X\<close> and task slots \<open>Y\<close> an operation
  has mapped but not yet occupied, or freed but not yet unmapped.
\<close>

definition agrees :: "slot_id set \<Rightarrow> slot_id set \<Rightarrow> shadow \<Rightarrow> bool" where
  "agrees X Y s \<longleftrightarrow>
     used_calls (kstate s) = slots_of ce_slot (sh_calls s) - X
     \<and> live_agents (kstate s) = slots_of ae_slot (sh_agents s) - Y
     \<and> (\<forall>p \<in> set (sh_agents s). ae_slot (snd p) \<notin> Y \<longrightarrow>
          rid_at (kstate s) (ae_slot (snd p)) = ae_rid (snd p))"

definition sinv :: "nat \<Rightarrow> slot_id set \<Rightarrow> slot_id set \<Rightarrow> shadow \<Rightarrow> bool" where
  "sinv n X Y s \<longleftrightarrow> base_inv n s \<and> (divergences s = [] \<longrightarrow> agrees X Y s)"

definition frame :: "shadow \<Rightarrow> shadow \<Rightarrow> bool" where
  "frame s s' \<longleftrightarrow>
     sh_calls s' = sh_calls s \<and> sh_agents s' = sh_agents s \<and> free_calls s' = free_calls s
     \<and> free_agents s' = free_agents s \<and> (divergences s \<noteq> [] \<longrightarrow> divergences s' \<noteq> [])"

lemma frame_refl [simp]: "frame s s"
  by (simp add: frame_def)

lemma frame_trans: "frame s s' \<Longrightarrow> frame s' s'' \<Longrightarrow> frame s s''"
  by (simp add: frame_def)

text \<open>
  What an operation leaves: \<open>P\<close> when it returns; a panic happens in strict mode only, and leaves
  the full invariant.
\<close>

definition fin :: "nat \<Rightarrow> bool \<Rightarrow> (shadow \<Rightarrow> bool) \<Rightarrow> effect \<Rightarrow> bool" where
  "fin n strict P x \<longleftrightarrow> (case x of Inl s \<Rightarrow> strict \<and> sinv n {} {} s | Inr s \<Rightarrow> P s)"

lemma fin_Inr [simp]: "fin n strict P (Inr s) = P s"
  by (simp add: fin_def)

lemma fin_bind:
  "fin n strict P x \<Longrightarrow> (\<And>s. P s \<Longrightarrow> fin n strict Q (f s)) \<Longrightarrow> fin n strict Q (bindE x f)"
  by (cases x) (simp_all add: fin_def bindE_def)

lemma fin_mono: "fin n strict P x \<Longrightarrow> (\<And>s. P s \<Longrightarrow> Q s) \<Longrightarrow> fin n strict Q x"
  by (auto simp: fin_def split: sum.splits)

lemma fin_step:
  assumes base: "base_inv n s"
    and ok: "\<And>ks. divergences s = [] \<Longrightarrow> step_state (shadow_config n) (kstate s) e = Inr ks \<Longrightarrow>
      agrees X Y (s\<lparr>kern := (kern s)\<lparr>state := ks\<rparr>\<rparr>)"
  shows "fin n strict (\<lambda>s'. frame s s' \<and> sinv n X Y s') (shadow_step strict e s)"
proof (cases "step_state (shadow_config n) (kstate s) e")
  case (Inl r)
  then have "shadow_step strict e s =
      (if strict then Inl (diverge (Refused r e) s) else Inr (diverge (Refused r e) s))"
    using base by (simp add: shadow_step_def kernel_step_def base_inv_def Let_def)
  moreover have "sinv n X Y (diverge (Refused r e) s)" "frame s (diverge (Refused r e) s)" for X Y
    using base by (simp_all add: sinv_def base_inv_def diverge_def frame_def)
  ultimately show ?thesis by (auto simp: fin_def)
next
  case (Inr ks)
  let ?s = "s\<lparr>kern := (kern s)\<lparr>state := ks\<rparr>\<rparr>"
  have "shadow_step strict e s = Inr ?s"
    using base Inr by (simp add: shadow_step_def kernel_step_def base_inv_def)
  moreover have "kernel_inv (shadow_config n) ks"
    using kernel_inv_step [OF _ Inr] base by (simp add: base_inv_def)
  ultimately show ?thesis
    using base ok Inr by (auto simp: sinv_def base_inv_def frame_def)
qed

section \<open>Events seen from the books\<close>

lemma sinv_base: "sinv n X Y s \<Longrightarrow> base_inv n s"
  by (simp add: sinv_def)

text \<open>Once a divergence is recorded, agreement is no longer claimed.\<close>

lemma sinv_diverged: "sinv n X Y s \<Longrightarrow> divergences s \<noteq> [] \<Longrightarrow> sinv n X' Y' s"
  by (simp add: sinv_def)

lemma agrees_step:
  assumes s: "sinv n X Y s" "divergences s = []"
    and step: "step_state (shadow_config n) (kstate s) e = Inr ks"
    and calls: "(slots_of ce_slot (sh_calls s) - X \<union> set_option (takes_call e)) - set_option (frees_call e)
       = slots_of ce_slot (sh_calls s) - X'"
    and agents: "(slots_of ae_slot (sh_agents s) - Y \<union> fst ` set_option (takes_agent e)) - set_option (frees_agent e)
       = slots_of ae_slot (sh_agents s) - Y'"
    and rids: "\<And>name entry. (name, entry) \<in> set (sh_agents s) \<Longrightarrow> ae_slot entry \<notin> Y' \<Longrightarrow>
       (case takes_agent e of Some (a, r) \<Rightarrow> if a = ae_slot entry then r = ae_rid entry else ae_slot entry \<notin> Y
        | None \<Rightarrow> ae_slot entry \<notin> Y)"
  shows "agrees X' Y' (s\<lparr>kern := (kern s)\<lparr>state := ks\<rparr>\<rparr>)"
proof -
  have inv: "kernel_inv (shadow_config n) (kstate s)" and agr: "agrees X Y s"
    and bk: "books ae_slot (sh_agents s) (free_agents s) SHADOW_AGENT_SLOTS"
    using s by (simp_all add: sinv_def base_inv_def)
  have len: "length (agents (kstate s)) = SHADOW_AGENT_SLOTS"
    using inv by (simp add: kernel_inv_def inv_scope_def shadow_config_def)
  have "rid_at ks (ae_slot entry) = ae_rid entry"
    if e: "(name, entry) \<in> set (sh_agents s)" "ae_slot entry \<notin> Y'" for name entry
  proof -
    have "ae_slot entry \<in> {1..SHADOW_AGENT_SLOTS}"
      using books_member [OF bk e(1)] by simp
    then have rid: "rid_at ks (ae_slot entry) = (case takes_agent e of None \<Rightarrow> rid_at (kstate s) (ae_slot entry)
        | Some (b, r) \<Rightarrow> if b = ae_slot entry then r else rid_at (kstate s) (ae_slot entry))"
      using len by (intro step_rid_at [OF inv step]) simp_all
    have "\<forall>p \<in> set (sh_agents s). ae_slot (snd p) \<notin> Y \<longrightarrow> rid_at (kstate s) (ae_slot (snd p)) = ae_rid (snd p)"
      using agr unfolding agrees_def by (elim conjE)
    from bspec [OF this e(1)]
    have old: "ae_slot entry \<notin> Y \<Longrightarrow> rid_at (kstate s) (ae_slot entry) = ae_rid entry" by simp
    show ?thesis
    proof (cases "takes_agent e")
      case None
      with rid rids [OF e] old show ?thesis by simp
    next
      case (Some ar)
      obtain a r where ar: "ar = (a, r)" by (cases ar)
      show ?thesis
      proof (cases "a = ae_slot entry")
        case True
        with Some ar rid rids [OF e] show ?thesis by simp
      next
        case False
        with Some ar rid rids [OF e] old show ?thesis by simp
      qed
    qed
  qed
  then have "\<forall>p \<in> set (sh_agents s). ae_slot (snd p) \<notin> Y' \<longrightarrow> rid_at ks (ae_slot (snd p)) = ae_rid (snd p)"
    by (metis prod.collapse)
  moreover have "used_calls ks = slots_of ce_slot (sh_calls s) - X'"
    using step_used_calls(1) [OF inv step] agr calls by (simp add: agrees_def)
  moreover have "live_agents ks = slots_of ae_slot (sh_agents s) - Y'"
    using step_live_agents(1) [OF inv step] agr agents by (simp add: agrees_def)
  ultimately show ?thesis by (simp add: agrees_def)
qed

fun plain :: "kernel_event \<Rightarrow> bool" where
  "plain e \<longleftrightarrow> takes_call e = None \<and> frees_call e = None \<and> takes_agent e = None \<and> frees_agent e = None"

lemma plain_step:
  assumes "sinv n X Y s" and "plain e"
  shows "fin n strict (\<lambda>s'. frame s s' \<and> sinv n X Y s') (shadow_step strict e s)"
  by (intro fin_step sinv_base [OF assms(1)] agrees_step [OF assms(1), where e = e]) (use assms(2) in auto)

lemma dirty_step:
  assumes "base_inv n s" and "divergences s \<noteq> []"
  shows "fin n strict (\<lambda>s'. frame s s' \<and> sinv n X Y s') (shadow_step strict e s)"
  using assms by (intro fin_step) auto

lemma dirty_steps:
  assumes "base_inv n s" and "divergences s \<noteq> []"
  shows "fin n strict (\<lambda>s'. frame s s' \<and> sinv n X Y s') (shadow_steps strict es s)"
  using assms
proof (induction es arbitrary: s)
  case Nil
  then show ?case by (simp add: sinv_def)
next
  case (Cons e es)
  have "fin n strict (\<lambda>s'. frame s s' \<and> sinv n X Y s') (shadow_step strict e s)"
    using Cons.prems by (rule dirty_step)
  then show ?case
    unfolding shadow_steps.simps
  proof (rule fin_bind)
    fix s' assume s': "frame s s' \<and> sinv n X Y s'"
    then have "base_inv n s'" "divergences s' \<noteq> []" using Cons.prems by (simp_all add: sinv_def frame_def)
    then have "fin n strict (\<lambda>t. frame s' t \<and> sinv n X Y t) (shadow_steps strict es s')" by (rule Cons.IH)
    then show "fin n strict (\<lambda>t. frame s t \<and> sinv n X Y t) (shadow_steps strict es s')"
      by (rule fin_mono) (use s' frame_trans in blast)
  qed
qed

lemma plain_steps:
  assumes "sinv n X Y s" and "\<forall>e \<in> set es. plain e"
  shows "fin n strict (\<lambda>s'. frame s s' \<and> sinv n X Y s') (shadow_steps strict es s)"
  using assms
proof (induction es arbitrary: s)
  case (Cons e es)
  have "fin n strict (\<lambda>s'. frame s s' \<and> sinv n X Y s') (shadow_step strict e s)"
    using Cons.prems by (intro plain_step) simp_all
  then show ?case
    unfolding shadow_steps.simps
  proof (rule fin_bind)
    fix s' assume s': "frame s s' \<and> sinv n X Y s'"
    then have "fin n strict (\<lambda>t. frame s' t \<and> sinv n X Y t) (shadow_steps strict es s')"
      using Cons.prems by (intro Cons.IH) simp_all
    then show "fin n strict (\<lambda>t. frame s t \<and> sinv n X Y t) (shadow_steps strict es s')"
      by (rule fin_mono) (use s' frame_trans in blast)
  qed
qed simp

text \<open>A list of events, cut where one of them changes the books.\<close>

lemma steps_append:
  "shadow_steps strict (es @ fs) s = bindE (shadow_steps strict es s) (shadow_steps strict fs)"
proof (induction es arbitrary: s)
  case Nil
  then show ?case by (simp add: bindE_def)
next
  case (Cons e es)
  then show ?case by (cases "shadow_step strict e s") (simp_all add: bindE_def)
qed

lemma steps_one [simp]: "shadow_steps strict [e] s = shadow_step strict e s"
  by (cases "shadow_step strict e s") (simp_all add: bindE_def)

lemma fin_steps_append:
  assumes "fin n strict (\<lambda>s'. frame s s' \<and> sinv n X Y s') (shadow_steps strict es s)"
    and "\<And>s'. frame s s' \<Longrightarrow> sinv n X Y s' \<Longrightarrow>
      fin n strict (\<lambda>t. frame s' t \<and> sinv n X' Y' t) (shadow_steps strict fs s')"
  shows "fin n strict (\<lambda>t. frame s t \<and> sinv n X' Y' t) (shadow_steps strict (es @ fs) s)"
  unfolding steps_append
proof (rule fin_bind [OF assms(1)])
  fix s' assume s': "frame s s' \<and> sinv n X Y s'"
  then have "fin n strict (\<lambda>t. frame s' t \<and> sinv n X' Y' t) (shadow_steps strict fs s')"
    by (intro assms(2)) simp_all
  then show "fin n strict (\<lambda>t. frame s t \<and> sinv n X' Y' t) (shadow_steps strict fs s')"
    by (rule fin_mono) (use s' frame_trans in blast)
qed

lemma request_step:
  assumes "sinv n {c} Y s" and "c \<in> slots_of ce_slot (sh_calls s)"
  shows "fin n strict (\<lambda>s'. frame s s' \<and> sinv n {} Y s') (shadow_step strict (ToolRequest c d) s)"
  by (intro fin_step sinv_base [OF assms(1)] agrees_step [OF assms(1), where e = "ToolRequest c d"])
     (use assms(2) in auto)

lemma settle_step:
  assumes "sinv n {} Y s"
  shows "fin n strict (\<lambda>s'. frame s s' \<and> sinv n {c} Y s') (shadow_step strict (ToolSettle c) s)"
  by (intro fin_step sinv_base [OF assms] agrees_step [OF assms, where e = "ToolSettle c"]) auto

lemma slot_entry_unique:
  assumes "base_inv n s" and "map_of (sh_agents s) name = Some entry"
    and "(name', entry') \<in> set (sh_agents s)" and "ae_slot entry' = ae_slot entry"
  shows "entry' = entry"
proof -
  have "inj_on (ae_slot \<circ> snd) (set (sh_agents s))"
    using assms(1) by (simp add: base_inv_def books_def distinct_map)
  then have "(name', entry') = (name, entry)"
    by (rule inj_onD) (use assms(3,4) map_of_SomeD [OF assms(2)] in simp_all)
  then show ?thesis by simp
qed

lemma take_agent_step:
  assumes s: "sinv n X {a} s" and e: "map_of (sh_agents s) name = Some entry" "ae_slot entry = a"
    and t: "takes_agent e = Some (a, ae_rid entry)" "takes_call e = None" "frees_call e = None"
      "frees_agent e = None"
  shows "fin n strict (\<lambda>s'. frame s s' \<and> sinv n X {} s') (shadow_step strict e s)"
proof (intro fin_step sinv_base [OF s] agrees_step [OF s, where e = e])
  have "a \<in> slots_of ae_slot (sh_agents s)"
    using books_range [of ae_slot "sh_agents s" _ _ name entry] sinv_base [OF s] e
    by (auto simp: base_inv_def)
  then show "(slots_of ae_slot (sh_agents s) - {a} \<union> fst ` set_option (takes_agent e)) - set_option (frees_agent e)
       = slots_of ae_slot (sh_agents s) - {}"
    using t by auto
  show "case takes_agent e of Some (b, r) \<Rightarrow> if b = ae_slot entry' then r = ae_rid entry' else ae_slot entry' \<notin> {a}
        | None \<Rightarrow> ae_slot entry' \<notin> {a}" if "(name', entry') \<in> set (sh_agents s)" for name' entry'
    using t slot_entry_unique [OF sinv_base [OF s] e(1) that] e(2) by auto
qed (use t in auto)

lemma free_agent_step:
  assumes s: "sinv n X {} s"
    and t: "frees_agent e = Some a" "takes_call e = None" "frees_call e = None" "takes_agent e = None"
  shows "fin n strict (\<lambda>s'. frame s s' \<and> sinv n X {a} s') (shadow_step strict e s)"
  by (intro fin_step sinv_base [OF s] agrees_step [OF s, where e = e]) (use t in auto)

text \<open>A task event under a rid that is not the tracked one is refused, or the books were off already.\<close>

lemma stale_step:
  assumes s: "sinv n X {} s" and e: "map_of (sh_agents s) name = Some entry" "r \<noteq> ae_rid entry"
    and t: "ev = AgentComplete (ae_slot entry) r \<or> ev = AgentFold (ae_slot entry) r
      \<or> ev = TaskWaitDeliver (ae_slot entry) r"
  shows "fin n strict (\<lambda>s'. frame s s' \<and> sinv n X {} s') (shadow_step strict ev s)"
proof (rule fin_step [OF sinv_base [OF s]])
  fix ks assume clean: "divergences s = []" and step: "step_state (shadow_config n) (kstate s) ev = Inr ks"
  have scope: "inv_scope (shadow_config n) (kstate s)"
    using s by (simp add: sinv_def base_inv_def kernel_inv_def)
  have "rid_at (kstate s) (ae_slot entry) = ae_rid entry"
    using s clean map_of_SomeD [OF e(1)] by (force simp: sinv_def agrees_def)
  with t step e(2) have False
    using agent_slotD [OF scope, of "ae_slot entry"] by (auto simp: handler_defs rid_at_def)
  then show "agrees X {} (s\<lparr>kern := (kern s)\<lparr>state := ks\<rparr>\<rparr>)" ..
qed

section \<open>Operations on the books\<close>

lemma index_in_range:
  assumes "base_inv n s"
  shows "map_of (sh_calls s) k = Some ce \<Longrightarrow> \<exists>x. \<forall>f. index_call s (ce_slot ce) f = f x"
    and "map_of (sh_agents s) k' = Some ae \<Longrightarrow> \<exists>x. \<forall>f. index_agent s (ae_slot ae) f = f x"
proof -
  have len: "length (calls (kstate s)) = SHADOW_CALL_SLOTS" "length (agents (kstate s)) = SHADOW_AGENT_SLOTS"
    and bk: "books ce_slot (sh_calls s) (free_calls s) SHADOW_CALL_SLOTS"
      "books ae_slot (sh_agents s) (free_agents s) SHADOW_AGENT_SLOTS"
    using assms by (simp_all add: base_inv_def kernel_inv_def inv_scope_def shadow_config_def)
  show "map_of (sh_calls s) k = Some ce \<Longrightarrow> \<exists>x. \<forall>f. index_call s (ce_slot ce) f = f x"
    using books_range [OF bk(1), of k ce] len slot_get_in_range [of "ce_slot ce" "calls (kstate s)"]
    by (auto simp: index_call_def)
  show "map_of (sh_agents s) k' = Some ae \<Longrightarrow> \<exists>x. \<forall>f. index_agent s (ae_slot ae) f = f x"
    using books_range [OF bk(2), of k' ae] len slot_get_in_range [of "ae_slot ae" "agents (kstate s)"]
    by (auto simp: index_agent_def)
qed

text \<open>Changes outside the books and the kernel.\<close>

lemma sinv_outside [simp]:
  "sinv n X Y (s\<lparr>pending_injection := b\<rparr>) = sinv n X Y s"
  "sinv n X Y (s\<lparr>active_prompt_call := q\<rparr>) = sinv n X Y s"
  "sinv n X Y (s\<lparr>unmapped := u\<rparr>) = sinv n X Y s"
  "sinv n X Y (gap s) = sinv n X Y s"
  by (simp_all add: sinv_def base_inv_def agrees_def gap_def)

lemma sinv_diverge: "base_inv n s \<Longrightarrow> sinv n X Y (diverge d s)"
  by (simp add: sinv_def base_inv_def diverge_def)

lemma sinv_base_inv: "sinv n X Y s \<Longrightarrow> base_inv n s"
  by (simp add: sinv_def)

lemma allocate_call_inv:
  assumes s: "sinv n {} Y s" and al: "allocate_call k d digest s = (r, s')"
  shows "case r of
      None \<Rightarrow> sinv n {} Y s'
    | Some c \<Rightarrow> sinv n {c} Y s' \<and> c \<in> slots_of ce_slot (sh_calls s')
                 \<and> (\<exists>entry. map_of (sh_calls s') k = Some entry \<and> ce_slot entry = c)"
proof (cases "map_of (sh_calls s) k = None \<and> free_calls s \<noteq> []")
  case False
  with s al show ?thesis
    by (auto simp: allocate_call_def sinv_diverge sinv_base_inv split: if_splits list.splits)
next
  case True
  then obtain c rest where free: "free_calls s = c # rest" by (cases "free_calls s") auto
  let ?e = "\<lparr>ce_slot = c, ce_danger = d, prompt_outcome = None, ce_digest = digest\<rparr>"
  let ?s = "s\<lparr>free_calls := rest, sh_calls := al_put k ?e (sh_calls s)\<rparr>"
  have r: "r = Some c" "s' = ?s" using al True free by (simp_all add: allocate_call_def)
  have "books ce_slot (sh_calls s) (c # rest) SHADOW_CALL_SLOTS"
    using s free by (simp add: sinv_def base_inv_def)
  note bk = books_alloc [OF this, of k ?e]
  have "sinv n {c} Y ?s" using s bk True by (auto simp: sinv_def base_inv_def agrees_def)
  with r bk True show ?thesis by simp
qed

lemma release_call_inv:
  assumes s: "sinv n {ce_slot entry} Y s" and e: "map_of (sh_calls s) k = Some entry"
  shows "sinv n {} Y (release_call k s)"
proof -
  have "books ce_slot (sh_calls s) (free_calls s) SHADOW_CALL_SLOTS"
    using s by (simp add: sinv_def base_inv_def)
  note bk = books_release [OF this e]
  show ?thesis using s bk e by (auto simp: release_call_def sinv_def base_inv_def agrees_def)
qed

lemma update_call_inv:
  assumes s: "sinv n X Y s" and e: "map_of (sh_calls s) k = Some entry" and c: "ce_slot entry' = ce_slot entry"
  shows "sinv n X Y (s\<lparr>sh_calls := al_put k entry' (sh_calls s)\<rparr>)"
proof -
  have "books ce_slot (sh_calls s) (free_calls s) SHADOW_CALL_SLOTS"
    using s by (simp add: sinv_def base_inv_def)
  note bk = books_update [OF this e c]
  show ?thesis using s bk by (auto simp: sinv_def base_inv_def agrees_def)
qed

lemma release_agent_inv:
  assumes s: "sinv n X {ae_slot entry} s" and e: "map_of (sh_agents s) k = Some entry"
  shows "sinv n X {} (release_agent k s)"
proof -
  have b: "books ae_slot (sh_agents s) (free_agents s) SHADOW_AGENT_SLOTS"
    using s by (simp add: sinv_def base_inv_def)
  note bk = books_release [OF b e]
  have away: "ae_slot v \<noteq> ae_slot entry" if "(k', v) \<in> set (al_del k (sh_agents s))" for k' v
  proof -
    have "ae_slot v \<in> slots_of ae_slot (al_del k (sh_agents s))" using that by (force simp: slots_of_def)
    then show ?thesis using bk(2) by auto
  qed
  have sub: "set (al_del k (sh_agents s)) \<subseteq> set (sh_agents s)" by (auto simp: set_al_del)
  have "base_inv n (release_agent k s)"
    using s bk e sub by (auto simp: release_agent_def sinv_def base_inv_def)
  moreover have "agrees X {} (release_agent k s)" if "agrees X {ae_slot entry} s"
  proof -
    have "rid_at (kstate s) (ae_slot v) = ae_rid v" if "(k', v) \<in> set (al_del k (sh_agents s))" for k' v
      using \<open>agrees X {ae_slot entry} s\<close> sub away [OF that] that unfolding agrees_def by (metis snd_conv singletonD subsetD)
    with \<open>agrees X {ae_slot entry} s\<close> show ?thesis
      using bk(2) e by (auto simp: release_agent_def agrees_def)
  qed
  moreover have "divergences (release_agent k s) = divergences s"
    using e by (simp add: release_agent_def)
  ultimately show ?thesis using s by (simp add: sinv_def)
qed

lemma other_rid_props: "r \<in> {1, 2} \<Longrightarrow> other_rid r \<in> {1, 2} \<and> other_rid r \<noteq> r"
  by (auto simp: other_rid_def SHADOW_TASK_IDS_def)

lemma entry_rid:
  assumes "base_inv n s" and "map_of (sh_agents s) k = Some entry"
  shows "ae_rid entry \<in> {1, 2}"
  using assms(1) map_of_SomeD [OF assms(2)] by (force simp: base_inv_def)

lemma allocate_agent_inv:
  assumes s: "sinv n X {} s"
    and k: "\<And>s' c r entry. sinv n X {c} s' \<Longrightarrow> map_of (sh_agents s') name = Some entry \<Longrightarrow> ae_slot entry = c \<Longrightarrow>
      ae_rid entry = r \<Longrightarrow> fin n strict (\<lambda>t. sinv n X {} t) (f (c, r) s')"
  shows "fin n strict (\<lambda>t. sinv n X {} t) (allocate_agent name tid s f)"
proof (cases "map_of (sh_agents s) name = None \<and> free_agents s \<noteq> []")
  case False
  with s show ?thesis
    by (auto simp: allocate_agent_def sinv_diverge sinv_base_inv split: list.splits)
next
  case True
  then obtain c rest where free: "free_agents s = c # rest" by (cases "free_agents s") auto
  have inv: "kernel_inv (shadow_config n) (kstate s)"
    and b: "books ae_slot (sh_agents s) (c # rest) SHADOW_AGENT_SLOTS"
    using s free by (simp_all add: sinv_def base_inv_def)
  have len: "length (agents (kstate s)) = SHADOW_AGENT_SLOTS"
    and rids: "\<forall>x \<in> set (agents (kstate s)). 1 \<le> rid x \<and> rid x \<le> SHADOW_TASK_IDS"
    using inv by (simp_all add: kernel_inv_def inv_scope_def shadow_config_def)
  have "1 \<le> c" "c \<le> length (agents (kstate s))" using b len by (auto simp: books_def)
  then obtain x where x: "slot_get (agents (kstate s)) c = Some x" by (simp add: slot_get_in_range)
  let ?r = "other_rid (rid x)"
  let ?e = "\<lparr>ae_slot = c, ae_rid = ?r, identity = tid\<rparr>"
  let ?s = "s\<lparr>free_agents := rest, sh_agents := al_put name ?e (sh_agents s)\<rparr>"
  have "rid x \<in> {1, 2}" using rids slot_get_in_set [OF x] by (force simp: SHADOW_TASK_IDS_def)
  then have r: "?r \<in> {1, 2}" using other_rid_props by blast
  have eq: "allocate_agent name tid s f = f (c, ?r) ?s"
    using True free x by (simp add: allocate_agent_def index_agent_def Let_def)
  note bk = books_alloc [OF b, of name ?e]
  have put: "al_put name ?e (sh_agents s) = (name, ?e) # sh_agents s"
    using True by (simp add: al_put_def al_del_absent)
  have "sinv n X {c} ?s"
    using s bk True r by (auto simp: sinv_def base_inv_def agrees_def put)
  then show ?thesis unfolding eq by (rule k [where entry = ?e]) simp_all
qed

section \<open>Every observation keeps the invariant\<close>

abbreviation keeps :: "nat \<Rightarrow> bool \<Rightarrow> effect \<Rightarrow> bool" where
  "keeps n strict x \<equiv> fin n strict (sinv n {} {}) x"

lemma plain_steps_keep: "sinv n {} {} s \<Longrightarrow> \<forall>e \<in> set es. plain e \<Longrightarrow> keeps n strict (shadow_steps strict es s)"
  by (rule fin_mono [OF plain_steps]) auto

lemma plain_step_keeps: "sinv n {} {} s \<Longrightarrow> plain e \<Longrightarrow> keeps n strict (shadow_step strict e s)"
  by (rule fin_mono [OF plain_step]) auto

text \<open>Closing a call: events that leave it mapped, the settlement, and the release of the slot.\<close>

lemma close_call:
  assumes s: "sinv n {} {} s" and e: "map_of (sh_calls s) k = Some entry" and es: "\<forall>e \<in> set es. plain e"
    and f: "\<And>s'. sinv n {} {} s' \<Longrightarrow> (divergences s \<noteq> [] \<longrightarrow> divergences s' \<noteq> []) \<Longrightarrow> fin n strict Q (f s')"
  shows "fin n strict Q (bindE (shadow_steps strict (es @ [ToolSettle (ce_slot entry)]) s)
           (\<lambda>s. f (release_call k s)))"
proof (rule fin_bind)
  show "fin n strict (\<lambda>t. frame s t \<and> sinv n {ce_slot entry} {} t)
      (shadow_steps strict (es @ [ToolSettle (ce_slot entry)]) s)"
    using plain_steps [OF s es] by (rule fin_steps_append) (simp only: steps_one, rule settle_step)
  fix t assume t: "frame s t \<and> sinv n {ce_slot entry} {} t"
  then have "map_of (sh_calls t) k = Some entry" using e by (simp add: frame_def)
  with t have "sinv n {} {} (release_call k t)" by (intro release_call_inv) simp_all
  moreover have "divergences (release_call k t) = divergences t" by (simp add: release_call_def split: option.splits)
  ultimately show "fin n strict Q (f (release_call k t))" using t by (intro f) (simp_all add: frame_def)
qed

lemma sweep_keeps: "base_inv n s \<Longrightarrow> sinv n {} {} s \<Longrightarrow> keeps n strict (sweep_calls strict ids s)"
proof (induction ids arbitrary: s)
  case (Cons k ids)
  let ?s = "diverge (ResidualCall k) s"
  have s: "sinv n {} {} ?s" using Cons.prems by (simp add: sinv_diverge)
  show ?case
  proof (cases "map_of (sh_calls ?s) k")
    case None
    then show ?thesis using Cons.IH [OF sinv_base_inv [OF s] s] by (simp add: Let_def)
  next
    case (Some entry)
    obtain x where x: "\<And>f. index_call ?s (ce_slot entry) f = f x"
      using index_in_range(1) [OF sinv_base_inv [OF s] Some] by blast
    let ?es = "if call_phase x = Executing then [ToolExecEnd (ce_slot entry)] else []"
    have "keeps n strict (bindE (shadow_steps strict (?es @ [ToolSettle (ce_slot entry)]) ?s)
        (\<lambda>s. sweep_calls strict ids (release_call k s)))"
      by (rule close_call [OF s Some]) (auto intro: Cons.IH sinv_base_inv)
    with Some x show ?thesis by (simp only: sweep_calls.simps Let_def option.case)
  qed
qed simp

lemma observe_completed_keeps: "sinv n {} {} s \<Longrightarrow> keeps n strict (observe_completed strict completed s)"
proof (induction completed arbitrary: s)
  case (Cons p completed)
  obtain name tid where p: "p = (name, tid)" by (cases p)
  show ?case
  proof (cases "map_of (sh_agents s) name")
    case None
    then show ?thesis using Cons p by simp
  next
    case (Some entry)
    obtain x where x: "\<And>f. index_agent s (ae_slot entry) f = f x"
      using index_in_range(2) [OF sinv_base_inv [OF Cons.prems] Some] by blast
    show ?thesis
      using Cons Some p x
      by (auto simp: split: identity_match.splits intro!: fin_bind [OF plain_step_keeps])
  qed
qed simp

lemma round_boundary_keeps: "sinv n {} {} s \<Longrightarrow> keeps n strict (round_boundary strict s)"
  by (auto simp: round_boundary_def intro: plain_step_keeps)

lemma abort_keeps:
  "sinv n {} {} s \<Longrightarrow> keeps n strict (if b then shadow_step strict TurnCancel s else Inr s)"
  by (simp add: plain_step_keeps)

lemma finish_events_plain:
  "\<exists>es. finish_events entry rejected hook success = es @ [ToolSettle (ce_slot entry)] \<and> (\<forall>e \<in> set es. plain e)"
  by (auto simp: finish_events_def Let_def)

lemma tool_finished_keeps:
  assumes s: "sinv n {} {} s"
  shows "keeps n strict (tool_finished strict k rejected hook success digest s)"
proof (cases "k \<in> set (unmapped s) \<or> map_of (sh_calls s) k = None")
  case True
  with s show ?thesis by (auto simp: tool_finished_def sinv_diverge sinv_base_inv)
next
  case False
  then obtain entry where e: "map_of (sh_calls s) k = Some entry" by blast
  obtain es where es: "finish_events entry rejected hook success = es @ [ToolSettle (ce_slot entry)]"
    "\<forall>e \<in> set es. plain e" using finish_events_plain by blast
  let ?check = "if ce_digest entry \<noteq> digest
      then (let s' = diverge (DigestMismatch k) s in if strict then Inl s' else Inr s') else Inr s"
  have "fin n strict (\<lambda>s'. sinv n {} {} s' \<and> sh_calls s' = sh_calls s) ?check"
    using s sinv_diverge [OF sinv_base_inv [OF s]] by (simp add: fin_def Let_def diverge_def)
  then have "keeps n strict (bindE ?check (\<lambda>s.
      bindE (shadow_steps strict (finish_events entry rejected hook success) (s\<lparr>active_prompt_call := None\<rparr>))
        (\<lambda>s. Inr (release_call k s))))"
  proof (rule fin_bind)
    fix t assume t: "sinv n {} {} t \<and> sh_calls t = sh_calls s"
    show "keeps n strict (bindE (shadow_steps strict (finish_events entry rejected hook success)
        (t\<lparr>active_prompt_call := None\<rparr>)) (\<lambda>s. Inr (release_call k s)))"
      unfolding es(1) by (rule close_call [OF _ _ es(2)]) (use t e in simp_all)
  qed
  with False e show ?thesis by (simp add: tool_finished_def)
qed

lemma rejected_precheck_keeps:
  assumes s: "sinv n {} {} s"
  shows "keeps n strict (rejected_precheck strict k s)"
proof -
  obtain r s' where al: "allocate_call k False 0 s = (r, s')" by fastforce
  note inv = allocate_call_inv [OF s al]
  show ?thesis
  proof (cases r)
    case None
    with inv al show ?thesis by (simp add: rejected_precheck_def)
  next
    case (Some c)
    then obtain entry where e: "map_of (sh_calls s') k = Some entry" "ce_slot entry = c" using inv by auto
    have s': "sinv n {c} {} s'" "c \<in> slots_of ce_slot (sh_calls s')" using inv Some by simp_all
    have "fin n strict (\<lambda>t. frame s' t \<and> sinv n {} {} t) (shadow_step strict (ToolRequest c False) s')"
      by (rule request_step [OF s'])
    then have "keeps n strict (bindE (shadow_step strict (ToolRequest c False) s') (\<lambda>t.
        bindE (shadow_steps strict ([ToolDeny c] @ [ToolSettle (ce_slot entry)]) t) (\<lambda>u. Inr (release_call k u))))"
      by (rule fin_bind) (rule close_call, use e in \<open>simp_all add: frame_def\<close>)
    moreover have "bindE (bindE x f) g = bindE x (\<lambda>t. bindE (f t) g)" for x f g
      by (cases x) (simp_all add: bindE_def)
    ultimately show ?thesis using al Some e by (simp add: rejected_precheck_def)
  qed
qed

lemma tool_request_keeps:
  assumes s: "sinv n {} {} s"
  shows "keeps n strict (tool_request strict k d digest s)"
proof -
  obtain r s' where al: "allocate_call k d digest s = (r, s')" by fastforce
  note inv = allocate_call_inv [OF s al]
  show ?thesis
  proof (cases r)
    case (Some c)
    with inv have "fin n strict (\<lambda>t. frame s' t \<and> sinv n {} {} t) (shadow_step strict (ToolRequest c d) s')"
      by (intro request_step) simp_all
    then show ?thesis using al Some by (auto simp: tool_request_def intro: fin_mono)
  qed (use inv al in \<open>simp add: tool_request_def\<close>)
qed

text \<open>Consuming a task: events that leave it mapped, one that frees the slot, and the release.\<close>

lemma consume_agent:
  assumes s: "sinv n {} {} s" and e: "map_of (sh_agents s) name = Some entry" and es: "\<forall>e \<in> set es. plain e"
    and ev: "ev = AgentFold (ae_slot entry) r \<or> ev = TaskWaitDeliver (ae_slot entry) r"
  shows "keeps n strict (bindE (shadow_steps strict (es @ [ev]) s) (\<lambda>s. Inr (release_agent name s)))"
proof (rule fin_bind)
  show "fin n strict (\<lambda>t. frame s t \<and> sinv n {} {ae_slot entry} t) (shadow_steps strict (es @ [ev]) s)"
    using plain_steps [OF s es]
    by (rule fin_steps_append) (simp only: steps_one, rule free_agent_step, use ev in auto)
  fix t assume t: "frame s t \<and> sinv n {} {ae_slot entry} t"
  then show "keeps n strict (Inr (release_agent name t))"
    using release_agent_inv [of n "{}" entry t name] e by (simp add: frame_def)
qed

lemma stale_steps_keep:
  assumes s: "sinv n {} {} s" and e: "map_of (sh_agents s) name = Some entry"
    and ev: "ev = AgentFold (ae_slot entry) (other_rid (ae_rid entry))
      \<or> ev = TaskWaitDeliver (ae_slot entry) (other_rid (ae_rid entry))"
  shows "keeps n strict (shadow_steps strict [AgentComplete (ae_slot entry) (other_rid (ae_rid entry)), ev] s)"
proof -
  have r: "other_rid (ae_rid entry) \<noteq> ae_rid entry"
    using other_rid_props [OF entry_rid [OF sinv_base_inv [OF s] e]] by simp
  have "keeps n strict (bindE (shadow_step strict (AgentComplete (ae_slot entry) (other_rid (ae_rid entry))) s)
      (shadow_step strict ev))"
  proof (rule fin_bind [OF stale_step [OF s e r]])
    fix t assume t: "frame s t \<and> sinv n {} {} t"
    then have "map_of (sh_agents t) name = Some entry" using e by (simp add: frame_def)
    with t r ev have "fin n strict (\<lambda>u. frame t u \<and> sinv n {} {} u) (shadow_step strict ev t)"
      by (intro stale_step) auto
    then show "keeps n strict (shadow_step strict ev t)" by (rule fin_mono) simp
  qed simp
  moreover have "shadow_steps strict [ev] = shadow_step strict ev" by (rule ext) (rule steps_one)
  ultimately show ?thesis by (simp only: shadow_steps.simps(2))
qed


lemma wait_keeps:
  assumes s: "sinv n {} {} s"
  shows "keeps n strict (task_wait_started strict name tid s)"
    and "keeps n strict (task_wait_timed_out strict name tid s)"
  using s by (auto simp: task_wait_started_def task_wait_timed_out_def Let_def plain_step_keeps split: option.splits)

lemma wait_claimed_keeps:
  assumes s: "sinv n {} {} s"
  shows "keeps n strict (task_wait_claimed strict name tid s)"
proof (cases "map_of (sh_agents s) name")
  case None
  with s show ?thesis by (simp add: task_wait_claimed_def)
next
  case (Some entry)
  let ?a = "ae_slot entry" and ?r = "ae_rid entry"
  have "keeps n strict (bindE (shadow_steps strict ([AgentComplete ?a ?r] @ [TaskWaitDeliver ?a ?r]) s)
      (\<lambda>s. Inr (release_agent name s)))"
    by (rule consume_agent [OF s Some]) simp_all
  moreover have "keeps n strict (shadow_steps strict
      [AgentComplete ?a (other_rid ?r), TaskWaitDeliver ?a (other_rid ?r)] s)"
    by (rule stale_steps_keep [OF s Some]) simp
  ultimately show ?thesis
    using s Some
    by (cases "classify entry tid")
       (simp_all add: task_wait_claimed_def Let_def del: shadow_steps.simps)
qed

lemma agent_folded_keeps:
  assumes s: "sinv n {} {} s"
  shows "keeps n strict (agent_folded strict name tid s)"
proof (cases "map_of (sh_agents s) name")
  case None
  with s show ?thesis by (simp add: agent_folded_def)
next
  case (Some entry)
  let ?a = "ae_slot entry" and ?r = "ae_rid entry"
  obtain x where x: "\<And>f. index_agent s ?a f = f x"
    using index_in_range(2) [OF sinv_base_inv [OF s] Some] by blast
  have "keeps n strict (bindE (shadow_steps strict
      ((if agent_phase x \<noteq> AgentDone then [AgentComplete ?a ?r] else []) @ [AgentFold ?a ?r]) s)
      (\<lambda>s. Inr (release_agent name s)))"
    by (rule consume_agent [OF s Some]) simp_all
  moreover have "keeps n strict (shadow_steps strict
      [AgentComplete ?a (other_rid ?r), AgentFold ?a (other_rid ?r)] s)"
    by (rule stale_steps_keep [OF s Some]) simp
  ultimately show ?thesis
    using s Some x
    by (cases "classify entry tid") (simp_all add: agent_folded_def Let_def del: shadow_steps.simps)
qed

lemma spawn_keeps:
  assumes s: "sinv n {} {} s"
  shows "keeps n strict (agent_spawned strict name tid s)"
    and "keeps n strict (tool_backgrounded strict k name tid s)"
proof -
  have spawn: "keeps n strict (allocate_agent name tid s (\<lambda>(a, r). shadow_step strict (ev a r)))"
    if ev: "\<And>a r. takes_agent (ev a r) = Some (a, r) \<and> takes_call (ev a r) = None
      \<and> frees_call (ev a r) = None \<and> frees_agent (ev a r) = None" for ev
  proof (rule allocate_agent_inv [OF s])
    fix s' c r entry
    assume "sinv n {} {c} s'" "map_of (sh_agents s') name = Some entry" "ae_slot entry = c" "ae_rid entry = r"
    then show "keeps n strict ((case (c, r) of (a, r) \<Rightarrow> shadow_step strict (ev a r)) s')"
      using ev by (auto intro!: fin_mono [OF take_agent_step])
  qed
  show "keeps n strict (agent_spawned strict name tid s)"
    unfolding agent_spawned_def by (rule spawn) simp
  show "keeps n strict (tool_backgrounded strict k name tid s)"
    using s spawn [of "ToolBackground c" for c]
    by (auto simp: tool_backgrounded_def sinv_diverge sinv_base_inv split: option.splits)
qed

lemma call_bookkeeping_keeps:
  assumes s: "sinv n {} {} s"
  shows "keeps n strict (tool_dispatched strict k s)" and "keeps n strict (record_prompt_outcome granted s)"
proof -
  show "keeps n strict (tool_dispatched strict k s)"
    using s by (auto simp: tool_dispatched_def update_call_inv simp del: shadow_steps.simps
        intro!: plain_steps_keep split: option.splits)
  show "keeps n strict (record_prompt_outcome granted s)"
    using s by (auto simp: record_prompt_outcome_def update_call_inv split: option.splits)
qed

lemma turn_keeps:
  assumes s: "sinv n {} {} s"
  shows "keeps n strict (begin_turn_with_completed strict completed s)"
    and "keeps n strict (turn_aborting strict ids s)"
    and "keeps n strict (round_started strict s)"
    and "keeps n strict (turn_finished strict aborted ids s)"
proof -
  show "keeps n strict (begin_turn_with_completed strict completed s)"
    unfolding begin_turn_with_completed_def
    by (rule fin_bind [OF observe_completed_keeps [OF s]]) (simp add: plain_step_keeps)
  show "keeps n strict (turn_aborting strict ids s)"
    unfolding turn_aborting_def
    by (rule fin_bind [OF abort_keeps [OF s]], rule fin_bind [OF sweep_keeps])
       (auto intro: sinv_base_inv round_boundary_keeps)
  show "keeps n strict (round_started strict s)"
    unfolding round_started_def
    using s by (intro fin_bind [where P = "sinv n {} {}"])
      (auto simp del: shadow_steps.simps intro!: plain_steps_keep plain_step_keeps)
  show "keeps n strict (turn_finished strict aborted ids s)"
    unfolding turn_finished_def
    by (rule fin_bind [OF abort_keeps [OF s]], rule fin_bind [OF sweep_keeps])
       (auto intro: sinv_base_inv plain_step_keeps intro!: fin_bind [OF round_boundary_keeps])
qed

lemma shadow_apply_keeps: "sinv n {} {} s \<Longrightarrow> keeps n strict (shadow_apply strict op s)"
  by (cases op)
     (auto simp: round_boundary_keeps host_injection_def rejected_precheck_keeps tool_request_keeps
        tool_finished_keeps wait_keeps wait_claimed_keeps agent_folded_keeps spawn_keeps
        call_bookkeeping_keeps turn_keeps steer_joined_def simp del: shadow_steps.simps
      intro!: plain_steps_keep)


section \<open>The observation surface as a machine\<close>

definition kernel_shadow_inv :: "bool \<Rightarrow> nat \<Rightarrow> kernel_shadow \<Rightarrow> bool" where
  "kernel_shadow_inv strict n sh \<longleftrightarrow>
     strict_mode sh = strict \<and> (poisoned sh \<longrightarrow> strict) \<and> sinv n {} {} (inner sh)"

lemma books_new: "books slot [] [Suc 0..<Suc m] m"
  by (auto simp: books_def)

lemma kernel_shadow_inv_new: "kernel_shadow_inv strict n (kernel_shadow_new strict n)"
proof -
  have "config_ok (shadow_config n)"
    by (simp add: config_ok_def shadow_config_def shadow_limits isize_max_def)
  then have "kernel_inv (shadow_config n) (kernel_state_new (shadow_config n))" by (rule kernel_inv_init)
  moreover have "used_calls (kernel_state_new (shadow_config n)) = {}"
    and "live_agents (kernel_state_new (shadow_config n)) = {}"
    by (auto simp: used_calls_def live_agents_def kernel_state_new_def)
  ultimately show ?thesis
    by (simp add: books_new kernel_shadow_inv_def kernel_shadow_new_def shadow_new_def sinv_def base_inv_def
        agrees_def slots_of_def kernel_new_def del: upt_Suc)
qed

lemma kernel_shadow_inv_observe: "kernel_shadow_inv strict n sh \<Longrightarrow> kernel_shadow_inv strict n (observe sh op)"
  using shadow_apply_keeps [of n "inner sh" strict op]
  by (auto simp: kernel_shadow_inv_def observe_def with_inner_def fin_def split: sum.splits)

interpretation shadow: total_machine
  "\<lambda>sh. sh = kernel_shadow_new strict n" observe "kernel_shadow_inv strict n" for strict n
  by unfold_locales (simp_all add: kernel_shadow_inv_new kernel_shadow_inv_observe)

definition observe_all :: "bool \<Rightarrow> nat \<Rightarrow> shadow_op list \<Rightarrow> kernel_shadow" where
  "observe_all strict n ops = foldl observe (kernel_shadow_new strict n) ops"

lemma observe_all_inv: "kernel_shadow_inv strict n (observe_all strict n ops)"
  unfolding observe_all_def by (rule shadow.foldl_inv) simp

text \<open>
  Under every sequence of observations the embedded kernel keeps its invariant, every
  slot number is either mapped to one call (one task) or free, so no index leaves its array, and a
  panic can only come from strict mode.
\<close>

theorem shadow_books_consistent:
  "let sh = observe_all strict n ops; s = inner sh in
     kernel_inv (shadow_config n) (state (kern s))
     \<and> books ce_slot (sh_calls s) (free_calls s) 4 \<and> books ae_slot (sh_agents s) (free_agents s) 32
     \<and> (poisoned sh \<longrightarrow> strict)"
  using observe_all_inv [of strict n ops]
  unfolding kernel_shadow_inv_def sinv_def base_inv_def Let_def shadow_limits by blast

theorem shadow_books_consistent_witness:
  "\<not> poisoned (observe_all False 1 [RoundStarted, SteerJoined])"
  using shadow_books_consistent [where strict = False and n = 1 and ops = "[RoundStarted, SteerJoined]"]
  by (simp add: Let_def)

text \<open>
  As long as the shadow has recorded no divergence, its books agree with the kernel: the
  kernel's occupied call slots are exactly the mapped ones, its live task slots are exactly the
  mapped ones, and each carries the rid the shadow remembers.
\<close>

theorem shadow_agrees_until_divergence:
  assumes "s = inner (observe_all strict n ops)" and "divergences s = []"
  shows "used_calls (state (kern s)) = slots_of ce_slot (sh_calls s)
         \<and> live_agents (state (kern s)) = slots_of ae_slot (sh_agents s)
         \<and> (\<forall>p \<in> set (sh_agents s). rid_at (state (kern s)) (ae_slot (snd p)) = ae_rid (snd p))"
  using observe_all_inv [of strict n ops] assms
  by (simp add: kernel_shadow_inv_def sinv_def agrees_def)

definition tid :: "nat \<Rightarrow> task_identity" where
  "tid g = \<lparr>generation = g, params_digest = 99\<rparr>"

definition handed_off :: "shadow_op list" where
  "handed_off =
     [BeginTurn [], RoundStarted, ToolRequested [1] False 7, ToolDispatched [1],
      ToolBackgrounded [1] [2] (tid 1)]"

theorem shadow_agrees_until_divergence_witness:
  "divergences (inner (observe_all False 8 handed_off)) = []
   \<and> used_calls (state (kern (inner (observe_all False 8 handed_off))))
       = slots_of ce_slot (sh_calls (inner (observe_all False 8 handed_off)))"
proof -
  have clean: "divergences (inner (observe_all False 8 handed_off)) = []" by code_simp
  with shadow_agrees_until_divergence [OF refl clean] show ?thesis by simp
qed


end
