(* ===== verification/Coordinator.thy ===== *)
theory Coordinator
  imports Json "HOL-Library.Product_Lexorder" "HOL-Library.Option_ord"
begin

text \<open>
  \<^verbatim>\<open>src-tauri/src/operation_coordinator.rs\<close>: try-only leases on workspaces. A \<open>PathBuf\<close> is
  compared by its components, so a workspace key is the list of them; only the empty path has
  none. The mutex is held for the whole of each operation, so an operation is one step on the
  coordinator's state. A lease is its descriptor; dropping it is \<open>drop_lease\<close>, which is \<open>None\<close>
  where a \<open>debug_assert\<close> or an \<open>expect\<close> of the code would fail.
\<close>

section \<open>Workspace keys\<close>

text \<open>\<open>std::path::Component\<close>, ordered as its variants are declared.\<close>

datatype component = Prefix ustring | RootDir | CurDir | ParentDir | Normal ustring

fun component_rank :: "component \<Rightarrow> nat \<times> ustring" where
  "component_rank (Prefix p) = (0, p)"
| "component_rank RootDir = (1, [])"
| "component_rank CurDir = (2, [])"
| "component_rank ParentDir = (3, [])"
| "component_rank (Normal s) = (4, s)"

lemma component_rank_inj: "component_rank x = component_rank y \<Longrightarrow> x = y"
  by (cases x; cases y) simp_all

instantiation component :: linorder
begin

definition less_eq_component :: "component \<Rightarrow> component \<Rightarrow> bool" where
  "less_eq_component x y \<longleftrightarrow> component_rank x \<le> component_rank y"

definition less_component :: "component \<Rightarrow> component \<Rightarrow> bool" where
  "less_component x y \<longleftrightarrow> component_rank x < component_rank y"

instance
  by standard
     (auto simp: less_eq_component_def less_component_def intro: component_rank_inj order_trans)

end

type_synonym workspace_key = "component list"

section \<open>Data\<close>

datatype operation_mode = GlobalShared | WorkspaceShared | WorkspaceExclusive | GlobalExclusive

record lease_attribution =
  conversation_id :: "ustring option"

record attributed_lease_count =
  attribution :: lease_attribution
  lease_count :: nat

record workspace_holders =
  held_shared :: "attributed_lease_count list"
  held_exclusive :: "lease_attribution option"

record workspace_activity =
  act_workspace :: workspace_key
  act_holders :: workspace_holders

datatype coordination_error =
    EmptyWorkspaceKey
  | EmptyWorkspaceSet
  | GlobalExclusiveActive operation_mode lease_attribution
  | GlobalSharedActive operation_mode "attributed_lease_count list"
  | WorkspaceBusy operation_mode workspace_key workspace_holders
  | WorkspaceOperationsActive operation_mode "workspace_activity list"

type_synonym holder_counts = "(ustring option \<times> nat) list"

record workspace_slot =
  shared :: holder_counts
  exclusive :: "lease_attribution option"

definition slot_default :: workspace_slot where
  "slot_default = \<lparr>shared = [], exclusive = None\<rparr>"

definition slot_idle :: "workspace_slot \<Rightarrow> bool" where
  "slot_idle slot \<longleftrightarrow> shared slot = [] \<and> exclusive slot = None"

definition count_holders :: "holder_counts \<Rightarrow> attributed_lease_count list" where
  "count_holders m = map (\<lambda>(c, n). \<lparr>attribution = \<lparr>conversation_id = c\<rparr>, lease_count = n\<rparr>) m"

definition slot_holders :: "workspace_slot \<Rightarrow> workspace_holders" where
  "slot_holders slot = \<lparr>held_shared = count_holders (shared slot), held_exclusive = exclusive slot\<rparr>"

definition holders_lease_count :: "workspace_holders \<Rightarrow> nat" where
  "holders_lease_count h =
     sum_list (map lease_count (held_shared h)) + (if held_exclusive h \<noteq> None then 1 else 0)"

record coordinator =
  global_shared :: holder_counts
  global_exclusive :: "lease_attribution option"
  workspaces :: "(workspace_key \<times> workspace_slot) list"

definition coordinator_new :: coordinator where
  "coordinator_new = \<lparr>global_shared = [], global_exclusive = None, workspaces = []\<rparr>"

definition activity :: "workspace_key \<times> workspace_slot \<Rightarrow> workspace_activity" where
  "activity p = \<lparr>act_workspace = fst p, act_holders = slot_holders (snd p)\<rparr>"

definition workspace_activities :: "coordinator \<Rightarrow> workspace_activity list" where
  "workspace_activities st = map activity (filter (\<lambda>(_, slot). \<not> slot_idle slot) (workspaces st))"

record lease =
  mode :: operation_mode
  leased :: "workspace_key list"
  holder :: lease_attribution

section \<open>Counting maps\<close>

text \<open>\<open>*entry(c).or_insert(0) += 1\<close>, and the decrement of \<open>Drop\<close>.\<close>

definition bump :: "ustring option \<Rightarrow> holder_counts \<Rightarrow> holder_counts" where
  "bump c m = bt_put c ((case map_of m c of None \<Rightarrow> 0 | Some n \<Rightarrow> n) + 1) m"

definition unbump :: "ustring option \<Rightarrow> holder_counts \<Rightarrow> holder_counts option" where
  "unbump c m =
     (case map_of m c of
        None \<Rightarrow> None
      | Some n \<Rightarrow>
          if n = 0 then None
          else Some (if n - 1 = 0 then al_del c m else bt_put c (n - 1) m))"

definition slot_at :: "coordinator \<Rightarrow> workspace_key \<Rightarrow> workspace_slot" where
  "slot_at st w = (case map_of (workspaces st) w of None \<Rightarrow> slot_default | Some slot \<Rightarrow> slot)"

section \<open>Acquisition\<close>

type_synonym acquisition = "coordination_error + lease \<times> coordinator"

definition try_global_shared :: "ustring option \<Rightarrow> coordinator \<Rightarrow> acquisition" where
  "try_global_shared conv st =
     (case global_exclusive st of
        Some h \<Rightarrow> Inl (GlobalExclusiveActive GlobalShared h)
      | None \<Rightarrow>
          (let exclusive_workspaces =
             map activity (filter (\<lambda>(_, slot). exclusive slot \<noteq> None) (workspaces st))
           in if exclusive_workspaces \<noteq> []
              then Inl (WorkspaceOperationsActive GlobalShared exclusive_workspaces)
              else Inr (\<lparr>mode = GlobalShared, leased = [], holder = \<lparr>conversation_id = conv\<rparr>\<rparr>,
                        st\<lparr>global_shared := bump conv (global_shared st)\<rparr>)))"

definition try_workspace_shared ::
    "workspace_key \<Rightarrow> ustring option \<Rightarrow> coordinator \<Rightarrow> acquisition" where
  "try_workspace_shared w conv st =
     (if w = [] then Inl EmptyWorkspaceKey
      else case global_exclusive st of
             Some h \<Rightarrow> Inl (GlobalExclusiveActive WorkspaceShared h)
           | None \<Rightarrow>
               (let slot = slot_at st w in
                if exclusive slot \<noteq> None then Inl (WorkspaceBusy WorkspaceShared w (slot_holders slot))
                else Inr (\<lparr>mode = WorkspaceShared, leased = [w], holder = \<lparr>conversation_id = conv\<rparr>\<rparr>,
                          st\<lparr>workspaces :=
                               bt_put w (slot\<lparr>shared := bump conv (shared slot)\<rparr>) (workspaces st)\<rparr>)))"

text \<open>The first slot of the sorted keys that is not idle.\<close>

fun first_busy :: "coordinator \<Rightarrow> workspace_key list \<Rightarrow> (workspace_key \<times> workspace_slot) option" where
  "first_busy st [] = None"
| "first_busy st (w # ws) =
     (case map_of (workspaces st) w of
        Some slot \<Rightarrow> if slot_idle slot then first_busy st ws else Some (w, slot)
      | None \<Rightarrow> first_busy st ws)"

definition take_exclusive :: "lease_attribution \<Rightarrow> workspace_key \<Rightarrow> coordinator \<Rightarrow> coordinator" where
  "take_exclusive a w st =
     st\<lparr>workspaces := bt_put w ((slot_at st w)\<lparr>exclusive := Some a\<rparr>) (workspaces st)\<rparr>"

text \<open>Collecting into a \<open>BTreeSet\<close> and back sorts the keys and drops duplicates.\<close>

definition try_workspaces_exclusive ::
    "workspace_key list \<Rightarrow> ustring option \<Rightarrow> coordinator \<Rightarrow> acquisition" where
  "try_workspaces_exclusive keys conv st =
     (let ws = sort (remdups keys); a = \<lparr>conversation_id = conv\<rparr> in
      if ws = [] then Inl EmptyWorkspaceSet
      else if \<exists>w \<in> set ws. w = [] then Inl EmptyWorkspaceKey
      else case global_exclusive st of
             Some h \<Rightarrow> Inl (GlobalExclusiveActive WorkspaceExclusive h)
           | None \<Rightarrow>
               if global_shared st \<noteq> []
               then Inl (GlobalSharedActive WorkspaceExclusive (count_holders (global_shared st)))
               else case first_busy st ws of
                      Some (w, slot) \<Rightarrow> Inl (WorkspaceBusy WorkspaceExclusive w (slot_holders slot))
                    | None \<Rightarrow> Inr (\<lparr>mode = WorkspaceExclusive, leased = ws, holder = a\<rparr>,
                                  fold (take_exclusive a) ws st))"

definition try_workspace_exclusive ::
    "workspace_key \<Rightarrow> ustring option \<Rightarrow> coordinator \<Rightarrow> acquisition" where
  "try_workspace_exclusive w conv st = try_workspaces_exclusive [w] conv st"

definition try_global_exclusive :: "ustring option \<Rightarrow> coordinator \<Rightarrow> acquisition" where
  "try_global_exclusive conv st =
     (let a = \<lparr>conversation_id = conv\<rparr> in
      case global_exclusive st of
        Some h \<Rightarrow> Inl (GlobalExclusiveActive GlobalExclusive h)
      | None \<Rightarrow>
          if global_shared st \<noteq> []
          then Inl (GlobalSharedActive GlobalExclusive (count_holders (global_shared st)))
          else if workspace_activities st \<noteq> []
          then Inl (WorkspaceOperationsActive GlobalExclusive (workspace_activities st))
          else Inr (\<lparr>mode = GlobalExclusive, leased = [], holder = a\<rparr>,
                    st\<lparr>global_exclusive := Some a\<rparr>))"

section \<open>Release\<close>

definition put_or_remove :: "workspace_key \<Rightarrow> workspace_slot \<Rightarrow> coordinator \<Rightarrow> coordinator" where
  "put_or_remove w slot st =
     st\<lparr>workspaces := (if slot_idle slot then al_del w (workspaces st) else bt_put w slot (workspaces st))\<rparr>"

definition drop_exclusive ::
    "lease_attribution \<Rightarrow> workspace_key \<Rightarrow> coordinator option \<Rightarrow> coordinator option" where
  "drop_exclusive a w st' =
     Option.bind st' (\<lambda>st. Option.bind (map_of (workspaces st) w) (\<lambda>slot.
       if exclusive slot = Some a then Some (put_or_remove w (slot\<lparr>exclusive := None\<rparr>) st) else None))"

definition drop_lease :: "lease \<Rightarrow> coordinator \<Rightarrow> coordinator option" where
  "drop_lease l st =
     (case mode l of
        GlobalShared \<Rightarrow>
          map_option (\<lambda>m. st\<lparr>global_shared := m\<rparr>) (unbump (conversation_id (holder l)) (global_shared st))
      | WorkspaceShared \<Rightarrow>
          (case leased l of
             [] \<Rightarrow> None
           | w # _ \<Rightarrow>
               Option.bind (map_of (workspaces st) w) (\<lambda>slot.
                 map_option (\<lambda>m. put_or_remove w (slot\<lparr>shared := m\<rparr>) st)
                   (unbump (conversation_id (holder l)) (shared slot))))
      | WorkspaceExclusive \<Rightarrow> fold (drop_exclusive (holder l)) (leased l) (Some st)
      | GlobalExclusive \<Rightarrow>
          if global_exclusive st = Some (holder l) then Some (st\<lparr>global_exclusive := None\<rparr>) else None)"

section \<open>Histories\<close>

datatype coordinator_op =
    AcquireGlobalShared "ustring option"
  | AcquireWorkspaceShared workspace_key "ustring option"
  | AcquireWorkspacesExclusive "workspace_key list" "ustring option"
  | AcquireGlobalExclusive "ustring option"
  | DropLease nat

fun acquire :: "coordinator_op \<Rightarrow> coordinator \<Rightarrow> acquisition" where
  "acquire (AcquireGlobalShared conv) st = try_global_shared conv st"
| "acquire (AcquireWorkspaceShared w conv) st = try_workspace_shared w conv st"
| "acquire (AcquireWorkspacesExclusive ws conv) st = try_workspaces_exclusive ws conv st"
| "acquire (AcquireGlobalExclusive conv) st = try_global_exclusive conv st"
| "acquire (DropLease i) st = Inl EmptyWorkspaceSet"

record coordination =
  coord :: coordinator
  live :: "lease list"
  failed_assertion :: bool

definition coordination_new :: coordination where
  "coordination_new = \<lparr>coord = coordinator_new, live = [], failed_assertion = False\<rparr>"

definition without :: "nat \<Rightarrow> 'a list \<Rightarrow> 'a list" where
  "without i xs = take i xs @ drop (Suc i) xs"

text \<open>
  One step of the callers: an attempt to acquire (a refused one changes nothing), or the drop of
  one of the live leases.
\<close>

fun coordination_step :: "coordination \<Rightarrow> coordinator_op \<Rightarrow> coordination" where
  "coordination_step s (DropLease i) =
     (if i < length (live s) then
        (case drop_lease (live s ! i) (coord s) of
           None \<Rightarrow> s\<lparr>failed_assertion := True\<rparr>
         | Some st \<Rightarrow> s\<lparr>coord := st, live := without i (live s)\<rparr>)
      else s)"
| "coordination_step s op =
     (case acquire op (coord s) of
        Inl _ \<Rightarrow> s
      | Inr (l, st) \<Rightarrow> s\<lparr>coord := st, live := live s @ [l]\<rparr>)"

end
