(* ===== verification/CoordinatorProps.thy ===== *)
theory CoordinatorProps
  imports Coordinator "HOL-Library.Multiset"
begin

text \<open>
  The operation coordinator of \<^verbatim>\<open>src-tauri/src/operation_coordinator.rs\<close> against an abstract
  specification: the list of live leases, any two of which are compatible. The coordinator's maps
  are counts over that list.
\<close>

section \<open>The abstract specification\<close>

text \<open>A request is compatible with a live lease.\<close>

fun modes_compatible :: "operation_mode \<Rightarrow> operation_mode \<Rightarrow> bool \<Rightarrow> bool" where
  "modes_compatible GlobalShared GlobalShared _ = True"
| "modes_compatible GlobalShared WorkspaceShared _ = True"
| "modes_compatible WorkspaceShared GlobalShared _ = True"
| "modes_compatible WorkspaceShared WorkspaceShared _ = True"
| "modes_compatible WorkspaceShared WorkspaceExclusive disjoint = disjoint"
| "modes_compatible WorkspaceExclusive WorkspaceShared disjoint = disjoint"
| "modes_compatible WorkspaceExclusive WorkspaceExclusive disjoint = disjoint"
| "modes_compatible _ _ _ = False"

definition compatible :: "lease \<Rightarrow> lease \<Rightarrow> bool" where
  "compatible l l' \<longleftrightarrow> modes_compatible (mode l) (mode l') (set (leased l) \<inter> set (leased l') = {})"

definition lease_ok :: "lease \<Rightarrow> bool" where
  "lease_ok l \<longleftrightarrow>
     (case mode l of
        GlobalShared \<Rightarrow> leased l = []
      | WorkspaceShared \<Rightarrow> (\<exists>w. leased l = [w] \<and> w \<noteq> [])
      | WorkspaceExclusive \<Rightarrow> leased l \<noteq> [] \<and> distinct (leased l) \<and> [] \<notin> set (leased l)
      | GlobalExclusive \<Rightarrow> leased l = [])"

text \<open>What the live leases say of the global state and of one workspace.\<close>

definition conv_of :: "lease \<Rightarrow> ustring option" where
  "conv_of l = conversation_id (holder l)"

definition n_global :: "lease list \<Rightarrow> ustring option \<Rightarrow> nat" where
  "n_global L c = length (filter (\<lambda>l. mode l = GlobalShared \<and> conv_of l = c) L)"

definition n_shared :: "lease list \<Rightarrow> workspace_key \<Rightarrow> ustring option \<Rightarrow> nat" where
  "n_shared L w c =
     length (filter (\<lambda>l. mode l = WorkspaceShared \<and> w \<in> set (leased l) \<and> conv_of l = c) L)"

definition x_global :: "lease list \<Rightarrow> lease_attribution list" where
  "x_global L = map holder (filter (\<lambda>l. mode l = GlobalExclusive) L)"

definition x_work :: "lease list \<Rightarrow> workspace_key \<Rightarrow> lease_attribution list" where
  "x_work L w = map holder (filter (\<lambda>l. mode l = WorkspaceExclusive \<and> w \<in> set (leased l)) L)"

definition counts :: "holder_counts \<Rightarrow> (ustring option \<Rightarrow> nat) \<Rightarrow> bool" where
  "counts m f \<longleftrightarrow> bt_sorted m \<and> (\<forall>c. map_of m c = (if f c = 0 then None else Some (f c)))"

definition the_holder :: "lease_attribution option \<Rightarrow> lease_attribution list \<Rightarrow> bool" where
  "the_holder x hs \<longleftrightarrow> hs = (case x of None \<Rightarrow> [] | Some a \<Rightarrow> [a])"

definition represents :: "coordinator \<Rightarrow> lease list \<Rightarrow> bool" where
  "represents st L \<longleftrightarrow>
     counts (global_shared st) (n_global L) \<and> the_holder (global_exclusive st) (x_global L)
     \<and> bt_sorted (workspaces st) \<and> (\<forall>p \<in> set (workspaces st). \<not> slot_idle (snd p))
     \<and> (\<forall>w. counts (shared (slot_at st w)) (n_shared L w)
            \<and> the_holder (exclusive (slot_at st w)) (x_work L w))"

definition leases_ok :: "lease list \<Rightarrow> bool" where
  "leases_ok L \<longleftrightarrow> (\<forall>l \<in> set L. lease_ok l) \<and> sorted_wrt compatible L"

section \<open>Counting maps\<close>

lemma counts_Nil_iff: "counts m f \<Longrightarrow> m = [] \<longleftrightarrow> (\<forall>c. f c = 0)"
proof
  assume m: "counts m f" and z: "\<forall>c. f c = 0"
  then have "map_of m = (\<lambda>_. None)" by (simp add: counts_def fun_eq_iff)
  then show "m = []" by (rule map_of_eq_emptyD)
next
  assume m: "counts m f" "m = []"
  show "\<forall>c. f c = 0"
  proof
    fix c
    have "map_of m c = None" using m(2) by simp
    then show "f c = 0" using m(1) by (simp add: counts_def split: if_splits)
  qed
qed

lemma counts_bump: "counts m f \<Longrightarrow> counts (bump c m) (f(c := Suc (f c)))"
  by (auto simp: counts_def bump_def)

lemma counts_unbump:
  assumes "counts m f" and "0 < f c"
  shows "\<exists>m'. unbump c m = Some m' \<and> counts m' (f(c := f c - 1))"
  using assms by (auto simp: counts_def unbump_def)

lemma counts_cong: "counts m f \<Longrightarrow> (\<And>c. f c = g c) \<Longrightarrow> counts m g"
  by (simp add: counts_def)

section \<open>Adding and removing one lease\<close>

lemma views_snoc:
  "n_global (L @ [l]) c = n_global L c + (if mode l = GlobalShared \<and> conv_of l = c then 1 else 0)"
  "n_shared (L @ [l]) w c =
     n_shared L w c + (if mode l = WorkspaceShared \<and> w \<in> set (leased l) \<and> conv_of l = c then 1 else 0)"
  "x_global (L @ [l]) = x_global L @ (if mode l = GlobalExclusive then [holder l] else [])"
  "x_work (L @ [l]) w =
     x_work L w @ (if mode l = WorkspaceExclusive \<and> w \<in> set (leased l) then [holder l] else [])"
  by (simp_all add: n_global_def n_shared_def x_global_def x_work_def)

lemma split_at: "i < length L \<Longrightarrow> L = take i L @ L ! i # drop (Suc i) L"
  by (rule id_take_nth_drop)

lemma the_holder_single: "the_holder x (as @ a # bs) \<Longrightarrow> x = Some a \<and> as = [] \<and> bs = []"
  by (auto simp: the_holder_def append_eq_Cons_conv split: option.splits)

lemma the_holder_Nil [simp]: "the_holder x [] \<longleftrightarrow> x = None" "the_holder None hs \<longleftrightarrow> hs = []"
  by (auto simp: the_holder_def split: option.splits)

lemma the_holder_Some: "the_holder (Some a) hs \<longleftrightarrow> hs = [a]"
  by (simp add: the_holder_def)

lemma leases_ok_without: "leases_ok L \<Longrightarrow> leases_ok (without i L)"
proof -
  assume ok: "leases_ok L"
  show ?thesis
  proof (cases "i < length L")
    case True
    have "sorted_wrt compatible (take i L @ L ! i # drop (Suc i) L)"
      using ok split_at [OF True] by (simp add: leases_ok_def)
    then have "sorted_wrt compatible (without i L)"
      by (auto simp: without_def sorted_wrt_append)
    with ok show ?thesis
      by (auto simp: leases_ok_def without_def dest: in_set_takeD in_set_dropD)
  next
    case False
    with ok show ?thesis by (simp add: without_def)
  qed
qed

text \<open>What is live, read off the coordinator.\<close>

lemma represents_reads:
  assumes r: "represents st L" and ok: "leases_ok L"
  shows "global_exclusive st = None \<longleftrightarrow> (\<forall>l \<in> set L. mode l \<noteq> GlobalExclusive)"
    and "global_shared st = [] \<longleftrightarrow> (\<forall>l \<in> set L. mode l \<noteq> GlobalShared)"
    and "exclusive (slot_at st w) = None \<longleftrightarrow> (\<forall>l \<in> set L. \<not> (mode l = WorkspaceExclusive \<and> w \<in> set (leased l)))"
    and "shared (slot_at st w) = [] \<longleftrightarrow> (\<forall>l \<in> set L. \<not> (mode l = WorkspaceShared \<and> w \<in> set (leased l)))"
proof -
  have "the_holder (global_exclusive st) (x_global L)" using r by (simp add: represents_def)
  then show "global_exclusive st = None \<longleftrightarrow> (\<forall>l \<in> set L. mode l \<noteq> GlobalExclusive)"
    by (cases "global_exclusive st") (auto simp: the_holder_Some x_global_def filter_empty_conv map_eq_Cons_conv filter_eq_Cons_iff)
  have "counts (global_shared st) (n_global L)" using r by (simp add: represents_def)
  from counts_Nil_iff [OF this]
  show "global_shared st = [] \<longleftrightarrow> (\<forall>l \<in> set L. mode l \<noteq> GlobalShared)"
    by (auto simp: n_global_def filter_empty_conv)
  have "the_holder (exclusive (slot_at st w)) (x_work L w)" using r by (simp add: represents_def)
  then show "exclusive (slot_at st w) = None \<longleftrightarrow> (\<forall>l \<in> set L. \<not> (mode l = WorkspaceExclusive \<and> w \<in> set (leased l)))"
    by (cases "exclusive (slot_at st w)")
       (auto simp: the_holder_Some x_work_def filter_empty_conv map_eq_Cons_conv filter_eq_Cons_iff)
  have "counts (shared (slot_at st w)) (n_shared L w)" using r by (simp add: represents_def)
  from counts_Nil_iff [OF this]
  show "shared (slot_at st w) = [] \<longleftrightarrow> (\<forall>l \<in> set L. \<not> (mode l = WorkspaceShared \<and> w \<in> set (leased l)))"
    by (auto simp: n_shared_def filter_empty_conv)
qed


lemma compatible_sym: "compatible l l' \<longleftrightarrow> compatible l' l"
  by (cases "mode l"; cases "mode l'") (auto simp: compatible_def)

lemma slot_at_put: "bt_sorted (workspaces st) \<Longrightarrow>
    slot_at (st\<lparr>workspaces := bt_put w slot (workspaces st)\<rparr>) v = (if v = w then slot else slot_at st v)"
  by (simp add: slot_at_def)

lemma set_bt_put: "bt_sorted m \<Longrightarrow> p \<in> set (bt_put k v m) \<Longrightarrow> p = (k, v) \<or> p \<in> set m"
  by (induction k v m rule: bt_put.induct) (auto simp: bt_sorted_def split: if_splits)

lemma put_represents:
  assumes r: "represents st L" and idle: "\<not> slot_idle slot"
    and glob: "\<And>c. n_global L' c = n_global L c" "x_global L' = x_global L"
    and here: "counts (shared slot) (n_shared L' w)" "the_holder (exclusive slot) (x_work L' w)"
    and there: "\<And>v c. v \<noteq> w \<Longrightarrow> n_shared L' v c = n_shared L v c" "\<And>v. v \<noteq> w \<Longrightarrow> x_work L' v = x_work L v"
  shows "represents (st\<lparr>workspaces := bt_put w slot (workspaces st)\<rparr>) L'"
proof -
  have sorted: "bt_sorted (workspaces st)" using r by (simp add: represents_def)
  have fn: "n_global L' = n_global L" "\<And>v. v \<noteq> w \<Longrightarrow> n_shared L' v = n_shared L v"
    using glob there by (simp_all add: fun_eq_iff)
  show ?thesis
    using r idle glob(2) here there(2) fn sorted
    by (auto simp: represents_def slot_at_put dest!: set_bt_put [OF sorted])
qed

section \<open>Acquisition against the specification\<close>

definition compatible_with_all :: "lease \<Rightarrow> lease list \<Rightarrow> bool" where
  "compatible_with_all l L \<longleftrightarrow> (\<forall>l' \<in> set L. compatible l l')"

definition grants :: "acquisition \<Rightarrow> lease \<Rightarrow> lease list \<Rightarrow> bool" where
  "grants x l L \<longleftrightarrow>
     (case x of Inl _ \<Rightarrow> \<not> (lease_ok l \<and> compatible_with_all l L)
      | Inr (l', st) \<Rightarrow> l' = l \<and> lease_ok l \<and> compatible_with_all l L \<and> represents st (L @ [l]))"

lemma global_shared_grants:
  assumes r: "represents st L" and ok: "leases_ok L"
  shows "grants (try_global_shared conv st)
      \<lparr>mode = GlobalShared, leased = [], holder = \<lparr>conversation_id = conv\<rparr>\<rparr> L"
proof -
  let ?l = "\<lparr>mode = GlobalShared, leased = [], holder = \<lparr>conversation_id = conv\<rparr>\<rparr>"
  note reads = represents_reads [OF r ok]
  have sorted: "bt_sorted (workspaces st)" using r by (simp add: represents_def)
  have "filter (\<lambda>(_, slot). exclusive slot \<noteq> None) (workspaces st) = []
      \<longleftrightarrow> (\<forall>w. exclusive (slot_at st w) = None)"
    using map_of_eq_Some_iff [OF bt_sorted_distinct [OF sorted]]
    by (auto simp: filter_empty_conv slot_at_def slot_default_def split: option.splits)
  also have "\<dots> \<longleftrightarrow> (\<forall>l \<in> set L. mode l = WorkspaceExclusive \<longrightarrow> leased l = [])"
    unfolding reads(3) by (auto simp: ex_in_conv [symmetric] simp del: ex_in_conv intro: ccontr) (metis list.set_intros(1) neq_Nil_conv)
  also have "\<dots> \<longleftrightarrow> (\<forall>l \<in> set L. mode l \<noteq> WorkspaceExclusive)"
    using ok by (auto simp: leases_ok_def lease_ok_def)
  finally have x: "filter (\<lambda>(_, slot). exclusive slot \<noteq> None) (workspaces st) = []
      \<longleftrightarrow> (\<forall>l \<in> set L. mode l \<noteq> WorkspaceExclusive)" .
  have comp: "compatible_with_all ?l L \<longleftrightarrow>
      (\<forall>l \<in> set L. mode l \<noteq> GlobalExclusive) \<and> (\<forall>l \<in> set L. mode l \<noteq> WorkspaceExclusive)"
  proof -
    have "compatible ?l l \<longleftrightarrow> mode l \<noteq> GlobalExclusive \<and> mode l \<noteq> WorkspaceExclusive" for l
      by (cases "mode l") (simp_all add: compatible_def)
    then show ?thesis by (auto simp: compatible_with_all_def)
  qed
  have "represents (st\<lparr>global_shared := bump conv (global_shared st)\<rparr>) (L @ [?l])"
  proof -
    have "counts (bump conv (global_shared st)) ((n_global L)(conv := Suc (n_global L conv)))"
      using r by (intro counts_bump) (simp add: represents_def)
    then have "counts (bump conv (global_shared st)) (n_global (L @ [?l]))"
      by (rule counts_cong) (simp add: views_snoc conv_of_def)
    moreover have "n_shared (L @ [?l]) w = n_shared L w" for w by (simp add: fun_eq_iff views_snoc)
    ultimately show ?thesis
      using r by (simp add: represents_def views_snoc slot_at_def)
  qed
  then show ?thesis
    using comp reads(1) x by (auto simp: grants_def try_global_shared_def lease_ok_def split: option.splits)
qed

lemma workspace_shared_grants:
  assumes r: "represents st L" and ok: "leases_ok L"
  shows "grants (try_workspace_shared w conv st)
      \<lparr>mode = WorkspaceShared, leased = [w], holder = \<lparr>conversation_id = conv\<rparr>\<rparr> L"
proof -
  let ?l = "\<lparr>mode = WorkspaceShared, leased = [w], holder = \<lparr>conversation_id = conv\<rparr>\<rparr>"
  let ?slot = "slot_at st w"
  note reads = represents_reads [OF r ok]
  have comp: "compatible_with_all ?l L \<longleftrightarrow> global_exclusive st = None \<and> exclusive ?slot = None"
  proof -
    have "compatible ?l l \<longleftrightarrow> mode l \<noteq> GlobalExclusive \<and> \<not> (mode l = WorkspaceExclusive \<and> w \<in> set (leased l))" for l
      by (cases "mode l") (simp_all add: compatible_def)
    then show ?thesis unfolding reads(1) reads(3) by (auto simp: compatible_with_all_def)
  qed
  have "represents (st\<lparr>workspaces := bt_put w (?slot\<lparr>shared := bump conv (shared ?slot)\<rparr>) (workspaces st)\<rparr>) (L @ [?l])"
  proof (rule put_represents [OF r])
    have "counts (bump conv (shared ?slot)) ((n_shared L w)(conv := Suc (n_shared L w conv)))"
      using r by (intro counts_bump) (simp add: represents_def)
    then have c: "counts (bump conv (shared ?slot)) (n_shared (L @ [?l]) w)"
      by (rule counts_cong) (simp add: views_snoc conv_of_def)
    then show "counts (shared (?slot\<lparr>shared := bump conv (shared ?slot)\<rparr>)) (n_shared (L @ [?l]) w)" by simp
    have "bump conv (shared ?slot) \<noteq> []"
      using counts_Nil_iff [OF c] by (auto simp: views_snoc conv_of_def)
    then show "\<not> slot_idle (?slot\<lparr>shared := bump conv (shared ?slot)\<rparr>)" by (simp add: slot_idle_def)
    show "the_holder (exclusive (?slot\<lparr>shared := bump conv (shared ?slot)\<rparr>)) (x_work (L @ [?l]) w)"
      using r by (simp add: represents_def views_snoc)
  qed (simp_all add: views_snoc)
  then show ?thesis
    using comp by (auto simp: grants_def try_workspace_shared_def lease_ok_def Let_def split: option.splits)
qed

lemma first_busy_None: "first_busy st ws = None \<longleftrightarrow> (\<forall>w \<in> set ws. slot_idle (slot_at st w))"
  by (induction ws) (auto simp: slot_at_def slot_default_def slot_idle_def split: option.splits)

abbreviation x_lease :: "lease_attribution \<Rightarrow> workspace_key list \<Rightarrow> lease" where
  "x_lease a ws \<equiv> \<lparr>mode = WorkspaceExclusive, leased = ws, holder = a\<rparr>"

lemma slot_at_fold_take:
  "bt_sorted (workspaces st) \<Longrightarrow>
     bt_sorted (workspaces (fold (take_exclusive a) ws st))
     \<and> (v \<notin> set ws \<longrightarrow> slot_at (fold (take_exclusive a) ws st) v = slot_at st v)"
  by (induction ws arbitrary: st) (auto simp: take_exclusive_def slot_at_put)

lemma fold_take_represents:
  assumes r: "represents st L" and "distinct ws" and "\<forall>w \<in> set ws. slot_idle (slot_at st w)"
  shows "represents (fold (take_exclusive a) ws st) (L @ [x_lease a ws])"
  using assms(2,3)
proof (induction ws rule: rev_induct)
  case Nil
  have "n_global (L @ [x_lease a []]) = n_global L" "\<And>w. n_shared (L @ [x_lease a []]) w = n_shared L w"
    by (simp_all add: fun_eq_iff views_snoc)
  with r show ?case by (simp add: represents_def views_snoc)
next
  case (snoc w ws)
  let ?st = "fold (take_exclusive a) ws st"
  have IH: "represents ?st (L @ [x_lease a ws])" using snoc by simp
  have same: "slot_at ?st w = slot_at st w"
    using slot_at_fold_take [of st a ws w] r snoc.prems(1) by (simp add: represents_def)
  have "the_holder (exclusive (slot_at st w)) (x_work L w)" using r by (simp add: represents_def)
  with snoc.prems(2) have none: "x_work L w = []" by (simp add: slot_idle_def)
  have "represents (?st\<lparr>workspaces := bt_put w ((slot_at ?st w)\<lparr>exclusive := Some a\<rparr>) (workspaces ?st)\<rparr>)
      (L @ [x_lease a (ws @ [w])])"
  proof (rule put_represents [OF IH])
    show "counts (shared ((slot_at ?st w)\<lparr>exclusive := Some a\<rparr>)) (n_shared (L @ [x_lease a (ws @ [w])]) w)"
      using r by (auto simp: represents_def same views_snoc intro: counts_cong)
    show "the_holder (exclusive ((slot_at ?st w)\<lparr>exclusive := Some a\<rparr>)) (x_work (L @ [x_lease a (ws @ [w])]) w)"
      by (simp add: views_snoc none the_holder_Some)
  qed (simp_all add: views_snoc slot_idle_def)
  then show ?case by (simp add: take_exclusive_def [of a w])
qed

lemma workspaces_exclusive_grants:
  assumes r: "represents st L" and ok: "leases_ok L"
  shows "grants (try_workspaces_exclusive keys conv st) (x_lease \<lparr>conversation_id = conv\<rparr> (sort (remdups keys))) L"
proof -
  let ?ws = "sort (remdups keys)"
  let ?l = "x_lease \<lparr>conversation_id = conv\<rparr> ?ws"
  note reads = represents_reads [OF r ok]
  have lok: "lease_ok ?l \<longleftrightarrow> ?ws \<noteq> [] \<and> \<not> (\<exists>w \<in> set ?ws. w = [])" by (auto simp: lease_ok_def)
  have comp: "compatible_with_all ?l L \<longleftrightarrow>
      global_exclusive st = None \<and> global_shared st = [] \<and> (\<forall>w \<in> set ?ws. slot_idle (slot_at st w))"
  proof -
    have one: "compatible ?l l \<longleftrightarrow> mode l \<noteq> GlobalExclusive \<and> mode l \<noteq> GlobalShared
        \<and> (\<forall>w \<in> set ?ws. \<not> (mode l = WorkspaceExclusive \<and> w \<in> set (leased l))
             \<and> \<not> (mode l = WorkspaceShared \<and> w \<in> set (leased l)))" for l
      by (cases "mode l") (auto simp: compatible_def)
    show ?thesis
      unfolding reads(1) reads(2) slot_idle_def reads(3) reads(4) compatible_with_all_def one by blast
  qed
  have rep: "represents (fold (take_exclusive \<lparr>conversation_id = conv\<rparr>) ?ws st) (L @ [?l])"
    if "\<forall>w \<in> set ?ws. slot_idle (slot_at st w)"
    using fold_take_represents [OF r _ that] by simp
  show ?thesis
  proof (cases "lease_ok ?l \<and> compatible_with_all ?l L")
    case True
    then have "try_workspaces_exclusive keys conv st
        = Inr (?l, fold (take_exclusive \<lparr>conversation_id = conv\<rparr>) ?ws st)"
      using lok comp first_busy_None [of st ?ws]
      by (simp add: try_workspaces_exclusive_def Let_def del: set_sort sort_key_simps) 
    with True rep comp show ?thesis by (simp add: grants_def)
  next
    case False
    then have "\<exists>e. try_workspaces_exclusive keys conv st = Inl e"
      using lok comp first_busy_None [of st ?ws]
      by (auto simp: try_workspaces_exclusive_def Let_def split: option.splits simp del: set_sort)
    with False show ?thesis by (auto simp: grants_def)
  qed
qed

lemma global_exclusive_grants:
  assumes r: "represents st L" and ok: "leases_ok L"
  shows "grants (try_global_exclusive conv st)
      \<lparr>mode = GlobalExclusive, leased = [], holder = \<lparr>conversation_id = conv\<rparr>\<rparr> L"
proof -
  let ?l = "\<lparr>mode = GlobalExclusive, leased = [], holder = \<lparr>conversation_id = conv\<rparr>\<rparr>"
  note reads = represents_reads [OF r ok]
  have sorted: "bt_sorted (workspaces st)" and busy: "\<forall>p \<in> set (workspaces st). \<not> slot_idle (snd p)"
    using r by (simp_all add: represents_def)
  have "workspace_activities st = [] \<longleftrightarrow> workspaces st = []"
    using busy by (cases "workspaces st") (auto simp: workspace_activities_def)
  also have "\<dots> \<longleftrightarrow> (\<forall>w. slot_idle (slot_at st w))"
  proof
    assume idle: "\<forall>w. slot_idle (slot_at st w)"
    have "map_of (workspaces st) w = None" for w
      using idle [rule_format, of w] busy map_of_SomeD [of "workspaces st" w]
      by (auto simp: slot_at_def split: option.splits)
    then show "workspaces st = []" by (intro map_of_eq_emptyD) (simp add: fun_eq_iff)
  qed (simp add: slot_at_def slot_default_def slot_idle_def)
  also have "\<dots> \<longleftrightarrow> (\<forall>l \<in> set L. (mode l = WorkspaceExclusive \<or> mode l = WorkspaceShared) \<longrightarrow> leased l = [])"
    unfolding slot_idle_def reads(3) reads(4) by (metis list.set_intros(1) neq_Nil_conv empty_iff list.set(1))
  also have "\<dots> \<longleftrightarrow> (\<forall>l \<in> set L. mode l \<noteq> WorkspaceExclusive \<and> mode l \<noteq> WorkspaceShared)"
    using ok by (auto simp: leases_ok_def lease_ok_def)
  finally have w: "workspace_activities st = [] \<longleftrightarrow>
      (\<forall>l \<in> set L. mode l \<noteq> WorkspaceExclusive \<and> mode l \<noteq> WorkspaceShared)" .
  have comp: "compatible_with_all ?l L \<longleftrightarrow> L = []"
  proof -
    have "\<not> compatible ?l l" for l by (cases "mode l") (simp_all add: compatible_def)
    then show ?thesis by (cases L) (auto simp: compatible_with_all_def)
  qed
  have all: "global_exclusive st = None \<and> global_shared st = [] \<and> workspace_activities st = [] \<longleftrightarrow> L = []"
  proof -
    have "mode l \<in> {GlobalShared, WorkspaceShared, WorkspaceExclusive, GlobalExclusive}" for l
      by (cases "mode l") simp_all
    then show ?thesis unfolding reads(1) reads(2) w by (cases L) auto
  qed
  have "represents (st\<lparr>global_exclusive := Some \<lparr>conversation_id = conv\<rparr>\<rparr>) (L @ [?l])" if "L = []"
  proof -
    have "n_global (L @ [?l]) = n_global L" "\<And>w. n_shared (L @ [?l]) w = n_shared L w"
      by (simp_all add: fun_eq_iff views_snoc)
    moreover have "x_global (L @ [?l]) = [\<lparr>conversation_id = conv\<rparr>]" using that by (simp add: x_global_def)
    moreover have "x_work (L @ [?l]) w = x_work L w" for w by (simp add: views_snoc)
    ultimately show ?thesis
      using r by (simp add: represents_def slot_at_def the_holder_Some)
  qed
  then show ?thesis
    using comp all
    by (auto simp: grants_def try_global_exclusive_def lease_ok_def Let_def split: option.splits)
qed

section \<open>Release\<close>

lemma the_holder_perm: "the_holder x hs \<Longrightarrow> mset hs = mset hs' \<Longrightarrow> the_holder x hs'"
  by (auto simp: the_holder_def split: option.splits)

lemma represents_perm:
  assumes r: "represents st L" and p: "mset L = mset L'"
  shows "represents st L'"
proof -
  have len: "length (filter P L) = length (filter P L')" for P
    by (metis mset_filter p size_mset)
  have holder: "the_holder x (map holder (filter P L'))" if "the_holder x (map holder (filter P L))" for x P
  proof -
    have "mset (map holder (filter P L)) = mset (map holder (filter P L'))"
      using p by simp
    with that show ?thesis by (rule the_holder_perm)
  qed
  have "n_global L' = n_global L" "\<And>w. n_shared L' w = n_shared L w"
    by (simp_all add: fun_eq_iff n_global_def n_shared_def len)
  with r show ?thesis by (auto simp: represents_def x_global_def x_work_def intro: holder)
qed

lemma mset_without: "i < length L \<Longrightarrow> mset L = mset (without i L @ [L ! i])"
  using arg_cong [OF split_at, of i L mset] by (simp add: without_def)

lemma put_or_remove_represents:
  assumes r: "represents st L"
    and glob: "\<And>c. n_global L' c = n_global L c" "x_global L' = x_global L"
    and here: "counts (shared slot) (n_shared L' w)" "the_holder (exclusive slot) (x_work L' w)"
    and there: "\<And>v c. v \<noteq> w \<Longrightarrow> n_shared L' v c = n_shared L v c" "\<And>v. v \<noteq> w \<Longrightarrow> x_work L' v = x_work L v"
  shows "represents (put_or_remove w slot st) L'"
proof (cases "slot_idle slot")
  case False
  then show ?thesis
    unfolding put_or_remove_def using put_represents [OF r False glob here there] by simp
next
  case True
  let ?st = "st\<lparr>workspaces := al_del w (workspaces st)\<rparr>"
  have at: "slot_at ?st v = (if v = w then slot_default else slot_at st v)" for v
    by (simp add: slot_at_def)
  have fn: "n_global L' = n_global L" "\<And>v. v \<noteq> w \<Longrightarrow> n_shared L' v = n_shared L v"
    using glob there by (simp_all add: fun_eq_iff)
  have "counts (shared slot_default) (n_shared L' w)" "the_holder (exclusive slot_default) (x_work L' w)"
    using here True by (simp_all add: slot_idle_def slot_default_def)
  with r fn glob(2) there(2) have "represents ?st L'"
    by (auto simp: represents_def at set_al_del)
  with True show ?thesis by (simp add: put_or_remove_def)
qed

lemma stored_slot:
  "slot_at st w \<noteq> slot_default \<Longrightarrow> map_of (workspaces st) w = Some (slot_at st w)"
  by (auto simp: slot_at_def split: option.splits)

lemma drop_exclusive_represents:
  assumes "represents st (R @ [x_lease a (w # ws)])" and "w \<notin> set ws"
  shows "\<exists>st'. drop_exclusive a w (Some st) = Some st' \<and> represents st' (R @ [x_lease a ws])"
proof -
  have "the_holder (exclusive (slot_at st w)) (x_work (R @ [x_lease a (w # ws)]) w)"
    and sh: "counts (shared (slot_at st w)) (n_shared (R @ [x_lease a (w # ws)]) w)"
    using assms(1) by (simp_all add: represents_def)
  moreover have "x_work (R @ [x_lease a (w # ws)]) w = x_work R w @ [a]" by (simp add: views_snoc)
  ultimately have x: "exclusive (slot_at st w) = Some a" and none: "x_work R w = []"
    using the_holder_single [of "exclusive (slot_at st w)" "x_work R w" a "[]"] by simp_all
  then have "slot_at st w \<noteq> slot_default" by (auto simp: slot_default_def)
  note slot = stored_slot [OF this]
  have "represents (put_or_remove w ((slot_at st w)\<lparr>exclusive := None\<rparr>) st) (R @ [x_lease a ws])"
  proof (rule put_or_remove_represents [OF assms(1)])
    show "counts (shared ((slot_at st w)\<lparr>exclusive := None\<rparr>)) (n_shared (R @ [x_lease a ws]) w)"
      using sh by (auto simp: views_snoc intro: counts_cong)
    show "the_holder (exclusive ((slot_at st w)\<lparr>exclusive := None\<rparr>)) (x_work (R @ [x_lease a ws]) w)"
      using assms(2) none by (simp add: views_snoc)
  qed (simp_all add: views_snoc)
  then show ?thesis by (simp add: drop_exclusive_def slot x)
qed

lemma fold_drop_represents:
  "represents st (R @ [x_lease a ws]) \<Longrightarrow> distinct ws \<Longrightarrow>
     \<exists>st'. fold (drop_exclusive a) ws (Some st) = Some st' \<and> represents st' (R @ [x_lease a []])"
proof (induction ws arbitrary: st)
  case (Cons w ws)
  then have "w \<notin> set ws" by simp
  from drop_exclusive_represents [OF Cons.prems(1) this]
  obtain st' where "drop_exclusive a w (Some st) = Some st'" "represents st' (R @ [x_lease a ws])"
    by blast
  with Cons.IH [of st'] Cons.prems(2) show ?case by simp
qed simp

lemma represents_vacuous: "represents st (R @ [x_lease a []]) \<Longrightarrow> represents st R"
proof -
  have "n_global (R @ [x_lease a []]) = n_global R" "\<And>w. n_shared (R @ [x_lease a []]) w = n_shared R w"
    by (simp_all add: fun_eq_iff views_snoc)
  then show "represents st (R @ [x_lease a []]) \<Longrightarrow> represents st R" by (simp add: represents_def views_snoc)
qed

lemma drop_last_represents:
  assumes r: "represents st (R @ [l])" and l: "lease_ok l"
  shows "\<exists>st'. drop_lease l st = Some st' \<and> represents st' R"
proof (cases "mode l")
  case GlobalShared
  have c: "counts (global_shared st) (n_global (R @ [l]))" using r by (simp add: represents_def)
  have "0 < n_global (R @ [l]) (conv_of l)" using GlobalShared by (simp add: views_snoc)
  from counts_unbump [OF c this] obtain m where m: "unbump (conv_of l) (global_shared st) = Some m"
    "counts m ((n_global (R @ [l]))(conv_of l := n_global (R @ [l]) (conv_of l) - 1))" by blast
  from m(2) have "counts m (n_global R)" by (rule counts_cong) (simp add: views_snoc GlobalShared)
  moreover have "n_shared (R @ [l]) w = n_shared R w" for w by (simp add: fun_eq_iff views_snoc GlobalShared)
  ultimately have "represents (st\<lparr>global_shared := m\<rparr>) R"
    using r by (simp add: represents_def views_snoc GlobalShared slot_at_def)
  with m(1) show ?thesis by (simp add: drop_lease_def GlobalShared conv_of_def)
next
  case WorkspaceShared
  then obtain w where w: "leased l = [w]" using l by (auto simp: lease_ok_def)
  let ?slot = "slot_at st w"
  have c: "counts (shared ?slot) (n_shared (R @ [l]) w)" using r by (simp add: represents_def)
  have pos: "0 < n_shared (R @ [l]) w (conv_of l)" using WorkspaceShared w by (simp add: views_snoc)
  from counts_unbump [OF c this] obtain m where m: "unbump (conv_of l) (shared ?slot) = Some m"
    "counts m ((n_shared (R @ [l]) w)(conv_of l := n_shared (R @ [l]) w (conv_of l) - 1))" by blast
  have "?slot \<noteq> slot_default" using counts_Nil_iff [OF c] pos by (auto simp: slot_default_def)
  note slot = stored_slot [OF this]
  have "represents (put_or_remove w (?slot\<lparr>shared := m\<rparr>) st) R"
  proof (rule put_or_remove_represents [OF r])
    from m(2) have "counts m (n_shared R w)" by (rule counts_cong) (simp add: views_snoc WorkspaceShared w)
    then show "counts (shared (?slot\<lparr>shared := m\<rparr>)) (n_shared R w)" by simp
    show "the_holder (exclusive (?slot\<lparr>shared := m\<rparr>)) (x_work R w)"
      using r by (simp add: represents_def views_snoc WorkspaceShared)
  qed (simp_all add: views_snoc WorkspaceShared w)
  with m(1) slot show ?thesis by (simp add: drop_lease_def WorkspaceShared conv_of_def w)
next
  case WorkspaceExclusive
  have "l = x_lease (holder l) (leased l)" using WorkspaceExclusive by (cases l) simp
  with r have "represents st (R @ [x_lease (holder l) (leased l)])" by simp
  moreover have "distinct (leased l)" using l WorkspaceExclusive by (simp add: lease_ok_def)
  ultimately show ?thesis
    using fold_drop_represents represents_vacuous by (fastforce simp: drop_lease_def WorkspaceExclusive)
next
  case GlobalExclusive
  have "the_holder (global_exclusive st) (x_global R @ [holder l])"
    using r by (simp add: represents_def views_snoc GlobalExclusive)
  then have x: "global_exclusive st = Some (holder l)" and none: "x_global R = []"
    using the_holder_single [of "global_exclusive st" "x_global R" "holder l" "[]"] by simp_all
  have "n_global (R @ [l]) = n_global R" "\<And>w. n_shared (R @ [l]) w = n_shared R w"
    by (simp_all add: fun_eq_iff views_snoc GlobalExclusive)
  with r none have "represents (st\<lparr>global_exclusive := None\<rparr>) R"
    by (simp add: represents_def views_snoc GlobalExclusive slot_at_def)
  with x show ?thesis by (simp add: drop_lease_def GlobalExclusive)
qed

lemma drop_represents:
  assumes "represents st L" and "leases_ok L" and "i < length L"
  shows "\<exists>st'. drop_lease (L ! i) st = Some st' \<and> represents st' (without i L)"
  using represents_perm [OF assms(1) mset_without [OF assms(3)]] assms(2,3)
  by (intro drop_last_represents) (simp_all add: leases_ok_def)

section \<open>The coordinator as a machine\<close>

definition coordination_inv :: "coordination \<Rightarrow> bool" where
  "coordination_inv s \<longleftrightarrow> represents (coord s) (live s) \<and> leases_ok (live s) \<and> \<not> failed_assertion s"

fun request_of :: "coordinator_op \<Rightarrow> lease" where
  "request_of (AcquireGlobalShared conv) =
     \<lparr>mode = GlobalShared, leased = [], holder = \<lparr>conversation_id = conv\<rparr>\<rparr>"
| "request_of (AcquireWorkspaceShared w conv) =
     \<lparr>mode = WorkspaceShared, leased = [w], holder = \<lparr>conversation_id = conv\<rparr>\<rparr>"
| "request_of (AcquireWorkspacesExclusive ws conv) =
     \<lparr>mode = WorkspaceExclusive, leased = sort (remdups ws), holder = \<lparr>conversation_id = conv\<rparr>\<rparr>"
| "request_of (AcquireGlobalExclusive conv) =
     \<lparr>mode = GlobalExclusive, leased = [], holder = \<lparr>conversation_id = conv\<rparr>\<rparr>"
| "request_of (DropLease i) = \<lparr>mode = WorkspaceExclusive, leased = [], holder = \<lparr>conversation_id = None\<rparr>\<rparr>"

lemma acquire_grants:
  "represents st L \<Longrightarrow> leases_ok L \<Longrightarrow> grants (acquire op st) (request_of op) L"
  by (cases op)
     (simp_all add: global_shared_grants workspace_shared_grants workspaces_exclusive_grants
        global_exclusive_grants, simp add: grants_def lease_ok_def)

lemma coordination_inv_new: "coordination_inv coordination_new"
  by (simp add: coordination_inv_def coordination_new_def coordinator_new_def represents_def leases_ok_def
      counts_def n_global_def n_shared_def x_global_def x_work_def slot_at_def slot_default_def)

lemma coordination_inv_step: "coordination_inv s \<Longrightarrow> coordination_inv (coordination_step s op)"
proof (cases "\<exists>i. op = DropLease i")
  case True
  assume inv: "coordination_inv s"
  from True obtain i where op: "op = DropLease i" by blast
  show ?thesis
  proof (cases "i < length (live s)")
    case True
    with inv obtain st where "drop_lease (live s ! i) (coord s) = Some st" "represents st (without i (live s))"
      using drop_represents [of "coord s" "live s" i] by (auto simp: coordination_inv_def)
    with inv op True show ?thesis by (simp add: coordination_inv_def leases_ok_without)
  qed (use inv op in simp)
next
  case False
  assume inv: "coordination_inv s"
  have g: "grants (acquire op (coord s)) (request_of op) (live s)"
    using inv by (intro acquire_grants) (simp_all add: coordination_inv_def)
  have step: "coordination_step s op = (case acquire op (coord s) of Inl _ \<Rightarrow> s
      | Inr (l, st) \<Rightarrow> s\<lparr>coord := st, live := live s @ [l]\<rparr>)"
    using False by (cases op) simp_all
  show ?thesis
  proof (cases "acquire op (coord s)")
    case (Inr p)
    obtain l st where p: "p = (l, st)" by (cases p)
    with g Inr have "lease_ok l" "compatible_with_all l (live s)" "represents st (live s @ [l])"
      by (simp_all add: grants_def)
    moreover have "leases_ok (live s @ [l])"
      using inv calculation compatible_sym
      by (auto simp: coordination_inv_def leases_ok_def sorted_wrt_append compatible_with_all_def)
    ultimately show ?thesis using inv step Inr p by (simp add: coordination_inv_def)
  qed (use inv step in simp)
qed

interpretation coordination: total_machine "\<lambda>s. s = coordination_new" coordination_step coordination_inv
  by unfold_locales (simp_all add: coordination_inv_new coordination_inv_step)

definition coordinate :: "coordinator_op list \<Rightarrow> coordination" where
  "coordinate ops = foldl coordination_step coordination_new ops"

lemma coordinate_inv: "coordination_inv (coordinate ops)"
  unfolding coordinate_def by (rule coordination.foldl_inv) simp

text \<open>
  Claim C7. In every history of acquisitions and drops any two live leases are compatible: no
  global exclusive lease beside another lease, no global shared lease beside an exclusive one,
  and no exclusive lease on a workspace beside another lease on it.
\<close>

theorem live_leases_compatible:
  assumes "i < j" and "j < length (live (coordinate ops))"
  shows "compatible (live (coordinate ops) ! i) (live (coordinate ops) ! j)"
  using coordinate_inv [of ops] assms
  by (auto simp: coordination_inv_def leases_ok_def sorted_wrt_iff_nth_less)

definition sample_history :: "coordinator_op list" where
  "sample_history =
     [AcquireWorkspaceShared [RootDir, Normal [97]] None,
      AcquireWorkspacesExclusive [[RootDir, Normal [98]]] None,
      AcquireGlobalExclusive None]"

lemma sample_live: "map mode (live (coordinate sample_history)) = [WorkspaceShared, WorkspaceExclusive]"
  by code_simp

theorem live_leases_compatible_witness:
  "compatible (live (coordinate sample_history) ! 0) (live (coordinate sample_history) ! 1)"
proof -
  have "length (live (coordinate sample_history)) = 2"
    using arg_cong [OF sample_live, of length] by simp
  then show ?thesis by (intro live_leases_compatible) simp_all
qed

text \<open>
  Acquisition is exact: after any history a request is granted if and only if it is
  well formed (its keys are non-empty and there is one) and compatible with every live lease; the
  granted lease is the one asked for, with its keys sorted and without duplicates.
\<close>

theorem acquisition_granted_iff_compatible:
  "(case acquire op (coord (coordinate ops)) of
      Inl _ \<Rightarrow> \<not> (lease_ok (request_of op) \<and> compatible_with_all (request_of op) (live (coordinate ops)))
    | Inr (l, _) \<Rightarrow> l = request_of op \<and> lease_ok l \<and> compatible_with_all l (live (coordinate ops)))"
  using acquire_grants [of "coord (coordinate ops)" "live (coordinate ops)" op] coordinate_inv [of ops]
  by (auto simp: coordination_inv_def grants_def split: sum.splits)

text \<open>
  Dropping a live lease never trips an assertion and releases exactly what the lease
  held: whenever no lease is left the coordinator is back in its initial state.
\<close>

theorem drops_release_everything:
  "\<not> failed_assertion (coordinate ops)
   \<and> (live (coordinate ops) = [] \<longrightarrow> coord (coordinate ops) = coordinator_new)"
proof -
  have inv: "represents (coord (coordinate ops)) (live (coordinate ops))"
    and ok: "leases_ok (live (coordinate ops))" and f: "\<not> failed_assertion (coordinate ops)"
    using coordinate_inv [of ops] by (simp_all add: coordination_inv_def)
  have "coord (coordinate ops) = coordinator_new" if none: "live (coordinate ops) = []"
  proof -
    let ?st = "coord (coordinate ops)"
    note reads = represents_reads [OF inv ok, unfolded none, simplified]
    have "map_of (workspaces ?st) w = None" for w
      using reads(3) [of w] reads(4) [of w] inv map_of_SomeD [of "workspaces ?st" w]
      by (auto simp: represents_def slot_at_def slot_idle_def split: option.splits)
    then have "workspaces ?st = []" by (intro map_of_eq_emptyD) (simp add: fun_eq_iff)
    with reads(1,2) show ?thesis by (simp add: coordinator_new_def)
  qed
  with f show ?thesis by blast
qed

theorem drops_release_everything_witness:
  "coord (coordinate (sample_history @ [DropLease 0, DropLease 0])) = coordinator_new"
proof -
  have "live (coordinate (sample_history @ [DropLease 0, DropLease 0])) = []" by code_simp
  then show ?thesis using drops_release_everything by blast
qed

end
