(* ===== verification/Schema.thy ===== *)
theory Schema
  imports Json
begin

text \<open>
  \<^verbatim>\<open>src-tauri/workflow-core/src/schema.rs\<close>: the closed subset of JSON Schema that constrains a
  subagent's structured output: the compile-time checks, the breadth-first validator, and the
  equality behind \<open>enum\<close> and \<open>const\<close>. An error message is a constructor with the values the
  message is built from; a stack is a list whose head is the top.
\<close>

text \<open>Keyword literals stay folded; two of them are compared as strings.\<close>

declare lit_simps [simp del]

lemma lit_eq [simp]: "lit s = lit t \<longleftrightarrow> s = t"
  by (rule lit_eq_iff)

section \<open>Limits and keyword sets\<close>

definition MAX_SCHEMA_NODES :: nat where "MAX_SCHEMA_NODES = 100000"
definition MAX_SCHEMA_DEPTH :: nat where "MAX_SCHEMA_DEPTH = 10000"
definition MAX_VALIDATION_ERRORS :: nat where "MAX_VALIDATION_ERRORS = 100"

definition SUPPORTED_KEYWORDS :: "ustring list" where
  "SUPPORTED_KEYWORDS = map lit
     [''type'', ''properties'', ''required'', ''items'', ''enum'', ''const'',
      ''additionalProperties'', ''minItems'', ''maxItems'', ''minLength'', ''maxLength'',
      ''minimum'', ''maximum'']"

definition ANNOTATION_KEYWORDS :: "ustring list" where
  "ANNOTATION_KEYWORDS = map lit
     [''$schema'', ''$comment'', ''$id'', ''title'', ''description'', ''default'', ''examples'']"

definition SUPPORTED_TYPES :: "ustring list" where
  "SUPPORTED_TYPES = map lit
     [''object'', ''array'', ''string'', ''number'', ''integer'', ''boolean'', ''null'']"

type_synonym json_map = "(ustring \<times> json) list"

abbreviation get :: "json_map \<Rightarrow> string \<Rightarrow> json option" where
  "get m k \<equiv> map_of m (lit k)"

definition get_u64 :: "json_map \<Rightarrow> string \<Rightarrow> nat option" where
  "get_u64 m k = Option.bind (get m k) as_u64"

definition get_f64 :: "json_map \<Rightarrow> string \<Rightarrow> rat option" where
  "get_f64 m k = Option.bind (get m k) as_f64"

definition get_array :: "json_map \<Rightarrow> string \<Rightarrow> json list option" where
  "get_array m k = Option.bind (get m k) as_array"

definition get_object :: "json_map \<Rightarrow> string \<Rightarrow> json_map option" where
  "get_object m k = Option.bind (get m k) as_object"

section \<open>Compiling a schema\<close>

datatype schema_error =
    TooLarge
  | TooDeep
  | RootNotObject
  | RootTypeNotObject
  | RootTypeMissing
  | NotAnObject ustring
  | UnsupportedKeyword ustring ustring
  | UnsupportedType ustring ustring
  | TypeNotString ustring
  | PropertiesNotObject ustring
  | RequiredNotArray ustring
  | RequiredNotString ustring
  | RequiredDuplicate ustring ustring
  | ItemsTuple ustring
  | EnumNotArray ustring
  | EnumEmpty ustring
  | AdditionalNotBoolOrSchema ustring
  | NotNonNegative ustring ustring
  | NotANumber ustring ustring
  | ItemsRangeEmpty ustring nat nat
  | LengthRangeEmpty ustring nat nat
  | NumberRangeEmpty ustring rat rat
  | RequiredUndeclared ustring ustring

definition schema_location :: "ustring \<Rightarrow> ustring" where
  "schema_location path =
     (if path = [] then lit ''output_schema root'' else lit ''output_schema '' @ path)"

text \<open>\<open>check_bounds\<close>: the children of a popped value are pushed in order, so the last is on top.\<close>

fun children :: "json \<Rightarrow> json list" where
  "children (JObj m) = map snd m"
| "children (JArr items) = items"
| "children _ = []"

lemma nodes_children: "nodes v = Suc (\<Sum>c \<leftarrow> children v. nodes c)"
  by (cases v) (simp_all add: comp_def)

lemma sum_list_rev_nat [simp]: "sum_list (rev xs) = (sum_list xs :: nat)"
  by (induction xs) auto

definition stack_nodes :: "(json \<times> 'p) list \<Rightarrow> nat" where
  "stack_nodes stack = (\<Sum>p \<leftarrow> stack. nodes (fst p))"

lemma stack_nodes_simps [simp]:
  "stack_nodes [] = 0" "stack_nodes (p # st) = nodes (fst p) + stack_nodes st"
  "stack_nodes (st @ st') = stack_nodes st + stack_nodes st'"
  "stack_nodes (rev st) = stack_nodes st"
  by (simp_all add: stack_nodes_def rev_map [symmetric])

lemma stack_nodes_children: "stack_nodes (map (\<lambda>c. (c, d)) (children v)) < nodes v"
  by (simp add: stack_nodes_def nodes_children [of v] comp_def)

function check_bounds_loop :: "(json \<times> nat) list \<Rightarrow> nat \<Rightarrow> schema_error + unit" where
  "check_bounds_loop [] n = Inr ()"
| "check_bounds_loop ((value, depth) # stack) n =
     (if n + 1 > MAX_SCHEMA_NODES then Inl TooLarge
      else if depth > MAX_SCHEMA_DEPTH then Inl TooDeep
      else check_bounds_loop (rev (map (\<lambda>c. (c, depth + 1)) (children value)) @ stack) (n + 1))"
  by pat_completeness auto
termination
  by (relation "measure (\<lambda>(stack, _). stack_nodes stack)") (auto simp: stack_nodes_children)

definition check_bounds :: "json \<Rightarrow> schema_error + unit" where
  "check_bounds v = check_bounds_loop [(v, 1)] 0"

text \<open>\<open>required\<close>: strings only, no duplicates.\<close>

fun check_required :: "ustring \<Rightarrow> json list \<Rightarrow> ustring list \<Rightarrow> schema_error + unit" where
  "check_required here [] seen = Inr ()"
| "check_required here (name # names) seen =
     (case as_str name of
        None \<Rightarrow> Inl (RequiredNotString here)
      | Some s \<Rightarrow> if s \<in> set seen then Inl (RequiredDuplicate here s)
                  else check_required here names (seen @ [s]))"

text \<open>\<open>check_keyword\<close>: the subschemas to push, in push order.\<close>

definition check_keyword ::
    "ustring \<Rightarrow> json \<Rightarrow> ustring \<Rightarrow> schema_error + (json \<times> ustring) list" where
  "check_keyword key entry path =
     (let here = schema_location path in
      if key = lit ''type'' then
        (case entry of
           JStr name \<Rightarrow> if name \<in> set SUPPORTED_TYPES then Inr [] else Inl (UnsupportedType here name)
         | _ \<Rightarrow> Inl (TypeNotString here))
      else if key = lit ''properties'' then
        (case as_object entry of
           None \<Rightarrow> Inl (PropertiesNotObject here)
         | Some props \<Rightarrow>
             Inr (map (\<lambda>(name, sub). (sub, path @ lit ''/properties/'' @ name)) props))
      else if key = lit ''required'' then
        (case as_array entry of
           None \<Rightarrow> Inl (RequiredNotArray here)
         | Some names \<Rightarrow> map_sum id (\<lambda>_. []) (check_required here names []))
      else if key = lit ''items'' then
        (if as_array entry \<noteq> None then Inl (ItemsTuple here) else Inr [(entry, path @ lit ''/items'')])
      else if key = lit ''enum'' then
        (case as_array entry of
           None \<Rightarrow> Inl (EnumNotArray here)
         | Some values \<Rightarrow> if values = [] then Inl (EnumEmpty here) else Inr [])
      else if key = lit ''const'' then Inr []
      else if key = lit ''additionalProperties'' then
        (case entry of
           JBool _ \<Rightarrow> Inr []
         | JObj _ \<Rightarrow> Inr [(entry, path @ lit ''/additionalProperties'')]
         | _ \<Rightarrow> Inl (AdditionalNotBoolOrSchema here))
      else if key \<in> {lit ''minItems'', lit ''maxItems'', lit ''minLength'', lit ''maxLength''} then
        (if as_u64 entry = None then Inl (NotNonNegative here key) else Inr [])
      else if key \<in> {lit ''minimum'', lit ''maximum''} then
        (if as_f64 entry = None then Inl (NotANumber here key) else Inr [])
      else Inl (UnsupportedKeyword here key))"

text \<open>\<open>if let (Some(low), Some(high))\<close> and \<open>low > high\<close>.\<close>

definition range_empty :: "'a::linorder option \<Rightarrow> 'a option \<Rightarrow> ('a \<times> 'a) option" where
  "range_empty low high =
     (case (low, high) of (Some l, Some h) \<Rightarrow> if l > h then Some (l, h) else None | _ \<Rightarrow> None)"

definition required_strings :: "json_map \<Rightarrow> ustring list" where
  "required_strings m =
     (case get_array m ''required'' of None \<Rightarrow> [] | Some names \<Rightarrow> List.map_filter as_str names)"

definition is_declared :: "json_map \<Rightarrow> ustring \<Rightarrow> bool" where
  "is_declared m name =
     (case get_object m ''properties'' of None \<Rightarrow> False | Some props \<Rightarrow> map_of props name \<noteq> None)"

definition check_cross_keyword :: "json_map \<Rightarrow> ustring \<Rightarrow> schema_error + unit" where
  "check_cross_keyword m path =
     (let here = schema_location path in
      case range_empty (get_u64 m ''minItems'') (get_u64 m ''maxItems'') of
        Some (l, h) \<Rightarrow> Inl (ItemsRangeEmpty here l h)
      | None \<Rightarrow>
      case range_empty (get_u64 m ''minLength'') (get_u64 m ''maxLength'') of
        Some (l, h) \<Rightarrow> Inl (LengthRangeEmpty here l h)
      | None \<Rightarrow>
      case range_empty (get_f64 m ''minimum'') (get_f64 m ''maximum'') of
        Some (l, h) \<Rightarrow> Inl (NumberRangeEmpty here l h)
      | None \<Rightarrow>
      if get m ''additionalProperties'' = Some (JBool False) then
        (case filter (\<lambda>name. \<not> is_declared m name) (required_strings m) of
           [] \<Rightarrow> Inr ()
         | name # _ \<Rightarrow> Inl (RequiredUndeclared here name))
      else Inr ())"

fun check_entries :: "ustring \<Rightarrow> json_map \<Rightarrow> schema_error + (json \<times> ustring) list" where
  "check_entries path [] = Inr []"
| "check_entries path ((key, entry) # es) =
     (if key \<in> set ANNOTATION_KEYWORDS then check_entries path es
      else if key \<notin> set SUPPORTED_KEYWORDS then Inl (UnsupportedKeyword (schema_location path) key)
      else case check_keyword key entry path of
             Inl err \<Rightarrow> Inl err
           | Inr pushed \<Rightarrow> map_sum id (\<lambda>rest. pushed @ rest) (check_entries path es))"

lemma check_keyword_nodes: "check_keyword key entry path = Inr ps \<Longrightarrow> stack_nodes ps \<le> nodes entry"
proof -
  have "stack_nodes (map (\<lambda>(name, sub). (sub, path @ lit ''/properties/'' @ name)) props) \<le> nodes (JObj props)"
    for props
    by (simp add: stack_nodes_def comp_def case_prod_beta)
  then show "check_keyword key entry path = Inr ps \<Longrightarrow> stack_nodes ps \<le> nodes entry"
    by (auto simp: check_keyword_def Let_def map_sum_def
             split: if_splits json.splits option.splits sum.splits elim!: as_object.elims)
qed

lemma check_entries_nodes:
  "check_entries path es = Inr ps \<Longrightarrow> stack_nodes ps \<le> (\<Sum>p \<leftarrow> es. nodes (snd p))"
proof (induction path es arbitrary: ps rule: check_entries.induct)
  case (2 path key entry es)
  then show ?case
    by (fastforce simp: map_sum_def split: if_splits sum.splits dest: check_keyword_nodes)
qed simp

function check_shape_loop :: "(json \<times> ustring) list \<Rightarrow> schema_error + unit" where
  "check_shape_loop [] = Inr ()"
| "check_shape_loop ((value, path) # stack) =
     (case as_object value of
        None \<Rightarrow> Inl (NotAnObject (schema_location path))
      | Some m \<Rightarrow>
          (case check_entries path m of
             Inl err \<Rightarrow> Inl err
           | Inr pushed \<Rightarrow>
               (case check_cross_keyword m path of
                  Inl err \<Rightarrow> Inl err
                | Inr _ \<Rightarrow> check_shape_loop (rev pushed @ stack))))"
  by pat_completeness auto
termination
proof (relation "measure stack_nodes")
  fix v path stack m pushed u
  assume "as_object v = Some m" and "check_entries path m = Inr pushed"
  then show "(rev pushed @ stack, (v, path) # stack) \<in> measure stack_nodes"
    using check_entries_nodes [of path m pushed] by (cases v) simp_all
qed simp

definition check_schema_shape :: "json \<Rightarrow> schema_error + unit" where
  "check_schema_shape v = check_shape_loop [(v, [])]"

text \<open>A compiled schema is the document it was made of.\<close>

definition compile :: "json \<Rightarrow> schema_error + json" where
  "compile schema =
     (case check_bounds schema of
        Inl err \<Rightarrow> Inl err
      | Inr _ \<Rightarrow>
      case as_object schema of
        None \<Rightarrow> Inl RootNotObject
      | Some m \<Rightarrow>
      case get m ''type'' of
        None \<Rightarrow> Inl RootTypeMissing
      | Some t \<Rightarrow>
      if t \<noteq> JStr (lit ''object'') then Inl RootTypeNotObject
      else case check_schema_shape schema of
             Inl err \<Rightarrow> Inl err
           | Inr _ \<Rightarrow> Inr schema)"


section \<open>Validating an instance\<close>

datatype instance_error =
    TypeMismatch ustring ustring ustring
  | NotInEnum ustring
  | NotConst ustring
  | MissingField ustring ustring
  | UndeclaredField ustring ustring
  | TooFewItems ustring nat nat
  | TooManyItems ustring nat nat
  | TooShort ustring nat nat
  | TooLong ustring nat nat
  | BelowMinimum ustring rat rat
  | AboveMaximum ustring rat rat
  | TooManyErrors

definition instance_location :: "ustring \<Rightarrow> ustring" where
  "instance_location path = (if path = [] then lit ''output root'' else path)"

fun type_name :: "json \<Rightarrow> ustring" where
  "type_name (JObj _) = lit ''object''"
| "type_name (JArr _) = lit ''array''"
| "type_name (JStr _) = lit ''string''"
| "type_name (JBool _) = lit ''boolean''"
| "type_name JNull = lit ''null''"
| "type_name (JNum _) = lit ''number''"

fun is_integer :: "json \<Rightarrow> bool" where
  "is_integer (JNum (Float x)) = (x = of_int (floor x))"
| "is_integer (JNum _) = True"
| "is_integer _ = False"

definition type_matches :: "ustring \<Rightarrow> json \<Rightarrow> bool" where
  "type_matches expected v =
     (if expected = lit ''object'' then as_object v \<noteq> None
      else if expected = lit ''array'' then as_array v \<noteq> None
      else if expected = lit ''string'' then as_str v \<noteq> None
      else if expected = lit ''boolean'' then (case v of JBool _ \<Rightarrow> True | _ \<Rightarrow> False)
      else if expected = lit ''null'' then v = JNull
      else if expected = lit ''number'' then as_f64 v \<noteq> None
      else if expected = lit ''integer'' then is_integer v
      else False)"

function (sequential) json_equal :: "json \<Rightarrow> json \<Rightarrow> bool" where
  "json_equal (JNum a) (JNum b) = (number_f64 a = number_f64 b)"
| "json_equal (JArr xs) (JArr ys) =
     (length xs = length ys \<and> (\<forall>p \<in> set (zip xs ys). json_equal (fst p) (snd p)))"
| "json_equal (JObj m) (JObj m') =
     (length m = length m' \<and>
      (\<forall>p \<in> set m. case map_of m' (fst p) of None \<Rightarrow> False | Some r \<Rightarrow> json_equal (snd p) r))"
| "json_equal v w = (v = w)"
  by pat_completeness auto
termination
proof (relation "measure (\<lambda>(v, _). nodes v)")
  fix xs ys :: "json list" and p
  assume "p \<in> set (zip xs ys)"
  then have "fst p \<in> set xs" by (metis in_set_zipE prod.collapse)
  then show "((fst p, snd p), JArr xs, JArr ys) \<in> measure (\<lambda>(v, _). nodes v)"
    using nodes_item by (simp add: case_prod_beta del: nodes.simps)
qed (use nodes_entry in auto)

text \<open>What a node pushes: a subschema, the child it applies to and the child's path.\<close>

type_synonym queue_item = "json \<times> json \<times> ustring"

definition child_schema :: "json_map \<Rightarrow> ustring \<Rightarrow> json option" where
  "child_schema m name =
     (case Option.bind (get_object m ''properties'') (\<lambda>props. map_of props name) of
        Some sub \<Rightarrow> Some sub
      | None \<Rightarrow> (case get m ''additionalProperties'' of
                   Some (JObj o') \<Rightarrow> Some (JObj o')
                 | _ \<Rightarrow> None))"

definition undeclared :: "json_map \<Rightarrow> ustring \<Rightarrow> bool" where
  "undeclared m name \<longleftrightarrow>
     Option.bind (get_object m ''properties'') (\<lambda>props. map_of props name) = None
     \<and> get m ''additionalProperties'' = Some (JBool False)"

fun validate_fields ::
    "json_map \<Rightarrow> ustring \<Rightarrow> json_map \<Rightarrow> instance_error list \<times> queue_item list" where
  "validate_fields m path [] = ([], [])"
| "validate_fields m path ((name, child) # rest) =
     (let (errs, qs) = validate_fields m path rest in
      ((if undeclared m name then [UndeclaredField (instance_location path) name] else []) @ errs,
       (case child_schema m name of Some sub \<Rightarrow> [(sub, child, path @ lit ''/'' @ name)] | None \<Rightarrow> []) @ qs))"

definition below :: "'a::linorder \<Rightarrow> 'a option \<Rightarrow> 'a option" where
  "below x bound = (case bound of Some b \<Rightarrow> if x < b then Some b else None | None \<Rightarrow> None)"

definition above :: "'a::linorder \<Rightarrow> 'a option \<Rightarrow> 'a option" where
  "above x bound = (case bound of Some b \<Rightarrow> if x > b then Some b else None | None \<Rightarrow> None)"

definition option_list :: "'a option \<Rightarrow> ('a \<Rightarrow> 'b) \<Rightarrow> 'b list" where
  "option_list x f = (case x of None \<Rightarrow> [] | Some a \<Rightarrow> [f a])"

fun validate_value :: "json_map \<Rightarrow> json \<Rightarrow> ustring \<Rightarrow> instance_error list \<times> queue_item list" where
  "validate_value m (JObj inst) path =
     (let (errs, qs) = validate_fields m path inst in
      (map (MissingField (instance_location path))
           (filter (\<lambda>name. map_of inst name = None) (required_strings m)) @ errs, qs))"
| "validate_value m (JArr items) path =
     (option_list (below (length items) (get_u64 m ''minItems''))
        (\<lambda>b. TooFewItems (instance_location path) b (length items))
      @ option_list (above (length items) (get_u64 m ''maxItems''))
        (\<lambda>b. TooManyItems (instance_location path) b (length items)),
      case get m ''items'' of
        None \<Rightarrow> []
      | Some sub \<Rightarrow> map (\<lambda>(i, child). (sub, child, path @ lit ''/'' @ decimal i)) (enumerate 0 items))"
| "validate_value m (JStr s) path =
     (option_list (below (length s) (get_u64 m ''minLength''))
        (\<lambda>b. TooShort (instance_location path) b (length s))
      @ option_list (above (length s) (get_u64 m ''maxLength''))
        (\<lambda>b. TooLong (instance_location path) b (length s)), [])"
| "validate_value m (JNum n) path =
     (option_list (below (number_f64 n) (get_f64 m ''minimum''))
        (\<lambda>b. BelowMinimum (instance_location path) b (number_f64 n))
      @ option_list (above (number_f64 n) (get_f64 m ''maximum''))
        (\<lambda>b. AboveMaximum (instance_location path) b (number_f64 n)), [])"
| "validate_value m _ path = ([], [])"

definition type_error :: "json_map \<Rightarrow> json \<Rightarrow> ustring option" where
  "type_error m v =
     (case get m ''type'' of
        Some (JStr expected) \<Rightarrow> if type_matches expected v then None else Some expected
      | _ \<Rightarrow> None)"

definition enum_ok :: "json_map \<Rightarrow> json \<Rightarrow> bool" where
  "enum_ok m v =
     (case get_array m ''enum'' of
        None \<Rightarrow> True
      | Some allowed \<Rightarrow> list_ex (\<lambda>candidate. json_equal candidate v) allowed)"

definition const_ok :: "json_map \<Rightarrow> json \<Rightarrow> bool" where
  "const_ok m v = (case get m ''const'' of None \<Rightarrow> True | Some expected \<Rightarrow> json_equal expected v)"

definition validate_node ::
    "json_map \<Rightarrow> json \<Rightarrow> ustring \<Rightarrow> instance_error list \<times> queue_item list" where
  "validate_node m v path =
     (let here = instance_location path in
      case type_error m v of
        Some expected \<Rightarrow> ([TypeMismatch here expected (type_name v)], [])
      | None \<Rightarrow>
          (let (errs, qs) = validate_value m v path in
           ((if enum_ok m v then [] else [NotInEnum here])
            @ (if const_ok m v then [] else [NotConst here]) @ errs, qs)))"

definition queue_nodes :: "queue_item list \<Rightarrow> nat" where
  "queue_nodes q = (\<Sum>p \<leftarrow> q. nodes (fst (snd p)))"

lemma queue_nodes_simps [simp]:
  "queue_nodes [] = 0" "queue_nodes (p # q) = nodes (fst (snd p)) + queue_nodes q"
  "queue_nodes (q @ q') = queue_nodes q + queue_nodes q'"
  by (simp_all add: queue_nodes_def)

lemma validate_fields_nodes:
  "queue_nodes (snd (validate_fields m path inst)) \<le> (\<Sum>p \<leftarrow> inst. nodes (snd p))"
  by (induction m path inst rule: validate_fields.induct) (auto split: prod.splits option.splits)

lemma map_enumerate_snd: "map (\<lambda>x. f (snd x)) (enumerate n xs) = map f xs"
  by (induction xs arbitrary: n) simp_all

lemma validate_value_nodes: "queue_nodes (snd (validate_value m v path)) < nodes v"
proof (cases "(m, v, path)" rule: validate_value.cases)
  case (1 m' inst path')
  then show ?thesis
    using validate_fields_nodes [of m path inst] by (simp add: case_prod_beta Let_def)
next
  case (2 m' items path')
  have "queue_nodes (map (\<lambda>(i, child). (sub, child, path @ lit ''/'' @ decimal i)) (enumerate 0 items))
      = (\<Sum>v \<leftarrow> items. nodes v)" for sub
    by (simp add: queue_nodes_def comp_def case_prod_beta map_enumerate_snd)
  with 2 show ?thesis by (simp split: option.splits)
qed simp_all

lemma validate_node_nodes: "queue_nodes (snd (validate_node m v path)) < nodes v"
  using validate_value_nodes [of m v path]
  by (simp add: validate_node_def Let_def case_prod_beta split: option.splits)

text \<open>The breadth-first loop: the errors collected, and whether the cap ended it.\<close>

function validate_loop :: "queue_item list \<Rightarrow> instance_error list \<Rightarrow> instance_error list \<times> bool" where
  "validate_loop [] errors = (errors, False)"
| "validate_loop ((schema, v, path) # queue) errors =
     (case as_object schema of
        None \<Rightarrow> validate_loop queue errors
      | Some m \<Rightarrow>
          (let errors' = errors @ fst (validate_node m v path) in
           if length errors' \<ge> MAX_VALIDATION_ERRORS then (errors', True)
           else validate_loop (queue @ snd (validate_node m v path)) errors'))"
  by pat_completeness auto
termination
  by (relation "measure (\<lambda>(queue, _). queue_nodes queue)") (auto simp: validate_node_nodes)

definition validate :: "json \<Rightarrow> json \<Rightarrow> instance_error list + unit" where
  "validate schema inst =
     (let (errors, truncated) = validate_loop [(schema, inst, [])] [];
          errors = (if truncated then take MAX_VALIDATION_ERRORS errors @ [TooManyErrors] else errors)
      in if errors = [] then Inr () else Inl errors)"


section \<open>What compilation accepts\<close>

fun json_depth :: "json \<Rightarrow> nat" where
  "json_depth (JArr xs) = Suc (foldr max (map json_depth xs) 0)"
| "json_depth (JObj m) = Suc (foldr max (map (json_depth \<circ> snd) m) 0)"
| "json_depth _ = 1"

lemma json_depth_children: "json_depth v = Suc (foldr max (map json_depth (children v)) 0)"
  by (cases v) (simp_all add: comp_def)

lemma foldr_max_le: "foldr max xs 0 \<le> (n::nat) \<longleftrightarrow> (\<forall>x \<in> set xs. x \<le> n)"
  by (induction xs) auto

lemma check_bounds_loop_ok:
  "check_bounds_loop stack n = Inr () \<longleftrightarrow>
     stack = [] \<or>
     n + stack_nodes stack \<le> MAX_SCHEMA_NODES
     \<and> (\<forall>(v, d) \<in> set stack. d + json_depth v \<le> Suc MAX_SCHEMA_DEPTH)"
proof (induction stack n rule: check_bounds_loop.induct)
  case (2 v d stack n)
  let ?kids = "map (\<lambda>c. (c, d + 1)) (children v)"
  have kids: "stack_nodes ?kids + 1 = nodes v"
    by (simp add: stack_nodes_def nodes_children [of v] comp_def)
  have depth: "(d + json_depth v \<le> Suc MAX_SCHEMA_DEPTH) \<longleftrightarrow>
      d \<le> MAX_SCHEMA_DEPTH \<and> (\<forall>c \<in> set (children v). d + 1 + json_depth c \<le> Suc MAX_SCHEMA_DEPTH)"
  proof -
    have "d + json_depth v \<le> Suc MAX_SCHEMA_DEPTH \<longleftrightarrow>
        d \<le> MAX_SCHEMA_DEPTH \<and> foldr max (map json_depth (children v)) 0 \<le> MAX_SCHEMA_DEPTH - d"
      by (subst json_depth_children) linarith
    then show ?thesis by (auto simp: foldr_max_le le_diff_conv2 add.commute)
  qed
  show ?case
  proof (cases "n + 1 > MAX_SCHEMA_NODES \<or> d > MAX_SCHEMA_DEPTH")
    case True
    moreover have "1 \<le> nodes v" by (simp add: Suc_le_eq)
    ultimately show ?thesis using depth by auto
  next
    case False
    have empty: "rev ?kids @ stack = [] \<Longrightarrow> nodes v = 1" using kids by simp
    have "check_bounds_loop ((v, d) # stack) n = Inr () \<longleftrightarrow>
        rev ?kids @ stack = [] \<or>
        n + 1 + stack_nodes (rev ?kids @ stack) \<le> MAX_SCHEMA_NODES
        \<and> (\<forall>(v, d) \<in> set (rev ?kids @ stack). d + json_depth v \<le> Suc MAX_SCHEMA_DEPTH)"
      using 2 False by simp
    also have "\<dots> \<longleftrightarrow> n + stack_nodes ((v, d) # stack) \<le> MAX_SCHEMA_NODES
        \<and> (\<forall>(v, d) \<in> set ((v, d) # stack). d + json_depth v \<le> Suc MAX_SCHEMA_DEPTH)"
    proof -
      have "(\<forall>(v, d) \<in> set (rev ?kids @ stack). d + json_depth v \<le> Suc MAX_SCHEMA_DEPTH) \<longleftrightarrow>
          (\<forall>c \<in> set (children v). d + 1 + json_depth c \<le> Suc MAX_SCHEMA_DEPTH)
          \<and> (\<forall>(v, d) \<in> set stack. d + json_depth v \<le> Suc MAX_SCHEMA_DEPTH)"
        by (simp add: ball_Un)
      moreover have "n + 1 + stack_nodes (rev ?kids @ stack) = n + stack_nodes ((v, d) # stack)"
        using kids by simp
      ultimately show ?thesis using depth empty False by (auto simp: Suc_le_eq)
    qed
    finally show ?thesis by simp
  qed
qed simp

lemma check_bounds_ok:
  "check_bounds v = Inr () \<longleftrightarrow> nodes v \<le> MAX_SCHEMA_NODES \<and> json_depth v \<le> MAX_SCHEMA_DEPTH"
  using check_bounds_loop_ok [of "[(v, 1)]" 0] by (simp add: check_bounds_def del: check_bounds_loop.simps)

text \<open>The value a keyword may have, and the subschemas it holds.\<close>

definition keyword_ok :: "ustring \<Rightarrow> json \<Rightarrow> bool" where
  "keyword_ok key entry \<longleftrightarrow>
     key \<in> set SUPPORTED_KEYWORDS
     \<and> (key = lit ''type'' \<longrightarrow> (\<exists>name \<in> set SUPPORTED_TYPES. entry = JStr name))
     \<and> (key = lit ''properties'' \<longrightarrow> as_object entry \<noteq> None)
     \<and> (key = lit ''required'' \<longrightarrow> (\<exists>names. entry = JArr (map JStr names) \<and> distinct names))
     \<and> (key = lit ''items'' \<longrightarrow> as_array entry = None)
     \<and> (key = lit ''enum'' \<longrightarrow> (\<exists>vs. entry = JArr vs \<and> vs \<noteq> []))
     \<and> (key = lit ''additionalProperties'' \<longrightarrow> (\<exists>b. entry = JBool b) \<or> as_object entry \<noteq> None)
     \<and> (key \<in> lit ` {''minItems'', ''maxItems'', ''minLength'', ''maxLength''} \<longrightarrow> as_u64 entry \<noteq> None)
     \<and> (key \<in> lit ` {''minimum'', ''maximum''} \<longrightarrow> as_f64 entry \<noteq> None)"

definition keyword_subschemas :: "ustring \<Rightarrow> json \<Rightarrow> json list" where
  "keyword_subschemas key entry =
     (if key = lit ''properties'' then (case as_object entry of None \<Rightarrow> [] | Some props \<Rightarrow> map snd props)
      else if key = lit ''items'' then [entry]
      else if key = lit ''additionalProperties'' \<and> as_object entry \<noteq> None then [entry]
      else [])"


lemma check_required_ok:
  "check_required here names seen = Inr () \<longleftrightarrow>
     (\<exists>ss. names = map JStr ss \<and> distinct ss \<and> set ss \<inter> set seen = {})"
proof (induction here names seen rule: check_required.induct)
  case (2 here name names seen)
  show ?case
  proof (cases "as_str name")
    case None
    then show ?thesis by auto
  next
    case (Some s)
    then have name: "name = JStr s" by (cases name) simp_all
    have "(\<exists>ss. name # names = map JStr ss \<and> distinct ss \<and> set ss \<inter> set seen = {}) \<longleftrightarrow>
        s \<notin> set seen \<and> (\<exists>ss. names = map JStr ss \<and> distinct ss \<and> set ss \<inter> set (seen @ [s]) = {})"
      (is "?L \<longleftrightarrow> ?R")
    proof
      assume ?L
      then obtain t ss where "name # names = map JStr (t # ss)" "distinct (t # ss)"
        "set (t # ss) \<inter> set seen = {}" by (metis list.simps(9) neq_Nil_conv list.distinct(1) map_is_Nil_conv)
      with name show ?R by auto
    next
      assume ?R
      then obtain ss where "names = map JStr ss" "distinct ss" "set ss \<inter> set (seen @ [s]) = {}" "s \<notin> set seen"
        by blast
      with name show ?L by (intro exI [of _ "s # ss"]) auto
    qed
    with 2 Some show ?thesis by simp
  qed
qed simp

lemma supported_keyword_cases:
  assumes "key \<in> set SUPPORTED_KEYWORDS"
  obtains "key = lit ''type''" | "key = lit ''properties''" | "key = lit ''required''"
    | "key = lit ''items''" | "key = lit ''enum''" | "key = lit ''const''"
    | "key = lit ''additionalProperties''"
    | "key \<in> lit ` {''minItems'', ''maxItems'', ''minLength'', ''maxLength''}"
    | "key \<in> lit ` {''minimum'', ''maximum''}"
  using assms that unfolding SUPPORTED_KEYWORDS_def by simp blast

text \<open>\<open>check_keyword\<close> accepts exactly the good values, and pushes the subschemas.\<close>

lemma supported_keywords [simp]:
  "lit ''type'' \<in> set SUPPORTED_KEYWORDS" "lit ''properties'' \<in> set SUPPORTED_KEYWORDS"
  "lit ''required'' \<in> set SUPPORTED_KEYWORDS" "lit ''items'' \<in> set SUPPORTED_KEYWORDS"
  "lit ''enum'' \<in> set SUPPORTED_KEYWORDS" "lit ''const'' \<in> set SUPPORTED_KEYWORDS"
  "lit ''additionalProperties'' \<in> set SUPPORTED_KEYWORDS"
  "lit ''minItems'' \<in> set SUPPORTED_KEYWORDS" "lit ''maxItems'' \<in> set SUPPORTED_KEYWORDS"
  "lit ''minLength'' \<in> set SUPPORTED_KEYWORDS" "lit ''maxLength'' \<in> set SUPPORTED_KEYWORDS"
  "lit ''minimum'' \<in> set SUPPORTED_KEYWORDS" "lit ''maximum'' \<in> set SUPPORTED_KEYWORDS"
  by (simp_all add: SUPPORTED_KEYWORDS_def)

definition accepted :: "'e + 'a \<Rightarrow> bool" where
  "accepted x \<longleftrightarrow> (case x of Inl _ \<Rightarrow> False | Inr _ \<Rightarrow> True)"

lemma accepted_simps [simp]:
  "\<not> accepted (Inl e)" "accepted (Inr a)" "accepted (map_sum id f x) = accepted x"
  "accepted (case x of Inl e \<Rightarrow> Inl e | Inr a \<Rightarrow> g a) \<longleftrightarrow> accepted x \<and> accepted (g (projr x))"
  by (cases x; simp add: accepted_def)+

lemma accepted_unit: "accepted (x :: 'e + unit) \<longleftrightarrow> x = Inr ()"
  by (cases x) simp_all

lemma check_required_accepted:
  "accepted (check_required here names []) \<longleftrightarrow> (\<exists>ss. JArr names = JArr (map JStr ss) \<and> distinct ss)"
  by (simp add: accepted_unit check_required_ok)

lemma as_object_iff: "as_object v = Some m \<longleftrightarrow> v = JObj m" "as_object v \<noteq> None \<longleftrightarrow> (\<exists>m. v = JObj m)"
  by (cases v; simp)+

lemma as_array_iff: "as_array v = Some m \<longleftrightarrow> v = JArr m" "as_array v \<noteq> None \<longleftrightarrow> (\<exists>m. v = JArr m)"
  by (cases v; simp)+

text \<open>What each keyword checks, one equation per keyword.\<close>

lemma check_keyword_cases:
  "check_keyword (lit ''type'') entry path =
     (case entry of
        JStr name \<Rightarrow> if name \<in> set SUPPORTED_TYPES then Inr []
                     else Inl (UnsupportedType (schema_location path) name)
      | _ \<Rightarrow> Inl (TypeNotString (schema_location path)))"
  "check_keyword (lit ''properties'') entry path =
     (case as_object entry of
        None \<Rightarrow> Inl (PropertiesNotObject (schema_location path))
      | Some props \<Rightarrow> Inr (map (\<lambda>(name, sub). (sub, path @ lit ''/properties/'' @ name)) props))"
  "check_keyword (lit ''required'') entry path =
     (case as_array entry of
        None \<Rightarrow> Inl (RequiredNotArray (schema_location path))
      | Some names \<Rightarrow> map_sum id (\<lambda>_. []) (check_required (schema_location path) names []))"
  "check_keyword (lit ''items'') entry path =
     (if as_array entry \<noteq> None then Inl (ItemsTuple (schema_location path))
      else Inr [(entry, path @ lit ''/items'')])"
  "check_keyword (lit ''enum'') entry path =
     (case as_array entry of
        None \<Rightarrow> Inl (EnumNotArray (schema_location path))
      | Some vs \<Rightarrow> if vs = [] then Inl (EnumEmpty (schema_location path)) else Inr [])"
  "check_keyword (lit ''const'') entry path = Inr []"
  "check_keyword (lit ''additionalProperties'') entry path =
     (case entry of
        JBool _ \<Rightarrow> Inr []
      | JObj _ \<Rightarrow> Inr [(entry, path @ lit ''/additionalProperties'')]
      | _ \<Rightarrow> Inl (AdditionalNotBoolOrSchema (schema_location path)))"
  "key \<in> lit ` {''minItems'', ''maxItems'', ''minLength'', ''maxLength''} \<Longrightarrow>
     check_keyword key entry path =
       (if as_u64 entry = None then Inl (NotNonNegative (schema_location path) key) else Inr [])"
  "key \<in> lit ` {''minimum'', ''maximum''} \<Longrightarrow>
     check_keyword key entry path =
       (if as_f64 entry = None then Inl (NotANumber (schema_location path) key) else Inr [])"
  by (auto simp: check_keyword_def Let_def)

lemma keyword_ok_cases:
  "keyword_ok (lit ''type'') entry \<longleftrightarrow> (\<exists>name \<in> set SUPPORTED_TYPES. entry = JStr name)"
  "keyword_ok (lit ''properties'') entry \<longleftrightarrow> as_object entry \<noteq> None"
  "keyword_ok (lit ''required'') entry \<longleftrightarrow> (\<exists>names. entry = JArr (map JStr names) \<and> distinct names)"
  "keyword_ok (lit ''items'') entry \<longleftrightarrow> as_array entry = None"
  "keyword_ok (lit ''enum'') entry \<longleftrightarrow> (\<exists>vs. entry = JArr vs \<and> vs \<noteq> [])"
  "keyword_ok (lit ''const'') entry"
  "keyword_ok (lit ''additionalProperties'') entry \<longleftrightarrow> (\<exists>b. entry = JBool b) \<or> as_object entry \<noteq> None"
  "key \<in> lit ` {''minItems'', ''maxItems'', ''minLength'', ''maxLength''} \<Longrightarrow>
     keyword_ok key entry \<longleftrightarrow> as_u64 entry \<noteq> None"
  "key \<in> lit ` {''minimum'', ''maximum''} \<Longrightarrow> keyword_ok key entry \<longleftrightarrow> as_f64 entry \<noteq> None"
  by (simp_all add: keyword_ok_def) (elim disjE; simp)+

lemma keyword_subschemas_cases:
  "keyword_subschemas (lit ''type'') entry = []"
  "keyword_subschemas (lit ''properties'') entry =
     (case as_object entry of None \<Rightarrow> [] | Some props \<Rightarrow> map snd props)"
  "keyword_subschemas (lit ''required'') entry = []"
  "keyword_subschemas (lit ''items'') entry = [entry]"
  "keyword_subschemas (lit ''enum'') entry = []"
  "keyword_subschemas (lit ''const'') entry = []"
  "keyword_subschemas (lit ''additionalProperties'') entry = (if as_object entry \<noteq> None then [entry] else [])"
  "key \<in> lit ` {''minItems'', ''maxItems'', ''minLength'', ''maxLength''} \<Longrightarrow> keyword_subschemas key entry = []"
  "key \<in> lit ` {''minimum'', ''maximum''} \<Longrightarrow> keyword_subschemas key entry = []"
  by (auto simp: keyword_subschemas_def)

lemmas keyword_cases = check_keyword_cases keyword_ok_cases keyword_subschemas_cases

lemma check_keyword_ok:
  assumes "key \<in> set SUPPORTED_KEYWORDS"
  shows "accepted (check_keyword key entry path) \<longleftrightarrow> keyword_ok key entry"
  using assms
  by (cases rule: supported_keyword_cases; cases entry)
     (simp_all add: check_keyword_cases keyword_ok_cases check_required_accepted)

lemma check_keyword_subschemas:
  assumes "check_keyword key entry path = Inr ps" and "key \<in> set SUPPORTED_KEYWORDS"
  shows "map fst ps = keyword_subschemas key entry"
  using assms(2,1)
  by (cases rule: supported_keyword_cases)
     (auto simp: keyword_cases map_sum_def comp_def case_prod_beta
        split: json.splits option.splits sum.splits if_splits)


definition entries_ok :: "json_map \<Rightarrow> bool" where
  "entries_ok m \<longleftrightarrow> (\<forall>(key, entry) \<in> set m. key \<in> set ANNOTATION_KEYWORDS \<or> keyword_ok key entry)"

definition subschemas :: "json_map \<Rightarrow> json list" where
  "subschemas m =
     concat (map (\<lambda>(key, entry). if key \<in> set ANNOTATION_KEYWORDS then []
                                 else keyword_subschemas key entry) m)"

lemma keyword_ok_supported: "keyword_ok key entry \<Longrightarrow> key \<in> set SUPPORTED_KEYWORDS"
  by (simp add: keyword_ok_def)

lemma check_entries_ok: "accepted (check_entries path es) \<longleftrightarrow> entries_ok es"
proof (induction path es rule: check_entries.induct)
  case (2 path key entry es)
  then show ?case
    using check_keyword_ok [of key entry path]
    by (cases "check_keyword key entry path") (auto simp: entries_ok_def dest: keyword_ok_supported)
qed (simp add: entries_ok_def)

lemma check_entries_subschemas: "check_entries path es = Inr ps \<Longrightarrow> map fst ps = subschemas es"
proof (induction path es arbitrary: ps rule: check_entries.induct)
  case (2 path key entry es)
  then show ?case
    by (auto simp: subschemas_def check_keyword_subschemas map_sum_def split: if_splits sum.splits)
qed (simp add: subschemas_def)

text \<open>Bounds that leave something between them, and required names that can be present.\<close>

definition cross_ok :: "json_map \<Rightarrow> bool" where
  "cross_ok m \<longleftrightarrow>
     range_empty (get_u64 m ''minItems'') (get_u64 m ''maxItems'') = None
     \<and> range_empty (get_u64 m ''minLength'') (get_u64 m ''maxLength'') = None
     \<and> range_empty (get_f64 m ''minimum'') (get_f64 m ''maximum'') = None
     \<and> (get m ''additionalProperties'' = Some (JBool False) \<longrightarrow>
          (\<forall>name \<in> set (required_strings m). is_declared m name))"

lemma check_cross_ok: "accepted (check_cross_keyword m path) \<longleftrightarrow> cross_ok m"
  unfolding check_cross_keyword_def cross_ok_def Let_def
  by (simp add: filter_empty_conv split: option.splits list.splits)
     (metis (mono_tags) filter_empty_conv list.distinct(1))

lemma keyword_subschemas_nodes: "sub \<in> set (keyword_subschemas key entry) \<Longrightarrow> nodes sub \<le> nodes entry"
  by (cases entry)
     (auto simp: keyword_subschemas_def less_Suc_eq_le split: if_splits dest!: nodes_entry)

lemma subschemas_nodes: "sub \<in> set (subschemas m) \<Longrightarrow> nodes sub < nodes (JObj m)"
proof -
  assume "sub \<in> set (subschemas m)"
  then obtain key entry where e: "(key, entry) \<in> set m" "sub \<in> set (keyword_subschemas key entry)"
    by (auto simp: subschemas_def split: if_splits)
  with nodes_entry [OF e(1)] keyword_subschemas_nodes [OF e(2)] show ?thesis by simp
qed

function schema_ok :: "json \<Rightarrow> bool" where
  "schema_ok v =
     (case as_object v of
        None \<Rightarrow> False
      | Some m \<Rightarrow> entries_ok m \<and> cross_ok m \<and> (\<forall>sub \<in> set (subschemas m). schema_ok sub))"
  by pat_completeness auto
termination
  by (relation "measure nodes") (auto simp: as_object_iff simp del: nodes.simps intro: subschemas_nodes)

declare schema_ok.simps [simp del]

lemma check_shape_loop_ok: "accepted (check_shape_loop stack) \<longleftrightarrow> (\<forall>(v, path) \<in> set stack. schema_ok v)"
proof (induction stack rule: check_shape_loop.induct)
  case (2 v path stack)
  show ?case
  proof (cases "as_object v")
    case None
    then show ?thesis by (simp add: schema_ok.simps [of v])
  next
    case (Some m)
    show ?thesis
    proof (cases "check_entries path m")
      case (Inl err)
      then have "\<not> entries_ok m" using check_entries_ok [of path m] by simp
      with Some Inl show ?thesis by (simp add: schema_ok.simps [of v])
    next
      case (Inr ps)
      then have ok: "entries_ok m" and subs: "map fst ps = subschemas m"
        using check_entries_ok [of path m] check_entries_subschemas by simp_all
      have kids: "(\<forall>(v, path) \<in> set ps. schema_ok v) \<longleftrightarrow> (\<forall>sub \<in> set (subschemas m). schema_ok sub)"
        unfolding subs [symmetric] by auto
      show ?thesis
      proof (cases "check_cross_keyword m path")
        case (Inl err)
        then have "\<not> cross_ok m" using check_cross_ok [of m path] by simp
        with Some Inr Inl show ?thesis by (simp add: schema_ok.simps [of v])
      next
        case Cross: (Inr u)
        then have "cross_ok m" using check_cross_ok [of m path] by simp
        with 2 [OF Some Inr Cross] Some Inr Cross ok kids show ?thesis
          by (simp add: schema_ok.simps [of v] ball_Un)
      qed
    qed
  qed
qed simp

lemma compile_ok:
  "compile s = Inr s' \<longleftrightarrow>
     s' = s \<and> nodes s \<le> MAX_SCHEMA_NODES \<and> json_depth s \<le> MAX_SCHEMA_DEPTH
     \<and> (\<exists>m. s = JObj m \<and> get m ''type'' = Some (JStr (lit ''object'')))
     \<and> schema_ok s"
proof -
  have shape: "check_schema_shape s = Inr () \<longleftrightarrow> schema_ok s"
    using check_shape_loop_ok [of "[(s, [])]"] by (simp add: check_schema_shape_def accepted_unit del: check_shape_loop.simps)
  have "accepted (compile s) \<longleftrightarrow> check_bounds s = Inr ()
      \<and> (\<exists>m. s = JObj m \<and> get m ''type'' = Some (JStr (lit ''object'')))
      \<and> check_schema_shape s = Inr ()"
    by (cases s) (auto simp: compile_def accepted_unit [symmetric] split: option.splits sum.splits)
  moreover have "compile s = Inr s' \<longleftrightarrow> accepted (compile s) \<and> s' = s"
    by (auto simp: compile_def accepted_def split: sum.splits option.splits if_splits)
  ultimately show ?thesis
    using check_bounds_ok [of s] shape by auto
qed

text \<open>
  A schema compiles, unchanged, exactly when it has at most 100000 nodes and 10000
  levels, its root declares type object, every subschema at any depth is an object whose keywords
  are all known and carry values of the right shape, no pair of bounds excludes everything, and no
  name is required that the properties cannot hold.
\<close>

theorem compile_accepts_exactly:
  "compile s = Inr s' \<longleftrightarrow>
     s' = s \<and> nodes s \<le> 100000 \<and> json_depth s \<le> 10000
     \<and> (\<exists>m. s = JObj m \<and> get m ''type'' = Some (JStr (lit ''object'')))
     \<and> schema_ok s"
  by (simp add: compile_ok MAX_SCHEMA_NODES_def MAX_SCHEMA_DEPTH_def)

end
