(* ===== verification/SchemaProps.thy ===== *)
theory SchemaProps
  imports Schema
begin

text \<open>
  Properties of the validator of \<^verbatim>\<open>src-tauri/workflow-core/src/schema.rs\<close>: what \<open>enum\<close> and
  \<open>const\<close> compare, and the breadth-first loop against a recursive definition of conformance.
\<close>

declare lit_simps [simp del]

section \<open>Equality of JSON values\<close>

text \<open>A value with every number replaced by the \<open>f64\<close> it is compared as.\<close>

fun widen :: "json \<Rightarrow> json" where
  "widen (JNum n) = JNum (Float (number_f64 n))"
| "widen (JArr xs) = JArr (map widen xs)"
| "widen (JObj m) = JObj (map (\<lambda>(k, v). (k, widen v)) m)"
| "widen v = v"

lemma widen_map_of: "map_of (map (\<lambda>(k, v). (k, widen v)) m) k = map_option widen (map_of m k)"
  by (simp add: map_of_map)

lemma bt_sorted_map: "bt_sorted (map (\<lambda>(k, v). (k, f v)) m) = bt_sorted m"
  by (simp add: bt_sorted_def comp_def case_prod_beta)

lemma objects_equal:
  assumes sorted: "bt_sorted m" "bt_sorted m'"
    and eq: "\<And>p r. p \<in> set m \<Longrightarrow> map_of m' (fst p) = Some r \<Longrightarrow> E (snd p) r \<longleftrightarrow> widen (snd p) = widen r"
  shows "length m = length m'
           \<and> (\<forall>p \<in> set m. case map_of m' (fst p) of None \<Rightarrow> False | Some r \<Rightarrow> E (snd p) r)
         \<longleftrightarrow> map (\<lambda>(k, v). (k, widen v)) m = map (\<lambda>(k, v). (k, widen v)) m'"
    (is "?L \<longleftrightarrow> ?w m = ?w m'")
proof
  note d = bt_sorted_distinct [OF sorted(1)] bt_sorted_distinct [OF sorted(2)]
  {
    assume ?L
    then have len: "length m = length m'"
      and all: "\<And>p. p \<in> set m \<Longrightarrow> \<exists>r. map_of m' (fst p) = Some r \<and> E (snd p) r"
      by (auto split: option.splits)
    have "set (map fst m) \<subseteq> set (map fst m')"
    proof
      fix k assume "k \<in> set (map fst m)"
      then obtain p where p: "p \<in> set m" "k = fst p" by auto
      then obtain r where "map_of m' k = Some r" using all by blast
      then show "k \<in> set (map fst m')" by (force dest: map_of_SomeD)
    qed
    moreover have "card (set (map fst m)) = card (set (map fst m'))"
      using d len by (simp only: distinct_card length_map)
    ultimately have keys: "set (map fst m) = set (map fst m')"
      by (intro card_subset_eq) simp_all
    have "map_of (?w m) k = map_of (?w m') k" for k
    proof (cases "map_of m k")
      case None
      then have "map_of m' k = None" using keys by (auto simp: map_of_eq_None_iff)
      with None show ?thesis by (simp add: widen_map_of)
    next
      case (Some v)
      then have "(k, v) \<in> set m" by (rule map_of_SomeD)
      with all [of "(k, v)"] eq [of "(k, v)"] show ?thesis using Some by (auto simp: widen_map_of)
    qed
    then show "?w m = ?w m'"
      using sorted by (intro bt_sorted_unique) (auto simp: bt_sorted_map)
  }
  {
    assume w: "?w m = ?w m'"
    have "length m = length m'" using arg_cong [OF w, of length] by simp
    moreover have "\<exists>r. map_of m' (fst p) = Some r \<and> E (snd p) r" if p: "p \<in> set m" for p
    proof -
      have "map_of m (fst p) = Some (snd p)" using p d(1) by simp
      then have "map_option widen (map_of m' (fst p)) = Some (widen (snd p))"
        using arg_cong [OF w, of "\<lambda>x. map_of x (fst p)"] by (simp add: widen_map_of)
      then obtain r where "map_of m' (fst p) = Some r" "widen r = widen (snd p)" by auto
      then show ?thesis using eq [OF p] by simp
    qed
    ultimately show ?L by (fastforce split: option.splits)
  }
qed

lemma widen_scalar [simp]:
  "widen v = JNull \<longleftrightarrow> v = JNull" "widen v = JBool b \<longleftrightarrow> v = JBool b" "widen v = JStr s \<longleftrightarrow> v = JStr s"
  "JNull = widen v \<longleftrightarrow> v = JNull" "JBool b = widen v \<longleftrightarrow> v = JBool b" "JStr s = widen v \<longleftrightarrow> v = JStr s"
  by (cases v; auto)+

lemma json_equal_widen: "json_wf v \<Longrightarrow> json_wf w \<Longrightarrow> json_equal v w \<longleftrightarrow> widen v = widen w"
proof (induction v w rule: json_equal.induct)
  case (2 xs ys)
  have "json_equal (fst p) (snd p) \<longleftrightarrow> widen (fst p) = widen (snd p)" if "p \<in> set (zip xs ys)" for p
  proof -
    have "fst p \<in> set xs" "snd p \<in> set ys"
      using that by (metis set_zip_leftD set_zip_rightD prod.collapse)+
    then show ?thesis using 2 that by simp
  qed
  then have "json_equal (JArr xs) (JArr ys) \<longleftrightarrow>
      length xs = length ys \<and> (\<forall>p \<in> set (zip xs ys). widen (fst p) = widen (snd p))"
    by simp
  also have "\<dots> \<longleftrightarrow> map widen xs = map widen ys"
    by (auto simp: list_eq_iff_nth_eq all_set_conv_all_nth)
  finally show ?case by simp
next
  case (3 m m')
  have "json_equal (snd p) r \<longleftrightarrow> widen (snd p) = widen r"
    if p: "p \<in> set m" and r: "map_of m' (fst p) = Some r" for p r
  proof (rule "3.IH" [OF p r])
    show "json_wf (snd p)" using 3 p by auto
    show "json_wf r" using 3 map_of_SomeD [OF r] by auto
  qed
  then have "length m = length m'
      \<and> (\<forall>p \<in> set m. case map_of m' (fst p) of None \<Rightarrow> False | Some r \<Rightarrow> json_equal (snd p) r)
    \<longleftrightarrow> map (\<lambda>(k, v). (k, widen v)) m = map (\<lambda>(k, v). (k, widen v)) m'"
    using 3 by (intro objects_equal) auto
  then show ?case by simp
qed auto

text \<open>
  The equality behind enum and const compares values structurally, every number by the
  double it converts to: on well-formed values it is an equivalence relation that identifies
  exactly the values with the same doubles in the same places.
\<close>

theorem json_equal_compares_doubles:
  assumes "json_wf u" and "json_wf v" and "json_wf w"
  shows "(json_equal u v \<longleftrightarrow> widen u = widen v) \<and> json_equal u u
         \<and> (json_equal u v \<longrightarrow> json_equal v u)
         \<and> (json_equal u v \<and> json_equal v w \<longrightarrow> json_equal u w)"
  using assms by (simp add: json_equal_widen)

theorem json_equal_compares_doubles_witness:
  "json_equal (JObj [(lit ''a'', JNum (PosInt 2))]) (JObj [(lit ''a'', JNum (Float 2))])"
proof -
  let ?u = "JObj [(lit ''a'', JNum (PosInt 2))]" and ?v = "JObj [(lit ''a'', JNum (Float 2))]"
  have "json_wf ?u" "json_wf ?v" by (simp_all add: bt_sorted_def)
  then have "json_equal ?u ?v \<longleftrightarrow> widen ?u = widen ?v"
    using json_equal_compares_doubles [of ?u ?v ?v] by simp
  then show ?thesis by (simp add: f64_of_nat_exact)
qed

text \<open>
  Integers below 2 to the 53 are equal only when they are the same; from there on the
  conversion to a double merges neighbours, so a const of 9007199254740992 accepts 9007199254740993.
\<close>

theorem json_equal_on_integers:
  "(a < 2 ^ 53 \<and> b < 2 ^ 53 \<longrightarrow> (json_equal (JNum (PosInt a)) (JNum (PosInt b)) \<longleftrightarrow> a = b))
   \<and> json_equal (JNum (PosInt (2 ^ 53))) (JNum (PosInt (2 ^ 53 + 1)))
   \<and> const_ok [(lit ''const'', JNum (PosInt (2 ^ 53)))] (JNum (PosInt (2 ^ 53 + 1)))"
proof -
  have "bit_length (2 ^ 53) = 54" "bit_length (2 ^ 53 + 1) = 54" by (simp_all add: bit_length.simps)
  then have "f64_of_nat (2 ^ 53) = f64_of_nat (2 ^ 53 + 1)"
    by (simp add: f64_of_nat_def round_to_bits_def Let_def)
  then show ?thesis by (simp add: f64_of_nat_exact const_ok_def)
qed

theorem json_equal_on_integers_witness:
  "\<not> json_equal (JNum (PosInt 4)) (JNum (PosInt 5))"
  using json_equal_on_integers [of 4 5] by simp


section \<open>Conformance, recursively\<close>

























end
