(* ===== verification/Utf8.thy ===== *)
theory Utf8
  imports Json
begin

text \<open>The bytes of a Rust \<^verbatim>\<open>str\<close>, for a string given as its code points.\<close>

text \<open>\<open>str::as_bytes\<close>.\<close>

definition utf8_char :: "nat \<Rightarrow> nat list" where
  "utf8_char c =
     (if c < 128 then [c]
      else if c < 2048 then [192 + c div 64, 128 + c mod 64]
      else if c < 65536 then [224 + c div 4096, 128 + c div 64 mod 64, 128 + c mod 64]
      else [240 + c div 262144, 128 + c div 4096 mod 64, 128 + c div 64 mod 64, 128 + c mod 64])"

definition utf8 :: "ustring \<Rightarrow> nat list" where
  "utf8 s = concat (map utf8_char s)"

lemma utf8_simps [simp]:
  "utf8 [] = []" "utf8 (c # s) = utf8_char c @ utf8 s" "utf8 (s @ t) = utf8 s @ utf8 t"
  by (simp_all add: utf8_def)

lemma utf8_char_nonempty [simp]: "utf8_char c \<noteq> []"
  by (simp add: utf8_char_def)

text \<open>The first byte tells the length of the encoding, the remaining digits the code point.\<close>

definition utf8_read :: "nat list \<Rightarrow> nat \<times> nat list" where
  "utf8_read bs =
     (let b = bs ! 0
      in if b < 128 then (b, drop 1 bs)
         else if b < 224 then ((b - 192) * 64 + (bs ! 1 - 128), drop 2 bs)
         else if b < 240 then ((b - 224) * 4096 + (bs ! 1 - 128) * 64 + (bs ! 2 - 128), drop 3 bs)
         else ((b - 240) * 262144 + (bs ! 1 - 128) * 4096 + (bs ! 2 - 128) * 64 + (bs ! 3 - 128),
               drop 4 bs))"

lemma digits64:
  fixes c :: nat
  shows "c div 64 * 64 + c mod 64 = c"
    and "c div 4096 * 4096 + c div 64 mod 64 * 64 + c mod 64 = c"
    and "c div 262144 * 262144 + c div 4096 mod 64 * 4096 + c div 64 mod 64 * 64 + c mod 64 = c"
proof -
  let ?d = "c div 64" and ?e = "c div 4096"
  have d: "?e = ?d div 64" "c div 262144 = ?e div 64"
    using div_mult2_eq [of c 64 64] div_mult2_eq [of c 4096 64] by simp_all
  show one: "?d * 64 + c mod 64 = c" by (rule div_mult_mod_eq)
  have "?e * 64 + ?d mod 64 = ?d" using div_mult_mod_eq [of ?d 64] d by simp
  with one show two: "?e * 4096 + ?d mod 64 * 64 + c mod 64 = c" by linarith
  have "c div 262144 * 64 + ?e mod 64 = ?e" using div_mult_mod_eq [of ?e 64] d by simp
  with two show "c div 262144 * 262144 + ?e mod 64 * 4096 + ?d mod 64 * 64 + c mod 64 = c" by linarith
qed

lemma utf8_read_char: "utf8_read (utf8_char c @ bs) = (c, bs)"
proof -
  consider "c < 128" | "128 \<le> c" "c < 2048" | "2048 \<le> c" "c < 65536" | "65536 \<le> c"
    by linarith
  then show ?thesis
  proof cases
    case 2
    then have "c div 64 < 32" by simp
    with 2 show ?thesis using digits64(1) [of c] by (simp add: utf8_char_def utf8_read_def Let_def)
  next
    case 3
    then have "c div 4096 < 16" by simp
    with 3 show ?thesis using digits64(2) [of c] by (simp add: utf8_char_def utf8_read_def Let_def)
  next
    case 4
    then show ?thesis using digits64(3) [of c] by (simp add: utf8_char_def utf8_read_def Let_def)
  qed (simp add: utf8_char_def utf8_read_def)
qed

lemma utf8_inj: "utf8 s = utf8 t \<longleftrightarrow> s = t"
proof
  show "s = t" if "utf8 s = utf8 t"
    using that
  proof (induction s arbitrary: t)
    case Nil
    then show ?case by (cases t) simp_all
  next
    case (Cons c s)
    then obtain d t' where t: "t = d # t'" by (cases t) simp_all
    with Cons.prems have "utf8_read (utf8_char c @ utf8 s) = utf8_read (utf8_char d @ utf8 t')" by simp
    with Cons.IH t show ?case by (simp add: utf8_read_char)
  qed
qed simp

lemma utf8_char_nul: "0 \<in> set (utf8_char c) \<longleftrightarrow> c = 0"
  by (simp add: utf8_char_def)

lemma utf8_nul: "0 \<in> set (utf8 s) \<longleftrightarrow> 0 \<in> set s"
  by (induction s) (auto simp: utf8_char_nul)

text \<open>\<open>str::len\<close>.\<close>

definition byte_len :: "ustring \<Rightarrow> nat" where
  "byte_len s = length (utf8 s)"

lemma byte_len_append [simp]: "byte_len (s @ t) = byte_len s + byte_len t"
  by (simp add: byte_len_def)

lemma byte_len_Nil [simp]: "byte_len [] = 0"
  by (simp add: byte_len_def)

text \<open>\<open>char::is_whitespace\<close>, and \<open>str::trim\<close>.\<close>

definition white_space :: "nat \<Rightarrow> bool" where
  "white_space c \<longleftrightarrow> 9 \<le> c \<and> c \<le> 13 \<or> 8192 \<le> c \<and> c \<le> 8202 \<or>
     c \<in> set [32, 133, 160, 5760, 8232, 8233, 8239, 8287, 12288]"

definition trim :: "ustring \<Rightarrow> ustring" where
  "trim s = rev (dropWhile white_space (rev (dropWhile white_space s)))"

text \<open>The pieces between separators that are not empty.\<close>

fun words_go :: "(nat \<Rightarrow> bool) \<Rightarrow> ustring \<Rightarrow> ustring \<Rightarrow> ustring list" where
  "words_go sep cur [] = (if cur = [] then [] else [cur])"
| "words_go sep cur (c # s) =
     (if sep c then (if cur = [] then words_go sep [] s else cur # words_go sep [] s) else words_go sep (cur @ [c]) s)"

definition words_by :: "(nat \<Rightarrow> bool) \<Rightarrow> ustring \<Rightarrow> ustring list" where
  "words_by sep s = words_go sep [] s"

end
