(* ===== verification/Chain.thy ===== *)
theory Chain
  imports Utf8 "HOL-Library.Multiset"
begin

text \<open>
  \<^verbatim>\<open>src-tauri/workflow-core/src/chain.rs\<close>: the chain of cache keys of a workflow run and its
  divergence latch. SHA-256 (the \<^verbatim>\<open>sha2\<close> crate) and \<^verbatim>\<open>serde_json::to_string\<close> on scalars and
  strings are parameters, \<open>sha\<close> and \<open>ser\<close>; what the properties need of them are hypotheses.
\<close>

section \<open>Requests and canonical options\<close>

record step_request =
  prompt :: ustring
  label :: "ustring option"
  phase :: "ustring option"
  phase_index :: "nat option"
  schema :: "json option"
  model :: "ustring option"
  effort :: "ustring option"
  agent_type :: "ustring option"
  isolation :: "ustring option"

definition from_prompt :: "ustring \<Rightarrow> step_request" where
  "from_prompt p =
     \<lparr>prompt = p, label = None, phase = None, phase_index = None, schema = None, model = None,
      effort = None, agent_type = None, isolation = None\<rparr>"

text \<open>The stack machine that writes a value; the stack's top is the head of the list.\<close>

datatype task = TValue json | TLiteral ustring | TKey ustring

definition proto_key :: ustring where
  "proto_key = lit ''__proto__''"

text \<open>\<open>entries\<close>: \<open>__proto__\<close> dropped, then a stable sort by key.\<close>

definition object_entries :: "(ustring \<times> json) list \<Rightarrow> (ustring \<times> json) list" where
  "object_entries m = sort_key fst (filter (\<lambda>(k, _). k \<noteq> proto_key) m)"

text \<open>Pushing children in reverse, a comma before each but the first, leaves them in order.\<close>

definition comma_task :: "nat \<Rightarrow> task list" where
  "comma_task position = (if position > 0 then [TLiteral (lit '','')] else [])"

fun entry_tasks :: "nat \<Rightarrow> (ustring \<times> json) list \<Rightarrow> task list" where
  "entry_tasks position [] = []"
| "entry_tasks position ((key, child) # es) =
     comma_task position @ TKey key # TValue child # entry_tasks (Suc position) es"

fun item_tasks :: "nat \<Rightarrow> json list \<Rightarrow> task list" where
  "item_tasks position [] = []"
| "item_tasks position (child # items) =
     comma_task position @ TValue child # item_tasks (Suc position) items"

text \<open>One pop: what is written, and what replaces the task on the stack.\<close>

fun task_step :: "(json \<Rightarrow> ustring) \<Rightarrow> task \<Rightarrow> ustring \<times> task list" where
  "task_step ser (TLiteral text) = (text, [])"
| "task_step ser (TKey key) = (ser (JStr key) @ lit '':'', [])"
| "task_step ser (TValue (JObj m)) = (lit ''{'', entry_tasks 0 (object_entries m) @ [TLiteral (lit ''}'')])"
| "task_step ser (TValue (JArr items)) = (lit ''['', item_tasks 0 items @ [TLiteral (lit '']'')])"
| "task_step ser (TValue scalar) = (ser scalar, [])"

fun task_weight :: "task \<Rightarrow> nat" where
  "task_weight (TValue v) = 4 * nodes v - 2"
| "task_weight (TLiteral _) = 1"
| "task_weight (TKey _) = 1"

lemma task_weight_pos [simp]: "0 < task_weight t"
proof (cases t)
  case (TValue v)
  have "1 \<le> nodes v" by (simp add: Suc_le_eq)
  with TValue show ?thesis by simp
qed simp_all

lemma comma_weight: "sum_list (map task_weight (comma_task position)) = (if position > 0 then 1 else 0)"
  by (simp add: comma_task_def)

lemma entry_tasks_weight:
  "sum_list (map task_weight (entry_tasks position es)) \<le> (\<Sum>p \<leftarrow> es. 4 * nodes (snd p))"
proof (induction position es rule: entry_tasks.induct)
  case (2 position key child es)
  have "1 \<le> nodes child" by (simp add: Suc_le_eq)
  with 2 show ?case by (cases position) (simp_all add: comma_weight)
qed simp

lemma item_tasks_weight:
  "sum_list (map task_weight (item_tasks position items)) \<le> (\<Sum>v \<leftarrow> items. 4 * nodes v)"
proof (induction position items rule: item_tasks.induct)
  case (2 position child items)
  have "1 \<le> nodes child" by (simp add: Suc_le_eq)
  with 2 show ?case by (cases position) (simp_all add: comma_weight)
qed simp

lemma mset_object_entries: "mset (object_entries m) = mset (filter (\<lambda>(k, _). k \<noteq> proto_key) m)"
  by (simp add: object_entries_def)

lemma sum_object_entries: "(\<Sum>p \<leftarrow> object_entries m. f p) \<le> (\<Sum>p \<leftarrow> m. f p :: nat)"
proof -
  have "(\<Sum>p \<leftarrow> xs. f p) = (\<Sum>p \<leftarrow> ys. f p)" if "mset xs = mset ys" for xs ys
    using that by (metis mset_map sum_mset_sum_list)
  then have "(\<Sum>p \<leftarrow> object_entries m. f p) = (\<Sum>p \<leftarrow> filter (\<lambda>(k, _). k \<noteq> proto_key) m. f p)"
    using mset_object_entries by blast
  also have "\<dots> \<le> (\<Sum>p \<leftarrow> m. f p)" by (induction m) auto
  finally show ?thesis .
qed

lemma sum_four: "(\<Sum>p \<leftarrow> m. 4 * f p) = 4 * (\<Sum>p \<leftarrow> m. f p :: nat)"
  by (induction m) auto

lemma task_step_weight:
  "sum_list (map task_weight (snd (task_step ser t))) < task_weight t"
proof (cases "(ser, t)" rule: task_step.cases)
  case (3 ser' m)
  have "sum_list (map task_weight (entry_tasks 0 (object_entries m))) \<le> (\<Sum>p \<leftarrow> m. 4 * nodes (snd p))"
    using entry_tasks_weight sum_object_entries le_trans by blast
  with 3 show ?thesis by (simp add: sum_four)
next
  case (4 ser' items)
  then show ?thesis using item_tasks_weight [of 0 items] by (simp add: sum_four)
qed auto

function write_loop :: "(json \<Rightarrow> ustring) \<Rightarrow> task list \<Rightarrow> ustring \<Rightarrow> ustring" where
  "write_loop ser [] out = out"
| "write_loop ser (t # stack) out =
     write_loop ser (snd (task_step ser t) @ stack) (out @ fst (task_step ser t))"
  by pat_completeness auto
termination
  by (relation "measure (\<lambda>(_, stack, _). sum_list (map task_weight stack))")
     (auto simp: task_step_weight)

definition write_canonical_json :: "(json \<Rightarrow> ustring) \<Rightarrow> json \<Rightarrow> ustring \<Rightarrow> ustring" where
  "write_canonical_json ser doc out = write_loop ser [TValue doc] out"

text \<open>The closure \<open>field\<close> of \<open>canonical_opts\<close>; 34 is the quotation mark.\<close>

definition opt_field ::
    "(json \<Rightarrow> ustring) \<Rightarrow> ustring \<Rightarrow> ustring option \<Rightarrow> ustring \<times> bool \<Rightarrow> ustring \<times> bool" where
  "opt_field ser key value acc =
     (case (value, acc) of
        (None, _) \<Rightarrow> acc
      | (Some v, (out, first)) \<Rightarrow>
          (out @ (if first then [] else lit '','') @ [34] @ key @ [34, 58] @ ser (JStr v), False))"

definition canonical_opts :: "(json \<Rightarrow> ustring) \<Rightarrow> step_request \<Rightarrow> ustring" where
  "canonical_opts ser r =
     (let (out, first) =
        opt_field ser (lit ''model'') (model r)
          (opt_field ser (lit ''isolation'') (isolation r)
            (opt_field ser (lit ''effort'') (effort r)
              (opt_field ser (lit ''agentType'') (agent_type r) (lit ''{'', True))));
       out = (case schema r of
                None \<Rightarrow> out
              | Some s \<Rightarrow> write_canonical_json ser s
                  (out @ (if first then [] else lit '','') @ [34] @ lit ''schema'' @ [34, 58]))
      in out @ lit ''}'')"

section \<open>The chain\<close>

datatype journal_lookup = Hit | Unsettled | Miss

record cache_key_chain =
  prev :: ustring
  diverged :: bool

definition chain_new :: cache_key_chain where
  "chain_new = \<lparr>prev = [], diverged = False\<rparr>"

definition CACHE_KEY_PREFIX :: ustring where
  "CACHE_KEY_PREFIX = lit ''mw1''"

definition hex_digit :: "nat \<Rightarrow> nat" where
  "hex_digit d = (if d < 10 then 48 + d else 87 + d)"

text \<open>\<open>{byte:02x}\<close>.\<close>

definition hex_byte :: "nat \<Rightarrow> ustring" where
  "hex_byte b = [hex_digit (b div 16), hex_digit (b mod 16)]"

definition key_of_digest :: "nat list \<Rightarrow> ustring" where
  "key_of_digest digest = CACHE_KEY_PREFIX @ lit '':'' @ concat (map hex_byte digest)"

text \<open>The bytes hashed for one step.\<close>

definition hashed :: "(json \<Rightarrow> ustring) \<Rightarrow> ustring \<Rightarrow> step_request \<Rightarrow> nat list" where
  "hashed ser p r = utf8 p @ [0] @ utf8 (prompt r) @ [0] @ utf8 (canonical_opts ser r)"

definition advance ::
    "(nat list \<Rightarrow> nat list) \<Rightarrow> (json \<Rightarrow> ustring) \<Rightarrow> cache_key_chain \<Rightarrow> step_request
      \<Rightarrow> ustring \<times> cache_key_chain" where
  "advance sha ser c r =
     (let key = key_of_digest (sha (hashed ser (prev c) r)) in (key, c\<lparr>prev := key\<rparr>))"

definition consult :: "cache_key_chain \<Rightarrow> journal_lookup \<Rightarrow> bool \<times> cache_key_chain" where
  "consult c lookup =
     (if diverged c then (False, c)
      else case lookup of
             Hit \<Rightarrow> (True, c)
           | Unsettled \<Rightarrow> (False, c)
           | Miss \<Rightarrow> (False, c\<lparr>diverged := True\<rparr>))"

definition mark_diverged :: "cache_key_chain \<Rightarrow> cache_key_chain" where
  "mark_diverged c = c\<lparr>diverged := True\<rparr>"

section \<open>The writer against a recursive one\<close>

fun join_comma :: "ustring list \<Rightarrow> ustring" where
  "join_comma [] = []"
| "join_comma [x] = x"
| "join_comma (x # xs) = x @ lit '','' @ join_comma xs"

lemma object_entries_nodes: "p \<in> set (object_entries m) \<Longrightarrow> nodes (snd p) < nodes (JObj m)"
  by (rule nodes_entry) (auto simp: object_entries_def)

function canonical_text :: "(json \<Rightarrow> ustring) \<Rightarrow> json \<Rightarrow> ustring" where
  "canonical_text ser (JObj m) =
     lit ''{'' @ join_comma (map (\<lambda>p. ser (JStr (fst p)) @ lit '':'' @ canonical_text ser (snd p))
                              (object_entries m)) @ lit ''}''"
| "canonical_text ser (JArr items) =
     lit ''['' @ join_comma (map (canonical_text ser) items) @ lit '']''"
| "canonical_text ser JNull = ser JNull"
| "canonical_text ser (JBool b) = ser (JBool b)"
| "canonical_text ser (JNum n) = ser (JNum n)"
| "canonical_text ser (JStr s) = ser (JStr s)"
  by pat_completeness auto
termination
  by (relation "measure (\<lambda>(_, v). nodes v)")
     (auto simp del: nodes.simps intro: nodes_item object_entries_nodes)

fun task_text :: "(json \<Rightarrow> ustring) \<Rightarrow> task \<Rightarrow> ustring" where
  "task_text ser (TValue v) = canonical_text ser v"
| "task_text ser (TLiteral s) = s"
| "task_text ser (TKey k) = ser (JStr k) @ lit '':''"

definition tasks_text :: "(json \<Rightarrow> ustring) \<Rightarrow> task list \<Rightarrow> ustring" where
  "tasks_text ser ts = concat (map (task_text ser) ts)"

lemma tasks_text_simps [simp]:
  "tasks_text ser [] = []" "tasks_text ser (t # ts) = task_text ser t @ tasks_text ser ts"
  "tasks_text ser (ts @ us) = tasks_text ser ts @ tasks_text ser us"
  by (simp_all add: tasks_text_def)

lemma join_comma_Cons: "join_comma (x # xs) = x @ (if xs = [] then [] else lit '','' @ join_comma xs)"
  by (cases xs) simp_all

lemma entry_tasks_text:
  "tasks_text ser (entry_tasks position es) =
     (if position > 0 \<and> es \<noteq> [] then lit '','' else [])
     @ join_comma (map (\<lambda>p. ser (JStr (fst p)) @ lit '':'' @ canonical_text ser (snd p)) es)"
  by (induction position es rule: entry_tasks.induct) (auto simp: comma_task_def join_comma_Cons)

lemma item_tasks_text:
  "tasks_text ser (item_tasks position items) =
     (if position > 0 \<and> items \<noteq> [] then lit '','' else []) @ join_comma (map (canonical_text ser) items)"
  by (induction position items rule: item_tasks.induct) (auto simp: comma_task_def join_comma_Cons)

lemma task_step_text:
  "fst (task_step ser t) @ tasks_text ser (snd (task_step ser t)) = task_text ser t"
  by (cases "(ser, t)" rule: task_step.cases) (auto simp: entry_tasks_text item_tasks_text)

lemma write_loop_text: "write_loop ser ts out = out @ tasks_text ser ts"
proof (induction ser ts out rule: write_loop.induct)
  case (2 ser t stack out)
  then show ?case by (simp add: task_step_text [of ser t, symmetric])
qed simp

lemma write_canonical_text: "write_canonical_json ser doc out = out @ canonical_text ser doc"
  by (simp add: write_canonical_json_def write_loop_text)


section \<open>Canonical text does not see key order\<close>

text \<open>
  Values that differ in the order of object entries, or in entries named \<^verbatim>\<open>__proto__\<close>, at any
  depth.
\<close>

inductive same_json :: "json \<Rightarrow> json \<Rightarrow> bool" where
  same_refl: "same_json v v"
| same_arr: "list_all2 same_json xs ys \<Longrightarrow> same_json (JArr xs) (JArr ys)"
| same_obj: "list_all2 (\<lambda>p q. fst p = fst q \<and> same_json (snd p) (snd q)) m m' \<Longrightarrow>
    same_json (JObj m) (JObj m')"
| same_perm: "mset m = mset m' \<Longrightarrow> distinct (map fst m) \<Longrightarrow> same_json (JObj m) (JObj m')"
| same_proto: "same_json (JObj (m @ [(proto_key, v)])) (JObj m)"
| same_sym: "same_json v w \<Longrightarrow> same_json w v"
| same_trans: "same_json u v \<Longrightarrow> same_json v w \<Longrightarrow> same_json u w"

lemma entries_perm:
  assumes "mset m = mset m'" and "distinct (map fst m)"
  shows "object_entries m = object_entries m'"
proof -
  let ?f = "filter (\<lambda>(k, _). k \<noteq> proto_key)"
  have m: "mset (?f m) = mset (?f m')" using assms(1) by simp
  have d: "distinct (map fst (?f m))" using assms(2) by (simp add: distinct_map_filter)
  have "inj_on fst (set (?f m))" using d by (simp add: distinct_map)
  moreover have "mset (?f m) = mset (object_entries m')" using m by (simp only: object_entries_def mset_sort)
  moreover have "sorted (map fst (object_entries m'))" by (simp add: object_entries_def)
  ultimately have "sort_key fst (?f m) = object_entries m'"
    by (intro sort_key_inj_key_eq)
  then show ?thesis by (simp add: object_entries_def)
qed

lemma entries_list_all2:
  assumes "list_all2 (\<lambda>p q. fst p = fst q \<and> R (snd p) (snd q)) m m'"
  shows "list_all2 (\<lambda>p q. fst p = fst q \<and> R (snd p) (snd q)) (object_entries m) (object_entries m')"
proof -
  let ?Q = "\<lambda>p q. fst p = fst q \<and> R (snd p) (snd q)"
  have ins: "list_all2 ?Q (insort_key fst x xs) (insort_key fst y ys)"
    if "?Q x y" and "list_all2 ?Q xs ys" for x y xs ys
    using that(2,1) by (induction rule: list_all2_induct) auto
  have "list_all2 ?Q (filter (\<lambda>(k, _). k \<noteq> proto_key) m) (filter (\<lambda>(k, _). k \<noteq> proto_key) m')"
    using assms by (induction rule: list_all2_induct) auto
  then show ?thesis
    unfolding object_entries_def sort_key_def
    by (induction rule: list_all2_induct) (auto intro!: ins)
qed

lemma list_all2_map_eq: "list_all2 (\<lambda>p q. g p = g q) xs ys \<Longrightarrow> map g xs = map g ys"
  by (induction rule: list_all2_induct) simp_all

lemma canonical_text_same: "same_json v w \<Longrightarrow> canonical_text ser v = canonical_text ser w"
proof (induction rule: same_json.induct)
  case (same_arr xs ys)
  have "list_all2 (\<lambda>p q. canonical_text ser p = canonical_text ser q) xs ys"
    using same_arr by (rule list_all2_mono) simp
  then have "map (canonical_text ser) xs = map (canonical_text ser) ys"
    by (rule list_all2_map_eq)
  then show ?case by simp
next
  case (same_obj m m')
  let ?g = "\<lambda>p. ser (JStr (fst p)) @ lit '':'' @ canonical_text ser (snd p)"
  have "list_all2 (\<lambda>p q. fst p = fst q \<and> canonical_text ser (snd p) = canonical_text ser (snd q)) m m'"
    using same_obj by (rule list_all2_mono) simp
  then have "list_all2 (\<lambda>p q. fst p = fst q \<and> canonical_text ser (snd p) = canonical_text ser (snd q))
      (object_entries m) (object_entries m')"
    by (rule entries_list_all2)
  then have "list_all2 (\<lambda>p q. ?g p = ?g q) (object_entries m) (object_entries m')"
    by (rule list_all2_mono) simp
  then have "map ?g (object_entries m) = map ?g (object_entries m')"
    by (rule list_all2_map_eq)
  then show ?case by simp
next
  case (same_perm m m')
  then show ?case by (simp add: entries_perm)
next
  case (same_proto m v)
  then show ?case by (simp add: object_entries_def)
qed simp_all

text \<open>
  The iterative writer of canonical JSON ends on every value and appends exactly the
  text a recursive writer gives; values that differ only in the order of object entries or in
  entries named \<^verbatim>\<open>__proto__\<close>, at any depth, are written alike.
\<close>

theorem canonical_json_writer:
  "write_canonical_json ser v out = out @ canonical_text ser v
   \<and> (same_json v w \<longrightarrow> write_canonical_json ser w out = write_canonical_json ser v out)"
  using canonical_text_same by (metis write_canonical_text)

definition sample_ser :: "json \<Rightarrow> ustring" where
  "sample_ser v = (case v of JStr s \<Rightarrow> [34] @ s @ [34] | JNum (PosInt n) \<Rightarrow> decimal n | _ \<Rightarrow> lit ''null'')"

theorem canonical_json_writer_witness:
  "write_canonical_json sample_ser
     (JObj [(lit ''b'', JNull), (lit ''a'', JNum (PosInt 7)), (proto_key, JNull)]) []
   = lit ''{'' @ [34] @ lit ''a'' @ [34] @ lit '':7,'' @ [34] @ lit ''b'' @ [34] @ lit '':null}''
   \<and> write_canonical_json sample_ser (JObj [(lit ''a'', JNum (PosInt 7)), (lit ''b'', JNull)]) []
     = write_canonical_json sample_ser
         (JObj [(lit ''b'', JNull), (lit ''a'', JNum (PosInt 7)), (proto_key, JNull)]) []"
proof -
  let ?v = "JObj ([(lit ''b'', JNull), (lit ''a'', JNum (PosInt 7))] @ [(proto_key, JNull)])"
  let ?w = "JObj [(lit ''a'', JNum (PosInt 7)), (lit ''b'', JNull)]"
  have "same_json ?v ?w"
    by (rule same_trans [OF same_proto same_perm]) (simp_all add: lit_eq_iff add_mset_commute)
  moreover have "canonical_text sample_ser ?v =
      lit ''{'' @ [34] @ lit ''a'' @ [34] @ lit '':7,'' @ [34] @ lit ''b'' @ [34] @ lit '':null}''"
    by (simp add: object_entries_def sample_ser_def decimal.simps proto_key_def)
  ultimately show ?thesis
    using canonical_json_writer [of sample_ser ?v "[]" ?w] by simp
qed


section \<open>The divergence latch\<close>

fun consult_all :: "cache_key_chain \<Rightarrow> journal_lookup list \<Rightarrow> bool list" where
  "consult_all c [] = []"
| "consult_all c (l # ls) = (let (trusted, c') = consult c l in trusted # consult_all c' ls)"

lemma consult_all_diverged: "diverged c \<Longrightarrow> consult_all c ls = replicate (length ls) False"
  by (induction ls) (simp_all add: consult_def)

lemma length_consult_all [simp]: "length (consult_all c ls) = length ls"
  by (induction c ls rule: consult_all.induct) (auto split: prod.splits)

text \<open>
  A lookup is trusted exactly when it hits and no earlier lookup of the run missed;
  an unsettled step reruns without ending the trust of later ones, and once the chain is marked
  divergent nothing is trusted.
\<close>

theorem divergence_latches:
  assumes "i < length ls"
  shows "(consult_all c ls ! i \<longleftrightarrow> \<not> diverged c \<and> ls ! i = Hit \<and> Miss \<notin> set (take i ls))
         \<and> \<not> consult_all (mark_diverged c) ls ! i"
proof -
  have "consult_all c ls ! i \<longleftrightarrow> \<not> diverged c \<and> ls ! i = Hit \<and> Miss \<notin> set (take i ls)"
    using assms
  proof (induction ls arbitrary: c i)
    case (Cons l ls)
    show ?case
    proof (cases "diverged c \<or> l = Miss")
      case True
      with Cons.prems show ?thesis
        by (cases i) (auto simp: consult_def consult_all_diverged)
    next
      case False
      then have "consult c l = (l = Hit, c)" by (cases l) (simp_all add: consult_def)
      with Cons False show ?thesis by (cases i) auto
    qed
  qed simp
  with assms show ?thesis by (simp add: consult_all_diverged mark_diverged_def)
qed

theorem divergence_latches_witness:
  "consult_all chain_new [Hit, Unsettled, Hit, Miss, Hit] ! 2
   \<and> \<not> consult_all chain_new [Hit, Unsettled, Hit, Miss, Hit] ! 4
   \<and> \<not> consult_all (mark_diverged chain_new) [Hit, Unsettled, Hit, Miss, Hit] ! 0"
  using divergence_latches [of 2 "[Hit, Unsettled, Hit, Miss, Hit]" chain_new]
    divergence_latches [of 4 "[Hit, Unsettled, Hit, Miss, Hit]" chain_new]
    divergence_latches [of 0 "[Hit, Unsettled, Hit, Miss, Hit]" chain_new]
  by (simp add: chain_new_def numeral_2_eq_2 eval_nat_numeral)

section \<open>A key determines the history\<close>

definition history :: "(json \<Rightarrow> ustring) \<Rightarrow> step_request list \<Rightarrow> (ustring \<times> ustring) list" where
  "history ser rs = map (\<lambda>r. (prompt r, canonical_opts ser r)) rs"

definition advance_all ::
    "(nat list \<Rightarrow> nat list) \<Rightarrow> (json \<Rightarrow> ustring) \<Rightarrow> cache_key_chain \<Rightarrow> step_request list
      \<Rightarrow> cache_key_chain" where
  "advance_all sha ser c rs = foldl (\<lambda>c r. snd (advance sha ser c r)) c rs"

definition last_key :: "(nat list \<Rightarrow> nat list) \<Rightarrow> (json \<Rightarrow> ustring) \<Rightarrow> step_request list \<Rightarrow> ustring" where
  "last_key sha ser rs = prev (advance_all sha ser chain_new rs)"

text \<open>Everything a run feeds to the digest.\<close>

definition messages_hashed ::
    "(nat list \<Rightarrow> nat list) \<Rightarrow> (json \<Rightarrow> ustring) \<Rightarrow> step_request list \<Rightarrow> nat list set" where
  "messages_hashed sha ser rs =
     (\<lambda>i. hashed ser (last_key sha ser (take i rs)) (rs ! i)) ` {..<length rs}"

lemma last_key_Nil [simp]: "last_key sha ser [] = []"
  by (simp add: last_key_def advance_all_def chain_new_def)

lemma last_key_snoc [simp]:
  "last_key sha ser (rs @ [r]) = key_of_digest (sha (hashed ser (last_key sha ser rs) r))"
  by (simp add: last_key_def advance_all_def advance_def Let_def)

lemma messages_snoc:
  "messages_hashed sha ser (rs @ [r]) =
     insert (hashed ser (last_key sha ser rs) r) (messages_hashed sha ser rs)"
proof -
  have "(\<lambda>i. hashed ser (last_key sha ser (take i (rs @ [r]))) ((rs @ [r]) ! i)) ` {..<length rs}
      = messages_hashed sha ser rs"
    unfolding messages_hashed_def by (intro image_cong) (simp_all add: nth_append)
  then show ?thesis by (simp add: messages_hashed_def lessThan_Suc)
qed

lemma hex_digit_inj: "x < 16 \<Longrightarrow> y < 16 \<Longrightarrow> hex_digit x = hex_digit y \<Longrightarrow> x = y"
  unfolding hex_digit_def by (cases "x < 10"; cases "y < 10") simp_all

lemma hex_byte_inj:
  assumes "a < 256" and "b < 256" and "hex_byte a = hex_byte b"
  shows "a = b"
proof -
  have "a div 16 < 16" "b div 16 < 16" using assms by simp_all
  with assms(3) have "a div 16 = b div 16" "a mod 16 = b mod 16"
    unfolding hex_byte_def by (simp_all add: hex_digit_inj)
  then show "a = b" by (metis div_mult_mod_eq)
qed

lemma hex_bytes_inj:
  assumes "concat (map hex_byte xs) = concat (map hex_byte ys)"
    and "set xs \<subseteq> {..<256}" and "set ys \<subseteq> {..<256}"
  shows "xs = ys"
  using assms
proof (induction xs arbitrary: ys)
  case Nil
  then show ?case by (cases ys) (auto simp: hex_byte_def)
next
  case (Cons x xs)
  then obtain y ys' where ys: "ys = y # ys'" by (cases ys) (auto simp: hex_byte_def)
  have "length (hex_byte x) = length (hex_byte y)" by (simp add: hex_byte_def)
  with Cons.prems(1) ys
  have "hex_byte x = hex_byte y" "concat (map hex_byte xs) = concat (map hex_byte ys')" by simp_all
  with Cons ys show ?case by (auto intro: hex_byte_inj)
qed

lemma key_nul: "0 \<notin> set (key_of_digest d)"
  by (auto simp: key_of_digest_def CACHE_KEY_PREFIX_def hex_byte_def hex_digit_def split: if_splits)

lemma key_nonempty [simp]: "key_of_digest d \<noteq> []" "[] \<noteq> key_of_digest d"
  by (auto simp: key_of_digest_def CACHE_KEY_PREFIX_def)

lemma last_key_nul: "0 \<notin> set (last_key sha ser rs)"
  by (cases rs rule: rev_cases) (simp_all add: key_nul)

lemma canonical_text_nul: "\<forall>v. 0 \<notin> set (ser v) \<Longrightarrow> 0 \<notin> set (canonical_text ser v)"
proof (induction ser v rule: canonical_text.induct)
  case (1 ser m)
  have join: "0 \<notin> set (join_comma xs)" if "\<forall>x \<in> set xs. 0 \<notin> set x" for xs
    using that by (induction xs rule: join_comma.induct) auto
  show ?case using 1 by (auto intro!: join)
next
  case (2 ser items)
  have join: "0 \<notin> set (join_comma xs)" if "\<forall>x \<in> set xs. 0 \<notin> set x" for xs
    using that by (induction xs rule: join_comma.induct) auto
  show ?case using 2 by (auto intro!: join)
qed simp_all


lemma canonical_opts_nul: "\<forall>v. 0 \<notin> set (ser v) \<Longrightarrow> 0 \<notin> set (canonical_opts ser r)"
proof -
  assume ser: "\<forall>v. 0 \<notin> set (ser v)"
  have field: "0 \<notin> set (fst (opt_field ser key v acc))" if "0 \<notin> set key" "0 \<notin> set (fst acc)" for key v acc
    using that ser by (auto simp: opt_field_def split: option.splits prod.splits)
  have body: "0 \<notin> set (canonical_text ser v)" for v using ser by (rule canonical_text_nul)
  show ?thesis
    unfolding canonical_opts_def Let_def case_prod_beta
    using body by (auto simp: write_canonical_text field split: option.splits)
qed

lemma cut_at_nul:
  assumes "xs @ 0 # ys = xs' @ (0::nat) # ys'" and "0 \<notin> set xs" and "0 \<notin> set xs'"
  shows "xs = xs' \<and> ys = ys'"
  using assms
proof (induction xs arbitrary: xs')
  case Nil
  then show ?case by (cases xs') auto
next
  case (Cons x xs)
  then show ?case by (cases xs') auto
qed

text \<open>
  The framing of the hashed message is unambiguous, also for prompts that contain NUL: the
  previous key ends at the first NUL, the options begin after the last one.
\<close>

lemma hashed_inj:
  assumes "\<forall>v. 0 \<notin> set (ser v)" and "0 \<notin> set p" and "0 \<notin> set p'"
    and "hashed ser p r = hashed ser p' r'"
  shows "p = p' \<and> prompt r = prompt r' \<and> canonical_opts ser r = canonical_opts ser r'"
proof -
  have nul: "0 \<notin> set (utf8 (canonical_opts ser q))" for q
    using canonical_opts_nul [OF assms(1)] by (simp add: utf8_nul)
  from assms(2-4) have p: "utf8 p = utf8 p'"
    and rest: "utf8 (prompt r) @ 0 # utf8 (canonical_opts ser r)
             = utf8 (prompt r') @ 0 # utf8 (canonical_opts ser r')"
    using cut_at_nul [of "utf8 p" _ "utf8 p'"] by (auto simp: hashed_def utf8_nul)
  from arg_cong [OF rest, of rev] nul
  have "rev (utf8 (canonical_opts ser r)) = rev (utf8 (canonical_opts ser r'))
      \<and> rev (utf8 (prompt r)) = rev (utf8 (prompt r'))"
    by (intro cut_at_nul) simp_all
  with p show ?thesis by (simp add: utf8_inj)
qed

text \<open>
  Claim C9. Two runs reach the same cache key exactly when they agree, step by step, on every
  prompt and on every canonical option text, provided the digest does not collide on the messages
  the two runs hash: no choice of prompts, embedded NULs included, makes two different histories
  look alike to the digest.
\<close>

theorem cache_key_identifies_history:
  assumes "\<forall>v. 0 \<notin> set (ser v)" and "\<forall>x. set (sha x) \<subseteq> {..<256}"
    and "inj_on sha (messages_hashed sha ser rs \<union> messages_hashed sha ser rs')"
  shows "last_key sha ser rs = last_key sha ser rs' \<longleftrightarrow> history ser rs = history ser rs'"
  using assms(3)
proof (induction rs arbitrary: rs' rule: rev_induct)
  case Nil
  then show ?case by (cases rs' rule: rev_cases) (auto simp: history_def)
next
  case (snoc r rs)
  note step_IH = snoc.IH and step_inj = snoc.prems
  show ?case
  proof (cases "rs' = []")
    case True
    then show ?thesis by (simp add: history_def)
  next
    case False
    then obtain qs q where rs': "rs' = qs @ [q]" by (cases rs' rule: rev_cases) auto
    let ?x = "hashed ser (last_key sha ser rs) r" and ?y = "hashed ser (last_key sha ser qs) q"
    note inj = step_inj [unfolded rs' messages_snoc]
    have IH: "last_key sha ser rs = last_key sha ser qs \<longleftrightarrow> history ser rs = history ser qs"
      by (rule step_IH, rule inj_on_subset [OF inj]) blast
    have "key_of_digest (sha ?x) = key_of_digest (sha ?y) \<longleftrightarrow> sha ?x = sha ?y"
    proof
      assume "key_of_digest (sha ?x) = key_of_digest (sha ?y)"
      then have "concat (map hex_byte (sha ?x)) = concat (map hex_byte (sha ?y))"
        by (simp add: key_of_digest_def)
      then show "sha ?x = sha ?y" by (rule hex_bytes_inj) (use assms(2) in blast)+
    qed simp
    also have "\<dots> \<longleftrightarrow> ?x = ?y" by (rule inj_on_eq_iff [OF inj]) simp_all
    also have "\<dots> \<longleftrightarrow> last_key sha ser rs = last_key sha ser qs \<and> prompt r = prompt q
        \<and> canonical_opts ser r = canonical_opts ser q"
    proof
      assume "?x = ?y"
      then show "last_key sha ser rs = last_key sha ser qs \<and> prompt r = prompt q
          \<and> canonical_opts ser r = canonical_opts ser q"
        by (rule hashed_inj [OF assms(1) last_key_nul last_key_nul])
    next
      assume "last_key sha ser rs = last_key sha ser qs \<and> prompt r = prompt q
          \<and> canonical_opts ser r = canonical_opts ser q"
      then show "?x = ?y" by (simp only: hashed_def)
    qed
    finally show ?thesis using IH by (auto simp: history_def rs')
  qed
qed

text \<open>A toy digest that is injective on bytes, to instantiate the hypotheses.\<close>

definition sample_sha :: "nat list \<Rightarrow> nat list" where
  "sample_sha x = map (\<lambda>b. b mod 256) x"

definition sample_null :: "json \<Rightarrow> ustring" where
  "sample_null v = lit ''null''"

theorem cache_key_identifies_history_witness:
  "last_key sample_sha sample_null [from_prompt (lit ''a'')]
     \<noteq> last_key sample_sha sample_null [from_prompt (lit ''b'')]"
proof -
  let ?a = "[from_prompt (lit ''a'')]" and ?b = "[from_prompt (lit ''b'')]"
  have opts: "canonical_opts sample_null (from_prompt p) = lit ''{}''" for p
    by (simp add: canonical_opts_def opt_field_def from_prompt_def)
  have m: "messages_hashed sample_sha sample_null [from_prompt p]
      = {hashed sample_null [] (from_prompt p)}" for p
    by (auto simp: messages_hashed_def)
  have "\<forall>x \<in> {hashed sample_null [] (from_prompt (lit ''a'')), hashed sample_null [] (from_prompt (lit ''b''))}.
      sample_sha x = x"
    by (simp add: hashed_def opts) (simp add: sample_sha_def utf8_char_def from_prompt_def)
  then have "inj_on sample_sha (messages_hashed sample_sha sample_null ?a
      \<union> messages_hashed sample_sha sample_null ?b)"
    unfolding m by (auto simp: inj_on_def)
  then have "last_key sample_sha sample_null ?a = last_key sample_sha sample_null ?b
      \<longleftrightarrow> history sample_null ?a = history sample_null ?b"
    by (intro cache_key_identifies_history) (auto simp: sample_null_def sample_sha_def)
  then show ?thesis by (simp add: history_def from_prompt_def)
qed

end
