(* ===== verification/Progress.thy ===== *)
theory Progress
  imports Json
begin

text \<open>
  \<^verbatim>\<open>src-tauri/workflow-core/src/progress.rs\<close>: the ledger of rows a workflow's progress card
  shows. Agent rows merge by index and are never evicted; log rows only append and are evicted
  oldest first by two bounds.
\<close>

section \<open>Data\<close>

definition MAX_PROGRESS_ROWS :: nat where "MAX_PROGRESS_ROWS = 1000"
definition PROGRESS_TRIM_TARGET :: nat where "PROGRESS_TRIM_TARGET = 500"
definition MAX_PREVIEW_CHARS :: nat where "MAX_PREVIEW_CHARS = 400"
definition MAX_LOG_MESSAGES :: nat where "MAX_LOG_MESSAGES = 1000"

lemmas progress_limits =
  MAX_PROGRESS_ROWS_def PROGRESS_TRIM_TARGET_def MAX_PREVIEW_CHARS_def MAX_LOG_MESSAGES_def

datatype step_state = StepStart | StepProgress | StepDone | StepError

datatype row_kind = AgentRow | LogRow

record progress_row =
  kind :: row_kind
  index :: nat
  row_state :: step_state
  label :: "ustring option"
  row_phase :: "ustring option"
  phase_index :: "nat option"
  preview :: "ustring option"
  message :: "ustring option"
  cached :: bool
  blocked :: bool
  skipped :: bool

definition row_agent :: "nat \<Rightarrow> progress_row" where
  "row_agent i =
     \<lparr>kind = AgentRow, index = i, row_state = StepStart, label = None, row_phase = None,
      phase_index = None, preview = None, message = None, cached = False, blocked = False,
      skipped = False\<rparr>"

record progress_ledger =
  rows :: "progress_row list"
  next_log_index :: nat

definition ledger_new :: progress_ledger where
  "ledger_new = \<lparr>rows = [], next_log_index = 0\<rparr>"

section \<open>Operations\<close>

text \<open>\<open>retain\<close> with a countdown: the first \<open>n\<close> log rows go.\<close>

fun evict_oldest_logs :: "nat \<Rightarrow> progress_row list \<Rightarrow> progress_row list" where
  "evict_oldest_logs remaining [] = []"
| "evict_oldest_logs remaining (r # rs) =
     (if remaining > 0 \<and> kind r = LogRow then evict_oldest_logs (remaining - 1) rs
      else r # evict_oldest_logs remaining rs)"

definition enforce_progress_bound :: "progress_ledger \<Rightarrow> progress_ledger" where
  "enforce_progress_bound l =
     (if length (rows l) > MAX_PROGRESS_ROWS
      then l\<lparr>rows := evict_oldest_logs (length (rows l) - PROGRESS_TRIM_TARGET) (rows l)\<rparr>
      else l)"

text \<open>The ellipsis is the code point U+2026.\<close>

definition normalize_preview :: "progress_row \<Rightarrow> progress_row" where
  "normalize_preview r =
     (case preview r of
        None \<Rightarrow> r
      | Some p \<Rightarrow>
          (if length p \<le> MAX_PREVIEW_CHARS then r
           else r\<lparr>preview := Some (take (MAX_PREVIEW_CHARS - 1) p
                     @ (if MAX_PREVIEW_CHARS > 0 then [8230] else []))\<rparr>))"

text \<open>\<open>iter_mut().find(..)\<close> and assignment: the first row that matches is rewritten.\<close>

fun update_first :: "('a \<Rightarrow> bool) \<Rightarrow> ('a \<Rightarrow> 'a) \<Rightarrow> 'a list \<Rightarrow> 'a list option" where
  "update_first p f [] = None"
| "update_first p f (x # xs) =
     (if p x then Some (f x # xs) else map_option (Cons x) (update_first p f xs))"

definition same_row :: "progress_row \<Rightarrow> progress_row \<Rightarrow> bool" where
  "same_row r existing \<longleftrightarrow> kind existing = kind r \<and> index existing = index r"

definition upsert :: "progress_ledger \<Rightarrow> progress_row \<Rightarrow> bool \<times> progress_ledger" where
  "upsert l row =
     (if kind row = LogRow then (False, l)
      else
        let row = normalize_preview row;
            rows' = (case update_first (same_row row) (\<lambda>_. row) (rows l) of
                       Some rs \<Rightarrow> rs
                     | None \<Rightarrow> rows l @ [row])
        in (True, enforce_progress_bound (l\<lparr>rows := rows'\<rparr>)))"

definition log_row :: "nat \<Rightarrow> ustring \<Rightarrow> progress_row" where
  "log_row i m =
     \<lparr>kind = LogRow, index = i, row_state = StepProgress, label = None, row_phase = None,
      phase_index = None, preview = None, message = Some m, cached = False, blocked = False,
      skipped = False\<rparr>"

definition logs :: "progress_row list \<Rightarrow> progress_row list" where
  "logs rs = filter (\<lambda>r. kind r = LogRow) rs"

definition append_log :: "progress_ledger \<Rightarrow> ustring \<Rightarrow> progress_row \<times> progress_ledger" where
  "append_log l m =
     (let i = next_log_index l;
          row = log_row i m;
          rs = rows l @ [row];
          log_count = length (logs rs);
          rs' = evict_oldest_logs (log_count - MAX_LOG_MESSAGES) rs
      in (row, enforce_progress_bound (l\<lparr>rows := rs', next_log_index := saturating_succ i\<rparr>)))"

definition mark_skipped :: "progress_ledger \<Rightarrow> nat \<Rightarrow> progress_ledger" where
  "mark_skipped l i =
     (case update_first (\<lambda>r. kind r = AgentRow \<and> index r = i)
             (\<lambda>r. r\<lparr>row_state := StepError, skipped := True\<rparr>) (rows l) of
        Some rs \<Rightarrow> l\<lparr>rows := rs\<rparr>
      | None \<Rightarrow> l)"

datatype ledger_op = Upsert progress_row | AppendLog ustring | MarkSkipped nat

fun ledger_step :: "progress_ledger \<Rightarrow> ledger_op \<Rightarrow> progress_ledger" where
  "ledger_step l (Upsert r) = snd (upsert l r)"
| "ledger_step l (AppendLog m) = snd (append_log l m)"
| "ledger_step l (MarkSkipped i) = mark_skipped l i"

section \<open>Eviction\<close>

definition agent_rows :: "progress_row list \<Rightarrow> progress_row list" where
  "agent_rows rs = filter (\<lambda>r. kind r = AgentRow) rs"

lemma agent_rows_append [simp]: "agent_rows (xs @ ys) = agent_rows xs @ agent_rows ys"
  by (simp add: agent_rows_def)

lemma logs_append [simp]: "logs (xs @ ys) = logs xs @ logs ys"
  by (simp add: logs_def)

lemma length_split_rows: "length rs = length (agent_rows rs) + length (logs rs)"
proof (induction rs)
  case (Cons r rs)
  then show ?case by (cases "kind r") (simp_all add: agent_rows_def logs_def)
qed (simp add: agent_rows_def logs_def)

lemma agent_rows_evict [simp]: "agent_rows (evict_oldest_logs n rs) = agent_rows rs"
  by (induction n rs rule: evict_oldest_logs.induct) (auto simp: agent_rows_def)

lemma logs_evict [simp]: "logs (evict_oldest_logs n rs) = drop n (logs rs)"
proof (induction n rs rule: evict_oldest_logs.induct)
  case (2 n r rs)
  then show ?case by (cases n; cases "kind r") (auto simp: logs_def)
qed (simp add: logs_def)

lemma length_evict:
  "length (evict_oldest_logs n rs) = length (agent_rows rs) + (length (logs rs) - n)"
  using length_split_rows [of "evict_oldest_logs n rs"] by simp

lemma set_evict: "set (evict_oldest_logs n rs) \<subseteq> set rs"
  by (induction n rs rule: evict_oldest_logs.induct) auto

lemma update_first_None: "update_first p f xs = None \<longleftrightarrow> (\<forall>x \<in> set xs. \<not> p x)"
  by (induction xs) auto

lemma update_first_Some:
  "update_first p f xs = Some ys \<longleftrightarrow>
     (\<exists>i < length xs. p (xs ! i) \<and> (\<forall>j < i. \<not> p (xs ! j)) \<and> ys = xs[i := f (xs ! i)])"
proof (induction xs arbitrary: ys)
  case Nil
  then show ?case by simp
next
  case (Cons x xs)
  show ?case
  proof (cases "p x")
    case True
    then have "(\<exists>i < length (x # xs). p ((x # xs) ! i) \<and> (\<forall>j < i. \<not> p ((x # xs) ! j))
        \<and> ys = (x # xs)[i := f ((x # xs) ! i)]) \<longleftrightarrow> ys = f x # xs"
      by (auto simp: gr0_conv_Suc intro!: exI [of _ 0] dest: spec [of _ 0])
    with True show ?thesis by auto
  next
    case False
    have "(\<exists>i < length (x # xs). p ((x # xs) ! i) \<and> (\<forall>j < i. \<not> p ((x # xs) ! j))
        \<and> ys = (x # xs)[i := f ((x # xs) ! i)])
      \<longleftrightarrow> (\<exists>i < length xs. p (xs ! i) \<and> (\<forall>j < i. \<not> p (xs ! j)) \<and> ys = x # xs[i := f (xs ! i)])"
      using False by (simp add: Ex_less_Suc2 All_less_Suc2)
    with False Cons.IH show ?thesis by auto
  qed
qed

text \<open>Rewriting the first match with a row of the same kind and index keeps every row's identity.\<close>

lemma update_first_map:
  assumes "update_first p f xs = Some ys" and "\<And>x. p x \<Longrightarrow> g (f x) = g x"
  shows "map g ys = map g xs"
  using assms by (auto simp: update_first_Some map_update list_update_same_conv)

lemma update_first_set:
  "update_first p f xs = Some ys \<Longrightarrow> set ys \<subseteq> f ` {x \<in> set xs. p x} \<union> set xs"
  by (auto simp: update_first_Some dest!: set_updateD)

section \<open>The invariant\<close>

definition rows_bounded :: "progress_row list \<Rightarrow> bool" where
  "rows_bounded rs \<longleftrightarrow>
     (length rs \<le> MAX_PROGRESS_ROWS \<or> logs rs = []) \<and> length (logs rs) \<le> MAX_LOG_MESSAGES"

definition preview_ok :: "progress_row \<Rightarrow> bool" where
  "preview_ok r \<longleftrightarrow> (case preview r of None \<Rightarrow> True | Some p \<Rightarrow> length p \<le> MAX_PREVIEW_CHARS)"

definition ledger_inv :: "progress_ledger \<Rightarrow> bool" where
  "ledger_inv l \<longleftrightarrow>
     rows_bounded (rows l)
     \<and> distinct (map index (agent_rows (rows l)))
     \<and> (\<forall>r \<in> set (rows l). preview_ok r)"

lemma log_row_rows [simp]: "agent_rows [log_row i m] = []" "logs [log_row i m] = [log_row i m]"
  by (simp_all add: agent_rows_def logs_def log_row_def)

lemma enforce_agent_rows [simp]:
  "agent_rows (rows (enforce_progress_bound l)) = agent_rows (rows l)"
  by (simp add: enforce_progress_bound_def)

lemma enforce_logs:
  "logs (rows (enforce_progress_bound l)) =
     drop (if length (rows l) > MAX_PROGRESS_ROWS then length (rows l) - PROGRESS_TRIM_TARGET else 0)
       (logs (rows l))"
  by (simp add: enforce_progress_bound_def)

lemma enforce_next [simp]: "next_log_index (enforce_progress_bound l) = next_log_index l"
  by (simp add: enforce_progress_bound_def)

lemma enforce_set: "set (rows (enforce_progress_bound l)) \<subseteq> set (rows l)"
  using set_evict by (simp add: enforce_progress_bound_def)

lemma enforce_bounded:
  assumes "length (logs (rows l)) \<le> MAX_LOG_MESSAGES"
  shows "rows_bounded (rows (enforce_progress_bound l))"
proof (cases "length (rows l) > MAX_PROGRESS_ROWS")
  case True
  let ?rs = "rows (enforce_progress_bound l)"
  have len: "length ?rs = length (agent_rows (rows l)) + (length (logs (rows l)) - (length (rows l) - PROGRESS_TRIM_TARGET))"
    using True by (simp add: enforce_progress_bound_def length_evict)
  have logs: "length (logs ?rs) = length (logs (rows l)) - (length (rows l) - PROGRESS_TRIM_TARGET)"
    using True by (simp add: enforce_logs)
  have "length ?rs \<le> MAX_PROGRESS_ROWS" if "0 < length (logs ?rs)"
    using that len logs assms length_split_rows [of "rows l"] True
    by (simp add: progress_limits)
  then have "length ?rs \<le> MAX_PROGRESS_ROWS \<or> logs ?rs = []"
    by (metis length_greater_0_conv)
  moreover have "length (logs ?rs) \<le> MAX_LOG_MESSAGES" using logs assms by linarith
  ultimately show ?thesis by (simp only: rows_bounded_def)
next
  case False
  with assms show ?thesis by (simp add: rows_bounded_def enforce_progress_bound_def)
qed

lemma normalize_preview_ok: "preview_ok (normalize_preview r)"
  by (auto simp: normalize_preview_def preview_ok_def progress_limits split: option.splits)

lemma normalize_same [simp]:
  "kind (normalize_preview r) = kind r" "index (normalize_preview r) = index r"
  by (simp_all add: normalize_preview_def split: option.splits)

text \<open>Identity of the rows of one kind, as \<open>update_first\<close> leaves it.\<close>

lemma agent_rows_map:
  assumes "map (\<lambda>r. (kind r, index r)) ys = map (\<lambda>r. (kind r, index r)) xs"
  shows "map index (agent_rows ys) = map index (agent_rows xs)"
    and "length (logs ys) = length (logs xs)"
proof -
  have "map snd (filter (\<lambda>p. fst p = AgentRow) (map (\<lambda>r. (kind r, index r)) ys))
      = map snd (filter (\<lambda>p. fst p = AgentRow) (map (\<lambda>r. (kind r, index r)) xs))"
    using assms by simp
  then show "map index (agent_rows ys) = map index (agent_rows xs)"
    by (simp add: agent_rows_def filter_map comp_def)
  have "length (filter (\<lambda>p. fst p = LogRow) (map (\<lambda>r. (kind r, index r)) ys))
      = length (filter (\<lambda>p. fst p = LogRow) (map (\<lambda>r. (kind r, index r)) xs))"
    using assms by simp
  then show "length (logs ys) = length (logs xs)" by (simp add: logs_def filter_map comp_def)
qed

text \<open>Where an upserted agent row lands.\<close>

definition place_row :: "progress_row list \<Rightarrow> progress_row \<Rightarrow> progress_row list" where
  "place_row rs row =
     (case update_first (same_row row) (\<lambda>_. row) rs of Some rs' \<Rightarrow> rs' | None \<Rightarrow> rs @ [row])"

lemma upsert_eq:
  "upsert l row =
     (if kind row = LogRow then (False, l)
      else (True, enforce_progress_bound (l\<lparr>rows := place_row (rows l) (normalize_preview row)\<rparr>)))"
  by (simp add: upsert_def place_row_def Let_def)

lemma place_row_identity:
  assumes "kind row = AgentRow"
  shows "map index (agent_rows (place_row rs row)) =
      (if index row \<in> index ` set (agent_rows rs) then map index (agent_rows rs)
       else map index (agent_rows rs) @ [index row])"
    and "length (logs (place_row rs row)) = length (logs rs)"
proof -
  have iff: "(\<exists>x \<in> set rs. same_row row x) \<longleftrightarrow> index row \<in> index ` set (agent_rows rs)"
    using assms by (auto simp: same_row_def agent_rows_def image_iff)
  show "map index (agent_rows (place_row rs row)) =
      (if index row \<in> index ` set (agent_rows rs) then map index (agent_rows rs)
       else map index (agent_rows rs) @ [index row])"
    and "length (logs (place_row rs row)) = length (logs rs)"
  proof (atomize(full), cases "update_first (same_row row) (\<lambda>_. row) rs")
    case None
    then have "index row \<notin> index ` set (agent_rows rs)"
      using iff update_first_None [of "same_row row" "\<lambda>_. row" rs] by blast
    with None assms show "map index (agent_rows (place_row rs row)) =
      (if index row \<in> index ` set (agent_rows rs) then map index (agent_rows rs)
       else map index (agent_rows rs) @ [index row]) \<and> length (logs (place_row rs row)) = length (logs rs)"
      by (simp add: place_row_def agent_rows_def [of "[row]"] logs_def [of "[row]"])
  next
    case (Some rs')
    then have "map (\<lambda>r. (kind r, index r)) rs' = map (\<lambda>r. (kind r, index r)) rs"
      by (rule update_first_map) (simp add: same_row_def)
    moreover have "index row \<in> index ` set (agent_rows rs)"
      using Some iff update_first_None [of "same_row row" "\<lambda>_. row" rs] by auto
    ultimately show "map index (agent_rows (place_row rs row)) =
      (if index row \<in> index ` set (agent_rows rs) then map index (agent_rows rs)
       else map index (agent_rows rs) @ [index row]) \<and> length (logs (place_row rs row)) = length (logs rs)"
      using agent_rows_map [of rs' rs] Some by (simp add: place_row_def)
  qed
qed

lemma place_row_set: "set (place_row rs row) \<subseteq> insert row (set rs)"
  by (auto simp: place_row_def split: option.splits dest!: update_first_set)

lemma mark_skipped_identity:
  "map (\<lambda>r. (kind r, index r)) (rows (mark_skipped l i)) = map (\<lambda>r. (kind r, index r)) (rows l)"
proof (cases "update_first (\<lambda>r. kind r = AgentRow \<and> index r = i)
       (\<lambda>r. r\<lparr>row_state := StepError, skipped := True\<rparr>) (rows l)")
  case (Some rs)
  have "map (\<lambda>r. (kind r, index r)) rs = map (\<lambda>r. (kind r, index r)) (rows l)"
    by (rule update_first_map [OF Some]) simp
  with Some show ?thesis by (simp add: mark_skipped_def)
qed (simp add: mark_skipped_def)

lemma mark_skipped_set:
  "set (rows (mark_skipped l i)) \<subseteq> (\<lambda>r. r\<lparr>row_state := StepError, skipped := True\<rparr>) ` set (rows l) \<union> set (rows l)"
  by (auto simp: mark_skipped_def split: option.splits dest!: update_first_set)

lemma ledger_inv_upsert: "ledger_inv l \<Longrightarrow> ledger_inv (snd (upsert l row))"
proof (cases "kind row")
  case AgentRow
  assume inv: "ledger_inv l"
  let ?row = "normalize_preview row"
  let ?l = "l\<lparr>rows := place_row (rows l) ?row\<rparr>"
  have "length (logs (rows ?l)) \<le> MAX_LOG_MESSAGES"
    using inv AgentRow place_row_identity(2) [of ?row] by (simp add: ledger_inv_def rows_bounded_def)
  then have "rows_bounded (rows (enforce_progress_bound ?l))" by (rule enforce_bounded)
  moreover have "distinct (map index (agent_rows (place_row (rows l) ?row)))"
    using inv AgentRow place_row_identity(1) [of ?row "rows l"] by (simp add: ledger_inv_def)
  moreover have "\<forall>r \<in> set (rows (enforce_progress_bound ?l)). preview_ok r"
    using inv enforce_set [of ?l] place_row_set [of "rows l" ?row] normalize_preview_ok
    by (fastforce simp: ledger_inv_def)
  ultimately show ?thesis using AgentRow by (simp add: upsert_eq ledger_inv_def)
qed (simp add: upsert_eq)

lemma ledger_inv_append_log: "ledger_inv l \<Longrightarrow> ledger_inv (snd (append_log l m))"
proof -
  assume inv: "ledger_inv l"
  let ?rs = "rows l @ [log_row (next_log_index l) m]"
  let ?rs' = "evict_oldest_logs (length (logs ?rs) - MAX_LOG_MESSAGES) ?rs"
  let ?l = "l\<lparr>rows := ?rs', next_log_index := saturating_succ (next_log_index l)\<rparr>"
  have "rows_bounded (rows (enforce_progress_bound ?l))"
    by (rule enforce_bounded) simp
  moreover have "agent_rows ?rs' = agent_rows (rows l)"
    by simp
  moreover have "\<forall>r \<in> set (rows (enforce_progress_bound ?l)). preview_ok r"
  proof
    fix r assume "r \<in> set (rows (enforce_progress_bound ?l))"
    then have "r \<in> set ?rs"
      using enforce_set [of ?l] set_evict [of "length (logs ?rs) - MAX_LOG_MESSAGES" ?rs] by auto
    with inv show "preview_ok r" by (auto simp: ledger_inv_def preview_ok_def log_row_def)
  qed
  ultimately show ?thesis
    using inv by (simp add: append_log_def Let_def ledger_inv_def)
qed

lemma ledger_inv_mark_skipped: "ledger_inv l \<Longrightarrow> ledger_inv (mark_skipped l i)"
proof -
  assume inv: "ledger_inv l"
  note ids = agent_rows_map [OF mark_skipped_identity [of l i]]
  have "length (rows (mark_skipped l i)) = length (rows l)"
    using mark_skipped_identity [of l i] map_eq_imp_length_eq by blast
  moreover have "logs (rows (mark_skipped l i)) = [] \<longleftrightarrow> logs (rows l) = []"
    using ids(2) by (metis length_0_conv)
  ultimately show ?thesis
    using inv ids mark_skipped_set [of l i]
    by (fastforce simp: ledger_inv_def rows_bounded_def preview_ok_def)
qed

lemma ledger_inv_step: "ledger_inv l \<Longrightarrow> ledger_inv (ledger_step l op)"
  by (cases op) (simp_all add: ledger_inv_upsert ledger_inv_append_log ledger_inv_mark_skipped)

lemma ledger_inv_new: "ledger_inv ledger_new"
  by (simp add: ledger_inv_def ledger_new_def rows_bounded_def logs_def agent_rows_def)

interpretation ledger: total_machine "\<lambda>l. l = ledger_new" ledger_step ledger_inv
  by unfold_locales (simp_all add: ledger_inv_new ledger_inv_step)

text \<open>
  After any sequence of operations the ledger is within its bounds: at most 1000 rows
  unless every log row is already gone, at most 1000 log rows, no two agent rows with one index,
  and no preview longer than 400 code points.
\<close>

theorem progress_ledger_bounded:
  "ledger_inv (foldl ledger_step ledger_new ops)"
  by (rule ledger.foldl_inv) simp

section \<open>Order and retention\<close>

definition upsert_indices :: "ledger_op list \<Rightarrow> nat list" where
  "upsert_indices ops =
     concat (map (\<lambda>op. case op of Upsert r \<Rightarrow> if kind r = AgentRow then [index r] else [] | _ \<Rightarrow> []) ops)"

text \<open>Distinct elements in the order of their first occurrence.\<close>

fun first_seen :: "nat list \<Rightarrow> nat list \<Rightarrow> nat list" where
  "first_seen seen [] = seen"
| "first_seen seen (x # xs) = first_seen (if x \<in> set seen then seen else seen @ [x]) xs"

definition logged :: "ledger_op list \<Rightarrow> ustring list" where
  "logged ops = concat (map (\<lambda>op. case op of AppendLog m \<Rightarrow> [m] | _ \<Rightarrow> []) ops)"

lemma ledger_step_indices:
  "map index (agent_rows (rows (ledger_step l op))) =
     first_seen (map index (agent_rows (rows l))) (upsert_indices [op])"
proof (cases op)
  case (Upsert r)
  then show ?thesis
    using place_row_identity(1) [of "normalize_preview r" "rows l"]
    by (cases "kind r") (simp_all add: upsert_eq upsert_indices_def)
next
  case (AppendLog m)
  then show ?thesis
    by (simp add: append_log_def Let_def upsert_indices_def)
next
  case (MarkSkipped i)
  then show ?thesis
    using agent_rows_map(1) [OF mark_skipped_identity [of l i]] by (simp add: upsert_indices_def)
qed

lemma first_seen_append: "first_seen seen (xs @ ys) = first_seen (first_seen seen xs) ys"
  by (induction xs arbitrary: seen) auto

lemma ledger_indices:
  "map index (agent_rows (rows (foldl ledger_step l ops))) =
     first_seen (map index (agent_rows (rows l))) (upsert_indices ops)"
proof (induction ops arbitrary: l)
  case Nil
  then show ?case by (simp add: upsert_indices_def)
next
  case (Cons op ops)
  have "upsert_indices (op # ops) = upsert_indices [op] @ upsert_indices ops"
    by (simp add: upsert_indices_def)
  with Cons show ?case by (simp add: ledger_step_indices first_seen_append)
qed

lemma logs_place_row: "kind row = AgentRow \<Longrightarrow> logs (place_row rs row) = logs rs"
proof (cases "update_first (same_row row) (\<lambda>_. row) rs")
  case (Some rs')
  assume row: "kind row = AgentRow"
  from Some obtain i where i: "i < length rs" "same_row row (rs ! i)" "rs' = rs[i := row]"
    by (auto simp: update_first_Some)
  have "logs (rs[i := row]) = logs rs"
    unfolding logs_def using i row
    by (subst (2) id_take_nth_drop [OF i(1)]) (simp add: upd_conv_take_nth_drop same_row_def)
  with Some i show ?thesis by (simp add: place_row_def)
qed (simp add: place_row_def logs_def)

lemma logs_mark_skipped: "logs (rows (mark_skipped l i)) = logs (rows l)"
proof (cases "update_first (\<lambda>r. kind r = AgentRow \<and> index r = i)
       (\<lambda>r. r\<lparr>row_state := StepError, skipped := True\<rparr>) (rows l)")
  case (Some rs')
  then obtain j where j: "j < length (rows l)" "kind (rows l ! j) = AgentRow"
    "rs' = (rows l)[j := (rows l ! j)\<lparr>row_state := StepError, skipped := True\<rparr>]"
    by (auto simp: update_first_Some)
  have "logs rs' = logs (rows l)"
    unfolding logs_def j(3) using j(1,2)
    by (subst (3) id_take_nth_drop [OF j(1)]) (simp add: upd_conv_take_nth_drop)
  with Some show ?thesis by (simp add: mark_skipped_def)
qed (simp add: mark_skipped_def)

lemma ledger_step_logs:
  "\<exists>n. logs (rows (ledger_step l op)) =
     drop n (logs (rows l) @ (case op of AppendLog m \<Rightarrow> [log_row (next_log_index l) m] | _ \<Rightarrow> []))"
proof (cases op)
  case (Upsert r)
  then show ?thesis
    by (cases "kind r") (auto simp: upsert_eq enforce_logs logs_place_row intro: exI [of _ 0])
next
  case (AppendLog m)
  then show ?thesis
    by (auto simp: append_log_def Let_def enforce_logs simp del: drop_append)
next
  case (MarkSkipped i)
  then show ?thesis by (auto simp: logs_mark_skipped intro: exI [of _ 0])
qed

text \<open>Dropping from an already shortened list drops from the original.\<close>

lemma drop_of_drop_append: "\<exists>k. drop n (drop m xs @ ys) = drop k (xs @ ys)"
proof (cases "m \<le> length xs")
  case True
  then have "drop n (drop m xs @ ys) = drop (m + n) (xs @ ys)"
    by (metis append_eq_conv_conj drop_drop drop_append diff_is_0_eq drop0 add.commute)
  then show ?thesis ..
next
  case False
  then have "drop n (drop m xs @ ys) = drop (length xs + n) (xs @ ys)" by simp
  then show ?thesis ..
qed

definition messages :: "progress_row list \<Rightarrow> ustring option list" where
  "messages rs = map message rs"

lemma ledger_logs:
  "\<exists>k. messages (logs (rows (foldl ledger_step l ops))) =
     drop k (messages (logs (rows l)) @ map Some (logged ops))"
proof (induction ops arbitrary: l)
  case Nil
  then show ?case by (auto simp: logged_def intro: exI [of _ 0])
next
  case (Cons op ops)
  let ?new = "case op of AppendLog m \<Rightarrow> [m] | _ \<Rightarrow> []"
  obtain n where "logs (rows (ledger_step l op)) =
     drop n (logs (rows l) @ (case op of AppendLog m \<Rightarrow> [log_row (next_log_index l) m] | _ \<Rightarrow> []))"
    using ledger_step_logs by blast
  moreover have "map message (case op of AppendLog m \<Rightarrow> [log_row (next_log_index l) m] | _ \<Rightarrow> [])
      = map Some ?new"
    by (cases op) (simp_all add: log_row_def)
  ultimately have one: "messages (logs (rows (ledger_step l op))) =
      drop n (messages (logs (rows l)) @ map Some ?new)"
    by (simp only: messages_def drop_map [symmetric] map_append)
  obtain k where "messages (logs (rows (foldl ledger_step (ledger_step l op) ops))) =
     drop k (drop n (messages (logs (rows l)) @ map Some ?new) @ map Some (logged ops))"
    using Cons.IH [of "ledger_step l op"] one by auto
  moreover have "logged (op # ops) = ?new @ logged ops" by (simp add: logged_def)
  ultimately show ?case
    using drop_of_drop_append [of k n "messages (logs (rows l)) @ map Some ?new" "map Some (logged ops)"]
    by auto
qed

text \<open>
  Agent rows are never evicted and never reordered: they stand in the order in which
  their indices were first upserted. The log rows that remain are the most recent ones, in order.
\<close>

theorem progress_order_and_retention:
  "map index (agent_rows (rows (foldl ledger_step ledger_new ops))) = first_seen [] (upsert_indices ops)
   \<and> (\<exists>k. messages (logs (rows (foldl ledger_step ledger_new ops))) = drop k (map Some (logged ops)))"
  using ledger_indices [of ledger_new ops] ledger_logs [of ledger_new ops]
  by (simp add: ledger_new_def agent_rows_def logs_def messages_def)

end
