(* ===== verification/Protocol.thy ===== *)
theory Protocol
  imports Prelude
begin

text \<open>
  \<^verbatim>\<open>src-tauri/remote-agent/src/protocol.rs\<close>: the frames of the link and the preamble before them. A
  \<open>Read\<close> is the list of what its next reads give; a read past its end gives no bytes. The JSON of a
  header (\<^verbatim>\<open>serde_json\<close>) is the argument \<open>ser\<close> or \<open>de\<close>. Bytes are numbers below 256.
\<close>

section \<open>Limits\<close>

definition MAX_HEADER_BYTES :: nat where
  "MAX_HEADER_BYTES = 2 ^ 20"

definition MAX_BODY_BYTES :: nat where
  "MAX_BODY_BYTES = 32 * 2 ^ 20"

definition OUTPUT_CHUNK_BYTES :: nat where
  "OUTPUT_CHUNK_BYTES = 64 * 1024"

definition MAX_PREAMBLE_BYTES :: nat where
  "MAX_PREAMBLE_BYTES = 64 * 1024"

section \<open>Reading a byte stream\<close>

datatype input_chunk = Avail "nat list" | Interrupted | Failed string

datatype io_error = WasInterrupted | ReadFailed string

fun read_some :: "nat \<Rightarrow> input_chunk list \<Rightarrow> (io_error + nat list) \<times> input_chunk list" where
  "read_some n [] = (Inr [], [])"
| "read_some n (Avail xs # cs) =
     (if length xs \<le> n then (Inr xs, cs) else (Inr (take n xs), Avail (drop n xs) # cs))"
| "read_some n (Interrupted # cs) = (Inl WasInterrupted, cs)"
| "read_some n (Failed e # cs) = (Inl (ReadFailed e), cs)"

fun weight :: "input_chunk list \<Rightarrow> nat" where
  "weight [] = 0"
| "weight (Avail xs # cs) = Suc (length xs) + weight cs"
| "weight (_ # cs) = Suc (weight cs)"

lemma read_some_weight: "read_some n cs = (r, cs') \<Longrightarrow> 0 < n \<Longrightarrow> r \<noteq> Inr [] \<Longrightarrow> weight cs' < weight cs"
  by (cases "(n, cs)" rule: read_some.cases) (auto split: if_splits)

datatype frame_error =
    HeaderLength nat
  | BodyLength nat
  | EndedInside
  | Io string
  | Unreadable string

text \<open>The loop that reads the eight bytes before a header; \<open>None\<close> is an end of stream before the first.\<close>

function read_prefix ::
  "nat list \<Rightarrow> input_chunk list \<Rightarrow> (frame_error + nat list option) \<times> input_chunk list" where
  "read_prefix filled cs =
     (if length filled \<ge> 8 then (Inr (Some filled), cs) else
      case read_some (8 - length filled) cs of
        (Inr xs, cs') \<Rightarrow>
          if xs = [] then (if filled = [] then (Inr None, cs') else (Inl EndedInside, cs'))
          else read_prefix (filled @ xs) cs'
      | (Inl WasInterrupted, cs') \<Rightarrow> read_prefix filled cs'
      | (Inl (ReadFailed e), cs') \<Rightarrow> (Inl (Io e), cs'))"
  by pat_completeness auto
termination
  by (relation "measure (\<lambda>(filled, cs). weight cs)") (auto dest!: read_some_weight [OF sym])

text \<open>\<open>read_exact\<close>.\<close>

function read_exact :: "nat \<Rightarrow> nat list \<Rightarrow> input_chunk list \<Rightarrow> (frame_error + nat list) \<times> input_chunk list" where
  "read_exact n filled cs =
     (if length filled \<ge> n then (Inr filled, cs) else
      case read_some (n - length filled) cs of
        (Inr xs, cs') \<Rightarrow> if xs = [] then (Inl EndedInside, cs') else read_exact n (filled @ xs) cs'
      | (Inl WasInterrupted, cs') \<Rightarrow> read_exact n filled cs'
      | (Inl (ReadFailed e), cs') \<Rightarrow> (Inl (Io e), cs'))"
  by pat_completeness auto
termination
  by (relation "measure (\<lambda>(n, filled, cs). weight cs)") (auto dest!: read_some_weight [OF sym])

declare read_prefix.simps [simp del] read_exact.simps [simp del]

section \<open>Frames\<close>

definition to_be_bytes :: "nat \<Rightarrow> nat list" where
  "to_be_bytes n = [n div 2 ^ 24 mod 256, n div 2 ^ 16 mod 256, n div 2 ^ 8 mod 256, n mod 256]"

fun from_be_bytes :: "nat list \<Rightarrow> nat" where
  "from_be_bytes bs = foldl (\<lambda>n b. 256 * n + b) 0 bs"

definition encode_frame :: "('h \<Rightarrow> nat list) \<Rightarrow> 'h \<Rightarrow> nat list \<Rightarrow> frame_error + nat list" where
  "encode_frame ser h body =
     (let header = ser h in
      if length header > MAX_HEADER_BYTES then Inl (HeaderLength (length header))
      else if length body > MAX_BODY_BYTES then Inl (BodyLength (length body))
      else Inr (to_be_bytes (length header mod 2 ^ 32) @ to_be_bytes (length body mod 2 ^ 32) @ header @ body))"

definition read_frame_as ::
  "(nat list \<Rightarrow> string + 'h) \<Rightarrow> input_chunk list \<Rightarrow> (frame_error + ('h \<times> nat list) option) \<times> input_chunk list" where
  "read_frame_as de cs =
     (case read_prefix [] cs of
        (Inl e, cs) \<Rightarrow> (Inl e, cs)
      | (Inr None, cs) \<Rightarrow> (Inr None, cs)
      | (Inr (Some prefix), cs) \<Rightarrow>
          (let header_len = from_be_bytes (take 4 prefix); body_len = from_be_bytes (drop 4 prefix) in
           if header_len = 0 \<or> header_len > MAX_HEADER_BYTES then (Inl (HeaderLength header_len), cs)
           else if body_len > MAX_BODY_BYTES then (Inl (BodyLength body_len), cs)
           else case read_exact header_len [] cs of
               (Inl e, cs) \<Rightarrow> (Inl e, cs)
             | (Inr header, cs) \<Rightarrow>
                 (case read_exact body_len [] cs of
                    (Inl e, cs) \<Rightarrow> (Inl e, cs)
                  | (Inr body, cs) \<Rightarrow>
                      (case de header of Inl e \<Rightarrow> (Inl (Unreadable e), cs) | Inr h \<Rightarrow> (Inr (Some (h, body)), cs)))))"

section \<open>The preamble\<close>

definition is_ascii_space :: "nat \<Rightarrow> bool" where
  "is_ascii_space b \<longleftrightarrow> b \<in> {9, 10, 12, 13, 32}"

definition ascii :: "string \<Rightarrow> nat list" where
  "ascii s = map of_char s"

definition ready_line :: "nat list \<Rightarrow> nat list" where
  "ready_line nonce = ascii ''MEWORK-REMOTE-READY '' @ nonce"

definition sync_line :: "nat list \<Rightarrow> nat list" where
  "sync_line nonce = [10] @ ready_line nonce @ [10]"

definition missing_line :: "nat list \<Rightarrow> nat list" where
  "missing_line nonce = ascii ''MEWORK-REMOTE-MISSING'' @ [32] @ nonce @ [32]"

text \<open>
  \<open>Missing\<close> holds the rest of its line, which the code splits at white space into system and machine.
  A failure at the end of the stream holds the line the message quotes.
\<close>

datatype preamble = Ready | Missing "nat list"

datatype preamble_error = ClosedEarly "nat list" | TooMuch | PreambleIo string

definition trim_cr :: "nat list \<Rightarrow> nat list" where
  "trim_cr line = rev (dropWhile (\<lambda>b. b = 13) (rev line))"

function read_preamble ::
  "nat list \<Rightarrow> nat list \<Rightarrow> nat list \<Rightarrow> nat \<Rightarrow> input_chunk list \<Rightarrow> (preamble_error + preamble) \<times> input_chunk list" where
  "read_preamble nonce line last_line consumed cs =
     (case read_some 1 cs of
        (Inl WasInterrupted, cs') \<Rightarrow> read_preamble nonce line last_line consumed cs'
      | (Inl (ReadFailed e), cs') \<Rightarrow> (Inl (PreambleIo e), cs')
      | (Inr xs, cs') \<Rightarrow>
          if xs = []
          then (Inl (ClosedEarly (if \<exists>b \<in> set line. \<not> is_ascii_space b then line else last_line)), cs')
          else if consumed + 1 > MAX_PREAMBLE_BYTES then (Inl TooMuch, cs')
          else if hd xs \<noteq> 10
          then read_preamble nonce (if length line < 4096 then line @ [hd xs] else line) last_line (consumed + 1) cs'
          else if trim_cr line = ready_line nonce then (Inr Ready, cs')
          else if take (length (missing_line nonce)) (trim_cr line) = missing_line nonce
          then (Inr (Missing (drop (length (missing_line nonce)) (trim_cr line))), cs')
          else if \<exists>b \<in> set line. \<not> is_ascii_space b
          then read_preamble nonce [] line (consumed + 1) cs'
          else read_preamble nonce [] last_line (consumed + 1) cs')"
  by pat_completeness auto
termination
  by (relation "measure (\<lambda>(nonce, line, last_line, consumed, cs). weight cs)") (auto dest!: read_some_weight [OF sym])

declare read_preamble.simps [simp del]

section \<open>Reading what was written\<close>

text \<open>A stream that does not fail, and says it is at its end only there.\<close>

fun clean :: "input_chunk list \<Rightarrow> bool" where
  "clean [] = True"
| "clean (Avail xs # cs) = (xs \<noteq> [] \<and> clean cs)"
| "clean (Interrupted # cs) = clean cs"
| "clean (Failed e # cs) = False"

fun content :: "input_chunk list \<Rightarrow> nat list" where
  "content [] = []"
| "content (Avail xs # cs) = xs @ content cs"
| "content (_ # cs) = content cs"

lemma read_some_clean:
  assumes "clean cs" and "0 < n"
  obtains (interrupted) cs' where "read_some n cs = (Inl WasInterrupted, cs')" "clean cs'" "content cs' = content cs"
  | (at_end) cs' where "read_some n cs = (Inr [], cs')" "clean cs'" "content cs = []" "content cs' = []"
  | (data) xs cs' where "read_some n cs = (Inr xs, cs')" "xs \<noteq> []" "length xs \<le> n" "clean cs'"
      "content cs = xs @ content cs'"
proof (cases cs)
  case Nil
  with that show ?thesis by simp
next
  case (Cons c rest)
  show ?thesis
  proof (cases c)
    case (Avail xs)
    with Cons assms that(3) show ?thesis by (cases "length xs \<le> n") simp_all
  next
    case Interrupted
    with Cons assms that(1) show ?thesis by simp
  next
    case (Failed e)
    with Cons assms(1) show ?thesis by simp
  qed
qed

lemma read_exact_clean:
  assumes "clean cs" and "length filled \<le> n"
  shows "\<exists>cs'. read_exact n filled cs =
      (if n \<le> length filled + length (content cs)
       then Inr (filled @ take (n - length filled) (content cs)) else Inl EndedInside, cs')
    \<and> (n \<le> length filled + length (content cs)
         \<longrightarrow> clean cs' \<and> content cs' = drop (n - length filled) (content cs))"
  using assms
proof (induction n filled cs rule: read_exact.induct)
  case (1 n filled cs)
  show ?case
  proof (cases "length filled = n")
    case True
    with 1(3) show ?thesis by (subst read_exact.simps) simp
  next
    case False
    with 1(4) have less: "length filled < n" by simp
    then have room: "0 < n - length filled" by simp
    from 1(3) room show ?thesis
    proof (cases rule: read_some_clean)
      case (interrupted cs')
      with less have step: "read_exact n filled cs = read_exact n filled cs'" by (subst read_exact.simps) simp
      have "\<not> n \<le> length filled" using less by simp
      from 1(1) [OF this interrupted(1) [symmetric] refl refl interrupted(2) 1(4)] show ?thesis
        unfolding step interrupted(3) .
    next
      case (at_end cs')
      with less show ?thesis by (subst read_exact.simps) simp
    next
      case (data xs cs')
      with less have step: "read_exact n filled cs = read_exact n (filled @ xs) cs'" by (subst read_exact.simps) simp
      have "length (filled @ xs) \<le> n" using data(3) less by simp
      from 1(2) [OF _ data(1) [symmetric] refl data(2) data(4) this] less
      obtain cs'' where "read_exact n (filled @ xs) cs' =
          (if n \<le> length (filled @ xs) + length (content cs')
           then Inr ((filled @ xs) @ take (n - length (filled @ xs)) (content cs')) else Inl EndedInside, cs'')"
        "n \<le> length (filled @ xs) + length (content cs')
           \<longrightarrow> clean cs'' \<and> content cs'' = drop (n - length (filled @ xs)) (content cs')"
        by auto
      moreover have "n - length filled = length xs + (n - length (filled @ xs))" using data(3) less by simp
      ultimately show ?thesis using data(5) by (auto simp: step add.assoc)
    qed
  qed
qed

lemma read_prefix_clean:
  assumes "clean cs" and "length filled \<le> 8"
  shows "\<exists>cs'. read_prefix filled cs =
      (if 8 \<le> length filled + length (content cs)
       then Inr (Some (filled @ take (8 - length filled) (content cs)))
       else if filled @ content cs = [] then Inr None else Inl EndedInside, cs')
    \<and> (8 \<le> length filled + length (content cs)
         \<longrightarrow> clean cs' \<and> content cs' = drop (8 - length filled) (content cs))"
  using assms
proof (induction filled cs rule: read_prefix.induct)
  case (1 filled cs)
  show ?case
  proof (cases "length filled = 8")
    case True
    with 1(3) show ?thesis by (subst read_prefix.simps) simp
  next
    case False
    with 1(4) have less: "length filled < 8" by simp
    then have room: "0 < 8 - length filled" by simp
    from 1(3) room show ?thesis
    proof (cases rule: read_some_clean)
      case (interrupted cs')
      with less have step: "read_prefix filled cs = read_prefix filled cs'" by (subst read_prefix.simps) simp
      have "\<not> 8 \<le> length filled" using less by simp
      from 1(1) [OF this interrupted(1) [symmetric] refl refl interrupted(2) 1(4)] show ?thesis
        unfolding step interrupted(3) .
    next
      case (at_end cs')
      with less show ?thesis by (subst read_prefix.simps) simp
    next
      case (data xs cs')
      with less have step: "read_prefix filled cs = read_prefix (filled @ xs) cs'" by (subst read_prefix.simps) simp
      have "length (filled @ xs) \<le> 8" using data(3) less by simp
      from 1(2) [OF _ data(1) [symmetric] refl data(2) data(4) this] less
      obtain cs'' where "read_prefix (filled @ xs) cs' =
          (if 8 \<le> length (filled @ xs) + length (content cs')
           then Inr (Some ((filled @ xs) @ take (8 - length (filled @ xs)) (content cs')))
           else if (filled @ xs) @ content cs' = [] then Inr None else Inl EndedInside, cs'')"
        "8 \<le> length (filled @ xs) + length (content cs')
           \<longrightarrow> clean cs'' \<and> content cs'' = drop (8 - length (filled @ xs)) (content cs')"
        by auto
      moreover have "8 - length filled = length xs + (8 - length (filled @ xs))" using data(3) less by simp
      ultimately show ?thesis using data(2,5) by (auto simp: step add.assoc)
    qed
  qed
qed

lemma be_bytes_length [simp]: "length (to_be_bytes n) = 4"
  by (simp add: to_be_bytes_def)

lemma be_bytes_round_trip: "n < 2 ^ 32 \<Longrightarrow> from_be_bytes (to_be_bytes n) = n"
proof -
  assume "n < 2 ^ 32"
  then have "n div 2 ^ 24 < 256" by (simp add: less_mult_imp_div_less)
  moreover have "n div 2 ^ 8 = 256 * (n div 2 ^ 16) + n div 2 ^ 8 mod 256"
    "n div 2 ^ 16 = 256 * (n div 2 ^ 24) + n div 2 ^ 16 mod 256" "n = 256 * (n div 2 ^ 8) + n mod 256"
    using mult_div_mod_eq [of 256 "n div 2 ^ 8"] mult_div_mod_eq [of 256 "n div 2 ^ 16"] mult_div_mod_eq [of 256 n]
    by (simp_all add: div_mult2_eq [symmetric])
  ultimately show ?thesis by (simp add: to_be_bytes_def)
qed

lemma header_fits: "length xs \<le> MAX_HEADER_BYTES \<Longrightarrow> length xs < 2 ^ 32"
  by (simp add: MAX_HEADER_BYTES_def)

lemma body_fits: "length xs \<le> MAX_BODY_BYTES \<Longrightarrow> length xs < 2 ^ 32"
  by (simp add: MAX_BODY_BYTES_def)

lemma encode_frame_eq:
  assumes "encode_frame ser h body = Inr frame"
  shows "frame = to_be_bytes (length (ser h)) @ to_be_bytes (length body) @ ser h @ body"
    and "length (ser h) \<le> MAX_HEADER_BYTES" and "length body \<le> MAX_BODY_BYTES"
  using assms header_fits [of "ser h"] body_fits [of body]
  by (auto simp: encode_frame_def Let_def split: if_splits)

lemma read_after_prefix:
  assumes frame: "encode_frame ser h body = Inr frame" and ser: "ser h \<noteq> []"
    and cs: "clean cs" "content cs = to_be_bytes (length (ser h)) @ to_be_bytes (length body) @ payload"
  shows "\<exists>cs'. clean cs' \<and> content cs' = payload \<and> read_frame_as de cs =
    (case read_exact (length (ser h)) [] cs' of
        (Inl e, cs) \<Rightarrow> (Inl e, cs)
      | (Inr header, cs) \<Rightarrow>
          (case read_exact (length body) [] cs of
             (Inl e, cs) \<Rightarrow> (Inl e, cs)
           | (Inr body, cs) \<Rightarrow>
               (case de header of Inl e \<Rightarrow> (Inl (Unreadable e), cs) | Inr h \<Rightarrow> (Inr (Some (h, body)), cs))))"
proof -
  note fits = encode_frame_eq [OF frame]
  obtain cs' where prefix: "read_prefix [] cs = (Inr (Some (take 8 (content cs))), cs')" "clean cs'"
      "content cs' = drop 8 (content cs)"
    using read_prefix_clean [OF cs(1), of "[]"] cs(2) by auto
  moreover have "take 8 (content cs) = to_be_bytes (length (ser h)) @ to_be_bytes (length body)"
    by (simp add: cs(2))
  moreover have "drop 8 (content cs) = payload" by (simp add: cs(2))
  moreover have "from_be_bytes (to_be_bytes (length (ser h))) = length (ser h)"
    by (rule be_bytes_round_trip, rule header_fits, rule fits(2))
  moreover have "from_be_bytes (to_be_bytes (length body)) = length body"
    by (rule be_bytes_round_trip, rule body_fits, rule fits(3))
  ultimately show ?thesis
    using ser fits(2,3) by (intro exI [of _ cs']) (simp add: read_frame_as_def Let_def del: from_be_bytes.simps)
qed

lemma read_one_frame:
  assumes frame: "encode_frame ser h body = Inr frame" and ser: "ser h \<noteq> []" "de (ser h) = Inr h"
    and cs: "clean cs" "content cs = frame @ rest"
  shows "\<exists>cs'. read_frame_as de cs = (Inr (Some (h, body)), cs') \<and> clean cs' \<and> content cs' = rest"
proof -
  have "content cs = to_be_bytes (length (ser h)) @ to_be_bytes (length body) @ (ser h @ body @ rest)"
    using cs(2) encode_frame_eq(1) [OF frame] by simp
  from read_after_prefix [OF frame ser(1) cs(1) this, of de] obtain cs1 where one: "clean cs1"
    "content cs1 = ser h @ body @ rest" "read_frame_as de cs =
    (case read_exact (length (ser h)) [] cs1 of
        (Inl e, cs) \<Rightarrow> (Inl e, cs)
      | (Inr header, cs) \<Rightarrow>
          (case read_exact (length body) [] cs of
             (Inl e, cs) \<Rightarrow> (Inl e, cs)
           | (Inr body, cs) \<Rightarrow>
               (case de header of Inl e \<Rightarrow> (Inl (Unreadable e), cs) | Inr h \<Rightarrow> (Inr (Some (h, body)), cs))))"
    by blast
  obtain cs2 where two: "read_exact (length (ser h)) [] cs1 = (Inr (ser h), cs2)" "clean cs2" "content cs2 = body @ rest"
    using read_exact_clean [OF one(1), of "[]" "length (ser h)"] one(2) by auto
  obtain cs3 where "read_exact (length body) [] cs2 = (Inr body, cs3)" "clean cs3" "content cs3 = rest"
    using read_exact_clean [OF two(2), of "[]" "length body"] two(3) by auto
  with one(3) two(1) ser(2) show ?thesis by simp
qed

text \<open>What the first \<open>n\<close> reads of frames give.\<close>

primrec read_frames ::
  "(nat list \<Rightarrow> string + 'h) \<Rightarrow> nat \<Rightarrow> input_chunk list \<Rightarrow> (frame_error + ('h \<times> nat list) option) list" where
  "read_frames de 0 cs = []"
| "read_frames de (Suc n) cs = (case read_frame_as de cs of (r, cs') \<Rightarrow> r # read_frames de n cs')"

lemma read_frame_at_end:
  assumes "clean cs" and "content cs = []"
  shows "fst (read_frame_as de cs) = Inr None"
proof -
  from read_prefix_clean [OF assms(1), of "[]"] assms(2) obtain cs' where "read_prefix [] cs = (Inr None, cs')" by auto
  then show ?thesis by (simp add: read_frame_as_def)
qed

lemma read_frames_of_writer:
  assumes "\<And>h. de (ser h) = Inr h" and "\<And>h. ser h \<noteq> []"
    and "\<And>cs. clean cs \<Longrightarrow> content cs = tail \<Longrightarrow> fst (read_frame_as de cs) = r"
    and "list_all2 (\<lambda>(h, body) frame. encode_frame ser h body = Inr frame) fs frames"
    and "clean cs" and "content cs = concat frames @ tail"
  shows "read_frames de (length fs + 1) cs = map (\<lambda>f. Inr (Some f)) fs @ [r]"
  using assms(4-6)
proof (induction fs arbitrary: frames cs)
  case Nil
  with assms(3) [OF Nil(2)] show ?case by (cases "read_frame_as de cs") simp
next
  case (Cons f fs)
  obtain h body where f: "f = (h, body)" by (cases f)
  with Cons.prems(1) obtain frame frames' where frames: "frames = frame # frames'"
    "encode_frame ser h body = Inr frame"
    "list_all2 (\<lambda>(h, body) frame. encode_frame ser h body = Inr frame) fs frames'"
    by (auto simp: list_all2_Cons1)
  from read_one_frame [where ser = ser and de = de, OF frames(2) assms(2) assms(1) Cons.prems(2), of "concat frames' @ tail"]
    Cons.prems(3) frames(1)
  obtain cs' where "read_frame_as de cs = (Inr (Some (h, body)), cs')" "clean cs'" "content cs' = concat frames' @ tail"
    by auto
  with Cons.IH [OF frames(3)] show ?case by (simp add: f)
qed

lemma read_cut_frame:
  assumes frame: "encode_frame ser h body = Inr frame" and ser: "ser h \<noteq> []"
    and cs: "clean cs" "content cs = take k frame" and k: "0 < k" "k < length frame"
  shows "fst (read_frame_as de cs) = Inl EndedInside"
proof -
  note eq = encode_frame_eq [OF frame]
  have len: "length (content cs) = k" using cs(2) k by simp
  show ?thesis
  proof (cases "k < 8")
    case True
    with read_prefix_clean [OF cs(1), of "[]"] len k(1)
    obtain cs' where "read_prefix [] cs = (Inl EndedInside, cs')" by auto
    then show ?thesis by (simp add: read_frame_as_def)
  next
    case False
    then have "content cs = to_be_bytes (length (ser h)) @ to_be_bytes (length body) @ take (k - 8) (ser h @ body)"
      by (simp add: cs(2) eq(1))
    from read_after_prefix [OF frame ser cs(1) this, of de] obtain cs1 where one: "clean cs1"
      "content cs1 = take (k - 8) (ser h @ body)" "read_frame_as de cs =
      (case read_exact (length (ser h)) [] cs1 of
          (Inl e, cs) \<Rightarrow> (Inl e, cs)
        | (Inr header, cs) \<Rightarrow>
            (case read_exact (length body) [] cs of
               (Inl e, cs) \<Rightarrow> (Inl e, cs)
             | (Inr body, cs) \<Rightarrow>
                 (case de header of Inl e \<Rightarrow> (Inl (Unreadable e), cs) | Inr h \<Rightarrow> (Inr (Some (h, body)), cs))))"
      by blast
    have short: "k - 8 < length (ser h) + length body" using False k(2) by (simp add: eq(1))
    show ?thesis
    proof (cases "k - 8 < length (ser h)")
      case True
      with read_exact_clean [OF one(1), of "[]" "length (ser h)"] one(2)
      obtain cs2 where "read_exact (length (ser h)) [] cs1 = (Inl EndedInside, cs2)" by auto
      with one(3) show ?thesis by simp
    next
      case long: False
      with read_exact_clean [OF one(1), of "[]" "length (ser h)"] one(2)
      obtain hd' cs2 where two: "read_exact (length (ser h)) [] cs1 = (Inr hd', cs2)" "clean cs2"
        "content cs2 = drop (length (ser h)) (take (k - 8) (ser h @ body))" by auto
      have "length (content cs2) < length body" using short long two(3) by simp
      with read_exact_clean [OF two(2), of "[]" "length body"]
      obtain cs3 where "read_exact (length body) [] cs2 = (Inl EndedInside, cs3)" by auto
      with one(3) two(1) show ?thesis by simp
    qed
  qed
qed

section \<open>Finding the start of the frames\<close>

definition answers :: "nat list \<Rightarrow> nat list \<Rightarrow> bool" where
  "answers nonce line \<longleftrightarrow> trim_cr line = ready_line nonce
     \<or> take (length (missing_line nonce)) (trim_cr line) = missing_line nonce"

definition add_to_line :: "nat list \<Rightarrow> nat \<Rightarrow> nat list" where
  "add_to_line line b = (if length line < 4096 then line @ [b] else line)"

text \<open>No line of the banner, nor its unfinished last one, answers for the agent.\<close>

fun quiet :: "nat list \<Rightarrow> nat list \<Rightarrow> nat list \<Rightarrow> bool" where
  "quiet nonce line [] = (\<not> answers nonce line)"
| "quiet nonce line (b # bs) =
     (if b = 10 then \<not> answers nonce line \<and> quiet nonce [] bs else quiet nonce (add_to_line line b) bs)"

lemma read_one_byte:
  assumes "clean cs" and "content cs = b # bs"
  shows "\<exists>cs'. clean cs' \<and> content cs' = bs
    \<and> (\<forall>nonce line last_line consumed. read_preamble nonce line last_line consumed cs =
         (if consumed + 1 > MAX_PREAMBLE_BYTES then (Inl TooMuch, cs')
          else if b \<noteq> 10 then read_preamble nonce (add_to_line line b) last_line (consumed + 1) cs'
          else if trim_cr line = ready_line nonce then (Inr Ready, cs')
          else if take (length (missing_line nonce)) (trim_cr line) = missing_line nonce
          then (Inr (Missing (drop (length (missing_line nonce)) (trim_cr line))), cs')
          else read_preamble nonce [] (if \<exists>b \<in> set line. \<not> is_ascii_space b then line else last_line) (consumed + 1) cs'))"
  using assms
proof (induction cs rule: clean.induct)
  case (2 xs cs)
  then obtain ys where xs: "xs = b # ys" by (cases xs) auto
  define cs' where "cs' = (if ys = [] then cs else Avail ys # cs)"
  have "read_some 1 (Avail xs # cs) = (Inr [b], cs')" by (simp add: xs cs'_def)
  then have "read_preamble nonce line last_line consumed (Avail xs # cs) =
         (if consumed + 1 > MAX_PREAMBLE_BYTES then (Inl TooMuch, cs')
          else if b \<noteq> 10 then read_preamble nonce (add_to_line line b) last_line (consumed + 1) cs'
          else if trim_cr line = ready_line nonce then (Inr Ready, cs')
          else if take (length (missing_line nonce)) (trim_cr line) = missing_line nonce
          then (Inr (Missing (drop (length (missing_line nonce)) (trim_cr line))), cs')
          else read_preamble nonce [] (if \<exists>b \<in> set line. \<not> is_ascii_space b then line else last_line) (consumed + 1) cs')"
    for nonce line last_line consumed
    by (subst read_preamble.simps) (simp add: add_to_line_def)
  moreover have "clean cs'" "content cs' = bs" using 2 by (auto simp: cs'_def xs)
  ultimately show ?case by blast
next
  case (3 cs)
  have "read_preamble nonce line last_line consumed (Interrupted # cs) = read_preamble nonce line last_line consumed cs"
    for nonce line last_line consumed
    by (subst read_preamble.simps) simp
  with 3 show ?case by simp
qed simp_all

lemma read_preamble_ready_line:
  assumes "clean cs" and "content cs = ready @ [10] @ rest" and "10 \<notin> set ready"
    and "trim_cr (line @ ready) = ready_line nonce" and "length line + length ready \<le> 4096"
    and "consumed + length ready + 1 \<le> MAX_PREAMBLE_BYTES"
  shows "\<exists>cs'. read_preamble nonce line last_line consumed cs = (Inr Ready, cs') \<and> content cs' = rest"
  using assms
proof (induction ready arbitrary: line consumed cs)
  case Nil
  then obtain cs' where "clean cs'" "content cs' = rest"
      "read_preamble nonce line last_line consumed cs = (Inr Ready, cs')"
    using read_one_byte [of cs 10 rest] by auto
  then show ?case by blast
next
  case (Cons b ready)
  then obtain cs' where "clean cs'" "content cs' = ready @ [10] @ rest"
      "read_preamble nonce line last_line consumed cs = read_preamble nonce (line @ [b]) last_line (consumed + 1) cs'"
    using read_one_byte [of cs b "ready @ [10] @ rest"] by (auto simp: add_to_line_def)
  with Cons.IH [of cs' "line @ [b]" "consumed + 1"] Cons.prems show ?case by simp
qed

lemma read_preamble_banner:
  assumes "clean cs" and "content cs = banner @ sync_line nonce @ rest" and "quiet nonce line banner"
    and "10 \<notin> set nonce" and "trim_cr (ready_line nonce) = ready_line nonce" and "length (ready_line nonce) \<le> 4096"
    and "consumed + length banner + length (sync_line nonce) \<le> MAX_PREAMBLE_BYTES"
  shows "\<exists>cs'. read_preamble nonce line last_line consumed cs = (Inr Ready, cs') \<and> content cs' = rest"
  using assms(1-3,7)
proof (induction banner arbitrary: line last_line consumed cs)
  case Nil
  then have "content cs = 10 # (ready_line nonce @ [10] @ rest)" by (simp add: sync_line_def)
  with read_one_byte [OF Nil(1)] Nil(3,4)
  obtain cs' where cs': "clean cs'" "content cs' = ready_line nonce @ [10] @ rest"
      "read_preamble nonce line last_line consumed cs =
       read_preamble nonce [] (if \<exists>b \<in> set line. \<not> is_ascii_space b then line else last_line) (consumed + 1) cs'"
    by (auto simp: answers_def sync_line_def)
  have "10 \<notin> set (ready_line nonce)" using assms(4) by (simp add: ready_line_def ascii_def)
  with read_preamble_ready_line [OF cs'(1,2), of "[]"] assms(5,6) Nil(4) show ?case
    unfolding cs'(3) by (simp add: sync_line_def)
next
  case (Cons b banner)
  from Cons.prems(2) have cont: "content cs = b # (banner @ sync_line nonce @ rest)" by simp
  from read_one_byte [OF Cons.prems(1) cont] obtain cs' where cs': "clean cs'"
      "content cs' = banner @ sync_line nonce @ rest" and byte: "\<And>nonce line last_line consumed.
        read_preamble nonce line last_line consumed cs =
         (if consumed + 1 > MAX_PREAMBLE_BYTES then (Inl TooMuch, cs')
          else if b \<noteq> 10 then read_preamble nonce (add_to_line line b) last_line (consumed + 1) cs'
          else if trim_cr line = ready_line nonce then (Inr Ready, cs')
          else if take (length (missing_line nonce)) (trim_cr line) = missing_line nonce
          then (Inr (Missing (drop (length (missing_line nonce)) (trim_cr line))), cs')
          else read_preamble nonce [] (if \<exists>b \<in> set line. \<not> is_ascii_space b then line else last_line) (consumed + 1) cs')"
    by blast
  have le: "(consumed + 1) + length banner + length (sync_line nonce) \<le> MAX_PREAMBLE_BYTES"
    using Cons.prems(4) by simp
  then have small: "\<not> consumed + 1 > MAX_PREAMBLE_BYTES" by simp
  show ?case
  proof (cases "b = 10")
    case True
    with Cons.prems(3) have quiet: "\<not> answers nonce line" "quiet nonce [] banner" by simp_all
    have "read_preamble nonce line last_line consumed cs =
        read_preamble nonce [] (if \<exists>b \<in> set line. \<not> is_ascii_space b then line else last_line) (consumed + 1) cs'"
      using byte [of nonce line last_line consumed] small True quiet(1) unfolding answers_def by simp
    with Cons.IH [OF cs' quiet(2) le] show ?thesis by simp
  next
    case False
    with Cons.prems(3) have "quiet nonce (add_to_line line b) banner" by simp
    moreover have "read_preamble nonce line last_line consumed cs =
        read_preamble nonce (add_to_line line b) last_line (consumed + 1) cs'"
      using byte [of nonce line last_line consumed] small False by simp
    ultimately show ?thesis using Cons.IH [OF cs' _ le] by simp
  qed
qed

section \<open>Properties\<close>

text \<open>
  Claim C19. Round trip: the frames a side writes are read back exactly, in order, however the bytes are cut
  into reads and whatever reads are interrupted; then comes a clean end of stream if the connection ended
  between frames, and an error if it ended inside one, wherever it was cut: half a frame is never taken
  for a frame nor for a clean end.
\<close>

theorem frames_round_trip:
  assumes "\<And>h. de (ser h) = Inr h" and "\<And>h. ser h \<noteq> []"
    and "list_all2 (\<lambda>(h, body) frame. encode_frame ser h body = Inr frame) fs frames"
    and "encode_frame ser next_h next_body = Inr unfinished" and "k < length unfinished"
    and "clean cs" and "content cs = concat frames @ take k unfinished"
  shows "read_frames de (length fs + 1) cs
    = map (\<lambda>f. Inr (Some f)) fs @ [if k = 0 then Inr None else Inl EndedInside]"
proof (rule read_frames_of_writer [OF assms(1,2) _ assms(3,6,7)])
  fix cs assume cs: "clean cs" "content cs = take k unfinished"
  show "fst (read_frame_as de cs) = (if k = 0 then Inr None else Inl EndedInside)"
  proof (cases "k = 0")
    case True
    with cs(2) read_frame_at_end [OF cs(1), where de = de] show ?thesis by simp
  next
    case False
    with read_cut_frame [OF assms(4,2) cs _ assms(5), where de = de] show ?thesis by simp
  qed
qed

definition sample_ser :: "nat \<Rightarrow> nat list" where
  "sample_ser n = [123, n, 125]"

definition sample_de :: "nat list \<Rightarrow> string + nat" where
  "sample_de bs = (if length bs = 3 then Inr (bs ! 1) else Inl ''invalid'')"

definition sample_stream :: "input_chunk list" where
  "sample_stream = [Avail [0, 0], Interrupted, Avail [0, 3, 0, 0, 0, 2, 123], Avail [5, 125, 9, 9, 0, 0, 0],
     Avail [3, 0, 0, 0, 0, 123, 6], Interrupted, Avail [125, 0, 0]]"

theorem frames_round_trip_witness:
  "read_frames sample_de 3 sample_stream = [Inr (Some (5, [9, 9])), Inr (Some (6, [])), Inl EndedInside]"
proof -
  have "read_frames sample_de (length [(5, [9, 9]), (6 :: nat, [] :: nat list)] + 1) sample_stream
      = map (\<lambda>f. Inr (Some f)) [(5, [9, 9]), (6, [])] @ [if (2 :: nat) = 0 then Inr None else Inl EndedInside]"
    by (rule frames_round_trip [where ser = sample_ser and frames = "[[0, 0, 0, 3, 0, 0, 0, 2, 123, 5, 125, 9, 9],
        [0, 0, 0, 3, 0, 0, 0, 0, 123, 6, 125]]" and next_h = 7 and next_body = "[]"
        and unfinished = "[0, 0, 0, 3, 0, 0, 0, 0, 123, 7, 125]"])
      (simp_all add: sample_ser_def sample_de_def sample_stream_def encode_frame_def to_be_bytes_def MAX_HEADER_BYTES_def
        MAX_BODY_BYTES_def)
  then show ?thesis by (simp add: eval_nat_numeral)
qed

text \<open>
  Functional: whatever a login prints before it, within the limit and short of answering for the
  agent itself, the sync line is found, even after an unfinished line, and not a byte past it is taken.
\<close>

theorem preamble_finds_the_frames:
  assumes "clean cs" and "content cs = banner @ sync_line nonce @ rest" and "quiet nonce [] banner"
    and "10 \<notin> set nonce" and "trim_cr (ready_line nonce) = ready_line nonce" and "length (ready_line nonce) \<le> 4096"
    and "length banner + length (sync_line nonce) \<le> MAX_PREAMBLE_BYTES"
  shows "\<exists>cs'. read_preamble nonce [] [] 0 cs = (Inr Ready, cs') \<and> content cs' = rest"
  using assms by (intro read_preamble_banner) simp_all

theorem preamble_finds_the_frames_witness:
  "\<exists>cs'. read_preamble [97] [] [] 0 [Avail [104, 105, 10, 62], Avail (sync_line [97]), Avail [1, 2]] = (Inr Ready, cs')
     \<and> content cs' = [1, 2]"
  by (rule preamble_finds_the_frames [where banner = "[104, 105, 10, 62]"])
    (simp_all add: sync_line_def ready_line_def missing_line_def ascii_def answers_def add_to_line_def trim_cr_def
      MAX_PREAMBLE_BYTES_def)

end
