(* ===== verification/Tunnel.thy ===== *)
theory Tunnel
  imports Protocol
begin

text \<open>
  \<^verbatim>\<open>src-tauri/remote-agent/src/tunnel.rs\<close>: TCP connections carried inside a link, with a window of
  \<open>TUNNEL_WINDOW\<close> bytes in each direction. An \<open>Arc<Conn>\<close> is an index into the heap of
  connections, because the halves handed to a caller keep it alive after the table has dropped
  it. A wait on the condition variable is the outcome \<open>Wait\<close>: the caller runs the operation again
  when it is woken. Every operation returns the frames it gives to \<open>send\<close>; the argument \<open>up\<close> is
  what \<open>send\<close> answers. Counters are unbounded here: \<open>tunnel_windows\<close> bounds them.
\<close>

section \<open>State\<close>

type_synonym octet = nat

definition MAX_CONNECTIONS :: nat where
  "MAX_CONNECTIONS = 256"

definition TUNNEL_WINDOW :: nat where
  "TUNNEL_WINDOW = 512 * 1024"

lemma window_pos: "0 < TUNNEL_WINDOW"
  by (simp add: TUNNEL_WINDOW_def)

text \<open>The frames of the link a tunnel knows; any other one is \<open>OtherMessage\<close>.\<close>

datatype message =
    Dial nat string nat
  | Dialed nat "string option" bool
  | Tunnel nat
  | TunnelAck nat nat
  | TunnelEnd nat
  | TunnelClose nat
  | OtherMessage

type_synonym frame = "message \<times> octet list"

type_synonym dial_error = "bool \<times> string"

record conn_state =
  inbound :: "octet list list"
  inbound_bytes :: nat
  inbound_ended :: bool
  credit :: nat
  outbound_ended :: bool
  closed :: bool
  dialed :: "(dial_error + unit) option"

record conn =
  conn_id :: nat
  conn_state :: conn_state

record tunnels =
  heap :: "conn list"
  conns :: "(nat \<times> nat) list"
  next_id :: nat

definition tunnels_new :: tunnels where
  "tunnels_new = \<lparr>heap = [], conns = [], next_id = 1\<rparr>"

definition fresh_state :: conn_state where
  "fresh_state = \<lparr>inbound = [], inbound_bytes = 0, inbound_ended = False, credit = TUNNEL_WINDOW,
     outbound_ended = False, closed = False, dialed = None\<rparr>"

definition state_of :: "tunnels \<Rightarrow> nat \<Rightarrow> conn_state" where
  "state_of t r = conn_state (heap t ! r)"

definition with_state :: "nat \<Rightarrow> (conn_state \<Rightarrow> conn_state) \<Rightarrow> tunnels \<Rightarrow> tunnels" where
  "with_state r f t = t\<lparr>heap := (heap t)[r := (heap t ! r)\<lparr>conn_state := f (state_of t r)\<rparr>]\<rparr>"

section \<open>The table\<close>

definition insert_conn :: "nat \<Rightarrow> tunnels \<Rightarrow> nat \<times> tunnels" where
  "insert_conn cid t =
     (let r = length (heap t)
      in (r, t\<lparr>heap := heap t @ [\<lparr>conn_id = cid, conn_state = fresh_state\<rparr>], conns := al_put cid r (conns t)\<rparr>))"

definition remove_conn :: "nat \<Rightarrow> tunnels \<Rightarrow> tunnels" where
  "remove_conn cid t = t\<lparr>conns := al_del cid (conns t)\<rparr>"

definition open_count :: "tunnels \<Rightarrow> nat" where
  "open_count t = length (conns t)"

definition over :: "conn_state \<Rightarrow> bool" where
  "over s \<longleftrightarrow> closed s \<or> inbound_ended s \<and> outbound_ended s \<and> inbound s = []"

definition collect :: "nat \<Rightarrow> tunnels \<Rightarrow> tunnels" where
  "collect r t = (if over (state_of t r) then remove_conn (conn_id (heap t ! r)) t else t)"

definition close_all :: "tunnels \<Rightarrow> tunnels" where
  "close_all t =
     (let drained = map snd (conns t)
      in foldl (\<lambda>t r. with_state r (\<lambda>s. s\<lparr>closed := True\<rparr>) t) (t\<lparr>conns := []\<rparr>) drained)"

section \<open>Dialing and accepting\<close>

text \<open>
  \<open>dial\<close> up to its loop: the answer is the reference to wait on. Then one round of the loop,
  \<open>expired\<close> saying whether the deadline has passed.
\<close>

definition lost_link :: dial_error where
  "lost_link = (False, ''the sandbox lost its link to the agent'')"

definition dial :: "bool \<Rightarrow> string \<Rightarrow> nat \<Rightarrow> tunnels \<Rightarrow> (dial_error + nat) \<times> tunnels \<times> frame list" where
  "dial up host port t =
     (let cid = next_id t;
          (r, t) = insert_conn cid (t\<lparr>next_id := cid + 1\<rparr>);
          asked = [(Dial cid host port, [])]
      in if up then (Inr r, t, asked) else (Inl lost_link, remove_conn cid t, asked))"

datatype 'a poll = Wait | Ready 'a

definition dial_round ::
  "bool \<Rightarrow> string \<Rightarrow> nat \<Rightarrow> tunnels \<Rightarrow> (dial_error + unit) poll \<times> tunnels \<times> frame list" where
  "dial_round expired timeout_text r t =
     (let cid = conn_id (heap t ! r); s = state_of t r in
      case dialed s of
        Some answer \<Rightarrow>
          (let t = with_state r (\<lambda>s. s\<lparr>dialed := None\<rparr>) t
           in case answer of
                Inr _ \<Rightarrow> (Ready (Inr ()), t, [])
              | Inl error \<Rightarrow> (Ready (Inl error), remove_conn cid t, []))
      | None \<Rightarrow>
          if closed s then (Ready (Inl lost_link), remove_conn cid t, [])
          else if expired
          then (Ready (Inl (False, timeout_text)), remove_conn cid t, [(TunnelClose cid, [])])
          else (Wait, t, []))"

text \<open>\<open>accept\<close>: the check under the first lock of the table, then the insertion under the second.\<close>

definition accept_check :: "nat \<Rightarrow> tunnels \<Rightarrow> bool" where
  "accept_check cid t \<longleftrightarrow> \<not> (map_of (conns t) cid \<noteq> None \<or> open_count t \<ge> MAX_CONNECTIONS)"

definition accept_insert :: "bool \<Rightarrow> nat \<Rightarrow> tunnels \<Rightarrow> nat option \<times> tunnels \<times> frame list" where
  "accept_insert up cid t =
     (let (r, t) = insert_conn cid t;
          answer = [(Dialed cid None False, [])]
      in if up then (Some r, t, answer) else (None, remove_conn cid t, answer))"

definition accept :: "bool \<Rightarrow> nat \<Rightarrow> tunnels \<Rightarrow> nat option \<times> tunnels \<times> frame list" where
  "accept up cid t = (if accept_check cid t then accept_insert up cid t else (None, t, []))"

definition refuse :: "nat \<Rightarrow> bool \<Rightarrow> string \<Rightarrow> frame list" where
  "refuse cid refused error = [(Dialed cid (Some error) refused, [])]"

section \<open>Taking a frame\<close>

definition take_data :: "octet list \<Rightarrow> conn_state \<Rightarrow> conn_state" where
  "take_data data s =
     (if data = [] \<or> inbound_ended s then s
      else if inbound_bytes s + length data > TUNNEL_WINDOW then s\<lparr>closed := True\<rparr>
      else s\<lparr>inbound_bytes := inbound_bytes s + length data, inbound := inbound s @ [data]\<rparr>)"

fun route :: "message \<Rightarrow> octet list \<Rightarrow> (nat \<times> (conn_state \<Rightarrow> conn_state)) option" where
  "route (Dialed cid error refused) body =
     (let answer = (case error of None \<Rightarrow> Inr () | Some error \<Rightarrow> Inl (refused, error))
      in Some (cid, \<lambda>s. s\<lparr>dialed := Some answer\<rparr>))"
| "route (Tunnel cid) body = Some (cid, take_data body)"
| "route (TunnelAck cid n) body =
     (let n = min n TUNNEL_WINDOW in Some (cid, \<lambda>s. s\<lparr>credit := min (credit s + n) TUNNEL_WINDOW\<rparr>))"
| "route (TunnelEnd cid) body = Some (cid, \<lambda>s. s\<lparr>inbound_ended := True\<rparr>)"
| "route (TunnelClose cid) body = Some (cid, \<lambda>s. s\<lparr>closed := True\<rparr>)"
| "route _ body = None"

fun is_data :: "message \<Rightarrow> bool" where
  "is_data (Tunnel _) = True"
| "is_data _ = False"

definition dispatch :: "message \<Rightarrow> octet list \<Rightarrow> tunnels \<Rightarrow> bool \<times> tunnels \<times> frame list" where
  "dispatch message body t =
     (case route message body of
        None \<Rightarrow> (False, t, [])
      | Some (cid, apply) \<Rightarrow>
          (case map_of (conns t) cid of
             None \<Rightarrow> (True, t, [])
           | Some r \<Rightarrow>
               (let was_closed = closed (state_of t r);
                    t = with_state r apply t;
                    overrun = (\<not> was_closed \<and> closed (state_of t r) \<and> is_data message)
                in (True, collect r t, if overrun then [(TunnelClose cid, [])] else []))))"

section \<open>The halves of a connection\<close>

datatype read_result = Got "octet list" | EndOfFile | Reset

definition read_half :: "nat \<Rightarrow> nat \<Rightarrow> tunnels \<Rightarrow> read_result poll \<times> tunnels \<times> frame list" where
  "read_half room r t =
     (if room = 0 then (Ready (Got []), t, []) else
      let cid = conn_id (heap t ! r); s = state_of t r in
      case inbound s of
        front # queue \<Rightarrow>
          (let count = min (length front) room;
               rest = drop count front;
               s' = s\<lparr>inbound := (if rest = [] then queue else rest # queue),
                      inbound_bytes := inbound_bytes s - count\<rparr>
           in (Ready (Got (take count front)), with_state r (\<lambda>_. s') t, [(TunnelAck cid count, [])]))
      | [] \<Rightarrow>
          if closed s then (Ready Reset, t, [])
          else if inbound_ended s then (Ready EndOfFile, collect r t, [])
          else (Wait, t, []))"

text \<open>\<open>write\<close> answers how many bytes it took, or a broken pipe.\<close>

definition write_half ::
  "bool \<Rightarrow> octet list \<Rightarrow> nat \<Rightarrow> tunnels \<Rightarrow> nat option poll \<times> tunnels \<times> frame list" where
  "write_half up buffer r t =
     (if buffer = [] then (Ready (Some 0), t, []) else
      let cid = conn_id (heap t ! r); s = state_of t r in
      if closed s then (Ready None, t, [])
      else if credit s > 0 then
        (let allowed = min (min (credit s) (length buffer)) OUTPUT_CHUNK_BYTES;
             t = with_state r (\<lambda>s. s\<lparr>credit := credit s - allowed\<rparr>) t
         in (Ready (if up then Some allowed else None), t, [(Tunnel cid, take allowed buffer)]))
      else (Wait, t, []))"

text \<open>The flag is the writer's own \<open>done\<close>.\<close>

definition finish_half :: "bool \<Rightarrow> nat \<Rightarrow> tunnels \<Rightarrow> bool \<times> tunnels \<times> frame list" where
  "finish_half finished r t =
     (if finished then (True, t, []) else
      let cid = conn_id (heap t ! r);
          t = with_state r (\<lambda>s. s\<lparr>outbound_ended := True\<rparr>) t
      in (True, collect r t, [(TunnelEnd cid, [])]))"

definition abort_half :: "bool \<Rightarrow> nat \<Rightarrow> tunnels \<Rightarrow> bool \<times> tunnels \<times> frame list" where
  "abort_half finished r t =
     (let cid = conn_id (heap t ! r);
          t = with_state r (\<lambda>s. s\<lparr>closed := True\<rparr>) t
      in (True, collect r t, [(TunnelClose cid, [])]))"

definition drop_half :: "bool \<Rightarrow> nat \<Rightarrow> tunnels \<Rightarrow> bool \<times> tunnels \<times> frame list" where
  "drop_half finished r t = (if finished then (finished, t, []) else abort_half finished r t)"

section \<open>One end of a link\<close>

text \<open>Everything that can happen to a table, a hostile peer's frames included.\<close>

datatype tunnel_op =
    ODial bool string nat
  | ODialRound bool string nat
  | OAcceptInsert bool nat
  | ODispatch message "octet list"
  | ORead nat nat
  | OWrite bool "octet list" nat
  | OFinish bool nat
  | OAbort bool nat
  | ODrop bool nat
  | OCloseAll

fun tunnel_step :: "tunnels \<Rightarrow> tunnel_op \<Rightarrow> tunnels" where
  "tunnel_step t (ODial up host port) = fst (snd (dial up host port t))"
| "tunnel_step t (ODialRound expired txt r) = (if r < length (heap t) then fst (snd (dial_round expired txt r t)) else t)"
| "tunnel_step t (OAcceptInsert up cid) = fst (snd (accept_insert up cid t))"
| "tunnel_step t (ODispatch m body) = fst (snd (dispatch m body t))"
| "tunnel_step t (ORead room r) = (if r < length (heap t) then fst (snd (read_half room r t)) else t)"
| "tunnel_step t (OWrite up buffer r) = (if r < length (heap t) then fst (snd (write_half up buffer r t)) else t)"
| "tunnel_step t (OFinish d r) = (if r < length (heap t) then fst (snd (finish_half d r t)) else t)"
| "tunnel_step t (OAbort d r) = (if r < length (heap t) then fst (snd (abort_half d r t)) else t)"
| "tunnel_step t (ODrop d r) = (if r < length (heap t) then fst (snd (drop_half d r t)) else t)"
| "tunnel_step t OCloseAll = close_all t"

lemmas half_defs = read_half_def write_half_def finish_half_def abort_half_def drop_half_def

section \<open>What every connection keeps\<close>

definition conn_ok :: "conn_state \<Rightarrow> bool" where
  "conn_ok s \<longleftrightarrow>
     inbound_bytes s = length (concat (inbound s)) \<and> inbound_bytes s \<le> TUNNEL_WINDOW
     \<and> [] \<notin> set (inbound s) \<and> credit s \<le> TUNNEL_WINDOW"

definition tunnels_ok :: "tunnels \<Rightarrow> bool" where
  "tunnels_ok t \<longleftrightarrow>
     (\<forall>c \<in> set (heap t). conn_ok (conn_state c)) \<and> distinct (map fst (conns t))
     \<and> (\<forall>(cid, r) \<in> set (conns t). r < length (heap t) \<and> conn_id (heap t ! r) = cid)"

lemma conn_ok_fresh: "conn_ok fresh_state"
  by (simp add: conn_ok_def fresh_state_def)

lemma conn_ok_route: "route m body = Some (cid, f) \<Longrightarrow> conn_ok s \<Longrightarrow> conn_ok (f s)"
  by (cases "(m, body)" rule: route.cases) (auto simp: conn_ok_def take_data_def Let_def split: if_splits)

lemma tunnels_ok_state: "tunnels_ok t \<Longrightarrow> r < length (heap t) \<Longrightarrow> conn_ok (state_of t r)"
  by (simp add: tunnels_ok_def state_of_def)

lemma tunnels_ok_with_state:
  assumes t: "tunnels_ok t" and ok: "r < length (heap t) \<Longrightarrow> conn_ok (f (state_of t r))"
  shows "tunnels_ok (with_state r f t)"
proof (cases "r < length (heap t)")
  case True
  have "conn_ok (conn_state c)" if "c \<in> set ((heap t)[r := (heap t ! r)\<lparr>conn_state := f (state_of t r)\<rparr>])" for c
    using set_updateD [OF that] t ok [OF True] by (auto simp: tunnels_ok_def)
  moreover have "conn_id ((heap t)[r := (heap t ! r)\<lparr>conn_state := f (state_of t r)\<rparr>] ! k) = conn_id (heap t ! k)" for k
    using True by (cases "k = r") simp_all
  ultimately show ?thesis using t by (auto simp: tunnels_ok_def with_state_def)
next
  case False
  then have "with_state r f t = t" by (simp add: with_state_def list_update_beyond)
  with t show ?thesis by simp
qed

lemma tunnels_ok_remove: "tunnels_ok t \<Longrightarrow> tunnels_ok (remove_conn cid t)"
  by (auto simp: tunnels_ok_def remove_conn_def set_al_del)

lemma tunnels_ok_collect: "tunnels_ok t \<Longrightarrow> tunnels_ok (collect r t)"
  by (simp add: collect_def tunnels_ok_remove)

lemma tunnels_ok_next [simp]: "tunnels_ok (t\<lparr>next_id := n\<rparr>) = tunnels_ok t"
  by (simp add: tunnels_ok_def)

lemma tunnels_ok_insert:
  assumes "tunnels_ok t"
  shows "tunnels_ok (snd (insert_conn cid t))"
  using assms conn_ok_fresh
  by (auto simp: tunnels_ok_def insert_conn_def Let_def al_put_def set_al_del nth_append)

lemma tunnels_ok_close:
  "tunnels_ok t \<Longrightarrow> tunnels_ok (foldl (\<lambda>t r. with_state r (\<lambda>s. s\<lparr>closed := True\<rparr>) t) t rs)"
proof (induction rs arbitrary: t)
  case Nil
  then show ?case by simp
next
  case (Cons r rs)
  have "tunnels_ok (with_state r (\<lambda>s. s\<lparr>closed := True\<rparr>) t)"
  proof (rule tunnels_ok_with_state [OF Cons.prems])
    assume "r < length (heap t)"
    from tunnels_ok_state [OF Cons.prems this] show "conn_ok (state_of t r\<lparr>closed := True\<rparr>)"
      by (simp add: conn_ok_def)
  qed
  from Cons.IH [OF this] show ?case by simp
qed

lemma tunnels_ok_dispatch:
  assumes t: "tunnels_ok t"
  shows "tunnels_ok (fst (snd (dispatch m body t)))"
proof (cases "route m body")
  case None
  with t show ?thesis by (simp add: dispatch_def)
next
  case (Some p)
  obtain cid f where p: "p = (cid, f)" by (cases p)
  show ?thesis
  proof (cases "map_of (conns t) cid")
    case None
    with t Some p show ?thesis by (simp add: dispatch_def)
  next
    case (Some r)
    have "tunnels_ok (with_state r f t)"
      using conn_ok_route [OF \<open>route m body = Some p\<close> [unfolded p]] tunnels_ok_state [OF t]
      by (intro tunnels_ok_with_state [OF t]) simp
    then show ?thesis
      using Some \<open>route m body = Some p\<close> p by (simp add: dispatch_def Let_def tunnels_ok_collect)
  qed
qed

lemma conn_ok_read:
  assumes "conn_ok s" and "inbound s = front # queue" and "0 < room"
  shows "conn_ok (s\<lparr>inbound := (if drop (min (length front) room) front = [] then queue
                        else drop (min (length front) room) front # queue),
                      inbound_bytes := inbound_bytes s - min (length front) room\<rparr>)"
  using assms by (auto simp: conn_ok_def)

lemma tunnels_ok_read:
  assumes t: "tunnels_ok t" and r: "r < length (heap t)"
  shows "tunnels_ok (fst (snd (read_half room r t)))"
proof (cases "room = 0 \<or> inbound (state_of t r) = []")
  case True
  with t show ?thesis by (auto simp: read_half_def Let_def tunnels_ok_collect split: list.split)
next
  case False
  then obtain front queue where q: "inbound (state_of t r) = front # queue" by (cases "inbound (state_of t r)") auto
  from False conn_ok_read [OF tunnels_ok_state [OF t r] q] have
    "tunnels_ok (with_state r (\<lambda>_. (state_of t r)
      \<lparr>inbound := (if drop (min (length front) room) front = [] then queue
                   else drop (min (length front) room) front # queue),
       inbound_bytes := inbound_bytes (state_of t r) - min (length front) room\<rparr>) t)"
    by (intro tunnels_ok_with_state [OF t]) simp
  then show ?thesis using False q unfolding read_half_def Let_def by (simp only: if_False list.case fst_conv snd_conv) simp
qed

lemma tunnels_ok_with_flags:
  assumes t: "tunnels_ok t" and r: "r < length (heap t)"
    and f: "\<And>s. inbound (f s) = inbound s \<and> inbound_bytes (f s) = inbound_bytes s \<and> credit (f s) \<le> credit s"
  shows "tunnels_ok (with_state r f t)"
proof (rule tunnels_ok_with_state [OF t])
  from tunnels_ok_state [OF t r] f [of "state_of t r"] show "conn_ok (f (state_of t r))"
    by (auto simp: conn_ok_def)
qed

lemma tunnels_ok_write:
  "tunnels_ok t \<Longrightarrow> r < length (heap t) \<Longrightarrow> tunnels_ok (fst (snd (write_half up buffer r t)))"
  by (simp add: write_half_def Let_def tunnels_ok_with_flags)

lemma tunnels_ok_end:
  assumes "tunnels_ok t" and "r < length (heap t)"
  shows "tunnels_ok (fst (snd (finish_half d r t)))" and "tunnels_ok (fst (snd (abort_half d r t)))"
    and "tunnels_ok (fst (snd (drop_half d r t)))"
  using assms
  by (simp_all add: finish_half_def abort_half_def drop_half_def Let_def tunnels_ok_collect tunnels_ok_with_flags)

lemma tunnels_ok_dial_round:
  "tunnels_ok t \<Longrightarrow> r < length (heap t) \<Longrightarrow> tunnels_ok (fst (snd (dial_round expired txt r t)))"
  by (simp add: dial_round_def Let_def tunnels_ok_with_flags tunnels_ok_remove split: option.split sum.split)

lemma tunnels_ok_step: "tunnels_ok t \<Longrightarrow> tunnels_ok (tunnel_step t x)"
proof (cases x)
  case (ODial up host port)
  then show "tunnels_ok t \<Longrightarrow> ?thesis"
    using tunnels_ok_insert [of "t\<lparr>next_id := next_id t + 1\<rparr>" "next_id t"]
    by (auto simp: dial_def insert_conn_def Let_def tunnels_ok_remove)
next
  case (OAcceptInsert up cid)
  then show "tunnels_ok t \<Longrightarrow> ?thesis"
    using tunnels_ok_insert [of t cid]
    by (auto simp: accept_insert_def Let_def intro: tunnels_ok_remove split: prod.split)
next
  case OCloseAll
  have "tunnels_ok t \<Longrightarrow> tunnels_ok (t\<lparr>conns := []\<rparr>)" by (simp add: tunnels_ok_def)
  with OCloseAll show "tunnels_ok t \<Longrightarrow> ?thesis" by (simp add: close_all_def Let_def tunnels_ok_close)
qed (simp_all add: tunnels_ok_dispatch tunnels_ok_read tunnels_ok_write tunnels_ok_end tunnels_ok_dial_round)

interpretation tunnel: total_machine "\<lambda>t. t = tunnels_new" tunnel_step tunnels_ok
  by unfold_locales (auto simp: tunnels_ok_step, simp add: tunnels_ok_def tunnels_new_def)

section \<open>Properties\<close>

text \<open>
  Bounds: whatever a peer sends and whatever the local halves do, in any order, each
  connection buffers at most the window it granted, its byte count is exactly what is buffered,
  no buffered chunk is empty, and it never has more than a window of credit.
\<close>

theorem tunnel_windows:
  "\<forall>c \<in> set (heap (foldl tunnel_step tunnels_new ops)).
     inbound_bytes (conn_state c) = length (concat (inbound (conn_state c)))
     \<and> inbound_bytes (conn_state c) \<le> TUNNEL_WINDOW
     \<and> [] \<notin> set (inbound (conn_state c)) \<and> credit (conn_state c) \<le> TUNNEL_WINDOW"
proof
  fix c assume "c \<in> set (heap (foldl tunnel_step tunnels_new ops))"
  with tunnel.foldl_inv [of tunnels_new ops] have "conn_ok (conn_state c)"
    unfolding tunnels_ok_def by blast
  then show "inbound_bytes (conn_state c) = length (concat (inbound (conn_state c)))
     \<and> inbound_bytes (conn_state c) \<le> TUNNEL_WINDOW
     \<and> [] \<notin> set (inbound (conn_state c)) \<and> credit (conn_state c) \<le> TUNNEL_WINDOW"
    unfolding conn_ok_def .
qed

theorem tunnel_windows_witness:
  "inbound_bytes (state_of (foldl tunnel_step tunnels_new
     [OAcceptInsert True 7, ODispatch (Tunnel 7) [1, 2, 3], ORead 2 0]) 0) = 1"
proof -
  let ?ops = "[OAcceptInsert True 7, ODispatch (Tunnel 7) [1, 2, 3], ORead 2 0]"
  let ?c = "heap (foldl tunnel_step tunnels_new ?ops) ! 0"
  have run: "heap (foldl tunnel_step tunnels_new ?ops) =
      [\<lparr>conn_id = 7, conn_state = fresh_state\<lparr>inbound := [[3]], inbound_bytes := 1\<rparr>\<rparr>]"
    by (simp add: tunnels_new_def accept_insert_def insert_conn_def al_put_def al_del_def dispatch_def
        take_data_def read_half_def state_of_def with_state_def collect_def over_def fresh_state_def
        TUNNEL_WINDOW_def Let_def)
  then have "?c \<in> set (heap (foldl tunnel_step tunnels_new ?ops))" by simp
  from bspec [OF tunnel_windows [of ?ops] this] show ?thesis
    unfolding state_of_def run by simp
qed

text \<open>
  Error: the limit of connections is checked and the connection inserted under two
  separate locks. With one place left, two accepts whose checks both run before either
  insertion both get in, so the table passes its limit; and an accept that the check turns away
  answers the cell nothing, whose dial then waits out its timeout.
\<close>

theorem accept_limit_can_be_passed:
  assumes room: "open_count t = MAX_CONNECTIONS - 1"
    and fresh: "map_of (conns t) a = None" "map_of (conns t) b = None" "a \<noteq> b"
  shows "accept_check a t \<and> accept_check b t
    \<and> open_count (fst (snd (accept_insert True b (fst (snd (accept_insert True a t)))))) = MAX_CONNECTIONS + 1
    \<and> accept up b (fst (snd (accept True a t))) = (None, fst (snd (accept True a t)), [])"
proof -
  have del: "al_del a (conns t) = conns t" "al_del b ((a, r) # conns t) = (a, r) # conns t" for r
    using fresh by (simp_all add: al_del_absent)
  have check: "accept_check a t" "accept_check b t"
    using fresh room by (simp_all add: accept_check_def MAX_CONNECTIONS_def)
  have conns: "conns (fst (snd (accept_insert True a t))) = (a, length (heap t)) # conns t"
    using del by (simp add: accept_insert_def insert_conn_def Let_def al_put_def)
  have more: "open_count (fst (snd (accept_insert True b t'))) = Suc (open_count t')"
    if "conns t' = (a, length (heap t)) # conns t" for t'
    using that del by (simp add: accept_insert_def insert_conn_def Let_def al_put_def open_count_def)
  have "\<not> accept_check b (fst (snd (accept_insert True a t)))"
    using room by (simp add: accept_check_def open_count_def conns MAX_CONNECTIONS_def)
  then show ?thesis
    using check room more [OF conns] by (simp add: accept_def open_count_def conns MAX_CONNECTIONS_def)
qed

definition full_but_one :: tunnels where
  "full_but_one = \<lparr>heap = [], conns = map (\<lambda>i. (i, i)) [0 ..< 255], next_id = 1\<rparr>"

theorem accept_limit_can_be_passed_witness:
  "open_count full_but_one = 255
   \<and> open_count (fst (snd (accept_insert True 301 (fst (snd (accept_insert True 300 full_but_one)))))) = 257"
proof -
  have keys: "map_of (conns full_but_one) k = None" if "255 \<le> k" for k
    using that by (auto simp: full_but_one_def map_of_eq_None_iff)
  have "open_count full_but_one = 255" by (simp add: full_but_one_def open_count_def)
  moreover from this have "open_count full_but_one = MAX_CONNECTIONS - 1" by (simp add: MAX_CONNECTIONS_def)
  ultimately show ?thesis
    using accept_limit_can_be_passed [of full_but_one 300 301 True] keys [of 300] keys [of 301]
    by (simp add: MAX_CONNECTIONS_def)
qed

end
