(* ===== verification/TunnelLink.thy ===== *)
theory TunnelLink
  imports Tunnel "HOL-Library.Sublist"
begin

text \<open>
  Two tunnel tables joined back to back, as a cell and the agent outside it are: the frames one end
  sends reach the other in order. One connection is followed from the moment its dial has been
  accepted, through every order in which its frames arrive and its halves are used on both sides,
  including aborts and the loss of the link. \<open>True\<close> is the cell's end, which dialed, and \<open>False\<close>
  the end outside it.
\<close>

section \<open>The pair\<close>

record side =
  tun :: tunnels
  opened :: bool
  finished :: bool

record link =
  ends :: "bool \<Rightarrow> side"
  wire :: "bool \<Rightarrow> frame list"
  up :: bool
  sent :: "bool \<Rightarrow> octet list"
  got :: "bool \<Rightarrow> octet list"
  eof :: "bool \<Rightarrow> bool"

text \<open>The cell's dial has been read by the outer end, which has accepted it.\<close>

definition link_start :: "string \<Rightarrow> nat \<Rightarrow> link" where
  "link_start host port =
     (let (_, cell, _) = dial True host port tunnels_new;
          (_, outer, answer) = accept True 1 tunnels_new
      in \<lparr>ends = (\<lambda>b. \<lparr>tun = (if b then cell else outer), opened = \<not> b, finished = False\<rparr>),
          wire = (\<lambda>b. if b then [] else answer), up = True,
          sent = (\<lambda>_. []), got = (\<lambda>_. []), eof = (\<lambda>_. False)\<rparr>)"

definition post :: "bool \<Rightarrow> tunnels \<Rightarrow> frame list \<Rightarrow> link \<Rightarrow> link" where
  "post b t frames l =
     l\<lparr>ends := (ends l)(b := (ends l b)\<lparr>tun := t\<rparr>),
       wire := (wire l)(b := wire l b @ (if up l then frames else []))\<rparr>"

definition set_finished :: "bool \<Rightarrow> bool \<Rightarrow> link \<Rightarrow> link" where
  "set_finished b d l = l\<lparr>ends := (ends l)(b := (ends l b)\<lparr>finished := d\<rparr>)\<rparr>"

datatype link_op =
    Deliver bool
  | AwaitDial bool string
  | ReadAt bool nat
  | WriteAt bool "octet list"
  | FinishAt bool
  | AbortAt bool
  | DropAt bool
  | LoseLink bool

text \<open>The halves exist once the dial has answered; the callers write only until they finish.\<close>

fun link_step :: "link \<Rightarrow> link_op \<Rightarrow> link" where
  "link_step l (Deliver b) =
     (case wire l b of
        [] \<Rightarrow> l
      | (m, body) # rest \<Rightarrow>
          (case dispatch m body (tun (ends l (\<not> b))) of
             (_, t, frames) \<Rightarrow> post (\<not> b) t frames (l\<lparr>wire := (wire l)(b := rest)\<rparr>)))"
| "link_step l (AwaitDial expired txt) =
     (if opened (ends l True) then l else
      case dial_round expired txt 0 (tun (ends l True)) of
        (answer, t, frames) \<Rightarrow>
          (let l = post True t frames l in
           case answer of
             Ready (Inr _) \<Rightarrow> l\<lparr>ends := (ends l)(True := (ends l True)\<lparr>opened := True\<rparr>)\<rparr>
           | _ \<Rightarrow> l))"
| "link_step l (ReadAt b room) =
     (if \<not> opened (ends l b) then l else
      case read_half room 0 (tun (ends l b)) of
        (answer, t, frames) \<Rightarrow>
          (let l = post b t frames l in
           case answer of
             Ready (Got bytes) \<Rightarrow> l\<lparr>got := (got l)(b := got l b @ bytes)\<rparr>
           | Ready EndOfFile \<Rightarrow> l\<lparr>eof := (eof l)(b := True)\<rparr>
           | _ \<Rightarrow> l))"
| "link_step l (WriteAt b buffer) =
     (if \<not> opened (ends l b) \<or> finished (ends l b) then l else
      case write_half (up l) buffer 0 (tun (ends l b)) of
        (answer, t, frames) \<Rightarrow>
          (let l = post b t frames l in
           case answer of
             Ready (Some n) \<Rightarrow> l\<lparr>sent := (sent l)(b := sent l b @ take n buffer)\<rparr>
           | _ \<Rightarrow> l))"
| "link_step l (FinishAt b) =
     (if \<not> opened (ends l b) then l else
      case finish_half (finished (ends l b)) 0 (tun (ends l b)) of
        (d, t, frames) \<Rightarrow> set_finished b d (post b t frames l))"
| "link_step l (AbortAt b) =
     (if \<not> opened (ends l b) then l else
      case abort_half (finished (ends l b)) 0 (tun (ends l b)) of
        (d, t, frames) \<Rightarrow> set_finished b d (post b t frames l))"
| "link_step l (DropAt b) =
     (if \<not> opened (ends l b) then l else
      case drop_half (finished (ends l b)) 0 (tun (ends l b)) of
        (d, t, frames) \<Rightarrow> set_finished b d (post b t frames l))"
| "link_step l (LoseLink b) =
     (let l = l\<lparr>up := False\<rparr> in post b (close_all (tun (ends l b))) [] l)"

section \<open>What is on the way\<close>

fun payload :: "frame list \<Rightarrow> octet list" where
  "payload [] = []"
| "payload ((m, body) # w) = (if is_data m then body else []) @ payload w"

fun acked :: "frame list \<Rightarrow> nat" where
  "acked [] = 0"
| "acked ((m, body) # w) = (case m of TunnelAck _ n \<Rightarrow> n | _ \<Rightarrow> 0) + acked w"

fun is_end :: "message \<Rightarrow> bool" where
  "is_end (TunnelEnd _) = True"
| "is_end _ = False"

fun end_last :: "frame list \<Rightarrow> bool" where
  "end_last [] = True"
| "end_last ((m, body) # w) = ((is_end m \<longrightarrow> payload w = []) \<and> end_last w)"

definition has_end :: "frame list \<Rightarrow> bool" where
  "has_end w = (\<exists>(m, body) \<in> set w. is_end m)"

lemma payload_append [simp]: "payload (v @ w) = payload v @ payload w"
  by (induction v rule: payload.induct) simp_all

lemma acked_append [simp]: "acked (v @ w) = acked v + acked w"
  by (induction v rule: acked.induct) simp_all

lemma has_end_simps [simp]:
  "has_end [] = False" "has_end ((m, body) # w) = (is_end m \<or> has_end w)"
  "has_end (v @ w) = (has_end v \<or> has_end w)"
  by (auto simp: has_end_def)

lemma end_last_append: "end_last (v @ w) = (end_last v \<and> end_last w \<and> (has_end v \<longrightarrow> payload w = []))"
  by (induction v rule: end_last.induct) auto

fun about :: "nat \<Rightarrow> message \<Rightarrow> bool" where
  "about cid (Dialed c _ _) = (c = cid)"
| "about cid (Tunnel c) = (c = cid)"
| "about cid (TunnelAck c _) = (c = cid)"
| "about cid (TunnelEnd c) = (c = cid)"
| "about cid (TunnelClose c) = (c = cid)"
| "about cid _ = False"

section \<open>The operations on a table of one connection\<close>

definition single :: "conn_state \<Rightarrow> bool \<Rightarrow> nat \<Rightarrow> tunnels" where
  "single s p n = \<lparr>heap = [\<lparr>conn_id = 1, conn_state = s\<rparr>], conns = (if p then [(1, 0)] else []), next_id = n\<rparr>"

lemma single_simps [simp]:
  "state_of (single s p n) 0 = s"
  "conn_id (heap (single s p n) ! 0) = 1"
  "with_state 0 f (single s p n) = single (f s) p n"
  "collect 0 (single s p n) = single s (p \<and> \<not> over s) n"
  "remove_conn 1 (single s p n) = single s False n"
  "remove_conn (Suc 0) (single s p n) = single s False n"
  by (simp_all add: single_def state_of_def with_state_def collect_def remove_conn_def al_del_def)

lemma close_all_single [simp]:
  "close_all (single s p n) = single (if p then s\<lparr>closed := True\<rparr> else s) False n"
  by (simp add: close_all_def single_def with_state_def state_of_def Let_def)

lemma dispatch_single:
  assumes "about 1 m"
  shows "\<exists>f. route m body = Some (1, f) \<and>
    dispatch m body (single s p n) =
     (True, single (if p then f s else s) (p \<and> \<not> over (f s)) n,
      if p \<and> \<not> closed s \<and> closed (f s) \<and> is_data m then [(TunnelClose 1, [])] else [])"
proof -
  from assms obtain f where f: "route m body = Some (1, f)" by (cases m) (auto simp: Let_def)
  have "map_of (conns (single s p n)) 1 = (if p then Some 0 else None)" by (simp add: single_def)
  with f show ?thesis by (auto simp: dispatch_def Let_def)
qed

section \<open>One direction of the connection\<close>

text \<open>
  The accounts of the window and of the data, for a sender in state \<open>s\<close> and a receiver in state
  \<open>r\<close>, \<open>ps\<close> and \<open>pr\<close> saying whether they are in their tables, \<open>fw\<close> the frames of the sender,
  \<open>bw\<close> those of the receiver.
\<close>

definition window_flow ::
  "conn_state \<Rightarrow> bool \<Rightarrow> conn_state \<Rightarrow> bool \<Rightarrow> frame list \<Rightarrow> frame list \<Rightarrow> bool \<Rightarrow> bool" where
  "window_flow s ps r pr fw bw live \<longleftrightarrow>
     (let total = credit s + length (payload fw) + inbound_bytes r + acked bw
      in total \<le> TUNNEL_WINDOW \<and> (live \<and> ps \<and> pr \<longrightarrow> total = TUNNEL_WINDOW))"

definition data_flow ::
  "conn_state \<Rightarrow> bool \<Rightarrow> bool \<Rightarrow> bool \<Rightarrow> frame list \<Rightarrow> octet list \<Rightarrow> octet list \<Rightarrow> bool \<Rightarrow> bool" where
  "data_flow r pr opn fin fw snt gt ef \<longleftrightarrow>
     prefix (gt @ concat (inbound r)) snt
     \<and> (\<not> closed r \<and> (pr \<or> opn) \<longrightarrow> gt @ concat (inbound r) @ payload fw = snt)
     \<and> end_last fw \<and> (has_end fw \<or> inbound_ended r \<longrightarrow> fin)
     \<and> (inbound_ended r \<longrightarrow> payload fw = [])
     \<and> (opn \<and> \<not> pr \<and> \<not> closed r \<longrightarrow> inbound_ended r)
     \<and> (ef \<longrightarrow> gt = snt \<and> fin)"

lemma window_flow_total:
  "window_flow s ps r pr fw bw live \<Longrightarrow>
   credit s + length (payload fw) + inbound_bytes r + acked bw \<le> TUNNEL_WINDOW"
  by (simp add: window_flow_def Let_def)

text \<open>No data frame of a window's own sender overruns it.\<close>

lemma take_data_fits:
  "inbound_bytes r + length body \<le> TUNNEL_WINDOW \<Longrightarrow>
   take_data body r = (if body = [] \<or> inbound_ended r then r
     else r\<lparr>inbound_bytes := inbound_bytes r + length body, inbound := inbound r @ [body]\<rparr>)"
  by (simp add: take_data_def)

lemma route_other:
  "route m body = Some (c, f) \<Longrightarrow> \<not> is_data m \<Longrightarrow>
   inbound (f r) = inbound r \<and> inbound_bytes (f r) = inbound_bytes r
   \<and> inbound_ended (f r) = (inbound_ended r \<or> is_end m) \<and> (closed r \<longrightarrow> closed (f r))
   \<and> outbound_ended (f r) = outbound_ended r"
  by (cases m) (auto simp: Let_def)

lemma receive_data:
  assumes w: "window_flow s ps r pr ((m, body) # rest) bw live" and "is_data m"
  shows "window_flow s ps (if pr then take_data body r else r) pr rest bw live
    \<or> \<not> (inbound_ended r \<longrightarrow> body = [])"
proof -
  have "inbound_bytes r + length body \<le> TUNNEL_WINDOW"
    using window_flow_total [OF w] \<open>is_data m\<close> by simp
  then show ?thesis
    using w \<open>is_data m\<close> by (auto simp: take_data_fits window_flow_def Let_def)
qed

lemma window_flow_absent: "window_flow s ps r pr fw bw live \<Longrightarrow> window_flow s ps r (pr \<and> q) fw bw live"
  and window_flow_absent': "window_flow s ps r pr fw bw live \<Longrightarrow> window_flow s (ps \<and> q) r pr fw bw live"
  by (auto simp: window_flow_def Let_def)

lemma window_flow_receive:
  assumes w: "window_flow s ps r pr ((m, body) # rest) bw live"
    and m: "route m body = Some (1, f)" and "inbound_ended r \<longrightarrow> payload ((m, body) # rest) = []"
    and "acked extra = 0"
  shows "window_flow s ps (if pr then f r else r) (pr \<and> \<not> over (f r)) rest (bw @ extra) live"
proof -
  have "window_flow s ps (if pr then f r else r) pr rest bw live"
  proof (cases "is_data m")
    case True
    with m have "f = take_data body" by (cases m) auto
    with receive_data [OF w True] True assms(3) show ?thesis by (cases pr) auto
  next
    case False
    with w route_other [OF m False, of r] show ?thesis by (auto simp: window_flow_def Let_def)
  qed
  from window_flow_absent [OF this] show ?thesis
    using assms(4) by (simp add: window_flow_def Let_def)
qed

lemma data_flow_receive:
  assumes d: "data_flow r pr opn fin ((m, body) # rest) snt gt ef"
    and w: "window_flow s ps r pr ((m, body) # rest) bw live"
    and m: "route m body = Some (1, f)" and c: "closed r \<longrightarrow> \<not> pr"
  shows "data_flow (if pr then f r else r) (pr \<and> \<not> over (f r)) opn fin rest snt gt ef"
proof (cases "is_data m")
  case True
  with m have f: "f = take_data body" by (cases m) auto
  have "inbound_bytes r + length body \<le> TUNNEL_WINDOW"
    using window_flow_total [OF w] True by simp
  from take_data_fits [OF this] d True c show ?thesis
    unfolding f data_flow_def over_def
    by (cases pr; cases "body = []"; cases "inbound_ended r") auto
next
  case False
  from d False route_other [OF m False, of r] show ?thesis
    unfolding data_flow_def over_def by (cases pr) auto
qed

lemma route_credit:
  "route m body = Some (1, f) \<Longrightarrow>
   credit (f s) = (case m of TunnelAck _ n \<Rightarrow> min (credit s + min n TUNNEL_WINDOW) TUNNEL_WINDOW | _ \<Rightarrow> credit s)"
  by (cases m) (auto simp: Let_def take_data_def)

lemma window_flow_credit:
  assumes w: "window_flow s ps r pr fw ((m, body) # rest) live"
    and m: "route m body = Some (1, f)" and "payload extra = []"
  shows "window_flow (if ps then f s else s) (ps \<and> \<not> over (f s)) r pr (fw @ extra) rest live"
proof -
  have "window_flow (if ps then f s else s) ps r pr fw rest live"
    using w route_credit [OF m, of s] by (cases m) (auto simp: window_flow_def Let_def)
  from window_flow_absent' [OF this] show ?thesis
    using assms(3) by (simp add: window_flow_def Let_def)
qed

section \<open>The invariant of the pair\<close>

definition side_ok :: "conn_state \<Rightarrow> bool \<Rightarrow> bool \<Rightarrow> bool" where
  "side_ok s p opn \<longleftrightarrow>
     conn_ok s \<and> (closed s \<longrightarrow> \<not> p) \<and> (outbound_ended s \<longrightarrow> opn)
     \<and> (\<not> opn \<and> \<not> p \<and> \<not> closed s \<longrightarrow> dialed s = None)"

definition pair_inv :: "link \<Rightarrow> (bool \<Rightarrow> conn_state) \<Rightarrow> (bool \<Rightarrow> bool) \<Rightarrow> bool" where
  "pair_inv l s p \<longleftrightarrow>
     (\<forall>b. tun (ends l b) = single (s b) (p b) (next_id (tun (ends l b)))
        \<and> side_ok (s b) (p b) (opened (ends l b))
        \<and> (\<forall>(m, body) \<in> set (wire l b). about 1 m)
        \<and> window_flow (s b) (p b) (s (\<not> b)) (p (\<not> b)) (wire l b) (wire l (\<not> b)) (up l)
        \<and> data_flow (s (\<not> b)) (p (\<not> b)) (opened (ends l (\<not> b))) (finished (ends l b))
            (wire l b) (sent l b) (got l (\<not> b)) (eof l (\<not> b)))"

definition link_inv :: "link \<Rightarrow> bool" where
  "link_inv l \<longleftrightarrow> (\<exists>s p. pair_inv l s p)"

lemma pair_invD:
  assumes "pair_inv l s p"
  shows "tun (ends l b) = single (s b) (p b) (next_id (tun (ends l b)))"
    and "side_ok (s b) (p b) (opened (ends l b))"
    and "\<forall>(m, body) \<in> set (wire l b). about 1 m"
    and "window_flow (s b) (p b) (s (\<not> b)) (p (\<not> b)) (wire l b) (wire l (\<not> b)) (up l)"
    and "window_flow (s (\<not> b)) (p (\<not> b)) (s b) (p b) (wire l (\<not> b)) (wire l b) (up l)"
    and "data_flow (s (\<not> b)) (p (\<not> b)) (opened (ends l (\<not> b))) (finished (ends l b))
           (wire l b) (sent l b) (got l (\<not> b)) (eof l (\<not> b))"
    and "data_flow (s b) (p b) (opened (ends l b)) (finished (ends l (\<not> b)))
           (wire l (\<not> b)) (sent l (\<not> b)) (got l b) (eof l b)"
  using assms spec [OF assms [unfolded pair_inv_def], of "\<not> b"] by (auto simp: pair_inv_def)

text \<open>An operation at one end leaves the other end's state alone.\<close>

lemma pair_inv_at:
  assumes inv: "pair_inv l s p"
    and other: "ends l' (\<not> b) = ends l (\<not> b)" "sent l' (\<not> b) = sent l (\<not> b)" "got l' (\<not> b) = got l (\<not> b)"
      "eof l' (\<not> b) = eof l (\<not> b)" "set (wire l' (\<not> b)) \<subseteq> set (wire l (\<not> b))"
    and tun: "tun (ends l' b) = single s' p' (next_id (tun (ends l' b)))"
    and side: "side_ok s' p' (opened (ends l' b))"
    and about: "\<forall>(m, body) \<in> set (wire l' b). about 1 m"
    and wout: "window_flow s' p' (s (\<not> b)) (p (\<not> b)) (wire l' b) (wire l' (\<not> b)) (up l')"
    and win: "window_flow (s (\<not> b)) (p (\<not> b)) s' p' (wire l' (\<not> b)) (wire l' b) (up l')"
    and dout: "data_flow (s (\<not> b)) (p (\<not> b)) (opened (ends l (\<not> b))) (finished (ends l' b))
           (wire l' b) (sent l' b) (got l (\<not> b)) (eof l (\<not> b))"
    and din: "data_flow s' p' (opened (ends l' b)) (finished (ends l (\<not> b)))
           (wire l' (\<not> b)) (sent l (\<not> b)) (got l' b) (eof l' b)"
  shows "link_inv l'"
proof -
  have "pair_inv l' (s(b := s')) (p(b := p'))"
    unfolding pair_inv_def
  proof
    fix c
    consider "c = b" | "c = (\<not> b)" by (cases c; cases b) auto
    then show "tun (ends l' c) = single ((s(b := s')) c) ((p(b := p')) c) (next_id (tun (ends l' c)))
        \<and> side_ok ((s(b := s')) c) ((p(b := p')) c) (opened (ends l' c))
        \<and> (\<forall>(m, body) \<in> set (wire l' c). about 1 m)
        \<and> window_flow ((s(b := s')) c) ((p(b := p')) c) ((s(b := s')) (\<not> c)) ((p(b := p')) (\<not> c))
            (wire l' c) (wire l' (\<not> c)) (up l')
        \<and> data_flow ((s(b := s')) (\<not> c)) ((p(b := p')) (\<not> c)) (opened (ends l' (\<not> c))) (finished (ends l' c))
            (wire l' c) (sent l' c) (got l' (\<not> c)) (eof l' (\<not> c))"
    proof cases
      case 1
      with other tun side about wout dout show ?thesis by simp
    next
      case 2
      have "\<forall>(m, body) \<in> set (wire l' (\<not> b)). about 1 m"
        using other(5) pair_invD(3) [OF inv, of "\<not> b"] by blast
      with 2 other pair_invD(1,2) [OF inv, of "\<not> b"] win din show ?thesis by simp
    qed
  qed
  then show ?thesis by (auto simp: link_inv_def)
qed

section \<open>Every step keeps it\<close>

lemma no_end_last: "\<not> has_end v \<Longrightarrow> end_last v"
  by (induction v rule: end_last.induct) auto

text \<open>Frames that carry neither data nor an end.\<close>

definition quiet :: "frame list \<Rightarrow> bool" where
  "quiet v \<longleftrightarrow> payload v = [] \<and> \<not> has_end v \<and> (\<forall>(m, body) \<in> set v. about 1 m)"

lemma quiet_simps [simp]:
  "quiet []" "quiet [(TunnelClose (Suc 0), [])]" "quiet [(TunnelAck (Suc 0) n, [])]"
  by (simp_all add: quiet_def)

lemma data_flow_quiet [simp]:
  "quiet extra \<Longrightarrow> data_flow r pr opn fin (fw @ extra) snt gt ef = data_flow r pr opn fin fw snt gt ef"
  by (auto simp: quiet_def data_flow_def end_last_append no_end_last)

lemma window_flow_quiet:
  "quiet extra \<Longrightarrow> window_flow s ps r pr (fw @ extra) bw live = window_flow s ps r pr fw bw live"
  by (auto simp: quiet_def window_flow_def Let_def)

lemma window_flow_no_ack:
  "acked extra = 0 \<Longrightarrow> window_flow s ps r pr fw (bw @ extra) live = window_flow s ps r pr fw bw live"
  by (auto simp: window_flow_def Let_def)

lemma about_quiet: "\<forall>(m, body) \<in> set w. about 1 m \<Longrightarrow> quiet v \<Longrightarrow> \<forall>(m, body) \<in> set (w @ v). about 1 m"
  by (auto simp: quiet_def)

lemma side_ok_route:
  assumes "side_ok s p opn" and m: "route m body = Some (1, f)"
  shows "side_ok (if p then f s else s) (p \<and> \<not> over (f s)) opn"
proof -
  have "outbound_ended (f s) = outbound_ended s" using m by (cases m) (auto simp: Let_def take_data_def split: if_splits)
  moreover have "conn_ok (f s)" if "conn_ok s" using conn_ok_route [OF m that] .
  ultimately show ?thesis using assms(1) by (cases p) (auto simp: side_ok_def over_def)
qed

lemma link_inv_deliver:
  assumes "link_inv l"
  shows "link_inv (link_step l (Deliver c))"
proof (cases "wire l c")
  case Nil
  with assms show ?thesis by simp
next
  case (Cons f rest)
  obtain m body where f: "f = (m, body)" by (cases f)
  from assms obtain s p where inv: "pair_inv l s p" by (auto simp: link_inv_def)
  let ?b = "\<not> c"
  have w: "wire l c = (m, body) # rest" using Cons f by simp
  note D = pair_invD [OF inv, of ?b]
  have "about 1 m" using pair_invD(3) [OF inv, of c] w by simp
  obtain g where g: "route m body = Some (1, g)" and disp: "dispatch m body (tun (ends l ?b)) =
      (True, single (if p ?b then g (s ?b) else s ?b) (p ?b \<and> \<not> over (g (s ?b))) (next_id (tun (ends l ?b))),
       if p ?b \<and> \<not> closed (s ?b) \<and> closed (g (s ?b)) \<and> is_data m then [(TunnelClose 1, [])] else [])"
    using dispatch_single [OF \<open>about 1 m\<close>, of body "s ?b" "p ?b" "next_id (tun (ends l ?b))"] D(1) by auto
  define extra where "extra = (if p ?b \<and> \<not> closed (s ?b) \<and> closed (g (s ?b)) \<and> is_data m then [(TunnelClose 1, [])] else []
     :: frame list)"
  define sent_now where "sent_now = (if up l then extra else [])"
  have quiet: "quiet sent_now" "acked sent_now = 0" "payload sent_now = []"
    by (simp_all add: sent_now_def extra_def)
  let ?s' = "if p ?b then g (s ?b) else s ?b" and ?p' = "p ?b \<and> \<not> over (g (s ?b))"
  define l' where
    "l' = post ?b (single ?s' ?p' (next_id (tun (ends l ?b)))) extra (l\<lparr>wire := (wire l)(c := rest)\<rparr>)"
  have step: "link_step l (Deliver c) = l'"
    using disp by (simp add: w extra_def l'_def)
  have D4: "window_flow (s ?b) (p ?b) (s c) (p c) (wire l ?b) ((m, body) # rest) (up l)"
    and D5: "window_flow (s c) (p c) (s ?b) (p ?b) ((m, body) # rest) (wire l ?b) (up l)"
    and D6: "data_flow (s c) (p c) (opened (ends l c)) (finished (ends l ?b)) (wire l ?b) (sent l ?b) (got l c) (eof l c)"
    and D7: "data_flow (s ?b) (p ?b) (opened (ends l ?b)) (finished (ends l c)) ((m, body) # rest)
              (sent l c) (got l ?b) (eof l ?b)"
    using D(4-7) by (simp_all add: w)
  have closed: "closed (s ?b) \<longrightarrow> \<not> p ?b" using D(2) by (simp add: side_ok_def)
  have ended: "inbound_ended (s ?b) \<longrightarrow> payload ((m, body) # rest) = []"
    using D7 by (simp add: data_flow_def)
  have wire': "wire l' ?b = wire l ?b @ sent_now"
    "wire l' c = rest"
    by (simp_all add: l'_def post_def sent_now_def)
  show ?thesis
    unfolding step
  proof (rule pair_inv_at [OF inv, of _ ?b ?s' ?p'])
    show "set (wire l' (\<not> ?b)) \<subseteq> set (wire l (\<not> ?b))"
      using w wire' by auto
    show "\<forall>(m, body) \<in> set (wire l' ?b). about 1 m"
      using about_quiet [OF D(3) quiet(1)] by (simp add: wire')
    show "window_flow ?s' ?p' (s (\<not> ?b)) (p (\<not> ?b)) (wire l' ?b)
        (wire l' (\<not> ?b)) (up l')"
      using window_flow_credit [OF D4 g quiet(3)] wire' by (simp add: l'_def post_def)
    show "window_flow (s (\<not> ?b)) (p (\<not> ?b)) ?s' ?p' (wire l' (\<not> ?b))
        (wire l' ?b) (up l')"
      using window_flow_receive [OF D5 g ended quiet(2)] wire' by (simp add: l'_def post_def)
    show "data_flow (s (\<not> ?b)) (p (\<not> ?b)) (opened (ends l (\<not> ?b))) (finished (ends l' ?b))
        (wire l' ?b) (sent l' ?b) (got l (\<not> ?b)) (eof l (\<not> ?b))"
      using D6 quiet(1) wire' by (simp add: l'_def post_def)
    show "data_flow ?s' ?p' (opened (ends l' ?b)) (finished (ends l (\<not> ?b)))
        (wire l' (\<not> ?b)) (sent l (\<not> ?b)) (got l' ?b)
        (eof l' ?b)"
      using data_flow_receive [OF D7 D5 g closed] wire' by (simp add: l'_def post_def)
    show "side_ok ?s' ?p' (opened (ends l' ?b))"
      using side_ok_route [OF D(2) g] by (simp add: l'_def post_def)
  qed (simp_all add: l'_def post_def single_def)
qed

text \<open>What the halves do to a table of one connection.\<close>

lemma over_closed: "side_ok s p opn \<Longrightarrow> \<not> opn \<Longrightarrow> over s = closed s"
  by (auto simp: side_ok_def over_def)

lemma read_single:
  "read_half room 0 (single s p n) =
     (if room = 0 then (Ready (Got []), single s p n, []) else
      case inbound s of
        front # queue \<Rightarrow>
          (Ready (Got (take (min (length front) room) front)),
           single (s\<lparr>inbound := (if drop (min (length front) room) front = [] then queue
                                 else drop (min (length front) room) front # queue),
                     inbound_bytes := inbound_bytes s - min (length front) room\<rparr>) p n,
           [(TunnelAck 1 (min (length front) room), [])])
      | [] \<Rightarrow>
          if closed s then (Ready Reset, single s p n, [])
          else if inbound_ended s then (Ready EndOfFile, single s (p \<and> \<not> over s) n, [])
          else (Wait, single s p n, []))"
  by (auto simp: read_half_def Let_def split: list.split)

lemma link_inv_read_data:
  assumes inv: "pair_inv l s p" and opn: "opened (ends l b)" and room: "0 < room"
    and q: "inbound (s b) = front # queue"
  shows "link_inv (link_step l (ReadAt b room))"
proof -
  note D = pair_invD [OF inv, of b]
  define n where "n = min (length front) room"
  define s' where "s' = (s b)\<lparr>inbound := (if drop n front = [] then queue else drop n front # queue),
      inbound_bytes := inbound_bytes (s b) - n\<rparr>"
  define v :: "frame list" where "v = (if up l then [(TunnelAck 1 n, [])] else [])"
  define l' where "l' = (post b (single s' (p b) (next_id (tun (ends l b)))) [(TunnelAck 1 n, [])] l)
      \<lparr>got := (got l)(b := got l b @ take n front)\<rparr>"
  have step: "link_step l (ReadAt b room) = l'"
    using opn room q D(1) read_single [of room "s b" "p b" "next_id (tun (ends l b))"]
    by (simp add: l'_def s'_def n_def [symmetric] post_def)
  have quiet: "quiet v" by (simp add: v_def)
  have ok: "conn_ok (s b)" using D(2) by (simp add: side_ok_def)
  have n: "n \<le> inbound_bytes (s b)" using ok q by (simp add: conn_ok_def n_def)
  have cat: "take n front @ concat (inbound s') = concat (inbound (s b))"
    using q append_take_drop_id [of n front] by (auto simp: s'_def simp del: append_take_drop_id split: if_splits)
  have wire': "wire l' b = wire l b @ v" "wire l' (\<not> b) = wire l (\<not> b)"
    by (simp_all add: l'_def post_def v_def)
  have flags: "closed s' = closed (s b)" "inbound_ended s' = inbound_ended (s b)" "credit s' = credit (s b)"
    "outbound_ended s' = outbound_ended (s b)" "dialed s' = dialed (s b)"
    by (simp_all add: s'_def)
  have ok': "conn_ok s'"
    unfolding s'_def n_def by (rule conn_ok_read [OF ok q room])
  show ?thesis
    unfolding step
  proof (rule pair_inv_at [OF inv, of _ b s' "p b"])
    show "\<forall>(m, body) \<in> set (wire l' b). about 1 m"
      using about_quiet [OF D(3) quiet] by (simp add: wire')
    show "window_flow s' (p b) (s (\<not> b)) (p (\<not> b)) (wire l' b) (wire l' (\<not> b)) (up l')"
      using D(4) unfolding wire' window_flow_quiet [OF quiet] by (simp add: window_flow_def l'_def post_def flags)
    show "window_flow (s (\<not> b)) (p (\<not> b)) s' (p b) (wire l' (\<not> b)) (wire l' b) (up l')"
      using D(5) n unfolding wire'
      by (auto simp: window_flow_def Let_def l'_def post_def v_def s'_def)
    show "data_flow (s (\<not> b)) (p (\<not> b)) (opened (ends l (\<not> b))) (finished (ends l' b))
        (wire l' b) (sent l' b) (got l (\<not> b)) (eof l (\<not> b))"
      using D(6) unfolding wire' data_flow_quiet [OF quiet] by (simp add: l'_def post_def)
    have "eof l b \<longrightarrow> take n front = []"
    proof
      assume "eof l b"
      then have "prefix (got l b @ concat (inbound (s b))) (sent l (\<not> b))" "got l b = sent l (\<not> b)"
        using D(7) unfolding data_flow_def by blast+
      then have "concat (inbound (s b)) = []" unfolding prefix_def by (metis append_assoc append_is_Nil_conv append_self_conv)
      with cat show "take n front = []" by (metis append_is_Nil_conv)
    qed
    moreover have cat': "take n front @ concat (inbound s') @ z = concat (inbound (s b)) @ z" for z
      using cat by (metis append_assoc)
    ultimately show "data_flow s' (p b) (opened (ends l' b)) (finished (ends l (\<not> b)))
        (wire l' (\<not> b)) (sent l (\<not> b)) (got l' b) (eof l' b)"
      using D(7) unfolding wire' by (auto simp: data_flow_def l'_def post_def flags cat cat')
    show "side_ok s' (p b) (opened (ends l' b))"
      using D(2) ok' by (simp add: side_ok_def flags l'_def post_def)
  qed (simp_all add: l'_def post_def single_def)
qed

lemma link_inv_write:
  assumes "link_inv l"
  shows "link_inv (link_step l (WriteAt b buffer))"
proof -
  from assms obtain s p where inv: "pair_inv l s p" by (auto simp: link_inv_def)
  note D = pair_invD [OF inv, of b]
  have t: "tun (ends l b) = single (s b) (p b) (next_id (tun (ends l b)))" using D(1) .
  show ?thesis
  proof (cases "\<not> opened (ends l b) \<or> finished (ends l b) \<or> buffer = [] \<or> closed (s b) \<or> credit (s b) = 0")
    case True
    have same: "post b (tun (ends l b)) [] l = l" by (simp add: post_def)
    have "write_half (up l) buffer 0 (tun (ends l b)) =
        ((if buffer = [] then Ready (Some 0) else if closed (s b) then Ready None else Wait), tun (ends l b), [])"
      if "buffer = [] \<or> closed (s b) \<or> credit (s b) = 0"
      using that by (subst (1 2) t) (auto simp: write_half_def Let_def)
    with True assms same show ?thesis by auto
  next
    case False
    define n where "n = min (min (credit (s b)) (length buffer)) OUTPUT_CHUNK_BYTES"
    define s' where "s' = (s b)\<lparr>credit := credit (s b) - n\<rparr>"
    define v :: "frame list" where "v = (if up l then [(Tunnel 1, take n buffer)] else [])"
    define l0 where "l0 = post b (single s' (p b) (next_id (tun (ends l b)))) [(Tunnel 1, take n buffer)] l"
    define l' where "l' = (if up l then l0\<lparr>sent := (sent l)(b := sent l b @ take n buffer)\<rparr> else l0)"
    have "write_half (up l) buffer 0 (tun (ends l b)) =
        (Ready (if up l then Some n else None), single s' (p b) (next_id (tun (ends l b))), [(Tunnel 1, take n buffer)])"
      using False by (subst t) (simp add: write_half_def Let_def n_def s'_def)
    then have step: "link_step l (WriteAt b buffer) = l'"
      using False by (simp add: l'_def l0_def post_def)
    have n: "n \<le> credit (s b)" "length (take n buffer) = n" by (simp_all add: n_def)
    have wire': "wire l' b = wire l b @ v" "wire l' (\<not> b) = wire l (\<not> b)" "up l' = up l"
      by (simp_all add: l'_def l0_def post_def v_def)
    have nf: "\<not> finished (ends l b)" using False by simp
    show ?thesis
      unfolding step
    proof (rule pair_inv_at [OF inv, of _ b s' "p b"])
      show "\<forall>(m, body) \<in> set (wire l' b). about 1 m"
        using D(3) by (auto simp: wire' v_def)
      show "window_flow s' (p b) (s (\<not> b)) (p (\<not> b)) (wire l' b) (wire l' (\<not> b)) (up l')"
        using D(4) n unfolding wire' by (auto simp: window_flow_def Let_def s'_def v_def)
      show "window_flow (s (\<not> b)) (p (\<not> b)) s' (p b) (wire l' (\<not> b)) (wire l' b) (up l')"
        using D(5) unfolding wire' by (auto simp: window_flow_def Let_def s'_def v_def)
      show "data_flow (s (\<not> b)) (p (\<not> b)) (opened (ends l (\<not> b))) (finished (ends l' b))
          (wire l' b) (sent l' b) (got l (\<not> b)) (eof l (\<not> b))"
        using D(6) nf unfolding wire'
        by (auto simp: data_flow_def l'_def l0_def post_def v_def end_last_append)
      show "data_flow s' (p b) (opened (ends l' b)) (finished (ends l (\<not> b)))
          (wire l' (\<not> b)) (sent l (\<not> b)) (got l' b) (eof l' b)"
        using D(7) unfolding wire' by (simp add: data_flow_def l'_def l0_def post_def s'_def)
      show "side_ok s' (p b) (opened (ends l' b))"
        using D(2) by (auto simp: side_ok_def conn_ok_def l'_def l0_def post_def s'_def)
    qed (simp_all add: l'_def l0_def post_def single_def)
  qed
qed

text \<open>An operation that only raises flags of its own end.\<close>

lemma link_inv_flags:
  assumes inv: "pair_inv l s p"
    and other: "ends l' (\<not> b) = ends l (\<not> b)" "sent l' = sent l" "got l' = got l"
      "eof l' (\<not> b) = eof l (\<not> b)" "wire l' (\<not> b) = wire l (\<not> b)" "wire l' b = wire l b @ v"
      "up l' \<longrightarrow> up l"
    and tun: "tun (ends l' b) = single s' p' (next_id (tun (ends l' b)))"
    and state: "inbound s' = inbound (s b)" "inbound_bytes s' = inbound_bytes (s b)"
      "inbound_ended s' = inbound_ended (s b)" "credit s' = credit (s b)" "closed (s b) \<longrightarrow> closed s'"
      "p' \<longrightarrow> p b"
    and fin: "finished (ends l b) \<longrightarrow> finished (ends l' b)"
    and opn: "opened (ends l' b) \<longrightarrow> opened (ends l b) \<or> p b \<or> closed s'"
    and gone: "opened (ends l' b) \<and> \<not> p' \<and> \<not> closed s' \<longrightarrow> \<not> p b \<and> opened (ends l b) \<or> inbound_ended (s b)"
    and ended: "eof l' b \<longrightarrow> eof l b \<or> \<not> closed (s b) \<and> opened (ends l b) \<and> inbound_ended (s b) \<and> inbound (s b) = []"
    and side: "side_ok s' p' (opened (ends l' b))"
    and v: "payload v = []" "acked v = 0" "has_end v \<longrightarrow> finished (ends l' b)" "end_last v"
      "\<forall>(m, body) \<in> set v. about 1 m"
  shows "link_inv l'"
proof -
  note D = pair_invD [OF inv, of b]
  show ?thesis
  proof (rule pair_inv_at [OF inv, of _ b s' p'])
    show "\<forall>(m, body) \<in> set (wire l' b). about 1 m"
      using D(3) v(5) by (auto simp: other)
    show "window_flow s' p' (s (\<not> b)) (p (\<not> b)) (wire l' b) (wire l' (\<not> b)) (up l')"
      using D(4) v(1) state other(7) by (auto simp: window_flow_def Let_def other)
    show "window_flow (s (\<not> b)) (p (\<not> b)) s' p' (wire l' (\<not> b)) (wire l' b) (up l')"
      using D(5) v(2) state other(7) by (auto simp: window_flow_def Let_def other)
    show "data_flow (s (\<not> b)) (p (\<not> b)) (opened (ends l (\<not> b))) (finished (ends l' b))
        (wire l' b) (sent l' b) (got l (\<not> b)) (eof l (\<not> b))"
      using D(6) v fin unfolding data_flow_def other by (auto simp: end_last_append)
    have "eof l' b \<longrightarrow> got l b = sent l (\<not> b) \<and> finished (ends l (\<not> b))"
      using ended D(7) by (auto simp: data_flow_def)
    moreover have "\<not> closed s' \<and> (p' \<or> opened (ends l' b)) \<longrightarrow> p b \<or> opened (ends l b)"
      using opn state by blast
    moreover have "opened (ends l' b) \<and> \<not> p' \<and> \<not> closed s' \<longrightarrow> inbound_ended (s b)"
      using gone state(5) D(7) by (auto simp: data_flow_def)
    ultimately show "data_flow s' p' (opened (ends l' b)) (finished (ends l (\<not> b)))
        (wire l' (\<not> b)) (sent l (\<not> b)) (got l' b) (eof l' b)"
      using D(7) state unfolding data_flow_def other by auto
    show "side_ok s' p' (opened (ends l' b))" using side .
  qed (use other tun in simp_all)
qed

lemma link_inv_read:
  assumes "link_inv l"
  shows "link_inv (link_step l (ReadAt b room))"
proof -
  from assms obtain s p where inv: "pair_inv l s p" by (auto simp: link_inv_def)
  note D = pair_invD [OF inv, of b]
  have same: "post b (single (s b) (p b) (next_id (tun (ends l b)))) [] l = l"
    using D(1) by (simp add: post_def)
  consider (data) front queue where "opened (ends l b)" "0 < room" "inbound (s b) = front # queue"
    | (eof) "opened (ends l b)" "0 < room" "inbound (s b) = []" "\<not> closed (s b)" "inbound_ended (s b)"
    | (none) "\<not> opened (ends l b) \<or> room = 0 \<or> inbound (s b) = [] \<and> (closed (s b) \<or> \<not> inbound_ended (s b))"
    by (cases "inbound (s b)") auto
  then show ?thesis
  proof cases
    case data
    from link_inv_read_data [OF inv this] show ?thesis .
  next
    case eof
    define l' where "l' = (post b (single (s b) (p b \<and> \<not> over (s b)) (next_id (tun (ends l b)))) [] l)
        \<lparr>eof := (eof l)(b := True)\<rparr>"
    have "link_step l (ReadAt b room) = l'"
      using eof D(1) read_single [of room "s b" "p b" "next_id (tun (ends l b))"]
      by (simp add: l'_def post_def)
    moreover have "link_inv l'"
      using D(2) eof
      by (intro link_inv_flags [OF inv, of _ b "[]" "s b" "p b \<and> \<not> over (s b)"])
        (simp_all add: l'_def post_def single_def side_ok_def)
    ultimately show ?thesis by simp
  next
    case none
    with D(1) read_single [of room "s b" "p b" "next_id (tun (ends l b))"] same
    have "link_step l (ReadAt b room) = l \<or> link_step l (ReadAt b room) = l\<lparr>got := (got l)(b := got l b @ [])\<rparr>"
      by auto
    moreover have "l\<lparr>got := (got l)(b := got l b @ [])\<rparr> = l" by simp
    ultimately show ?thesis using assms by metis
  qed
qed

lemma link_inv_abort:
  assumes inv: "pair_inv l s p" and opn: "opened (ends l b)"
  shows "link_inv (set_finished b True (post b
    (single ((s b)\<lparr>closed := True\<rparr>) False (next_id (tun (ends l b)))) [(TunnelClose 1, [])] l))"
  using pair_invD(2) [OF inv, of b] opn
  by (intro link_inv_flags [OF inv, of _ b "if up l then [(TunnelClose 1, [])] else []" "(s b)\<lparr>closed := True\<rparr>" False])
    (simp_all add: set_finished_def post_def single_def side_ok_def conn_ok_def)

lemma abort_single:
  "abort_half d 0 (single s p n) = (True, single (s\<lparr>closed := True\<rparr>) False n, [(TunnelClose 1, [])])"
  by (simp add: abort_half_def over_def Let_def)

lemma set_finished_same: "finished (ends l b) = d \<Longrightarrow> set_finished b d (post b (tun (ends l b)) [] l) = l"
  by (auto simp: set_finished_def post_def fun_upd_idem)

lemma link_inv_end:
  assumes "link_inv l"
  shows "link_inv (link_step l (AbortAt b))" and "link_inv (link_step l (DropAt b))"
    and "link_inv (link_step l (FinishAt b))"
proof -
  from assms obtain s p where inv: "pair_inv l s p" by (auto simp: link_inv_def)
  note D = pair_invD [OF inv, of b]
  have ab: "abort_half d 0 (tun (ends l b)) =
      (True, single ((s b)\<lparr>closed := True\<rparr>) False (next_id (tun (ends l b))), [(TunnelClose 1, [])])" for d
    using abort_single [of d "s b" "p b" "next_id (tun (ends l b))"] D(1) by simp
  show "link_inv (link_step l (AbortAt b))"
    using link_inv_abort [OF inv] assms by (simp add: ab)
  show "link_inv (link_step l (DropAt b))"
    using link_inv_abort [OF inv] assms set_finished_same [of l b True] by (auto simp: drop_half_def ab)
  show "link_inv (link_step l (FinishAt b))"
  proof (cases "opened (ends l b) \<and> \<not> finished (ends l b)")
    case False
    with assms set_finished_same [of l b True] show ?thesis by (auto simp: finish_half_def)
  next
    case True
    define s' where "s' = (s b)\<lparr>outbound_ended := True\<rparr>"
    define l' where "l' = set_finished b True (post b
      (single s' (p b \<and> \<not> over s') (next_id (tun (ends l b)))) [(TunnelEnd 1, [])] l)"
    have "finish_half False 0 (single (s b) (p b) n) = (True, single s' (p b \<and> \<not> over s') n, [(TunnelEnd 1, [])])" for n
      by (simp add: finish_half_def Let_def s'_def)
    from this [of "next_id (tun (ends l b))"] have "finish_half False 0 (tun (ends l b)) =
        (True, single s' (p b \<and> \<not> over s') (next_id (tun (ends l b))), [(TunnelEnd 1, [])])"
      by (simp only: D(1) [symmetric])
    then have "link_step l (FinishAt b) = l'"
      using True by (simp add: l'_def)
    moreover have "link_inv l'"
      using D(2) True
      by (intro link_inv_flags [OF inv, of _ b "if up l then [(TunnelEnd 1, [])] else []" s' "p b \<and> \<not> over s'"])
        (simp_all add: l'_def set_finished_def post_def single_def side_ok_def conn_ok_def s'_def over_def, blast?)
    ultimately show ?thesis by simp
  qed
qed

lemma link_inv_lose:
  assumes "link_inv l"
  shows "link_inv (link_step l (LoseLink b))"
proof -
  from assms obtain s p where inv: "pair_inv l s p" by (auto simp: link_inv_def)
  note D = pair_invD [OF inv, of b]
  define s' where "s' = (if p b then (s b)\<lparr>closed := True\<rparr> else s b)"
  define l' where "l' = post b (single s' False (next_id (tun (ends l b)))) [] (l\<lparr>up := False\<rparr>)"
  have "close_all (tun (ends l b)) = single s' False (next_id (tun (ends l b)))"
    using close_all_single [of "s b" "p b" "next_id (tun (ends l b))"] unfolding s'_def by (simp only: D(1) [symmetric])
  then have "link_step l (LoseLink b) = l'" by (simp add: l'_def)
  moreover have "link_inv l'"
  proof (rule link_inv_flags [OF inv, of _ b "[]" s' False])
    show "side_ok s' False (opened (ends l' b))"
      using D(2) by (auto simp: l'_def post_def s'_def side_ok_def conn_ok_def)
    show "opened (ends l' b) \<and> \<not> False \<and> \<not> closed s' \<longrightarrow> \<not> p b \<and> opened (ends l b) \<or> inbound_ended (s b)"
      by (simp add: l'_def post_def s'_def)
  qed (simp_all add: l'_def post_def single_def s'_def)
  ultimately show ?thesis by simp
qed

lemma link_inv_dial:
  assumes "link_inv l"
  shows "link_inv (link_step l (AwaitDial expired txt))"
proof (cases "opened (ends l True)")
  case True
  with assms show ?thesis by simp
next
  case False
  from assms obtain s p where inv: "pair_inv l s p" by (auto simp: link_inv_def)
  note D = pair_invD [OF inv, of True]
  let ?s = "s True" and ?n = "next_id (tun (ends l True))"
  have round: "dial_round expired txt 0 (tun (ends l True)) =
     (case dialed ?s of
        Some (Inr _) \<Rightarrow> (Ready (Inr ()), single (?s\<lparr>dialed := None\<rparr>) (p True) ?n, [])
      | Some (Inl error) \<Rightarrow> (Ready (Inl error), single (?s\<lparr>dialed := None\<rparr>) False ?n, [])
      | None \<Rightarrow>
          if closed ?s then (Ready (Inl lost_link), single ?s False ?n, [])
          else if expired then (Ready (Inl (False, txt)), single ?s False ?n, [(TunnelClose 1, [])])
          else (Wait, single ?s (p True) ?n, []))"
  proof -
    have "dial_round expired txt 0 (single ?s (p True) ?n) =
     (case dialed ?s of
        Some (Inr _) \<Rightarrow> (Ready (Inr ()), single (?s\<lparr>dialed := None\<rparr>) (p True) ?n, [])
      | Some (Inl error) \<Rightarrow> (Ready (Inl error), single (?s\<lparr>dialed := None\<rparr>) False ?n, [])
      | None \<Rightarrow>
          if closed ?s then (Ready (Inl lost_link), single ?s False ?n, [])
          else if expired then (Ready (Inl (False, txt)), single ?s False ?n, [(TunnelClose 1, [])])
          else (Wait, single ?s (p True) ?n, []))"
      by (simp add: dial_round_def Let_def split: option.split sum.split)
    then show ?thesis by (simp only: D(1) [symmetric])
  qed
  define s' where "s' = ?s\<lparr>dialed := None\<rparr>"
  define q where "q \<longleftrightarrow> p True \<and> (case dialed ?s of Some (Inr _) \<Rightarrow> True | Some (Inl _) \<Rightarrow> False
      | None \<Rightarrow> \<not> closed ?s \<and> \<not> expired)"
  define v :: "frame list" where
    "v = (if dialed ?s = None \<and> \<not> closed ?s \<and> expired then [(TunnelClose 1, [])] else [])"
  define answered where "answered \<longleftrightarrow> (\<exists>u. dialed ?s = Some (Inr u))"
  define l0 where "l0 = post True (single s' q ?n) v l"
  define l' where "l' = l0\<lparr>ends := (ends l0)(True := (ends l0 True)\<lparr>opened := answered\<rparr>)\<rparr>"
  have same: "?s = s'" if "dialed ?s = None" using that by (simp add: s'_def)
  have open0: "(ends l0)(True := (ends l0 True)\<lparr>opened := False\<rparr>) = ends l0"
    using False by (auto simp: l0_def post_def)
  have "link_step l (AwaitDial expired txt) = l'"
  proof (cases "dialed ?s")
    case None
    with same have "dial_round expired txt 0 (tun (ends l True)) =
        ((if closed ?s then Ready (Inl lost_link) else if expired then Ready (Inl (False, txt)) else Wait),
         single s' q ?n, v)"
      using D(2) unfolding round by (auto simp: q_def v_def side_ok_def)
    with False None open0 show ?thesis
      by (auto simp: l'_def l0_def [symmetric] answered_def)
  next
    case (Some a)
    then show ?thesis
      using False open0 round
      by (cases a) (auto simp: l'_def l0_def answered_def q_def v_def s'_def post_def)
  qed
  moreover have "link_inv l'"
    using D(2) False
    by (intro link_inv_flags [OF inv, of _ True "if up l then v else []" s' q])
      (auto simp: l'_def l0_def post_def single_def s'_def q_def v_def answered_def side_ok_def conn_ok_def
        split: option.splits sum.splits)
  ultimately show ?thesis by simp
qed

lemma link_inv_step: "link_inv l \<Longrightarrow> link_inv (link_step l x)"
  by (cases x) (simp_all only: link_inv_deliver link_inv_dial link_inv_read link_inv_write link_inv_end link_inv_lose)

lemma link_start_ends:
  "tun (ends (link_start host port) b) = single fresh_state True (if b then 2 else 1)"
  by (simp add: link_start_def dial_def accept_def accept_check_def accept_insert_def insert_conn_def
      tunnels_new_def single_def open_count_def MAX_CONNECTIONS_def al_put_def al_del_def Let_def)

lemma link_inv_start: "link_inv (link_start host port)"
proof -
  have rest: "wire (link_start host port) b = (if b then [] else [(Dialed 1 None False, [])])"
    "opened (ends (link_start host port) b) = (\<not> b)" "finished (ends (link_start host port) b) = False"
    "up (link_start host port)" "sent (link_start host port) b = []" "got (link_start host port) b = []"
    "eof (link_start host port) b = False" for b
    by (simp_all add: link_start_def dial_def accept_def accept_check_def accept_insert_def insert_conn_def
        tunnels_new_def open_count_def MAX_CONNECTIONS_def Let_def)
  have "pair_inv (link_start host port) (\<lambda>_. fresh_state) (\<lambda>_. True)"
    unfolding pair_inv_def rest link_start_ends
    by (simp add: single_def side_ok_def conn_ok_fresh window_flow_def data_flow_def)
      (simp add: fresh_state_def)
  then show ?thesis by (auto simp: link_inv_def)
qed

interpretation tunnel_pair: total_machine "\<lambda>l. \<exists>host port. l = link_start host port" link_step link_inv
  by unfold_locales (auto simp: link_inv_start link_inv_step simp del: link_step.simps)

section \<open>Properties\<close>

definition link_run :: "string \<Rightarrow> nat \<Rightarrow> link_op list \<Rightarrow> link" where
  "link_run host port ops = foldl link_step (link_start host port) ops"

definition state_at :: "link \<Rightarrow> bool \<Rightarrow> conn_state" where
  "state_at l b = state_of (tun (ends l b)) 0"

definition present :: "link \<Rightarrow> bool \<Rightarrow> bool" where
  "present l b \<longleftrightarrow> conns (tun (ends l b)) \<noteq> []"

text \<open>Every byte of a window: with the sender, on the way, buffered, or acknowledged on the way back.\<close>

definition accounted :: "link \<Rightarrow> bool \<Rightarrow> nat" where
  "accounted l b = credit (state_at l b) + length (payload (wire l b))
     + inbound_bytes (state_at l (\<not> b)) + acked (wire l (\<not> b))"

lemma link_run_inv: "link_inv (link_run host port ops)"
  unfolding link_run_def by (rule tunnel_pair.foldl_inv) blast

lemma link_invE:
  assumes "link_inv l"
  obtains "window_flow (state_at l b) (present l b) (state_at l (\<not> b)) (present l (\<not> b))
      (wire l b) (wire l (\<not> b)) (up l)"
    and "data_flow (state_at l (\<not> b)) (present l (\<not> b)) (opened (ends l (\<not> b))) (finished (ends l b))
      (wire l b) (sent l b) (got l (\<not> b)) (eof l (\<not> b))"
    and "conn_ok (state_at l b)"
proof -
  from assms obtain s p where inv: "pair_inv l s p" by (auto simp: link_inv_def)
  have "state_at l c = s c" "present l c = p c" for c
    unfolding state_at_def present_def by (subst pair_invD(1) [OF inv], simp add: single_def state_of_def)+
  with pair_invD(2,4,6) [OF inv, of b] that show thesis by (simp add: side_ok_def)
qed

text \<open>A run in which the outer end sends three bytes and ends, and the cell reads them all.\<close>

definition short_run :: "link_op list" where
  "short_run = [WriteAt False [7, 8, 9], Deliver False, AwaitDial False [], Deliver False, ReadAt True 2,
     FinishAt False, Deliver False, ReadAt True 2, ReadAt True 2]"

lemmas run_simps = link_run_def link_start_def dial_def accept_def accept_check_def accept_insert_def
  insert_conn_def tunnels_new_def open_count_def MAX_CONNECTIONS_def al_put_def al_del_def fresh_state_def
  state_at_def present_def state_of_def with_state_def collect_def over_def remove_conn_def dispatch_def
  dial_round_def read_half_def write_half_def finish_half_def take_data_def post_def set_finished_def
  TUNNEL_WINDOW_def OUTPUT_CHUNK_BYTES_def Let_def

lemma short_run_start:
  "link_run [] 0 (take 5 short_run) =
     \<lparr>ends = (\<lambda>b. if b
        then \<lparr>tun = single (fresh_state\<lparr>inbound := [[9]], inbound_bytes := 1\<rparr>) True 2, opened = True, finished = False\<rparr>
        else \<lparr>tun = single (fresh_state\<lparr>credit := 524285\<rparr>) True 1, opened = True, finished = False\<rparr>),
      wire = (\<lambda>b. if b then [(TunnelAck 1 2, [])] else []), up = True,
      sent = (\<lambda>b. if b then [] else [7, 8, 9]), got = (\<lambda>b. if b then [7, 8] else []), eof = (\<lambda>_. False)\<rparr>"
  by (simp add: short_run_def run_simps single_def fun_eq_iff)

lemma short_run_end:
  "eof (link_run [] 0 short_run) True" "got (link_run [] 0 short_run) True = [7, 8, 9]"
  by (simp_all add: short_run_def run_simps)

text \<open>
  Safety: between two ends that follow the code, whatever the order in which frames
  arrive and the halves are used, the window of either direction is conserved: the bytes the
  sender may still send, those on the way, those buffered and those acknowledged on the way back
  make up exactly one window while the link is up and both ends hold the connection, and never
  more afterwards. So the next data frame always fits the receiver's buffer, and no honest
  connection is closed for overrunning it.
\<close>

theorem tunnel_window_conserved:
  "accounted (link_run host port ops) b \<le> TUNNEL_WINDOW
   \<and> (up (link_run host port ops) \<and> present (link_run host port ops) b \<and> present (link_run host port ops) (\<not> b)
      \<longrightarrow> accounted (link_run host port ops) b = TUNNEL_WINDOW)
   \<and> inbound_bytes (state_at (link_run host port ops) (\<not> b)) + length (payload (wire (link_run host port ops) b))
      \<le> TUNNEL_WINDOW"
proof -
  obtain w: "window_flow (state_at (link_run host port ops) b) (present (link_run host port ops) b)
      (state_at (link_run host port ops) (\<not> b)) (present (link_run host port ops) (\<not> b))
      (wire (link_run host port ops) b) (wire (link_run host port ops) (\<not> b)) (up (link_run host port ops))"
    using link_invE [OF link_run_inv] by metis
  have "inbound_bytes (state_at (link_run host port ops) (\<not> b)) + length (payload (wire (link_run host port ops) b))
      \<le> accounted (link_run host port ops) b"
    by (simp add: accounted_def)
  with w show ?thesis unfolding window_flow_def Let_def accounted_def by linarith
qed

theorem tunnel_window_conserved_witness:
  "accounted (link_run [] 0 (take 5 short_run)) False = TUNNEL_WINDOW
   \<and> acked (wire (link_run [] 0 (take 5 short_run)) True) = 2"
proof -
  have "up (link_run [] 0 (take 5 short_run)) \<and> present (link_run [] 0 (take 5 short_run)) False
      \<and> present (link_run [] 0 (take 5 short_run)) (\<not> False)"
    by (simp only: short_run_start) (simp add: present_def single_def)
  with tunnel_window_conserved [of "[]" 0 "take 5 short_run" False] show ?thesis
    by (simp add: short_run_start)
qed

text \<open>
  Claim C13. Functional: what an end's reader has got is always a prefix of what the other end's
  writer has sent, and the reader is told of the end of the stream only when it has got all of it
  and the writer has finished.
\<close>

theorem tunnel_delivers_in_order:
  "prefix (got (link_run host port ops) (\<not> b)) (sent (link_run host port ops) b)
   \<and> (eof (link_run host port ops) (\<not> b) \<longrightarrow>
        got (link_run host port ops) (\<not> b) = sent (link_run host port ops) b
        \<and> finished (ends (link_run host port ops) b))"
proof -
  obtain d: "data_flow (state_at (link_run host port ops) (\<not> b)) (present (link_run host port ops) (\<not> b))
      (opened (ends (link_run host port ops) (\<not> b))) (finished (ends (link_run host port ops) b))
      (wire (link_run host port ops) b) (sent (link_run host port ops) b)
      (got (link_run host port ops) (\<not> b)) (eof (link_run host port ops) (\<not> b))"
    using link_invE [OF link_run_inv] by metis
  then show ?thesis unfolding data_flow_def by (auto dest: append_prefixD)
qed

theorem tunnel_delivers_in_order_witness:
  "sent (link_run [] 0 short_run) False = [7, 8, 9] \<and> finished (ends (link_run [] 0 short_run) False)"
  using tunnel_delivers_in_order [of "[]" 0 short_run False] short_run_end by simp

text \<open>
  Liveness: a writer out of credit is never stuck for good: while the link is up and both
  ends hold the connection, there is data on the way, data for the reader to read, or an
  acknowledgement on the way back.
\<close>

theorem tunnel_writer_never_stuck:
  assumes "up (link_run host port ops)" "present (link_run host port ops) b" "present (link_run host port ops) (\<not> b)"
    and "credit (state_at (link_run host port ops) b) = 0"
  shows "payload (wire (link_run host port ops) b) \<noteq> [] \<or> inbound (state_at (link_run host port ops) (\<not> b)) \<noteq> []
    \<or> 0 < acked (wire (link_run host port ops) (\<not> b))"
proof -
  let ?l = "link_run host port ops"
  obtain w: "window_flow (state_at ?l b) (present ?l b) (state_at ?l (\<not> b)) (present ?l (\<not> b))
      (wire ?l b) (wire ?l (\<not> b)) (up ?l)"
    using link_invE [OF link_run_inv] by metis
  obtain ok: "conn_ok (state_at ?l (\<not> b))"
    using link_invE [OF link_run_inv] by metis
  have "accounted ?l b = TUNNEL_WINDOW" using w assms by (simp add: window_flow_def accounted_def Let_def)
  then have "0 < length (payload (wire ?l b)) + inbound_bytes (state_at ?l (\<not> b)) + acked (wire ?l (\<not> b))"
    using assms(4) window_pos by (simp add: accounted_def)
  moreover have "inbound (state_at ?l (\<not> b)) = [] \<Longrightarrow> inbound_bytes (state_at ?l (\<not> b)) = 0"
    using ok by (simp add: conn_ok_def)
  ultimately show ?thesis by force
qed

text \<open>Eight full chunks use up the window.\<close>

definition a_chunk :: "octet list" where
  "a_chunk = replicate OUTPUT_CHUNK_BYTES 0"

lemma write_chunk:
  assumes "opened (ends l b)" "\<not> finished (ends l b)" "tun (ends l b) = single s p n" "\<not> closed s"
    and "OUTPUT_CHUNK_BYTES \<le> credit s"
  shows "tun (ends (link_step l (WriteAt b a_chunk)) b) = single (s\<lparr>credit := credit s - OUTPUT_CHUNK_BYTES\<rparr>) p n"
    and "opened (ends (link_step l (WriteAt b a_chunk)) b)" and "\<not> finished (ends (link_step l (WriteAt b a_chunk)) b)"
    and "ends (link_step l (WriteAt b a_chunk)) (\<not> b) = ends l (\<not> b)"
    and "up (link_step l (WriteAt b a_chunk)) = up l"
proof -
  have "0 < OUTPUT_CHUNK_BYTES" by (simp add: OUTPUT_CHUNK_BYTES_def)
  moreover from this have "a_chunk \<noteq> []" "length a_chunk = OUTPUT_CHUNK_BYTES" by (simp_all add: a_chunk_def)
  ultimately have "write_half (up l) a_chunk 0 (tun (ends l b)) =
      (Ready (if up l then Some OUTPUT_CHUNK_BYTES else None),
       single (s\<lparr>credit := credit s - OUTPUT_CHUNK_BYTES\<rparr>) p n, [(Tunnel 1, a_chunk)])"
    using assms by (simp add: write_half_def Let_def min_absorb2)
  with assms show "tun (ends (link_step l (WriteAt b a_chunk)) b) = single (s\<lparr>credit := credit s - OUTPUT_CHUNK_BYTES\<rparr>) p n"
    "opened (ends (link_step l (WriteAt b a_chunk)) b)" "\<not> finished (ends (link_step l (WriteAt b a_chunk)) b)"
    "ends (link_step l (WriteAt b a_chunk)) (\<not> b) = ends l (\<not> b)" "up (link_step l (WriteAt b a_chunk)) = up l"
    by (simp_all add: post_def)
qed

lemma write_chunks:
  assumes "k * OUTPUT_CHUNK_BYTES \<le> TUNNEL_WINDOW"
  shows "let l = link_run [] 0 (replicate k (WriteAt False a_chunk)) in
     tun (ends l False) = single (fresh_state\<lparr>credit := TUNNEL_WINDOW - k * OUTPUT_CHUNK_BYTES\<rparr>) True 1
     \<and> opened (ends l False) \<and> \<not> finished (ends l False)
     \<and> ends l True = ends (link_start [] 0) True \<and> up l"
  using assms
proof (induction k)
  case 0
  have "fresh_state\<lparr>credit := TUNNEL_WINDOW\<rparr> = fresh_state" by (simp add: fresh_state_def)
  moreover have "opened (ends (link_start [] 0) False)" "\<not> finished (ends (link_start [] 0) False)" "up (link_start [] 0)"
    by (simp_all add: run_simps)
  ultimately show ?case by (simp add: link_run_def Let_def link_start_ends)
next
  case (Suc k)
  let ?l = "link_run [] 0 (replicate k (WriteAt False a_chunk))"
  have run: "link_run [] 0 (replicate (Suc k) (WriteAt False a_chunk)) = link_step ?l (WriteAt False a_chunk)"
    unfolding replicate_Suc replicate_append_same [symmetric] link_run_def by (simp del: link_step.simps)
  from Suc have IH: "tun (ends ?l False) = single (fresh_state\<lparr>credit := TUNNEL_WINDOW - k * OUTPUT_CHUNK_BYTES\<rparr>) True 1"
    "opened (ends ?l False)" "\<not> finished (ends ?l False)" "ends ?l True = ends (link_start [] 0) True" "up ?l"
    by (simp_all add: Let_def)
  have "OUTPUT_CHUNK_BYTES \<le> credit (fresh_state\<lparr>credit := TUNNEL_WINDOW - k * OUTPUT_CHUNK_BYTES\<rparr>)"
    using Suc.prems by simp
  from write_chunk [OF IH(2,3,1) _ this] IH show ?case
    unfolding run Let_def by (simp add: fresh_state_def add.commute del: link_step.simps)
qed

theorem tunnel_writer_never_stuck_witness:
  "credit (state_at (link_run [] 0 (replicate 8 (WriteAt False a_chunk))) False) = 0
   \<and> \<not> (payload (wire (link_run [] 0 (replicate 8 (WriteAt False a_chunk))) False) = []
      \<and> inbound (state_at (link_run [] 0 (replicate 8 (WriteAt False a_chunk))) True) = []
      \<and> acked (wire (link_run [] 0 (replicate 8 (WriteAt False a_chunk))) True) = 0)"
proof -
  let ?l = "link_run [] 0 (replicate 8 (WriteAt False a_chunk))"
  have w: "8 * OUTPUT_CHUNK_BYTES = TUNNEL_WINDOW" by (simp add: OUTPUT_CHUNK_BYTES_def TUNNEL_WINDOW_def)
  then have "tun (ends ?l False) = single (fresh_state\<lparr>credit := 0\<rparr>) True 1" "up ?l"
    "ends ?l True = ends (link_start [] 0) True"
    using write_chunks [of 8] by (simp_all add: Let_def del: replicate.simps)
  then have "credit (state_at ?l False) = 0" "up ?l" "present ?l False" "present ?l (\<not> False)"
    using link_start_ends [of "[]" 0 True]
    by (simp_all add: state_at_def present_def single_def state_of_def del: replicate.simps)
  with tunnel_writer_never_stuck [of "[]" 0 "replicate 8 (WriteAt False a_chunk)" False]
  show ?thesis by (simp del: replicate.simps)
qed

end
