(* ===== verification/Ring.thy ===== *)
theory Ring
  imports Prelude
begin

text \<open>
  \<^verbatim>\<open>src-tauri/remote-agent/src/ring.rs\<close>: a window on a byte stream held by absolute offset. A
  \<open>VecDeque\<close> is the list of its bytes; where its storage wraps, which is where \<open>as_slices\<close>
  cuts it in two, is the argument \<open>seam\<close> of \<open>read_from\<close>. A slice out of range panics, which is
  \<open>None\<close>. Offsets are unbounded here (\<^verbatim>\<open>u64\<close> in the code).
\<close>

section \<open>The ring\<close>

type_synonym byte = nat

record ring =
  bytes :: "byte list"
  start :: nat
  capacity :: nat

definition ring_new :: "nat \<Rightarrow> ring" where
  "ring_new cap = \<lparr>bytes = [], start = 0, capacity = max cap 1\<rparr>"

definition ring_end :: "ring \<Rightarrow> nat" where
  "ring_end r = start r + length (bytes r)"

definition push :: "byte list \<Rightarrow> ring \<Rightarrow> ring" where
  "push data r =
     (if length data \<ge> capacity r then
        let skipped = length data - capacity r
        in r\<lparr>start := start r + (length (bytes r) + skipped), bytes := drop skipped data\<rparr>
      else
        let overflow = length (bytes r) + length data - capacity r
        in r\<lparr>bytes := (if overflow > 0 then drop overflow (bytes r) else bytes r) @ data,
             start := (if overflow > 0 then start r + overflow else start r)\<rparr>)"

text \<open>\<open>&xs[a..b]\<close>.\<close>

definition slice :: "'a list \<Rightarrow> nat \<Rightarrow> nat \<Rightarrow> 'a list option" where
  "slice xs a b = (if a \<le> b \<and> b \<le> length xs then Some (take (b - a) (drop a xs)) else None)"

definition clamp :: "nat \<Rightarrow> nat \<Rightarrow> nat \<Rightarrow> nat" where
  "clamp x lo hi = (if x < lo then lo else if x > hi then hi else x)"

definition read_from :: "nat \<Rightarrow> nat \<Rightarrow> nat \<Rightarrow> ring \<Rightarrow> (nat \<times> byte list) option" where
  "read_from seam offset max_bytes r =
     (let pos = clamp offset (start r) (ring_end r);
          skip = pos - start r;
          n = min (length (bytes r) - skip) max_bytes;
          front = take seam (bytes r);
          back = drop seam (bytes r)
      in if skip < length front then
           Option.bind (slice front skip (min (skip + n) (length front))) (\<lambda>head.
             if length head < n
             then map_option (\<lambda>rest. (pos, head @ rest)) (slice back 0 (n - length head))
             else Some (pos, head))
         else
           (let at = skip - length front
            in map_option (\<lambda>out. (pos, out)) (slice back at (at + n))))"

definition consume_to :: "nat \<Rightarrow> ring \<Rightarrow> ring" where
  "consume_to offset r =
     (let offset = min offset (ring_end r)
      in if offset > start r
         then r\<lparr>bytes := drop (offset - start r) (bytes r), start := offset\<rparr>
         else r)"

definition skip_to :: "nat \<Rightarrow> ring \<Rightarrow> ring" where
  "skip_to offset r =
     (if offset > ring_end r then r\<lparr>bytes := [], start := offset\<rparr> else consume_to offset r)"

datatype ring_op = Push "byte list" | ConsumeTo nat | SkipTo nat

fun ring_step :: "ring \<Rightarrow> ring_op \<Rightarrow> ring" where
  "ring_step r (Push data) = push data r"
| "ring_step r (ConsumeTo offset) = consume_to offset r"
| "ring_step r (SkipTo offset) = skip_to offset r"

section \<open>The stream it is a window on\<close>

text \<open>Everything ever pushed, by offset; a skip leaves a gap.\<close>

record stream =
  written :: "nat \<Rightarrow> byte option"
  tip :: nat

definition stream_new :: stream where
  "stream_new = \<lparr>written = \<lambda>_. None, tip = 0\<rparr>"

fun stream_step :: "stream \<Rightarrow> ring_op \<Rightarrow> stream" where
  "stream_step s (Push data) =
     s\<lparr>written := (\<lambda>i. if tip s \<le> i \<and> i < tip s + length data then Some (data ! (i - tip s)) else written s i),
       tip := tip s + length data\<rparr>"
| "stream_step s (ConsumeTo offset) = s"
| "stream_step s (SkipTo offset) = s\<lparr>tip := max (tip s) offset\<rparr>"

definition window :: "ring \<Rightarrow> stream \<Rightarrow> bool" where
  "window r s \<longleftrightarrow>
     ring_end r = tip s \<and> length (bytes r) \<le> capacity r \<and> 1 \<le> capacity r
     \<and> (\<forall>i < length (bytes r). written s (start r + i) = Some (bytes r ! i))"

lemma windowI:
  assumes "ring_end r = tip s" and "length (bytes r) \<le> capacity r" and "1 \<le> capacity r"
    and "\<And>i. i < length (bytes r) \<Longrightarrow> written s (start r + i) = Some (bytes r ! i)"
  shows "window r s"
  using assms by (simp add: window_def)

lemma window_nth:
  "window r s \<Longrightarrow> j < length (bytes r) \<Longrightarrow> p = start r + j \<Longrightarrow> written s p = Some (bytes r ! j)"
  by (simp add: window_def)

lemma window_end: "window r s \<Longrightarrow> start r + length (bytes r) = tip s"
  by (simp add: window_def ring_end_def)

lemma push_window:
  assumes win: "window r s"
  shows "window (push data r) (stream_step s (Push data))"
proof (cases "length data \<ge> capacity r")
  case True
  then have "push data r = r\<lparr>start := start r + (length (bytes r) + (length data - capacity r)),
      bytes := drop (length data - capacity r) data\<rparr>"
    by (simp add: push_def Let_def)
  moreover have "1 \<le> capacity r" using win by (simp add: window_def)
  moreover have "\<not> start r + (length (bytes r) + (length data - capacity r)) + i < tip s" for i
    using window_end [OF win] by simp
  moreover have "start r + (length (bytes r) + (length data - capacity r)) + i - tip s
      = length data - capacity r + i" for i
    using window_end [OF win] by simp
  moreover have "start r + (length (bytes r) + (length data - capacity r)) + i < tip s + length data"
    if "i < capacity r" for i
    using that True window_end [OF win] by simp
  ultimately show ?thesis
    using True window_end [OF win]
    by (intro windowI) (simp_all add: ring_end_def not_less del: add_diff_assoc add_diff_assoc2 diff_diff_left)
next
  case False
  let ?k = "length (bytes r) + length data - capacity r"
  have k: "?k \<le> length (bytes r)" using False by simp
  have push: "push data r = r\<lparr>bytes := drop ?k (bytes r) @ data, start := start r + ?k\<rparr>"
    using False by (auto simp: push_def Let_def)
  show ?thesis
  proof (rule windowI)
    fix i assume i: "i < length (bytes (push data r))"
    have tip: "tip s = start r + length (bytes r)" using window_end [OF win] by simp
    show "written (stream_step s (Push data)) (start (push data r) + i) = Some (bytes (push data r) ! i)"
    proof (cases "i < length (bytes r) - ?k")
      case True
      then have "written s (start r + ?k + i) = Some (bytes r ! (?k + i))"
        using k by (intro window_nth [OF win]) simp_all
      moreover have "\<not> tip s \<le> start r + ?k + i" using True k tip by simp
      ultimately show ?thesis using True k by (simp add: push nth_append)
    next
      case False
      then have "tip s \<le> start r + ?k + i" "start r + ?k + i - tip s = i - (length (bytes r) - ?k)"
        using k tip by auto
      moreover have "start r + ?k + i < tip s + length data" using i k tip by (simp add: push)
      ultimately show ?thesis using False k by (simp add: push nth_append)
    qed
  qed (use win False k window_end [OF win] in \<open>auto simp: push ring_end_def window_def\<close>)
qed

lemma consume_window:
  assumes win: "window r s"
  shows "window (consume_to offset r) s"
proof (cases "min offset (ring_end r) > start r")
  case True
  let ?o = "min offset (ring_end r)"
  have eq: "consume_to offset r = r\<lparr>bytes := drop (?o - start r) (bytes r), start := ?o\<rparr>"
    using True by (simp add: consume_to_def Let_def)
  have o: "?o - start r \<le> length (bytes r)" "start r < ?o" using True by (auto simp: ring_end_def)
  show ?thesis
  proof (rule windowI)
    fix i assume "i < length (bytes (consume_to offset r))"
    then have "?o - start r + i < length (bytes r)" by (simp add: eq)
    moreover have "?o + i = start r + (?o - start r + i)" using o(2) by linarith
    ultimately have "written s (?o + i) = Some (bytes r ! (?o - start r + i))"
      by (rule window_nth [OF win])
    with o show "written s (start (consume_to offset r) + i) = Some (bytes (consume_to offset r) ! i)"
      by (simp add: eq)
  next
    have "?o + (length (bytes r) - (?o - start r)) = tip s" using o window_end [OF win] by linarith
    then show "ring_end (consume_to offset r) = tip s" by (simp add: eq ring_end_def)
  qed (use win in \<open>auto simp: eq window_def\<close>)
next
  case False
  then have "consume_to offset r = r" unfolding consume_to_def Let_def by (simp only: if_False)
  with win show ?thesis by simp
qed

lemma skip_window:
  assumes "window r s"
  shows "window (skip_to offset r) (stream_step s (SkipTo offset))"
proof (cases "offset > ring_end r")
  case True
  with assms show ?thesis by (simp add: skip_to_def window_def ring_end_def)
next
  case False
  with assms have "max (tip s) offset = tip s" by (simp add: window_def)
  with False consume_window [OF assms] show ?thesis by (simp add: skip_to_def)
qed

lemma ring_step_window: "window r s \<Longrightarrow> window (ring_step r op) (stream_step s op)"
proof (cases op)
  case (Push data)
  then show "window r s \<Longrightarrow> ?thesis" using push_window [of r s data] by simp
next
  case (ConsumeTo offset)
  then show "window r s \<Longrightarrow> ?thesis" using consume_window [of r s offset] by simp
next
  case (SkipTo offset)
  then show "window r s \<Longrightarrow> ?thesis" using skip_window [of r s offset] by simp
qed

lemma ring_step_capacity: "capacity (ring_step r op) = capacity r"
  by (cases op) (simp_all add: push_def consume_to_def skip_to_def Let_def)

lemma window_new: "window (ring_new cap) stream_new"
  by (rule windowI) (simp_all add: ring_new_def stream_new_def ring_end_def)

text \<open>Reading does not see the seam and never slices out of range.\<close>

lemma slices_join:
  assumes n: "skip + n \<le> length xs"
  shows "(if skip < length (take seam xs) then
            Option.bind (slice (take seam xs) skip (min (skip + n) (length (take seam xs)))) (\<lambda>head.
              if length head < n
              then map_option (\<lambda>rest. (pos, head @ rest)) (slice (drop seam xs) 0 (n - length head))
              else Some (pos, head))
          else map_option (\<lambda>out. (pos, out))
            (slice (drop seam xs) (skip - length (take seam xs)) (skip - length (take seam xs) + n)))
         = Some (pos, take n (drop skip xs))"
proof (cases "skip < length (take seam xs)")
  case True
  then have skip: "skip < seam" by simp
  show ?thesis
  proof (cases "skip + n \<le> length (take seam xs)")
    case inside: True
    then have "n \<le> seam - skip" by auto
    then have "min n (seam - skip) = n" by (rule min_absorb1)
    with inside n have "slice (take seam xs) skip (min (skip + n) (length (take seam xs)))
        = Some (take n (drop skip xs))"
      by (simp add: slice_def min_absorb1 drop_take)
    moreover have "length (take n (drop skip xs)) = n" using n by simp
    ultimately show ?thesis using True by simp
  next
    case False
    then have seam: "seam < skip + n" "seam \<le> length xs" using n by auto
    then have head: "slice (take seam xs) skip (min (skip + n) (length (take seam xs)))
        = Some (drop skip (take seam xs))"
      using skip by (simp add: slice_def min_absorb2 min_absorb1)
    have len: "length (drop skip (take seam xs)) = seam - skip" using seam by simp
    have "slice (drop seam xs) 0 (n - (seam - skip)) = Some (take (n - (seam - skip)) (drop seam xs))"
      using n skip seam by (simp add: slice_def)
    moreover have "drop skip (take seam xs) @ take (n - (seam - skip)) (drop seam xs)
        = take n (drop skip xs)"
    proof -
      have "drop skip (take seam xs @ drop seam xs) = drop skip (take seam xs) @ drop seam xs"
        using skip seam by (simp del: append_take_drop_id)
      then have "drop skip xs = drop skip (take seam xs) @ drop seam xs" by simp
      then show ?thesis using len seam skip by simp
    qed
    moreover have "seam - skip < n" using seam skip by simp
    ultimately show ?thesis using True head len by simp
  qed
next
  case False
  then have seam: "seam \<le> skip \<or> length xs \<le> seam \<and> skip = length xs" using n by auto
  let ?m = "skip - length (take seam xs)"
  have "drop ?m (drop seam xs) = drop skip xs"
    using seam by (auto simp: min_def)
  moreover have "?m + n \<le> length (drop seam xs)" using n seam by (auto simp: min_def)
  ultimately have "slice (drop seam xs) ?m (?m + n) = Some (take n (drop skip xs))"
    by (simp add: slice_def)
  with False show ?thesis by (simp only: if_False option.map)
qed

lemma take_min_length: "take (min (length xs) n) xs = take n xs"
  by (cases "n \<le> length xs") (simp_all add: min_def)

lemma read_from_eq:
  "read_from seam offset max_bytes r =
     (let pos = clamp offset (start r) (ring_end r)
      in Some (pos, take max_bytes (drop (pos - start r) (bytes r))))"
proof -
  let ?skip = "clamp offset (start r) (ring_end r) - start r"
  let ?n = "min (length (bytes r) - ?skip) max_bytes"
  have "?skip \<le> length (bytes r)" by (auto simp: clamp_def ring_end_def)
  then have "?skip + ?n \<le> length (bytes r)" by linarith
  from slices_join [OF this] have "read_from seam offset max_bytes r
      = Some (clamp offset (start r) (ring_end r), take ?n (drop ?skip (bytes r)))"
    by (simp only: read_from_def Let_def)
  then show ?thesis
    using take_min_length [of "drop ?skip (bytes r)" max_bytes] by (simp add: Let_def)
qed

definition run_step :: "ring \<times> stream \<Rightarrow> ring_op \<Rightarrow> ring \<times> stream" where
  "run_step p op = (ring_step (fst p) op, stream_step (snd p) op)"

definition ring_run :: "nat \<Rightarrow> ring_op list \<Rightarrow> ring \<times> stream" where
  "ring_run cap ops = foldl run_step (ring_new cap, stream_new) ops"

interpretation ring_stream: total_machine
  "\<lambda>p. p = (ring_new cap, stream_new)" run_step
  "\<lambda>p. window (fst p) (snd p) \<and> capacity (fst p) = max cap 1" for cap
proof unfold_locales
  fix p :: "ring \<times> stream" and op
  assume "window (fst p) (snd p) \<and> capacity (fst p) = max cap 1"
  then show "window (fst (run_step p op)) (snd (run_step p op)) \<and> capacity (fst (run_step p op)) = max cap 1"
    by (simp add: run_step_def ring_step_window ring_step_capacity)
next
  fix p :: "ring \<times> stream"
  assume "p = (ring_new cap, stream_new)"
  then show "window (fst p) (snd p) \<and> capacity (fst p) = max cap 1"
    using window_new [of cap] by (simp add: ring_new_def)
qed

section \<open>Properties\<close>

text \<open>
  Functional: after any pushes, consumes and skips, and wherever the deque wraps,
  \<^verbatim>\<open>read_from\<close> never panics. It answers from the asked offset moved into what is still held, as
  many bytes as are held from there up to the maximum, and each is the byte the stream had at
  that offset. The ring never holds more than its capacity.
\<close>

theorem ring_reads_the_stream:
  "case ring_run cap ops of (r, s) \<Rightarrow>
     (let pos = max (start r) (min offset (tip s)) in
      \<exists>out. read_from seam offset max_bytes r = Some (pos, out)
        \<and> length out = min max_bytes (tip s - pos)
        \<and> map Some out = map (written s) [pos ..< pos + length out])
     \<and> length (bytes r) \<le> max cap 1"
proof -
  obtain r s where p: "ring_run cap ops = (r, s)" by (cases "ring_run cap ops")
  have inv: "window r s" "capacity r = max cap 1"
    using ring_stream.foldl_inv [of "(ring_new cap, stream_new)" cap ops]
    by (simp_all add: ring_run_def [symmetric] p)
  have tip: "start r + length (bytes r) = tip s" using window_end [OF inv(1)] .
  define pos where "pos = max (start r) (min offset (tip s))"
  have "start r \<le> tip s" using tip by (metis le_add1)
  then have pos: "start r \<le> pos" "pos \<le> tip s" by (simp_all add: pos_def)
  have clamp: "clamp offset (start r) (ring_end r) = pos"
    using \<open>start r \<le> tip s\<close> by (simp add: clamp_def ring_end_def tip pos_def min_def max_def)
  let ?out = "take max_bytes (drop (pos - start r) (bytes r))"
  have out: "map Some ?out = map (written s) [pos ..< pos + length ?out]"
  proof (rule nth_equalityI)
    fix i assume "i < length (map Some ?out)"
    then have i: "i < max_bytes" "pos - start r + i < length (bytes r)" by auto
    moreover have "pos + i = start r + (pos - start r + i)" using pos(1) by simp
    ultimately have "written s (pos + i) = Some (bytes r ! (pos - start r + i))"
      by (intro window_nth [OF inv(1)])
    with i show "map Some ?out ! i = map (written s) [pos ..< pos + length ?out] ! i"
      by simp
  qed simp
  have len: "length ?out = min max_bytes (tip s - pos)"
  proof -
    have "length (bytes r) - (pos - start r) = tip s - pos" using tip pos by simp
    then show ?thesis by (simp only: length_take length_drop min.commute)
  qed
  have "read_from seam offset max_bytes r = Some (pos, ?out)"
    using read_from_eq [of seam offset max_bytes r] by (simp add: clamp Let_def)
  moreover have "length (bytes r) \<le> max cap 1" using inv by (simp add: window_def)
  ultimately show ?thesis
    unfolding p prod.case Let_def pos_def [symmetric] by (intro conjI exI [of _ ?out] len out)
qed

text \<open>
  A push leaves exactly the most recent bytes, at most the capacity of them,
  and advances the end by what was pushed.
\<close>

theorem push_keeps_most_recent:
  assumes "length (bytes r) \<le> capacity r"
  shows "bytes (push data r) = drop (length (bytes r @ data) - capacity r) (bytes r @ data)
    \<and> ring_end (push data r) = ring_end r + length data"
proof (cases "length data \<ge> capacity r")
  case True
  then show ?thesis by (simp add: push_def Let_def ring_end_def)
next
  case False
  with assms show ?thesis by (auto simp: push_def Let_def ring_end_def)
qed

theorem push_keeps_most_recent_witness:
  "bytes (push [7, 8] (push [9, 2, 3] (ring_new 4))) = [2, 3, 7, 8]
   \<and> ring_end (push [7, 8] (push [9, 2, 3] (ring_new 4))) = ring_end (push [9, 2, 3] (ring_new 4)) + 2"
proof -
  have r: "push [9, 2, 3] (ring_new 4) = \<lparr>bytes = [9, 2, 3], start = 0, capacity = 4\<rparr>"
    by (simp add: push_def ring_new_def)
  have "length (bytes (push [9, 2, 3] (ring_new 4))) \<le> capacity (push [9, 2, 3] (ring_new 4))"
    by (simp add: r)
  from push_keeps_most_recent [OF this, of "[7, 8]"] show ?thesis
    by (simp add: r)
qed

end
