(* ===== verification/Session.thy ===== *)
theory Session
  imports Ring Protocol
begin

text \<open>
  One process run by the remote agent, seen from both ends of the link
  (\<^verbatim>\<open>src-tauri/remote-agent/src/agent/session.rs\<close>, \<^verbatim>\<open>agent/mod.rs\<close> and \<^verbatim>\<open>client/session.rs\<close>). The agent
  holds the output in rings and sends what each connection has not been sent; the host mirrors it by
  offset, reads it, and keeps its input until the agent confirms it. An encoded frame is its message.
\<close>

section \<open>What crosses the link\<close>

datatype out_stream = Stdout | Stderr

datatype exit_reason = Exited | Signalled | Reclaimed | Shutdown

record stream_ends =
  end_stdout :: nat
  end_stderr :: nat

fun ends_get :: "out_stream \<Rightarrow> stream_ends \<Rightarrow> nat" where
  "ends_get Stdout e = end_stdout e"
| "ends_get Stderr e = end_stderr e"

record exit_info =
  exit_code :: "int option"
  exit_signal :: "int option"
  exit_why :: exit_reason
  exit_ends :: stream_ends
  runtime_ms :: "nat option"

datatype session_frame =
    Output out_stream nat "byte list"
  | Gap out_stream nat nat
  | Exit exit_info

section \<open>The agent's end\<close>

record cursors =
  connection :: nat
  cur_stdout :: nat
  cur_stderr :: nat
  exit_sent :: bool

fun cursor_get :: "out_stream \<Rightarrow> cursors \<Rightarrow> nat" where
  "cursor_get Stdout c = cur_stdout c"
| "cursor_get Stderr c = cur_stderr c"

fun cursor_set :: "out_stream \<Rightarrow> nat \<Rightarrow> cursors \<Rightarrow> cursors" where
  "cursor_set Stdout n c = c\<lparr>cur_stdout := n\<rparr>"
| "cursor_set Stderr n c = c\<lparr>cur_stderr := n\<rparr>"

record session_state =
  out_ring :: ring
  err_ring :: ring
  stdout_done :: bool
  stderr_done :: bool
  reaped_with :: "(int option \<times> int option) option"
  ran_for :: "nat option"
  exit :: "exit_info option"
  kill_reason :: "exit_reason option"
  cursors :: cursors

definition session_new :: "nat \<Rightarrow> bool \<Rightarrow> session_state" where
  "session_new cap has_stderr =
     \<lparr>out_ring = ring_new cap, err_ring = ring_new (if has_stderr then cap else 1),
      stdout_done = False, stderr_done = \<not> has_stderr, reaped_with = None, ran_for = None, exit = None,
      kill_reason = None,
      cursors = \<lparr>connection = 0, cur_stdout = 0, cur_stderr = 0, exit_sent = False\<rparr>\<rparr>"

fun ring_of :: "out_stream \<Rightarrow> session_state \<Rightarrow> ring" where
  "ring_of Stdout s = out_ring s"
| "ring_of Stderr s = err_ring s"

definition agent_ends :: "session_state \<Rightarrow> stream_ends" where
  "agent_ends s = \<lparr>end_stdout = ring_end (out_ring s), end_stderr = ring_end (err_ring s)\<rparr>"

definition settle :: "session_state \<Rightarrow> session_state" where
  "settle s =
     (if exit s \<noteq> None \<or> \<not> stdout_done s \<or> \<not> stderr_done s then s else
      case reaped_with s of
        None \<Rightarrow> s
      | Some (code, signal) \<Rightarrow>
          s\<lparr>exit := Some \<lparr>exit_code = code, exit_signal = signal,
             exit_why = (case kill_reason s of Some r \<Rightarrow> r | None \<Rightarrow> Exited),
             exit_ends = agent_ends s, runtime_ms = ran_for s\<rparr>\<rparr>)"

fun record_output :: "out_stream \<Rightarrow> byte list \<Rightarrow> session_state \<Rightarrow> session_state" where
  "record_output Stdout data s = s\<lparr>out_ring := push data (out_ring s)\<rparr>"
| "record_output Stderr data s = s\<lparr>err_ring := push data (err_ring s)\<rparr>"

fun stream_done :: "out_stream \<Rightarrow> session_state \<Rightarrow> session_state" where
  "stream_done Stdout s = settle (s\<lparr>stdout_done := True\<rparr>)"
| "stream_done Stderr s = settle (s\<lparr>stderr_done := True\<rparr>)"

definition reaped :: "int option \<Rightarrow> int option \<Rightarrow> nat \<Rightarrow> session_state \<Rightarrow> session_state" where
  "reaped code signal runtime s = settle (s\<lparr>reaped_with := Some (code, signal), ran_for := Some runtime\<rparr>)"

text \<open>The state half of \<open>signal\<close>: why the session will be said to have ended.\<close>

definition note_signal :: "exit_reason \<Rightarrow> session_state \<Rightarrow> session_state" where
  "note_signal reason s =
     (if exit s \<noteq> None then s
      else if reaped_with s = None \<and> kill_reason s = None then s\<lparr>kill_reason := Some reason\<rparr> else s)"

text \<open>What a new connection starts from: where the host says it is.\<close>

definition attach_connection :: "nat \<Rightarrow> (nat \<times> nat) option \<Rightarrow> session_state \<Rightarrow> session_state" where
  "attach_connection c resume s =
     (let (out, err) = (case resume of Some p \<Rightarrow> p | None \<Rightarrow> (Ring.start (out_ring s), Ring.start (err_ring s)))
      in s\<lparr>cursors := \<lparr>connection = c, cur_stdout = out, cur_stderr = err, exit_sent = False\<rparr>\<rparr>)"

text \<open>One stream's part of \<open>next_frames\<close>. \<open>None\<close> is a read that panics.\<close>

definition stream_frames ::
  "nat \<Rightarrow> nat \<Rightarrow> out_stream \<Rightarrow> session_state \<Rightarrow> (session_frame list \<times> session_state) option" where
  "stream_frames seam chunk st s =
     (let cursor = cursor_get st (cursors s); r = ring_of st s in
      if cursor \<ge> ring_end r then Some ([], s) else
      case read_from seam cursor chunk r of
        None \<Rightarrow> None
      | Some (from_pos, data) \<Rightarrow>
          Some ((if from_pos > cursor then [Gap st cursor from_pos] else [])
                @ (if data \<noteq> [] then [Output st from_pos data] else []),
                s\<lparr>cursors := cursor_set st (from_pos + length data) (cursors s)\<rparr>))"

definition exit_frames :: "session_state \<Rightarrow> session_frame list \<times> session_state" where
  "exit_frames s =
     (case exit s of
        None \<Rightarrow> ([], s)
      | Some e \<Rightarrow>
          (let caught_up = (cur_stdout (cursors s) \<ge> end_stdout (exit_ends e)
                            \<and> cur_stderr (cursors s) \<ge> end_stderr (exit_ends e))
           in if caught_up \<and> \<not> exit_sent (cursors s)
              then ([Exit e], s\<lparr>cursors := (cursors s)\<lparr>exit_sent := True\<rparr>\<rparr>) else ([], s)))"

definition next_frames ::
  "nat \<Rightarrow> nat \<Rightarrow> nat \<Rightarrow> session_state \<Rightarrow> (session_frame list \<times> session_state) option" where
  "next_frames seam chunk c s =
     (if connection (cursors s) \<noteq> c then Some ([], s) else
      Option.bind (stream_frames seam chunk Stdout s) (\<lambda>(out, s).
      Option.bind (stream_frames seam chunk Stderr s) (\<lambda>(err, s).
      (let (ex, s) = exit_frames s in Some (out @ err @ ex, s)))))"

section \<open>The host's input buffer\<close>

definition INPUT_RETAIN :: nat where
  "INPUT_RETAIN = 1024 * 1024"

record input_buffer =
  base :: nat
  held_input :: "byte list"
  sent_to :: nat
  input_closed :: bool

definition input_new :: input_buffer where
  "input_new = \<lparr>base = 0, held_input = [], sent_to = 0, input_closed = False\<rparr>"

definition input_next :: "input_buffer \<Rightarrow> nat" where
  "input_next b = base b + length (held_input b)"

definition input_push :: "byte list \<Rightarrow> input_buffer \<Rightarrow> input_buffer" where
  "input_push data b =
     (let all = held_input b @ data; overflow = length all - INPUT_RETAIN in
      if overflow > 0
      then b\<lparr>held_input := drop overflow all, base := base b + overflow, sent_to := max (sent_to b) (base b + overflow)\<rparr>
      else b\<lparr>held_input := all\<rparr>)"

definition rewind :: "nat \<Rightarrow> input_buffer \<Rightarrow> input_buffer" where
  "rewind confirmed b =
     (let confirmed = min confirmed (input_next b);
          b = (if confirmed > base b
               then b\<lparr>held_input := drop (confirmed - base b) (held_input b), base := confirmed\<rparr> else b)
      in b\<lparr>sent_to := max confirmed (base b)\<rparr>)"

definition unsent :: "input_buffer \<Rightarrow> (nat \<times> byte list) option" where
  "unsent b = (if sent_to b \<ge> input_next b then None else Some (sent_to b, drop (sent_to b - base b) (held_input b)))"

definition mark_sent :: "nat \<Rightarrow> input_buffer \<Rightarrow> input_buffer" where
  "mark_sent through b = b\<lparr>sent_to := max (sent_to b) through\<rparr>"

section \<open>The host's end\<close>

definition HOST_OUTPUT_LIMIT :: nat where
  "HOST_OUTPUT_LIMIT = 16 * 1024 * 1024"

record pipe_state =
  host_out :: ring
  host_err :: ring
  read_out :: nat
  read_err :: nat
  host_exit :: "exit_info option"
  lost :: nat
  failed :: "string option"
  spawned :: bool
  p_input :: input_buffer

definition pipe_new :: pipe_state where
  "pipe_new = \<lparr>host_out = ring_new HOST_OUTPUT_LIMIT, host_err = ring_new HOST_OUTPUT_LIMIT,
     read_out = 0, read_err = 0, host_exit = None, lost = 0, failed = None, spawned = False,
     p_input = input_new\<rparr>"

fun host_ring :: "out_stream \<Rightarrow> pipe_state \<Rightarrow> ring" where
  "host_ring Stdout p = host_out p"
| "host_ring Stderr p = host_err p"

fun set_host_ring :: "out_stream \<Rightarrow> ring \<Rightarrow> pipe_state \<Rightarrow> pipe_state" where
  "set_host_ring Stdout r p = p\<lparr>host_out := r\<rparr>"
| "set_host_ring Stderr r p = p\<lparr>host_err := r\<rparr>"

fun consumed :: "out_stream \<Rightarrow> pipe_state \<Rightarrow> nat" where
  "consumed Stdout p = read_out p"
| "consumed Stderr p = read_err p"

fun set_consumed :: "out_stream \<Rightarrow> nat \<Rightarrow> pipe_state \<Rightarrow> pipe_state" where
  "set_consumed Stdout n p = p\<lparr>read_out := n\<rparr>"
| "set_consumed Stderr n p = p\<lparr>read_err := n\<rparr>"

definition received :: "pipe_state \<Rightarrow> nat \<times> nat" where
  "received p = (ring_end (host_out p), ring_end (host_err p))"

definition deliver :: "out_stream \<Rightarrow> nat \<Rightarrow> byte list \<Rightarrow> pipe_state \<Rightarrow> pipe_state" where
  "deliver st offset data p =
     (let r = host_ring st p; fin = ring_end r; chunk_end = offset + length data in
      if chunk_end \<le> fin then p
      else if offset > fin
      then (set_host_ring st (push data (skip_to offset r)) p)\<lparr>lost := lost p + (offset - fin)\<rparr>
      else set_host_ring st (push (drop (fin - offset) data) r) p)"

definition gap :: "out_stream \<Rightarrow> nat \<Rightarrow> pipe_state \<Rightarrow> pipe_state" where
  "gap st to_pos p =
     (let r = host_ring st p; fin = ring_end r in
      if to_pos > fin then (set_host_ring st (skip_to to_pos r) p)\<lparr>lost := lost p + (to_pos - fin)\<rparr> else p)"

definition finish_pipe :: "exit_info \<Rightarrow> pipe_state \<Rightarrow> pipe_state" where
  "finish_pipe e p =
     (if host_exit p \<noteq> None then p else
      let p = (if end_stdout (exit_ends e) > ring_end (host_out p)
               then p\<lparr>host_out := skip_to (end_stdout (exit_ends e)) (host_out p)\<rparr> else p);
          p = (if end_stderr (exit_ends e) > ring_end (host_err p)
               then p\<lparr>host_err := skip_to (end_stderr (exit_ends e)) (host_err p)\<rparr> else p)
      in p\<lparr>host_exit := Some e\<rparr>)"

definition fail_pipe :: "string \<Rightarrow> pipe_state \<Rightarrow> pipe_state" where
  "fail_pipe reason p = (if host_exit p = None \<and> failed p = None then p\<lparr>failed := Some reason\<rparr> else p)"

fun take_frame :: "session_frame \<Rightarrow> pipe_state \<Rightarrow> pipe_state" where
  "take_frame (Output st offset data) p = deliver st offset data p"
| "take_frame (Gap st _ to_pos) p = gap st to_pos p"
| "take_frame (Exit e) p = finish_pipe e p"

datatype read_outcome = Bytes nat "byte list" | EndOfStream | Aborted string | WouldWait | ReadPanic

text \<open>\<open>Read::read\<close>; the bytes come with the offset they start at, for the statements below.\<close>

lemma clamp_range: "lo \<le> hi \<Longrightarrow> lo \<le> clamp x lo hi \<and> clamp x lo hi \<le> hi"
  by (simp add: clamp_def)

lemma start_le_end: "Ring.start r \<le> ring_end r"
  by (simp add: ring_end_def)

lemma read_from_Some:
  assumes "read_from seam offset n r = Some (pos, data)"
  shows "pos = clamp offset (Ring.start r) (ring_end r)"
    and "data = take n (drop (pos - Ring.start r) (bytes r))"
  using assms by (auto simp: read_from_eq Let_def)

lemma read_from_empty:
  assumes "read_from seam offset n r = Some (pos, [])" and "0 < n"
  shows "pos = ring_end r"
proof -
  have "length (bytes r) \<le> pos - Ring.start r"
    using read_from_Some(2) [OF assms(1)] assms(2) by simp
  moreover have "Ring.start r \<le> pos" "pos \<le> ring_end r"
    using read_from_Some(1) [OF assms(1)] clamp_range [OF start_le_end] by simp_all
  ultimately show ?thesis by (simp add: ring_end_def)
qed

lemma host_ring_set_consumed [simp]: "host_ring st' (set_consumed st n p) = host_ring st' p"
  by (cases st; cases st') simp_all

lemma consumed_set_consumed [simp]: "consumed st' (set_consumed st n p) = (if st' = st then n else consumed st' p)"
  by (cases st; cases st') simp_all

function session_read :: "nat \<Rightarrow> nat \<Rightarrow> out_stream \<Rightarrow> pipe_state \<Rightarrow> read_outcome \<times> pipe_state" where
  "session_read seam room st p =
     (if room = 0 then (Bytes (consumed st p) [], p)
      else if consumed st p < ring_end (host_ring st p) then
        (case read_from seam (consumed st p) room (host_ring st p) of
           None \<Rightarrow> (ReadPanic, p)
         | Some (from_pos, data) \<Rightarrow>
             if data = [] then session_read seam room st (set_consumed st from_pos p)
             else (let nxt = from_pos + length data
                   in (Bytes from_pos data,
                       set_consumed st nxt (set_host_ring st (consume_to nxt (host_ring st p)) p))))
      else
        (case host_exit p of
           Some e \<Rightarrow>
             if consumed st p \<ge> ends_get st (exit_ends e) then (EndOfStream, p)
             else (case failed p of Some reason \<Rightarrow> (Aborted reason, p) | None \<Rightarrow> (WouldWait, p))
         | None \<Rightarrow> (case failed p of Some reason \<Rightarrow> (Aborted reason, p) | None \<Rightarrow> (WouldWait, p))))"
  by pat_completeness auto

termination
proof (relation "measure (\<lambda>(seam, room, st, p). ring_end (host_ring st p) - consumed st p)")
  fix seam room :: nat and st p x from_pos data
  assume "room \<noteq> 0" "consumed st p < ring_end (host_ring st p)"
    "read_from seam (consumed st p) room (host_ring st p) = Some x" "(from_pos, data) = x" "data = []"
  moreover from this have "from_pos = ring_end (host_ring st p)" by (auto intro: read_from_empty)
  ultimately show "((seam, room, st, set_consumed st from_pos p), seam, room, st, p)
      \<in> measure (\<lambda>(seam, room, st, p). ring_end (host_ring st p) - consumed st p)" by simp
qed simp

declare session_read.simps [simp del]

section \<open>Sending input\<close>

text \<open>\<open>Write::write\<close> before it sends, and \<open>close_stdin\<close>.\<close>

datatype write_refusal = LinkFailed string | NoMoreInput

definition session_write :: "byte list \<Rightarrow> pipe_state \<Rightarrow> (write_refusal + nat) \<times> pipe_state" where
  "session_write buffer p =
     (case failed p of
        Some reason \<Rightarrow> (Inl (LinkFailed reason), p)
      | None \<Rightarrow>
          if host_exit p \<noteq> None \<or> input_closed (p_input p) then (Inl NoMoreInput, p)
          else (Inr (length buffer), p\<lparr>p_input := input_push buffer (p_input p)\<rparr>))"

definition close_stdin :: "pipe_state \<Rightarrow> pipe_state" where
  "close_stdin p = p\<lparr>p_input := (p_input p)\<lparr>input_closed := True\<rparr>\<rparr>"

text \<open>The frames of \<open>send_input\<close>: the unsent bytes in chunks, each at its offset.\<close>

function input_chunks :: "nat \<Rightarrow> nat \<Rightarrow> byte list \<Rightarrow> (nat \<times> byte list) list" where
  "input_chunks chunk position data =
     (if data = [] \<or> chunk = 0 then [] else (position, take chunk data) # input_chunks chunk (position + length (take chunk data)) (drop chunk data))"
  by pat_completeness auto
termination
  by (relation "measure (\<lambda>(chunk, position, data). length data)") auto

declare input_chunks.simps [simp del]

text \<open>The agent's port: what it passed to the process's writer thread is \<open>fed\<close>.\<close>

record input_port =
  port_received :: nat
  port_open :: bool
  fed :: "byte list"

definition port_new :: input_port where
  "port_new = \<lparr>port_received = 0, port_open = True, fed = []\<rparr>"

definition write_input :: "nat \<Rightarrow> byte list \<Rightarrow> input_port \<Rightarrow> bool \<times> input_port" where
  "write_input offset data port =
     (let fin = offset + length data in
      if fin \<le> port_received port then (True, port) else
      let fresh = (if offset < port_received port then drop (port_received port - offset) data else data);
          port = port\<lparr>port_received := fin\<rparr>
      in if port_open port then (True, port\<lparr>fed := fed port @ fresh\<rparr>) else (False, port))"

definition close_input :: "input_port \<Rightarrow> input_port" where
  "close_input port = port\<lparr>port_open := False\<rparr>"

end
