(* ===== verification/SessionWire.thy ===== *)
theory SessionWire
  imports Session
begin

text \<open>
  The link one session's output crosses: wires that carry frames in order and may be cut anywhere, the
  agent that pumps into the current one, and what it promises: every frame is a true stretch of what the
  process wrote, and follows on from the frames before it on its wire.
\<close>

section \<open>Wires whose frames follow on from one another\<close>

text \<open>A frame needs its receiver to have come to \<open>need f\<close>, and takes it to \<open>fin f\<close>.\<close>

fun chained :: "('f \<Rightarrow> nat) \<Rightarrow> ('f \<Rightarrow> nat) \<Rightarrow> nat \<Rightarrow> 'f list \<Rightarrow> bool" where
  "chained need fin h [] = True"
| "chained need fin h (f # fs) = (need f \<le> h \<and> chained need fin (max h (fin f)) fs)"

fun reach :: "('f \<Rightarrow> nat) \<Rightarrow> nat \<Rightarrow> 'f list \<Rightarrow> nat" where
  "reach fin h [] = h"
| "reach fin h (f # fs) = reach fin (max h (fin f)) fs"

lemma reach_mono: "h \<le> h' \<Longrightarrow> reach fin h fs \<le> reach fin h' fs"
  by (induction fs arbitrary: h h') (simp_all add: max.mono)

lemma reach_ge: "h \<le> reach fin h fs"
  by (induction fs arbitrary: h) (simp, metis max.cobounded1 order_trans reach.simps(2))

lemma chained_mono: "chained need fin h fs \<Longrightarrow> h \<le> h' \<Longrightarrow> chained need fin h' fs"
proof (induction fs arbitrary: h h')
  case (Cons f fs)
  then have "chained need fin (max h' (fin f)) fs" by (metis chained.simps(2) max.mono order_refl)
  with Cons.prems show ?case by simp
qed simp

lemma chained_append [simp]:
  "chained need fin h (fs @ gs) \<longleftrightarrow> chained need fin h fs \<and> chained need fin (reach fin h fs) gs"
  by (induction fs arbitrary: h) simp_all

lemma reach_append [simp]: "reach fin h (fs @ gs) = reach fin (reach fin h fs) gs"
  by (induction fs arbitrary: h) simp_all

lemma chained_take: "chained need fin h fs \<Longrightarrow> chained need fin h (take n fs)"
  by (metis append_take_drop_id chained_append)

section \<open>Rings against the bytes the process wrote\<close>

text \<open>The agent's ring holds the end of them, the host's some stretch of them.\<close>

definition tail_of :: "ring \<Rightarrow> byte list \<Rightarrow> bool" where
  "tail_of r w \<longleftrightarrow> Ring.start r \<le> length w \<and> bytes r = drop (Ring.start r) w"

definition piece_of :: "ring \<Rightarrow> byte list \<Rightarrow> bool" where
  "piece_of r w \<longleftrightarrow> ring_end r \<le> length w \<and> bytes r = take (length (bytes r)) (drop (Ring.start r) w)"

definition span :: "nat \<Rightarrow> byte list \<Rightarrow> byte list \<Rightarrow> bool" where
  "span pos data w \<longleftrightarrow> pos + length data \<le> length w \<and> data = take (length data) (drop pos w)"

lemma tail_end: "tail_of r w \<Longrightarrow> ring_end r = length w"
  by (simp add: tail_of_def ring_end_def)

lemma tail_new: "tail_of (ring_new cap) []"
  by (simp add: tail_of_def ring_new_def)

lemma tail_push: "tail_of r w \<Longrightarrow> tail_of (push data r) (w @ data)"
  by (auto simp: tail_of_def push_def Let_def)

lemma span_grow: "span pos data w \<Longrightarrow> span pos data (w @ ext)"
  by (simp add: span_def)

lemma span_prefix: "span pos data w \<Longrightarrow> span pos (take n data) w"
proof -
  assume span: "span pos data w"
  then have "take n data = take n (take (length data) (drop pos w))" by (simp add: span_def)
  also have "\<dots> = take (length (take n data)) (drop pos w)" by (simp add: min.commute)
  finally show ?thesis unfolding span_def using span by (intro conjI) (simp_all add: span_def min_def)
qed

lemma span_take: "pos \<le> length w \<Longrightarrow> span pos (take n (drop pos w)) w"
  by (auto simp: span_def min_def)

lemma piece_grow: "piece_of r w \<Longrightarrow> piece_of r (w @ ext)"
  by (simp add: piece_of_def ring_end_def)

lemma span_drop: "span pos data w \<Longrightarrow> k \<le> length data \<Longrightarrow> span (pos + k) (drop k data) w"
  unfolding span_def by (metis (no_types, lifting) Nat.add_diff_assoc add.commute add_diff_cancel_left' add_leD2 diff_add_inverse drop_drop drop_take group_cancel.add2 le_add_diff_inverse length_drop)

lemma piece_span: "piece_of r w \<longleftrightarrow> span (Ring.start r) (bytes r) w"
  by (simp add: piece_of_def span_def ring_end_def)

lemma span_append: "span pos xs w \<Longrightarrow> span (pos + length xs) ys w \<Longrightarrow> span pos (xs @ ys) w"
  unfolding span_def by (metis add.assoc add.commute drop_drop length_append take_add)

lemma piece_push:
  assumes "piece_of r w" and "span (ring_end r) data w"
  shows "piece_of (push data r) w"
proof -
  have all: "span (Ring.start r) (bytes r @ data) w"
    using assms by (auto simp: piece_span ring_end_def intro: span_append)
  show ?thesis
  proof (cases "length data \<ge> capacity r")
    case True
    with assms(2) have "span (ring_end r + (length data - capacity r)) (drop (length data - capacity r) data) w"
      by (intro span_drop) simp_all
    with True show ?thesis by (simp add: piece_span push_def Let_def ring_end_def add.assoc)
  next
    case False
    define k where "k = length (bytes r) + length data - capacity r"
    have "k \<le> length (bytes r)" using False by (simp add: k_def)
    with span_drop [OF all, of k] have "span (Ring.start r + k) (drop k (bytes r) @ data) w" by simp
    moreover have "push data r = r\<lparr>bytes := drop k (bytes r) @ data, Ring.start := Ring.start r + k\<rparr>"
      using False by (simp add: push_def Let_def k_def)
    ultimately show ?thesis by (simp add: piece_span)
  qed
qed

lemma piece_consume: "piece_of r w \<Longrightarrow> piece_of (consume_to n r) w"
  using span_drop [of "Ring.start r" "bytes r" w "min n (ring_end r) - Ring.start r"]
  by (auto simp: piece_span consume_to_def Let_def ring_end_def)

lemma piece_skip: "piece_of r w \<Longrightarrow> n \<le> length w \<Longrightarrow> piece_of (skip_to n r) w"
  by (simp add: skip_to_def piece_consume) (simp add: piece_of_def ring_end_def)

lemma piece_new: "piece_of (ring_new cap) w"
  by (simp add: piece_of_def ring_new_def ring_end_def)

lemma push_end: "ring_end (push data r) = ring_end r + length data"
  by (auto simp: push_def ring_end_def Let_def)

lemma consume_end: "ring_end (consume_to n r) = ring_end r"
  by (auto simp: consume_to_def ring_end_def Let_def)

lemma skip_end: "ring_end (skip_to n r) = max n (ring_end r)"
  by (auto simp: skip_to_def consume_end) (simp add: ring_end_def)


section \<open>The link\<close>

text \<open>
  One session and its output on the way to the host. \<open>wires c\<close> is what connection \<open>c\<close> still carries;
  a connection in \<open>dead\<close> has lost whatever it did not carry then. \<open>hellos\<close> are greetings on the
  way, \<open>reads\<close> what each reader was answered, \<open>overrun\<close> whether the host ever had to drop unread output.
\<close>

record link_state =
  agent_end :: session_state
  wrote :: "out_stream \<Rightarrow> byte list"
  host_end :: pipe_state
  wires :: "nat \<Rightarrow> session_frame list"
  dead :: "nat set"
  next_connection :: nat
  hellos :: "(nat \<times> nat) list"
  reads :: "out_stream \<Rightarrow> read_outcome list"
  overrun :: bool

datatype link_event =
    Wrote out_stream "byte list"
  | StreamEnded out_stream
  | ProcessReaped "int option" "int option" nat
  | SignalSent exit_reason
  | HostGreets
  | AgentAttaches nat
  | Pump nat
  | Arrives nat
  | Breaks nat nat
  | HostReads nat nat out_stream
  | HostGivesUp string

definition link_start :: "nat \<Rightarrow> bool \<Rightarrow> link_state" where
  "link_start cap has_stderr =
     \<lparr>agent_end = session_new cap has_stderr, wrote = (\<lambda>_. []), host_end = pipe_new, wires = (\<lambda>_. []),
      dead = {}, next_connection = 1, hellos = [], reads = (\<lambda>_. []), overrun = False\<rparr>"

fun is_done :: "out_stream \<Rightarrow> session_state \<Rightarrow> bool" where
  "is_done Stdout s = stdout_done s"
| "is_done Stderr s = stderr_done s"

fun overruns :: "session_frame \<Rightarrow> pipe_state \<Rightarrow> bool" where
  "overruns (Output st offset data) p =
     (length (bytes (host_ring st p)) + length data > Ring.capacity (host_ring st p))"
| "overruns _ p = False"

fun link_step :: "link_state \<Rightarrow> link_event \<Rightarrow> link_state" where
  "link_step s (Wrote st data) =
     (if is_done st (agent_end s) then s else
      s\<lparr>agent_end := record_output st data (agent_end s), wrote := (wrote s)(st := wrote s st @ data)\<rparr>)"
| "link_step s (StreamEnded st) = s\<lparr>agent_end := stream_done st (agent_end s)\<rparr>"
| "link_step s (ProcessReaped code sig runtime) = s\<lparr>agent_end := reaped code sig runtime (agent_end s)\<rparr>"
| "link_step s (SignalSent reason) = s\<lparr>agent_end := note_signal reason (agent_end s)\<rparr>"
| "link_step s HostGreets = s\<lparr>hellos := hellos s @ [received (host_end s)]\<rparr>"
| "link_step s (AgentAttaches k) =
     (if k < length (hellos s)
      then s\<lparr>agent_end := attach_connection (next_connection s) (Some (hellos s ! k)) (agent_end s),
             next_connection := next_connection s + 1\<rparr>
      else s)"
| "link_step s (Pump seam) =
     (let c = connection (cursors (agent_end s)) in
      case next_frames seam OUTPUT_CHUNK_BYTES c (agent_end s) of
        None \<Rightarrow> s
      | Some (fs, a) \<Rightarrow>
          s\<lparr>agent_end := a, wires := (if c \<in> dead s then wires s else (wires s)(c := wires s c @ fs))\<rparr>)"
| "link_step s (Arrives c) =
     (case wires s c of
        [] \<Rightarrow> s
      | f # fs \<Rightarrow> s\<lparr>host_end := take_frame f (host_end s), wires := (wires s)(c := fs),
                   overrun := (overrun s \<or> overruns f (host_end s))\<rparr>)"
| "link_step s (Breaks c n) =
     (if c < next_connection s
      then s\<lparr>wires := (wires s)(c := take n (wires s c)), dead := insert c (dead s)\<rparr> else s)"
| "link_step s (HostReads seam room st) =
     (let (out, p) = session_read seam room st (host_end s)
      in s\<lparr>host_end := p, reads := (reads s)(st := reads s st @ [out])\<rparr>)"
| "link_step s (HostGivesUp reason) = s\<lparr>host_end := fail_pipe reason (host_end s)\<rparr>"

definition link_run :: "nat \<Rightarrow> bool \<Rightarrow> link_event list \<Rightarrow> link_state" where
  "link_run cap has_stderr es = foldl link_step (link_start cap has_stderr) es"

fun read_bytes :: "read_outcome \<Rightarrow> byte list" where
  "read_bytes (Bytes _ data) = data"
| "read_bytes _ = []"

section \<open>What the agent owes a connection\<close>

fun need :: "out_stream \<Rightarrow> session_frame \<Rightarrow> nat" where
  "need st (Output st' offset data) = (if st' = st then offset else 0)"
| "need st (Gap st' from_pos to_pos) = (if st' = st then from_pos else 0)"
| "need st (Exit e) = ends_get st (exit_ends e)"

fun fin :: "out_stream \<Rightarrow> session_frame \<Rightarrow> nat" where
  "fin st (Output st' offset data) = (if st' = st then offset + length data else 0)"
| "fin st (Gap st' from_pos to_pos) = (if st' = st then to_pos else 0)"
| "fin st (Exit e) = ends_get st (exit_ends e)"

fun sound :: "session_state \<Rightarrow> (out_stream \<Rightarrow> byte list) \<Rightarrow> session_frame \<Rightarrow> bool" where
  "sound a w (Output st offset data) = span offset data (w st)"
| "sound a w (Gap st from_pos to_pos) = (to_pos \<le> length (w st))"
| "sound a w (Exit e) = (exit a = Some e)"

definition owed :: "session_state \<Rightarrow> session_frame list \<Rightarrow> session_state \<Rightarrow> bool" where
  "owed a fs a' \<longleftrightarrow>
     (\<forall>st h. cursor_get st (cursors a) \<le> h
        \<longrightarrow> chained (need st) (fin st) h fs \<and> cursor_get st (cursors a') \<le> reach (fin st) h fs)"

lemma owed_trans: "owed a fs a' \<Longrightarrow> owed a' gs a'' \<Longrightarrow> owed a (fs @ gs) a''"
  by (simp add: owed_def)

text \<open>The agent's own promise: its rings are the ends of what was written, its exit is final.\<close>

definition agent_ok :: "session_state \<Rightarrow> (out_stream \<Rightarrow> byte list) \<Rightarrow> bool" where
  "agent_ok a w \<longleftrightarrow>
     (\<forall>st. tail_of (ring_of st a) (w st))
     \<and> (case exit a of None \<Rightarrow> True
        | Some e \<Rightarrow> stdout_done a \<and> stderr_done a \<and> (\<forall>st. ends_get st (exit_ends e) = length (w st)))"

lemma cursor_get_set [simp]: "cursor_get st (cursor_set st' n c) = (if st' = st then n else cursor_get st c)"
  by (cases st; cases st') simp_all

lemma cursor_get_exit_sent [simp]: "cursor_get st (c\<lparr>exit_sent := b\<rparr>) = cursor_get st c"
  by (cases st) simp_all

lemma connection_cursor_set [simp]: "connection (cursor_set st n c) = connection c"
  by (cases st) simp_all

declare cursor_set.simps [simp del]

lemma ring_of_cursors [simp]: "ring_of st (a\<lparr>cursors := c\<rparr>) = ring_of st a"
  by (cases st) simp_all

lemma agent_ok_cursors [simp]: "agent_ok (a\<lparr>cursors := c\<rparr>) w = agent_ok a w"
  by (simp add: agent_ok_def split: option.split)

lemma sound_cursors [simp]: "sound (a\<lparr>cursors := c\<rparr>) w f = sound a w f"
  by (cases f) simp_all

lemma stream_frames_owed:
  assumes ok: "agent_ok a w"
  shows "\<exists>fs k. stream_frames seam chunk st a = Some (fs, a\<lparr>cursors := cursor_set st k (cursors a)\<rparr>)
      \<and> owed a fs (a\<lparr>cursors := cursor_set st k (cursors a)\<rparr>) \<and> (\<forall>f \<in> set fs. sound a w f)"
proof -
  let ?c = "cursor_get st (cursors a)" and ?r = "ring_of st a"
  have tail: "tail_of ?r (w st)" using ok by (simp add: agent_ok_def)
  show ?thesis
  proof (cases "?c \<ge> ring_end ?r")
    case True
    have "a\<lparr>cursors := cursor_set st ?c (cursors a)\<rparr> = a"
      by (cases st) (simp_all add: cursor_set.simps)
    with True show ?thesis
      by (intro exI [of _ "[]"] exI [of _ ?c]) (simp add: stream_frames_def Let_def owed_def)
  next
    case False
    define pos where "pos = clamp ?c (Ring.start ?r) (ring_end ?r)"
    define data where "data = take chunk (drop (pos - Ring.start ?r) (bytes ?r))"
    have pos: "pos = max ?c (Ring.start ?r)"
      using False start_le_end [of ?r] by (simp add: pos_def clamp_def)
    have le: "pos \<le> length (w st)" using False start_le_end [of ?r] tail_end [OF tail] by (simp add: pos)
    have "data = take chunk (drop pos (w st))"
      using tail pos by (simp add: data_def tail_of_def)
    then have span: "span pos data (w st)" using span_take [OF le] by simp
    define fs where "fs = (if pos > ?c then [Gap st ?c pos] else []) @ (if data \<noteq> [] then [Output st pos data] else [])"
    have "stream_frames seam chunk st a = Some (fs, a\<lparr>cursors := cursor_set st (pos + length data) (cursors a)\<rparr>)"
      using False by (simp add: stream_frames_def Let_def read_from_eq pos_def [symmetric] data_def [symmetric] fs_def)
    moreover have "owed a fs (a\<lparr>cursors := cursor_set st (pos + length data) (cursors a)\<rparr>)"
      unfolding owed_def
    proof (intro allI impI)
      fix st' h assume "cursor_get st' (cursors a) \<le> h"
      then show "chained (need st') (fin st') h fs
          \<and> cursor_get st' (cursors (a\<lparr>cursors := cursor_set st (pos + length data) (cursors a)\<rparr>)) \<le> reach (fin st') h fs"
        by (cases "st' = st"; cases "pos > ?c"; cases "data = []") (simp_all add: fs_def pos)
    qed
    moreover have "\<forall>f \<in> set fs. sound a w f" using span le by (auto simp: fs_def)
    ultimately show ?thesis by blast
  qed
qed


lemma exit_frames_owed:
  assumes "agent_ok a w" and "exit_frames a = (fs, a')"
  shows "\<exists>c. a' = a\<lparr>cursors := c\<rparr> \<and> connection c = connection (cursors a) \<and> owed a fs a'
      \<and> (\<forall>f \<in> set fs. sound a w f)"
proof (cases "exit a")
  case None
  with assms show ?thesis by (intro exI [of _ "cursors a"]) (auto simp: exit_frames_def owed_def)
next
  case (Some e)
  show ?thesis
  proof (cases "cur_stdout (cursors a) \<ge> end_stdout (exit_ends e)
      \<and> cur_stderr (cursors a) \<ge> end_stderr (exit_ends e) \<and> \<not> exit_sent (cursors a)")
    case True
    then have "ends_get st (exit_ends e) \<le> cursor_get st (cursors a)" for st by (cases st) simp_all
    then have "owed a [Exit e] (a\<lparr>cursors := (cursors a)\<lparr>exit_sent := True\<rparr>\<rparr>)"
      by (auto simp: owed_def intro: le_trans)
    moreover have "fs = [Exit e]" "a' = a\<lparr>cursors := (cursors a)\<lparr>exit_sent := True\<rparr>\<rparr>"
      using assms(2) True Some by (simp_all add: exit_frames_def Let_def)
    ultimately show ?thesis
      using Some by (intro exI [of _ "(cursors a)\<lparr>exit_sent := True\<rparr>"]) simp
  next
    case False
    with assms(2) Some have "fs = []" "a' = a" by (auto simp: exit_frames_def Let_def split: if_splits)
    then show ?thesis by (intro exI [of _ "cursors a"]) (simp add: owed_def)
  qed
qed

lemma next_frames_owed:
  assumes ok: "agent_ok a w"
  shows "\<exists>fs c. next_frames seam chunk (connection (cursors a)) a = Some (fs, a\<lparr>cursors := c\<rparr>)
      \<and> connection c = connection (cursors a) \<and> owed a fs (a\<lparr>cursors := c\<rparr>) \<and> (\<forall>f \<in> set fs. sound a w f)"
proof -
  obtain out k where out: "stream_frames seam chunk Stdout a = Some (out, a\<lparr>cursors := cursor_set Stdout k (cursors a)\<rparr>)"
      "owed a out (a\<lparr>cursors := cursor_set Stdout k (cursors a)\<rparr>)" "\<forall>f \<in> set out. sound a w f"
    using stream_frames_owed [OF ok, of seam chunk Stdout] by blast
  define a1 where "a1 = a\<lparr>cursors := cursor_set Stdout k (cursors a)\<rparr>"
  have ok1: "agent_ok a1 w" using ok by (simp add: a1_def)
  obtain err j where err: "stream_frames seam chunk Stderr a1 = Some (err, a1\<lparr>cursors := cursor_set Stderr j (cursors a1)\<rparr>)"
      "owed a1 err (a1\<lparr>cursors := cursor_set Stderr j (cursors a1)\<rparr>)" "\<forall>f \<in> set err. sound a1 w f"
    using stream_frames_owed [OF ok1, of seam chunk Stderr] by blast
  define a2 where "a2 = a1\<lparr>cursors := cursor_set Stderr j (cursors a1)\<rparr>"
  have ok2: "agent_ok a2 w" using ok1 by (simp add: a2_def)
  obtain ex a3 where ex: "exit_frames a2 = (ex, a3)" by (cases "exit_frames a2")
  obtain c where c: "a3 = a2\<lparr>cursors := c\<rparr>" "connection c = connection (cursors a2)" "owed a2 ex a3"
      "\<forall>f \<in> set ex. sound a2 w f"
    using exit_frames_owed [OF ok2 ex] by blast
  have a3: "a3 = a\<lparr>cursors := c\<rparr>" by (simp add: c(1) a2_def a1_def)
  have "next_frames seam chunk (connection (cursors a)) a = Some (out @ err @ ex, a3)"
    using out(1) [folded a1_def] err(1) [folded a2_def] ex by (simp add: next_frames_def)
  moreover have "owed a (out @ err @ ex) a3"
    using owed_trans [OF out(2) [folded a1_def] owed_trans [OF err(2) [folded a2_def] c(3)]] .
  moreover have "\<forall>f \<in> set (out @ err @ ex). sound a w f"
    using out(3) err(3) c(4) by (auto simp: a1_def a2_def)
  moreover have "connection c = connection (cursors a)" using c(2) by (simp add: a2_def a1_def)
  ultimately show ?thesis unfolding a3 by blast
qed

section \<open>The agent's own steps\<close>

definition grows :: "session_state \<Rightarrow> (out_stream \<Rightarrow> byte list) \<Rightarrow> session_state \<Rightarrow> (out_stream \<Rightarrow> byte list) \<Rightarrow> bool" where
  "grows a w a' w' \<longleftrightarrow>
     (\<forall>st. \<exists>ext. w' st = w st @ ext) \<and> (\<forall>e. exit a = Some e \<longrightarrow> exit a' = Some e) \<and> cursors a' = cursors a"

lemma sound_grows: "grows a w a' w' \<Longrightarrow> sound a w f \<Longrightarrow> sound a' w' f"
proof (cases f)
  case (Output st offset data)
  moreover assume "grows a w a' w'" "sound a w f"
  moreover from this obtain ext where "w' st = w st @ ext" by (auto simp: grows_def)
  ultimately show ?thesis by (simp add: span_grow)
next
  case (Gap st from_pos to_pos)
  moreover assume "grows a w a' w'" "sound a w f"
  moreover from this obtain ext where "w' st = w st @ ext" by (auto simp: grows_def)
  ultimately show ?thesis by simp
qed (simp add: grows_def)

lemma settle_ok: "agent_ok a w \<Longrightarrow> agent_ok (settle a) w \<and> grows a w (settle a) w"
proof -
  assume ok: "agent_ok a w"
  have "ends_get st (agent_ends a) = length (w st)" for st
  proof -
    have "tail_of (ring_of st a) (w st)" using ok by (simp add: agent_ok_def)
    from tail_end [OF this] show ?thesis by (cases st) (simp_all add: agent_ends_def)
  qed
  moreover have "ring_of st (a\<lparr>exit := x\<rparr>) = ring_of st a" for st x by (cases st) simp_all
  ultimately show ?thesis using ok
    by (auto simp: settle_def agent_ok_def grows_def split: option.splits)
qed

lemma update_ok:
  assumes "agent_ok a w" and "exit a' = exit a" and "cursors a' = cursors a"
    and "out_ring a' = out_ring a" and "err_ring a' = err_ring a"
    and "stdout_done a \<Longrightarrow> stdout_done a'" and "stderr_done a \<Longrightarrow> stderr_done a'"
  shows "agent_ok a' w \<and> grows a w a' w"
proof -
  have "ring_of st a' = ring_of st a" for st using assms(4,5) by (cases st) simp_all
  with assms show ?thesis by (auto simp: agent_ok_def grows_def split: option.splits)
qed

lemma grows_trans: "grows a w a' w' \<Longrightarrow> grows a' w' a'' w'' \<Longrightarrow> grows a w a'' w''"
  unfolding grows_def by (metis append.assoc)

lemma settle_update_ok:
  assumes "agent_ok a w" and "exit a' = exit a" and "cursors a' = cursors a"
    and "out_ring a' = out_ring a" and "err_ring a' = err_ring a"
    and "stdout_done a \<Longrightarrow> stdout_done a'" and "stderr_done a \<Longrightarrow> stderr_done a'"
  shows "agent_ok (settle a') w \<and> grows a w (settle a') w"
  using update_ok [OF assms] settle_ok grows_trans by blast

lemma stream_done_ok: "agent_ok a w \<Longrightarrow> agent_ok (stream_done st a) w \<and> grows a w (stream_done st a) w"
  by (cases st) (simp_all add: settle_update_ok)

lemma reaped_ok: "agent_ok a w \<Longrightarrow> agent_ok (reaped code sig rt a) w \<and> grows a w (reaped code sig rt a) w"
  by (simp add: reaped_def settle_update_ok)

lemma note_signal_ok: "agent_ok a w \<Longrightarrow> agent_ok (note_signal r a) w \<and> grows a w (note_signal r a) w"
  unfolding note_signal_def by (auto simp: update_ok grows_def)

lemma record_output_ok:
  assumes "agent_ok a w" and "\<not> is_done st a"
  shows "agent_ok (record_output st data a) (w(st := w st @ data))
    \<and> grows a w (record_output st data a) (w(st := w st @ data))"
proof -
  have "exit a = None" using assms by (cases st) (auto simp: agent_ok_def split: option.splits)
  moreover have "tail_of (ring_of st' (record_output st data a)) ((w(st := w st @ data)) st')" for st'
    using assms(1) by (cases st; cases st') (auto simp: agent_ok_def tail_push dest: spec [of _ Stdout] spec [of _ Stderr])
  ultimately show ?thesis by (cases st) (auto simp: agent_ok_def grows_def)
qed

end
