(* ===== verification/SessionHost.thy ===== *)
theory SessionHost
  imports SessionWire
begin

text \<open>
  The host's end of the link (\<^verbatim>\<open>client/session.rs\<close>): what taking a frame and one read do, for frames
  that follow on from what has arrived.
\<close>

section \<open>The host's own steps\<close>

lemma host_ring_set [simp]: "host_ring st (set_host_ring st' r p) = (if st' = st then r else host_ring st p)"
  by (cases st; cases st') simp_all

lemma consumed_set_ring [simp]: "consumed st (set_host_ring st' r p) = consumed st p"
  by (cases st; cases st') simp_all

lemma pipe_set_ring [simp]:
  "host_exit (set_host_ring st r p) = host_exit p" "failed (set_host_ring st r p) = failed p"
  "lost (set_host_ring st r p) = lost p" "p_input (set_host_ring st r p) = p_input p"
  by (cases st; simp)+

lemma pipe_set_consumed [simp]:
  "host_exit (set_consumed st n p) = host_exit p" "failed (set_consumed st n p) = failed p"
  "lost (set_consumed st n p) = lost p" "p_input (set_consumed st n p) = p_input p"
  by (cases st; simp)+

lemma host_ring_others [simp]:
  "host_ring st (p\<lparr>lost := n\<rparr>) = host_ring st p" "host_ring st (p\<lparr>host_exit := x\<rparr>) = host_ring st p"
  "host_ring st (p\<lparr>failed := f\<rparr>) = host_ring st p" "consumed st (p\<lparr>lost := n\<rparr>) = consumed st p"
  "consumed st (p\<lparr>host_exit := x\<rparr>) = consumed st p" "consumed st (p\<lparr>failed := f\<rparr>) = consumed st p"
  by (cases st; simp)+

declare set_host_ring.simps [simp del] set_consumed.simps [simp del]

text \<open>Where a frame takes the host, given what it needs. Nothing is skipped but by a gap notice.\<close>

definition host_at :: "out_stream \<Rightarrow> pipe_state \<Rightarrow> nat" where
  "host_at st p = ring_end (host_ring st p)"

lemma finish_pipe_eq:
  assumes "\<And>st. ends_get st (exit_ends e) \<le> host_at st p"
  shows "finish_pipe e p = (if host_exit p = None then p\<lparr>host_exit := Some e\<rparr> else p)"
  using assms [of Stdout] assms [of Stderr] by (simp add: finish_pipe_def host_at_def)

lemma deliver_eq:
  assumes "offset \<le> host_at st p"
  shows "deliver st offset data p =
    (if offset + length data \<le> host_at st p then p
     else set_host_ring st (push (drop (host_at st p - offset) data) (host_ring st p)) p)"
  using assms by (simp add: deliver_def host_at_def Let_def)

lemma gap_eq:
  "gap st n p = (if n > host_at st p
     then (set_host_ring st (skip_to n (host_ring st p)) p)\<lparr>lost := lost p + (n - host_at st p)\<rparr> else p)"
  by (simp add: gap_def host_at_def Let_def)

lemma take_frame_end:
  assumes "\<And>st. need st f \<le> host_at st p"
  shows "host_at st (take_frame f p) = max (host_at st p) (fin st f)"
proof (cases f)
  case (Output st' offset data)
  with assms [of st'] have "offset \<le> host_at st' p" by simp
  with Output show ?thesis by (simp add: deliver_eq) (auto simp: host_at_def push_end)
next
  case (Gap st' from_pos to_pos)
  then show ?thesis by (simp add: gap_eq) (auto simp: host_at_def skip_end)
next
  case (Exit e)
  with assms have "\<And>st. ends_get st (exit_ends e) \<le> host_at st p" by simp
  with Exit show ?thesis by (simp add: finish_pipe_eq) (simp add: host_at_def)
qed

definition host_ok :: "session_state \<Rightarrow> (out_stream \<Rightarrow> byte list) \<Rightarrow> pipe_state \<Rightarrow> bool" where
  "host_ok a w p \<longleftrightarrow>
     (\<forall>st. piece_of (host_ring st p) (w st) \<and> consumed st p \<le> host_at st p)
     \<and> (\<forall>e. host_exit p = Some e \<longrightarrow> exit a = Some e \<and> (\<forall>st. ends_get st (exit_ends e) \<le> host_at st p))"

text \<open>Nothing the reader has not had is missing from the ring.\<close>

definition whole :: "pipe_state \<Rightarrow> bool" where
  "whole p \<longleftrightarrow> (\<forall>st. Ring.start (host_ring st p) = consumed st p)"

lemma push_start: "length (bytes r) + length data \<le> Ring.capacity r \<Longrightarrow> Ring.start (push data r) = Ring.start r"
  by (cases "bytes r") (simp_all add: push_def Let_def)

lemma take_frame_consumed [simp]: "consumed st (take_frame f p) = consumed st p"
proof (cases f)
  case (Output st' offset data)
  then show ?thesis by (simp add: deliver_def Let_def)
next
  case (Gap st' from_pos to_pos)
  then show ?thesis by (simp add: gap_def Let_def)
next
  case (Exit e)
  then show ?thesis by (cases st) (simp_all add: finish_pipe_def Let_def)
qed

lemma take_frame_ok:
  assumes ok: "host_ok a w p" and agent: "agent_ok a w"
    and needs: "\<And>st. need st f \<le> host_at st p" and sound: "sound a w f"
  shows "host_ok a w (take_frame f p)"
proof -
  have ends: "host_at st (take_frame f p) \<ge> host_at st p" for st
    using take_frame_end [OF needs] by simp
  have "piece_of (host_ring st (take_frame f p)) (w st)" for st
  proof (cases f)
    case (Output st' offset data)
    have piece: "piece_of (host_ring st' p) (w st')" using ok by (simp add: host_ok_def)
    have offset: "offset \<le> host_at st' p" using needs [of st'] Output by simp
    have span: "span offset data (w st')" using sound Output by simp
    show ?thesis
    proof (cases "offset + length data \<le> host_at st' p")
      case True
      with ok Output offset show ?thesis by (simp add: deliver_eq host_ok_def)
    next
      case False
      then have "span (host_at st' p) (drop (host_at st' p - offset) data) (w st')"
        using span_drop [OF span, of "host_at st' p - offset"] offset by simp
      then have "piece_of (push (drop (host_at st' p - offset) data) (host_ring st' p)) (w st')"
        using piece by (simp add: piece_push host_at_def)
      with ok Output offset False show ?thesis
        by (cases "st' = st") (simp_all add: deliver_eq host_ok_def)
    qed
  next
    case (Gap st' from_pos to_pos)
    with ok sound show ?thesis by (cases "st' = st") (auto simp: gap_eq host_ok_def piece_skip)
  next
    case (Exit e)
    with needs ok show ?thesis by (simp add: finish_pipe_eq host_ok_def)
  qed
  moreover have "exit a = Some e \<and> (\<forall>st. ends_get st (exit_ends e) \<le> host_at st (take_frame f p))"
    if "host_exit (take_frame f p) = Some e" for e
  proof (cases "host_exit p = Some e")
    case True
    with ok ends show ?thesis by (meson host_ok_def le_trans)
  next
    case False
    with that have f: "f = Exit e"
      by (cases f) (auto simp: deliver_def gap_def finish_pipe_def Let_def split: if_splits)
    with sound needs ends show ?thesis by (auto intro: le_trans)
  qed
  moreover have "consumed st p \<le> host_at st (take_frame f p)" for st
    by (rule le_trans [OF _ ends]) (use ok in \<open>simp add: host_ok_def\<close>)
  ultimately show ?thesis by (simp add: host_ok_def)
qed

lemma take_frame_whole:
  assumes "whole p" and needs: "\<And>st. need st f \<le> host_at st p"
    and "lost (take_frame f p) = 0" and "\<not> overruns f p"
  shows "whole (take_frame f p) \<and> lost p = 0"
proof (cases f)
  case (Output st' offset data)
  moreover have offset: "offset \<le> host_at st' p" using needs [of st'] Output by simp
  moreover have "Ring.start (push (drop k data) (host_ring st' p)) = Ring.start (host_ring st' p)" for k
    using assms(4) Output by (intro push_start) simp
  ultimately show ?thesis using assms(1,3) by (auto simp: deliver_eq whole_def split: if_splits)
next
  case (Gap st' from_pos to_pos)
  with assms show ?thesis by (auto simp: gap_eq whole_def split: if_splits)
next
  case (Exit e)
  with needs have "\<And>st. ends_get st (exit_ends e) \<le> host_at st p" by simp
  with Exit assms(1,3) show ?thesis by (auto simp: finish_pipe_eq whole_def split: if_splits)
qed

section \<open>Reading\<close>

definition at_end :: "out_stream \<Rightarrow> pipe_state \<Rightarrow> read_outcome" where
  "at_end st p =
     (case host_exit p of
        Some e \<Rightarrow> if consumed st p \<ge> ends_get st (exit_ends e) then EndOfStream
          else (case failed p of Some reason \<Rightarrow> Aborted reason | None \<Rightarrow> WouldWait)
      | None \<Rightarrow> (case failed p of Some reason \<Rightarrow> Aborted reason | None \<Rightarrow> WouldWait))"

lemma read_at_end:
  "room \<noteq> 0 \<Longrightarrow> consumed st p \<ge> host_at st p \<Longrightarrow> session_read seam room st p = (at_end st p, p)"
  by (subst session_read.simps) (simp add: host_at_def at_end_def split: option.split)

lemma session_read_eq:
  assumes "room \<noteq> 0" and "consumed st p < host_at st p"
  shows "session_read seam room st p =
    (let r = host_ring st p; pos = max (consumed st p) (Ring.start r) in
     if pos < host_at st p then
       (let data = take room (drop (pos - Ring.start r) (bytes r)); nxt = pos + length data
        in (Bytes pos data, set_consumed st nxt (set_host_ring st (consume_to nxt r) p)))
     else (at_end st (set_consumed st (host_at st p) p), set_consumed st (host_at st p) p))"
proof -
  let ?r = "host_ring st p"
  define pos where "pos = max (consumed st p) (Ring.start ?r)"
  have clamp: "clamp (consumed st p) (Ring.start ?r) (ring_end ?r) = pos"
    using assms(2) start_le_end [of ?r] by (simp add: clamp_def pos_def host_at_def)
  have pos_le: "pos \<le> host_at st p"
    using assms(2) start_le_end [of ?r] by (simp add: pos_def host_at_def)
  define data where "data = take room (drop (pos - Ring.start ?r) (bytes ?r))"
  have empty: "data = [] \<longleftrightarrow> \<not> pos < host_at st p"
  proof -
    have "data = [] \<longleftrightarrow> length (bytes ?r) \<le> pos - Ring.start ?r"
      using assms(1) by (simp add: data_def)
    moreover have "Ring.start ?r \<le> pos" by (simp add: pos_def)
    ultimately show ?thesis unfolding host_at_def ring_end_def by linarith
  qed
  have "read_from seam (consumed st p) room ?r = Some (pos, data)"
    by (simp add: read_from_eq clamp data_def)
  then have step: "session_read seam room st p =
      (if pos < host_at st p then
         (let nxt = pos + length data
          in (Bytes pos data, set_consumed st nxt (set_host_ring st (consume_to nxt ?r) p)))
       else session_read seam room st (set_consumed st pos p))"
    using assms empty by (subst session_read.simps) (simp add: host_at_def)
  show ?thesis
  proof (cases "pos < host_at st p")
    case True
    with step show ?thesis by (simp add: Let_def pos_def data_def)
  next
    case False
    with pos_le have pos: "pos = host_at st p" by simp
    have "host_at st (set_consumed st pos p) = host_at st p" by (simp add: host_at_def)
    with assms(1) pos have "session_read seam room st (set_consumed st pos p)
        = (at_end st (set_consumed st pos p), set_consumed st pos p)"
      by (intro read_at_end) simp_all
    moreover have "\<not> max (consumed st p) (Ring.start ?r) < host_at st p"
      using False unfolding pos_def .
    ultimately show ?thesis using step pos by (auto simp: Let_def)
  qed
qed


text \<open>What one read does: the bytes are the process's, and the reader only moves forward.\<close>

definition read_ok :: "byte list \<Rightarrow> out_stream \<Rightarrow> pipe_state \<Rightarrow> read_outcome \<Rightarrow> pipe_state \<Rightarrow> bool" where
  "read_ok w st p out p' \<longleftrightarrow>
     (case out of
        Bytes pos data \<Rightarrow> consumed st p \<le> pos \<and> span pos data w \<and> consumed st p' = pos + length data
      | ReadPanic \<Rightarrow> False
      | EndOfStream \<Rightarrow> (\<exists>e. host_exit p = Some e \<and> ends_get st (exit_ends e) \<le> consumed st p')
      | _ \<Rightarrow> True)
     \<and> consumed st p \<le> consumed st p'"

lemma at_end_read_ok:
  assumes "consumed st p \<le> consumed st p'" and "host_exit p' = host_exit p"
  shows "read_ok w st p (at_end st p') p'"
  using assms by (auto simp: read_ok_def at_end_def split: option.split)

lemma session_read_ok:
  assumes ok: "host_ok a w p" and out: "session_read seam room st p = (out, p')"
  shows "host_ok a w p' \<and> read_ok (w st) st p out p' \<and> lost p' = lost p
    \<and> (\<forall>st'. host_at st' p' = host_at st' p) \<and> host_exit p' = host_exit p \<and> failed p' = failed p"
proof (cases "room = 0")
  case True
  with out have "out = Bytes (consumed st p) []" "p' = p" by (subst (asm) session_read.simps, simp)+
  moreover have "consumed st p \<le> length (w st)"
    using ok by (auto simp: host_ok_def piece_of_def host_at_def intro: le_trans)
  ultimately show ?thesis using ok by (simp add: read_ok_def span_def)
next
  case room: False
  let ?r = "host_ring st p"
  show ?thesis
  proof (cases "consumed st p < host_at st p")
    case False
    with out read_at_end [OF room, where p = p and st = st and seam = seam] have "out = at_end st p" "p' = p" by auto
    with ok at_end_read_ok show ?thesis by simp
  next
    case True
    define pos where "pos = max (consumed st p) (Ring.start ?r)"
    define data where "data = take room (drop (pos - Ring.start ?r) (bytes ?r))"
    note eq = session_read_eq [OF room True, of seam, unfolded Let_def, folded pos_def, folded data_def]
    show ?thesis
    proof (cases "pos < host_at st p")
      case reads: True
      have o: "out = Bytes pos data"
        and p': "p' = set_consumed st (pos + length data) (set_host_ring st (consume_to (pos + length data) ?r) p)"
        using out eq reads by simp_all
      have piece: "piece_of ?r (w st)" using ok by (simp add: host_ok_def)
      have "pos + length data \<le> host_at st p"
      proof -
        have "length data \<le> length (bytes ?r) - (pos - Ring.start ?r)" by (simp add: data_def)
        moreover have "Ring.start ?r \<le> pos" by (simp add: pos_def)
        ultimately show ?thesis using reads unfolding host_at_def ring_end_def by linarith
      qed
      moreover have "span pos data (w st)"
      proof -
        have "span (Ring.start ?r + (pos - Ring.start ?r)) (drop (pos - Ring.start ?r) (bytes ?r)) (w st)"
          using piece reads by (intro span_drop) (simp_all add: piece_span host_at_def ring_end_def)
        then have "span pos (drop (pos - Ring.start ?r) (bytes ?r)) (w st)" by (simp add: pos_def)
        then show ?thesis unfolding data_def by (rule span_prefix)
      qed
      moreover have "host_at st' p' = host_at st' p" for st'
        by (simp add: p' host_at_def consume_end)
      moreover have "piece_of (host_ring st' p') (w st')" for st'
        using ok by (cases "st' = st") (simp_all add: p' host_ok_def piece_consume)
      moreover have "consumed st p \<le> pos" by (simp add: pos_def)
      ultimately show ?thesis using ok o p' by (auto simp: host_ok_def read_ok_def)
    next
      case False
      have o: "out = at_end st (set_consumed st (host_at st p) p)"
        and p': "p' = set_consumed st (host_at st p) p"
        using out eq False by auto
      have "host_at st' p' = host_at st' p" for st' by (simp add: p' host_at_def)
      moreover have "read_ok (w st) st p out p'"
        unfolding o p' by (rule at_end_read_ok) (use True in simp_all)
      ultimately show ?thesis using ok p' by (auto simp: host_ok_def)
    qed
  qed
qed

lemma session_read_whole:
  assumes ok: "host_ok a w p" and "whole p" and out: "session_read seam room st p = (out, p')"
  shows "whole p' \<and> take (consumed st p') (w st) = take (consumed st p) (w st) @ read_bytes out
    \<and> (\<forall>st'. st' \<noteq> st \<longrightarrow> consumed st' p' = consumed st' p)"
proof (cases "room = 0")
  case True
  with out have "out = Bytes (consumed st p) []" "p' = p" by (subst (asm) session_read.simps, simp)+
  with assms(2) show ?thesis by simp
next
  case room: False
  let ?r = "host_ring st p"
  have start: "Ring.start ?r = consumed st p" using assms(2) by (simp add: whole_def)
  show ?thesis
  proof (cases "consumed st p < host_at st p")
    case False
    with out read_at_end [OF room, where p = p and st = st and seam = seam] have "out = at_end st p" "p' = p" by auto
    moreover have "read_bytes (at_end st p) = []" by (simp add: at_end_def split: option.split)
    ultimately show ?thesis using assms(2) by simp
  next
    case True
    define data where "data = take room (bytes ?r)"
    have o: "out = Bytes (consumed st p) data"
      and p': "p' = set_consumed st (consumed st p + length data)
        (set_host_ring st (consume_to (consumed st p + length data) ?r) p)"
      using out session_read_eq [OF room True, of seam] True by (simp_all add: Let_def start data_def)
    have "consumed st p + length data \<le> ring_end ?r" "Ring.start ?r < consumed st p + length data"
      using True room by (simp_all add: data_def ring_end_def start host_at_def)
    then have "Ring.start (consume_to (consumed st p + length data) ?r) = consumed st p + length data"
      by (simp add: consume_to_def Let_def)
    moreover have "span (consumed st p) data (w st)"
      using session_read_ok [OF ok out] by (simp add: read_ok_def o)
    ultimately show ?thesis using assms(2) by (auto simp: p' o whole_def take_add span_def)
  qed
qed

lemma at_end_after_exit:
  assumes "host_ok a w p" and "host_exit p \<noteq> None" and "consumed st p = host_at st p"
  shows "at_end st p = EndOfStream"
  using assms by (auto simp: host_ok_def at_end_def)

section \<open>A gap notice discards what was not yet read\<close>

text \<open>
  Three bytes arrive, then the notice that the stream goes on at five. The reader never gets the three,
  and two are counted as lost.
\<close>

lemma gap_discards_unread:
  "case gap Stdout 5 (deliver Stdout 0 [1, 2, 3] pipe_new) of p \<Rightarrow>
     lost p = 2 \<and> consumed Stdout p = 0 \<and> fst (session_read 0 8 Stdout (deliver Stdout 5 [9] p)) = Bytes 5 [9]"
  by (simp add: gap_def deliver_def pipe_new_def ring_new_def push_def skip_to_def ring_end_def Let_def
      set_host_ring.simps HOST_OUTPUT_LIMIT_def session_read.simps read_from_def clamp_def slice_def)

end
