(* ===== verification/SessionLink.thy ===== *)
theory SessionLink
  imports SessionHost
begin

text \<open>
  The whole output path of a remote session: its invariant over every interleaving, and what the readers
  may rely on.
\<close>

section \<open>The link's invariant\<close>

definition wires_ok :: "link_state \<Rightarrow> bool" where
  "wires_ok s \<longleftrightarrow>
     (\<forall>c. (\<forall>f \<in> set (wires s c). sound (agent_end s) (wrote s) f)
        \<and> (\<forall>st. chained (need st) (fin st) (host_at st (host_end s)) (wires s c))
        \<and> (next_connection s \<le> c \<longrightarrow> wires s c = []))
     \<and> (let c = connection (cursors (agent_end s)) in
        c < next_connection s \<and>
        (c \<notin> dead s \<longrightarrow> (\<forall>st. cursor_get st (cursors (agent_end s))
           \<le> reach (fin st) (host_at st (host_end s)) (wires s c))))
     \<and> (\<forall>h \<in> set (hellos s). fst h \<le> host_at Stdout (host_end s) \<and> snd h \<le> host_at Stderr (host_end s))"

fun before :: "read_outcome \<Rightarrow> read_outcome \<Rightarrow> bool" where
  "before (Bytes p d) (Bytes q e) = (p + length d \<le> q)"
| "before _ _ = True"

fun faithful :: "byte list \<Rightarrow> read_outcome \<Rightarrow> bool" where
  "faithful w (Bytes p d) = span p d w"
| "faithful w ReadPanic = False"
| "faithful w _ = True"

fun stops_by :: "nat \<Rightarrow> read_outcome \<Rightarrow> bool" where
  "stops_by n (Bytes p d) = (p + length d \<le> n)"
| "stops_by n _ = True"

definition reads_ok :: "link_state \<Rightarrow> bool" where
  "reads_ok s \<longleftrightarrow>
     (\<forall>st. sorted_wrt before (reads s st)
        \<and> (\<forall>x \<in> set (reads s st). faithful (wrote s st) x \<and> stops_by (consumed st (host_end s)) x)
        \<and> (EndOfStream \<in> set (reads s st) \<longrightarrow>
             (\<exists>e. host_exit (host_end s) = Some e \<and> ends_get st (exit_ends e) \<le> consumed st (host_end s))))"

definition complete :: "link_state \<Rightarrow> bool" where
  "complete s \<longleftrightarrow>
     (lost (host_end s) = 0 \<and> \<not> overrun s \<longrightarrow>
        whole (host_end s)
        \<and> (\<forall>st. concat (map read_bytes (reads s st)) = take (consumed st (host_end s)) (wrote s st)))"

definition link_ok :: "link_state \<Rightarrow> bool" where
  "link_ok s \<longleftrightarrow> agent_ok (agent_end s) (wrote s) \<and> host_ok (agent_end s) (wrote s) (host_end s)
     \<and> wires_ok s \<and> reads_ok s \<and> complete s"

lemma link_okI:
  assumes "agent_ok (agent_end s) (wrote s)" "host_ok (agent_end s) (wrote s) (host_end s)"
    "wires_ok s" "reads_ok s" "complete s"
  shows "link_ok s"
  using assms by (simp add: link_ok_def)

lemma faithful_grow: "faithful w x \<Longrightarrow> faithful (w @ ext) x"
  by (cases x) (simp_all add: span_grow)

lemma stops_by_mono: "stops_by n x \<Longrightarrow> n \<le> m \<Longrightarrow> stops_by m x"
  by (cases x) simp_all

lemma link_start_ok: "link_ok (link_start cap has_stderr)"
proof -
  have new: "tail_of (ring_of st (session_new cap has_stderr)) []" for st
    by (cases st) (simp_all add: session_new_def tail_new)
  have zero: "cursor_get st (cursors (session_new cap has_stderr)) = 0" for st
    by (cases st) (simp_all add: session_new_def)
  have ring: "host_ring st pipe_new = ring_new HOST_OUTPUT_LIMIT" "consumed st pipe_new = 0" for st
    by (cases st; simp add: pipe_new_def)+
  have conn: "connection (cursors (session_new cap has_stderr)) = 0" by (simp add: session_new_def)
  show ?thesis
    by (rule link_okI)
      (simp_all add: link_start_def agent_ok_def new host_ok_def ring piece_new wires_ok_def conn zero
        reads_ok_def complete_def whole_def Let_def, simp_all add: session_new_def pipe_new_def ring_new_def)
qed

lemma agent_step_ok:
  assumes ok: "link_ok s" and a: "agent_ok a w" and g: "grows (agent_end s) (wrote s) a w"
  shows "link_ok (s\<lparr>agent_end := a, wrote := w\<rparr>)"
proof (rule link_okI)
  have w: "\<exists>ext. w st = wrote s st @ ext" for st using g by (simp add: grows_def)
  have ex: "exit a = Some e" if "exit (agent_end s) = Some e" for e using g that by (simp add: grows_def)
  have cur: "cursors a = cursors (agent_end s)" using g by (simp add: grows_def)
  have host: "host_ok (agent_end s) (wrote s) (host_end s)" using ok by (simp add: link_ok_def)
  then have len: "consumed st (host_end s) \<le> length (wrote s st)" for st
    by (auto simp: host_ok_def piece_of_def host_at_def intro: le_trans)
  show "agent_ok (agent_end (s\<lparr>agent_end := a, wrote := w\<rparr>)) (wrote (s\<lparr>agent_end := a, wrote := w\<rparr>))"
    using a by simp
  have "piece_of (host_ring st (host_end s)) (w st)" for st
    using host w [of st] by (auto simp: host_ok_def piece_grow)
  then show "host_ok (agent_end (s\<lparr>agent_end := a, wrote := w\<rparr>)) (wrote (s\<lparr>agent_end := a, wrote := w\<rparr>))
      (host_end (s\<lparr>agent_end := a, wrote := w\<rparr>))"
    using host ex by (simp add: host_ok_def)
  show "wires_ok (s\<lparr>agent_end := a, wrote := w\<rparr>)"
    using ok sound_grows [OF g] by (simp add: link_ok_def wires_ok_def cur)
  show "reads_ok (s\<lparr>agent_end := a, wrote := w\<rparr>)"
    using ok w by (simp add: link_ok_def reads_ok_def) (metis faithful_grow)
  have "take (consumed st (host_end s)) (w st) = take (consumed st (host_end s)) (wrote s st)" for st
    using w [of st] len [of st] by auto
  then show "complete (s\<lparr>agent_end := a, wrote := w\<rparr>)"
    using ok by (simp add: link_ok_def complete_def)
qed

lemma pump_ok:
  assumes ok: "link_ok s"
  shows "link_ok (link_step s (Pump seam))"
proof -
  let ?a = "agent_end s"
  let ?c = "connection (cursors ?a)"
  have agent: "agent_ok ?a (wrote s)" using ok by (simp add: link_ok_def)
  obtain fs k where fs: "next_frames seam OUTPUT_CHUNK_BYTES ?c ?a = Some (fs, ?a\<lparr>cursors := k\<rparr>)"
      "connection k = ?c" "owed ?a fs (?a\<lparr>cursors := k\<rparr>)" "\<forall>f \<in> set fs. sound ?a (wrote s) f"
    using next_frames_owed [OF agent] by blast
  define s' where "s' = s\<lparr>agent_end := ?a\<lparr>cursors := k\<rparr>,
      wires := (if ?c \<in> dead s then wires s else (wires s)(?c := wires s ?c @ fs))\<rparr>"
  have wires: "wires_ok s" using ok by (simp add: link_ok_def)
  have more: "chained (need st) (fin st) (reach (fin st) (host_at st (host_end s)) (wires s ?c)) fs
      \<and> cursor_get st k \<le> reach (fin st) (reach (fin st) (host_at st (host_end s)) (wires s ?c)) fs"
    if "?c \<notin> dead s" for st
    using wires that fs(3) by (simp add: wires_ok_def Let_def owed_def)
  have "wires_ok s'"
    using wires fs(2,4) more by (simp add: wires_ok_def s'_def Let_def ball_Un)
  moreover have "host_ok (?a\<lparr>cursors := k\<rparr>) (wrote s) (host_end s)"
    using ok by (simp add: link_ok_def host_ok_def)
  ultimately have "link_ok s'"
    using ok by (intro link_okI) (simp_all add: link_ok_def s'_def reads_ok_def complete_def)
  moreover have "link_step s (Pump seam) = s'" using fs(1) by (simp add: s'_def Let_def)
  ultimately show ?thesis by simp
qed

lemma arrives_ok:
  assumes ok: "link_ok s"
  shows "link_ok (link_step s (Arrives c))"
proof (cases "wires s c")
  case Nil
  with ok show ?thesis by simp
next
  case (Cons f fs)
  let ?p = "host_end s" and ?a = "agent_end s"
  have parts: "agent_ok ?a (wrote s)" "host_ok ?a (wrote s) ?p" "wires_ok s" "reads_ok s" "complete s"
    using ok by (simp_all add: link_ok_def)
  have sound: "sound ?a (wrote s) f" and needs: "\<And>st. need st f \<le> host_at st ?p"
    and rest: "\<And>st. chained (need st) (fin st) (max (host_at st ?p) (fin st f)) fs"
    using parts(3) Cons by (auto simp: wires_ok_def dest!: spec [of _ c])
  note ends = take_frame_end [OF needs]
  have le: "host_at st ?p \<le> host_at st (take_frame f ?p)" for st using ends by simp
  define s' where "s' = s\<lparr>host_end := take_frame f ?p, wires := (wires s)(c := fs),
      overrun := (overrun s \<or> overruns f ?p)\<rparr>"
  have "wires_ok s'"
  proof -
    have "chained (need st) (fin st) (host_at st (host_end s')) (wires s' c')" for st c'
    proof (cases "c' = c")
      case True
      with rest [of st] show ?thesis by (simp add: s'_def ends)
    next
      case False
      have "chained (need st) (fin st) (host_at st ?p) (wires s c')"
        using parts(3) by (simp add: wires_ok_def)
      from chained_mono [OF this le] False show ?thesis by (simp add: s'_def)
    qed
    moreover have "cursor_get st (cursors ?a) \<le> reach (fin st) (host_at st (host_end s')) (wires s' (connection (cursors ?a)))"
      if "connection (cursors ?a) \<notin> dead s" for st
    proof -
      have "cursor_get st (cursors ?a) \<le> reach (fin st) (host_at st ?p) (wires s (connection (cursors ?a)))"
        using parts(3) that by (simp add: wires_ok_def Let_def)
      also have "\<dots> \<le> reach (fin st) (host_at st (host_end s')) (wires s' (connection (cursors ?a)))"
        using Cons ends [of st] reach_mono [OF le [of st], of "fin st"] by (simp add: s'_def)
      finally show ?thesis .
    qed
    moreover have "fst h \<le> host_at Stdout (host_end s') \<and> snd h \<le> host_at Stderr (host_end s')"
      if "h \<in> set (hellos s)" for h
      using parts(3) that le [of Stdout] le [of Stderr] by (auto simp: wires_ok_def s'_def intro: le_trans)
    moreover have "sound ?a (wrote s) f'" if "f' \<in> set (wires s' c')" for f' c'
      using that Cons parts(3) by (auto simp: s'_def wires_ok_def split: if_splits dest!: spec [of _ c])
    moreover have "wires s' c' = []" if "next_connection s \<le> c'" for c'
      using parts(3) that Cons by (auto simp: s'_def wires_ok_def)
    moreover have "agent_end s' = ?a" "wrote s' = wrote s" "dead s' = dead s" "hellos s' = hellos s"
      "next_connection s' = next_connection s"
      by (simp_all add: s'_def)
    moreover have "connection (cursors ?a) < next_connection s" using parts(3) by (simp add: wires_ok_def Let_def)
    ultimately show ?thesis unfolding wires_ok_def Let_def by simp
  qed
  moreover have "host_ok ?a (wrote s) (take_frame f ?p)"
    by (rule take_frame_ok [OF parts(2,1) needs sound])
  moreover have "reads_ok s'"
  proof -
    have "host_exit (take_frame f ?p) = Some e" if "host_exit ?p = Some e" for e
      using that by (cases f) (simp_all add: deliver_def gap_def finish_pipe_def Let_def)
    with parts(4) show ?thesis by (auto simp: reads_ok_def s'_def)
  qed
  moreover have "complete s'"
    unfolding complete_def
  proof
    assume no: "lost (host_end s') = 0 \<and> \<not> overrun s'"
    have "lost ?p = 0" using no needs by (cases f) (auto simp: s'_def deliver_def gap_def finish_pipe_def Let_def split: if_splits)
    moreover from this have "whole ?p" using parts(5) no by (simp add: complete_def s'_def)
    ultimately show "whole (host_end s') \<and> (\<forall>st. concat (map read_bytes (reads s' st))
        = take (consumed st (host_end s')) (wrote s' st))"
      using parts(5) no needs take_frame_whole [of ?p f] by (simp add: complete_def s'_def)
  qed
  ultimately have "link_ok s'" using parts(1) by (intro link_okI) (simp_all add: s'_def)
  moreover have "link_step s (Arrives c) = s'" using Cons by (simp add: s'_def)
  ultimately show ?thesis by simp
qed

lemma read_step_ok:
  assumes ok: "link_ok s"
  shows "link_ok (link_step s (HostReads seam room st))"
proof -
  let ?p = "host_end s"
  obtain out p where read: "session_read seam room st ?p = (out, p)" by (cases "session_read seam room st ?p")
  have parts: "agent_ok (agent_end s) (wrote s)" "host_ok (agent_end s) (wrote s) ?p" "wires_ok s" "reads_ok s" "complete s"
    using ok by (simp_all add: link_ok_def)
  note r = session_read_ok [OF parts(2) read]
  define s' where "s' = s\<lparr>host_end := p, reads := (reads s)(st := reads s st @ [out])\<rparr>"
  have "wires_ok s'" using parts(3) r by (simp add: wires_ok_def s'_def)
  moreover have "consumed st' ?p \<le> consumed st' p" for st'
  proof (cases "st' = st")
    case True
    with r show ?thesis by (simp add: read_ok_def)
  next
    case False
    have "consumed st' p = consumed st' ?p"
    proof (cases "room = 0")
      case True
      with read show ?thesis by (subst (asm) session_read.simps) simp
    next
      case room: False
      with read read_at_end [OF room, where p = ?p and st = st and seam = seam]
        session_read_eq [OF room, where p = ?p and st = st and seam = seam] False
      show ?thesis by (cases "consumed st ?p < host_at st ?p") (auto simp: Let_def split: if_splits)
    qed
    then show ?thesis by simp
  qed
  note mono = this
  have "reads_ok s'"
  proof -
    have "faithful (wrote s st) out" "stops_by (consumed st p) out"
      using r by (cases out; simp add: read_ok_def)+
    moreover have "before x out" if "x \<in> set (reads s st)" for x
    proof -
      have "stops_by (consumed st ?p) x" using parts(4) that by (simp add: reads_ok_def)
      with r show ?thesis by (cases x; cases out) (auto simp: read_ok_def)
    qed
    moreover have "\<exists>e. host_exit p = Some e \<and> ends_get st (exit_ends e) \<le> consumed st p" if "out = EndOfStream"
      using r that by (simp add: read_ok_def)
    moreover have old: "sorted_wrt before (reads s st')"
      "x \<in> set (reads s st') \<Longrightarrow> faithful (wrote s st') x \<and> stops_by (consumed st' p) x"
      "EndOfStream \<in> set (reads s st') \<Longrightarrow> \<exists>e. host_exit p = Some e \<and> ends_get st' (exit_ends e) \<le> consumed st' p"
      for st' x
      using parts(4) r mono [of st'] unfolding reads_ok_def by (auto intro: stops_by_mono le_trans)
    ultimately show ?thesis
      unfolding reads_ok_def s'_def using old by (auto simp: sorted_wrt_append ball_Un)
  qed
  moreover have "complete s'"
    using parts(5) session_read_whole [OF parts(2) _ read] r by (auto simp: complete_def s'_def)
  ultimately have "link_ok s'" using parts r by (intro link_okI) (simp_all add: s'_def)
  moreover have "link_step s (HostReads seam room st) = s'" using read by (simp add: s'_def)
  ultimately show ?thesis by simp
qed


lemma wires_ok_cong:
  assumes "wires_ok s" and "agent_end s' = agent_end s" "wrote s' = wrote s" "host_end s' = host_end s"
    "wires s' = wires s" "next_connection s' = next_connection s" "dead s \<subseteq> dead s'"
    "\<forall>h \<in> set (hellos s'). h \<in> set (hellos s) \<or> h = received (host_end s)"
  shows "wires_ok s'"
proof -
  have "fst h \<le> host_at Stdout (host_end s) \<and> snd h \<le> host_at Stderr (host_end s)" if "h \<in> set (hellos s')" for h
  proof (cases "h \<in> set (hellos s)")
    case True
    with assms(1) show ?thesis by (simp add: wires_ok_def)
  next
    case False
    with assms(8) that have "h = received (host_end s)" by blast
    then show ?thesis by (simp add: received_def host_at_def)
  qed
  with assms(1-7) show ?thesis unfolding wires_ok_def Let_def by (auto dest: subsetD)
qed

lemma attach_ok:
  assumes ok: "link_ok s"
  shows "link_ok (link_step s (AgentAttaches k))"
proof (cases "k < length (hellos s)")
  case False
  with ok show ?thesis by simp
next
  case True
  obtain o' e' where h: "hellos s ! k = (o', e')" by (cases "hellos s ! k")
  then have "(o', e') \<in> set (hellos s)" using True by (metis nth_mem)
  moreover have wires: "wires_ok s" using ok by (simp add: link_ok_def)
  ultimately have le: "o' \<le> host_at Stdout (host_end s)" "e' \<le> host_at Stderr (host_end s)"
    by (auto simp: wires_ok_def)
  define cs where "cs = \<lparr>connection = next_connection s, cur_stdout = o', cur_stderr = e', exit_sent = False\<rparr>"
  have at: "cursor_get st cs \<le> host_at st (host_end s)" for st
    using le by (cases st) (simp_all add: cs_def)
  define s' where "s' = s\<lparr>agent_end := (agent_end s)\<lparr>cursors := cs\<rparr>, next_connection := next_connection s + 1\<rparr>"
  have "wires s (next_connection s) = []" using wires by (simp add: wires_ok_def)
  then have "wires_ok s'" using wires at by (simp add: wires_ok_def s'_def Let_def cs_def [symmetric]) (simp add: cs_def)
  moreover have "host_ok ((agent_end s)\<lparr>cursors := cs\<rparr>) (wrote s) (host_end s)"
    using ok by (simp add: link_ok_def host_ok_def)
  ultimately have "link_ok s'"
    using ok by (intro link_okI) (simp_all add: link_ok_def s'_def reads_ok_def complete_def)
  moreover have "link_step s (AgentAttaches k) = s'"
    using True h by (simp add: s'_def attach_connection_def cs_def)
  ultimately show ?thesis by simp
qed

lemma breaks_ok:
  assumes ok: "link_ok s"
  shows "link_ok (link_step s (Breaks c n))"
proof -
  have "wires_ok (link_step s (Breaks c n))"
  proof -
    have "wires_ok s" using ok by (simp add: link_ok_def)
    then show ?thesis by (auto simp: wires_ok_def Let_def chained_take dest: in_set_takeD)
  qed
  with ok show ?thesis by (intro link_okI) (simp_all add: link_ok_def reads_ok_def complete_def)
qed

lemma gives_up_ok:
  assumes ok: "link_ok s"
  shows "link_ok (link_step s (HostGivesUp reason))"
proof -
  let ?p = "fail_pipe reason (host_end s)"
  have eq: "host_ring st ?p = host_ring st (host_end s)" "consumed st ?p = consumed st (host_end s)"
    "host_exit ?p = host_exit (host_end s)" "lost ?p = lost (host_end s)" for st
    by (simp_all add: fail_pipe_def)
  then have at: "host_at st ?p = host_at st (host_end s)" for st by (simp add: host_at_def)
  show ?thesis using ok
    by (intro link_okI) (simp_all add: link_ok_def reads_ok_def complete_def wires_ok_def host_ok_def whole_def eq at)
qed

lemma link_step_ok: "link_ok s \<Longrightarrow> link_ok (link_step s e)"
proof (cases e)
  case (Wrote st data)
  moreover assume ok: "link_ok s"
  moreover have "agent_ok (agent_end s) (wrote s)" using ok by (simp add: link_ok_def)
  ultimately show ?thesis
    using agent_step_ok [OF ok] record_output_ok by (cases "is_done st (agent_end s)") simp_all
next
  case (StreamEnded st)
  moreover assume ok: "link_ok s"
  moreover have "agent_ok (agent_end s) (wrote s)" using ok by (simp add: link_ok_def)
  ultimately show ?thesis using agent_step_ok [OF ok, of _ "wrote s"] stream_done_ok by simp
next
  case (ProcessReaped code sig runtime)
  moreover assume ok: "link_ok s"
  moreover have "agent_ok (agent_end s) (wrote s)" using ok by (simp add: link_ok_def)
  ultimately show ?thesis using agent_step_ok [OF ok, of _ "wrote s"] reaped_ok by simp
next
  case (SignalSent reason)
  moreover assume ok: "link_ok s"
  moreover have "agent_ok (agent_end s) (wrote s)" using ok by (simp add: link_ok_def)
  ultimately show ?thesis using agent_step_ok [OF ok, of _ "wrote s"] note_signal_ok by simp
next
  case HostGreets
  moreover assume ok: "link_ok s"
  moreover have "wires_ok (link_step s HostGreets)"
    by (rule wires_ok_cong) (use ok in \<open>auto simp: link_ok_def\<close>)
  ultimately show ?thesis by (intro link_okI) (simp_all add: link_ok_def reads_ok_def complete_def)
qed (simp_all only: attach_ok pump_ok arrives_ok breaks_ok read_step_ok gives_up_ok)

interpretation link: total_machine "\<lambda>s. s = link_start cap has_stderr" link_step link_ok for cap has_stderr
  by unfold_locales (auto simp: link_start_ok link_step_ok)

lemma link_run_ok: "link_ok (link_run cap has_stderr es)"
  unfolding link_run_def by (rule link.foldl_inv) simp

text \<open>Once the exit is here a read never waits: it gives bytes, or says that the stream ended.\<close>

lemma read_after_exit:
  assumes "link_ok s" and "host_exit (host_end s) \<noteq> None" and "0 < room"
    and read: "session_read seam room st (host_end s) = (out, p)"
  shows "out = EndOfStream \<or> host_at st p - consumed st p < host_at st (host_end s) - consumed st (host_end s)"
proof -
  let ?p = "host_end s"
  have ok: "host_ok (agent_end s) (wrote s) ?p" and room: "room \<noteq> 0" using assms by (simp_all add: link_ok_def)
  have le: "consumed st ?p \<le> host_at st ?p" using ok by (simp add: host_ok_def)
  have ok': "host_ok (agent_end s) (wrote s) p" and exit': "host_exit p \<noteq> None"
    and at: "host_at st p = host_at st ?p"
    using session_read_ok [OF ok read] assms(2) by simp_all
  show ?thesis
  proof (cases "consumed st ?p < host_at st ?p")
    case False
    with le have eq: "consumed st ?p = host_at st ?p" by simp
    with read read_at_end [OF room, where p = ?p and st = st and seam = seam]
    have "out = at_end st ?p" by auto
    with at_end_after_exit [OF ok assms(2) eq] show ?thesis by simp
  next
    case True
    let ?r = "host_ring st ?p"
    define pos where "pos = max (consumed st ?p) (Ring.start ?r)"
    define data where "data = take room (drop (pos - Ring.start ?r) (bytes ?r))"
    note eq = session_read_eq [OF room True, of seam, unfolded Let_def, folded pos_def, folded data_def]
    show ?thesis
    proof (cases "pos < host_at st ?p")
      case reads: True
      then have "0 < length data"
        using assms(3) by (simp add: data_def host_at_def ring_end_def pos_def)
      moreover have "consumed st p = pos + length data" using read eq reads by auto
      moreover have "consumed st ?p \<le> pos" by (simp add: pos_def)
      ultimately show ?thesis using True unfolding at by linarith
    next
      case False
      with read eq have "out = at_end st p" "consumed st p = host_at st ?p" by auto
      with at_end_after_exit [OF ok' exit'] at show ?thesis by simp
    qed
  qed
qed

lemma reading_ends:
  assumes "link_ok s" and "host_exit (host_end s) \<noteq> None" and "0 < room"
    and "host_at st (host_end s) - consumed st (host_end s) < n"
  shows "EndOfStream \<in> set (reads (foldl link_step s (replicate n (HostReads seam room st))) st)"
  using assms
proof (induction n arbitrary: s)
  case (Suc n)
  obtain out p where read: "session_read seam room st (host_end s) = (out, p)"
    by (cases "session_read seam room st (host_end s)")
  let ?s = "link_step s (HostReads seam room st)"
  have s': "host_end ?s = p" "reads ?s st = reads s st @ [out]" by (simp_all add: read)
  have kept: "x \<in> set (reads t st) \<Longrightarrow> x \<in> set (reads (foldl link_step t (replicate m (HostReads seam room st))) st)"
    for x t m
    by (induction m arbitrary: t) (simp_all split: prod.split)
  show ?case
  proof (cases "out = EndOfStream")
    case True
    then have "EndOfStream \<in> set (reads ?s st)" using s' by simp
    from kept [OF this] show ?thesis by simp
  next
    case False
    have "host_ok (agent_end s) (wrote s) (host_end s)" using Suc.prems(1) by (simp add: link_ok_def)
    from session_read_ok [OF this read] have "host_exit (host_end ?s) \<noteq> None" using Suc.prems(2) s' by simp
    moreover have "host_at st (host_end ?s) - consumed st (host_end ?s) < n"
      using read_after_exit [OF Suc.prems(1-3) read] False Suc.prems(4) s' by simp
    moreover have "link_ok ?s" by (rule link_step_ok [OF Suc.prems(1)])
    ultimately show ?thesis using Suc.IH [of ?s] Suc.prems(3) by simp
  qed
qed simp

text \<open>A process that writes three bytes and ends, over a connection that breaks once.\<close>

definition sample_events :: "link_event list" where
  "sample_events =
     [HostGreets, AgentAttaches 0, Wrote Stdout [1, 2], Pump 0, Breaks 1 0, Wrote Stdout [3], StreamEnded Stdout,
      ProcessReaped (Some 0) None 7, HostGreets, AgentAttaches 1, Pump 0, Arrives 2, Arrives 2,
      HostReads 0 2 Stdout, HostReads 0 2 Stdout, HostReads 0 2 Stdout]"

lemma sample_run:
  "lost (host_end (link_run 8 False sample_events)) = 0"
  "\<not> overrun (link_run 8 False sample_events)"
  "host_exit (host_end (link_run 8 False sample_events)) \<noteq> None"
  "reads (link_run 8 False sample_events) Stdout = [Bytes 0 [1, 2], Bytes 2 [3], EndOfStream]"
  "wrote (link_run 8 False sample_events) Stdout = [1, 2, 3]"
  by (simp_all add: link_run_def sample_events_def link_start_def session_new_def pipe_new_def received_def ring_new_def
      push_def ring_end_def next_frames_def stream_frames_def read_from_def exit_frames_def attach_connection_def
      settle_def reaped_def agent_ends_def OUTPUT_CHUNK_BYTES_def HOST_OUTPUT_LIMIT_def deliver_def finish_pipe_def
      session_read.simps clamp_def slice_def cursor_set.simps set_host_ring.simps set_consumed.simps consume_to_def Let_def)

section \<open>Properties\<close>

text \<open>
  Safety: however the process's output, the pumping, the reconnects (of which several may be
  under way, and which may cut a connection anywhere), the arrivals and the reads interleave, every
  chunk a reader is given is what the process wrote at that offset, no read panics, no byte is given
  twice, and chunks come in the order of the stream.
\<close>

theorem session_reads_are_the_output:
  "case link_run cap has_stderr es of s \<Rightarrow>
     (\<forall>st i j p d q e. i < j \<and> j < length (reads s st) \<and> reads s st ! i = Bytes p d \<and> reads s st ! j = Bytes q e
        \<longrightarrow> p + length d \<le> q)
     \<and> (\<forall>st p d. Bytes p d \<in> set (reads s st)
        \<longrightarrow> p + length d \<le> length (wrote s st) \<and> d = take (length d) (drop p (wrote s st)))
     \<and> (\<forall>st. ReadPanic \<notin> set (reads s st))"
proof -
  define s where "s = link_run cap has_stderr es"
  have ok: "reads_ok s" using link_run_ok by (simp add: link_ok_def s_def)
  then have sorted: "sorted_wrt before (reads s st)" and each: "\<forall>x \<in> set (reads s st). faithful (wrote s st) x" for st
    by (simp_all add: reads_ok_def)
  have "p + length d \<le> q"
    if "i < j" "j < length (reads s st)" "reads s st ! i = Bytes p d" "reads s st ! j = Bytes q e" for st i j p d q e
    using sorted [of st] that by (metis before.simps(1) sorted_wrt_iff_nth_less)
  moreover have "span p d (wrote s st)" if "Bytes p d \<in> set (reads s st)" for st p d
    using each that by fastforce
  moreover have "ReadPanic \<notin> set (reads s st)" for st using each by fastforce
  ultimately show ?thesis unfolding s_def [symmetric] span_def by blast
qed

theorem session_reads_are_the_output_witness:
  "Bytes 2 [3] \<in> set (reads (link_run 8 False sample_events) Stdout)
   \<and> [3] = take (length [3 :: nat]) (drop 2 (wrote (link_run 8 False sample_events) Stdout))"
proof -
  have "Bytes 2 [3] \<in> set (reads (link_run 8 False sample_events) Stdout)"
    unfolding sample_run by simp
  with session_reads_are_the_output [of 8 False sample_events] show ?thesis by blast
qed

text \<open>
  Claim C16. Functional: if the agent had to drop nothing and the host never had to drop unread output,
  a reader has had exactly the first bytes of what the process wrote, in order and without a hole;
  and once it was told the stream ended, all of them.
\<close>

theorem session_reads_everything:
  assumes "lost (host_end (link_run cap has_stderr es)) = 0" and "\<not> overrun (link_run cap has_stderr es)"
  shows "case link_run cap has_stderr es of s \<Rightarrow>
     concat (map read_bytes (reads s st)) = take (consumed st (host_end s)) (wrote s st)
     \<and> (EndOfStream \<in> set (reads s st) \<longrightarrow> concat (map read_bytes (reads s st)) = wrote s st)"
proof -
  define s where "s = link_run cap has_stderr es"
  have ok: "link_ok s" using link_run_ok by (simp add: s_def)
  have all: "concat (map read_bytes (reads s st)) = take (consumed st (host_end s)) (wrote s st)"
    using ok assms by (simp add: link_ok_def complete_def s_def)
  moreover have "length (wrote s st) \<le> consumed st (host_end s)" if "EndOfStream \<in> set (reads s st)"
  proof -
    obtain e where e: "host_exit (host_end s) = Some e" "ends_get st (exit_ends e) \<le> consumed st (host_end s)"
    proof -
      have "reads_ok s" using ok by (simp add: link_ok_def)
      then show thesis using that \<open>EndOfStream \<in> set (reads s st)\<close> unfolding reads_ok_def by blast
    qed
    then have "exit (agent_end s) = Some e" using ok by (simp add: link_ok_def host_ok_def)
    then have "ends_get st (exit_ends e) = length (wrote s st)" using ok by (simp add: link_ok_def agent_ok_def)
    with e show ?thesis by simp
  qed
  ultimately show ?thesis unfolding s_def [symmetric] by simp
qed

theorem session_reads_everything_witness:
  "concat (map read_bytes (reads (link_run 8 False sample_events) Stdout)) = wrote (link_run 8 False sample_events) Stdout
   \<and> wrote (link_run 8 False sample_events) Stdout = [1, 2, 3]"
proof -
  have "EndOfStream \<in> set (reads (link_run 8 False sample_events) Stdout)" unfolding sample_run by simp
  with session_reads_everything [OF sample_run(1,2), of Stdout]
  have "concat (map read_bytes (reads (link_run 8 False sample_events) Stdout)) = wrote (link_run 8 False sample_events) Stdout"
    by blast
  with sample_run(5) show ?thesis by blast
qed

text \<open>
  Termination: once the exit has reached the host, whatever happened before, reading reaches
  the end of the stream: one read more than the bytes still ahead always suffices.
\<close>

theorem session_reading_ends:
  assumes "host_exit (host_end (link_run cap has_stderr es)) \<noteq> None" and "0 < room"
  shows "case link_run cap has_stderr es of s \<Rightarrow>
     EndOfStream \<in> set (reads
       (foldl link_step s (replicate (ring_end (host_ring st (host_end s)) - consumed st (host_end s) + 1)
          (HostReads seam room st))) st)"
  unfolding host_at_def [symmetric] by (rule reading_ends [OF link_run_ok assms]) simp

theorem session_reading_ends_witness:
  "case link_run 8 False sample_events of s \<Rightarrow>
     EndOfStream \<in> set (reads
       (foldl link_step s (replicate (ring_end (host_ring Stdout (host_end s)) - consumed Stdout (host_end s) + 1)
          (HostReads 0 4096 Stdout))) Stdout)"
  by (rule session_reading_ends [OF sample_run(3)]) simp

end
