(* ===== verification/SessionInput.thy ===== *)
theory SessionInput
  imports SessionWire
begin

text \<open>
  The input path of a remote session (\<^verbatim>\<open>send_input\<close> and \<^verbatim>\<open>connect_once\<close> in \<^verbatim>\<open>client/mod.rs\<close>, the
  input buffer of \<^verbatim>\<open>client/session.rs\<close>, \<^verbatim>\<open>write_input\<close> of \<^verbatim>\<open>agent/session.rs\<close>). A write is kept by offset
  until the agent confirms it; a send takes what is unsent, writes it to the connection it found, and
  marks it sent if that connection is still the current one.
\<close>

section \<open>The system\<close>






section \<open>The buffer\<close>







section \<open>The frames of one send\<close>





section \<open>The agent's port\<close>





section \<open>The invariant\<close>





















section \<open>Properties\<close>








end
