(* ===== verification/Scheduler.thy ===== *)
theory Scheduler
  imports Prelude "HOL-Library.Multiset"
begin

text \<open>
  \<^verbatim>\<open>src-tauri/local-model/src/scheduler.rs\<close>: the one thread that owns the local model and runs every
  request. The backend is a trait of \<^verbatim>\<open>engine.rs\<close>; with the loader and the prefix cache it is the
  record \<open>engine\<close> of functions on a world \<open>'w\<close>, an argument of every operation that calls it.
  A reply is a number, and calling it appends to \<open>answers\<close>. An \<open>expect\<close> that fails is \<open>None\<close>.
\<close>

section \<open>Requests\<close>

datatype lane = Foreground | Background

type_synonym token = nat
type_synonym reply = nat

record capacity =
  cap_slots :: nat
  cap_context :: nat

record 'i job =
  j_prefix :: "token list"
  j_input :: 'i
  j_positions :: nat
  j_key :: string
  j_max_new :: nat
  j_stop_when :: "token list \<Rightarrow> bool"
  j_lane :: lane
  j_reply :: reply

record 'i pending =
  prefix :: "token list"
  input :: 'i
  positions :: nat
  key :: string
  max_new :: nat
  stop_when :: "token list \<Rightarrow> bool"
  lane :: lane
  replies :: "reply list"

record 'i live =
  request :: "'i pending"
  generated :: "token list"

datatype 'i message =
    Generate "'i job"
  | Prefix "token list" reply
  | Prune "token list list"
  | Unload
  | Shutdown

text \<open>
  The queue limit, the loader, the prefix cache and the backend: their state is the world. \<open>greedy\<close> is \<open>greedy\<close>
  with the special tokens, \<open>is_stop\<close> tells the stop tokens.
\<close>

record ('w, 'i, 'p, 'g) engine =
  queue_limit :: nat
  load :: "'w \<Rightarrow> (string + capacity) \<times> 'w"
  drop_backend :: "'w \<Rightarrow> 'w"
  cache_get :: "token list \<Rightarrow> 'w \<Rightarrow> (string + 'p) \<times> 'w"
  cache_prune :: "token list list \<Rightarrow> 'w \<Rightarrow> 'w"
  cache_forget :: "'w \<Rightarrow> 'w"
  summary :: "'p \<Rightarrow> nat \<times> nat"
  admit :: "nat \<Rightarrow> 'p \<Rightarrow> 'i \<Rightarrow> 'w \<Rightarrow> (string + 'g) \<times> 'w"
  advance_batch :: "(nat \<times> token) list \<Rightarrow> 'w \<Rightarrow> (string + 'g list) \<times> 'w"
  release :: "nat \<Rightarrow> 'w \<Rightarrow> 'w"
  trim :: "'w \<Rightarrow> 'w"
  greedy :: "'g \<Rightarrow> token"
  is_stop :: "token \<Rightarrow> bool"

datatype failure = Busy | Stopped | TooLong | Failed string

type_synonym answer = "reply \<times> (failure + token list)"

record ('w, 'i) worker =
  world :: 'w
  backend :: bool
  capacity :: capacity
  queue :: "'i pending list"
  slots :: "'i live option list"
  trimmed :: bool
  unload_requested :: bool
  last_error :: "failure option"
  answers :: "answer list"
  prefix_answers :: "(reply \<times> (failure + nat \<times> nat)) list"

definition worker_new :: "'w \<Rightarrow> ('w, 'i) worker" where
  "worker_new w =
     \<lparr>world = w, backend = False, capacity = \<lparr>cap_slots = 0, cap_context = 0\<rparr>,
      queue = [], slots = [], trimmed = True, unload_requested = False, last_error = None,
      answers = [], prefix_answers = []\<rparr>"

definition same_request :: "'i pending \<Rightarrow> 'i job \<Rightarrow> bool" where
  "same_request p j \<longleftrightarrow> key p = j_key j \<and> prefix p = j_prefix j \<and> max_new p = j_max_new j"

definition finish :: "(failure + token list) \<Rightarrow> 'i pending \<Rightarrow> ('w, 'i) worker \<Rightarrow> ('w, 'i) worker" where
  "finish result p w = w\<lparr>answers := answers w @ map (\<lambda>r. (r, result)) (replies p)\<rparr>"

definition running :: "('w, 'i) worker \<Rightarrow> nat" where
  "running w = length (filter (\<lambda>slot. slot \<noteq> None) (slots w))"

definition busy :: "('w, 'i) worker \<Rightarrow> bool" where
  "busy w \<longleftrightarrow> running w > 0 \<or> queue w \<noteq> []"

section \<open>Queueing\<close>

fun first_index :: "('a \<Rightarrow> bool) \<Rightarrow> 'a list \<Rightarrow> nat option" where
  "first_index P [] = None"
| "first_index P (x # xs) = (if P x then Some 0 else map_option Suc (first_index P xs))"

fun last_index :: "('a \<Rightarrow> bool) \<Rightarrow> 'a list \<Rightarrow> nat option" where
  "last_index P [] = None"
| "last_index P (x # xs) =
     (case last_index P xs of Some i \<Rightarrow> Some (Suc i) | None \<Rightarrow> if P x then Some 0 else None)"

definition remove_at :: "nat \<Rightarrow> 'a list \<Rightarrow> 'a list" where
  "remove_at i xs = take i xs @ drop (Suc i) xs"

definition runs :: "'i job \<Rightarrow> 'i live option \<Rightarrow> bool" where
  "runs j slot \<longleftrightarrow> (case slot of Some l \<Rightarrow> same_request (request l) j | None \<Rightarrow> False)"

definition join_live :: "reply \<Rightarrow> 'i live option \<Rightarrow> 'i live option" where
  "join_live r slot = map_option (\<lambda>l. l\<lparr>request := (request l)\<lparr>replies := replies (request l) @ [r]\<rparr>\<rparr>) slot"

definition join_waiting :: "'i job \<Rightarrow> 'i pending \<Rightarrow> 'i pending" where
  "join_waiting j p = p\<lparr>replies := replies p @ [j_reply j],
     lane := (if j_lane j = Foreground then Foreground else lane p)\<rparr>"

definition pending_of :: "'i job \<Rightarrow> 'i pending" where
  "pending_of j = \<lparr>prefix = j_prefix j, input = j_input j, positions = j_positions j, key = j_key j,
     max_new = j_max_new j, stop_when = j_stop_when j, lane = j_lane j, replies = [j_reply j]\<rparr>"

definition enqueue :: "('w, 'i, 'p, 'g) engine \<Rightarrow> 'i job \<Rightarrow> ('w, 'i) worker \<Rightarrow> ('w, 'i) worker" where
  "enqueue e j w =
     (case first_index (runs j) (slots w) of
        Some i \<Rightarrow> w\<lparr>slots := (slots w)[i := join_live (j_reply j) (slots w ! i)]\<rparr>
      | None \<Rightarrow>
     (case first_index (\<lambda>p. same_request p j) (queue w) of
        Some i \<Rightarrow> w\<lparr>queue := (queue w)[i := join_waiting j (queue w ! i)]\<rparr>
      | None \<Rightarrow>
        if length (queue w) \<ge> queue_limit e then
          (case (case j_lane j of Foreground \<Rightarrow> last_index (\<lambda>p. lane p = Background) (queue w) | Background \<Rightarrow> None) of
             Some i \<Rightarrow>
               (let w' = finish (Inl Busy) (queue w ! i) (w\<lparr>queue := remove_at i (queue w)\<rparr>)
                in w'\<lparr>queue := queue w' @ [pending_of j]\<rparr>)
           | None \<Rightarrow> w\<lparr>answers := answers w @ [(j_reply j, Inl Busy)]\<rparr>)
        else w\<lparr>queue := queue w @ [pending_of j]\<rparr>))"

definition next_waiting :: "('w, 'i) worker \<Rightarrow> nat" where
  "next_waiting w = (case first_index (\<lambda>p. lane p = Foreground) (queue w) of Some i \<Rightarrow> i | None \<Rightarrow> 0)"

section \<open>Running\<close>

definition ensure_backend ::
  "('w, 'i, 'p, 'g) engine \<Rightarrow> ('w, 'i) worker \<Rightarrow> (string + unit) \<times> ('w, 'i) worker" where
  "ensure_backend e w =
     (if backend w then (Inr (), w) else
      case load e (world w) of
        (Inl error, world') \<Rightarrow> (Inl error, w\<lparr>world := world'\<rparr>)
      | (Inr cap, world') \<Rightarrow>
          (Inr (), w\<lparr>world := world', capacity := cap, slots := replicate (cap_slots cap) None, backend := True\<rparr>))"

definition finish_slot :: "failure \<Rightarrow> 'i live option \<Rightarrow> ('w, 'i) worker \<Rightarrow> ('w, 'i) worker" where
  "finish_slot error slot w = (case slot of Some l \<Rightarrow> finish (Inl error) (request l) w | None \<Rightarrow> w)"

definition fail_all :: "failure \<Rightarrow> ('w, 'i) worker \<Rightarrow> ('w, 'i) worker" where
  "fail_all error w =
     (let w = foldl (\<lambda>w p. finish (Inl error) p w) (w\<lparr>last_error := Some error\<rparr>) (queue w);
          w = foldl (\<lambda>w slot. finish_slot error slot w) w (slots w)
      in w\<lparr>queue := [], slots := map (\<lambda>_. None) (slots w)\<rparr>)"

definition accept_token ::
  "('w, 'i, 'p, 'g) engine \<Rightarrow> nat \<Rightarrow> token \<Rightarrow> ('w, 'i) worker \<Rightarrow> ('w, 'i) worker option" where
  "accept_token e slot token w =
     (if slot < length (slots w) then
        (case slots w ! slot of
           None \<Rightarrow> None
         | Some l \<Rightarrow>
             (let stop = is_stop e token;
                  l = (if stop then l else l\<lparr>generated := generated l @ [token]\<rparr>);
                  finished = (stop \<or> length (generated l) \<ge> max_new (request l) \<or> stop_when (request l) (generated l))
              in if finished
                 then Some (finish (Inr (generated l)) (request l)
                        (w\<lparr>slots := (slots w)[slot := None],
                           world := (if backend w then release e slot (world w) else world w)\<rparr>))
                 else Some (w\<lparr>slots := (slots w)[slot := Some l]\<rparr>)))
      else None)"

definition admit_one :: "('w, 'i, 'p, 'g) engine \<Rightarrow> ('w, 'i) worker \<Rightarrow> ('w, 'i) worker option" where
  "admit_one e w =
     (if queue w = [] then Some w else
      case ensure_backend e w of
        (Inl error, w) \<Rightarrow> Some (fail_all (Failed error) w)
      | (Inr _, w) \<Rightarrow>
     (case first_index (\<lambda>slot. slot = None) (slots w) of
        None \<Rightarrow> Some w
      | Some slot \<Rightarrow>
          if next_waiting w < length (queue w) then
            (let r = queue w ! next_waiting w;
                 w = w\<lparr>queue := remove_at (next_waiting w) (queue w)\<rparr>
             in if length (prefix r) + positions r + max_new r > cap_context (capacity w) \<or> positions r = 0
                then Some (finish (Inl TooLong) r w)
                else
                 (case cache_get e (prefix r) (world w) of
                    (Inl error, world') \<Rightarrow>
                      Some (finish (Inl (Failed error)) r
                        (w\<lparr>trimmed := False, world := world', last_error := Some (Failed error)\<rparr>))
                  | (Inr pre, world') \<Rightarrow>
                     (case admit e slot pre (input r) world' of
                        (Inr logits, world') \<Rightarrow>
                          accept_token e slot (greedy e logits)
                            (w\<lparr>trimmed := False, world := world',
                               slots := (slots w)[slot := Some \<lparr>request = r, generated = []\<rparr>]\<rparr>)
                      | (Inl error, world') \<Rightarrow>
                          Some (finish (Inl (Failed error)) r
                            (w\<lparr>trimmed := False, world := release e slot world', last_error := Some (Failed error)\<rparr>)))))
          else None))"

fun batch_from :: "nat \<Rightarrow> 'i live option list \<Rightarrow> (nat \<times> token) list option" where
  "batch_from i [] = Some []"
| "batch_from i (None # xs) = batch_from (Suc i) xs"
| "batch_from i (Some l # xs) =
     (if generated l = [] then None
      else map_option (\<lambda>rest. (i, last (generated l)) # rest) (batch_from (Suc i) xs))"

fun accept_all ::
  "('w, 'i, 'p, 'g) engine \<Rightarrow> ((nat \<times> token) \<times> 'g) list \<Rightarrow> ('w, 'i) worker \<Rightarrow> ('w, 'i) worker option" where
  "accept_all e [] w = Some w"
| "accept_all e (((slot, _), logits) # rest) w =
     Option.bind (accept_token e slot (greedy e logits) w) (accept_all e rest)"

fun fail_batch ::
  "('w, 'i, 'p, 'g) engine \<Rightarrow> failure \<Rightarrow> (nat \<times> token) list \<Rightarrow> ('w, 'i) worker \<Rightarrow> ('w, 'i) worker" where
  "fail_batch e error [] w = w"
| "fail_batch e error ((slot, _) # rest) w =
     fail_batch e error rest
       ((finish_slot error (slots w ! slot) w)
          \<lparr>slots := (slots w)[slot := None], world := release e slot (world w)\<rparr>)"

definition step_batch :: "('w, 'i, 'p, 'g) engine \<Rightarrow> ('w, 'i) worker \<Rightarrow> ('w, 'i) worker option" where
  "step_batch e w =
     Option.bind (batch_from 0 (slots w)) (\<lambda>batch.
       if batch = [] then Some w
       else if \<not> backend w then None
       else (case advance_batch e batch (world w) of
          (Inr logits, world') \<Rightarrow> accept_all e (zip batch logits) (w\<lparr>world := world'\<rparr>)
        | (Inl error, world') \<Rightarrow>
            Some ((fail_batch e (Failed error) batch (w\<lparr>world := world'\<rparr>))\<lparr>last_error := Some (Failed error)\<rparr>)))"

section \<open>The loop\<close>

definition unload :: "('w, 'i, 'p, 'g) engine \<Rightarrow> ('w, 'i) worker \<Rightarrow> ('w, 'i) worker" where
  "unload e w = w\<lparr>backend := False,
     world := cache_forget e (if backend w then drop_backend e (world w) else world w)\<rparr>"

definition go_idle :: "('w, 'i, 'p, 'g) engine \<Rightarrow> ('w, 'i) worker \<Rightarrow> ('w, 'i) worker" where
  "go_idle e w =
     (let w = (if trimmed w then w
               else w\<lparr>world := (if backend w then trim e (world w) else world w), trimmed := True\<rparr>)
      in if unload_requested w then (unload e w)\<lparr>unload_requested := False\<rparr> else w)"

definition shutdown :: "('w, 'i, 'p, 'g) engine \<Rightarrow> ('w, 'i) worker \<Rightarrow> ('w, 'i) worker" where
  "shutdown e w =
     (let w = fail_all Stopped w
      in w\<lparr>backend := False, world := (if backend w then drop_backend e (world w) else world w)\<rparr>)"

text \<open>\<open>None\<close> is the shutdown message.\<close>

definition handle :: "('w, 'i, 'p, 'g) engine \<Rightarrow> 'i message \<Rightarrow> ('w, 'i) worker \<Rightarrow> ('w, 'i) worker option" where
  "handle e m w =
     (case m of
        Generate j \<Rightarrow> Some (enqueue e j w)
      | Prefix tokens r \<Rightarrow>
          (let (result, w) =
             (case ensure_backend e w of
                (Inl error, w) \<Rightarrow> (Inl (Failed error), w)
              | (Inr _, w) \<Rightarrow>
                  (case cache_get e tokens (world w) of
                     (Inl error, world') \<Rightarrow> (Inl (Failed error), w\<lparr>world := world'\<rparr>)
                   | (Inr p, world') \<Rightarrow> (Inr (summary e p), w\<lparr>world := world'\<rparr>)));
             w = (case result of Inl error \<Rightarrow> w\<lparr>last_error := Some error\<rparr> | Inr _ \<Rightarrow> w)
           in Some (w\<lparr>prefix_answers := prefix_answers w @ [(r, result)], trimmed := False\<rparr>))
      | Prune keep \<Rightarrow> Some (if backend w then w\<lparr>world := cache_prune e keep (world w)\<rparr> else w)
      | Unload \<Rightarrow>
          Some (let w = w\<lparr>unload_requested := True\<rparr>
                in if \<not> busy w then (unload e w)\<lparr>unload_requested := False\<rparr> else w)
      | Shutdown \<Rightarrow> None)"

text \<open>
  What a turn of the loop finds on the channel: a message, nothing (with whether the model has been
  idle long enough to unload), or no sender left.
\<close>

datatype 'i inbox = Message "'i message" | Nothing bool | Disconnected

datatype 'a ended = Panicked | Ended 'a

definition loop_turn ::
  "('w, 'i, 'p, 'g) engine \<Rightarrow> ('w, 'i) worker \<Rightarrow> 'i inbox \<Rightarrow> ('w, 'i) worker ended + ('w, 'i) worker" where
  "loop_turn e w found =
     (let was_busy = busy w; w = (if was_busy then w else go_idle e w) in
      case found of
        Disconnected \<Rightarrow> Inl (Ended (shutdown e w))
      | Message m \<Rightarrow> (case handle e m w of Some w \<Rightarrow> Inr w | None \<Rightarrow> Inl (Ended (shutdown e w)))
      | Nothing long_idle \<Rightarrow>
          if was_busy
          then (case Option.bind (admit_one e w) (step_batch e) of Some w \<Rightarrow> Inr w | None \<Rightarrow> Inl Panicked)
          else Inr (if backend w \<and> long_idle then unload e w else w))"

end
