(* ===== verification/SchedulerProps.thy ===== *)
theory SchedulerProps
  imports Scheduler
begin

text \<open>
  What the scheduler promises: every request is answered exactly once, nothing runs past the
  context or its own limit, equal requests are merged, and the work that is queued always drains.
\<close>

section \<open>Lists and multisets\<close>

lemma mset_concat_update:
  "i < length xs \<Longrightarrow>
   mset (concat (map f (xs[i := y]))) + mset (f (xs ! i)) = mset (concat (map f xs)) + mset (f y)"
proof (induction xs arbitrary: i)
  case (Cons x xs)
  show ?case
  proof (cases i)
    case (Suc k)
    with Cons.prems Cons.IH [of k] show ?thesis by (simp add: ac_simps)
  qed simp
qed simp

lemma sum_list_map_update:
  "i < length xs \<Longrightarrow> sum_list (map f (xs[i := y])) + (f (xs ! i) :: nat) = sum_list (map f xs) + f y"
proof (induction xs arbitrary: i)
  case (Cons x xs)
  show ?case
  proof (cases i)
    case (Suc k)
    with Cons.prems Cons.IH [of k] show ?thesis by simp
  qed simp
qed simp

lemma mset_remove_at: "i < length xs \<Longrightarrow> add_mset (xs ! i) (mset (remove_at i xs)) = mset xs"
  by (metis remove_at_def append_Cons append_Nil id_take_nth_drop mset.simps(2) mset_append union_mset_add_mset_right)

lemma image_mset_tag [simp]: "image_mset fst (image_mset (\<lambda>r. (r, x)) M) = M"
  by (simp add: multiset.map_comp comp_def)

lemma length_remove_at: "i < length xs \<Longrightarrow> Suc (length (remove_at i xs)) = length xs"
  by (simp add: remove_at_def)

lemma set_remove_at: "set (remove_at i xs) \<subseteq> set xs"
  unfolding remove_at_def using set_take_subset set_drop_subset by force

lemma first_index_Some: "first_index P xs = Some i \<Longrightarrow> i < length xs \<and> P (xs ! i)"
  by (induction xs arbitrary: i) (auto split: if_splits)

lemma first_index_None: "first_index P xs = None \<longleftrightarrow> (\<forall>x \<in> set xs. \<not> P x)"
  by (induction xs) auto

lemma last_index_Some: "last_index P xs = Some i \<Longrightarrow> i < length xs \<and> P (xs ! i)"
  by (induction xs arbitrary: i) (auto split: option.splits if_splits)

lemma last_index_None: "last_index P xs = None \<longleftrightarrow> (\<forall>x \<in> set xs. \<not> P x)"
  by (induction xs) (auto split: option.splits)

section \<open>The requests that wait or run\<close>

definition held :: "'i live option \<Rightarrow> 'i pending list" where
  "held slot = (case slot of Some l \<Rightarrow> [request l] | None \<Rightarrow> [])"

lemma held_simps [simp]: "held None = []" "held (Some l) = [request l]"
  by (simp_all add: held_def)

definition requests :: "('w, 'i) worker \<Rightarrow> 'i pending multiset" where
  "requests w = mset (queue w) + mset (concat (map held (slots w)))"

definition ident :: "'i pending \<Rightarrow> string \<times> token list \<times> nat" where
  "ident p = (key p, prefix p, max_new p)"

text \<open>All replies ever answered or still owed.\<close>

definition owed :: "'i pending multiset \<Rightarrow> reply multiset" where
  "owed M = (\<Sum>p \<in># M. mset (replies p))"

definition books :: "('w, 'i) worker \<Rightarrow> reply multiset" where
  "books w = mset (map fst (answers w)) + owed (requests w)"

lemma owed_simps [simp]:
  "owed {#} = {#}" "owed (add_mset p M) = mset (replies p) + owed M" "owed (M + N) = owed M + owed N"
  by (simp_all add: owed_def)

definition single_idents :: "'i pending multiset \<Rightarrow> bool" where
  "single_idents M \<longleftrightarrow> (\<forall>x. count (image_mset ident M) x \<le> 1)"

lemma single_idents_less: "single_idents (M + N) \<Longrightarrow> single_idents M"
  unfolding single_idents_def by (metis add_leD1 count_union image_mset_union)

lemma single_idents_image: "image_mset ident M = image_mset ident N \<Longrightarrow> single_idents M = single_idents N"
  by (simp add: single_idents_def)

lemma single_idents_add:
  assumes "single_idents M" and "\<forall>p \<in># M. ident p \<noteq> ident q"
  shows "single_idents (add_mset q M)"
proof -
  have "count (image_mset ident M) (ident q) = 0"
    using assms(2) by (auto simp: count_eq_zero_iff)
  with assms(1) show ?thesis by (auto simp: single_idents_def)
qed

lemma same_request_ident: "same_request p j \<longleftrightarrow> ident p = (j_key j, j_prefix j, j_max_new j)"
  by (auto simp: same_request_def ident_def)

section \<open>The invariant\<close>

definition live_ok :: "('w, 'i, 'p, 'g) engine \<Rightarrow> nat \<Rightarrow> 'i live \<Rightarrow> bool" where
  "live_ok e context l \<longleftrightarrow>
     generated l \<noteq> [] \<and> length (generated l) < max_new (request l)
     \<and> length (prefix (request l)) + positions (request l) + max_new (request l) \<le> context
     \<and> 0 < positions (request l) \<and> (\<forall>t \<in> set (generated l). \<not> is_stop e t)"

text \<open>
  What the scheduler relies on: a step answers with one result per slot of the batch, as the doc of
  \<open>Backend::step\<close> says, and a loaded backend has a slot.
\<close>

definition loads_slots :: "('w, 'i, 'p, 'g) engine \<Rightarrow> bool" where
  "loads_slots e \<longleftrightarrow> (\<forall>world cap world'. load e world = (Inr cap, world') \<longrightarrow> 0 < cap_slots cap)"

definition honest :: "('w, 'i, 'p, 'g) engine \<Rightarrow> bool" where
  "honest e \<longleftrightarrow> loads_slots e
     \<and> (\<forall>batch world logits world'. advance_batch e batch world = (Inr logits, world') \<longrightarrow> length logits = length batch)"

definition slots_ok :: "('w, 'i, 'p, 'g) engine \<Rightarrow> ('w, 'i) worker \<Rightarrow> bool" where
  "slots_ok e w \<longleftrightarrow>
     (\<forall>l. Some l \<in> set (slots w) \<longrightarrow> live_ok e (cap_context (capacity w)) l \<and> backend w)
     \<and> (backend w \<longrightarrow> length (slots w) = cap_slots (capacity w)
          \<and> (loads_slots e \<longrightarrow> 0 < cap_slots (capacity w)))"

definition worker_ok :: "('w, 'i, 'p, 'g) engine \<Rightarrow> ('w, 'i) worker \<Rightarrow> bool" where
  "worker_ok e w \<longleftrightarrow> length (queue w) \<le> queue_limit e \<and> single_idents (requests w) \<and> slots_ok e w"

lemma running_zero: "running w = 0 \<longleftrightarrow> (\<forall>l. Some l \<notin> set (slots w))"
proof -
  have "running w = 0 \<longleftrightarrow> (\<forall>s \<in> set (slots w). s = None)"
    by (auto simp: running_def filter_empty_conv)
  then show ?thesis by (metis not_None_eq)
qed

lemma idle_requests: "\<not> busy w \<Longrightarrow> requests w = {#}"
proof -
  assume idle: "\<not> busy w"
  then have "\<forall>s \<in> set (slots w). s = None"
    by (auto simp: busy_def running_def filter_empty_conv)
  then have "concat (map held (slots w)) = []" by (induction "slots w") auto
  with idle show ?thesis by (simp add: requests_def busy_def)
qed

lemma worker_ok_new: "worker_ok e (worker_new wd)"
  by (simp add: worker_ok_def worker_new_def single_idents_def requests_def slots_ok_def)

section \<open>Changing one slot or the queue\<close>

lemma requests_slot:
  "i < length (slots w) \<Longrightarrow> slots w' = (slots w)[i := s] \<Longrightarrow> queue w' = queue w \<Longrightarrow>
   requests w' + mset (held (slots w ! i)) = requests w + mset (held s)"
  using mset_concat_update [of i "slots w" held s] by (simp add: requests_def ac_simps)

lemma finish_fields [simp]:
  "queue (finish r p w) = queue w" "slots (finish r p w) = slots w" "capacity (finish r p w) = capacity w"
  "backend (finish r p w) = backend w"
  "requests (finish r p w) = requests w" "world (finish r p w) = world w"
  "unload_requested (finish r p w) = unload_requested w"
  "image_mset fst (mset (answers (finish r p w))) = image_mset fst (mset (answers w)) + mset (replies p)"
  by (simp_all add: finish_def requests_def comp_def)

lemma books_finish: "books (finish r p w) = books w + mset (replies p)"
  by (simp add: books_def)

section \<open>Queueing a request\<close>

lemma enqueue_live:
  assumes i: "first_index (runs j) (slots w) = Some i"
  obtains l where "slots w ! i = Some l" "i < length (slots w)" "same_request (request l) j"
    "enqueue e j w = w\<lparr>slots := (slots w)[i := Some (l\<lparr>request := (request l)\<lparr>replies := replies (request l) @ [j_reply j]\<rparr>\<rparr>)]\<rparr>"
  using first_index_Some [OF i] i that
  by (cases "slots w ! i") (auto simp: runs_def enqueue_def join_live_def)

lemma books_enqueue: "books (enqueue e j w) = add_mset (j_reply j) (books w)"
proof (cases "first_index (runs j) (slots w)")
  case (Some i)
  from enqueue_live [OF this] obtain l where l: "slots w ! i = Some l" "i < length (slots w)"
    "enqueue e j w = w\<lparr>slots := (slots w)[i := Some (l\<lparr>request := (request l)\<lparr>replies := replies (request l) @ [j_reply j]\<rparr>\<rparr>)]\<rparr>"
    by metis
  have "requests (enqueue e j w) + {#request l#}
      = requests w + {#(request l)\<lparr>replies := replies (request l) @ [j_reply j]\<rparr>#}"
    using requests_slot [OF l(2), of "enqueue e j w"] l by simp
  then have "owed (requests (enqueue e j w) + {#request l#})
      = owed (requests w + {#(request l)\<lparr>replies := replies (request l) @ [j_reply j]\<rparr>#})" by simp
  then show ?thesis by (simp add: books_def l(3))
next
  case live: None
  show ?thesis
  proof (cases "first_index (\<lambda>p. same_request p j) (queue w)")
    case (Some i)
    then have i: "i < length (queue w)" using first_index_Some by blast
    have "add_mset (queue w ! i) (mset ((queue w)[i := join_waiting j (queue w ! i)]))
        = add_mset (join_waiting j (queue w ! i)) (mset (queue w))"
      using mset_concat_update [OF i, of "\<lambda>p. [p]" "join_waiting j (queue w ! i)"] by simp
    then have "owed (add_mset (queue w ! i) (mset ((queue w)[i := join_waiting j (queue w ! i)])))
        = owed (add_mset (join_waiting j (queue w ! i)) (mset (queue w)))" by simp
    then show ?thesis
      using live Some by (simp add: books_def enqueue_def requests_def join_waiting_def)
  next
    case waiting: None
    have evict: "mset (replies (queue w ! i)) + owed (mset (remove_at i (queue w))) = owed (mset (queue w))"
      if "i < length (queue w)" for i
      using mset_remove_at [OF that] by (metis owed_simps(2))
    show ?thesis
      using live waiting
      by (auto simp: enqueue_def books_def requests_def pending_of_def finish_def Let_def
          ac_simps evict [symmetric] dest!: last_index_Some split: option.split lane.split)
  qed
qed

lemma enqueue_frame:
  "slots_ok e w \<Longrightarrow> slots_ok e (enqueue e j w)" "length (queue w) \<le> queue_limit e \<Longrightarrow>
   length (queue (enqueue e j w)) \<le> queue_limit e"
  "backend (enqueue e j w) = backend w" "capacity (enqueue e j w) = capacity w" 
proof -
  show "slots_ok e (enqueue e j w)" if ok: "slots_ok e w"
  proof (cases "first_index (runs j) (slots w)")
    case (Some i)
    from enqueue_live [OF this] obtain l where l: "slots w ! i = Some l" "i < length (slots w)"
      "enqueue e j w = w\<lparr>slots := (slots w)[i := Some (l\<lparr>request := (request l)\<lparr>replies := replies (request l) @ [j_reply j]\<rparr>\<rparr>)]\<rparr>"
      by metis
    then have "Some l \<in> set (slots w)" by (metis nth_mem)
    with ok have "live_ok e (cap_context (capacity w)) l" "backend w" by (auto simp: slots_ok_def)
    with ok show ?thesis by (auto simp: slots_ok_def l(3) live_ok_def dest!: set_updateD)
  next
    case None
    with ok show ?thesis
      by (auto simp: enqueue_def slots_ok_def finish_def Let_def split: option.splits lane.splits)
  qed
  show "length (queue w) \<le> queue_limit e \<Longrightarrow> length (queue (enqueue e j w)) \<le> queue_limit e"
    by (auto simp: enqueue_def finish_def Let_def remove_at_def dest!: last_index_Some split: option.split lane.split)
qed (auto simp: enqueue_def finish_def Let_def split: option.split lane.split)

lemma single_idents_enqueue:
  assumes single: "single_idents (requests w)"
  shows "single_idents (requests (enqueue e j w))"
proof (cases "first_index (runs j) (slots w)")
  case (Some i)
  from enqueue_live [OF this] obtain l where l: "slots w ! i = Some l" "i < length (slots w)"
    "enqueue e j w = w\<lparr>slots := (slots w)[i := Some (l\<lparr>request := (request l)\<lparr>replies := replies (request l) @ [j_reply j]\<rparr>\<rparr>)]\<rparr>"
    by metis
  have "requests (enqueue e j w) + {#request l#}
      = requests w + {#(request l)\<lparr>replies := replies (request l) @ [j_reply j]\<rparr>#}"
    using requests_slot [OF l(2), of "enqueue e j w"] l by simp
  then have "image_mset ident (requests (enqueue e j w) + {#request l#})
      = image_mset ident (requests w + {#(request l)\<lparr>replies := replies (request l) @ [j_reply j]\<rparr>#})" by simp
  then show ?thesis using single single_idents_image by (auto simp: ident_def)
next
  case live: None
  show ?thesis
  proof (cases "first_index (\<lambda>p. same_request p j) (queue w)")
    case (Some i)
    then have i: "i < length (queue w)" using first_index_Some by blast
    have "add_mset (queue w ! i) (mset ((queue w)[i := join_waiting j (queue w ! i)]))
        = add_mset (join_waiting j (queue w ! i)) (mset (queue w))"
      using mset_concat_update [OF i, of "\<lambda>p. [p]" "join_waiting j (queue w ! i)"] by simp
    then have "image_mset ident (add_mset (queue w ! i) (mset ((queue w)[i := join_waiting j (queue w ! i)])))
        = image_mset ident (add_mset (join_waiting j (queue w ! i)) (mset (queue w)))" by simp
    then have "image_mset ident (requests (enqueue e j w)) = image_mset ident (requests w)"
      using live Some by (simp add: enqueue_def requests_def join_waiting_def ident_def)
    with single single_idents_image show ?thesis by blast
  next
    case waiting: None
    have "\<forall>p \<in># requests w. ident p \<noteq> ident (pending_of j)"
    proof
      fix p assume "p \<in># requests w"
      then consider "p \<in> set (queue w)" | l where "Some l \<in> set (slots w)" "p = request l"
        by (auto simp: requests_def held_def split: option.splits)
      then have "\<not> same_request p j"
        using waiting live unfolding first_index_None by cases (force simp: runs_def)+
      then show "ident p \<noteq> ident (pending_of j)"
        by (simp add: same_request_ident) (simp add: ident_def pending_of_def)
    qed
    then have add: "single_idents (add_mset (pending_of j) (requests w))"
      by (rule single_idents_add [OF single])
    have "\<exists>M. add_mset (pending_of j) (requests w) = requests (enqueue e j w) + M"
    proof -
      have "requests w = mset (remove_at i (queue w)) + mset (concat (map held (slots w))) + {#queue w ! i#}"
        if "i < length (queue w)" for i
        using mset_remove_at [OF that] by (simp add: requests_def ac_simps)
      then show ?thesis
        using live waiting
        by (auto simp: enqueue_def finish_def Let_def requests_def dest!: last_index_Some split: option.split lane.split)
    qed
    with add single_idents_less show ?thesis by metis
  qed
qed

lemma worker_ok_enqueue: "worker_ok e w \<Longrightarrow> worker_ok e (enqueue e j w)"
  using enqueue_frame(1,2) single_idents_enqueue unfolding worker_ok_def by blast

section \<open>Loading, failing and accepting tokens\<close>

lemma ensure_backend_cases:
  assumes "ensure_backend e w = (r, w')"
  obtains (ready) "r = Inr ()" "backend w" "w' = w"
  | (failed) error wd where "r = Inl error" "\<not> backend w" "w' = w\<lparr>world := wd\<rparr>"
  | (loaded) cap wd where "r = Inr ()" "\<not> backend w" "w' = w\<lparr>world := wd, capacity := cap,
       slots := replicate (cap_slots cap) None, backend := True\<rparr>" "load e (world w) = (Inr cap, wd)"
  using assms by (auto simp: ensure_backend_def split: if_splits prod.splits sum.splits)

lemma held_replicate: "concat (map held (replicate n None)) = []"
  by (induction n) simp_all

lemma held_clear [simp]: "concat (map (held \<circ> (\<lambda>_. None)) xs) = []"
  by (induction xs) simp_all

lemma held_all_None: "\<forall>s \<in> set xs. s = None \<Longrightarrow> concat (map held xs) = []"
  by (induction xs) auto

lemma ensure_backend_keeps:
  assumes "ensure_backend e w = (r, w')" and ok: "slots_ok e w"
  shows "requests w' = requests w" and "answers w' = answers w" and "queue w' = queue w"
    and "slots_ok e w'" and "r = Inr () \<Longrightarrow> backend w'"
    and "\<not> busy w \<Longrightarrow> \<not> busy w'"
proof -
  have none: "concat (map held (slots w)) = []" if "\<not> backend w"
  proof -
    have "\<forall>s \<in> set (slots w). s = None" using ok that by (metis not_None_eq slots_ok_def)
    then show "concat (map held (slots w)) = []" by (rule held_all_None)
  qed
  from assms(1) show "requests w' = requests w"
    by (cases rule: ensure_backend_cases) (simp_all add: requests_def none held_replicate)
  from assms(1) show "answers w' = answers w" "queue w' = queue w" 
    by (cases rule: ensure_backend_cases; simp)+
  from assms(1) ok show "slots_ok e w'"
    by (cases rule: ensure_backend_cases) (auto simp: slots_ok_def loads_slots_def)
  from assms(1) show "r = Inr () \<Longrightarrow> backend w'"
    by (cases rule: ensure_backend_cases) simp_all
  from assms(1) show "\<not> busy w'" if "\<not> busy w"
    using that by (cases rule: ensure_backend_cases) (simp_all add: busy_def running_def filter_empty_conv)
qed

lemma fold_finish:
  "foldl (\<lambda>w p. finish (Inl error) p w) w ps =
     w\<lparr>answers := answers w @ concat (map (\<lambda>p. map (\<lambda>r. (r, Inl error)) (replies p)) ps)\<rparr>"
  by (induction ps arbitrary: w) (simp_all add: finish_def)

lemma fold_finish_slot:
  "foldl (\<lambda>w s. finish_slot error s w) w xs =
     w\<lparr>answers := answers w @ concat (map (\<lambda>p. map (\<lambda>r. (r, Inl error)) (replies p)) (concat (map held xs)))\<rparr>"
proof (induction xs arbitrary: w)
  case (Cons x xs)
  then show ?case by (cases x) (simp_all add: finish_def finish_slot_def)
qed simp

lemma owed_answers:
  "image_mset fst (mset (concat (map (\<lambda>p. map (\<lambda>r. (r, x)) (replies p)) ps))) = owed (mset ps)"
  by (induction ps) (simp_all add: comp_def)

lemma fail_all_eq:
  "fail_all error w = w\<lparr>last_error := Some error, queue := [], slots := map (\<lambda>_. None) (slots w),
     answers := answers w
       @ concat (map (\<lambda>p. map (\<lambda>r. (r, Inl error)) (replies p)) (queue w @ concat (map held (slots w))))\<rparr>"
  by (simp add: fail_all_def fold_finish fold_finish_slot Let_def)

lemma fail_all_keeps:
  "books (fail_all error w) = books w" "requests (fail_all error w) = {#}" "\<not> busy (fail_all error w)"
  "slots_ok e w \<Longrightarrow> slots_ok e (fail_all error w)" "queue (fail_all error w) = []"
  "worker_ok e w \<Longrightarrow> worker_ok e (fail_all error w)"
proof -
  have held: "concat (map held (map (\<lambda>_. None) (slots w))) = []" by (rule held_all_None) simp
  show "books (fail_all error w) = books w"
    using held owed_answers [of "Inl error" "queue w @ concat (map held (slots w))"]
    by (simp add: books_def fail_all_eq requests_def)
  show req: "requests (fail_all error w) = {#}"
    using held by (simp add: fail_all_eq requests_def)
  show "\<not> busy (fail_all error w)"
    by (simp add: fail_all_eq busy_def running_def filter_empty_conv)
  show sl: "slots_ok e w \<Longrightarrow> slots_ok e (fail_all error w)"
    by (auto simp: fail_all_eq slots_ok_def)
  show empty: "queue (fail_all error w) = []" by (simp add: fail_all_eq)
  show "worker_ok e w \<Longrightarrow> worker_ok e (fail_all error w)"
    using sl req empty by (simp add: worker_ok_def single_idents_def)
qed

text \<open>Accepting a token only touches its own slot.\<close>

lemma accept_token_cases:
  assumes "slots w ! slot = Some l" and "slot < length (slots w)"
  obtains (finished) out wd where "accept_token e slot t w =
       Some (finish (Inr out) (request l) (w\<lparr>slots := (slots w)[slot := None], world := wd\<rparr>))"
  | (running) "accept_token e slot t w = Some (w\<lparr>slots := (slots w)[slot := Some (l\<lparr>generated := generated l @ [t]\<rparr>)]\<rparr>)"
      "\<not> is_stop e t" "length (generated l) + 1 < max_new (request l)"
proof (cases "is_stop e t")
  case True
  with assms show thesis by (intro finished [of "generated l"]) (simp add: accept_token_def)
next
  case False
  let ?g = "generated l @ [t]"
  show thesis
  proof (cases "length ?g \<ge> max_new (request l) \<or> stop_when (request l) ?g")
    case True
    with False assms show thesis by (intro finished [of ?g]) (simp add: accept_token_def)
  next
    case more: False
    with False assms show thesis by (intro running) (simp_all add: accept_token_def)
  qed
qed

lemma accept_token_keeps:
  assumes l: "slots w ! slot = Some l" "slot < length (slots w)"
    and acc: "accept_token e slot t w = Some w'"
  shows "books w' = books w" and "queue w' = queue w"
    and "capacity w' = capacity w" and "backend w' = backend w"
    and "\<exists>M. image_mset ident (requests w) = image_mset ident (requests w') + M"
    and "\<exists>s. slots w' = (slots w)[slot := s] \<and>
      (s = None \<or> (\<exists>l'. s = Some l' \<and> request l' = request l \<and> generated l' = generated l @ [t] \<and>
         \<not> is_stop e t \<and> length (generated l') < max_new (request l)))"
proof -
  note req = requests_slot [OF l(2)]
  have "books w' = books w \<and> (\<exists>M. image_mset ident (requests w) = image_mset ident (requests w') + M)"
    using l
  proof (cases rule: accept_token_cases [where e = e and t = t])
    case (finished out wd)
    with acc have w': "w' = finish (Inr out) (request l) (w\<lparr>slots := (slots w)[slot := None], world := wd\<rparr>)" by simp
    have "requests w' + {#request l#} = requests w"
      using req [of "w\<lparr>slots := (slots w)[slot := None], world := wd\<rparr>" None] l by (simp add: w')
    then have "books w' = books w" "image_mset ident (requests w) = image_mset ident (requests w') + {#ident (request l)#}"
      unfolding w' books_finish by (simp_all add: books_def) (metis add_mset_add_single owed_simps(2) union_commute, metis image_mset_add_mset)
    then show ?thesis by blast
  next
    case running
    with acc have w': "w' = w\<lparr>slots := (slots w)[slot := Some (l\<lparr>generated := generated l @ [t]\<rparr>)]\<rparr>" by simp
    have "requests w' = requests w"
      using req [of w' "Some (l\<lparr>generated := generated l @ [t]\<rparr>)"] l by (simp add: w')
    then show ?thesis by (simp add: books_def w')
  qed
  then show "books w' = books w" "\<exists>M. image_mset ident (requests w) = image_mset ident (requests w') + M" by blast+
  show "queue w' = queue w"  "capacity w' = capacity w" "backend w' = backend w"
    "\<exists>s. slots w' = (slots w)[slot := s] \<and>
      (s = None \<or> (\<exists>l'. s = Some l' \<and> request l' = request l \<and> generated l' = generated l @ [t] \<and>
         \<not> is_stop e t \<and> length (generated l') < max_new (request l)))"
    using l acc by (cases rule: accept_token_cases [where e = e and t = t]; auto)+
qed

section \<open>One turn of work\<close>

text \<open>How much a worker may still have to generate.\<close>

definition slot_work :: "'i live option \<Rightarrow> nat" where
  "slot_work slot = (case slot of Some l \<Rightarrow> max_new (request l) - length (generated l) | None \<Rightarrow> 0)"

definition work :: "('w, 'i) worker \<Rightarrow> nat" where
  "work w = sum_list (map (\<lambda>p. max_new p + 1) (queue w)) + sum_list (map slot_work (slots w))"

lemma single_idents_shrink:
  "image_mset ident M = image_mset ident N + K \<Longrightarrow> single_idents M \<Longrightarrow> single_idents N"
  unfolding single_idents_def by (metis add_leD1 count_union)

text \<open>The worker may have just put a request with nothing generated yet into the slot it accepts for.\<close>

lemma accept_token_ok:
  assumes l: "slots w ! slot = Some l" "slot < length (slots w)"
    and others: "\<forall>k l'. k < length (slots w) \<longrightarrow> k \<noteq> slot \<longrightarrow> slots w ! k = Some l' \<longrightarrow> live_ok e (cap_context (capacity w)) l'"
    and this_one: "length (prefix (request l)) + positions (request l) + max_new (request l) \<le> cap_context (capacity w)"
      "0 < positions (request l)" "\<forall>t \<in> set (generated l). \<not> is_stop e t"
    and b: "backend w" "length (slots w) = cap_slots (capacity w)" "loads_slots e \<longrightarrow> 0 < cap_slots (capacity w)"
    and q: "length (queue w) \<le> queue_limit e" "single_idents (requests w)"
  obtains w' where "accept_token e slot t w = Some w'" "worker_ok e w'" "books w' = books w"
    "queue w' = queue w" "capacity w' = capacity w" "backend w'" 
    "\<And>k. k \<noteq> slot \<Longrightarrow> slots w' ! k = slots w ! k" "length (slots w') = length (slots w)"
    "slot_work (slots w' ! slot) \<le> max_new (request l) - (length (generated l) + 1)"
proof -
  obtain w' where acc: "accept_token e slot t w = Some w'"
    using accept_token_cases [OF l, of e t] by metis
  note keep = accept_token_keeps [OF l acc]
  from keep(6) obtain s where s: "slots w' = (slots w)[slot := s]"
    "s = None \<or> (\<exists>l'. s = Some l' \<and> request l' = request l \<and> generated l' = generated l @ [t] \<and>
         \<not> is_stop e t \<and> length (generated l') < max_new (request l))" by blast
  have "slots_ok e w'"
    unfolding slots_ok_def
  proof (intro conjI allI impI)
    fix l' assume "Some l' \<in> set (slots w')"
    then obtain k where k: "k < length (slots w)" "slots w' ! k = Some l'"
      by (metis in_set_conv_nth length_list_update s(1))
    show "live_ok e (cap_context (capacity w')) l'"
    proof (cases "k = slot")
      case True
      with k s l have "s = Some l'" by simp
      with s(2) this_one show ?thesis unfolding keep(3) by (auto simp: live_ok_def)
    next
      case False
      with k s others show ?thesis by (simp add: keep)
    qed
  qed (use b s keep in simp_all)
  moreover have "single_idents (requests w')"
    using keep(5) q(2) single_idents_shrink by metis
  moreover have "slot_work s \<le> max_new (request l) - (length (generated l) + 1)"
    using s(2) by (auto simp: slot_work_def)
  ultimately show thesis
    using acc keep(1-4) s(1) b q l by (intro that [of w']) (simp_all add: worker_ok_def)
qed

lemma live_at: "slots_ok e w \<Longrightarrow> k < length (slots w) \<Longrightarrow> slots w ! k = Some l \<Longrightarrow>
    live_ok e (cap_context (capacity w)) l \<and> backend w \<and> length (slots w) = cap_slots (capacity w)
    \<and> (loads_slots e \<longrightarrow> 0 < cap_slots (capacity w))"
  unfolding slots_ok_def by (metis nth_mem)

lemma accept_all_ok:
  assumes "worker_ok e w" and "distinct (map (fst \<circ> fst) todo)"
    and "\<forall>((slot, t), g) \<in> set todo. slot < length (slots w) \<and> slots w ! slot \<noteq> None"
  shows "\<exists>w'. accept_all e todo w = Some w' \<and> worker_ok e w' \<and> books w' = books w \<and> queue w' = queue w
     \<and> capacity w' = capacity w \<and> length (slots w') = length (slots w)
     \<and> sum_list (map slot_work (slots w')) + length todo \<le> sum_list (map slot_work (slots w))"
  using assms
proof (induction todo arbitrary: w)
  case Nil
  then show ?case by simp
next
  case (Cons x todo)
  obtain slot t g where x: "x = ((slot, t), g)" by (metis prod.exhaust)
  with Cons.prems(3) obtain l where l: "slots w ! slot = Some l" "slot < length (slots w)" by auto
  have ok: "slots_ok e w" "length (queue w) \<le> queue_limit e" "single_idents (requests w)"
    using Cons.prems(1) by (auto simp: worker_ok_def)
  have live: "live_ok e (cap_context (capacity w)) l" "backend w" "length (slots w) = cap_slots (capacity w)"
    "loads_slots e \<longrightarrow> 0 < cap_slots (capacity w)"
    using live_at [OF ok(1) l(2,1)] by auto
  have others: "\<forall>k l'. k < length (slots w) \<longrightarrow> k \<noteq> slot \<longrightarrow> slots w ! k = Some l' \<longrightarrow>
      live_ok e (cap_context (capacity w)) l'"
    using live_at [OF ok(1)] by blast
  have a: "length (prefix (request l)) + positions (request l) + max_new (request l) \<le> cap_context (capacity w)"
    and b: "0 < positions (request l)" and c: "\<forall>t \<in> set (generated l). \<not> is_stop e t"
    using live(1) by (simp_all add: live_ok_def)
  obtain w1 where w1: "accept_token e slot (greedy e g) w = Some w1" "worker_ok e w1" "books w1 = books w"
    "queue w1 = queue w" "capacity w1 = capacity w" "\<And>k. k \<noteq> slot \<Longrightarrow> slots w1 ! k = slots w ! k"
    "length (slots w1) = length (slots w)"
    "slot_work (slots w1 ! slot) \<le> max_new (request l) - (length (generated l) + 1)"
    using accept_token_ok [OF l others a b c live(2,3,4) ok(2,3), where t = "greedy e g"] by blast
  have "slots w1 = (slots w)[slot := slots w1 ! slot]"
    using w1(6,7) l(2) by (intro nth_equalityI) (auto simp: nth_list_update)
  then have "sum_list (map slot_work (slots w1)) + slot_work (slots w ! slot)
      = sum_list (map slot_work (slots w)) + slot_work (slots w1 ! slot)"
    using sum_list_map_update [OF l(2), of slot_work "slots w1 ! slot"] by simp
  moreover have "slot_work (slots w1 ! slot) + 1 \<le> slot_work (slots w ! slot)"
  proof -
    have "slot_work (slots w ! slot) = max_new (request l) - length (generated l)"
      "length (generated l) < max_new (request l)"
      using live(1) l by (simp_all add: slot_work_def live_ok_def)
    with w1(8) show ?thesis by linarith
  qed
  ultimately have less: "sum_list (map slot_work (slots w1)) + 1 \<le> sum_list (map slot_work (slots w))" by linarith
  have "slot' < length (slots w1) \<and> slots w1 ! slot' \<noteq> None" if m: "((slot', t'), g') \<in> set todo" for slot' t' g'
  proof -
    have "slot' \<noteq> slot" using m Cons.prems(2) x by force
    moreover have "slot' < length (slots w) \<and> slots w ! slot' \<noteq> None" using m Cons.prems(3) by auto
    ultimately show ?thesis using w1(6,7) by simp
  qed
  then have "\<forall>((slot', t), g) \<in> set todo. slot' < length (slots w1) \<and> slots w1 ! slot' \<noteq> None" by blast
  moreover have "distinct (map (fst \<circ> fst) todo)" using Cons.prems(2) by (simp add: comp_def)
  ultimately obtain w' where w': "accept_all e todo w1 = Some w'" "worker_ok e w'" "books w' = books w1"
    "queue w' = queue w1" "capacity w' = capacity w1" "length (slots w') = length (slots w1)"
    "sum_list (map slot_work (slots w')) + length todo \<le> sum_list (map slot_work (slots w1))"
    using Cons.IH [OF w1(2)] by blast
  have "accept_all e (x # todo) w = Some w'" using w1(1) w'(1) by (simp add: x)
  with w' w1 less show ?case by simp
qed

lemma batch_from_ok:
  assumes "\<forall>l. Some l \<in> set xs \<longrightarrow> generated l \<noteq> []"
  obtains batch where "batch_from i xs = Some batch" "distinct (map fst batch)"
    "\<forall>(slot, t) \<in> set batch. i \<le> slot \<and> slot < i + length xs \<and> xs ! (slot - i) \<noteq> None"
    "length batch = length (filter (\<lambda>s. s \<noteq> None) xs)"
proof -
  have "\<exists>batch. batch_from i xs = Some batch \<and> distinct (map fst batch)
    \<and> (\<forall>(slot, t) \<in> set batch. i \<le> slot \<and> slot < i + length xs \<and> xs ! (slot - i) \<noteq> None)
    \<and> length batch = length (filter (\<lambda>s. s \<noteq> None) xs)"
    using assms
  proof (induction xs arbitrary: i)
    case (Cons x xs)
    from Cons.prems have "\<forall>l. Some l \<in> set xs \<longrightarrow> generated l \<noteq> []" by simp
    from Cons.IH [OF this, of "Suc i"] obtain batch where
      b: "batch_from (Suc i) xs = Some batch" "distinct (map fst batch)"
      "\<forall>(slot, t) \<in> set batch. Suc i \<le> slot \<and> slot < Suc i + length xs \<and> xs ! (slot - Suc i) \<noteq> None"
      "length batch = length (filter (\<lambda>s. s \<noteq> None) xs)"
      by blast
    have later: "i \<le> slot \<and> slot < i + length (x # xs) \<and> (x # xs) ! (slot - i) \<noteq> None \<and> slot \<noteq> i"
      if "(slot, t) \<in> set batch" for slot t
    proof -
      from that b(3) have "Suc i \<le> slot" "slot < Suc i + length xs" "xs ! (slot - Suc i) \<noteq> None" by auto
      moreover from this have "slot - i = Suc (slot - Suc i)" by simp
      ultimately show ?thesis by simp
    qed
    then have within: "\<forall>(slot, t) \<in> set batch. i \<le> slot \<and> slot < i + length (x # xs) \<and> (x # xs) ! (slot - i) \<noteq> None"
      by blast
    show ?case
    proof (cases x)
      case None
      with b within show ?thesis by (intro exI [of _ batch]) simp
    next
      case (Some l)
      with Cons.prems have "generated l \<noteq> []" by simp
      moreover have "i \<notin> fst ` set batch" using later by force
      ultimately show ?thesis
        using Some b within by (intro exI [of _ "(i, last (generated l)) # batch"]) simp
    qed
  qed simp
  with that show thesis by blast
qed

text \<open>A failing batch answers and frees exactly its slots.\<close>

lemma slot_work_pos: "slots_ok e w \<Longrightarrow> k < length (slots w) \<Longrightarrow> slots w ! k \<noteq> None \<Longrightarrow> 1 \<le> slot_work (slots w ! k)"
  using live_at [of e w k] by (auto simp: slot_work_def live_ok_def)

lemma fail_batch_keeps:
  assumes "slots_ok e w" and "distinct (map fst batch)"
    and "\<forall>(slot, t) \<in> set batch. slot < length (slots w) \<and> slots w ! slot \<noteq> None"
  shows "slots_ok e (fail_batch e error batch w) \<and> books (fail_batch e error batch w) = books w
    \<and> queue (fail_batch e error batch w) = queue w
    \<and> (\<exists>M. requests w = requests (fail_batch e error batch w) + M)
    \<and> sum_list (map slot_work (slots (fail_batch e error batch w))) + length batch
        \<le> sum_list (map slot_work (slots w))"
  using assms
proof (induction batch arbitrary: w)
  case (Cons x batch)
  obtain slot t where x: "x = (slot, t)" by (cases x)
  with Cons.prems have slot: "slot < length (slots w)" "slots w ! slot \<noteq> None" by auto
  then obtain l where l: "slots w ! slot = Some l" by blast
  define w1 where "w1 = (finish (Inl error) (request l) w)\<lparr>slots := (slots w)[slot := None], world := release e slot (world w)\<rparr>"
  have fields: "slots w1 = (slots w)[slot := None]" "queue w1 = queue w" 
    "capacity w1 = capacity w" "backend w1 = backend w"
    by (simp_all add: w1_def)
  have req: "requests w = add_mset (request l) (requests w1)"
    using requests_slot [OF slot(1) fields(1,2)] l by simp
  have "answers w1 = answers (finish (Inl error) (request l) w)" by (simp add: w1_def)
  then have books1: "books w1 = books w" using req by (simp add: books_def)
  have ok1: "slots_ok e w1"
    using Cons.prems(1) fields by (auto simp: slots_ok_def dest!: set_updateD)
  have "slot' < length (slots w1) \<and> slots w1 ! slot' \<noteq> None" if m: "(slot', t') \<in> set batch" for slot' t'
  proof -
    have "slot' \<noteq> slot" using m Cons.prems(2) x by force
    with m Cons.prems(3) fields(1) show ?thesis by fastforce
  qed
  then have rest: "\<forall>(slot', t) \<in> set batch. slot' < length (slots w1) \<and> slots w1 ! slot' \<noteq> None" by blast
  have "sum_list (map slot_work (slots w1)) + slot_work (slots w ! slot) = sum_list (map slot_work (slots w))"
    using sum_list_map_update [OF slot(1), of slot_work None] by (simp add: fields slot_work_def)
  then have less: "sum_list (map slot_work (slots w1)) + 1 \<le> sum_list (map slot_work (slots w))"
    using slot_work_pos [OF Cons.prems(1) slot] by linarith
  have step: "fail_batch e error (x # batch) w = fail_batch e error batch w1"
    by (simp add: x w1_def finish_slot_def l)
  have "distinct (map fst batch)" using Cons.prems(2) by simp
  from Cons.IH [OF ok1 this rest] req fields books1 less show ?case
    unfolding step by auto
qed (auto intro: exI [of _ "{#}"])

lemma running_work: "slots_ok e w \<Longrightarrow> running w \<le> sum_list (map slot_work (slots w))"
proof -
  assume ok: "slots_ok e w"
  have "length (filter (\<lambda>s. s \<noteq> None) xs) \<le> sum_list (map slot_work xs)"
    if "\<forall>s \<in> set xs. s \<noteq> None \<longrightarrow> 1 \<le> slot_work s" for xs :: "'b live option list"
    using that by (induction xs) auto
  moreover have "1 \<le> slot_work s" if "s \<in> set (slots w)" "s \<noteq> None" for s
    using that ok by (auto simp: slots_ok_def live_ok_def slot_work_def)
  ultimately show ?thesis by (simp add: running_def)
qed

lemma step_batch_ok:
  assumes ok: "worker_ok e w"
  obtains w' where "step_batch e w = Some w'" "worker_ok e w'" "books w' = books w" "queue w' = queue w"
    "sum_list (map slot_work (slots w')) \<le> sum_list (map slot_work (slots w))"
    "honest e \<Longrightarrow> 0 < running w \<Longrightarrow> sum_list (map slot_work (slots w')) < sum_list (map slot_work (slots w))"
proof -
  have sl: "slots_ok e w" using ok by (simp add: worker_ok_def)
  then have gen: "\<forall>l. Some l \<in> set (slots w) \<longrightarrow> generated l \<noteq> []" by (simp add: slots_ok_def live_ok_def)
  obtain batch where batch: "batch_from 0 (slots w) = Some batch" "distinct (map fst batch)"
    "\<forall>(slot, t) \<in> set batch. slot < length (slots w) \<and> slots w ! slot \<noteq> None" "length batch = running w"
    using batch_from_ok [OF gen, of 0] by (auto simp: running_def)
  show thesis
  proof (cases "batch = []")
    case True
    with batch ok show ?thesis by (intro that [of w]) (simp_all add: step_batch_def)
  next
    case False
    then obtain slot t where "(slot, t) \<in> set batch" by (metis list.set_intros(1) neq_Nil_conv prod.exhaust)
    with batch(3) live_at [OF sl] have b: "backend w" by fastforce
    have idx: "\<forall>(slot, t) \<in> set batch. slot < length (slots w)" using batch(3) by auto
    show ?thesis
    proof (cases "advance_batch e batch (world w)")
      case (Pair r wd)
      define w0 where "w0 = w\<lparr>world := wd\<rparr>"
      have ok0: "worker_ok e w0" "books w0 = books w" "queue w0 = queue w" "slots w0 = slots w" "requests w0 = requests w"
        using ok by (simp_all add: w0_def worker_ok_def slots_ok_def books_def requests_def)
      show ?thesis
      proof (cases r)
        case (Inr logits)
        have "map (fst \<circ> fst) (zip batch logits) = map fst (take (min (length batch) (length logits)) batch)"
          by (metis map_fst_zip_take map_map)
        then have "distinct (map (fst \<circ> fst) (zip batch logits))"
          using batch(2) by (simp add: take_map [symmetric])
        moreover have "\<forall>((slot, t), g) \<in> set (zip batch logits). slot < length (slots w0) \<and> slots w0 ! slot \<noteq> None"
          using batch(3) ok0(4) by (auto dest!: set_zip_leftD)
        ultimately obtain w' where w': "accept_all e (zip batch logits) w0 = Some w'" "worker_ok e w'" "books w' = books w0"
          "queue w' = queue w0"
          "sum_list (map slot_work (slots w')) + length (zip batch logits) \<le> sum_list (map slot_work (slots w0))"
          using accept_all_ok [OF ok0(1)] by blast
        have "length (zip batch logits) > 0" if "honest e"
        proof -
          have "length logits = length batch" using that Pair Inr unfolding honest_def by blast
          with False show ?thesis by simp
        qed
        moreover have "sum_list (map slot_work (slots w')) < sum_list (map slot_work (slots w))"
          if "0 < length (zip batch logits)"
          using w'(5) that unfolding ok0(4) by linarith
        ultimately have "honest e \<Longrightarrow> sum_list (map slot_work (slots w')) < sum_list (map slot_work (slots w))"
          by blast
        with w' ok0 show ?thesis
          using batch(1) False b Pair Inr by (intro that [of w']) (auto simp: step_batch_def w0_def)
      next
        case (Inl error)
        define w1 where "w1 = (fail_batch e (Failed error) batch w0)\<lparr>last_error := Some (Failed error)\<rparr>"
        have same: "slots_ok e w1 = slots_ok e (fail_batch e (Failed error) batch w0)"
          "books w1 = books (fail_batch e (Failed error) batch w0)"
          "requests w1 = requests (fail_batch e (Failed error) batch w0)"
          "queue w1 = queue (fail_batch e (Failed error) batch w0)"
          "slots w1 = slots (fail_batch e (Failed error) batch w0)"
          
          by (simp_all add: w1_def slots_ok_def books_def requests_def)
        have "slots_ok e w0" using ok0 by (simp add: worker_ok_def)
        moreover have "\<forall>(slot, t) \<in> set batch. slot < length (slots w0) \<and> slots w0 ! slot \<noteq> None"
          using batch(3) ok0(4) by simp
        ultimately have f: "slots_ok e w1" "books w1 = books w0" "queue w1 = queue w0" 
          "\<exists>M. requests w0 = requests w1 + M"
          "sum_list (map slot_work (slots w1)) + length batch \<le> sum_list (map slot_work (slots w0))"
          using fail_batch_keeps [of e w0 batch "Failed error"] batch(2)
          by (simp_all add: same)
        from f(4) ok0(1) have "single_idents (requests w1)"
          unfolding worker_ok_def by (metis single_idents_less)
        with f ok0 have "worker_ok e w1" by (simp add: worker_ok_def)
        moreover have "sum_list (map slot_work (slots w1)) < sum_list (map slot_work (slots w))"
        proof -
          have "0 < length batch" using False by simp
          with f(5) show ?thesis unfolding ok0(4) by linarith
        qed
        moreover have "step_batch e w = Some w1"
          using batch(1) False b Pair Inl by (simp add: step_batch_def w1_def w0_def)
        ultimately show ?thesis
          using f(1-3) ok0 by (intro that [of w1]) simp_all
      qed
    qed
  qed
qed

section \<open>Admission and the loop\<close>

lemma sum_list_remove_at:
  "i < length xs \<Longrightarrow> sum_list (map f (remove_at i xs)) + (f (xs ! i) :: nat) = sum_list (map f xs)"
proof -
  assume i: "i < length xs"
  have "sum_list (map f xs) = sum_list (map f (take i xs @ xs ! i # drop (Suc i) xs))"
    using id_take_nth_drop [OF i] by simp
  then show ?thesis by (simp add: remove_at_def)
qed

lemma next_waiting_less: "queue w \<noteq> [] \<Longrightarrow> next_waiting w < length (queue w)"
  by (auto simp: next_waiting_def dest: first_index_Some split: option.split)

lemma taken_ok:
  assumes ok: "worker_ok e w" and i: "i < length (queue w)"
    and w': "queue w' = remove_at i (queue w)" "slots w' = slots w" "capacity w' = capacity w" "backend w' = backend w"
       "answers w' = answers w"
  shows "worker_ok e w'" and "requests w = add_mset (queue w ! i) (requests w')"
    and "books w = books w' + mset (replies (queue w ! i))"
    and "sum_list (map (\<lambda>p. max_new p + 1) (queue w')) + max_new (queue w ! i) < sum_list (map (\<lambda>p. max_new p + 1) (queue w))"
proof -
  show req: "requests w = add_mset (queue w ! i) (requests w')"
    using mset_remove_at [OF i] by (simp add: requests_def w' flip: union_mset_add_mset_left)
  have "single_idents (requests w')"
    using ok req single_idents_less [of "requests w'" "{#queue w ! i#}"] by (simp add: worker_ok_def)
  moreover have "slots_ok e w'" using ok by (simp add: worker_ok_def slots_ok_def w')
  ultimately show "worker_ok e w'"
    using ok length_remove_at [OF i] by (simp add: worker_ok_def w')
  show "books w = books w' + mset (replies (queue w ! i))"
    using req by (simp add: books_def w')
  show "sum_list (map (\<lambda>p. max_new p + 1) (queue w')) + max_new (queue w ! i) < sum_list (map (\<lambda>p. max_new p + 1) (queue w))"
    using sum_list_remove_at [OF i, of "\<lambda>p. max_new p + 1"] by (simp add: w')
qed

lemma worker_ok_frame:
  assumes "worker_ok e w" and "queue w' = queue w" "slots w' = slots w" "capacity w' = capacity w"
    "backend w' = backend w" 
  shows "worker_ok e w'"
  using assms by (simp add: worker_ok_def slots_ok_def requests_def)

lemma ensure_backend_work:
  assumes "ensure_backend e w = (r, w')" and "slots_ok e w"
  shows "sum_list (map slot_work (slots w')) = sum_list (map slot_work (slots w))"
proof -
  have "\<forall>s \<in> set (slots w). s = None" if "\<not> backend w"
    using assms(2) that by (metis not_None_eq slots_ok_def)
  then have "map slot_work (slots w) = map (\<lambda>_. 0) (slots w)" if "\<not> backend w"
    using that by (intro map_cong) (auto simp: slot_work_def)
  with assms(1) show ?thesis
    by (cases rule: ensure_backend_cases) (simp_all add: slot_work_def sum_list_triv sum_list_replicate)
qed

text \<open>Admitting one request never fails, keeps the books, and takes its work off the queue.\<close>

lemma admit_one_ok:
  assumes ok: "worker_ok e w"
  obtains w' where "admit_one e w = Some w'" "worker_ok e w'" "books w' = books w"
    "work w' \<le> work w"
    "queue w \<noteq> [] \<Longrightarrow> work w' < work w \<or> (\<exists>w0. ensure_backend e w = (Inr (), w0) \<and> None \<notin> set (slots w0) \<and> w' = w0)"
proof -
  note give = that
  show thesis
  proof (cases "queue w = []")
  case True
  with ok show thesis by (intro give [of w]) (simp_all add: admit_one_def)
next
  case False
  have sl: "slots_ok e w" using ok by (simp add: worker_ok_def)
  obtain r w0 where eb: "ensure_backend e w = (r, w0)" by (cases "ensure_backend e w")
  note k = ensure_backend_keeps [OF eb sl]
  have ok0: "worker_ok e w0" using ok k by (simp add: worker_ok_def)
  have books0: "books w0 = books w" using k by (simp add: books_def)
  have work0: "work w0 = work w" using k(3) ensure_backend_work [OF eb sl] by (simp add: work_def)
  show thesis
  proof (cases r)
    case (Inl error)
    have "work (fail_all (Failed error) w0) = 0"
      by (simp add: work_def fail_all_eq slot_work_def comp_def sum_list_triv)
    moreover have "0 < work w" using False by (cases "queue w") (simp_all add: work_def)
    ultimately show ?thesis
      using False eb Inl fail_all_keeps(1) [of "Failed error" w0] fail_all_keeps(6) [OF ok0] books0
      by (intro give [of "fail_all (Failed error) w0"]) (auto simp: admit_one_def)
  next
    case (Inr u)
    have b: "backend w0" using k(5) Inr by simp
    show ?thesis
    proof (cases "first_index (\<lambda>slot. slot = None) (slots w0)")
      case None
      then have "None \<notin> set (slots w0)" by (auto simp: first_index_None)
      with False eb Inr None ok0 books0 work0 show ?thesis
        by (intro give [of w0]) (simp_all add: admit_one_def)
    next
      case (Some slot)
      then have slot: "slot < length (slots w0)" "slots w0 ! slot = None" using first_index_Some by blast+
      have nw: "next_waiting w0 < length (queue w0)" using next_waiting_less False k(3) by metis
      define r where "r = queue w0 ! next_waiting w0"
      define w1 where "w1 = w0\<lparr>queue := remove_at (next_waiting w0) (queue w0)\<rparr>"
      have w1: "queue w1 = remove_at (next_waiting w0) (queue w0)" "slots w1 = slots w0" "capacity w1 = capacity w0"
        "backend w1 = backend w0"  "answers w1 = answers w0"
        by (simp_all add: w1_def)
      note t = taken_ok [OF ok0 nw w1, folded r_def]
      have work1: "work w1 + max_new r < work w" using t(4) work0 by (simp add: work_def w1)
      have adm: "admit_one e w =
         (if length (prefix r) + positions r + max_new r > cap_context (capacity w1) \<or> positions r = 0
          then Some (finish (Inl TooLong) r w1)
          else (case cache_get e (prefix r) (world w1) of
             (Inl error, world') \<Rightarrow>
               Some (finish (Inl (Failed error)) r
                 (w1\<lparr>trimmed := False, world := world', last_error := Some (Failed error)\<rparr>))
           | (Inr pre, world') \<Rightarrow>
              (case admit e slot pre (input r) world' of
                 (Inr logits, world') \<Rightarrow>
                   accept_token e slot (greedy e logits)
                     (w1\<lparr>trimmed := False, world := world',
                        slots := (slots w1)[slot := Some \<lparr>request = r, generated = []\<rparr>]\<rparr>)
               | (Inl error, world') \<Rightarrow>
                   Some (finish (Inl (Failed error)) r
                     (w1\<lparr>trimmed := False, world := release e slot world', last_error := Some (Failed error)\<rparr>)))))"
        using False eb Inr Some nw by (simp add: admit_one_def Let_def r_def w1_def cong: prod.case_cong sum.case_cong)
      have answered: thesis
        if a: "admit_one e w = Some (finish x r w2)" "queue w2 = queue w1" "slots w2 = slots w1"
          "capacity w2 = capacity w1" "backend w2 = backend w1"  "answers w2 = answers w1"
        for x w2
      proof (rule give [OF a(1)])
        have "worker_ok e w2" by (rule worker_ok_frame [OF t(1)]) (use a in simp_all)
        then show "worker_ok e (finish x r w2)" by (rule worker_ok_frame) simp_all
        have "requests w2 = requests w1" using a by (simp add: requests_def)
        with t(3) books0 show "books (finish x r w2) = books w"
          unfolding books_finish by (simp add: books_def a)
        have less: "work (finish x r w2) < work w" using work1 by (simp add: work_def a)
        then show "work (finish x r w2) \<le> work w" by simp
        show "work (finish x r w2) < work w \<or>
            (\<exists>w0. ensure_backend e w = (Inr (), w0) \<and> None \<notin> set (slots w0) \<and> finish x r w2 = w0)"
          using less by blast
      qed
      show ?thesis
      proof (cases "length (prefix r) + positions r + max_new r > cap_context (capacity w1) \<or> positions r = 0")
        case True
        then show ?thesis by (intro answered [of "Inl TooLong" w1]) (simp_all add: adm)
      next
        case fits: False
        obtain c wc where c: "cache_get e (prefix r) (world w1) = (c, wc)" by fastforce
        show ?thesis
        proof (cases c)
          case (Inl error)
          with fits c show ?thesis
            by (intro answered [of "Inl (Failed error)" "w1\<lparr>trimmed := False, world := wc, last_error := Some (Failed error)\<rparr>"])
              (simp_all add: adm)
        next
          case (Inr pre)
          obtain d wd where d: "admit e slot pre (input r) wc = (d, wd)" by fastforce
          show ?thesis
          proof (cases d)
            case (Inl error)
            with fits c Inr d show ?thesis
              by (intro answered [of "Inl (Failed error)"
                  "w1\<lparr>trimmed := False, world := release e slot wd, last_error := Some (Failed error)\<rparr>"])
                (simp_all add: adm)
          next
            case (Inr logits)
            define l where "l = \<lparr>request = r, generated = []\<rparr>"
            define w2 where "w2 = w1\<lparr>trimmed := False, world := wd, slots := (slots w1)[slot := Some l]\<rparr>"
            have w2: "queue w2 = queue w1" "slots w2 = (slots w1)[slot := Some l]" "capacity w2 = capacity w1"
              "backend w2 = backend w1"  "answers w2 = answers w1"
              by (simp_all add: w2_def)
            have "slot < length (slots w1)" using slot(1) w1 by simp
            from requests_slot [OF this w2(2,1)] have req2: "requests w2 = requests w0"
              using t(2) slot(2) by (simp add: w1 l_def)
            have at: "slots w2 ! slot = Some l" "slot < length (slots w2)" using slot by (simp_all add: w2 w1)
            have sl1: "slots_ok e w1" using t(1) by (simp add: worker_ok_def)
            have others: "\<forall>k l'. k < length (slots w2) \<longrightarrow> k \<noteq> slot \<longrightarrow> slots w2 ! k = Some l' \<longrightarrow>
                live_ok e (cap_context (capacity w2)) l'"
              using live_at [OF sl1] by (simp add: w2)
            have len: "length (slots w2) = cap_slots (capacity w2)" "backend w2" "loads_slots e \<longrightarrow> 0 < cap_slots (capacity w2)"
              using sl1 b by (simp_all add: w2 w1 slots_ok_def)
            have q: "length (queue w2) \<le> queue_limit e" "single_idents (requests w2)"
              using t(1) ok0 req2 by (simp_all add: worker_ok_def w2)
            have l: "length (prefix (request l)) + positions (request l) + max_new (request l) \<le> cap_context (capacity w2)"
              "0 < positions (request l)" "\<forall>t \<in> set (generated l). \<not> is_stop e t"
              using fits by (simp_all add: l_def w2)
            obtain w3 where w3: "accept_token e slot (greedy e logits) w2 = Some w3" "worker_ok e w3" "books w3 = books w2"
              "queue w3 = queue w2" "\<And>k. k \<noteq> slot \<Longrightarrow> slots w3 ! k = slots w2 ! k" "length (slots w3) = length (slots w2)"
              "slot_work (slots w3 ! slot) \<le> max_new (request l) - (length (generated l) + 1)"
              using accept_token_ok [OF at others l len(2,1,3) q, where t = "greedy e logits"] by blast
            have "slots w3 = (slots w1)[slot := slots w3 ! slot]"
              using w3(5,6) at(2) by (intro nth_equalityI) (auto simp: nth_list_update w2)
            then have "sum_list (map slot_work (slots w3)) = sum_list (map slot_work (slots w1)) + slot_work (slots w3 ! slot)"
              using sum_list_map_update [of slot "slots w1" slot_work "slots w3 ! slot"] slot
              by (simp add: w1 slot_work_def)
            then have "work w3 \<le> work w1 + max_new r" using w3(4,7) by (simp add: work_def w2 l_def)
            then have less: "work w3 < work w" using work1 by linarith
            have "books w2 = books w0" using req2 by (simp add: books_def w2 w1)
            then show ?thesis
              using fits c Inr d \<open>c = Inr pre\<close> w3(1-3) books0 less
              by (intro give [of w3]) (simp_all add: adm w2_def l_def)
          qed
        qed
      qed
    qed
  qed
qed
qed

text \<open>A turn of work: never a panic, the books balance, and there is less left to do.\<close>

lemma work_turn_ok:
  assumes ok: "worker_ok e w"
  obtains w' where "Option.bind (admit_one e w) (step_batch e) = Some w'" "worker_ok e w'" "books w' = books w"
    "honest e \<Longrightarrow> busy w \<Longrightarrow> work w' < work w"
proof -
  obtain w1 where w1: "admit_one e w = Some w1" "worker_ok e w1" "books w1 = books w" "work w1 \<le> work w"
    "queue w \<noteq> [] \<Longrightarrow> work w1 < work w \<or> (\<exists>w0. ensure_backend e w = (Inr (), w0) \<and> None \<notin> set (slots w0) \<and> w1 = w0)"
    using admit_one_ok [OF ok] by blast
  obtain w2 where w2: "step_batch e w1 = Some w2" "worker_ok e w2" "books w2 = books w1" "queue w2 = queue w1"
    "sum_list (map slot_work (slots w2)) \<le> sum_list (map slot_work (slots w1))"
    "honest e \<Longrightarrow> 0 < running w1 \<Longrightarrow> sum_list (map slot_work (slots w2)) < sum_list (map slot_work (slots w1))"
    using step_batch_ok [OF w1(2)] by blast
  have le: "work w2 \<le> work w1" using w2(4,5) by (simp add: work_def)
  have "work w2 < work w" if "honest e" "busy w"
  proof (cases "work w1 < work w")
    case True
    with le show ?thesis by linarith
  next
    case False
    have "0 < running w1"
    proof (cases "queue w = []")
      case True
      then have "w1 = w" using w1(1) by (simp add: admit_one_def)
      with True \<open>busy w\<close> show ?thesis by (simp add: busy_def)
    next
      case nonempty: False
      with False w1(5) obtain eb: "ensure_backend e w = (Inr (), w1)" and full: "None \<notin> set (slots w1)" by blast
      have "slots_ok e w" using ok by (simp add: worker_ok_def)
      from eb have "slots w1 \<noteq> []"
      proof (cases rule: ensure_backend_cases)
        case ready
        with that(1) \<open>slots_ok e w\<close> show ?thesis by (auto simp: slots_ok_def honest_def)
      next
        case (loaded cap wd)
        from that(1) loaded(4) have "0 < cap_slots cap" unfolding honest_def loads_slots_def by blast
        with loaded(3) show ?thesis by simp
      qed simp
      then obtain s where "s \<in> set (slots w1)" by (meson list.set_sel(1))
      moreover from this full have "s \<noteq> None" by metis
      ultimately have "filter (\<lambda>s. s \<noteq> None) (slots w1) \<noteq> []" by (auto simp: filter_empty_conv)
      then show ?thesis by (simp add: running_def)
    qed
    with w2(4,6) that(1) have "work w2 < work w1" by (simp add: work_def)
    with w1(4) show ?thesis by linarith
  qed
  with w1 w2 that show thesis by simp
qed

lemma unload_ok: "worker_ok e w \<Longrightarrow> \<not> busy w \<Longrightarrow> worker_ok e (unload e w) \<and> books (unload e w) = books w \<and> \<not> busy (unload e w)"
proof -
  assume ok: "worker_ok e w" and idle: "\<not> busy w"
  then have "\<forall>l. Some l \<notin> set (slots w)" using running_zero [of w] by (simp add: busy_def)
  with ok idle show ?thesis
    by (auto simp: worker_ok_def slots_ok_def unload_def requests_def books_def busy_def running_def)
qed

lemma go_idle_ok:
  assumes ok: "worker_ok e w" and idle: "\<not> busy w"
  shows "worker_ok e (go_idle e w) \<and> books (go_idle e w) = books w \<and> \<not> busy (go_idle e w)"
proof -
  define w1 where "w1 = (if trimmed w then w
      else w\<lparr>world := (if backend w then trim e (world w) else world w), trimmed := True\<rparr>)"
  have w1: "worker_ok e w1" "books w1 = books w" "\<not> busy w1"
    using ok idle by (auto simp: w1_def worker_ok_def slots_ok_def requests_def books_def busy_def running_def)
  have "worker_ok e ((unload e w1)\<lparr>unload_requested := False\<rparr>) = worker_ok e (unload e w1)"
    "books ((unload e w1)\<lparr>unload_requested := False\<rparr>) = books (unload e w1)"
    "busy ((unload e w1)\<lparr>unload_requested := False\<rparr>) = busy (unload e w1)"
    by (simp_all add: worker_ok_def slots_ok_def requests_def books_def busy_def running_def)
  with w1 unload_ok [OF w1(1,3)] show ?thesis
    by (simp add: go_idle_def Let_def flip: w1_def)
qed

definition submitted :: "'i inbox \<Rightarrow> reply list" where
  "submitted m = (case m of Message (Generate j) \<Rightarrow> [j_reply j] | _ \<Rightarrow> [])"

lemma handle_ok:
  assumes ok: "worker_ok e w" and h: "handle e m w = Some w'"
  shows "worker_ok e w' \<and> books w' = books w + mset (submitted (Message m))"
proof (cases m)
  case (Generate j)
  with h show ?thesis using worker_ok_enqueue [OF ok, of j] books_enqueue [of e j w]
    by (auto simp: handle_def submitted_def)
next
  case (Prefix tokens r)
  have sl: "slots_ok e w" using ok by (simp add: worker_ok_def)
  obtain u w0 where eb: "ensure_backend e w = (u, w0)" by (cases "ensure_backend e w")
  note k = ensure_backend_keeps [OF eb sl]
  have "worker_ok e w0" "books w0 = books w" using ok k by (simp_all add: worker_ok_def books_def)
  moreover have "queue w' = queue w0 \<and> slots w' = slots w0 \<and> capacity w' = capacity w0 \<and> backend w' = backend w0
      \<and> answers w' = answers w0"
    using h eb Prefix by (auto simp: handle_def split: sum.splits prod.splits)
  ultimately show ?thesis
    using Prefix worker_ok_frame [of e w0 w'] by (simp add: books_def requests_def submitted_def)
next
  case (Prune keep)
  with h have "queue w' = queue w \<and> slots w' = slots w \<and> capacity w' = capacity w \<and> backend w' = backend w
      \<and> answers w' = answers w"
    by (cases "backend w") (auto simp: handle_def)
  then show ?thesis
    using Prune worker_ok_frame [OF ok, of w'] by (simp add: books_def requests_def submitted_def)
next
  case Unload
  have "worker_ok e (w\<lparr>unload_requested := b\<rparr>)" "books (w\<lparr>unload_requested := b\<rparr>) = books w"
    "busy (w\<lparr>unload_requested := b\<rparr>) = busy w" for b
    using ok by (simp_all add: worker_ok_def slots_ok_def requests_def books_def busy_def running_def)
  moreover have "worker_ok e (v\<lparr>unload_requested := False\<rparr>) = worker_ok e v"
    "books (v\<lparr>unload_requested := False\<rparr>) = books v" for v :: "('a, 'b) worker"
    by (simp_all add: worker_ok_def slots_ok_def requests_def books_def)
  ultimately show ?thesis
    using h Unload unload_ok [of e "w\<lparr>unload_requested := True\<rparr>"]
    by (auto simp: handle_def submitted_def Let_def split: if_splits)
qed (use h in \<open>simp add: handle_def\<close>)

lemma shutdown_ok: "books (shutdown e w) = books w \<and> requests (shutdown e w) = {#}"
proof -
  have "books (shutdown e w) = books (fail_all Stopped w)" "requests (shutdown e w) = requests (fail_all Stopped w)"
    by (simp_all add: shutdown_def Let_def books_def requests_def)
  then show ?thesis using fail_all_keeps(1) [of Stopped w] fail_all_keeps(2) [of Stopped w] by simp
qed

section \<open>Runs\<close>

fun serve ::
  "('w, 'i, 'p, 'g) engine \<Rightarrow> ('w, 'i) worker \<Rightarrow> 'i inbox list \<Rightarrow> ('w, 'i) worker ended + ('w, 'i) worker" where
  "serve e w [] = Inr w"
| "serve e w (m # ms) = (case loop_turn e w m of Inl r \<Rightarrow> Inl r | Inr w' \<Rightarrow> serve e w' ms)"

lemma loop_turn_ok:
  assumes ok: "worker_ok e w"
  shows "case loop_turn e w m of
      Inr w' \<Rightarrow> worker_ok e w' \<and> books w' = books w + mset (submitted m)
    | Inl (Ended w') \<Rightarrow> mset (map fst (answers w')) = books w
    | Inl Panicked \<Rightarrow> False"
proof -
  define w0 where "w0 = (if busy w then w else go_idle e w)"
  have w0: "worker_ok e w0" "books w0 = books w" "\<not> busy w \<Longrightarrow> \<not> busy w0"
    using ok go_idle_ok [OF ok] by (auto simp: w0_def)
  have down: "mset (map fst (answers (shutdown e w0))) = books w"
  proof -
    have "books (shutdown e w0) = books w0" "requests (shutdown e w0) = {#}" using shutdown_ok [of e w0] by auto
    then show ?thesis using w0(2) by (simp add: books_def)
  qed
  show ?thesis
  proof (cases m)
    case (Message msg)
    have "loop_turn e w m = (case handle e msg w0 of Some w' \<Rightarrow> Inr w' | None \<Rightarrow> Inl (Ended (shutdown e w0)))"
      by (simp add: loop_turn_def Let_def w0_def Message split: option.split)
    with Message handle_ok [OF w0(1), of msg] w0(2) down show ?thesis
      by (cases "handle e msg w0") simp_all
  next
    case (Nothing long_idle)
    show ?thesis
    proof (cases "busy w")
      case True
      obtain w' where "Option.bind (admit_one e w0) (step_batch e) = Some w'" "worker_ok e w'" "books w' = books w0"
        using work_turn_ok [OF w0(1)] by blast
      with True Nothing w0(2) show ?thesis
        by (simp add: loop_turn_def w0_def submitted_def)
    next
      case False
      with Nothing w0 unload_ok [OF w0(1) w0(3)] show ?thesis
        by (simp add: loop_turn_def Let_def w0_def submitted_def)
    qed
  qed (use down in \<open>simp add: loop_turn_def w0_def\<close>)
qed

interpretation scheduler: refusable_machine "\<lambda>w. \<exists>wd. w = worker_new wd" "loop_turn e" "worker_ok e" for e
proof unfold_locales
  fix w w' m assume "worker_ok e w" and "loop_turn e w m = Inr w'"
  with loop_turn_ok [of e w m] show "worker_ok e w'" by simp
qed (auto simp: worker_ok_new)

lemma serve_append:
  "serve e w (ms @ ns) = (case serve e w ms of Inl r \<Rightarrow> Inl r | Inr w' \<Rightarrow> serve e w' ns)"
  by (induction ms arbitrary: w) (auto split: sum.split)

lemma serve_inv: "worker_ok e w \<Longrightarrow> serve e w ms = Inr w' \<Longrightarrow> worker_ok e w'"
  by (induction ms arbitrary: w) (auto split: sum.splits dest: scheduler.inv_step)

lemma serve_ok: "serve e (worker_new wd) ms = Inr w \<Longrightarrow> worker_ok e w"
  by (rule serve_inv [OF worker_ok_new])

lemma serve_books:
  assumes "worker_ok e w"
  shows "case serve e w ms of
      Inr w' \<Rightarrow> books w' = books w + mset (concat (map submitted ms))
    | Inl (Ended w') \<Rightarrow> \<exists>read_ms unread. ms = read_ms @ unread
        \<and> mset (map fst (answers w')) = books w + mset (concat (map submitted read_ms))
    | Inl Panicked \<Rightarrow> False"
  using assms
proof (induction ms arbitrary: w)
  case (Cons m ms)
  note turn = loop_turn_ok [OF Cons.prems, of m]
  show ?case
  proof (cases "loop_turn e w m")
    case (Inl r)
    with turn show ?thesis by (auto split: ended.split intro: exI [of _ "[]"])
  next
    case (Inr w1)
    with turn have w1: "worker_ok e w1" "books w1 = books w + mset (submitted m)" by simp_all
    note IH = Cons.IH [OF w1(1)]
    show ?thesis
    proof (cases "serve e w1 ms")
      case (Inr w2)
      with IH w1(2) \<open>loop_turn e w m = Inr w1\<close> show ?thesis by (simp add: ac_simps)
    next
      case ended: (Inl r)
      with IH obtain w2 where r: "r = Ended w2" by (cases r) auto
      with IH ended obtain read_ms unread where "ms = read_ms @ unread"
        "mset (map fst (answers w2)) = books w1 + mset (concat (map submitted read_ms))" by auto
      then have "m # ms = (m # read_ms) @ unread"
        "mset (map fst (answers w2)) = books w + mset (concat (map submitted (m # read_ms)))"
        using w1(2) by (simp_all add: ac_simps)
      then have "\<exists>read_ms unread. m # ms = read_ms @ unread
          \<and> mset (map fst (answers w2)) = books w + mset (concat (map submitted read_ms))" by blast
      then show ?thesis using ended r \<open>loop_turn e w m = Inr w1\<close> by simp
    qed
  qed
qed simp

lemma drain:
  assumes "honest e" and "worker_ok e w"
  shows "\<exists>n \<le> work w. \<exists>w'. serve e w (replicate n (Nothing long_idle)) = Inr w' \<and> \<not> busy w' \<and> books w' = books w"
  using assms(2)
proof (induction "work w" arbitrary: w rule: less_induct)
  case less
  show ?case
  proof (cases "busy w")
    case False
    then show ?thesis by (intro exI [of _ 0]) simp
  next
    case True
    obtain w1 where w1: "Option.bind (admit_one e w) (step_batch e) = Some w1" "worker_ok e w1" "books w1 = books w"
      "work w1 < work w"
      using work_turn_ok [OF less.prems] assms(1) True by blast
    from less.hyps [OF w1(4,2)] obtain n w2 where n: "n \<le> work w1"
      "serve e w1 (replicate n (Nothing long_idle)) = Inr w2" "\<not> busy w2" "books w2 = books w1" by blast
    have "loop_turn e w (Nothing long_idle) = Inr w1" using True w1(1) by (simp add: loop_turn_def)
    then have "serve e w (replicate (Suc n) (Nothing long_idle)) = Inr w2" using n(2) by simp
    with n w1 show ?thesis by (intro exI [of _ "Suc n"]) simp
  qed
qed

section \<open>Properties\<close>


text \<open>
  Claim C15. Termination: the work that waits always drains. When nothing more arrives, a backend
  that has a slot and answers each step with one result per slot lets the loop reach idle, with
  every reply called, within a number of turns bounded by the tokens that may still be generated
  plus the requests that wait.
\<close>

theorem scheduler_drains:
  assumes "honest e" and "serve e (worker_new wd) ms = Inr w"
  shows "\<exists>n \<le> work w. \<exists>w'. serve e w (replicate n (Nothing long_idle)) = Inr w' \<and> \<not> busy w'
     \<and> mset (map fst (answers w')) = mset (concat (map submitted ms))"
proof -
  have ok: "worker_ok e w" by (rule serve_ok [OF assms(2)])
  obtain n w' where n: "n \<le> work w" "serve e w (replicate n (Nothing long_idle)) = Inr w'" "\<not> busy w'"
    "books w' = books w"
    using drain [OF assms(1) ok] by blast
  have "books w = mset (concat (map submitted ms))"
    using serve_books [OF worker_ok_new, where e = e and wd1 = wd and ms = ms] assms(2)
    by (simp add: books_def worker_new_def requests_def)
  with n idle_requests [OF n(3)] show ?thesis by (auto simp: books_def)
qed

text \<open>A backend of one slot that always produces the same token.\<close>

definition steady :: "(unit, unit, unit, unit) engine" where
  "steady = \<lparr>queue_limit = 4, load = \<lambda>w. (Inr \<lparr>cap_slots = 1, cap_context = 16\<rparr>, w), drop_backend = \<lambda>w. w,
     cache_get = \<lambda>_ w. (Inr (), w), cache_prune = \<lambda>_ w. w, cache_forget = \<lambda>w. w, summary = \<lambda>_. (0, 0),
     admit = \<lambda>_ _ _ w. (Inr (), w), advance_batch = \<lambda>batch w. (Inr (map (\<lambda>_. ()) batch), w),
     release = \<lambda>_ w. w, trim = \<lambda>w. w, greedy = \<lambda>_. 7, is_stop = \<lambda>_. False\<rparr>"

definition a_job :: "reply \<Rightarrow> unit job" where
  "a_job r = \<lparr>j_prefix = [1], j_input = (), j_positions = 2, j_key = ''k'', j_max_new = 2,
     j_stop_when = \<lambda>_. False, j_lane = Background, j_reply = r\<rparr>"

theorem scheduler_drains_witness:
  "\<exists>n w'. serve steady (worker_new ()) (map (\<lambda>r. Message (Generate (a_job r))) [5, 6] @ replicate n (Nothing False)) = Inr w'
     \<and> \<not> busy w' \<and> mset (map fst (answers w')) = {#5, 6#}"
proof -
  let ?ms = "map (\<lambda>r. Message (Generate (a_job r))) [5, 6]"
  have "honest steady" by (auto simp: honest_def loads_slots_def steady_def)
  moreover obtain w where w: "serve steady (worker_new ()) ?ms = Inr w"
    by (simp add: loop_turn_def handle_def Let_def)
  ultimately obtain n w' where n: "serve steady w (replicate n (Nothing False)) = Inr w'" "\<not> busy w'"
    "mset (map fst (answers w')) = mset (concat (map submitted ?ms))"
    using scheduler_drains [of steady "()" ?ms w False] by blast
  have "serve steady (worker_new ()) (?ms @ replicate n (Nothing False)) = Inr w'"
    by (simp only: serve_append w n(1) sum.case)
  moreover have "mset (concat (map submitted ?ms)) = {#5, 6#}" by (simp add: submitted_def a_job_def)
  ultimately show ?thesis using n by metis
qed

text \<open>
  Invariant: the queue never passes its limit, equal requests are never both waiting or
  running, and every running request fits the context with everything it may still generate, has
  generated something, less than its limit, and no stop token.
\<close>

theorem scheduler_invariant:
  assumes "serve e (worker_new wd) ms = Inr w"
  shows "length (queue w) \<le> queue_limit e \<and> (\<forall>x. count (image_mset ident (requests w)) x \<le> 1)
    \<and> (\<forall>l. Some l \<in> set (slots w) \<longrightarrow>
         length (prefix (request l)) + positions (request l) + max_new (request l) \<le> cap_context (capacity w)
         \<and> generated l \<noteq> [] \<and> length (generated l) < max_new (request l)
         \<and> (\<forall>t \<in> set (generated l). \<not> is_stop e t))"
  using serve_ok [OF assms] by (simp add: worker_ok_def single_idents_def slots_ok_def live_ok_def)

theorem scheduler_invariant_witness:
  "\<exists>w. serve steady (worker_new ()) [Message (Generate (a_job 5)), Message (Generate (a_job 6))] = Inr w
     \<and> length (queue w) \<le> 4 \<and> count (image_mset ident (requests w)) (''k'', [1], 2) \<le> 1"
proof -
  let ?ms = "[Message (Generate (a_job 5)), Message (Generate (a_job 6))]"
  obtain w where w: "serve steady (worker_new ()) ?ms = Inr w"
    by (simp add: loop_turn_def handle_def Let_def)
  have "queue_limit steady = 4" by (simp add: steady_def)
  with w scheduler_invariant [OF w] show ?thesis by metis
qed

end
