(* ===== verification/RunStream.thy ===== *)
theory RunStream
  imports Utf8
begin

text \<open>
  \<^verbatim>\<open>src-tauri/src/run_stream.rs\<close>: the hub that keeps one model run per conversation, its replay
  buffer, its subscriber and its settlement. A subscriber is a number; whether it accepts an event is
  an argument of the operation, and each operation returns what it delivered. The parts of an event the
  hub does not look at are values of a type \<open>'v\<close>, and \<open>json_len\<close> is the length of one's JSON, or
  what the code takes where it cannot be written.
\<close>

section \<open>Events\<close>

datatype 'v stream_event =
    DebugRequestBody nat 'v
  | TextDelta nat ustring
  | ReasoningStart nat nat 'v
  | ReasoningDelta nat nat ustring
  | ReasoningDone nat nat "nat option"
  | UsageUpdated nat 'v
  | UserInputReceived nat ustring ustring 'v
  | HostContextAdded nat 'v
  | ToolCallAnnounced nat ustring ustring ustring
  | ToolCallArgumentsReady nat ustring 'v
  | ToolApprovalRequested ustring 'v
  | ToolApprovalResolved ustring bool
  | ToolExecutionStarted nat ustring
  | SubagentEvent nat ustring "'v stream_event"
  | SubagentDelta nat ustring 'v ustring
  | WorkflowProgress nat ustring ustring 'v
  | ToolExecutionCompleted nat ustring 'v
  | ToolContextSettled nat 'v
  | HookExecutionStarted nat ustring 'v
  | HookExecutionCompleted nat ustring 'v
  | StreamRetryScheduled nat nat nat nat ustring
  | Ping
  | RunConcluded ustring

definition MAX_BUFFERED_EVENTS :: nat where
  "MAX_BUFFERED_EVENTS = 10000"

definition MAX_BUFFERED_BYTES :: nat where
  "MAX_BUFFERED_BYTES = 64 * 1024 * 1024"

definition DELTA_MERGE_LIMIT :: nat where
  "DELTA_MERGE_LIMIT = 16 * 1024"

definition EVENT_OVERHEAD :: nat where
  "EVENT_OVERHEAD = 160"

fun event_cost :: "('v \<Rightarrow> nat) \<Rightarrow> 'v stream_event \<Rightarrow> nat" where
  "event_cost json_len (TextDelta _ delta) = EVENT_OVERHEAD + byte_len delta"
| "event_cost json_len (ReasoningDelta _ _ delta) = EVENT_OVERHEAD + byte_len delta"
| "event_cost json_len (UserInputReceived _ _ user_text _) = EVENT_OVERHEAD + byte_len user_text"
| "event_cost json_len (HostContextAdded _ v) = EVENT_OVERHEAD + json_len v"
| "event_cost json_len (ToolCallArgumentsReady _ _ v) = EVENT_OVERHEAD + json_len v"
| "event_cost json_len (ToolExecutionCompleted _ _ v) = EVENT_OVERHEAD + json_len v"
| "event_cost json_len (SubagentDelta _ _ _ delta) = EVENT_OVERHEAD + byte_len delta"
| "event_cost json_len (SubagentEvent _ _ event) = EVENT_OVERHEAD + event_cost json_len event"
| "event_cost json_len _ = EVENT_OVERHEAD"

fun buffer_worthy :: "'v stream_event \<Rightarrow> bool" where
  "buffer_worthy (DebugRequestBody _ _) = False"
| "buffer_worthy Ping = False"
| "buffer_worthy _ = True"

section \<open>The replay buffer\<close>

text \<open>Oldest event first.\<close>

record 'v event_buffer =
  events :: "'v stream_event list"
  held_bytes :: nat
  dropped :: nat

definition buffer_new :: "'v event_buffer" where
  "buffer_new = \<lparr>events = [], held_bytes = 0, dropped = 0\<rparr>"

text \<open>What merging an event into the last one gives, and the bytes it adds.\<close>

fun merge_event :: "'v stream_event \<Rightarrow> 'v stream_event \<Rightarrow> ('v stream_event \<times> nat) option" where
  "merge_event (TextDelta rd delta) (TextDelta new_rd new_delta) =
     (if rd = new_rd \<and> byte_len delta + byte_len new_delta \<le> DELTA_MERGE_LIMIT
      then Some (TextDelta rd (delta @ new_delta), byte_len new_delta) else None)"
| "merge_event (ReasoningDelta rd item delta) (ReasoningDelta new_rd new_item new_delta) =
     (if rd = new_rd \<and> item = new_item \<and> byte_len delta + byte_len new_delta \<le> DELTA_MERGE_LIMIT
      then Some (ReasoningDelta rd item (delta @ new_delta), byte_len new_delta) else None)"
| "merge_event _ _ = None"

definition try_merge :: "'v stream_event \<Rightarrow> 'v event_buffer \<Rightarrow> ('v event_buffer \<times> nat) option" where
  "try_merge event b =
     (if events b = [] then None else
      map_option (\<lambda>(merged, n). (b\<lparr>events := butlast (events b) @ [merged]\<rparr>, n)) (merge_event (last (events b)) event))"

function evict :: "('v \<Rightarrow> nat) \<Rightarrow> 'v event_buffer \<Rightarrow> 'v event_buffer" where
  "evict json_len b =
     (if length (events b) > MAX_BUFFERED_EVENTS \<or> held_bytes b > MAX_BUFFERED_BYTES then
        (case events b of
           [] \<Rightarrow> b
         | oldest # rest \<Rightarrow>
             evict json_len (b\<lparr>events := rest, held_bytes := held_bytes b - event_cost json_len oldest,
               dropped := dropped b + 1\<rparr>))
      else b)"
  by pat_completeness auto
termination
  by (relation "measure (\<lambda>(json_len, b). length (events b))") auto

declare evict.simps [simp del]

definition push_event :: "('v \<Rightarrow> nat) \<Rightarrow> 'v stream_event \<Rightarrow> 'v event_buffer \<Rightarrow> 'v event_buffer" where
  "push_event json_len event b =
     (case try_merge event b of
        Some (b', merged) \<Rightarrow> b'\<lparr>held_bytes := held_bytes b' + merged\<rparr>
      | None \<Rightarrow>
          evict json_len (b\<lparr>events := events b @ [event], held_bytes := held_bytes b + event_cost json_len event\<rparr>))"

section \<open>The hub\<close>

datatype 'r settlement = Completed 'r | RunFailed ustring

record ('v, 'q, 'r) conversation_stream =
  request_id :: ustring
  request :: 'q
  buffer :: "'v event_buffer"
  subscriber :: "nat option"
  settlement :: "'r settlement option"

type_synonym ('v, 'q, 'r) hub = "(ustring \<times> ('v, 'q, 'r) conversation_stream) list"

type_synonym 'v delivery = "nat \<times> 'v stream_event"

datatype ('q, 'r) attach_outcome =
    Running ustring 'q nat
  | Finished ustring 'q "'r settlement"
  | NotFound

definition begin_run ::
  "ustring \<Rightarrow> ustring \<Rightarrow> 'q \<Rightarrow> nat \<Rightarrow> ('v, 'q, 'r) hub \<Rightarrow> ('v, 'q, 'r) hub" where
  "begin_run conversation rid req sub h =
     al_put conversation
       \<lparr>request_id = rid, request = req, buffer = buffer_new, subscriber = Some sub, settlement = None\<rparr> h"

definition live_request_id :: "ustring \<Rightarrow> ('v, 'q, 'r) hub \<Rightarrow> ustring option" where
  "live_request_id conversation h =
     (case map_of h conversation of
        None \<Rightarrow> None
      | Some s \<Rightarrow> if settlement s = None then Some (request_id s) else None)"

text \<open>The delivery to the subscriber; a failure detaches it.\<close>

definition hand_over ::
  "'v stream_event \<Rightarrow> bool \<Rightarrow> ('v, 'q, 'r) conversation_stream \<Rightarrow> ('v, 'q, 'r) conversation_stream \<times> 'v delivery list" where
  "hand_over event accepts s =
     (case subscriber s of
        None \<Rightarrow> (s, [])
      | Some n \<Rightarrow> if accepts then (s, [(n, event)]) else (s\<lparr>subscriber := None\<rparr>, []))"

definition publish ::
  "('v \<Rightarrow> nat) \<Rightarrow> ustring \<Rightarrow> 'v stream_event \<Rightarrow> bool \<Rightarrow> ('v, 'q, 'r) hub \<Rightarrow> ('v, 'q, 'r) hub \<times> 'v delivery list" where
  "publish json_len conversation event accepts h =
     (case map_of h conversation of
        None \<Rightarrow> (h, [])
      | Some s \<Rightarrow>
          (let s = (if buffer_worthy event then s\<lparr>buffer := push_event json_len event (buffer s)\<rparr> else s);
               (s, out) = hand_over event accepts s
           in (al_put conversation s h, out)))"

definition publish_live ::
  "('v \<Rightarrow> nat) \<Rightarrow> ustring \<Rightarrow> 'v stream_event \<Rightarrow> bool \<Rightarrow> ('v, 'q, 'r) hub
    \<Rightarrow> bool \<times> ('v, 'q, 'r) hub \<times> 'v delivery list" where
  "publish_live json_len conversation event accepts h =
     (case map_of h conversation of
        None \<Rightarrow> (False, h, [])
      | Some s \<Rightarrow>
          if settlement s \<noteq> None then (False, h, [])
          else
            (let s = (if buffer_worthy event then s\<lparr>buffer := push_event json_len event (buffer s)\<rparr> else s);
                 (s, out) = hand_over event accepts s
             in (True, al_put conversation s h, out)))"

definition settle_run ::
  "('v \<Rightarrow> nat) \<Rightarrow> ustring \<Rightarrow> ustring \<Rightarrow> 'r settlement \<Rightarrow> bool \<Rightarrow> ('v, 'q, 'r) hub
    \<Rightarrow> ('v, 'q, 'r) hub \<times> 'v delivery list" where
  "settle_run json_len conversation rid result accepts h =
     (case map_of h conversation of
        None \<Rightarrow> (h, [])
      | Some s \<Rightarrow>
          if request_id s \<noteq> rid then (h, [])
          else
            (let marker = RunConcluded rid;
                 s = s\<lparr>settlement := Some result, buffer := push_event json_len marker (buffer s)\<rparr>;
                 (s, out) = hand_over marker accepts s
             in (al_put conversation s h, out)))"

definition discard :: "ustring \<Rightarrow> ustring \<Rightarrow> ('v, 'q, 'r) hub \<Rightarrow> ('v, 'q, 'r) hub" where
  "discard conversation rid h =
     (case map_of h conversation of
        None \<Rightarrow> h
      | Some s \<Rightarrow> if request_id s = rid then al_del conversation h else h)"

text \<open>\<open>accepted\<close> is how many replayed events the new subscriber takes before it fails, if it does.\<close>

definition attach ::
  "ustring \<Rightarrow> nat \<Rightarrow> nat option \<Rightarrow> ('v, 'q, 'r) hub
    \<Rightarrow> ('q, 'r) attach_outcome \<times> ('v, 'q, 'r) hub \<times> 'v delivery list" where
  "attach conversation sub accepted h =
     (case map_of h conversation of
        None \<Rightarrow> (NotFound, h, [])
      | Some s \<Rightarrow>
          (case settlement s of
             Some result \<Rightarrow> (Finished (request_id s) (request s) result, al_del conversation h, [])
           | None \<Rightarrow>
               (let held = events (buffer s) in
                case accepted of
                  Some k \<Rightarrow>
                    if k < length held then (NotFound, h, map (Pair sub) (take k held))
                    else (Running (request_id s) (request s) (dropped (buffer s)),
                          al_put conversation (s\<lparr>subscriber := Some sub\<rparr>) h, map (Pair sub) held)
                | None \<Rightarrow>
                    (Running (request_id s) (request s) (dropped (buffer s)),
                     al_put conversation (s\<lparr>subscriber := Some sub\<rparr>) h, map (Pair sub) held))))"

definition take_settlement ::
  "ustring \<Rightarrow> ('v, 'q, 'r) hub \<Rightarrow> (ustring \<times> 'r settlement) option \<times> ('v, 'q, 'r) hub" where
  "take_settlement conversation h =
     (case map_of h conversation of
        None \<Rightarrow> (None, h)
      | Some s \<Rightarrow>
          (case settlement s of
             None \<Rightarrow> (None, h)
           | Some result \<Rightarrow> (Some (request_id s, result), al_del conversation h)))"

definition list_runs :: "('v, 'q, 'r) hub \<Rightarrow> (ustring \<times> ustring \<times> bool) list" where
  "list_runs h = map (\<lambda>(conversation, s). (conversation, request_id s, settlement s = None)) h"

section \<open>The buffer's bounds\<close>

definition costs :: "('v \<Rightarrow> nat) \<Rightarrow> 'v stream_event list \<Rightarrow> nat" where
  "costs json_len es = sum_list (map (event_cost json_len) es)"

fun delta_bytes :: "'v stream_event \<Rightarrow> nat" where
  "delta_bytes (TextDelta _ d) = byte_len d"
| "delta_bytes (ReasoningDelta _ _ d) = byte_len d"
| "delta_bytes _ = 0"

text \<open>Its bytes are what its events cost, and only merged text takes them past the budget.\<close>

definition buffer_ok :: "('v \<Rightarrow> nat) \<Rightarrow> 'v event_buffer \<Rightarrow> bool" where
  "buffer_ok json_len b \<longleftrightarrow>
     held_bytes b = costs json_len (events b) \<and> length (events b) \<le> MAX_BUFFERED_EVENTS
     \<and> (held_bytes b \<le> MAX_BUFFERED_BYTES
        \<or> events b \<noteq> [] \<and> delta_bytes (last (events b)) \<le> DELTA_MERGE_LIMIT
          \<and> held_bytes b \<le> MAX_BUFFERED_BYTES + delta_bytes (last (events b)))"

lemma costs_simps [simp]:
  "costs json_len [] = 0" "costs json_len (e # es) = event_cost json_len e + costs json_len es"
  "costs json_len (es @ fs) = costs json_len es + costs json_len fs"
  by (simp_all add: costs_def)

lemma merge_event_cost:
  "merge_event e f = Some (g, n) \<Longrightarrow> event_cost json_len g = event_cost json_len e + n
    \<and> delta_bytes g = delta_bytes e + n \<and> delta_bytes g \<le> DELTA_MERGE_LIMIT"
  by (cases "(e, f)" rule: merge_event.cases) (auto split: if_splits)

lemma evict_ok:
  assumes "held_bytes b = costs json_len (events b)"
  shows "\<exists>k. events (evict json_len b) = drop k (events b) \<and> k \<le> length (events b)
    \<and> dropped (evict json_len b) = dropped b + k
    \<and> held_bytes (evict json_len b) = costs json_len (events (evict json_len b))
    \<and> length (events (evict json_len b)) \<le> MAX_BUFFERED_EVENTS
    \<and> held_bytes (evict json_len b) \<le> MAX_BUFFERED_BYTES"
  using assms
proof (induction json_len b rule: evict.induct)
  case (1 json_len b)
  show ?case
  proof (cases "length (events b) > MAX_BUFFERED_EVENTS \<or> held_bytes b > MAX_BUFFERED_BYTES")
    case False
    with 1(2) show ?thesis by (subst (1 2 3 4 5 6) evict.simps) (intro exI [of _ 0], simp)
  next
    case True
    show ?thesis
    proof (cases "events b")
      case Nil
      with True 1(2) show ?thesis by simp
    next
      case (Cons oldest rest)
      let ?b = "b\<lparr>events := rest, held_bytes := held_bytes b - event_cost json_len oldest, dropped := dropped b + 1\<rparr>"
      have "evict json_len b = evict json_len ?b"
        using True Cons by (subst evict.simps) simp
      moreover have "held_bytes ?b = costs json_len (events ?b)" using 1(2) Cons by simp
      from 1(1) [OF True Cons this] obtain k where "events (evict json_len ?b) = drop k rest" "k \<le> length rest"
        "dropped (evict json_len ?b) = dropped b + 1 + k"
        "held_bytes (evict json_len ?b) = costs json_len (events (evict json_len ?b))"
        "length (events (evict json_len ?b)) \<le> MAX_BUFFERED_EVENTS"
        "held_bytes (evict json_len ?b) \<le> MAX_BUFFERED_BYTES"
        by auto
      ultimately show ?thesis using Cons by (intro exI [of _ "Suc k"]) simp
    qed
  qed
qed

section \<open>What the buffer holds of what was published\<close>

text \<open>Text by the character: merging changes only how it is cut into events.\<close>

fun atoms :: "'v stream_event \<Rightarrow> 'v stream_event list" where
  "atoms (TextDelta rd delta) = map (\<lambda>c. TextDelta rd [c]) delta"
| "atoms (ReasoningDelta rd item delta) = map (\<lambda>c. ReasoningDelta rd item [c]) delta"
| "atoms e = [e]"

definition all_atoms :: "'v stream_event list \<Rightarrow> 'v stream_event list" where
  "all_atoms es = concat (map atoms es)"

lemma all_atoms_simps [simp]:
  "all_atoms [] = []" "all_atoms (e # es) = atoms e @ all_atoms es" "all_atoms (es @ fs) = all_atoms es @ all_atoms fs"
  by (simp_all add: all_atoms_def)

lemma merge_event_atoms: "merge_event e f = Some (g, n) \<Longrightarrow> atoms g = atoms e @ atoms f"
  by (cases "(e, f)" rule: merge_event.cases) (auto split: if_splits)

text \<open>\<open>b\<close> holds the end of what was published, all of it if nothing was dropped.\<close>

definition ends_with :: "'v stream_event list \<Rightarrow> nat \<Rightarrow> 'v stream_event list \<Rightarrow> bool" where
  "ends_with published missing held \<longleftrightarrow>
     (\<exists>pre. all_atoms published = pre @ all_atoms held \<and> (missing = 0 \<longrightarrow> pre = []))"

lemma ends_with_snoc: "ends_with es n fs \<Longrightarrow> ends_with (es @ [e]) n (fs @ [e])"
  unfolding ends_with_def by fastforce

lemma push_event_ok:
  assumes "buffer_ok json_len b" and "ends_with es (dropped b) (events b)"
  shows "buffer_ok json_len (push_event json_len e b)
    \<and> ends_with (es @ [e]) (dropped (push_event json_len e b)) (events (push_event json_len e b))"
proof (cases "try_merge e b")
  case None
  let ?b = "b\<lparr>events := events b @ [e], held_bytes := held_bytes b + event_cost json_len e\<rparr>"
  have push: "push_event json_len e b = evict json_len ?b" using None by (simp add: push_event_def)
  have "held_bytes ?b = costs json_len (events ?b)" using assms(1) by (simp add: buffer_ok_def)
  from evict_ok [OF this] obtain k where k: "events (evict json_len ?b) = drop k (events b @ [e])"
      "dropped (evict json_len ?b) = dropped b + k"
      "held_bytes (evict json_len ?b) = costs json_len (events (evict json_len ?b))"
      "length (events (evict json_len ?b)) \<le> MAX_BUFFERED_EVENTS" "held_bytes (evict json_len ?b) \<le> MAX_BUFFERED_BYTES"
    by auto
  obtain pre where pre: "all_atoms es = pre @ all_atoms (events b)" "dropped b = 0 \<longrightarrow> pre = []"
    using assms(2) by (auto simp: ends_with_def)
  have "all_atoms (events b @ [e]) = all_atoms (take k (events b @ [e])) @ all_atoms (drop k (events b @ [e]))"
    unfolding all_atoms_simps(3) [symmetric] by (simp only: append_take_drop_id)
  then have "all_atoms (es @ [e]) = (pre @ all_atoms (take k (events b @ [e]))) @ all_atoms (drop k (events b @ [e]))"
    using pre(1) by simp
  moreover have "pre @ all_atoms (take k (events b @ [e])) = []" if "dropped b + k = 0"
    using pre(2) that by simp
  ultimately show ?thesis unfolding push ends_with_def k(1,2) using k(3-5) by (auto simp: buffer_ok_def k(1))
next
  case (Some p)
  then obtain g n where g: "events b \<noteq> []" "merge_event (last (events b)) e = Some (g, n)"
      "p = (b\<lparr>events := butlast (events b) @ [g]\<rparr>, n)"
    by (auto simp: try_merge_def split: if_splits)
  define es' where "es' = butlast (events b)"
  have ev: "events b = es' @ [last (events b)]" using g(1) by (simp add: es'_def)
  note cost = merge_event_cost [OF g(2), of json_len]
  have push: "push_event json_len e b = b\<lparr>events := es' @ [g], held_bytes := held_bytes b + n\<rparr>"
    using Some g(3) by (simp add: push_event_def es'_def)
  have "costs json_len (events b) = costs json_len es' + event_cost json_len (last (events b))"
    by (subst ev) simp
  moreover have "length (events b) = Suc (length es')" by (subst ev) simp
  ultimately have "buffer_ok json_len (push_event json_len e b)"
    using assms(1) cost unfolding push by (auto simp: buffer_ok_def)
  moreover have "all_atoms (es' @ [g]) = all_atoms (events b) @ atoms e"
    by (subst ev) (simp add: merge_event_atoms [OF g(2)])
  then have "ends_with (es @ [e]) (dropped b) (es' @ [g])"
    using assms(2) by (auto simp: ends_with_def)
  ultimately show ?thesis by (simp add: push)
qed

lemma merge_event_worthy: "merge_event e f = Some (g, n) \<Longrightarrow> buffer_worthy g"
  by (cases "(e, f)" rule: merge_event.cases) (auto split: if_splits)

lemma push_event_worthy:
  assumes "buffer_ok json_len b" and "\<forall>x \<in> set (events b). buffer_worthy x" and "buffer_worthy e"
  shows "\<forall>x \<in> set (events (push_event json_len e b)). buffer_worthy x"
proof (cases "try_merge e b")
  case None
  let ?b = "b\<lparr>events := events b @ [e], held_bytes := held_bytes b + event_cost json_len e\<rparr>"
  have "held_bytes ?b = costs json_len (events ?b)" using assms(1) by (simp add: buffer_ok_def)
  from evict_ok [OF this] obtain k where "events (push_event json_len e b) = drop k (events b @ [e])"
    using None by (auto simp: push_event_def)
  moreover have "set (drop k (events b @ [e])) \<subseteq> insert e (set (events b))"
    using set_drop_subset [of k "events b @ [e]"] by simp
  ultimately show ?thesis using assms(2,3) by auto
next
  case (Some p)
  then obtain g n where "merge_event (last (events b)) e = Some (g, n)"
      "events (push_event json_len e b) = butlast (events b) @ [g]"
    by (auto simp: try_merge_def push_event_def split: if_splits)
  with merge_event_worthy show ?thesis using assms(2) by (auto dest: in_set_butlastD)
qed

section \<open>The hub in use\<close>

text \<open>
  \<open>published\<close> is what the current run of a conversation has published for the buffer, \<open>given\<close> what a
  subscriber was given, \<open>told\<close> how many events it was told it had missed.
\<close>

record ('v, 'q, 'r) hub_world =
  the_hub :: "('v, 'q, 'r) hub"
  published :: "ustring \<Rightarrow> 'v stream_event list"
  given :: "nat \<Rightarrow> 'v stream_event list"
  told :: "nat \<Rightarrow> nat"
  next_subscriber :: nat

datatype ('v, 'q, 'r) hub_event =
    Begin ustring ustring 'q
  | Publish ustring "'v stream_event" bool
  | PublishLive ustring "'v stream_event" bool
  | Settle ustring ustring "'r settlement" bool
  | Discard ustring ustring
  | Attach ustring "nat option"
  | TakeSettlement ustring

definition deliver_to :: "'v delivery list \<Rightarrow> (nat \<Rightarrow> 'v stream_event list) \<Rightarrow> nat \<Rightarrow> 'v stream_event list" where
  "deliver_to out g n = g n @ map snd (filter (\<lambda>(m, e). m = n) out)"

fun hub_step :: "('v \<Rightarrow> nat) \<Rightarrow> ('v, 'q, 'r) hub_world \<Rightarrow> ('v, 'q, 'r) hub_event \<Rightarrow> ('v, 'q, 'r) hub_world" where
  "hub_step json_len w (Begin c rid req) =
     w\<lparr>the_hub := begin_run c rid req (next_subscriber w) (the_hub w), published := (published w)(c := []),
       next_subscriber := next_subscriber w + 1\<rparr>"
| "hub_step json_len w (Publish c e accepts) =
     (let (h, out) = publish json_len c e accepts (the_hub w)
      in w\<lparr>the_hub := h, given := deliver_to out (given w),
           published := (if buffer_worthy e then (published w)(c := published w c @ [e]) else published w)\<rparr>)"
| "hub_step json_len w (PublishLive c e accepts) =
     (let (done', h, out) = publish_live json_len c e accepts (the_hub w)
      in w\<lparr>the_hub := h, given := deliver_to out (given w),
           published := (if done' \<and> buffer_worthy e then (published w)(c := published w c @ [e]) else published w)\<rparr>)"
| "hub_step json_len w (Settle c rid result accepts) =
     (let (h, out) = settle_run json_len c rid result accepts (the_hub w)
      in w\<lparr>the_hub := h, given := deliver_to out (given w),
           published := (case map_of (the_hub w) c of
               Some s \<Rightarrow> if request_id s = rid then (published w)(c := published w c @ [RunConcluded rid]) else published w
             | None \<Rightarrow> published w)\<rparr>)"
| "hub_step json_len w (Discard c rid) = w\<lparr>the_hub := discard c rid (the_hub w)\<rparr>"
| "hub_step json_len w (Attach c accepted) =
     (let (outcome, h, out) = attach c (next_subscriber w) accepted (the_hub w)
      in w\<lparr>the_hub := h, given := deliver_to out (given w), next_subscriber := next_subscriber w + 1,
           told := (case outcome of Running _ _ n \<Rightarrow> (told w)(next_subscriber w := n) | _ \<Rightarrow> told w)\<rparr>)"
| "hub_step json_len w (TakeSettlement c) = w\<lparr>the_hub := snd (take_settlement c (the_hub w))\<rparr>"

definition hub_start :: "('v, 'q, 'r) hub_world" where
  "hub_start = \<lparr>the_hub = [], published = (\<lambda>_. []), given = (\<lambda>_. []), told = (\<lambda>_. 0), next_subscriber = 0\<rparr>"

definition hub_run :: "('v \<Rightarrow> nat) \<Rightarrow> ('v, 'q, 'r) hub_event list \<Rightarrow> ('v, 'q, 'r) hub_world" where
  "hub_run json_len es = foldl (hub_step json_len) hub_start es"

definition stream_ok :: "('v \<Rightarrow> nat) \<Rightarrow> 'v stream_event list \<Rightarrow> ('v, 'q, 'r) conversation_stream \<Rightarrow> bool" where
  "stream_ok json_len es s \<longleftrightarrow> buffer_ok json_len (buffer s) \<and> ends_with es (dropped (buffer s)) (events (buffer s))
     \<and> (\<forall>e \<in> set (events (buffer s)). buffer_worthy e)"

text \<open>A subscriber that is still attached has had everything since what it was told it missed.\<close>

definition up_to_date :: "('v, 'q, 'r) hub_world \<Rightarrow> ustring \<Rightarrow> nat \<Rightarrow> bool" where
  "up_to_date w c n \<longleftrightarrow> ends_with (published w c) (told w n) (filter buffer_worthy (given w n))"

definition world_ok :: "('v \<Rightarrow> nat) \<Rightarrow> ('v, 'q, 'r) hub_world \<Rightarrow> bool" where
  "world_ok json_len w \<longleftrightarrow>
     (\<forall>c s. map_of (the_hub w) c = Some s \<longrightarrow> stream_ok json_len (published w c) s
        \<and> (\<forall>n. subscriber s = Some n \<longrightarrow> n < next_subscriber w \<and> up_to_date w c n))
     \<and> (\<forall>c c' s s' n. map_of (the_hub w) c = Some s \<and> map_of (the_hub w) c' = Some s'
          \<and> subscriber s = Some n \<and> subscriber s' = Some n \<longrightarrow> c = c')
     \<and> (\<forall>n \<ge> next_subscriber w. given w n = [] \<and> told w n = 0)"

lemma world_stream:
  "world_ok json_len w \<Longrightarrow> map_of (the_hub w) c = Some s \<Longrightarrow> stream_ok json_len (published w c) s"
  by (simp add: world_ok_def)

lemma world_subscriber:
  "world_ok json_len w \<Longrightarrow> map_of (the_hub w) c = Some s \<Longrightarrow> subscriber s = Some n
    \<Longrightarrow> n < next_subscriber w \<and> up_to_date w c n"
  by (simp add: world_ok_def)

lemma world_okI:
  assumes "\<And>c s. map_of (the_hub w) c = Some s \<Longrightarrow> stream_ok json_len (published w c) s"
    and "\<And>c s n. map_of (the_hub w) c = Some s \<Longrightarrow> subscriber s = Some n \<Longrightarrow> n < next_subscriber w \<and> up_to_date w c n"
    and "\<And>c c' s s' n. map_of (the_hub w) c = Some s \<Longrightarrow> map_of (the_hub w) c' = Some s'
        \<Longrightarrow> subscriber s = Some n \<Longrightarrow> subscriber s' = Some n \<Longrightarrow> c = c'"
    and "\<And>n. next_subscriber w \<le> n \<Longrightarrow> given w n = [] \<and> told w n = 0"
  shows "world_ok json_len w"
  unfolding world_ok_def using assms by blast

lemma world_unique:
  "world_ok json_len w \<Longrightarrow> map_of (the_hub w) c = Some s \<Longrightarrow> map_of (the_hub w) c' = Some s'
    \<Longrightarrow> subscriber s = Some n \<Longrightarrow> subscriber s' = Some n \<Longrightarrow> c = c'"
  unfolding world_ok_def by blast

lemma world_fresh: "world_ok json_len w \<Longrightarrow> next_subscriber w \<le> n \<Longrightarrow> given w n = [] \<and> told w n = 0"
  unfolding world_ok_def by blast

lemma deliver_to_simps [simp]:
  "deliver_to [] g = g" "deliver_to [(n, e)] g = g(n := g n @ [e])"
  by (auto simp: deliver_to_def)

lemma publish_world_ok:
  assumes ok: "world_ok json_len w" and s: "map_of (the_hub w) c = Some s"
    and s1: "subscriber s1 = subscriber s"
      "buffer s1 = (if buffer_worthy e then push_event json_len e (buffer s) else buffer s)"
    and over: "hand_over e accepts s1 = (s2, out)"
    and w': "the_hub w' = al_put c s2 (the_hub w)" "given w' = deliver_to out (given w)" "told w' = told w"
      "next_subscriber w' = next_subscriber w"
      "published w' = (if buffer_worthy e then (published w)(c := published w c @ [e]) else published w)"
  shows "world_ok json_len w'"
proof -
  have keep: "stream_ok json_len (published w c) s" by (rule world_stream [OF ok s])
  have buf: "buffer s2 = buffer s1" using over by (auto simp: hand_over_def split: option.splits if_splits)
  have here: "stream_ok json_len (published w' c) s2"
    using keep push_event_ok [of json_len "buffer s" "published w c" e] push_event_worthy [of json_len "buffer s" e]
    by (simp add: stream_ok_def buf s1 w'(5))
  have other: "published w' c' = published w c'" if "c' \<noteq> c" for c' using that by (simp add: w'(5))
  have sub: "subscriber s2 = Some n \<Longrightarrow> subscriber s = Some n \<and> out = [(n, e)]" for n
    using over s1(1) by (auto simp: hand_over_def split: option.splits if_splits)
  have unsub: "subscriber s \<noteq> Some n \<Longrightarrow> given w' n = given w n" for n
    using over s1(1) by (auto simp: w'(2) hand_over_def split: option.splits if_splits)
  have map_of': "map_of (the_hub w') d = (if d = c then Some s2 else map_of (the_hub w) d)" for d
    by (simp add: w'(1))
  have old: "\<exists>t'. map_of (the_hub w) d = Some t' \<and> subscriber t' = Some n"
    if "map_of (the_hub w') d = Some t" "subscriber t = Some n" for d t n
    using that s sub by (auto simp: map_of' split: if_splits)
  show ?thesis
  proof (rule world_okI)
    fix d t assume "map_of (the_hub w') d = Some t"
    then show "stream_ok json_len (published w' d) t"
      using here other [of d] world_stream [OF ok, of d] by (cases "d = c") (auto simp: map_of')
  next
    fix d t n assume t: "map_of (the_hub w') d = Some t" "subscriber t = Some n"
    show "n < next_subscriber w' \<and> up_to_date w' d n"
    proof (cases "d = c")
      case True
      with t have n: "subscriber s2 = Some n" by (simp add: map_of')
      have "n < next_subscriber w \<and> up_to_date w c n" using world_subscriber [OF ok s] sub [OF n] by simp
      then show ?thesis
        using sub [OF n] ends_with_snoc [of "published w c" "told w n" "filter buffer_worthy (given w n)" e] True
        by (simp add: up_to_date_def w')
    next
      case False
      with t have t': "map_of (the_hub w) d = Some t" by (simp add: map_of')
      have "subscriber s \<noteq> Some n" using world_unique [OF ok s t' _ t(2)] False by blast
      then show ?thesis
        using world_subscriber [OF ok t' t(2)] unsub other [OF False] by (simp add: up_to_date_def w'(3,4))
    qed
  next
    fix d d' t t' n
    assume "map_of (the_hub w') d = Some t" "map_of (the_hub w') d' = Some t'" "subscriber t = Some n" "subscriber t' = Some n"
    with old [of d t n] old [of d' t' n] show "d = d'" using world_unique [OF ok] by blast
  next
    fix n assume n: "next_subscriber w' \<le> n"
    then have "subscriber s \<noteq> Some n" using world_subscriber [OF ok s] by (fastforce simp: w'(4))
    then show "given w' n = [] \<and> told w' n = 0"
      using unsub world_fresh [OF ok, of n] n by (simp add: w'(3,4))
  qed
qed

lemma drop_stream_ok:
  assumes "world_ok json_len w" and "the_hub w' = al_del c (the_hub w)" "published w' = published w" "given w' = given w"
    "told w' = told w" "next_subscriber w' = next_subscriber w"
  shows "world_ok json_len w'"
proof -
  have old: "map_of (the_hub w') d = Some s \<Longrightarrow> map_of (the_hub w) d = Some s" for d s
    by (simp add: assms(2) split: if_splits)
  note ok = assms(1)
  have up: "up_to_date w' d n = up_to_date w d n" for d n
    by (simp add: up_to_date_def assms(3-5))
  show ?thesis
  proof (rule world_okI, unfold assms(3-6) up)
    fix d s assume "map_of (the_hub w') d = Some s"
    then show "stream_ok json_len (published w d) s" by (rule world_stream [OF ok old])
  next
    fix d s n assume "map_of (the_hub w') d = Some s" "subscriber s = Some n"
    then show "n < next_subscriber w \<and> up_to_date w d n" by (rule world_subscriber [OF ok old])
  next
    fix d d' s s' n
    assume "map_of (the_hub w') d = Some s" "map_of (the_hub w') d' = Some s'" "subscriber s = Some n" "subscriber s' = Some n"
    then show "d = d'" by (rule world_unique [OF ok old old])
  qed (rule world_fresh [OF ok])
qed

lemma replace_stream_ok:
  assumes ok: "world_ok json_len w" and s: "stream_ok json_len (published w' c) s" "subscriber s = Some (next_subscriber w)"
    and w': "the_hub w' = al_put c s (the_hub w)" "next_subscriber w' = next_subscriber w + 1"
    and up: "up_to_date w' c (next_subscriber w)"
    and same: "\<And>d. d \<noteq> c \<Longrightarrow> published w' d = published w d"
      "\<And>n. n \<noteq> next_subscriber w \<Longrightarrow> given w' n = given w n \<and> told w' n = told w n"
  shows "world_ok json_len w'"
proof -
  have map_of': "map_of (the_hub w') d = (if d = c then Some s else map_of (the_hub w) d)" for d
    by (simp add: w'(1))
  have old: "subscriber t \<noteq> Some (next_subscriber w)" if "map_of (the_hub w) d = Some t" for d t
    using world_subscriber [OF ok that] by fastforce
  show ?thesis
  proof (rule world_okI)
    fix d t assume "map_of (the_hub w') d = Some t"
    then show "stream_ok json_len (published w' d) t"
      using s(1) same(1) [of d] world_stream [OF ok, of d] by (cases "d = c") (auto simp: map_of')
  next
    fix d t n assume t: "map_of (the_hub w') d = Some t" "subscriber t = Some n"
    show "n < next_subscriber w' \<and> up_to_date w' d n"
    proof (cases "d = c")
      case True
      with t s up show ?thesis by (simp add: map_of' w'(2))
    next
      case False
      with t have t': "map_of (the_hub w) d = Some t" by (simp add: map_of')
      have "n \<noteq> next_subscriber w" using old [OF t'] t(2) by blast
      then show ?thesis
        using world_subscriber [OF ok t' t(2)] same(1) [OF False] same(2) [of n] by (simp add: up_to_date_def w'(2))
    qed
  next
    fix d d' t t' n
    assume t: "map_of (the_hub w') d = Some t" "map_of (the_hub w') d' = Some t'" "subscriber t = Some n" "subscriber t' = Some n"
    show "d = d'"
      using t s(2) old world_unique [OF ok, of d t d' t' n] by (cases "d = c"; cases "d' = c") (auto simp: map_of')
  next
    fix n assume "next_subscriber w' \<le> n"
    then show "given w' n = [] \<and> told w' n = 0"
      using same(2) [of n] world_fresh [OF ok, of n] by (simp add: w'(2))
  qed
qed

lemma fresh_delivery:
  "deliver_to (map (Pair n) es) g m = (if m = n then g n @ es else g m)"
  by (simp add: deliver_to_def comp_def filter_map case_prod_beta)

lemma new_subscriber_ok:
  assumes ok: "world_ok json_len w" and w': "the_hub w' = the_hub w" "published w' = published w" "told w' = told w"
    "next_subscriber w' = next_subscriber w + 1"
    and same: "\<And>n. n \<noteq> next_subscriber w \<Longrightarrow> given w' n = given w n"
  shows "world_ok json_len w'"
proof (rule world_okI, unfold w'(1,2,3))
  fix c s n assume s: "map_of (the_hub w) c = Some s" "subscriber s = Some n"
  note sub = world_subscriber [OF ok s]
  then have "given w' n = given w n" by (intro same) simp
  with sub show "n < next_subscriber w' \<and> up_to_date w' c n" by (simp add: up_to_date_def w')
next
  fix n assume "next_subscriber w' \<le> n"
  then show "given w' n = [] \<and> told w n = 0"
    using same [of n] world_fresh [OF ok, of n] by (simp add: w'(4))
qed (use world_stream [OF ok] world_unique [OF ok] in blast)+

lemma step_world_ok:
  assumes ok: "world_ok json_len w"
  shows "world_ok json_len (hub_step json_len w e)"
proof (cases e)
  case (Begin c rid req)
  have "ends_with [] 0 []" by (simp add: ends_with_def)
  then show ?thesis
    using Begin world_fresh [OF ok, of "next_subscriber w"]
    by (intro replace_stream_ok [OF ok, where c = c and s = "\<lparr>request_id = rid, request = req, buffer = buffer_new,
        subscriber = Some (next_subscriber w), settlement = None\<rparr>"])
      (simp_all add: begin_run_def stream_ok_def buffer_ok_def buffer_new_def up_to_date_def)
next
  case (Publish c ev accepts)
  show ?thesis
  proof (cases "map_of (the_hub w) c")
    case None
    with Publish have eq: "the_hub (hub_step json_len w e) = the_hub w" "given (hub_step json_len w e) = given w"
      "told (hub_step json_len w e) = told w" "next_subscriber (hub_step json_len w e) = next_subscriber w"
      "\<And>d. d \<noteq> c \<Longrightarrow> published (hub_step json_len w e) d = published w d"
      by (simp_all add: publish_def)
    show ?thesis
    proof (rule world_okI, unfold eq(1-4))
      fix d s assume s: "map_of (the_hub w) d = Some s"
      with None have d: "d \<noteq> c" by auto
      show "stream_ok json_len (published (hub_step json_len w e) d) s"
        using world_stream [OF ok s] by (simp only: eq(5) [OF d])
    next
      fix d s n assume s: "map_of (the_hub w) d = Some s" "subscriber s = Some n"
      with None have d: "d \<noteq> c" by auto
      show "n < next_subscriber w \<and> up_to_date (hub_step json_len w e) d n"
        using world_subscriber [OF ok s] by (simp only: up_to_date_def eq(5) [OF d] eq(2,3))
    qed (use world_unique [OF ok] world_fresh [OF ok] in blast)+
  next
    case (Some s)
    define s1 where "s1 = (if buffer_worthy ev then s\<lparr>buffer := push_event json_len ev (buffer s)\<rparr> else s)"
    obtain s2 out where over: "hand_over ev accepts s1 = (s2, out)" by (cases "hand_over ev accepts s1")
    show ?thesis
      by (rule publish_world_ok [OF ok Some _ _ over])
        (use Publish Some over in \<open>simp_all add: publish_def s1_def [symmetric] Let_def\<close>, simp_all add: s1_def)
  qed
next
  case (PublishLive c ev accepts)
  show ?thesis
  proof (cases "map_of (the_hub w) c")
    case None
    with PublishLive ok show ?thesis by (simp add: publish_live_def)
  next
    case (Some s)
    show ?thesis
    proof (cases "settlement s = None")
      case False
      with PublishLive ok Some show ?thesis by (simp add: publish_live_def)
    next
      case True
      define s1 where "s1 = (if buffer_worthy ev then s\<lparr>buffer := push_event json_len ev (buffer s)\<rparr> else s)"
      obtain s2 out where over: "hand_over ev accepts s1 = (s2, out)" by (cases "hand_over ev accepts s1")
      show ?thesis
        by (rule publish_world_ok [OF ok Some _ _ over])
          (use PublishLive Some True over in \<open>simp_all add: publish_live_def s1_def [symmetric] Let_def\<close>, simp_all add: s1_def)
    qed
  qed
next
  case (Settle c rid result accepts)
  show ?thesis
  proof (cases "map_of (the_hub w) c")
    case None
    with Settle ok show ?thesis by (simp add: settle_run_def)
  next
    case (Some s)
    show ?thesis
    proof (cases "request_id s = rid")
      case False
      with Settle ok Some show ?thesis by (simp add: settle_run_def)
    next
      case True
      define s1 where "s1 = s\<lparr>settlement := Some result, buffer := push_event json_len (RunConcluded rid) (buffer s)\<rparr>"
      obtain s2 out where over: "hand_over (RunConcluded rid) accepts s1 = (s2, out)"
        by (cases "hand_over (RunConcluded rid) accepts s1")
      show ?thesis
        by (rule publish_world_ok [OF ok Some _ _ over])
          (use Settle Some True over in \<open>simp_all add: settle_run_def s1_def [symmetric] Let_def\<close>, simp_all add: s1_def)
    qed
  qed
next
  case (Discard c rid)
  show ?thesis
  proof (cases "map_of (the_hub w) c")
    case None
    with Discard ok show ?thesis by (simp add: discard_def)
  next
    case (Some s)
    with Discard ok show ?thesis
      by (cases "request_id s = rid") (simp_all add: discard_def drop_stream_ok [OF ok])
  qed
next
  case (TakeSettlement c)
  show ?thesis
  proof (cases "map_of (the_hub w) c")
    case None
    with TakeSettlement ok show ?thesis by (simp add: take_settlement_def)
  next
    case (Some s)
    with TakeSettlement ok show ?thesis
      by (cases "settlement s") (simp_all add: take_settlement_def drop_stream_ok [OF ok])
  qed
next
  case (Attach c accepted)
  let ?n = "next_subscriber w"
  note fresh = world_fresh [OF ok, of ?n, simplified]
  show ?thesis
  proof (cases "map_of (the_hub w) c")
    case None
    with Attach show ?thesis by (intro new_subscriber_ok [OF ok]) (simp_all add: attach_def)
  next
    case here: (Some s)
    show ?thesis
    proof (cases "settlement s")
      case (Some result)
      define w1 where "w1 = w\<lparr>next_subscriber := ?n + 1\<rparr>"
      have w1: "world_ok json_len w1" by (rule new_subscriber_ok [OF ok]) (simp_all add: w1_def)
      have "attach c ?n accepted (the_hub w) = (Finished (request_id s) (request s) result, al_del c (the_hub w), [])"
        using Some here by (simp add: attach_def)
      then show ?thesis
        unfolding Attach by (intro drop_stream_ok [OF w1, where c = c]) (simp_all add: w1_def)
    next
      case running: None
      let ?held = "events (buffer s)"
      show ?thesis
      proof (cases "\<exists>k. accepted = Some k \<and> k < length ?held")
        case True
        then obtain k where "attach c ?n accepted (the_hub w) = (NotFound, the_hub w, map (Pair ?n) (take k ?held))"
          using here running by (auto simp: attach_def Let_def)
        then show ?thesis
          unfolding Attach by (intro new_subscriber_ok [OF ok]) (simp_all add: fresh_delivery)
      next
        case False
        then have eq: "attach c ?n accepted (the_hub w) = (Running (request_id s) (request s) (dropped (buffer s)),
            al_put c (s\<lparr>subscriber := Some ?n\<rparr>) (the_hub w), map (Pair ?n) ?held)"
          using here running by (auto simp: attach_def Let_def split: option.split)
        have st: "stream_ok json_len (published w c) s" by (rule world_stream [OF ok here])
        define w1 where "w1 = hub_step json_len w e"
        have w1: "w1 = w\<lparr>the_hub := al_put c (s\<lparr>subscriber := Some ?n\<rparr>) (the_hub w),
            given := deliver_to (map (Pair ?n) ?held) (given w), next_subscriber := ?n + 1,
            told := (told w)(?n := dropped (buffer s))\<rparr>"
          by (simp add: w1_def Attach eq)
        have "filter buffer_worthy ?held = ?held" using st by (simp add: stream_ok_def filter_id_conv)
        then have "up_to_date w1 c ?n"
          using st fresh by (simp add: w1 up_to_date_def fresh_delivery stream_ok_def)
        moreover have "stream_ok json_len (published w c) (s\<lparr>subscriber := Some ?n\<rparr>)" using st by (simp add: stream_ok_def)
        ultimately have "world_ok json_len w1"
          by (intro replace_stream_ok [OF ok, where c = c and s = "s\<lparr>subscriber := Some ?n\<rparr>"])
            (simp_all add: w1 fresh_delivery)
        then show ?thesis by (simp only: w1_def)
      qed
    qed
  qed
qed

interpretation hub_machine: total_machine "\<lambda>w. w = hub_start" "hub_step json_len" "world_ok json_len"
  for json_len :: "'v \<Rightarrow> nat"
  by unfold_locales (simp_all add: step_world_ok, simp add: world_ok_def hub_start_def)

lemma hub_run_ok: "world_ok json_len (hub_run json_len es)"
  unfolding hub_run_def by (rule hub_machine.foldl_inv) simp

section \<open>Properties\<close>

text \<open>
  Claim C20. Functional: however runs begin, publish, settle and are taken over, a subscriber that is still
  attached to a conversation has been given, replay and live delivery together and in order, exactly the
  end of what the current run published for the buffer, up to how adjacent text is cut into events; and
  all of it if it was told that nothing was dropped. Nothing is delivered twice or missed between the
  replay and the live events, and what the buffer still holds is the end of what was published.
\<close>

theorem subscriber_misses_nothing:
  assumes "map_of (the_hub (hub_run json_len es)) c = Some s"
  shows "case hub_run json_len es of w \<Rightarrow>
     (\<exists>pre. all_atoms (published w c) = pre @ all_atoms (events (buffer s)) \<and> (dropped (buffer s) = 0 \<longrightarrow> pre = []))
     \<and> (\<forall>n. subscriber s = Some n \<longrightarrow>
          (\<exists>pre. all_atoms (published w c) = pre @ all_atoms (filter buffer_worthy (given w n))
             \<and> (told w n = 0 \<longrightarrow> pre = [])))"
  using world_stream [OF hub_run_ok assms] world_subscriber [OF hub_run_ok assms]
  by (simp add: stream_ok_def up_to_date_def ends_with_def)

definition takeover_events :: "(nat, nat, nat) hub_event list" where
  "takeover_events =
     [Begin [99] [114] 7, Publish [99] (TextDelta 1 [104]) True, Publish [99] Ping True, Publish [99] (TextDelta 1 [105]) False,
      Attach [99] None, Publish [99] (ToolExecutionStarted 1 [97]) True]"

lemma takeover_run:
  "the_hub (hub_run (\<lambda>_. 2) takeover_events) =
     [([99], \<lparr>request_id = [114], request = 7,
        buffer = \<lparr>events = [TextDelta 1 [104, 105], ToolExecutionStarted 1 [97]], held_bytes = 322, dropped = 0\<rparr>,
        subscriber = Some 1, settlement = None\<rparr>)]"
  "told (hub_run (\<lambda>_. 2) takeover_events) 1 = 0"
  "published (hub_run (\<lambda>_. 2) takeover_events) [99] = [TextDelta 1 [104], TextDelta 1 [105], ToolExecutionStarted 1 [97]]"
  by (simp_all add: hub_run_def takeover_events_def hub_start_def begin_run_def publish_def attach_def hand_over_def
      push_event_def try_merge_def evict.simps buffer_new_def al_put_def al_del_def MAX_BUFFERED_EVENTS_def
      MAX_BUFFERED_BYTES_def DELTA_MERGE_LIMIT_def EVENT_OVERHEAD_def byte_len_def utf8_char_def deliver_to_def)

theorem subscriber_misses_nothing_witness:
  "all_atoms (published (hub_run (\<lambda>_. 2) takeover_events) [99])
     = all_atoms (filter buffer_worthy (given (hub_run (\<lambda>_. 2) takeover_events) 1))"
proof -
  let ?s = "\<lparr>request_id = [114], request = 7,
        buffer = \<lparr>events = [TextDelta 1 [104, 105], ToolExecutionStarted 1 [97]], held_bytes = 322, dropped = 0\<rparr>,
        subscriber = Some 1, settlement = None\<rparr>"
  have "map_of (the_hub (hub_run (\<lambda>_. 2) takeover_events)) [99] = Some ?s" by (simp add: takeover_run)
  from subscriber_misses_nothing [OF this] takeover_run(2) show ?thesis by auto
qed

text \<open>
  Bounds: the replay buffer never holds more than its limit of events, its byte count is always
  what its events cost, so the saturating subtraction never saturates, and it passes its budget by at
  most one merged run of text.
\<close>

theorem replay_buffer_bounded:
  assumes "map_of (the_hub (hub_run json_len es)) c = Some s"
  shows "length (events (buffer s)) \<le> MAX_BUFFERED_EVENTS
    \<and> held_bytes (buffer s) = sum_list (map (event_cost json_len) (events (buffer s)))
    \<and> held_bytes (buffer s) \<le> MAX_BUFFERED_BYTES + DELTA_MERGE_LIMIT"
  using world_stream [OF hub_run_ok assms] by (auto simp: stream_ok_def buffer_ok_def costs_def)

theorem replay_buffer_bounded_witness:
  "held_bytes \<lparr>events = [TextDelta 1 [104, 105], ToolExecutionStarted 1 [97 :: nat]], held_bytes = 322, dropped = 0\<rparr>
     \<le> MAX_BUFFERED_BYTES + DELTA_MERGE_LIMIT"
proof -
  have "map_of (the_hub (hub_run (\<lambda>_. 2) takeover_events)) [99] = Some \<lparr>request_id = [114], request = 7,
        buffer = \<lparr>events = [TextDelta 1 [104, 105], ToolExecutionStarted 1 [97]], held_bytes = 322, dropped = 0\<rparr>,
        subscriber = Some 1, settlement = None\<rparr>" by (simp add: takeover_run)
  from replay_buffer_bounded [OF this] show ?thesis by simp
qed

end
