(* ===== verification/TextEdit.thy ===== *)
theory TextEdit
  imports Utf8
begin

text \<open>
  The text half of the file tools: \<^verbatim>\<open>normalize_text\<close> (\<^verbatim>\<open>src/file_read_state.rs\<close>), \<^verbatim>\<open>apply_edit\<close>
  and \<^verbatim>\<open>crlf_dominant\<close> (\<^verbatim>\<open>src/tool_executor.rs\<close>), with the string methods they use: \<open>matches\<close> counts
  occurrences from the left without overlap, and an empty pattern occurs around every character.
\<close>

section \<open>String methods\<close>

definition starts_with :: "ustring \<Rightarrow> ustring \<Rightarrow> bool" where
  "starts_with p s \<longleftrightarrow> take (length p) s = p"

lemma starts_with_iff: "starts_with p s \<longleftrightarrow> (\<exists>t. s = p @ t)"
  unfolding starts_with_def by (metis append_eq_conv_conj append_take_drop_id)

text \<open>\<open>s.matches(p).count()\<close>.\<close>

function count_matches :: "ustring \<Rightarrow> ustring \<Rightarrow> nat" where
  "count_matches p s =
     (if p = [] then length s + 1
      else if s = [] then 0
      else if starts_with p s then 1 + count_matches p (drop (length p) s)
      else count_matches p (tl s))"
  by pat_completeness auto
termination
  by (relation "measure (\<lambda>(p, s). length s)") auto

declare count_matches.simps [simp del]

text \<open>\<open>s.replacen(p, r, 1)\<close>.\<close>

fun replace_first :: "ustring \<Rightarrow> ustring \<Rightarrow> ustring \<Rightarrow> ustring" where
  "replace_first p r s =
     (if starts_with p s then r @ drop (length p) s
      else case s of [] \<Rightarrow> [] | c # cs \<Rightarrow> c # replace_first p r cs)"

declare replace_first.simps [simp del]

definition BOM :: nat where "BOM = 65279"
definition CR :: nat where "CR = 13"
definition LF :: nat where "LF = 10"

lemma line_chars [simp]: "CR \<noteq> LF" "LF \<noteq> CR" "BOM \<noteq> CR" "BOM \<noteq> LF" "CR \<noteq> BOM" "LF \<noteq> BOM"
  by (simp_all add: CR_def LF_def BOM_def)

text \<open>\<open>replace("\r\n", "\n")\<close> and \<open>replace('\n', "\r\n")\<close>.\<close>

fun crlf_to_lf :: "ustring \<Rightarrow> ustring" where
  "crlf_to_lf [] = []"
| "crlf_to_lf [c] = [c]"
| "crlf_to_lf (c # d # s) = (if c = CR \<and> d = LF then LF # crlf_to_lf s else c # crlf_to_lf (d # s))"

definition lf_to_crlf :: "ustring \<Rightarrow> ustring" where
  "lf_to_crlf s = concat (map (\<lambda>c. if c = LF then [CR, LF] else [c]) s)"

section \<open>The edit\<close>

definition strip_bom :: "ustring \<Rightarrow> ustring" where
  "strip_bom s = (if starts_with [BOM] s then drop 1 s else s)"

definition normalize_text :: "ustring \<Rightarrow> ustring" where
  "normalize_text raw = (let stripped = strip_bom raw in if CR \<in> set stripped then crlf_to_lf stripped else stripped)"

definition crlf_dominant :: "ustring \<Rightarrow> bool" where
  "crlf_dominant body =
     (let sample = take 4096 body; crlf = count_matches [CR, LF] sample; lf = count_matches [LF] sample - crlf
      in crlf > lf)"

datatype edit_error = NotFoundExactly | Occurs nat

definition apply_edit :: "ustring \<Rightarrow> ustring \<Rightarrow> ustring \<Rightarrow> edit_error + ustring" where
  "apply_edit body needle replace =
     (let raw_occurrences = count_matches needle body in
      if raw_occurrences = 1 then Inr (replace_first needle replace body)
      else if raw_occurrences > 1 then Inl (Occurs raw_occurrences)
      else
        let has_bom = starts_with [BOM] body; normalized_needle = normalize_text needle in
        if \<not> has_bom \<and> CR \<notin> set body \<and> normalized_needle = needle then Inl NotFoundExactly
        else
          let normalized = normalize_text body; occurrences = count_matches normalized_needle normalized in
          if occurrences = 0 then Inl NotFoundExactly
          else if occurrences > 1 then Inl (Occurs occurrences)
          else
            let edited = replace_first normalized_needle (normalize_text replace) normalized;
                edited = (if crlf_dominant body then lf_to_crlf edited else edited)
            in Inr (if has_bom then BOM # edited else edited))"

section \<open>Matching and replacing\<close>

text \<open>\<open>p\<close> does not occur, and does not start with the first \<open>n\<close> characters of \<open>s\<close>.\<close>

definition occurs_at :: "ustring \<Rightarrow> ustring \<Rightarrow> nat \<Rightarrow> bool" where
  "occurs_at p s i \<longleftrightarrow> i \<le> length s \<and> starts_with p (drop i s)"

lemma occurs_at_Cons: "occurs_at p (c # s) (Suc i) = occurs_at p s i"
  by (simp add: occurs_at_def)

lemma occurs_at_0: "occurs_at p s 0 = starts_with p s"
  by (simp add: occurs_at_def)

lemma no_occurrence_count: "p \<noteq> [] \<Longrightarrow> \<forall>i. \<not> occurs_at p s i \<Longrightarrow> count_matches p s = 0"
proof (induction s)
  case Nil
  then show ?case by (simp add: count_matches.simps)
next
  case (Cons c s)
  have "\<not> starts_with p (c # s)" using Cons.prems(2) occurs_at_0 by blast
  moreover have "\<forall>i. \<not> occurs_at p s i" using Cons.prems(2) occurs_at_Cons by blast
  ultimately show ?case using Cons by (subst count_matches.simps) simp
qed

lemma count_zero: "count_matches p s = 0 \<Longrightarrow> \<not> occurs_at p s i"
proof (induction p s arbitrary: i rule: count_matches.induct)
  case (1 p s)
  have p: "p \<noteq> []" using 1(3) by (subst (asm) count_matches.simps) (simp split: if_splits)
  show ?case
  proof (cases s)
    case Nil
    with p show ?thesis by (simp add: occurs_at_def starts_with_def)
  next
    case (Cons c cs)
    have no: "\<not> starts_with p s" using 1(3) p Cons by (subst (asm) count_matches.simps) (simp split: if_splits)
    with 1(3) p Cons have "count_matches p cs = 0" by (subst (asm) count_matches.simps) simp
    with 1(2) [OF p _ no] Cons have "\<not> occurs_at p cs j" for j by simp
    with no Cons show ?thesis by (cases i) (simp_all add: occurs_at_Cons occurs_at_0)
  qed
qed

text \<open>The first occurrence is the one replaced; another one can only overlap it or follow it.\<close>

lemma replace_first_at:
  "starts_with p (drop (length pre) s) \<Longrightarrow> s = pre @ drop (length pre) s \<Longrightarrow>
    (\<forall>i < length pre. \<not> starts_with p (drop i s)) \<Longrightarrow>
    replace_first p r s = pre @ r @ drop (length pre + length p) s"
proof (induction pre arbitrary: s)
  case Nil
  then show ?case by (subst replace_first.simps) simp
next
  case (Cons c pre)
  then obtain s' where s: "s = c # s'" by auto
  have "\<not> starts_with p s" using Cons.prems(3) by force
  moreover have "replace_first p r s' = pre @ r @ drop (length pre + length p) s'"
  proof (rule Cons.IH)
    show "starts_with p (drop (length pre) s')" "s' = pre @ drop (length pre) s'" using Cons.prems(1,2) s by simp_all
    show "\<forall>i < length pre. \<not> starts_with p (drop i s')"
      using Cons.prems(3) s by (metis Suc_less_eq drop_Suc_Cons length_Cons)
  qed
  ultimately show ?case using s by (subst replace_first.simps) simp
qed

lemma first_occurrence:
  assumes "0 < count_matches p s" and "p \<noteq> []"
  shows "\<exists>pre suf. s = pre @ p @ suf \<and> (\<forall>i < length pre. \<not> occurs_at p s i)
    \<and> count_matches p s = Suc (count_matches p suf)"
  using assms
proof (induction p s rule: count_matches.induct)
  case (1 p s)
  show ?case
  proof (cases "starts_with p s")
    case True
    then obtain suf where suf: "s = p @ suf" by (auto simp: starts_with_iff)
    then have "count_matches p s = Suc (count_matches p suf)"
      using True 1(4) by (subst count_matches.simps) simp
    with suf show ?thesis by (intro exI [of _ "[]"] exI [of _ suf]) simp
  next
    case False
    have "s \<noteq> []" using 1(3,4) by (auto simp: count_matches.simps [of p "[]"])
    then obtain c cs where s: "s = c # cs" by (cases s) auto
    have count: "count_matches p s = count_matches p cs" using False s 1(4) by (subst count_matches.simps) simp
    with 1(2) [OF 1(4) \<open>s \<noteq> []\<close> False] 1(3,4) s
    obtain pre suf where "cs = pre @ p @ suf" "\<forall>i < length pre. \<not> occurs_at p cs i"
        "count_matches p cs = Suc (count_matches p suf)" by auto
    moreover from this have "\<forall>i < length (c # pre). \<not> occurs_at p s i"
      using False s by (auto simp: less_Suc_eq_0_disj occurs_at_0 occurs_at_Cons)
    ultimately show ?thesis using s count by (intro exI [of _ "c # pre"] exI [of _ suf]) simp
  qed
qed

lemma replaced_once:
  assumes "count_matches p s = 1" and "p \<noteq> []"
  shows "\<exists>pre suf. s = pre @ p @ suf \<and> replace_first p r s = pre @ r @ suf
    \<and> (\<forall>i < length pre. \<not> occurs_at p s i) \<and> (\<forall>i. \<not> occurs_at p suf i)"
proof -
  obtain pre suf where s: "s = pre @ p @ suf" "\<forall>i < length pre. \<not> occurs_at p s i"
      "count_matches p s = Suc (count_matches p suf)"
    using first_occurrence [of p s] assms by auto
  have "replace_first p r s = pre @ r @ drop (length pre + length p) s"
    by (rule replace_first_at) (use s in \<open>auto simp: starts_with_iff occurs_at_def\<close>)
  moreover have "\<forall>i. \<not> occurs_at p suf i" using count_zero s(3) assms(1) by simp
  ultimately show ?thesis using s by auto
qed

lemma replace_first_empty: "replace_first [] r s = r @ s"
  by (subst replace_first.simps) (simp add: starts_with_def)

section \<open>Line endings\<close>

lemma lf_to_crlf_append [simp]: "lf_to_crlf (s @ t) = lf_to_crlf s @ lf_to_crlf t"
  by (simp add: lf_to_crlf_def)

lemma lf_to_crlf_simps [simp]:
  "lf_to_crlf [] = []" "lf_to_crlf (c # s) = (if c = LF then CR # LF # lf_to_crlf s else c # lf_to_crlf s)"
  by (simp_all add: lf_to_crlf_def)

lemma lf_to_crlf_plain: "LF \<notin> set s \<Longrightarrow> lf_to_crlf s = s"
  by (induction s) auto

lemma crlf_to_lf_Cons: "c \<noteq> CR \<Longrightarrow> crlf_to_lf (c # s) = c # crlf_to_lf s"
  by (cases s) simp_all

lemma crlf_round_trip: "CR \<notin> set s \<Longrightarrow> crlf_to_lf (lf_to_crlf s) = s"
  by (induction s) (auto simp: crlf_to_lf_Cons)

lemma set_lf_to_crlf: "CR \<notin> set s \<Longrightarrow> CR \<in> set (lf_to_crlf s) \<longleftrightarrow> LF \<in> set s"
  by (induction s) auto

lemma no_crlf: "CR \<notin> set s \<Longrightarrow> count_matches [CR, LF] s = 0"
proof (rule no_occurrence_count)
  assume "CR \<notin> set s"
  then show "\<forall>i. \<not> occurs_at [CR, LF] s i"
    by (auto simp: occurs_at_def starts_with_iff) (metis in_set_dropD list.set_intros(1))
qed simp

lemma lf_not_dominant: "CR \<notin> set s \<Longrightarrow> \<not> crlf_dominant s"
proof -
  assume "CR \<notin> set s"
  then have "CR \<notin> set (take 4096 s)" by (auto dest: in_set_takeD)
  from no_crlf [OF this] show ?thesis by (simp add: crlf_dominant_def Let_def)
qed

text \<open>One convention throughout: no carriage return at all, or one before every line feed and nowhere else.\<close>

definition uniform :: "ustring \<Rightarrow> bool" where
  "uniform body \<longleftrightarrow> CR \<notin> set body \<or> crlf_dominant body \<and> (\<exists>t. CR \<notin> set t \<and> strip_bom body = lf_to_crlf t)"

definition restore :: "ustring \<Rightarrow> ustring \<Rightarrow> ustring" where
  "restore body s = (if crlf_dominant body then lf_to_crlf s else s)"

definition bom_of :: "ustring \<Rightarrow> ustring" where
  "bom_of body = (if starts_with [BOM] body then [BOM] else [])"

lemma bom_split: "body = bom_of body @ strip_bom body"
  by (cases body) (auto simp: bom_of_def strip_bom_def starts_with_def)

lemma restore_append: "restore body (s @ t) = restore body s @ restore body t"
  by (simp add: restore_def)

lemma uniform_restore:
  assumes "uniform body"
  shows "body = bom_of body @ restore body (normalize_text body)"
proof (cases "CR \<in> set body")
  case False
  then have "CR \<notin> set (strip_bom body)" by (auto simp: strip_bom_def dest: in_set_dropD)
  with lf_not_dominant [OF False] bom_split [of body] show ?thesis by (simp add: restore_def normalize_text_def)
next
  case True
  then obtain t where t: "crlf_dominant body" "CR \<notin> set t" "strip_bom body = lf_to_crlf t"
    using assms by (auto simp: uniform_def)
  have "normalize_text body = t"
    using t(2,3) set_lf_to_crlf [OF t(2)] lf_to_crlf_plain [of t] crlf_round_trip [OF t(2)]
    by (auto simp: normalize_text_def)
  with t bom_split [of body] show ?thesis by (simp add: restore_def)
qed

section \<open>Properties\<close>

text \<open>
  Functional: an edit that is accepted changes one place of the file and nothing else. Either the
  search text stands in the file as written, it is what is replaced, and no further match of it follows; or
  it stands there up to line endings and byte-order mark, and in a file of one line-ending convention the
  span it matches is replaced by the new text in that convention, byte-order mark and every other line
  ending kept.
\<close>

theorem edit_changes_one_span:
  assumes "apply_edit body needle replace = Inr next_text" and "needle \<noteq> []"
  shows "(\<exists>pre suf. body = pre @ needle @ suf \<and> next_text = pre @ replace @ suf \<and> count_matches needle suf = 0)
    \<or> count_matches needle body = 0
      \<and> (uniform body \<longrightarrow> (\<exists>pre suf. body = pre @ restore body (normalize_text needle) @ suf
            \<and> next_text = pre @ restore body (normalize_text replace) @ suf))"
proof (cases "count_matches needle body = 1")
  case True
  from replaced_once [OF this assms(2), of replace] obtain pre suf where
    "body = pre @ needle @ suf" "replace_first needle replace body = pre @ replace @ suf" "\<forall>i. \<not> occurs_at needle suf i"
    by auto
  moreover from this have "count_matches needle suf = 0" using no_occurrence_count [OF assms(2)] by blast
  moreover have "next_text = replace_first needle replace body" using assms(1) True by (simp add: apply_edit_def Let_def)
  ultimately show ?thesis by blast
next
  case False
  let ?n = "normalize_text needle" and ?t = "normalize_text body" and ?r = "normalize_text replace"
  have zero: "count_matches needle body = 0" and one: "count_matches ?n ?t = 1"
    and nxt: "next_text = bom_of body @ restore body (replace_first ?n ?r ?t)"
    using assms(1) False
    by (auto simp: apply_edit_def Let_def bom_of_def restore_def split: if_splits)
  obtain pre suf where split: "?t = pre @ ?n @ suf" "replace_first ?n ?r ?t = pre @ ?r @ suf"
  proof (cases "?n = []")
    case True
    then have "length ?t = 0" using one by (simp add: count_matches.simps)
    with True that [of "[]" "[]"] show ?thesis by (simp add: replace_first_empty)
  next
    case False
    from replaced_once [OF one False, of ?r] that show ?thesis by auto
  qed
  have "\<exists>pre suf. body = pre @ restore body ?n @ suf \<and> next_text = pre @ restore body ?r @ suf" if "uniform body"
  proof (intro exI conjI)
    show "body = (bom_of body @ restore body pre) @ restore body ?n @ restore body suf"
      using uniform_restore [OF that] unfolding split(1) by (simp add: restore_append)
    show "next_text = (bom_of body @ restore body pre) @ restore body ?r @ restore body suf"
      unfolding nxt split(2) by (simp add: restore_append)
  qed
  with zero show ?thesis by blast
qed

text \<open>\<open>a CRLF b CRLF\<close>, edited with a search text spelled with line feeds.\<close>

lemma sample_edit:
  "count_matches [13, 10] [97, 13, 10, 98, 13, 10] = 2" "count_matches [10] [97, 13, 10, 98, 13, 10] = 2"
  "count_matches [97, 10, 98] [97, 13, 10, 98, 13, 10] = 0" "count_matches [97, 10, 98] [97, 10, 98, 10] = 1"
  "normalize_text [97, 13, 10, 98, 13, 10] = [97, 10, 98, 10]" "normalize_text [97, 10, 98] = [97, 10, 98]"
  "normalize_text [99, 10, 100] = [99, 10, 100]"
  "replace_first [97, 10, 98] [99, 10, 100] [97, 10, 98, 10] = [99, 10, 100, 10]"
  by (simp_all add: count_matches.simps starts_with_def normalize_text_def strip_bom_def CR_def LF_def BOM_def
      replace_first.simps)

lemma sample_dominant: "crlf_dominant [97, 13, 10, 98, 13, 10]"
  using sample_edit(1,2) by (simp add: crlf_dominant_def CR_def LF_def)

theorem edit_changes_one_span_witness:
  "\<exists>pre suf. [97, 13, 10, 98, 13, 10] = pre @ [97, 13, 10, 98] @ suf
     \<and> [99, 13, 10, 100, 13, 10] = pre @ [99, 13, 10, 100 :: nat] @ suf"
proof -
  let ?body = "[97, 13, 10, 98, 13, 10] :: nat list"
  have edit: "apply_edit ?body [97, 10, 98] [99, 10, 100] = Inr [99, 13, 10, 100, 13, 10]"
    using sample_dominant
    by (simp add: apply_edit_def sample_edit starts_with_def BOM_def CR_def lf_to_crlf_def LF_def)
  have "strip_bom ?body = lf_to_crlf [97, 10, 98, 10]" "CR \<notin> set [97, 10, 98, 10 :: nat]"
    by (simp_all add: strip_bom_def starts_with_def BOM_def LF_def CR_def lf_to_crlf_def)
  with sample_dominant have uniform: "uniform ?body" unfolding uniform_def by blast
  have "\<not> occurs_at [97, 10, 98] ?body i" for i by (rule count_zero [OF sample_edit(3)])
  then have no: "?body \<noteq> pre @ [97, 10, 98] @ suf" for pre suf
    by (metis append_eq_conv_conj le_add1 length_append occurs_at_def starts_with_iff)
  have "restore ?body (normalize_text [97, 10, 98]) = [97, 13, 10, 98]"
    "restore ?body (normalize_text [99, 10, 100]) = [99, 13, 10, 100]"
    using sample_dominant by (simp_all add: restore_def sample_edit LF_def CR_def)
  with edit_changes_one_span [OF edit] uniform no show ?thesis by auto
qed

text \<open>
  Matches are counted without overlap, so a text that stands at two places that overlap passes for one.
\<close>

lemma overlapping_matches_pass: "apply_edit [10, 10, 10] [10, 10] [120] = Inr [120, 10]"
  by (simp add: apply_edit_def count_matches.simps starts_with_def replace_first.simps)

end
