(* ===== verification/FileGuard.thy ===== *)
theory FileGuard
  imports TextEdit
begin

text \<open>
  What a conversation has read (\<^verbatim>\<open>src/file_read_state.rs\<close>) and the gate \<open>write\<close> and \<open>edit\<close> pass through
  (\<^verbatim>\<open>src/tool_executor.rs\<close>). The registry maps scopes to the files they remember; a child scope starts as
  a copy of its parent. The hash of a text is the argument \<open>hash\<close>; a path is its string. A disk is a map
  from paths to texts and modification times, and a write leaves the time it is given.
\<close>

section \<open>Records\<close>

definition MAX_ENTRIES_PER_SCOPE :: nat where
  "MAX_ENTRIES_PER_SCOPE = 5000"

definition MAX_CONTENT_BYTES_PER_SCOPE :: nat where
  "MAX_CONTENT_BYTES_PER_SCOPE = 25 * 1024 * 1024"

definition MAX_CHILD_SCOPES_PER_CONVERSATION :: nat where
  "MAX_CHILD_SCOPES_PER_CONVERSATION = 64"

definition MAX_WRITE_BYTES :: nat where
  "MAX_WRITE_BYTES = 2 * 1024 * 1024"

definition CHILD_SCOPE_SEPARATOR :: ustring where
  "CHILD_SCOPE_SEPARATOR = [35, 99, 104, 105, 108, 100, 58]"

record file_read_record =
  modified_ms :: int
  remembered :: "ustring option"
  content_hash :: "nat option"
  full :: bool
  in_model_context :: bool

definition full_read :: "(ustring \<Rightarrow> nat) \<Rightarrow> int \<Rightarrow> ustring \<Rightarrow> file_read_record" where
  "full_read hash ms normalized =
     \<lparr>modified_ms = ms, remembered = Some normalized, content_hash = Some (hash normalized), full = True,
      in_model_context = True\<rparr>"

definition partial_read :: "int \<Rightarrow> file_read_record" where
  "partial_read ms =
     \<lparr>modified_ms = ms, remembered = None, content_hash = None, full = False, in_model_context = True\<rparr>"

definition written :: "(ustring \<Rightarrow> nat) \<Rightarrow> int \<Rightarrow> ustring \<Rightarrow> bool \<Rightarrow> file_read_record" where
  "written hash ms normalized in_context = (full_read hash ms normalized)\<lparr>in_model_context := in_context\<rparr>"

definition record_matches :: "(ustring \<Rightarrow> nat) \<Rightarrow> ustring \<Rightarrow> file_read_record \<Rightarrow> bool" where
  "record_matches hash normalized r \<longleftrightarrow> full r \<and> content_hash r = Some (hash normalized)"

definition text_bytes :: "file_read_record \<Rightarrow> nat" where
  "text_bytes r = (case remembered r of None \<Rightarrow> 0 | Some s \<Rightarrow> byte_len s)"

section \<open>A scope\<close>

record entry =
  rec :: file_read_record
  touched :: nat

record scope =
  entries :: "(ustring \<times> entry) list"
  content_bytes :: nat
  clock :: nat
  born :: nat

definition scope_new :: "nat \<Rightarrow> scope" where
  "scope_new b = \<lparr>entries = [], content_bytes = 0, clock = 0, born = b\<rparr>"

definition cloned_from :: "scope \<Rightarrow> nat \<Rightarrow> scope" where
  "cloned_from parent b = parent\<lparr>born := b\<rparr>"

text \<open>\<open>min_by_key(touched)\<close>.\<close>

fun oldest :: "(ustring \<times> entry) list \<Rightarrow> (ustring \<times> entry) option" where
  "oldest [] = None"
| "oldest (p # m) =
     (case oldest m of
        None \<Rightarrow> Some p
      | Some q \<Rightarrow> if touched (snd p) \<le> touched (snd q) then Some p else Some q)"

lemma oldest_in: "oldest m = Some p \<Longrightarrow> p \<in> set m"
  by (induction m arbitrary: p) (auto split: option.splits if_splits)

lemma oldest_None: "oldest m = None \<longleftrightarrow> m = []"
  by (cases m) (auto split: option.splits)

lemma length_al_del_less: "p \<in> set m \<Longrightarrow> length (al_del (fst p) m) < length m"
  unfolding al_del_def by (induction m) (auto simp: less_Suc_eq_le)

text \<open>The two loops of \<open>enforce_budgets\<close>.\<close>

function drop_entries :: "scope \<Rightarrow> scope" where
  "drop_entries s =
     (if length (entries s) > MAX_ENTRIES_PER_SCOPE then
        (case oldest (entries s) of
           None \<Rightarrow> s
         | Some p \<Rightarrow>
             drop_entries (s\<lparr>entries := al_del (fst p) (entries s),
               content_bytes := content_bytes s - text_bytes (rec (snd p))\<rparr>))
      else s)"
  by pat_completeness auto
termination
  by (relation "measure (\<lambda>s. length (entries s))") (auto dest: oldest_in length_al_del_less)

definition with_text :: "(ustring \<times> entry) list \<Rightarrow> (ustring \<times> entry) list" where
  "with_text m = filter (\<lambda>p. remembered (rec (snd p)) \<noteq> None) m"

definition forget_text :: "ustring \<Rightarrow> (ustring \<times> entry) list \<Rightarrow> (ustring \<times> entry) list" where
  "forget_text path m =
     map (\<lambda>(q, e). if q = path then (q, e\<lparr>rec := (rec e)\<lparr>remembered := None\<rparr>\<rparr>) else (q, e)) m"

lemma with_text_forget: "with_text (forget_text path m) = filter (\<lambda>p. fst p \<noteq> path) (with_text m)"
  by (induction m) (auto simp: with_text_def forget_text_def)

lemma forget_text_less:
  "p \<in> set (with_text m) \<Longrightarrow> length (with_text (forget_text (fst p) m)) < length (with_text m)"
  unfolding with_text_forget by (rule length_filter_less) simp_all

function drop_texts :: "scope \<Rightarrow> scope" where
  "drop_texts s =
     (if content_bytes s > MAX_CONTENT_BYTES_PER_SCOPE then
        (case oldest (with_text (entries s)) of
           None \<Rightarrow> s
         | Some p \<Rightarrow>
             drop_texts (s\<lparr>entries := forget_text (fst p) (entries s),
               content_bytes := content_bytes s - text_bytes (rec (snd p))\<rparr>))
      else s)"
  by pat_completeness auto
termination
  by (relation "measure (\<lambda>s. length (with_text (entries s)))") (auto dest: oldest_in forget_text_less)

declare drop_entries.simps [simp del] drop_texts.simps [simp del]

definition enforce_budgets :: "scope \<Rightarrow> scope" where
  "enforce_budgets s = drop_texts (drop_entries s)"

definition scope_insert :: "ustring \<Rightarrow> file_read_record \<Rightarrow> scope \<Rightarrow> scope" where
  "scope_insert path r s =
     (let s = (case map_of (entries s) path of
                 None \<Rightarrow> s
               | Some e \<Rightarrow> s\<lparr>entries := al_del path (entries s), content_bytes := content_bytes s - text_bytes (rec e)\<rparr>);
          s = s\<lparr>content_bytes := content_bytes s + text_bytes r, clock := clock s + 1\<rparr>
      in enforce_budgets (s\<lparr>entries := al_put path \<lparr>rec = r, touched = clock s\<rparr> (entries s)\<rparr>))"

definition scope_get :: "ustring \<Rightarrow> scope \<Rightarrow> file_read_record option \<times> scope" where
  "scope_get path s =
     (let s = s\<lparr>clock := clock s + 1\<rparr> in
      case map_of (entries s) path of
        None \<Rightarrow> (None, s)
      | Some e \<Rightarrow> (Some (rec e), s\<lparr>entries := al_put path (e\<lparr>touched := clock s\<rparr>) (entries s)\<rparr>))"

definition scope_forget :: "ustring \<Rightarrow> scope \<Rightarrow> scope" where
  "scope_forget path s =
     (case map_of (entries s) path of
        None \<Rightarrow> s
      | Some e \<Rightarrow> s\<lparr>entries := al_del path (entries s), content_bytes := content_bytes s - text_bytes (rec e)\<rparr>)"

section \<open>The registry\<close>

record registry =
  scopes :: "(ustring \<times> scope) list"
  births :: nat

definition registry_new :: registry where
  "registry_new = \<lparr>scopes = [], births = 0\<rparr>"

fun split_once :: "ustring \<Rightarrow> ustring \<Rightarrow> (ustring \<times> ustring) option" where
  "split_once sep s =
     (if starts_with sep s then Some ([], drop (length sep) s)
      else case s of [] \<Rightarrow> None | c # cs \<Rightarrow> map_option (\<lambda>(a, b). (c # a, b)) (split_once sep cs))"

declare split_once.simps [simp del]

definition is_child_scope :: "ustring \<Rightarrow> bool" where
  "is_child_scope sid \<longleftrightarrow> split_once CHILD_SCOPE_SEPARATOR sid \<noteq> None"

definition conversation_of_scope :: "ustring \<Rightarrow> ustring" where
  "conversation_of_scope sid = (case split_once CHILD_SCOPE_SEPARATOR sid of Some (c, _) \<Rightarrow> c | None \<Rightarrow> sid)"

definition children_of :: "ustring \<Rightarrow> (ustring \<times> scope) list \<Rightarrow> (ustring \<times> scope) list" where
  "children_of conversation m =
     filter (\<lambda>p. is_child_scope (fst p) \<and> conversation_of_scope (fst p) = conversation) m"

text \<open>The smallest of \<open>(born, id)\<close>; no two scopes are born at once.\<close>

fun eldest :: "(ustring \<times> scope) list \<Rightarrow> (ustring \<times> scope) option" where
  "eldest [] = None"
| "eldest (p # m) =
     (case eldest m of None \<Rightarrow> Some p | Some q \<Rightarrow> if born (snd p) \<le> born (snd q) then Some p else Some q)"

lemma eldest_None: "eldest m = None \<longleftrightarrow> m = []"
  by (cases m) (auto split: option.splits)

lemma eldest_in: "eldest m = Some p \<Longrightarrow> p \<in> set m \<and> (\<forall>q \<in> set m. born (snd p) \<le> born (snd q))"
proof (induction m arbitrary: p)
  case (Cons a m)
  show ?case
  proof (cases "eldest m")
    case None
    with Cons.prems show ?thesis by (simp add: eldest_None)
  next
    case (Some q)
    with Cons.IH [OF Some] Cons.prems show ?thesis by (fastforce split: if_splits)
  qed
qed simp

lemma length_del_scope: "p \<in> set (children_of c m) \<Longrightarrow> length (al_del (fst p) m) < length m"
  unfolding al_del_def children_of_def by (rule length_filter_less) auto

function evict_excess_child_scopes :: "ustring \<Rightarrow> (ustring \<times> scope) list \<Rightarrow> (ustring \<times> scope) list" where
  "evict_excess_child_scopes conversation m =
     (if length (children_of conversation m) \<le> MAX_CHILD_SCOPES_PER_CONVERSATION then m
      else case eldest (children_of conversation m) of
          None \<Rightarrow> m
        | Some p \<Rightarrow> evict_excess_child_scopes conversation (al_del (fst p) m))"
  by pat_completeness auto
termination
  by (relation "measure (\<lambda>(conversation, m). length m)")
    (auto dest: eldest_in length_del_scope)

declare evict_excess_child_scopes.simps [simp del]

type_synonym scope_ref = "ustring \<times> ustring option"

text \<open>\<open>with_scope\<close> where it creates the scope.\<close>

definition ensure_scope :: "scope_ref \<Rightarrow> registry \<Rightarrow> registry" where
  "ensure_scope ref g =
     (case ref of (sid, parent) \<Rightarrow>
        if map_of (scopes g) sid \<noteq> None then g
        else
          (let b = births g + 1;
               seeded = (case Option.bind parent (map_of (scopes g)) of
                           Some s \<Rightarrow> cloned_from s b
                         | None \<Rightarrow> scope_new b)
           in \<lparr>scopes = evict_excess_child_scopes (conversation_of_scope sid) (al_put sid seeded (scopes g)),
               births = b\<rparr>))"

definition update_scope :: "ustring \<Rightarrow> (scope \<Rightarrow> scope) \<Rightarrow> registry \<Rightarrow> registry" where
  "update_scope sid f g =
     (case map_of (scopes g) sid of None \<Rightarrow> g | Some s \<Rightarrow> g\<lparr>scopes := al_put sid (f s) (scopes g)\<rparr>)"

definition get_record :: "scope_ref \<Rightarrow> ustring \<Rightarrow> registry \<Rightarrow> file_read_record option \<times> registry" where
  "get_record ref path g =
     (let g = ensure_scope ref g in
      (Option.bind (map_of (scopes g) (fst ref)) (\<lambda>s. fst (scope_get path s)),
       update_scope (fst ref) (\<lambda>s. snd (scope_get path s)) g))"

definition put_record :: "scope_ref \<Rightarrow> ustring \<Rightarrow> file_read_record \<Rightarrow> registry \<Rightarrow> registry" where
  "put_record ref path r g = update_scope (fst ref) (scope_insert path r) (ensure_scope ref g)"

definition forget_record :: "scope_ref \<Rightarrow> ustring \<Rightarrow> registry \<Rightarrow> registry" where
  "forget_record ref path g = update_scope (fst ref) (scope_forget path) g"

definition retire_conversation :: "ustring \<Rightarrow> registry \<Rightarrow> registry" where
  "retire_conversation conversation g =
     g\<lparr>scopes := filter (\<lambda>p. conversation_of_scope (fst p) \<noteq> conversation) (scopes g)\<rparr>"

definition retain_conversations :: "ustring list \<Rightarrow> registry \<Rightarrow> registry" where
  "retain_conversations kept g =
     g\<lparr>scopes := filter (\<lambda>p. conversation_of_scope (fst p) \<in> set kept) (scopes g)\<rparr>"

section \<open>The gate and the writers\<close>

datatype gate_error = NotRead | ModifiedSinceRead

definition check_write_gate ::
  "(ustring \<Rightarrow> nat) \<Rightarrow> file_read_record option \<Rightarrow> int option \<Rightarrow> ustring \<Rightarrow> ustring option
    \<Rightarrow> gate_error + file_read_record \<times> bool" where
  "check_write_gate hash record disk_ms disk_content needle =
     (case record of
        None \<Rightarrow> Inl NotRead
      | Some r \<Rightarrow>
          (case disk_ms of
             None \<Rightarrow> Inr (r, False)
           | Some ms \<Rightarrow>
               if ms \<le> modified_ms r then Inr (r, False)
               else
                 let normalized = normalize_text disk_content in
                 if record_matches hash normalized r then Inr (r, False)
                 else case needle of
                     None \<Rightarrow> Inl ModifiedSinceRead
                   | Some n \<Rightarrow>
                       (let n = normalize_text n in
                        if n \<noteq> [] \<and> count_matches n normalized = 1 then Inr (r, True) else Inl ModifiedSinceRead)))"

type_synonym disk = "ustring \<Rightarrow> (ustring \<times> int) option"

datatype write_error = TooLarge | Gate gate_error | NoSuchFile | EmptyNeedle | Edit edit_error

text \<open>
  \<open>run_write\<close> and \<open>run_edit\<close> on the path they resolved to: the registry they leave, and the disk if they
  wrote. \<open>now\<close> is the time the write leaves on the file.
\<close>

definition write_file ::
  "(ustring \<Rightarrow> nat) \<Rightarrow> scope_ref \<Rightarrow> ustring \<Rightarrow> ustring \<Rightarrow> int \<Rightarrow> disk \<Rightarrow> registry
    \<Rightarrow> (write_error + disk) \<times> registry" where
  "write_file hash ref path new_text now d g =
     (if byte_len new_text > MAX_WRITE_BYTES then (Inl TooLarge, g)
      else
        let (gate, g) = (case d path of
              None \<Rightarrow> (None, g)
            | Some (body, ms) \<Rightarrow>
                (let (r, g) = get_record ref path g
                 in (case check_write_gate hash r (Some ms) body None of Inl e \<Rightarrow> Some e | Inr _ \<Rightarrow> None, g)))
        in case gate of
             Some e \<Rightarrow> (Inl (Gate e), g)
           | None \<Rightarrow>
               (Inr (d(path \<mapsto> (new_text, now))),
                put_record ref path (written hash now (normalize_text new_text) True) g))"

definition edit_file ::
  "(ustring \<Rightarrow> nat) \<Rightarrow> scope_ref \<Rightarrow> ustring \<Rightarrow> ustring \<Rightarrow> ustring \<Rightarrow> int \<Rightarrow> disk \<Rightarrow> registry
    \<Rightarrow> (write_error + disk) \<times> registry" where
  "edit_file hash ref path needle replace now d g =
     (if needle = [] then (Inl EmptyNeedle, g)
      else case d path of
          None \<Rightarrow> (Inl NoSuchFile, g)
        | Some (body, ms) \<Rightarrow>
            (let (r, g) = get_record ref path g in
             case check_write_gate hash r (Some ms) body (Some needle) of
               Inl e \<Rightarrow> (Inl (Gate e), g)
             | Inr (previous, stale_recovered) \<Rightarrow>
                 (case apply_edit body needle replace of
                    Inl e \<Rightarrow> (Inl (Edit e), g)
                  | Inr next_text \<Rightarrow>
                      if byte_len next_text > MAX_WRITE_BYTES then (Inl TooLarge, g)
                      else
                        (Inr (d(path \<mapsto> (next_text, now))),
                         put_record ref path
                           (written hash now (normalize_text next_text)
                             (\<not> stale_recovered \<and> full previous \<and> in_model_context previous)) g))))"

text \<open>One file's part of \<open>scan_changed_files\<close>, for a record the scan lists.\<close>

definition rescan_file :: "(ustring \<Rightarrow> nat) \<Rightarrow> scope_ref \<Rightarrow> ustring \<Rightarrow> file_read_record \<Rightarrow> disk \<Rightarrow> registry \<Rightarrow> registry" where
  "rescan_file hash ref path r d g =
     (case d path of
        None \<Rightarrow> forget_record ref path g
      | Some (body, ms) \<Rightarrow>
          if ms \<le> modified_ms r then g
          else
            let normalized = normalize_text body in
            if record_matches hash normalized r then put_record ref path (r\<lparr>modified_ms := ms\<rparr>) g
            else put_record ref path (full_read hash ms normalized) g)"

text \<open>\<open>resync_written_file\<close>.\<close>

definition resync_file :: "(ustring \<Rightarrow> nat) \<Rightarrow> scope_ref \<Rightarrow> ustring \<Rightarrow> disk \<Rightarrow> registry \<Rightarrow> registry" where
  "resync_file hash ref path d g =
     (let (r, g) = get_record ref path g in
      case (r, d path) of
        (Some r, Some (body, ms)) \<Rightarrow>
          if ms \<le> modified_ms r then g
          else
            let normalized = normalize_text body in
            if record_matches hash normalized r then put_record ref path (r\<lparr>modified_ms := ms\<rparr>) g
            else put_record ref path (written hash ms normalized False) g
      | _ \<Rightarrow> g)"

text \<open>A file on another machine is remembered under a key no local path can have; the scan skips it.\<close>

definition REMOTE_KEY_PREFIX :: ustring where
  "REMOTE_KEY_PREFIX = [0, 109, 101, 119, 111, 114, 107, 45, 114, 101, 109, 111, 116, 101, 0]"

definition remote_key :: "ustring \<Rightarrow> ustring \<Rightarrow> ustring" where
  "remote_key machine path = REMOTE_KEY_PREFIX @ machine @ [0] @ path"

definition is_remote_key :: "ustring \<Rightarrow> bool" where
  "is_remote_key path = starts_with REMOTE_KEY_PREFIX path"

definition remote_key_parts :: "ustring \<Rightarrow> (ustring \<times> ustring) option" where
  "remote_key_parts path =
     (if is_remote_key path then split_once [0] (drop (length REMOTE_KEY_PREFIX) path) else None)"

definition full_records :: "scope_ref \<Rightarrow> registry \<Rightarrow> (ustring \<times> file_read_record) list" where
  "full_records ref g =
     (case map_of (scopes g) (fst ref) of
        None \<Rightarrow> []
      | Some s \<Rightarrow> sort_key fst (map (\<lambda>(p, e). (p, rec e)) (filter (\<lambda>(_, e). full (rec e)) (entries s))))"

text \<open>\<open>scan_changed_files\<close>: the records are a snapshot, the disk is read as the scan goes.\<close>

definition scan_changed_files :: "(ustring \<Rightarrow> nat) \<Rightarrow> scope_ref \<Rightarrow> disk \<Rightarrow> registry \<Rightarrow> registry" where
  "scan_changed_files hash ref d g =
     foldl (\<lambda>g (path, r). if is_remote_key path then g else rescan_file hash ref path r d g) g (full_records ref g)"

text \<open>\<open>run_read\<close> stats the file, then reads its bytes; the record is committed when the result is final.\<close>

definition read_record :: "(ustring \<Rightarrow> nat) \<Rightarrow> int \<Rightarrow> bool \<Rightarrow> ustring \<Rightarrow> file_read_record" where
  "read_record hash ms whole body = (if whole then full_read hash ms (normalize_text body) else partial_read ms)"

end
