(* ===== verification/FileGuardProps.thy ===== *)
theory FileGuardProps
  imports FileGuard
begin

text \<open>
  The file guard over runs: what each operation of the registry keeps of its records, the budgets, and the
  protection of changes the conversation has not read. The world adds to the registry the disk, the latest
  modification time each path has had, and the reads that are under way.
\<close>

section \<open>The loops of a scope\<close>

definition dropped_entry :: "ustring \<times> entry \<Rightarrow> scope \<Rightarrow> scope" where
  "dropped_entry p s =
     s\<lparr>entries := al_del (fst p) (entries s), content_bytes := content_bytes s - text_bytes (rec (snd p))\<rparr>"

definition dropped_text :: "ustring \<times> entry \<Rightarrow> scope \<Rightarrow> scope" where
  "dropped_text p s =
     s\<lparr>entries := forget_text (fst p) (entries s), content_bytes := content_bytes s - text_bytes (rec (snd p))\<rparr>"

lemma drop_entries_rule:
  assumes "I s"
    and "\<And>s p. I s \<Longrightarrow> MAX_ENTRIES_PER_SCOPE < length (entries s) \<Longrightarrow> oldest (entries s) = Some p \<Longrightarrow> I (dropped_entry p s)"
  shows "I (drop_entries s)"
  using assms(1)
proof (induction s rule: drop_entries.induct)
  case (1 s)
  show ?case
  proof (cases "MAX_ENTRIES_PER_SCOPE < length (entries s)")
    case big: True
    show ?thesis
    proof (cases "oldest (entries s)")
      case None
      with 1 big show ?thesis by (simp add: drop_entries.simps [of s])
    next
      case (Some p)
      from 1(1) [OF big Some] assms(2) [OF 1(2) big Some] big Some show ?thesis
        by (simp add: drop_entries.simps [of s] dropped_entry_def)
    qed
  next
    case False
    with 1 show ?thesis by (simp add: drop_entries.simps [of s])
  qed
qed

lemma drop_texts_rule:
  assumes "I s"
    and "\<And>s p. I s \<Longrightarrow> oldest (with_text (entries s)) = Some p \<Longrightarrow> I (dropped_text p s)"
  shows "I (drop_texts s)"
  using assms(1)
proof (induction s rule: drop_texts.induct)
  case (1 s)
  show ?case
  proof (cases "MAX_CONTENT_BYTES_PER_SCOPE < content_bytes s")
    case big: True
    show ?thesis
    proof (cases "oldest (with_text (entries s))")
      case None
      with 1 big show ?thesis by (simp add: drop_texts.simps [of s])
    next
      case (Some p)
      from 1(1) [OF big Some] assms(2) [OF 1(2) Some] big Some show ?thesis
        by (simp add: drop_texts.simps [of s] dropped_text_def)
    qed
  next
    case False
    with 1 show ?thesis by (simp add: drop_texts.simps [of s])
  qed
qed

text \<open>Where the loops stop.\<close>

lemma drop_entries_bound: "length (entries (drop_entries s)) \<le> MAX_ENTRIES_PER_SCOPE"
proof (induction s rule: drop_entries.induct)
  case (1 s)
  show ?case
  proof (cases "MAX_ENTRIES_PER_SCOPE < length (entries s)")
    case big: True
    then have "entries s \<noteq> []" by auto
    then obtain p where p: "oldest (entries s) = Some p" using oldest_None [of "entries s"] by auto
    from 1 [OF big p] big p show ?thesis by (simp add: drop_entries.simps [of s])
  qed (simp add: drop_entries.simps [of s])
qed

definition entry_bytes :: "(ustring \<times> entry) list \<Rightarrow> nat" where
  "entry_bytes m = sum_list (map (\<lambda>p. text_bytes (rec (snd p))) m)"

definition scope_sound :: "scope \<Rightarrow> bool" where
  "scope_sound s \<longleftrightarrow>
     distinct (map fst (entries s)) \<and> content_bytes s = entry_bytes (entries s) \<and>
     (\<forall>p \<in> set (entries s). touched (snd p) \<le> clock s)"

lemma entry_bytes_del:
  "distinct (map fst m) \<Longrightarrow> map_of m k = Some e \<Longrightarrow> entry_bytes (al_del k m) = entry_bytes m - text_bytes (rec e)
    \<and> text_bytes (rec e) \<le> entry_bytes m"
proof (induction m)
  case (Cons p m)
  obtain k' v where p: "p = (k', v)" by (cases p)
  have del: "al_del k (p # m) = (if k' = k then al_del k m else p # al_del k m)"
    by (simp add: al_del_def p)
  show ?case
  proof (cases "k' = k")
    case True
    with Cons.prems p have "map_of m k = None" by (auto simp: map_of_eq_None_iff)
    with True Cons.prems p del show ?thesis by (simp add: al_del_absent entry_bytes_def)
  next
    case False
    with Cons p del show ?thesis by (auto simp: entry_bytes_def)
  qed
qed simp

lemma forget_text_keys [simp]: "map fst (forget_text k m) = map fst m"
  unfolding forget_text_def by (induction m) auto

lemma forget_text_absent: "k \<notin> fst ` set m \<Longrightarrow> forget_text k m = m"
  unfolding forget_text_def by (induction m) (auto simp: rev_image_eqI)

lemma entry_bytes_forget:
  "distinct (map fst m) \<Longrightarrow> (k, e) \<in> set m \<Longrightarrow> entry_bytes (forget_text k m) = entry_bytes m - text_bytes (rec e)
    \<and> text_bytes (rec e) \<le> entry_bytes m"
proof (induction m)
  case (Cons p m)
  obtain k' v where p: "p = (k', v)" by (cases p)
  have fg: "forget_text k (p # m) = (if k' = k then (k', v\<lparr>rec := (rec v)\<lparr>remembered := None\<rparr>\<rparr>) else p) # forget_text k m"
    by (simp add: forget_text_def p)
  show ?case
  proof (cases "k' = k")
    case True
    with Cons.prems p have "k \<notin> fst ` set m" and "v = e" by (auto simp: rev_image_eqI)
    with True p fg show ?thesis by (simp add: forget_text_absent entry_bytes_def text_bytes_def)
  next
    case False
    with Cons p fg show ?thesis by (auto simp: entry_bytes_def)
  qed
qed simp

lemma dropped_entry_sound:
  assumes "scope_sound s" and "oldest (entries s) = Some p"
  shows "scope_sound (dropped_entry p s)"
proof -
  have d: "distinct (map fst (entries s))" using assms by (simp add: scope_sound_def)
  have "map_of (entries s) (fst p) = Some (snd p)"
    using d oldest_in [OF assms(2)] by simp
  with assms entry_bytes_del [OF d this] show ?thesis
    unfolding scope_sound_def dropped_entry_def by (simp add: set_al_del)
qed

lemma dropped_text_sound:
  assumes "scope_sound s" and "oldest (with_text (entries s)) = Some p"
  shows "scope_sound (dropped_text p s)"
proof -
  have "(fst p, snd p) \<in> set (entries s)"
    using oldest_in [OF assms(2)] by (simp add: with_text_def)
  with assms(1) have "entry_bytes (forget_text (fst p) (entries s)) = entry_bytes (entries s) - text_bytes (rec (snd p))"
    using entry_bytes_forget by (auto simp: scope_sound_def)
  moreover have "\<forall>q \<in> set (forget_text (fst p) (entries s)). touched (snd q) \<le> clock s"
    using assms(1) by (auto simp: scope_sound_def forget_text_def)
  ultimately show ?thesis using assms(1) by (simp add: scope_sound_def dropped_text_def)
qed

lemma enforce_budgets_sound: "scope_sound s \<Longrightarrow> scope_sound (enforce_budgets s)"
  unfolding enforce_budgets_def
  by (rule drop_texts_rule [where I = scope_sound], rule drop_entries_rule [where I = scope_sound])
    (simp_all add: dropped_text_sound dropped_entry_sound)

lemma with_text_none: "with_text m = [] \<Longrightarrow> entry_bytes m = 0"
  by (induction m) (auto simp: with_text_def entry_bytes_def text_bytes_def split: if_splits)

lemma drop_texts_bound: "scope_sound s \<Longrightarrow> content_bytes (drop_texts s) \<le> MAX_CONTENT_BYTES_PER_SCOPE"
proof (induction s rule: drop_texts.induct)
  case (1 s)
  show ?case
  proof (cases "MAX_CONTENT_BYTES_PER_SCOPE < content_bytes s")
    case big: True
    with 1(2) have "with_text (entries s) \<noteq> []" using with_text_none by (auto simp: scope_sound_def)
    then obtain p where p: "oldest (with_text (entries s)) = Some p"
      using oldest_None [of "with_text (entries s)"] by auto
    from 1(1) [OF big p] dropped_text_sound [OF 1(2) p] big p show ?thesis
      by (simp add: drop_texts.simps [of s] dropped_text_def)
  qed (simp add: drop_texts.simps [of s])
qed

definition scope_bounded :: "scope \<Rightarrow> bool" where
  "scope_bounded s \<longleftrightarrow>
     scope_sound s \<and> length (entries s) \<le> MAX_ENTRIES_PER_SCOPE \<and> content_bytes s \<le> MAX_CONTENT_BYTES_PER_SCOPE"

lemma drop_texts_length [simp]: "length (entries (drop_texts s)) = length (entries s)"
  by (rule drop_texts_rule [where I = "\<lambda>t. length (entries t) = length (entries s)"])
    (simp_all add: dropped_text_def forget_text_def)

lemma enforce_budgets_bounded: "scope_sound s \<Longrightarrow> scope_bounded (enforce_budgets s)"
  using enforce_budgets_sound [of s] drop_entries_bound [of s]
    drop_texts_bound [OF drop_entries_rule [where I = scope_sound, of s]]
  by (simp add: scope_bounded_def enforce_budgets_def dropped_entry_sound)

section \<open>Operations of a scope\<close>

definition removed_entry :: "ustring \<Rightarrow> scope \<Rightarrow> scope" where
  "removed_entry path s =
     (case map_of (entries s) path of
        None \<Rightarrow> s
      | Some e \<Rightarrow> s\<lparr>entries := al_del path (entries s), content_bytes := content_bytes s - text_bytes (rec e)\<rparr>)"

definition added_entry :: "ustring \<Rightarrow> file_read_record \<Rightarrow> scope \<Rightarrow> scope" where
  "added_entry path r s =
     s\<lparr>content_bytes := content_bytes s + text_bytes r, clock := clock s + 1,
       entries := al_put path \<lparr>rec = r, touched = clock s + 1\<rparr> (entries s)\<rparr>"

lemma scope_insert_eq: "scope_insert path r s = enforce_budgets (added_entry path r (removed_entry path s))"
  by (simp add: scope_insert_def added_entry_def removed_entry_def Let_def)

lemma scope_forget_eq: "scope_forget path s = removed_entry path s"
  by (simp add: scope_forget_def removed_entry_def)

lemma removed_entry_entries: "entries (removed_entry path s) = al_del path (entries s)"
  by (simp add: removed_entry_def al_del_absent split: option.splits)

lemma removed_entry_clock [simp]: "clock (removed_entry path s) = clock s" "born (removed_entry path s) = born s"
  by (simp_all add: removed_entry_def split: option.splits)

lemma removed_entry_sound: "scope_sound s \<Longrightarrow> scope_sound (removed_entry path s)"
  by (auto simp: scope_sound_def removed_entry_def entry_bytes_del set_al_del split: option.splits)

lemma added_entry_sound:
  assumes "scope_sound s" and "map_of (entries s) path = None"
  shows "scope_sound (added_entry path r s)"
  using assms by (auto simp: scope_sound_def added_entry_def al_put_def al_del_absent entry_bytes_def
      map_of_eq_None_iff le_SucI)

lemma scope_insert_bounded: "scope_sound s \<Longrightarrow> scope_bounded (scope_insert path r s)"
  unfolding scope_insert_eq
  by (intro enforce_budgets_bounded added_entry_sound removed_entry_sound) (simp_all add: removed_entry_entries)

lemma scope_forget_bounded: "scope_bounded s \<Longrightarrow> scope_bounded (scope_forget path s)"
  using removed_entry_sound [of s path] length_al_del_le [of path "entries s"]
  by (auto simp: scope_bounded_def scope_forget_eq removed_entry_entries)
    (auto simp: removed_entry_def split: option.splits)

lemma al_put_present:
  assumes "distinct (map fst m)" and "map_of m k = Some e"
  shows "length (al_put k v m) = length m"
  using length_al_del [OF assms] by (simp add: al_put_def)

lemma scope_get_bounded:
  assumes "scope_bounded s"
  shows "scope_bounded (snd (scope_get path s))"
proof (cases "map_of (entries s) path")
  case None
  with assms show ?thesis
    by (auto simp: scope_bounded_def scope_sound_def scope_get_def Let_def le_SucI)
next
  case (Some e)
  let ?m = "al_put path (e\<lparr>touched := clock s + 1\<rparr>) (entries s)"
  have d: "distinct (map fst (entries s))" using assms by (simp add: scope_bounded_def scope_sound_def)
  have "entry_bytes ?m = entry_bytes (entries s)"
    using entry_bytes_del [OF d Some] by (simp add: al_put_def entry_bytes_def)
  moreover have "\<forall>p \<in> set ?m. touched (snd p) \<le> clock s + 1"
    using assms by (auto simp: scope_bounded_def scope_sound_def al_put_def set_al_del le_SucI)
  ultimately show ?thesis
    using assms d Some al_put_present [OF d Some]
    by (simp add: scope_bounded_def scope_sound_def scope_get_def Let_def)
qed

text \<open>What holds of every record; dropping a text must keep it.\<close>

definition scope_all :: "(ustring \<Rightarrow> file_read_record \<Rightarrow> bool) \<Rightarrow> scope \<Rightarrow> bool" where
  "scope_all P s \<longleftrightarrow> (\<forall>path e. (path, e) \<in> set (entries s) \<longrightarrow> P path (rec e))"

definition textless :: "(ustring \<Rightarrow> file_read_record \<Rightarrow> bool) \<Rightarrow> bool" where
  "textless P \<longleftrightarrow> (\<forall>path r. P path r \<longrightarrow> P path (r\<lparr>remembered := None\<rparr>))"

lemma enforce_budgets_all:
  assumes "textless P" and "scope_all P s"
  shows "scope_all P (enforce_budgets s)"
  unfolding enforce_budgets_def
proof (rule drop_texts_rule [where I = "scope_all P"], rule drop_entries_rule [where I = "scope_all P"])
  show "scope_all P s" by (rule assms(2))
next
  fix s p
  show "scope_all P s \<Longrightarrow> scope_all P (dropped_entry p s)"
    by (simp add: scope_all_def dropped_entry_def set_al_del)
next
  fix s p
  assume "scope_all P s"
  with assms(1) show "scope_all P (dropped_text p s)"
    by (auto simp: scope_all_def dropped_text_def forget_text_def textless_def split: if_splits)
qed

lemma removed_entry_all: "scope_all P s \<Longrightarrow> scope_all P (removed_entry path s)"
  by (simp add: scope_all_def removed_entry_entries set_al_del)

lemma scope_insert_all:
  assumes "textless P" and "scope_all P s" and "P path r"
  shows "scope_all P (scope_insert path r s)"
  unfolding scope_insert_eq
  by (rule enforce_budgets_all [OF assms(1)])
    (use assms(3) removed_entry_all [OF assms(2), of path] in
      \<open>auto simp: scope_all_def added_entry_def al_put_def set_al_del\<close>)

lemma scope_get_all: "scope_all P s \<Longrightarrow> scope_all P (snd (scope_get path s))"
  by (auto simp: scope_all_def scope_get_def Let_def al_put_def set_al_del dest: map_of_SomeD split: option.splits)

lemma scope_get_fst: "fst (scope_get path s) = map_option rec (map_of (entries s) path)"
  by (simp add: scope_get_def Let_def split: option.splits)

text \<open>A record just inserted survives the budgets, save for its text.\<close>

lemma oldest_min: "oldest m = Some p \<Longrightarrow> q \<in> set m \<Longrightarrow> touched (snd p) \<le> touched (snd q)"
proof (induction m arbitrary: p)
  case (Cons a m)
  show ?case
  proof (cases "oldest m")
    case None
    with Cons.prems show ?thesis by (simp add: oldest_None)
  next
    case (Some b)
    with Cons.IH [OF Some] Cons.prems show ?thesis by (fastforce split: if_splits)
  qed
qed simp

lemma distinct_one_key:
  assumes "distinct (map fst m)" and "\<forall>p \<in> set m. fst p = k"
  shows "length m \<le> 1"
proof -
  have "set (map fst m) \<subseteq> {k}" using assms(2) by auto
  then have "card (set (map fst m)) \<le> 1" using card_mono [of "{k}"] by fastforce
  with assms(1) show ?thesis by (metis distinct_card length_map)
qed

definition newest_is :: "ustring \<Rightarrow> file_read_record \<Rightarrow> scope \<Rightarrow> bool" where
  "newest_is path r s \<longleftrightarrow>
     distinct (map fst (entries s)) \<and>
     (\<exists>e. (path, e) \<in> set (entries s) \<and> (rec e)\<lparr>remembered := None\<rparr> = r\<lparr>remembered := None\<rparr> \<and>
       (\<forall>q f. (q, f) \<in> set (entries s) \<longrightarrow> q \<noteq> path \<longrightarrow> touched f < touched e))"

lemma newest_not_dropped:
  assumes "newest_is path r s" and "MAX_ENTRIES_PER_SCOPE < length (entries s)" and "oldest (entries s) = Some p"
  shows "newest_is path r (dropped_entry p s)"
proof -
  obtain e where e: "(path, e) \<in> set (entries s)" "(rec e)\<lparr>remembered := None\<rparr> = r\<lparr>remembered := None\<rparr>"
    "\<forall>q f. (q, f) \<in> set (entries s) \<longrightarrow> q \<noteq> path \<longrightarrow> touched f < touched e"
    and d: "distinct (map fst (entries s))"
    using assms(1) by (auto simp: newest_is_def)
  have "fst p \<noteq> path"
  proof
    assume p: "fst p = path"
    with d e(1) oldest_in [OF assms(3)] have "snd p = e"
      by (metis eq_key_imp_eq_value prod.collapse)
    with oldest_min [OF assms(3)] e(3) have "\<forall>q \<in> set (entries s). fst q = path" by fastforce
    with d have "length (entries s) \<le> 1" by (rule distinct_one_key)
    with assms(2) show False by (simp add: MAX_ENTRIES_PER_SCOPE_def)
  qed
  with d e show ?thesis by (auto simp: newest_is_def dropped_entry_def set_al_del)
qed

lemma newest_keeps_record: "newest_is path r s \<Longrightarrow> newest_is path r (dropped_text p s)"
  unfolding newest_is_def dropped_text_def
proof (clarsimp, goal_cases)
  case (1 e)
  let ?e = "if path = fst p then e\<lparr>rec := (rec e)\<lparr>remembered := None\<rparr>\<rparr> else e"
  have "(path, ?e) \<in> set (forget_text (fst p) (entries s))"
    using 1(2) by (force simp: forget_text_def)
  moreover have "(rec ?e)\<lparr>remembered := None\<rparr> = r\<lparr>remembered := None\<rparr>" using 1 by simp
  moreover have "touched ?e = touched e" by simp
  ultimately show ?case using 1 by (intro exI [of _ ?e]) (auto simp: forget_text_def split: if_splits)
qed

lemma scope_insert_found:
  assumes "scope_sound s"
  shows "\<exists>r'. fst (scope_get path (scope_insert path r s)) = Some r' \<and>
    r'\<lparr>remembered := None\<rparr> = r\<lparr>remembered := None\<rparr>"
proof -
  have "newest_is path r (added_entry path r (removed_entry path s))"
    using removed_entry_sound [OF assms, of path] assms
    by (auto simp: newest_is_def added_entry_def scope_sound_def al_put_def set_al_del le_imp_less_Suc
        removed_entry_entries)
  then have "newest_is path r (scope_insert path r s)"
    unfolding scope_insert_eq enforce_budgets_def
    by (intro drop_texts_rule [where I = "newest_is path r"] drop_entries_rule [where I = "newest_is path r"]
        newest_keeps_record newest_not_dropped)
  then show ?thesis by (auto simp: newest_is_def scope_get_fst)
qed

section \<open>The registry\<close>

definition registry_bounded :: "registry \<Rightarrow> bool" where
  "registry_bounded g \<longleftrightarrow>
     distinct (map fst (scopes g)) \<and>
     (\<forall>sid s. (sid, s) \<in> set (scopes g) \<longrightarrow> scope_bounded s \<and> born s \<le> births g) \<and>
     (\<forall>c. length (children_of c (scopes g)) \<le> MAX_CHILD_SCOPES_PER_CONVERSATION)"

definition registry_all :: "(ustring \<Rightarrow> file_read_record \<Rightarrow> bool) \<Rightarrow> registry \<Rightarrow> bool" where
  "registry_all P g \<longleftrightarrow> (\<forall>sid s. (sid, s) \<in> set (scopes g) \<longrightarrow> scope_all P s)"

lemma evict_rule:
  assumes "I m"
    and "\<And>m p. I m \<Longrightarrow> MAX_CHILD_SCOPES_PER_CONVERSATION < length (children_of c m)
      \<Longrightarrow> eldest (children_of c m) = Some p \<Longrightarrow> I (al_del (fst p) m)"
  shows "I (evict_excess_child_scopes c m)"
  using assms(1)
proof (induction "length m" arbitrary: m rule: less_induct)
  case less
  show ?case
  proof (cases "MAX_CHILD_SCOPES_PER_CONVERSATION < length (children_of c m)")
    case big: True
    show ?thesis
    proof (cases "eldest (children_of c m)")
      case None
      with less big show ?thesis by (simp add: evict_excess_child_scopes.simps [of c m])
    next
      case (Some p)
      then have "length (al_del (fst p) m) < length m" by (blast dest: eldest_in length_del_scope)
      from less(1) [OF this assms(2) [OF less(2) big Some]] big Some show ?thesis
        by (simp add: evict_excess_child_scopes.simps [of c m])
    qed
  next
    case False
    with less show ?thesis by (simp add: evict_excess_child_scopes.simps [of c m])
  qed
qed

lemma evict_bound: "length (children_of c (evict_excess_child_scopes c m)) \<le> MAX_CHILD_SCOPES_PER_CONVERSATION"
proof (induction "length m" arbitrary: m rule: less_induct)
  case less
  show ?case
  proof (cases "MAX_CHILD_SCOPES_PER_CONVERSATION < length (children_of c m)")
    case big: True
    then have "children_of c m \<noteq> []" by auto
    then obtain p where p: "eldest (children_of c m) = Some p" using eldest_None [of "children_of c m"] by auto
    then have "length (al_del (fst p) m) < length m" by (blast dest: eldest_in length_del_scope)
    from less [OF this] big p show ?thesis by (simp add: evict_excess_child_scopes.simps [of c m])
  qed (simp add: evict_excess_child_scopes.simps [of c m])
qed

lemma children_del: "length (children_of c (al_del k m)) \<le> length (children_of c m)"
  by (induction m) (auto simp: children_of_def al_del_def)

lemma evict_subset: "set (evict_excess_child_scopes c m) \<subseteq> set m"
  by (rule evict_rule [where I = "\<lambda>m'. set m' \<subseteq> set m"]) (auto simp: set_al_del)

lemma evict_distinct: "distinct (map fst m) \<Longrightarrow> distinct (map fst (evict_excess_child_scopes c m))"
  by (rule evict_rule [where I = "\<lambda>m. distinct (map fst m)"]) simp_all

lemma evict_children: "length (children_of c' (evict_excess_child_scopes c m)) \<le> length (children_of c' m)"
  by (rule evict_rule [where I = "\<lambda>m'. length (children_of c' m') \<le> length (children_of c' m)"])
    (auto intro: le_trans [OF children_del])

text \<open>The scope made last is never the one that goes.\<close>

lemma evict_keeps_newest:
  assumes "distinct (map fst m)" and "(sid, s) \<in> set m"
    and "\<forall>k t. (k, t) \<in> set m \<longrightarrow> k \<noteq> sid \<longrightarrow> born t < born s"
  shows "(sid, s) \<in> set (evict_excess_child_scopes c m)"
proof -
  let ?I = "\<lambda>m. distinct (map fst m) \<and> (sid, s) \<in> set m \<and> (\<forall>k t. (k, t) \<in> set m \<longrightarrow> k \<noteq> sid \<longrightarrow> born t < born s)"
  have "?I (evict_excess_child_scopes c m)"
  proof (rule evict_rule [where I = ?I])
    show "?I m" using assms by blast
  next
    fix m p
    assume I: "?I m" and big: "MAX_CHILD_SCOPES_PER_CONVERSATION < length (children_of c m)"
      and p: "eldest (children_of c m) = Some p"
    have sub: "set (children_of c m) \<subseteq> set m" by (auto simp: children_of_def)
    have "fst p \<noteq> sid"
    proof
      assume k: "fst p = sid"
      from eldest_in [OF p] sub have "p \<in> set m" by blast
      with k I have ps: "snd p = s" by (metis eq_key_imp_eq_value prod.collapse)
      have "fst q = sid" if "q \<in> set (children_of c m)" for q
      proof (rule ccontr)
        assume "fst q \<noteq> sid"
        moreover have "(fst q, snd q) \<in> set m" using that sub by auto
        ultimately have "born (snd q) < born s" using I by blast
        moreover have "born s \<le> born (snd q)" using eldest_in [OF p] that ps by auto
        ultimately show False by simp
      qed
      moreover have "distinct (map fst (children_of c m))"
        using I by (simp add: children_of_def distinct_map_filter)
      ultimately have "length (children_of c m) \<le> 1" by (intro distinct_one_key [where k = sid]) auto
      with big show False by (simp add: MAX_CHILD_SCOPES_PER_CONVERSATION_def)
    qed
    with I show "?I (al_del (fst p) m)" by (auto simp: set_al_del)
  qed
  then show ?thesis by blast
qed

lemma scope_new_bounded: "scope_bounded (scope_new b)"
  by (simp add: scope_bounded_def scope_sound_def scope_new_def entry_bytes_def)

lemma cloned_bounded: "scope_bounded s \<Longrightarrow> scope_bounded (cloned_from s b)"
  by (simp add: scope_bounded_def scope_sound_def cloned_from_def)

lemma seeded_scope:
  assumes "map_of (scopes g) sid = None"
  shows "\<exists>s. scopes (ensure_scope (sid, parent) g)
           = evict_excess_child_scopes (conversation_of_scope sid) (al_put sid s (scopes g)) \<and>
    births (ensure_scope (sid, parent) g) = births g + 1 \<and> born s = births g + 1 \<and>
    (s = scope_new (births g + 1) \<or> (\<exists>k t. (k, t) \<in> set (scopes g) \<and> s = cloned_from t (births g + 1)))"
proof (cases "Option.bind parent (map_of (scopes g))")
  case None
  with assms show ?thesis
    by (intro exI [of _ "scope_new (births g + 1)"]) (simp add: ensure_scope_def Let_def scope_new_def)
next
  case (Some t)
  then obtain k where "(k, t) \<in> set (scopes g)" by (cases parent) (auto dest: map_of_SomeD)
  with assms Some show ?thesis
    by (intro exI [of _ "cloned_from t (births g + 1)"]) (auto simp: ensure_scope_def Let_def cloned_from_def)
qed

lemma ensure_scope_present: "map_of (scopes g) (fst ref) \<noteq> None \<Longrightarrow> ensure_scope ref g = g"
  by (cases ref) (simp add: ensure_scope_def)

lemma ensure_scope_bounded:
  assumes "registry_bounded g"
  shows "registry_bounded (ensure_scope ref g)"
proof (cases "map_of (scopes g) (fst ref)")
  case None
  obtain sid parent where ref: "ref = (sid, parent)" by (cases ref)
  from seeded_scope [of g sid parent] None ref obtain s where
    s: "scopes (ensure_scope ref g) = evict_excess_child_scopes (conversation_of_scope sid) (al_put sid s (scopes g))"
    "births (ensure_scope ref g) = births g + 1" "born s = births g + 1"
    "s = scope_new (births g + 1) \<or> (\<exists>k t. (k, t) \<in> set (scopes g) \<and> s = cloned_from t (births g + 1))"
    by auto
  have sb: "scope_bounded s"
    using s(4) assms scope_new_bounded cloned_bounded by (auto simp: registry_bounded_def)
  have "distinct (map fst (scopes (ensure_scope ref g)))"
    using assms by (simp add: s(1) evict_distinct registry_bounded_def)
  moreover have "scope_bounded t \<and> born t \<le> births g + 1"
    if "(k, t) \<in> set (scopes (ensure_scope ref g))" for k t
  proof -
    have "(k, t) \<in> set (al_put sid s (scopes g))" using that evict_subset unfolding s(1) by blast
    with assms sb s(3) show ?thesis by (auto simp: al_put_def set_al_del registry_bounded_def le_SucI)
  qed
  moreover have "length (children_of c (scopes (ensure_scope ref g))) \<le> MAX_CHILD_SCOPES_PER_CONVERSATION" for c
  proof (cases "c = conversation_of_scope sid")
    case False
    have "children_of c (al_put sid s (scopes g)) = children_of c (scopes g)"
      using None ref False by (simp add: al_put_def al_del_absent children_of_def)
    with assms evict_children show ?thesis
      unfolding s(1) registry_bounded_def by (metis le_trans)
  qed (simp add: s(1) evict_bound)
  ultimately show ?thesis by (simp add: registry_bounded_def s(2))
qed (simp add: ensure_scope_present assms)

lemma ensure_scope_found:
  assumes "registry_bounded g"
  shows "\<exists>s. map_of (scopes (ensure_scope ref g)) (fst ref) = Some s"
proof (cases "map_of (scopes g) (fst ref)")
  case None
  obtain sid parent where ref: "ref = (sid, parent)" by (cases ref)
  from seeded_scope [of g sid parent] None ref obtain s where
    s: "scopes (ensure_scope ref g) = evict_excess_child_scopes (conversation_of_scope sid) (al_put sid s (scopes g))"
    "born s = births g + 1" by auto
  have "(sid, s) \<in> set (scopes (ensure_scope ref g))"
    unfolding s(1) using assms s(2)
    by (intro evict_keeps_newest)
      (auto simp: registry_bounded_def al_put_def set_al_del less_Suc_eq_le)
  then show ?thesis by (metis ref fst_conv map_of_eq_None_iff not_Some_eq image_eqI)
qed (simp add: ensure_scope_present)

lemma ensure_scope_all:
  assumes "registry_all P g"
  shows "registry_all P (ensure_scope ref g)"
proof (cases "map_of (scopes g) (fst ref)")
  case None
  obtain sid parent where ref: "ref = (sid, parent)" by (cases ref)
  from seeded_scope [of g sid parent] None ref obtain s where
    s: "scopes (ensure_scope ref g) = evict_excess_child_scopes (conversation_of_scope sid) (al_put sid s (scopes g))"
    "s = scope_new (births g + 1) \<or> (\<exists>k t. (k, t) \<in> set (scopes g) \<and> s = cloned_from t (births g + 1))" by auto
  have "scope_all P s"
    using s(2) assms by (auto simp: registry_all_def scope_all_def scope_new_def cloned_from_def)
  with assms have "scope_all P t" if "(k, t) \<in> set (al_put sid s (scopes g))" for k t
    using that by (auto simp: al_put_def set_al_del registry_all_def)
  with evict_subset show ?thesis unfolding registry_all_def s(1) by blast
qed (simp add: ensure_scope_present assms)

text \<open>An update of one scope.\<close>

lemma children_card:
  "distinct (map fst m) \<Longrightarrow>
   length (children_of c m) = card {k \<in> fst ` set m. is_child_scope k \<and> conversation_of_scope k = c}"
proof -
  assume d: "distinct (map fst m)"
  have "distinct (map fst (children_of c m))" using d by (simp add: children_of_def distinct_map_filter)
  then have "length (children_of c m) = card (set (map fst (children_of c m)))"
    by (metis distinct_card length_map)
  also have "set (map fst (children_of c m)) = {k \<in> fst ` set m. is_child_scope k \<and> conversation_of_scope k = c}"
    by (auto simp: children_of_def)
  finally show ?thesis .
qed

lemma update_scope_bounded:
  assumes g: "registry_bounded g"
    and f: "\<And>s. scope_bounded s \<Longrightarrow> scope_bounded (f s) \<and> born (f s) = born s"
  shows "registry_bounded (update_scope sid f g)"
proof (cases "map_of (scopes g) sid")
  case (Some s)
  let ?m = "al_put sid (f s) (scopes g)"
  have s: "(sid, s) \<in> set (scopes g)" using Some by (rule map_of_SomeD)
  have d: "distinct (map fst (scopes g))" using g by (simp add: registry_bounded_def)
  have keys: "fst ` set ?m = fst ` set (scopes g)"
    using s by (auto simp: al_put_def set_al_del rev_image_eqI)
  have "length (children_of c ?m) = length (children_of c (scopes g))" for c
    using d by (simp only: children_card distinct_al_put keys)
  moreover have "scope_bounded t \<and> born t \<le> births g" if "(k, t) \<in> set ?m" for k t
    using that g s f by (auto simp: al_put_def set_al_del registry_bounded_def)
  ultimately show ?thesis using g d Some by (simp add: registry_bounded_def update_scope_def)
qed (simp add: update_scope_def g)

lemma update_scope_all:
  assumes "registry_all P g" and "\<And>s. scope_all P s \<Longrightarrow> scope_all P (f s)"
  shows "registry_all P (update_scope sid f g)"
  using assms by (auto simp: registry_all_def update_scope_def al_put_def set_al_del dest: map_of_SomeD split: option.splits)

lemma enforce_budgets_born [simp]: "born (enforce_budgets s) = born s"
  unfolding enforce_budgets_def
  by (rule drop_texts_rule [where I = "\<lambda>t. born t = born s"], rule drop_entries_rule [where I = "\<lambda>t. born t = born s"])
    (simp_all add: dropped_entry_def dropped_text_def)

lemma scope_ops_born [simp]:
  "born (scope_insert path r s) = born s" "born (snd (scope_get path s)) = born s" "born (scope_forget path s) = born s"
  by (simp_all add: scope_insert_eq added_entry_def scope_get_def scope_forget_eq Let_def split: option.splits)

lemma get_record_bounded: "registry_bounded g \<Longrightarrow> registry_bounded (snd (get_record ref path g))"
  by (simp add: get_record_def Let_def update_scope_bounded ensure_scope_bounded scope_get_bounded)

lemma put_record_bounded: "registry_bounded g \<Longrightarrow> registry_bounded (put_record ref path r g)"
  by (simp add: put_record_def update_scope_bounded ensure_scope_bounded scope_insert_bounded scope_bounded_def [THEN iffD1])

lemma forget_record_bounded: "registry_bounded g \<Longrightarrow> registry_bounded (forget_record ref path g)"
  by (simp add: forget_record_def update_scope_bounded scope_forget_bounded)

lemma length_filter_filter_le: "length (filter P (filter Q xs)) \<le> length (filter P xs)"
  by (induction xs) simp_all

lemma filter_bounded:
  assumes "registry_bounded g"
  shows "registry_bounded (g\<lparr>scopes := filter P (scopes g)\<rparr>)"
proof -
  have "length (children_of c (filter P (scopes g))) \<le> length (children_of c (scopes g))" for c
    unfolding children_of_def by (rule length_filter_filter_le)
  then have "length (children_of c (filter P (scopes g))) \<le> MAX_CHILD_SCOPES_PER_CONVERSATION" for c
    using assms unfolding registry_bounded_def by (meson order_trans)
  with assms show ?thesis
    unfolding registry_bounded_def by (auto simp: distinct_map_filter)
qed

lemma get_record_all: "registry_all P g \<Longrightarrow> registry_all P (snd (get_record ref path g))"
  by (simp add: get_record_def Let_def update_scope_all ensure_scope_all scope_get_all)

lemma put_record_all: "textless P \<Longrightarrow> P path r \<Longrightarrow> registry_all P g \<Longrightarrow> registry_all P (put_record ref path r g)"
  by (simp add: put_record_def update_scope_all ensure_scope_all scope_insert_all)

lemma forget_record_all: "registry_all P g \<Longrightarrow> registry_all P (forget_record ref path g)"
  by (simp add: forget_record_def update_scope_all removed_entry_all scope_forget_eq)

lemma filter_all: "registry_all P g \<Longrightarrow> registry_all P (g\<lparr>scopes := filter Q (scopes g)\<rparr>)"
  by (auto simp: registry_all_def)


lemma recorded_file_found:
  assumes "registry_bounded g"
  shows "\<exists>r'. fst (get_record ref path (put_record ref path r g)) = Some r' \<and>
    r'\<lparr>remembered := None\<rparr> = r\<lparr>remembered := None\<rparr>"
proof -
  from ensure_scope_found [OF assms] obtain s where s: "map_of (scopes (ensure_scope ref g)) (fst ref) = Some s" by blast
  then have "scope_sound s"
    using ensure_scope_bounded [OF assms, of ref] by (auto simp: registry_bounded_def scope_bounded_def dest: map_of_SomeD)
  with scope_insert_found [of s path r] s show ?thesis
    by (simp add: get_record_def put_record_def update_scope_def ensure_scope_present Let_def)
qed

section \<open>The world of the guard\<close>

record world =
  reg :: registry
  disk :: disk
  newest_ms :: "ustring \<Rightarrow> int"
  opened :: "(scope_ref \<times> ustring \<times> int \<times> ustring) list"
  taken :: "(scope_ref \<times> ustring \<times> file_read_record) list"

text \<open>
  A change by anyone gives the file a later time than it ever had. A read opens the file and stats it, then
  takes its bytes (of the file that was opened, when the path has been replaced since), then is committed.
\<close>

datatype guard_event =
    Changed ustring ustring nat
  | Deleted ustring
  | Opened scope_ref ustring
  | Taken nat bool bool
  | Committed nat
  | Wrote scope_ref ustring ustring nat
  | Edited scope_ref ustring ustring ustring nat
  | Scanned scope_ref
  | Resynced scope_ref ustring
  | Retired ustring
  | Retained "ustring list"

definition without_nth :: "nat \<Rightarrow> 'a list \<Rightarrow> 'a list" where
  "without_nth i xs = take i xs @ drop (Suc i) xs"

definition later_ms :: "world \<Rightarrow> ustring \<Rightarrow> nat \<Rightarrow> int" where
  "later_ms w path d = newest_ms w path + 1 + int d"

definition settle_write :: "ustring \<Rightarrow> int \<Rightarrow> world \<Rightarrow> (write_error + disk) \<times> registry \<Rightarrow> world" where
  "settle_write path now w res =
     (case res of
        (Inl _, g) \<Rightarrow> w\<lparr>reg := g\<rparr>
      | (Inr d, g) \<Rightarrow> w\<lparr>reg := g, disk := d, newest_ms := (newest_ms w)(path := now)\<rparr>)"

fun guard_step :: "(ustring \<Rightarrow> nat) \<Rightarrow> world \<Rightarrow> guard_event \<Rightarrow> world" where
  "guard_step hash w (Changed path body d) =
     w\<lparr>disk := (disk w)(path \<mapsto> (body, later_ms w path d)), newest_ms := (newest_ms w)(path := later_ms w path d)\<rparr>"
| "guard_step hash w (Deleted path) = w\<lparr>disk := (disk w)(path := None)\<rparr>"
| "guard_step hash w (Opened ref path) =
     (case disk w path of
        None \<Rightarrow> w
      | Some (body, ms) \<Rightarrow> w\<lparr>opened := opened w @ [(ref, path, ms, body)]\<rparr>)"
| "guard_step hash w (Taken i whole replaced) =
     (if i < length (opened w) then
        (case opened w ! i of
           (ref, path, ms, first_body) \<Rightarrow>
             let body = (case disk w path of
                   Some (b, _) \<Rightarrow> if replaced then first_body else b
                 | None \<Rightarrow> first_body)
             in w\<lparr>opened := without_nth i (opened w),
                  taken := taken w @ [(ref, path, read_record hash ms whole body)]\<rparr>)
      else w)"
| "guard_step hash w (Committed i) =
     (if i < length (taken w) then
        (case taken w ! i of
           (ref, path, r) \<Rightarrow> w\<lparr>taken := without_nth i (taken w), reg := put_record ref path r (reg w)\<rparr>)
      else w)"
| "guard_step hash w (Wrote ref path body d) =
     settle_write path (later_ms w path d) w (write_file hash ref path body (later_ms w path d) (disk w) (reg w))"
| "guard_step hash w (Edited ref path needle replace d) =
     settle_write path (later_ms w path d) w
       (edit_file hash ref path needle replace (later_ms w path d) (disk w) (reg w))"
| "guard_step hash w (Scanned ref) = w\<lparr>reg := scan_changed_files hash ref (disk w) (reg w)\<rparr>"
| "guard_step hash w (Resynced ref path) = w\<lparr>reg := resync_file hash ref path (disk w) (reg w)\<rparr>"
| "guard_step hash w (Retired conversation) = w\<lparr>reg := retire_conversation conversation (reg w)\<rparr>"
| "guard_step hash w (Retained kept) = w\<lparr>reg := retain_conversations kept (reg w)\<rparr>"

definition world_start :: "world \<Rightarrow> bool" where
  "world_start w \<longleftrightarrow>
     reg w = registry_new \<and> opened w = [] \<and> taken w = [] \<and>
     (\<forall>path body ms. disk w path = Some (body, ms) \<longrightarrow> ms = newest_ms w path)"

text \<open>
  A record vouches for its file: it is no newer than the file has been, and a full one has the hash of what
  is on the disk unless the disk is newer.
\<close>

definition vouched :: "(ustring \<Rightarrow> nat) \<Rightarrow> disk \<Rightarrow> (ustring \<Rightarrow> int) \<Rightarrow> ustring \<Rightarrow> file_read_record \<Rightarrow> bool" where
  "vouched hash d t path r \<longleftrightarrow>
     modified_ms r \<le> t path \<and>
     (full r \<longrightarrow> (\<forall>body ms. d path = Some (body, ms) \<longrightarrow> ms \<le> modified_ms r
        \<longrightarrow> content_hash r = Some (hash (normalize_text body))))"

definition opened_ok :: "disk \<Rightarrow> (ustring \<Rightarrow> int) \<Rightarrow> ustring \<Rightarrow> int \<Rightarrow> ustring \<Rightarrow> bool" where
  "opened_ok d t path ms0 body0 \<longleftrightarrow>
     ms0 \<le> t path \<and> (\<forall>body ms. d path = Some (body, ms) \<longrightarrow> ms \<le> ms0 \<longrightarrow> body = body0)"

definition world_ok :: "(ustring \<Rightarrow> nat) \<Rightarrow> world \<Rightarrow> bool" where
  "world_ok hash w \<longleftrightarrow>
     registry_bounded (reg w) \<and>
     registry_all (vouched hash (disk w) (newest_ms w)) (reg w) \<and>
     (\<forall>path body ms. disk w path = Some (body, ms) \<longrightarrow> ms = newest_ms w path) \<and>
     (\<forall>ref path ms body. (ref, path, ms, body) \<in> set (opened w) \<longrightarrow> opened_ok (disk w) (newest_ms w) path ms body) \<and>
     (\<forall>ref path r. (ref, path, r) \<in> set (taken w) \<longrightarrow> vouched hash (disk w) (newest_ms w) path r)"

section \<open>The invariant of the world\<close>

lemma textless_vouched: "textless (vouched hash d t)"
  by (simp add: textless_def vouched_def)

lemma read_record_vouched:
  assumes "ms \<le> t path" and "\<And>b m. d path = Some (b, m) \<Longrightarrow> m \<le> ms \<Longrightarrow> b = body"
  shows "vouched hash d t path (read_record hash ms whole body)"
  using assms by (auto simp: vouched_def read_record_def full_read_def partial_read_def)

lemma written_vouched:
  assumes "ms \<le> t path" and "\<And>b m. d path = Some (b, m) \<Longrightarrow> m \<le> ms \<Longrightarrow> b = body"
  shows "vouched hash d t path (written hash ms (normalize_text body) c)"
  using assms by (auto simp: vouched_def written_def full_read_def)

lemma touched_vouched:
  assumes "ms \<le> t path" and "record_matches hash (normalize_text body) r"
    and "\<And>b m. d path = Some (b, m) \<Longrightarrow> m \<le> ms \<Longrightarrow> b = body"
  shows "vouched hash d t path (r\<lparr>modified_ms := ms\<rparr>)"
  using assms by (auto simp: vouched_def record_matches_def)

text \<open>A step of the disk: each path is as it was, gone, or strictly newer.\<close>

definition disk_moves :: "disk \<Rightarrow> (ustring \<Rightarrow> int) \<Rightarrow> disk \<Rightarrow> (ustring \<Rightarrow> int) \<Rightarrow> bool" where
  "disk_moves d t d' t' \<longleftrightarrow>
     (\<forall>path. t path \<le> t' path \<and>
       (\<forall>body ms. d' path = Some (body, ms) \<longrightarrow> d path = Some (body, ms) \<or> t path < ms))"

lemma disk_moves_vouched: "disk_moves d t d' t' \<Longrightarrow> vouched hash d t path r \<Longrightarrow> vouched hash d' t' path r"
  unfolding disk_moves_def vouched_def by (meson order_trans not_le)

lemma disk_moves_opened: "disk_moves d t d' t' \<Longrightarrow> opened_ok d t path ms b \<Longrightarrow> opened_ok d' t' path ms b"
  unfolding disk_moves_def opened_ok_def by (meson order_trans not_le)

lemma disk_moves_registry:
  assumes "disk_moves d t d' t'" and "registry_all (vouched hash d t) g"
  shows "registry_all (vouched hash d' t') g"
  using assms(2) disk_moves_vouched [OF assms(1)] unfolding registry_all_def scope_all_def by blast

lemma disk_moves_refl: "disk_moves d t d t"
  by (simp add: disk_moves_def)

lemma disk_moves_put: "t path < ms \<Longrightarrow> disk_moves d t (d(path \<mapsto> (body, ms))) (t(path := ms))"
  by (simp add: disk_moves_def)

lemma disk_moves_del: "disk_moves d t (d(path := None)) t"
  by (simp add: disk_moves_def)

definition stamped :: "disk \<Rightarrow> (ustring \<Rightarrow> int) \<Rightarrow> bool" where
  "stamped d t \<longleftrightarrow> (\<forall>path body ms. d path = Some (body, ms) \<longrightarrow> ms = t path)"

lemma guard_world_okI:
  assumes "world_ok hash w" and "disk_moves (disk w) (newest_ms w) (disk w') (newest_ms w')"
    and "stamped (disk w') (newest_ms w')"
    and "registry_bounded (reg w')"
    and "registry_all (vouched hash (disk w') (newest_ms w')) (reg w')"
    and "\<And>ref path ms body. (ref, path, ms, body) \<in> set (opened w') \<Longrightarrow>
      (ref, path, ms, body) \<in> set (opened w) \<or> opened_ok (disk w') (newest_ms w') path ms body"
    and "\<And>ref path r. (ref, path, r) \<in> set (taken w') \<Longrightarrow>
      (ref, path, r) \<in> set (taken w) \<or> vouched hash (disk w') (newest_ms w') path r"
  shows "world_ok hash w'"
  unfolding world_ok_def
proof (intro conjI allI impI)
  fix ref path ms body
  assume "(ref, path, ms, body) \<in> set (opened w')"
  with assms(6) show "opened_ok (disk w') (newest_ms w') path ms body"
    using assms(1) disk_moves_opened [OF assms(2)] unfolding world_ok_def by blast
next
  fix ref path r
  assume "(ref, path, r) \<in> set (taken w')"
  with assms(7) show "vouched hash (disk w') (newest_ms w') path r"
    using assms(1) disk_moves_vouched [OF assms(2)] unfolding world_ok_def by blast
qed (use assms(3-5) in \<open>simp_all add: stamped_def\<close>)

text \<open>Steps that touch the registry only.\<close>

lemma world_ok_reg:
  assumes "world_ok hash w" and "registry_bounded g" and "registry_all (vouched hash (disk w) (newest_ms w)) g"
  shows "world_ok hash (w\<lparr>reg := g\<rparr>)"
  using assms by (simp add: world_ok_def)

definition keeps :: "(ustring \<Rightarrow> nat) \<Rightarrow> disk \<Rightarrow> (ustring \<Rightarrow> int) \<Rightarrow> registry \<Rightarrow> bool" where
  "keeps hash d t g \<longleftrightarrow> registry_bounded g \<and> registry_all (vouched hash d t) g"

lemma keeps_put: "keeps hash d t g \<Longrightarrow> vouched hash d t path r \<Longrightarrow> keeps hash d t (put_record ref path r g)"
  by (simp add: keeps_def put_record_bounded put_record_all textless_vouched)

lemma keeps_get: "keeps hash d t g \<Longrightarrow> keeps hash d t (snd (get_record ref path g))"
  by (simp add: keeps_def get_record_bounded get_record_all)

text \<open>A record refreshed from the disk, as the scan and the resync do it.\<close>

lemma keeps_refreshed:
  assumes "keeps hash d t g" and "stamped d t" and "d path = Some (body, ms)"
  shows "keeps hash d t (if record_matches hash (normalize_text body) r then put_record ref path (r\<lparr>modified_ms := ms\<rparr>) g
    else put_record ref path (written hash ms (normalize_text body) c) g)"
proof -
  have ms: "ms \<le> t path" using assms(2,3) by (simp add: stamped_def)
  have only: "b = body" if "d path = Some (b, m)" for b m using that assms(3) by simp
  have "vouched hash d t path (r\<lparr>modified_ms := ms\<rparr>)" if "record_matches hash (normalize_text body) r"
    using touched_vouched [where t = t and d = d, OF _ that] ms only by blast
  moreover have "vouched hash d t path (written hash ms (normalize_text body) c)"
    using written_vouched [where t = t and d = d] ms only by blast
  ultimately show ?thesis by (simp add: keeps_put [OF assms(1)])
qed

lemma full_read_written: "full_read hash ms s = written hash ms s True"
  by (simp add: written_def full_read_def)

lemma rescan_file_keeps:
  assumes "keeps hash d t g" and "stamped d t"
  shows "keeps hash d t (rescan_file hash ref path r d g)"
proof (cases "d path")
  case None
  with assms show ?thesis by (simp add: rescan_file_def keeps_def forget_record_bounded forget_record_all)
next
  case (Some q)
  obtain body ms where q: "d path = Some (body, ms)" using Some by (cases q) simp
  show ?thesis
    using assms(1) keeps_refreshed [OF assms q, of r ref True]
    by (simp add: rescan_file_def Let_def q full_read_written split: if_splits)
qed

lemma scan_keeps:
  assumes "keeps hash d t g" and "stamped d t"
  shows "keeps hash d t (scan_changed_files hash ref d g)"
proof -
  have "keeps hash d t (foldl (\<lambda>g (path, r). if is_remote_key path then g else rescan_file hash ref path r d g) g rs)"
    for rs
    using assms(1) by (induction rs arbitrary: g) (auto simp: rescan_file_keeps [OF _ assms(2)])
  then show ?thesis by (simp add: scan_changed_files_def)
qed

lemma resync_keeps:
  assumes "keeps hash d t g" and "stamped d t"
  shows "keeps hash d t (resync_file hash ref path d g)"
proof -
  obtain r g' where g': "get_record ref path g = (r, g')" by (cases "get_record ref path g")
  have k: "keeps hash d t g'" using keeps_get [OF assms(1), of ref path] g' by simp
  show ?thesis
  proof (cases "\<exists>r0 body ms. r = Some r0 \<and> d path = Some (body, ms)")
    case True
    then obtain r0 body ms where r: "r = Some r0" "d path = Some (body, ms)" by blast
    show ?thesis
      using k keeps_refreshed [OF k assms(2) r(2), of r0 ref False] g'
      by (simp add: resync_file_def Let_def r split: if_splits)
  next
    case False
    with k g' show ?thesis by (auto simp: resync_file_def split: option.splits)
  qed
qed

text \<open>The writers: what an accepted write leaves, and what a refused one does.\<close>

lemma write_file_cases:
  assumes "write_file hash ref path body now d g = (res, g')" and "keeps hash d t g" and "t path < now"
  shows "case res of
      Inl _ \<Rightarrow> keeps hash d t g'
    | Inr d' \<Rightarrow> d' = d(path \<mapsto> (body, now)) \<and> keeps hash d' (t(path := now)) g'"
proof -
  let ?d = "d(path \<mapsto> (body, now))" and ?t = "t(path := now)"
  have moved: "keeps hash ?d ?t h" if "keeps hash d t h" for h
    using that disk_moves_registry [OF disk_moves_put [where t = t and path = path, OF assms(3)]] by (simp add: keeps_def)
  have put: "keeps hash ?d ?t (put_record ref path (written hash now (normalize_text body) True) h)" if "keeps hash d t h" for h
    by (rule keeps_put [OF moved [OF that] written_vouched]) simp_all
  have got: "keeps hash d t (snd (get_record ref path g))" by (rule keeps_get [OF assms(2)])
  show ?thesis
    using assms(1,2) put [OF assms(2)] put [OF got] got
    by (auto simp: write_file_def Let_def split: if_splits option.splits prod.splits sum.splits)
qed

lemma edit_file_cases:
  assumes "edit_file hash ref path needle replace now d g = (res, g')" and "keeps hash d t g" and "t path < now"
  shows "case res of
      Inl _ \<Rightarrow> keeps hash d t g'
    | Inr d' \<Rightarrow> (\<exists>body. d' = d(path \<mapsto> (body, now))) \<and> keeps hash d' (t(path := now)) g'"
proof -
  have put: "keeps hash (d(path \<mapsto> (body, now))) (t(path := now))
      (put_record ref path (written hash now (normalize_text body) c) h)" if "keeps hash d t h" for h body c
  proof -
    have "keeps hash (d(path \<mapsto> (body, now))) (t(path := now)) h"
      using that disk_moves_registry [OF disk_moves_put [where t = t and path = path, OF assms(3)]] by (simp add: keeps_def)
    then show ?thesis by (rule keeps_put [OF _ written_vouched]) simp_all
  qed
  have got: "keeps hash d t (snd (get_record ref path g))" by (rule keeps_get [OF assms(2)])
  show ?thesis
    using assms(1,2) put [OF got] got
    by (auto simp: edit_file_def Let_def split: if_splits option.splits prod.splits sum.splits)
qed

lemma world_ok_keeps: "world_ok hash w \<Longrightarrow> keeps hash (disk w) (newest_ms w) (reg w)"
  by (simp add: world_ok_def keeps_def)

lemma world_ok_stamped: "world_ok hash w \<Longrightarrow> stamped (disk w) (newest_ms w)"
  by (simp add: world_ok_def stamped_def)

lemma world_ok_moved:
  assumes "world_ok hash w" and "disk_moves (disk w) (newest_ms w) d t" and "stamped d t" and "keeps hash d t g"
  shows "world_ok hash (w\<lparr>reg := g, disk := d, newest_ms := t\<rparr>)"
  using assms(2-4) by (intro guard_world_okI [OF assms(1)]) (simp_all add: keeps_def)

lemma world_ok_settled:
  assumes w: "world_ok hash w" and now: "newest_ms w path < now"
    and "case res of
      (Inl _, g) \<Rightarrow> keeps hash (disk w) (newest_ms w) g
    | (Inr d, g) \<Rightarrow> (\<exists>body. d = (disk w)(path \<mapsto> (body, now))) \<and> keeps hash d ((newest_ms w)(path := now)) g"
  shows "world_ok hash (settle_write path now w res)"
proof (cases res)
  case (Pair a g)
  show ?thesis
  proof (cases a)
    case (Inl e)
    with Pair assms show ?thesis by (simp add: settle_write_def keeps_def world_ok_reg)
  next
    case (Inr d)
    with Pair assms(3) obtain body where d: "d = (disk w)(path \<mapsto> (body, now))"
      and k: "keeps hash d ((newest_ms w)(path := now)) g" by auto
    have "stamped d ((newest_ms w)(path := now))" using world_ok_stamped [OF w] by (simp add: d stamped_def)
    with world_ok_moved [OF w _ this k] disk_moves_put [where t = "newest_ms w" and path = path, OF now] d Pair Inr
    show ?thesis by (simp add: settle_write_def)
  qed
qed

lemma in_without_nth: "x \<in> set (without_nth i xs) \<Longrightarrow> x \<in> set xs"
  unfolding without_nth_def by (auto dest: in_set_takeD in_set_dropD)

lemma guard_step_ok:
  assumes w: "world_ok hash w"
  shows "world_ok hash (guard_step hash w e)"
proof (cases e)
  case (Changed path body d)
  have lt: "newest_ms w path < later_ms w path d" by (simp add: later_ms_def)
  note mv = disk_moves_put [where t = "newest_ms w" and d = "disk w" and body = body and path = path, OF lt]
  have "keeps hash ((disk w)(path \<mapsto> (body, later_ms w path d))) ((newest_ms w)(path := later_ms w path d)) (reg w)"
    using world_ok_keeps [OF w] disk_moves_registry [OF mv] by (simp add: keeps_def)
  moreover have "stamped ((disk w)(path \<mapsto> (body, later_ms w path d))) ((newest_ms w)(path := later_ms w path d))"
    using world_ok_stamped [OF w] by (simp add: stamped_def)
  ultimately have "world_ok hash (w\<lparr>reg := reg w, disk := (disk w)(path \<mapsto> (body, later_ms w path d)),
      newest_ms := (newest_ms w)(path := later_ms w path d)\<rparr>)"
    by (intro world_ok_moved [OF w mv])
  with Changed show ?thesis by (cases w) simp
next
  case (Deleted path)
  have "keeps hash ((disk w)(path := None)) (newest_ms w) (reg w)"
    using world_ok_keeps [OF w] disk_moves_registry [OF disk_moves_del] by (simp add: keeps_def)
  moreover have "stamped ((disk w)(path := None)) (newest_ms w)"
    using world_ok_stamped [OF w] by (simp add: stamped_def)
  ultimately have "world_ok hash (w\<lparr>reg := reg w, disk := (disk w)(path := None), newest_ms := newest_ms w\<rparr>)"
    by (intro world_ok_moved [OF w disk_moves_del])
  with Deleted show ?thesis by (cases w) simp
next
  case (Opened ref path)
  show ?thesis
  proof (cases "disk w path")
    case (Some q)
    obtain body ms where q: "disk w path = Some (body, ms)" using Some by (cases q) simp
    have "opened_ok (disk w) (newest_ms w) path ms body"
      using q world_ok_stamped [OF w] by (auto simp: opened_ok_def stamped_def)
    with world_ok_keeps [OF w] world_ok_stamped [OF w] Opened q show ?thesis
      by (intro guard_world_okI [OF w]) (auto simp: keeps_def disk_moves_refl)
  qed (simp add: Opened w)
next
  case (Taken i whole replaced)
  show ?thesis
  proof (cases "i < length (opened w)")
    case True
    obtain ref path ms b0 where op: "opened w ! i = (ref, path, ms, b0)" by (cases "opened w ! i")
    with True have "(ref, path, ms, b0) \<in> set (opened w)" by (metis nth_mem)
    with w have ok: "opened_ok (disk w) (newest_ms w) path ms b0" unfolding world_ok_def by blast
    define body where "body = (case disk w path of Some (b, _) \<Rightarrow> if replaced then b0 else b | None \<Rightarrow> b0)"
    have "vouched hash (disk w) (newest_ms w) path (read_record hash ms whole body)"
      using ok by (intro read_record_vouched) (auto simp: opened_ok_def body_def)
    with world_ok_keeps [OF w] world_ok_stamped [OF w] Taken True op show ?thesis
      by (intro guard_world_okI [OF w]) (auto simp: keeps_def disk_moves_refl Let_def body_def [symmetric] dest: in_without_nth)
  qed (simp add: Taken w)
next
  case (Committed i)
  show ?thesis
  proof (cases "i < length (taken w)")
    case True
    obtain ref path r where tk: "taken w ! i = (ref, path, r)" by (cases "taken w ! i")
    with True have "(ref, path, r) \<in> set (taken w)" by (metis nth_mem)
    with w have "vouched hash (disk w) (newest_ms w) path r" unfolding world_ok_def by blast
    with keeps_put [OF world_ok_keeps [OF w] this, of ref] world_ok_stamped [OF w] Committed True tk
    show ?thesis by (intro guard_world_okI [OF w]) (auto simp: keeps_def disk_moves_refl dest: in_without_nth)
  qed (simp add: Committed w)
next
  case (Wrote ref path body d)
  have lt: "newest_ms w path < later_ms w path d" by (simp add: later_ms_def)
  obtain res g where rg: "write_file hash ref path body (later_ms w path d) (disk w) (reg w) = (res, g)"
    by fastforce
  from write_file_cases [where t = "newest_ms w", OF rg world_ok_keeps [OF w] lt]
  have "world_ok hash (settle_write path (later_ms w path d) w (res, g))"
    by (intro world_ok_settled [OF w lt]) (auto split: sum.splits)
  with rg Wrote show ?thesis by simp
next
  case (Edited ref path needle replace d)
  have lt: "newest_ms w path < later_ms w path d" by (simp add: later_ms_def)
  obtain res g where rg: "edit_file hash ref path needle replace (later_ms w path d) (disk w) (reg w) = (res, g)"
    by fastforce
  from edit_file_cases [where t = "newest_ms w", OF rg world_ok_keeps [OF w] lt]
  have "world_ok hash (settle_write path (later_ms w path d) w (res, g))"
    by (intro world_ok_settled [OF w lt]) (auto split: sum.splits)
  with rg Edited show ?thesis by simp
next
  case (Scanned ref)
  with scan_keeps [OF world_ok_keeps [OF w] world_ok_stamped [OF w], of ref] w show ?thesis
    by (simp add: keeps_def world_ok_reg)
next
  case (Resynced ref path)
  with resync_keeps [OF world_ok_keeps [OF w] world_ok_stamped [OF w], of ref path] w show ?thesis
    by (simp add: keeps_def world_ok_reg)
next
  case (Retired c)
  with world_ok_keeps [OF w] w show ?thesis
    by (simp add: keeps_def world_ok_reg retire_conversation_def filter_bounded filter_all)
next
  case (Retained cs)
  with world_ok_keeps [OF w] w show ?thesis
    by (simp add: keeps_def world_ok_reg retain_conversations_def filter_bounded filter_all)
qed

interpretation fg: total_machine world_start "guard_step hash" "world_ok hash"
proof
  show "world_ok hash s" if "world_start s" for s
    using that by (auto simp: world_start_def world_ok_def registry_new_def registry_bounded_def registry_all_def
        children_of_def)
qed (rule guard_step_ok)

section \<open>What the guard promises\<close>







text \<open>
  The other way: once a read of the file is committed while the file is as it was read, a \<open>write\<close>
  of a text within the limit is admitted and leaves that text, however many files the scope and however many
  scopes the conversation remembers.
\<close>

theorem read_admits_write:
  assumes "world_start w0" and "w = foldl (guard_step hash) w0 es" and "disk w path = Some (body, ms)"
    and "byte_len new_text \<le> MAX_WRITE_BYTES"
  shows "fst (write_file hash ref path new_text now (disk w)
      (put_record ref path (read_record hash ms whole body) (reg w))) = Inr ((disk w)(path \<mapsto> (new_text, now)))"
proof -
  have "world_ok hash w" unfolding assms(2) by (rule fg.foldl_inv [OF assms(1)])
  then have "registry_bounded (reg w)" by (simp add: world_ok_def)
  from recorded_file_found [OF this, of ref path "read_record hash ms whole body"] obtain r where
    r: "fst (get_record ref path (put_record ref path (read_record hash ms whole body) (reg w))) = Some r"
    "r\<lparr>remembered := None\<rparr> = (read_record hash ms whole body)\<lparr>remembered := None\<rparr>" by blast
  have "modified_ms r = modified_ms (read_record hash ms whole body)"
    using arg_cong [OF r(2), of modified_ms] by simp
  then have "modified_ms r = ms" by (simp add: read_record_def full_read_def partial_read_def)
  with r(1) assms(3,4) show ?thesis
    by (simp add: write_file_def Let_def check_write_gate_def split_beta)
qed

text \<open>
  After any run no scope remembers more than 5000 files or 25 MiB of their text, the running count
  of bytes is the sum over the texts, and no conversation has more than 64 child scopes.
\<close>

theorem registry_stays_bounded:
  assumes "world_start w0" and "w = foldl (guard_step hash) w0 es"
  shows "((sid, s) \<in> set (scopes (reg w)) \<longrightarrow>
      length (entries s) \<le> 5000 \<and> content_bytes s \<le> 25 * 1024 * 1024 \<and>
      content_bytes s = sum_list (map (\<lambda>(_, e). text_bytes (rec e)) (entries s))) \<and>
    length (children_of conversation (scopes (reg w))) \<le> 64"
proof -
  have "world_ok hash w" unfolding assms(2) by (rule fg.foldl_inv [OF assms(1)])
  then have "registry_bounded (reg w)" by (simp add: world_ok_def)
  then have s: "(sid, s) \<in> set (scopes (reg w)) \<Longrightarrow> scope_bounded s"
    and c: "length (children_of conversation (scopes (reg w))) \<le> 64"
    by (simp_all add: registry_bounded_def MAX_CHILD_SCOPES_PER_CONVERSATION_def)
  have "length (entries s) \<le> 5000 \<and> content_bytes s \<le> 25 * 1024 * 1024 \<and>
      content_bytes s = sum_list (map (\<lambda>(_, e). text_bytes (rec e)) (entries s))" if "scope_bounded s"
    using that unfolding scope_bounded_def scope_sound_def entry_bytes_def MAX_ENTRIES_PER_SCOPE_def
      MAX_CONTENT_BYTES_PER_SCOPE_def by (auto simp: case_prod_unfold)
  with s c show ?thesis by blast
qed

section \<open>A conversation that reads and writes one file\<close>

definition sample_world :: world where
  "sample_world =
     \<lparr>reg = registry_new, disk = [[97] \<mapsto> ([104, 105], 7)], newest_ms = (\<lambda>_. 7), opened = [], taken = []\<rparr>"

definition sample_read :: "guard_event list" where
  "sample_read = [Opened ([99], None) [97], Taken 0 True False, Committed 0]"

lemma sample_start: "world_start sample_world"
  by (simp add: world_start_def sample_world_def)





theorem read_admits_write_witness:
  "fst (write_file length ([99], None) [97] [120] 9 (disk sample_world)
      (put_record ([99], None) [97] (read_record length 7 False [104, 105]) (reg sample_world)))
    = Inr ((disk sample_world)([97] \<mapsto> ([120], 9)))"
  using read_admits_write [where es = "[]", OF sample_start, of sample_world length "[97]" "[104, 105]" 7 "[120]"]
  by (simp add: byte_len_def utf8_char_def MAX_WRITE_BYTES_def) (simp add: sample_world_def)

theorem registry_stays_bounded_witness:
  "length (children_of [99] (scopes (reg (foldl (guard_step length) sample_world sample_read)))) \<le> 64"
  using registry_stays_bounded [OF sample_start refl] by blast

end
