(* ===== verification/Boundary.thy ===== *)
theory Boundary
  imports Json "HOL-Library.Multiset"
begin

text \<open>
  The structural boundary between workflow scripts and the host (\<^verbatim>\<open>workflow-core/src/boundary.rs\<close>):
  the graph of plain data and the outbound clone. The script engine is the argument \<open>src\<close>, one field per
  method of the trait \<open>SourceValue\<close>; the methods that can run script code take and leave the script's world.
  A clone that fails leaves no graph, and its effects on the world are not followed.
\<close>

section \<open>Data\<close>

text \<open>An \<open>f64\<close>; the sign of zero is not kept.\<close>

datatype f64 = Fin rat | PosInf | NegInf | NaN

definition MAX_BOUNDARY_ITEMS :: nat where "MAX_BOUNDARY_ITEMS = 4096"
definition MAX_BOUNDARY_DEPTH :: nat where "MAX_BOUNDARY_DEPTH = 1000"
definition MAX_JSON_OUTPUT_NODES :: nat where "MAX_JSON_OUTPUT_NODES = 100000"
definition MAX_SAFE_INTEGER :: nat where "MAX_SAFE_INTEGER = 9007199254740991"
definition MAX_INTEGER_JSON_MAGNITUDE :: nat where "MAX_INTEGER_JSON_MAGNITUDE = 9007199254740992"

text \<open>\<^verbatim>\<open>__proto__\<close>.\<close>

definition PROTO :: ustring where
  "PROTO = [95, 95, 112, 114, 111, 116, 111, 95, 95]"

datatype source_kind = KUndefined | KNull | KBool | KNumber | KString | KArray | KObject | KFunction

record ('v, 's) source =
  kind :: "'v \<Rightarrow> source_kind"
  identity :: "'v \<Rightarrow> nat option"
  boolean :: "'v \<Rightarrow> bool"
  number :: "'v \<Rightarrow> f64"
  string_value :: "'v \<Rightarrow> ustring"
  array_length :: "'v \<Rightarrow> 's \<Rightarrow> (ustring + f64) \<times> 's"
  array_element :: "'v \<Rightarrow> nat \<Rightarrow> 's \<Rightarrow> (ustring + 'v) \<times> 's"
  own_entries :: "'v \<Rightarrow> 's \<Rightarrow> (ustring + (ustring \<times> 'v) list) \<times> 's"

datatype boundary_node =
    BNull
  | BBool bool
  | BNumber f64
  | BString ustring
  | BArray "nat list"
  | BObject "(ustring \<times> nat) list"

record boundary_graph =
  graph_nodes :: "boundary_node list"
  graph_root :: nat

datatype boundary_error =
    TooManyItems nat
  | NonSafeIntegerLength f64
  | TooDeep nat
  | OutputTooLarge nat
  | Cycle
  | SourceError ustring
  | SinkError ustring
  | NoSuchNode nat

section \<open>The outbound clone\<close>

datatype 'v out_work =
    OutArray nat 'v nat (task_depth: nat)
  | OutObject nat 'v (task_depth: nat)

record ('v, 's) cloner =
  nodes_out :: "boundary_node list"
  visited :: "(nat \<times> nat) list"
  work :: "'v out_work list"
  world :: 's

definition add_node :: "boundary_node \<Rightarrow> ('v, 's) cloner \<Rightarrow> nat \<times> ('v, 's) cloner" where
  "add_node n c = (length (nodes_out c), c\<lparr>nodes_out := nodes_out c @ [n]\<rparr>)"

definition set_node :: "nat \<Rightarrow> boundary_node \<Rightarrow> ('v, 's) cloner \<Rightarrow> ('v, 's) cloner" where
  "set_node i n c = c\<lparr>nodes_out := (nodes_out c)[i := n]\<rparr>"

definition remember :: "nat option \<Rightarrow> nat \<Rightarrow> ('v, 's) cloner \<Rightarrow> ('v, 's) cloner" where
  "remember ident i c = (case ident of None \<Rightarrow> c | Some a \<Rightarrow> c\<lparr>visited := al_put a i (visited c)\<rparr>)"

definition push_work :: "'v out_work \<Rightarrow> ('v, 's) cloner \<Rightarrow> ('v, 's) cloner" where
  "push_work t c = c\<lparr>work := t # work c\<rparr>"

text \<open>The length an array reports: a non-negative safe integer within the limit.\<close>

definition safe_integer :: "rat \<Rightarrow> bool" where
  "safe_integer x \<longleftrightarrow> 0 \<le> x \<and> x = of_int \<lfloor>x\<rfloor> \<and> x \<le> of_nat MAX_SAFE_INTEGER"

definition checked_length :: "f64 \<Rightarrow> boundary_error + nat" where
  "checked_length raw =
     (case raw of
        Fin x \<Rightarrow>
          if safe_integer x then
            (let len = nat \<lfloor>x\<rfloor> in if len > MAX_BOUNDARY_ITEMS then Inl (TooManyItems len) else Inr len)
          else Inl (NonSafeIntegerLength raw)
      | _ \<Rightarrow> Inl (NonSafeIntegerLength raw))"

fun is_container :: "source_kind \<Rightarrow> bool" where
  "is_container KArray = True"
| "is_container KObject = True"
| "is_container _ = False"

definition known_node :: "('v, 's) source \<Rightarrow> 'v \<Rightarrow> ('v, 's) cloner \<Rightarrow> nat option" where
  "known_node src v c = (if is_container (kind src v) then Option.bind (identity src v) (map_of (visited c)) else None)"

definition allocate_source ::
  "('v, 's) source \<Rightarrow> 'v \<Rightarrow> nat \<Rightarrow> ('v, 's) cloner \<Rightarrow> boundary_error + nat \<times> ('v, 's) cloner" where
  "allocate_source src v depth c =
     (case known_node src v c of
        Some i \<Rightarrow> Inr (i, c)
      | None \<Rightarrow>
          if is_container (kind src v) \<and> depth > MAX_BOUNDARY_DEPTH then Inl (TooDeep depth)
          else case kind src v of
              KUndefined \<Rightarrow> Inr (add_node BNull c)
            | KFunction \<Rightarrow> Inr (add_node BNull c)
            | KNull \<Rightarrow> Inr (add_node BNull c)
            | KBool \<Rightarrow> Inr (add_node (BBool (boolean src v)) c)
            | KNumber \<Rightarrow> Inr (add_node (BNumber (number src v)) c)
            | KString \<Rightarrow> Inr (add_node (BString (string_value src v)) c)
            | KArray \<Rightarrow>
                (let (i, c) = add_node (BArray []) c; c = remember (identity src v) i c in
                 case array_length src v (world c) of
                   (Inl e, _) \<Rightarrow> Inl (SourceError e)
                 | (Inr raw, s) \<Rightarrow>
                     (case checked_length raw of
                        Inl e \<Rightarrow> Inl e
                      | Inr len \<Rightarrow> Inr (i, push_work (OutArray i v len depth) (c\<lparr>world := s\<rparr>))))
            | KObject \<Rightarrow>
                (let (i, c) = add_node (BObject []) c; c = remember (identity src v) i c
                 in Inr (i, push_work (OutObject i v depth) c)))"

text \<open>The elements \<open>from, \<dots>, from + n - 1\<close>.\<close>

fun clone_elements ::
  "('v, 's) source \<Rightarrow> 'v \<Rightarrow> nat \<Rightarrow> nat \<Rightarrow> nat \<Rightarrow> ('v, 's) cloner \<Rightarrow> boundary_error + nat list \<times> ('v, 's) cloner" where
  "clone_elements src v depth index 0 c = Inr ([], c)"
| "clone_elements src v depth index (Suc n) c =
     (case array_element src v index (world c) of
        (Inl e, _) \<Rightarrow> Inl (SourceError e)
      | (Inr child, s) \<Rightarrow>
          (case allocate_source src child (depth + 1) (c\<lparr>world := s\<rparr>) of
             Inl e \<Rightarrow> Inl e
           | Inr (i, c) \<Rightarrow>
               (case clone_elements src v depth (index + 1) n c of
                  Inl e \<Rightarrow> Inl e
                | Inr (is, c) \<Rightarrow> Inr (i # is, c))))"

definition skips :: "('v, 's) source \<Rightarrow> ustring \<Rightarrow> 'v \<Rightarrow> bool" where
  "skips src key child \<longleftrightarrow> key = PROTO \<or> kind src child = KUndefined \<or> kind src child = KFunction"

fun clone_properties ::
  "('v, 's) source \<Rightarrow> nat \<Rightarrow> (ustring \<times> 'v) list \<Rightarrow> ('v, 's) cloner
    \<Rightarrow> boundary_error + (ustring \<times> nat) list \<times> ('v, 's) cloner" where
  "clone_properties src depth [] c = Inr ([], c)"
| "clone_properties src depth ((key, child) # rest) c =
     (if skips src key child then clone_properties src depth rest c
      else case allocate_source src child (depth + 1) c of
          Inl e \<Rightarrow> Inl e
        | Inr (i, c) \<Rightarrow>
            (case clone_properties src depth rest c of
               Inl e \<Rightarrow> Inl e
             | Inr (ps, c) \<Rightarrow> Inr ((key, i) # ps, c)))"

fun clone_task :: "('v, 's) source \<Rightarrow> 'v out_work \<Rightarrow> ('v, 's) cloner \<Rightarrow> boundary_error + ('v, 's) cloner" where
  "clone_task src (OutArray i v len depth) c =
     (case clone_elements src v depth 0 len c of
        Inl e \<Rightarrow> Inl e
      | Inr (is, c) \<Rightarrow> Inr (set_node i (BArray is) c))"
| "clone_task src (OutObject i v depth) c =
     (case own_entries src v (world c) of
        (Inl e, _) \<Rightarrow> Inl (SourceError e)
      | (Inr ps, s) \<Rightarrow>
          (case clone_properties src depth ps (c\<lparr>world := s\<rparr>) of
             Inl e \<Rightarrow> Inl e
           | Inr (ps, c) \<Rightarrow> Inr (set_node i (BObject ps) c)))"

subsection \<open>The loop ends\<close>

text \<open>What a step pushes is one level deeper and within the limit.\<close>

definition deeper :: "nat \<Rightarrow> 'v out_work list \<Rightarrow> 'v out_work list \<Rightarrow> bool" where
  "deeper d old new \<longleftrightarrow> (\<exists>ts. new = ts @ old \<and> (\<forall>t \<in> set ts. task_depth t = d \<and> d \<le> MAX_BOUNDARY_DEPTH))"

lemma deeper_refl [simp]: "deeper d w w"
  by (simp add: deeper_def)

lemma deeper_trans: "deeper d w w' \<Longrightarrow> deeper d w' w'' \<Longrightarrow> deeper d w w''"
  unfolding deeper_def by force

lemma add_node_fields [simp]:
  "fst (add_node n c) = length (nodes_out c)"
  "nodes_out (snd (add_node n c)) = nodes_out c @ [n]"
  "work (snd (add_node n c)) = work c"
  "visited (snd (add_node n c)) = visited c"
  "world (snd (add_node n c)) = world c"
  by (simp_all add: add_node_def)

lemma remember_fields [simp]:
  "nodes_out (remember a i c) = nodes_out c"
  "work (remember a i c) = work c"
  "world (remember a i c) = world c"
  by (simp_all add: remember_def split: option.splits)

lemma set_node_fields [simp]:
  "nodes_out (set_node i n c) = (nodes_out c)[i := n]"
  "work (set_node i n c) = work c"
  "visited (set_node i n c) = visited c"
  by (simp_all add: set_node_def)

lemma push_work_fields [simp]:
  "nodes_out (push_work t c) = nodes_out c"
  "work (push_work t c) = t # work c"
  "visited (push_work t c) = visited c"
  by (simp_all add: push_work_def)

text \<open>The ways an allocation can succeed.\<close>

lemma allocate_source_cases:
  assumes "allocate_source src v depth c = Inr (i, c')"
  obtains
    (known) "is_container (kind src v)" "known_node src v c = Some i" "c' = c"
  | (scalar) n where "\<not> is_container (kind src v)" "(i, c') = add_node n c"
      "n = (case kind src v of
          KBool \<Rightarrow> BBool (boolean src v) | KNumber \<Rightarrow> BNumber (number src v) | KString \<Rightarrow> BString (string_value src v)
        | _ \<Rightarrow> BNull)"
  | (array) raw s len where "kind src v = KArray" "known_node src v c = None" "depth \<le> MAX_BOUNDARY_DEPTH"
      "i = length (nodes_out c)" "array_length src v (world c) = (Inr raw, s)" "checked_length raw = Inr len"
      "c' = push_work (OutArray i v len depth) ((remember (identity src v) i (snd (add_node (BArray []) c)))\<lparr>world := s\<rparr>)"
  | (object) "kind src v = KObject" "known_node src v c = None" "depth \<le> MAX_BOUNDARY_DEPTH"
      "i = length (nodes_out c)"
      "c' = push_work (OutObject i v depth) (remember (identity src v) i (snd (add_node (BObject []) c)))"
proof (cases "known_node src v c")
  case (Some j)
  then have "is_container (kind src v)" by (auto simp: known_node_def split: if_splits)
  with Some assms show ?thesis by (intro known) (auto simp: allocate_source_def)
next
  case None
  show ?thesis
  proof (cases "kind src v")
    case KArray
    with None assms show ?thesis
      by (auto simp: allocate_source_def add_node_def split: if_splits prod.splits sum.splits intro!: array)
  next
    case KObject
    with None assms show ?thesis
      by (auto simp: allocate_source_def add_node_def split: if_splits intro!: object)
  qed (use None assms in \<open>auto simp: allocate_source_def intro!: scalar\<close>)
qed

lemma allocate_source_deeper:
  assumes "allocate_source src v depth c = Inr (i, c')"
  shows "deeper depth (work c) (work c')"
  using assms by (cases rule: allocate_source_cases) (auto simp: deeper_def add_node_def)

lemma clone_elements_deeper:
  "clone_elements src v depth index n c = Inr (is, c') \<Longrightarrow> deeper (depth + 1) (work c) (work c')"
proof (induction n arbitrary: index c "is")
  case (Suc n)
  then obtain child s i c1 is' where
    "allocate_source src child (depth + 1) (c\<lparr>world := s\<rparr>) = Inr (i, c1)"
    "clone_elements src v depth (index + 1) n c1 = Inr (is', c')"
    by (auto split: prod.splits sum.splits)
  with allocate_source_deeper [OF this(1)] Suc.IH [OF this(2)] show ?case by (simp add: deeper_trans)
qed simp

lemma clone_properties_deeper:
  "clone_properties src depth ps c = Inr (qs, c') \<Longrightarrow> deeper (depth + 1) (work c) (work c')"
proof (induction ps arbitrary: c qs)
  case (Cons p ps)
  obtain key child where p: "p = (key, child)" by (cases p)
  show ?case
  proof (cases "skips src key child")
    case False
    with Cons.prems p obtain i c1 qs' where
      "allocate_source src child (depth + 1) c = Inr (i, c1)" "clone_properties src depth ps c1 = Inr (qs', c')"
      by (auto split: prod.splits sum.splits)
    with allocate_source_deeper [OF this(1)] Cons.IH [OF this(2)] show ?thesis by (simp add: deeper_trans)
  qed (use Cons p in simp)
qed simp

lemma clone_task_deeper:
  assumes "clone_task src t c = Inr c'"
  shows "deeper (task_depth t + 1) (work c) (work c')"
proof (cases t)
  case (OutArray i v len depth)
  with assms show ?thesis by (auto split: sum.splits prod.splits dest: clone_elements_deeper)
next
  case (OutObject i v depth)
  with assms obtain ps s qs c1 where "clone_properties src depth ps (c\<lparr>world := s\<rparr>) = Inr (qs, c1)" "work c' = work c1"
    by (auto split: sum.splits prod.splits)
  with OutObject clone_properties_deeper [of src depth ps "c\<lparr>world := s\<rparr>"] show ?thesis by simp
qed

text \<open>The levels left below each waiting task.\<close>

definition levels_left :: "'v out_work list \<Rightarrow> nat multiset" where
  "levels_left ts = mset (map (\<lambda>t. Suc MAX_BOUNDARY_DEPTH - task_depth t) ts)"

lemma levels_left_decrease:
  assumes "deeper (task_depth t + 1) ts ts'"
  shows "(levels_left ts', levels_left (t # ts)) \<in> mult less_than"
proof -
  obtain new where ts': "ts' = new @ ts"
    and new: "\<forall>u \<in> set new. task_depth u = task_depth t + 1 \<and> task_depth t + 1 \<le> MAX_BOUNDARY_DEPTH"
    using assms by (auto simp: deeper_def)
  let ?K = "levels_left new" and ?J = "{#Suc MAX_BOUNDARY_DEPTH - task_depth t#}"
  have "\<forall>k \<in> set_mset ?K. \<exists>j \<in> set_mset ?J. (k, j) \<in> less_than"
    using new by (auto simp: levels_left_def)
  then have "(levels_left ts + ?K, levels_left ts + ?J) \<in> mult less_than"
    by (intro one_step_implies_mult) simp_all
  then show ?thesis by (simp add: ts' levels_left_def union_commute)
qed

text \<open>The loop of \<open>clone_out\<close>: it ends whatever the script answers.\<close>

function clone_loop :: "('v, 's) source \<Rightarrow> ('v, 's) cloner \<Rightarrow> boundary_error + ('v, 's) cloner" where
  "clone_loop src c =
     (case work c of
        [] \<Rightarrow> Inr c
      | t # ts \<Rightarrow>
          (case clone_task src t (c\<lparr>work := ts\<rparr>) of
             Inl e \<Rightarrow> Inl e
           | Inr c' \<Rightarrow> clone_loop src c'))"
  by pat_completeness auto
termination
proof (relation "inv_image (mult less_than) (\<lambda>(src, c). levels_left (work c))")
  show "wf (inv_image (mult less_than) (\<lambda>(src, c). levels_left (work c)))"
    by (simp add: wf_mult)
next
  fix src :: "('v, 's) source" and c :: "('v, 's) cloner" and t ts c'
  assume "work c = t # ts" and "clone_task src t (c\<lparr>work := ts\<rparr>) = Inr c'"
  with clone_task_deeper [of src t "c\<lparr>work := ts\<rparr>" c'] show
    "((src, c'), (src, c)) \<in> inv_image (mult less_than) (\<lambda>(src, c). levels_left (work c))"
    by (simp add: levels_left_decrease)
qed

declare clone_loop.simps [simp del]

definition clone_out :: "('v, 's) source \<Rightarrow> 'v \<Rightarrow> 's \<Rightarrow> boundary_error + boundary_graph \<times> 's" where
  "clone_out src v0 s =
     (case allocate_source src v0 1 \<lparr>nodes_out = [], visited = [], work = [], world = s\<rparr> of
        Inl e \<Rightarrow> Inl e
      | Inr (i, c) \<Rightarrow>
          (case clone_loop src c of
             Inl e \<Rightarrow> Inl e
           | Inr c \<Rightarrow> Inr (\<lparr>graph_nodes = nodes_out c, graph_root = i\<rparr>, world c)))"

lemma clone_loop_rule:
  assumes "I c" and "clone_loop src c = Inr c'"
    and "\<And>c t ts c'. I c \<Longrightarrow> work c = t # ts \<Longrightarrow> clone_task src t (c\<lparr>work := ts\<rparr>) = Inr c' \<Longrightarrow> I c'"
  shows "I c' \<and> work c' = []"
  using assms
proof (induction src c rule: clone_loop.induct)
  case (1 src c)
  show ?case
  proof (cases "work c")
    case Nil
    with 1 show ?thesis by (simp add: clone_loop.simps [of src c])
  next
    case (Cons t ts)
    with 1(3) obtain c1 where "clone_task src t (c\<lparr>work := ts\<rparr>) = Inr c1" "clone_loop src c1 = Inr c'"
      by (auto simp: clone_loop.simps [of src c] split: sum.splits)
    from 1(1) [OF Cons this(1) 1(4) [OF 1(2) Cons this(1)] this(2)] 1(4) show ?thesis by blast
  qed
qed

section \<open>What crosses the boundary is plain, closed data\<close>

text \<open>A node of a graph of \<open>n\<close> nodes: edges inside it, arrays within the limit, no prototype key.\<close>

fun node_ok :: "nat \<Rightarrow> boundary_node \<Rightarrow> bool" where
  "node_ok n (BArray is) = ((\<forall>i \<in> set is. i < n) \<and> length is \<le> MAX_BOUNDARY_ITEMS)"
| "node_ok n (BObject ps) = (\<forall>p \<in> set ps. snd p < n \<and> fst p \<noteq> PROTO)"
| "node_ok n _ = True"

definition graph_ok :: "boundary_graph \<Rightarrow> bool" where
  "graph_ok g \<longleftrightarrow> graph_root g < length (graph_nodes g) \<and> (\<forall>n \<in> set (graph_nodes g). node_ok (length (graph_nodes g)) n)"

lemma node_ok_mono: "node_ok m n \<Longrightarrow> m \<le> m' \<Longrightarrow> node_ok m' n"
  by (cases n) auto

definition nodes_ok :: "('v, 's) cloner \<Rightarrow> bool" where
  "nodes_ok c \<longleftrightarrow>
     (\<forall>n \<in> set (nodes_out c). node_ok (length (nodes_out c)) n) \<and>
     (\<forall>p \<in> set (visited c). snd p < length (nodes_out c)) \<and>
     (\<forall>i v len d. OutArray i v len d \<in> set (work c) \<longrightarrow> len \<le> MAX_BOUNDARY_ITEMS)"

lemma checked_length_bound: "checked_length raw = Inr len \<Longrightarrow> len \<le> MAX_BOUNDARY_ITEMS"
  by (auto simp: checked_length_def Let_def split: f64.splits if_splits)

lemma nodes_ok_add: "nodes_ok c \<Longrightarrow> node_ok (Suc (length (nodes_out c))) n \<Longrightarrow> nodes_ok (snd (add_node n c))"
  by (auto simp: nodes_ok_def add_node_def intro: node_ok_mono)

lemma nodes_ok_remember: "nodes_ok c \<Longrightarrow> i < length (nodes_out c) \<Longrightarrow> nodes_ok (remember a i c)"
  by (auto simp: nodes_ok_def remember_def al_put_def set_al_del split: option.splits)

lemma nodes_ok_push: "nodes_ok c \<Longrightarrow> (\<And>i v len d. t = OutArray i v len d \<Longrightarrow> len \<le> MAX_BOUNDARY_ITEMS) \<Longrightarrow> nodes_ok (push_work t c)"
  by (cases t) (auto simp: nodes_ok_def push_work_def)

lemma nodes_ok_world: "nodes_ok (c\<lparr>world := s\<rparr>) \<longleftrightarrow> nodes_ok c"
  by (simp add: nodes_ok_def)

lemma nodes_ok_set: "nodes_ok c \<Longrightarrow> node_ok (length (nodes_out c)) n \<Longrightarrow> nodes_ok (set_node i n c)"
  by (auto simp: nodes_ok_def dest: set_updateD)

lemma allocate_source_ok:
  assumes "allocate_source src v depth c = Inr (i, c')" and ok: "nodes_ok c"
  shows "nodes_ok c' \<and> i < length (nodes_out c') \<and> length (nodes_out c) \<le> length (nodes_out c')"
  using assms(1)
proof (cases rule: allocate_source_cases)
  case known
  then obtain a where "map_of (visited c) a = Some i" by (auto simp: known_node_def bind_eq_Some_conv split: if_splits)
  with ok known show ?thesis by (auto simp: nodes_ok_def dest!: map_of_SomeD)
next
  case (scalar n)
  then have "c' = snd (add_node n c)" and "i = length (nodes_out c)" by (simp_all add: add_node_def)
  moreover have "node_ok m n" for m using scalar by (cases "kind src v") simp_all
  ultimately show ?thesis using ok by (simp add: nodes_ok_add)
next
  case (array raw s len)
  then show ?thesis
    using ok checked_length_bound [OF array(6)] by (auto simp: nodes_ok_world intro!: nodes_ok_push nodes_ok_remember nodes_ok_add)
next
  case object
  then show ?thesis using ok by (auto intro!: nodes_ok_push nodes_ok_remember nodes_ok_add)
qed

lemma clone_elements_ok:
  "clone_elements src v depth index n c = Inr (is, c') \<Longrightarrow> nodes_ok c \<Longrightarrow>
   nodes_ok c' \<and> (\<forall>i \<in> set is. i < length (nodes_out c')) \<and> length is = n \<and> length (nodes_out c) \<le> length (nodes_out c')"
proof (induction n arbitrary: index c "is")
  case (Suc n)
  from Suc.prems(1) obtain child s i c1 is' where
    a: "allocate_source src child (depth + 1) (c\<lparr>world := s\<rparr>) = Inr (i, c1)"
    and r: "clone_elements src v depth (index + 1) n c1 = Inr (is', c')" and "is": "is = i # is'"
    by (auto split: prod.splits sum.splits)
  from allocate_source_ok [OF a] Suc.prems(2) Suc.IH [OF r] show ?case by (auto simp: "is" nodes_ok_world)
qed simp

lemma clone_properties_ok:
  "clone_properties src depth ps c = Inr (qs, c') \<Longrightarrow> nodes_ok c \<Longrightarrow>
   nodes_ok c' \<and> (\<forall>q \<in> set qs. snd q < length (nodes_out c') \<and> fst q \<noteq> PROTO) \<and>
   length (nodes_out c) \<le> length (nodes_out c')"
proof (induction ps arbitrary: c qs)
  case (Cons p ps)
  obtain key child where p: "p = (key, child)" by (cases p)
  show ?case
  proof (cases "skips src key child")
    case False
    with Cons.prems p obtain i c1 qs' where
      a: "allocate_source src child (depth + 1) c = Inr (i, c1)" and r: "clone_properties src depth ps c1 = Inr (qs', c')"
      and qs: "qs = (key, i) # qs'"
      by (auto split: prod.splits sum.splits)
    from False have "key \<noteq> PROTO" by (simp add: skips_def)
    with allocate_source_ok [OF a Cons.prems(2)] Cons.IH [OF r] show ?thesis by (auto simp: qs)
  qed (use Cons p in simp)
qed simp

lemma nodes_ok_rest: "nodes_ok c \<Longrightarrow> work c = t # ts \<Longrightarrow> nodes_ok (c\<lparr>work := ts\<rparr>)"
  by (auto simp: nodes_ok_def)

lemma clone_task_ok:
  assumes "nodes_ok c" and "work c = t # ts" and "clone_task src t (c\<lparr>work := ts\<rparr>) = Inr c'"
  shows "nodes_ok c' \<and> length (nodes_out c) \<le> length (nodes_out c')"
proof (cases t)
  case (OutArray i v len depth)
  with assms(3) obtain "is" c1 where e: "clone_elements src v depth 0 len (c\<lparr>work := ts\<rparr>) = Inr (is, c1)"
    and c': "c' = set_node i (BArray is) c1"
    by (auto split: sum.splits)
  have "len \<le> MAX_BOUNDARY_ITEMS" using assms(1,2) OutArray by (auto simp: nodes_ok_def)
  with clone_elements_ok [OF e nodes_ok_rest [OF assms(1,2)]] show ?thesis by (simp add: c' nodes_ok_set)
next
  case (OutObject i v depth)
  with assms(3) obtain ps s qs c1 where e: "clone_properties src depth ps (c\<lparr>work := ts, world := s\<rparr>) = Inr (qs, c1)"
    and c': "c' = set_node i (BObject qs) c1"
    by (auto split: sum.splits prod.splits)
  have "nodes_ok (c\<lparr>work := ts, world := s\<rparr>)"
    using nodes_ok_rest [OF assms(1,2)] nodes_ok_world [where c = "c\<lparr>work := ts\<rparr>" and s = s] by simp
  with clone_properties_ok [OF e] show ?thesis by (simp add: c' nodes_ok_set)
qed

lemma clone_out_ok:
  assumes "clone_out src v0 s = Inr (g, s')"
  shows "graph_ok g"
proof -
  let ?c0 = "\<lparr>nodes_out = [], visited = [], work = [], world = s\<rparr>"
  from assms obtain i c1 c2 where a: "allocate_source src v0 1 ?c0 = Inr (i, c1)" and l: "clone_loop src c1 = Inr c2"
    and g: "g = \<lparr>graph_nodes = nodes_out c2, graph_root = i\<rparr>"
    by (auto simp: clone_out_def split: sum.splits)
  have "nodes_ok ?c0" by (simp add: nodes_ok_def)
  from allocate_source_ok [OF a this] have c1: "nodes_ok c1" "i < length (nodes_out c1)" by auto
  have "(nodes_ok c2 \<and> i < length (nodes_out c2)) \<and> work c2 = []"
  proof (rule clone_loop_rule [where I = "\<lambda>c. nodes_ok c \<and> i < length (nodes_out c)", OF _ l])
    show "nodes_ok c1 \<and> i < length (nodes_out c1)" using c1 by blast
  next
    fix c t ts c'
    assume "nodes_ok c \<and> i < length (nodes_out c)" "work c = t # ts" "clone_task src t (c\<lparr>work := ts\<rparr>) = Inr c'"
    with clone_task_ok [of c t ts src c'] show "nodes_ok c' \<and> i < length (nodes_out c')" by auto
  qed
  then show ?thesis by (simp add: g graph_ok_def nodes_ok_def)
qed

text \<open>
  Claim C12. Whatever the script is and does while it is read, a clone that succeeds is a closed graph of plain
  data: the root and every edge name a node of the graph, no array is longer than 4096, and no object has a
  \<^verbatim>\<open>__proto__\<close> property.
\<close>

theorem clone_out_is_plain_data:
  assumes "clone_out src v0 s = Inr (g, s')"
  shows "graph_root g < length (graph_nodes g) \<and>
    (\<forall>n \<in> set (graph_nodes g). case n of
        BArray is \<Rightarrow> (\<forall>i \<in> set is. i < length (graph_nodes g)) \<and> length is \<le> 4096
      | BObject ps \<Rightarrow> (\<forall>(key, i) \<in> set ps. i < length (graph_nodes g) \<and> key \<noteq> PROTO)
      | _ \<Rightarrow> True)"
proof -
  have ok: "graph_ok g" by (rule clone_out_ok [OF assms])
  have "case n of
        BArray is \<Rightarrow> (\<forall>i \<in> set is. i < length (graph_nodes g)) \<and> length is \<le> 4096
      | BObject ps \<Rightarrow> (\<forall>(key, i) \<in> set ps. i < length (graph_nodes g) \<and> key \<noteq> PROTO)
      | _ \<Rightarrow> True" if "n \<in> set (graph_nodes g)" for n
  proof -
    have "node_ok (length (graph_nodes g)) n" using ok that by (simp add: graph_ok_def)
    then show ?thesis by (cases n) (auto simp: MAX_BOUNDARY_ITEMS_def)
  qed
  with ok show ?thesis by (simp add: graph_ok_def)
qed

text \<open>An object that holds itself, a function, a number and a prototype.\<close>

definition sample_source :: "(nat, unit) source" where
  "sample_source =
     \<lparr>kind = (\<lambda>v. if v = 0 then KObject else if v = 1 then KFunction else KNumber),
      identity = (\<lambda>v. if v = 0 then Some 7 else None),
      boolean = (\<lambda>_. True), number = (\<lambda>_. Fin 3), string_value = (\<lambda>_. []),
      array_length = (\<lambda>_ s. (Inr (Fin 0), s)), array_element = (\<lambda>_ _ s. (Inl [], s)),
      own_entries = (\<lambda>_ s. (Inr [([97], 0), ([98], 1), (PROTO, 2), ([99], 2)], s))\<rparr>"

lemma sample_clone:
  "clone_out sample_source 0 () =
     Inr (\<lparr>graph_nodes = [BObject [([97], 0), ([99], 1)], BNumber (Fin 3)], graph_root = 0\<rparr>, ())"
  by (simp add: clone_out_def clone_loop.simps sample_source_def allocate_source_def known_node_def add_node_def
      remember_def push_work_def set_node_def skips_def PROTO_def al_put_def al_del_def MAX_BOUNDARY_DEPTH_def Let_def)

theorem clone_out_is_plain_data_witness:
  "graph_root \<lparr>graph_nodes = [BObject [([97], 0), ([99], 1)], BNumber (Fin 3)], graph_root = 0\<rparr> < 2"
  using clone_out_is_plain_data [OF sample_clone] by simp

end
