(* ===== verification/BoundaryOut.thy ===== *)
theory BoundaryOut
  imports Boundary
begin

text \<open>
  The graph the outbound clone makes of a script value that answers the same every time: it mirrors the value,
  node by node, and no object or array has two nodes.
\<close>

section \<open>Mirrors\<close>

text \<open>Reading has no effect at \<open>s\<close>, and an identity names one object.\<close>

definition steady :: "('v, 's) source \<Rightarrow> 's \<Rightarrow> bool" where
  "steady src s \<longleftrightarrow>
     (\<forall>v. snd (array_length src v s) = s \<and> (\<forall>k. snd (array_element src v k s) = s) \<and> snd (own_entries src v s) = s)"

definition stable_identity :: "('v, 's) source \<Rightarrow> bool" where
  "stable_identity src \<longleftrightarrow>
     (\<forall>v w a. is_container (kind src v) \<longrightarrow> is_container (kind src w) \<longrightarrow> identity src v = Some a
        \<longrightarrow> identity src w = Some a \<longrightarrow> v = w)"

text \<open>\<open>org ! i\<close> is the value node \<open>i\<close> was made of.\<close>

definition array_mirrors :: "('v, 's) source \<Rightarrow> 's \<Rightarrow> 'v list \<Rightarrow> 'v \<Rightarrow> boundary_node \<Rightarrow> bool" where
  "array_mirrors src s org v n \<longleftrightarrow>
     (\<exists>raw len is. fst (array_length src v s) = Inr raw \<and> checked_length raw = Inr len \<and>
        n = BArray is \<and> length is = len \<and>
        (\<forall>k < len. is ! k < length org \<and> fst (array_element src v k s) = Inr (org ! (is ! k))))"

definition object_mirrors :: "('v, 's) source \<Rightarrow> 's \<Rightarrow> 'v list \<Rightarrow> 'v \<Rightarrow> boundary_node \<Rightarrow> bool" where
  "object_mirrors src s org v n \<longleftrightarrow>
     (\<exists>es ps. fst (own_entries src v s) = Inr es \<and> n = BObject ps \<and> (\<forall>p \<in> set ps. snd p < length org) \<and>
        map (\<lambda>(key, i). (key, org ! i)) ps = filter (\<lambda>(key, w). \<not> skips src key w) es)"

definition node_mirrors :: "('v, 's) source \<Rightarrow> 's \<Rightarrow> 'v list \<Rightarrow> 'v \<Rightarrow> boundary_node \<Rightarrow> bool" where
  "node_mirrors src s org v n \<longleftrightarrow>
     (case kind src v of
        KUndefined \<Rightarrow> n = BNull
      | KFunction \<Rightarrow> n = BNull
      | KNull \<Rightarrow> n = BNull
      | KBool \<Rightarrow> n = BBool (boolean src v)
      | KNumber \<Rightarrow> n = BNumber (number src v)
      | KString \<Rightarrow> n = BString (string_value src v)
      | KArray \<Rightarrow> array_mirrors src s org v n
      | KObject \<Rightarrow> object_mirrors src s org v n)"

definition extends :: "'v list \<Rightarrow> 'v list \<Rightarrow> bool" where
  "extends org org' \<longleftrightarrow> (\<exists>ext. org' = org @ ext)"

lemma extends_refl [simp]: "extends org org"
  by (simp add: extends_def)

lemma extends_trans: "extends a b \<Longrightarrow> extends b c \<Longrightarrow> extends a c"
  by (auto simp: extends_def)

lemma extends_nth: "extends org org' \<Longrightarrow> i < length org \<Longrightarrow> i < length org' \<and> org' ! i = org ! i"
  by (auto simp: extends_def nth_append)

lemma node_mirrors_extends:
  assumes "extends org org'" and "node_mirrors src s org v n"
  shows "node_mirrors src s org' v n"
proof -
  have "array_mirrors src s org' v n" if "array_mirrors src s org v n"
    using that extends_nth [OF assms(1)] unfolding array_mirrors_def by metis
  moreover have "object_mirrors src s org' v n" if om: "object_mirrors src s org v n"
  proof -
    from om obtain es ps where e: "fst (own_entries src v s) = Inr es" "n = BObject ps"
      "\<forall>p \<in> set ps. snd p < length org" "map (\<lambda>(key, i). (key, org ! i)) ps = filter (\<lambda>(key, w). \<not> skips src key w) es"
      by (auto simp: object_mirrors_def)
    have "map (\<lambda>(key, i). (key, org' ! i)) ps = map (\<lambda>(key, i). (key, org ! i)) ps"
      using e(3) extends_nth [OF assms(1)] by (intro map_cong) auto
    with e extends_nth [OF assms(1)] show ?thesis unfolding object_mirrors_def by metis
  qed
  ultimately show ?thesis using assms(2) by (simp add: node_mirrors_def split: source_kind.splits)
qed

fun task_node :: "'v out_work \<Rightarrow> nat" where
  "task_node (OutArray i v len d) = i"
| "task_node (OutObject i v d) = i"

fun task_mirrors :: "('v, 's) source \<Rightarrow> 's \<Rightarrow> 'v list \<Rightarrow> 'v out_work \<Rightarrow> bool" where
  "task_mirrors src s org (OutArray i v len d) =
     (i < length org \<and> org ! i = v \<and> kind src v = KArray \<and>
       (\<exists>raw. fst (array_length src v s) = Inr raw \<and> checked_length raw = Inr len))"
| "task_mirrors src s org (OutObject i v d) = (i < length org \<and> org ! i = v \<and> kind src v = KObject)"

lemma task_mirrors_extends: "extends org org' \<Longrightarrow> task_mirrors src s org t \<Longrightarrow> task_mirrors src s org' t"
  by (cases t) (auto dest: extends_nth)

text \<open>Every node that is not waiting to be filled, nor in \<open>ex\<close>, mirrors its origin.\<close>

definition mirror :: "('v, 's) source \<Rightarrow> 's \<Rightarrow> nat set \<Rightarrow> 'v list \<Rightarrow> ('v, 's) cloner \<Rightarrow> bool" where
  "mirror src s ex org c \<longleftrightarrow>
     length org = length (nodes_out c) \<and> world c = s \<and>
     (\<forall>i < length org. i \<notin> ex \<union> task_node ` set (work c) \<longrightarrow> node_mirrors src s org (org ! i) (nodes_out c ! i)) \<and>
     (\<forall>t \<in> set (work c). task_mirrors src s org t) \<and>
     (\<forall>a i. map_of (visited c) a = Some i \<longleftrightarrow>
        i < length org \<and> is_container (kind src (org ! i)) \<and> identity src (org ! i) = Some a)"

text \<open>A new node, finished or waiting.\<close>

lemma mirror_new:
  assumes m: "mirror src s ex org c" and new: "known_node src v c = None"
    and nodes: "nodes_out c' = nodes_out c @ [n]" and w: "world c' = s"
    and vis: "visited c' = (if is_container (kind src v) then visited (remember (identity src v) (length org) c) else visited c)"
    and work: "work c' = ts @ work c"
      "(ts = [] \<and> node_mirrors src s (org @ [v]) v n) \<or> (\<exists>t. ts = [t] \<and> task_node t = length org \<and> task_mirrors src s (org @ [v]) t)"
  shows "mirror src s ex (org @ [v]) c'"
proof -
  have len: "length org = length (nodes_out c)" using m by (simp add: mirror_def)
  have ext: "extends org (org @ [v])" by (simp add: extends_def)
  have "node_mirrors src s (org @ [v]) ((org @ [v]) ! i) (nodes_out c' ! i)"
    if i: "i < length (org @ [v])" "i \<notin> ex \<union> task_node ` set (work c')" for i
  proof (cases "i = length org")
    case True
    with that work have "node_mirrors src s (org @ [v]) v n" by auto
    with True len nodes show ?thesis by (simp add: nth_append)
  next
    case False
    with i work(1) have "i < length org" "i \<notin> ex \<union> task_node ` set (work c)" by auto
    with m have "node_mirrors src s org (org ! i) (nodes_out c ! i)" by (simp add: mirror_def)
    from node_mirrors_extends [OF ext this] \<open>i < length org\<close> len nodes show ?thesis by (simp add: nth_append)
  qed
  moreover have "task_mirrors src s (org @ [v]) t" if t: "t \<in> set (work c')" for t
  proof (cases "t \<in> set (work c)")
    case True
    with m have "task_mirrors src s org t" by (simp add: mirror_def)
    then show ?thesis by (rule task_mirrors_extends [OF ext])
  next
    case False
    with t work show ?thesis by auto
  qed
  moreover have "map_of (visited c') a = Some i \<longleftrightarrow>
      i < length (org @ [v]) \<and> is_container (kind src ((org @ [v]) ! i)) \<and> identity src ((org @ [v]) ! i) = Some a" for a i
  proof -
    have old: "map_of (visited c) a = Some i \<longleftrightarrow>
        i < length org \<and> is_container (kind src (org ! i)) \<and> identity src (org ! i) = Some a" for i
      using m by (simp add: mirror_def)
    have absent: "map_of (visited c) a = None" if "is_container (kind src v)" "identity src v = Some a"
      using new that by (simp add: known_node_def)
    show ?thesis
    proof (cases "is_container (kind src v) \<and> identity src v = Some a")
      case True
      then have "map_of (visited c') a = Some (length org)" by (simp add: vis remember_def)
      moreover have "\<not> (i < length org \<and> is_container (kind src (org ! i)) \<and> identity src (org ! i) = Some a)"
        using old [of i] absent True by simp
      ultimately show ?thesis using True by (auto simp: nth_append)
    next
      case False
      then have "map_of (visited c') a = map_of (visited c) a"
        by (auto simp: vis remember_def split: option.splits)
      with False old [of i] show ?thesis by (auto simp: nth_append less_Suc_eq)
    qed
  qed
  ultimately show ?thesis using m nodes w by (simp add: mirror_def)
qed

lemma allocate_source_mirrors:
  assumes a: "allocate_source src v depth c = Inr (i, c')" and m: "mirror src s ex org c"
    and st: "steady src s" and id: "stable_identity src"
  shows "\<exists>org'. extends org org' \<and> mirror src s ex org' c' \<and> i < length org' \<and> org' ! i = v"
  using a
proof (cases rule: allocate_source_cases)
  case known
  then obtain a where a: "identity src v = Some a" "map_of (visited c) a = Some i"
    by (auto simp: known_node_def bind_eq_Some_conv split: if_splits)
  with m have i: "i < length org" "is_container (kind src (org ! i))" "identity src (org ! i) = Some a"
    by (simp_all add: mirror_def)
  with id a known have "org ! i = v" unfolding stable_identity_def by blast
  with i m known show ?thesis by (intro exI [of _ org]) simp
next
  case (scalar n)
  have len: "length (nodes_out c) = length org" and w: "world c = s" using m by (simp_all add: mirror_def)
  have c': "c' = snd (add_node n c)" and i: "i = length org" using scalar(2) len by (simp_all add: add_node_def)
  have "mirror src s ex (org @ [v]) c'"
    by (rule mirror_new [where n = n and ts = "[]", OF m])
      (use scalar w in \<open>auto simp: c' known_node_def node_mirrors_def split: source_kind.splits\<close>)
  with i show ?thesis by (intro exI [of _ "org @ [v]"]) (simp add: extends_def)
next
  case (array raw s' len)
  have ln: "length (nodes_out c) = length org" and w: "world c = s" using m by (simp_all add: mirror_def)
  have s': "s' = s" using st array(5) w unfolding steady_def by (metis snd_conv)
  have raw: "fst (array_length src v s) = Inr raw" using array(5) w by simp
  have "mirror src s ex (org @ [v]) c'"
    by (rule mirror_new [where n = "BArray []" and ts = "[OutArray i v len depth]", OF m])
      (use array raw ln in \<open>simp_all add: s' remember_def push_work_def add_node_def split: option.splits\<close>)
  with array ln show ?thesis by (intro exI [of _ "org @ [v]"]) (simp add: extends_def)
next
  case object
  have ln: "length (nodes_out c) = length org" and w: "world c = s" using m by (simp_all add: mirror_def)
  have "mirror src s ex (org @ [v]) c'"
    by (rule mirror_new [where n = "BObject []" and ts = "[OutObject i v depth]", OF m])
      (use object ln w in \<open>simp_all add: remember_def push_work_def add_node_def split: option.splits\<close>)
  with object ln show ?thesis by (intro exI [of _ "org @ [v]"]) (simp add: extends_def)
qed

lemma mirror_world: "mirror src s ex org c \<Longrightarrow> mirror src s ex org (c\<lparr>world := s\<rparr>)"
  by (simp add: mirror_def)

lemma clone_elements_mirrors:
  assumes "steady src s" and "stable_identity src"
  shows "clone_elements src v depth index n c = Inr (is, c') \<Longrightarrow> mirror src s ex org c \<Longrightarrow>
    \<exists>org'. extends org org' \<and> mirror src s ex org' c' \<and> length is = n \<and>
      (\<forall>k < n. is ! k < length org' \<and> fst (array_element src v (index + k) s) = Inr (org' ! (is ! k)))"
proof (induction n arbitrary: index c org "is")
  case 0
  then show ?case by (intro exI [of _ org]) simp
next
  case (Suc n)
  have w: "world c = s" using Suc.prems(2) by (simp add: mirror_def)
  from Suc.prems(1) obtain child s' i c1 is' where
    e: "array_element src v index s = (Inr child, s')" and
    a: "allocate_source src child (depth + 1) (c\<lparr>world := s'\<rparr>) = Inr (i, c1)" and
    r: "clone_elements src v depth (index + 1) n c1 = Inr (is', c')" and "is": "is = i # is'"
    by (auto simp: w split: prod.splits sum.splits)
  have s': "s' = s" using assms(1) e unfolding steady_def by (metis snd_conv)
  from allocate_source_mirrors [OF a [unfolded s'] mirror_world [OF Suc.prems(2)] assms] obtain org1 where
    o1: "extends org org1" "mirror src s ex org1 c1" "i < length org1" "org1 ! i = child" by blast
  from Suc.IH [OF r o1(2)] obtain org' where
    o2: "extends org1 org'" "mirror src s ex org' c'" "length is' = n"
    "\<forall>k < n. is' ! k < length org' \<and> fst (array_element src v (Suc (index + k)) s) = Inr (org' ! (is' ! k))" by auto
  have "\<forall>k < Suc n. is ! k < length org' \<and> fst (array_element src v (index + k) s) = Inr (org' ! (is ! k))"
  proof (intro allI impI)
    fix k assume "k < Suc n"
    then show "is ! k < length org' \<and> fst (array_element src v (index + k) s) = Inr (org' ! (is ! k))"
      using o2(4) e o1(3,4) extends_nth [OF o2(1) o1(3)] by (cases k) (auto simp: "is")
  qed
  with o1(1) o2 show ?case by (intro exI [of _ org']) (auto simp: "is" intro: extends_trans)
qed

lemma clone_properties_mirrors:
  assumes "steady src s" and "stable_identity src"
  shows "clone_properties src depth es c = Inr (ps, c') \<Longrightarrow> mirror src s ex org c \<Longrightarrow>
    \<exists>org'. extends org org' \<and> mirror src s ex org' c' \<and> (\<forall>p \<in> set ps. snd p < length org') \<and>
      map (\<lambda>(key, i). (key, org' ! i)) ps = filter (\<lambda>(key, w). \<not> skips src key w) es"
proof (induction es arbitrary: c org ps)
  case Nil
  then show ?case by (intro exI [of _ org]) simp
next
  case (Cons p es)
  obtain key child where p: "p = (key, child)" by (cases p)
  show ?case
  proof (cases "skips src key child")
    case True
    with Cons p show ?thesis by simp
  next
    case False
    with Cons.prems(1) p obtain i c1 ps' where
      a: "allocate_source src child (depth + 1) c = Inr (i, c1)" and
      r: "clone_properties src depth es c1 = Inr (ps', c')" and ps: "ps = (key, i) # ps'"
      by (auto split: sum.splits)
    from allocate_source_mirrors [OF a Cons.prems(2) assms] obtain org1 where
      o1: "extends org org1" "mirror src s ex org1 c1" "i < length org1" "org1 ! i = child" by blast
    from Cons.IH [OF r o1(2)] obtain org' where
      o2: "extends org1 org'" "mirror src s ex org' c'" "\<forall>p \<in> set ps'. snd p < length org'"
      "map (\<lambda>(key, i). (key, org' ! i)) ps' = filter (\<lambda>(key, w). \<not> skips src key w) es" by blast
    with o1 extends_nth [OF o2(1) o1(3)] False p show ?thesis
      by (intro exI [of _ org']) (auto simp: ps intro: extends_trans)
  qed
qed

text \<open>Filling a container finishes its node.\<close>

lemma mirror_pop:
  assumes "mirror src s {} org c" and "work c = t # ts"
  shows "mirror src s {task_node t} org (c\<lparr>work := ts\<rparr>)"
  using assms by (auto simp: mirror_def)

lemma mirror_set:
  assumes m: "mirror src s {i} org c" and i: "i < length org" and n: "node_mirrors src s org (org ! i) n"
  shows "mirror src s {} org (set_node i n c)"
proof -
  have "node_mirrors src s org (org ! j) ((nodes_out c)[i := n] ! j)"
    if "j < length org" "j \<notin> task_node ` set (work c)" for j
    using that m i n by (cases "j = i") (simp_all add: mirror_def)
  with m show ?thesis by (simp add: mirror_def set_node_def)
qed

lemma clone_task_mirrors:
  assumes st: "steady src s" "stable_identity src" and m: "mirror src s {} org c" and w: "work c = t # ts"
    and run: "clone_task src t (c\<lparr>work := ts\<rparr>) = Inr c'"
  shows "\<exists>org'. extends org org' \<and> mirror src s {} org' c'"
proof -
  have p: "mirror src s {task_node t} org (c\<lparr>work := ts\<rparr>)" by (rule mirror_pop [OF m w])
  have t: "task_mirrors src s org t" using m w by (simp add: mirror_def)
  show ?thesis
  proof (cases t)
    case (OutArray i v len depth)
    with run obtain "is" c1 where e: "clone_elements src v depth 0 len (c\<lparr>work := ts\<rparr>) = Inr (is, c1)"
      and c': "c' = set_node i (BArray is) c1" by (auto split: sum.splits)
    from clone_elements_mirrors [OF st e p] obtain org' where
      o: "extends org org'" "mirror src s {i} org' c1" "length is = len"
      "\<forall>k < len. is ! k < length org' \<and> fst (array_element src v k s) = Inr (org' ! (is ! k))"
      using OutArray by auto
    from t OutArray obtain raw where r: "i < length org" "org ! i = v" "kind src v = KArray"
      "fst (array_length src v s) = Inr raw" "checked_length raw = Inr len" by auto
    with o extends_nth [OF o(1) r(1)] have "i < length org'" "node_mirrors src s org' (org' ! i) (BArray is)"
      by (auto simp: node_mirrors_def array_mirrors_def)
    with o show ?thesis unfolding c' by (blast intro: mirror_set)
  next
    case (OutObject i v depth)
    have ws: "world c = s" using m by (simp add: mirror_def)
    from run OutObject obtain es s' ps c1 where
      en: "own_entries src v s = (Inr es, s')" and
      e: "clone_properties src depth es (c\<lparr>work := ts, world := s'\<rparr>) = Inr (ps, c1)" and
      c': "c' = set_node i (BObject ps) c1" by (auto simp: ws split: sum.splits prod.splits)
    have s': "s' = s" using st(1) en unfolding steady_def by (metis snd_conv)
    have "mirror src s {task_node t} org (c\<lparr>work := ts, world := s'\<rparr>)"
      using mirror_world [OF p] by (simp add: s')
    from clone_properties_mirrors [OF st e this] obtain org' where
      o: "extends org org'" "mirror src s {i} org' c1" "\<forall>p \<in> set ps. snd p < length org'"
      "map (\<lambda>(key, i). (key, org' ! i)) ps = filter (\<lambda>(key, w). \<not> skips src key w) es"
      using OutObject by auto
    from t OutObject have r: "i < length org" "org ! i = v" "kind src v = KObject" by auto
    with o en extends_nth [OF o(1) r(1)] have "i < length org'" "node_mirrors src s org' (org' ! i) (BObject ps)"
      by (auto simp: node_mirrors_def object_mirrors_def)
    with o show ?thesis unfolding c' by (blast intro: mirror_set)
  qed
qed

lemma clone_out_mirror:
  assumes st: "steady src s" "stable_identity src" and run: "clone_out src v0 s = Inr (g, s')"
  shows "s' = s \<and> (\<exists>org. length org = length (graph_nodes g) \<and> graph_root g < length org \<and> org ! graph_root g = v0 \<and>
    (\<forall>i < length org. node_mirrors src s org (org ! i) (graph_nodes g ! i)) \<and>
    (\<forall>i < length org. \<forall>j < length org. \<forall>a. is_container (kind src (org ! i)) \<and> is_container (kind src (org ! j)) \<and>
      identity src (org ! i) = Some a \<and> identity src (org ! j) = Some a \<longrightarrow> i = j))"
proof -
  let ?c0 = "\<lparr>nodes_out = [], visited = [], work = [], world = s\<rparr>"
  from run obtain i c1 c2 where a: "allocate_source src v0 1 ?c0 = Inr (i, c1)" and l: "clone_loop src c1 = Inr c2"
    and g: "g = \<lparr>graph_nodes = nodes_out c2, graph_root = i\<rparr>" and s': "s' = world c2"
    by (auto simp: clone_out_def split: sum.splits)
  have "mirror src s {} [] ?c0" by (simp add: mirror_def)
  from allocate_source_mirrors [OF a this st] obtain org1 where
    o1: "mirror src s {} org1 c1" "i < length org1" "org1 ! i = v0" by blast
  have "(\<exists>org. extends org1 org \<and> mirror src s {} org c2) \<and> work c2 = []"
  proof (rule clone_loop_rule [where I = "\<lambda>c. \<exists>org. extends org1 org \<and> mirror src s {} org c", OF _ l])
    show "\<exists>org. extends org1 org \<and> mirror src s {} org c1" using o1(1) extends_refl by blast
  next
    fix c t ts c'
    assume "\<exists>org. extends org1 org \<and> mirror src s {} org c" "work c = t # ts"
      "clone_task src t (c\<lparr>work := ts\<rparr>) = Inr c'"
    then show "\<exists>org. extends org1 org \<and> mirror src s {} org c'"
      using clone_task_mirrors [OF st] extends_trans by blast
  qed
  then obtain org where o: "extends org1 org" "mirror src s {} org c2" "work c2 = []" by blast
  have "\<forall>a i. map_of (visited c2) a = Some i \<longleftrightarrow>
      i < length org \<and> is_container (kind src (org ! i)) \<and> identity src (org ! i) = Some a"
    using o(2) by (simp add: mirror_def)
  then have "\<forall>i < length org. \<forall>j < length org. \<forall>a. is_container (kind src (org ! i)) \<and> is_container (kind src (org ! j)) \<and>
      identity src (org ! i) = Some a \<and> identity src (org ! j) = Some a \<longrightarrow> i = j"
    by (metis option.inject)
  moreover have "s' = s" "length org = length (graph_nodes g)"
    "\<forall>i < length org. node_mirrors src s org (org ! i) (graph_nodes g ! i)"
    using o(2,3) by (simp_all add: mirror_def g s')
  ultimately show ?thesis using extends_nth [OF o(1) o1(2)] o1(3) g by auto
qed

text \<open>
  Claim C11. If reading the script's values has no side effect, the graph of a clone mirrors the value it was
  given: node by node the scalars, the elements of arrays, and the properties of objects without functions,
  undefined values and prototypes; and an object or array reached along several paths, or inside itself, has
  one node.
\<close>

theorem clone_out_mirrors_the_value:
  assumes "steady src s" and "stable_identity src" and "clone_out src v0 s = Inr (g, s')"
  shows "s' = s \<and> (\<exists>org. length org = length (graph_nodes g) \<and> graph_root g < length org \<and> org ! graph_root g = v0 \<and>
    (\<forall>i < length org. node_mirrors src s org (org ! i) (graph_nodes g ! i)) \<and>
    (\<forall>i < length org. \<forall>j < length org. \<forall>a. is_container (kind src (org ! i)) \<and> is_container (kind src (org ! j)) \<and>
      identity src (org ! i) = Some a \<and> identity src (org ! j) = Some a \<longrightarrow> i = j))"
  by (rule clone_out_mirror [OF assms])

theorem clone_out_mirrors_the_value_witness:
  "\<exists>org. length org = 2 \<and> org ! 0 = (0 :: nat) \<and> node_mirrors sample_source () org (org ! 1) (BNumber (Fin 3))"
proof -
  have "steady sample_source ()" and "stable_identity sample_source"
    by (simp_all add: steady_def stable_identity_def sample_source_def)
  from clone_out_mirrors_the_value [OF this sample_clone] obtain org where
    "length org = 2" "org ! 0 = 0" "\<forall>i < length org. node_mirrors sample_source () org (org ! i)
      ([BObject [([97], 0), ([99], 1)], BNumber (Fin 3)] ! i)" by (auto simp: numeral_2_eq_2)
  then show ?thesis by (intro exI [of _ org]) (auto dest: spec [of _ 1])
qed

end
