(* ===== verification/BoundaryJson.thy ===== *)
theory BoundaryJson
  imports BoundaryOut
begin

text \<open>
  The JSON adapters of the boundary (\<^verbatim>\<open>workflow-core/src/boundary.rs\<close>): \<open>graph_from_json\<close> and
  \<open>graph_to_json\<close>. The specification of the second is the relation \<open>unfolds\<close>, the expansion of a graph
  into a tree together with the number of nodes visited.
\<close>

section \<open>From JSON\<close>

datatype in_work =
    InArray nat "json list" (in_depth: nat)
  | InObject nat "(ustring \<times> json) list" (in_depth: nat)

type_synonym in_state = "boundary_node list \<times> in_work list"

fun is_json_container :: "json \<Rightarrow> bool" where
  "is_json_container (JArr _) = True"
| "is_json_container (JObj _) = True"
| "is_json_container _ = False"

definition allocate_json_input :: "json \<Rightarrow> nat \<Rightarrow> in_state \<Rightarrow> boundary_error + nat \<times> in_state" where
  "allocate_json_input v depth st =
     (case st of (ns, ts) \<Rightarrow>
        if is_json_container v \<and> depth > MAX_BOUNDARY_DEPTH then Inl (TooDeep depth)
        else case v of
            JNull \<Rightarrow> Inr (length ns, ns @ [BNull], ts)
          | JBool b \<Rightarrow> Inr (length ns, ns @ [BBool b], ts)
          | JNum x \<Rightarrow> Inr (length ns, ns @ [BNumber (Fin (number_f64 x))], ts)
          | JStr x \<Rightarrow> Inr (length ns, ns @ [BString x], ts)
          | JArr xs \<Rightarrow>
              if length xs > MAX_BOUNDARY_ITEMS then Inl (TooManyItems (length xs))
              else Inr (length ns, ns @ [BArray []], InArray (length ns) xs depth # ts)
          | JObj m \<Rightarrow> Inr (length ns, ns @ [BObject []], InObject (length ns) m depth # ts))"

fun allocate_items :: "json list \<Rightarrow> nat \<Rightarrow> in_state \<Rightarrow> boundary_error + nat list \<times> in_state" where
  "allocate_items [] depth st = Inr ([], st)"
| "allocate_items (x # xs) depth st =
     (case allocate_json_input x depth st of
        Inl e \<Rightarrow> Inl e
      | Inr (i, st) \<Rightarrow>
          (case allocate_items xs depth st of Inl e \<Rightarrow> Inl e | Inr (is, st) \<Rightarrow> Inr (i # is, st)))"

fun allocate_members :: "(ustring \<times> json) list \<Rightarrow> nat \<Rightarrow> in_state \<Rightarrow> boundary_error + (ustring \<times> nat) list \<times> in_state" where
  "allocate_members [] depth st = Inr ([], st)"
| "allocate_members ((key, x) # m) depth st =
     (if key = PROTO then allocate_members m depth st
      else case allocate_json_input x depth st of
          Inl e \<Rightarrow> Inl e
        | Inr (i, st) \<Rightarrow>
            (case allocate_members m depth st of Inl e \<Rightarrow> Inl e | Inr (ps, st) \<Rightarrow> Inr ((key, i) # ps, st)))"

fun json_task :: "in_work \<Rightarrow> in_state \<Rightarrow> boundary_error + in_state" where
  "json_task (InArray i xs depth) st =
     (case allocate_items xs (depth + 1) st of
        Inl e \<Rightarrow> Inl e
      | Inr (is, ns, ts) \<Rightarrow> Inr (ns[i := BArray is], ts))"
| "json_task (InObject i m depth) st =
     (case allocate_members m (depth + 1) st of
        Inl e \<Rightarrow> Inl e
      | Inr (ps, ns, ts) \<Rightarrow> Inr (ns[i := BObject ps], ts))"

text \<open>The values that still wait, as trees.\<close>

fun task_size :: "in_work \<Rightarrow> nat" where
  "task_size (InArray i xs d) = Suc (\<Sum>x \<leftarrow> xs. nodes x)"
| "task_size (InObject i m d) = Suc (\<Sum>p \<leftarrow> m. nodes (snd p))"

definition waiting_size :: "in_work list \<Rightarrow> nat" where
  "waiting_size ts = (\<Sum>t \<leftarrow> ts. task_size t)"

lemma allocate_json_input_size:
  "allocate_json_input v d (ns, ts) = Inr (i, ns', ts') \<Longrightarrow> waiting_size ts' \<le> waiting_size ts + nodes v"
  by (cases v) (auto simp: allocate_json_input_def waiting_size_def split: if_splits)

lemma allocate_items_size:
  "allocate_items xs d (ns, ts) = Inr (is, ns', ts') \<Longrightarrow> waiting_size ts' \<le> waiting_size ts + (\<Sum>x \<leftarrow> xs. nodes x)"
proof (induction xs arbitrary: ns ts "is")
  case (Cons x xs)
  then obtain i ns1 ts1 is' where "allocate_json_input x d (ns, ts) = Inr (i, ns1, ts1)"
    "allocate_items xs d (ns1, ts1) = Inr (is', ns', ts')"
    by (auto split: sum.splits)
  with allocate_json_input_size [OF this(1)] Cons.IH [OF this(2)] show ?case by simp
qed simp

lemma allocate_members_size:
  "allocate_members m d (ns, ts) = Inr (ps, ns', ts') \<Longrightarrow> waiting_size ts' \<le> waiting_size ts + (\<Sum>p \<leftarrow> m. nodes (snd p))"
proof (induction m arbitrary: ns ts ps)
  case (Cons p m)
  obtain key x where p: "p = (key, x)" by (cases p)
  show ?case
  proof (cases "key = PROTO")
    case True
    with Cons p show ?thesis by fastforce
  next
    case False
    with Cons.prems p obtain i ns1 ts1 ps' where "allocate_json_input x d (ns, ts) = Inr (i, ns1, ts1)"
      "allocate_members m d (ns1, ts1) = Inr (ps', ns', ts')"
      by (auto split: sum.splits)
    with allocate_json_input_size [OF this(1)] Cons.IH [OF this(2)] p show ?thesis by simp
  qed
qed simp

lemma json_task_size:
  assumes "json_task t (ns, ts) = Inr (ns', ts')"
  shows "waiting_size ts' < waiting_size (t # ts)"
proof (cases t)
  case (InArray i xs d)
  with assms show ?thesis
    by (auto simp: waiting_size_def split: sum.splits dest: allocate_items_size [unfolded waiting_size_def])
next
  case (InObject i m d)
  with assms show ?thesis
    by (auto simp: waiting_size_def split: sum.splits dest: allocate_members_size [unfolded waiting_size_def])
qed

function json_input_loop :: "in_state \<Rightarrow> boundary_error + boundary_node list" where
  "json_input_loop (ns, []) = Inr ns"
| "json_input_loop (ns, t # ts) =
     (case json_task t (ns, ts) of Inl e \<Rightarrow> Inl e | Inr st \<Rightarrow> json_input_loop st)"
  by pat_completeness auto
termination
  by (relation "measure (\<lambda>(ns, ts). waiting_size ts)") (auto dest: json_task_size)

definition graph_from_json :: "json \<Rightarrow> boundary_error + boundary_graph" where
  "graph_from_json v =
     (case allocate_json_input v 1 ([], []) of
        Inl e \<Rightarrow> Inl e
      | Inr (i, st) \<Rightarrow>
          (case json_input_loop st of
             Inl e \<Rightarrow> Inl e
           | Inr ns \<Rightarrow> Inr \<lparr>graph_nodes = ns, graph_root = i\<rparr>))"

section \<open>JSON as a script value\<close>

text \<open>A document seen as a source: it has no identities and reading it has no effect.\<close>

definition json_source :: "(json, unit) source" where
  "json_source =
     \<lparr>kind = (\<lambda>v. case v of JNull \<Rightarrow> KNull | JBool _ \<Rightarrow> KBool | JNum _ \<Rightarrow> KNumber | JStr _ \<Rightarrow> KString
        | JArr _ \<Rightarrow> KArray | JObj _ \<Rightarrow> KObject),
      identity = (\<lambda>_. None),
      boolean = (\<lambda>v. v = JBool True),
      number = (\<lambda>v. case v of JNum x \<Rightarrow> Fin (number_f64 x) | _ \<Rightarrow> NaN),
      string_value = (\<lambda>v. case v of JStr x \<Rightarrow> x | _ \<Rightarrow> []),
      array_length = (\<lambda>v s. (case v of JArr xs \<Rightarrow> Inr (Fin (of_nat (length xs))) | _ \<Rightarrow> Inl [], s)),
      array_element = (\<lambda>v k s. (case v of JArr xs \<Rightarrow> Inr (xs ! k) | _ \<Rightarrow> Inl [], s)),
      own_entries = (\<lambda>v s. (case v of JObj m \<Rightarrow> Inr m | _ \<Rightarrow> Inl [], s))\<rparr>"

lemma json_source_steady: "steady json_source s" "stable_identity json_source"
  by (simp_all add: steady_def stable_identity_def json_source_def)

fun as_out :: "in_work \<Rightarrow> json out_work" where
  "as_out (InArray i xs d) = OutArray i (JArr xs) (length xs) d"
| "as_out (InObject i m d) = OutObject i (JObj m) d"

fun cloner_of :: "in_state \<Rightarrow> (json, unit) cloner" where
  "cloner_of (ns, ts) = \<lparr>nodes_out = ns, visited = [], work = map as_out ts, world = ()\<rparr>"

fun success :: "'e + 'a \<Rightarrow> 'a option" where
  "success (Inl _) = None"
| "success (Inr x) = Some x"

lemma success_simps: "success x = None \<longleftrightarrow> (\<exists>e. x = Inl e)" "success x = Some y \<longleftrightarrow> x = Inr y"
  by (cases x; simp)+

lemma safe_length: "safe_integer (of_nat n) \<longleftrightarrow> n \<le> MAX_SAFE_INTEGER"
  by (simp add: safe_integer_def)

lemma checked_json_length:
  "success (checked_length (Fin (of_nat n))) = (if n \<le> MAX_BOUNDARY_ITEMS then Some n else None)"
  by (simp add: checked_length_def safe_length Let_def MAX_BOUNDARY_ITEMS_def MAX_SAFE_INTEGER_def)

lemma known_json [simp]: "known_node json_source v c = None"
  by (simp add: known_node_def json_source_def)

lemma json_source_fields:
  "kind json_source v = (case v of JNull \<Rightarrow> KNull | JBool _ \<Rightarrow> KBool | JNum _ \<Rightarrow> KNumber | JStr _ \<Rightarrow> KString
    | JArr _ \<Rightarrow> KArray | JObj _ \<Rightarrow> KObject)"
  "identity json_source v = None"
  "boolean json_source v = (v = JBool True)"
  "number json_source v = (case v of JNum x \<Rightarrow> Fin (number_f64 x) | _ \<Rightarrow> NaN)"
  "string_value json_source v = (case v of JStr x \<Rightarrow> x | _ \<Rightarrow> [])"
  "array_length json_source v u = (case v of JArr xs \<Rightarrow> Inr (Fin (of_nat (length xs))) | _ \<Rightarrow> Inl [], u)"
  "array_element json_source v k u = (case v of JArr xs \<Rightarrow> Inr (xs ! k) | _ \<Rightarrow> Inl [], u)"
  "own_entries json_source v u = (case v of JObj m \<Rightarrow> Inr m | _ \<Rightarrow> Inl [], u)"
  by (simp_all add: json_source_def)

lemma allocate_json:
  "success (allocate_source json_source v depth (cloner_of st))
     = map_option (\<lambda>(i, st). (i, cloner_of st)) (success (allocate_json_input v depth st))"
proof (cases v)
  case (JArr xs)
  obtain ns ts where st: "st = (ns, ts)" by (cases st)
  show ?thesis
  proof (cases "length xs \<le> MAX_BOUNDARY_ITEMS")
    case True
    then have "checked_length (Fin (of_nat (length xs))) = Inr (length xs)"
      using checked_json_length [of "length xs"] by (simp add: success_simps)
    with JArr st True show ?thesis
      by (simp add: allocate_source_def allocate_json_input_def json_source_fields add_node_def remember_def push_work_def)
  next
    case False
    then obtain e where "checked_length (Fin (of_nat (length xs))) = Inl e"
      using checked_json_length [of "length xs"] by (auto simp: success_simps)
    with JArr st False show ?thesis
      by (simp add: allocate_source_def allocate_json_input_def json_source_fields add_node_def remember_def)
  qed
qed (cases st; simp add: allocate_source_def allocate_json_input_def json_source_fields add_node_def remember_def push_work_def)+

lemma allocate_json_cases:
  "allocate_json_input v depth st = Inr (i, st') \<Longrightarrow> allocate_source json_source v depth (cloner_of st) = Inr (i, cloner_of st')"
  "allocate_json_input v depth st = Inl e \<Longrightarrow> \<exists>e'. allocate_source json_source v depth (cloner_of st) = Inl e'"
  using allocate_json [of v depth st] by (simp_all add: success_simps)

lemma same_world [simp]: "cloner_of st\<lparr>world := u\<rparr> = cloner_of st"
  by (cases st) simp

lemma world_cloner_of [simp]: "world (cloner_of st) = ()"
  by simp

lemma elements_json:
  "success (clone_elements json_source (JArr (pre @ xs)) depth (length pre) (length xs) (cloner_of st))
     = map_option (\<lambda>(is, st). (is, cloner_of st)) (success (allocate_items xs (depth + 1) st))"
proof (induction xs arbitrary: pre st)
  case (Cons x xs)
  have el: "array_element json_source (JArr (pre @ x # xs)) (length pre) s = (Inr x, s)" for s
    by (simp add: json_source_def)
  show ?case
  proof (cases "allocate_json_input x (depth + 1) st")
    case (Inl e)
    with allocate_json_cases(2) [OF Inl] show ?thesis by (auto simp: el)
  next
    case (Inr r)
    obtain i st1 where r: "r = (i, st1)" by (cases r)
    have IH: "success (clone_elements json_source (JArr (pre @ x # xs)) depth (Suc (length pre)) (length xs) (cloner_of st1))
        = map_option (\<lambda>(is, st). (is, cloner_of st)) (success (allocate_items xs (depth + 1) st1))"
      using Cons.IH [of "pre @ [x]" st1] by simp
    show ?thesis
    proof (cases "allocate_items xs (depth + 1) st1")
      case (Inl e)
      with IH have "\<exists>e'. clone_elements json_source (JArr (pre @ x # xs)) depth (Suc (length pre)) (length xs) (cloner_of st1) = Inl e'"
        by (simp add: success_simps)
      with Inl Inr r allocate_json_cases(1) [of x "depth + 1" st i st1] show ?thesis by (auto simp: el)
    next
      case (Inr q)
      with IH have "clone_elements json_source (JArr (pre @ x # xs)) depth (Suc (length pre)) (length xs) (cloner_of st1)
          = Inr (fst q, cloner_of (snd q))"
        by (cases q) (simp add: success_simps)
      with Inr \<open>allocate_json_input x (depth + 1) st = Inr r\<close> r allocate_json_cases(1) [of x "depth + 1" st i st1]
      show ?thesis by (cases q) (simp add: el)
    qed
  qed
qed simp

lemma skips_json: "skips json_source key v \<longleftrightarrow> key = PROTO"
  by (simp add: skips_def json_source_def split: json.splits)

lemma properties_json:
  "success (clone_properties json_source depth m (cloner_of st))
     = map_option (\<lambda>(ps, st). (ps, cloner_of st)) (success (allocate_members m (depth + 1) st))"
proof (induction m arbitrary: st)
  case (Cons p m)
  obtain key x where p: "p = (key, x)" by (cases p)
  show ?case
  proof (cases "key = PROTO")
    case True
    with Cons p show ?thesis by (simp add: skips_json)
  next
    case key: False
    show ?thesis
    proof (cases "allocate_json_input x (depth + 1) st")
      case (Inl e)
      with allocate_json_cases(2) [OF Inl] key p show ?thesis by (auto simp: skips_json)
    next
      case (Inr r)
      obtain i st1 where r: "r = (i, st1)" by (cases r)
      note a = allocate_json_cases(1) [OF Inr [unfolded r]]
      show ?thesis
      proof (cases "allocate_members m (depth + 1) st1")
        case (Inl e)
        with Cons.IH [of st1] obtain e' where "clone_properties json_source depth m (cloner_of st1) = Inl e'"
          by (auto simp: success_simps)
        with Inl Inr r a key p show ?thesis by (simp add: skips_json)
      next
        case (Inr q)
        with Cons.IH [of st1] have "clone_properties json_source depth m (cloner_of st1) = Inr (fst q, cloner_of (snd q))"
          by (cases q) (simp add: success_simps)
        with Inr \<open>allocate_json_input x (depth + 1) st = Inr r\<close> r a key p show ?thesis
          by (cases q) (simp add: skips_json)
      qed
    qed
  qed
qed simp

lemma task_json:
  "success (clone_task json_source (as_out t) (cloner_of st)) = map_option cloner_of (success (json_task t st))"
proof (cases t)
  case (InArray i xs d)
  have e: "success (clone_elements json_source (JArr xs) d 0 (length xs) (cloner_of st))
      = map_option (\<lambda>(is, st). (is, cloner_of st)) (success (allocate_items xs (d + 1) st))"
    using elements_json [of "[]" xs d st] by simp
  show ?thesis
  proof (cases "allocate_items xs (d + 1) st")
    case (Inl err)
    with e InArray show ?thesis by (auto simp: success_simps)
  next
    case (Inr r)
    obtain "is" ns ts where "r = (is, ns, ts)" by (cases r)
    with Inr e InArray show ?thesis by (auto simp: success_simps set_node_def)
  qed
next
  case (InObject i m d)
  note e = properties_json [of d m st]
  have o: "own_entries json_source (JObj m) (world (cloner_of st)) = (Inr m, ())" by (simp add: json_source_fields)
  show ?thesis
  proof (cases "allocate_members m (d + 1) st")
    case (Inl err)
    with e InObject o show ?thesis by (auto simp: success_simps)
  next
    case (Inr r)
    obtain ps ns ts where "r = (ps, ns, ts)" by (cases r)
    with Inr e InObject o show ?thesis by (auto simp: success_simps set_node_def)
  qed
qed

lemma loop_json:
  "success (clone_loop json_source (cloner_of st)) = map_option (\<lambda>ns. cloner_of (ns, [])) (success (json_input_loop st))"
proof (induction st rule: json_input_loop.induct)
  case (1 ns)
  then show ?case by (simp add: clone_loop.simps)
next
  case (2 ns t ts)
  have step: "clone_loop json_source (cloner_of (ns, t # ts)) =
      (case clone_task json_source (as_out t) (cloner_of (ns, ts)) of Inl e \<Rightarrow> Inl e | Inr c \<Rightarrow> clone_loop json_source c)"
    by (subst clone_loop.simps) simp
  show ?case
  proof (cases "json_task t (ns, ts)")
    case (Inl e)
    with task_json [of t "(ns, ts)"] show ?thesis unfolding step by (auto simp: success_simps)
  next
    case (Inr st)
    with task_json [of t "(ns, ts)"] have "clone_task json_source (as_out t) (cloner_of (ns, ts)) = Inr (cloner_of st)"
      by (simp add: success_simps)
    with 2 [OF Inr] Inr show ?thesis unfolding step by simp
  qed
qed

lemma graph_from_json_clone:
  "graph_from_json v = Inr g \<longleftrightarrow> clone_out json_source v () = Inr (g, ())"
proof (cases "allocate_json_input v 1 ([], [])")
  case (Inl e)
  with allocate_json_cases(2) [OF Inl] show ?thesis by (auto simp: graph_from_json_def clone_out_def)
next
  case (Inr r)
  obtain i st where r: "r = (i, st)" by (cases r)
  have a: "allocate_source json_source v 1 \<lparr>nodes_out = [], visited = [], work = [], world = ()\<rparr> = Inr (i, cloner_of st)"
    using allocate_json_cases(1) [OF Inr [unfolded r]] by simp
  show ?thesis
  proof (cases "json_input_loop st")
    case (Inl e)
    with loop_json [of st] a Inr r show ?thesis by (auto simp: graph_from_json_def clone_out_def success_simps)
  next
    case (Inr ns)
    with loop_json [of st] have "clone_loop json_source (cloner_of st) = Inr (cloner_of (ns, []))"
      by (simp add: success_simps)
    with Inr a \<open>allocate_json_input v 1 ([], []) = Inr r\<close> r show ?thesis
      by (auto simp: graph_from_json_def clone_out_def)
  qed
qed

end
