(* ===== verification/BoundaryTree.thy ===== *)
theory BoundaryTree
  imports BoundaryJson
begin

text \<open>
  \<open>graph_to_json\<close> of the boundary (\<^verbatim>\<open>workflow-core/src/boundary.rs\<close>): the loop over an explicit stack of
  actions, and the relation \<open>unfolds\<close> that says which tree a graph stands for and how many nodes its
  expansion visits. An \<open>expect\<close> that fails is the value \<open>Panicked\<close>.
\<close>

section \<open>To JSON\<close>

datatype output_action = Enter nat | ExitArray nat nat | ExitObject nat "ustring list"

datatype 'a outcome = Panicked | Returned "boundary_error + 'a"

fun json_of_number :: "f64 \<Rightarrow> json" where
  "json_of_number (Fin x) =
     (if x = of_int \<lfloor>x\<rfloor> \<and> \<bar>x\<bar> \<le> of_nat MAX_INTEGER_JSON_MAGNITUDE then
        (if x \<ge> 0 then JNum (PosInt (nat \<lfloor>x\<rfloor>)) else JNum (NegInt \<lfloor>x\<rfloor>))
      else JNum (Float x))"
| "json_of_number _ = JNull"

fun scalar_json :: "boundary_node \<Rightarrow> json option" where
  "scalar_json BNull = Some JNull"
| "scalar_json (BBool b) = Some (JBool b)"
| "scalar_json (BNumber x) = Some (json_of_number x)"
| "scalar_json (BString x) = Some (JStr x)"
| "scalar_json _ = None"

definition object_of :: "(ustring \<times> json) list \<Rightarrow> (ustring \<times> json) list" where
  "object_of kvs = foldl (\<lambda>m (key, v). bt_put key v m) [] kvs"

text \<open>\<open>values.split_off(values.len() - n)\<close>: what stays and what is taken.\<close>

definition split_off :: "nat \<Rightarrow> 'a list \<Rightarrow> ('a list \<times> 'a list) option" where
  "split_off n vs = (if n \<le> length vs then Some (take (length vs - n) vs, drop (length vs - n) vs) else None)"

text \<open>\<open>active\<close> is the set of containers being expanded, in the order they were entered.\<close>

function json_output_loop ::
  "boundary_node list \<Rightarrow> output_action list \<Rightarrow> json list \<Rightarrow> nat \<Rightarrow> nat list \<Rightarrow> json outcome" where
  "json_output_loop ns [] vs emitted active = (if vs = [] then Panicked else Returned (Inr (last vs)))"
| "json_output_loop ns (Enter i # as) vs emitted active =
     (let emitted = emitted + 1 in
      if emitted > MAX_JSON_OUTPUT_NODES then Returned (Inl (OutputTooLarge emitted))
      else if i < length ns then
        (case ns ! i of
           BArray is \<Rightarrow>
             if i \<in> set active then Returned (Inl Cycle)
             else json_output_loop ns (map Enter is @ ExitArray i (length is) # as) vs emitted (i # active)
         | BObject ps \<Rightarrow>
             if i \<in> set active then Returned (Inl Cycle)
             else json_output_loop ns (map (Enter \<circ> snd) ps @ ExitObject i (map fst ps) # as) vs emitted (i # active)
         | n \<Rightarrow> json_output_loop ns as (vs @ [the (scalar_json n)]) emitted active)
      else Returned (Inl (NoSuchNode i)))"
| "json_output_loop ns (ExitArray i n # as) vs emitted active =
     (case split_off n vs of
        None \<Rightarrow> Panicked
      | Some (vs, items) \<Rightarrow> json_output_loop ns as (vs @ [JArr items]) emitted (removeAll i active))"
| "json_output_loop ns (ExitObject i ks # as) vs emitted active =
     (case split_off (length ks) vs of
        None \<Rightarrow> Panicked
      | Some (vs, children) \<Rightarrow>
          json_output_loop ns as (vs @ [JObj (object_of (zip ks children))]) emitted (removeAll i active))"
  by pat_completeness auto
termination
  by (relation "measures [\<lambda>(ns, as, vs, emitted, active). Suc MAX_JSON_OUTPUT_NODES - emitted,
      \<lambda>(ns, as, vs, emitted, active). length as]") auto

declare json_output_loop.simps [simp del]

definition graph_to_json :: "boundary_graph \<Rightarrow> json outcome" where
  "graph_to_json g =
     (if graph_root g < length (graph_nodes g) then json_output_loop (graph_nodes g) [Enter (graph_root g)] [] 0 []
      else Returned (Inl (NoSuchNode (graph_root g))))"

section \<open>The tree of a graph\<close>

inductive unfolds :: "boundary_node list \<Rightarrow> nat \<Rightarrow> json \<times> nat \<Rightarrow> bool" for ns where
  unfolds_scalar: "i < length ns \<Longrightarrow> scalar_json (ns ! i) = Some v \<Longrightarrow> unfolds ns i (v, 1)"
| unfolds_array:
    "i < length ns \<Longrightarrow> ns ! i = BArray is \<Longrightarrow> list_all2 (unfolds ns) is rs
      \<Longrightarrow> unfolds ns i (JArr (map fst rs), Suc (\<Sum>r \<leftarrow> rs. snd r))"
| unfolds_object:
    "i < length ns \<Longrightarrow> ns ! i = BObject ps \<Longrightarrow> list_all2 (unfolds ns) (map snd ps) rs
      \<Longrightarrow> unfolds ns i (JObj (object_of (zip (map fst ps) (map fst rs))), Suc (\<Sum>r \<leftarrow> rs. snd r))"

text \<open>The children of a node, and what is below it.\<close>

fun edges :: "boundary_node \<Rightarrow> nat list" where
  "edges (BArray is) = is"
| "edges (BObject ps) = map snd ps"
| "edges _ = []"

inductive below :: "boundary_node list \<Rightarrow> nat \<Rightarrow> nat \<Rightarrow> bool" for ns where
  below_refl: "below ns i i"
| below_step: "i < length ns \<Longrightarrow> c \<in> set (edges (ns ! i)) \<Longrightarrow> below ns c j \<Longrightarrow> below ns i j"

inductive_cases unfoldsE: "unfolds ns i (v, n)"

lemma list_all2_unique:
  assumes "list_all2 (\<lambda>x y. P x y \<and> (\<forall>z. P x z \<longrightarrow> z = y)) xs ys" and "list_all2 P xs zs"
  shows "zs = ys"
  using assms
proof (induction xs ys arbitrary: zs rule: list_all2_induct)
  case (Cons x xs y ys)
  then show ?case by (cases zs) auto
qed simp

lemma unfolds_unique: "unfolds ns i r \<Longrightarrow> unfolds ns i r' \<Longrightarrow> r' = r"
proof (induction arbitrary: r' rule: unfolds.induct)
  case (unfolds_scalar i v)
  from unfolds_scalar(3,1,2) show ?case by (cases rule: unfolds.cases) auto
next
  case (unfolds_array i "is" rs)
  from unfolds_array(4,1,2) obtain rs' where r': "r' = (JArr (map fst rs'), Suc (\<Sum>r \<leftarrow> rs'. snd r))"
    and l: "list_all2 (unfolds ns) is rs'" by (cases rule: unfolds.cases) auto
  have "rs' = rs" by (rule list_all2_unique [OF unfolds_array(3) l])
  with r' show ?case by simp
next
  case (unfolds_object i ps rs)
  from unfolds_object(4,1,2) obtain rs' where
    r': "r' = (JObj (object_of (zip (map fst ps) (map fst rs'))), Suc (\<Sum>r \<leftarrow> rs'. snd r))"
    and l: "list_all2 (unfolds ns) (map snd ps) rs'" by (cases rule: unfolds.cases) auto
  have "rs' = rs" by (rule list_all2_unique [OF unfolds_object(3) l])
  with r' show ?case by simp
qed

lemma list_all2_member: "list_all2 P xs ys \<Longrightarrow> x \<in> set xs \<Longrightarrow> \<exists>y \<in> set ys. P x y"
  by (induction xs ys rule: list_all2_induct) auto

lemma size_below: "unfolds ns i r \<Longrightarrow> c \<in> set (edges (ns ! i)) \<Longrightarrow> \<exists>r'. unfolds ns c r' \<and> snd r' < snd r"
proof (induction rule: unfolds.cases)
  case (unfolds_scalar j v)
  then show ?case by (cases "ns ! i") auto
next
  case (unfolds_array j "is" rs)
  then obtain r' where "r' \<in> set rs" "unfolds ns c r'" by (auto dest: list_all2_member)
  then show ?case using unfolds_array member_le_sum_list [of "snd r'" "map snd rs"] by (intro exI [of _ r']) auto
next
  case (unfolds_object j ps rs)
  then have "c \<in> set (map snd ps)" by simp
  from list_all2_member [OF unfolds_object(5) this] obtain r' where "r' \<in> set rs" "unfolds ns c r'" by blast
  then show ?case using unfolds_object member_le_sum_list [of "snd r'" "map snd rs"] by (intro exI [of _ r']) auto
qed

lemma below_smaller: "below ns i j \<Longrightarrow> unfolds ns i r \<Longrightarrow> \<exists>r'. unfolds ns j r' \<and> snd r' \<le> snd r"
proof (induction arbitrary: r rule: below.induct)
  case (below_step i c j)
  from size_below [OF below_step.prems below_step.hyps(2)] obtain r1 where "unfolds ns c r1" "snd r1 < snd r" by blast
  with below_step.IH [of r1] show ?case by (meson le_less_trans less_imp_le)
qed blast

text \<open>A node with a tree is not below its own children.\<close>

lemma not_below_child:
  assumes "unfolds ns i r" and "c \<in> set (edges (ns ! i))"
  shows "\<not> below ns c i"
proof
  assume "below ns c i"
  from size_below [OF assms] obtain r1 where r1: "unfolds ns c r1" "snd r1 < snd r" by blast
  from below_smaller [OF \<open>below ns c i\<close> r1(1)] obtain r2 where r2: "unfolds ns i r2" "snd r2 \<le> snd r1" by blast
  from unfolds_unique [OF assms(1) r2(1)] r1 r2 show False by simp
qed

section \<open>The loop computes the tree\<close>

lemma split_off_append: "split_off (length ys) (xs @ ys) = Some (xs, ys)"
  by (simp add: split_off_def)

definition budgeted :: "nat \<Rightarrow> json outcome \<Rightarrow> json outcome" where
  "budgeted n k = (if n \<le> MAX_JSON_OUTPUT_NODES then k else Returned (Inl (OutputTooLarge (Suc MAX_JSON_OUTPUT_NODES))))"

text \<open>What entering a node with a tree does to the rest of the stack.\<close>

definition enters :: "boundary_node list \<Rightarrow> nat \<Rightarrow> json \<times> nat \<Rightarrow> bool" where
  "enters ns i r \<longleftrightarrow>
     (\<forall>as vs emitted active. emitted \<le> MAX_JSON_OUTPUT_NODES \<longrightarrow> (\<forall>j \<in> set active. \<not> below ns i j) \<longrightarrow>
        json_output_loop ns (Enter i # as) vs emitted active
          = budgeted (emitted + snd r) (json_output_loop ns as (vs @ [fst r]) (emitted + snd r) active))"

lemma entersD:
  "enters ns i r \<Longrightarrow> emitted \<le> MAX_JSON_OUTPUT_NODES \<Longrightarrow> (\<forall>j \<in> set active. \<not> below ns i j) \<Longrightarrow>
   json_output_loop ns (Enter i # as) vs emitted active
     = budgeted (emitted + snd r) (json_output_loop ns as (vs @ [fst r]) (emitted + snd r) active)"
  unfolding enters_def by blast

lemma enters_all:
  assumes "list_all2 (enters ns) is rs" and "\<forall>i \<in> set is. \<forall>j \<in> set active. \<not> below ns i j"
    and "emitted \<le> MAX_JSON_OUTPUT_NODES"
  shows "json_output_loop ns (map Enter is @ as) vs emitted active
    = budgeted (emitted + (\<Sum>r \<leftarrow> rs. snd r))
        (json_output_loop ns as (vs @ map fst rs) (emitted + (\<Sum>r \<leftarrow> rs. snd r)) active)"
  using assms
proof (induction "is" rs arbitrary: vs emitted rule: list_all2_induct)
  case Nil
  then show ?case by (simp add: budgeted_def)
next
  case (Cons i "is" r rs)
  have "json_output_loop ns (Enter i # map Enter is @ as) vs emitted active
      = budgeted (emitted + snd r) (json_output_loop ns (map Enter is @ as) (vs @ [fst r]) (emitted + snd r) active)"
    using Cons.hyps(1) Cons.prems unfolding enters_def by simp
  also have "\<dots> = budgeted (emitted + snd r + (\<Sum>r \<leftarrow> rs. snd r))
      (json_output_loop ns as (vs @ fst r # map fst rs) (emitted + snd r + (\<Sum>r \<leftarrow> rs. snd r)) active)"
    using Cons.IH [of "emitted + snd r" "vs @ [fst r]"] Cons.prems by (simp add: budgeted_def)
  finally show ?case by (simp add: add.assoc)
qed

lemma children_inactive:
  assumes "unfolds ns i r" and "i < length ns" and "\<forall>j \<in> set active. \<not> below ns i j"
  shows "\<forall>c \<in> set (edges (ns ! i)). \<forall>j \<in> set (i # active). \<not> below ns c j"
proof (intro ballI)
  fix c j assume c: "c \<in> set (edges (ns ! i))" and j: "j \<in> set (i # active)"
  show "\<not> below ns c j"
    using assms(3) j not_below_child [OF assms(1) c] below_step [OF assms(2) c] by auto
qed

lemma unfolds_enters: "unfolds ns i r \<Longrightarrow> enters ns i r"
proof (induction rule: unfolds.induct)
  case (unfolds_scalar i v)
  then show ?case
    unfolding enters_def by (cases "ns ! i") (auto simp: json_output_loop.simps budgeted_def Let_def)
next
  case (unfolds_array i "is" rs)
  have u: "unfolds ns i (JArr (map fst rs), Suc (\<Sum>r \<leftarrow> rs. snd r))"
    using unfolds_array by (intro unfolds.unfolds_array) (auto elim: list_all2_mono)
  have e: "list_all2 (enters ns) is rs" using unfolds_array(3) by (rule list_all2_mono) simp
  show ?case
    unfolding enters_def
  proof (intro allI impI)
    fix as vs emitted active
    assume em: "emitted \<le> MAX_JSON_OUTPUT_NODES" and act: "\<forall>j \<in> set active. \<not> below ns i j"
    have out: "i \<notin> set active" using act below_refl by blast
    have act': "\<forall>c \<in> set is. \<forall>j \<in> set (i # active). \<not> below ns c j"
      using children_inactive [OF u unfolds_array(1) act] unfolds_array(2) by simp
    have len: "length is = length (map fst rs)" using e by (simp add: list_all2_lengthD)
    have ex: "split_off (length is) (vs @ map fst rs) = Some (vs, map fst rs)"
      unfolding len by (rule split_off_append)
    show "json_output_loop ns (Enter i # as) vs emitted active
        = budgeted (emitted + snd (JArr (map fst rs), Suc (\<Sum>r \<leftarrow> rs. snd r)))
            (json_output_loop ns as (vs @ [fst (JArr (map fst rs), Suc (\<Sum>r \<leftarrow> rs. snd r))])
              (emitted + snd (JArr (map fst rs), Suc (\<Sum>r \<leftarrow> rs. snd r))) active)"
    proof (cases "emitted < MAX_JSON_OUTPUT_NODES")
      case True
      with enters_all [OF e act', of "emitted + 1" "ExitArray i (length is) # as" vs] unfolds_array(1,2) out ex show ?thesis
        by (simp add: json_output_loop.simps Let_def budgeted_def)
    next
      case False
      with em unfolds_array(1,2) show ?thesis by (simp add: json_output_loop.simps Let_def budgeted_def)
    qed
  qed
next
  case (unfolds_object i ps rs)
  let ?v = "JObj (object_of (zip (map fst ps) (map fst rs)))"
  have u: "unfolds ns i (?v, Suc (\<Sum>r \<leftarrow> rs. snd r))"
    using unfolds_object by (intro unfolds.unfolds_object) (auto elim: list_all2_mono)
  have e: "list_all2 (enters ns) (map snd ps) rs" using unfolds_object(3) by (rule list_all2_mono) simp
  show ?case
    unfolding enters_def
  proof (intro allI impI)
    fix as vs emitted active
    assume em: "emitted \<le> MAX_JSON_OUTPUT_NODES" and act: "\<forall>j \<in> set active. \<not> below ns i j"
    have out: "i \<notin> set active" using act below_refl by blast
    have act': "\<forall>c \<in> set (map snd ps). \<forall>j \<in> set (i # active). \<not> below ns c j"
      using children_inactive [OF u unfolds_object(1) act] unfolds_object(2) by simp
    have len: "length (map fst ps) = length (map fst rs)" using list_all2_lengthD [OF e] by simp
    have ex: "split_off (length ps) (vs @ map fst rs) = Some (vs, map fst rs)"
      using split_off_append [of "map fst rs" vs] len by simp
    show "json_output_loop ns (Enter i # as) vs emitted active
        = budgeted (emitted + snd (?v, Suc (\<Sum>r \<leftarrow> rs. snd r)))
            (json_output_loop ns as (vs @ [fst (?v, Suc (\<Sum>r \<leftarrow> rs. snd r))])
              (emitted + snd (?v, Suc (\<Sum>r \<leftarrow> rs. snd r))) active)"
    proof (cases "emitted < MAX_JSON_OUTPUT_NODES")
      case True
      with enters_all [OF e act', of "emitted + 1" "ExitObject i (map fst ps) # as" vs] unfolds_object(1,2) out ex show ?thesis
        by (simp add: json_output_loop.simps Let_def budgeted_def comp_def)
    next
      case False
      with em unfolds_object(1,2) show ?thesis by (simp add: json_output_loop.simps Let_def budgeted_def)
    qed
  qed
qed

text \<open>What the loop returns is a tree of the graph.\<close>

inductive completes :: "boundary_node list \<Rightarrow> output_action list \<Rightarrow> json list \<Rightarrow> json \<Rightarrow> bool" for ns where
  completes_end: "vs \<noteq> [] \<Longrightarrow> completes ns [] vs (last vs)"
| completes_enter: "unfolds ns i r \<Longrightarrow> completes ns as (vs @ [fst r]) v \<Longrightarrow> completes ns (Enter i # as) vs v"
| completes_array:
    "split_off n vs = Some (vs', items) \<Longrightarrow> completes ns as (vs' @ [JArr items]) v \<Longrightarrow> completes ns (ExitArray i n # as) vs v"
| completes_object:
    "split_off (length ks) vs = Some (vs', items) \<Longrightarrow> completes ns as (vs' @ [JObj (object_of (zip ks items))]) v
      \<Longrightarrow> completes ns (ExitObject i ks # as) vs v"

inductive_cases completes_endE: "completes ns [] vs v"
inductive_cases completes_enterE: "completes ns (Enter i # as) vs v"
inductive_cases completes_arrayE: "completes ns (ExitArray i n # as) vs v"
inductive_cases completes_objectE: "completes ns (ExitObject i ks # as) vs v"

lemma completes_entered:
  "completes ns (map Enter is @ as) vs v \<Longrightarrow> \<exists>rs. list_all2 (unfolds ns) is rs \<and> completes ns as (vs @ map fst rs) v"
proof (induction "is" arbitrary: vs)
  case (Cons i "is")
  then obtain r where r: "unfolds ns i r" "completes ns (map Enter is @ as) (vs @ [fst r]) v"
    by (auto elim: completes_enterE)
  from Cons.IH [OF r(2)] obtain rs where "list_all2 (unfolds ns) is rs" "completes ns as ((vs @ [fst r]) @ map fst rs) v"
    by blast
  with r(1) show ?case by (intro exI [of _ "r # rs"]) simp
qed simp

lemma loop_completes: "json_output_loop ns as vs emitted active = Returned (Inr v) \<Longrightarrow> completes ns as vs v"
proof (induction ns as vs emitted active rule: json_output_loop.induct)
  case (1 ns vs emitted active)
  then show ?case by (auto simp: json_output_loop.simps split: if_splits intro: completes_end)
next
  case (2 ns i as vs emitted active)
  then have em: "\<not> MAX_JSON_OUTPUT_NODES < emitted + 1" and i: "i < length ns"
    by (auto simp: json_output_loop.simps Let_def split: if_splits)
  show ?case
  proof (cases "ns ! i")
    case (BArray "is")
    with "2.prems" em i have out: "i \<notin> set active"
      and run: "json_output_loop ns (map Enter is @ ExitArray i (length is) # as) vs (emitted + 1) (i # active) = Returned (Inr v)"
      by (auto simp: json_output_loop.simps Let_def split: if_splits)
    from completes_entered [OF "2.IH"(5) [OF refl em i BArray out run]] obtain rs where
      rs: "list_all2 (unfolds ns) is rs" "completes ns (ExitArray i (length is) # as) (vs @ map fst rs) v" by blast
    have ex: "split_off (length is) (vs @ map fst rs) = Some (vs, map fst rs)"
      using split_off_append [of "map fst rs" vs] list_all2_lengthD [OF rs(1)] by simp
    with rs(2) have "completes ns as (vs @ [JArr (map fst rs)]) v" by (auto elim: completes_arrayE)
    with unfolds_array [OF i BArray rs(1)] show ?thesis using completes_enter by fastforce
  next
    case (BObject ps)
    with "2.prems" em i have out: "i \<notin> set active"
      and run: "json_output_loop ns (map (Enter \<circ> snd) ps @ ExitObject i (map fst ps) # as) vs (emitted + 1) (i # active) = Returned (Inr v)"
      by (auto simp: json_output_loop.simps Let_def split: if_splits)
    from "2.IH"(6) [OF refl em i BObject out run] have "completes ns (map Enter (map snd ps) @ ExitObject i (map fst ps) # as) vs v"
      by simp
    from completes_entered [OF this] obtain rs where
      rs: "list_all2 (unfolds ns) (map snd ps) rs" "completes ns (ExitObject i (map fst ps) # as) (vs @ map fst rs) v" by blast
    have ex: "split_off (length (map fst ps)) (vs @ map fst rs) = Some (vs, map fst rs)"
      using split_off_append [of "map fst rs" vs] list_all2_lengthD [OF rs(1)] by simp
    with rs(2) have "completes ns as (vs @ [JObj (object_of (zip (map fst ps) (map fst rs)))]) v"
      by (auto elim: completes_objectE)
    with unfolds_object [OF i BObject rs(1)] show ?thesis using completes_enter by fastforce
  qed (use 2 em i in \<open>auto simp: json_output_loop.simps Let_def intro!: completes_enter [OF unfolds_scalar]\<close>)
next
  case (3 ns i n as vs emitted active)
  then show ?case by (auto simp: json_output_loop.simps split: option.splits intro: completes_array)
next
  case (4 ns i ks as vs emitted active)
  then show ?case by (auto simp: json_output_loop.simps split: option.splits intro: completes_object)
qed

text \<open>The stack of values always holds what an exit takes, and a closed graph has no other failures.\<close>

fun balanced :: "output_action list \<Rightarrow> nat \<Rightarrow> bool" where
  "balanced [] k = (0 < k)"
| "balanced (Enter _ # as) k = balanced as (k + 1)"
| "balanced (ExitArray _ n # as) k = (n \<le> k \<and> balanced as (k - n + 1))"
| "balanced (ExitObject _ ks # as) k = (length ks \<le> k \<and> balanced as (k - length ks + 1))"

lemma balanced_enters: "balanced (map Enter is @ as) k \<longleftrightarrow> balanced as (k + length is)"
  by (induction "is" arbitrary: k) simp_all

lemma balanced_enters_snd: "balanced (map (Enter \<circ> snd) ps @ as) k \<longleftrightarrow> balanced as (k + length ps)"
  using balanced_enters [of "map snd ps" as k] by simp

lemma split_off_Some: "split_off n vs = Some (a, b) \<Longrightarrow> length a = length vs - n \<and> n \<le> length vs"
  by (auto simp: split_off_def split: if_splits)

definition closed_nodes :: "boundary_node list \<Rightarrow> bool" where
  "closed_nodes ns \<longleftrightarrow> (\<forall>n \<in> set ns. \<forall>c \<in> set (edges n). c < length ns)"

fun enters_inside :: "nat \<Rightarrow> output_action \<Rightarrow> bool" where
  "enters_inside k (Enter i) = (i < k)"
| "enters_inside k _ = True"

lemma entering_inside:
  "(\<forall>a \<in> set (map Enter is @ as). enters_inside k a) \<longleftrightarrow> (\<forall>c \<in> set is. c < k) \<and> (\<forall>a \<in> set as. enters_inside k a)"
  by (simp add: ball_Un)

lemma entering_inside_snd:
  "(\<forall>a \<in> set (map (Enter \<circ> snd) ps @ as). enters_inside k a) \<longleftrightarrow>
     (\<forall>c \<in> set (map snd ps). c < k) \<and> (\<forall>a \<in> set as. enters_inside k a)"
  by (simp add: ball_Un comp_def)

lemma loop_failures:
  assumes "closed_nodes ns"
  shows "balanced as (length vs) \<Longrightarrow> \<forall>a \<in> set as. enters_inside (length ns) a \<Longrightarrow> emitted \<le> MAX_JSON_OUTPUT_NODES \<Longrightarrow>
    (\<exists>v. json_output_loop ns as vs emitted active = Returned (Inr v)) \<or>
    json_output_loop ns as vs emitted active = Returned (Inl Cycle) \<or>
    json_output_loop ns as vs emitted active = Returned (Inl (OutputTooLarge (Suc MAX_JSON_OUTPUT_NODES)))"
  using assms
proof (induction ns as vs emitted active rule: json_output_loop.induct)
  case (1 ns vs emitted active)
  then show ?case by (simp add: json_output_loop.simps)
next
  case (2 ns i as vs emitted active)
  show ?case
  proof (cases "emitted < MAX_JSON_OUTPUT_NODES")
    case True
    then have em: "\<not> MAX_JSON_OUTPUT_NODES < emitted + 1" by simp
    have i: "i < length ns" using "2.prems"(2) by simp
    have cl: "\<forall>c \<in> set (edges (ns ! i)). c < length ns" using "2.prems"(4) nth_mem [OF i] unfolding closed_nodes_def by blast
    show ?thesis
    proof (cases "ns ! i")
      case (BArray "is")
      with "2.IH"(5) [OF refl em i BArray] "2.prems" em i cl show ?thesis
        unfolding entering_inside balanced_enters
        by (cases "i \<in> set active") (simp_all add: json_output_loop.simps Let_def)
    next
      case (BObject ps)
      with "2.IH"(6) [OF refl em i BObject] "2.prems" em i cl show ?thesis
        unfolding entering_inside_snd balanced_enters_snd
        by (cases "i \<in> set active") (simp_all add: json_output_loop.simps Let_def)
    qed (use 2 em i in \<open>auto simp: json_output_loop.simps Let_def\<close>)
  next
    case False
    with "2.prems"(3) show ?thesis by (simp add: json_output_loop.simps Let_def)
  qed
next
  case (3 ns i n as vs emitted active)
  then obtain a b where ab: "split_off n vs = Some (a, b)" by (auto simp: split_off_def)
  with 3 split_off_Some [OF ab] show ?case by (simp add: json_output_loop.simps)
next
  case (4 ns i ks as vs emitted active)
  then obtain a b where ab: "split_off (length ks) vs = Some (a, b)" by (auto simp: split_off_def)
  with 4 split_off_Some [OF ab] show ?case by (simp add: json_output_loop.simps)
qed

lemma graph_closed: "graph_ok g \<Longrightarrow> closed_nodes (graph_nodes g)"
  unfolding graph_ok_def closed_nodes_def
proof (intro ballI)
  fix n c
  assume g: "graph_root g < length (graph_nodes g) \<and> (\<forall>n \<in> set (graph_nodes g). node_ok (length (graph_nodes g)) n)"
    and "n \<in> set (graph_nodes g)" and c: "c \<in> set (edges n)"
  then have "node_ok (length (graph_nodes g)) n" by blast
  with c show "c < length (graph_nodes g)" by (cases n) auto
qed

lemma graph_to_json_tree:
  assumes "unfolds (graph_nodes g) (graph_root g) (v, n)" and "graph_root g < length (graph_nodes g)"
  shows "graph_to_json g = budgeted n (Returned (Inr v))"
proof -
  have "json_output_loop (graph_nodes g) [Enter (graph_root g)] [] 0 []
      = budgeted (0 + snd (v, n)) (json_output_loop (graph_nodes g) [] ([] @ [fst (v, n)]) (0 + snd (v, n)) [])"
    by (rule entersD [OF unfolds_enters [OF assms(1)]]) simp_all
  with assms(2) show ?thesis by (simp add: graph_to_json_def json_output_loop.simps(1))
qed

lemma graph_to_json_sound:
  assumes "graph_to_json g = Returned (Inr v)"
  shows "\<exists>n \<le> MAX_JSON_OUTPUT_NODES. unfolds (graph_nodes g) (graph_root g) (v, n)"
proof -
  have r: "graph_root g < length (graph_nodes g)" using assms by (simp add: graph_to_json_def split: if_splits)
  with assms have "completes (graph_nodes g) [Enter (graph_root g)] [] v"
    by (auto simp: graph_to_json_def intro: loop_completes)
  then obtain w where "unfolds (graph_nodes g) (graph_root g) w" and e: "completes (graph_nodes g) [] ([] @ [fst w]) v"
    by (rule completes_enterE)
  moreover from e have "fst w = v" by (rule completes_endE) simp
  ultimately have "unfolds (graph_nodes g) (graph_root g) w" "fst w = v" by simp_all
  with graph_to_json_tree [of g v "snd w"] r assms show ?thesis
    by (cases w) (auto simp: budgeted_def split: if_splits)
qed

text \<open>
  On a closed graph \<open>graph_to_json\<close> never panics and decides exactly: it returns a document if and only
  if the graph unfolds into it visiting at most 100000 nodes; it answers that the output is too large only when
  every tree of the graph is, and that there is a cycle only when the graph has no tree.
\<close>

theorem graph_to_json_decides:
  assumes "graph_ok g"
  shows "(\<forall>v. graph_to_json g = Returned (Inr v)
        \<longleftrightarrow> (\<exists>n \<le> 100000. unfolds (graph_nodes g) (graph_root g) (v, n))) \<and>
    (graph_to_json g = Returned (Inl Cycle) \<longrightarrow> (\<nexists>r. unfolds (graph_nodes g) (graph_root g) r)) \<and>
    ((\<exists>v. graph_to_json g = Returned (Inr v)) \<or> graph_to_json g = Returned (Inl Cycle)
      \<or> graph_to_json g = Returned (Inl (OutputTooLarge 100001)))"
proof (intro conjI allI)
  have r: "graph_root g < length (graph_nodes g)" using assms by (simp add: graph_ok_def)
  note tree = graph_to_json_tree [OF _ r]
  fix v
  show "graph_to_json g = Returned (Inr v) \<longleftrightarrow> (\<exists>n \<le> 100000. unfolds (graph_nodes g) (graph_root g) (v, n))"
    using graph_to_json_sound [of g v] tree by (auto simp: budgeted_def MAX_JSON_OUTPUT_NODES_def)
  show "graph_to_json g = Returned (Inl Cycle) \<longrightarrow> (\<nexists>r. unfolds (graph_nodes g) (graph_root g) r)"
  proof (intro impI notI)
    assume c: "graph_to_json g = Returned (Inl Cycle)" and "\<exists>r. unfolds (graph_nodes g) (graph_root g) r"
    then obtain r where "unfolds (graph_nodes g) (graph_root g) (fst r, snd r)" by auto
    with tree [OF this] c show False by (simp add: budgeted_def split: if_splits)
  qed
  show "(\<exists>v. graph_to_json g = Returned (Inr v)) \<or> graph_to_json g = Returned (Inl Cycle)
      \<or> graph_to_json g = Returned (Inl (OutputTooLarge 100001))"
    using loop_failures [OF graph_closed [OF assms], of "[Enter (graph_root g)]" "[]" 0 "[]"] r
    by (simp add: graph_to_json_def MAX_JSON_OUTPUT_NODES_def)
qed

section \<open>Documents survive the boundary\<close>


text \<open>Nesting and array lengths within the limits; what hangs on a \<^verbatim>\<open>__proto__\<close> key does not count.\<close>

fun admissible :: "nat \<Rightarrow> json \<Rightarrow> bool" where
  "admissible d (JArr xs) = (d \<le> MAX_BOUNDARY_DEPTH \<and> length xs \<le> MAX_BOUNDARY_ITEMS \<and> (\<forall>x \<in> set xs. admissible (Suc d) x))"
| "admissible d (JObj m) = (d \<le> MAX_BOUNDARY_DEPTH \<and> (\<forall>p \<in> set m. fst p = PROTO \<or> admissible (Suc d) (snd p)))"
| "admissible d v = True"

fun task_admissible :: "in_work \<Rightarrow> bool" where
  "task_admissible (InArray i xs d) = (\<forall>x \<in> set xs. admissible (Suc d) x)"
| "task_admissible (InObject i m d) = (\<forall>p \<in> set m. fst p = PROTO \<or> admissible (Suc d) (snd p))"

definition all_admissible :: "in_work list \<Rightarrow> bool" where
  "all_admissible ts \<longleftrightarrow> (\<forall>t \<in> set ts. task_admissible t)"

text \<open>An allocation moves the question from the value to the tasks.\<close>

lemma all_admissible_simps [simp]: "all_admissible []" "all_admissible (t # ts) \<longleftrightarrow> task_admissible t \<and> all_admissible ts"
  by (simp_all add: all_admissible_def)












lemma sample_cycle:
  "graph_to_json \<lparr>graph_nodes = [BObject [([97], 0), ([99], 1)], BNumber (Fin 3)], graph_root = 0\<rparr> = Returned (Inl Cycle)"
  by (simp add: graph_to_json_def json_output_loop.simps MAX_JSON_OUTPUT_NODES_def)

theorem graph_to_json_decides_witness:
  "\<nexists>r. unfolds [BObject [([97], 0), ([99], 1)], BNumber (Fin 3)] 0 r"
  using graph_to_json_decides [OF clone_out_ok [OF sample_clone]] sample_cycle by simp


end
