(* ===== verification/BoundaryDepth.thy ===== *)
theory BoundaryDepth
  imports BoundaryTree
begin

text \<open>
  The depth limit of the boundary does not bound the documents it makes. A container found a second time is not
  counted again, wherever it hangs; a script value of 1000 levels whose deepest array holds the head of
  another such chain crosses the boundary and expands to twice the limit.
\<close>

text \<open>The levels of containers in a document, which is how deep its destructor recurses.\<close>

fun json_levels :: "json \<Rightarrow> nat" where
  "json_levels (JArr xs) = Suc (foldr (\<lambda>x. max (json_levels x)) xs 0)"
| "json_levels (JObj m) = Suc (foldr (\<lambda>p. max (json_levels (snd p))) m 0)"
| "json_levels _ = 0"

text \<open>
  The value 0 is an object holding the arrays 1000 and 1; array \<open>v\<close> holds the value \<open>v + 1\<close>; 1999 is null. So 1
  heads a chain that runs through 1000, and 1000 hangs from the object as well.
\<close>

definition ladder :: "(nat, unit) source" where
  "ladder =
     \<lparr>kind = (\<lambda>v. if v = 0 then KObject else if v < 1999 then KArray else KNull),
      identity = (\<lambda>v. Some v), boolean = (\<lambda>_. True), number = (\<lambda>_. NaN), string_value = (\<lambda>_. []),
      array_length = (\<lambda>_ s. (Inr (Fin 1), s)), array_element = (\<lambda>v _ s. (Inr (v + 1), s)),
      own_entries = (\<lambda>_ s. (Inr [([97], 1000), ([98], 1)], s))\<rparr>"

lemma ladder_fields:
  "kind ladder v = (if v = 0 then KObject else if v < 1999 then KArray else KNull)"
  "identity ladder v = Some v"
  "array_length ladder v s = (Inr (Fin 1), s)"
  "array_element ladder v k s = (Inr (v + 1), s)"
  "own_entries ladder v s = (Inr [([97], 1000), ([98], 1)], s)"
  by (simp_all add: ladder_def)

lemma one_item: "checked_length (Fin 1) = Inr 1"
  by (simp add: checked_length_def safe_integer_def MAX_SAFE_INTEGER_def MAX_BOUNDARY_ITEMS_def Let_def)

abbreviation cloner_at :: "boundary_node list \<Rightarrow> (nat \<times> nat) list \<Rightarrow> nat out_work list \<Rightarrow> (nat, unit) cloner" where
  "cloner_at ns vis ts \<equiv> \<lparr>nodes_out = ns, visited = vis, work = ts, world = ()\<rparr>"

lemma allocate_ladder:
  assumes "0 < v" and "v < 1999" and "d \<le> 1000"
  shows "map_of vis v = None \<Longrightarrow> allocate_source ladder v d (cloner_at ns vis ts)
      = Inr (length ns, cloner_at (ns @ [BArray []]) (al_put v (length ns) vis) (OutArray (length ns) v 1 d # ts))"
    and "map_of vis v = Some i \<Longrightarrow> allocate_source ladder v d (cloner_at ns vis ts) = Inr (i, cloner_at ns vis ts)"
  using assms
  by (simp_all add: allocate_source_def known_node_def ladder_fields add_node_def remember_def push_work_def one_item
      MAX_BOUNDARY_DEPTH_def)

lemma ladder_step:
  assumes "0 < v" and "v + 1 < 1999" and "d + 1 \<le> 1000" and "map_of vis (v + 1) = None"
  shows "\<exists>ns'. clone_loop ladder (cloner_at ns vis (OutArray i v 1 d # ts))
    = clone_loop ladder (cloner_at ns' (al_put (v + 1) (length ns) vis) (OutArray (length ns) (v + 1) 1 (d + 1) # ts))"
proof -
  have "clone_task ladder (OutArray i v 1 d) (cloner_at ns vis ts)
      = Inr (cloner_at ((ns @ [BArray []])[i := BArray [length ns]]) (al_put (v + 1) (length ns) vis)
          (OutArray (length ns) (v + 1) 1 (d + 1) # ts))"
    using allocate_ladder(1) [of "v + 1" "d + 1" vis ns ts] assms by (simp add: ladder_fields set_node_def)
  then show ?thesis by (intro exI) (subst clone_loop.simps, simp)
qed

lemma ladder_chain:
  assumes "0 < v" and "v + k < 1999" and "d + k \<le> 1000" and "\<forall>w. v < w \<longrightarrow> w \<le> v + k \<longrightarrow> map_of vis w = None"
  shows "\<exists>ns' vis' i'. clone_loop ladder (cloner_at ns vis (OutArray i v 1 d # ts))
      = clone_loop ladder (cloner_at ns' vis' (OutArray i' (v + k) 1 (d + k) # ts)) \<and>
    (\<forall>w. map_of vis' w = None \<longleftrightarrow> map_of vis w = None \<and> \<not> (v < w \<and> w \<le> v + k))"
  using assms(2-4)
proof (induction k)
  case 0
  then show ?case by (intro exI [of _ ns] exI [of _ vis] exI [of _ i]) auto
next
  case (Suc k)
  then obtain ns1 vis1 i1 where
    e: "clone_loop ladder (cloner_at ns vis (OutArray i v 1 d # ts))
      = clone_loop ladder (cloner_at ns1 vis1 (OutArray i1 (v + k) 1 (d + k) # ts))" and
    n: "\<forall>w. map_of vis1 w = None \<longleftrightarrow> map_of vis w = None \<and> \<not> (v < w \<and> w \<le> v + k)" by auto
  have "map_of vis1 (v + k + 1) = None" using n Suc.prems(3) by simp
  with ladder_step [of "v + k" "d + k" vis1 ns1 i1 ts] Suc.prems assms(1) obtain ns2 where
    "clone_loop ladder (cloner_at ns1 vis1 (OutArray i1 (v + k) 1 (d + k) # ts))
      = clone_loop ladder (cloner_at ns2 (al_put (v + k + 1) (length ns1) vis1)
          (OutArray (length ns1) (v + k + 1) 1 (d + k + 1) # ts))" by auto
  with e n show ?case
    by (intro exI [of _ ns2] exI [of _ "al_put (v + k + 1) (length ns1) vis1"] exI [of _ "length ns1"])
      (auto simp: le_Suc_eq)
qed

text \<open>The deepest array of each chain.\<close>

lemma ladder_joint:
  assumes "map_of vis 1000 = Some j"
  shows "\<exists>ns'. clone_loop ladder (cloner_at ns vis (OutArray i 999 1 1000 # ts)) = clone_loop ladder (cloner_at ns' vis ts)"
proof -
  have "clone_task ladder (OutArray i 999 1 1000) (cloner_at ns vis ts) = Inr (cloner_at (ns[i := BArray [j]]) vis ts)"
    using assms by (simp add: ladder_fields set_node_def allocate_source_def known_node_def)
  then show ?thesis by (intro exI) (subst clone_loop.simps, simp)
qed

lemma ladder_foot:
  "\<exists>c. clone_loop ladder (cloner_at ns vis [OutArray i 1998 1 1000]) = Inr c"
proof -
  have "clone_task ladder (OutArray i 1998 1 1000) (cloner_at ns vis [])
      = Inr (cloner_at ((ns @ [BNull])[i := BArray [length ns]]) vis [])"
    by (simp add: ladder_fields set_node_def allocate_source_def known_node_def add_node_def)
  then show ?thesis by (subst clone_loop.simps) (simp add: clone_loop.simps [of ladder "cloner_at _ _ []"])
qed

lemma ladder_crosses: "\<exists>g. clone_out ladder 0 () = Inr (g, ())"
proof -
  let ?c0 = "cloner_at [] [] []"
  let ?vis = "al_put 1 2 (al_put 1000 1 [(0, 0)]) :: (nat \<times> nat) list"
  have root: "allocate_source ladder 0 1 ?c0 = Inr (0, cloner_at [BObject []] [(0, 0)] [OutObject 0 0 1])"
    by (simp add: allocate_source_def known_node_def ladder_fields add_node_def remember_def push_work_def
        MAX_BOUNDARY_DEPTH_def al_put_def al_del_def)
  have task: "\<exists>ns. clone_task ladder (OutObject 0 0 1) (cloner_at [BObject []] [(0, 0)] [])
      = Inr (cloner_at ns ?vis [OutArray 2 1 1 2, OutArray 1 1000 1 2])"
    using allocate_ladder(1) [of 1000 2 "[(0, 0)]" "[BObject []]" "[]"]
      allocate_ladder(1) [of 1 2 "al_put 1000 1 [(0, 0)]" "[BObject [], BArray []]" "[OutArray 1 1000 1 2]"]
    by (simp add: ladder_fields skips_def PROTO_def set_node_def numeral_2_eq_2)
  then obtain ns where "clone_task ladder (OutObject 0 0 1) (cloner_at [BObject []] [(0, 0)] [])
      = Inr (cloner_at ns ?vis [OutArray 2 1 1 2, OutArray 1 1000 1 2])" by blast
  then have start: "clone_loop ladder (cloner_at [BObject []] [(0, 0)] [OutObject 0 0 1])
      = clone_loop ladder (cloner_at ns ?vis [OutArray 2 1 1 2, OutArray 1 1000 1 2])"
    by (subst clone_loop.simps) simp
  obtain ns1 vis1 i1 where
    a: "clone_loop ladder (cloner_at ns ?vis [OutArray 2 1 1 2, OutArray 1 1000 1 2])
      = clone_loop ladder (cloner_at ns1 vis1 [OutArray i1 999 1 1000, OutArray 1 1000 1 2])" and
    n1: "\<forall>w. map_of vis1 w = None \<longleftrightarrow> map_of ?vis w = None \<and> \<not> (1 < w \<and> w \<le> 999)"
    using ladder_chain [of 1 998 2 ?vis ns 2 "[OutArray 1 1000 1 2]"] by auto
  have "map_of vis1 1000 \<noteq> None" using n1 by simp
  then obtain ns2 where
    b: "clone_loop ladder (cloner_at ns1 vis1 [OutArray i1 999 1 1000, OutArray 1 1000 1 2])
      = clone_loop ladder (cloner_at ns2 vis1 [OutArray 1 1000 1 2])"
    using ladder_joint by blast
  have "\<forall>w. 1000 < w \<longrightarrow> w \<le> 1000 + 998 \<longrightarrow> map_of vis1 w = None" using n1 by simp
  then obtain ns3 vis3 i3 where
    c: "clone_loop ladder (cloner_at ns2 vis1 [OutArray 1 1000 1 2])
      = clone_loop ladder (cloner_at ns3 vis3 [OutArray i3 1998 1 1000])"
    using ladder_chain [of 1000 998 2 vis1 ns2 1 "[]"] by auto
  from ladder_foot obtain c' where "clone_loop ladder (cloner_at ns3 vis3 [OutArray i3 1998 1 1000]) = Inr c'" by blast
  with start a b c root show ?thesis by (simp add: clone_out_def)
qed

section \<open>The document it expands to\<close>

fun nest :: "nat \<Rightarrow> json" where
  "nest 0 = JNull"
| "nest (Suc k) = JArr [nest k]"

lemma nest_levels: "json_levels (nest k) = k"
  by (induction k) simp_all

lemma ladder_steady: "steady ladder ()" "stable_identity ladder"
  by (simp_all add: steady_def stable_identity_def ladder_fields)

lemma ladder_unfolds:
  assumes m: "\<forall>i < length org. node_mirrors ladder () org (org ! i) (ns ! i)" and len: "length org = length ns"
  shows "i < length org \<Longrightarrow> org ! i + k = 1999 \<Longrightarrow> 0 < org ! i \<Longrightarrow> unfolds ns i (nest k, Suc k)"
proof (induction k arbitrary: i)
  case 0
  have "node_mirrors ladder () org (org ! i) (ns ! i)" using m 0(1) by blast
  with 0 have "ns ! i = BNull" by (simp add: node_mirrors_def ladder_fields)
  with 0 len unfolds_scalar [of i ns JNull] show ?case by simp
next
  case (Suc k)
  have "node_mirrors ladder () org (org ! i) (ns ! i)" using m Suc.prems(1) by blast
  with Suc.prems obtain c where c: "ns ! i = BArray [c]" "c < length org" "org ! c = org ! i + 1"
    by (auto simp: node_mirrors_def array_mirrors_def ladder_fields one_item length_Suc_conv)
  from Suc.IH [of c] c Suc.prems(2) have "unfolds ns c (nest k, Suc k)" by simp
  with unfolds_array [of i ns "[c]" "[(nest k, Suc k)]"] c(1) Suc.prems(1) len show ?case by simp
qed

text \<open>
  Error: a script value none of whose containers is more than 1000 levels deep where it is first found
  crosses the boundary, and the document made of it is 1999 levels deep, past the depth the limit is to keep
  safe for native recursive destruction.
\<close>

theorem boundary_depth_can_be_passed:
  "\<exists>g. clone_out ladder 0 () = Inr (g, ()) \<and>
    graph_to_json g = Returned (Inr (JObj [([97], nest 999), ([98], nest 1998)])) \<and>
    json_levels (JObj [([97], nest 999), ([98], nest 1998)]) = 1999 \<and> MAX_BOUNDARY_DEPTH < 1999"
proof -
  obtain g where g: "clone_out ladder 0 () = Inr (g, ())" using ladder_crosses by blast
  from clone_out_mirror [OF ladder_steady g] obtain org where
    o: "length org = length (graph_nodes g)" "graph_root g < length org" "org ! graph_root g = 0"
    "\<forall>i < length org. node_mirrors ladder () org (org ! i) (graph_nodes g ! i)" by blast
  have "node_mirrors ladder () org 0 (graph_nodes g ! graph_root g)" using o(2-4) by metis
  then obtain a b where ab: "graph_nodes g ! graph_root g = BObject [([97], a), ([98], b)]"
    "a < length org" "b < length org" "org ! a = 1000" "org ! b = 1"
    by (auto simp: node_mirrors_def object_mirrors_def ladder_fields skips_def PROTO_def map_eq_Cons_conv)
  have "unfolds (graph_nodes g) a (nest 999, 1000)" using ladder_unfolds [OF o(4) o(1), of a 999] ab by simp
  moreover have "unfolds (graph_nodes g) b (nest 1998, 1999)" using ladder_unfolds [OF o(4) o(1), of b 1998] ab by simp
  ultimately have "list_all2 (unfolds (graph_nodes g)) (map snd [([97], a), ([98], b)]) [(nest 999, 1000), (nest 1998, 1999)]"
    by simp
  from unfolds_object [OF _ ab(1) this] o(1,2) have
    "unfolds (graph_nodes g) (graph_root g) (JObj [([97], nest 999), ([98], nest 1998)], 3000)"
    by (simp add: object_of_def)
  from graph_to_json_tree [OF this] o(1,2) have
    "graph_to_json g = Returned (Inr (JObj [([97], nest 999), ([98], nest 1998)]))"
    by (simp add: budgeted_def MAX_JSON_OUTPUT_NODES_def)
  moreover have "json_levels (JObj [([97], nest 999), ([98], nest 1998)]) = 1999"
    by (simp only: json_levels.simps nest_levels snd_conv foldr.simps comp_apply id_apply)
  ultimately show ?thesis using g by (simp add: MAX_BOUNDARY_DEPTH_def)
qed

end
