(* ===== verification/BoundaryIn.thy ===== *)
theory BoundaryIn
  imports BoundaryTree
begin

text \<open>
  \<open>clone_in\<close> of the boundary (\<^verbatim>\<open>workflow-core/src/boundary.rs\<close>): a graph built up in the script engine. The
  engine is the argument \<open>snk\<close>, one field per method of the trait \<open>SinkBuilder\<close>, over a heap \<open>'k\<close> and
  references \<open>'w\<close>. What the theorem needs of an engine is \<open>sink_laws\<close>.
\<close>

section \<open>The inbound clone\<close>

record ('w, 'k) sink =
  sink_null :: "'k \<Rightarrow> (ustring + 'w) \<times> 'k"
  sink_boolean :: "bool \<Rightarrow> 'k \<Rightarrow> (ustring + 'w) \<times> 'k"
  sink_number :: "f64 \<Rightarrow> 'k \<Rightarrow> (ustring + 'w) \<times> 'k"
  sink_string :: "ustring \<Rightarrow> 'k \<Rightarrow> (ustring + 'w) \<times> 'k"
  empty_array :: "'k \<Rightarrow> (ustring + 'w) \<times> 'k"
  empty_object :: "'k \<Rightarrow> (ustring + 'w) \<times> 'k"
  push_element :: "'w \<Rightarrow> 'w \<Rightarrow> 'k \<Rightarrow> (ustring + unit) \<times> 'k"
  set_property :: "'w \<Rightarrow> ustring \<Rightarrow> 'w \<Rightarrow> 'k \<Rightarrow> (ustring + unit) \<times> 'k"

text \<open>The memo of references made, the containers still to fill, and the heap.\<close>

record ('w, 'k) builder =
  memo :: "'w option list"
  to_fill :: "nat list"
  heap :: 'k

fun is_box :: "boundary_node \<Rightarrow> bool" where
  "is_box (BArray _) = True"
| "is_box (BObject _) = True"
| "is_box _ = False"

fun make_value :: "('w, 'k) sink \<Rightarrow> boundary_node \<Rightarrow> 'k \<Rightarrow> (ustring + 'w) \<times> 'k" where
  "make_value snk BNull k = sink_null snk k"
| "make_value snk (BBool b) k = sink_boolean snk b k"
| "make_value snk (BNumber x) k = sink_number snk x k"
| "make_value snk (BString x) k = sink_string snk x k"
| "make_value snk (BArray _) k = empty_array snk k"
| "make_value snk (BObject _) k = empty_object snk k"

fun too_many :: "boundary_node \<Rightarrow> bool" where
  "too_many (BArray is) = (length is > MAX_BOUNDARY_ITEMS)"
| "too_many _ = False"

definition allocate_sink ::
  "boundary_node list \<Rightarrow> ('w, 'k) sink \<Rightarrow> nat \<Rightarrow> ('w, 'k) builder \<Rightarrow> boundary_error + 'w \<times> ('w, 'k) builder" where
  "allocate_sink ns snk i b =
     (if i < length ns then
        (case memo b ! i of
           Some w \<Rightarrow> Inr (w, b)
         | None \<Rightarrow>
             if too_many (ns ! i) then Inl (TooManyItems (length (edges (ns ! i))))
             else case make_value snk (ns ! i) (heap b) of
                 (Inl e, _) \<Rightarrow> Inl (SinkError e)
               | (Inr w, k) \<Rightarrow>
                   Inr (w, b\<lparr>memo := (memo b)[i := Some w],
                             to_fill := (if is_box (ns ! i) then i # to_fill b else to_fill b), heap := k\<rparr>))
      else Inl (NoSuchNode i))"

fun fill_array ::
  "boundary_node list \<Rightarrow> ('w, 'k) sink \<Rightarrow> 'w \<Rightarrow> nat list \<Rightarrow> ('w, 'k) builder \<Rightarrow> boundary_error + ('w, 'k) builder" where
  "fill_array ns snk a [] b = Inr b"
| "fill_array ns snk a (i # is) b =
     (case allocate_sink ns snk i b of
        Inl e \<Rightarrow> Inl e
      | Inr (w, b) \<Rightarrow>
          (case push_element snk a w (heap b) of
             (Inl e, _) \<Rightarrow> Inl (SinkError e)
           | (Inr _, k) \<Rightarrow> fill_array ns snk a is (b\<lparr>heap := k\<rparr>)))"

fun fill_object ::
  "boundary_node list \<Rightarrow> ('w, 'k) sink \<Rightarrow> 'w \<Rightarrow> (ustring \<times> nat) list \<Rightarrow> ('w, 'k) builder \<Rightarrow> boundary_error + ('w, 'k) builder" where
  "fill_object ns snk a [] b = Inr b"
| "fill_object ns snk a ((key, i) # ps) b =
     (if key = PROTO then fill_object ns snk a ps b
      else case allocate_sink ns snk i b of
          Inl e \<Rightarrow> Inl e
        | Inr (w, b) \<Rightarrow>
            (case set_property snk a key w (heap b) of
               (Inl e, _) \<Rightarrow> Inl (SinkError e)
             | (Inr _, k) \<Rightarrow> fill_object ns snk a ps (b\<lparr>heap := k\<rparr>)))"

text \<open>A container whose shell was not memoized, and a scalar that was scheduled, are panics.\<close>

definition fill_node :: "boundary_node list \<Rightarrow> ('w, 'k) sink \<Rightarrow> nat \<Rightarrow> ('w, 'k) builder \<Rightarrow> ('w, 'k) builder outcome" where
  "fill_node ns snk i b =
     (case memo b ! i of
        None \<Rightarrow> Panicked
      | Some a \<Rightarrow>
          (case ns ! i of
             BArray is \<Rightarrow> Returned (fill_array ns snk a is b)
           | BObject ps \<Rightarrow> Returned (fill_object ns snk a ps b)
           | _ \<Rightarrow> Panicked))"

definition unmade :: "('w, 'k) builder \<Rightarrow> nat" where
  "unmade b = length (filter (\<lambda>x. x = None) (memo b))"

definition to_do :: "('w, 'k) builder \<Rightarrow> nat" where
  "to_do b = unmade b + length (to_fill b)"

lemma unmade_update:
  assumes "i < length xs" and "xs ! i = None"
  shows "Suc (length (filter (\<lambda>x. x = None) (xs[i := Some w]))) = length (filter (\<lambda>x. x = None) xs)"
  using length_filter_update [of i xs "\<lambda>x. x = None" "Some w"] assms by simp

lemma allocate_sink_to_do:
  assumes "allocate_sink ns snk i b = Inr (w, b')" and "length (memo b) = length ns"
  shows "to_do b' \<le> to_do b \<and> length (memo b') = length ns"
proof (cases "memo b ! i")
  case (Some w')
  with assms show ?thesis by (auto simp: allocate_sink_def split: if_splits)
next
  case None
  with assms have i: "i < length (memo b)" and b': "memo b' = (memo b)[i := Some w]"
    "to_fill b' = (if is_box (ns ! i) then i # to_fill b else to_fill b)"
    by (auto simp: allocate_sink_def split: if_splits prod.splits sum.splits)
  with unmade_update [OF i None, of w] assms(2) show ?thesis by (simp add: to_do_def unmade_def)
qed

lemma to_do_heap [simp]: "to_do (b\<lparr>heap := k\<rparr>) = to_do b"
  by (simp add: to_do_def unmade_def)

lemma fill_array_to_do:
  "fill_array ns snk a is b = Inr b' \<Longrightarrow> length (memo b) = length ns \<Longrightarrow> to_do b' \<le> to_do b \<and> length (memo b') = length ns"
proof (induction "is" arbitrary: b)
  case (Cons i "is")
  then obtain w b1 u k where a: "allocate_sink ns snk i b = Inr (w, b1)" "push_element snk a w (heap b1) = (Inr u, k)"
    "fill_array ns snk a is (b1\<lparr>heap := k\<rparr>) = Inr b'"
    by (auto split: prod.splits sum.splits)
  from allocate_sink_to_do [OF a(1) Cons.prems(2)] Cons.IH [OF a(3)] show ?case by simp
qed simp

lemma fill_object_to_do:
  "fill_object ns snk a ps b = Inr b' \<Longrightarrow> length (memo b) = length ns \<Longrightarrow> to_do b' \<le> to_do b \<and> length (memo b') = length ns"
proof (induction ps arbitrary: b)
  case (Cons p ps)
  obtain key i where p: "p = (key, i)" by (cases p)
  show ?case
  proof (cases "key = PROTO")
    case False
    with Cons.prems p obtain w b1 u k where a: "allocate_sink ns snk i b = Inr (w, b1)"
      "set_property snk a key w (heap b1) = (Inr u, k)" "fill_object ns snk a ps (b1\<lparr>heap := k\<rparr>) = Inr b'"
      by (auto split: prod.splits sum.splits)
    from allocate_sink_to_do [OF a(1) Cons.prems(2)] Cons.IH [OF a(3)] show ?thesis by simp
  qed (use Cons p in simp)
qed simp

lemma fill_node_to_do:
  "fill_node ns snk i b = Returned (Inr b') \<Longrightarrow> length (memo b) = length ns \<Longrightarrow> to_do b' \<le> to_do b \<and> length (memo b') = length ns"
  by (auto simp: fill_node_def split: option.splits boundary_node.splits dest: fill_array_to_do fill_object_to_do)

text \<open>The loop; the memo has a place for every node, else indexing it would panic.\<close>

function fill_loop :: "boundary_node list \<Rightarrow> ('w, 'k) sink \<Rightarrow> ('w, 'k) builder \<Rightarrow> ('w, 'k) builder outcome" where
  "fill_loop ns snk b =
     (case to_fill b of
        [] \<Rightarrow> Returned (Inr b)
      | i # rest \<Rightarrow>
          if length (memo b) = length ns then
            (case fill_node ns snk i (b\<lparr>to_fill := rest\<rparr>) of
               Returned (Inr b') \<Rightarrow> fill_loop ns snk b'
             | r \<Rightarrow> r)
          else Panicked)"
  by pat_completeness auto
termination
proof (relation "measure (\<lambda>(ns, snk, b). to_do b)")
  fix ns and snk :: "('w, 'k) sink" and b :: "('w, 'k) builder" and i rest r b'
  assume "to_fill b = i # rest" "length (memo b) = length ns"
    and "fill_node ns snk i (b\<lparr>to_fill := rest\<rparr>) = Returned r" "r = Inr b'"
  with fill_node_to_do [of ns snk i "b\<lparr>to_fill := rest\<rparr>" b'] show "((ns, snk, b'), (ns, snk, b)) \<in> measure (\<lambda>(ns, snk, b). to_do b)"
    by (simp add: to_do_def unmade_def)
qed simp

declare fill_loop.simps [simp del]

definition clone_in :: "boundary_graph \<Rightarrow> ('w, 'k) sink \<Rightarrow> 'k \<Rightarrow> ('w \<times> 'k) outcome" where
  "clone_in g snk k =
     (if graph_root g < length (graph_nodes g) then
        (case allocate_sink (graph_nodes g) snk (graph_root g)
            \<lparr>memo = replicate (length (graph_nodes g)) None, to_fill = [], heap = k\<rparr> of
           Inl e \<Rightarrow> Returned (Inl e)
         | Inr (w, b) \<Rightarrow>
             (case fill_loop (graph_nodes g) snk b of
                Panicked \<Rightarrow> Panicked
              | Returned (Inl e) \<Rightarrow> Returned (Inl e)
              | Returned (Inr b) \<Rightarrow> Returned (Inr (w, heap b))))
      else Returned (Inl (NoSuchNode (graph_root g))))"

section \<open>What an engine promises\<close>

datatype 'w seen = SNull | SBool bool | SNumber f64 | SString ustring | SArray "'w list" | SObject "(ustring \<times> 'w) list"

fun fresh_view :: "boundary_node \<Rightarrow> 'w seen" where
  "fresh_view BNull = SNull"
| "fresh_view (BBool b) = SBool b"
| "fresh_view (BNumber x) = SNumber x"
| "fresh_view (BString x) = SString x"
| "fresh_view (BArray _) = SArray []"
| "fresh_view (BObject _) = SObject []"

text \<open>
  \<open>view k w\<close> is what the reference \<open>w\<close> shows in the heap \<open>k\<close>. Making a value changes nothing there was; a
  container is new; adding to a container changes that container only.
\<close>

definition sink_laws :: "('w, 'k) sink \<Rightarrow> ('k \<Rightarrow> 'w \<Rightarrow> 'w seen option) \<Rightarrow> bool" where
  "sink_laws snk view \<longleftrightarrow>
     (\<forall>n k w k'. make_value snk n k = (Inr w, k') \<longrightarrow>
        view k' w = Some (fresh_view n) \<and> (is_box n \<longrightarrow> view k w = None) \<and>
        (\<forall>x y. view k x = Some y \<longrightarrow> view k' x = Some y)) \<and>
     (\<forall>a e k u k' xs. push_element snk a e k = (Inr u, k') \<longrightarrow> view k a = Some (SArray xs) \<longrightarrow>
        view k' = (view k)(a \<mapsto> SArray (xs @ [e]))) \<and>
     (\<forall>a key e k u k' ps. set_property snk a key e k = (Inr u, k') \<longrightarrow> view k a = Some (SObject ps) \<longrightarrow>
        key \<notin> fst ` set ps \<longrightarrow> view k' = (view k)(a \<mapsto> SObject (ps @ [(key, e)])))"

lemma sink_make:
  "sink_laws snk view \<Longrightarrow> make_value snk n k = (Inr w, k') \<Longrightarrow>
     view k' w = Some (fresh_view n) \<and> (is_box n \<longrightarrow> view k w = None) \<and> (\<forall>x y. view k x = Some y \<longrightarrow> view k' x = Some y)"
  unfolding sink_laws_def by blast

lemma sink_push:
  "sink_laws snk view \<Longrightarrow> push_element snk a e k = (Inr u, k') \<Longrightarrow> view k a = Some (SArray xs) \<Longrightarrow>
     view k' = (view k)(a \<mapsto> SArray (xs @ [e]))"
  unfolding sink_laws_def by blast

lemma sink_set:
  "sink_laws snk view \<Longrightarrow> set_property snk a key e k = (Inr u, k') \<Longrightarrow> view k a = Some (SObject ps) \<Longrightarrow>
     key \<notin> fst ` set ps \<Longrightarrow> view k' = (view k)(a \<mapsto> SObject (ps @ [(key, e)]))"
  unfolding sink_laws_def by blast

section \<open>The invariant of the loop\<close>

text \<open>What a node shows once it is filled, its children standing at \<open>h\<close>.\<close>

fun node_view :: "(nat \<Rightarrow> 'w) \<Rightarrow> boundary_node \<Rightarrow> 'w seen" where
  "node_view h (BArray is) = SArray (map h is)"
| "node_view h (BObject ps) = SObject (map (\<lambda>(key, i). (key, h i)) ps)"
| "node_view h n = fresh_view n"

definition handle :: "('w, 'k) builder \<Rightarrow> nat \<Rightarrow> 'w" where
  "handle b i = the (memo b ! i)"

lemma handle_update [simp]: "handle (b\<lparr>heap := k\<rparr>) = handle b" "handle (b\<lparr>to_fill := is\<rparr>) = handle b"
  by (rule ext, simp add: handle_def)+

lemma node_view_cong: "(\<And>c. c \<in> set (edges n) \<Longrightarrow> h c = h' c) \<Longrightarrow> node_view h n = node_view h' n"
  by (cases n) (force intro!: map_cong)+

text \<open>The node \<open>c\<close> of \<open>cur = Some (c, v)\<close> is being filled and shows \<open>v\<close> so far.\<close>

definition expected :: "boundary_node list \<Rightarrow> (nat \<times> 'w seen) option \<Rightarrow> ('w, 'k) builder \<Rightarrow> nat \<Rightarrow> 'w seen" where
  "expected ns cur b i =
     (if i \<in> set (to_fill b) then fresh_view (ns ! i)
      else case cur of
          Some (c, v) \<Rightarrow> if i = c then v else node_view (handle b) (ns ! i)
        | None \<Rightarrow> node_view (handle b) (ns ! i))"

definition finished :: "(nat \<times> 'w seen) option \<Rightarrow> ('w, 'k) builder \<Rightarrow> nat \<Rightarrow> bool" where
  "finished cur b i \<longleftrightarrow> i \<notin> set (to_fill b) \<and> (\<forall>v. cur \<noteq> Some (i, v))"

definition node_built ::
  "boundary_node list \<Rightarrow> ('k \<Rightarrow> 'w \<Rightarrow> 'w seen option) \<Rightarrow> 'k \<Rightarrow> (nat \<times> 'w seen) option \<Rightarrow> ('w, 'k) builder \<Rightarrow>
     nat \<Rightarrow> 'w \<Rightarrow> bool" where
  "node_built ns view k0 cur b i w \<longleftrightarrow>
     view (heap b) w = Some (expected ns cur b i) \<and>
     (finished cur b i \<longrightarrow> (\<forall>c \<in> set (edges (ns ! i)). memo b ! c \<noteq> None)) \<and>
     (is_box (ns ! i) \<longrightarrow> view k0 w = None \<and>
       (\<forall>j < length ns. is_box (ns ! j) \<longrightarrow> memo b ! j = Some w \<longrightarrow> j = i))"

definition built ::
  "boundary_node list \<Rightarrow> ('k \<Rightarrow> 'w \<Rightarrow> 'w seen option) \<Rightarrow> 'k \<Rightarrow> (nat \<times> 'w seen) option \<Rightarrow> ('w, 'k) builder \<Rightarrow> bool" where
  "built ns view k0 cur b \<longleftrightarrow>
     length (memo b) = length ns \<and> distinct (to_fill b) \<and>
     (\<forall>i \<in> set (to_fill b). i < length ns \<and> is_box (ns ! i) \<and> memo b ! i \<noteq> None) \<and>
     (\<forall>c v. cur = Some (c, v) \<longrightarrow> c < length ns \<and> is_box (ns ! c) \<and> c \<notin> set (to_fill b) \<and> memo b ! c \<noteq> None) \<and>
     (\<forall>i w. i < length ns \<longrightarrow> memo b ! i = Some w \<longrightarrow> node_built ns view k0 cur b i w) \<and>
     (\<forall>x y. view k0 x = Some y \<longrightarrow> view (heap b) x = Some y)"

lemmas built_defs = built_def node_built_def

definition memo_grows :: "('w, 'k) builder \<Rightarrow> ('w, 'k) builder \<Rightarrow> bool" where
  "memo_grows b b' \<longleftrightarrow> (\<forall>i w. memo b ! i = Some w \<longrightarrow> memo b' ! i = Some w)"

lemma memo_grows_refl [simp]: "memo_grows b b"
  by (simp add: memo_grows_def)

lemma memo_grows_trans: "memo_grows a b \<Longrightarrow> memo_grows b c \<Longrightarrow> memo_grows a c"
  by (simp add: memo_grows_def)

lemma memo_grows_handle: "memo_grows b b' \<Longrightarrow> memo b ! i \<noteq> None \<Longrightarrow> handle b' i = handle b i \<and> memo b' ! i \<noteq> None"
  by (auto simp: memo_grows_def handle_def)

lemma not_box_edges: "\<not> is_box n \<Longrightarrow> edges n = [] \<and> node_view h n = fresh_view n"
  by (cases n) simp_all

lemma not_box_no_edges: "\<not> is_box n \<Longrightarrow> edges n = []"
  by (cases n) simp_all

lemma allocate_sink_built:
  assumes laws: "sink_laws snk view" and b: "built ns view k0 cur b"
    and a: "allocate_sink ns snk i b = Inr (w, b')"
  shows "built ns view k0 cur b' \<and> memo b' ! i = Some w \<and> memo_grows b b'"
proof (cases "memo b ! i")
  case (Some w')
  with a b show ?thesis by (auto simp: allocate_sink_def split: if_splits)
next
  case None
  from a have i: "i < length ns" by (simp add: allocate_sink_def split: if_splits)
  from a None i obtain k where mk: "make_value snk (ns ! i) (heap b) = (Inr w, k)"
    and b': "b' = b\<lparr>memo := (memo b)[i := Some w], to_fill := (if is_box (ns ! i) then i # to_fill b else to_fill b), heap := k\<rparr>"
    by (auto simp: allocate_sink_def split: if_splits prod.splits sum.splits)
  have len: "length (memo b) = length ns" using b by (simp add: built_defs)
  have fr: "view k w = Some (fresh_view (ns ! i))" "is_box (ns ! i) \<Longrightarrow> view (heap b) w = None"
    and keep: "\<And>x y. view (heap b) x = Some y \<Longrightarrow> view k x = Some y"
    using sink_make [OF laws mk] by blast+
  have gr: "memo_grows b b'" unfolding memo_grows_def
  proof (intro allI impI)
    fix j x assume "memo b ! j = Some x"
    with None have "memo b ! j = Some x" "j \<noteq> i" by auto
    then show "memo b' ! j = Some x" by (simp add: b')
  qed
  have memo': "memo b' ! j = (if j = i then Some w else memo b ! j)" for j
    using i len by (simp add: b')
  have cur_ne: "cur \<noteq> Some (i, v)" for v using b None by (auto simp: built_defs)
  have notin: "i \<notin> set (to_fill b)" using b None by (auto simp: built_defs)
  have fin: "finished cur b' j \<longleftrightarrow> finished cur b j" if "j \<noteq> i" for j
    using that by (simp add: finished_def b')
  have ex: "expected ns cur b' j = expected ns cur b j" if j: "j < length ns" "memo b ! j \<noteq> None" for j
  proof -
    have ji: "j \<noteq> i" using j None by auto
    have "node_view (handle b') (ns ! j) = node_view (handle b) (ns ! j)" if "finished cur b j"
      using that b j memo_grows_handle [OF gr] by (intro node_view_cong) (auto simp: built_defs)
    with ji show ?thesis by (auto simp: expected_def finished_def b' split: option.splits)
  qed
  have exi: "expected ns cur b' i = fresh_view (ns ! i)"
    using cur_ne notin not_box_edges [of "ns ! i" "handle b'"] by (auto simp: expected_def b' split: option.splits)
  have "built ns view k0 cur b'"
    unfolding built_defs
  proof (intro conjI allI ballI impI)
    show "length (memo b') = length ns" using len by (simp add: b')
    show "distinct (to_fill b')" using b notin by (simp add: b' built_defs)
  next
    fix j assume "j \<in> set (to_fill b')"
    then show "j < length ns" "is_box (ns ! j)" "memo b' ! j \<noteq> None"
      using b i memo' by (auto simp: b' built_defs split: if_splits)
  next
    fix c v assume "cur = Some (c, v)"
    with b cur_ne memo' show "c < length ns" "is_box (ns ! c)" "c \<notin> set (to_fill b')" "memo b' ! c \<noteq> None"
      by (auto simp: b' built_defs)
  next
    fix j x assume j: "j < length ns" and m: "memo b' ! j = Some x"
    show "view (heap b') x = Some (expected ns cur b' j)"
    proof (cases "j = i")
      case True
      with m memo' exi fr show ?thesis by (simp add: b')
    next
      case False
      with m memo' have mj: "memo b ! j = Some x" by simp
      with b j have "view (heap b) x = Some (expected ns cur b j)" by (simp add: built_defs)
      with keep ex [OF j] mj show ?thesis by (simp add: b')
    qed
    show "memo b' ! c \<noteq> None" if "finished cur b' j" "c \<in> set (edges (ns ! j))" for c
    proof (cases "j = i")
      case True
      with that have "\<not> is_box (ns ! i)" by (auto simp: finished_def b')
      with that True not_box_no_edges [of "ns ! i"] show ?thesis by simp
    next
      case False
      with m memo' have mj: "memo b ! j = Some x" by simp
      with b j that fin [OF False] have "memo b ! c \<noteq> None" by (simp add: built_defs)
      with memo_grows_handle [OF gr] show ?thesis by blast
    qed
    show "view k0 x = None" if "is_box (ns ! j)"
    proof (cases "j = i")
      case True
      then have "view (heap b) w = None" using that fr by simp
      then have "view k0 w = None" using b unfolding built_defs by (metis not_None_eq option.distinct(1))
      with True m memo' show ?thesis by simp
    next
      case False
      with m memo' b j that show ?thesis by (simp add: built_defs)
    qed
    show "l = j" if "is_box (ns ! j)" "l < length ns" "is_box (ns ! l)" "memo b' ! l = Some x" for l
    proof -
      have fresh: "view (heap b) y \<noteq> None" if "t < length ns" "memo b ! t = Some y" for t y
        using b that by (simp add: built_defs)
      show ?thesis
      proof (cases "j = i")
        case True
        with m memo' have "x = w" by simp
        with True that memo' fr(2) fresh [of l w] show ?thesis by (auto split: if_splits)
      next
        case False
        with m memo' have mj: "memo b ! j = Some x" by simp
        show ?thesis
        proof (cases "l = i")
          case True
          with that memo' have "x = w" by simp
          with True mj j that fr(2) fresh [of j w] show ?thesis by auto
        next
          case False
          with that memo' mj j b show ?thesis by (simp add: built_defs)
        qed
      qed
    qed
  next
    fix x y assume "view k0 x = Some y"
    with b keep show "view (heap b') x = Some y" by (simp add: b' built_defs)
  qed
  with gr memo' show ?thesis by simp
qed

section \<open>Filling a node\<close>

fun box_view :: "'w seen \<Rightarrow> bool" where
  "box_view (SArray _) = True"
| "box_view (SObject _) = True"
| "box_view _ = False"

lemma fresh_view_scalar: "\<not> is_box n \<Longrightarrow> \<not> box_view (fresh_view n)"
  by (cases n) simp_all

text \<open>A change of what the node being filled shows changes that node only.\<close>

lemma built_node: "built ns view k0 cur b \<Longrightarrow> i < length ns \<Longrightarrow> memo b ! i = Some w \<Longrightarrow> node_built ns view k0 cur b i w"
  by (simp add: built_def)

lemma built_cur: "built ns view k0 (Some (c, v)) b \<Longrightarrow> c < length ns \<and> is_box (ns ! c) \<and> c \<notin> set (to_fill b) \<and> memo b ! c \<noteq> None"
  by (simp add: built_def)

lemma built_cur_shown:
  assumes "built ns view k0 (Some (c, v)) b" and "memo b ! c = Some a"
  shows "view (heap b) a = Some v"
  using built_node [OF assms(1) _ assms(2)] built_cur [OF assms(1)] by (simp add: node_built_def expected_def)

text \<open>The invariant for another bookkeeping of the same memo, from what changes.\<close>

lemma built_change:
  assumes b: "built ns view k0 cur b" and memo: "memo b' = memo b"
    and nodes: "\<And>i w. i < length ns \<Longrightarrow> memo b ! i = Some w \<Longrightarrow> node_built ns view k0 cur b i w \<Longrightarrow> node_built ns view k0 cur' b' i w"
    and fill: "distinct (to_fill b')" "set (to_fill b') \<subseteq> set (to_fill b)"
    and cur: "\<And>c v. cur' = Some (c, v) \<Longrightarrow> c < length ns \<and> is_box (ns ! c) \<and> c \<notin> set (to_fill b') \<and> memo b ! c \<noteq> None"
    and old: "\<And>x y. view k0 x = Some y \<Longrightarrow> view (heap b) x = Some y \<Longrightarrow> view (heap b') x = Some y"
  shows "built ns view k0 cur' b'"
  unfolding built_def memo
proof (intro conjI)
  show "length (memo b) = length ns" using b by (simp add: built_def)
  show "distinct (to_fill b')" by (rule fill)
  show "\<forall>i \<in> set (to_fill b'). i < length ns \<and> is_box (ns ! i) \<and> memo b ! i \<noteq> None"
    using b fill(2) unfolding built_def by blast
  show "\<forall>c v. cur' = Some (c, v) \<longrightarrow> c < length ns \<and> is_box (ns ! c) \<and> c \<notin> set (to_fill b') \<and> memo b ! c \<noteq> None"
    using cur by blast
  show "\<forall>i w. i < length ns \<longrightarrow> memo b ! i = Some w \<longrightarrow> node_built ns view k0 cur' b' i w"
    using nodes built_node [OF b] by blast
  show "\<forall>x y. view k0 x = Some y \<longrightarrow> view (heap b') x = Some y"
    using old b unfolding built_def by blast
qed

lemma built_cur_view:
  assumes b: "built ns view k0 (Some (c, v)) b" and a: "memo b ! c = Some a"
    and v: "box_view v" and up: "view k = (view (heap b))(a \<mapsto> v')"
  shows "built ns view k0 (Some (c, v')) (b\<lparr>heap := k\<rparr>)"
proof (rule built_change [OF b])
  note c = built_cur [OF b]
  have va: "view (heap b) a = Some v" by (rule built_cur_shown [OF b a])
  have ka: "view k0 a = None" using built_node [OF b _ a] c by (simp add: node_built_def)
  show "node_built ns view k0 (Some (c, v')) (b\<lparr>heap := k\<rparr>) j x"
    if j: "j < length ns" "memo b ! j = Some x" and n: "node_built ns view k0 (Some (c, v)) b j x" for j x
  proof (cases "j = c")
    case True
    with a j have "x = a" by simp
    with True n c show ?thesis by (simp add: node_built_def expected_def finished_def up)
  next
    case False
    have "x \<noteq> a"
    proof
      assume xa: "x = a"
      show False
      proof (cases "is_box (ns ! j)")
        case True
        with n xa a c False show False by (auto simp: node_built_def)
      next
        case False
        then have "expected ns (Some (c, v)) b j = fresh_view (ns ! j)"
          using not_box_edges [OF False, of "handle b"] \<open>j \<noteq> c\<close> by (simp add: expected_def)
        with n xa va have "v = fresh_view (ns ! j)" by (simp add: node_built_def)
        with v fresh_view_scalar [OF False] show False by metis
      qed
    qed
    with False n show ?thesis by (simp add: node_built_def expected_def finished_def up handle_def)
  qed
  show "view (heap (b\<lparr>heap := k\<rparr>)) x = Some y" if "view k0 x = Some y" "view (heap b) x = Some y" for x y
    using that ka by (auto simp: up)
qed (use b built_cur [OF b] in \<open>auto simp: built_def\<close>)

lemma built_start:
  assumes b: "built ns view k0 None b" and f: "to_fill b = c # rest"
  shows "built ns view k0 (Some (c, fresh_view (ns ! c))) (b\<lparr>to_fill := rest\<rparr>)"
proof (rule built_change [OF b])
  have nc: "c \<notin> set rest" using b f by (simp add: built_def)
  show "node_built ns view k0 (Some (c, fresh_view (ns ! c))) (b\<lparr>to_fill := rest\<rparr>) i w" if "node_built ns view k0 None b i w" for i w
    using that f nc by (auto simp: node_built_def expected_def finished_def handle_def split: if_splits)
  show "d < length ns \<and> is_box (ns ! d) \<and> d \<notin> set (to_fill (b\<lparr>to_fill := rest\<rparr>)) \<and> memo b ! d \<noteq> None"
    if "Some (c, fresh_view (ns ! c)) = Some (d, v)" for d v
    using that b f nc by (simp add: built_def)
qed (use b f in \<open>auto simp: built_def\<close>)

lemma built_finish:
  assumes b: "built ns view k0 (Some (c, node_view (handle b) (ns ! c))) b"
    and kids: "\<And>d. d \<in> set (edges (ns ! c)) \<Longrightarrow> memo b ! d \<noteq> None"
  shows "built ns view k0 None b"
proof (rule built_change [OF b])
  show "node_built ns view k0 None b i w" if "node_built ns view k0 (Some (c, node_view (handle b) (ns ! c))) b i w" for i w
    using that kids by (cases "i = c") (simp_all add: node_built_def expected_def finished_def)
qed (use b in \<open>simp_all add: built_def\<close>)

lemma fill_array_built:
  assumes laws: "sink_laws snk view"
  shows "fill_array ns snk a is b = Inr b' \<Longrightarrow>
     built ns view k0 (Some (c, SArray (map (handle b) ds))) b \<Longrightarrow> memo b ! c = Some a \<Longrightarrow>
     (\<And>d. d \<in> set ds \<Longrightarrow> memo b ! d \<noteq> None) \<Longrightarrow>
     built ns view k0 (Some (c, SArray (map (handle b') (ds @ is)))) b' \<and> memo_grows b b' \<and>
     (\<forall>d \<in> set (ds @ is). memo b' ! d \<noteq> None)"
proof (induction "is" arbitrary: b ds)
  case (Cons i "is")
  then obtain w b1 u k where al: "allocate_sink ns snk i b = Inr (w, b1)"
    and pu: "push_element snk a w (heap b1) = (Inr u, k)" and rest: "fill_array ns snk a is (b1\<lparr>heap := k\<rparr>) = Inr b'"
    by (auto split: prod.splits sum.splits)
  let ?v = "SArray (map (handle b) ds)" and ?b = "b1\<lparr>heap := k\<rparr>"
  have b1: "built ns view k0 (Some (c, ?v)) b1" "memo b1 ! i = Some w" "memo_grows b b1"
    using allocate_sink_built [OF laws Cons.prems(2) al] by blast+
  have a: "memo b1 ! c = Some a" using b1(3) Cons.prems(3) by (simp add: memo_grows_def)
  have "view (heap b1) a = Some ?v" using b1(1) a by (rule built_cur_shown)
  from sink_push [OF laws pu this] have up: "view k = (view (heap b1))(a \<mapsto> SArray (map (handle b) ds @ [w]))" .
  have kids: "memo ?b ! d \<noteq> None \<and> handle ?b d = handle b d" if "d \<in> set ds" for d
    using memo_grows_handle [OF b1(3) Cons.prems(4) [OF that]] by (simp add: handle_def)
  have "SArray (map (handle b) ds @ [w]) = SArray (map (handle ?b) (ds @ [i]))"
    using kids b1(2) by (simp add: handle_def)
  with built_cur_view [OF b1(1) a _ up] have "built ns view k0 (Some (c, SArray (map (handle ?b) (ds @ [i])))) ?b" by simp
  then have "built ns view k0 (Some (c, SArray (map (handle b') ((ds @ [i]) @ is)))) b' \<and> memo_grows ?b b' \<and>
     (\<forall>d \<in> set ((ds @ [i]) @ is). memo b' ! d \<noteq> None)"
    by (rule Cons.IH [OF rest]) (use a kids b1(2) in auto)
  with b1(3) show ?case by (auto simp: memo_grows_def)
qed simp

lemma fill_object_built:
  assumes laws: "sink_laws snk view"
  shows "fill_object ns snk a ps b = Inr b' \<Longrightarrow>
     built ns view k0 (Some (c, SObject (map (\<lambda>(key, i). (key, handle b i)) ds))) b \<Longrightarrow> memo b ! c = Some a \<Longrightarrow>
     (\<And>d. d \<in> set (map snd ds) \<Longrightarrow> memo b ! d \<noteq> None) \<Longrightarrow> distinct (map fst (ds @ ps)) \<Longrightarrow> PROTO \<notin> fst ` set ps \<Longrightarrow>
     built ns view k0 (Some (c, SObject (map (\<lambda>(key, i). (key, handle b' i)) (ds @ ps)))) b' \<and> memo_grows b b' \<and>
     (\<forall>d \<in> set (map snd (ds @ ps)). memo b' ! d \<noteq> None)"
proof (induction ps arbitrary: b ds)
  case (Cons p ps)
  obtain key i where p: "p = (key, i)" by (cases p)
  with Cons.prems obtain w b1 u k where al: "allocate_sink ns snk i b = Inr (w, b1)"
    and pu: "set_property snk a key w (heap b1) = (Inr u, k)" and rest: "fill_object ns snk a ps (b1\<lparr>heap := k\<rparr>) = Inr b'"
    by (auto split: prod.splits sum.splits if_splits)
  let ?vs = "map (\<lambda>(key, i). (key, handle b i)) ds" and ?b = "b1\<lparr>heap := k\<rparr>"
  have b1: "built ns view k0 (Some (c, SObject ?vs)) b1" "memo b1 ! i = Some w" "memo_grows b b1"
    using allocate_sink_built [OF laws Cons.prems(2) al] by blast+
  have a: "memo b1 ! c = Some a" using b1(3) Cons.prems(3) by (simp add: memo_grows_def)
  have va: "view (heap b1) a = Some (SObject ?vs)" using b1(1) a by (rule built_cur_shown)
  have "key \<notin> fst ` set ?vs" using Cons.prems(5) p by force
  from sink_set [OF laws pu va this] have up: "view k = (view (heap b1))(a \<mapsto> SObject (?vs @ [(key, w)]))" .
  have kids: "memo ?b ! d \<noteq> None \<and> handle ?b d = handle b d" if "d \<in> set (map snd ds)" for d
    using memo_grows_handle [OF b1(3) Cons.prems(4) [OF that]] by (simp add: handle_def)
  have "map (\<lambda>(key, i). (key, handle b i)) ds = map (\<lambda>(key, i). (key, handle ?b i)) ds"
    using kids by (intro map_cong) force+
  then have "SObject (?vs @ [(key, w)]) = SObject (map (\<lambda>(key, i). (key, handle ?b i)) (ds @ [p]))"
    using b1(2) p by (simp add: handle_def)
  with built_cur_view [OF b1(1) a _ up]
  have "built ns view k0 (Some (c, SObject (map (\<lambda>(key, i). (key, handle ?b i)) (ds @ [p])))) ?b" by simp
  then have "built ns view k0 (Some (c, SObject (map (\<lambda>(key, i). (key, handle b' i)) ((ds @ [p]) @ ps)))) b' \<and> memo_grows ?b b' \<and>
     (\<forall>d \<in> set (map snd ((ds @ [p]) @ ps)). memo b' ! d \<noteq> None)"
  proof (rule Cons.IH [OF rest])
    show "memo ?b ! c = Some a" using a by simp
    show "memo ?b ! d \<noteq> None" if "d \<in> set (map snd (ds @ [p]))" for d using that kids b1(2) p by auto
    show "distinct (map fst ((ds @ [p]) @ ps))" "PROTO \<notin> fst ` set ps" using Cons.prems by auto
  qed
  with b1(3) show ?case by (auto simp: memo_grows_def)
qed simp

section \<open>The loop\<close>

fun keys_distinct :: "boundary_node \<Rightarrow> bool" where
  "keys_distinct (BObject ps) = distinct (map fst ps)"
| "keys_distinct _ = True"

lemma fill_node_built:
  assumes laws: "sink_laws snk view" and n: "node_ok m (ns ! c)" "keys_distinct (ns ! c)"
    and b: "built ns view k0 None b" and f: "to_fill b = c # rest"
    and r: "fill_node ns snk c (b\<lparr>to_fill := rest\<rparr>) = Returned (Inr b')"
  shows "built ns view k0 None b' \<and> memo_grows b b'"
proof -
  let ?b = "b\<lparr>to_fill := rest\<rparr>"
  from r obtain a where a: "memo ?b ! c = Some a" by (auto simp: fill_node_def split: option.splits)
  have st: "built ns view k0 (Some (c, fresh_view (ns ! c))) ?b" by (rule built_start [OF b f])
  show ?thesis
  proof (cases "ns ! c")
    case (BArray "is")
    with r a have fa: "fill_array ns snk a is ?b = Inr b'" by (simp add: fill_node_def)
    have "built ns view k0 (Some (c, SArray (map (handle ?b) []))) ?b" using st BArray by simp
    from fill_array_built [OF laws fa this a] have
      "built ns view k0 (Some (c, SArray (map (handle b') is))) b' \<and> memo_grows ?b b' \<and> (\<forall>d \<in> set is. memo b' ! d \<noteq> None)" by simp
    with BArray built_finish [of ns view k0 c b'] show ?thesis by (simp add: memo_grows_def)
  next
    case (BObject ps)
    with r a have fo: "fill_object ns snk a ps ?b = Inr b'" by (simp add: fill_node_def)
    have "built ns view k0 (Some (c, SObject (map (\<lambda>(key, i). (key, handle ?b i)) []))) ?b" using st BObject by simp
    moreover have "distinct (map fst ([] @ ps))" "PROTO \<notin> fst ` set ps" using n BObject by auto
    ultimately have
      "built ns view k0 (Some (c, SObject (map (\<lambda>(key, i). (key, handle b' i)) ps))) b' \<and> memo_grows ?b b' \<and>
       (\<forall>d \<in> set (map snd ps). memo b' ! d \<noteq> None)"
      using fill_object_built [where ds = "[]", OF laws fo _ a] by simp
    with BObject built_finish [of ns view k0 c b'] show ?thesis by (simp add: memo_grows_def)
  qed (use r a in \<open>simp_all add: fill_node_def\<close>)
qed

lemma fill_node_scheduled:
  assumes "built ns view k0 None b" and "to_fill b = c # rest"
  shows "fill_node ns snk c (b\<lparr>to_fill := rest\<rparr>) \<noteq> Panicked"
proof -
  have "is_box (ns ! c)" "memo b ! c \<noteq> None" using assms by (simp_all add: built_def)
  then show ?thesis by (cases "ns ! c") (auto simp: fill_node_def)
qed

lemma fill_loop_built:
  "sink_laws snk view \<Longrightarrow> (\<And>n. n \<in> set ns \<Longrightarrow> node_ok m n \<and> keys_distinct n) \<Longrightarrow> built ns view k0 None b \<Longrightarrow>
     (case fill_loop ns snk b of
        Panicked \<Rightarrow> False
      | Returned (Inl _) \<Rightarrow> True
      | Returned (Inr b') \<Rightarrow> built ns view k0 None b' \<and> to_fill b' = [] \<and> memo_grows b b')"
proof (induction ns snk b rule: fill_loop.induct)
  case (1 ns snk b)
  have len: "length (memo b) = length ns" using "1.prems"(3) by (simp add: built_def)
  show ?case
  proof (cases "to_fill b")
    case Nil
    with "1.prems" show ?thesis by (simp add: fill_loop.simps [of ns snk b])
  next
    case (Cons c rest)
    let ?r = "fill_node ns snk c (b\<lparr>to_fill := rest\<rparr>)"
    have loop: "fill_loop ns snk b = (case ?r of Returned (Inr b') \<Rightarrow> fill_loop ns snk b' | r \<Rightarrow> r)"
      using Cons len by (simp add: fill_loop.simps [of ns snk b])
    have c: "c < length ns" using "1.prems"(3) Cons by (simp add: built_def)
    have ok: "node_ok m (ns ! c)" "keys_distinct (ns ! c)" using "1.prems"(2) [OF nth_mem [OF c]] by simp_all
    have np: "?r \<noteq> Panicked" using fill_node_scheduled [OF "1.prems"(3) Cons] .
    show ?thesis
    proof (cases ?r)
      case Panicked
      with np show ?thesis by simp
    next
      case (Returned s)
      show ?thesis
      proof (cases s)
        case (Inl e)
        with Returned loop show ?thesis by simp
      next
        case (Inr b1)
        with Returned have r: "?r = Returned (Inr b1)" by simp
        from fill_node_built [OF "1.prems"(1) ok "1.prems"(3) Cons r] have
          b1: "built ns view k0 None b1" "memo_grows b b1" by simp_all
        from "1.IH" [OF Cons len Returned Inr "1.prems"(1,2) b1(1)] b1(2) r loop show ?thesis
          by (auto simp: memo_grows_def split: outcome.splits sum.splits)
      qed
    qed
  qed
qed

lemma built_new:
  "built ns view k None \<lparr>memo = replicate (length ns) None, to_fill = [], heap = k\<rparr>"
  by (simp add: built_def)

lemma built_below:
  assumes b: "built ns view k0 None b" "to_fill b = []" and ok: "\<And>n. n \<in> set ns \<Longrightarrow> node_ok (length ns) n"
  shows "below ns r i \<Longrightarrow> r < length ns \<Longrightarrow> memo b ! r \<noteq> None \<Longrightarrow> i < length ns \<and> memo b ! i \<noteq> None"
proof (induction rule: below.induct)
  case (below_step i c j)
  then obtain w where i: "i < length ns" "memo b ! i = Some w" by auto
  with built_node [OF b(1) i] b(2) below_step(2) have "memo b ! c \<noteq> None"
    by (simp add: node_built_def finished_def)
  moreover have "c < length ns"
    using ok [OF nth_mem [OF i(1)]] below_step(2) by (cases "ns ! i") auto
  ultimately show ?case using below_step by blast
qed simp

section \<open>The copy shows the graph\<close>

lemma clone_in_cases:
  assumes laws: "sink_laws snk view" and g: "graph_ok g" and keys: "\<And>n. n \<in> set (graph_nodes g) \<Longrightarrow> keys_distinct n"
  shows "case clone_in g snk k of
      Panicked \<Rightarrow> False
    | Returned (Inl _) \<Rightarrow> True
    | Returned (Inr (w, k')) \<Rightarrow>
        \<exists>b. built (graph_nodes g) view k None b \<and> to_fill b = [] \<and> memo b ! graph_root g = Some w \<and> heap b = k'"
proof -
  let ?ns = "graph_nodes g" and ?b0 = "\<lparr>memo = replicate (length (graph_nodes g)) None, to_fill = [], heap = k\<rparr>"
  have root: "graph_root g < length ?ns" and ok: "\<And>n. n \<in> set ?ns \<Longrightarrow> node_ok (length ?ns) n \<and> keys_distinct n"
    using g keys by (simp_all add: graph_ok_def)
  show ?thesis
  proof (cases "allocate_sink ?ns snk (graph_root g) ?b0")
    case (Inl e)
    with root show ?thesis by (simp add: clone_in_def)
  next
    case (Inr p)
    then obtain w b where a: "allocate_sink ?ns snk (graph_root g) ?b0 = Inr (w, b)" by (cases p) auto
    from allocate_sink_built [OF laws built_new a]
    have b: "built ?ns view k None b" "memo b ! graph_root g = Some w" by simp_all
    from fill_loop_built [OF laws ok b(1)] b(2) show ?thesis
      unfolding clone_in_def using root a by (auto simp: memo_grows_def split: outcome.splits sum.splits)
  qed
qed

lemma built_mirror:
  assumes b: "built (graph_nodes g) view k None b" "to_fill b = []" and root: "memo b ! graph_root g = Some w"
    and g: "graph_ok g" and i: "below (graph_nodes g) (graph_root g) i"
  shows "view (heap b) (handle b i) = Some (node_view (handle b) (graph_nodes g ! i)) \<and>
    (is_box (graph_nodes g ! i) \<longrightarrow> view k (handle b i) = None \<and>
      (\<forall>j. below (graph_nodes g) (graph_root g) j \<and> is_box (graph_nodes g ! j) \<and> handle b j = handle b i \<longrightarrow> j = i))"
proof -
  have ok: "\<And>n. n \<in> set (graph_nodes g) \<Longrightarrow> node_ok (length (graph_nodes g)) n" "graph_root g < length (graph_nodes g)"
    using g by (simp_all add: graph_ok_def)
  note made = built_below [OF b ok(1) _ ok(2)]
  have at: "j < length (graph_nodes g) \<and> memo b ! j = Some (handle b j)" if "below (graph_nodes g) (graph_root g) j" for j
    using made [OF _ that] root by (auto simp: handle_def)
  from built_node [OF b(1), of i] at [OF i] b(2) have "node_built (graph_nodes g) view k None b i (handle b i)" by blast
  with at b(2) show ?thesis by (auto simp: node_built_def expected_def)
qed

definition mirrored ::
  "boundary_graph \<Rightarrow> ('k \<Rightarrow> 'w \<Rightarrow> 'w seen option) \<Rightarrow> 'k \<Rightarrow> 'w \<Rightarrow> 'k \<Rightarrow> (nat \<Rightarrow> 'w) \<Rightarrow> bool" where
  "mirrored g view k w k' h \<longleftrightarrow>
     h (graph_root g) = w \<and>
     (\<forall>i. below (graph_nodes g) (graph_root g) i \<longrightarrow>
        view k' (h i) = Some (node_view h (graph_nodes g ! i)) \<and>
        (is_box (graph_nodes g ! i) \<longrightarrow> view k (h i) = None \<and>
          (\<forall>j. below (graph_nodes g) (graph_root g) j \<and> is_box (graph_nodes g ! j) \<and> h j = h i \<longrightarrow> j = i))) \<and>
     (\<forall>x y. view k x = Some y \<longrightarrow> view k' x = Some y)"

text \<open>
  Building a graph in an engine that keeps its promises never panics, and when no call of the engine fails
  every node that can be reached from the root gets one reference, which shows the node: a scalar its value, an array
  the references of its elements in order, an object its keys in order with the references of their values. Two
  containers never share a reference and each is new, so shared and cyclic containers come out shared and cyclic, and
  nothing the engine already held has changed.
\<close>

theorem clone_in_mirrors_the_graph:
  assumes laws: "sink_laws snk view" and g: "graph_ok g" and keys: "\<And>n. n \<in> set (graph_nodes g) \<Longrightarrow> keys_distinct n"
  shows "clone_in g snk k \<noteq> Panicked \<and>
    (\<forall>w k'. clone_in g snk k = Returned (Inr (w, k')) \<longrightarrow> (\<exists>h. mirrored g view k w k' h))"
proof (intro conjI allI impI)
  note cases = clone_in_cases [OF laws g keys, of k]
  from cases show "clone_in g snk k \<noteq> Panicked" by auto
  fix w k' assume "clone_in g snk k = Returned (Inr (w, k'))"
  with cases obtain b where b: "built (graph_nodes g) view k None b" "to_fill b = []"
    "memo b ! graph_root g = Some w" "heap b = k'" by auto
  have "mirrored g view k w k' (handle b)"
    unfolding mirrored_def using built_mirror [OF b(1,2,3) g] b by (simp add: handle_def built_def)
  then show "\<exists>h. mirrored g view k w k' h" by blast
qed

text \<open>An engine whose heap is the list of what its references show, and the cycle \<open>{a: [itself]}\<close> built in it.\<close>

definition list_view :: "nat seen list \<Rightarrow> nat \<Rightarrow> nat seen option" where
  "list_view k w = (if w < length k then Some (k ! w) else None)"

definition list_put :: "nat seen \<Rightarrow> nat seen list \<Rightarrow> (ustring + nat) \<times> nat seen list" where
  "list_put v k = (Inr (length k), k @ [v])"

definition list_sink :: "(nat, nat seen list) sink" where
  "list_sink = \<lparr>sink_null = list_put SNull, sink_boolean = \<lambda>b. list_put (SBool b), sink_number = \<lambda>x. list_put (SNumber x),
     sink_string = \<lambda>x. list_put (SString x), empty_array = list_put (SArray []), empty_object = list_put (SObject []),
     push_element = \<lambda>a e k. (case list_view k a of
        Some (SArray xs) \<Rightarrow> (Inr (), k[a := SArray (xs @ [e])]) | _ \<Rightarrow> (Inl [], k)),
     set_property = \<lambda>a key e k. (case list_view k a of
        Some (SObject ps) \<Rightarrow> (Inr (), k[a := SObject (ps @ [(key, e)])]) | _ \<Rightarrow> (Inl [], k))\<rparr>"

lemma list_sink_fields:
  "make_value list_sink n = list_put (fresh_view n)"
  "push_element list_sink = (\<lambda>a e k. (case list_view k a of
        Some (SArray xs) \<Rightarrow> (Inr (), k[a := SArray (xs @ [e])]) | _ \<Rightarrow> (Inl [], k)))"
  "set_property list_sink = (\<lambda>a key e k. (case list_view k a of
        Some (SObject ps) \<Rightarrow> (Inr (), k[a := SObject (ps @ [(key, e)])]) | _ \<Rightarrow> (Inl [], k)))"
  by (cases n; simp add: list_sink_def fun_eq_iff) (simp_all add: list_sink_def)

lemma list_view_update: "list_view k a = Some v \<Longrightarrow> list_view (k[a := v']) = (list_view k)(a \<mapsto> v')"
  by (auto simp: list_view_def fun_eq_iff split: if_splits)

lemma list_sink_laws: "sink_laws list_sink list_view"
  unfolding sink_laws_def
proof (intro conjI allI impI)
  fix n k w k' x and y :: "nat seen"
  assume "make_value list_sink n k = (Inr w, k')"
  then have w: "w = length k" "k' = k @ [fresh_view n]" by (simp_all add: list_sink_fields list_put_def)
  show "list_view k' w = Some (fresh_view n)" "list_view k w = None" using w by (simp_all add: list_view_def)
  assume "list_view k x = Some y"
  with w show "list_view k' x = Some y" by (auto simp: list_view_def nth_append split: if_splits)
next
  fix a e k and u :: unit and k' xs
  assume "push_element list_sink a e k = (Inr u, k')" "list_view k a = Some (SArray xs)"
  then show "list_view k' = (list_view k)(a \<mapsto> SArray (xs @ [e]))"
    by (auto simp: list_sink_fields list_view_update)
next
  fix a key e k and u :: unit and k' ps
  assume "set_property list_sink a key e k = (Inr u, k')" "list_view k a = Some (SObject ps)"
  then show "list_view k' = (list_view k)(a \<mapsto> SObject (ps @ [(key, e)]))"
    by (auto simp: list_sink_fields list_view_update)
qed

definition sample_graph :: boundary_graph where
  "sample_graph = \<lparr>graph_nodes = [BObject [([97], 1)], BArray [0]], graph_root = 0\<rparr>"

lemma sample_clone_in:
  "clone_in sample_graph list_sink [SNull] = Returned (Inr (1, [SNull, SObject [([97], 2)], SArray [1]]))"
  by (simp add: clone_in_def sample_graph_def allocate_sink_def list_sink_fields list_put_def list_view_def fill_loop.simps
      fill_node_def PROTO_def numeral_2_eq_2 MAX_BOUNDARY_ITEMS_def)

theorem clone_in_mirrors_the_graph_witness:
  "\<exists>h. mirrored sample_graph list_view [SNull] 1 [SNull, SObject [([97], 2)], SArray [1]] h"
proof -
  have "graph_ok sample_graph" "\<And>n. n \<in> set (graph_nodes sample_graph) \<Longrightarrow> keys_distinct n"
    by (auto simp: graph_ok_def sample_graph_def PROTO_def MAX_BOUNDARY_ITEMS_def)
  from clone_in_mirrors_the_graph [OF list_sink_laws this, of "[SNull]"] sample_clone_in show ?thesis by blast
qed

end
