(* ===== verification/GitFlight.thy ===== *)
theory GitFlight
  imports Prelude
begin

text \<open>
  One status read per checkout, shared by everyone who asks meanwhile (\<^verbatim>\<open>src/git_flight.rs\<close>). A flight is
  a cell of a list, its index the shared reference; the table maps a key to the flight that answers it. An
  asker is a thread inside \<open>summary\<close>: the one that made the flight reads, the others wait. Times are in
  nanoseconds. The fields \<open>begun\<close>, \<open>of_key\<close>, \<open>asked_at\<close>, \<open>forgotten\<close> and \<open>seen_forget\<close> record history and
  decide nothing.
\<close>

type_synonym key = "nat list"

definition FRESHNESS :: nat where
  "FRESHNESS = 750 * 10 ^ 6"

text \<open>The module looks at the revision of a summary only; the rest of it is the record's extension.\<close>

record summary =
  summary_revision :: "nat list"

datatype read_error = ReadFailed "nat list" | Interrupted | OnlyRevision

type_synonym 'r outcome = "read_error + 'r summary_scheme option"

datatype 'r reply = NotRepository | Unchanged "nat list" | Snapshot "'r summary_scheme"

fun answer :: "'r outcome \<Rightarrow> nat list option \<Rightarrow> read_error + 'r reply" where
  "answer (Inl e) known = Inl e"
| "answer (Inr None) known = Inr NotRepository"
| "answer (Inr (Some s)) known =
     Inr (if known = Some (summary_revision s) then Unchanged (summary_revision s) else Snapshot s)"

fun outcome_of :: "read_error + 'r reply \<Rightarrow> 'r outcome" where
  "outcome_of (Inl e) = Inl e"
| "outcome_of (Inr NotRepository) = Inr None"
| "outcome_of (Inr (Snapshot s)) = Inr (Some s)"
| "outcome_of (Inr (Unchanged _)) = Inl OnlyRevision"

text \<open>A read that was given no revision passes through unharmed.\<close>

lemma outcome_of_answer: "outcome_of (answer r None) = r"
  by (cases "(r, None :: nat list option)" rule: answer.cases) auto

record 'r flight =
  landed :: "('r outcome \<times> nat) option"
  begun :: nat
  of_key :: key

datatype 'r asking = Reading | Waiting | Answered "read_error + 'r reply" | Died

record 'r asker =
  ask_key :: key
  known_revision :: "nat list option"
  flight_ref :: nat
  asking :: "'r asking"
  asked_at :: nat
  seen_forget :: nat

record 'r hub =
  table :: "(key \<times> nat) list"
  cells :: "'r flight list"
  askers :: "'r asker list"
  clock :: nat
  steps :: nat
  forgotten :: "key \<Rightarrow> nat"

definition hub_new :: "'r hub" where
  "hub_new = \<lparr>table = [], cells = [], askers = [], clock = 0, steps = 0, forgotten = (\<lambda>_. 0)\<rparr>"

text \<open>What \<open>retain\<close> keeps: a read under way, and a good outcome while it is fresh.\<close>

definition keeps_answering :: "nat \<Rightarrow> 'r flight \<Rightarrow> bool" where
  "keeps_answering now f =
     (case landed f of
        None \<Rightarrow> True
      | Some (Inr _, at) \<Rightarrow> now - at < FRESHNESS
      | Some (Inl _, _) \<Rightarrow> False)"

definition ask :: "key \<Rightarrow> nat list option \<Rightarrow> 'r hub \<Rightarrow> 'r hub" where
  "ask key known h =
     (let kept = filter (\<lambda>(_, i). keeps_answering (clock h) (cells h ! i)) (table h);
          me = \<lparr>ask_key = key, known_revision = known, flight_ref = 0, asking = Waiting, asked_at = clock h,
                seen_forget = forgotten h key\<rparr>
      in case map_of kept key of
           Some i \<Rightarrow> h\<lparr>table := kept, askers := askers h @ [me\<lparr>flight_ref := i\<rparr>]\<rparr>
         | None \<Rightarrow>
             (let i = length (cells h) in
              h\<lparr>table := al_put key i kept,
                cells := cells h @ [\<lparr>landed = None, begun = steps h, of_key = key\<rparr>],
                askers := askers h @ [me\<lparr>flight_ref := i, asking := Reading\<rparr>]\<rparr>))"

definition land :: "nat \<Rightarrow> 'r outcome \<Rightarrow> 'r hub \<Rightarrow> 'r hub" where
  "land i r h = h\<lparr>cells := (cells h)[i := (cells h ! i)\<lparr>landed := Some (r, clock h)\<rparr>]\<rparr>"

definition set_asking :: "nat \<Rightarrow> 'r asking \<Rightarrow> 'r hub \<Rightarrow> 'r hub" where
  "set_asking t s h = h\<lparr>askers := (askers h)[t := (askers h ! t)\<lparr>asking := s\<rparr>]\<rparr>"

text \<open>The reader's own read returned.\<close>

definition read_returned :: "nat \<Rightarrow> 'r outcome \<Rightarrow> 'r hub \<Rightarrow> 'r hub" where
  "read_returned t r h =
     (let a = askers h ! t in set_asking t (Answered (answer r (known_revision a))) (land (flight_ref a) r h))"

text \<open>The reader unwound: \<open>Settle\<close> is dropped with the flight still in the air.\<close>

definition read_unwound :: "nat \<Rightarrow> 'r hub \<Rightarrow> 'r hub" where
  "read_unwound t h = set_asking t Died (land (flight_ref (askers h ! t)) (Inl Interrupted) h)"

text \<open>A waiter looks at the outcome, when it is woken or spuriously.\<close>

definition look :: "nat \<Rightarrow> 'r hub \<Rightarrow> 'r hub" where
  "look t h =
     (let a = askers h ! t in
      case landed (cells h ! flight_ref a) of
        None \<Rightarrow> h
      | Some (r, _) \<Rightarrow> set_asking t (Answered (answer r (known_revision a))) h)"

definition forget :: "key \<Rightarrow> 'r hub \<Rightarrow> 'r hub" where
  "forget key h = h\<lparr>table := al_del key (table h), forgotten := (forgotten h)(key := steps h)\<rparr>"

datatype 'r hub_event =
    Ask key "nat list option"
  | Returned nat "'r outcome"
  | Unwound nat
  | Looked nat
  | Forgot key
  | Passed nat

definition is_asking :: "'r asking \<Rightarrow> nat \<Rightarrow> 'r hub \<Rightarrow> bool" where
  "is_asking s t h \<longleftrightarrow> t < length (askers h) \<and> asking (askers h ! t) = s"

fun hub_effect :: "'r hub \<Rightarrow> 'r hub_event \<Rightarrow> 'r hub" where
  "hub_effect h (Ask key known) = ask key known h"
| "hub_effect h (Returned t r) = (if is_asking Reading t h then read_returned t r h else h)"
| "hub_effect h (Unwound t) = (if is_asking Reading t h then read_unwound t h else h)"
| "hub_effect h (Looked t) = (if is_asking Waiting t h then look t h else h)"
| "hub_effect h (Forgot key) = forget key h"
| "hub_effect h (Passed d) = h\<lparr>clock := clock h + d\<rparr>"

definition hub_step :: "'r hub \<Rightarrow> 'r hub_event \<Rightarrow> 'r hub" where
  "hub_step h e = hub_effect (h\<lparr>steps := steps h + 1\<rparr>) e"

section \<open>The invariant\<close>

text \<open>The flight \<open>i\<close> is one that may answer \<open>key\<close> to whoever saw the last \<open>forget\<close> at step \<open>n\<close>.\<close>

definition flight_for :: "'r flight list \<Rightarrow> key \<Rightarrow> nat \<Rightarrow> nat \<Rightarrow> bool" where
  "flight_for fs key n i \<longleftrightarrow> i < length fs \<and> of_key (fs ! i) = key \<and> n < begun (fs ! i)"

text \<open>An asker against its flight.\<close>

definition asker_ok :: "'r flight list \<Rightarrow> 'r asker \<Rightarrow> bool" where
  "asker_ok fs a \<longleftrightarrow>
     flight_for fs (ask_key a) (seen_forget a) (flight_ref a) \<and>
     (case landed (fs ! flight_ref a) of
        None \<Rightarrow> asking a = Reading \<or> asking a = Waiting
      | Some (r, at) \<Rightarrow> asked_at a < at + FRESHNESS \<and> asking a \<noteq> Reading \<and>
          (\<forall>x. asking a = Answered x \<longrightarrow> x = answer r (known_revision a)))"

definition table_ok :: "'r hub \<Rightarrow> bool" where
  "table_ok h \<longleftrightarrow>
     distinct (map fst (table h)) \<and>
     (\<forall>k i. (k, i) \<in> set (table h) \<longrightarrow> flight_for (cells h) k (forgotten h k) i) \<and>
     (\<forall>k. forgotten h k \<le> steps h)"

text \<open>A flight in the air has its reader, and stands in the table unless it was forgotten.\<close>

definition cell_ok :: "'r hub \<Rightarrow> nat \<Rightarrow> bool" where
  "cell_ok h i \<longleftrightarrow>
     (let f = cells h ! i in
      begun f \<le> steps h \<and>
      (case landed f of
         Some (r, at) \<Rightarrow> at \<le> clock h
       | None \<Rightarrow>
           (\<exists>t. is_asking Reading t h \<and> flight_ref (askers h ! t) = i) \<and>
           (forgotten h (of_key f) < begun f \<longrightarrow> (of_key f, i) \<in> set (table h))))"

definition askers_ok :: "'r hub \<Rightarrow> bool" where
  "askers_ok h \<longleftrightarrow>
     (\<forall>t < length (askers h). asked_at (askers h ! t) \<le> clock h \<and> asker_ok (cells h) (askers h ! t)) \<and>
     (\<forall>t u. is_asking Reading t h \<longrightarrow> is_asking Reading u h
        \<longrightarrow> flight_ref (askers h ! t) = flight_ref (askers h ! u) \<longrightarrow> t = u)"

definition hub_ok :: "'r hub \<Rightarrow> bool" where
  "hub_ok h \<longleftrightarrow> table_ok h \<and> (\<forall>i < length (cells h). cell_ok h i) \<and> askers_ok h"

lemma FRESHNESS_pos: "0 < FRESHNESS"
  by (simp add: FRESHNESS_def)

lemma hub_ok_asker: "hub_ok h \<Longrightarrow> t < length (askers h) \<Longrightarrow> asker_ok (cells h) (askers h ! t)"
  by (simp add: hub_ok_def askers_ok_def)

lemma is_asking_set: "is_asking s u (set_asking t v h) \<longleftrightarrow> (if u = t then t < length (askers h) \<and> v = s else is_asking s u h)"
  by (auto simp: is_asking_def set_asking_def)

lemma set_asking_refs [simp]: "flight_ref (askers (set_asking t v h) ! u) = flight_ref (askers h ! u)"
  by (cases "t < length (askers h)") (auto simp: set_asking_def nth_list_update list_update_beyond)

lemma land_askers [simp]: "askers (land i r h) = askers h"
  by (simp add: land_def)

text \<open>The outcome of a flight arrives, and its reader is done.\<close>

lemma landing_ok:
  assumes h: "hub_ok h" and t: "is_asking Reading t h"
    and v: "v = Died \<or> v = Answered (answer r (known_revision (askers h ! t)))"
  shows "hub_ok (set_asking t v (land (flight_ref (askers h ! t)) r h))"
proof -
  let ?i = "flight_ref (askers h ! t)"
  let ?h = "set_asking t v (land ?i r h)"
  have tl: "t < length (askers h)" and at: "asking (askers h ! t) = Reading" using t by (simp_all add: is_asking_def)
  have ta: "asker_ok (cells h) (askers h ! t)" by (rule hub_ok_asker [OF h tl])
  then have il: "?i < length (cells h)" by (simp add: asker_ok_def flight_for_def)
  have inair: "landed (cells h ! ?i) = None"
    using ta at by (cases "landed (cells h ! ?i)") (auto simp: asker_ok_def)
  have vr: "v \<noteq> Reading" using v by auto
  have same: "table ?h = table h" "clock ?h = clock h" "steps ?h = steps h" "forgotten ?h = forgotten h"
    "length (cells ?h) = length (cells h)" "length (askers ?h) = length (askers h)"
    by (simp_all add: set_asking_def land_def)
  have cell: "cells ?h ! j = (if j = ?i then (cells h ! ?i)\<lparr>landed := Some (r, clock h)\<rparr> else cells h ! j)"
    if "j < length (cells h)" for j
    using that by (simp add: set_asking_def land_def)
  have ff: "flight_for (cells ?h) k n j \<longleftrightarrow> flight_for (cells h) k n j" for k n j
    using cell by (auto simp: flight_for_def same split: if_splits)
  have reading: "is_asking Reading u ?h \<longleftrightarrow> u \<noteq> t \<and> is_asking Reading u h" for u
    using vr tl unfolding is_asking_set by (auto simp: is_asking_def land_def)
  have refs: "flight_ref (askers ?h ! u) = flight_ref (askers h ! u)" for u
    by (simp add: land_def)
  have unique: "u = t" if "is_asking Reading u h" "flight_ref (askers h ! u) = ?i" for u
    using h t that unfolding hub_ok_def askers_ok_def by blast
  have "table_ok ?h" using h by (simp add: hub_ok_def table_ok_def same ff)
  moreover have "cell_ok ?h j" if j: "j < length (cells ?h)" for j
  proof (cases "j = ?i")
    case True
    have "cell_ok h ?i" using h il by (simp add: hub_ok_def)
    with True cell [OF il] show ?thesis by (simp add: cell_ok_def same Let_def)
  next
    case False
    have "cell_ok h j" using h j by (simp add: hub_ok_def same)
    moreover have "u \<noteq> t" if "flight_ref (askers h ! u) = j" for u using that False by auto
    ultimately show ?thesis using cell [of j] j False unfolding cell_ok_def same Let_def reading refs
      by (cases "landed (cells h ! j)") (simp, metis, simp)
  qed
  moreover have "askers_ok ?h"
    unfolding askers_ok_def
  proof (intro conjI allI impI)
    fix u
    assume u: "u < length (askers ?h)"
    then have ul: "u < length (askers h)" by (simp add: same)
    have ok: "asker_ok (cells h) (askers h ! u)" "asked_at (askers h ! u) \<le> clock h"
      using h ul by (simp_all add: hub_ok_def askers_ok_def)
    have au: "askers ?h ! u = (if u = t then (askers h ! t)\<lparr>asking := v\<rparr> else askers h ! u)"
      using ul by (simp add: set_asking_def land_def)
    show "asked_at (askers ?h ! u) \<le> clock ?h" using ok(2) by (auto simp: au same)
    show "asker_ok (cells ?h) (askers ?h ! u)"
    proof (cases "flight_ref (askers h ! u) = ?i")
      case True
      then have "u = t \<or> asking (askers h ! u) = Waiting"
        using ok(1) inair unique [of u] ul by (auto simp: asker_ok_def is_asking_def)
      with True ok cell [OF il] ff FRESHNESS_pos v show ?thesis
        by (auto simp: asker_ok_def au)
    next
      case False
      then have "u \<noteq> t" by auto
      moreover have "flight_ref (askers h ! u) < length (cells h)" using ok(1) by (simp add: asker_ok_def flight_for_def)
      ultimately show ?thesis using ok(1) False cell ff by (simp add: asker_ok_def au)
    qed
  next
    fix u w
    assume "is_asking Reading u ?h" "is_asking Reading w ?h" "flight_ref (askers ?h ! u) = flight_ref (askers ?h ! w)"
    with h show "u = w" unfolding hub_ok_def askers_ok_def reading refs by blast
  qed
  ultimately show ?thesis by (simp add: hub_ok_def)
qed

text \<open>A waiter takes the outcome.\<close>

lemma look_ok:
  assumes h: "hub_ok h" and t: "is_asking Waiting t h"
  shows "hub_ok (look t h)"
proof (cases "landed (cells h ! flight_ref (askers h ! t))")
  case (Some ra)
  obtain r at where ra: "ra = (r, at)" by (cases ra)
  let ?v = "Answered (answer r (known_revision (askers h ! t)))"
  have eq: "look t h = set_asking t ?v h" using Some ra by (simp add: look_def Let_def)
  have tl: "t < length (askers h)" using t by (simp add: is_asking_def)
  have reading: "is_asking Reading u (set_asking t ?v h) \<longleftrightarrow> is_asking Reading u h" for u
    using t unfolding is_asking_set by (auto simp: is_asking_def)
  have same: "table (set_asking t ?v h) = table h" "cells (set_asking t ?v h) = cells h" "clock (set_asking t ?v h) = clock h"
    "steps (set_asking t ?v h) = steps h" "forgotten (set_asking t ?v h) = forgotten h"
    "length (askers (set_asking t ?v h)) = length (askers h)"
    by (simp_all add: set_asking_def)
  have au: "askers (set_asking t ?v h) ! u = (if u = t then (askers h ! t)\<lparr>asking := ?v\<rparr> else askers h ! u)"
    if "u < length (askers h)" for u
    using that by (simp add: set_asking_def)
  have "asker_ok (cells h) ((askers h ! t)\<lparr>asking := ?v\<rparr>)"
    using hub_ok_asker [OF h tl] Some ra by (auto simp: asker_ok_def)
  then have "askers_ok (set_asking t ?v h)"
    using h tl unfolding hub_ok_def askers_ok_def reading set_asking_refs same by (auto simp: au)
  with h show ?thesis
    unfolding eq hub_ok_def table_ok_def cell_ok_def reading set_asking_refs same by blast
qed (simp add: look_def h Let_def)

lemma keeps_answering_fresh: "keeps_answering now f \<Longrightarrow> landed f = Some (r, at) \<Longrightarrow> now < at + FRESHNESS"
  using FRESHNESS_pos by (cases r) (auto simp: keeps_answering_def)

text \<open>A new asker joins a flight or starts one.\<close>

lemma table_ok_kept:
  assumes "table_ok h"
  shows "table_ok (h\<lparr>table := filter P (table h)\<rparr>)"
  using assms by (auto simp: table_ok_def distinct_map_filter)

lemma ask_ok:
  assumes h: "hub_ok h" and fresh: "\<And>k. forgotten h k < steps h"
  shows "hub_ok (ask key known h)"
proof -
  let ?kept = "filter (\<lambda>(_, i). keeps_answering (clock h) (cells h ! i)) (table h)"
  let ?me = "\<lparr>ask_key = key, known_revision = known, flight_ref = 0, asking = Waiting, asked_at = clock h,
    seen_forget = forgotten h key\<rparr>"
  have tab: "table_ok (h\<lparr>table := ?kept\<rparr>)" using h by (intro table_ok_kept) (simp add: hub_ok_def)
  have in_kept: "(k, i) \<in> set ?kept" if "(k, i) \<in> set (table h)" "landed (cells h ! i) = None" for k i
    using that by (simp add: keeps_answering_def)
  show ?thesis
  proof (cases "map_of ?kept key")
    case (Some i)
    then have i: "(key, i) \<in> set ?kept" by (rule map_of_SomeD)
    then have ff: "flight_for (cells h) key (forgotten h key) i" and kp: "keeps_answering (clock h) (cells h ! i)"
      using tab by (auto simp: table_ok_def)
    let ?h = "h\<lparr>table := ?kept, askers := askers h @ [?me\<lparr>flight_ref := i\<rparr>]\<rparr>"
    have eq: "ask key known h = ?h" using Some by (simp add: ask_def Let_def)
    have at: "askers ?h ! t = (if t = length (askers h) then ?me\<lparr>flight_ref := i\<rparr> else askers h ! t)"
      if "t < length (askers ?h)" for t
      using that by (auto simp: nth_append)
    have reading: "is_asking Reading t ?h \<longleftrightarrow> is_asking Reading t h" for t
      by (auto simp: is_asking_def nth_append)
    have "asker_ok (cells h) (?me\<lparr>flight_ref := i\<rparr>)"
      using ff keeps_answering_fresh [OF kp] by (auto simp: asker_ok_def split: option.splits)
    moreover have "flight_ref (askers ?h ! t) = flight_ref (askers h ! t)" if "is_asking Reading t h" for t
      using that by (auto simp: is_asking_def nth_append)
    ultimately have "askers_ok ?h"
      using h unfolding askers_ok_def hub_ok_def reading by (auto simp: nth_append less_Suc_eq)
    moreover have "cell_ok ?h j" if "j < length (cells h)" for j
    proof -
      have "cell_ok h j" using h that by (simp add: hub_ok_def)
      moreover have "is_asking Reading t ?h \<and> flight_ref (askers ?h ! t) = j"
        if "is_asking Reading t h \<and> flight_ref (askers h ! t) = j" for t
        using that by (auto simp: is_asking_def nth_append)
      ultimately show ?thesis using in_kept unfolding cell_ok_def Let_def
        by (cases "landed (cells h ! j)") (simp, metis, simp)
    qed
    ultimately show ?thesis using tab by (simp add: hub_ok_def eq table_ok_def)
  next
    case None
    let ?i = "length (cells h)"
    let ?f = "\<lparr>landed = None, begun = steps h, of_key = key\<rparr>"
    let ?a = "?me\<lparr>flight_ref := ?i, asking := Reading\<rparr>"
    let ?h = "h\<lparr>table := al_put key ?i ?kept, cells := cells h @ [?f], askers := askers h @ [?a]\<rparr>"
    have eq: "ask key known h = ?h" using None by (simp add: ask_def Let_def)
    have ff: "flight_for (cells h @ [?f]) k n j" if "flight_for (cells h) k n j" for k n j
      using that by (auto simp: flight_for_def nth_append)
    have aok: "asker_ok (cells h @ [?f]) a" if "asker_ok (cells h) a" for a
      using that ff by (auto simp: asker_ok_def nth_append flight_for_def)
    have reading: "is_asking Reading t ?h \<longleftrightarrow> t = length (askers h) \<or> is_asking Reading t h" for t
      by (auto simp: is_asking_def nth_append)
    have refs: "flight_ref (askers ?h ! t) = (if t = length (askers h) then ?i else flight_ref (askers h ! t))"
      if "is_asking Reading t ?h" for t
      using that by (auto simp: is_asking_def nth_append)
    have ref_less: "flight_ref (askers h ! t) < ?i" if "is_asking Reading t h" for t
      using hub_ok_asker [OF h, of t] that by (simp add: is_asking_def asker_ok_def flight_for_def)
    have absent: "al_del key ?kept = ?kept" using None by (rule al_del_absent)
    have "key \<notin> fst ` set ?kept" using None unfolding map_of_eq_None_iff .
    moreover have "flight_for (cells h @ [?f]) key (forgotten h key) ?i" using fresh by (simp add: flight_for_def)
    ultimately have "table_ok ?h"
      using tab ff unfolding table_ok_def by (auto simp: al_put_def absent)
    moreover have "cell_ok ?h j" if "j < Suc ?i" for j
    proof (cases "j = ?i")
      case True
      have "is_asking Reading (length (askers h)) ?h \<and> flight_ref (askers ?h ! length (askers h)) = ?i"
        by (simp add: is_asking_def)
      with True show ?thesis by (auto simp: cell_ok_def Let_def al_put_def)
    next
      case False
      with that have j: "j < ?i" by simp
      have "cell_ok h j" using h j by (simp add: hub_ok_def)
      moreover have "is_asking Reading t ?h \<and> flight_ref (askers ?h ! t) = j"
        if "is_asking Reading t h \<and> flight_ref (askers h ! t) = j" for t
        using that by (auto simp: is_asking_def nth_append)
      moreover have "cells ?h ! j = cells h ! j" using j by (simp add: nth_append)
      moreover have "(of_key (cells h ! j), j) \<in> set (table ?h)"
        if "(of_key (cells h ! j), j) \<in> set (table h)" "landed (cells h ! j) = None"
        using in_kept [OF that] by (simp add: al_put_def absent)
      moreover have "begun (cells h ! j) \<le> steps ?h \<longleftrightarrow> begun (cells h ! j) \<le> steps h" "clock ?h = clock h"
        "forgotten ?h = forgotten h" by simp_all
      ultimately show ?thesis unfolding cell_ok_def Let_def by (cases "landed (cells h ! j)") auto
    qed
    moreover have "askers_ok ?h"
      unfolding askers_ok_def
    proof (intro conjI allI impI)
      fix t assume "t < length (askers ?h)"
      then show "asked_at (askers ?h ! t) \<le> clock ?h" "asker_ok (cells ?h) (askers ?h ! t)"
        using h aok fresh [of key] unfolding hub_ok_def askers_ok_def
        by (auto simp: nth_append less_Suc_eq) (auto simp: asker_ok_def flight_for_def)
    next
      fix t u
      assume t: "is_asking Reading t ?h" and u: "is_asking Reading u ?h"
        and r: "flight_ref (askers ?h ! t) = flight_ref (askers ?h ! u)"
      have old: "is_asking Reading v h" if "is_asking Reading v ?h" "v \<noteq> length (askers h)" for v
        using that reading by blast
      show "t = u"
      proof (cases "t = length (askers h) \<longleftrightarrow> u = length (askers h)")
        case True
        with h t u r old [OF t] old [OF u] show ?thesis
          unfolding refs [OF t] refs [OF u] hub_ok_def askers_ok_def by (metis (full_types))
      next
        case False
        with r ref_less [OF old [OF t]] ref_less [OF old [OF u]] show ?thesis
          unfolding refs [OF t] refs [OF u] by (auto split: if_splits)
      qed
    qed
    ultimately show ?thesis by (simp add: hub_ok_def eq)
  qed
qed

lemma forget_ok:
  assumes h: "hub_ok h" and fresh: "\<And>i. i < length (cells h) \<Longrightarrow> begun (cells h ! i) < steps h"
  shows "hub_ok (forget key h)"
proof -
  have "table_ok (forget key h)"
    using h by (auto simp: hub_ok_def table_ok_def forget_def set_al_del)
  moreover have "cell_ok (forget key h) i" if "i < length (cells h)" for i
  proof -
    have "cell_ok h i" using h that by (simp add: hub_ok_def)
    with fresh [OF that] show ?thesis
      by (cases "landed (cells h ! i)") (auto simp: cell_ok_def forget_def Let_def is_asking_def set_al_del)
  qed
  ultimately show ?thesis using h by (simp add: hub_ok_def askers_ok_def is_asking_def forget_def)
qed

lemma hub_step_ok:
  assumes h: "hub_ok h"
  shows "hub_ok (hub_step h e)"
proof -
  let ?h = "h\<lparr>steps := steps h + 1\<rparr>"
  have "hub_ok ?h"
    using h by (auto simp: hub_ok_def table_ok_def cell_ok_def askers_ok_def is_asking_def Let_def le_SucI
        split: option.splits)
  moreover have "forgotten ?h k < steps ?h" for k
    using h by (simp add: hub_ok_def table_ok_def le_imp_less_Suc)
  moreover have begun: "begun (cells ?h ! i) < steps ?h" if "i < length (cells ?h)" for i
    using h that by (auto simp: hub_ok_def cell_ok_def Let_def le_imp_less_Suc)
  ultimately have all: "hub_ok (hub_effect ?h e)"
  proof (cases e)
    case (Returned t r)
    with \<open>hub_ok ?h\<close> landing_ok [of ?h t "Answered (answer r (known_revision (askers h ! t)))" r] show ?thesis
      by (simp add: read_returned_def Let_def)
  next
    case (Unwound t)
    with \<open>hub_ok ?h\<close> landing_ok [of ?h t Died "Inl Interrupted"] show ?thesis by (simp add: read_unwound_def)
  next
    case (Passed d)
    with \<open>hub_ok ?h\<close> show ?thesis
      by (auto simp: hub_ok_def table_ok_def cell_ok_def askers_ok_def is_asking_def Let_def trans_le_add1
          split: option.splits)
  next
    case (Forgot k)
    with \<open>hub_ok ?h\<close> forget_ok [of ?h k] begun show ?thesis by simp
  qed (simp_all add: ask_ok look_ok)
  then show ?thesis by (simp add: hub_step_def)
qed

lemma hub_ok_new: "hub_ok hub_new"
  by (simp add: hub_ok_def table_ok_def askers_ok_def is_asking_def hub_new_def)

interpretation gf: total_machine "\<lambda>h. h = hub_new" hub_step hub_ok
  by unfold_locales (simp_all add: hub_ok_new hub_step_ok)

lemma waiting_ends:
  assumes h: "hub_ok h" and t: "is_asking Waiting t h"
  shows "(\<exists>x. is_asking (Answered x) t (hub_step h (Looked t))) \<or>
    (\<exists>u. is_asking Reading u h \<and>
      (\<forall>r. \<exists>x. is_asking (Answered x) t (hub_step (hub_step h (Returned u r)) (Looked t))) \<and>
      (\<exists>x. is_asking (Answered x) t (hub_step (hub_step h (Unwound u)) (Looked t))))"
proof -
  have tl: "t < length (askers h)" and at: "asking (askers h ! t) = Waiting" using t by (simp_all add: is_asking_def)
  let ?i = "flight_ref (askers h ! t)"
  have il: "?i < length (cells h)" using hub_ok_asker [OF h tl] by (simp add: asker_ok_def flight_for_def)
  show ?thesis
  proof (cases "landed (cells h ! ?i)")
    case (Some ra)
    with tl at show ?thesis
      by (cases ra) (auto simp: hub_step_def is_asking_def look_def set_asking_def Let_def)
  next
    case None
    have "cell_ok h ?i" using h il by (simp add: hub_ok_def)
    with None obtain u where u: "is_asking Reading u h" "flight_ref (askers h ! u) = ?i"
      by (auto simp: cell_ok_def Let_def)
    then have "u \<noteq> t" using at by (auto simp: is_asking_def)
    with u tl at il show ?thesis
      by (intro disjI2 exI [of _ u])
        (auto simp: hub_step_def is_asking_def read_returned_def read_unwound_def look_def set_asking_def land_def Let_def)
  qed
qed

lemma reads_are_single:
  assumes h: "hub_ok h" and t: "is_asking Reading t h" and u: "is_asking Reading u h"
    and key: "ask_key (askers h ! t) = ask_key (askers h ! u)"
  shows "t = u \<or> (\<exists>v \<in> {t, u}. begun (cells h ! flight_ref (askers h ! v)) \<le> forgotten h (ask_key (askers h ! v)))"
proof (rule ccontr)
  assume "\<not> ?thesis"
  then have ne: "t \<noteq> u" and late: "\<And>v. v \<in> {t, u} \<Longrightarrow>
      forgotten h (ask_key (askers h ! v)) < begun (cells h ! flight_ref (askers h ! v))"
    by (auto simp: not_le)
  have "(ask_key (askers h ! v), flight_ref (askers h ! v)) \<in> set (table h)" if v: "v \<in> {t, u}" for v
  proof -
    have vl: "v < length (askers h)" and rd: "asking (askers h ! v) = Reading" using v t u by (auto simp: is_asking_def)
    have ok: "asker_ok (cells h) (askers h ! v)" by (rule hub_ok_asker [OF h vl])
    then have "landed (cells h ! flight_ref (askers h ! v)) = None" using rd
      by (cases "landed (cells h ! flight_ref (askers h ! v))") (auto simp: asker_ok_def)
    moreover have "cell_ok h (flight_ref (askers h ! v))" using h ok by (simp add: hub_ok_def asker_ok_def flight_for_def)
    ultimately show ?thesis using ok late [OF v] by (auto simp: cell_ok_def Let_def asker_ok_def flight_for_def)
  qed
  from this [of t] this [of u] h key have "flight_ref (askers h ! t) = flight_ref (askers h ! u)"
    unfolding hub_ok_def table_ok_def by (metis eq_key_imp_eq_value insertI1 insertI2)
  with h t u ne show False unfolding hub_ok_def askers_ok_def by blast
qed

section \<open>What the hub promises\<close>

text \<open>
  Claim C22. Every answer is the outcome of one read of the asker's own checkout, told against the revision the
  asker holds; that read began after the last write the hub was told of before the asker asked, and it
  finished less than 750 ms before the asker asked, if not later.
\<close>

theorem answers_come_from_after_the_write:
  assumes "h = foldl hub_step hub_new es" and "t < length (askers h)" and "asking (askers h ! t) = Answered x"
  shows "\<exists>f r at. f \<in> set (cells h) \<and> landed f = Some (r, at) \<and> x = answer r (known_revision (askers h ! t)) \<and>
    of_key f = ask_key (askers h ! t) \<and> seen_forget (askers h ! t) < begun f \<and>
    asked_at (askers h ! t) < at + 750 * 10 ^ 6"
proof -
  have "hub_ok h" unfolding assms(1) by (rule gf.foldl_inv) simp
  then have ok: "asker_ok (cells h) (askers h ! t)" using assms(2) by (rule hub_ok_asker)
  let ?f = "cells h ! flight_ref (askers h ! t)"
  from ok assms(3) obtain r at where "landed ?f = Some (r, at)" by (auto simp: asker_ok_def split: option.splits)
  with ok assms(3) show ?thesis
    by (intro exI [of _ ?f] exI [of _ r] exI [of _ at]) (auto simp: asker_ok_def flight_for_def FRESHNESS_def)
qed

text \<open>
  Nobody waits for nothing: a waiter whose flight has landed is answered as soon as it looks, and a
  waiter whose flight is in the air has a reader whose return, or unwinding, lands it. Between two \<open>forget\<close>s no
  checkout is read twice at a time.
\<close>

theorem waiting_ends_and_reads_are_single:
  assumes "h = foldl hub_step hub_new es"
  shows "(is_asking Waiting t h \<longrightarrow>
      (\<exists>x. is_asking (Answered x) t (hub_step h (Looked t))) \<or>
      (\<exists>u. is_asking Reading u h \<and>
        (\<forall>r. \<exists>x. is_asking (Answered x) t (hub_step (hub_step h (Returned u r)) (Looked t))) \<and>
        (\<exists>x. is_asking (Answered x) t (hub_step (hub_step h (Unwound u)) (Looked t))))) \<and>
    (is_asking Reading t h \<longrightarrow> is_asking Reading u h \<longrightarrow> ask_key (askers h ! t) = ask_key (askers h ! u) \<longrightarrow>
      t = u \<or> (\<exists>v \<in> {t, u}. begun (cells h ! flight_ref (askers h ! v)) \<le> forgotten h (ask_key (askers h ! v))))"
proof -
  have "hub_ok h" unfolding assms by (rule gf.foldl_inv) simp
  then show ?thesis using waiting_ends [of h t] reads_are_single [of h t u] by blast
qed

section \<open>Two askers and one read\<close>

definition sample_asks :: "unit hub_event list" where
  "sample_asks = [Ask [97] None, Passed 5, Ask [97] (Some [49]), Returned 0 (Inr (Some \<lparr>summary_revision = [49]\<rparr>)), Looked 1]"

lemma sample_hub:
  "askers (foldl hub_step hub_new sample_asks) =
     [\<lparr>ask_key = [97], known_revision = None, flight_ref = 0, asking = Answered (Inr (Snapshot \<lparr>summary_revision = [49]\<rparr>)),
       asked_at = 0, seen_forget = 0\<rparr>,
      \<lparr>ask_key = [97], known_revision = Some [49], flight_ref = 0, asking = Answered (Inr (Unchanged [49])),
       asked_at = 5, seen_forget = 0\<rparr>]"
  by (simp add: sample_asks_def hub_step_def hub_new_def ask_def is_asking_def read_returned_def look_def land_def
      set_asking_def al_put_def al_del_def keeps_answering_def Let_def)

theorem answers_come_from_after_the_write_witness:
  "\<exists>f r at. f \<in> set (cells (foldl hub_step hub_new sample_asks)) \<and> landed f = Some (r, at) \<and>
    Inr (Unchanged [49]) = answer r (Some [49]) \<and> of_key f = [97] \<and> 0 < begun f \<and> 5 < at + 750 * 10 ^ 6"
  using answers_come_from_after_the_write [OF refl, of 1 sample_asks "Inr (Unchanged [49])"]
  by (simp add: sample_hub)

theorem waiting_ends_and_reads_are_single_witness:
  "\<exists>u. is_asking Reading u (foldl hub_step hub_new (take 3 sample_asks)) \<and>
    (\<exists>x. is_asking (Answered x) 1 (hub_step (hub_step (foldl hub_step hub_new (take 3 sample_asks)) (Unwound u)) (Looked 1)))"
proof -
  let ?h = "foldl hub_step hub_new (take 3 sample_asks)"
  have e: "?h = \<lparr>table = [([97], 0)], cells = [\<lparr>landed = None, begun = 1, of_key = [97]\<rparr>],
    askers = [\<lparr>ask_key = [97], known_revision = None, flight_ref = 0, asking = Reading, asked_at = 0, seen_forget = 0\<rparr>,
      \<lparr>ask_key = [97], known_revision = Some [49], flight_ref = 0, asking = Waiting, asked_at = 5, seen_forget = 0\<rparr>],
    clock = 5, steps = 3, forgotten = (\<lambda>_. 0)\<rparr>"
    by (simp add: sample_asks_def hub_step_def hub_new_def ask_def al_put_def al_del_def keeps_answering_def Let_def)
  have "is_asking Waiting 1 ?h" and "\<not> is_asking (Answered x) 1 (hub_step ?h (Looked 1))" for x
    unfolding e by (simp_all add: is_asking_def hub_step_def look_def Let_def)
  with waiting_ends_and_reads_are_single [OF refl, of 1 "take 3 sample_asks" 1] show ?thesis by blast
qed

end
