(* ===== verification/AgentPool.thy ===== *)
theory AgentPool
  imports Json Utf8 "HOL-Library.Word"
begin

text \<open>
  The registry of a conversation's background tasks (\<^verbatim>\<open>src/agents.rs\<close>) and the wait that collects them
  (\<^verbatim>\<open>run_task_wait\<close> of \<^verbatim>\<open>src/api.rs\<close>). An agent is \<^verbatim>\<open>AgentShared\<close> with its \<^verbatim>\<open>AgentCore\<close>; the pool holds
  agents by their position in the roster, which stands for the shared reference. Every lock that is taken
  and released is a step, so a wait is a small machine that drains one outbox at a time. The condition
  variable only wakes waiters that poll anyway and is left out. \<open>sent\<close>, \<open>spent\<close>, \<open>billed\<close>, \<open>delivered\<close>,
  \<open>lost\<close>, \<open>notified\<close> and \<open>contested\<close> record history and decide nothing.
\<close>

section \<open>Statuses, identities, envelopes\<close>

datatype live_status = Running | Idle | Interrupted | Failed | Stopped | RoundLimit

datatype run_status = RunCompleted | RunInterrupted | RunFailed | RunStopped | RunRoundLimit

fun persisted :: "live_status \<Rightarrow> run_status" where
  "persisted Running = RunInterrupted"
| "persisted Interrupted = RunInterrupted"
| "persisted Idle = RunCompleted"
| "persisted Failed = RunFailed"
| "persisted Stopped = RunStopped"
| "persisted RoundLimit = RunRoundLimit"

text \<open>The status a worker reports for how its run ended.\<close>

fun reported :: "run_status \<Rightarrow> live_status" where
  "reported RunCompleted = Idle"
| "reported RunFailed = Failed"
| "reported RunStopped = Stopped"
| "reported RunRoundLimit = RoundLimit"
| "reported RunInterrupted = Interrupted"

lemma persisted_reported [simp]: "persisted (reported r) = r" and reported_not_running [simp]: "reported r \<noteq> Running"
  by (cases r; simp)+

datatype agent_kind = General | WorkflowStep | ShellCommand | WebSearch

record task_identity =
  generation :: nat
  params_digest :: nat

datatype envelope_kind = Update | Result run_status

record usage =
  input_tokens :: "64 word option"
  cached_input_tokens :: "64 word option"
  output_tokens :: "64 word option"
  total_tokens :: "64 word option"

definition no_usage :: usage where
  "no_usage = \<lparr>input_tokens = None, cached_input_tokens = None, output_tokens = None, total_tokens = None\<rparr>"

definition add_tokens :: "64 word option \<Rightarrow> 64 word option \<Rightarrow> 64 word option" where
  "add_tokens old new =
     (case new of None \<Rightarrow> old | Some d \<Rightarrow> Some ((case old of None \<Rightarrow> 0 | Some t \<Rightarrow> t) + d))"

definition merge_shared_usage :: "usage \<Rightarrow> usage \<Rightarrow> usage" where
  "merge_shared_usage old new =
     \<lparr>input_tokens = add_tokens (input_tokens old) (input_tokens new),
      cached_input_tokens = add_tokens (cached_input_tokens old) (cached_input_tokens new),
      output_tokens = add_tokens (output_tokens old) (output_tokens new),
      total_tokens = add_tokens (total_tokens old) (total_tokens new)\<rparr>"

record metrics =
  turn_usage :: usage
  tool_use_count :: nat
  duration_ms :: nat

record envelope =
  env_agent :: ustring
  env_identity :: task_identity
  env_kind :: envelope_kind
  env_content :: ustring
  env_metrics :: "metrics option"
  env_structured :: "json option"

fun is_result_kind :: "envelope_kind \<Rightarrow> bool" where
  "is_result_kind (Result _) = True"
| "is_result_kind Update = False"

abbreviation is_result :: "envelope \<Rightarrow> bool" where
  "is_result e \<equiv> is_result_kind (env_kind e)"

section \<open>An agent\<close>

text \<open>Of a context item and of a named binding the module looks at no more than this; the rest is \<open>'x\<close>.\<close>

record 'x context_item =
  item_id :: ustring
  is_tool :: bool
  item_rest :: 'x

record update =
  update_content :: ustring
  update_at :: ustring

record fork_binding =
  fork_provider :: ustring
  fork_model :: ustring
  prompt_snapshot :: ustring
  prompt_receipt :: ustring
  memory_receipt :: "ustring option"

record 'x template =
  conversation :: ustring
  provider :: ustring
  model :: ustring
  inherits_parent :: bool
  fork :: "fork_binding option"
  named :: "'x option"
  mode_receipt :: "ustring option"
  schema_doc :: "json option"

record 'x agent =
  agent_name :: ustring
  label :: ustring
  task :: ustring
  template_of :: "'x template"
  kind_of :: agent_kind
  cancel :: bool
  by_user :: bool
  status :: live_status
  incumbent :: task_identity
  stop_timer :: "task_identity option"
  contexts :: "'x context_item list"
  updates :: "update list"
  outbox :: "envelope list"
  latest_call_id :: ustring
  latest_context_id :: "ustring option"
  unbilled :: usage
  lifetime_usage :: usage
  structured :: "json option"
  result_text :: ustring
  sent :: "envelope list"
  spent :: usage
  billed :: usage

text \<open>What an operation does to an agent, and the status it tells the settlement observer.\<close>

type_synonym 'x agent_op = "'x agent \<Rightarrow> 'x agent \<times> run_status option"

definition push_envelope ::
  "envelope_kind \<Rightarrow> ustring \<Rightarrow> metrics option \<Rightarrow> json option \<Rightarrow> 'x agent \<Rightarrow> 'x agent" where
  "push_envelope k text m out a =
     (let e = \<lparr>env_agent = agent_name a, env_identity = incumbent a, env_kind = k, env_content = text,
               env_metrics = m, env_structured = out\<rparr>
      in a\<lparr>outbox := outbox a @ [e], sent := sent a @ [e]\<rparr>)"

definition settle ::
  "live_status \<Rightarrow> ustring \<Rightarrow> metrics option \<Rightarrow> json option \<Rightarrow> 'x agent \<Rightarrow> 'x agent" where
  "settle st text m out a = push_envelope (Result (persisted st)) text m out (a\<lparr>status := st, result_text := text\<rparr>)"

definition charge :: "usage \<Rightarrow> 'x agent \<Rightarrow> 'x agent" where
  "charge u a = a\<lparr>unbilled := merge_shared_usage (unbilled a) u, lifetime_usage := merge_shared_usage (lifetime_usage a) u,
     spent := merge_shared_usage (spent a) u\<rparr>"

definition complete_turn ::
  "task_identity \<Rightarrow> 'x context_item list \<Rightarrow> ustring \<Rightarrow> live_status \<Rightarrow> usage \<Rightarrow> nat \<Rightarrow> json option \<Rightarrow> 'x agent_op" where
  "complete_turn inc new final st used dur out a =
     (let a = charge used a in
      if incumbent a \<noteq> inc then (a, None)
      else
        let a = a\<lparr>contexts := contexts a @ new\<rparr> in
        if status a \<noteq> Running then (a, None)
        else
          (settle st final
             (Some \<lparr>turn_usage = used, tool_use_count = length (filter is_tool new), duration_ms = dur\<rparr>) out
             (a\<lparr>structured := out\<rparr>),
           Some (persisted st)))"

definition push_update :: "task_identity \<Rightarrow> ustring \<Rightarrow> ustring \<Rightarrow> 'x agent_op" where
  "push_update inc content stamp a =
     (if incumbent a \<noteq> inc \<or> status a \<noteq> Running then (a, None)
      else (push_envelope Update content None None
              (a\<lparr>updates := updates a @ [\<lparr>update_content = content, update_at = stamp\<rparr>]\<rparr>), None))"

text \<open>\<open>reason\<close> is the text the prompt profile of the template renders for a forced stop.\<close>

definition settle_cancelled :: "('x template \<Rightarrow> ustring \<Rightarrow> ustring) \<Rightarrow> task_identity option \<Rightarrow> 'x agent_op" where
  "settle_cancelled reason expected a =
     (if status a \<noteq> Running \<or> (case expected of None \<Rightarrow> False | Some t \<Rightarrow> incumbent a \<noteq> t \<or> \<not> cancel a) then (a, None)
      else (settle Stopped (reason (template_of a) (agent_name a)) None None a, Some RunStopped))"

text \<open>\<open>RunningTurnGuard::drop\<close> of a guard that was not defused.\<close>

definition guard_dropped :: "('x template \<Rightarrow> ustring) \<Rightarrow> task_identity \<Rightarrow> bool \<Rightarrow> 'x agent_op" where
  "guard_dropped reason inc panicking a =
     (if status a = Running \<and> incumbent a = inc then
        (if panicking then (settle Failed (reason (template_of a)) None None a, Some (persisted Failed))
         else (a\<lparr>status := Interrupted\<rparr>, None))
      else (a, None))"

datatype stop_origin = ByUser | ByHost

definition raise_flags :: "stop_origin \<Rightarrow> 'x agent \<Rightarrow> 'x agent" where
  "raise_flags origin a = a\<lparr>by_user := (by_user a \<or> origin = ByUser), cancel := True\<rparr>"

definition request_stop :: "stop_origin \<Rightarrow> 'x agent_op" where
  "request_stop origin a = (raise_flags origin a, None)"

text \<open>The first half of \<open>stop_task\<close>: the agent afterwards, and the identity a timer is to be started for.\<close>

definition stop_task_begin :: "stop_origin \<Rightarrow> 'x agent \<Rightarrow> 'x agent \<times> task_identity option" where
  "stop_task_begin origin a =
     (if status a \<noteq> Running then (a, None)
      else
        let a = raise_flags origin a in
        if stop_timer a = Some (incumbent a) then (a, None)
        else (a\<lparr>stop_timer := Some (incumbent a)\<rparr>, Some (incumbent a)))"

definition record_call_context :: "ustring \<Rightarrow> ustring \<Rightarrow> 'x agent_op" where
  "record_call_context call ctx a =
     ((if latest_call_id a = call then a\<lparr>latest_context_id := Some ctx\<rparr> else a), None)"

definition take_usage :: "'x agent \<Rightarrow> usage \<times> 'x agent" where
  "take_usage a = (unbilled a, a\<lparr>unbilled := no_usage, billed := merge_shared_usage (billed a) (unbilled a)\<rparr>)"

definition restore_lifetime_usage :: "usage \<Rightarrow> 'x agent_op" where
  "restore_lifetime_usage u a = (a\<lparr>lifetime_usage := u\<rparr>, None)"

definition drain_outbox :: "'x agent \<Rightarrow> envelope list \<times> 'x agent" where
  "drain_outbox a = (outbox a, a\<lparr>outbox := []\<rparr>)"

definition restore_envelopes :: "envelope list \<Rightarrow> 'x agent \<Rightarrow> 'x agent" where
  "restore_envelopes es a = a\<lparr>outbox := es @ outbox a\<rparr>"

definition take_undelivered_results :: "'x agent \<Rightarrow> envelope list \<times> 'x agent" where
  "take_undelivered_results a =
     (filter is_result (outbox a), a\<lparr>outbox := filter (\<lambda>e. \<not> is_result e) (outbox a)\<rparr>)"

definition has_undrained_foldable_results :: "'x agent \<Rightarrow> bool" where
  "has_undrained_foldable_results a = list_ex is_result (outbox a)"

definition latest_update :: "'x agent \<Rightarrow> ustring option" where
  "latest_update a = (if updates a = [] then None else Some (update_content (last (updates a))))"

subsection \<open>The record of an agent\<close>

record 'x run_record =
  rec_kind :: agent_kind
  rec_name :: "ustring option"
  rec_label :: "ustring option"
  rec_inherits :: bool
  rec_fork :: "fork_binding option"
  rec_definition :: "'x option"
  rec_receipt :: ustring
  rec_task :: ustring
  rec_status :: run_status
  rec_contexts :: "'x context_item list"
  rec_updates :: "update list"
  rec_structured :: "json option"
  rec_usage :: usage
  rec_schema :: "json option"

definition record_of :: "'x agent \<Rightarrow> 'x run_record" where
  "record_of a =
     (let t = template_of a in
      \<lparr>rec_kind = kind_of a, rec_name = Some (agent_name a),
       rec_label = (if kind_of a = WorkflowStep \<and> label a \<noteq> [] then Some (label a) else None),
       rec_inherits = inherits_parent t,
       rec_fork = (if inherits_parent t then fork t else None),
       rec_definition = (if inherits_parent t then None else named t),
       rec_receipt = (case mode_receipt t of None \<Rightarrow> [] | Some r \<Rightarrow> r),
       rec_task = task a, rec_status = persisted (status a), rec_contexts = contexts a, rec_updates = updates a,
       rec_structured = structured a, rec_usage = lifetime_usage a, rec_schema = schema_doc t\<rparr>)"

fun unseen :: "ustring list \<Rightarrow> 'x context_item list \<Rightarrow> 'x context_item list" where
  "unseen ids [] = []"
| "unseen ids (c # cs) = (if item_id c \<in> set ids then unseen ids cs else c # unseen (item_id c # ids) cs)"

text \<open>
  What \<open>checkpoint_transcript\<close> hands to its callback while it holds the lock: nothing for a stale or settled
  incarnation (outer \<open>None\<close>) and nothing where no card is known (inner \<open>None\<close>).
\<close>

definition checkpoint_transcript ::
  "task_identity \<Rightarrow> 'x context_item list \<Rightarrow> 'x agent \<Rightarrow> (ustring \<times> 'x run_record) option option" where
  "checkpoint_transcript inc live a =
     (if incumbent a \<noteq> inc \<or> status a \<noteq> Running then None
      else case latest_context_id a of
          None \<Rightarrow> Some None
        | Some ctx \<Rightarrow>
            (let r = record_of a
             in Some (Some (ctx, r\<lparr>rec_contexts := rec_contexts r @ unseen (map item_id (rec_contexts r)) live\<rparr>))))"

section \<open>Registration\<close>

definition MAX_LIVE_AGENTS :: nat where "MAX_LIVE_AGENTS = 8"
definition MAX_AGENT_NAME_CHARS :: nat where "MAX_AGENT_NAME_CHARS = 32"

definition ascii_lower :: "nat \<Rightarrow> bool" where "ascii_lower c \<longleftrightarrow> 97 \<le> c \<and> c \<le> 122"
definition ascii_digit :: "nat \<Rightarrow> bool" where "ascii_digit c \<longleftrightarrow> 48 \<le> c \<and> c \<le> 57"

datatype refusal =
    BadNameLength
  | BadNameStart
  | BadNameChar
  | NamedWithMemory
  | ForkWithoutBinding
  | ForkMismatch
  | BadPromptSnapshot
  | BadMemoryReceipt
  | BadConversation
  | BadReservationName
  | BadModePayload
  | BoundToAnotherMode ustring
  | PoolRetired
  | NameInUse ustring
  | TooManyLive nat

definition validate_agent_name :: "ustring \<Rightarrow> refusal + unit" where
  "validate_agent_name name =
     (if name = [] \<or> length name > MAX_AGENT_NAME_CHARS then Inl BadNameLength
      else if \<not> ascii_lower (hd name) then Inl BadNameStart
      else if \<not> list_all (\<lambda>c. ascii_lower c \<or> ascii_digit c \<or> c = 95 \<or> c = 45) name then Inl BadNameChar
      else Inr ())"

definition is_lower_hex_digest :: "ustring \<Rightarrow> bool" where
  "is_lower_hex_digest s \<longleftrightarrow> byte_len s = 64 \<and> list_all (\<lambda>c. ascii_digit c \<or> 97 \<le> c \<and> c \<le> 102) s"

definition validate_child_memory_mode :: "'x template \<Rightarrow> refusal + unit" where
  "validate_child_memory_mode t =
     (if named t \<noteq> None \<and> (inherits_parent t \<or> fork t \<noteq> None) then Inl NamedWithMemory
      else if inherits_parent t \<noteq> (fork t \<noteq> None) then Inl ForkWithoutBinding
      else case fork t of
          None \<Rightarrow> Inr ()
        | Some b \<Rightarrow>
            if fork_provider b \<noteq> provider t \<or> fork_model b \<noteq> model t then Inl ForkMismatch
            else if prompt_snapshot b = [] \<or> byte_len (prompt_snapshot b) > 1024 * 1024 \<or>
                \<not> is_lower_hex_digest (prompt_receipt b) then Inl BadPromptSnapshot
            else case memory_receipt b of
                None \<Rightarrow> Inr ()
              | Some r \<Rightarrow> if is_lower_hex_digest r then Inr () else Inl BadMemoryReceipt)"

text \<open>\<open>char::is_whitespace\<close> and \<open>char::is_control\<close>.\<close>

definition control_char :: "nat \<Rightarrow> bool" where
  "control_char c \<longleftrightarrow> c < 32 \<or> 127 \<le> c \<and> c \<le> 159"

definition bad_conversation :: "ustring \<Rightarrow> bool" where
  "bad_conversation c \<longleftrightarrow> c = [] \<or> white_space (hd c) \<or> white_space (last c) \<or> byte_len c > 256 \<or> list_ex control_char c"

definition bad_reservation_name :: "ustring \<Rightarrow> bool" where
  "bad_reservation_name name \<longleftrightarrow>
     byte_len name > 32 \<or> name = [] \<or> \<not> ascii_lower (hd name) \<or>
     \<not> list_all (\<lambda>c. ascii_lower c \<or> ascii_digit c \<or> c = 95 \<or> c = 45) (tl name)"

type_synonym reservations = "((ustring \<times> ustring) \<times> ustring) list"

text \<open>\<open>AppState::reserve_subagent_execution_mode\<close>; \<open>sha\<close> is the hexadecimal SHA-256 of the payload.\<close>

definition reserve_subagent_execution_mode ::
  "(ustring \<Rightarrow> ustring) \<Rightarrow> ustring \<Rightarrow> ustring \<Rightarrow> ustring \<Rightarrow> reservations \<Rightarrow> refusal + reservations" where
  "reserve_subagent_execution_mode sha conv name payload rs =
     (if bad_conversation conv then Inl BadConversation
      else if bad_reservation_name name then Inl BadReservationName
      else if payload = [] \<or> byte_len payload > 2 * 1024 * 1024 then Inl BadModePayload
      else case map_of rs (conv, name) of
          Some d \<Rightarrow> if d \<noteq> sha payload then Inl (BoundToAnotherMode name) else Inr rs
        | None \<Rightarrow> Inr (al_put (conv, name) (sha payload) rs))"

text \<open>
  What is not in this code: the hash of a task's parameters, the JSON of the execution mode, its SHA-256,
  and the two texts of the prompt profile.
\<close>

record 'x host =
  task_digest :: "ustring \<Rightarrow> ustring \<Rightarrow> nat"
  mode_payload :: "ustring \<Rightarrow> ustring \<Rightarrow> agent_kind \<Rightarrow> 'x template \<Rightarrow> ustring"
  sha256_hex :: "ustring \<Rightarrow> ustring"
  forced_stop_text :: "'x template \<Rightarrow> ustring \<Rightarrow> ustring"
  panic_text :: "'x template \<Rightarrow> ustring"

datatype wait_mode = AnyActivity | TerminalResult

text \<open>
  Where a wait stands: draining the agent at a position, testing whether that agent is settled, draining for
  the last time, testing whether all are quiet, at its deadline, giving back what it drained, waiting for the
  tasks that are not in the pool, returned (with \<open>timed_out\<close>) or aborted.
\<close>

datatype wait_phase =
    Draining nat
  | Settling nat
  | LastDrain nat
  | Quiet nat
  | AtDeadline
  | Restoring
  | Others bool
  | Done bool
  | Aborted

record waiter =
  watched :: "nat list"
  wait_mode :: wait_mode
  has_others :: bool
  phase :: wait_phase
  fresh :: "envelope list"
  buffered :: "envelope list"
  delivered_names :: "ustring list"
  handed :: "envelope list"
  contested :: "nat list"

record 'x pool =
  agents :: "'x agent list"
  retired :: bool
  retiring :: "nat list"
  max_live :: "nat option"
  reserved :: reservations
  timers :: "(nat \<times> task_identity) list"
  waits :: "waiter list"
  delivered :: "envelope list"
  lost :: "envelope list"
  notified :: "(ustring \<times> run_status) list"

definition with_limit :: "nat option \<Rightarrow> reservations \<Rightarrow> 'x pool" where
  "with_limit limit rs =
     \<lparr>agents = [], retired = False, retiring = [], max_live = limit, reserved = rs, timers = [], waits = [],
      delivered = [], lost = [], notified = []\<rparr>"

definition with_live_limit :: "nat \<Rightarrow> reservations \<Rightarrow> 'x pool" where
  "with_live_limit n rs = with_limit (Some (max n 1)) rs"

definition running_count :: "'x agent list \<Rightarrow> nat" where
  "running_count as = length (filter (\<lambda>a. status a = Running) as)"

definition validate_registration_availability ::
  "'x agent list \<Rightarrow> ustring \<Rightarrow> live_status \<Rightarrow> nat option \<Rightarrow> refusal + unit" where
  "validate_registration_availability as name st limit =
     (if list_ex (\<lambda>a. agent_name a = name) as then Inl (NameInUse name)
      else case limit of
          None \<Rightarrow> Inr ()
        | Some n \<Rightarrow> if st = Running \<and> running_count as \<ge> n then Inl (TooManyLive n) else Inr ())"

definition preflight_registration :: "ustring \<Rightarrow> 'x template \<Rightarrow> live_status \<Rightarrow> 'x pool \<Rightarrow> refusal + unit" where
  "preflight_registration name t st p =
     (case validate_agent_name name of
        Inl r \<Rightarrow> Inl r
      | Inr _ \<Rightarrow>
          (case validate_child_memory_mode t of
             Inl r \<Rightarrow> Inl r
           | Inr _ \<Rightarrow>
               if retired p then Inl PoolRetired
               else validate_registration_availability (agents p) name st (max_live p)))"

definition new_agent ::
  "'x host \<Rightarrow> ustring \<Rightarrow> ustring \<Rightarrow> ustring \<Rightarrow> 'x template \<Rightarrow> agent_kind \<Rightarrow> 'x context_item list \<Rightarrow> update list \<Rightarrow>
     live_status \<Rightarrow> ustring \<Rightarrow> json option \<Rightarrow> 'x agent" where
  "new_agent host name lbl tsk t k ctxs ups st call out =
     \<lparr>agent_name = name, label = lbl, task = tsk, template_of = t, kind_of = k, cancel = False, by_user = False,
      status = st, incumbent = \<lparr>generation = 1, params_digest = task_digest host name tsk\<rparr>, stop_timer = None,
      contexts = ctxs, updates = ups, outbox = [], latest_call_id = call, latest_context_id = None,
      unbilled = no_usage, lifetime_usage = no_usage, structured = out, result_text = [],
      sent = [], spent = no_usage, billed = no_usage\<rparr>"

text \<open>The pool afterwards: the reservation is made before the availability is checked.\<close>

definition register ::
  "'x host \<Rightarrow> ustring \<Rightarrow> ustring \<Rightarrow> ustring \<Rightarrow> 'x template \<Rightarrow> agent_kind \<Rightarrow> 'x context_item list \<Rightarrow> update list \<Rightarrow>
     live_status \<Rightarrow> ustring \<Rightarrow> json option \<Rightarrow> 'x pool \<Rightarrow> (refusal + nat) \<times> 'x pool" where
  "register host name lbl tsk t k ctxs ups st call out p =
     (case validate_agent_name name of
        Inl r \<Rightarrow> (Inl r, p)
      | Inr _ \<Rightarrow>
     (case validate_child_memory_mode t of
        Inl r \<Rightarrow> (Inl r, p)
      | Inr _ \<Rightarrow>
     if retired p then (Inl PoolRetired, p)
     else
     (case reserve_subagent_execution_mode (sha256_hex host) (conversation t) name
         (mode_payload host (conversation t) name k t) (reserved p) of
        Inl r \<Rightarrow> (Inl r, p)
      | Inr rs \<Rightarrow>
          (let p = p\<lparr>reserved := rs\<rparr> in
           case validate_registration_availability (agents p) name st (max_live p) of
             Inl r \<Rightarrow> (Inl r, p)
           | Inr _ \<Rightarrow>
               (Inr (length (agents p)),
                p\<lparr>agents := agents p @ [new_agent host name lbl tsk t k ctxs ups st call out]\<rparr>)))))"

section \<open>Looking agents up\<close>

definition find_agent :: "ustring \<Rightarrow> 'x pool \<Rightarrow> 'x agent option" where
  "find_agent name p = find (\<lambda>a. agent_name a = name) (agents p)"

definition find_by_latest_call :: "ustring \<Rightarrow> 'x pool \<Rightarrow> 'x agent option" where
  "find_by_latest_call call p = find (\<lambda>a. latest_call_id a = call) (agents p)"

definition find_by_label :: "ustring \<Rightarrow> 'x pool \<Rightarrow> 'x agent option" where
  "find_by_label lbl p = find (\<lambda>a. (kind_of a = WorkflowStep \<or> kind_of a = ShellCommand) \<and> label a = lbl) (agents p)"

definition undelivered_result_identities :: "'x pool \<Rightarrow> (ustring \<times> task_identity) list" where
  "undelivered_result_identities p =
     concat (map (\<lambda>a. map (\<lambda>e. (env_agent e, env_identity e)) (filter is_result (outbox a))) (agents p))"

definition pool_has_undrained_results :: "'x pool \<Rightarrow> bool" where
  "pool_has_undrained_results p = list_ex has_undrained_foldable_results (agents p)"

text \<open>The loop of \<open>auto_name\<close> runs until a name is free, which is up to \<open>taken\<close>.\<close>

partial_function (option) auto_name_from :: "(ustring \<Rightarrow> bool) \<Rightarrow> ustring list \<Rightarrow> nat \<Rightarrow> ustring option" where
  "auto_name_from taken names i =
     (let candidate = 97 # decimal i in
      if candidate \<in> set names \<or> taken candidate then auto_name_from taken names (i + 1) else Some candidate)"

definition auto_name :: "(ustring \<Rightarrow> bool) \<Rightarrow> 'x pool \<Rightarrow> ustring option" where
  "auto_name taken p = auto_name_from taken (map agent_name (agents p)) 1"

end
