(* ===== verification/AgentSteps.thy ===== *)
theory AgentSteps
  imports AgentPool
begin

text \<open>
  The pool as a machine (\<^verbatim>\<open>src/agents.rs\<close>): workers report, the user and the host stop tasks, timers
  fire, the fold claims results, and waits drain outboxes step by step, in any interleaving.
\<close>

section \<open>Operations on the pool\<close>

definition on_agent :: "nat \<Rightarrow> 'x agent_op \<Rightarrow> 'x pool \<Rightarrow> 'x pool" where
  "on_agent i f p =
     (if i < length (agents p) then
        (let (a, n) = f (agents p ! i)
         in p\<lparr>agents := (agents p)[i := a],
              notified := notified p @ (case n of None \<Rightarrow> [] | Some st \<Rightarrow> [(agent_name a, st)])\<rparr>)
      else p)"

definition cancel_agent :: "nat \<Rightarrow> 'x pool \<Rightarrow> 'x pool" where
  "cancel_agent i = on_agent i (\<lambda>a. (a\<lparr>cancel := True\<rparr>, None))"

definition cancel_all :: "'x pool \<Rightarrow> 'x pool" where
  "cancel_all p = p\<lparr>agents := map (\<lambda>a. a\<lparr>cancel := True\<rparr>) (agents p)\<rparr>"

text \<open>\<open>stop_task\<close>: a timer is started, and when no thread can be had the grace is zero.\<close>

definition stop_task :: "'x host \<Rightarrow> nat \<Rightarrow> stop_origin \<Rightarrow> bool \<Rightarrow> 'x pool \<Rightarrow> 'x pool" where
  "stop_task host i origin started p =
     (if i < length (agents p) then
        (let (a, timer) = stop_task_begin origin (agents p ! i); p = p\<lparr>agents := (agents p)[i := a]\<rparr> in
         case timer of
           None \<Rightarrow> p
         | Some t \<Rightarrow>
             if started then p\<lparr>timers := timers p @ [(i, t)]\<rparr>
             else on_agent i (settle_cancelled (forced_stop_text host) (Some t)) p)
      else p)"

text \<open>A timer that fired stays in the list, which records history; it fires again in vain.\<close>

definition timer_fired :: "'x host \<Rightarrow> nat \<Rightarrow> 'x pool \<Rightarrow> 'x pool" where
  "timer_fired host k p =
     (if k < length (timers p) then
        (let (i, t) = timers p ! k in on_agent i (settle_cancelled (forced_stop_text host) (Some t)) p)
      else p)"

definition bill :: "nat \<Rightarrow> 'x pool \<Rightarrow> 'x pool" where
  "bill i = on_agent i (\<lambda>a. (snd (take_usage a), None))"

definition claim_results :: "nat \<Rightarrow> 'x pool \<Rightarrow> 'x pool" where
  "claim_results i p =
     (if i < length (agents p) then
        (let (es, a) = take_undelivered_results (agents p ! i)
         in p\<lparr>agents := (agents p)[i := a], delivered := delivered p @ es\<rparr>)
      else p)"

text \<open>\<open>AgentPool::take_undelivered_results\<close>: the agents one after the other, in the order of the roster.\<close>

definition claim_all_results :: "'x pool \<Rightarrow> 'x pool" where
  "claim_all_results p = foldl (\<lambda>p i. claim_results i p) p [0..<length (agents p)]"

definition retire :: "'x pool \<Rightarrow> 'x pool" where
  "retire p = p\<lparr>retired := True, retiring := [0..<length (agents p)]\<rparr>"

definition retire_next :: "'x pool \<Rightarrow> 'x pool" where
  "retire_next p = (case retiring p of [] \<Rightarrow> p | i # is \<Rightarrow> (cancel_agent i p)\<lparr>retiring := is\<rparr>)"

text \<open>The end of \<open>await_quiescence\<close> past its deadline.\<close>

definition force_settle :: "'x host \<Rightarrow> nat \<Rightarrow> 'x pool \<Rightarrow> 'x pool" where
  "force_settle host i = on_agent i (settle_cancelled (forced_stop_text host) None)"

definition settle_stuck :: "'x host \<Rightarrow> 'x pool \<Rightarrow> 'x pool" where
  "settle_stuck host p = foldl (\<lambda>p i. force_settle host i p) (cancel_all p) [0..<length (agents p)]"

section \<open>A wait\<close>

definition live_phase :: "wait_phase \<Rightarrow> bool" where
  "live_phase f \<longleftrightarrow> f \<noteq> Aborted \<and> f \<noteq> Done True \<and> f \<noteq> Done False"

text \<open>Whom a new wait disputes with the waits under way.\<close>

definition dispute :: "nat list \<Rightarrow> waiter \<Rightarrow> waiter" where
  "dispute is w =
     (if live_phase (phase w) then w\<lparr>contested := contested w @ filter (\<lambda>i. i \<in> set is) (watched w)\<rparr> else w)"

definition start_wait :: "nat list \<Rightarrow> wait_mode \<Rightarrow> bool \<Rightarrow> 'x pool \<Rightarrow> 'x pool" where
  "start_wait is mode others p =
     (if list_all (\<lambda>i. i < length (agents p)) is then
        p\<lparr>waits := map (dispute is) (waits p) @
            [\<lparr>watched = is, wait_mode = mode, has_others = others, phase = Draining 0, fresh = [], buffered = [],
              delivered_names = [], handed = [],
              contested = filter (\<lambda>i. list_ex (\<lambda>w. live_phase (phase w) \<and> i \<in> set (watched w)) (waits p)) is\<rparr>]\<rparr>
      else p)"

definition not_running :: "'x pool \<Rightarrow> nat \<Rightarrow> bool" where
  "not_running p i \<longleftrightarrow> status (agents p ! i) \<noteq> Running"

definition set_wait :: "nat \<Rightarrow> waiter \<Rightarrow> 'x pool \<Rightarrow> 'x pool" where
  "set_wait k w p = p\<lparr>waits := (waits p)[k := w]\<rparr>"

text \<open>A wait that is over hands its envelopes to the caller.\<close>

definition hand_over :: "nat \<Rightarrow> waiter \<Rightarrow> bool \<Rightarrow> 'x pool \<Rightarrow> 'x pool" where
  "hand_over k w timed_out p =
     (set_wait k (w\<lparr>phase := Done timed_out, handed := buffered w, buffered := []\<rparr>) p)
       \<lparr>delivered := delivered p @ buffered w\<rparr>"

text \<open>What follows the wait on the pool: \<open>task_wait\<close> goes on to the tasks outside it.\<close>

definition pool_wait_over :: "nat \<Rightarrow> waiter \<Rightarrow> bool \<Rightarrow> 'x pool \<Rightarrow> 'x pool" where
  "pool_wait_over k w timed_out p =
     (if has_others w then set_wait k (w\<lparr>phase := Others timed_out\<rparr>) p else hand_over k w timed_out p)"

definition drain_into :: "nat \<Rightarrow> (envelope list \<Rightarrow> waiter) \<Rightarrow> nat \<Rightarrow> 'x pool \<Rightarrow> 'x pool" where
  "drain_into k w i p =
     (let (es, a) = drain_outbox (agents p ! i) in set_wait k (w es) (p\<lparr>agents := (agents p)[i := a]\<rparr>))"

text \<open>All agents are drained once: does that end the wait?\<close>

definition drained :: "nat \<Rightarrow> waiter \<Rightarrow> 'x pool \<Rightarrow> 'x pool" where
  "drained k w p =
     (let names = delivered_names w @ map env_agent (filter is_result (fresh w)); w = w\<lparr>delivered_names := names\<rparr> in
      case wait_mode w of
        TerminalResult \<Rightarrow> set_wait k (w\<lparr>phase := Settling 0\<rparr>) p
      | AnyActivity \<Rightarrow>
          (let settles = fresh w \<noteq> []; w = w\<lparr>buffered := buffered w @ fresh w, fresh := []\<rparr> in
           if settles then pool_wait_over k w False p else set_wait k (w\<lparr>phase := Quiet 0\<rparr>) p))"

text \<open>\<open>past\<close>: the deadline is over; \<open>beat\<close>: the heartbeat got through; \<open>settled\<close>: the other tasks are settled.\<close>

definition wait_step :: "nat \<Rightarrow> bool \<Rightarrow> bool \<Rightarrow> bool \<Rightarrow> 'x pool \<Rightarrow> 'x pool" where
  "wait_step k past beat settled p =
     (if k < length (waits p) then
        (let w = waits p ! k; n = length (watched w) in
         case phase w of
           Draining j \<Rightarrow>
             if j < n then drain_into k (\<lambda>es. w\<lparr>fresh := fresh w @ es, phase := Draining (j + 1)\<rparr>) (watched w ! j) p
             else drained k w p
         | Settling j \<Rightarrow>
             if j < n then
               (if agent_name (agents p ! (watched w ! j)) \<in> set (delivered_names w) \<or> not_running p (watched w ! j)
                then set_wait k (w\<lparr>phase := Settling (j + 1)\<rparr>) p
                else set_wait k (w\<lparr>buffered := buffered w @ fresh w, fresh := [], phase := Quiet 0\<rparr>) p)
             else set_wait k (w\<lparr>buffered := buffered w @ fresh w, fresh := [], phase := LastDrain 0\<rparr>) p
         | Quiet j \<Rightarrow>
             if j < n then
               (if not_running p (watched w ! j) then set_wait k (w\<lparr>phase := Quiet (j + 1)\<rparr>) p
                else set_wait k (w\<lparr>phase := AtDeadline\<rparr>) p)
             else set_wait k (w\<lparr>phase := LastDrain 0\<rparr>) p
         | LastDrain j \<Rightarrow>
             if j < n then
               drain_into k (\<lambda>es. w\<lparr>buffered := buffered w @ es, phase := LastDrain (j + 1)\<rparr>) (watched w ! j) p
             else pool_wait_over k w False p
         | AtDeadline \<Rightarrow>
             if past then pool_wait_over k w True p
             else if beat then set_wait k (w\<lparr>phase := Draining 0\<rparr>) p
             else set_wait k (w\<lparr>phase := (if buffered w = [] then Aborted else Restoring)\<rparr>) p
         | Others timed_out \<Rightarrow>
             if settled then hand_over k w timed_out p
             else if past then hand_over k w True p
             else if beat then p
             else (set_wait k (w\<lparr>phase := Aborted, buffered := []\<rparr>) p)\<lparr>lost := lost p @ buffered w\<rparr>
         | _ \<Rightarrow> p)
      else p)"

text \<open>
  An aborted wait gives back what it drained, one owner after the other, in any order. An owner is looked up
  among the watched agents by its name.
\<close>

definition owner_at :: "waiter \<Rightarrow> ustring \<Rightarrow> 'x pool \<Rightarrow> nat option" where
  "owner_at w name p = find (\<lambda>i. agent_name (agents p ! i) = name) (watched w)"

definition restore_owner :: "nat \<Rightarrow> ustring \<Rightarrow> 'x pool \<Rightarrow> 'x pool" where
  "restore_owner k name p =
     (if k < length (waits p) \<and> phase (waits p ! k) = Restoring then
        (let w = waits p ! k; es = filter (\<lambda>e. env_agent e = name) (buffered w);
             rest = filter (\<lambda>e. env_agent e \<noteq> name) (buffered w);
             p' = set_wait k (w\<lparr>buffered := rest, phase := (if rest = [] then Aborted else Restoring)\<rparr>) p
         in case owner_at w name p of
              None \<Rightarrow> p'\<lparr>lost := lost p @ es\<rparr>
            | Some i \<Rightarrow> p'\<lparr>agents := (agents p)[i := restore_envelopes es (agents p ! i)]\<rparr>)
      else p)"

section \<open>The machine\<close>

datatype 'x pool_event =
    Register ustring ustring ustring "'x template" agent_kind "'x context_item list" "update list" live_status ustring "json option"
  | CompleteTurn nat task_identity "'x context_item list" ustring run_status usage nat "json option"
  | PushUpdate nat task_identity ustring ustring
  | GuardDropped nat task_identity bool
  | RequestStop nat stop_origin
  | StopTask nat stop_origin bool
  | TimerFired nat
  | RecordCall nat ustring ustring
  | TakeUsage nat
  | RestoreUsage nat usage
  | ClaimResults nat
  | StartWait "nat list" wait_mode bool
  | WaitStep nat bool bool bool
  | RestoreOwner nat ustring
  | Retire
  | RetireNext
  | CancelAgent nat
  | ForceSettle nat

fun pool_step :: "'x host \<Rightarrow> 'x pool \<Rightarrow> 'x pool_event \<Rightarrow> 'x pool" where
  "pool_step host p (Register name lbl tsk t k ctxs ups st call out) =
     snd (register host name lbl tsk t k ctxs ups st call out p)"
| "pool_step host p (CompleteTurn i inc new final r used dur out) =
     on_agent i (complete_turn inc new final (reported r) used dur out) p"
| "pool_step host p (PushUpdate i inc content stamp) = on_agent i (push_update inc content stamp) p"
| "pool_step host p (GuardDropped i inc panicking) = on_agent i (guard_dropped (panic_text host) inc panicking) p"
| "pool_step host p (RequestStop i origin) = on_agent i (request_stop origin) p"
| "pool_step host p (StopTask i origin started) = stop_task host i origin started p"
| "pool_step host p (TimerFired k) = timer_fired host k p"
| "pool_step host p (RecordCall i call ctx) = on_agent i (record_call_context call ctx) p"
| "pool_step host p (TakeUsage i) = bill i p"
| "pool_step host p (RestoreUsage i u) = on_agent i (restore_lifetime_usage u) p"
| "pool_step host p (ClaimResults i) = claim_results i p"
| "pool_step host p (StartWait is mode others) = start_wait is mode others p"
| "pool_step host p (WaitStep k past beat settled) = wait_step k past beat settled p"
| "pool_step host p (RestoreOwner k name) = restore_owner k name p"
| "pool_step host p Retire = retire p"
| "pool_step host p RetireNext = retire_next p"
| "pool_step host p (CancelAgent i) = cancel_agent i p"
| "pool_step host p (ForceSettle i) = force_settle host i p"

definition pool_run :: "'x host \<Rightarrow> 'x pool \<Rightarrow> 'x pool_event list \<Rightarrow> 'x pool" where
  "pool_run host = foldl (pool_step host)"

end
