(* ===== verification/AgentBooks.thy ===== *)
theory AgentBooks
  imports AgentSteps "HOL-Library.Multiset"
begin

text \<open>
  What every step of the pool (\<^verbatim>\<open>src/agents.rs\<close>) keeps: the roster, the envelopes and the observer's calls.
\<close>

section \<open>What a report does to an agent\<close>

text \<open>\<open>b\<close> is \<open>a\<close> after an operation that told the observer \<open>n\<close>.\<close>

definition results :: "'x agent \<Rightarrow> run_status list" where
  "results a = List.map_filter (\<lambda>e. case env_kind e of Result r \<Rightarrow> Some r | Update \<Rightarrow> None) (sent a)"

definition grows :: "'x agent \<Rightarrow> 'x agent \<Rightarrow> run_status option \<Rightarrow> bool" where
  "grows a b n \<longleftrightarrow>
     agent_name b = agent_name a \<and> incumbent b = incumbent a \<and> stop_timer b = stop_timer a \<and> (cancel a \<longrightarrow> cancel b) \<and>
     (\<exists>es. outbox b = outbox a @ es \<and> sent b = sent a @ es \<and>
        (\<forall>e \<in> set es. env_agent e = agent_name a \<and> env_identity e = incumbent a)) \<and>
     (status a \<noteq> Running \<longrightarrow> sent b = sent a \<and> status b = status a) \<and>
     (status b = Running \<longrightarrow> n = None) \<and>
     results b = results a @ (case n of None \<Rightarrow> [] | Some r \<Rightarrow> [r])"

lemma grows_refl: "agent_name b = agent_name a \<Longrightarrow> incumbent b = incumbent a \<Longrightarrow> stop_timer b = stop_timer a \<Longrightarrow>
    (cancel a \<longrightarrow> cancel b) \<Longrightarrow> outbox b = outbox a \<Longrightarrow> sent b = sent a \<Longrightarrow>
    (status a \<noteq> Running \<longrightarrow> status b = status a) \<Longrightarrow> grows a b None"
  by (simp add: grows_def results_def)

lemma results_push [simp]:
  "results (push_envelope k text m out a) = results a @ (case k of Result r \<Rightarrow> [r] | Update \<Rightarrow> [])"
  by (simp add: results_def push_envelope_def Let_def map_filter_def split: envelope_kind.splits)

lemma results_same: "sent b = sent a \<Longrightarrow> results b = results a"
  by (simp add: results_def)

lemma grows_settle:
  assumes "status a = Running" and "agent_name a' = agent_name a" and "incumbent a' = incumbent a"
    and "stop_timer a' = stop_timer a" and "cancel a' = cancel a" and "outbox a' = outbox a" and "sent a' = sent a"
    and "st \<noteq> Running"
  shows "grows a (settle st text m out a') (Some (persisted st))"
proof -
  have "results (a'\<lparr>status := st, result_text := text\<rparr>) = results a" using assms by (simp add: results_def)
  with assms show ?thesis
    by (simp add: grows_def settle_def) (simp add: push_envelope_def Let_def)
qed

lemma charge_fields [simp]:
  "agent_name (charge u a) = agent_name a" "incumbent (charge u a) = incumbent a" "stop_timer (charge u a) = stop_timer a"
  "cancel (charge u a) = cancel a" "outbox (charge u a) = outbox a" "sent (charge u a) = sent a"
  "status (charge u a) = status a" "contexts (charge u a) = contexts a"
  by (simp_all add: charge_def)

lemma grows_complete_turn:
  assumes "st \<noteq> Running"
  shows "case complete_turn inc new final st used dur out a of (b, n) \<Rightarrow> grows a b n"
proof (cases "incumbent a = inc \<and> status a = Running")
  case True
  with assms show ?thesis by (simp add: complete_turn_def Let_def grows_settle)
next
  case False
  then show ?thesis by (auto simp: complete_turn_def Let_def intro!: grows_refl)
qed

lemma grows_push_update: "case push_update inc content stamp a of (b, n) \<Rightarrow> grows a b n"
  by (auto simp: push_update_def push_envelope_def Let_def grows_def results_def map_filter_def)

lemma grows_settle_cancelled: "case settle_cancelled reason expected a of (b, n) \<Rightarrow> grows a b n"
proof -
  have "grows a (settle Stopped tx m out a) (Some RunStopped)" if "status a = Running" for tx m out
    using grows_settle [of a a Stopped tx m out] that by simp
  then show ?thesis by (simp add: settle_cancelled_def grows_refl split: option.splits)
qed

lemma grows_guard_dropped: "case guard_dropped reason inc panicking a of (b, n) \<Rightarrow> grows a b n"
proof -
  have "grows a (settle Failed tx m out a) (Some RunFailed)" if "status a = Running" for tx m out
    using grows_settle [of a a Failed tx m out] that by simp
  then show ?thesis by (auto simp: guard_dropped_def intro!: grows_refl)
qed

lemma grows_request_stop: "case request_stop origin a of (b, n) \<Rightarrow> grows a b n"
  by (simp add: request_stop_def raise_flags_def grows_refl)

lemma grows_record_call: "case record_call_context call ctx a of (b, n) \<Rightarrow> grows a b n"
  by (simp add: record_call_context_def grows_refl)

lemma grows_take_usage: "grows a (snd (take_usage a)) None"
  by (simp add: take_usage_def grows_refl)

lemma grows_restore_usage: "case restore_lifetime_usage u a of (b, n) \<Rightarrow> grows a b n"
  by (simp add: restore_lifetime_usage_def grows_refl)

lemma grows_cancel: "grows a (a\<lparr>cancel := True\<rparr>) None"
  by (simp add: grows_refl)

definition reports :: "'x agent_op \<Rightarrow> bool" where
  "reports f \<longleftrightarrow> (\<forall>a. case f a of (b, n) \<Rightarrow> grows a b n)"

named_theorems reporting \<open>the operations that are one agent's own business\<close>

lemma reports_all [reporting]:
  "reports (complete_turn inc new final (reported r) used dur out)"
  "reports (push_update inc content stamp)"
  "reports (settle_cancelled reason expected)"
  "reports (guard_dropped worry inc panicking)"
  "reports (request_stop origin)"
  "reports (record_call_context call ctx)"
  "reports (restore_lifetime_usage u)"
  "reports (\<lambda>a. (snd (take_usage a), None))"
  "reports (\<lambda>a. (a\<lparr>cancel := True\<rparr>, None))"
  unfolding reports_def
  by (simp_all add: grows_complete_turn grows_push_update grows_settle_cancelled grows_guard_dropped grows_request_stop
      grows_record_call grows_restore_usage grows_take_usage grows_cancel)

lemma on_agent_reports:
  assumes "reports f" and "i < length (agents p)"
  obtains b n where "grows (agents p ! i) b n"
    and "on_agent i f p = p\<lparr>agents := (agents p)[i := b],
      notified := notified p @ (case n of None \<Rightarrow> [] | Some r \<Rightarrow> [(agent_name b, r)])\<rparr>"
  using assms unfolding reports_def on_agent_def by (cases "f (agents p ! i)") (force dest: spec [of _ "agents p ! i"])

section \<open>The roster\<close>

text \<open>\<open>b\<close> is a later state of the agent \<open>a\<close>.\<close>

definition later :: "'x agent \<Rightarrow> 'x agent \<Rightarrow> bool" where
  "later a b \<longleftrightarrow> agent_name b = agent_name a \<and> incumbent b = incumbent a \<and> (cancel a \<longrightarrow> cancel b) \<and>
     (status a \<noteq> Running \<longrightarrow> status b = status a \<and> sent b = sent a)"

lemma later_refl [simp]: "later a a"
  by (simp add: later_def)

lemma later_trans: "later a b \<Longrightarrow> later b c \<Longrightarrow> later a c"
  by (auto simp: later_def)

lemma grows_later: "grows a b n \<Longrightarrow> later a b"
  by (simp add: grows_def later_def)

definition pool_later :: "'x pool \<Rightarrow> 'x pool \<Rightarrow> bool" where
  "pool_later p q \<longleftrightarrow> length (agents p) \<le> length (agents q) \<and> (\<forall>i < length (agents p). later (agents p ! i) (agents q ! i))"

lemma pool_later_refl [simp]: "pool_later p p"
  by (simp add: pool_later_def)

lemma pool_later_trans: "pool_later p q \<Longrightarrow> pool_later q r \<Longrightarrow> pool_later p r"
  unfolding pool_later_def by (meson later_trans less_le_trans order_trans)

lemma pool_later_same: "agents q = agents p \<Longrightarrow> pool_later p q"
  by (simp add: pool_later_def)

lemma pool_later_update:
  "agents q = (agents p)[i := b] \<Longrightarrow> (i < length (agents p) \<Longrightarrow> later (agents p ! i) b) \<Longrightarrow> pool_later p q"
  by (cases "i < length (agents p)") (auto simp: pool_later_def nth_list_update)

lemma pool_later_on_agent: "reports f \<Longrightarrow> pool_later p (on_agent i f p)"
proof (cases "i < length (agents p)")
  case True
  assume "reports f"
  then show ?thesis using True
    by (rule on_agent_reports) (auto intro!: pool_later_update dest: grows_later)
qed (simp add: on_agent_def)

lemma stop_task_begin_later: "later a (fst (stop_task_begin origin a))"
  by (simp add: stop_task_begin_def raise_flags_def Let_def later_def)

lemma set_wait_agents [simp]: "agents (set_wait k w p) = agents p"
  by (simp add: set_wait_def)

lemma hand_over_agents [simp]: "agents (hand_over k w t p) = agents p" "agents (pool_wait_over k w t p) = agents p"
  "agents (drained k w p) = agents p"
  by (simp_all add: hand_over_def pool_wait_over_def drained_def Let_def split: wait_mode.splits)

lemma drain_into_agents: "agents (drain_into k w i p) = (agents p)[i := (agents p ! i)\<lparr>outbox := []\<rparr>]"
  by (simp add: drain_into_def drain_outbox_def Let_def)

lemma pool_later_wait_step: "pool_later p (wait_step k past beat settled p)"
proof -
  have "later (agents p ! i) ((agents p ! i)\<lparr>outbox := []\<rparr>)" for i by (simp add: later_def)
  then have "pool_later p (drain_into k w i p)" for w i
    by (rule pool_later_update [OF drain_into_agents])
  then show ?thesis
    by (auto simp: wait_step_def Let_def intro: pool_later_same split: wait_phase.splits)
qed

lemma pool_later_restore: "pool_later p (restore_owner k name p)"
proof -
  have "later (agents p ! i) (restore_envelopes es (agents p ! i))" for i es
    by (simp add: later_def restore_envelopes_def)
  then show ?thesis
    by (auto simp: restore_owner_def Let_def intro: pool_later_same pool_later_update split: option.splits)
qed

lemma pool_later_step: "pool_later p (pool_step host p e)"
proof (cases e)
  case (Register name lbl tsk t k ctxs ups st call out)
  then show ?thesis by (auto simp: register_def pool_later_def Let_def nth_append split: sum.splits)
next
  case (StopTask i origin started)
  let ?p = "p\<lparr>agents := (agents p)[i := fst (stop_task_begin origin (agents p ! i))]\<rparr>"
  have "pool_later p ?p" by (rule pool_later_update [OF _ stop_task_begin_later]) simp
  moreover have "pool_later ?p (on_agent i (settle_cancelled r t) ?p)" for r t
    by (rule pool_later_on_agent) (rule reporting)
  moreover have "pool_later ?p (?p\<lparr>timers := ts\<rparr>)" for ts by (rule pool_later_same) simp
  ultimately show ?thesis
    using StopTask by (auto simp: stop_task_def Let_def split_beta split: option.splits intro: pool_later_trans)
next
  case (ClaimResults i)
  have "later (agents p ! i) (snd (take_undelivered_results (agents p ! i)))"
    by (simp add: later_def take_undelivered_results_def)
  with ClaimResults show ?thesis by (auto simp: claim_results_def Let_def split_beta intro: pool_later_update)
next
  case (TimerFired k)
  then show ?thesis by (auto simp: timer_fired_def split_beta intro: pool_later_on_agent reporting)
next
  case RetireNext
  have "pool_later p (cancel_agent i p)" for i unfolding cancel_agent_def by (rule pool_later_on_agent) (rule reporting)
  moreover have "pool_later (cancel_agent i p) ((cancel_agent i p)\<lparr>retiring := is\<rparr>)" for i "is" by (rule pool_later_same) simp
  ultimately show ?thesis using RetireNext by (auto simp: retire_next_def split: list.splits intro: pool_later_trans)
qed (auto simp: start_wait_def retire_def cancel_agent_def force_settle_def bill_def
    intro: pool_later_same pool_later_on_agent pool_later_wait_step pool_later_restore reporting)

lemma pool_later_run: "pool_later p (pool_run host p es)"
  unfolding pool_run_def by (induction es arbitrary: p) (auto intro: pool_later_trans pool_later_step)

text \<open>
  Names are distinct and well formed, no more agents run than the limit allows, and of a retired pool every
  agent is cancelled that the retiring call has passed.
\<close>

definition roster_ok :: "'x pool \<Rightarrow> bool" where
  "roster_ok p \<longleftrightarrow>
     distinct (map agent_name (agents p)) \<and>
     (\<forall>name \<in> set (map agent_name (agents p)). validate_agent_name name = Inr ()) \<and>
     (\<forall>n. max_live p = Some n \<longrightarrow> running_count (agents p) \<le> n) \<and>
     (retired p \<longrightarrow> (\<forall>i < length (agents p). cancel (agents p ! i) \<or> i \<in> set (retiring p)))"

definition same_frame :: "'x pool \<Rightarrow> 'x pool \<Rightarrow> bool" where
  "same_frame p q \<longleftrightarrow>
     length (agents q) = length (agents p) \<and> max_live q = max_live p \<and> retired q = retired p \<and> retiring q = retiring p"

lemma running_count_card: "running_count as = card {i. i < length as \<and> status (as ! i) = Running}"
  by (simp add: running_count_def length_filter_conv_card)

lemma running_count_later:
  assumes "pool_later p q" and "length (agents q) = length (agents p)"
  shows "running_count (agents q) \<le> running_count (agents p)"
  unfolding running_count_card
proof (rule card_mono)
  show "{i. i < length (agents q) \<and> status (agents q ! i) = Running}
      \<subseteq> {i. i < length (agents p) \<and> status (agents p ! i) = Running}"
    using assms by (auto simp: pool_later_def later_def)
qed simp

lemma names_later:
  assumes "pool_later p q" and "length (agents q) = length (agents p)"
  shows "map agent_name (agents q) = map agent_name (agents p)"
  using assms by (intro nth_equalityI) (auto simp: pool_later_def later_def)

lemma roster_later:
  assumes ok: "roster_ok p" and l: "pool_later p q" and f: "same_frame p q"
  shows "roster_ok q"
proof -
  have len: "length (agents q) = length (agents p)" using f by (simp add: same_frame_def)
  have names: "map agent_name (agents q) = map agent_name (agents p)" by (rule names_later [OF l len])
  have "running_count (agents q) \<le> n" if "max_live q = Some n" for n
    using running_count_later [OF l len] ok f that by (auto simp: roster_ok_def same_frame_def intro: order_trans)
  moreover have "cancel (agents q ! i) \<or> i \<in> set (retiring q)" if "retired q" "i < length (agents q)" for i
    using ok f l that by (auto simp: roster_ok_def same_frame_def pool_later_def later_def)
  ultimately show ?thesis using names ok by (simp add: roster_ok_def)
qed

lemma frame_on_agent [simp]: "same_frame p (on_agent i f p)"
  by (simp add: same_frame_def on_agent_def split_beta)

lemma same_frame_trans: "same_frame p q \<Longrightarrow> same_frame q r \<Longrightarrow> same_frame p r"
  by (simp add: same_frame_def)

lemma frame_stop: "same_frame p (stop_task host i origin started p)"
  by (auto simp: stop_task_def Let_def split_beta same_frame_def on_agent_def split: option.splits)

lemma frame_wait_step: "same_frame p (wait_step k past beat settled p)"
  by (auto simp: wait_step_def Let_def same_frame_def set_wait_def hand_over_def pool_wait_over_def drained_def
      drain_into_def drain_outbox_def split: wait_phase.splits wait_mode.splits)

lemma frame_step:
  assumes "\<And>name lbl tsk t kd ctxs ups st call out. e \<noteq> Register name lbl tsk t kd ctxs ups st call out"
    and "e \<noteq> Retire" and "e \<noteq> RetireNext"
  shows "same_frame p (pool_step host p e)"
proof (cases e)
  case (StopTask i origin started)
  then show ?thesis by (simp add: frame_stop)
next
  case (WaitStep k past beat settled)
  then show ?thesis by (simp add: frame_wait_step)
next
  case (RestoreOwner k name)
  then show ?thesis by (simp add: restore_owner_def same_frame_def Let_def set_wait_def split: option.splits)
qed (use assms in \<open>auto simp: timer_fired_def bill_def claim_results_def take_undelivered_results_def start_wait_def
    cancel_agent_def force_settle_def Let_def split_beta same_frame_def on_agent_def\<close>)

lemma register_cases:
  obtains (refused) r rs where "register host name lbl tsk t k ctxs ups st call out p = (Inl r, p\<lparr>reserved := rs\<rparr>)"
  | (added) rs where
      "register host name lbl tsk t k ctxs ups st call out p =
        (Inr (length (agents p)), p\<lparr>reserved := rs, agents := agents p @ [new_agent host name lbl tsk t k ctxs ups st call out]\<rparr>)"
      and "\<not> retired p" and "validate_agent_name name = Inr ()" and "name \<notin> agent_name ` set (agents p)"
      and "\<And>n. st = Running \<Longrightarrow> max_live p = Some n \<Longrightarrow> running_count (agents p) < n"
proof -
  let ?r = "register host name lbl tsk t k ctxs ups st call out p"
  have stays: thesis if "?r = (Inl r, p)" for r
    by (rule refused [of r "reserved p"]) (simp add: that)
  show thesis
  proof (cases "validate_agent_name name")
    case (Inl r)
    then show thesis by (intro stays [of r]) (simp add: register_def)
  next
    case name: (Inr u)
    show thesis
    proof (cases "validate_child_memory_mode t")
      case (Inl r)
      with name show thesis by (intro stays [of r]) (simp add: register_def)
    next
      case mem: (Inr u')
      let ?rs = "reserve_subagent_execution_mode (sha256_hex host) (conversation t) name
        (mode_payload host (conversation t) name k t) (reserved p)"
      show thesis
      proof (cases "retired p")
        case True
        with name mem show thesis by (intro stays [of PoolRetired]) (simp add: register_def)
      next
        case live: False
        show thesis
        proof (cases ?rs)
          case (Inl r)
          with name mem live show thesis by (intro stays [of r]) (simp add: register_def)
        next
          case rs: (Inr rs)
          show thesis
          proof (cases "validate_registration_availability (agents p) name st (max_live p)")
            case (Inl r)
            with name mem live rs show thesis by (intro refused [of r rs]) (simp add: register_def)
          next
            case av: (Inr v)
            then have "name \<notin> agent_name ` set (agents p)"
              and "\<And>n. st = Running \<Longrightarrow> max_live p = Some n \<Longrightarrow> running_count (agents p) < n"
              by (auto simp: validate_registration_availability_def list_ex_iff split: if_splits option.splits)
            with name mem live rs av show thesis by (intro added [of rs]) (simp_all add: register_def)
          qed
        qed
      qed
    qed
  qed
qed

lemma roster_register: "roster_ok p \<Longrightarrow> roster_ok (snd (register host name lbl tsk t k ctxs ups st call out p))"
proof (cases rule: register_cases [of host name lbl tsk t k ctxs ups st call out p])
  case (refused r rs)
  assume "roster_ok p"
  with refused show ?thesis by (simp add: roster_ok_def)
next
  case (added rs)
  assume "roster_ok p"
  with added show ?thesis
    by (auto simp: roster_ok_def new_agent_def running_count_def less_Suc_eq_le Suc_le_eq)
qed

lemma roster_retire_next: "roster_ok p \<Longrightarrow> roster_ok (retire_next p)"
proof (cases "retiring p")
  case (Cons i "is")
  assume ok: "roster_ok p"
  let ?q = "cancel_agent i p"
  have l: "pool_later p ?q" unfolding cancel_agent_def by (rule pool_later_on_agent) (rule reporting)
  have q: "roster_ok ?q" by (rule roster_later [OF ok l]) (simp add: cancel_agent_def)
  have "cancel (agents ?q ! i)" if "i < length (agents ?q)" using that by (simp add: cancel_agent_def on_agent_def split: if_splits)
  with q have "retired ?q \<longrightarrow> (\<forall>j < length (agents ?q). cancel (agents ?q ! j) \<or> j \<in> set is)"
    using Cons by (auto simp: roster_ok_def cancel_agent_def on_agent_def split_beta split: if_splits)
  with q Cons show ?thesis by (simp add: retire_next_def roster_ok_def)
qed (simp add: retire_next_def)

lemma roster_step: "roster_ok p \<Longrightarrow> roster_ok (pool_step host p e)"
proof (cases e)
  case Retire
  assume "roster_ok p"
  with Retire show ?thesis by (simp add: roster_ok_def retire_def)
next
  case RetireNext
  assume "roster_ok p"
  with RetireNext show ?thesis by (simp add: roster_retire_next)
next
  case (Register name lbl tsk t k ctxs ups st call out)
  assume "roster_ok p"
  with Register show ?thesis by (simp add: roster_register)
qed (use roster_later [OF _ pool_later_step frame_step] in \<open>blast+\<close>)

end
