(* ===== verification/AgentMail.thy ===== *)
theory AgentMail
  imports AgentBooks
begin

text \<open>
  Where an envelope can be (\<^verbatim>\<open>src/agents.rs\<close>): in the outbox of its agent, in the hands of a wait, handed to
  the parent, or lost. The invariant \<open>mail_ok\<close> counts them all.
\<close>

section \<open>The books on envelopes\<close>

definition hold :: "waiter \<Rightarrow> envelope list" where
  "hold w = fresh w @ buffered w"

definition held :: "'x pool \<Rightarrow> envelope list" where
  "held p = concat (map hold (waits p))"

definition away :: "'x pool \<Rightarrow> envelope multiset" where
  "away p = mset (held p) + mset (delivered p) + mset (lost p)"

definition agent_ok :: "'x agent \<Rightarrow> bool" where
  "agent_ok a \<longleftrightarrow>
     (\<forall>e \<in> set (sent a). env_agent e = agent_name a \<and> env_identity e = incumbent a) \<and>
     length (results a) \<le> 1 \<and> (status a = Running \<longrightarrow> results a = [])"

definition balanced :: "'x pool \<Rightarrow> 'x agent \<Rightarrow> bool" where
  "balanced p a \<longleftrightarrow>
     mset (sent a) = mset (outbox a) + filter_mset (\<lambda>e. env_agent e = agent_name a) (away p) \<and>
     map snd (filter (\<lambda>x. fst x = agent_name a) (notified p)) = results a"

definition mail_ok :: "'x pool \<Rightarrow> bool" where
  "mail_ok p \<longleftrightarrow>
     distinct (map agent_name (agents p)) \<and>
     (\<forall>a \<in> set (agents p). agent_ok a \<and> balanced p a) \<and>
     env_agent ` set_mset (away p) \<union> fst ` set (notified p) \<subseteq> agent_name ` set (agents p)"

lemma agent_ok_grows:
  assumes "agent_ok a" and "grows a b n"
  shows "agent_ok b"
proof -
  have "results b = results a" if "status a \<noteq> Running" using assms that by (simp add: grows_def results_def)
  with assms show ?thesis by (auto simp: agent_ok_def grows_def split: option.splits)
qed

lemma filter_mset_other: "(\<And>e. e \<in># X \<Longrightarrow> \<not> P e) \<Longrightarrow> filter_mset P X = {#}"
  by (induction X) auto

lemma filter_mset_all: "(\<And>e. e \<in># X \<Longrightarrow> P e) \<Longrightarrow> filter_mset P X = X"
  by (simp add: filter_mset_eq_conv)

lemma mail_same: "mail_ok p \<Longrightarrow> agents q = agents p \<Longrightarrow> away q = away p \<Longrightarrow> notified q = notified p \<Longrightarrow> mail_ok q"
  by (simp add: mail_ok_def balanced_def)

lemma names_grow: "A' \<subseteq> A \<union> {x} \<Longrightarrow> B' \<subseteq> B \<union> {x} \<Longrightarrow> A \<union> B \<subseteq> N \<Longrightarrow> N' = N \<Longrightarrow> x \<in> N \<Longrightarrow> A' \<union> B' \<subseteq> N'"
  by blast

text \<open>One agent changes: \<open>Y\<close> leaves its outbox for the outside, \<open>X\<close> comes back, \<open>rs\<close> is told to the observer.\<close>

lemma mail_change:
  assumes ok: "mail_ok p" and i: "i < length (agents p)" and q: "agents q = (agents p)[i := b]"
    and b: "agent_name b = agent_name (agents p ! i)" "agent_ok b"
    and moved: "away q + X = away p + Y"
    and own: "\<And>e. e \<in># X + Y \<Longrightarrow> env_agent e = agent_name (agents p ! i)"
    and sum: "mset (sent b) + mset (outbox (agents p ! i)) + X = mset (sent (agents p ! i)) + mset (outbox b) + Y"
    and told: "notified q = notified p @ map (Pair (agent_name b)) rs" "results b = results (agents p ! i) @ rs"
  shows "mail_ok q"
proof -
  let ?a = "agents p ! i"
  have ina: "?a \<in> set (agents p)" using i by simp
  have names: "map agent_name (agents q) = map agent_name (agents p)"
    using q b(1) i by (simp add: map_update list_update_same_conv)
  have ownX: "\<And>e. e \<in># X \<Longrightarrow> env_agent e = agent_name ?a" and ownY: "\<And>e. e \<in># Y \<Longrightarrow> env_agent e = agent_name ?a"
    using own by auto
  have bala: "balanced p ?a" using ok ina by (simp add: mail_ok_def)
  let ?P = "\<lambda>e. env_agent e = agent_name ?a"
  have f: "filter_mset ?P (away q) + X = filter_mset ?P (away p) + Y"
    using arg_cong [OF moved, of "filter_mset ?P"] ownX ownY by (simp add: filter_mset_all)
  have "mset (sent b) + X + mset (outbox ?a) = mset (outbox b) + (filter_mset ?P (away p) + Y) + mset (outbox ?a)"
    using sum bala by (simp add: balanced_def ac_simps)
  then have "mset (sent b) + X = mset (outbox b) + (filter_mset ?P (away q) + X)"
    unfolding f by (simp only: add_right_cancel)
  then have "mset (sent b) = mset (outbox b) + filter_mset ?P (away q)" by (simp only: add.assoc [symmetric] add_right_cancel)
  moreover have "map snd (filter (\<lambda>x. fst x = agent_name b) (notified q)) = results b"
    using bala told b(1) by (simp add: balanced_def filter_map comp_def)
  ultimately have balb: "balanced q b" using b(1) by (simp add: balanced_def)
  have other: "balanced q c" if c: "c \<in> set (agents p)" "agent_name c \<noteq> agent_name ?a" for c
  proof -
    let ?Q = "\<lambda>e. env_agent e = agent_name c"
    have X: "filter_mset ?Q X = {#}" by (rule filter_mset_other) (use ownX c(2) in force)
    have Y: "filter_mset ?Q Y = {#}" by (rule filter_mset_other) (use ownY c(2) in force)
    have "filter_mset ?Q (away q) = filter_mset ?Q (away p)"
      using arg_cong [OF moved, of "filter_mset ?Q"] unfolding filter_union_mset X Y by simp
    moreover have "balanced p c" using ok c(1) by (simp add: mail_ok_def)
    ultimately show ?thesis using told(1) b(1) c(2) by (simp add: balanced_def filter_map comp_def)
  qed
  have all: "agent_ok c \<and> balanced q c" if "c \<in> set (agents q)" for c
  proof -
    from that q obtain j where j: "j < length (agents p)" "c = (agents p)[i := b] ! j" by (auto simp: in_set_conv_nth)
    show ?thesis
    proof (cases "j = i")
      case True
      with j b balb show ?thesis by simp
    next
      case False
      with j have c: "c = agents p ! j" "c \<in> set (agents p)" by simp_all
      have "agent_name c \<noteq> agent_name ?a"
        using ok False j i c unfolding mail_ok_def by (metis length_map nth_eq_iff_index_eq nth_map)
      with other c ok show ?thesis by (simp add: mail_ok_def)
    qed
  qed
  have "set_mset (away q) \<subseteq> set_mset (away p + Y)" by (metis moved set_mset_union sup_ge1)
  then have "env_agent ` set_mset (away q) \<subseteq> env_agent ` set_mset (away p) \<union> {agent_name ?a}"
    using ownY by auto
  moreover have "fst ` set (notified q) \<subseteq> fst ` set (notified p) \<union> {agent_name ?a}" using told(1) b(1) by auto
  moreover have "env_agent ` set_mset (away p) \<union> fst ` set (notified p) \<subseteq> agent_name ` set (agents p)"
    using ok unfolding mail_ok_def by simp
  moreover have "agent_name ` set (agents q) = agent_name ` set (agents p)" using arg_cong [OF names, of set] by simp
  moreover have "agent_name ?a \<in> agent_name ` set (agents p)" using ina by simp
  ultimately have "env_agent ` set_mset (away q) \<union> fst ` set (notified q) \<subseteq> agent_name ` set (agents q)"
    by (rule names_grow)
  moreover have "distinct (map agent_name (agents q))" unfolding names using ok by (simp add: mail_ok_def)
  ultimately show ?thesis using all unfolding mail_ok_def by blast
qed

lemma held_set_wait:
  assumes "k < length (waits p)"
  shows "mset (held (set_wait k w p)) + mset (hold (waits p ! k)) = mset (held p) + mset (hold w)"
proof -
  have "mset (concat (map hold (ws[k := w]))) + mset (hold (ws ! k)) = mset (concat (map hold ws)) + mset (hold w)"
    if "k < length ws" for ws
    using that
  proof (induction ws arbitrary: k)
    case (Cons v ws)
    then show ?case by (cases k) (auto simp: ac_simps)
  qed simp
  from this [OF assms] show ?thesis by (simp add: held_def set_wait_def)
qed

lemma held_leaves:
  assumes "k < length (waits p)" and "mset (hold (waits p ! k)) = mset (hold w) + d"
  shows "mset (held (set_wait k w p)) + d = mset (held p)"
proof -
  have "mset (held (set_wait k w p)) + d + mset (hold w) = mset (held p) + mset (hold w)"
    using held_set_wait [OF assms(1), of w] assms(2) by (simp only: ac_simps)
  then show ?thesis by (simp only: add_right_cancel)
qed

lemma mail_on_agent:
  assumes ok: "mail_ok p" and f: "reports f"
  shows "mail_ok (on_agent i f p)"
proof (cases "i < length (agents p)")
  case True
  from on_agent_reports [OF f True] obtain b n where g: "grows (agents p ! i) b n"
    and q: "on_agent i f p = p\<lparr>agents := (agents p)[i := b],
      notified := notified p @ (case n of None \<Rightarrow> [] | Some r \<Rightarrow> [(agent_name b, r)])\<rparr>" by blast
  have "agent_ok b" using ok True agent_ok_grows [OF _ g] by (simp add: mail_ok_def)
  then show ?thesis
    unfolding q
    by (intro mail_change [OF ok True, where b = b and X = "{#}" and Y = "{#}" and rs = "case n of None \<Rightarrow> [] | Some r \<Rightarrow> [r]"])
      (use g in \<open>auto simp: away_def held_def grows_def split: option.splits\<close>)
next
  case False
  with ok show ?thesis by (simp add: on_agent_def)
qed

lemma set_wait_fields [simp]:
  "delivered (set_wait k w p) = delivered p" "lost (set_wait k w p) = lost p" "notified (set_wait k w p) = notified p"
  by (simp_all add: set_wait_def)

text \<open>A wait that changes nothing but its place.\<close>

lemma mail_set_wait:
  assumes "mail_ok p" and "k < length (waits p)" and "mset (hold w) = mset (hold (waits p ! k))"
  shows "mail_ok (set_wait k w p)"
  by (rule mail_same [OF assms(1)]) (use held_set_wait [OF assms(2), of w] assms(3) in \<open>simp_all add: away_def\<close>)

lemma mail_hand_over:
  assumes "mail_ok p" and "k < length (waits p)" and "mset (hold w) = mset (hold (waits p ! k))"
  shows "mail_ok (hand_over k w t p)"
proof (rule mail_same [OF assms(1)])
  let ?w = "w\<lparr>phase := Done t, handed := buffered w, buffered := []\<rparr>"
  have "mset (held (set_wait k ?w p)) + mset (buffered w) = mset (held p)"
    by (rule held_leaves [OF assms(2)]) (use assms(3) in \<open>simp add: hold_def\<close>)
  then show "away (hand_over k w t p) = away p"
    unfolding hand_over_def away_def by (simp add: held_def ac_simps)
qed (simp_all add: hand_over_def)

lemma mail_pool_wait_over:
  assumes "mail_ok p" and "k < length (waits p)" and "mset (hold w) = mset (hold (waits p ! k))"
  shows "mail_ok (pool_wait_over k w t p)"
  using assms by (simp add: pool_wait_over_def mail_hand_over mail_set_wait hold_def)

lemma mail_drained:
  assumes "mail_ok p" and "k < length (waits p)" and "w = waits p ! k"
  shows "mail_ok (drained k w p)"
  using assms
  by (auto simp: drained_def Let_def hold_def split: wait_mode.splits intro!: mail_set_wait mail_pool_wait_over)

text \<open>A drain moves the outbox of one agent into the hands of the wait.\<close>

lemma mail_drain_into:
  assumes ok: "mail_ok p" and k: "k < length (waits p)" and i: "i < length (agents p)"
    and w: "mset (hold (w (outbox (agents p ! i)))) = mset (hold (waits p ! k)) + mset (outbox (agents p ! i))"
  shows "mail_ok (drain_into k w i p)"
proof (rule mail_change [OF ok i drain_into_agents, where X = "{#}" and Y = "mset (outbox (agents p ! i))" and rs = "[]"])
  have a: "agent_ok (agents p ! i)" "balanced p (agents p ! i)" using ok i by (simp_all add: mail_ok_def)
  then show "agent_ok ((agents p ! i)\<lparr>outbox := []\<rparr>)" by (simp add: agent_ok_def results_def)
  have "mset (held (drain_into k w i p)) + mset (hold (waits p ! k)) =
      mset (held p) + (mset (hold (waits p ! k)) + mset (outbox (agents p ! i)))"
    using held_set_wait [of k "p\<lparr>agents := (agents p)[i := (agents p ! i)\<lparr>outbox := []\<rparr>]\<rparr>"] k w
    by (simp add: drain_into_def drain_outbox_def held_def)
  then have "mset (held (drain_into k w i p)) = mset (held p) + mset (outbox (agents p ! i))" by simp
  then show "away (drain_into k w i p) + {#} = away p + mset (outbox (agents p ! i))"
    by (simp add: away_def drain_into_def drain_outbox_def Let_def ac_simps)
  show "env_agent e = agent_name (agents p ! i)" if "e \<in># {#} + mset (outbox (agents p ! i))" for e
  proof -
    from that a(2) have "e \<in># mset (sent (agents p ! i))" by (simp add: balanced_def)
    with a(1) show ?thesis by (simp add: agent_ok_def)
  qed
qed (simp_all add: drain_into_def drain_outbox_def Let_def results_def)

text \<open>Giving up on the other tasks loses what the pool's wait had collected.\<close>

lemma mail_give_up:
  assumes "mail_ok p" and "k < length (waits p)" and "w = waits p ! k"
  shows "mail_ok ((set_wait k (w\<lparr>phase := Aborted, buffered := []\<rparr>) p)\<lparr>lost := lost p @ buffered w\<rparr>)"
proof (rule mail_same [OF assms(1)])
  let ?w = "w\<lparr>phase := Aborted, buffered := []\<rparr>"
  have "mset (held (set_wait k ?w p)) + mset (buffered w) = mset (held p)"
    by (rule held_leaves [OF assms(2)]) (simp add: assms(3) hold_def)
  then show "away ((set_wait k ?w p)\<lparr>lost := lost p @ buffered w\<rparr>) = away p"
    unfolding away_def by (simp add: held_def ac_simps)
qed simp_all

definition watched_ok :: "'x pool \<Rightarrow> bool" where
  "watched_ok p \<longleftrightarrow> (\<forall>w \<in> set (waits p). \<forall>i \<in> set (watched w). i < length (agents p))"

lemma mail_wait_step:
  assumes ok: "mail_ok p" and wo: "watched_ok p"
  shows "mail_ok (wait_step k past beat settled p)"
proof (cases "k < length (waits p)")
  case k: True
  have i: "watched (waits p ! k) ! j < length (agents p)" if "j < length (watched (waits p ! k))" for j
    using wo nth_mem [OF k] nth_mem [OF that] unfolding watched_ok_def by blast
  show ?thesis
  proof (cases "phase (waits p ! k)")
    case (Draining j)
    with ok k i show ?thesis
      by (simp add: wait_step_def Let_def mail_drained mail_drain_into hold_def ac_simps)
  next
    case (LastDrain j)
    with ok k i show ?thesis
      by (simp add: wait_step_def Let_def mail_pool_wait_over mail_drain_into hold_def ac_simps)
  next
    case (Others t)
    with ok k show ?thesis by (simp add: wait_step_def Let_def mail_hand_over mail_give_up)
  qed (use ok k in \<open>auto simp: wait_step_def Let_def hold_def intro!: mail_set_wait mail_pool_wait_over\<close>)
qed (use ok in \<open>simp add: wait_step_def\<close>)

lemma mail_restore:
  assumes ok: "mail_ok p" and wo: "watched_ok p"
  shows "mail_ok (restore_owner k name p)"
proof (cases "k < length (waits p) \<and> phase (waits p ! k) = Restoring")
  case True
  then have k: "k < length (waits p)" ..
  let ?w = "waits p ! k"
  let ?es = "filter (\<lambda>e. env_agent e = name) (buffered ?w)" and ?rest = "filter (\<lambda>e. env_agent e \<noteq> name) (buffered ?w)"
  let ?w' = "?w\<lparr>buffered := ?rest, phase := (if ?rest = [] then Aborted else Restoring)\<rparr>"
  let ?p' = "set_wait k ?w' p"
  have "mset (buffered ?w) = mset ?es + mset ?rest" by simp
  then have heldm: "mset (held ?p') + mset ?es = mset (held p)"
    by (intro held_leaves [OF k]) (simp del: mset_filter add: hold_def)
  show ?thesis
  proof (cases "owner_at ?w name p")
    case None
    have "mail_ok (?p'\<lparr>lost := lost p @ ?es\<rparr>)"
      by (rule mail_same [OF ok]) (use heldm in \<open>simp_all add: away_def held_def ac_simps\<close>)
    with True None show ?thesis by (simp add: restore_owner_def Let_def)
  next
    case (Some i)
    then have inw: "i \<in> set (watched ?w)" and name: "agent_name (agents p ! i) = name"
      unfolding owner_at_def by (auto simp: find_Some_iff in_set_conv_nth)
    have i: "i < length (agents p)" using inw wo nth_mem [OF k] unfolding watched_ok_def by blast
    have a: "agent_ok (agents p ! i)" using ok i by (simp add: mail_ok_def)
    let ?b = "restore_envelopes ?es (agents p ! i)"
    have "mail_ok (?p'\<lparr>agents := (agents p)[i := ?b]\<rparr>)"
    proof (rule mail_change [OF ok i, where b = ?b and X = "mset ?es" and Y = "{#}" and rs = "[]"])
      show "agent_ok ?b" using a by (simp add: agent_ok_def restore_envelopes_def results_def)
      show "away (?p'\<lparr>agents := (agents p)[i := ?b]\<rparr>) + mset ?es = away p + {#}"
        using heldm by (simp add: away_def held_def ac_simps)
    qed (use name in \<open>auto simp: restore_envelopes_def results_def\<close>)
    with True Some show ?thesis by (simp add: restore_owner_def Let_def)
  qed
next
  case False
  then have "restore_owner k name p = p" unfolding restore_owner_def by (rule if_not_P)
  with ok show ?thesis by simp
qed

lemma mail_claim:
  assumes ok: "mail_ok p"
  shows "mail_ok (claim_results i p)"
proof (cases "i < length (agents p)")
  case True
  let ?a = "agents p ! i" and ?es = "filter is_result (outbox (agents p ! i))"
  let ?b = "?a\<lparr>outbox := filter (\<lambda>e. \<not> is_result e) (outbox ?a)\<rparr>"
  have a: "agent_ok ?a" "balanced p ?a" using ok True by (simp_all add: mail_ok_def)
  have "mail_ok (p\<lparr>agents := (agents p)[i := ?b], delivered := delivered p @ ?es\<rparr>)"
  proof (rule mail_change [OF ok True, where b = ?b and X = "{#}" and Y = "mset ?es" and rs = "[]"])
    show "agent_ok ?b" using a by (simp add: agent_ok_def results_def)
    show "env_agent e = agent_name ?a" if "e \<in># {#} + mset ?es" for e
    proof -
      from that a(2) have "e \<in># mset (sent ?a)" by (simp add: balanced_def)
      with a(1) show ?thesis by (simp add: agent_ok_def)
    qed
  qed (simp_all add: away_def held_def results_def ac_simps)
  with True show ?thesis by (simp add: claim_results_def take_undelivered_results_def)
qed (use ok in \<open>simp add: claim_results_def\<close>)

lemma results_new [simp]: "sent a = [] \<Longrightarrow> results a = []"
  by (simp add: results_def map_filter_def)

lemma mail_register:
  assumes ok: "mail_ok p"
  shows "mail_ok (snd (register host name lbl tsk t k ctxs ups st call out p))"
proof (cases rule: register_cases [of host name lbl tsk t k ctxs ups st call out p])
  case (refused r rs)
  with ok show ?thesis by (simp add: mail_same [OF ok] away_def held_def)
next
  case (added rs)
  let ?a = "new_agent host name lbl tsk t k ctxs ups st call out"
  let ?q = "p\<lparr>reserved := rs, agents := agents p @ [?a]\<rparr>"
  have aw: "away ?q = away p" "notified ?q = notified p" by (simp_all add: away_def held_def)
  have a: "agent_name ?a = name" "sent ?a = []" "outbox ?a = []" by (simp_all add: new_agent_def)
  have sub: "env_agent ` set_mset (away p) \<union> fst ` set (notified p) \<subseteq> agent_name ` set (agents p)"
    using ok unfolding mail_ok_def by blast
  have "filter_mset (\<lambda>e. env_agent e = name) (away p) = {#}"
    by (rule filter_mset_other) (use sub added(4) in blast)
  moreover have "filter (\<lambda>x. fst x = name) (notified p) = []"
    unfolding filter_empty_conv using sub added(4) by blast
  ultimately have "agent_ok ?a \<and> balanced ?q ?a" using a aw by (simp add: agent_ok_def balanced_def)
  moreover have "agent_ok c \<and> balanced ?q c" if "c \<in> set (agents p)" for c
    using ok that aw by (simp add: mail_ok_def balanced_def)
  ultimately have all: "\<forall>c \<in> set (agents ?q). agent_ok c \<and> balanced ?q c" by simp
  have "distinct (map agent_name (agents ?q))" using ok added(4) a by (simp add: mail_ok_def)
  moreover have "env_agent ` set_mset (away ?q) \<union> fst ` set (notified ?q) \<subseteq> agent_name ` set (agents ?q)"
    using sub unfolding aw by auto
  ultimately have "mail_ok ?q" using all unfolding mail_ok_def by blast
  with added show ?thesis by simp
qed

lemma mail_start_wait: "mail_ok p \<Longrightarrow> mail_ok (start_wait is mode others p)"
proof -
  assume ok: "mail_ok p"
  have "hold \<circ> dispute is = hold" by (rule ext) (simp add: hold_def dispute_def)
  then show ?thesis
    by (intro mail_same [OF ok]) (simp_all add: start_wait_def away_def held_def del: comp_apply, simp add: hold_def)
qed

lemma mail_stop_task: "mail_ok p \<Longrightarrow> mail_ok (stop_task host i origin started p)"
proof (cases "i < length (agents p)")
  case True
  assume ok: "mail_ok p"
  let ?b = "fst (stop_task_begin origin (agents p ! i))"
  let ?p = "p\<lparr>agents := (agents p)[i := ?b]\<rparr>"
  have b: "agent_name ?b = agent_name (agents p ! i)" "incumbent ?b = incumbent (agents p ! i)" "sent ?b = sent (agents p ! i)"
    "outbox ?b = outbox (agents p ! i)" "status ?b = status (agents p ! i)"
    by (simp_all add: stop_task_begin_def raise_flags_def Let_def)
  have q: "mail_ok ?p"
    by (rule mail_change [OF ok True, where b = ?b and X = "{#}" and Y = "{#}" and rs = "[]"])
      (use ok True b in \<open>simp_all add: mail_ok_def agent_ok_def results_def away_def held_def\<close>)
  moreover have "mail_ok (?p\<lparr>timers := ts\<rparr>)" for ts by (rule mail_same [OF q]) (simp_all add: away_def held_def)
  ultimately show ?thesis
    using True by (auto simp: stop_task_def Let_def split_beta split: option.splits intro: mail_on_agent reporting)
qed (simp add: stop_task_def)

lemma mail_step:
  assumes ok: "mail_ok p" and wo: "watched_ok p"
  shows "mail_ok (pool_step host p e)"
proof (cases e)
  case RetireNext
  have c: "mail_ok (cancel_agent i p)" for i
    unfolding cancel_agent_def by (rule mail_on_agent [OF ok]) (rule reporting)
  have "mail_ok ((cancel_agent i p)\<lparr>retiring := is\<rparr>)" for i "is"
    by (rule mail_same [OF c [of i]]) (simp_all add: away_def held_def)
  with RetireNext ok show ?thesis by (simp add: retire_next_def split: list.splits)
next
  case Retire
  then show ?thesis by (simp add: retire_def) (rule mail_same [OF ok], simp_all add: away_def held_def)
next
  case (TimerFired k)
  with ok show ?thesis by (simp add: timer_fired_def split_beta mail_on_agent reporting)
qed (use ok wo in \<open>simp_all add: bill_def cancel_agent_def force_settle_def mail_register mail_on_agent mail_start_wait
    mail_wait_step mail_restore mail_claim mail_stop_task reporting\<close>)

section \<open>What waits watch\<close>

lemma watched_set_wait: "watched w = watched (waits p ! k) \<Longrightarrow> map watched (waits (set_wait k w p)) = map watched (waits p)"
  using list_update_id [of "map watched (waits p)" k]
  by (cases "k < length (waits p)") (simp_all add: set_wait_def map_update list_update_beyond)

lemma watched_wait_step: "map watched (waits (wait_step k past beat settled p)) = map watched (waits p)"
  by (auto simp: wait_step_def Let_def hand_over_def pool_wait_over_def drained_def drain_into_def drain_outbox_def
      watched_set_wait split: wait_phase.splits wait_mode.splits)

lemma watched_restore: "map watched (waits (restore_owner k name p)) = map watched (waits p)"
  by (auto simp: restore_owner_def Let_def watched_set_wait split: option.splits)

lemma waits_on_agent [simp]: "waits (on_agent i f p) = waits p"
  by (simp add: on_agent_def split_beta)

lemma waits_register [simp]: "waits (snd (register host name lbl tsk t k ctxs ups st call out p)) = waits p"
  by (cases rule: register_cases [of host name lbl tsk t k ctxs ups st call out p]) simp_all

lemma waits_others [simp]:
  "waits (stop_task host i origin started p) = waits p" "waits (timer_fired host k p) = waits p"
  "waits (bill i p) = waits p" "waits (claim_results i p) = waits p" "waits (retire p) = waits p"
  "waits (retire_next p) = waits p" "waits (cancel_agent i p) = waits p" "waits (force_settle host i p) = waits p"
  by (auto simp: stop_task_def timer_fired_def bill_def claim_results_def retire_def retire_next_def cancel_agent_def
      force_settle_def Let_def split_beta split: option.splits list.splits)

lemma watched_step:
  assumes wo: "watched_ok p"
  shows "watched_ok (pool_step host p e)"
proof -
  have len: "length (agents p) \<le> length (agents (pool_step host p e))"
    using pool_later_step [of p host e] by (simp add: pool_later_def)
  have "map watched (waits (pool_step host p e)) = map watched (waits p) \<or>
      (\<exists>is. list_all (\<lambda>i. i < length (agents p)) is \<and>
        map watched (waits (pool_step host p e)) = map watched (waits p) @ [is])"
  proof (cases e)
    case (StartWait "is" mode others)
    have "watched \<circ> dispute is = watched" by (rule ext) (simp add: dispute_def)
    with StartWait show ?thesis by (auto simp: start_wait_def)
  qed (simp_all add: watched_wait_step watched_restore)
  then have "set (map watched (waits (pool_step host p e))) \<subseteq>
      set (map watched (waits p)) \<union> {is. list_all (\<lambda>i. i < length (agents p)) is}" (is "_ \<subseteq> ?old \<union> ?new")
    by (elim disjE exE conjE) (simp_all only: set_append, simp_all)
  then have "i < length (agents p)" if "w \<in> set (waits (pool_step host p e))" "i \<in> set (watched w)" for w i
  proof -
    have "watched w \<in> ?old \<union> ?new" using that(1) \<open>set _ \<subseteq> ?old \<union> ?new\<close> by auto
    then show ?thesis
    proof
      assume "watched w \<in> ?old"
      then obtain v where "v \<in> set (waits p)" "watched v = watched w" by auto
      with wo that(2) show ?thesis unfolding watched_ok_def by metis
    next
      assume "watched w \<in> ?new"
      with that(2) show ?thesis by (simp add: list_all_iff)
    qed
  qed
  with len show ?thesis unfolding watched_ok_def by (meson less_le_trans)
qed

section \<open>The pool's machine\<close>

definition new_pool :: "'x pool \<Rightarrow> bool" where
  "new_pool p \<longleftrightarrow> (\<exists>limit rs. p = with_limit limit rs)"

definition pool_ok :: "'x pool \<Rightarrow> bool" where
  "pool_ok p \<longleftrightarrow> roster_ok p \<and> watched_ok p \<and> mail_ok p"

interpretation agent_pool: total_machine new_pool "pool_step host" pool_ok for host
proof unfold_locales
  show "pool_ok p" if "new_pool p" for p :: "'x pool"
    using that by (auto simp: new_pool_def with_limit_def pool_ok_def roster_ok_def watched_ok_def mail_ok_def away_def
        held_def running_count_def)
  show "pool_ok (pool_step host p e)" if "pool_ok p" for p :: "'x pool" and host e
    using that by (simp add: pool_ok_def roster_step watched_step mail_step)
qed

lemma pool_run_ok: "new_pool p \<Longrightarrow> pool_ok (pool_run host p es)"
  unfolding pool_run_def by (rule agent_pool.foldl_inv)

end
