(* ===== verification/AgentWaits.thy ===== *)
theory AgentWaits
  imports AgentMail
begin

text \<open>
  What a wait has established where it stands (\<^verbatim>\<open>wait_until\<close> of \<^verbatim>\<open>src/agents.rs\<close>): a task found settled stays
  settled, and an outbox drained after that stays empty unless a rival wait gives something back.
\<close>

section \<open>One wait\<close>

definition quiet_up_to :: "'x pool \<Rightarrow> waiter \<Rightarrow> nat \<Rightarrow> bool" where
  "quiet_up_to p w j \<longleftrightarrow> (\<forall>l < j. l < length (watched w) \<longrightarrow> not_running p (watched w ! l))"

definition emptied_up_to :: "'x pool \<Rightarrow> waiter \<Rightarrow> nat \<Rightarrow> bool" where
  "emptied_up_to p w j \<longleftrightarrow>
     (\<forall>l < j. l < length (watched w) \<longrightarrow> watched w ! l \<notin> set (contested w) \<longrightarrow> outbox (agents p ! (watched w ! l)) = [])"

text \<open>A result wait that is over in time.\<close>

fun in_time :: "wait_phase \<Rightarrow> bool" where
  "in_time (Others t) = (\<not> t)"
| "in_time (Done t) = (\<not> t)"
| "in_time _ = False"

definition collected :: "'x pool \<Rightarrow> waiter \<Rightarrow> bool" where
  "collected p w \<longleftrightarrow> quiet_up_to p w (length (watched w)) \<and> emptied_up_to p w (length (watched w))"

fun phase_ok :: "'x pool \<Rightarrow> waiter \<Rightarrow> wait_phase \<Rightarrow> bool" where
  "phase_ok p w (Draining j) = True"
| "phase_ok p w (Settling j) = (wait_mode w = TerminalResult \<and> quiet_up_to p w j)"
| "phase_ok p w (Quiet j) = quiet_up_to p w j"
| "phase_ok p w (LastDrain j) = (quiet_up_to p w (length (watched w)) \<and> emptied_up_to p w j)"
| "phase_ok p w (Done t) = (buffered w = [])"
| "phase_ok p w Aborted = (buffered w = [])"
| "phase_ok p w _ = True"

fun draining :: "wait_phase \<Rightarrow> bool" where
  "draining (Draining _) = True"
| "draining (Settling _) = True"
| "draining _ = False"

definition named_settled :: "'x pool \<Rightarrow> waiter \<Rightarrow> bool" where
  "named_settled p w \<longleftrightarrow>
     (\<forall>i \<in> set (watched w). agent_name (agents p ! i) \<in> set (delivered_names w) \<longrightarrow> not_running p i)"

definition from_watched :: "'x pool \<Rightarrow> waiter \<Rightarrow> bool" where
  "from_watched p w \<longleftrightarrow> (\<forall>e \<in> set (hold w). \<exists>i \<in> set (watched w). agent_name (agents p ! i) = env_agent e)"

definition wait_ok :: "'x pool \<Rightarrow> waiter \<Rightarrow> bool" where
  "wait_ok p w \<longleftrightarrow>
     (\<forall>i \<in> set (watched w). i < length (agents p)) \<and>
     (\<not> draining (phase w) \<longrightarrow> fresh w = []) \<and>
     from_watched p w \<and> named_settled p w \<and> phase_ok p w (phase w) \<and>
     (wait_mode w = TerminalResult \<longrightarrow> in_time (phase w) \<longrightarrow> collected p w)"

section \<open>All waits\<close>

text \<open>What a finished wait owes nobody: the tasks it watched alone.\<close>

definition answered :: "waiter \<Rightarrow> nat \<Rightarrow> bool" where
  "answered w i \<longleftrightarrow> wait_mode w = TerminalResult \<and> phase w = Done False \<and> i \<in> set (watched w) \<and> i \<notin> set (contested w)"

definition rivals_ok :: "waiter list \<Rightarrow> bool" where
  "rivals_ok ws \<longleftrightarrow>
     (\<forall>j < length ws. \<forall>k < length ws. j \<noteq> k \<longrightarrow> live_phase (phase (ws ! j)) \<longrightarrow> live_phase (phase (ws ! k)) \<longrightarrow>
        set (watched (ws ! j)) \<inter> set (watched (ws ! k)) \<subseteq> set (contested (ws ! j)))"

definition waits_ok :: "'x pool \<Rightarrow> bool" where
  "waits_ok p \<longleftrightarrow>
     (\<forall>w \<in> set (waits p). wait_ok p w) \<and> rivals_ok (waits p) \<and>
     (\<forall>v \<in> set (waits p). \<forall>i. answered v i \<longrightarrow> (\<forall>e \<in> set (held p). env_agent e \<noteq> agent_name (agents p ! i)))"

text \<open>\<open>b\<close> is a later state of \<open>a\<close> in which an emptied outbox of a settled task is still empty.\<close>

definition calm :: "'x agent \<Rightarrow> 'x agent \<Rightarrow> bool" where
  "calm a b \<longleftrightarrow> agent_name b = agent_name a \<and>
     (status a \<noteq> Running \<longrightarrow> status b \<noteq> Running \<and> (outbox a = [] \<longrightarrow> outbox b = []))"

definition pool_calm :: "'x pool \<Rightarrow> 'x pool \<Rightarrow> bool" where
  "pool_calm p q \<longleftrightarrow> length (agents p) \<le> length (agents q) \<and> (\<forall>i < length (agents p). calm (agents p ! i) (agents q ! i))"

lemma calm_refl [simp]: "calm a a"
  by (simp add: calm_def)

lemma calm_drained [simp]: "calm a (a\<lparr>outbox := []\<rparr>)"
  by (simp add: calm_def)

lemma grows_calm: "grows a b n \<Longrightarrow> calm a b"
  by (auto simp: calm_def grows_def)

lemma pool_calm_refl: "agents q = agents p \<Longrightarrow> pool_calm p q"
  by (simp add: pool_calm_def)

lemma pool_calm_update: "agents q = (agents p)[i := b] \<Longrightarrow> (i < length (agents p) \<Longrightarrow> calm (agents p ! i) b) \<Longrightarrow> pool_calm p q"
  by (cases "i < length (agents p)") (auto simp: pool_calm_def nth_list_update)

lemma calm_facts:
  assumes c: "pool_calm p q" and w: "\<forall>i \<in> set (watched w). i < length (agents p)"
  shows "quiet_up_to p w j \<Longrightarrow> quiet_up_to q w j"
    and "quiet_up_to p w (length (watched w)) \<Longrightarrow> emptied_up_to p w j \<Longrightarrow> emptied_up_to q w j"
    and "named_settled p w \<Longrightarrow> named_settled q w"
    and "from_watched p w \<Longrightarrow> from_watched q w"
proof -
  have a: "agent_name (agents q ! i) = agent_name (agents p ! i)"
    "not_running p i \<Longrightarrow> not_running q i \<and> (outbox (agents p ! i) = [] \<longrightarrow> outbox (agents q ! i) = [])"
    if "i \<in> set (watched w)" for i
    using c w that by (auto simp: pool_calm_def calm_def not_running_def)
  show "quiet_up_to q w j" if "quiet_up_to p w j" using that a by (simp add: quiet_up_to_def)
  show "emptied_up_to q w j" if "quiet_up_to p w (length (watched w))" "emptied_up_to p w j"
    using that a by (simp add: quiet_up_to_def emptied_up_to_def)
  show "named_settled q w" if "named_settled p w" using that a by (simp add: named_settled_def)
  show "from_watched q w" if "from_watched p w" using that a unfolding from_watched_def by metis
qed

lemma wait_ok_calm:
  assumes c: "pool_calm p q" and w: "wait_ok p w"
  shows "wait_ok q w"
proof -
  have in_p: "\<forall>i \<in> set (watched w). i < length (agents p)" using w by (simp add: wait_ok_def)
  have len: "\<forall>i \<in> set (watched w). i < length (agents q)" using in_p c by (auto simp: pool_calm_def)
  have "phase_ok q w (phase w)" using w calm_facts [OF c in_p] by (cases "phase w") (auto simp: wait_ok_def)
  with w len calm_facts [OF c in_p] show ?thesis by (auto simp: wait_ok_def collected_def)
qed

lemma waits_ok_calm:
  assumes ok: "waits_ok p" and c: "pool_calm p q" and ws: "waits q = waits p"
  shows "waits_ok q"
proof -
  have "agent_name (agents q ! i) = agent_name (agents p ! i)" if "v \<in> set (waits p)" "answered v i" for v i
  proof -
    have "i < length (agents p)" using ok that by (auto simp: waits_ok_def wait_ok_def answered_def)
    then show ?thesis using c by (simp add: pool_calm_def calm_def)
  qed
  with ok ws wait_ok_calm [OF c] show ?thesis unfolding waits_ok_def held_def by simp
qed

lemma wait_ok_idle: "wait_ok p w \<Longrightarrow> \<not> live_phase (phase w) \<Longrightarrow> hold w = []"
  by (cases "phase w") (auto simp: wait_ok_def live_phase_def hold_def)

lemma held_nth: "j < length (waits p) \<Longrightarrow> e \<in> set (hold (waits p ! j)) \<Longrightarrow> e \<in> set (held p)"
  unfolding held_def by (auto intro: nth_mem)

lemma same_name: "distinct (map agent_name (agents p)) \<Longrightarrow> i < length (agents p) \<Longrightarrow> j < length (agents p) \<Longrightarrow>
    agent_name (agents p ! i) = agent_name (agents p ! j) \<Longrightarrow> i = j"
  by (metis length_map nth_eq_iff_index_eq nth_map)

text \<open>No other wait holds anything from a task a live wait watches alone.\<close>

lemma alone:
  assumes ok: "waits_ok p" and names: "distinct (map agent_name (agents p))"
    and k: "k < length (waits p)" "live_phase (phase (waits p ! k))"
    and i: "i \<in> set (watched (waits p ! k))" "i \<notin> set (contested (waits p ! k))"
    and j: "j < length (waits p)" "j \<noteq> k" and e: "e \<in> set (hold (waits p ! j))"
  shows "env_agent e \<noteq> agent_name (agents p ! i)"
proof
  assume same: "env_agent e = agent_name (agents p ! i)"
  have wj: "wait_ok p (waits p ! j)" and wk: "wait_ok p (waits p ! k)" using ok j k by (simp_all add: waits_ok_def)
  have live: "live_phase (phase (waits p ! j))" by (rule ccontr) (use wait_ok_idle [OF wj] e in simp)
  from wj e obtain l where l: "l \<in> set (watched (waits p ! j))" "agent_name (agents p ! l) = env_agent e"
    by (auto simp: wait_ok_def from_watched_def)
  have "l = i" using same_name [OF names] l same wj wk i by (auto simp: wait_ok_def)
  moreover have "set (watched (waits p ! k)) \<inter> set (watched (waits p ! j)) \<subseteq> set (contested (waits p ! k))"
    using ok k j live by (auto simp: waits_ok_def rivals_ok_def)
  ultimately show False using l(1) i by blast
qed

lemma waits_ok_set_wait:
  assumes ok: "waits_ok p" and names: "distinct (map agent_name (agents p))" and k: "k < length (waits p)"
    and w: "wait_ok p w" and same: "watched w = watched (waits p ! k)" "contested w = contested (waits p ! k)"
    and live: "live_phase (phase (waits p ! k))"
    and new: "\<And>e v i. e \<in> set (hold w) \<Longrightarrow> e \<in> set (held p) \<or> (v \<in> set (waits p) \<longrightarrow> answered v i \<longrightarrow>
        env_agent e \<noteq> agent_name (agents p ! i))"
  shows "waits_ok (set_wait k w p)"
proof -
  let ?q = "set_wait k w p"
  have ag: "agents ?q = agents p" and ws: "waits ?q = (waits p)[k := w]" by (simp_all add: set_wait_def)
  have calm: "pool_calm p ?q" by (rule pool_calm_refl) (rule ag)
  have each: "wait_ok ?q v" if "v \<in> set (waits ?q)" for v
  proof -
    from that have "v = w \<or> v \<in> set (waits p)" unfolding ws by (rule set_updateD)
    with ok w have "wait_ok p v" by (auto simp: waits_ok_def)
    then show ?thesis by (rule wait_ok_calm [OF calm])
  qed
  have rivals: "rivals_ok (waits ?q)"
    unfolding rivals_ok_def ws length_list_update
  proof (intro allI impI)
    fix a b assume ab: "a < length (waits p)" "b < length (waits p)" "a \<noteq> b"
      "live_phase (phase ((waits p)[k := w] ! a))" "live_phase (phase ((waits p)[k := w] ! b))"
    have sa: "watched ((waits p)[k := w] ! c) = watched (waits p ! c)"
      "contested ((waits p)[k := w] ! c) = contested (waits p ! c)"
      "live_phase (phase ((waits p)[k := w] ! c)) \<longrightarrow> live_phase (phase (waits p ! c))" for c
      using same live k by (cases "c = k"; simp)+
    have "live_phase (phase (waits p ! a))" "live_phase (phase (waits p ! b))" using ab(4,5) sa(3) by blast+
    then show "set (watched ((waits p)[k := w] ! a)) \<inter> set (watched ((waits p)[k := w] ! b))
        \<subseteq> set (contested ((waits p)[k := w] ! a))"
      unfolding sa using ok ab by (simp add: waits_ok_def rivals_ok_def)
  qed
  have heldD: "e \<in> set (hold w) \<or> (\<exists>j < length (waits p). j \<noteq> k \<and> e \<in> set (hold (waits p ! j)))" if "e \<in> set (held ?q)" for e
  proof -
    from that obtain v where v: "v \<in> set ((waits p)[k := w])" "e \<in> set (hold v)" by (auto simp: held_def ws)
    then obtain j where j: "j < length (waits p)" "(waits p)[k := w] ! j = v" by (auto simp: in_set_conv_nth)
    with v k show ?thesis by (cases "j = k") auto
  qed
  have free: "env_agent e \<noteq> agent_name (agents p ! i)"
    if v: "v \<in> set (waits ?q)" "answered v i" and e: "e \<in> set (held ?q)" for v i e
  proof (cases "v \<in> set (waits p)")
    case True
    from heldD [OF e] show ?thesis
    proof
      assume "e \<in> set (hold w)"
      with new [of e v i] True v(2) ok show ?thesis by (auto simp: waits_ok_def)
    next
      assume "\<exists>j < length (waits p). j \<noteq> k \<and> e \<in> set (hold (waits p ! j))"
      then have "e \<in> set (held p)" using held_nth by blast
      with True v(2) ok show ?thesis by (auto simp: waits_ok_def)
    qed
  next
    case False
    with v(1) ws have vw: "v = w" by (auto dest: set_updateD)
    with v(2) have "hold w = []" using wait_ok_idle [OF w] by (simp add: answered_def live_phase_def)
    with heldD [OF e] obtain j where j: "j < length (waits p)" "j \<noteq> k" "e \<in> set (hold (waits p ! j))" by auto
    show ?thesis by (rule alone [OF ok names k live _ _ j]) (use v(2) vw same in \<open>auto simp: answered_def\<close>)
  qed
  show ?thesis unfolding waits_ok_def using each rivals free by (simp add: ag)
qed

lemma held_result_settled:
  assumes ok: "mail_ok p" and e: "e \<in> set (held p)" "is_result e" and i: "i < length (agents p)" "agent_name (agents p ! i) = env_agent e"
  shows "not_running p i"
proof -
  let ?a = "agents p ! i"
  have a: "agent_ok ?a" "balanced p ?a" using ok i by (simp_all add: mail_ok_def)
  have "e \<in># filter_mset (\<lambda>e. env_agent e = agent_name ?a) (away p)" using e i by (simp add: away_def)
  then have "e \<in># mset (sent ?a)" using a(2) by (simp add: balanced_def)
  then have "results ?a \<noteq> []"
    using e(2) by (auto simp: results_def map_filter_def filter_empty_conv split: envelope_kind.splits)
      (metis is_result_kind.simps(2) envelope_kind.exhaust option.simps(3) envelope_kind.simps(6))
  with a(1) show ?thesis by (auto simp: agent_ok_def not_running_def)
qed

section \<open>The steps of a wait\<close>

lemma place_updates [simp]:
  "quiet_up_to p (w\<lparr>phase := x_phase\<rparr>) = quiet_up_to p w" "quiet_up_to p (w\<lparr>fresh := x_fresh\<rparr>) = quiet_up_to p w" "quiet_up_to p (w\<lparr>buffered := x_buffered\<rparr>) = quiet_up_to p w" "quiet_up_to p (w\<lparr>handed := x_handed\<rparr>) = quiet_up_to p w" "quiet_up_to p (w\<lparr>delivered_names := x_delivered_names\<rparr>) = quiet_up_to p w"
  "emptied_up_to p (w\<lparr>phase := x_phase\<rparr>) = emptied_up_to p w" "emptied_up_to p (w\<lparr>fresh := x_fresh\<rparr>) = emptied_up_to p w" "emptied_up_to p (w\<lparr>buffered := x_buffered\<rparr>) = emptied_up_to p w" "emptied_up_to p (w\<lparr>handed := x_handed\<rparr>) = emptied_up_to p w" "emptied_up_to p (w\<lparr>delivered_names := x_delivered_names\<rparr>) = emptied_up_to p w"
  "collected p (w\<lparr>phase := x_phase\<rparr>) = collected p w" "collected p (w\<lparr>fresh := x_fresh\<rparr>) = collected p w" "collected p (w\<lparr>buffered := x_buffered\<rparr>) = collected p w" "collected p (w\<lparr>handed := x_handed\<rparr>) = collected p w" "collected p (w\<lparr>delivered_names := x_delivered_names\<rparr>) = collected p w"
  "named_settled p (w\<lparr>phase := x_phase\<rparr>) = named_settled p w" "named_settled p (w\<lparr>fresh := x_fresh\<rparr>) = named_settled p w" "named_settled p (w\<lparr>buffered := x_buffered\<rparr>) = named_settled p w" "named_settled p (w\<lparr>handed := x_handed\<rparr>) = named_settled p w"
  "from_watched p (w\<lparr>phase := x_phase\<rparr>) = from_watched p w" "from_watched p (w\<lparr>handed := x_handed\<rparr>) = from_watched p w" "from_watched p (w\<lparr>delivered_names := x_delivered_names\<rparr>) = from_watched p w"
  by (simp_all add: quiet_up_to_def emptied_up_to_def collected_def named_settled_def from_watched_def hold_def fun_eq_iff)

lemma waits_ok_same: "waits_ok p \<Longrightarrow> agents q = agents p \<Longrightarrow> waits q = waits p \<Longrightarrow> waits_ok q"
  by (rule waits_ok_calm [OF _ pool_calm_refl])

lemma waits_ok_place:
  assumes "waits_ok p" and "mail_ok p" and k: "k < length (waits p)" and "wait_ok p w"
    and "watched w = watched (waits p ! k)" and "contested w = contested (waits p ! k)"
    and "live_phase (phase (waits p ! k))" and h: "set (hold w) \<subseteq> set (hold (waits p ! k))"
  shows "waits_ok (set_wait k w p)"
proof (rule waits_ok_set_wait [OF assms(1) _ k assms(4,5,6,7)])
  show "distinct (map agent_name (agents p))" using assms(2) by (simp add: mail_ok_def)
  show "e \<in> set (held p) \<or> (v \<in> set (waits p) \<longrightarrow> answered v i \<longrightarrow> env_agent e \<noteq> agent_name (agents p ! i))"
    if "e \<in> set (hold w)" for e v i
    using that h held_nth [OF k] by blast
qed

text \<open>The wait \<open>w\<close> in the hands of a step, and the pool it steps in.\<close>

definition stepping :: "'x pool \<Rightarrow> nat \<Rightarrow> waiter \<Rightarrow> bool" where
  "stepping p k w \<longleftrightarrow>
     waits_ok p \<and> mail_ok p \<and> k < length (waits p) \<and> live_phase (phase (waits p ! k)) \<and>
     watched w = watched (waits p ! k) \<and> contested w = contested (waits p ! k) \<and>
     set (hold w) \<subseteq> set (hold (waits p ! k)) \<and> (\<forall>i \<in> set (watched w). i < length (agents p)) \<and>
     from_watched p w \<and> named_settled p w"

lemma stepping_place: "stepping p k w \<Longrightarrow> wait_ok p w \<Longrightarrow> waits_ok (set_wait k w p)"
  by (rule waits_ok_place) (simp_all add: stepping_def)

lemma stepping_updates [simp]:
  "stepping p k (w\<lparr>phase := f\<rparr>) = stepping p k w" "stepping p k (w\<lparr>handed := es\<rparr>) = stepping p k w"
  by (simp_all add: stepping_def hold_def)

lemma stepping_gather: "stepping p k w \<Longrightarrow> stepping p k (w\<lparr>buffered := buffered w @ fresh w, fresh := []\<rparr>)"
  by (auto simp: stepping_def hold_def from_watched_def)

lemma stepping_empty: "stepping p k w \<Longrightarrow> stepping p k (w\<lparr>buffered := []\<rparr>)"
  by (auto simp: stepping_def hold_def from_watched_def)

lemma stepping_self: "waits_ok p \<Longrightarrow> mail_ok p \<Longrightarrow> k < length (waits p) \<Longrightarrow> live_phase (phase (waits p ! k)) \<Longrightarrow> stepping p k (waits p ! k)"
  using nth_mem [of k "waits p"] unfolding stepping_def waits_ok_def wait_ok_def by blast

lemma stepping_ok: "stepping p k w \<Longrightarrow> (\<not> draining (phase w) \<longrightarrow> fresh w = []) \<Longrightarrow> phase_ok p w (phase w) \<Longrightarrow>
    (wait_mode w = TerminalResult \<longrightarrow> in_time (phase w) \<longrightarrow> collected p w) \<Longrightarrow> wait_ok p w"
  by (simp add: stepping_def wait_ok_def)

lemma waits_hand_over:
  assumes st: "stepping p k w" and "fresh w = []" and "wait_mode w = TerminalResult \<longrightarrow> \<not> t \<longrightarrow> collected p w"
  shows "waits_ok (hand_over k w t p)"
proof -
  let ?w = "w\<lparr>phase := Done t, handed := buffered w, buffered := []\<rparr>"
  have s: "stepping p k ?w" using stepping_empty [of p k "w\<lparr>phase := Done t, handed := buffered w\<rparr>"] st by simp
  have "waits_ok (set_wait k ?w p)"
    by (rule stepping_place [OF s stepping_ok [OF s]]) (use assms in simp_all)
  then show ?thesis by (rule waits_ok_same) (simp_all add: hand_over_def)
qed

lemma waits_pool_wait_over:
  assumes st: "stepping p k w" and "fresh w = []" and "wait_mode w = TerminalResult \<longrightarrow> \<not> t \<longrightarrow> collected p w"
  shows "waits_ok (pool_wait_over k w t p)"
proof (cases "has_others w")
  case True
  have s: "stepping p k (w\<lparr>phase := Others t\<rparr>)" using st by simp
  have "waits_ok (set_wait k (w\<lparr>phase := Others t\<rparr>) p)"
    by (rule stepping_place [OF s stepping_ok [OF s]]) (use assms in simp_all)
  with True show ?thesis by (simp add: pool_wait_over_def)
next
  case False
  with waits_hand_over [OF assms] show ?thesis by (simp add: pool_wait_over_def)
qed

lemma waits_drained:
  assumes ok: "waits_ok p" "mail_ok p" and k: "k < length (waits p)" and d: "phase (waits p ! k) = Draining j"
  shows "waits_ok (drained k (waits p ! k) p)"
proof -
  let ?old = "waits p ! k"
  let ?names = "delivered_names ?old @ map env_agent (filter is_result (fresh ?old))"
  let ?w = "?old\<lparr>delivered_names := ?names\<rparr>"
  have live: "live_phase (phase ?old)" by (simp add: d live_phase_def)
  have s0: "stepping p k ?old" by (rule stepping_self [OF ok k live])
  have "not_running p i" if i: "i \<in> set (watched ?old)" "agent_name (agents p ! i) \<in> set ?names" for i
  proof (cases "agent_name (agents p ! i) \<in> set (delivered_names ?old)")
    case True
    with s0 i(1) show ?thesis by (simp add: stepping_def named_settled_def)
  next
    case False
    with i(2) obtain e where e: "e \<in> set (fresh ?old)" "is_result e" "agent_name (agents p ! i) = env_agent e" by auto
    then have "e \<in> set (held p)" by (intro held_nth [OF k]) (simp add: hold_def)
    then show ?thesis
      by (rule held_result_settled [OF ok(2) _ e(2)]) (use s0 i(1) e(3) in \<open>simp_all add: stepping_def\<close>)
  qed
  then have "named_settled p ?w" by (simp add: named_settled_def)
  then have s: "stepping p k ?w" using s0 by (simp add: stepping_def hold_def)
  show ?thesis
  proof (cases "wait_mode ?old")
    case TerminalResult
    have s': "stepping p k (?w\<lparr>phase := Settling 0\<rparr>)" using s by simp
    have "waits_ok (set_wait k (?w\<lparr>phase := Settling 0\<rparr>) p)"
      by (rule stepping_place [OF s' stepping_ok [OF s']]) (use TerminalResult in \<open>simp_all add: quiet_up_to_def\<close>)
    with TerminalResult show ?thesis by (simp add: drained_def)
  next
    case AnyActivity
    let ?v = "?w\<lparr>buffered := buffered ?w @ fresh ?w, fresh := []\<rparr>"
    have v: "stepping p k ?v" by (rule stepping_gather [OF s])
    have v': "stepping p k (?v\<lparr>phase := Quiet 0\<rparr>)" using v by simp
    have "waits_ok (pool_wait_over k ?v False p)"
      by (rule waits_pool_wait_over [OF v]) (use AnyActivity in simp_all)
    moreover have "waits_ok (set_wait k (?v\<lparr>phase := Quiet 0\<rparr>) p)"
      by (rule stepping_place [OF v' stepping_ok [OF v']]) (use AnyActivity in \<open>simp_all add: quiet_up_to_def\<close>)
    moreover have "drained k ?old p =
        (if fresh ?old \<noteq> [] then pool_wait_over k ?v False p else set_wait k (?v\<lparr>phase := Quiet 0\<rparr>) p)"
      by (simp add: drained_def Let_def AnyActivity)
    ultimately show ?thesis by (auto simp only: split: if_split)
  qed
qed

text \<open>A drain: first the outbox is taken, which is calm, then the wait holds it.\<close>

lemma waits_drain_into:
  assumes ok: "waits_ok p" "mail_ok p" and k: "k < length (waits p)" and i: "i \<in> set (watched (waits p ! k))"
    and live: "live_phase (phase (waits p ! k))"
    and w: "watched (w (outbox (agents p ! i))) = watched (waits p ! k)"
      "contested (w (outbox (agents p ! i))) = contested (waits p ! k)"
      "set (hold (w (outbox (agents p ! i)))) \<subseteq> set (hold (waits p ! k)) \<union> set (outbox (agents p ! i))"
    and wok: "wait_ok (p\<lparr>agents := (agents p)[i := (agents p ! i)\<lparr>outbox := []\<rparr>]\<rparr>) (w (outbox (agents p ! i)))"
  shows "waits_ok (drain_into k w i p)"
proof -
  let ?q = "p\<lparr>agents := (agents p)[i := (agents p ! i)\<lparr>outbox := []\<rparr>]\<rparr>"
  have wk: "wait_ok p (waits p ! k)" using ok(1) k by (simp add: waits_ok_def)
  have il: "i < length (agents p)" using wk i by (simp add: wait_ok_def)
  have names: "map agent_name (agents ?q) = map agent_name (agents p)" using il by (simp add: map_update list_update_same_conv)
  have name: "agent_name (agents ?q ! l) = agent_name (agents p ! l)" for l
    using il by (cases "l = i") simp_all
  have q: "waits_ok ?q"
    by (rule waits_ok_calm [OF ok(1) pool_calm_update [of ?q p i "(agents p ! i)\<lparr>outbox := []\<rparr>"]]) simp_all
  have "waits_ok (set_wait k (w (outbox (agents p ! i))) ?q)"
  proof (rule waits_ok_set_wait [OF q])
    show "distinct (map agent_name (agents ?q))" unfolding names using ok(2) by (simp add: mail_ok_def)
    show "e \<in> set (held ?q) \<or> (v \<in> set (waits ?q) \<longrightarrow> answered v l \<longrightarrow> env_agent e \<noteq> agent_name (agents ?q ! l))"
      if e: "e \<in> set (hold (w (outbox (agents p ! i))))" for e v l
    proof (cases "e \<in> set (hold (waits p ! k))")
      case True
      then show ?thesis using held_nth [OF k] by (simp add: held_def)
    next
      case False
      with e w(3) have e: "e \<in> set (outbox (agents p ! i))" by auto
      have a: "agent_ok (agents p ! i)" "balanced p (agents p ! i)" using ok(2) il by (simp_all add: mail_ok_def)
      then have "e \<in># mset (sent (agents p ! i))" using e by (simp add: balanced_def)
      with a(1) have own: "env_agent e = agent_name (agents p ! i)" by (simp add: agent_ok_def)
      have "env_agent e \<noteq> agent_name (agents p ! l)" if v: "v \<in> set (waits p)" "answered v l"
      proof
        assume "env_agent e = agent_name (agents p ! l)"
        moreover have vk: "wait_ok p v" using ok(1) v(1) by (simp add: waits_ok_def)
        moreover have "l < length (agents p)" using vk v(2) by (simp add: wait_ok_def answered_def)
        ultimately have "l = i" using same_name [of p l i] own il ok(2) by (simp add: mail_ok_def)
        moreover have "outbox (agents p ! l) = []"
          using vk v(2) by (auto simp: wait_ok_def answered_def collected_def emptied_up_to_def in_set_conv_nth)
        ultimately show False using e by simp
      qed
      then show ?thesis unfolding name by simp
    qed
  qed (use k wok w live in simp_all)
  then show ?thesis by (simp add: drain_into_def drain_outbox_def)
qed

lemma waits_wait_step:
  assumes ok: "waits_ok p" "mail_ok p"
  shows "waits_ok (wait_step k past beat settled p)"
proof (cases "k < length (waits p)")
  case k: True
  let ?w = "waits p ! k"
  have wk: "wait_ok p ?w" using ok(1) k by (simp add: waits_ok_def)
  have s: "stepping p k ?w" if "live_phase (phase ?w)" by (rule stepping_self [OF ok k that])
  let ?q = "\<lambda>i. p\<lparr>agents := (agents p)[i := (agents p ! i)\<lparr>outbox := []\<rparr>]\<rparr>"
  have calm: "pool_calm p (?q i)" for i by (rule pool_calm_update [of _ _ i "(agents p ! i)\<lparr>outbox := []\<rparr>"]) simp_all
  have facts: "\<forall>i \<in> set (watched ?w). i < length (agents p)" "from_watched p ?w" "named_settled p ?w"
    using wk by (simp_all add: wait_ok_def)
  have mail_own: "\<exists>i \<in> set (watched ?w). agent_name (agents (?q (watched ?w ! j)) ! i) = env_agent e"
    if j: "j < length (watched ?w)" and e: "e \<in> set (outbox (agents p ! (watched ?w ! j)))" for j e
  proof -
    let ?i = "watched ?w ! j"
    have i: "?i \<in> set (watched ?w)" "?i < length (agents p)" using j facts(1) by simp_all
    have a: "agent_ok (agents p ! ?i)" "balanced p (agents p ! ?i)" using ok(2) i by (simp_all add: mail_ok_def)
    then have "e \<in># mset (sent (agents p ! ?i))" using e by (simp add: balanced_def)
    with a(1) have "env_agent e = agent_name (agents p ! ?i)" by (simp add: agent_ok_def)
    with i show ?thesis by (intro bexI [of _ ?i]) simp_all
  qed
  show ?thesis
  proof (cases "phase ?w")
    case (Draining j)
    show ?thesis
    proof (cases "j < length (watched ?w)")
      case j: True
      let ?i = "watched ?w ! j" and ?v = "\<lambda>es. ?w\<lparr>fresh := fresh ?w @ es, phase := Draining (j + 1)\<rparr>"
      have "waits_ok (drain_into k ?v ?i p)"
      proof (rule waits_drain_into [OF ok k])
        have "from_watched (?q ?i) (?v (outbox (agents p ! ?i)))"
          using calm_facts(4) [OF calm facts(1,2)] mail_own [OF j] by (auto simp: from_watched_def hold_def)
        then show "wait_ok (?q ?i) (?v (outbox (agents p ! ?i)))"
          using facts(1) calm_facts(3) [OF calm facts(1,3)] by (simp add: wait_ok_def)
      qed (use j Draining in \<open>auto simp: live_phase_def hold_def\<close>)
      with k Draining j show ?thesis by (simp add: wait_step_def Let_def)
    next
      case False
      with k Draining waits_drained [OF ok k Draining] show ?thesis by (simp add: wait_step_def)
    qed
  next
    case (LastDrain j)
    have fr: "fresh ?w = []" and qu: "quiet_up_to p ?w (length (watched ?w))" and em: "emptied_up_to p ?w j"
      using wk LastDrain by (simp_all add: wait_ok_def)
    show ?thesis
    proof (cases "j < length (watched ?w)")
      case j: True
      let ?i = "watched ?w ! j" and ?v = "\<lambda>es. ?w\<lparr>buffered := buffered ?w @ es, phase := LastDrain (j + 1)\<rparr>"
      have i: "?i < length (agents p)" using facts(1) j by simp
      have "waits_ok (drain_into k ?v ?i p)"
      proof (rule waits_drain_into [OF ok k])
        have "from_watched (?q ?i) (?v (outbox (agents p ! ?i)))"
          using calm_facts(4) [OF calm facts(1,2)] mail_own [OF j] by (auto simp: from_watched_def hold_def)
        moreover have "emptied_up_to (?q ?i) ?w (j + 1)"
          using calm_facts(2) [OF calm facts(1) qu em] i by (auto simp: emptied_up_to_def less_Suc_eq)
        ultimately show "wait_ok (?q ?i) (?v (outbox (agents p ! ?i)))"
          using facts(1) fr calm_facts(3) [OF calm facts(1,3)] calm_facts(1) [OF calm facts(1) qu] by (simp add: wait_ok_def)
      qed (use j LastDrain in \<open>auto simp: live_phase_def hold_def\<close>)
      with k LastDrain j show ?thesis by (simp add: wait_step_def Let_def)
    next
      case False
      have "collected p ?w" using qu em False by (auto simp: collected_def emptied_up_to_def)
      with LastDrain fr have "waits_ok (pool_wait_over k ?w False p)"
        by (intro waits_pool_wait_over s) (simp_all add: live_phase_def)
      with k LastDrain False show ?thesis by (simp add: wait_step_def)
    qed
  next
    case (Settling j)
    have st: "stepping p k ?w" by (rule s) (simp add: Settling live_phase_def)
    have mo: "wait_mode ?w = TerminalResult" and qu: "quiet_up_to p ?w j" using wk Settling by (simp_all add: wait_ok_def)
    let ?g = "?w\<lparr>buffered := buffered ?w @ fresh ?w, fresh := []\<rparr>"
    have sg: "stepping p k ?g" by (rule stepping_gather [OF st])
    have place: "waits_ok (set_wait k (?g\<lparr>phase := f\<rparr>) p)" if "f = Quiet 0 \<or> f = LastDrain 0 \<and> length (watched ?w) \<le> j" for f
    proof -
      have sf: "stepping p k (?g\<lparr>phase := f\<rparr>)" using sg by simp
      have "quiet_up_to p ?w (length (watched ?w))" if "length (watched ?w) \<le> j" using qu that by (simp add: quiet_up_to_def)
      then show ?thesis
        by (intro stepping_place [OF sf stepping_ok [OF sf]]) (use that in \<open>auto simp: quiet_up_to_def emptied_up_to_def\<close>)
    qed
    have "waits_ok (set_wait k (?w\<lparr>phase := Settling (j + 1)\<rparr>) p)"
      if "agent_name (agents p ! (watched ?w ! j)) \<in> set (delivered_names ?w) \<or> not_running p (watched ?w ! j)"
        "j < length (watched ?w)"
    proof -
      have sf: "stepping p k (?w\<lparr>phase := Settling (j + 1)\<rparr>)" using st by simp
      have "not_running p (watched ?w ! j)" using that facts(3) by (auto simp: named_settled_def)
      then have "quiet_up_to p ?w (j + 1)" using qu by (auto simp: quiet_up_to_def less_Suc_eq)
      then show ?thesis by (intro stepping_place [OF sf stepping_ok [OF sf]]) (use mo in simp_all)
    qed
    with k Settling place [of "Quiet 0"] place [of "LastDrain 0"] show ?thesis by (simp add: wait_step_def Let_def)
  next
    case (Quiet j)
    have st: "stepping p k ?w" by (rule s) (simp add: Quiet live_phase_def)
    have fr: "fresh ?w = []" and qu: "quiet_up_to p ?w j" using wk Quiet by (simp_all add: wait_ok_def)
    have place: "waits_ok (set_wait k (?w\<lparr>phase := f\<rparr>) p)"
      if "phase_ok p ?w f" "\<not> draining f" "\<not> in_time f" for f
    proof -
      have sf: "stepping p k (?w\<lparr>phase := f\<rparr>)" using st by simp
      have "phase_ok p (?w\<lparr>phase := f\<rparr>) f" using that(1) by (cases f) simp_all
      then show ?thesis by (intro stepping_place [OF sf stepping_ok [OF sf]]) (use that fr in simp_all)
    qed
    have "quiet_up_to p ?w (j + 1)" if "not_running p (watched ?w ! j)"
      using qu that by (auto simp: quiet_up_to_def less_Suc_eq)
    moreover have "phase_ok p ?w (LastDrain 0)" if "\<not> j < length (watched ?w)"
      using qu that by (simp add: quiet_up_to_def emptied_up_to_def)
    ultimately show ?thesis
      using k Quiet place [of "Quiet (j + 1)"] place [of "LastDrain 0"] place [of AtDeadline] by (simp add: wait_step_def Let_def)
  next
    case AtDeadline
    have st: "stepping p k ?w" by (rule s) (simp add: AtDeadline live_phase_def)
    have fr: "fresh ?w = []" using wk AtDeadline by (simp add: wait_ok_def)
    have place: "waits_ok (set_wait k (?w\<lparr>phase := f\<rparr>) p)" if "phase_ok p ?w f" "\<not> in_time f" for f
    proof -
      have sf: "stepping p k (?w\<lparr>phase := f\<rparr>)" using st by simp
      have "phase_ok p (?w\<lparr>phase := f\<rparr>) f" using that(1) by (cases f) simp_all
      then show ?thesis by (intro stepping_place [OF sf stepping_ok [OF sf]]) (use that fr in simp_all)
    qed
    have "waits_ok (pool_wait_over k ?w True p)" by (rule waits_pool_wait_over [OF st fr]) simp
    with k AtDeadline place [of "Draining 0"] place [of Aborted] place [of Restoring] show ?thesis
      by (simp add: wait_step_def Let_def)
  next
    case (Others t)
    have st: "stepping p k ?w" by (rule s) (simp add: Others live_phase_def)
    have fr: "fresh ?w = []" and co: "wait_mode ?w = TerminalResult \<longrightarrow> \<not> t \<longrightarrow> collected p ?w"
      using wk Others by (simp_all add: wait_ok_def)
    let ?a = "?w\<lparr>phase := Aborted, buffered := []\<rparr>"
    have sa: "stepping p k ?a" using stepping_empty [of p k "?w\<lparr>phase := Aborted\<rparr>"] st by simp
    have "waits_ok (set_wait k ?a p)" by (intro stepping_place [OF sa stepping_ok [OF sa]]) (simp_all add: fr)
    then have "waits_ok ((set_wait k ?a p)\<lparr>lost := lost p @ buffered ?w\<rparr>)" by (rule waits_ok_same) simp_all
    with k Others waits_hand_over [OF st fr co] waits_hand_over [OF st fr, of True] ok show ?thesis
      by (simp add: wait_step_def Let_def)
  qed (use ok k in \<open>simp_all add: wait_step_def\<close>)
qed (use ok in \<open>simp add: wait_step_def\<close>)

section \<open>Giving back\<close>

lemma owner_at_Some:
  "owner_at w name p = Some i \<Longrightarrow> i \<in> set (watched w) \<and> agent_name (agents p ! i) = name"
  unfolding owner_at_def by (auto simp: find_Some_iff in_set_conv_nth)

lemma set_update_nth:
  assumes "u \<in> set (xs[k := y])" and "u \<noteq> y"
  shows "\<exists>m < length xs. m \<noteq> k \<and> xs ! m = u"
proof -
  from assms(1) obtain m where m: "m < length xs" "xs[k := y] ! m = u" by (auto simp: in_set_conv_nth)
  with assms(2) have "m \<noteq> k" by auto
  with m show ?thesis by auto
qed

text \<open>What an aborted wait gives back reaches its owner, and no wait that counts on an empty outbox is there.\<close>

lemma waits_restore:
  assumes ok: "waits_ok p" "mail_ok p"
  shows "waits_ok (restore_owner k name p)"
proof (cases "k < length (waits p) \<and> phase (waits p ! k) = Restoring")
  case True
  then have k: "k < length (waits p)" and ph: "phase (waits p ! k) = Restoring" by simp_all
  let ?w = "waits p ! k"
  let ?es = "filter (\<lambda>e. env_agent e = name) (buffered ?w)" and ?rest = "filter (\<lambda>e. env_agent e \<noteq> name) (buffered ?w)"
  let ?v = "?w\<lparr>buffered := ?rest, phase := (if ?rest = [] then Aborted else Restoring)\<rparr>"
  let ?p = "set_wait k ?v p"
  have wk: "wait_ok p ?w" using ok(1) k by (simp add: waits_ok_def)
  have fr: "fresh ?w = []" using wk ph by (simp add: wait_ok_def)
  have live: "live_phase (phase ?w)" by (simp add: ph live_phase_def)
  have v: "waits_ok ?p"
  proof (rule waits_ok_place [OF ok k])
    show "wait_ok p ?v" using wk fr ph by (auto simp: wait_ok_def from_watched_def hold_def)
  qed (use live in \<open>auto simp: hold_def\<close>)
  show ?thesis
  proof (cases "owner_at ?w name p")
    case None
    have "waits_ok (?p\<lparr>lost := lost p @ ?es\<rparr>)" by (rule waits_ok_same [OF v]) simp_all
    with True None show ?thesis by (simp add: restore_owner_def Let_def)
  next
    case (Some i)
    then have i: "i \<in> set (watched ?w)" "agent_name (agents p ! i) = name" using owner_at_Some by blast+
    have il: "i < length (agents p)" using wk i(1) by (simp add: wait_ok_def)
    let ?b = "restore_envelopes ?es (agents p ! i)"
    let ?q = "?p\<lparr>agents := (agents p)[i := ?b]\<rparr>"
    have ob: "outbox (agents ?q ! l) = (if l = i then ?es @ outbox (agents p ! i) else outbox (agents p ! l))"
      and nm: "agent_name (agents ?q ! l) = agent_name (agents p ! l)" and st: "not_running ?q l = not_running p l" for l
      using il by (cases "l = i"; simp add: restore_envelopes_def not_running_def)+
    have same: "quiet_up_to ?q u j = quiet_up_to p u j" "named_settled ?q u = named_settled p u"
      "from_watched ?q u = from_watched p u" for u j
      by (simp_all only: quiet_up_to_def named_settled_def from_watched_def nm st)
    have empt: "emptied_up_to ?q u j"
      if u: "u \<in> set (waits ?p)" and e: "emptied_up_to p u j" and count: "(\<exists>j. phase u = LastDrain j) \<or> wait_mode u = TerminalResult \<and> in_time (phase u)" for u j
      unfolding emptied_up_to_def
    proof (intro allI impI)
      fix l assume l: "l < j" "l < length (watched u)" "watched u ! l \<notin> set (contested u)"
      show "outbox (agents ?q ! (watched u ! l)) = []"
      proof (cases "watched u ! l = i")
        case False
        with e l ob show ?thesis by (simp add: emptied_up_to_def)
      next
        case i': True
        have une: "u \<noteq> ?v" using count by auto
        then have uw: "u \<in> set (waits p)" using u by (auto simp: set_wait_def dest: set_updateD)
        have "?es = []"
        proof (cases "live_phase (phase u)")
          case True
          have "waits ?p = (waits p)[k := ?v]" by (simp add: set_wait_def)
          then have "u \<in> set ((waits p)[k := ?v])" using u by (rule subst)
          from set_update_nth [OF this une] obtain m where m: "m < length (waits p)" "m \<noteq> k" "waits p ! m = u" by blast
          have "i \<in> set (watched u) \<inter> set (watched ?w)" using i(1) i' l(2) nth_mem by force
          with ok(1) m k True live have "i \<in> set (contested u)" by (auto simp: waits_ok_def rivals_ok_def)
          with l(3) i' show ?thesis by simp
        next
          case False
          with count have "phase u = Done False" "wait_mode u = TerminalResult"
            by (cases "phase u"; simp add: live_phase_def)+
          then have "answered u i" using l i' nth_mem by (auto simp: answered_def)
          with ok(1) uw have "\<forall>e \<in> set (held p). env_agent e \<noteq> name" using i(2) by (auto simp: waits_ok_def)
          moreover have "set (buffered ?w) \<subseteq> set (held p)" using held_nth [OF k] by (auto simp: hold_def)
          ultimately show ?thesis by (auto simp: filter_empty_conv)
        qed
        moreover have "outbox (agents p ! i) = []" using e l i' unfolding emptied_up_to_def by metis
        ultimately show ?thesis unfolding i' ob by simp
      qed
    qed
    have each: "wait_ok ?q u" if u: "u \<in> set (waits ?p)" for u
    proof -
      have "wait_ok ?p u" using v u unfolding waits_ok_def by blast
      moreover have "pool_calm ?p p" by (rule pool_calm_refl) simp
      ultimately have uo: "wait_ok p u" using wait_ok_calm by blast
      have po: "phase_ok ?q u (phase u)"
        using uo empt [OF u] same by (cases "phase u") (auto simp: wait_ok_def)
      have co: "collected ?q u" if "wait_mode u = TerminalResult" "in_time (phase u)"
        using uo empt [OF u] same that by (auto simp: wait_ok_def collected_def)
      show ?thesis using uo po co same by (simp add: wait_ok_def)
    qed
    have "waits_ok ?q"
      using v each nm unfolding waits_ok_def by (simp add: held_def)
    with True Some show ?thesis by (simp add: restore_owner_def Let_def)
  qed
next
  case False
  then have "restore_owner k name p = p" unfolding restore_owner_def by (rule if_not_P)
  with ok show ?thesis by simp
qed

section \<open>Every step\<close>

lemma pool_calm_on_agent: "reports f \<Longrightarrow> pool_calm p (on_agent i f p)"
proof (cases "i < length (agents p)")
  case True
  assume "reports f"
  then show ?thesis using True
    by (rule on_agent_reports) (auto intro!: pool_calm_update dest: grows_calm)
next
  case False
  then show ?thesis by (intro pool_calm_refl) (simp add: on_agent_def)
qed

lemma pool_calm_trans: "pool_calm p q \<Longrightarrow> pool_calm q r \<Longrightarrow> pool_calm p r"
  unfolding pool_calm_def calm_def by (metis less_le_trans order_trans)

lemma waits_on_agent_ok: "waits_ok p \<Longrightarrow> reports f \<Longrightarrow> waits_ok (on_agent i f p)"
  by (rule waits_ok_calm [OF _ pool_calm_on_agent]) simp_all

lemma waits_stop_task: "waits_ok p \<Longrightarrow> waits_ok (stop_task host i origin started p)"
proof (cases "i < length (agents p)")
  case True
  assume ok: "waits_ok p"
  let ?p = "p\<lparr>agents := (agents p)[i := fst (stop_task_begin origin (agents p ! i))]\<rparr>"
  have "calm (agents p ! i) (fst (stop_task_begin origin (agents p ! i)))"
    by (simp add: stop_task_begin_def raise_flags_def Let_def calm_def)
  then have "pool_calm p ?p" using True by (simp add: pool_calm_def nth_list_update)
  then have q: "waits_ok ?p" by (rule waits_ok_calm [OF ok]) simp
  moreover have "waits_ok (?p\<lparr>timers := ts\<rparr>)" for ts by (rule waits_ok_same [OF q]) simp_all
  ultimately show ?thesis
    using True by (auto simp: stop_task_def Let_def split_beta split: option.splits intro: waits_on_agent_ok reporting)
qed (simp add: stop_task_def)

lemma waits_claim:
  fixes p :: "'x pool"
  assumes ok: "waits_ok p"
  shows "waits_ok (claim_results i p)"
proof -
  have "calm a (snd (take_undelivered_results a))" for a :: "'x agent" by (simp add: take_undelivered_results_def calm_def)
  then have "pool_calm p (claim_results i p)"
    by (simp add: claim_results_def split_beta pool_calm_def nth_list_update)
  then show ?thesis by (rule waits_ok_calm [OF ok]) simp
qed

lemma waits_register_ok: "waits_ok p \<Longrightarrow> waits_ok (snd (register host name lbl tsk t k ctxs ups st call out p))"
proof (cases rule: register_cases [of host name lbl tsk t k ctxs ups st call out p])
  case (refused r rs)
  assume "waits_ok p"
  then show ?thesis by (rule waits_ok_same) (simp_all add: refused)
next
  case (added rs)
  assume ok: "waits_ok p"
  have "pool_calm p (snd (register host name lbl tsk t k ctxs ups st call out p))"
    by (simp add: added pool_calm_def nth_append)
  then show ?thesis by (rule waits_ok_calm [OF ok]) simp
qed

lemma dispute_same [simp]:
  "watched (dispute is w) = watched w" "wait_mode (dispute is w) = wait_mode w" "phase (dispute is w) = phase w"
  "fresh (dispute is w) = fresh w" "buffered (dispute is w) = buffered w" "delivered_names (dispute is w) = delivered_names w"
  "hold (dispute is w) = hold w"
  by (auto simp: dispute_def hold_def)

lemma contested_dispute: "set (contested w) \<subseteq> set (contested (dispute is w))"
  by (auto simp: dispute_def)

lemma dispute_adds: "live_phase (phase w) \<Longrightarrow> set (contested (dispute is w)) = set (contested w) \<union> (set (watched w) \<inter> set is)"
  by (auto simp: dispute_def)

lemma wait_ok_dispute: "wait_ok p w \<Longrightarrow> wait_ok p (dispute is w)"
proof -
  assume w: "wait_ok p w"
  have e: "emptied_up_to p (dispute is w) j" if "emptied_up_to p w j" for j
    using that contested_dispute [of w "is"] by (auto simp: emptied_up_to_def)
  have q: "quiet_up_to p (dispute is w) = quiet_up_to p w" by (simp add: quiet_up_to_def fun_eq_iff)
  have "phase_ok p (dispute is w) (phase w)" using w e q by (cases "phase w") (auto simp: wait_ok_def)
  with w e q show ?thesis by (simp add: wait_ok_def from_watched_def named_settled_def collected_def)
qed

lemma waits_start:
  assumes ok: "waits_ok p"
  shows "waits_ok (start_wait is mode others p)"
proof (cases "list_all (\<lambda>i. i < length (agents p)) is")
  case True
  let ?n = "\<lparr>watched = is, wait_mode = mode, has_others = others, phase = Draining 0, fresh = [], buffered = [],
    delivered_names = [], handed = [],
    contested = filter (\<lambda>i. list_ex (\<lambda>w. live_phase (phase w) \<and> i \<in> set (watched w)) (waits p)) is\<rparr>"
  let ?q = "p\<lparr>waits := map (dispute is) (waits p) @ [?n]\<rparr>"
  have calm: "pool_calm p ?q" by (rule pool_calm_refl) simp
  have "wait_ok p ?n" using True by (simp add: wait_ok_def from_watched_def named_settled_def hold_def list_all_iff)
  then have "\<forall>w \<in> set (waits ?q). wait_ok p w" using ok wait_ok_dispute by (auto simp: waits_ok_def)
  then have each: "\<forall>w \<in> set (waits ?q). wait_ok ?q w" using wait_ok_calm [OF calm] by blast
  have rivals: "rivals_ok (waits ?q)"
    unfolding rivals_ok_def
  proof (intro allI impI)
    fix a b assume ab: "a < length (waits ?q)" "b < length (waits ?q)" "a \<noteq> b"
      "live_phase (phase (waits ?q ! a))" "live_phase (phase (waits ?q ! b))"
    let ?m = "length (waits p)"
    consider "a < ?m" "b < ?m" | "a < ?m" "b = ?m" | "a = ?m" "b < ?m" using ab by fastforce
    then show "set (watched (waits ?q ! a)) \<inter> set (watched (waits ?q ! b)) \<subseteq> set (contested (waits ?q ! a))"
    proof cases
      case 1
      with ab ok have "set (watched (waits p ! a)) \<inter> set (watched (waits p ! b)) \<subseteq> set (contested (waits p ! a))"
        by (simp add: waits_ok_def rivals_ok_def nth_append)
      with 1 show ?thesis using contested_dispute [of "waits p ! a" "is"] by (simp add: nth_append)
    next
      case 2
      with ab show ?thesis using dispute_adds [of "waits p ! a" "is"] by (simp add: nth_append)
    next
      case 3
      with ab have "live_phase (phase (waits p ! b))" by (simp add: nth_append)
      with 3 show ?thesis using nth_mem [of b "waits p"] by (auto simp: nth_append list_ex_iff)
    qed
  qed
  have "hold \<circ> dispute is = hold" by (rule ext) simp
  then have held: "held ?q = held p" by (simp add: held_def hold_def del: comp_apply)
  have "\<forall>e \<in> set (held ?q). env_agent e \<noteq> agent_name (agents ?q ! i)" if v: "v \<in> set (waits ?q)" "answered v i" for v i
  proof -
    from v obtain u where u: "u \<in> set (waits p)" "v = dispute is u" by (auto simp: answered_def)
    with v(2) have "answered u i" using contested_dispute [of u "is"] by (auto simp: answered_def)
    with ok u(1) held show ?thesis by (auto simp: waits_ok_def)
  qed
  with each rivals have "waits_ok ?q" unfolding waits_ok_def by blast
  with True show ?thesis by (simp add: start_wait_def)
qed (use ok in \<open>simp add: start_wait_def\<close>)

lemma waits_step:
  assumes ok: "waits_ok p" "mail_ok p"
  shows "waits_ok (pool_step host p e)"
proof (cases e)
  case RetireNext
  have c: "waits_ok (cancel_agent i p)" for i
    unfolding cancel_agent_def by (rule waits_on_agent_ok [OF ok(1)]) (rule reporting)
  have "waits_ok ((cancel_agent i p)\<lparr>retiring := is\<rparr>)" for i "is" by (rule waits_ok_same [OF c [of i]]) simp_all
  with RetireNext ok show ?thesis by (simp add: retire_next_def split: list.splits)
next
  case Retire
  have "waits_ok (retire p)" by (rule waits_ok_same [OF ok(1)]) (simp_all add: retire_def)
  with Retire show ?thesis by simp
next
  case (TimerFired k)
  with ok show ?thesis by (simp add: timer_fired_def split_beta waits_on_agent_ok reporting)
qed (use ok in \<open>simp_all add: bill_def cancel_agent_def force_settle_def waits_register_ok waits_on_agent_ok waits_start
    waits_wait_step waits_restore waits_claim waits_stop_task reporting\<close>)

lemma waits_run: "new_pool p \<Longrightarrow> waits_ok (pool_run host p es)"
proof (induction es rule: rev_induct)
  case Nil
  then show ?case by (auto simp: pool_run_def new_pool_def with_limit_def waits_ok_def rivals_ok_def)
next
  case (snoc e es)
  have "mail_ok (pool_run host p es)" using pool_run_ok [OF snoc.prems] by (simp add: pool_ok_def)
  from waits_step [OF snoc.IH [OF snoc.prems] this] show ?case by (simp add: pool_run_def)
qed

end
