(* ===== verification/AgentProps.thy ===== *)
theory AgentProps
  imports AgentWaits
begin

text \<open>
  What the pool of background tasks (\<^verbatim>\<open>src/agents.rs\<close>) promises, over every sequence of its steps.
\<close>

section \<open>Only a mixed wait loses envelopes\<close>

definition pure_waits :: "'x pool_event list \<Rightarrow> bool" where
  "pure_waits es \<longleftrightarrow> (\<forall>e \<in> set es. case e of StartWait is mode others \<Rightarrow> \<not> others | _ \<Rightarrow> True)"

definition pure_pool :: "'x pool \<Rightarrow> bool" where
  "pure_pool p \<longleftrightarrow> lost p = [] \<and> (\<forall>w \<in> set (waits p). \<not> has_others w \<and> (\<forall>t. phase w \<noteq> Others t))"

lemma pure_same: "pure_pool p \<Longrightarrow> lost q = lost p \<Longrightarrow> waits q = waits p \<Longrightarrow> pure_pool q"
  by (simp add: pure_pool_def)

lemma lost_on_agent [simp]: "lost (on_agent i f p) = lost p"
  by (simp add: on_agent_def split_beta)

lemma pure_fields [simp]:
  "pure_pool (p\<lparr>agents := x\<rparr>) = pure_pool p" "pure_pool (p\<lparr>delivered := es\<rparr>) = pure_pool p"
  "pure_pool (p\<lparr>lost := lost p\<rparr>) = pure_pool p"
  by (simp_all add: pure_pool_def)

lemma pure_set_wait: "pure_pool p \<Longrightarrow> \<not> has_others w \<Longrightarrow> (\<And>t. phase w \<noteq> Others t) \<Longrightarrow> pure_pool (set_wait k w p)"
  by (auto simp: pure_pool_def set_wait_def dest!: set_updateD)

lemma pure_hand_over: "pure_pool p \<Longrightarrow> \<not> has_others w \<Longrightarrow> pure_pool (hand_over k w t p) \<and> pure_pool (pool_wait_over k w t p)"
  by (simp add: hand_over_def pool_wait_over_def pure_set_wait)

lemma pure_drain_into: "pure_pool p \<Longrightarrow> (\<And>es. \<not> has_others (w es)) \<Longrightarrow> (\<And>es t. phase (w es) \<noteq> Others t) \<Longrightarrow> pure_pool (drain_into k w i p)"
  by (simp add: drain_into_def drain_outbox_def pure_set_wait)

lemma pure_drained: "pure_pool p \<Longrightarrow> \<not> has_others w \<Longrightarrow> pure_pool (drained k w p)"
  by (auto simp: drained_def Let_def pure_hand_over intro!: pure_set_wait split: wait_mode.splits)

lemma pure_wait_step: "pure_pool p \<Longrightarrow> pure_pool (wait_step k past beat settled p)"
proof (cases "k < length (waits p)")
  case True
  assume p: "pure_pool p"
  then have w: "\<not> has_others (waits p ! k)" "\<And>t. phase (waits p ! k) \<noteq> Others t"
    using nth_mem [OF True] by (auto simp: pure_pool_def)
  show ?thesis
    using True w
    by (auto simp: wait_step_def Let_def p pure_hand_over [OF p] pure_drained [OF p] split: wait_phase.splits
        intro!: pure_set_wait [OF p] pure_drain_into [OF p])
qed (simp add: wait_step_def)

lemma pure_restore:
  fixes p :: "'x pool"
  assumes p: "pure_pool p" and ok: "waits_ok p"
  shows "pure_pool (restore_owner k name p)"
proof (cases "k < length (waits p) \<and> phase (waits p ! k) = Restoring")
  case True
  let ?w = "waits p ! k"
  have w: "\<not> has_others ?w" "from_watched p ?w"
    using True p ok nth_mem [of k "waits p"] by (auto simp: pure_pool_def waits_ok_def wait_ok_def)
  have "filter (\<lambda>e. env_agent e = name) (buffered ?w) = []" if "owner_at ?w name p = None"
    using that w(2) by (auto simp: owner_at_def find_None_iff from_watched_def hold_def filter_empty_conv)
  moreover have "lost p = []" using p by (simp add: pure_pool_def)
  moreover have "pure_pool (set_wait k (?w\<lparr>buffered := es, phase := (if c then Aborted else Restoring)\<rparr>) p)" for es c
    by (rule pure_set_wait [OF p]) (use w(1) in simp_all)
  moreover have "pure_pool (r\<lparr>lost := []\<rparr>)" if "pure_pool r" for r :: "'x pool" using that by (simp add: pure_pool_def)
  ultimately show ?thesis
    using True unfolding restore_owner_def by (auto simp only: simp_thms Let_def if_True append_Nil2 pure_fields split: option.splits)
next
  case False
  then have "restore_owner k name p = p" unfolding restore_owner_def by (rule if_not_P)
  with p show ?thesis by simp
qed

lemma lost_others [simp]:
  "lost (stop_task host i origin started p) = lost p" "lost (timer_fired host k p) = lost p" "lost (bill i p) = lost p"
  "lost (claim_results i p) = lost p" "lost (retire p) = lost p" "lost (retire_next p) = lost p"
  "lost (cancel_agent i p) = lost p" "lost (force_settle host i p) = lost p"
  by (auto simp: stop_task_def timer_fired_def bill_def claim_results_def retire_def retire_next_def cancel_agent_def
      force_settle_def Let_def split_beta split: option.splits list.splits)

lemma lost_register [simp]: "lost (snd (register host name lbl tsk t k ctxs ups st call out p)) = lost p"
  by (cases rule: register_cases [of host name lbl tsk t k ctxs ups st call out p]) simp_all

lemma pure_step:
  assumes p: "pure_pool p" and ok: "waits_ok p" and e: "pure_waits [e]"
  shows "pure_pool (pool_step host p e)"
proof (cases e)
  case (StartWait "is" mode others)
  with e have "\<not> others" by (simp add: pure_waits_def)
  moreover have "has_others (dispute is w) = has_others w" for w by (simp add: dispute_def)
  ultimately show ?thesis using StartWait p by (auto simp: start_wait_def pure_pool_def)
qed (use p ok in \<open>simp_all add: pure_wait_step pure_restore pure_same [OF p]\<close>)

lemma pure_run:
  assumes "new_pool p"
  shows "pure_waits es \<Longrightarrow> pure_pool (pool_run host p es)"
proof (induction es rule: rev_induct)
  case Nil
  with assms show ?case by (auto simp: pool_run_def new_pool_def with_limit_def pure_pool_def)
next
  case (snoc e es)
  then have "pure_pool (pool_run host p es)" "pure_waits [e]" by (auto simp: pure_waits_def)
  from pure_step [OF this(1) waits_run [OF assms] this(2)] show ?case by (simp add: pool_run_def)
qed

section \<open>The promises\<close>

text \<open>
  Claim C23. Conservation: whatever tasks report, waits drain, abort and give back and folds claim, every envelope a
  task ever produced is in exactly one place: its outbox, the hands of a wait, the parent, or lost; and nothing is
  lost as long as no wait also waits for tasks outside the pool.
\<close>

theorem envelopes_are_conserved:
  assumes p: "new_pool p" and q: "q = pool_run host p es" and i: "i < length (agents q)"
  shows "mset (sent (agents q ! i)) = mset (outbox (agents q ! i)) +
      filter_mset (\<lambda>e. env_agent e = agent_name (agents q ! i)) (mset (held q) + mset (delivered q) + mset (lost q)) \<and>
    (pure_waits es \<longrightarrow> lost q = [])"
proof -
  have "mail_ok q" using pool_run_ok [OF p] q by (simp add: pool_ok_def)
  moreover have "pure_waits es \<longrightarrow> lost q = []" using pure_run [OF p] q by (simp add: pure_pool_def)
  ultimately show ?thesis using i by (simp add: mail_ok_def balanced_def away_def)
qed

text \<open>
  Claim C24. A task ends once: it has at most one terminal envelope, none while it runs, the settlement observer is
  called once for exactly that envelope, a status once terminal never changes, nothing is reported after it, and
  every envelope carries the identity of the task that was registered.
\<close>

theorem each_task_ends_once:
  assumes p: "new_pool p" and q: "q = pool_run host p es" and r: "r = pool_run host q es'" and i: "i < length (agents q)"
  shows "length (results (agents r ! i)) \<le> 1 \<and>
    (status (agents r ! i) = Running \<longrightarrow> results (agents r ! i) = []) \<and>
    map snd (filter (\<lambda>x. fst x = agent_name (agents r ! i)) (notified r)) = results (agents r ! i) \<and>
    (status (agents q ! i) \<noteq> Running \<longrightarrow>
      status (agents r ! i) = status (agents q ! i) \<and> sent (agents r ! i) = sent (agents q ! i)) \<and>
    (\<forall>e \<in> set (sent (agents r ! i)). env_identity e = incumbent (agents q ! i))"
proof -
  have l: "pool_later q r" unfolding r by (rule pool_later_run)
  have "r = pool_run host p (es @ es')" unfolding r q by (simp add: pool_run_def)
  then have "mail_ok r" using pool_run_ok [OF p] by (simp add: pool_ok_def)
  moreover have "i < length (agents r)" using l i by (simp add: pool_later_def)
  ultimately have "agent_ok (agents r ! i)" "balanced r (agents r ! i)" by (simp_all add: mail_ok_def)
  with l i show ?thesis by (simp add: agent_ok_def balanced_def pool_later_def later_def)
qed

text \<open>
  A wait for results that comes back before its deadline brings them all: every task it watched that no
  other wait watched meanwhile has ended, its outbox is empty, and all it ever reported has been handed over by
  this wait, by an earlier one or by a fold (or was lost by a mixed wait before).
\<close>

theorem result_wait_collects_everything:
  assumes p: "new_pool p" and q: "q = pool_run host p es" and w: "w \<in> set (waits q)"
    and m: "wait_mode w = TerminalResult" and d: "phase w = Done False"
    and i: "i \<in> set (watched w)" "i \<notin> set (contested w)"
  shows "status (agents q ! i) \<noteq> Running \<and> outbox (agents q ! i) = [] \<and>
    mset (sent (agents q ! i)) =
      filter_mset (\<lambda>e. env_agent e = agent_name (agents q ! i)) (mset (delivered q) + mset (lost q))"
proof -
  have ok: "waits_ok q" "mail_ok q" using waits_run [OF p] pool_run_ok [OF p] q by (simp_all add: pool_ok_def)
  have wk: "wait_ok q w" using ok(1) w by (simp add: waits_ok_def)
  have il: "i < length (agents q)" using wk i(1) by (simp add: wait_ok_def)
  have co: "collected q w" using wk m d by (simp add: wait_ok_def)
  with i have st: "status (agents q ! i) \<noteq> Running" "outbox (agents q ! i) = []"
    by (auto simp: collected_def quiet_up_to_def emptied_up_to_def not_running_def in_set_conv_nth)
  have "answered w i" using m d i by (simp add: answered_def)
  then have "\<forall>e \<in> set (held q). env_agent e \<noteq> agent_name (agents q ! i)" using ok(1) w by (simp add: waits_ok_def)
  then have "filter_mset (\<lambda>e. env_agent e = agent_name (agents q ! i)) (mset (held q)) = {#}"
    by (intro filter_mset_other) simp
  moreover have "balanced q (agents q ! i)" using ok(2) il by (simp add: mail_ok_def)
  ultimately show ?thesis using st by (simp add: balanced_def away_def)
qed

text \<open>
  The roster: names are valid and distinct, no more tasks run than the limit allows, however workers and
  registrations interleave, and once a retiring call is through every task of the pool is cancelled.
\<close>

theorem pool_keeps_its_limit:
  assumes p: "new_pool p" and q: "q = pool_run host p es"
  shows "distinct (map agent_name (agents q)) \<and>
    (\<forall>a \<in> set (agents q). validate_agent_name (agent_name a) = Inr ()) \<and>
    (\<forall>n. max_live q = Some n \<longrightarrow> running_count (agents q) \<le> n) \<and>
    (retired q \<and> retiring q = [] \<longrightarrow> (\<forall>a \<in> set (agents q). cancel a))"
proof -
  have r: "roster_ok q" using pool_run_ok [OF p] q by (simp add: pool_ok_def)
  have "\<forall>a \<in> set (agents q). cancel a" if "retired q \<and> retiring q = []"
    using r that by (auto simp: roster_ok_def in_set_conv_nth)
  with r show ?thesis by (simp add: roster_ok_def)
qed

section \<open>Stopping a task\<close>

definition timers_ok :: "'x pool \<Rightarrow> bool" where
  "timers_ok p \<longleftrightarrow>
     (\<forall>i < length (agents p). \<forall>t. stop_timer (agents p ! i) = Some t \<longrightarrow>
        t = incumbent (agents p ! i) \<and> cancel (agents p ! i) \<and>
        (status (agents p ! i) = Running \<longrightarrow> (i, t) \<in> set (timers p)))"

lemma timers_on_agent [simp]: "timers (on_agent i f p) = timers p"
  by (simp add: on_agent_def split_beta)

lemma timers_wait_step [simp]: "timers (wait_step k past beat settled p) = timers p"
  by (auto simp: wait_step_def Let_def set_wait_def hand_over_def pool_wait_over_def drained_def drain_into_def drain_outbox_def
      split: wait_phase.splits wait_mode.splits)

lemma timers_restore [simp]: "timers (restore_owner k name p) = timers p"
  by (auto simp: restore_owner_def Let_def set_wait_def split: option.splits)

lemma timers_register [simp]: "timers (snd (register host name lbl tsk t k ctxs ups st call out p)) = timers p"
  by (cases rule: register_cases [of host name lbl tsk t k ctxs ups st call out p]) simp_all

lemma timers_others [simp]:
  "timers (timer_fired host k p) = timers p" "timers (bill i p) = timers p" "timers (start_wait is mode others p) = timers p"
  "timers (claim_results i p) = timers p" "timers (retire p) = timers p" "timers (retire_next p) = timers p"
  "timers (cancel_agent i p) = timers p" "timers (force_settle host i p) = timers p"
  by (auto simp: timer_fired_def bill_def claim_results_def retire_def retire_next_def cancel_agent_def start_wait_def
      force_settle_def Let_def split_beta split: option.splits list.splits)

definition same_timers :: "'x pool \<Rightarrow> 'x pool \<Rightarrow> bool" where
  "same_timers p q \<longleftrightarrow> (\<forall>i < length (agents p). stop_timer (agents q ! i) = stop_timer (agents p ! i))"

lemma same_timers_update: "agents q = (agents p)[i := b] \<Longrightarrow> stop_timer b = stop_timer (agents p ! i) \<Longrightarrow> same_timers p q"
  by (cases "i < length (agents p)") (auto simp: same_timers_def nth_list_update)

lemma same_timers_same [simp]: "agents q = agents p \<Longrightarrow> same_timers p q"
  by (simp add: same_timers_def)

lemma same_timers_on_agent: "reports f \<Longrightarrow> same_timers p (on_agent i f p)"
proof (cases "i < length (agents p)")
  case True
  assume "reports f"
  then show ?thesis using True
    by (rule on_agent_reports) (auto intro!: same_timers_update simp: grows_def)
qed (simp add: on_agent_def)

lemma same_timers_step:
  assumes "\<And>i origin started. e \<noteq> StopTask i origin started"
  shows "same_timers p (pool_step host p e)"
proof (cases e)
  case (Register name lbl tsk t k ctxs ups st call out)
  then show ?thesis
    by (cases rule: register_cases [of host name lbl tsk t k ctxs ups st call out p]) (simp_all add: same_timers_def nth_append)
next
  case (ClaimResults i)
  then show ?thesis
    by (auto simp: claim_results_def take_undelivered_results_def intro!: same_timers_update)
next
  case (WaitStep k past beat settled)
  have "same_timers p (drain_into k w i p)" for w i by (rule same_timers_update [OF drain_into_agents]) simp
  with WaitStep show ?thesis by (auto simp: wait_step_def Let_def split: wait_phase.splits)
next
  case (RestoreOwner k name)
  then show ?thesis
    by (auto simp: restore_owner_def Let_def restore_envelopes_def split: option.splits intro!: same_timers_update)
next
  case (TimerFired k)
  then show ?thesis by (simp add: timer_fired_def split_beta same_timers_on_agent reporting)
next
  case RetireNext
  have "same_timers p (cancel_agent i p)" for i unfolding cancel_agent_def by (rule same_timers_on_agent) (rule reporting)
  with RetireNext show ?thesis by (simp add: retire_next_def same_timers_def split: list.splits)
qed (use assms in \<open>simp_all add: start_wait_def retire_def bill_def cancel_agent_def force_settle_def same_timers_on_agent reporting\<close>)

lemma new_agent_timer [simp]: "stop_timer (new_agent host name lbl tsk t k ctxs ups st call out) = None"
  by (simp add: new_agent_def)

lemma timers_ok_register: "timers_ok p \<Longrightarrow> timers_ok (snd (register host name lbl tsk t k ctxs ups st call out p))"
  by (cases rule: register_cases [of host name lbl tsk t k ctxs ups st call out p])
    (auto simp: timers_ok_def nth_append less_Suc_eq)

lemma timers_ok_later:
  assumes ok: "timers_ok p" and l: "pool_later p q" and s: "same_timers p q" and t: "set (timers p) \<subseteq> set (timers q)"
    and len: "length (agents q) = length (agents p)"
  shows "timers_ok q"
  unfolding timers_ok_def len
proof (intro allI impI)
  fix i t assume i: "i < length (agents p)" and st: "stop_timer (agents q ! i) = Some t"
  let ?a = "agents p ! i" and ?b = "agents q ! i"
  have lab: "later ?a ?b" and sab: "stop_timer ?a = Some t" using l s i st by (simp_all add: pool_later_def same_timers_def)
  have a: "t = incumbent ?a" "cancel ?a" "status ?a = Running \<longrightarrow> (i, t) \<in> set (timers p)"
    using ok i sab by (simp_all add: timers_ok_def)
  have "status ?a = Running" if "status ?b = Running" using lab that by (auto simp: later_def)
  with lab a t show "t = incumbent ?b \<and> cancel ?b \<and> (status ?b = Running \<longrightarrow> (i, t) \<in> set (timers q))"
    by (auto simp: later_def)
qed

lemma settle_cancelled_settles:
  "cancel a \<Longrightarrow> status (fst (settle_cancelled reason (Some (incumbent a)) a)) \<noteq> Running"
  by (simp add: settle_cancelled_def settle_def push_envelope_def Let_def)

lemma on_agent_at: "i < length (agents p) \<Longrightarrow> agents (on_agent i f p) ! i = fst (f (agents p ! i))"
  by (simp add: on_agent_def split_beta)

lemma on_agent_other: "j \<noteq> i \<Longrightarrow> agents (on_agent i f p) ! j = agents p ! j"
  by (simp add: on_agent_def split_beta)

lemma timers_ok_stop:
  assumes ok: "timers_ok p"
  shows "timers_ok (stop_task host i origin started p)"
proof (cases "i < length (agents p)")
  case i: True
  let ?a = "agents p ! i" and ?b = "fst (stop_task_begin origin (agents p ! i))"
  let ?p = "p\<lparr>agents := (agents p)[i := ?b]\<rparr>"
  show ?thesis
  proof (cases "snd (stop_task_begin origin ?a)")
    case None
    then have b: "stop_timer ?b = stop_timer ?a"
      by (auto simp: stop_task_begin_def raise_flags_def Let_def split: if_splits)
    note later = stop_task_begin_later [of ?a origin]
    have "timers_ok ?p"
      by (rule timers_ok_later [OF ok]) (use b later i in \<open>auto intro: pool_later_update same_timers_update\<close>)
    with None i show ?thesis by (simp add: stop_task_def split_beta Let_def)
  next
    case (Some t)
    then have b: "t = incumbent ?a" "stop_timer ?b = Some t" "incumbent ?b = t" "cancel ?b" "status ?b = Running"
      by (auto simp: stop_task_begin_def raise_flags_def Let_def split: if_splits)
    show ?thesis
    proof (cases started)
      case True
      have "timers_ok (?p\<lparr>timers := timers p @ [(i, t)]\<rparr>)"
        using ok i b by (auto simp: timers_ok_def nth_list_update)
      with True Some i show ?thesis by (simp add: stop_task_def split_beta Let_def)
    next
      case False
      let ?f = "settle_cancelled (forced_stop_text host) (Some t)"
      let ?q = "on_agent i ?f ?p"
      have st: "status (fst (?f ?b)) \<noteq> Running" "stop_timer (fst (?f ?b)) = Some t" "incumbent (fst (?f ?b)) = t" "cancel (fst (?f ?b))"
        using settle_cancelled_settles [of ?b] b
        by (auto simp: settle_cancelled_def settle_def push_envelope_def Let_def)
      have "timers_ok ?q"
        unfolding timers_ok_def
      proof (intro allI impI)
        fix j u assume j: "j < length (agents ?q)" and u: "stop_timer (agents ?q ! j) = Some u"
        have len: "length (agents ?q) = length (agents p)" using frame_on_agent [of ?p i ?f] by (simp add: same_frame_def)
        show "u = incumbent (agents ?q ! j) \<and> cancel (agents ?q ! j) \<and> (status (agents ?q ! j) = Running \<longrightarrow> (j, u) \<in> set (timers ?q))"
        proof (cases "j = i")
          case True
          have "agents ?q ! i = fst (?f ?b)" using i by (simp add: on_agent_at)
          with True u st show ?thesis by simp
        next
          case False
          then have "agents ?q ! j = agents p ! j" by (simp add: on_agent_other)
          with u ok j len show ?thesis by (simp add: timers_ok_def)
        qed
      qed
      with False Some i show ?thesis by (simp add: stop_task_def split_beta Let_def)
    qed
  qed
qed (use ok in \<open>simp add: stop_task_def\<close>)

fun special :: "'x pool_event \<Rightarrow> bool" where
  "special (Register _ _ _ _ _ _ _ _ _ _) = True"
| "special (StopTask _ _ _) = True"
| "special Retire = True"
| "special RetireNext = True"
| "special _ = False"

lemma timers_ok_plain:
  assumes ok: "timers_ok p" and e: "\<not> special e"
  shows "timers_ok (pool_step host p e)"
proof (rule timers_ok_later [OF ok pool_later_step])
  show "same_timers p (pool_step host p e)" by (rule same_timers_step) (use e in auto)
  show "set (timers p) \<subseteq> set (timers (pool_step host p e))" using e by (cases e) simp_all
  have "same_frame p (pool_step host p e)" by (rule frame_step) (use e in auto)
  then show "length (agents (pool_step host p e)) = length (agents p)" by (simp add: same_frame_def)
qed

lemma timers_ok_step:
  assumes ok: "timers_ok p"
  shows "timers_ok (pool_step host p e)"
proof (cases "special e")
  case True
  then show ?thesis
  proof (cases e)
    case RetireNext
    have "same_frame p (cancel_agent i p)" for i by (simp add: cancel_agent_def)
    then have len: "length (agents (pool_step host p e)) = length (agents p)"
      using RetireNext by (auto simp: retire_next_def same_frame_def split: list.splits)
    have st: "same_timers p (pool_step host p e)" by (rule same_timers_step) (simp add: RetireNext)
    show ?thesis by (rule timers_ok_later [OF ok pool_later_step st _ len]) (simp add: RetireNext)
  next
    case Retire
    with ok show ?thesis by (simp add: retire_def timers_ok_def)
  qed (use ok in \<open>simp_all add: timers_ok_register timers_ok_stop\<close>)
qed (rule timers_ok_plain [OF ok])

lemma timers_ok_run:
  assumes "timers_ok p"
  shows "timers_ok (pool_run host p es)"
  using assms unfolding pool_run_def by (induction es arbitrary: p) (simp_all add: timers_ok_step)

lemma stop_timer_kept:
  fixes p :: "'x pool"
  assumes "i < length (agents p)" and "stop_timer (agents p ! i) \<noteq> None"
  shows "stop_timer (agents (pool_step host p e) ! i) \<noteq> None"
proof (cases "\<exists>j origin started. e = StopTask j origin started")
  case False
  then have "same_timers p (pool_step host p e)" by (intro same_timers_step) auto
  with assms show ?thesis by (simp add: same_timers_def)
next
  case True
  then obtain j origin started where e: "e = StopTask j origin started" by blast
  have b: "stop_timer (fst (stop_task_begin origin a)) \<noteq> None" if "stop_timer a \<noteq> None" for a :: "'x agent"
    using that by (simp add: stop_task_begin_def raise_flags_def Let_def)
  have f: "stop_timer (fst (settle_cancelled r t a)) = stop_timer a" for r t and a :: "'x agent"
    by (simp add: settle_cancelled_def settle_def push_envelope_def Let_def split: option.splits)
  show ?thesis
  proof (cases "j = i")
    case True
    with assms e b f show ?thesis by (simp add: stop_task_def split_beta Let_def on_agent_at split: option.splits)
  next
    case False
    with assms e show ?thesis by (simp add: stop_task_def split_beta Let_def on_agent_other split: option.splits)
  qed
qed

lemma stop_timer_run:
  assumes "i < length (agents p)" and "stop_timer (agents p ! i) \<noteq> None"
  shows "stop_timer (agents (pool_run host p es) ! i) \<noteq> None"
  using assms
proof (induction es arbitrary: p)
  case (Cons e es)
  have "i < length (agents (pool_step host p e))" using pool_later_step [of p host e] Cons.prems by (simp add: pool_later_def)
  from Cons.IH [OF this stop_timer_kept [OF Cons.prems]] show ?case by (simp add: pool_run_def)
qed (simp add: pool_run_def)

text \<open>
  A task that is asked to stop ends: it is cancelled at once, and at any later time it has ended or a timer
  for it is under way whose firing ends it. Where no timer thread can be had, it ends at once.
\<close>

theorem stopped_task_ends:
  assumes p: "new_pool p" and q: "q = pool_run host p es" and i: "i < length (agents q)" "status (agents q ! i) = Running"
    and r: "r = pool_run host (pool_step host q (StopTask i origin started)) es'"
  shows "cancel (agents r ! i) \<and>
    (status (agents r ! i) = Running \<longrightarrow>
      (\<exists>k < length (timers r). fst (timers r ! k) = i \<and> status (agents (pool_step host r (TimerFired k)) ! i) \<noteq> Running)) \<and>
    (\<not> started \<longrightarrow> stop_timer (agents q ! i) = None \<longrightarrow> status (agents r ! i) \<noteq> Running)"
proof -
  let ?s = "pool_step host q (StopTask i origin started)"
  have "timers_ok p" using p by (auto simp: new_pool_def with_limit_def timers_ok_def)
  then have tq: "timers_ok q" and tr: "timers_ok r" unfolding q r by (intro timers_ok_run timers_ok_step; assumption)+
  have len: "i < length (agents ?s)" using pool_later_step [of q host "StopTask i origin started"] i(1) by (simp add: pool_later_def)
  have lr: "pool_later ?s r" unfolding r by (rule pool_later_run)
  have len_r: "i < length (agents r)" using lr len by (simp add: pool_later_def)
  have f: "stop_timer (fst (settle_cancelled re t a)) = stop_timer a" for re t and a :: "'a agent"
    by (simp add: settle_cancelled_def settle_def push_envelope_def Let_def split: option.splits)
  have "stop_timer (agents ?s ! i) \<noteq> None"
    using i f by (auto simp: stop_task_def split_beta Let_def on_agent_at stop_task_begin_def raise_flags_def split: option.splits if_splits)
  then have "stop_timer (agents r ! i) \<noteq> None" unfolding r by (rule stop_timer_run [OF len])
  then obtain t where t: "stop_timer (agents r ! i) = Some t" by blast
  with tr len_r have c: "t = incumbent (agents r ! i)" "cancel (agents r ! i)"
    and run: "status (agents r ! i) = Running \<longrightarrow> (i, t) \<in> set (timers r)" by (simp_all add: timers_ok_def)
  have "\<exists>k < length (timers r). fst (timers r ! k) = i \<and> status (agents (pool_step host r (TimerFired k)) ! i) \<noteq> Running"
    if "status (agents r ! i) = Running"
  proof -
    from run that obtain k where k: "k < length (timers r)" "timers r ! k = (i, t)" by (auto simp: in_set_conv_nth)
    have "status (agents (pool_step host r (TimerFired k)) ! i) \<noteq> Running"
      using k len_r settle_cancelled_settles [OF c(2)] c(1) by (simp add: timer_fired_def on_agent_at)
    with k show ?thesis by auto
  qed
  moreover have "status (agents r ! i) \<noteq> Running" if "\<not> started" "stop_timer (agents q ! i) = None"
  proof -
    have b: "snd (stop_task_begin origin (agents q ! i)) = Some (incumbent (agents q ! i))"
      "cancel (fst (stop_task_begin origin (agents q ! i)))"
      "incumbent (fst (stop_task_begin origin (agents q ! i))) = incumbent (agents q ! i)"
      using i that by (simp_all add: stop_task_begin_def raise_flags_def Let_def)
    have "status (agents ?s ! i) \<noteq> Running"
      using that b i settle_cancelled_settles [OF b(2)] by (simp add: stop_task_def split_beta Let_def on_agent_at)
    with lr len show ?thesis by (auto simp: pool_later_def later_def)
  qed
  ultimately show ?thesis using c(2) by blast
qed

section \<open>One task and one wait\<close>

definition sample_template :: "unit template" where
  "sample_template = \<lparr>conversation = [99], provider = [], model = [], inherits_parent = False, fork = None, named = None,
     mode_receipt = None, schema_doc = None\<rparr>"

definition sample_host :: "unit host" where
  "sample_host = \<lparr>task_digest = \<lambda>_ _. 7, mode_payload = \<lambda>_ _ _ _. [112], sha256_hex = \<lambda>x. x,
     forced_stop_text = \<lambda>_ _. [], panic_text = \<lambda>_. []\<rparr>"

definition sample_identity :: task_identity where
  "sample_identity = \<lparr>generation = 1, params_digest = 7\<rparr>"

definition sample_envelope :: envelope where
  "sample_envelope = \<lparr>env_agent = [97], env_identity = sample_identity, env_kind = Result RunCompleted, env_content = [111, 107],
     env_metrics = Some \<lparr>turn_usage = no_usage, tool_use_count = 0, duration_ms = 3\<rparr>, env_structured = None\<rparr>"

definition sample_agent :: "live_status \<Rightarrow> ustring \<Rightarrow> envelope list \<Rightarrow> envelope list \<Rightarrow> unit agent" where
  "sample_agent st res out all =
     \<lparr>agent_name = [97], label = [], task = [116], template_of = sample_template, kind_of = General, cancel = False, by_user = False,
      status = st, incumbent = sample_identity, stop_timer = None, contexts = [], updates = [], outbox = out,
      latest_call_id = [], latest_context_id = None, unbilled = no_usage, lifetime_usage = no_usage, structured = None,
      result_text = res, sent = all, spent = no_usage, billed = no_usage\<rparr>"

definition sample_spawn :: "unit pool_event" where
  "sample_spawn = Register [97] [] [116] sample_template General [] [] Running [] None"

definition sample_done :: "unit pool_event" where
  "sample_done = CompleteTurn 0 sample_identity [] [111, 107] RunCompleted no_usage 3 None"

definition sample_pool :: "unit pool" where
  "sample_pool = with_live_limit 8 []"

lemma sample_new: "new_pool sample_pool"
  by (auto simp: new_pool_def sample_pool_def with_live_limit_def)

lemma sample_spawned:
  "pool_run sample_host sample_pool [sample_spawn] =
     (with_limit (Some 8) [(([99], [97]), [112])])\<lparr>agents := [sample_agent Running [] [] []]\<rparr>"
  by (simp add: pool_run_def sample_pool_def with_live_limit_def with_limit_def sample_spawn_def register_def
      validate_agent_name_def MAX_AGENT_NAME_CHARS_def ascii_lower_def ascii_digit_def validate_child_memory_mode_def
      reserve_subagent_execution_mode_def bad_conversation_def bad_reservation_name_def white_space_def control_char_def
      byte_len_def utf8_def utf8_char_def sample_host_def sample_template_def validate_registration_availability_def
      running_count_def new_agent_def sample_agent_def sample_identity_def al_put_def al_del_def)

lemma no_usage_merge [simp]: "merge_shared_usage no_usage no_usage = no_usage"
  by (simp add: merge_shared_usage_def no_usage_def add_tokens_def)

lemma sample_finished:
  "pool_run sample_host sample_pool [sample_spawn, sample_done] =
     (with_limit (Some 8) [(([99], [97]), [112])])
       \<lparr>agents := [sample_agent Idle [111, 107] [sample_envelope] [sample_envelope]], notified := [([97], RunCompleted)]\<rparr>"
proof -
  have step: "pool_run sample_host sample_pool [sample_spawn, sample_done] =
      pool_step sample_host (pool_run sample_host sample_pool [sample_spawn]) sample_done" by (simp add: pool_run_def)
  show ?thesis
    unfolding step sample_spawned
    by (simp add: sample_done_def on_agent_def sample_agent_def complete_turn_def charge_def settle_def push_envelope_def
        with_limit_def sample_envelope_def Let_def)
qed

definition sample_waits :: "bool \<Rightarrow> unit pool_event list" where
  "sample_waits others = StartWait [0] TerminalResult others # replicate 6 (WaitStep 0 False True False)"

definition sample_waiter :: waiter where
  "sample_waiter = \<lparr>watched = [0], wait_mode = TerminalResult, has_others = True, phase = Others False, fresh = [],
     buffered = [sample_envelope], delivered_names = [[97]], handed = [], contested = []\<rparr>"

lemma sample_drain:
  "pool_run sample_host (pool_run sample_host sample_pool [sample_spawn, sample_done]) (sample_waits True) =
     (with_limit (Some 8) [(([99], [97]), [112])])
       \<lparr>agents := [sample_agent Idle [111, 107] [] [sample_envelope]], waits := [sample_waiter],
         notified := [([97], RunCompleted)]\<rparr>"
  unfolding sample_finished
  by (simp add: pool_run_def sample_waits_def with_limit_def start_wait_def wait_step_def drain_into_def drain_outbox_def
      set_wait_def sample_agent_def drained_def numeral_eq_Suc not_running_def pool_wait_over_def sample_envelope_def
      sample_waiter_def Let_def)

lemma sample_delivered:
  "pool_run sample_host (pool_run sample_host sample_pool [sample_spawn, sample_done]) (sample_waits False) =
     (with_limit (Some 8) [(([99], [97]), [112])])
       \<lparr>agents := [sample_agent Idle [111, 107] [] [sample_envelope]],
         waits := [sample_waiter\<lparr>has_others := False, phase := Done False, buffered := [], handed := [sample_envelope]\<rparr>],
         delivered := [sample_envelope], notified := [([97], RunCompleted)]\<rparr>"
  unfolding sample_finished
  by (simp add: pool_run_def sample_waits_def with_limit_def start_wait_def wait_step_def drain_into_def drain_outbox_def
      set_wait_def sample_agent_def drained_def numeral_eq_Suc not_running_def pool_wait_over_def sample_envelope_def
      hand_over_def sample_waiter_def Let_def)

section \<open>The losing wait\<close>

lemma lost_grows: "\<exists>ls. lost (pool_step host p e) = lost p @ ls"
proof (cases e)
  case (WaitStep k past beat settled)
  then show ?thesis
    by (auto simp: wait_step_def Let_def hand_over_def pool_wait_over_def drained_def drain_into_def drain_outbox_def
        split: wait_phase.splits wait_mode.splits)
next
  case (RestoreOwner k name)
  then show ?thesis by (auto simp: restore_owner_def Let_def split: option.splits)
qed (simp_all add: start_wait_def)

lemma lost_run: "\<exists>ls. lost (pool_run host p es) = lost p @ ls"
proof (induction es arbitrary: p)
  case (Cons e es)
  obtain a where "lost (pool_step host p e) = lost p @ a" using lost_grows by blast
  moreover obtain b where "lost (pool_run host (pool_step host p e) es) = lost (pool_step host p e) @ b" using Cons.IH by blast
  ultimately show ?case by (simp add: pool_run_def)
qed (simp add: pool_run_def)

definition losing_run :: "unit pool_event list" where
  "losing_run = [sample_spawn, sample_done] @ sample_waits True @ [WaitStep 0 False False False]"

lemma pool_run_append: "pool_run host p (xs @ ys) = pool_run host (pool_run host p xs) ys"
  by (simp add: pool_run_def)

lemma losing_run_pool:
  "pool_run sample_host sample_pool losing_run =
     (with_limit (Some 8) [(([99], [97]), [112])])
       \<lparr>agents := [sample_agent Idle [111, 107] [] [sample_envelope]],
         waits := [sample_waiter\<lparr>phase := Aborted, buffered := []\<rparr>],
         lost := [sample_envelope], notified := [([97], RunCompleted)]\<rparr>"
proof -
  have "pool_run sample_host sample_pool losing_run =
      pool_run sample_host (pool_run sample_host (pool_run sample_host sample_pool [sample_spawn, sample_done]) (sample_waits True))
        [WaitStep 0 False False False]"
    by (simp only: losing_run_def pool_run_append)
  also have "\<dots> = (with_limit (Some 8) [(([99], [97]), [112])])
       \<lparr>agents := [sample_agent Idle [111, 107] [] [sample_envelope]],
         waits := [sample_waiter\<lparr>phase := Aborted, buffered := []\<rparr>],
         lost := [sample_envelope], notified := [([97], RunCompleted)]\<rparr>"
    unfolding sample_drain
    by (simp add: pool_run_def wait_step_def with_limit_def set_wait_def sample_waiter_def)
  finally show ?thesis .
qed

text \<open>
  Claim C25. A wait that watches both a pooled task and one outside the pool, and is aborted after the pooled task's
  result has been collected, loses it: the task has ended with its result, and whatever happens afterwards the
  result is in no outbox, in no wait's hands, and is never delivered.
\<close>

theorem mixed_wait_loses_the_result:
  "let q = pool_run sample_host sample_pool losing_run in
     status (agents q ! 0) = Idle \<and> results (agents q ! 0) = [RunCompleted] \<and>
     (\<forall>es. let r = pool_run sample_host q es in
        outbox (agents r ! 0) = [] \<and> sample_envelope \<notin> set (held r) \<and> sample_envelope \<notin> set (delivered r))"
proof -
  let ?q = "pool_run sample_host sample_pool losing_run"
  have q: "agents ?q = [sample_agent Idle [111, 107] [] [sample_envelope]]" "lost ?q = [sample_envelope]"
    unfolding losing_run_pool by simp_all
  have a: "status (agents ?q ! 0) = Idle" "sent (agents ?q ! 0) = [sample_envelope]" "agent_name (agents ?q ! 0) = [97]"
    unfolding q by (simp_all add: sample_agent_def)
  have res: "results (agents ?q ! 0) = [RunCompleted]"
    by (simp add: results_def a map_filter_def sample_envelope_def)
  have never: "outbox (agents r ! 0) = [] \<and> sample_envelope \<notin> set (held r) \<and> sample_envelope \<notin> set (delivered r)"
    if r: "r = pool_run sample_host ?q es" for es r
  proof -
    have "r = pool_run sample_host sample_pool (losing_run @ es)" by (simp only: r pool_run_append)
    then have ok: "mail_ok r" using pool_run_ok [OF sample_new] by (simp add: pool_ok_def)
    have l: "pool_later ?q r" unfolding r by (rule pool_later_run)
    have len: "0 < length (agents r)" using l unfolding pool_later_def q(1) by (cases "agents r") simp_all
    have s: "sent (agents r ! 0) = [sample_envelope]" "agent_name (agents r ! 0) = [97]"
      using l a q(1) by (simp_all add: pool_later_def later_def)
    obtain ls where ls: "lost r = sample_envelope # ls" using lost_run [of sample_host ?q es] q(2) r by auto
    have e: "env_agent sample_envelope = [97]" by (simp add: sample_envelope_def)
    let ?F = "filter_mset (\<lambda>e. env_agent e = [97])"
    have "balanced r (agents r ! 0)" using ok len by (simp add: mail_ok_def)
    then have "{#sample_envelope#} = mset (outbox (agents r ! 0)) + (?F (mset (held r)) + ?F (mset (delivered r)) + ?F (mset ls) + {#sample_envelope#})"
      unfolding balanced_def away_def s ls using e by simp
    then have "{#} + {#sample_envelope#} =
        (mset (outbox (agents r ! 0)) + (?F (mset (held r)) + ?F (mset (delivered r)) + ?F (mset ls))) + {#sample_envelope#}"
      by (simp only: add.assoc empty_neutral)
    then have "mset (outbox (agents r ! 0)) + (?F (mset (held r)) + ?F (mset (delivered r)) + ?F (mset ls)) = {#}"
      unfolding add_right_cancel by (rule sym)
    then have z: "outbox (agents r ! 0) = []" "?F (mset (held r)) = {#}" "?F (mset (delivered r)) = {#}" by simp_all
    have "sample_envelope \<notin># ?F (mset (held r))" "sample_envelope \<notin># ?F (mset (delivered r))" unfolding z by simp_all
    with z(1) e show ?thesis by simp
  qed
  show ?thesis unfolding Let_def using a(1) res never by blast
qed

definition collected_pool :: "unit pool" where
  "collected_pool = pool_run sample_host sample_pool ([sample_spawn, sample_done] @ sample_waits False)"

definition collecting_waiter :: waiter where
  "collecting_waiter = sample_waiter\<lparr>has_others := False, phase := Done False, buffered := [], handed := [sample_envelope]\<rparr>"

lemma collected_pool_facts:
  "agents collected_pool = [sample_agent Idle [111, 107] [] [sample_envelope]]" "waits collected_pool = [collecting_waiter]"
  "held collected_pool = []" "delivered collected_pool = [sample_envelope]" "lost collected_pool = []"
  unfolding collected_pool_def pool_run_append sample_delivered collecting_waiter_def
  by (simp_all add: with_limit_def held_def hold_def sample_waiter_def)

lemma sample_agent_facts [simp]:
  "agent_name (sample_agent st res out all) = [97]" "status (sample_agent st res out all) = st"
  "outbox (sample_agent st res out all) = out" "sent (sample_agent st res out all) = all"
  "stop_timer (sample_agent st res out all) = None"
  by (simp_all add: sample_agent_def)

lemma collecting_waiter_facts:
  "watched collecting_waiter = [0]" "wait_mode collecting_waiter = TerminalResult" "phase collecting_waiter = Done False"
  "contested collecting_waiter = []"
  by (simp_all add: collecting_waiter_def sample_waiter_def)

theorem envelopes_are_conserved_witness:
  "{#sample_envelope#} = filter_mset (\<lambda>e. env_agent e = [97]) (mset (delivered collected_pool))"
  using envelopes_are_conserved [OF sample_new collected_pool_def, of 0]
  unfolding collected_pool_facts nth_Cons_0 sample_agent_facts list.size mset.simps empty_neutral by blast

theorem each_task_ends_once_witness:
  "status (agents collected_pool ! 0) = Idle \<and> length (results (agents collected_pool ! 0)) \<le> 1"
proof -
  have "collected_pool = pool_run sample_host (pool_run sample_host sample_pool [sample_spawn, sample_done]) (sample_waits False)"
    by (simp only: collected_pool_def pool_run_append)
  note e = each_task_ends_once [OF sample_new refl this, of 0]
  have "agents (pool_run sample_host sample_pool [sample_spawn, sample_done]) = [sample_agent Idle [111, 107] [sample_envelope] [sample_envelope]]"
    unfolding sample_finished by (simp add: with_limit_def)
  with e show ?thesis by simp
qed

theorem result_wait_collects_everything_witness:
  "status (agents collected_pool ! 0) \<noteq> Running \<and>
    mset (sent (agents collected_pool ! 0)) = filter_mset (\<lambda>e. env_agent e = [97]) (mset (delivered collected_pool))"
proof -
  have "collecting_waiter \<in> set (waits collected_pool)" "0 \<in> set (watched collecting_waiter)"
    "0 \<notin> set (contested collecting_waiter)"
    by (simp_all add: collected_pool_facts collecting_waiter_facts)
  from result_wait_collects_everything [OF sample_new collected_pool_def this(1) collecting_waiter_facts(2,3) this(2,3)]
  show ?thesis unfolding collected_pool_facts nth_Cons_0 sample_agent_facts mset.simps empty_neutral by blast
qed

theorem pool_keeps_its_limit_witness:
  "running_count (agents (pool_run sample_host sample_pool [sample_spawn])) \<le> 8"
proof -
  have "max_live (pool_run sample_host sample_pool [sample_spawn]) = Some 8"
    unfolding sample_spawned by (simp add: with_limit_def)
  with pool_keeps_its_limit [OF sample_new refl, of sample_host "[sample_spawn]"] show ?thesis by blast
qed

theorem stopped_task_ends_witness:
  "status (agents (pool_run sample_host (pool_step sample_host (pool_run sample_host sample_pool [sample_spawn])
     (StopTask 0 ByUser False)) []) ! 0) \<noteq> Running"
proof -
  have a: "agents (pool_run sample_host sample_pool [sample_spawn]) = [sample_agent Running [] [] []]"
    unfolding sample_spawned by (simp add: with_limit_def)
  have "0 < length (agents (pool_run sample_host sample_pool [sample_spawn]))"
    "status (agents (pool_run sample_host sample_pool [sample_spawn]) ! 0) = Running"
    "stop_timer (agents (pool_run sample_host sample_pool [sample_spawn]) ! 0) = None"
    unfolding a by simp_all
  with stopped_task_ends [OF sample_new refl this(1,2) refl] show ?thesis by blast
qed

end
