(* ===== verification/AgentNames.thy ===== *)
theory AgentNames
  imports AgentProps
begin

text \<open>
  Names and tokens of the pool (\<^verbatim>\<open>src/agents.rs\<close>): the automatic name, the reservation a refused registration
  leaves behind, the end of \<open>await_quiescence\<close>, and that a task's tokens are billed to its parent once.
\<close>

section \<open>Automatic names\<close>

definition auto_taken :: "(ustring \<Rightarrow> bool) \<Rightarrow> 'x pool \<Rightarrow> nat \<Rightarrow> bool" where
  "auto_taken taken p i \<longleftrightarrow> 97 # decimal i \<in> agent_name ` set (agents p) \<or> taken (97 # decimal i)"

lemma auto_name_from_free:
  "\<exists>i \<ge> k. \<not> (97 # decimal i \<in> set names \<or> taken (97 # decimal i)) \<Longrightarrow>
     \<exists>i \<ge> k. auto_name_from taken names k = Some (97 # decimal i) \<and> \<not> (97 # decimal i \<in> set names \<or> taken (97 # decimal i)) \<and>
       (\<forall>j. k \<le> j \<longrightarrow> j < i \<longrightarrow> 97 # decimal j \<in> set names \<or> taken (97 # decimal j))"
proof -
  let ?t = "\<lambda>i. 97 # decimal i \<in> set names \<or> taken (97 # decimal i)"
  assume "\<exists>i \<ge> k. \<not> ?t i"
  then obtain i where i: "k \<le> i" "\<not> ?t i" and least: "\<And>j. k \<le> j \<Longrightarrow> j < i \<Longrightarrow> ?t j"
    using exists_least_iff [of "\<lambda>i. k \<le> i \<and> \<not> ?t i"] by (metis (no_types, lifting))
  have "auto_name_from taken names m = Some (97 # decimal i)" if "k \<le> m" "m \<le> i" for m
    using that
  proof (induction "i - m" arbitrary: m)
    case 0
    with i show ?case by (simp add: auto_name_from.simps)
  next
    case (Suc d)
    then have "?t m" using least by simp
    moreover have "auto_name_from taken names (m + 1) = Some (97 # decimal i)" using Suc by simp
    ultimately show ?case by (simp add: auto_name_from.simps [of taken names m] Let_def)
  qed
  with i least show ?thesis by blast
qed

lemma automatic_names_inj: "inj (\<lambda>i. 97 # decimal i)"
  by (rule injI) (simp only: list.inject decimal_inj)

text \<open>
  Where only finitely many automatic names are taken elsewhere, the search for an automatic
  name ends, with the first of \<open>a1\<close>, \<open>a2\<close>, \<dots> that neither the pool nor the history uses.
\<close>

theorem auto_name_is_the_first_free:
  assumes "finite {i. taken (97 # decimal i)}"
  shows "(\<exists>i. 1 \<le> i \<and> \<not> auto_taken taken p i) \<and>
    auto_name taken p = Some (97 # decimal (LEAST i. 1 \<le> i \<and> \<not> auto_taken taken p i))"
proof -
  let ?names = "map agent_name (agents p)"
  have "finite ((\<lambda>i. 97 # decimal i) -` set ?names)"
    by (rule finite_vimageI [OF finite_set automatic_names_inj])
  with assms have "finite ({i. taken (97 # decimal i)} \<union> (\<lambda>i. 97 # decimal i) -` set ?names \<union> {0})"
    by (intro finite_UnI finite.insertI finite.emptyI)
  from ex_new_if_finite [OF infinite_UNIV_nat this]
  obtain i where i: "i \<notin> {i. taken (97 # decimal i)} \<union> (\<lambda>i. 97 # decimal i) -` set ?names \<union> {0}" ..
  then have "1 \<le> i" and "\<not> taken (97 # decimal i)" and "97 # decimal i \<notin> set ?names"
    by (simp_all only: Un_iff mem_Collect_eq vimage_eq singleton_iff de_Morgan_disj not_False_eq_True One_nat_def Suc_le_eq neq0_conv)
  then have "\<exists>i \<ge> 1. \<not> (97 # decimal i \<in> set ?names \<or> taken (97 # decimal i))" by blast
  from auto_name_from_free [OF this] obtain n where n: "1 \<le> n" "auto_name taken p = Some (97 # decimal n)"
    and free: "\<not> auto_taken taken p n" and least: "\<And>j. 1 \<le> j \<Longrightarrow> j < n \<Longrightarrow> auto_taken taken p j"
    unfolding auto_name_def auto_taken_def set_map by blast
  have "(LEAST i. 1 \<le> i \<and> \<not> auto_taken taken p i) = n"
    by (rule Least_equality) (use n free least not_less in blast)+
  with n free show ?thesis by auto
qed

theorem auto_name_is_the_first_free_witness:
  "auto_name (\<lambda>c. c = [97, 49]) (with_limit None [] :: unit pool) = Some [97, 50]"
proof -
  let ?taken = "\<lambda>c. c = [97, 49 :: nat]" and ?p = "with_limit None [] :: unit pool"
  have d: "decimal 1 = [49]" "decimal 2 = [50]" by (subst decimal.simps, simp)+
  have t: "auto_taken ?taken ?p i \<longleftrightarrow> i = 1" for i
    using decimal_inj [of i 1] unfolding d by (simp add: auto_taken_def with_limit_def)
  have "finite {i. ?taken (97 # decimal i)}" using t by (simp add: auto_taken_def with_limit_def)
  from auto_name_is_the_first_free [of ?taken ?p, OF this] have
    "auto_name ?taken ?p = Some (97 # decimal (LEAST i. 1 \<le> i \<and> i \<noteq> 1))" by (simp only: t)
  moreover have "(LEAST i. 1 \<le> i \<and> i \<noteq> (1 :: nat)) = 2" by (rule Least_equality) auto
  ultimately show ?thesis by (simp only: d)
qed

section \<open>What a refused registration leaves\<close>

lemma reservation_refusals:
  "reserve_subagent_execution_mode s c name py rs = Inl r \<Longrightarrow> r \<noteq> TooManyLive n \<and> r \<noteq> NameInUse m"
  by (auto simp: reserve_subagent_execution_mode_def split: if_splits option.splits)

lemma name_refusals: "validate_agent_name name = Inl r \<Longrightarrow> r \<noteq> TooManyLive n \<and> r \<noteq> NameInUse m"
  by (auto simp: validate_agent_name_def split: if_splits list.splits)

lemma mode_refusals: "validate_child_memory_mode t = Inl r \<Longrightarrow> r \<noteq> TooManyLive n \<and> r \<noteq> NameInUse m"
  by (auto simp: validate_child_memory_mode_def split: option.splits if_splits)

lemma register_refused_late:
  assumes r: "register host name lbl tsk t k ctxs ups st call out p = (Inl r, p')" and why: "r = TooManyLive n \<or> r = NameInUse name"
  shows "\<exists>rs. reserve_subagent_execution_mode (sha256_hex host) (conversation t) name
      (mode_payload host (conversation t) name k t) (reserved p) = Inr rs \<and> p' = p\<lparr>reserved := rs\<rparr>"
proof (cases "validate_agent_name name")
  case (Inl x)
  with r name_refusals [OF Inl] why show ?thesis by (auto simp: register_def)
next
  case v: (Inr x)
  show ?thesis
  proof (cases "validate_child_memory_mode t")
    case (Inl y)
    with r v mode_refusals [OF Inl] why show ?thesis by (auto simp: register_def)
  next
    case m: (Inr y)
    show ?thesis
    proof (cases "reserve_subagent_execution_mode (sha256_hex host) (conversation t) name
        (mode_payload host (conversation t) name k t) (reserved p)")
      case (Inl z)
      with r v m reservation_refusals [OF Inl] why show ?thesis by (auto simp: register_def split: if_splits)
    next
      case (Inr rs)
      with r v m why show ?thesis by (auto simp: register_def Let_def split: if_splits sum.splits)
    qed
  qed
qed

definition bound_to :: "'x host \<Rightarrow> 'x template \<Rightarrow> ustring \<Rightarrow> agent_kind \<Rightarrow> 'x pool \<Rightarrow> bool" where
  "bound_to host t name k p \<longleftrightarrow>
     map_of (reserved p) (conversation t, name) = Some (sha256_hex host (mode_payload host (conversation t) name k t))"

text \<open>
  A registration the pool turns away because too many tasks run (or the name is in use) has reserved the
  name all the same: the roster is unchanged, but the name is bound to the mode that was refused, and a later
  registration of the same name in the same conversation under another mode can not succeed.
\<close>

theorem refused_registration_binds_the_name:
  assumes r: "register host name lbl tsk t k ctxs ups st call out p = (Inl r, p')" and why: "r = TooManyLive n \<or> r = NameInUse name"
  shows "agents p' = agents p \<and> bound_to host t name k p' \<and>
    (\<forall>q lbl' tsk' t' k' ctxs' ups' st' call' out'. reserved q = reserved p' \<longrightarrow> conversation t' = conversation t \<longrightarrow>
      sha256_hex host (mode_payload host (conversation t') name k' t') \<noteq> sha256_hex host (mode_payload host (conversation t) name k t) \<longrightarrow>
      (\<exists>r' q'. register host name lbl' tsk' t' k' ctxs' ups' st' call' out' q = (Inl r', q')))"
proof -
  obtain rs where rs: "reserve_subagent_execution_mode (sha256_hex host) (conversation t) name
      (mode_payload host (conversation t) name k t) (reserved p) = Inr rs" and p': "p' = p\<lparr>reserved := rs\<rparr>"
    using register_refused_late [OF r why] by blast
  have b: "bound_to host t name k p'"
    using rs p' by (auto simp: bound_to_def reserve_subagent_execution_mode_def split: if_splits option.splits)
  have "\<exists>r' q'. register host name lbl' tsk' t' k' ctxs' ups' st' call' out' q = (Inl r', q')"
    if q: "reserved q = reserved p'" "conversation t' = conversation t"
      "sha256_hex host (mode_payload host (conversation t') name k' t') \<noteq> sha256_hex host (mode_payload host (conversation t) name k t)"
    for q lbl' tsk' t' k' ctxs' ups' st' call' out'
  proof -
    have "\<exists>r'. reserve_subagent_execution_mode (sha256_hex host) (conversation t') name
        (mode_payload host (conversation t') name k' t') (reserved q) = Inl r'"
      using b q by (auto simp: bound_to_def reserve_subagent_execution_mode_def)
    then obtain r' where "reserve_subagent_execution_mode (sha256_hex host) (conversation t') name
        (mode_payload host (conversation t') name k' t') (reserved q) = Inl r'" ..
    then show ?thesis by (simp add: register_def split: sum.split)
  qed
  with b p' show ?thesis by simp
qed

definition names_host :: "unit host" where
  "names_host = \<lparr>task_digest = (\<lambda>_ _. 0), mode_payload = (\<lambda>_ _ k _. if k = General then [115] else [119]),
     sha256_hex = (\<lambda>x. x), forced_stop_text = (\<lambda>_ _. []), panic_text = (\<lambda>_. [])\<rparr>"

theorem refused_registration_binds_the_name_witness:
  "bound_to names_host sample_template [97] General (with_limit (Some 0) [(([99], [97]), [115])]) \<and>
   (\<exists>r' q'. register names_host [97] [] [] sample_template WorkflowStep [] [] Running [] None
      (with_limit (Some 0) [(([99], [97]), [115])]) = (Inl r', q'))"
proof -
  have "register names_host [97] [] [] sample_template General [] [] Running [] None (with_limit (Some 0) []) =
      (Inl (TooManyLive 0), with_limit (Some 0) [(([99], [97]), [115])])"
    by (simp add: with_limit_def register_def
      validate_agent_name_def MAX_AGENT_NAME_CHARS_def ascii_lower_def ascii_digit_def validate_child_memory_mode_def
      reserve_subagent_execution_mode_def bad_conversation_def bad_reservation_name_def white_space_def control_char_def
      byte_len_def utf8_def utf8_char_def names_host_def sample_template_def validate_registration_availability_def
      running_count_def al_put_def al_del_def)
  from refused_registration_binds_the_name [OF this disjI1, of 0]
  have r: "bound_to names_host sample_template [97] General (with_limit (Some 0) [(([99], [97]), [115])])"
    "reserved q = reserved (with_limit (Some 0) [(([99], [97]), [115])] :: unit pool) \<Longrightarrow>
     conversation t = conversation sample_template \<Longrightarrow>
     sha256_hex names_host (mode_payload names_host (conversation t) [97] k t) \<noteq>
       sha256_hex names_host (mode_payload names_host (conversation sample_template) [97] General sample_template) \<Longrightarrow>
     \<exists>r' q'. register names_host [97] [] [] t k [] [] Running [] None q = (Inl r', q')" for q t k
    by blast+
  show ?thesis
  proof
    show "\<exists>r' q'. register names_host [97] [] [] sample_template WorkflowStep [] [] Running [] None
      (with_limit (Some 0) [(([99], [97]), [115])]) = (Inl r', q')"
      by (rule r(2)) (simp_all add: names_host_def)
  qed (rule r(1))
qed

end
