(* ===== verification/DocStore.thy ===== *)
theory DocStore
  imports Prelude Utf8
begin

text \<open>
  The document store (\<^verbatim>\<open>src/document_store.rs\<close>): the snapshot in memory, the background writer and \<open>flush\<close>;
  the index of attachments kept beside the snapshot (\<^verbatim>\<open>src/attachment_refs.rs\<close>); and \<open>save_unchecked\<close> with its
  cache of fingerprints (\<^verbatim>\<open>src/storage.rs\<close>). What the document holds beside conversations is opaque.
\<close>

section \<open>Documents without bodies\<close>

record 'x conversation =
  conv_id :: ustring
  conv_contexts :: "'x list"
  conv_branches :: "'x list list"
  conv_rest :: 'x

record 'x workspace =
  shell :: 'x
  conversations :: "'x conversation list"

record 'x document =
  settings :: 'x
  workspaces :: "'x workspace list"

text \<open>Per conversation, what its body names; \<open>names\<close> collects the ids of a list of contexts.\<close>

type_synonym 'r attachment_refs = "(ustring \<times> 'r list) list"

definition has_body :: "'x conversation \<Rightarrow> bool" where
  "has_body c \<longleftrightarrow> conv_contexts c \<noteq> [] \<or> conv_branches c \<noteq> []"

definition strip_body :: "'x conversation \<Rightarrow> 'x conversation" where
  "strip_body c = c\<lparr>conv_contexts := [], conv_branches := []\<rparr>"

definition body_refs :: "('x list \<Rightarrow> 'r list) \<Rightarrow> 'x conversation \<Rightarrow> 'r list" where
  "body_refs names c = concat (map names (conv_contexts c # conv_branches c))"

definition record_refs :: "('x list \<Rightarrow> 'r list) \<Rightarrow> 'x conversation \<Rightarrow> 'r attachment_refs \<Rightarrow> 'r attachment_refs" where
  "record_refs names c = al_put (conv_id c) (body_refs names c)"

definition hollow_conversation ::
  "('x list \<Rightarrow> 'r list) \<Rightarrow> 'x conversation \<Rightarrow> 'r attachment_refs \<Rightarrow> 'x conversation \<times> 'r attachment_refs" where
  "hollow_conversation names c refs = (if has_body c then (strip_body c, record_refs names c refs) else (c, refs))"

fun hollow_all ::
  "('x list \<Rightarrow> 'r list) \<Rightarrow> 'x conversation list \<Rightarrow> 'r attachment_refs \<Rightarrow> 'x conversation list \<times> 'r attachment_refs" where
  "hollow_all names [] refs = ([], refs)"
| "hollow_all names (c # cs) refs =
     (let (c, refs) = hollow_conversation names c refs; (cs, refs) = hollow_all names cs refs in (c # cs, refs))"

fun hollow_workspaces ::
  "('x list \<Rightarrow> 'r list) \<Rightarrow> 'x workspace list \<Rightarrow> 'r attachment_refs \<Rightarrow> 'x workspace list \<times> 'r attachment_refs" where
  "hollow_workspaces names [] refs = ([], refs)"
| "hollow_workspaces names (w # ws) refs =
     (let (cs, refs) = hollow_all names (conversations w) refs; (ws, refs) = hollow_workspaces names ws refs
      in (w\<lparr>conversations := cs\<rparr> # ws, refs))"

definition live_ids :: "'x document \<Rightarrow> ustring list" where
  "live_ids d = concat (map (\<lambda>w. map conv_id (conversations w)) (workspaces d))"

definition retain_conversations :: "ustring list \<Rightarrow> 'r attachment_refs \<Rightarrow> 'r attachment_refs" where
  "retain_conversations present = filter (\<lambda>(i, _). i \<in> set present)"

definition hollow ::
  "('x list \<Rightarrow> 'r list) \<Rightarrow> 'x document \<Rightarrow> 'r attachment_refs \<Rightarrow> 'x document \<times> 'r attachment_refs" where
  "hollow names d refs =
     (let (ws, refs) = hollow_workspaces names (workspaces d) refs
      in (d\<lparr>workspaces := ws\<rparr>, retain_conversations (live_ids d) refs))"

text \<open>\<open>image_ids\<close> and \<open>file_ids\<close>; \<open>named\<close> is what the document itself names: queued messages and bodies still on it.\<close>

definition all_ids :: "('x document \<Rightarrow> 'r list) \<Rightarrow> 'r attachment_refs \<Rightarrow> 'x document \<Rightarrow> 'r list" where
  "all_ids named refs d = named d @ concat (List.map_filter (map_of refs) (live_ids d))"

section \<open>The disk\<close>

definition MAX_DOCUMENT_BYTES :: nat where "MAX_DOCUMENT_BYTES = 16 * 1024 * 1024"

datatype store_error =
    LeaseElsewhere
  | LeaseMissing
  | LeaseContended
  | LeaseFailed ustring
  | SnapshotElsewhere
  | SnapshotMissing
  | LoadFailed ustring
  | ReconcileFailed ustring
  | Unserializable ustring
  | DocumentTooLarge
  | AnchorNotWritten ustring
  | LastSaveFailed store_error
  | FlushBehindWriter
  | NotFinished
  | FallbackFailed store_error

text \<open>
  A file is its bytes and a stamp: the modification time, length and creation time, which every replacement
  changes. \<open>printed\<close> is the cache of fingerprints.
\<close>

type_synonym disk_file = "nat list \<times> nat"

record disk =
  files :: "ustring \<Rightarrow> disk_file option"
  printed :: "ustring \<Rightarrow> nat option"
  stamps :: nat

definition disk_meta :: "disk \<Rightarrow> ustring \<Rightarrow> nat option" where
  "disk_meta d path = map_option snd (files d path)"

text \<open>What is not in this code: the JSON of the anchor, its hash and the ids a body names.\<close>

record ('x, 'r) host =
  anchor_json :: "'x \<Rightarrow> 'x list \<Rightarrow> store_error + nat list"
  fingerprint :: "nat list \<Rightarrow> nat"
  names_of :: "'x list \<Rightarrow> 'r list"

text \<open>How a replacement ends: done, refused with the file as it was, or done and then the directory not synced.\<close>

datatype fate = Written | Refused ustring | Unsynced ustring

definition put_file :: "ustring \<Rightarrow> nat list \<Rightarrow> disk \<Rightarrow> disk" where
  "put_file path bytes d = d\<lparr>files := (files d)(path \<mapsto> (bytes, stamps d)), stamps := stamps d + 1\<rparr>"

definition atomic_write :: "fate \<Rightarrow> ustring \<Rightarrow> nat list \<Rightarrow> disk \<Rightarrow> (ustring + unit) \<times> disk" where
  "atomic_write fate path bytes d =
     (case fate of
        Written \<Rightarrow> (Inr (), put_file path bytes d)
      | Refused e \<Rightarrow> (Inl e, d)
      | Unsynced e \<Rightarrow> (Inl e, put_file path bytes d))"

definition save_unchecked ::
  "('x, 'r) host \<Rightarrow> fate \<Rightarrow> ustring \<Rightarrow> 'x document \<Rightarrow> disk \<Rightarrow> (store_error + unit) \<times> disk" where
  "save_unchecked host fate path doc d =
     (case anchor_json host (settings doc) (map shell (workspaces doc)) of
        Inl e \<Rightarrow> (Inl e, d)
      | Inr bytes \<Rightarrow>
          if length bytes > MAX_DOCUMENT_BYTES then (Inl DocumentTooLarge, d)
          else if printed d path = Some (fingerprint host bytes) \<and> files d path \<noteq> None then (Inr (), d)
          else case atomic_write fate path bytes d of
              (Inr _, d) \<Rightarrow> (Inr (), d\<lparr>printed := (printed d)(path \<mapsto> fingerprint host bytes)\<rparr>)
            | (Inl e, d) \<Rightarrow> (Inl (AnchorNotWritten e), d))"

definition prime_layout_write_cache :: "('x, 'r) host \<Rightarrow> ustring \<Rightarrow> disk \<Rightarrow> disk" where
  "prime_layout_write_cache host path d =
     d\<lparr>printed := (printed d)(path := map_option (\<lambda>f. fingerprint host (fst f)) (files d path))\<rparr>"

record ('x, 'r) loaded =
  loaded_doc :: "'x document"
  loaded_refs :: "'r attachment_refs"
  loaded_fresh :: bool

text \<open>
  \<open>load_or_initialize_scanned\<close>: \<open>seed\<close> is the document a first start writes, \<open>answer\<close> what the reader makes of the
  file and of the conversation store.
\<close>

definition load_or_initialize ::
  "('x, 'r) host \<Rightarrow> fate \<Rightarrow> ustring \<Rightarrow> 'x document \<Rightarrow> store_error + ('x, 'r) loaded \<Rightarrow> disk \<Rightarrow>
     (store_error + ('x, 'r) loaded) \<times> disk" where
  "load_or_initialize host fate path seed answer d =
     (case (if files d path = None then save_unchecked host fate path seed d else (Inr (), d)) of
        (Inl e, d) \<Rightarrow> (Inl e, d)
      | (Inr _, d) \<Rightarrow>
          (case answer of
             Inl e \<Rightarrow> (Inl e, d)
           | Inr l \<Rightarrow> (Inr l, prime_layout_write_cache host path d)))"

section \<open>The store\<close>

text \<open>A shared document: \<open>arc\<close> is its address.\<close>

record 'x shared =
  arc :: nat
  doc :: "'x document"

record ('x, 'r) snapshot =
  snap_doc :: "'x shared"
  snap_refs :: "'r attachment_refs"
  snap_path :: ustring
  snap_meta :: "nat option"

record 'x job =
  job_doc :: "'x shared"
  job_path :: ustring

text \<open>Where the writer thread stands.\<close>

datatype 'x writer =
    NoWriter
  | WaitingForJob
  | Saving "'x job"
  | Saved "'x job" "store_error + unit"
  | TellingRecovery
  | TellingFailure store_error nat
  | Checking nat
  | BackingOff

text \<open>Where a call stands that is not done at once: a \<open>commit\<close> without a writer, a \<open>flush\<close>.\<close>

datatype 'x caller =
    CommitSaving "'x job" "store_error option"
  | CommitSaved "'x job" "store_error option" "store_error + unit"
  | FlushWaiting
  | FlushSaving "'x job"
  | FlushSaved "'x job" "store_error + unit"
  | Returned "store_error + unit"

record ('x, 'r) store =
  snap :: "('x, 'r) snapshot option"
  pending :: "'x job option"
  write_in_flight :: bool
  writer :: "'x writer"
  last_write_error :: "store_error option"
  reported_write_failure :: "store_error option"
  process_lease :: "ustring option"
  ipc_ready :: bool
  fresh_install :: bool
  callers :: "'x caller list"
  on_disk :: disk
  arcs :: nat
  told :: "store_error option list"

definition new_store :: "disk \<Rightarrow> ('x, 'r) store" where
  "new_store d = \<lparr>snap = None, pending = None, write_in_flight = False, writer = NoWriter, last_write_error = None,
     reported_write_failure = None, process_lease = None, ipc_ready = False, fresh_install = False, callers = [],
     on_disk = d, arcs = 0, told = []\<rparr>"

definition writer_started :: "('x, 'r) store \<Rightarrow> bool" where
  "writer_started s \<longleftrightarrow> (case writer s of NoWriter \<Rightarrow> False | _ \<Rightarrow> True)"

subsection \<open>The lease\<close>

definition is_ipc_ready :: "('x, 'r) store \<Rightarrow> bool" where
  "is_ipc_ready s \<longleftrightarrow> process_lease s \<noteq> None \<and> ipc_ready s"

definition mark_ipc_ready :: "('x, 'r) store \<Rightarrow> (store_error + unit) \<times> ('x, 'r) store" where
  "mark_ipc_ready s = (if process_lease s = None then (Inl LeaseMissing, s) else (Inr (), s\<lparr>ipc_ready := True\<rparr>))"

text \<open>\<open>taken\<close>: what locking the lease file said.\<close>

definition acquire_process_authority ::
  "ustring \<Rightarrow> store_error + unit \<Rightarrow> ('x, 'r) store \<Rightarrow> (store_error + unit) \<times> ('x, 'r) store" where
  "acquire_process_authority path taken s =
     (case process_lease s of
        Some lease \<Rightarrow> (if lease = path then Inr () else Inl LeaseElsewhere, s)
      | None \<Rightarrow>
          (case taken of
             Inl e \<Rightarrow> (Inl e, s)
           | Inr _ \<Rightarrow> (Inr (), s\<lparr>process_lease := Some path\<rparr>)))"

subsection \<open>Reading\<close>

definition install ::
  "('x, 'r) host \<Rightarrow> ustring \<Rightarrow> ('x, 'r) loaded \<Rightarrow> ('x, 'r) store \<Rightarrow> 'x shared \<times> ('x, 'r) store" where
  "install host path l s =
     (let (d, refs) = hollow (names_of host) (loaded_doc l) (loaded_refs l); a = \<lparr>arc = arcs s, doc = d\<rparr>
      in (a, s\<lparr>arcs := arcs s + 1,
               snap := Some \<lparr>snap_doc = a, snap_refs = refs, snap_path = path, snap_meta = disk_meta (on_disk s) path\<rparr>\<rparr>))"

text \<open>
  Startup. The load may quarantine the file and rebuild it: \<open>answer\<close> is what it returned and \<open>left\<close> the disk it left;
  \<open>reconciled\<close> is what the attachment reconciliation said.
\<close>

definition initialize ::
  "('x, 'r) host \<Rightarrow> ustring \<Rightarrow> store_error + unit \<Rightarrow> store_error + ('x, 'r) loaded \<Rightarrow> disk \<Rightarrow> store_error + unit \<Rightarrow>
     ('x, 'r) store \<Rightarrow> (store_error + 'x shared) \<times> ('x, 'r) store" where
  "initialize host path taken answer left reconciled s =
     (case acquire_process_authority path taken s of
        (Inl e, s) \<Rightarrow> (Inl e, s)
      | (Inr _, s) \<Rightarrow>
          let s = s\<lparr>on_disk := left\<rparr> in
          (case answer of
             Inl e \<Rightarrow> (Inl e, s)
           | Inr l \<Rightarrow>
               let (a, s) = install host path l (s\<lparr>fresh_install := loaded_fresh l\<rparr>) in
               (case reconciled of Inl e \<Rightarrow> (Inl e, s) | Inr _ \<Rightarrow> (Inr a, s))))"

definition snapshot_with_refs :: "ustring \<Rightarrow> ('x, 'r) store \<Rightarrow> store_error + 'x shared \<times> 'r attachment_refs" where
  "snapshot_with_refs path s =
     (case snap s of
        Some sn \<Rightarrow> if snap_path sn = path then Inr (snap_doc sn, snap_refs sn) else Inl SnapshotElsewhere
      | None \<Rightarrow> Inl SnapshotMissing)"

definition current_snapshot :: "ustring \<Rightarrow> ('x, 'r) store \<Rightarrow> store_error + 'x shared" where
  "current_snapshot path s =
     (case snap s of
        Some sn \<Rightarrow> if snap_path sn = path then Inr (snap_doc sn) else Inl SnapshotElsewhere
      | None \<Rightarrow> Inl SnapshotMissing)"

definition writer_idle :: "('x, 'r) store \<Rightarrow> bool" where
  "writer_idle s \<longleftrightarrow> pending s = None \<and> \<not> write_in_flight s"

text \<open>The snapshot a read may answer with: nothing of ours is on its way and the file is the one it mirrors.\<close>

definition fresh_snapshot :: "ustring \<Rightarrow> ('x, 'r) store \<Rightarrow> 'x shared option" where
  "fresh_snapshot path s =
     (case snap s of
        None \<Rightarrow> None
      | Some sn \<Rightarrow>
          if snap_path sn = path \<and> \<not> (writer_idle s \<and> snap_meta sn \<noteq> disk_meta (on_disk s) path)
          then Some (snap_doc sn) else None)"

definition read_doc ::
  "('x, 'r) host \<Rightarrow> ustring \<Rightarrow> store_error + unit \<Rightarrow> fate \<Rightarrow> 'x document \<Rightarrow> store_error + ('x, 'r) loaded \<Rightarrow>
     ('x, 'r) store \<Rightarrow> (store_error + 'x shared) \<times> ('x, 'r) store" where
  "read_doc host path taken fate seed answer s =
     (case acquire_process_authority path taken s of
        (Inl e, s) \<Rightarrow> (Inl e, s)
      | (Inr _, s) \<Rightarrow>
          (case fresh_snapshot path s of
             Some a \<Rightarrow> (Inr a, s)
           | None \<Rightarrow>
               (case load_or_initialize host fate path seed answer (on_disk s) of
                  (Inl e, d) \<Rightarrow> (Inl e, s\<lparr>on_disk := d\<rparr>)
                | (Inr l, d) \<Rightarrow> (let (a, s) = install host path l (s\<lparr>on_disk := d\<rparr>) in (Inr a, s)))))"

subsection \<open>Committing\<close>

definition snap_at :: "ustring \<Rightarrow> ('x, 'r) store \<Rightarrow> ('x, 'r) snapshot option" where
  "snap_at path s = (case snap s of Some sn \<Rightarrow> if snap_path sn = path then Some sn else None | None \<Rightarrow> None)"

text \<open>\<open>spawned\<close>: a thread could be had.\<close>

definition ensure_writer :: "bool \<Rightarrow> ('x, 'r) store \<Rightarrow> bool \<times> ('x, 'r) store" where
  "ensure_writer spawned s =
     (if writer_started s then (True, s)
      else if spawned then (True, s\<lparr>writer := WaitingForJob\<rparr>) else (False, s))"

definition stale_answer :: "store_error option \<Rightarrow> store_error + unit" where
  "stale_answer stale = (case stale of Some e \<Rightarrow> Inl (LastSaveFailed e) | None \<Rightarrow> Inr ())"

definition commit ::
  "('x, 'r) host \<Rightarrow> ustring \<Rightarrow> 'x document \<Rightarrow> 'r attachment_refs option \<Rightarrow> bool \<Rightarrow> ('x, 'r) store \<Rightarrow> ('x, 'r) store" where
  "commit host path d refs spawned s =
     (case process_lease s of
        None \<Rightarrow> s\<lparr>callers := callers s @ [Returned (Inl LeaseMissing)]\<rparr>
      | Some lease \<Rightarrow>
          if lease \<noteq> path then s\<lparr>callers := callers s @ [Returned (Inl LeaseElsewhere)]\<rparr>
          else
            let refs = (case refs of Some r \<Rightarrow> r | None \<Rightarrow> (case snap_at path s of Some sn \<Rightarrow> snap_refs sn | None \<Rightarrow> []));
                (d, refs) = hollow (names_of host) d refs;
                a = \<lparr>arc = arcs s, doc = d\<rparr>;
                meta = (case snap_at path s of Some sn \<Rightarrow> snap_meta sn | None \<Rightarrow> disk_meta (on_disk s) path);
                job = \<lparr>job_doc = a, job_path = path\<rparr>;
                stale = last_write_error s;
                s = s\<lparr>arcs := arcs s + 1, pending := Some job, last_write_error := None,
                      snap := Some \<lparr>snap_doc = a, snap_refs = refs, snap_path = path, snap_meta = meta\<rparr>\<rparr>
            in case ensure_writer spawned s of
                 (True, s) \<Rightarrow> s\<lparr>callers := callers s @ [Returned (stale_answer stale)]\<rparr>
               | (False, s) \<Rightarrow> s\<lparr>pending := None, callers := callers s @ [CommitSaving job stale]\<rparr>)"

text \<open>The file is ours: the snapshot of this path takes its stamp.\<close>

definition rebase :: "ustring \<Rightarrow> ('x, 'r) store \<Rightarrow> ('x, 'r) store" where
  "rebase path s =
     (case snap s of
        Some sn \<Rightarrow> if snap_path sn = path then s\<lparr>snap := Some (sn\<lparr>snap_meta := disk_meta (on_disk s) path\<rparr>)\<rparr> else s
      | None \<Rightarrow> s)"

subsection \<open>Callers that wait or write\<close>

definition set_caller :: "nat \<Rightarrow> 'x caller \<Rightarrow> ('x, 'r) store \<Rightarrow> ('x, 'r) store" where
  "set_caller k c s = s\<lparr>callers := (callers s)[k := c]\<rparr>"

definition save_job ::
  "('x, 'r) host \<Rightarrow> fate \<Rightarrow> 'x job \<Rightarrow> ('x, 'r) store \<Rightarrow> (store_error + unit) \<times> ('x, 'r) store" where
  "save_job host fate job s =
     (let (r, d) = save_unchecked host fate (job_path job) (doc (job_doc job)) (on_disk s) in (r, s\<lparr>on_disk := d\<rparr>))"

definition commit_saved ::
  "nat \<Rightarrow> 'x job \<Rightarrow> store_error option \<Rightarrow> store_error + unit \<Rightarrow> ('x, 'r) store \<Rightarrow> ('x, 'r) store" where
  "commit_saved k job stale result s =
     (case result of
        Inr _ \<Rightarrow> set_caller k (Returned (stale_answer stale)) (if writer_idle s then rebase (job_path job) s else s)
      | Inl e \<Rightarrow> set_caller k (Returned (Inl e)) (s\<lparr>last_write_error := Some e\<rparr>))"

text \<open>One turn of the loop of \<open>flush\<close>; \<open>expired\<close>: the deadline is over.\<close>

definition flush_turn :: "nat \<Rightarrow> bool \<Rightarrow> ('x, 'r) store \<Rightarrow> ('x, 'r) store" where
  "flush_turn k expired s =
     (if writer_idle s then
        set_caller k (Returned (case last_write_error s of Some e \<Rightarrow> Inl e | None \<Rightarrow> Inr ())) s
      else if \<not> expired then s
      else if write_in_flight s then set_caller k (Returned (Inl FlushBehindWriter)) s
      else case pending s of
          None \<Rightarrow> set_caller k (Returned (Inl NotFinished)) s
        | Some job \<Rightarrow> set_caller k (FlushSaving job) (s\<lparr>pending := None\<rparr>))"

definition flush_saved :: "nat \<Rightarrow> 'x job \<Rightarrow> store_error + unit \<Rightarrow> ('x, 'r) store \<Rightarrow> ('x, 'r) store" where
  "flush_saved k job result s =
     (case result of
        Inr _ \<Rightarrow> set_caller k (Returned (Inr ())) (rebase (job_path job) (s\<lparr>last_write_error := None\<rparr>))
      | Inl e \<Rightarrow>
          set_caller k (Returned (Inl (FallbackFailed e)))
            (s\<lparr>last_write_error := Some (FallbackFailed e), pending := Some job\<rparr>))"

definition caller_step :: "('x, 'r) host \<Rightarrow> nat \<Rightarrow> bool \<Rightarrow> fate \<Rightarrow> ('x, 'r) store \<Rightarrow> ('x, 'r) store" where
  "caller_step host k expired fate s =
     (if k < length (callers s) then
        (case callers s ! k of
           CommitSaving job stale \<Rightarrow> (let (r, s) = save_job host fate job s in set_caller k (CommitSaved job stale r) s)
         | CommitSaved job stale r \<Rightarrow> commit_saved k job stale r s
         | FlushWaiting \<Rightarrow> flush_turn k expired s
         | FlushSaving job \<Rightarrow> (let (r, s) = save_job host fate job s in set_caller k (FlushSaved job r) s)
         | FlushSaved job r \<Rightarrow> flush_saved k job r s
         | Returned _ \<Rightarrow> s)
      else s)"

subsection \<open>The writer\<close>

definition writer_saved :: "'x job \<Rightarrow> store_error + unit \<Rightarrow> ('x, 'r) store \<Rightarrow> ('x, 'r) store" where
  "writer_saved job result s =
     (let s = s\<lparr>write_in_flight := False\<rparr> in
      case result of
        Inr _ \<Rightarrow>
          let recovered = reported_write_failure s \<noteq> None;
              s = s\<lparr>last_write_error := None, reported_write_failure := None\<rparr>;
              s = (if pending s = None then rebase (job_path job) s else s)
          in s\<lparr>writer := (if recovered then TellingRecovery else WaitingForJob)\<rparr>
      | Inl e \<Rightarrow>
          let newly = reported_write_failure s \<noteq> Some e;
              s = s\<lparr>last_write_error := Some e\<rparr>;
              s = (if newly then s\<lparr>reported_write_failure := Some e\<rparr> else s);
              s = (if pending s = None then s\<lparr>pending := Some job\<rparr> else s)
          in s\<lparr>writer := (if newly then TellingFailure e (arc (job_doc job)) else Checking (arc (job_doc job)))\<rparr>)"

definition writer_step :: "('x, 'r) host \<Rightarrow> fate \<Rightarrow> ('x, 'r) store \<Rightarrow> ('x, 'r) store" where
  "writer_step host fate s =
     (case writer s of
        NoWriter \<Rightarrow> s
      | WaitingForJob \<Rightarrow>
          (case pending s of
             Some job \<Rightarrow> s\<lparr>pending := None, write_in_flight := True, writer := Saving job\<rparr>
           | None \<Rightarrow> s)
      | Saving job \<Rightarrow> (let (r, s) = save_job host fate job s in s\<lparr>writer := Saved job r\<rparr>)
      | Saved job r \<Rightarrow> writer_saved job r s
      | TellingRecovery \<Rightarrow> s\<lparr>told := told s @ [None], writer := WaitingForJob\<rparr>
      | TellingFailure e a \<Rightarrow> s\<lparr>told := told s @ [Some e], writer := Checking a\<rparr>
      | Checking a \<Rightarrow>
          s\<lparr>writer := (case pending s of
               Some job \<Rightarrow> if arc (job_doc job) = a then BackingOff else WaitingForJob
             | None \<Rightarrow> WaitingForJob)\<rparr>
      | BackingOff \<Rightarrow> s\<lparr>writer := WaitingForJob\<rparr>)"

section \<open>The machine\<close>

text \<open>\<open>Edited\<close>: someone else replaces or removes the file.\<close>

datatype ('x, 'r) store_event =
    Acquire ustring "store_error + unit"
  | MarkReady
  | Initialize ustring "store_error + unit" "store_error + ('x, 'r) loaded" disk "store_error + unit"
  | ReadDoc ustring "store_error + unit" fate "'x document" "store_error + ('x, 'r) loaded"
  | Commit ustring "'x document" "'r attachment_refs option" bool
  | Flush
  | CallerStep nat bool fate
  | WriterStep fate
  | Edited ustring "nat list option"

definition edit_file :: "ustring \<Rightarrow> nat list option \<Rightarrow> disk \<Rightarrow> disk" where
  "edit_file path bytes d =
     (case bytes of Some b \<Rightarrow> put_file path b d | None \<Rightarrow> d\<lparr>files := (files d)(path := None)\<rparr>)"

fun store_step :: "('x, 'r) host \<Rightarrow> ('x, 'r) store \<Rightarrow> ('x, 'r) store_event \<Rightarrow> ('x, 'r) store" where
  "store_step host s (Acquire path taken) = snd (acquire_process_authority path taken s)"
| "store_step host s MarkReady = snd (mark_ipc_ready s)"
| "store_step host s (Initialize path taken answer left reconciled) = snd (initialize host path taken answer left reconciled s)"
| "store_step host s (ReadDoc path taken fate seed answer) = snd (read_doc host path taken fate seed answer s)"
| "store_step host s (Commit path d refs spawned) = commit host path d refs spawned s"
| "store_step host s Flush = s\<lparr>callers := callers s @ [FlushWaiting]\<rparr>"
| "store_step host s (CallerStep k expired fate) = caller_step host k expired fate s"
| "store_step host s (WriterStep fate) = writer_step host fate s"
| "store_step host s (Edited path bytes) = s\<lparr>on_disk := edit_file path bytes (on_disk s)\<rparr>"

definition store_run :: "('x, 'r) host \<Rightarrow> ('x, 'r) store \<Rightarrow> ('x, 'r) store_event list \<Rightarrow> ('x, 'r) store" where
  "store_run host = foldl (store_step host)"

end
