(* ===== verification/DocBooks.thy ===== *)
theory DocBooks
  imports DocStore
begin

text \<open>
  What every step of the document store keeps: snapshots without bodies, what the observer is told, and, as long
  as no call overtakes a save made outside the writer, which document is on its way to the disk.
\<close>

section \<open>Hollow documents\<close>

definition bare :: "'x document \<Rightarrow> 'x document" where
  "bare d = d\<lparr>workspaces := map (\<lambda>w. w\<lparr>conversations := map strip_body (conversations w)\<rparr>) (workspaces d)\<rparr>"

lemma strip_body_idle [simp]: "\<not> has_body c \<Longrightarrow> strip_body c = c"
  by (cases c) (simp add: has_body_def strip_body_def)

lemma strip_body_facts [simp]: "conv_id (strip_body c) = conv_id c" "\<not> has_body (strip_body c)"
  by (simp_all add: strip_body_def has_body_def)

lemma hollow_all_bare: "fst (hollow_all names cs refs) = map strip_body cs"
  by (induction cs arbitrary: refs) (simp_all add: hollow_conversation_def split_beta Let_def)

lemma hollow_workspaces_bare:
  "fst (hollow_workspaces names ws refs) = map (\<lambda>w. w\<lparr>conversations := map strip_body (conversations w)\<rparr>) ws"
  by (induction ws arbitrary: refs) (simp_all add: split_beta Let_def hollow_all_bare)

lemma hollow_bare [simp]: "fst (hollow names d refs) = bare d"
  by (simp add: hollow_def bare_def split_beta Let_def hollow_workspaces_bare)

lemma bare_anchor [simp]: "settings (bare d) = settings d" "map shell (workspaces (bare d)) = map shell (workspaces d)"
  by (simp_all add: bare_def)

definition bodyless :: "'x document \<Rightarrow> bool" where
  "bodyless d \<longleftrightarrow> (\<forall>w \<in> set (workspaces d). \<forall>c \<in> set (conversations w). \<not> has_body c)"

lemma bare_bodyless [simp]: "bodyless (bare d)"
  by (simp add: bodyless_def bare_def)

lemma find_snoc: "find P (xs @ [x]) = (case find P xs of Some y \<Rightarrow> Some y | None \<Rightarrow> if P x then Some x else None)"
  by (induction xs) simp_all

text \<open>What the index says after a list of conversations has passed: the body of the last one of an id that had one.\<close>

lemma hollow_all_refs:
  "map_of (snd (hollow_all names cs refs)) i =
     (case find (\<lambda>c. conv_id c = i \<and> has_body c) (rev cs) of
        Some c \<Rightarrow> Some (body_refs names c)
      | None \<Rightarrow> map_of refs i)"
proof (induction cs arbitrary: refs)
  case (Cons c cs)
  show ?case
    by (simp add: hollow_conversation_def record_refs_def split_beta Let_def Cons.IH find_snoc split: option.split)
qed simp

lemma hollow_workspaces_flat:
  "snd (hollow_workspaces names ws refs) = snd (hollow_all names (concat (map conversations ws)) refs)"
proof (induction ws arbitrary: refs)
  case (Cons w ws)
  have app: "snd (hollow_all names (xs @ ys) r) = snd (hollow_all names ys (snd (hollow_all names xs r)))" for xs ys r
    by (induction xs arbitrary: r) (simp_all add: split_beta Let_def)
  show ?case by (simp add: split_beta Let_def Cons.IH app)
qed simp

lemma map_of_retain: "map_of (retain_conversations present refs) i = (if i \<in> set present then map_of refs i else None)"
  by (induction refs) (auto simp: retain_conversations_def)

lemma hollow_refs:
  assumes "distinct (live_ids d)"
  shows "map_of (snd (hollow names d refs)) i =
    (case find (\<lambda>c. conv_id c = i) (concat (map conversations (workspaces d))) of
       Some c \<Rightarrow> if has_body c then Some (body_refs names c) else map_of refs i
     | None \<Rightarrow> None)"
proof -
  let ?cs = "concat (map conversations (workspaces d))"
  have ids: "map conv_id ?cs = live_ids d" by (simp add: live_ids_def map_concat comp_def)
  with assms have dist: "distinct (map conv_id ?cs)" by simp
  have snd: "map_of (snd (hollow names d refs)) i =
      (if i \<in> conv_id ` set ?cs then map_of (snd (hollow_all names ?cs refs)) i else None)"
    by (simp add: hollow_def split_beta Let_def hollow_workspaces_flat map_of_retain flip: ids)
  show ?thesis
  proof (cases "find (\<lambda>c. conv_id c = i) ?cs")
    case None
    then have "i \<notin> conv_id ` set ?cs" by (auto simp: find_None_iff)
    with None show ?thesis unfolding snd by simp
  next
    case (Some c)
    then obtain k where k: "k < length ?cs" "conv_id (?cs ! k) = i" "c = ?cs ! k" unfolding find_Some_iff by blast
    then have c: "c \<in> set ?cs" "conv_id c = i" using nth_mem [OF k(1)] by simp_all
    have only: "c' = c" if "c' \<in> set ?cs" "conv_id c' = i" for c'
      using dist c that by (auto simp only: distinct_map inj_on_def)
    have "find (\<lambda>c. conv_id c = i \<and> has_body c) (rev ?cs) = (if has_body c then Some c else None)"
    proof (cases "find (\<lambda>c. conv_id c = i \<and> has_body c) (rev ?cs)")
      case None
      with c show ?thesis by (auto simp only: find_None_iff set_rev split: if_splits)
    next
      case (Some c')
      then obtain k where k: "k < length (rev ?cs)" "conv_id (rev ?cs ! k) = i \<and> has_body (rev ?cs ! k)" "c' = rev ?cs ! k"
        unfolding find_Some_iff by blast
      then have "c' \<in> set (rev ?cs)" "conv_id c' = i" "has_body c'" using nth_mem [OF k(1)] by simp_all
      with only [of c'] Some show ?thesis by simp
    qed
    with Some c show ?thesis unfolding snd hollow_all_refs by auto
  qed
qed

definition snap_ok :: "('x, 'r) store \<Rightarrow> bool" where
  "snap_ok s \<longleftrightarrow> (case snap s of Some sn \<Rightarrow> bodyless (doc (snap_doc sn)) | None \<Rightarrow> True)"

section \<open>The observer\<close>

text \<open>A log of transitions: no entry repeats the one before it, and the first is a failure.\<close>

fun alternating :: "'e option \<Rightarrow> 'e option list \<Rightarrow> bool" where
  "alternating before [] = True"
| "alternating before (x # xs) = (x \<noteq> before \<and> alternating x xs)"

lemma alternating_append [simp]:
  "alternating before (xs @ [x]) \<longleftrightarrow> alternating before xs \<and> x \<noteq> (if xs = [] then before else last xs)"
  by (induction before xs rule: alternating.induct) auto

definition being_told :: "'x writer \<Rightarrow> store_error option list" where
  "being_told w = (case w of TellingRecovery \<Rightarrow> [None] | TellingFailure e _ \<Rightarrow> [Some e] | _ \<Rightarrow> [])"

definition told_ok :: "('x, 'r) store \<Rightarrow> bool" where
  "told_ok s \<longleftrightarrow>
     (let log = told s @ being_told (writer s)
      in alternating None log \<and> reported_write_failure s = (if log = [] then None else last log))"

lemma told_same:
  "told s' = told s \<Longrightarrow> being_told (writer s') = being_told (writer s) \<Longrightarrow>
     reported_write_failure s' = reported_write_failure s \<Longrightarrow> told_ok s \<Longrightarrow> told_ok s'"
  by (simp add: told_ok_def)

lemma rebase_fields [simp]:
  "told (rebase p s) = told s" "writer (rebase p s) = writer s" "reported_write_failure (rebase p s) = reported_write_failure s"
  "pending (rebase p s) = pending s" "write_in_flight (rebase p s) = write_in_flight s"
  "last_write_error (rebase p s) = last_write_error s" "process_lease (rebase p s) = process_lease s"
  "callers (rebase p s) = callers s" "on_disk (rebase p s) = on_disk s" "arcs (rebase p s) = arcs s"
  by (simp_all add: rebase_def split: option.split)

lemma set_caller_fields [simp]:
  "told (set_caller k c s) = told s" "writer (set_caller k c s) = writer s"
  "reported_write_failure (set_caller k c s) = reported_write_failure s"
  "pending (set_caller k c s) = pending s" "write_in_flight (set_caller k c s) = write_in_flight s"
  "last_write_error (set_caller k c s) = last_write_error s" "process_lease (set_caller k c s) = process_lease s"
  "on_disk (set_caller k c s) = on_disk s" "arcs (set_caller k c s) = arcs s" "snap (set_caller k c s) = snap s"
  "callers (set_caller k c s) = (callers s)[k := c]"
  by (simp_all add: set_caller_def)

lemma told_saved: "told_ok s \<Longrightarrow> writer s = Saved job r \<Longrightarrow> told_ok (writer_saved job r s)"
  by (cases r; cases "reported_write_failure s")
    (auto simp: told_ok_def being_told_def writer_saved_def Let_def split: if_splits)

lemma told_writer_step: "told_ok s \<Longrightarrow> told_ok (writer_step host fate s)"
proof (cases "writer s")
  case (Saved job r)
  assume "told_ok s"
  with Saved show ?thesis by (simp add: writer_step_def told_saved)
next
  case (Saving job)
  assume "told_ok s"
  with Saving show ?thesis by (simp add: writer_step_def save_job_def split_beta told_ok_def being_told_def)
next
  case (Checking a)
  assume "told_ok s"
  with Checking show ?thesis by (simp add: writer_step_def told_ok_def being_told_def Let_def split: option.split if_splits)
qed (simp_all add: writer_step_def told_ok_def being_told_def Let_def split: option.split if_splits)

lemma being_told_plain [simp]: "being_told WaitingForJob = []" "being_told NoWriter = []"
  by (simp_all add: being_told_def)

lemma told_commit: "told_ok s \<Longrightarrow> told_ok (commit host path d refs spawned s)"
  by (rule told_same [of _ s])
    (auto simp: commit_def ensure_writer_def writer_started_def Let_def split_beta split: option.splits prod.splits writer.splits)

lemma told_other:
  assumes "\<And>f. e \<noteq> WriterStep f" "\<And>p d r b. e \<noteq> Commit p d r b"
  shows "told_ok s \<Longrightarrow> told_ok (store_step host s e)"
proof (rule told_same [of _ s])
  show "told (store_step host s e) = told s"
    using assms
    by (cases e) (auto simp: acquire_process_authority_def mark_ipc_ready_def initialize_def read_doc_def install_def
        caller_step_def save_job_def commit_saved_def flush_turn_def flush_saved_def Let_def split_beta
        split: option.splits sum.splits caller.splits prod.splits)
  show "being_told (writer (store_step host s e)) = being_told (writer s)"
    using assms
    by (cases e) (auto simp: acquire_process_authority_def mark_ipc_ready_def initialize_def read_doc_def install_def
        caller_step_def save_job_def commit_saved_def flush_turn_def flush_saved_def Let_def split_beta
        split: option.splits sum.splits caller.splits prod.splits)
  show "reported_write_failure (store_step host s e) = reported_write_failure s"
    using assms
    by (cases e) (auto simp: acquire_process_authority_def mark_ipc_ready_def initialize_def read_doc_def install_def
        caller_step_def save_job_def commit_saved_def flush_turn_def flush_saved_def Let_def split_beta
        split: option.splits sum.splits caller.splits prod.splits)
qed

lemma told_step: "told_ok s \<Longrightarrow> told_ok (store_step host s e)"
  using told_other [of e s host] by (cases e) (simp_all add: told_writer_step told_commit)

section \<open>Whose turn it is\<close>

fun is_saving :: "'x caller \<Rightarrow> bool" where
  "is_saving (CommitSaving _ _) = True"
| "is_saving (CommitSaved _ _ _) = True"
| "is_saving (FlushSaving _) = True"
| "is_saving (FlushSaved _ _) = True"
| "is_saving _ = False"

definition savers :: "('x, 'r) store \<Rightarrow> nat" where
  "savers s = length (filter is_saving (callers s))"

fun synced :: "fate \<Rightarrow> bool" where
  "synced (Unsynced _) = False"
| "synced _ = True"

text \<open>
  An orderly event: the file is ours alone, every replacement that fails leaves the file as it was, startup is over,
  and while a call saves by itself no other call commits, reads or flushes.
\<close>

fun orderly :: "('x, 'r) store \<Rightarrow> ('x, 'r) store_event \<Rightarrow> bool" where
  "orderly s (Acquire _ _) = True"
| "orderly s MarkReady = True"
| "orderly s (Initialize _ _ _ _ _) = False"
| "orderly s (ReadDoc _ _ _ _ _) = (savers s = 0)"
| "orderly s (Commit _ _ _ _) = (savers s = 0)"
| "orderly s Flush = True"
| "orderly s (CallerStep k expired fate) =
     (synced fate \<and> (savers s = 0 \<or> k < length (callers s) \<and> is_saving (callers s ! k)))"
| "orderly s (WriterStep fate) = synced fate"
| "orderly s (Edited _ _) = False"

fun orderly_run :: "('x, 'r) host \<Rightarrow> ('x, 'r) store \<Rightarrow> ('x, 'r) store_event list \<Rightarrow> bool" where
  "orderly_run host s [] = True"
| "orderly_run host s (e # es) = (orderly s e \<and> orderly_run host (store_step host s e) es)"

definition anchor :: "('x, 'r) host \<Rightarrow> 'x document \<Rightarrow> store_error + nat list" where
  "anchor host d = anchor_json host (settings d) (map shell (workspaces d))"

lemma anchor_bare [simp]: "anchor host (bare d) = anchor host d"
  by (simp only: anchor_def bare_anchor)

section \<open>The newest document\<close>

text \<open>\<open>dd\<close> is the document committed last, \<open>B\<close> the anchors that are ever written to \<open>p\<close>.\<close>

definition newest :: "'x document option \<Rightarrow> 'x job \<Rightarrow> bool" where
  "newest dd job \<longleftrightarrow> (\<forall>d. dd = Some d \<longrightarrow> doc (job_doc job) = bare d)"

definition filed :: "('x, 'r) host \<Rightarrow> ustring \<Rightarrow> 'x document \<Rightarrow> disk \<Rightarrow> bool" where
  "filed host p d k \<longleftrightarrow> (\<exists>bytes st. anchor host d = Inr bytes \<and> files k p = Some (bytes, st))"

definition on_file :: "('x, 'r) host \<Rightarrow> ustring \<Rightarrow> 'x document option \<Rightarrow> disk \<Rightarrow> bool" where
  "on_file host p dd k \<longleftrightarrow> (\<forall>d. dd = Some d \<longrightarrow> filed host p d k)"

definition in_step :: "ustring \<Rightarrow> ('x, 'r) store \<Rightarrow> bool" where
  "in_step p s \<longleftrightarrow> (\<forall>sn. snap s = Some sn \<longrightarrow> snap_meta sn = disk_meta (on_disk s) p)"

definition job_ok :: "('x, 'r) host \<Rightarrow> ustring \<Rightarrow> nat list set \<Rightarrow> 'x job \<Rightarrow> bool" where
  "job_ok host p B job \<longleftrightarrow> job_path job = p \<and> (\<forall>bytes. anchor host (doc (job_doc job)) = Inr bytes \<longrightarrow> bytes \<in> B)"

definition disk_ok :: "('x, 'r) host \<Rightarrow> ustring \<Rightarrow> nat list set \<Rightarrow> disk \<Rightarrow> bool" where
  "disk_ok host p B k \<longleftrightarrow>
     (\<forall>bytes st. files k p = Some (bytes, st) \<longrightarrow> bytes \<in> B \<and> (\<forall>f. printed k p = Some f \<longrightarrow> f = fingerprint host bytes))"

fun caller_ok ::
  "('x, 'r) host \<Rightarrow> ustring \<Rightarrow> nat list set \<Rightarrow> 'x document option \<Rightarrow> ('x, 'r) store \<Rightarrow> 'x caller \<Rightarrow> bool" where
  "caller_ok host p B dd s (CommitSaving job _) = (job_ok host p B job \<and> newest dd job \<and> in_step p s)"
| "caller_ok host p B dd s (CommitSaved job _ (Inr _)) = (job_path job = p \<and> on_file host p dd (on_disk s))"
| "caller_ok host p B dd s (CommitSaved job _ (Inl _)) = in_step p s"
| "caller_ok host p B dd s (FlushSaving job) = (job_ok host p B job \<and> newest dd job \<and> writer_started s)"
| "caller_ok host p B dd s (FlushSaved job (Inr _)) = (job_path job = p \<and> on_file host p dd (on_disk s))"
| "caller_ok host p B dd s (FlushSaved job (Inl _)) = (job_ok host p B job \<and> newest dd job \<and> writer_started s)"
| "caller_ok host p B dd s _ = True"

fun writer_ok ::
  "('x, 'r) host \<Rightarrow> ustring \<Rightarrow> nat list set \<Rightarrow> 'x document option \<Rightarrow> ('x, 'r) store \<Rightarrow> 'x writer \<Rightarrow> bool" where
  "writer_ok host p B dd s NoWriter = (writer_idle s)"
| "writer_ok host p B dd s (Saving job) =
     (write_in_flight s \<and> job_ok host p B job \<and> (pending s = None \<longrightarrow> newest dd job))"
| "writer_ok host p B dd s (Saved job (Inr _)) =
     (write_in_flight s \<and> job_path job = p \<and> (pending s = None \<longrightarrow> on_file host p dd (on_disk s)))"
| "writer_ok host p B dd s (Saved job (Inl _)) =
     (write_in_flight s \<and> job_ok host p B job \<and> (pending s = None \<longrightarrow> newest dd job))"
| "writer_ok host p B dd s _ = (\<not> write_in_flight s)"

definition snap_is :: "ustring \<Rightarrow> 'x document option \<Rightarrow> ('x, 'r) store \<Rightarrow> bool" where
  "snap_is p dd s \<longleftrightarrow> process_lease s = Some p \<and>
     (\<exists>sn. snap s = Some sn \<and> snap_path sn = p \<and> (\<forall>d. dd = Some d \<longrightarrow> doc (snap_doc sn) = bare d))"

definition queue_ok :: "('x, 'r) host \<Rightarrow> ustring \<Rightarrow> nat list set \<Rightarrow> 'x document option \<Rightarrow> 'x job option \<Rightarrow> bool" where
  "queue_ok host p B dd q \<longleftrightarrow> (\<forall>job. q = Some job \<longrightarrow> job_ok host p B job \<and> newest dd job)"

definition rest_ok :: "('x, 'r) host \<Rightarrow> ustring \<Rightarrow> 'x document option \<Rightarrow> ('x, 'r) store \<Rightarrow> bool" where
  "rest_ok host p dd s \<longleftrightarrow>
     (if savers s = 0 then writer_idle s \<longrightarrow> (last_write_error s = None \<longrightarrow> on_file host p dd (on_disk s)) \<and> in_step p s
      else savers s = 1 \<and> writer_idle s)"

definition docs_ok :: "('x, 'r) host \<Rightarrow> ustring \<Rightarrow> nat list set \<Rightarrow> 'x document option \<Rightarrow> ('x, 'r) store \<Rightarrow> bool" where
  "docs_ok host p B dd s \<longleftrightarrow> snap_is p dd s \<and> disk_ok host p B (on_disk s) \<and> queue_ok host p B dd (pending s) \<and>
     writer_ok host p B dd s (writer s) \<and> (\<forall>c \<in> set (callers s). caller_ok host p B dd s c) \<and> rest_ok host p dd s"

text \<open>A save that is not unsynced.\<close>

lemma save_outcome:
  assumes "disk_ok host p B (on_disk s)" and "job_ok host p B job" and "inj_on (fingerprint host) B" and "synced fate"
  obtains (ok) k where "save_job host fate job s = (Inr (), s\<lparr>on_disk := k\<rparr>)" and "disk_ok host p B k"
      and "filed host p (doc (job_doc job)) k"
  | (failed) e where "save_job host fate job s = (Inl e, s\<lparr>on_disk := on_disk s\<rparr>)"
proof (cases "anchor host (doc (job_doc job))")
  case (Inl e)
  then show thesis by (intro failed [of e]) (simp add: save_job_def save_unchecked_def anchor_def)
next
  case (Inr bytes)
  let ?k = "on_disk s"
  have p: "job_path job = p" and b: "bytes \<in> B" using assms(2) Inr by (simp_all add: job_ok_def)
  show thesis
  proof (cases "length bytes > MAX_DOCUMENT_BYTES")
    case True
    with Inr show thesis by (intro failed [of DocumentTooLarge]) (simp add: save_job_def save_unchecked_def anchor_def)
  next
    case False
    show thesis
    proof (cases "printed ?k p = Some (fingerprint host bytes) \<and> files ?k p \<noteq> None")
      case True
      then obtain old st where old: "files ?k p = Some (old, st)" by auto
      with assms(1) True have "old \<in> B" "fingerprint host bytes = fingerprint host old" by (auto simp: disk_ok_def)
      with assms(3) b have "old = bytes" by (simp add: inj_on_def)
      with old Inr False True p show thesis
        by (intro ok [of ?k]) (simp_all add: save_job_def save_unchecked_def anchor_def filed_def assms(1))
    next
      case fresh: False
      show thesis
      proof (cases fate)
        case Written
        let ?w = "put_file p bytes ?k"
        let ?k' = "?w\<lparr>printed := (printed ?w)(p \<mapsto> fingerprint host bytes)\<rparr>"
        show thesis
        proof (rule ok [of ?k'])
          show "save_job host fate job s = (Inr (), s\<lparr>on_disk := ?k'\<rparr>)"
            using Inr \<open>\<not> length bytes > MAX_DOCUMENT_BYTES\<close> fresh Written p
            by (auto simp: save_job_def save_unchecked_def anchor_def atomic_write_def)
          show "disk_ok host p B ?k'" using b by (simp add: disk_ok_def put_file_def)
          show "filed host p (doc (job_doc job)) ?k'" using Inr by (simp add: filed_def put_file_def)
        qed
      next
        case (Refused e)
        with Inr False fresh p show thesis
          by (intro failed [of "AnchorNotWritten e"]) (auto simp: save_job_def save_unchecked_def anchor_def atomic_write_def)
      next
        case (Unsynced e)
        with assms(4) show thesis by simp
      qed
    qed
  qed
qed

lemma filed_newest: "filed host p (doc (job_doc job)) k \<Longrightarrow> newest dd job \<Longrightarrow> on_file host p dd k"
  by (auto simp: on_file_def newest_def filed_def)

end
