(* ===== verification/DocOrder.thy ===== *)
theory DocOrder
  imports DocBooks
begin

text \<open>
  Orderly runs of the document store keep its books: the document committed last is in the file, or on its way
  there, or its failure is remembered.
\<close>

lemma no_savers: "savers s = 0 \<longleftrightarrow> (\<forall>c \<in> set (callers s). \<not> is_saving c)"
  by (simp add: savers_def filter_empty_conv)

lemma caller_ok_quiet [simp]: "\<not> is_saving c \<Longrightarrow> caller_ok host p B dd s c"
  by (cases c) auto

lemma callers_ok_quiet: "savers s = 0 \<Longrightarrow> callers s' = callers s \<Longrightarrow> \<forall>c \<in> set (callers s'). caller_ok host p B dd s' c"
  by (simp add: no_savers)

lemma caller_ok_same:
  "caller_ok host p B dd s c \<Longrightarrow> snap s' = snap s \<Longrightarrow> on_disk s' = on_disk s \<Longrightarrow> writer_started s' = writer_started s \<Longrightarrow>
     caller_ok host p B dd s' c"
  by (induction host p B dd s c rule: caller_ok.induct) (auto simp: in_step_def)

lemma savers_same: "callers s' = callers s \<Longrightarrow> savers s' = savers s"
  by (simp add: savers_def)

lemma snap_is_rebase [simp]: "snap_is p dd (rebase q s) = snap_is p dd s"
  by (auto simp: snap_is_def rebase_def split: option.split)

lemma in_step_rebase: "snap_is p dd s \<Longrightarrow> in_step p (rebase p s)"
  by (auto simp: snap_is_def in_step_def rebase_def)

lemma docs_okI:
  "snap_is p dd s \<Longrightarrow> disk_ok host p B (on_disk s) \<Longrightarrow> queue_ok host p B dd (pending s) \<Longrightarrow>
     writer_ok host p B dd s (writer s) \<Longrightarrow> (\<forall>c \<in> set (callers s). caller_ok host p B dd s c) \<Longrightarrow> rest_ok host p dd s \<Longrightarrow>
     docs_ok host p B dd s"
  by (simp add: docs_ok_def)

lemma docs_okD:
  assumes "docs_ok host p B dd s"
  shows "snap_is p dd s" "disk_ok host p B (on_disk s)" "queue_ok host p B dd (pending s)"
    "writer_ok host p B dd s (writer s)" "\<forall>c \<in> set (callers s). caller_ok host p B dd s c" "rest_ok host p dd s"
  using assms by (simp_all add: docs_ok_def)

section \<open>The writer\<close>

lemma busy_writer_alone: "rest_ok host p dd s \<Longrightarrow> \<not> writer_idle s \<Longrightarrow> savers s = 0"
  by (simp add: rest_ok_def split: if_splits)

lemma snap_is_same: "snap_is p dd s \<Longrightarrow> snap s' = snap s \<Longrightarrow> process_lease s' = process_lease s \<Longrightarrow> snap_is p dd s'"
  by (simp add: snap_is_def)

lemma writer_saved_docs:
  assumes ok: "docs_ok host p B dd s" and w: "writer s = Saved job r"
  shows "docs_ok host p B dd (writer_saved job r s)"
proof -
  note o = docs_okD [OF ok]
  have busy: "write_in_flight s" using o(4) w by (cases r) simp_all
  then have alone: "savers s = 0" using busy_writer_alone [OF o(6)] by (simp add: writer_idle_def)
  have c: "callers (writer_saved job r s) = callers s"
    by (cases r) (simp_all add: writer_saved_def Let_def)
  show ?thesis
  proof (rule docs_okI)
    show "\<forall>c \<in> set (callers (writer_saved job r s)). caller_ok host p B dd (writer_saved job r s) c"
      by (rule callers_ok_quiet [OF alone c])
    show "snap_is p dd (writer_saved job r s)"
    proof (cases r)
      case (Inl e)
      with o(1) show ?thesis by (simp add: writer_saved_def Let_def snap_is_def)
    next
      case (Inr u)
      with o(1) show ?thesis by (auto simp: writer_saved_def Let_def snap_is_def rebase_def split: option.splits)
    qed
    show "disk_ok host p B (on_disk (writer_saved job r s))"
      using o(2) by (cases r) (simp_all add: writer_saved_def Let_def)
    show "queue_ok host p B dd (pending (writer_saved job r s))"
      using o(3,4) w by (cases r) (auto simp: writer_saved_def Let_def queue_ok_def)
    show "writer_ok host p B dd (writer_saved job r s) (writer (writer_saved job r s))"
      by (cases r) (simp_all add: writer_saved_def Let_def)
    show "rest_ok host p dd (writer_saved job r s)"
    proof (cases r)
      case (Inl e)
      have "\<not> writer_idle (writer_saved job r s)" using Inl by (auto simp: writer_saved_def Let_def writer_idle_def)
      with alone savers_same [OF c] show ?thesis by (simp add: rest_ok_def)
    next
      case (Inr u)
      have path: "job_path job = p" and filed: "pending s = None \<longrightarrow> on_file host p dd (on_disk s)"
        using o(4) w Inr by simp_all
      show ?thesis
      proof (cases "pending s")
        case None
        have sn: "snap_is p dd (s\<lparr>write_in_flight := False, last_write_error := None, reported_write_failure := None\<rparr>)"
          by (rule snap_is_same [OF o(1)]) simp_all
        have "in_step p (writer_saved job r s)"
          using in_step_rebase [OF sn] None Inr path by (simp add: writer_saved_def Let_def in_step_def)
        with alone savers_same [OF c] filed None Inr show ?thesis by (simp add: rest_ok_def writer_saved_def Let_def)
      next
        case (Some j)
        then have "\<not> writer_idle (writer_saved job r s)" using Inr by (simp add: writer_saved_def Let_def writer_idle_def)
        with alone savers_same [OF c] show ?thesis by (simp add: rest_ok_def)
      qed
    qed
  qed
qed

lemma rest_ok_same:
  "rest_ok host p dd s \<Longrightarrow> callers s' = callers s \<Longrightarrow> pending s' = pending s \<Longrightarrow> write_in_flight s' = write_in_flight s \<Longrightarrow>
     last_write_error s' = last_write_error s \<Longrightarrow> on_disk s' = on_disk s \<Longrightarrow> snap s' = snap s \<Longrightarrow> rest_ok host p dd s'"
  using savers_same [of s' s] by (auto simp: rest_ok_def writer_idle_def in_step_def split: if_splits)

text \<open>The writer moves on without touching the books.\<close>

lemma writer_moves:
  assumes ok: "docs_ok host p B dd s" and w: "writer s \<noteq> NoWriter" "w \<noteq> NoWriter" "writer_ok host p B dd s w"
  shows "docs_ok host p B dd (s\<lparr>told := t, writer := w\<rparr>)"
proof (rule docs_okI)
  note o = docs_okD [OF ok]
  show "snap_is p dd (s\<lparr>told := t, writer := w\<rparr>)" by (rule snap_is_same [OF o(1)]) simp_all
  show "writer_ok host p B dd (s\<lparr>told := t, writer := w\<rparr>) (writer (s\<lparr>told := t, writer := w\<rparr>))"
    using w(3) by (cases w) (auto simp: writer_idle_def split: sum.splits elim: writer_ok.elims)
  show "\<forall>c \<in> set (callers (s\<lparr>told := t, writer := w\<rparr>)). caller_ok host p B dd (s\<lparr>told := t, writer := w\<rparr>) c"
  proof
    fix c assume "c \<in> set (callers (s\<lparr>told := t, writer := w\<rparr>))"
    then have "caller_ok host p B dd s c" using o(5) by simp
    then show "caller_ok host p B dd (s\<lparr>told := t, writer := w\<rparr>) c"
      by (rule caller_ok_same) (use w(1,2) in \<open>auto simp: writer_started_def split: writer.splits\<close>)
  qed
  show "rest_ok host p dd (s\<lparr>told := t, writer := w\<rparr>)" by (rule rest_ok_same [OF o(6)]) simp_all
qed (use docs_okD [OF ok] in simp_all)

lemma writer_docs:
  assumes ok: "docs_ok host p B dd s" and inj: "inj_on (fingerprint host) B" and f: "synced fate"
  shows "docs_ok host p B dd (writer_step host fate s)"
proof (cases "writer s")
  case NoWriter
  with ok show ?thesis by (simp add: writer_step_def)
next
  case WaitingForJob
  note o = docs_okD [OF ok]
  show ?thesis
  proof (cases "pending s")
    case None
    with ok WaitingForJob show ?thesis by (simp add: writer_step_def)
  next
    case (Some job)
    then have alone: "savers s = 0" using busy_writer_alone [OF o(6)] by (simp add: writer_idle_def)
    let ?s = "s\<lparr>pending := None, write_in_flight := True, writer := Saving job\<rparr>"
    have "docs_ok host p B dd ?s"
    proof (rule docs_okI)
      show "\<forall>c \<in> set (callers ?s). caller_ok host p B dd ?s c" by (rule callers_ok_quiet [OF alone]) simp
      show "snap_is p dd ?s" by (rule snap_is_same [OF o(1)]) simp_all
      show "writer_ok host p B dd ?s (writer ?s)" using o(3) Some by (simp add: queue_ok_def)
      show "rest_ok host p dd ?s" using alone by (simp add: rest_ok_def writer_idle_def savers_def)
    qed (use o in \<open>simp_all add: queue_ok_def\<close>)
    with WaitingForJob Some show ?thesis by (simp add: writer_step_def)
  qed
next
  case (Saving job)
  note o = docs_okD [OF ok]
  have w: "write_in_flight s" "job_ok host p B job" "pending s = None \<longrightarrow> newest dd job" using o(4) Saving by simp_all
  then have alone: "savers s = 0" using busy_writer_alone [OF o(6)] by (simp add: writer_idle_def)
  have path: "job_path job = p" using w(2) by (simp add: job_ok_def)
  from o(2) w(2) inj f show ?thesis
  proof (cases rule: save_outcome)
    case (ok k)
    let ?s = "s\<lparr>on_disk := k, writer := Saved job (Inr ())\<rparr>"
    have "docs_ok host p B dd ?s"
    proof (rule docs_okI)
      show "\<forall>c \<in> set (callers ?s). caller_ok host p B dd ?s c" by (rule callers_ok_quiet [OF alone]) simp
      show "snap_is p dd ?s" by (rule snap_is_same [OF o(1)]) simp_all
      show "writer_ok host p B dd ?s (writer ?s)" using w path filed_newest [OF ok(3)] by simp
      show "rest_ok host p dd ?s" using alone w(1) by (simp add: rest_ok_def writer_idle_def savers_def)
    qed (use o ok in simp_all)
    with Saving ok show ?thesis by (simp add: writer_step_def)
  next
    case (failed e)
    let ?s = "s\<lparr>on_disk := on_disk s, writer := Saved job (Inl e)\<rparr>"
    have "docs_ok host p B dd ?s"
    proof (rule docs_okI)
      show "\<forall>c \<in> set (callers ?s). caller_ok host p B dd ?s c" by (rule callers_ok_quiet [OF alone]) simp
      show "snap_is p dd ?s" by (rule snap_is_same [OF o(1)]) simp_all
      show "writer_ok host p B dd ?s (writer ?s)" using w by simp
      show "rest_ok host p dd ?s" using alone w(1) by (simp add: rest_ok_def writer_idle_def savers_def)
    qed (use o in simp_all)
    with Saving failed show ?thesis by (simp add: writer_step_def)
  qed
next
  case (Saved job r)
  with writer_saved_docs [OF ok Saved] show ?thesis by (simp add: writer_step_def)
next
  case TellingRecovery
  with writer_moves [OF ok, of WaitingForJob "told s @ [None]"] docs_okD(4) [OF ok] show ?thesis by (simp add: writer_step_def)
next
  case (TellingFailure e a)
  with writer_moves [OF ok, of "Checking a" "told s @ [Some e]"] docs_okD(4) [OF ok] show ?thesis by (simp add: writer_step_def)
next
  case (Checking a)
  have "docs_ok host p B dd (s\<lparr>told := told s, writer := w\<rparr>)" if "w = BackingOff \<or> w = WaitingForJob" for w
    by (rule writer_moves [OF ok]) (use docs_okD(4) [OF ok] Checking that in auto)
  with Checking show ?thesis by (simp add: writer_step_def split: option.split)
next
  case BackingOff
  with writer_moves [OF ok, of WaitingForJob "told s"] docs_okD(4) [OF ok] show ?thesis by (simp add: writer_step_def)
qed

section \<open>Callers\<close>

lemma savers_update:
  "k < length (callers s) \<Longrightarrow>
     savers (set_caller k c s) + (if is_saving (callers s ! k) then 1 else 0) = savers s + (if is_saving c then 1 else 0)"
  unfolding savers_def set_caller_fields by (rule length_filter_update)

lemma others_quiet:
  assumes "k < length (callers s)" and "savers s = (if is_saving (callers s ! k) then 1 else 0)"
  shows "\<forall>c' \<in> set ((callers s)[k := c]). c' = c \<or> \<not> is_saving c'"
proof -
  have "savers (set_caller k (Returned (Inr ())) s) = 0" using savers_update [OF assms(1), of "Returned (Inr ())"] assms(2) by simp
  then have "\<forall>c' \<in> set ((callers s)[k := Returned (Inr ())]). \<not> is_saving c'" by (simp add: no_savers)
  note none = this
  show ?thesis
  proof
    fix c' assume "c' \<in> set ((callers s)[k := c])"
    then have "c' \<in> set (((callers s)[k := Returned (Inr ())])[k := c])" by (simp only: list_update_overwrite)
    then have "c' = c \<or> c' \<in> set ((callers s)[k := Returned (Inr ())])" by (rule set_updateD)
    with none show "c' = c \<or> \<not> is_saving c'" by blast
  qed
qed

lemma writer_ok_same:
  "writer_ok host p B dd s w \<Longrightarrow> pending s' = pending s \<Longrightarrow> write_in_flight s' = write_in_flight s \<Longrightarrow>
     on_disk s' = on_disk s \<Longrightarrow> writer_ok host p B dd s' w"
  by (induction host p B dd s w rule: writer_ok.induct) (auto simp: writer_idle_def)

lemma caller_ok_set [simp]: "caller_ok host p B dd (set_caller k c' s) c = caller_ok host p B dd s c"
  by (rule iffI; erule caller_ok_same) (simp_all add: writer_started_def)

lemma set_caller_docs:
  assumes "snap_is p dd s" "disk_ok host p B (on_disk s)" "queue_ok host p B dd (pending s)"
    and "writer_ok host p B dd s (writer s)" and "caller_ok host p B dd s c"
    and "\<forall>c' \<in> set ((callers s)[k := c]). c' = c \<or> \<not> is_saving c'" and "rest_ok host p dd (set_caller k c s)"
  shows "docs_ok host p B dd (set_caller k c s)"
proof (rule docs_okI)
  show "snap_is p dd (set_caller k c s)" by (rule snap_is_same [OF assms(1)]) simp_all
  show "writer_ok host p B dd (set_caller k c s) (writer (set_caller k c s))"
    unfolding set_caller_fields by (rule writer_ok_same [OF assms(4)]) simp_all
  show "\<forall>c' \<in> set (callers (set_caller k c s)). caller_ok host p B dd (set_caller k c s) c'"
    using assms(5,6) by auto
qed (use assms in simp_all)

text \<open>A call returns.\<close>

lemma return_rest:
  assumes "k < length (callers s)" and "savers s = (if is_saving (callers s ! k) then 1 else 0)"
    and "writer_idle s \<Longrightarrow> (last_write_error s = None \<longrightarrow> on_file host p dd (on_disk s)) \<and> in_step p s"
  shows "rest_ok host p dd (set_caller k (Returned r) s)"
proof -
  have "savers (set_caller k (Returned r) s) = 0" using savers_update [OF assms(1), of "Returned r"] assms(2) by simp
  with assms(3) show ?thesis by (simp add: rest_ok_def writer_idle_def in_step_def)
qed

lemma idle_writer_ok: "writer_idle s \<Longrightarrow> writer_ok host p B dd s w \<Longrightarrow> writer_idle s' \<Longrightarrow> writer_ok host p B dd s' w"
  by (induction host p B dd s w rule: writer_ok.induct) (auto simp: writer_idle_def)

lemma saving_caller:
  assumes "docs_ok host p B dd s" and "k < length (callers s)" and "is_saving (callers s ! k)"
  shows "savers s = 1" "writer_idle s" "caller_ok host p B dd s (callers s ! k)"
proof -
  have "savers s \<noteq> 0" using assms(2,3) by (auto simp: no_savers)
  with docs_okD(6) [OF assms(1)] show "savers s = 1" "writer_idle s" by (simp_all add: rest_ok_def)
  show "caller_ok host p B dd s (callers s ! k)" using docs_okD(5) [OF assms(1)] assms(2) by simp
qed

text \<open>A call that saves has saved.\<close>

lemma caller_saves:
  assumes ok: "docs_ok host p B dd s" and inj: "inj_on (fingerprint host) B" and f: "synced fate"
    and k: "k < length (callers s)" "is_saving (callers s ! k)" and job: "job_ok host p B job" "newest dd job"
    and c: "\<And>r. is_saving (c r)"
    and inr: "\<And>s'. on_file host p dd (on_disk s') \<Longrightarrow> caller_ok host p B dd s' (c (Inr ()))"
    and inl: "\<And>e s'. snap s' = snap s \<Longrightarrow> on_disk s' = on_disk s \<Longrightarrow> writer_started s' = writer_started s \<Longrightarrow> caller_ok host p B dd s' (c (Inl e))"
  shows "docs_ok host p B dd (let (r, s) = save_job host fate job s in set_caller k (c r) s)"
proof -
  note o = docs_okD [OF ok] and sv = saving_caller [OF ok k]
  have rest: "rest_ok host p dd (set_caller k (c r) (s\<lparr>on_disk := d\<rparr>))" for r d
  proof -
    have "savers (set_caller k (c r) (s\<lparr>on_disk := d\<rparr>)) = 1"
      using savers_update [of k "s\<lparr>on_disk := d\<rparr>" "c r"] k c sv(1) by (simp add: savers_def)
    with sv(2) show ?thesis by (simp add: rest_ok_def writer_idle_def)
  qed
  have quiet: "\<forall>c' \<in> set ((callers (s\<lparr>on_disk := d\<rparr>))[k := c r]). c' = c r \<or> \<not> is_saving c'" for r d
    using others_quiet [OF k(1)] k(2) sv(1) by simp
  have w: "writer_ok host p B dd (s\<lparr>on_disk := d\<rparr>) (writer (s\<lparr>on_disk := d\<rparr>))" for d
    using idle_writer_ok [OF sv(2) o(4)] sv(2) by (simp add: writer_idle_def)
  have sn: "snap_is p dd (s\<lparr>on_disk := d\<rparr>)" for d by (rule snap_is_same [OF o(1)]) simp_all
  from o(2) job(1) inj f show ?thesis
  proof (cases rule: save_outcome)
    case (ok d)
    have "docs_ok host p B dd (set_caller k (c (Inr ())) (s\<lparr>on_disk := d\<rparr>))"
      by (rule set_caller_docs [OF sn _ _ w _ quiet rest]) (use ok o filed_newest [OF ok(3) job(2)] inr in simp_all)
    with ok show ?thesis by simp
  next
    case (failed e)
    have "docs_ok host p B dd (set_caller k (c (Inl e)) (s\<lparr>on_disk := on_disk s\<rparr>))"
      by (rule set_caller_docs [OF sn _ _ w _ quiet rest]) (use o inl in \<open>simp_all add: writer_started_def\<close>)
    with failed show ?thesis by simp
  qed
qed

lemma commit_saved_docs:
  assumes ok: "docs_ok host p B dd s" and k: "k < length (callers s)" "callers s ! k = CommitSaved job stale r"
  shows "docs_ok host p B dd (commit_saved k job stale r s)"
proof -
  have sav: "is_saving (callers s ! k)" using k by simp
  note o = docs_okD [OF ok] and sv = saving_caller [OF ok k(1) sav]
  note quiet = others_quiet [OF k(1), of "Returned x" for x]
  show ?thesis
  proof (cases r)
    case (Inr u)
    then have c: "job_path job = p" "on_file host p dd (on_disk s)" using sv(3) k(2) by simp_all
    have "docs_ok host p B dd (set_caller k (Returned (stale_answer stale)) (rebase p s))"
    proof (rule set_caller_docs)
      show "writer_ok host p B dd (rebase p s) (writer (rebase p s))"
        using idle_writer_ok [OF sv(2) o(4), of "rebase p s"] sv(2) by (simp add: writer_idle_def)
      show "rest_ok host p dd (set_caller k (Returned (stale_answer stale)) (rebase p s))"
        by (rule return_rest) (use k sv c in_step_rebase [OF o(1)] in \<open>simp_all add: savers_def\<close>)
    qed (use o quiet sv k in simp_all)
    with Inr sv(2) c(1) show ?thesis by (simp add: commit_saved_def)
  next
    case (Inl e)
    then have c: "in_step p s" using sv(3) k(2) by simp
    let ?s = "s\<lparr>last_write_error := Some e\<rparr>"
    have "docs_ok host p B dd (set_caller k (Returned (Inl e)) ?s)"
    proof (rule set_caller_docs)
      show "snap_is p dd ?s" by (rule snap_is_same [OF o(1)]) simp_all
      show "writer_ok host p B dd ?s (writer ?s)"
        using idle_writer_ok [OF sv(2) o(4), of ?s] sv(2) by (simp add: writer_idle_def)
      show "rest_ok host p dd (set_caller k (Returned (Inl e)) ?s)"
        by (rule return_rest) (use k sv c in \<open>simp_all add: savers_def in_step_def\<close>)
    qed (use o quiet sv k in simp_all)
    with Inl show ?thesis by (simp add: commit_saved_def)
  qed
qed

lemma flush_saved_docs:
  assumes ok: "docs_ok host p B dd s" and k: "k < length (callers s)" "callers s ! k = FlushSaved job r"
  shows "docs_ok host p B dd (flush_saved k job r s)"
proof -
  have sav: "is_saving (callers s ! k)" using k by simp
  note o = docs_okD [OF ok] and sv = saving_caller [OF ok k(1) sav]
  note quiet = others_quiet [OF k(1), of "Returned x" for x]
  show ?thesis
  proof (cases r)
    case (Inr u)
    then have c: "job_path job = p" "on_file host p dd (on_disk s)" using sv(3) k(2) by simp_all
    let ?s = "s\<lparr>last_write_error := None\<rparr>"
    have sn: "snap_is p dd ?s" by (rule snap_is_same [OF o(1)]) simp_all
    have "docs_ok host p B dd (set_caller k (Returned (Inr ())) (rebase p ?s))"
    proof (rule set_caller_docs)
      show "writer_ok host p B dd (rebase p ?s) (writer (rebase p ?s))"
        using idle_writer_ok [OF sv(2) o(4), of "rebase p ?s"] sv(2) by (simp add: writer_idle_def)
      show "rest_ok host p dd (set_caller k (Returned (Inr ())) (rebase p ?s))"
        by (rule return_rest) (use k sv c in_step_rebase [OF sn] in \<open>simp_all add: savers_def\<close>)
    qed (use o quiet sv k sn in simp_all)
    with Inr c(1) show ?thesis by (simp add: flush_saved_def)
  next
    case (Inl e)
    then have c: "job_ok host p B job" "newest dd job" "writer_started s" using sv(3) k(2) by simp_all
    let ?s = "s\<lparr>last_write_error := Some (FallbackFailed e), pending := Some job\<rparr>"
    have "docs_ok host p B dd (set_caller k (Returned (Inl (FallbackFailed e))) ?s)"
    proof (rule set_caller_docs)
      show "snap_is p dd ?s" by (rule snap_is_same [OF o(1)]) simp_all
      show "writer_ok host p B dd ?s (writer ?s)"
        using o(4) c(3) sv(2) by (cases "writer s") (auto simp: writer_started_def writer_idle_def split: sum.splits elim: writer_ok.elims)
      show "rest_ok host p dd (set_caller k (Returned (Inl (FallbackFailed e))) ?s)"
        by (rule return_rest) (use k sv in \<open>simp_all add: savers_def writer_idle_def\<close>)
    qed (use o quiet sv k c in \<open>simp_all add: queue_ok_def\<close>)
    with Inl show ?thesis by (simp add: flush_saved_def)
  qed
qed

lemma flush_turn_docs:
  assumes ok: "docs_ok host p B dd s" and k: "k < length (callers s)" "callers s ! k = FlushWaiting" and alone: "savers s = 0"
  shows "docs_ok host p B dd (flush_turn k expired s)"
proof -
  note o = docs_okD [OF ok]
  note quiet = others_quiet [OF k(1)]
  have ret: "docs_ok host p B dd (set_caller k (Returned r) s)" for r
  proof (rule set_caller_docs)
    show "rest_ok host p dd (set_caller k (Returned r) s)"
      by (rule return_rest) (use k alone o(6) in \<open>simp_all add: rest_ok_def\<close>)
  qed (use o quiet k alone in simp_all)
  have "docs_ok host p B dd (set_caller k (FlushSaving job) (s\<lparr>pending := None\<rparr>))"
    if q: "pending s = Some job" "\<not> write_in_flight s" for job
  proof (rule set_caller_docs)
    let ?s = "s\<lparr>pending := None\<rparr>"
    have started: "writer_started s" using o(4) q by (auto simp: writer_started_def writer_idle_def split: writer.splits)
    show "snap_is p dd ?s" by (rule snap_is_same [OF o(1)]) simp_all
    show "writer_ok host p B dd ?s (writer ?s)"
      using o(4) q by (cases "writer s") (auto simp: writer_idle_def split: sum.splits elim: writer_ok.elims)
    show "caller_ok host p B dd ?s (FlushSaving job)" using o(3) q started by (simp add: queue_ok_def writer_started_def)
    have "savers (set_caller k (FlushSaving job) ?s) = 1"
      using savers_update [of k ?s "FlushSaving job"] k alone by (simp add: savers_def)
    then show "rest_ok host p dd (set_caller k (FlushSaving job) ?s)" using q by (simp add: rest_ok_def writer_idle_def)
  qed (use o quiet k alone in \<open>simp_all add: queue_ok_def\<close>)
  with ret ok show ?thesis by (simp add: flush_turn_def split: option.split)
qed

lemma caller_docs:
  assumes ok: "docs_ok host p B dd s" and inj: "inj_on (fingerprint host) B" and e: "orderly s (CallerStep k expired fate)"
  shows "docs_ok host p B dd (caller_step host k expired fate s)"
proof (cases "k < length (callers s)")
  case k: True
  have f: "synced fate" using e by simp
  show ?thesis
  proof (cases "callers s ! k")
    case (CommitSaving job stale)
    then have sav: "is_saving (callers s ! k)" by simp
    have c: "job_ok host p B job" "newest dd job" "in_step p s" using saving_caller(3) [OF ok k sav] CommitSaving by simp_all
    have "docs_ok host p B dd (let (r, s) = save_job host fate job s in set_caller k (CommitSaved job stale r) s)"
      by (rule caller_saves [OF ok inj f k sav c(1,2)]) (use c in \<open>simp_all add: job_ok_def in_step_def\<close>)
    with k CommitSaving show ?thesis by (simp add: caller_step_def)
  next
    case (FlushSaving job)
    then have sav: "is_saving (callers s ! k)" by simp
    have c: "job_ok host p B job" "newest dd job" "writer_started s" using saving_caller(3) [OF ok k sav] FlushSaving by simp_all
    have "docs_ok host p B dd (let (r, s) = save_job host fate job s in set_caller k (FlushSaved job r) s)"
      by (rule caller_saves [OF ok inj f k sav c(1,2)]) (use c in \<open>simp_all add: job_ok_def\<close>)
    with k FlushSaving show ?thesis by (simp add: caller_step_def)
  next
    case FlushWaiting
    then have "savers s = 0" using e by simp
    with k FlushWaiting flush_turn_docs [OF ok k FlushWaiting] show ?thesis by (simp add: caller_step_def)
  qed (use k ok commit_saved_docs [OF ok k] flush_saved_docs [OF ok k] in \<open>simp_all add: caller_step_def\<close>)
qed (use ok in \<open>simp add: caller_step_def\<close>)

end
