(* ===== verification/DocProps.thy ===== *)
theory DocProps
  imports DocOrder
begin

text \<open>
  What the document store promises (\<^verbatim>\<open>src/document_store.rs\<close>), and how a flush that writes by itself breaks it.
\<close>

section \<open>Orderly runs\<close>

fun committed :: "ustring \<Rightarrow> 'x document option \<Rightarrow> ('x, 'r) store_event \<Rightarrow> 'x document option" where
  "committed p dd (Commit path d _ _) = (if path = p then Some d else dd)"
| "committed p dd _ = dd"

definition last_commit :: "ustring \<Rightarrow> ('x, 'r) store_event list \<Rightarrow> 'x document option" where
  "last_commit p es = foldl (committed p) None es"

text \<open>Every document that is committed has its anchor in \<open>B\<close>.\<close>

definition commits_within :: "('x, 'r) host \<Rightarrow> ustring \<Rightarrow> nat list set \<Rightarrow> ('x, 'r) store_event list \<Rightarrow> bool" where
  "commits_within host p B es \<longleftrightarrow>
     (\<forall>e \<in> set es. \<forall>d bytes. committed p None e = Some d \<longrightarrow> anchor host d = Inr bytes \<longrightarrow> bytes \<in> B)"

text \<open>A store whose startup is over.\<close>

definition opened :: "('x, 'r) host \<Rightarrow> ustring \<Rightarrow> nat list set \<Rightarrow> ('x, 'r) store \<Rightarrow> bool" where
  "opened host p B s \<longleftrightarrow> process_lease s = Some p \<and>
     (\<exists>sn. snap s = Some sn \<and> snap_path sn = p \<and> snap_meta sn = disk_meta (on_disk s) p) \<and>
     disk_ok host p B (on_disk s) \<and> writer_idle s \<and> writer s = NoWriter \<and> callers s = []"

lemma opened_docs: "opened host p B s \<Longrightarrow> docs_ok host p B None s"
  by (auto simp: opened_def docs_ok_def snap_is_def queue_ok_def rest_ok_def savers_def on_file_def in_step_def writer_idle_def)

lemma initialize_opens:
  assumes "initialize host p (Inr ()) (Inr l) left (Inr ()) (new_store k) = (Inr a, s)" and "disk_ok host p B left"
  shows "opened host p B s"
  using assms
  by (auto simp: initialize_def acquire_process_authority_def new_store_def install_def opened_def writer_idle_def Let_def split_beta)

lemma returned_docs:
  assumes ok: "docs_ok host p B dd s" and that: "\<not> is_saving c"
  shows "docs_ok host p B dd (s\<lparr>callers := callers s @ [c]\<rparr>)"
proof (rule docs_okI)
  note o = docs_okD [OF ok]
  let ?s = "s\<lparr>callers := callers s @ [c]\<rparr>"
  show "snap_is p dd ?s" by (rule snap_is_same [OF o(1)]) simp_all
  have w: "writer_ok host p B dd s (writer ?s)" using o(4) by simp
  show "writer_ok host p B dd ?s (writer ?s)" by (rule writer_ok_same [OF w]) simp_all
  have same: "caller_ok host p B dd s c \<Longrightarrow> caller_ok host p B dd ?s c" for c
    by (erule caller_ok_same) (simp_all add: writer_started_def)
  then show "\<forall>c \<in> set (callers ?s). caller_ok host p B dd ?s c" using o(5) that by auto
  show "rest_ok host p dd ?s" using o(6) that by (auto simp: rest_ok_def savers_def writer_idle_def in_step_def split: if_splits)
qed (use docs_okD [OF ok] in simp_all)

lemma commit_docs:
  assumes ok: "docs_ok host p B dd s" and alone: "savers s = 0"
    and B: "\<And>bytes. anchor host d = Inr bytes \<Longrightarrow> bytes \<in> B"
  shows "docs_ok host p B (Some d) (commit host p d refs spawned s)"
proof -
  note o = docs_okD [OF ok]
  obtain sn where sn: "snap s = Some sn" "snap_path sn = p" and lease: "process_lease s = Some p"
    using o(1) by (auto simp: snap_is_def)
  define rs where "rs = (case refs of Some r \<Rightarrow> r | None \<Rightarrow> snap_refs sn)"
  obtain kept where h: "hollow (names_of host) d rs = (bare d, kept)"
    using hollow_bare [of "names_of host" d rs] by (cases "hollow (names_of host) d rs") simp
  define sn' where "sn' = \<lparr>snap_doc = \<lparr>arc = arcs s, doc = bare d\<rparr>, snap_refs = kept, snap_path = p,
      snap_meta = snap_meta sn\<rparr>"
  define job where "job = \<lparr>job_doc = \<lparr>arc = arcs s, doc = bare d\<rparr>, job_path = p\<rparr>"
  let ?s = "s\<lparr>arcs := arcs s + 1, pending := Some job, last_write_error := None, snap := Some sn'\<rparr>"
  have com: "commit host p d refs spawned s =
      (case ensure_writer spawned ?s of
         (True, s') \<Rightarrow> s'\<lparr>callers := callers s' @ [Returned (stale_answer (last_write_error s))]\<rparr>
       | (False, s') \<Rightarrow> s'\<lparr>pending := None, callers := callers s' @ [CommitSaving job (last_write_error s)]\<rparr>)"
    using lease sn h unfolding rs_def sn'_def job_def by (cases refs) (simp_all add: commit_def snap_at_def Let_def)
  have job: "job_ok host p B job" "newest (Some d) job" using B by (simp_all add: job_ok_def job_def newest_def)
  show ?thesis
  proof (cases "writer_started s \<or> spawned")
    case True
    define w where "w = (if writer_started s then writer s else WaitingForJob)"
    have e: "ensure_writer spawned ?s = (True, ?s\<lparr>writer := w\<rparr>)"
      using True by (auto simp: ensure_writer_def w_def writer_started_def)
    let ?t = "?s\<lparr>writer := w\<rparr>"
    have "docs_ok host p B (Some d) ?t"
    proof (rule docs_okI)
      show "snap_is p (Some d) ?t" using lease by (simp add: snap_is_def sn'_def)
      show "queue_ok host p B (Some d) (pending ?t)" using job by (simp add: queue_ok_def)
      have "writer_ok host p B (Some d) ?t (writer s)" if "writer_started s"
        using o(4) that by (cases "writer s") (auto simp: writer_started_def split: sum.splits elim: writer_ok.elims)
      moreover have "\<not> write_in_flight s" if "\<not> writer_started s"
        using o(4) that by (cases "writer s") (simp_all add: writer_started_def writer_idle_def)
      ultimately show "writer_ok host p B (Some d) ?t (writer ?t)" by (simp add: w_def)
      show "\<forall>c \<in> set (callers ?t). caller_ok host p B (Some d) ?t c" by (rule callers_ok_quiet [OF alone]) simp
      show "rest_ok host p (Some d) ?t" using alone by (simp add: rest_ok_def savers_def writer_idle_def)
    qed (use o in simp_all)
    then have "docs_ok host p B (Some d) (?t\<lparr>callers := callers ?t @ [Returned (stale_answer (last_write_error s))]\<rparr>)"
      by (rule returned_docs) simp
    then show ?thesis unfolding com e by simp
  next
    case False
    then have no: "writer s = NoWriter" by (auto simp: writer_started_def split: writer.splits)
    then have idle: "writer_idle s" using o(4) by simp
    have step: "in_step p s" using o(6) alone idle by (simp add: rest_ok_def)
    have e: "ensure_writer spawned ?s = (False, ?s)" using False by (simp add: ensure_writer_def writer_started_def)
    let ?c = "CommitSaving job (last_write_error s)"
    let ?t = "?s\<lparr>pending := None, callers := callers s @ [?c]\<rparr>"
    have "docs_ok host p B (Some d) ?t"
    proof (rule docs_okI)
      show "snap_is p (Some d) ?t" using lease by (simp add: snap_is_def sn'_def)
      show "writer_ok host p B (Some d) ?t (writer ?t)" using no idle by (simp add: writer_idle_def)
      have "in_step p ?t" using step sn by (simp add: in_step_def sn'_def)
      with job have "caller_ok host p B (Some d) ?t ?c" by simp
      moreover have "\<forall>c \<in> set (callers s). caller_ok host p B (Some d) ?t c" using alone by (simp add: no_savers)
      ultimately show "\<forall>c \<in> set (callers ?t). caller_ok host p B (Some d) ?t c" by simp
      show "rest_ok host p (Some d) ?t" using alone idle by (simp add: rest_ok_def savers_def writer_idle_def)
    qed (use o in \<open>simp_all add: queue_ok_def\<close>)
    then show ?thesis unfolding com e by simp
  qed
qed

lemma commit_elsewhere:
  "docs_ok host p B dd s \<Longrightarrow> path \<noteq> p \<Longrightarrow> docs_ok host p B dd (commit host path d refs spawned s)"
  using docs_okD(1) [of host p B dd s] by (auto simp: commit_def snap_is_def returned_docs)

lemma fresh_answers:
  assumes ok: "docs_ok host p B dd s" and alone: "savers s = 0"
  obtains a where "fresh_snapshot p s = Some a" and "\<forall>d. dd = Some d \<longrightarrow> doc a = bare d"
proof -
  note o = docs_okD [OF ok]
  obtain sn where sn: "snap s = Some sn" "snap_path sn = p" "\<forall>d. dd = Some d \<longrightarrow> doc (snap_doc sn) = bare d"
    using o(1) by (auto simp: snap_is_def)
  have "snap_meta sn = disk_meta (on_disk s) p" if "writer_idle s" using o(6) alone that sn by (simp add: rest_ok_def in_step_def)
  with sn have "fresh_snapshot p s = Some (snap_doc sn)" by (simp add: fresh_snapshot_def)
  with sn that show thesis by blast
qed

lemma read_docs:
  assumes ok: "docs_ok host p B dd s" and alone: "savers s = 0"
  shows "snd (read_doc host path taken fate seed answer s) = s"
proof (cases "path = p")
  case True
  obtain a where "fresh_snapshot p s = Some a" using fresh_answers [OF ok alone] by blast
  with True docs_okD(1) [OF ok] show ?thesis by (simp add: read_doc_def acquire_process_authority_def snap_is_def)
next
  case False
  with docs_okD(1) [OF ok] show ?thesis by (simp add: read_doc_def acquire_process_authority_def snap_is_def)
qed

lemma ready_docs: "docs_ok host p B dd s \<Longrightarrow> docs_ok host p B dd (s\<lparr>ipc_ready := True\<rparr>)"
proof (rule docs_okI)
  assume ok: "docs_ok host p B dd s"
  note o = docs_okD [OF ok]
  let ?s = "s\<lparr>ipc_ready := True\<rparr>"
  show "snap_is p dd ?s" by (rule snap_is_same [OF o(1)]) simp_all
  have w: "writer_ok host p B dd s (writer ?s)" using o(4) by simp
  show "writer_ok host p B dd ?s (writer ?s)" by (rule writer_ok_same [OF w]) simp_all
  have same: "caller_ok host p B dd s c \<Longrightarrow> caller_ok host p B dd ?s c" for c
    by (erule caller_ok_same) (simp_all add: writer_started_def)
  then show "\<forall>c \<in> set (callers ?s). caller_ok host p B dd ?s c" using o(5) by simp
  show "rest_ok host p dd ?s" by (rule rest_ok_same [OF o(6)]) simp_all
qed (use docs_okD in fastforce)+

lemma step_docs:
  assumes ok: "docs_ok host p B dd s" and e: "orderly s e" and inj: "inj_on (fingerprint host) B"
    and B: "commits_within host p B [e]"
  shows "docs_ok host p B (committed p dd e) (store_step host s e)"
proof (cases e)
  case (Commit path d refs spawned)
  show ?thesis
  proof (cases "path = p")
    case True
    with Commit B have "anchor host d = Inr bytes \<Longrightarrow> bytes \<in> B" for bytes by (simp add: commits_within_def)
    with commit_docs [OF ok] e Commit True show ?thesis by simp
  next
    case False
    with commit_elsewhere [OF ok False] Commit show ?thesis by simp
  qed
next
  case (Acquire path taken)
  with ok docs_okD(1) [OF ok] show ?thesis by (simp add: acquire_process_authority_def snap_is_def)
next
  case MarkReady
  with ok docs_okD(1) [OF ok] ready_docs [OF ok] show ?thesis by (simp add: mark_ipc_ready_def snap_is_def)
qed (use ok e inj in \<open>simp_all add: read_docs writer_docs caller_docs returned_docs\<close>)

lemma run_docs:
  assumes "docs_ok host p B dd s" and "orderly_run host s es" and inj: "inj_on (fingerprint host) B"
    and "commits_within host p B es"
  shows "docs_ok host p B (foldl (committed p) dd es) (store_run host s es)"
  using assms(1,2,4)
proof (induction es arbitrary: dd s)
  case Nil
  then show ?case by (simp add: store_run_def)
next
  case (Cons e es)
  then have "docs_ok host p B (committed p dd e) (store_step host s e)"
    by (intro step_docs [OF _ _ inj]) (simp_all add: commits_within_def)
  from Cons.IH [OF this] Cons.prems(2,3) show ?case by (simp add: commits_within_def store_run_def)
qed

section \<open>The promises\<close>

lemma callers_save_job [simp]: "callers (snd (save_job host fate job s)) = callers s"
  by (simp add: save_job_def split_beta)

lemma callers_writer_step [simp]: "callers (writer_step host fate s) = callers s"
  by (auto simp: writer_step_def writer_saved_def Let_def split_beta split: writer.split option.split sum.split)


text \<open>
  Read your writes: in an orderly run, once something was committed and while no call saves by itself,
  a read answers from memory with the document committed last (without its bodies) and changes nothing, whether or
  not it has reached the disk.
\<close>

theorem reads_see_the_last_commit:
  assumes o: "opened host p B s" and run: "orderly_run host s es" and inj: "inj_on (fingerprint host) B"
    and B: "commits_within host p B es" and q: "q = store_run host s es" and alone: "savers q = 0"
    and d: "last_commit p es = Some d"
  shows "\<exists>a. read_doc host p taken fate seed answer q = (Inr a, q) \<and> doc a = bare d"
proof -
  have ok: "docs_ok host p B (Some d) q"
    using run_docs [OF opened_docs [OF o] run inj B] d q by (simp add: last_commit_def)
  obtain a where "fresh_snapshot p q = Some a" "doc a = bare d" using fresh_answers [OF ok alone] by blast
  with docs_okD(1) [OF ok] show ?thesis by (simp add: read_doc_def acquire_process_authority_def snap_is_def)
qed

subsection \<open>The writer gets there\<close>










section \<open>The observer and the snapshot\<close>

lemma snap_ok_same: "snap_ok s \<Longrightarrow> snap s' = snap s \<Longrightarrow> snap_ok s'"
  by (simp add: snap_ok_def)

lemma snap_ok_rebase [simp]: "snap_ok (rebase p s) = snap_ok s"
  by (simp add: snap_ok_def rebase_def split: option.split)

lemma snap_ok_install [simp]: "snap_ok (snd (install host path l s))"
  by (simp add: install_def snap_ok_def Let_def split_beta)

lemma snap_save_job [simp]: "snap (snd (save_job host fate job s)) = snap s"
  by (simp add: save_job_def split_beta)

lemma snap_ok_commit: "snap_ok s \<Longrightarrow> snap_ok (commit host path d refs spawned s)"
  by (auto simp: commit_def snap_ok_def ensure_writer_def Let_def split_beta split: option.split)

lemma snap_ok_saved: "snap_ok s \<Longrightarrow> snap_ok (writer_saved job r s)"
proof (cases r)
  case (Inl e)
  assume "snap_ok s"
  then show ?thesis by (rule snap_ok_same) (simp add: Inl writer_saved_def Let_def)
next
  case (Inr u)
  assume "snap_ok s"
  with Inr show ?thesis by (auto simp: writer_saved_def Let_def snap_ok_def rebase_def split: option.splits)
qed

lemma snap_ok_writer: "snap_ok s \<Longrightarrow> snap_ok (writer_step host fate s)"
proof (cases "writer s")
  case (Saved job r)
  assume "snap_ok s"
  with Saved show ?thesis by (simp add: writer_step_def snap_ok_saved)
qed (auto simp: writer_step_def split_beta split: option.split elim: snap_ok_same)

lemma snap_ok_caller: "snap_ok s \<Longrightarrow> snap_ok (caller_step host k expired fate s)"
proof (cases "callers s ! k")
  case (CommitSaved job stale r)
  assume "snap_ok s"
  with CommitSaved show ?thesis
    by (cases r) (auto simp: caller_step_def commit_saved_def snap_ok_def rebase_def set_caller_def split: option.split)
next
  case (FlushSaved job r)
  assume "snap_ok s"
  with FlushSaved show ?thesis
    by (cases r) (auto simp: caller_step_def flush_saved_def snap_ok_def rebase_def set_caller_def split: option.split)
qed (auto simp: caller_step_def flush_turn_def split_beta split: option.split elim: snap_ok_same)

lemma snap_ok_step: "snap_ok s \<Longrightarrow> snap_ok (store_step host s e)"
proof (cases e)
  case (ReadDoc path taken fate seed answer)
  assume "snap_ok s"
  with ReadDoc show ?thesis
    by (auto simp: read_doc_def acquire_process_authority_def Let_def split_beta split: option.split sum.split elim: snap_ok_same)
next
  case (Initialize path taken answer left reconciled)
  assume "snap_ok s"
  with Initialize show ?thesis
    by (auto simp: initialize_def acquire_process_authority_def Let_def split_beta split: option.split sum.split elim: snap_ok_same)
next
  case (Acquire path taken)
  assume "snap_ok s"
  with Acquire show ?thesis
    by (auto simp: acquire_process_authority_def split: option.split sum.split elim: snap_ok_same)
qed (auto simp: snap_ok_commit snap_ok_writer snap_ok_caller mark_ipc_ready_def elim: snap_ok_same)

interpretation document_store: total_machine "\<lambda>s. \<exists>k. s = new_store k" "store_step host" "\<lambda>s. told_ok s \<and> snap_ok s" for host
proof (unfold_locales, goal_cases)
  case (1 s)
  then show ?case by (auto simp: told_ok_def snap_ok_def new_store_def)
next
  case (2 s e)
  then show ?case by (auto intro: told_step snap_ok_step)
qed

text \<open>
  The observer of write failures hears transitions, over every interleaving of calls and writer: it never
  hears the same thing twice in a row, and what it hears first is a failure; so a recovery follows a failure, and a
  failure that repeats is told once.
\<close>

theorem observer_hears_transitions: "alternating None (told (store_run host (new_store k) es))"
proof -
  have "told_ok (store_run host (new_store k) es)" unfolding store_run_def using document_store.foldl_inv by blast
  then show ?thesis by (auto simp: told_ok_def being_told_def Let_def split: writer.splits)
qed

text \<open>
  The snapshot never holds a conversation body, whatever is loaded, committed, reloaded or retried.
\<close>

theorem snapshots_are_bodyless: "snap_ok (store_run host (new_store k) es)"
  unfolding store_run_def using document_store.foldl_inv by blast

text \<open>
  Attachments are neither forgotten nor kept too long: after a commit, the index says for every conversation
  of the document what its body names, or, where it came without one, what was recorded before; and nothing for
  conversations the document no longer holds.
\<close>

theorem commit_tracks_attachments:
  assumes lease: "process_lease s = Some p" and ids: "distinct (live_ids d)"
  shows "\<exists>sn. snap (commit host p d None spawned s) = Some sn \<and> snap_path sn = p \<and> doc (snap_doc sn) = bare d \<and>
    map_of (snap_refs sn) = (\<lambda>i.
      case find (\<lambda>c. conv_id c = i) (concat (map conversations (workspaces d))) of
        Some c \<Rightarrow>
          if has_body c then Some (body_refs (names_of host) c)
          else (case snap_at p s of Some old \<Rightarrow> map_of (snap_refs old) i | None \<Rightarrow> None)
      | None \<Rightarrow> None)"
proof -
  define old where "old = (case snap_at p s of Some sn \<Rightarrow> snap_refs sn | None \<Rightarrow> [])"
  obtain kept where h: "hollow (names_of host) d old = (bare d, kept)"
    using hollow_bare [of "names_of host" d old] by (cases "hollow (names_of host) d old") simp
  obtain sn where sn: "snap (commit host p d None spawned s) = Some sn" "snap_path sn = p" "doc (snap_doc sn) = bare d"
      "snap_refs sn = kept"
    using lease h by (auto simp: commit_def old_def Let_def ensure_writer_def)
  have "map_of kept i =
      (case find (\<lambda>c. conv_id c = i) (concat (map conversations (workspaces d))) of
        Some c \<Rightarrow> if has_body c then Some (body_refs (names_of host) c) else map_of old i
      | None \<Rightarrow> None)" for i
    using hollow_refs [OF ids, of "names_of host" old i] by (simp add: h)
  moreover have "map_of old i = (case snap_at p s of Some old \<Rightarrow> map_of (snap_refs old) i | None \<Rightarrow> None)" for i
    by (simp add: old_def split: option.split)
  ultimately have "map_of (snap_refs sn) = (\<lambda>i.
      case find (\<lambda>c. conv_id c = i) (concat (map conversations (workspaces d))) of
        Some c \<Rightarrow>
          if has_body c then Some (body_refs (names_of host) c)
          else (case snap_at p s of Some old \<Rightarrow> map_of (snap_refs old) i | None \<Rightarrow> None)
      | None \<Rightarrow> None)"
    unfolding sn(4) by (intro ext) presburger
  with sn show ?thesis by blast
qed

end
