(* ===== verification/DocRuns.thy ===== *)
theory DocRuns
  imports DocProps
begin

text \<open>
  The document store on concrete runs (\<^verbatim>\<open>src/document_store.rs\<close>): two that leave the newest document out of the file
  although everything reports success, and inputs at which the promises hold.
\<close>

section \<open>A save that flush makes itself\<close>

definition demo_host :: "(nat, nat) host" where
  "demo_host = \<lparr>anchor_json = (\<lambda>x _. Inr [x]), fingerprint = (\<lambda>bytes. case bytes of x # _ \<Rightarrow> x | [] \<Rightarrow> 0), names_of = (\<lambda>xs. xs)\<rparr>"

definition demo_doc :: "nat \<Rightarrow> nat document" where
  "demo_doc x = \<lparr>settings = x, workspaces = []\<rparr>"

definition demo_disk :: disk where
  "demo_disk = \<lparr>files = [[112] \<mapsto> ([7], 0)], printed = [[112] \<mapsto> 7], stamps = 1\<rparr>"

definition demo_loaded :: "(nat, nat) loaded" where
  "demo_loaded = \<lparr>loaded_doc = demo_doc 7, loaded_refs = [], loaded_fresh = False\<rparr>"

definition demo_store :: "(nat, nat) store" where
  "demo_store = snd (initialize demo_host [112] (Inr ()) (Inr demo_loaded) demo_disk (Inr ()) (new_store demo_disk))"





definition demo_snap :: "nat \<Rightarrow> nat \<Rightarrow> nat \<Rightarrow> (nat, nat) snapshot" where
  "demo_snap a x stamp = \<lparr>snap_doc = \<lparr>arc = a, doc = demo_doc x\<rparr>, snap_refs = [], snap_path = [112], snap_meta = Some stamp\<rparr>"

definition demo_job :: "nat \<Rightarrow> nat \<Rightarrow> nat job" where
  "demo_job a x = \<lparr>job_doc = \<lparr>arc = a, doc = demo_doc x\<rparr>, job_path = [112]\<rparr>"

lemmas demo_defs = demo_snap_def demo_job_def demo_doc_def demo_host_def hollow_def retain_conversations_def
  snap_at_def writer_started_def ensure_writer_def stale_answer_def Let_def

lemma demo_store_is:
  "demo_store = (new_store demo_disk)\<lparr>process_lease := Some [112], arcs := 1, snap := Some (demo_snap 0 7 0)\<rparr>"
  by (simp add: demo_store_def initialize_def acquire_process_authority_def install_def new_store_def demo_loaded_def
      demo_disk_def disk_meta_def demo_defs)

lemma demo_commit:
  "process_lease s = Some [112] \<Longrightarrow> snap s = Some (demo_snap a y st) \<Longrightarrow>
     commit demo_host [112] (demo_doc x) None True s =
       s\<lparr>arcs := arcs s + 1, pending := Some (demo_job (arcs s) x), last_write_error := None,
         snap := Some (demo_snap (arcs s) x st), writer := (if writer_started s then writer s else WaitingForJob),
         callers := callers s @ [Returned (stale_answer (last_write_error s))]\<rparr>"
  by (simp add: commit_def demo_defs split: writer.split)


lemma demo_save:
  "save_job demo_host Written (demo_job a x) s =
     (if printed (on_disk s) [112] = Some x \<and> files (on_disk s) [112] \<noteq> None then (Inr (), s)
      else (Inr (), s\<lparr>on_disk := (put_file [112] [x] (on_disk s))
             \<lparr>printed := (printed (on_disk s))([112] \<mapsto> x)\<rparr>\<rparr>))"
  "save_job demo_host (Refused e) (demo_job a x) s =
     (if printed (on_disk s) [112] = Some x \<and> files (on_disk s) [112] \<noteq> None then (Inr (), s)
      else (Inl (AnchorNotWritten e), s))"
  by (cases "printed (on_disk s) [112] = Some x \<and> files (on_disk s) [112] \<noteq> None";
      auto simp: save_job_def save_unchecked_def atomic_write_def demo_defs MAX_DOCUMENT_BYTES_def put_file_def)+

lemma demo_parts [simp]:
  "job_path (demo_job a x) = [112]" "arc (job_doc (demo_job a x)) = a" "snap_path (demo_snap a x st) = [112]"
  "snap_meta (demo_snap a x st) = Some st" "(demo_snap a x st)\<lparr>snap_meta := Some st'\<rparr> = demo_snap a x st'"
  "anchor demo_host (doc (snap_doc (demo_snap a x st))) = Inr [x]"
  by (simp_all add: demo_job_def demo_snap_def demo_doc_def demo_host_def anchor_def)






section \<open>Inputs at which the promises hold\<close>

definition demo_B :: "nat list set" where "demo_B = {[1], [2], [7]}"

definition demo_run :: "(nat, nat) store_event list" where
  "demo_run = [Commit [112] (demo_doc 1) None True, WriterStep Written, WriterStep Written, Flush]"

lemma demo_opened: "opened demo_host [112] demo_B demo_store"
  by (auto simp: opened_def demo_store_is new_store_def demo_disk_def disk_ok_def disk_meta_def writer_idle_def demo_B_def
      demo_host_def demo_snap_def)

lemma demo_inj: "inj_on (fingerprint demo_host) demo_B"
  by (simp add: inj_on_def demo_host_def demo_B_def)

lemma demo_anchor: "anchor demo_host (demo_doc x) = Inr [x]"
  by (simp add: anchor_def demo_host_def demo_doc_def)

lemma demo_within: "commits_within demo_host [112] demo_B demo_run"
  by (simp add: commits_within_def demo_run_def demo_anchor demo_B_def)

lemma demo_last: "last_commit [112] demo_run = Some (demo_doc 1)"
  by (simp add: last_commit_def demo_run_def)

lemma demo_written:
  "store_run demo_host demo_store demo_run = demo_store
     \<lparr>arcs := 2, snap := Some (demo_snap 1 1 0), write_in_flight := True, writer := Saved (demo_job 1 1) (Inr ()),
      callers := [Returned (Inr ()), FlushWaiting],
      on_disk := \<lparr>files = [[112] \<mapsto> ([1], 1)], printed = [[112] \<mapsto> 1], stamps = 2\<rparr>\<rparr>"
  by (simp add: demo_run_def store_run_def demo_store_is new_store_def demo_commit writer_step_def demo_save writer_started_def
      stale_answer_def demo_disk_def put_file_def numeral_2_eq_2)

lemma demo_orderly: "orderly_run demo_host demo_store demo_run"
  by (simp add: demo_run_def demo_store_is new_store_def demo_commit writer_step_def demo_save writer_started_def
      stale_answer_def demo_disk_def put_file_def savers_def)

lemma demo_alone: "savers (store_run demo_host demo_store demo_run) = 0"
  unfolding demo_written by (simp add: savers_def)

theorem reads_see_the_last_commit_witness:
  "\<exists>a. read_doc demo_host [112] (Inr ()) Written (demo_doc 5) (Inl LeaseMissing) (store_run demo_host demo_store demo_run) =
     (Inr a, store_run demo_host demo_store demo_run) \<and> doc a = bare (demo_doc 1)"
  by (rule reads_see_the_last_commit [OF demo_opened demo_orderly demo_inj demo_within refl demo_alone demo_last])






definition demo_chat :: "nat document" where
  "demo_chat = \<lparr>settings = 1, workspaces = [\<lparr>shell = 2, conversations =
     [\<lparr>conv_id = [97], conv_contexts = [5, 6], conv_branches = [[6, 8]], conv_rest = 0\<rparr>]\<rparr>]\<rparr>"

theorem commit_tracks_attachments_witness:
  "\<exists>sn. snap (commit demo_host [112] demo_chat None True demo_store) = Some sn \<and> map_of (snap_refs sn) [97] = Some [5, 6, 6, 8]"
proof -
  have "process_lease demo_store = Some [112]" by (simp add: demo_store_is)
  moreover have "distinct (live_ids demo_chat)" by (simp add: live_ids_def demo_chat_def)
  ultimately obtain sn where sn: "snap (commit demo_host [112] demo_chat None True demo_store) = Some sn"
    and refs: "map_of (snap_refs sn) = (\<lambda>i.
      case find (\<lambda>c. conv_id c = i) (concat (map conversations (workspaces demo_chat))) of
        Some c \<Rightarrow>
          if has_body c then Some (body_refs (names_of demo_host) c)
          else (case snap_at [112] demo_store of Some old \<Rightarrow> map_of (snap_refs old) i | None \<Rightarrow> None)
      | None \<Rightarrow> None)"
    using commit_tracks_attachments [of demo_store "[112]" demo_chat demo_host True] by blast
  have "map_of (snap_refs sn) [97] = Some [5, 6, 6, 8]"
    unfolding refs by (simp add: demo_chat_def has_body_def body_refs_def demo_host_def)
  with sn show ?thesis by blast
qed

end
