(* ===== verification/WireNotice.thy ===== *)
theory WireNotice
  imports TextEdit
begin

text \<open>
  The messages of the host as the model reads them (\<^verbatim>\<open>src/wire_history.rs\<close>): the \<open><task-notification>\<close> that carries
  a task's result, and the screening of the call ids a card may send again.
\<close>

section \<open>String methods\<close>

text \<open>\<open>s.replace(p, r)\<close> for a pattern that is not empty, and for a single character.\<close>

function replace_all :: "ustring \<Rightarrow> ustring \<Rightarrow> ustring \<Rightarrow> ustring" where
  "replace_all p r s =
     (if p = [] \<or> s = [] then s
      else if starts_with p s then r @ replace_all p r (drop (length p) s)
      else hd s # replace_all p r (tl s))"
  by pat_completeness auto
termination
  by (relation "measure (\<lambda>(p, r, s). length s)") auto

declare replace_all.simps [simp del]

definition replace_char :: "nat \<Rightarrow> ustring \<Rightarrow> ustring \<Rightarrow> ustring" where
  "replace_char c r s = concat (map (\<lambda>x. if x = c then r else [x]) s)"

section \<open>The notification\<close>

definition NOTIFICATION_CLOSE :: ustring where "NOTIFICATION_CLOSE = lit ''</task-notification>''"
definition RESULT_CLOSE :: ustring where "RESULT_CLOSE = lit ''</result>''"

text \<open>92 is the backslash, 10 the line feed.\<close>

definition escape_host_notice_body :: "ustring \<Rightarrow> ustring" where
  "escape_host_notice_body body =
     replace_all NOTIFICATION_CLOSE (lit ''<'' @ [92] @ lit ''/task-notification>'')
       (replace_all RESULT_CLOSE (lit ''<'' @ [92] @ lit ''/result>'') body)"

definition escape_notice_scalar :: "ustring \<Rightarrow> ustring" where
  "escape_notice_scalar v =
     replace_char 62 (lit ''&gt;'') (replace_char 60 (lit ''&lt;'') (replace_char 38 (lit ''&amp;'') v))"

definition notice_element :: "ustring \<Rightarrow> ustring \<Rightarrow> ustring" where
  "notice_element tag v =
     (if v = [] then []
      else lit ''<'' @ tag @ lit ''>'' @ escape_notice_scalar v @ lit ''</'' @ tag @ lit ''>'' @ [10])"

record notice_usage =
  subagent_tokens :: "nat option"
  tool_uses :: "nat option"
  duration_ms :: "nat option"

definition number_text :: "nat option \<Rightarrow> ustring" where
  "number_text n = (case n of None \<Rightarrow> [] | Some k \<Rightarrow> decimal k)"

definition usage_inner :: "notice_usage \<Rightarrow> ustring" where
  "usage_inner u =
     notice_element (lit ''subagent_tokens'') (number_text (subagent_tokens u)) @
     notice_element (lit ''tool_uses'') (number_text (tool_uses u)) @
     notice_element (lit ''duration_ms'') (number_text (duration_ms u))"

definition usage_element :: "notice_usage option \<Rightarrow> ustring" where
  "usage_element u =
     (case u of
        None \<Rightarrow> []
      | Some u \<Rightarrow> if usage_inner u = [] then [] else lit ''<usage>'' @ [10] @ usage_inner u @ lit ''</usage>'' @ [10])"

definition result_element :: "ustring \<Rightarrow> ustring" where
  "result_element body =
     (let body = escape_host_notice_body (trim body)
      in if body = [] then [] else lit ''<result>'' @ [10] @ body @ [10] @ RESULT_CLOSE @ [10])"

definition render_notification ::
  "ustring \<Rightarrow> ustring \<Rightarrow> ustring \<Rightarrow> ustring \<Rightarrow> notice_usage option \<Rightarrow> ustring" where
  "render_notification task state summary body u =
     lit ''<task-notification>'' @ [10] @
     notice_element (lit ''task-id'') task @ notice_element (lit ''status'') state @
     notice_element (lit ''summary'') summary @
     result_element body @ usage_element u @ NOTIFICATION_CLOSE"

definition task_notification ::
  "ustring \<Rightarrow> ustring \<Rightarrow> ustring \<Rightarrow> ustring \<Rightarrow> (nat option \<times> nat \<times> nat) option \<Rightarrow> ustring" where
  "task_notification task state summary body u =
     render_notification task state summary body
       (map_option (\<lambda>(t, n, d). \<lparr>subagent_tokens = t, tool_uses = Some n, duration_ms = Some d\<rparr>) u)"

definition host_notice_notification :: "ustring \<Rightarrow> ustring \<Rightarrow> ustring" where
  "host_notice_notification summary body = render_notification [] [] summary body None"

section \<open>Occurrences of a closing tag\<close>

fun occurrences :: "ustring \<Rightarrow> ustring \<Rightarrow> nat" where
  "occurrences p [] = 0"
| "occurrences p (c # s) = (if starts_with p (c # s) then 1 else 0) + occurrences p s"

text \<open>A tag: the one angle bracket that opens it comes first.\<close>

definition closer :: "ustring \<Rightarrow> bool" where
  "closer p \<longleftrightarrow> (\<exists>w. p = 60 # 47 # w \<and> 60 \<notin> set w \<and> 10 \<notin> set w)"

lemma closers: "closer NOTIFICATION_CLOSE" "closer RESULT_CLOSE"
  by (simp_all add: closer_def NOTIFICATION_CLOSE_def RESULT_CLOSE_def)

lemma starts_with_Cons: "starts_with (a # p) (c # s) \<longleftrightarrow> a = c \<and> starts_with p s"
  by (auto simp: starts_with_def)

lemma starts_with_Nil [simp]: "starts_with [] s" "starts_with (a # p) [] = False"
  by (simp_all add: starts_with_def)

lemma occurrences_none: "60 \<notin> set s \<Longrightarrow> occurrences (60 # p) s = 0"
  by (induction s) (auto simp: starts_with_Cons)

text \<open>No occurrence straddles the start of a tag.\<close>

lemma starts_with_append:
  "60 \<notin> set w \<Longrightarrow> b = [] \<or> hd b = 60 \<Longrightarrow> starts_with w (a @ b) \<longleftrightarrow> starts_with w a"
proof (induction w arbitrary: a)
  case (Cons x w)
  show ?case
  proof (cases a)
    case Nil
    with Cons.prems show ?thesis by (cases b) (auto simp: starts_with_Cons)
  next
    case (Cons y a')
    with Cons.IH [of a'] Cons.prems show ?thesis by (simp add: starts_with_Cons)
  qed
qed simp

lemma occurrences_append:
  "closer p \<Longrightarrow> b = [] \<or> hd b = 60 \<Longrightarrow> occurrences p (a @ b) = occurrences p a + occurrences p b"
proof (induction a)
  case (Cons c a)
  obtain w where w: "p = 60 # w" "60 \<notin> set w" using Cons.prems(1) by (auto simp: closer_def)
  have "starts_with p (c # a @ b) = starts_with p (c # a)"
    using starts_with_append [OF w(2) Cons.prems(2), of a] by (simp add: w(1) starts_with_Cons)
  with Cons show ?case by simp
qed simp

lemma starts_with_snoc: "c \<notin> set p \<Longrightarrow> starts_with p (s @ [c]) \<longleftrightarrow> starts_with p s"
proof (induction p arbitrary: s)
  case (Cons x p)
  then show ?case by (cases s) (auto simp: starts_with_Cons)
qed simp

lemma occurrences_snoc: "c \<notin> set p \<Longrightarrow> p \<noteq> [] \<Longrightarrow> occurrences p (s @ [c]) = occurrences p s"
proof (induction s)
  case Nil
  then show ?case by (cases p) (auto simp: starts_with_Cons)
next
  case (Cons x s)
  then show ?case using starts_with_snoc [of c p "x # s"] by simp
qed

text \<open>A lead without an angle bracket but its first, which opens no closing tag.\<close>

lemma occurrences_lead:
  "closer p \<Longrightarrow> 60 \<notin> set a \<Longrightarrow> a \<noteq> [] \<Longrightarrow> hd a \<noteq> 47 \<Longrightarrow> occurrences p (60 # a @ b) = occurrences p b"
proof -
  assume p: "closer p" and a: "60 \<notin> set a" "a \<noteq> []" "hd a \<noteq> 47"
  obtain w where w: "p = 60 # 47 # w" using p by (auto simp: closer_def)
  have "occurrences p (a @ b) = occurrences p b" using a(1)
    by (induction a) (auto simp: w starts_with_Cons)
  moreover have "\<not> starts_with p (60 # a @ b)" using a by (cases a) (auto simp: w starts_with_Cons)
  ultimately show ?thesis by simp
qed

section \<open>What escaping does\<close>

lemma replace_all_Nil [simp]: "replace_all p r [] = []"
  by (simp add: replace_all.simps)

lemma replace_all_hit:
  "p \<noteq> [] \<Longrightarrow> s \<noteq> [] \<Longrightarrow> starts_with p s \<Longrightarrow> replace_all p r s = r @ replace_all p r (drop (length p) s)"
  by (subst replace_all.simps) simp

lemma replace_all_miss:
  "p \<noteq> [] \<Longrightarrow> \<not> starts_with p (c # s) \<Longrightarrow> replace_all p r (c # s) = c # replace_all p r s"
  by (subst replace_all.simps) simp

lemma replace_all_no_pattern: "replace_all [] r s = s"
  by (subst replace_all.simps) simp

lemma replace_all_empty: "r \<noteq> [] \<Longrightarrow> replace_all p r s = [] \<longleftrightarrow> s = []"
  by (subst replace_all.simps) simp

text \<open>What a replacement whose texts begin with the bracket shows before the next bracket was there already.\<close>

lemma replace_all_starts:
  "hd p = 60 \<Longrightarrow> r \<noteq> [] \<Longrightarrow> hd r = 60 \<Longrightarrow> 60 \<notin> set w \<Longrightarrow> starts_with w (replace_all p r s) \<Longrightarrow> starts_with w s"
proof (induction w arbitrary: s)
  case (Cons x w)
  show ?case
  proof (cases s)
    case Nil
    with Cons.prems show ?thesis by simp
  next
    case s: (Cons c t)
    show ?thesis
    proof (cases "p = []")
      case True
      with Cons.prems show ?thesis by (simp add: replace_all_no_pattern)
    next
      case False
      show ?thesis
      proof (cases "starts_with p s")
        case True
        with False Cons.prems s show ?thesis by (cases r) (auto simp: replace_all_hit starts_with_Cons)
      next
        case miss: False
        with False s have "replace_all p r s = c # replace_all p r t" by (simp add: replace_all_miss)
        with Cons s show ?thesis by (simp add: starts_with_Cons)
      qed
    qed
  qed
qed simp

definition escaped_closer :: "ustring \<Rightarrow> ustring \<Rightarrow> bool" where
  "escaped_closer p r \<longleftrightarrow> closer p \<and> (\<exists>w. r = 60 # 92 # w \<and> 60 \<notin> set w)"

text \<open>Replacing one closing tag leaves no new one, and none of its own kind.\<close>

lemma occurrences_replace_all:
  assumes e: "escaped_closer p r" and q: "closer q"
  shows "occurrences q (replace_all p r s) \<le> occurrences q s"
proof (induction s rule: length_induct)
  case (1 s)
  obtain w where w: "q = 60 # 47 # w" "60 \<notin> set w" using q by (auto simp: closer_def)
  obtain v where v: "r = 60 # 92 # v" "60 \<notin> set v" using e by (auto simp: escaped_closer_def)
  have p: "p \<noteq> []" "hd p = 60" using e by (auto simp: escaped_closer_def closer_def)
  show ?case
  proof (cases s)
    case Nil
    then show ?thesis by simp
  next
    case (Cons c t)
    show ?thesis
    proof (cases "starts_with p s")
      case True
      then have d: "replace_all p r s = r @ replace_all p r (drop (length p) s)"
        using p Cons by (intro replace_all_hit) simp_all
      have "occurrences q (r @ replace_all p r (drop (length p) s)) = occurrences q (replace_all p r (drop (length p) s))"
        using occurrences_lead [OF q, of "92 # v" "replace_all p r (drop (length p) s)"] v by simp
      moreover have "occurrences q (replace_all p r (drop (length p) s)) \<le> occurrences q (drop (length p) s)"
        using 1 p Cons by simp
      moreover have "occurrences q (drop n s) \<le> occurrences q s" for n
        by (induction s arbitrary: n) (simp_all add: drop_Cons' le_SucI)
      ultimately show ?thesis unfolding d by (metis le_trans)
    next
      case False
      then have d: "replace_all p r s = c # replace_all p r t"
        using p Cons by (simp add: replace_all_miss)
      have "starts_with (47 # w) (replace_all p r t) \<Longrightarrow> starts_with (47 # w) t"
        using replace_all_starts [of p r "47 # w" t] p v w(2) by simp
      then have "starts_with q (c # replace_all p r t) \<Longrightarrow> starts_with q (c # t)"
        by (simp add: w(1) starts_with_Cons)
      moreover have "occurrences q (replace_all p r t) \<le> occurrences q t" using 1 Cons by simp
      ultimately show ?thesis unfolding Cons d [unfolded Cons] by auto
    qed
  qed
qed

lemma occurrences_replace_all_same:
  assumes e: "escaped_closer p r"
  shows "occurrences p (replace_all p r s) = 0"
proof (induction s rule: length_induct)
  case (1 s)
  obtain w where w: "p = 60 # 47 # w" "60 \<notin> set w" using e by (auto simp: escaped_closer_def closer_def)
  obtain v where v: "r = 60 # 92 # v" "60 \<notin> set v" using e by (auto simp: escaped_closer_def)
  have q: "closer p" using e by (simp add: escaped_closer_def)
  show ?case
  proof (cases s)
    case Nil
    then show ?thesis by simp
  next
    case (Cons c t)
    show ?thesis
    proof (cases "starts_with p s")
      case True
      then have d: "replace_all p r s = r @ replace_all p r (drop (length p) s)"
        using w Cons by (intro replace_all_hit) simp_all
      have "occurrences p (replace_all p r (drop (length p) s)) = 0" using 1 w Cons by simp
      then show ?thesis
        unfolding d using occurrences_lead [OF q, of "92 # v" "replace_all p r (drop (length p) s)"] v by simp
    next
      case False
      then have d: "replace_all p r s = c # replace_all p r t"
        using w Cons by (simp add: replace_all_miss)
      have "starts_with (47 # w) (replace_all p r t) \<Longrightarrow> starts_with (47 # w) t"
        using replace_all_starts [of p r "47 # w" t] w v by simp
      with False have "\<not> starts_with p (c # replace_all p r t)"
        by (auto simp: w(1) Cons starts_with_Cons)
      then show ?thesis unfolding d using 1 Cons by simp
    qed
  qed
qed

lemma escapes:
  "escaped_closer NOTIFICATION_CLOSE (lit ''<'' @ [92] @ lit ''/task-notification>'')"
  "escaped_closer RESULT_CLOSE (lit ''<'' @ [92] @ lit ''/result>'')"
  by (simp_all add: escaped_closer_def closers)

lemma escaped_body_closes_nothing:
  "occurrences NOTIFICATION_CLOSE (escape_host_notice_body body) = 0"
  "occurrences RESULT_CLOSE (escape_host_notice_body body) = 0"
proof -
  show "occurrences NOTIFICATION_CLOSE (escape_host_notice_body body) = 0"
    unfolding escape_host_notice_body_def by (rule occurrences_replace_all_same [OF escapes(1)])
  show "occurrences RESULT_CLOSE (escape_host_notice_body body) = 0"
    using occurrences_replace_all [OF escapes(1) closers(2),
        of "replace_all RESULT_CLOSE (lit ''<'' @ [92] @ lit ''/result>'') body"]
      occurrences_replace_all_same [OF escapes(2), of body]
    unfolding escape_host_notice_body_def by linarith
qed

lemma escaped_scalar_plain: "60 \<notin> set (escape_notice_scalar v)"
  by (auto simp: escape_notice_scalar_def replace_char_def split: if_splits)


section \<open>The message closes once\<close>

lemma occurrences_element:
  assumes p: "closer p" and tag: "60 \<notin> set tag" "tag \<noteq> []" "hd tag \<noteq> 47"
  shows "occurrences p (notice_element tag v) = (if v = [] then 0 else occurrences p (lit ''</'' @ tag @ lit ''>'' @ [10]))"
proof (cases "v = []")
  case False
  have plain: "occurrences p (60 # (tag @ lit ''>'' @ escape_notice_scalar v) @ b) = occurrences p b" for b
    using tag escaped_scalar_plain [of v] by (intro occurrences_lead [OF p]) auto
  show ?thesis using False plain [of "lit ''</'' @ tag @ lit ''>'' @ [10]"] by (simp add: notice_element_def)
qed (simp add: notice_element_def)

lemma hd_element: "notice_element tag v = [] \<or> hd (notice_element tag v) = 60"
  by (simp add: notice_element_def)

lemma occurrences_concat:
  "closer p \<Longrightarrow> list_all (\<lambda>x. x = [] \<or> hd x = 60) xs \<Longrightarrow> occurrences p (concat xs) = sum_list (map (occurrences p) xs)"
proof (induction xs)
  case (Cons x xs)
  then have "concat xs = [] \<or> hd (concat xs) = 60"
    by (induction xs) (auto simp: hd_append)
  with Cons show ?case by (simp add: occurrences_append)
qed simp

lemma element_closes_nothing:
  assumes "p = NOTIFICATION_CLOSE \<or> p = RESULT_CLOSE"
    and "tag \<in> set [lit ''task-id'', lit ''status'', lit ''summary'', lit ''subagent_tokens'', lit ''tool_uses'', lit ''duration_ms'']"
  shows "occurrences p (notice_element tag v) = 0"
proof -
  have "closer p" using assms(1) closers by auto
  moreover have "60 \<notin> set tag" "tag \<noteq> []" "hd tag \<noteq> 47" using assms(2) by auto
  moreover have "occurrences p (lit ''</'' @ tag @ lit ''>'' @ [10]) = 0"
    using assms by (auto simp: NOTIFICATION_CLOSE_def RESULT_CLOSE_def starts_with_Cons)
  ultimately show ?thesis by (simp add: occurrences_element)
qed

lemma usage_closes_nothing:
  assumes p: "p = NOTIFICATION_CLOSE \<or> p = RESULT_CLOSE"
  shows "occurrences p (usage_element u) = 0"
proof (cases u)
  case None
  then show ?thesis by (simp add: usage_element_def)
next
  case (Some n)
  have c: "closer p" using p closers by auto
  have inner: "occurrences p (usage_inner n @ lit ''</usage>'' @ [10]) = 0"
  proof -
    have "occurrences p (concat [notice_element (lit ''subagent_tokens'') (number_text (subagent_tokens n)),
        notice_element (lit ''tool_uses'') (number_text (tool_uses n)),
        notice_element (lit ''duration_ms'') (number_text (duration_ms n)), lit ''</usage>'' @ [10]]) = 0"
      using p hd_element by (subst occurrences_concat [OF c])
        (auto simp: element_closes_nothing NOTIFICATION_CLOSE_def RESULT_CLOSE_def starts_with_Cons)
    then show ?thesis by (simp add: usage_inner_def)
  qed
  have "occurrences p (60 # (lit ''usage>'' @ [10]) @ usage_inner n @ lit ''</usage>'' @ [10]) = 0"
    using inner by (subst occurrences_lead [OF c]) simp_all
  then show ?thesis using Some by (simp add: usage_element_def)
qed

lemma result_closes_once:
  "occurrences NOTIFICATION_CLOSE (result_element body) = 0"
  "occurrences RESULT_CLOSE (result_element body) = of_bool (trim body \<noteq> [])"
proof -
  let ?b = "escape_host_notice_body (trim body)"
  have empty: "?b = [] \<longleftrightarrow> trim body = []"
    by (simp add: escape_host_notice_body_def replace_all_empty)
  have split: "occurrences p (result_element body) = (if ?b = [] then 0 else occurrences p ?b + occurrences p (RESULT_CLOSE @ [10]))"
    if c: "closer p" for p
  proof -
    have "10 \<notin> set p" "p \<noteq> []" using c by (auto simp: closer_def)
    then have "occurrences p (?b @ [10]) = occurrences p ?b" by (rule occurrences_snoc)
    moreover have "occurrences p ((?b @ [10]) @ RESULT_CLOSE @ [10]) = occurrences p (?b @ [10]) + occurrences p (RESULT_CLOSE @ [10])"
      by (rule occurrences_append [OF c]) (simp add: RESULT_CLOSE_def)
    moreover have "occurrences p (60 # (lit ''result>'' @ [10]) @ ((?b @ [10]) @ RESULT_CLOSE @ [10])) =
        occurrences p ((?b @ [10]) @ RESULT_CLOSE @ [10])"
      by (rule occurrences_lead [OF c]) simp_all
    ultimately show ?thesis by (simp add: result_element_def Let_def)
  qed
  show "occurrences NOTIFICATION_CLOSE (result_element body) = 0"
    unfolding split [OF closers(1)] escaped_body_closes_nothing
    by (simp add: NOTIFICATION_CLOSE_def RESULT_CLOSE_def starts_with_Cons)
  show "occurrences RESULT_CLOSE (result_element body) = of_bool (trim body \<noteq> [])"
    unfolding split [OF closers(2)] escaped_body_closes_nothing empty
    by (simp add: RESULT_CLOSE_def starts_with_Cons)
qed

lemma hd_result: "result_element body = [] \<or> hd (result_element body) = 60"
  by (simp add: result_element_def Let_def)

lemma hd_usage: "usage_element u = [] \<or> hd (usage_element u) = 60"
  by (simp add: usage_element_def split: option.split)

lemma occurrences_render:
  assumes p: "p = NOTIFICATION_CLOSE \<or> p = RESULT_CLOSE"
  shows "occurrences p (render_notification task state summary body u) =
    occurrences p (result_element body) + occurrences p NOTIFICATION_CLOSE"
proof -
  have c: "closer p" using p closers by auto
  let ?es = "[notice_element (lit ''task-id'') task, notice_element (lit ''status'') state,
      notice_element (lit ''summary'') summary, result_element body, usage_element u, NOTIFICATION_CLOSE]"
  have "list_all (\<lambda>x. x = [] \<or> hd x = 60) ?es"
    using hd_element hd_result hd_usage by (simp add: NOTIFICATION_CLOSE_def)
  then have "occurrences p (concat ?es) = occurrences p (result_element body) + occurrences p NOTIFICATION_CLOSE"
    using p by (subst occurrences_concat [OF c]) (simp_all add: element_closes_nothing usage_closes_nothing)
  moreover have "occurrences p (60 # (lit ''task-notification>'' @ [10]) @ concat ?es) = occurrences p (concat ?es)"
    by (rule occurrences_lead [OF c]) simp_all
  ultimately show ?thesis by (simp add: render_notification_def)
qed

text \<open>
  What a task reports cannot end its own message: whatever the texts, the notification has one closing tag
  of its own, at its end, and one closing tag of the result, when there is a result. No field is forged from outside.
\<close>

theorem notification_closes_once:
  "occurrences NOTIFICATION_CLOSE (render_notification task state summary body u) = 1 \<and>
   occurrences RESULT_CLOSE (render_notification task state summary body u) = of_bool (trim body \<noteq> []) \<and>
   (\<exists>inner. render_notification task state summary body u = inner @ NOTIFICATION_CLOSE)"
proof (intro conjI)
  show "occurrences NOTIFICATION_CLOSE (render_notification task state summary body u) = 1"
    by (simp add: occurrences_render result_closes_once) (simp add: NOTIFICATION_CLOSE_def starts_with_Cons)
  show "occurrences RESULT_CLOSE (render_notification task state summary body u) = of_bool (trim body \<noteq> [])"
    by (simp add: occurrences_render result_closes_once)
      (simp add: NOTIFICATION_CLOSE_def RESULT_CLOSE_def starts_with_Cons)
  show "\<exists>inner. render_notification task state summary body u = inner @ NOTIFICATION_CLOSE"
    unfolding render_notification_def by (intro exI) (simp only: append_assoc [symmetric])
qed

end
