(* ===== verification/WireFold.thy ===== *)
theory WireFold
  imports Prelude WireNotice
begin

text \<open>
  The fold that turns a conversation's timeline into provider-neutral turns (\<^verbatim>\<open>src/wire_history.rs\<close>, and the system
  cards of \<^verbatim>\<open>src/system_append.rs\<close>). What a card holds that no projection reads is one field, \<open>unread\<close>.
\<close>

section \<open>Call ids that may be sent again\<close>

definition MAX_PROVIDER_CALL_ID_BYTES :: nat where "MAX_PROVIDER_CALL_ID_BYTES = 128"

definition lower_hex :: "nat \<Rightarrow> bool" where
  "lower_hex c \<longleftrightarrow> 48 \<le> c \<and> c \<le> 57 \<or> 97 \<le> c \<and> c \<le> 102"

definition id_char :: "nat \<Rightarrow> bool" where
  "id_char c \<longleftrightarrow> 48 \<le> c \<and> c \<le> 57 \<or> 65 \<le> c \<and> c \<le> 90 \<or> 97 \<le> c \<and> c \<le> 122 \<or> c = 95 \<or> c = 45"

definition looks_like_a_minted_wire_id :: "ustring \<Rightarrow> bool" where
  "looks_like_a_minted_wire_id i \<longleftrightarrow>
     list_ex (\<lambda>p. starts_with p i \<and>
        (let s = drop (length p) i in byte_len s = 48 \<and> list_all lower_hex s)) [lit ''toolu_'', lit ''call_'']"

definition replayable_provider_call_id :: "ustring option \<Rightarrow> ustring option" where
  "replayable_provider_call_id c =
     (case c of
        None \<Rightarrow> None
      | Some i \<Rightarrow>
          if i \<noteq> [] \<and> byte_len i \<le> MAX_PROVIDER_CALL_ID_BYTES \<and> list_all id_char i \<and>
             \<not> looks_like_a_minted_wire_id i \<and> \<not> starts_with (lit ''synth_'') i
          then Some i else None)"

section \<open>Cards\<close>

type_synonym json_object = "(ustring \<times> json) list"

definition get_field :: "json \<Rightarrow> ustring \<Rightarrow> json option" where
  "get_field v k = Option.bind (as_object v) (\<lambda>m. map_of m k)"

record image_attachment =
  image_id :: ustring
  image_name :: ustring
  mime :: ustring
  width :: nat
  height :: nat
  image_bytes :: nat
  short_id :: "nat option"

datatype file_format = TextFile | PdfFile

record file_attachment =
  file_id :: ustring
  file_name :: ustring
  format :: file_format
  file_bytes :: nat
  tokens :: nat
  pages :: "nat option"

record tool_result =
  success :: bool
  result_output :: ustring
  result_images :: "image_attachment list"
  result_unread :: json

record reasoning_replay_data =
  replay_model :: ustring
  replay_parts :: "json list"

record tool_card =
  card_id :: ustring
  card_tool :: ustring
  card_turn :: "ustring option"
  card_call :: "ustring option"
  requested_input :: "json_object option"
  card_input :: json_object
  card_result :: tool_result
  card_notice :: "ustring option"
  card_unread :: json

text \<open>The identifier, the content, then what the kind has; the last field is what no projection reads.\<close>

datatype context_item =
    SystemItem ustring ustring (local_only: bool) (hook_execution: "json option") (tools_added: "ustring list") json
  | UserItem ustring ustring "image_attachment list" "file_attachment list" json
  | AssistantItem ustring ustring "ustring option" bool json
  | ReasoningItem ustring "ustring option" "ustring option" bool "reasoning_replay_data option" json
  | ToolItem tool_card

definition BOX_TOOL :: ustring where "BOX_TOOL = lit ''box''"
definition TASK_WAIT_TOOL :: ustring where "TASK_WAIT_TOOL = lit ''task_wait''"
definition WORKFLOW_TOOL :: ustring where "WORKFLOW_TOOL = lit ''workflow''"
definition HOST_TASK_DELIVERY_CONTEXT_PREFIX :: ustring where
  "HOST_TASK_DELIVERY_CONTEXT_PREFIX = lit ''ctx_agent-result_''"
definition BOX_INPUT_KEY :: ustring where "BOX_INPUT_KEY = lit ''none''"
definition LEGACY_NOTICE_INPUT_KEY :: ustring where "LEGACY_NOTICE_INPUT_KEY = lit ''notification''"
definition REPLAY_TAG_KEY :: ustring where "REPLAY_TAG_KEY = lit ''mework''"

definition box_call_input :: json_object where "box_call_input = [(BOX_INPUT_KEY, JArr [])]"

section \<open>Deliveries by the host\<close>

definition is_host_delivery_card :: "tool_card \<Rightarrow> bool" where
  "is_host_delivery_card c \<longleftrightarrow>
     starts_with HOST_TASK_DELIVERY_CONTEXT_PREFIX (card_id c) \<and> (card_tool c = BOX_TOOL \<or> card_tool c = TASK_WAIT_TOOL)"

definition str_field :: "json option \<Rightarrow> ustring \<Rightarrow> ustring" where
  "str_field v k =
     (case Option.bind (Option.bind v (\<lambda>v. get_field v k)) as_str of None \<Rightarrow> [] | Some s \<Rightarrow> s)"

definition first_task :: "json_object \<Rightarrow> ustring" where
  "first_task m =
     (case Option.bind (map_of m (lit ''tasks'')) as_array of
        Some (v # _) \<Rightarrow> (case as_str v of Some s \<Rightarrow> s | None \<Rightarrow> [])
      | _ \<Rightarrow> [])"

definition legacy_usage :: "json option \<Rightarrow> notice_usage option" where
  "legacy_usage n =
     map_option (\<lambda>u. let number = (\<lambda>k. Option.bind (get_field u k) as_u64) in
        \<lparr>subagent_tokens = number (lit ''subagentTokens''), tool_uses = number (lit ''toolUses''),
         duration_ms = number (lit ''durationMs'')\<rparr>)
       (Option.bind n (\<lambda>n. get_field n (lit ''usage'')))"

definition host_task_notification :: "tool_card \<Rightarrow> ustring option" where
  "host_task_notification c =
     (if \<not> is_host_delivery_card c then None
      else if card_tool c \<noteq> TASK_WAIT_TOOL \<and> map_of (card_input c) LEGACY_NOTICE_INPUT_KEY = None \<and>
              map_of (card_input c) (lit ''tasks'') = None
      then Some (result_output (card_result c))
      else let n = map_of (card_input c) LEGACY_NOTICE_INPUT_KEY in
           Some (render_notification (first_task (card_input c)) (str_field n (lit ''status''))
                   (str_field n (lit ''summary'')) (result_output (card_result c)) (legacy_usage n)))"

record host_delivery =
  delivery_id :: ustring
  delivery_body :: ustring

definition host_task_delivery :: "tool_card \<Rightarrow> host_delivery option" where
  "host_task_delivery c =
     map_option (\<lambda>body. \<lparr>delivery_id = card_id c, delivery_body = body\<rparr>) (host_task_notification c)"

definition host_notice_kind :: "tool_card \<Rightarrow> ustring option" where
  "host_notice_kind c =
     (if card_tool c \<noteq> BOX_TOOL \<and> card_tool c \<noteq> TASK_WAIT_TOOL then None
      else case card_notice c of
             Some k \<Rightarrow> Some k
           | None \<Rightarrow> Option.bind (Option.bind (map_of (card_input c) LEGACY_NOTICE_INPUT_KEY)
                       (\<lambda>n. get_field n (lit ''kind''))) as_str)"

fun is_appended :: "context_item \<Rightarrow> bool" where
  "is_appended (SystemItem i _ local hook added _) \<longleftrightarrow>
     \<not> local \<and> hook = None \<and> starts_with (lit ''ctx_system-append_'') i \<and> added = []"
| "is_appended _ \<longleftrightarrow> False"

fun is_legacy_skill_card :: "context_item \<Rightarrow> bool" where
  "is_legacy_skill_card (SystemItem i _ local hook added _) \<longleftrightarrow>
     \<not> local \<and> hook = None \<and> starts_with (lit ''ctx_skill_'') i \<and> added = []"
| "is_legacy_skill_card _ \<longleftrightarrow> False"

definition legacy_skill_notification :: "ustring \<Rightarrow> ustring" where
  "legacy_skill_notification content =
     host_notice_notification (lit ''A skill was added to this conversation'') content"

section \<open>The fold\<close>

record exchange =
  local_id :: ustring
  tool_name :: ustring
  provider_call_id :: "ustring option"
  exchange_input :: json_object
  exchange_result :: tool_result

record assistant_turn =
  content :: ustring
  reasoning :: "ustring list"
  reasoning_present :: bool
  reasoning_replay :: "json list"
  visible_content :: ustring
  tools :: "exchange list"

datatype block =
    UserBlock ustring "image_attachment list" "file_attachment list"
  | AssistantBlock assistant_turn
  | DeliveryBlock host_delivery
  | ToolAddition "ustring list"
  | SystemAppend ustring

record canonical_fold =
  pending :: "assistant_turn option"
  pending_turn_id :: "ustring option"

text \<open>
  Where a projected card's arguments are read back from: what \<open>ReplayInputs::model_input\<close> answers for a tool, a call
  and the card's arguments. A fold without it replays every card as it stands.
\<close>

type_synonym replay = "(ustring \<Rightarrow> ustring \<Rightarrow> json_object \<Rightarrow> json_object option) option"

definition fresh_fold :: canonical_fold where
  "fresh_fold = \<lparr>pending = None, pending_turn_id = None\<rparr>"

definition is_quiescent :: "canonical_fold \<Rightarrow> bool" where
  "is_quiescent f \<longleftrightarrow> pending f = None"

definition empty_turn :: assistant_turn where
  "empty_turn = \<lparr>content = [], reasoning = [], reasoning_present = False, reasoning_replay = [], visible_content = [], tools = []\<rparr>"

text \<open>The operations thread the blocks written so far, as the code's \<open>blocks\<close>.\<close>

type_synonym folding = "canonical_fold \<times> block list"

fun flush :: "folding \<Rightarrow> folding" where
  "flush (f, bs) =
     (fresh_fold,
      case pending f of
        None \<Rightarrow> bs
      | Some t \<Rightarrow> if content t \<noteq> [] \<or> reasoning t \<noteq> [] \<or> tools t \<noteq> [] then bs @ [AssistantBlock t] else bs)"

definition append_joined :: "ustring \<Rightarrow> ustring \<Rightarrow> ustring" where
  "append_joined target s = (if target = [] then s else target @ [10] @ s)"

text \<open>\<open>ensure_turn_for\<close>, with \<open>ensure_turn\<close>: afterwards a turn is pending.\<close>

fun ensure_turn_for :: "ustring option \<Rightarrow> folding \<Rightarrow> folding" where
  "ensure_turn_for turn (f, bs) =
     (let (f, bs) = (if pending f \<noteq> None \<and> pending_turn_id f \<noteq> turn then flush (f, bs) else (f, bs)) in
      case pending f of
        None \<Rightarrow> (\<lparr>pending = Some empty_turn, pending_turn_id = turn\<rparr>, bs)
      | Some _ \<Rightarrow> (f, bs))"

definition on_turn :: "(assistant_turn \<Rightarrow> assistant_turn) \<Rightarrow> folding \<Rightarrow> folding" where
  "on_turn g st = (case st of (f, bs) \<Rightarrow> (f\<lparr>pending := map_option g (pending f)\<rparr>, bs))"

definition tag_part :: "ustring \<Rightarrow> json_object \<Rightarrow> json_object" where
  "tag_part model m =
     (let options = (case map_of m (lit ''providerOptions'') of Some v \<Rightarrow> v | None \<Rightarrow> JObj []);
          options = (case options of
                       JObj opts \<Rightarrow> JObj (bt_put REPLAY_TAG_KEY (JObj [(lit ''model'', JStr model)]) opts)
                     | v \<Rightarrow> v)
      in bt_put (lit ''providerOptions'') options m)"

definition append_reasoning_replay :: "reasoning_replay_data \<Rightarrow> ustring option \<Rightarrow> folding \<Rightarrow> folding" where
  "append_reasoning_replay r turn st =
     on_turn (\<lambda>t. t\<lparr>reasoning_present := True,
                    reasoning_replay := reasoning_replay t @
                      map (\<lambda>m. JObj (tag_part (replay_model r) m)) (List.map_filter as_object (replay_parts r))\<rparr>)
       (ensure_turn_for turn st)"

datatype assistant_field = ContentField | ReasoningField

definition field_update :: "ustring \<Rightarrow> assistant_field \<Rightarrow> assistant_turn \<Rightarrow> assistant_turn" where
  "field_update s field t =
     (if s = [] then (if field = ReasoningField then t\<lparr>reasoning_present := True\<rparr> else t)
      else
        let t = t\<lparr>visible_content := append_joined (visible_content t) s\<rparr> in
        case field of
          ContentField \<Rightarrow> t\<lparr>content := append_joined (content t) s\<rparr>
        | ReasoningField \<Rightarrow> t\<lparr>reasoning_present := True, reasoning := reasoning t @ [s]\<rparr>)"

definition tools_pending :: "canonical_fold \<Rightarrow> bool" where
  "tools_pending f \<longleftrightarrow> (case pending f of Some t \<Rightarrow> tools t \<noteq> [] | None \<Rightarrow> False)"

definition append_assistant_field :: "ustring \<Rightarrow> assistant_field \<Rightarrow> ustring option \<Rightarrow> folding \<Rightarrow> folding" where
  "append_assistant_field s field turn st =
     on_turn (field_update s field)
       (ensure_turn_for turn (if s \<noteq> [] \<and> tools_pending (fst st) then flush st else st))"

definition write_block :: "block \<Rightarrow> folding \<Rightarrow> folding" where
  "write_block b st = (fst st, snd st @ [b])"

definition model_arguments :: "replay \<Rightarrow> tool_card \<Rightarrow> json_object" where
  "model_arguments rp c =
     (let input = (case requested_input c of Some m \<Rightarrow> m | None \<Rightarrow> card_input c) in
      case (rp, card_call c) of
        (Some r, Some call) \<Rightarrow>
          if card_tool c = WORKFLOW_TOOL then (case r (card_tool c) call input of Some m \<Rightarrow> m | None \<Rightarrow> input) else input
      | _ \<Rightarrow> input)"

definition push_tool :: "replay \<Rightarrow> tool_card \<Rightarrow> folding \<Rightarrow> folding" where
  "push_tool rp c st =
     (case host_task_delivery c of
        Some d \<Rightarrow> write_block (DeliveryBlock d) (flush st)
      | None \<Rightarrow>
          on_turn (\<lambda>t.
            let t = (if card_turn c = None then t\<lparr>reasoning_present := True\<rparr> else t) in
            t\<lparr>tools := tools t @ [\<lparr>local_id = card_id c, tool_name = card_tool c,
                provider_call_id = replayable_provider_call_id (card_call c),
                exchange_input = model_arguments rp c, exchange_result = card_result c\<rparr>]\<rparr>)
          (ensure_turn_for (card_turn c) st))"

fun push :: "replay \<Rightarrow> context_item \<Rightarrow> folding \<Rightarrow> folding" where
  "push rp (UserItem _ s images files _) st = write_block (UserBlock s images files) (flush st)"
| "push rp (AssistantItem _ s turn interrupted _) st =
     (if interrupted then flush st else append_assistant_field s ContentField turn st)"
| "push rp (ReasoningItem _ s turn interrupted rep _) st =
     (if interrupted then flush st
      else let st = append_assistant_field (case s of Some s \<Rightarrow> s | None \<Rightarrow> []) ReasoningField turn st in
           case rep of Some r \<Rightarrow> append_reasoning_replay r turn st | None \<Rightarrow> st)"
| "push rp (ToolItem c) st = push_tool rp c st"
| "push rp (SystemItem i s local hook added unread) st =
     (let st = flush st in
      if added \<noteq> [] then write_block (ToolAddition added) st
      else if is_appended (SystemItem i s local hook added unread) then write_block (SystemAppend s) st
      else if is_legacy_skill_card (SystemItem i s local hook added unread)
      then write_block (DeliveryBlock \<lparr>delivery_id = i, delivery_body = legacy_skill_notification s\<rparr>) st
      else st)"

definition fold_items :: "replay \<Rightarrow> context_item list \<Rightarrow> folding \<Rightarrow> folding" where
  "fold_items rp items st = foldl (\<lambda>st x. push rp x st) st items"

text \<open>\<open>canonical_history\<close> folds with no replay; a session's fold has one.\<close>

definition canonical_history :: "replay \<Rightarrow> context_item list \<Rightarrow> block list" where
  "canonical_history rp items = snd (flush (fold_items rp items (fresh_fold, [])))"

section \<open>Blocks are only added\<close>

text \<open>An operation that writes at the end, whatever was written.\<close>

definition appends :: "(folding \<Rightarrow> folding) \<Rightarrow> bool" where
  "appends op \<longleftrightarrow> (\<forall>f bs bs'. op (f, bs @ bs') = map_prod id ((@) bs) (op (f, bs')))"

lemma appendsD: "appends op \<Longrightarrow> op (f, bs @ bs') = map_prod id ((@) bs) (op (f, bs'))"
  by (simp add: appends_def)

lemma appends_comp:
  assumes g: "appends g" and h: "appends h"
  shows "appends (\<lambda>st. g (h st))"
  unfolding appends_def
proof (intro allI)
  fix f bs bs'
  obtain f1 b1 where "h (f, bs') = (f1, b1)" by fastforce
  then show "g (h (f, bs @ bs')) = map_prod id ((@) bs) (g (h (f, bs')))"
    by (simp add: appendsD [OF h] appendsD [OF g])
qed

lemma appends_if_state: "appends g \<Longrightarrow> appends h \<Longrightarrow> appends (\<lambda>st. if P (fst st) then g st else h st)"
  by (simp add: appends_def)

lemma appends_id: "appends (\<lambda>st. st)"
  by (simp add: appends_def)

lemma appends_flush: "appends flush"
  by (simp add: appends_def split: option.split)

lemma appends_ensure: "appends (ensure_turn_for turn)"
  by (auto simp: appends_def Let_def fresh_fold_def split: option.split)

lemma appends_on_turn: "appends (on_turn g)"
  by (simp add: appends_def on_turn_def)

lemma appends_write: "appends (write_block b)"
  by (simp add: appends_def write_block_def)

lemma appends_field: "appends (append_assistant_field s field turn)"
proof -
  have "appends (\<lambda>st. if (\<lambda>f. s \<noteq> [] \<and> tools_pending f) (fst st) then flush st else st)"
    by (intro appends_if_state appends_flush appends_id)
  from appends_comp [OF appends_on_turn appends_comp [OF appends_ensure this], of "field_update s field" turn]
  show ?thesis unfolding append_assistant_field_def [abs_def] by simp
qed

lemma appends_replay: "appends (append_reasoning_replay r turn)"
  unfolding append_reasoning_replay_def by (intro appends_comp [OF appends_on_turn appends_ensure])

lemma appends_tool: "appends (push_tool rp c)"
proof (cases "host_task_delivery c")
  case None
  have "appends (\<lambda>st. on_turn g (ensure_turn_for (card_turn c) st))" for g
    by (rule appends_comp [OF appends_on_turn appends_ensure])
  then show ?thesis using None unfolding push_tool_def [abs_def] option.case by simp
next
  case (Some d)
  then show ?thesis unfolding push_tool_def [abs_def] by (simp add: appends_comp [OF appends_write appends_flush])
qed

lemma appends_push: "appends (push rp x)"
proof (cases x)
  case (SystemItem i s local hook added u)
  have "\<exists>g. appends g \<and> push rp x = (\<lambda>st. g (flush st))"
  proof -
    consider "added \<noteq> []" | "added = []" "is_appended x" | "added = []" "\<not> is_appended x" "is_legacy_skill_card x"
      | "added = []" "\<not> is_appended x" "\<not> is_legacy_skill_card x" by blast
    then show ?thesis
    proof cases
      case 1
      then show ?thesis by (intro exI [of _ "write_block (ToolAddition added)"]) (simp add: SystemItem appends_write Let_def fun_eq_iff)
    next
      case 2
      then show ?thesis unfolding SystemItem
        by (intro exI [of _ "write_block (SystemAppend s)"]) (simp add: appends_write Let_def fun_eq_iff)
    next
      case 3
      then show ?thesis unfolding SystemItem
        by (intro exI [of _ "write_block (DeliveryBlock \<lparr>delivery_id = i, delivery_body = legacy_skill_notification s\<rparr>)"])
          (auto simp: appends_write Let_def fun_eq_iff)
    next
      case 4
      then show ?thesis unfolding SystemItem
        by (intro exI [of _ "\<lambda>st. st"]) (auto simp: appends_id Let_def fun_eq_iff)
    qed
  qed
  then show ?thesis using appends_comp [OF _ appends_flush] by metis
next
  case (UserItem i s images files u)
  then have "push rp x = (\<lambda>st. write_block (UserBlock s images files) (flush st))" by (simp add: fun_eq_iff)
  then show ?thesis by (simp add: appends_comp [OF appends_write appends_flush])
next
  case (AssistantItem i s turn interrupted u)
  then have "push rp x = (if interrupted then flush else append_assistant_field s ContentField turn)" by (simp add: fun_eq_iff)
  then show ?thesis by (simp add: appends_flush appends_field)
next
  case (ReasoningItem i s turn interrupted rep u)
  let ?s = "case s of Some s \<Rightarrow> s | None \<Rightarrow> []"
  have "push rp x = (if interrupted then flush else
      case rep of None \<Rightarrow> append_assistant_field ?s ReasoningField turn
      | Some r \<Rightarrow> (\<lambda>st. append_reasoning_replay r turn (append_assistant_field ?s ReasoningField turn st)))"
    by (simp add: ReasoningItem fun_eq_iff Let_def split: option.split)
  then show ?thesis
    by (cases rep) (simp_all add: appends_flush appends_field appends_comp [OF appends_replay appends_field])
next
  case (ToolItem c)
  then have "push rp x = push_tool rp c" by (simp add: fun_eq_iff)
  then show ?thesis by (simp add: appends_tool)
qed

lemma appends_fold: "appends (fold_items rp items)"
proof (induction items rule: rev_induct)
  case Nil
  then show ?case by (simp add: fold_items_def appends_id)
next
  case (snoc x items)
  then show ?case using appends_comp [OF appends_push [of rp x] snoc] by (simp add: fold_items_def)
qed

section \<open>Where the fold may be taken up again\<close>

text \<open>No turn pending means nothing is remembered.\<close>

definition settled :: "folding \<Rightarrow> bool" where
  "settled st \<longleftrightarrow> is_quiescent (fst st) \<longrightarrow> fst st = fresh_fold"

lemma settled_flush: "fst (flush st) = fresh_fold"
  by (cases st) simp

lemma pending_ensure: "\<not> is_quiescent (fst (ensure_turn_for turn st))"
  by (cases st) (auto simp: is_quiescent_def Let_def fresh_fold_def split: option.split)

lemma on_turn_quiescent: "is_quiescent (fst (on_turn g st)) = is_quiescent (fst st)"
  by (cases st) (simp add: on_turn_def is_quiescent_def)

lemma write_fst [simp]: "fst (write_block b st) = fst st"
  by (simp add: write_block_def)

lemma settled_push: "settled (push rp x st)"
proof -
  have field: "\<not> is_quiescent (fst (append_assistant_field s fld turn st))" for s fld turn st
    by (simp add: append_assistant_field_def Let_def on_turn_quiescent pending_ensure)
  have rep: "\<not> is_quiescent (fst (append_reasoning_replay r turn st))" for r turn st
    by (simp add: append_reasoning_replay_def on_turn_quiescent pending_ensure)
  have tool: "settled (push_tool rp c st)" for c
    by (cases "host_task_delivery c")
      (simp_all add: push_tool_def settled_def settled_flush on_turn_quiescent pending_ensure)
  show ?thesis
    by (cases x) (auto simp: settled_def settled_flush field rep Let_def tool [unfolded settled_def] split: option.split)
qed

lemma settled_fold: "settled st \<Longrightarrow> settled (fold_items rp items st)"
  by (induction items rule: rev_induct) (simp_all add: fold_items_def settled_push)

lemma fold_items_append: "fold_items rp (xs @ ys) st = fold_items rp ys (fold_items rp xs st)"
  by (simp add: fold_items_def)

text \<open>A prefix that ends with no turn open stands on its own: the blocks of the whole are its blocks and those of the rest.\<close>

lemma quiescent_cut:
  assumes "is_quiescent (fst (fold_items rp xs (fresh_fold, [])))"
  shows "fold_items rp (xs @ ys) (fresh_fold, []) =
    (fst (fold_items rp ys (fresh_fold, [])), snd (fold_items rp xs (fresh_fold, [])) @ snd (fold_items rp ys (fresh_fold, [])))"
proof -
  have "settled (fold_items rp xs (fresh_fold, []))" by (rule settled_fold) (simp add: settled_def)
  with assms have "fold_items rp xs (fresh_fold, []) = (fresh_fold, snd (fold_items rp xs (fresh_fold, [])))"
    by (simp add: settled_def prod_eq_iff)
  then show ?thesis
    using appendsD [OF appends_fold, of rp ys fresh_fold "snd (fold_items rp xs (fresh_fold, []))" "[]"]
    by (simp add: fold_items_append map_prod_def split_beta)
qed

section \<open>The order of what happened\<close>

text \<open>What a timeline says besides the assistant's text, and what the blocks say.\<close>

datatype happening =
    Asked ustring "image_attachment list" "file_attachment list"
  | Called exchange
  | Delivered host_delivery
  | Added "ustring list"
  | Appended ustring

definition exchange_of :: "replay \<Rightarrow> tool_card \<Rightarrow> exchange" where
  "exchange_of rp c =
     \<lparr>local_id = card_id c, tool_name = card_tool c, provider_call_id = replayable_provider_call_id (card_call c),
      exchange_input = model_arguments rp c, exchange_result = card_result c\<rparr>"

fun item_happens :: "replay \<Rightarrow> context_item \<Rightarrow> happening list" where
  "item_happens rp (UserItem _ s images files _) = [Asked s images files]"
| "item_happens rp (ToolItem c) =
     (case host_task_delivery c of Some d \<Rightarrow> [Delivered d] | None \<Rightarrow> [Called (exchange_of rp c)])"
| "item_happens rp (SystemItem i s local hook added u) =
     (if added \<noteq> [] then [Added added]
      else if is_appended (SystemItem i s local hook added u) then [Appended s]
      else if is_legacy_skill_card (SystemItem i s local hook added u)
      then [Delivered \<lparr>delivery_id = i, delivery_body = legacy_skill_notification s\<rparr>] else [])"
| "item_happens rp _ = []"

fun block_happens :: "block \<Rightarrow> happening list" where
  "block_happens (UserBlock s images files) = [Asked s images files]"
| "block_happens (AssistantBlock t) = map Called (tools t)"
| "block_happens (DeliveryBlock d) = [Delivered d]"
| "block_happens (ToolAddition added) = [Added added]"
| "block_happens (SystemAppend s) = [Appended s]"

definition happened :: "folding \<Rightarrow> happening list" where
  "happened st = concat (map block_happens (snd st)) @
     (case pending (fst st) of Some t \<Rightarrow> map Called (tools t) | None \<Rightarrow> [])"

lemma happened_flush [simp]: "happened (flush st) = happened st"
  by (cases st) (auto simp: happened_def fresh_fold_def split: option.split)

lemma happened_ensure [simp]: "happened (ensure_turn_for turn st) = happened st"
proof (cases st)
  case (Pair f bs)
  have "happened (ensure_turn_for turn (f, bs)) = happened (f, bs)" if "pending f = None" for f bs
    using that by (simp add: happened_def empty_turn_def)
  moreover have "ensure_turn_for turn (f, bs) = (if pending f \<noteq> None \<and> pending_turn_id f \<noteq> turn
      then ensure_turn_for turn (flush (f, bs)) else ensure_turn_for turn (f, bs))"
    by (simp add: fresh_fold_def)
  moreover have "pending f \<noteq> None \<Longrightarrow> pending_turn_id f = turn \<Longrightarrow> ensure_turn_for turn (f, bs) = (f, bs)"
    by auto
  moreover have "pending (fst (flush (f, bs))) = None" by (simp add: fresh_fold_def)
  ultimately show ?thesis unfolding Pair by (metis happened_flush prod.collapse)
qed

lemma happened_on_turn:
  "(\<And>t. tools (g t) = tools t) \<Longrightarrow> happened (on_turn g st) = happened st"
  by (cases st) (simp add: happened_def on_turn_def split: option.split)

lemma happened_push: "happened (push rp x st) = happened st @ item_happens rp x"
proof -
  have field: "happened (append_assistant_field s fld turn st) = happened st" for s fld turn st
  proof -
    have "tools (field_update s fld t) = tools t" for t
      by (simp add: field_update_def Let_def split: assistant_field.split)
    then show ?thesis by (simp add: append_assistant_field_def happened_on_turn)
  qed
  have rep: "happened (append_reasoning_replay r turn st) = happened st" for r turn st
    by (simp add: append_reasoning_replay_def happened_on_turn)
  have wrote: "happened (write_block b (flush st)) = happened st @ block_happens b" for b st
  proof -
    have "happened (flush st) = concat (map block_happens (snd (flush st)))"
      by (cases st) (simp add: happened_def fresh_fold_def)
    then show ?thesis using happened_flush [of st] by (cases st) (simp add: happened_def write_block_def fresh_fold_def)
  qed
  have tool: "happened (push_tool rp c st) = happened st @ item_happens rp (ToolItem c)" for c
  proof (cases "host_task_delivery c")
    case None
    obtain f bs where e: "ensure_turn_for (card_turn c) st = (f, bs)" by fastforce
    with pending_ensure [of "card_turn c" st] obtain t where t: "pending f = Some t" by (auto simp: is_quiescent_def)
    have "happened (f, bs) = happened st" using happened_ensure [of "card_turn c" st] e by simp
    then show ?thesis using None e t by (auto simp: push_tool_def on_turn_def happened_def exchange_of_def Let_def)
  qed (simp add: push_tool_def wrote)
  show ?thesis
    by (cases x) (simp_all add: wrote field rep tool Let_def split: option.split)
qed

text \<open>
  Claim C31. The turns keep what happened in its order: the user's messages, the calls with their results, what the
  host delivered, added and appended stand in the provider-neutral history as often and in the order they stand in the
  timeline, whatever turns the fold makes of the assistant's cards.
\<close>

theorem history_keeps_what_happened:
  "concat (map block_happens (canonical_history rp items)) = concat (map (item_happens rp) items)"
proof -
  have "happened (fold_items rp items st) = happened st @ concat (map (item_happens rp) items)" for st
    by (induction items rule: rev_induct) (simp_all add: fold_items_def happened_push)
  moreover have "happened (fresh_fold, []) = []" by (simp add: happened_def fresh_fold_def)
  ultimately have "happened (flush (fold_items rp items (fresh_fold, []))) = concat (map (item_happens rp) items)"
    by (simp only: happened_flush append_Nil)
  moreover have "pending (fst (flush (fold_items rp items (fresh_fold, [])))) = None"
    by (simp add: settled_flush fresh_fold_def)
  ultimately show ?thesis by (simp only: happened_def canonical_history_def option.case append_Nil2)
qed

end
