(* ===== verification/MemPool.thy ===== *)
theory MemPool
  imports Prelude Json "HOL-Library.Multiset"
begin

text \<open>
  The process's one memory pool (\<^verbatim>\<open>src/memory_pool.rs\<close>): what it holds, how it counts, what it unloads.
\<close>

section \<open>Saturating counters\<close>

definition saturating_add :: "nat \<Rightarrow> nat \<Rightarrow> nat" where
  "saturating_add a b = min (a + b) u64_max"

section \<open>The pool\<close>

datatype priority = Low | High

datatype pool_kind = ConversationBody | WireProjection | ImageThumbnail | ImageData | FileData

fun priority_of :: "pool_kind \<Rightarrow> priority" where
  "priority_of ConversationBody = High"
| "priority_of WireProjection = High"
| "priority_of ImageThumbnail = High"
| "priority_of ImageData = Low"
| "priority_of FileData = Low"

instantiation priority :: linorder
begin

definition less_eq_priority :: "priority \<Rightarrow> priority \<Rightarrow> bool" where
  "less_eq_priority p q \<longleftrightarrow> p = Low \<or> q = High"

definition less_priority :: "priority \<Rightarrow> priority \<Rightarrow> bool" where
  "less_priority p q \<longleftrightarrow> p = Low \<and> q = High"

instance
proof
  fix p q r :: priority
  show "(p < q) = (p \<le> q \<and> \<not> q \<le> p)" by (cases p; cases q) (simp_all add: less_eq_priority_def less_priority_def)
  show "p \<le> p" by (cases p) (simp_all add: less_eq_priority_def)
  show "p \<le> r" if "p \<le> q" "q \<le> r" using that by (cases p; cases q; cases r) (simp_all add: less_eq_priority_def)
  show "p = q" if "p \<le> q" "q \<le> p" using that by (cases p; cases q) (simp_all add: less_eq_priority_def)
  show "p \<le> q \<or> q \<le> p" by (cases p; cases q) (simp_all add: less_eq_priority_def)
qed

end

type_synonym pool_key = "pool_kind \<times> ustring"

record 'v pool_entry =
  held_value :: 'v
  held_bytes :: nat
  last_used :: nat

record 'v mem_pool =
  entries :: "(pool_key \<times> 'v pool_entry) list"
  pool_total :: nat
  tick :: nat

definition POOL_CAP_BYTES :: nat where "POOL_CAP_BYTES = 2 * 1024 * 1024 * 1024"

definition empty_pool :: "'v mem_pool" where
  "empty_pool = \<lparr>entries = [], pool_total = 0, tick = 0\<rparr>"

definition touch :: "'v mem_pool \<Rightarrow> nat \<times> 'v mem_pool" where
  "touch p = (tick p + 1, p\<lparr>tick := tick p + 1\<rparr>)"

definition pool_remove :: "pool_key \<Rightarrow> 'v mem_pool \<Rightarrow> bool \<times> 'v mem_pool" where
  "pool_remove k p =
     (case map_of (entries p) k of
        Some e \<Rightarrow> (True, p\<lparr>entries := al_del k (entries p), pool_total := pool_total p - held_bytes e\<rparr>)
      | None \<Rightarrow> (False, p))"

definition pool_get :: "pool_key \<Rightarrow> 'v mem_pool \<Rightarrow> 'v option \<times> 'v mem_pool" where
  "pool_get k p =
     (let (t, p) = touch p in
      case map_of (entries p) k of
        None \<Rightarrow> (None, p)
      | Some e \<Rightarrow> (Some (held_value e), p\<lparr>entries := al_put k (e\<lparr>last_used := t\<rparr>) (entries p)\<rparr>))"

definition pool_peek :: "pool_key \<Rightarrow> 'v mem_pool \<Rightarrow> 'v option" where
  "pool_peek k p = map_option held_value (map_of (entries p) k)"

definition pool_contains :: "pool_key \<Rightarrow> 'v mem_pool \<Rightarrow> bool" where
  "pool_contains k p \<longleftrightarrow> map_of (entries p) k \<noteq> None"

definition keys_of :: "pool_kind \<Rightarrow> 'v mem_pool \<Rightarrow> pool_key list" where
  "keys_of kind p = filter (\<lambda>k. fst k = kind) (map fst (entries p))"

text \<open>The candidates for unloading, in order: \<open>sort_key\<close> is stable.\<close>

definition candidates :: "'v mem_pool \<Rightarrow> pool_key list" where
  "candidates p = map fst (sort_key (\<lambda>(k, e). priority_of (fst k)) (sort_key (\<lambda>(k, e). last_used e) (entries p)))"

fun unload :: "nat \<Rightarrow> pool_key list \<Rightarrow> 'v mem_pool \<Rightarrow> pool_key list \<times> 'v mem_pool" where
  "unload cap [] p = ([], p)"
| "unload cap (k # ks) p =
     (if pool_total p \<le> cap then ([], p)
      else let (out, q) = unload cap ks (snd (pool_remove k p)) in (k # out, q))"

definition enforce :: "nat \<Rightarrow> 'v mem_pool \<Rightarrow> pool_key list \<times> 'v mem_pool" where
  "enforce cap p = (if pool_total p \<le> cap then ([], p) else unload cap (candidates p) p)"

definition pool_store :: "nat \<Rightarrow> pool_key \<Rightarrow> 'v \<Rightarrow> nat \<Rightarrow> nat \<Rightarrow> 'v mem_pool \<Rightarrow> pool_key list \<times> 'v mem_pool" where
  "pool_store cap k v n used p =
     (let p = snd (pool_remove k p)
      in enforce cap (p\<lparr>pool_total := saturating_add (pool_total p) n,
                        entries := al_put k \<lparr>held_value = v, held_bytes = n, last_used = used\<rparr> (entries p)\<rparr>))"

definition pool_insert :: "nat \<Rightarrow> pool_key \<Rightarrow> 'v \<Rightarrow> nat \<Rightarrow> 'v mem_pool \<Rightarrow> pool_key list \<times> 'v mem_pool" where
  "pool_insert cap k v n p = (let (t, p) = touch p in pool_store cap k v n t p)"

definition pool_replace :: "nat \<Rightarrow> pool_key \<Rightarrow> 'v \<Rightarrow> nat \<Rightarrow> 'v mem_pool \<Rightarrow> pool_key list \<times> 'v mem_pool" where
  "pool_replace cap k v n p =
     (case map_of (entries p) k of
        Some e \<Rightarrow> pool_store cap k v n (last_used e) p
      | None \<Rightarrow> (let (t, p) = touch p in pool_store cap k v n t p))"

definition pool_retain :: "(pool_key \<Rightarrow> bool) \<Rightarrow> 'v mem_pool \<Rightarrow> 'v mem_pool" where
  "pool_retain keep p =
     foldl (\<lambda>p k. snd (pool_remove k p)) p (filter (\<lambda>k. \<not> keep k) (map fst (entries p)))"

section \<open>The machine\<close>

datatype 'v pool_op =
    PoolGet pool_key
  | PoolInsert pool_key 'v nat
  | PoolReplace pool_key 'v nat
  | PoolRemove pool_key
  | PoolRetain "pool_key \<Rightarrow> bool"

fun pool_op_step :: "nat \<Rightarrow> 'v mem_pool \<Rightarrow> 'v pool_op \<Rightarrow> 'v mem_pool" where
  "pool_op_step cap p (PoolGet k) = snd (pool_get k p)"
| "pool_op_step cap p (PoolInsert k v n) = snd (pool_insert cap k v n p)"
| "pool_op_step cap p (PoolReplace k v n) = snd (pool_replace cap k v n p)"
| "pool_op_step cap p (PoolRemove k) = snd (pool_remove k p)"
| "pool_op_step cap p (PoolRetain keep) = pool_retain keep p"

section \<open>What the pool keeps\<close>

definition sized :: "('v pool_entry \<Rightarrow> bool) \<Rightarrow> 'v mem_pool \<Rightarrow> bool" where
  "sized P p \<longleftrightarrow> (\<forall>x \<in> set (entries p). P (snd x))"

definition pool_books :: "'v mem_pool \<Rightarrow> bool" where
  "pool_books p \<longleftrightarrow> distinct (map fst (entries p)) \<and> pool_total p = sum_list (map (held_bytes \<circ> snd) (entries p)) \<and>
     distinct (map (last_used \<circ> snd) (entries p)) \<and> (\<forall>x \<in> set (entries p). last_used (snd x) \<le> tick p)"

lemma sum_al_del:
  "distinct (map fst m) \<Longrightarrow> map_of m k = Some e \<Longrightarrow>
     sum_list (map (f \<circ> snd) (al_del k m)) = sum_list (map (f \<circ> snd) m) - (f e :: nat)"
proof (induction m)
  case (Cons x m)
  obtain k' e' where x: "x = (k', e')" by (cases x)
  show ?case
  proof (cases "k' = k")
    case True
    with Cons.prems x have "map_of m k = None" by (auto simp: map_of_eq_None_iff)
    then have "al_del k m = m" by (rule al_del_absent)
    with True Cons.prems x show ?thesis by (simp add: al_del_def)
  next
    case False
    with Cons.prems x have m: "distinct (map fst m)" "map_of m k = Some e" by simp_all
    then have "f e \<le> sum_list (map (f \<circ> snd) m)"
      by (intro member_le_sum_list) (auto dest!: map_of_SomeD intro!: image_eqI [of _ _ "(k, e)"])
    with Cons.IH [OF m] False x show ?thesis by (simp add: al_del_def comp_def)
  qed
qed simp

lemma distinct_map_al_del: "distinct (map f m) \<Longrightarrow> distinct (map f (al_del k m))"
  by (simp add: al_del_def distinct_map_filter)

lemma set_al_del_subset: "set (al_del k m) \<subseteq> set m"
  by (auto simp: al_del_def)

lemma pool_books_remove: "pool_books p \<Longrightarrow> pool_books (snd (pool_remove k p))"
  using set_al_del_subset [of k "entries p"]
  by (auto simp: pool_books_def pool_remove_def sum_al_del distinct_map_al_del split: option.split)

lemma remove_entries: "entries (snd (pool_remove k p)) = al_del k (entries p)"
  by (simp add: pool_remove_def al_del_absent split: option.split)

lemma remove_tick [simp]: "tick (snd (pool_remove k p)) = tick p"
  by (simp add: pool_remove_def split: option.split)

lemma pool_books_unload: "pool_books p \<Longrightarrow> pool_books (snd (unload cap ks p))"
  by (induction cap ks p rule: unload.induct) (simp_all add: split_beta pool_books_remove)

lemma pool_books_enforce: "pool_books p \<Longrightarrow> pool_books (snd (enforce cap p))"
  by (simp add: enforce_def pool_books_unload)

lemma set_candidates: "set (candidates p) = fst ` set (entries p)"
  by (simp add: candidates_def)

text \<open>Unloading everything leaves nothing, so the loop ends under the cap.\<close>

lemma unload_under_cap:
  "pool_books p \<Longrightarrow> fst ` set (entries p) \<subseteq> set ks \<Longrightarrow> pool_total (snd (unload cap ks p)) \<le> cap"
proof (induction cap ks p rule: unload.induct)
  case (1 cap p)
  then show ?case by (simp add: pool_books_def)
next
  case (2 cap k ks p)
  have "fst ` set (entries (snd (pool_remove k p))) \<subseteq> set ks"
    using 2(3) by (auto simp: remove_entries set_al_del)
  with 2 show ?case by (simp add: split_beta pool_books_remove)
qed

lemma enforce_under_cap: "pool_books p \<Longrightarrow> pool_total (snd (enforce cap p)) \<le> cap"
  by (simp add: enforce_def unload_under_cap set_candidates)

text \<open>Sizes and the cap leave room below the counter's end.\<close>

lemma pool_books_store:
  assumes p: "pool_books p" "pool_total p \<le> cap" and fit: "cap + n \<le> u64_max" and used: "used \<le> tick p"
    and new: "\<forall>x \<in> set (al_del k (entries p)). last_used (snd x) \<noteq> used"
  shows "pool_books (snd (pool_store cap k v n used p)) \<and> pool_total (snd (pool_store cap k v n used p)) \<le> cap"
proof -
  let ?r = "snd (pool_remove k p)"
  let ?q = "?r\<lparr>pool_total := saturating_add (pool_total ?r) n,
      entries := al_put k \<lparr>held_value = v, held_bytes = n, last_used = used\<rparr> (entries ?r)\<rparr>"
  have r: "pool_books ?r" by (rule pool_books_remove [OF p(1)])
  have "pool_total ?r \<le> pool_total p" by (simp add: pool_remove_def split: option.split)
  then have t: "saturating_add (pool_total ?r) n = pool_total ?r + n" using p(2) fit by (simp add: saturating_add_def)
  have del: "al_del k (entries ?r) = al_del k (entries p)" by (simp add: remove_entries al_del_def)
  have same: "al_del k (entries p) = entries ?r" by (simp add: remove_entries)
  have "k \<notin> fst ` set (entries ?r)" by (auto simp: remove_entries set_al_del)
  moreover have "used \<notin> (last_used \<circ> snd) ` set (entries ?r)" using new unfolding same by auto
  ultimately have "pool_books ?q"
    using r t used unfolding pool_books_def al_put_def mem_pool.simps del same by (simp add: comp_def)
  then show ?thesis by (simp add: pool_store_def Let_def pool_books_enforce enforce_under_cap)
qed

definition pool_ok_under :: "nat \<Rightarrow> 'v mem_pool \<Rightarrow> bool" where
  "pool_ok_under cap p \<longleftrightarrow> pool_books p \<and> pool_total p \<le> cap"

lemma books_tick: "pool_books p \<Longrightarrow> pool_books (p\<lparr>tick := tick p + 1\<rparr>)"
  by (auto simp: pool_books_def intro: le_SucI)

lemma insert_ok:
  assumes "pool_ok_under cap p" and "cap + n \<le> u64_max"
  shows "pool_ok_under cap (snd (pool_insert cap k v n p))"
proof -
  let ?p = "p\<lparr>tick := tick p + 1\<rparr>"
  have "\<forall>x \<in> set (al_del k (entries ?p)). last_used (snd x) \<noteq> tick ?p"
    using assms(1) set_al_del_subset [of k "entries p"] by (fastforce simp: pool_ok_under_def pool_books_def)
  with assms books_tick [of p] show ?thesis
    using pool_books_store [of ?p cap n "tick ?p" k v] by (simp add: pool_ok_under_def pool_insert_def touch_def)
qed

lemma replace_ok:
  assumes "pool_ok_under cap p" and "cap + n \<le> u64_max"
  shows "pool_ok_under cap (snd (pool_replace cap k v n p))"
proof (cases "map_of (entries p) k")
  case None
  with insert_ok [OF assms, of k v] show ?thesis by (simp add: pool_replace_def pool_insert_def)
next
  case (Some e)
  have b: "pool_books p" "pool_total p \<le> cap" using assms(1) by (simp_all add: pool_ok_under_def)
  have e: "(k, e) \<in> set (entries p)" using Some by (rule map_of_SomeD)
  have used: "last_used e \<le> tick p" using b(1) e by (force simp: pool_books_def)
  have "last_used (snd x) \<noteq> last_used e" if x: "x \<in> set (al_del k (entries p))" for x
  proof
    assume "last_used (snd x) = last_used e"
    moreover have "x \<in> set (entries p)" "fst x \<noteq> k" using x by (auto simp: set_al_del)
    moreover have "inj_on (last_used \<circ> snd) (set (entries p))" using b(1) by (simp add: pool_books_def distinct_map)
    ultimately have "x = (k, e)" using e by (intro inj_onD [of "last_used \<circ> snd" "set (entries p)"]) simp_all
    with \<open>fst x \<noteq> k\<close> show False by simp
  qed
  then show ?thesis
    using Some pool_books_store [OF b assms(2) used, of k v] by (simp add: pool_replace_def pool_ok_under_def)
qed

lemma get_ok:
  assumes "pool_ok_under cap p"
  shows "pool_ok_under cap (snd (pool_get k p))"
proof (cases "map_of (entries p) k")
  case None
  with assms books_tick [of p] show ?thesis by (simp add: pool_get_def touch_def pool_ok_under_def)
next
  case (Some e)
  have b: "pool_books p" "pool_total p \<le> cap" using assms by (simp_all add: pool_ok_under_def)
  have e: "held_bytes e \<le> sum_list (map (held_bytes \<circ> snd) (entries p))"
    using Some by (intro member_le_sum_list) (auto dest!: map_of_SomeD intro!: image_eqI [of _ _ "(k, e)"])
  have "sum_list (map (held_bytes \<circ> snd) (al_put k (e\<lparr>last_used := tick p + 1\<rparr>) (entries p))) =
      sum_list (map (held_bytes \<circ> snd) (entries p))"
    using b(1) e sum_al_del [OF _ Some, of held_bytes] by (simp add: al_put_def pool_books_def)
  moreover have "distinct (map (last_used \<circ> snd) (al_put k (e\<lparr>last_used := tick p + 1\<rparr>) (entries p)))"
    using b(1) set_al_del_subset [of k "entries p"]
    by (fastforce simp: al_put_def pool_books_def distinct_map_al_del)
  moreover have "\<forall>x \<in> set (al_put k (e\<lparr>last_used := tick p + 1\<rparr>) (entries p)). last_used (snd x) \<le> tick p + 1"
    using b(1) set_al_del_subset [of k "entries p"] by (fastforce simp: al_put_def pool_books_def)
  ultimately show ?thesis
    using b Some by (simp add: pool_get_def touch_def pool_ok_under_def pool_books_def)
qed

lemma remove_ok: "pool_ok_under cap p \<Longrightarrow> pool_ok_under cap (snd (pool_remove k p))"
  by (auto simp: pool_ok_under_def pool_books_remove) (auto simp: pool_remove_def split: option.split)

lemma retain_ok: "pool_ok_under cap p \<Longrightarrow> pool_ok_under cap (pool_retain keep p)"
proof -
  have "pool_ok_under cap p \<Longrightarrow> pool_ok_under cap (foldl (\<lambda>p k. snd (pool_remove k p)) p ks)" for ks
    by (induction ks arbitrary: p) (simp_all add: remove_ok)
  then show "pool_ok_under cap p \<Longrightarrow> pool_ok_under cap (pool_retain keep p)" by (simp add: pool_retain_def)
qed

lemma pool_op_ok:
  assumes "pool_ok_under cap p" and "\<And>k v n. e = PoolInsert k v n \<or> e = PoolReplace k v n \<Longrightarrow> cap + n \<le> u64_max"
  shows "pool_ok_under cap (pool_op_step cap p e)"
  using assms by (cases e) (simp_all add: insert_ok replace_ok get_ok remove_ok retain_ok)

text \<open>The sizes a run files.\<close>

definition sizes_fit :: "nat \<Rightarrow> 'v pool_op list \<Rightarrow> bool" where
  "sizes_fit cap es \<longleftrightarrow>
     (\<forall>e \<in> set es. case e of PoolInsert _ _ n \<Rightarrow> cap + n \<le> u64_max | PoolReplace _ _ n \<Rightarrow> cap + n \<le> u64_max | _ \<Rightarrow> True)"

text \<open>
  Claim C29. The pool keeps its cap: after every sequence of uses, inserts, refreshes and removals, the counter is the
  sum of what is held, no key is held twice, no two entries were used last at one time, and the sum is within the cap.
\<close>

theorem pool_keeps_its_cap:
  assumes fit: "sizes_fit cap es" and q: "q = foldl (pool_op_step cap) empty_pool es"
  shows "pool_total q = sum_list (map (held_bytes \<circ> snd) (entries q)) \<and> pool_total q \<le> cap \<and>
    distinct (map fst (entries q)) \<and> distinct (map (last_used \<circ> snd) (entries q))"
proof -
  have run: "pool_ok_under cap (foldl (pool_op_step cap) p es)" if "pool_ok_under cap p" "sizes_fit cap es" for p es
    using that
  proof (induction es arbitrary: p)
    case (Cons e es)
    then have "pool_ok_under cap (pool_op_step cap p e)"
      by (intro pool_op_ok) (auto simp: sizes_fit_def)
    with Cons show ?case by (simp add: sizes_fit_def)
  qed simp
  have "pool_ok_under cap empty_pool" by (simp add: pool_ok_under_def pool_books_def empty_pool_def)
  from run [OF this fit] have "pool_ok_under cap q" by (simp only: q)
  then show ?thesis by (simp add: pool_ok_under_def pool_books_def)
qed

theorem pool_keeps_its_cap_witness:
  "(let q = foldl (pool_op_step 10) empty_pool
      [PoolInsert (ImageData, [1]) (0::nat) 6, PoolInsert (FileData, [2]) 1 6, PoolGet (FileData, [2])]
    in pool_total q = 6 \<and> pool_total q \<le> 10)"
proof -
  let ?es = "[PoolInsert (ImageData, [1]) (0::nat) 6, PoolInsert (FileData, [2]) 1 6, PoolGet (FileData, [2])]"
  have "sizes_fit 10 ?es" by (simp add: sizes_fit_def u64_max_def)
  from pool_keeps_its_cap [OF this refl]
  have "pool_total (foldl (pool_op_step 10) empty_pool ?es) \<le> 10" by (elim conjE)
  moreover have "pool_total (foldl (pool_op_step 10) empty_pool ?es) = 6"
    by (simp add: pool_insert_def pool_store_def pool_get_def touch_def empty_pool_def pool_remove_def al_put_def
        al_del_def saturating_add_def u64_max_def enforce_def candidates_def less_eq_priority_def)
  ultimately show ?thesis unfolding Let_def by (rule conjI [rotated])
qed

section \<open>What a client may rely on\<close>

text \<open>
  A store that may lose what it holds at any time: what is under a key is what was there or what was just put there.
\<close>

locale lossy_store =
  fixes peek :: "'k \<Rightarrow> 's \<Rightarrow> 'v option"
    and act :: "'s \<Rightarrow> 'e \<Rightarrow> 's"
    and gives :: "'e \<Rightarrow> ('k \<times> 'v) option"
  assumes act_gives: "peek k (act s e) = Some v \<Longrightarrow> peek k s = Some v \<or> gives e = Some (k, v)"
begin

definition all_held :: "('k \<Rightarrow> 'v \<Rightarrow> bool) \<Rightarrow> 's \<Rightarrow> bool" where
  "all_held P s \<longleftrightarrow> (\<forall>k v. peek k s = Some v \<longrightarrow> P k v)"

lemma all_heldD: "all_held P s \<Longrightarrow> peek k s = Some v \<Longrightarrow> P k v"
  by (simp add: all_held_def)

lemma all_held_act: "all_held P s \<Longrightarrow> (\<And>k v. gives e = Some (k, v) \<Longrightarrow> P k v) \<Longrightarrow> all_held P (act s e)"
  unfolding all_held_def using act_gives by blast

end

fun op_gives :: "'v pool_op \<Rightarrow> (pool_key \<times> 'v) option" where
  "op_gives (PoolInsert k v _) = Some (k, v)"
| "op_gives (PoolReplace k v _) = Some (k, v)"
| "op_gives _ = None"

lemma peek_remove: "pool_peek k (snd (pool_remove k' p)) = (if k = k' then None else pool_peek k p)"
  by (simp add: pool_peek_def remove_entries)

lemma peek_unload: "pool_peek k (snd (unload cap ks p)) = Some v \<Longrightarrow> pool_peek k p = Some v"
proof (induction cap ks p rule: unload.induct)
  case (2 cap k' ks p)
  show ?case
  proof (cases "pool_total p \<le> cap")
    case False
    with 2 have "pool_peek k (snd (pool_remove k' p)) = Some v" by (simp add: split_beta)
    then show ?thesis using peek_remove [of k k' p] by (simp split: if_splits)
  qed (use 2 in simp)
qed simp

lemma peek_enforce: "pool_peek k (snd (enforce cap p)) = Some v \<Longrightarrow> pool_peek k p = Some v"
  using peek_unload [of k cap "candidates p" p v] by (simp add: enforce_def split: if_splits)

lemma peek_store:
  assumes "pool_peek k (snd (pool_store cap k' v' n used p)) = Some v"
  shows "pool_peek k p = Some v \<or> k' = k \<and> v' = v"
proof -
  let ?r = "snd (pool_remove k' p)"
  from assms have "pool_peek k (?r\<lparr>pool_total := saturating_add (pool_total ?r) n,
      entries := al_put k' \<lparr>held_value = v', held_bytes = n, last_used = used\<rparr> (entries ?r)\<rparr>) = Some v"
    unfolding pool_store_def Let_def by (rule peek_enforce)
  then show ?thesis by (cases "k' = k") (simp_all add: pool_peek_def remove_entries)
qed

lemma peek_retain:
  assumes "pool_peek k (pool_retain keep p) = Some v"
  shows "pool_peek k p = Some v"
proof -
  have "pool_peek k (foldl (\<lambda>p k. snd (pool_remove k p)) p ks) = Some v \<Longrightarrow> pool_peek k p = Some v" for ks
  proof (induction ks arbitrary: p)
    case (Cons x ks)
    then have "pool_peek k (snd (pool_remove x p)) = Some v" by (simp only: foldl.simps)
    then show ?case using peek_remove [of k x p] by (simp split: if_splits)
  qed simp
  with assms show ?thesis by (simp add: pool_retain_def)
qed

lemma peek_touch: "pool_peek k (p\<lparr>tick := t\<rparr>) = pool_peek k p"
  by (simp add: pool_peek_def)

lemma peek_get: "pool_peek k (snd (pool_get k' p)) = pool_peek k p"
  by (simp add: pool_get_def touch_def pool_peek_def split: option.split)

interpretation pooled: lossy_store pool_peek "pool_op_step cap" op_gives for cap
proof
  fix k s and e :: "'a pool_op" and v
  assume held: "pool_peek k (pool_op_step cap s e) = Some v"
  show "pool_peek k s = Some v \<or> op_gives e = Some (k, v)"
  proof (cases e)
    case (PoolGet k')
    with held show ?thesis by (simp add: peek_get)
  next
    case (PoolInsert k' v' n)
    with held peek_store [of k cap k' v' n "tick s + 1" "s\<lparr>tick := tick s + 1\<rparr>" v] show ?thesis
      by (simp add: pool_insert_def touch_def peek_touch)
  next
    case (PoolReplace k' v' n)
    with held peek_store [of k cap k' v' n "tick s + 1" "s\<lparr>tick := tick s + 1\<rparr>" v]
      peek_store [of k cap k' v' n _ s v] show ?thesis
      by (cases "map_of (entries s) k'") (simp_all add: pool_replace_def touch_def peek_touch)
  next
    case (PoolRemove k')
    with held peek_remove [of k k' s] show ?thesis by (simp split: if_splits)
  next
    case (PoolRetain keep)
    with held peek_retain [of k keep s v] show ?thesis by simp
  qed
qed

section \<open>The order of unloading\<close>

definition goes_before :: "(pool_key \<times> 'v pool_entry) \<Rightarrow> (pool_key \<times> 'v pool_entry) \<Rightarrow> bool" where
  "goes_before x y \<longleftrightarrow> priority_of (fst (fst x)) < priority_of (fst (fst y)) \<or>
     priority_of (fst (fst x)) = priority_of (fst (fst y)) \<and> last_used (snd x) \<le> last_used (snd y)"

lemma sorted_twice:
  assumes "sorted_wrt (\<lambda>x y. g x \<le> g y) xs"
  shows "sorted_wrt (\<lambda>x y. f x < f y \<or> f x = f y \<and> g x \<le> g y) (sort_key (f :: 'a \<Rightarrow> 'b :: linorder) xs)"
proof -
  let ?ys = "sort_key f xs"
  have s: "sorted_wrt (\<lambda>x y. f x \<le> f y) ?ys" using sorted_sort_key [of f xs] by (simp add: sorted_map)
  have st: "filter (\<lambda>y. f y = k) ?ys = filter (\<lambda>y. f y = k) xs" for k by (rule sort_key_stable)
  have "f (?ys ! i) < f (?ys ! j) \<or> f (?ys ! i) = f (?ys ! j) \<and> g (?ys ! i) \<le> g (?ys ! j)"
    if ij: "i < j" "j < length ?ys" for i j
  proof (cases "f (?ys ! i) = f (?ys ! j)")
    case True
    let ?k = "f (?ys ! j)"
    have "sorted_wrt (\<lambda>x y. g x \<le> g y) (filter (\<lambda>y. f y = ?k) ?ys)"
      unfolding st by (rule sorted_wrt_filter [OF assms])
    moreover have "filter (\<lambda>y. f y = ?k) ?ys = filter (\<lambda>y. f y = ?k) (take j ?ys) @ filter (\<lambda>y. f y = ?k) (drop j ?ys)"
      by (simp flip: filter_append)
    moreover have "?ys ! i \<in> set (filter (\<lambda>y. f y = ?k) (take j ?ys))"
      using ij True by (auto simp: in_set_conv_nth intro!: exI [of _ i])
    moreover have "?ys ! j \<in> set (filter (\<lambda>y. f y = ?k) (drop j ?ys))"
      using ij by (auto simp: in_set_conv_nth intro!: exI [of _ 0])
    ultimately have "g (?ys ! i) \<le> g (?ys ! j)" by (simp add: sorted_wrt_append)
    with True show ?thesis by simp
  next
    case False
    with s ij show ?thesis by (auto simp: sorted_wrt_iff_nth_less less_le)
  qed
  then show ?thesis by (simp add: sorted_wrt_iff_nth_less)
qed

lemma candidates_sorted:
  "\<exists>xs. candidates p = map fst xs \<and> mset xs = mset (entries p) \<and> sorted_wrt goes_before xs"
proof -
  let ?g = "\<lambda>(k :: pool_key, e :: 'a pool_entry). last_used e" and ?f = "\<lambda>(k :: pool_key, e :: 'a pool_entry). priority_of (fst k)"
  have "sorted_wrt (\<lambda>x y. ?g x \<le> ?g y) (sort_key ?g (entries p))" using sorted_sort_key [of ?g "entries p"] by (simp add: sorted_map)
  from sorted_twice [OF this, of ?f]
  have "sorted_wrt goes_before (sort_key ?f (sort_key ?g (entries p)))"
    by (rule sorted_wrt_mono_rel [rotated]) (auto simp: goes_before_def)
  then show ?thesis by (intro exI [of _ "sort_key ?f (sort_key ?g (entries p))"]) (simp add: candidates_def)
qed

lemma unload_prefix:
  assumes "distinct (map fst xs)" and "set xs \<subseteq> set (entries p)" and "distinct (map fst (entries p))"
  shows "\<exists>n. fst (unload cap (map fst xs) p) = map fst (take n xs) \<and>
    entries (snd (unload cap (map fst xs) p)) = filter (\<lambda>x. fst x \<notin> fst ` set (take n xs)) (entries p) \<and>
    (n < length xs \<longrightarrow> pool_total (snd (unload cap (map fst xs) p)) \<le> cap)"
  using assms
proof (induction xs arbitrary: p)
  case Nil
  then show ?case by simp
next
  case (Cons x xs)
  show ?case
  proof (cases "pool_total p \<le> cap")
    case True
    then show ?thesis by (intro exI [of _ 0]) simp
  next
    case False
    let ?q = "snd (pool_remove (fst x) p)"
    have e: "entries ?q = filter (\<lambda>y. fst y \<noteq> fst x) (entries p)" unfolding remove_entries al_del_def by (rule filter_cong) (auto simp: case_prod_beta)
    have "set xs \<subseteq> set (entries ?q)"
    proof
      fix y assume y: "y \<in> set xs"
      then have "fst y \<noteq> fst x" using Cons.prems(1) by (metis distinct.simps(2) image_eqI list.simps(9) set_map)
      with y Cons.prems(2) show "y \<in> set (entries ?q)" by (auto simp: e)
    qed
    moreover have "distinct (map fst (entries ?q))" using Cons.prems(3) by (simp add: e distinct_map_filter)
    ultimately obtain n where n: "fst (unload cap (map fst xs) ?q) = map fst (take n xs)"
        "entries (snd (unload cap (map fst xs) ?q)) = filter (\<lambda>x. fst x \<notin> fst ` set (take n xs)) (entries ?q)"
        "n < length xs \<longrightarrow> pool_total (snd (unload cap (map fst xs) ?q)) \<le> cap"
      using Cons.IH [of ?q] Cons.prems by auto
    show ?thesis
      by (rule exI [of _ "Suc n"]) (use False n in \<open>auto simp: split_beta e intro!: filter_cong\<close>)
  qed
qed

text \<open>The last entry that goes had to: the rest and it were over the cap.\<close>

lemma unload_minimal:
  "pool_books p \<Longrightarrow> distinct ks \<Longrightarrow> set ks \<subseteq> fst ` set (entries p) \<Longrightarrow> fst (unload cap ks p) \<noteq> [] \<Longrightarrow>
     \<exists>e. map_of (entries p) (last (fst (unload cap ks p))) = Some e \<and>
         cap < pool_total (snd (unload cap ks p)) + held_bytes e"
proof (induction cap ks p rule: unload.induct)
  case (2 cap k ks p)
  from 2(5) have over: "cap < pool_total p" by (simp add: not_le [symmetric] split: if_splits)
  let ?q = "snd (pool_remove k p)"
  have books: "pool_books ?q" using 2(2) by (rule pool_books_remove)
  obtain e where e: "map_of (entries p) k = Some e"
    using 2(4) by (cases "map_of (entries p) k") (auto simp: map_of_eq_None_iff)
  show ?case
  proof (cases "fst (unload cap ks ?q) = []")
    case True
    then have "unload cap ks ?q = ([], ?q)" by (cases ks) (auto simp: split_beta split: if_splits)
    then show ?thesis using over e by (simp add: pool_remove_def)
  next
    case False
    have "set ks \<subseteq> fst ` set (entries ?q)"
      using 2(3,4) by (force simp: remove_entries set_al_del)
    with 2(1) over books 2(3) False obtain e' where
        e': "map_of (entries ?q) (last (fst (unload cap ks ?q))) = Some e'"
          "cap < pool_total (snd (unload cap ks ?q)) + held_bytes e'" by auto
    have "map_of (entries p) (last (fst (unload cap ks ?q))) = Some e'"
      using map_of_SomeD [OF e'(1)] 2(2) by (auto simp: remove_entries set_al_del pool_books_def)
    with e' over False show ?thesis by (simp add: split_beta)
  qed
qed simp

text \<open>
  What an insert unloads: the entries of lower priority first, the least recently used first within a
  priority, and no more than the cap needs. No entry that stays was due before one that goes, and the last that goes
  is one the cap had no room for.
\<close>

theorem unloads_the_least_needed:
  assumes books: "pool_books p" and out: "enforce cap p = (gone, q)" and x: "x \<in> set (entries p)" "fst x \<in> set gone"
    and y: "y \<in> set (entries q)"
  shows "goes_before x y \<and> y \<in> set (entries p) \<and> fst y \<notin> set gone \<and>
    (\<exists>e. map_of (entries p) (last gone) = Some e \<and> cap < pool_total q + held_bytes e)"
proof (cases "pool_total p \<le> cap")
  case True
  with out x show ?thesis by (simp add: enforce_def)
next
  case False
  obtain xs where xs: "candidates p = map fst xs" "mset xs = mset (entries p)" "sorted_wrt goes_before xs"
    using candidates_sorted by blast
  have s: "set xs = set (entries p)" using xs(2) by (rule mset_eq_setD)
  have dist: "distinct (map fst xs)"
    using books xs(2) by (metis mset_map mset_eq_imp_distinct_iff pool_books_def)
  obtain n where n: "fst (unload cap (map fst xs) p) = map fst (take n xs)"
      "entries (snd (unload cap (map fst xs) p)) = filter (\<lambda>x. fst x \<notin> fst ` set (take n xs)) (entries p)"
    using unload_prefix [OF dist, of p cap] s books by (auto simp: pool_books_def)
  have gone: "gone = map fst (take n xs)" "entries q = filter (\<lambda>x. fst x \<notin> fst ` set (take n xs)) (entries p)"
    using False out n xs(1) by (simp_all add: enforce_def)
  have yp: "y \<in> set (entries p)" "fst y \<notin> set gone" using y by (simp_all add: gone)
  have "y \<in> set (drop n xs)"
  proof -
    have "y \<in> set (take n xs @ drop n xs)" using yp(1) s by (simp only: append_take_drop_id)
    moreover have "y \<notin> set (take n xs)" using yp(2) by (auto simp: gone)
    ultimately show ?thesis unfolding set_append by blast
  qed
  moreover have "x \<in> set (take n xs)"
  proof -
    obtain z where z: "z \<in> set (take n xs)" "fst z = fst x" using x(2) by (auto simp: gone)
    have "z \<in> set xs" "x \<in> set xs" using z(1) x(1) s by (auto dest: in_set_takeD)
    with dist z(2) have "z = x" by (intro inj_onD [of fst "set xs"]) (simp_all add: distinct_map)
    with z(1) show ?thesis by simp
  qed
  moreover have "sorted_wrt goes_before (take n xs @ drop n xs)" using xs(3) by simp
  ultimately have "goes_before x y" by (simp only: sorted_wrt_append)
  moreover have "\<exists>e. map_of (entries p) (last gone) = Some e \<and> cap < pool_total q + held_bytes e"
  proof -
    have "fst (unload cap (map fst xs) p) = gone" "snd (unload cap (map fst xs) p) = q"
      using False out by (simp_all add: enforce_def xs(1))
    moreover have "fst (unload cap (map fst xs) p) \<noteq> []" using x(2) calculation(1) by auto
    moreover have "set (map fst xs) \<subseteq> fst ` set (entries p)" by (simp add: s)
    ultimately show ?thesis using unload_minimal [OF books dist, of cap] by simp
  qed
  ultimately show ?thesis using yp by blast
qed

theorem unloads_the_least_needed_witness:
  "(let p = \<lparr>entries = [((ImageThumbnail, [3]), \<lparr>held_value = (2::nat), held_bytes = 5, last_used = 1\<rparr>),
                       ((FileData, [2]), \<lparr>held_value = 1, held_bytes = 6, last_used = 2\<rparr>)],
              pool_total = 11, tick = 2\<rparr>
    in fst (enforce 10 p) = [(FileData, [2])] \<and>
       goes_before ((FileData, [2]), \<lparr>held_value = 1 :: nat, held_bytes = 6, last_used = 2\<rparr>)
         ((ImageThumbnail, [3]), \<lparr>held_value = 2 :: nat, held_bytes = 5, last_used = 1\<rparr>))"
proof -
  let ?x = "((FileData, [2]) :: pool_key, \<lparr>held_value = (1::nat), held_bytes = 6, last_used = 2\<rparr>)"
  let ?y = "((ImageThumbnail, [3]) :: pool_key, \<lparr>held_value = (2::nat), held_bytes = 5, last_used = 1\<rparr>)"
  let ?p = "\<lparr>entries = [?y, ?x], pool_total = 11, tick = 2\<rparr>"
  let ?q = "\<lparr>entries = [?y], pool_total = 5, tick = 2\<rparr>"
  have books: "pool_books ?p" by (simp add: pool_books_def)
  have out: "enforce 10 ?p = ([(FileData, [2])], ?q)"
    by (simp add: enforce_def candidates_def less_eq_priority_def pool_remove_def al_del_def)
  have "goes_before ?x ?y"
    using unloads_the_least_needed [OF books out, of ?x ?y] by simp
  with out show ?thesis unfolding Let_def by (intro conjI) (simp only: fst_conv)
qed

end
