(* ===== verification/WireCache.thy ===== *)
theory WireCache
  imports WireProject MemPool
begin

text \<open>
  The cache of projected histories (\<^verbatim>\<open>src/wire_history.rs\<close>): a run's session, the entries in the memory pool, and the
  background warmer. \<open>world_step\<close> interleaves them: the lock \<open>entry_writes\<close> is held from \<open>StoreMerge\<close> or
  \<open>WarmCheck\<close> to \<open>Install\<close>, and everything else may happen in between. Entries carry a number, which stands for the
  identity that \<open>Arc::ptr_eq\<close> compares.
\<close>

section \<open>A session\<close>

text \<open>What the host gives: the digest, the sizes of texts, the pool's cap, and what each conversation's history answers.\<close>

record wire_host =
  sha :: "nat list \<Rightarrow> nat list"
  message_bytes :: "json \<Rightarrow> nat"
  timeline_bytes :: "context_item list \<Rightarrow> nat"
  pool_cap :: nat
  replay_of :: "ustring \<Rightarrow> replay"

record wire_segment =
  messages :: "json list"
  segment_bytes :: nat

record wire_session =
  key :: "ustring option"
  variant :: family
  base :: "wire_segment list"
  open_fold :: canonical_fold
  session_replay :: replay
  synced :: nat
  tail_messages :: "json list"
  tail_bytes :: nat
  cut_consumed :: nat
  cut_messages :: nat

definition estimate :: "wire_host \<Rightarrow> json list \<Rightarrow> nat" where
  "estimate h ms = sum_list (map (message_bytes h) ms)"

definition sync_item :: "wire_host \<Rightarrow> wire_session \<Rightarrow> context_item \<Rightarrow> wire_session" where
  "sync_item h s x =
     (let (f, blocks) = push (session_replay s) x (open_fold s, []);
          new = project_blocks (sha h) (variant s) blocks;
          s = s\<lparr>open_fold := f, synced := synced s + 1, tail_messages := tail_messages s @ new,
                tail_bytes := tail_bytes s + estimate h new\<rparr>
      in if is_quiescent f then s\<lparr>cut_consumed := synced s, cut_messages := length (tail_messages s)\<rparr> else s)"

definition sync :: "wire_host \<Rightarrow> wire_session \<Rightarrow> context_item list \<Rightarrow> wire_session" where
  "sync h s items = foldl (sync_item h) s (drop (synced s) items)"

definition base_messages :: "wire_segment list \<Rightarrow> json list" where
  "base_messages segs = concat (map messages segs)"

definition assemble :: "wire_host \<Rightarrow> wire_session \<Rightarrow> json list" where
  "assemble h s =
     base_messages (base s) @ tail_messages s @
     project_blocks (sha h) (variant s) (snd (flush (open_fold s, [])))"

section \<open>Entries\<close>

record wire_prefix =
  segments :: "wire_segment list"
  consumed :: nat
  prefix_bytes :: nat

record cache_entry =
  contexts :: "context_item list"
  wire :: "(family \<times> wire_prefix) list"
  entry_replay :: replay

definition entry_bytes :: "wire_host \<Rightarrow> cache_entry \<Rightarrow> nat" where
  "entry_bytes h e = sum_list (map (prefix_bytes \<circ> snd) (wire e)) + timeline_bytes h (contexts e)"

text \<open>The pool holds entries and what its other users put there.\<close>

datatype pooled = Entry nat cache_entry | Foreign

definition cache_key :: "ustring \<Rightarrow> pool_key" where "cache_key k = (WireProjection, k)"

fun as_entry :: "pooled option \<Rightarrow> (nat \<times> cache_entry) option" where
  "as_entry (Some (Entry n e)) = Some (n, e)"
| "as_entry _ = None"

fun common_prefix_len :: "context_item list \<Rightarrow> context_item list \<Rightarrow> nat" where
  "common_prefix_len (x # xs) (y # ys) = (if x = y then 1 + common_prefix_len xs ys else 0)"
| "common_prefix_len _ _ = 0"

definition new_session :: "ustring option \<Rightarrow> family \<Rightarrow> wire_segment list \<Rightarrow> nat \<Rightarrow> replay \<Rightarrow> wire_session" where
  "new_session k fam segs n rp =
     \<lparr>key = k, variant = fam, base = segs, open_fold = fresh_fold, session_replay = rp, synced = n,
      tail_messages = [], tail_bytes = 0, cut_consumed = n, cut_messages = 0\<rparr>"

text \<open>What of an entry may be taken up for a timeline: the prefix of this family, when the timelines agree that far.\<close>

definition usable_prefix :: "cache_entry \<Rightarrow> family \<Rightarrow> context_item list \<Rightarrow> wire_segment list \<times> nat" where
  "usable_prefix e fam items =
     (case map_of (wire e) fam of
        Some p \<Rightarrow> if consumed p \<le> common_prefix_len (contexts e) items then (segments p, consumed p) else ([], 0)
      | None \<Rightarrow> ([], 0))"

definition begin_session ::
  "wire_host \<Rightarrow> ustring option \<Rightarrow> family \<Rightarrow> context_item list \<Rightarrow> replay \<Rightarrow> pooled mem_pool \<Rightarrow> wire_session \<times> pooled mem_pool" where
  "begin_session h k fam items rp p =
     (case k of
        None \<Rightarrow> (sync h (new_session k fam [] 0 rp) items, p)
      | Some c \<Rightarrow>
          let (v, p) = pool_get (cache_key c) p;
              (segs, n) = (case as_entry v of Some (_, e) \<Rightarrow> usable_prefix e fam items | None \<Rightarrow> ([], 0))
          in (sync h (new_session k fam segs n rp) items, p))"

text \<open>The prefix a session leaves behind, at its last cut.\<close>

definition left_segments :: "wire_session \<Rightarrow> wire_segment list" where
  "left_segments s =
     base s @ (if cut_messages s > 0
               then [\<lparr>messages = take (cut_messages s) (tail_messages s), segment_bytes = tail_bytes s\<rparr>] else [])"

definition left_prefix :: "wire_session \<Rightarrow> wire_prefix" where
  "left_prefix s =
     \<lparr>segments = left_segments s, consumed = cut_consumed s,
      prefix_bytes = sum_list (map segment_bytes (left_segments s))\<rparr>"

text \<open>\<open>store_session\<close> up to the insert: \<open>previous\<close> is what the pool held.\<close>

definition stored_entry :: "wire_host \<Rightarrow> wire_session \<Rightarrow> context_item list \<Rightarrow> cache_entry option \<Rightarrow> cache_entry" where
  "stored_entry h s items previous =
     (let s = sync h s items;
          others = (case previous of
                      None \<Rightarrow> []
                    | Some e \<Rightarrow> filter (\<lambda>(_, p). consumed p \<le> common_prefix_len (contexts e) items) (wire e))
      in \<lparr>contexts = items, wire = al_put (variant s) (left_prefix s) others, entry_replay = session_replay s\<rparr>)"

section \<open>The warmer\<close>

record stored_conversation =
  main_contexts :: "context_item list"
  branch_contexts :: "context_item list list"

definition best_timeline :: "cache_entry \<Rightarrow> stored_conversation option \<Rightarrow> context_item list \<times> nat" where
  "best_timeline e stored =
     (case stored of
        None \<Rightarrow> (contexts e, length (contexts e))
      | Some c \<Rightarrow>
          foldl (\<lambda>(best, shared) b.
              let n = common_prefix_len (contexts e) b in
              if n > shared \<or> n = shared \<and> length b > length best then (b, n) else (best, shared))
            (main_contexts c, common_prefix_len (contexts e) (main_contexts c)) (branch_contexts c))"

text \<open>One family's prefix over the new timeline, from what is still valid of the old one.\<close>

definition rebuilt_prefix ::
  "wire_host \<Rightarrow> replay \<Rightarrow> context_item list \<Rightarrow> nat \<Rightarrow> family \<times> wire_segment list \<times> nat \<Rightarrow> (family \<times> wire_prefix) option" where
  "rebuilt_prefix h rp items shared x =
     (case x of (fam, segs, n) \<Rightarrow>
        let (segs, n) = (if n \<le> shared then (segs, n) else ([], 0));
            s = sync h (new_session None fam segs n rp) items
        in if left_segments s = [] then None else Some (fam, left_prefix s))"

text \<open>\<open>warm_entry\<close> up to the lock: what it would put in the entry's place, if anything.\<close>

definition warmed_entry :: "wire_host \<Rightarrow> cache_entry \<Rightarrow> stored_conversation option \<Rightarrow> family option \<Rightarrow> cache_entry option" where
  "warmed_entry h e stored active =
     (let prefixes = map (\<lambda>(fam, p). (fam, segments p, consumed p)) (wire e);
          missing = (case active of Some fam \<Rightarrow> if map_of (wire e) fam = None then [(fam, [], 0)] else [] | None \<Rightarrow> []);
          (best, shared) = best_timeline e stored;
          identical = (shared = length (contexts e) \<and> length best = length (contexts e));
          items = (if identical then contexts e else best)
      in if identical \<and> missing = [] then None
         else Some \<lparr>contexts = items,
                    wire = List.map_filter (rebuilt_prefix h (entry_replay e) items shared) (prefixes @ missing),
                    entry_replay = entry_replay e\<rparr>)"

section \<open>The process\<close>

datatype warm_job = Mirror ustring | Project family

record warm_task =
  warm_key :: ustring
  warm_stored :: "stored_conversation option"
  warm_active :: "family option"

text \<open>A write under the lock: how, for which conversation, what.\<close>

datatype install = Insert ustring cache_entry | Replace ustring cache_entry

record wire_world =
  pool :: "pooled mem_pool"
  sessions :: "(wire_session \<times> context_item list) list"
  installing :: "install option"
  jobs :: "warm_job list"
  active_variant :: "family option"
  todo :: "warm_task list"
  computed :: "(ustring \<times> nat \<times> cache_entry) option"
  stamps :: nat

definition world_new :: wire_world where
  "world_new =
     \<lparr>pool = empty_pool, sessions = [], installing = None, jobs = [], active_variant = None, todo = [], computed = None,
      stamps = 0\<rparr>"

text \<open>
  A run begins with its conversation, whether it is a top-level run, its family and its timeline; the timeline grows.
  \<open>PoolUse\<close> is any use of the pool for other kinds of data.
\<close>

datatype wire_event =
    Begin ustring bool family "context_item list"
  | Grow nat "context_item list"
  | StoreMerge nat "context_item list"
  | Install
  | DocumentCommitted "ustring list" "family option"
  | ConversationCommitted ustring
  | WarmTake "stored_conversation option"
  | WarmCompute
  | WarmCheck
  | PoolUse "pooled pool_op"

definition foreign :: "pooled pool_op \<Rightarrow> bool" where
  "foreign op \<longleftrightarrow>
     (case op of PoolInsert k _ _ \<Rightarrow> fst k \<noteq> WireProjection | PoolReplace k _ _ \<Rightarrow> fst k \<noteq> WireProjection | _ \<Rightarrow> True)"

definition grow :: "wire_host \<Rightarrow> nat \<Rightarrow> context_item list \<Rightarrow> wire_world \<Rightarrow> wire_world" where
  "grow h j items w =
     (case sessions w ! j of (s, timeline) \<Rightarrow>
        w\<lparr>sessions := (sessions w)[j := (sync h s (timeline @ items), timeline @ items)]\<rparr>)"

definition store_merge :: "wire_host \<Rightarrow> nat \<Rightarrow> context_item list \<Rightarrow> wire_world \<Rightarrow> wire_world" where
  "store_merge h j items w =
     (case sessions w ! j of (s, timeline) \<Rightarrow>
        let rest = take j (sessions w) @ drop (Suc j) (sessions w) in
        case key s of
          None \<Rightarrow> w\<lparr>sessions := rest\<rparr>
        | Some k \<Rightarrow>
            w\<lparr>sessions := rest,
              installing := Some (Insert k (stored_entry h s (timeline @ items)
                (map_option snd (as_entry (pool_peek (cache_key k) (pool w))))))\<rparr>)"

definition install_entry :: "wire_host \<Rightarrow> wire_world \<Rightarrow> wire_world" where
  "install_entry h w =
     (case installing w of
        None \<Rightarrow> w
      | Some (Insert k e) \<Rightarrow>
          w\<lparr>pool := pool_op_step (pool_cap h) (pool w) (PoolInsert (cache_key k) (Entry (stamps w) e) (entry_bytes h e)),
            installing := None, stamps := stamps w + 1\<rparr>
      | Some (Replace k e) \<Rightarrow>
          w\<lparr>pool := pool_op_step (pool_cap h) (pool w) (PoolReplace (cache_key k) (Entry (stamps w) e) (entry_bytes h e)),
            installing := None, stamps := stamps w + 1\<rparr>)"

definition on_document_committed :: "ustring list \<Rightarrow> family option \<Rightarrow> wire_world \<Rightarrow> wire_world" where
  "on_document_committed live active w =
     (let p = pool_retain (\<lambda>k. fst k \<noteq> WireProjection \<or> snd k \<in> set live) (pool w);
          switched = (active \<noteq> None \<and> active \<noteq> active_variant w)
      in w\<lparr>pool := p, active_variant := active,
           jobs := jobs w @ (case active of
             Some fam \<Rightarrow> if switched \<and> keys_of WireProjection p \<noteq> [] then [Project fam] else []
           | None \<Rightarrow> [])\<rparr>)"

definition on_conversation_committed :: "ustring \<Rightarrow> wire_world \<Rightarrow> wire_world" where
  "on_conversation_committed k w =
     (if pool_contains (cache_key k) (pool w) then w\<lparr>jobs := jobs w @ [Mirror k]\<rparr> else w)"

definition warm_take :: "stored_conversation option \<Rightarrow> wire_world \<Rightarrow> wire_world" where
  "warm_take stored w =
     (case jobs w of
        [] \<Rightarrow> w
      | Mirror k # js \<Rightarrow>
          w\<lparr>jobs := js, todo := (case stored of
             Some c \<Rightarrow> [\<lparr>warm_key = k, warm_stored = Some c, warm_active = active_variant w\<rparr>] | None \<Rightarrow> [])\<rparr>
      | Project fam # js \<Rightarrow>
          w\<lparr>jobs := js, todo := map (\<lambda>k. \<lparr>warm_key = snd k, warm_stored = None, warm_active = Some fam\<rparr>)
             (keys_of WireProjection (pool w))\<rparr>)"

definition warm_compute :: "wire_host \<Rightarrow> wire_world \<Rightarrow> wire_world" where
  "warm_compute h w =
     (case todo w of
        [] \<Rightarrow> w
      | t # ts \<Rightarrow>
          w\<lparr>todo := ts,
            computed := (case as_entry (pool_peek (cache_key (warm_key t)) (pool w)) of
               None \<Rightarrow> None
             | Some (n, e) \<Rightarrow> map_option (\<lambda>e'. (warm_key t, n, e')) (warmed_entry h e (warm_stored t) (warm_active t)))\<rparr>)"

definition warm_check :: "wire_world \<Rightarrow> wire_world" where
  "warm_check w =
     (case computed w of
        None \<Rightarrow> w
      | Some (k, n, e) \<Rightarrow>
          w\<lparr>computed := None,
            installing := (if map_option fst (as_entry (pool_peek (cache_key k) (pool w))) = Some n
                           then Some (Replace k e) else None)\<rparr>)"

text \<open>
  Which thread may move: the lock guards \<open>StoreMerge\<close> and \<open>WarmCheck\<close>; the warmer does one thing after another, and
  takes a job when the one before is done.
\<close>

fun world_step :: "wire_host \<Rightarrow> wire_world \<Rightarrow> wire_event \<Rightarrow> wire_world" where
  "world_step h w (Begin c cacheable fam items) =
     (let (s, p) = begin_session h (if cacheable then Some c else None) fam items (replay_of h c) (pool w)
      in w\<lparr>pool := p, sessions := sessions w @ [(s, items)]\<rparr>)"
| "world_step h w (Grow j items) = (if j < length (sessions w) then grow h j items w else w)"
| "world_step h w (StoreMerge j items) =
     (if j < length (sessions w) \<and> installing w = None then store_merge h j items w else w)"
| "world_step h w Install = install_entry h w"
| "world_step h w (DocumentCommitted live active) = on_document_committed live active w"
| "world_step h w (ConversationCommitted k) = on_conversation_committed k w"
| "world_step h w (WarmTake stored) = (if todo w = [] \<and> computed w = None then warm_take stored w else w)"
| "world_step h w WarmCompute = (if computed w = None then warm_compute h w else w)"
| "world_step h w WarmCheck = (if installing w = None then warm_check w else w)"
| "world_step h w (PoolUse op) = (if foreign op then w\<lparr>pool := pool_op_step (pool_cap h) (pool w) op\<rparr> else w)"

end
