(* ===== verification/WireCacheProps.thy ===== *)
theory WireCacheProps
  imports WireCache
begin

text \<open>
  What the cached projection is worth: in every run of the process each session sends the projection of its whole
  timeline, whatever was stored, warmed, unloaded or edited meanwhile; and what that rests on.
\<close>

section \<open>Prefixes\<close>

text \<open>The segments are the projection of the first \<open>n\<close> cards, and the fold may be taken up there.\<close>

definition mirrors :: "wire_host \<Rightarrow> replay \<Rightarrow> family \<Rightarrow> wire_segment list \<Rightarrow> nat \<Rightarrow> context_item list \<Rightarrow> bool" where
  "mirrors h rp fam segs n items \<longleftrightarrow>
     n \<le> length items \<and> is_quiescent (fst (fold_items rp (take n items) (fresh_fold, []))) \<and>
     base_messages segs = project_blocks (sha h) fam (snd (fold_items rp (take n items) (fresh_fold, [])))"

lemma mirrors_none: "mirrors h rp fam [] 0 items"
  by (simp add: mirrors_def fold_items_def is_quiescent_def fresh_fold_def base_messages_def project_blocks_def)

lemma common_prefix_take: "n \<le> common_prefix_len xs ys \<Longrightarrow> take n xs = take n ys \<and> n \<le> length xs \<and> n \<le> length ys"
proof (induction xs ys arbitrary: n rule: common_prefix_len.induct)
  case (1 x xs y ys)
  then show ?case by (cases n) (auto split: if_splits)
qed auto

lemma common_prefix_self: "common_prefix_len xs xs = length xs"
  by (induction xs) simp_all

lemma mirrors_shared: "mirrors h rp fam segs n xs \<Longrightarrow> n \<le> common_prefix_len xs ys \<Longrightarrow> mirrors h rp fam segs n ys"
  by (auto simp: mirrors_def dest: common_prefix_take)

lemma project_blocks_append: "project_blocks d fam (xs @ ys) = project_blocks d fam xs @ project_blocks d fam ys"
  by (simp add: project_blocks_def)

section \<open>Sessions\<close>

definition session_ok :: "wire_host \<Rightarrow> replay \<Rightarrow> wire_session \<Rightarrow> context_item list \<Rightarrow> bool" where
  "session_ok h rp s items \<longleftrightarrow>
     session_replay s = rp \<and> synced s = length items \<and>
     open_fold s = fst (fold_items rp items (fresh_fold, [])) \<and>
     base_messages (base s) @ tail_messages s = project_blocks (sha h) (variant s) (snd (fold_items rp items (fresh_fold, []))) \<and>
     cut_messages s \<le> length (tail_messages s) \<and>
     mirrors h rp (variant s) (left_segments s) (cut_consumed s) items"

lemma base_messages_append: "base_messages (xs @ ys) = base_messages xs @ base_messages ys"
  by (simp add: base_messages_def)

lemma left_messages:
  "base_messages (left_segments s) = base_messages (base s) @ take (cut_messages s) (tail_messages s)"
  by (simp add: left_segments_def base_messages_append) (simp add: base_messages_def)

lemma fold_snoc:
  assumes "fold_items rp items (fresh_fold, []) = (f, bs)" and "push rp x (f, []) = (f', new)"
  shows "fold_items rp (items @ [x]) (fresh_fold, []) = (f', bs @ new)"
  using assms appendsD [OF appends_push, of rp x f bs "[]"] by (simp add: fold_items_def)

lemma sync_item_ok:
  assumes ok: "session_ok h rp s items"
  shows "session_ok h rp (sync_item h s x) (items @ [x]) \<and> key (sync_item h s x) = key s \<and> variant (sync_item h s x) = variant s"
proof -
  obtain f bs where fb: "fold_items rp items (fresh_fold, []) = (f, bs)" by fastforce
  obtain f' new where p: "push rp x (f, []) = (f', new)" by fastforce
  note after = fold_snoc [OF fb p]
  have s: "session_replay s = rp" "synced s = length items" "open_fold s = f"
      "base_messages (base s) @ tail_messages s = project_blocks (sha h) (variant s) bs"
      "cut_messages s \<le> length (tail_messages s)" "mirrors h rp (variant s) (left_segments s) (cut_consumed s) items"
    using ok fb by (simp_all add: session_ok_def)
  let ?t = "sync_item h s x"
  have t: "session_replay ?t = rp" "synced ?t = length items + 1" "open_fold ?t = f'" "variant ?t = variant s" "key ?t = key s"
      "base ?t = base s" "tail_messages ?t = tail_messages s @ project_blocks (sha h) (variant s) new"
    using s p by (simp_all add: sync_item_def Let_def)
  have whole: "base_messages (base ?t) @ tail_messages ?t = project_blocks (sha h) (variant s) (bs @ new)"
    using s(4) by (simp add: t project_blocks_append append_assoc [symmetric] del: append_assoc)
  have "cut_messages ?t \<le> length (tail_messages ?t) \<and> mirrors h rp (variant s) (left_segments ?t) (cut_consumed ?t) (items @ [x])"
  proof (cases "is_quiescent f'")
    case True
    then have "cut_consumed ?t = length items + 1" "cut_messages ?t = length (tail_messages ?t)"
      using s p by (simp_all add: sync_item_def Let_def)
    then show ?thesis using True whole by (simp add: mirrors_def left_messages after)
  next
    case False
    then have c: "cut_consumed ?t = cut_consumed s" "cut_messages ?t = cut_messages s"
      using s p by (simp_all add: sync_item_def Let_def)
    have "base_messages (left_segments ?t) = base_messages (left_segments s)" using s(5) by (simp add: left_messages t c)
    moreover have "cut_consumed s \<le> length items" using s(6) by (simp add: mirrors_def)
    ultimately show ?thesis using s(5,6) by (simp add: mirrors_def c t)
  qed
  then show ?thesis using t whole after by (simp add: session_ok_def)
qed

lemma foldl_sync_ok:
  "session_ok h rp s items \<Longrightarrow> session_ok h rp (foldl (sync_item h) s later) (items @ later) \<and>
     key (foldl (sync_item h) s later) = key s \<and> variant (foldl (sync_item h) s later) = variant s"
proof (induction later arbitrary: s items)
  case (Cons x later)
  from Cons.IH [of "sync_item h s x" "items @ [x]"] sync_item_ok [OF Cons.prems, of x] show ?case by simp
qed simp

lemma sync_ok:
  assumes "session_ok h rp s items"
  shows "session_ok h rp (sync h s (items @ later)) (items @ later)" and "key (sync h s (items @ later)) = key s"
    and "variant (sync h s (items @ later)) = variant s"
proof -
  have "sync h s (items @ later) = foldl (sync_item h) s later" using assms by (simp add: sync_def session_ok_def)
  with foldl_sync_ok [OF assms, of later]
  show "session_ok h rp (sync h s (items @ later)) (items @ later)" "key (sync h s (items @ later)) = key s"
    "variant (sync h s (items @ later)) = variant s" by simp_all
qed

text \<open>A new session over a prefix that mirrors its timeline.\<close>

lemma new_session_ok:
  assumes "mirrors h rp fam segs n items"
  shows "session_ok h rp (sync h (new_session k fam segs n rp) items) items"
    and "key (sync h (new_session k fam segs n rp) items) = k" and "variant (sync h (new_session k fam segs n rp) items) = fam"
proof -
  let ?s = "new_session k fam segs n rp"
  have n: "length (take n items) = n" using assms by (simp add: mirrors_def)
  have "settled (fold_items rp (take n items) (fresh_fold, []))" by (rule settled_fold) (simp add: settled_def)
  then have "fst (fold_items rp (take n items) (fresh_fold, [])) = fresh_fold"
    using assms by (simp add: settled_def mirrors_def)
  moreover have "left_segments ?s = segs" by (simp add: left_segments_def new_session_def)
  ultimately have ok: "session_ok h rp ?s (take n items)"
    using assms n by (simp add: session_ok_def mirrors_def new_session_def)
  from sync_ok [OF ok, of "drop n items"]
  show "session_ok h rp (sync h ?s items) items" "key (sync h ?s items) = k" "variant (sync h ?s items) = fam"
    by (simp_all add: new_session_def)
qed

lemma assemble_ok:
  assumes "session_ok h rp s items"
  shows "assemble h s = project_messages (sha h) (variant s) rp items"
proof -
  obtain f bs where fb: "fold_items rp items (fresh_fold, []) = (f, bs)" by fastforce
  have "canonical_history rp items = bs @ snd (flush (f, []))"
    using appendsD [OF appends_flush, of f bs "[]"] fb by (simp add: canonical_history_def del: flush.simps)
  then show ?thesis
    using assms fb
    by (simp add: assemble_def session_ok_def project_messages_def project_blocks_append append_assoc [symmetric]
        del: append_assoc flush.simps)
qed

section \<open>Entries\<close>

definition entry_ok :: "wire_host \<Rightarrow> ustring \<Rightarrow> cache_entry \<Rightarrow> bool" where
  "entry_ok h c e \<longleftrightarrow>
     entry_replay e = replay_of h c \<and>
     (\<forall>(fam, p) \<in> set (wire e). mirrors h (replay_of h c) fam (segments p) (consumed p) (contexts e))"

lemma usable_prefix_ok:
  assumes "entry_ok h c e" and "usable_prefix e fam items = (segs, n)"
  shows "mirrors h (replay_of h c) fam segs n items"
  using assms
  by (auto simp: usable_prefix_def entry_ok_def mirrors_none dest!: map_of_SomeD
      intro: mirrors_shared split: option.splits if_splits)

lemma left_prefix_ok:
  "session_ok h rp s items \<Longrightarrow> mirrors h rp (variant s) (segments (left_prefix s)) (consumed (left_prefix s)) items"
  by (simp add: left_prefix_def session_ok_def)

lemma stored_entry_ok:
  assumes s: "session_ok h (replay_of h c) s items" and previous: "\<And>e. previous = Some e \<Longrightarrow> entry_ok h c e"
  shows "entry_ok h c (stored_entry h s (items @ later) previous)"
proof -
  let ?s = "sync h s (items @ later)"
  have ok: "session_ok h (replay_of h c) ?s (items @ later)" by (rule sync_ok [OF s])
  have "mirrors h (replay_of h c) fam (segments p) (consumed p) (items @ later)"
    if "previous = Some e" "(fam, p) \<in> set (wire e)" "consumed p \<le> common_prefix_len (contexts e) (items @ later)" for e fam p
    using previous [OF that(1)] that(2,3) by (auto simp: entry_ok_def intro: mirrors_shared)
  then show ?thesis
    using left_prefix_ok [OF ok] ok set_al_del_subset
    by (fastforce simp: entry_ok_def stored_entry_def Let_def al_put_def session_ok_def split: option.splits)
qed

lemma best_shared: "best_timeline e stored = (best, shared) \<Longrightarrow> shared = common_prefix_len (contexts e) best"
proof (cases stored)
  case None
  then show "best_timeline e stored = (best, shared) \<Longrightarrow> ?thesis" by (auto simp: best_timeline_def common_prefix_self)
next
  case (Some c)
  have run: "shared = common_prefix_len (contexts e) best"
    if "foldl (\<lambda>(best, shared) b. let n = common_prefix_len (contexts e) b in
        if n > shared \<or> n = shared \<and> length b > length best then (b, n) else (best, shared)) acc bs = (best, shared)"
      and "snd acc = common_prefix_len (contexts e) (fst acc)" for acc bs
    using that by (induction bs arbitrary: acc) (auto simp: Let_def split: if_splits)
  show "best_timeline e stored = (best, shared) \<Longrightarrow> ?thesis"
    unfolding best_timeline_def Some option.case by (rule run, assumption, simp only: fst_conv snd_conv)
qed

lemma rebuilt_prefix_ok:
  assumes "n \<le> common_prefix_len old items \<Longrightarrow> mirrors h rp fam segs n old"
    and "rebuilt_prefix h rp items (common_prefix_len old items) (fam, segs, n) = Some (fam', p)"
  shows "mirrors h rp fam' (segments p) (consumed p) items"
proof -
  obtain segs' n' where use: "(if n \<le> common_prefix_len old items then (segs, n) else ([], 0)) = (segs', n')" by fastforce
  have "mirrors h rp fam segs' n' items"
    using assms(1) use by (auto simp: mirrors_none intro: mirrors_shared split: if_splits)
  note new = new_session_ok [OF this, of None]
  have "mirrors h rp fam (segments (left_prefix (sync h (new_session None fam segs' n' rp) items)))
      (consumed (left_prefix (sync h (new_session None fam segs' n' rp) items))) items"
    using left_prefix_ok [OF new(1)] by (simp only: new(3))
  moreover have "fam' = fam \<and> p = left_prefix (sync h (new_session None fam segs' n' rp) items)"
    using assms(2) use by (auto simp: rebuilt_prefix_def Let_def split: if_splits)
  ultimately show ?thesis by simp
qed

lemma in_map_filter: "y \<in> set (List.map_filter f xs) \<Longrightarrow> \<exists>x \<in> set xs. f x = Some y"
  by (induction xs) (auto simp: List.map_filter_def split: if_splits)

lemma warmed_entry_ok:
  assumes e: "entry_ok h c e" and w: "warmed_entry h e stored active = Some e'"
  shows "entry_ok h c e'"
proof -
  obtain best shared where b: "best_timeline e stored = (best, shared)" by fastforce
  let ?identical = "shared = length (contexts e) \<and> length best = length (contexts e)"
  let ?items = "if ?identical then contexts e else best"
  have shared: "shared = common_prefix_len (contexts e) ?items"
    using best_shared [OF b] by (auto simp: common_prefix_self)
  let ?missing = "case active of Some fam \<Rightarrow> if map_of (wire e) fam = None then [(fam, [], 0)] else [] | None \<Rightarrow> []"
  define xs where "xs = map (\<lambda>(fam, p). (fam, segments p, consumed p)) (wire e) @ ?missing"
  have e': "e' = \<lparr>contexts = ?items, wire = List.map_filter (rebuilt_prefix h (entry_replay e) ?items shared) xs,
      entry_replay = entry_replay e\<rparr>"
    using w b by (auto simp: warmed_entry_def Let_def xs_def split: if_splits)
  have src: "mirrors h (replay_of h c) fam segs n (contexts e)" if "(fam, segs, n) \<in> set xs" for fam segs n
    using that e unfolding xs_def by (auto simp: entry_ok_def mirrors_none split: option.splits if_splits)
  have "mirrors h (replay_of h c) fam (segments p) (consumed p) ?items"
    if "(fam, p) \<in> set (wire e')" for fam p
  proof -
    have "(fam, p) \<in> set (List.map_filter (rebuilt_prefix h (entry_replay e) ?items shared) xs)"
      using that unfolding e' by simp
    from in_map_filter [OF this] obtain x where "x \<in> set xs" "rebuilt_prefix h (entry_replay e) ?items shared x = Some (fam, p)"
      by (elim bexE)
    moreover obtain fam0 segs n where "x = (fam0, segs, n)" by (rule prod_cases3)
    ultimately have x: "(fam0, segs, n) \<in> set xs"
        "rebuilt_prefix h (entry_replay e) ?items shared (fam0, segs, n) = Some (fam, p)" by (simp_all only:)
    have rp: "entry_replay e = replay_of h c" using e by (simp add: entry_ok_def)
    show ?thesis
      by (rule rebuilt_prefix_ok [of n "contexts e" ?items h "replay_of h c" fam0 segs])
        (use src [OF x(1)] x(2) shared rp in \<open>simp_all\<close>)
  qed
  moreover have "contexts e' = ?items" "entry_replay e' = replay_of h c" using e by (simp_all add: e' entry_ok_def)
  ultimately show ?thesis unfolding entry_ok_def by auto
qed

section \<open>The process\<close>

definition pooled_ok :: "wire_host \<Rightarrow> pool_key \<Rightarrow> pooled \<Rightarrow> bool" where
  "pooled_ok h k v \<longleftrightarrow> (\<forall>c n e. k = cache_key c \<longrightarrow> v = Entry n e \<longrightarrow> entry_ok h c e)"

fun install_ok :: "wire_host \<Rightarrow> install \<Rightarrow> bool" where
  "install_ok h (Insert k e) \<longleftrightarrow> entry_ok h k e"
| "install_ok h (Replace k e) \<longleftrightarrow> entry_ok h k e"

definition running_ok :: "wire_host \<Rightarrow> wire_session \<times> context_item list \<Rightarrow> bool" where
  "running_ok h x \<longleftrightarrow> (\<exists>c. session_ok h (replay_of h c) (fst x) (snd x) \<and> key (fst x) \<in> {None, Some c})"

definition wire_ok :: "wire_host \<Rightarrow> wire_world \<Rightarrow> bool" where
  "wire_ok h w \<longleftrightarrow>
     pooled.all_held (pooled_ok h) (pool w) \<and> list_all (running_ok h) (sessions w) \<and>
     pred_option (install_ok h) (installing w) \<and> pred_option (\<lambda>(k, n, e). entry_ok h k e) (computed w)"

lemma held_entry:
  assumes "wire_ok h w" and "as_entry (pool_peek (cache_key c) (pool w)) = Some (n, e)"
  shows "entry_ok h c e"
proof -
  have "pool_peek (cache_key c) (pool w) = Some (Entry n e)"
    using assms(2) by (cases "pool_peek (cache_key c) (pool w)" rule: as_entry.cases) auto
  with assms(1) show ?thesis using pooled.all_heldD by (fastforce simp: wire_ok_def pooled_ok_def)
qed

lemma pool_use_ok:
  assumes "wire_ok h w" and "\<And>k v. op_gives op = Some (k, v) \<Longrightarrow> pooled_ok h k v"
  shows "pooled.all_held (pooled_ok h) (pool_op_step cap (pool w) op)"
  using assms by (intro pooled.all_held_act) (simp_all add: wire_ok_def)

lemma get_peek: "fst (pool_get k p) = pool_peek k p"
  by (simp add: pool_get_def touch_def pool_peek_def split: option.split)

lemma begin_ok:
  assumes w: "wire_ok h w" and b: "begin_session h (if cacheable then Some c else None) fam items (replay_of h c) (pool w) = (s, p)"
  shows "running_ok h (s, items) \<and> pooled.all_held (pooled_ok h) p"
proof (cases cacheable)
  case False
  then have "s = sync h (new_session None fam [] 0 (replay_of h c)) items" "p = pool w"
    using b by (simp_all add: begin_session_def)
  moreover have "mirrors h (replay_of h c) fam [] 0 items" by (rule mirrors_none)
  note new_session_ok [OF this, of None]
  ultimately show ?thesis using w by (auto simp: running_ok_def wire_ok_def)
next
  case True
  let ?v = "as_entry (pool_peek (cache_key c) (pool w))"
  obtain segs n where use: "(case ?v of Some (_, e) \<Rightarrow> usable_prefix e fam items | None \<Rightarrow> ([], 0)) = (segs, n)" by fastforce
  have s: "s = sync h (new_session (Some c) fam segs n (replay_of h c)) items" "p = snd (pool_get (cache_key c) (pool w))"
    using b True use by (simp_all add: begin_session_def split_beta get_peek Let_def)
  have "mirrors h (replay_of h c) fam segs n items"
  proof (cases ?v)
    case None
    with use show ?thesis by (simp add: mirrors_none)
  next
    case (Some x)
    obtain m e where x: "x = (m, e)" by (cases x)
    with use Some have "usable_prefix e fam items = (segs, n)" by simp
    moreover have "entry_ok h c e" using held_entry [OF w] Some x by simp
    ultimately show ?thesis using usable_prefix_ok by blast
  qed
  from new_session_ok [OF this, of "Some c"] have "running_ok h (s, items)" by (auto simp: running_ok_def s)
  moreover have "pooled.all_held (pooled_ok h) (pool_op_step 0 (pool w) (PoolGet (cache_key c)))"
    by (rule pool_use_ok [OF w]) simp
  ultimately show ?thesis by (simp add: s(2))
qed

lemma grow_ok:
  assumes w: "wire_ok h w" and j: "j < length (sessions w)"
  shows "wire_ok h (grow h j items w)"
proof -
  obtain s timeline where st: "sessions w ! j = (s, timeline)" by fastforce
  have "running_ok h (s, timeline)" using w j st by (auto simp: wire_ok_def list_all_length)
  then obtain c where c: "session_ok h (replay_of h c) s timeline" "key s \<in> {None, Some c}" by (auto simp: running_ok_def)
  have "running_ok h (sync h s (timeline @ items), timeline @ items)"
    using sync_ok [OF c(1), of items] c(2) by (auto simp: running_ok_def)
  with w st show ?thesis
    by (auto simp: wire_ok_def grow_def list_all_iff dest!: set_updateD)
qed

lemma store_merge_ok:
  assumes w: "wire_ok h w" and j: "j < length (sessions w)"
  shows "wire_ok h (store_merge h j items w)"
proof -
  obtain s timeline where st: "sessions w ! j = (s, timeline)" by fastforce
  have "running_ok h (s, timeline)" using w j st by (auto simp: wire_ok_def list_all_length)
  then obtain c where c: "session_ok h (replay_of h c) s timeline" "key s \<in> {None, Some c}" by (auto simp: running_ok_def)
  have rest: "list_all (running_ok h) (take j (sessions w) @ drop (Suc j) (sessions w))"
    using w by (auto simp: wire_ok_def list_all_iff dest: in_set_takeD in_set_dropD)
  show ?thesis
  proof (cases "key s")
    case None
    with w st rest show ?thesis by (simp add: wire_ok_def store_merge_def)
  next
    case (Some k)
    then have k: "k = c" using c(2) by simp
    have "entry_ok h k (stored_entry h s (timeline @ items) (map_option snd (as_entry (pool_peek (cache_key k) (pool w)))))"
      unfolding k by (rule stored_entry_ok [OF c(1)]) (use held_entry [OF w] in auto)
    with w st rest Some show ?thesis by (simp add: wire_ok_def store_merge_def)
  qed
qed

lemma cache_key_inj: "cache_key k = cache_key c \<longleftrightarrow> k = c"
  by (simp add: cache_key_def)

lemma install_entry_ok:
  assumes w: "wire_ok h w"
  shows "wire_ok h (install_entry h w)"
proof (cases "installing w")
  case None
  then show ?thesis using w by (simp add: install_entry_def)
next
  case (Some i)
  have i: "install_ok h i" using w Some by (simp add: wire_ok_def)
  show ?thesis
  proof (cases i)
    case (Insert k e)
    have "pooled.all_held (pooled_ok h)
        (pool_op_step (pool_cap h) (pool w) (PoolInsert (cache_key k) (Entry (stamps w) e) (entry_bytes h e)))"
      by (rule pool_use_ok [OF w]) (use i Insert in \<open>auto simp: pooled_ok_def cache_key_inj\<close>)
    with w Some Insert show ?thesis by (simp add: install_entry_def wire_ok_def)
  next
    case (Replace k e)
    have "pooled.all_held (pooled_ok h)
        (pool_op_step (pool_cap h) (pool w) (PoolReplace (cache_key k) (Entry (stamps w) e) (entry_bytes h e)))"
      by (rule pool_use_ok [OF w]) (use i Replace in \<open>auto simp: pooled_ok_def cache_key_inj\<close>)
    with w Some Replace show ?thesis by (simp add: install_entry_def wire_ok_def)
  qed
qed

lemma committed_ok:
  assumes w: "wire_ok h w"
  shows "wire_ok h (on_document_committed live active w)"
proof -
  have "pooled.all_held (pooled_ok h)
      (pool_op_step 0 (pool w) (PoolRetain (\<lambda>k. fst k \<noteq> WireProjection \<or> snd k \<in> set live)))"
    by (rule pool_use_ok [OF w]) simp
  with w show ?thesis by (simp add: wire_ok_def on_document_committed_def Let_def)
qed

lemma warm_compute_ok:
  assumes w: "wire_ok h w"
  shows "wire_ok h (warm_compute h w)"
proof (cases "todo w")
  case (Cons t ts)
  let ?v = "as_entry (pool_peek (cache_key (warm_key t)) (pool w))"
  have "pred_option (\<lambda>(k, n, e). entry_ok h k e) (computed (warm_compute h w))"
  proof (cases ?v)
    case None
    with Cons show ?thesis by (simp add: warm_compute_def)
  next
    case (Some x)
    obtain n e where x: "x = (n, e)" by (cases x)
    have e: "entry_ok h (warm_key t) e" using held_entry [OF w] Some x by simp
    show ?thesis
    proof (cases "warmed_entry h e (warm_stored t) (warm_active t)")
      case None
      with Cons Some x show ?thesis by (simp add: warm_compute_def)
    next
      case new: (Some e')
      from warmed_entry_ok [OF e new] show ?thesis using Cons Some x new by (simp add: warm_compute_def)
    qed
  qed
  with w Cons show ?thesis by (simp add: wire_ok_def warm_compute_def)
qed (use w in \<open>simp add: warm_compute_def\<close>)

lemma warm_check_ok:
  assumes w: "wire_ok h w" and none: "installing w = None"
  shows "wire_ok h (warm_check w)"
proof (cases "computed w")
  case (Some x)
  obtain k n e where x: "x = (k, n, e)" by (cases x)
  with w Some show ?thesis by (simp add: wire_ok_def warm_check_def)
qed (use w in \<open>simp add: warm_check_def\<close>)

lemma foreign_ok:
  assumes w: "wire_ok h w" and f: "foreign op"
  shows "wire_ok h (w\<lparr>pool := pool_op_step (pool_cap h) (pool w) op\<rparr>)"
proof -
  have "pooled.all_held (pooled_ok h) (pool_op_step (pool_cap h) (pool w) op)"
    by (rule pool_use_ok [OF w]) (use f in \<open>cases op; auto simp: pooled_ok_def cache_key_def foreign_def\<close>)
  with w show ?thesis by (simp add: wire_ok_def)
qed

lemma world_step_ok:
  assumes w: "wire_ok h w"
  shows "wire_ok h (world_step h w e)"
proof (cases e)
  case (Begin c cacheable fam items)
  obtain s p where b: "begin_session h (if cacheable then Some c else None) fam items (replay_of h c) (pool w) = (s, p)"
    by fastforce
  with begin_ok [OF w b] w show ?thesis by (simp add: Begin wire_ok_def)
next
  case (WarmTake stored)
  then show ?thesis using w by (simp add: warm_take_def wire_ok_def split: list.split warm_job.split)
qed (use w in \<open>simp_all add: grow_ok store_merge_ok install_entry_ok committed_ok warm_compute_ok warm_check_ok foreign_ok
  on_conversation_committed_def, simp_all add: wire_ok_def\<close>)

interpretation wire_process: total_machine "\<lambda>w. w = world_new" "world_step h" "wire_ok h" for h
proof
  fix s assume "s = world_new"
  then show "wire_ok h s"
    by (simp add: world_new_def wire_ok_def empty_pool_def pooled.all_held_def pool_peek_def)
qed (rule world_step_ok)

text \<open>
  Claim C30. What a session sends is the projection of its whole timeline: in every run of the process, whatever was
  stored, warmed, unloaded, pruned or edited before and between, with the one answer the history gives for a
  conversation. The cache changes the work, not the messages.
\<close>

theorem assembled_is_the_full_projection:
  assumes "(s, items) \<in> set (sessions (foldl (world_step h) world_new es))"
  shows "\<exists>c. key s \<in> {None, Some c} \<and> session_replay s = replay_of h c \<and>
    assemble h s = project_messages (sha h) (variant s) (replay_of h c) items"
proof -
  have "wire_ok h (foldl (world_step h) world_new es)" by (rule wire_process.foldl_inv) simp
  then have "running_ok h (s, items)" using assms by (auto simp: wire_ok_def list_all_iff)
  then show ?thesis using assemble_ok by (fastforce simp: running_ok_def session_ok_def)
qed

text \<open>A session that has just begun is there, with its family and its timeline.\<close>

lemma foldl_sync_frame:
  "variant (foldl (sync_item h) s xs) = variant s \<and> key (foldl (sync_item h) s xs) = key s \<and>
   session_replay (foldl (sync_item h) s xs) = session_replay s"
  by (induction xs arbitrary: s) (simp_all add: sync_item_def Let_def split_beta)

lemma begun:
  "\<exists>s. sessions (world_step h w (Begin c True fam items)) = sessions w @ [(s, items)] \<and> variant s = fam \<and> key s = Some c \<and>
     session_replay s = replay_of h c"
  by (simp add: begin_session_def split_beta Let_def sync_def foldl_sync_frame new_session_def)

definition sample_host :: wire_host where
  "sample_host = \<lparr>sha = \<lambda>bs. replicate 32 0, message_bytes = \<lambda>_. 0, timeline_bytes = \<lambda>_. 0, pool_cap = 10, replay_of = \<lambda>_. None\<rparr>"

definition asking :: "nat \<Rightarrow> context_item" where
  "asking n = UserItem [n] [n] [] [] JNull"

theorem assembled_is_the_full_projection_witness:
  "(let w = foldl (world_step sample_host) world_new
      [Begin [1] True Anthropic [asking 1], StoreMerge 0 [], Install, Begin [1] True Anthropic [asking 1, asking 2]]
    in \<exists>s. (s, [asking 1, asking 2]) \<in> set (sessions w) \<and>
         assemble sample_host s = project_messages (sha sample_host) Anthropic None [asking 1, asking 2])"
proof -
  let ?es = "[Begin [1] True Anthropic [asking 1], StoreMerge 0 [], Install]"
  let ?b = "Begin [1] True Anthropic [asking 1, asking 2]"
  obtain s where s: "(s, [asking 1, asking 2]) \<in> set (sessions (foldl (world_step sample_host) world_new (?es @ [?b])))"
      "variant s = Anthropic" "key s = Some [1]"
    using begun [of sample_host "foldl (world_step sample_host) world_new ?es" "[1]" Anthropic "[asking 1, asking 2]"]
    unfolding foldl_append foldl.simps by fastforce
  from assembled_is_the_full_projection [OF s(1)] s(2,3)
  have "assemble sample_host s = project_messages (sha sample_host) Anthropic None [asking 1, asking 2]"
    by (auto simp: sample_host_def)
  with s(1) show ?thesis unfolding Let_def append_Cons append_Nil by blast
qed

end
