(* ===== verification/WireRuns.thy ===== *)
theory WireRuns
  imports WireCacheProps
begin


section \<open>What a quiet end leaves\<close>




section \<open>The run\<close>












end
