(* ===== verification/ShellLex.thy ===== *)
theory ShellLex
  imports TextEdit
begin

text \<open>
  The scanners of the shell analysis (\<^verbatim>\<open>src/security.rs\<close>): splitting a command into subcommands and those into words,
  redirections and background operators. Each scans characters with a quote state and an escape flag, as the code does.
\<close>

section \<open>String methods\<close>

definition is_lit :: "ustring \<Rightarrow> string list \<Rightarrow> bool" where
  "is_lit s xs \<longleftrightarrow> list_ex (\<lambda>x. s = lit x) xs"

fun contains :: "ustring \<Rightarrow> ustring \<Rightarrow> bool" where
  "contains p [] = (p = [])"
| "contains p (c # s) = (starts_with p (c # s) \<or> contains p s)"

definition ascii_lower :: "ustring \<Rightarrow> ustring" where
  "ascii_lower s = map (\<lambda>c. if 65 \<le> c \<and> c \<le> 90 then c + 32 else c) s"

definition eq_ignore_case :: "ustring \<Rightarrow> string \<Rightarrow> bool" where
  "eq_ignore_case s t \<longleftrightarrow> ascii_lower s = ascii_lower (lit t)"

definition split_once :: "nat \<Rightarrow> ustring \<Rightarrow> (ustring \<times> ustring) option" where
  "split_once c s =
     (if c \<in> set s then Some (takeWhile (\<lambda>x. x \<noteq> c) s, tl (dropWhile (\<lambda>x. x \<noteq> c) s)) else None)"

definition trim_matches :: "(nat \<Rightarrow> bool) \<Rightarrow> ustring \<Rightarrow> ustring" where
  "trim_matches P s = rev (dropWhile P (rev (dropWhile P s)))"

definition without :: "nat list \<Rightarrow> ustring \<Rightarrow> ustring" where
  "without cs s = filter (\<lambda>c. c \<notin> set cs) s"

section \<open>Quotes and escapes\<close>

datatype shell_kind = Bash | PowerShell

text \<open>A backslash or a backtick; 39 and 34 are the quotes.\<close>

fun escape_char :: "shell_kind \<Rightarrow> nat" where
  "escape_char Bash = 92"
| "escape_char PowerShell = 96"

abbreviation "SQ \<equiv> (39 :: nat)"
abbreviation "DQ \<equiv> (34 :: nat)"

section \<open>Background and call operators\<close>

fun background_go :: "shell_kind \<Rightarrow> nat option \<Rightarrow> nat option \<Rightarrow> bool \<Rightarrow> ustring \<Rightarrow> bool" where
  "background_go k prev quo esc [] = False"
| "background_go k prev quo esc (c # s) =
     (if esc then background_go k (Some c) quo False s
      else if quo = Some SQ then background_go k (Some c) (if c = SQ then None else quo) False s
      else if quo = Some DQ then background_go k (Some c) (if c = DQ then None else quo) (c \<noteq> DQ \<and> c = escape_char k) s
      else if c = SQ \<or> c = DQ then background_go k (Some c) (Some c) False s
      else if c = escape_char k then background_go k (Some c) None True s
      else if c = 38 \<and> prev \<noteq> Some 38 \<and> (case s of x # _ \<Rightarrow> x \<noteq> 38 | [] \<Rightarrow> True) then True
      else background_go k (Some c) None False s)"

definition has_background_or_call_operator :: "shell_kind \<Rightarrow> ustring \<Rightarrow> bool" where
  "has_background_or_call_operator k s = background_go k None None False s"

section \<open>Subcommands\<close>

datatype split_error = Unmatched | Unclosed

definition push_shell_segment :: "ustring list \<Rightarrow> ustring \<Rightarrow> ustring list" where
  "push_shell_segment segs cur = (if trim cur = [] then segs else segs @ [trim cur])"

fun split_go ::
  "shell_kind \<Rightarrow> nat option \<Rightarrow> bool \<Rightarrow> nat \<Rightarrow> ustring \<Rightarrow> ustring list \<Rightarrow> ustring \<Rightarrow> split_error + ustring list" where
  "split_go k quo esc depth cur segs [] =
     (if quo \<noteq> None \<or> esc \<or> depth \<noteq> 0 then Inl Unclosed else Inr (push_shell_segment segs cur))"
| "split_go k quo esc depth cur segs (c # s) =
     (if esc then split_go k quo False depth (cur @ [c]) segs s
      else if quo = Some SQ then split_go k (if c = SQ then None else quo) False depth (cur @ [c]) segs s
      else if quo = Some DQ
      then split_go k (if c = DQ then None else quo) (c \<noteq> DQ \<and> c = escape_char k) depth (cur @ [c]) segs s
      else if c = SQ \<or> c = DQ then split_go k (Some c) False depth (cur @ [c]) segs s
      else if c = escape_char k then split_go k None True depth (cur @ [c]) segs s
      else if c \<in> set [40, 91, 123] then split_go k None False (depth + 1) (cur @ [c]) segs s
      else if c \<in> set [41, 93, 125]
      then (if depth = 0 then Inl Unmatched else split_go k None False (depth - 1) (cur @ [c]) segs s)
      else if c = 13 then split_go k None False depth cur segs s
      else if (c = 10 \<or> c = 59) \<and> depth = 0 then split_go k None False 0 [] (push_shell_segment segs cur) s
      else if (c = 38 \<or> c = 124) \<and> depth = 0
      then (case s of
              x # s' \<Rightarrow> if x = c \<or> c = 124 \<and> x = 38 then split_go k None False 0 [] (push_shell_segment segs cur) s'
                       else split_go k None False 0 [] (push_shell_segment segs cur) s
            | [] \<Rightarrow> split_go k None False 0 [] (push_shell_segment segs cur) [])
      else split_go k None False depth (cur @ [c]) segs s)"

definition split_shell_segments :: "shell_kind \<Rightarrow> ustring \<Rightarrow> split_error + ustring list" where
  "split_shell_segments k s = split_go k None False 0 [] [] s"

section \<open>Words\<close>

fun tokenize_go ::
  "shell_kind \<Rightarrow> nat option \<Rightarrow> bool \<Rightarrow> ustring \<Rightarrow> ustring list \<Rightarrow> ustring \<Rightarrow> split_error + ustring list" where
  "tokenize_go k quo esc cur toks [] =
     (if quo \<noteq> None \<or> esc then Inl Unclosed else Inr (if cur = [] then toks else toks @ [cur]))"
| "tokenize_go k quo esc cur toks (c # s) =
     (if esc then tokenize_go k quo False (cur @ [c]) toks s
      else if quo = Some SQ
      then (if c = SQ then tokenize_go k None False cur toks s else tokenize_go k quo False (cur @ [c]) toks s)
      else if quo = Some DQ
      then (if c = DQ then tokenize_go k None False cur toks s
            else if c = escape_char k then tokenize_go k quo True cur toks s
            else tokenize_go k quo False (cur @ [c]) toks s)
      else if c = SQ \<or> c = DQ then tokenize_go k (Some c) False cur toks s
      else if c = escape_char k then tokenize_go k None True cur toks s
      else if c = 35 \<and> cur = [] then Inr toks
      else if white_space c then tokenize_go k None False [] (if cur = [] then toks else toks @ [cur]) s
      else tokenize_go k None False (cur @ [c]) toks s)"

definition tokenize_shell_segment :: "shell_kind \<Rightarrow> ustring \<Rightarrow> split_error + ustring list" where
  "tokenize_shell_segment k s = tokenize_go k None False [] [] s"

section \<open>Redirections\<close>

definition bare_target_char :: "nat \<Rightarrow> bool" where
  "bare_target_char c \<longleftrightarrow> \<not> white_space c \<and> c \<notin> set [59, 124, 38, 60, 62]"

fun discards :: "shell_kind \<Rightarrow> ustring \<Rightarrow> bool" where
  "discards Bash target = (target = lit ''/dev/null'')"
| "discards PowerShell target = eq_ignore_case target ''$null''"

text \<open>
  The target of a redirection and what is scanned next: after a quoted target the scan goes on at its closing quote.
  None is a quote that is not closed.
\<close>

definition redirection_target :: "ustring \<Rightarrow> (ustring \<times> ustring) option" where
  "redirection_target s =
     (let s = (case s of c # t \<Rightarrow> if c = 62 then t else s | [] \<Rightarrow> s);
          s = dropWhile white_space s
      in case s of
           c # t \<Rightarrow>
             if c = SQ \<or> c = DQ
             then (if c \<in> set t then Some (takeWhile (\<lambda>x. x \<noteq> c) t, dropWhile (\<lambda>x. x \<noteq> c) t) else None)
             else Some (takeWhile bare_target_char s, dropWhile bare_target_char s)
         | [] \<Rightarrow> Some ([], []))"

lemma redirection_shorter:
  assumes "redirection_target s = Some (target, rest)"
  shows "length rest \<le> length s"
proof -
  define s1 where "s1 = (case s of c # t \<Rightarrow> if c = 62 then t else s | [] \<Rightarrow> s)"
  define s2 where "s2 = dropWhile white_space s1"
  have "length s1 \<le> length s" by (simp add: s1_def split: list.split)
  moreover have "length s2 \<le> length s1" unfolding s2_def by (rule length_dropWhile_le)
  moreover have "length rest \<le> length s2"
  proof (cases s2)
    case Nil
    with assms show ?thesis by (simp add: redirection_target_def s1_def [symmetric] s2_def [symmetric])
  next
    case (Cons c t)
    have "rest = dropWhile (\<lambda>x. x \<noteq> c) t \<or> rest = dropWhile bare_target_char s2"
      using assms Cons by (auto simp: redirection_target_def Let_def s1_def [symmetric] s2_def [symmetric] split: if_splits)
    then show ?thesis
    proof
      assume "rest = dropWhile (\<lambda>x. x \<noteq> c) t"
      then show ?thesis using length_dropWhile_le [of "\<lambda>x. x \<noteq> c" t] Cons by simp
    next
      assume "rest = dropWhile bare_target_char s2"
      then show ?thesis using length_dropWhile_le [of bare_target_char s2] by simp
    qed
  qed
  ultimately show ?thesis by linarith
qed

function redirection_go :: "shell_kind \<Rightarrow> nat option \<Rightarrow> bool \<Rightarrow> ustring \<Rightarrow> bool" where
  "redirection_go k quo esc [] = False"
| "redirection_go k quo esc (c # s) =
     (if esc then redirection_go k quo False s
      else if quo = Some SQ then redirection_go k (if c = SQ then None else quo) False s
      else if quo = Some DQ then redirection_go k (if c = DQ then None else quo) (c \<noteq> DQ \<and> c = escape_char k) s
      else if c = SQ \<or> c = DQ then redirection_go k (Some c) False s
      else if c = escape_char k then redirection_go k None True s
      else if c = 60 then True
      else if c = 62
      then (case redirection_target s of
              None \<Rightarrow> True
            | Some (target, rest) \<Rightarrow> \<not> discards k target \<or> redirection_go k None False rest)
      else redirection_go k None False s)"
  by pat_completeness auto
termination
  by (relation "measure (\<lambda>(k, quo, esc, s). length s)") (auto simp: less_Suc_eq_le dest: redirection_shorter)

definition contains_unsafe_redirection :: "shell_kind \<Rightarrow> ustring \<Rightarrow> bool" where
  "contains_unsafe_redirection k s = redirection_go k None False s"

end
