(* ===== verification/Risk.thy ===== *)
theory Risk
  imports Main
begin

text \<open>
  The risk of a call (\<open>RiskLevel\<close> of \<^verbatim>\<open>src/security.rs\<close>) and its derived order, which the shell analysis and the
  standing allowances share.
\<close>

datatype risk_level = Low | Medium | High

fun risk_rank :: "risk_level \<Rightarrow> nat" where
  "risk_rank Low = 0"
| "risk_rank Medium = 1"
| "risk_rank High = 2"

lemma risk_rank_inj: "risk_rank a = risk_rank b \<longleftrightarrow> a = b"
  by (cases a; cases b) simp_all

instantiation risk_level :: linorder
begin

definition less_eq_risk_level :: "risk_level \<Rightarrow> risk_level \<Rightarrow> bool" where
  "less_eq_risk_level a b \<longleftrightarrow> risk_rank a \<le> risk_rank b"

definition less_risk_level :: "risk_level \<Rightarrow> risk_level \<Rightarrow> bool" where
  "less_risk_level a b \<longleftrightarrow> risk_rank a < risk_rank b"

instance
  by intro_classes (auto simp: less_eq_risk_level_def less_risk_level_def risk_rank_inj)

end

end
