(* ===== verification/ShellPolicy.thy ===== *)
theory ShellPolicy
  imports ShellLex Risk
begin

text \<open>
  The static analysis of shell commands (\<^verbatim>\<open>src/security.rs\<close>): how a command is rated before it is shown for approval.
  The file system and the environment are a record of answers; reasons, which are text, are left out, and each branch
  keeps its rule.
\<close>

section \<open>What the host answers\<close>

text \<open>
  \<open>exists_at\<close>: whether the workspace has such a path; \<open>resolves_read\<close> and \<open>resolves_write\<close>: whether
  \<open>resolve_existing_with_scope\<close> and \<open>resolve_for_write_with_scope\<close> take a path within the trusted roots, the latter also
  within the workspace alone; \<open>directory_at\<close> and \<open>root_at\<close>: whether the path resolved is a directory, or a root;
  \<open>search_path\<close>: the entries of \<^verbatim>\<open>PATH\<close>; \<open>http_url\<close>: whether \<open>Url::parse\<close> finds an http address with a host.
\<close>

record shell_host =
  absolute :: "ustring \<Rightarrow> bool"
  exists_at :: "ustring \<Rightarrow> bool"
  resolves_read :: "ustring \<Rightarrow> bool"
  resolves_write :: "ustring \<Rightarrow> bool"
  resolves_in_workspace :: "ustring \<Rightarrow> bool"
  directory_at :: "ustring \<Rightarrow> bool"
  root_at :: "ustring \<Rightarrow> bool"
  search_path :: "ustring list option"
  http_url :: "ustring \<Rightarrow> bool"

section \<open>Ratings\<close>

datatype operation_effect = Read | Write | Unbounded

record assessment =
  effect :: operation_effect
  risk :: risk_level
  rule_id :: string
  mandatory_prompt :: bool

definition read_only :: "string \<Rightarrow> assessment" where
  "read_only r = \<lparr>effect = Read, risk = Low, rule_id = r, mandatory_prompt = False\<rparr>"

definition workspace_write :: "string \<Rightarrow> assessment" where
  "workspace_write r = \<lparr>effect = Write, risk = Medium, rule_id = r, mandatory_prompt = False\<rparr>"

definition unbounded :: "string \<Rightarrow> assessment" where
  "unbounded r = \<lparr>effect = Unbounded, risk = High, rule_id = r, mandatory_prompt = False\<rparr>"

definition circuit_breaker :: "string \<Rightarrow> assessment" where
  "circuit_breaker r = (unbounded r)\<lparr>mandatory_prompt := True\<rparr>"

fun combine_effect :: "operation_effect \<Rightarrow> operation_effect \<Rightarrow> operation_effect" where
  "combine_effect Unbounded _ = Unbounded"
| "combine_effect _ Unbounded = Unbounded"
| "combine_effect Write _ = Write"
| "combine_effect _ Write = Write"
| "combine_effect Read Read = Read"

section \<open>Words\<close>

definition is_dynamic_path_token :: "ustring \<Rightarrow> bool" where
  "is_dynamic_path_token t \<longleftrightarrow>
     starts_with (lit ''$'') t \<or> starts_with (lit ''%'') t \<or> contains (lit ''$env:'') t \<or> contains [36, 123] t \<or>
     contains [36, 40] t \<or> 96 \<in> set t"

definition contains_shell_meta :: "ustring \<Rightarrow> bool" where
  "contains_shell_meta t \<longleftrightarrow> list_ex (\<lambda>c. c \<in> set [42, 63, 91, 93, 123, 125]) t"

definition has_network_path :: "ustring \<Rightarrow> bool" where
  "has_network_path s \<longleftrightarrow> contains [92, 92] s"

definition command_basename :: "ustring \<Rightarrow> ustring" where
  "command_basename s =
     trim_matches (\<lambda>c. c = SQ) (trim_matches (\<lambda>c. c = DQ) (rev (takeWhile (\<lambda>c. c \<noteq> 47 \<and> c \<noteq> 92) (rev s))))"

definition names_a_path :: "ustring \<Rightarrow> bool" where
  "names_a_path t \<longleftrightarrow> 47 \<in> set t \<or> 92 \<in> set t"

definition has_dynamic_shell_expansion :: "shell_kind \<Rightarrow> ustring \<Rightarrow> bool" where
  "has_dynamic_shell_expansion k s \<longleftrightarrow>
     (case k of
        Bash \<Rightarrow> 36 \<in> set s \<or> contains [36, 40] s \<or> 96 \<in> set s \<or> contains [60, 40] s \<or> contains [62, 40] s \<or>
                contains [36, 123, 33] s
      | PowerShell \<Rightarrow> 36 \<in> set s \<or> 96 \<in> set s \<or> 64 \<in> set s \<or> contains (lit ''--%'') s \<or> 40 \<in> set s \<or> 41 \<in> set s \<or>
                44 \<in> set s \<or> contains (lit ''Invoke-Expression'') s \<or> contains (lit ''invoke-expression'') s \<or>
                contains (lit ''iex '') s \<or> starts_with (lit ''& '') (dropWhile white_space s))"

fun index_of :: "ustring \<Rightarrow> ustring \<Rightarrow> nat option" where
  "index_of p [] = (if p = [] then Some 0 else None)"
| "index_of p (c # s) = (if starts_with p (c # s) then Some 0 else map_option Suc (index_of p s))"

text \<open>\<open>find\<close> answers a byte offset; only whether it is 1 is asked, which is the same for the first character.\<close>

definition has_powershell_non_filesystem_provider :: "shell_host \<Rightarrow> ustring \<Rightarrow> bool" where
  "has_powershell_non_filesystem_provider h s \<longleftrightarrow>
     (let low = ascii_lower s in
      list_ex (\<lambda>p. contains (lit p) low)
        [''registry::'', ''certificate::'', ''hklm:'', ''hkcu:'', ''hkcr:'', ''hku:'', ''hkcc:'', ''cert:'', ''env:'',
         ''alias:'', ''function:'', ''variable:'', ''wsman:''] \<or>
      list_ex (\<lambda>w.
        let t = trim_matches (\<lambda>c. c \<in> set [DQ, SQ, 40, 41, 44, 59]) w in
        \<not> http_url h t \<and>
        (case (case index_of [58, 92] t of Some i \<Rightarrow> Some i | None \<Rightarrow> index_of [58, 47] t) of
           Some i \<Rightarrow> byte_len (take i t) \<noteq> 1
         | None \<Rightarrow> False)) (words_by white_space low))"

section \<open>Deletes\<close>

definition looks_like_recursive_delete :: "shell_kind \<Rightarrow> ustring \<Rightarrow> bool" where
  "looks_like_recursive_delete k s \<longleftrightarrow>
     (let ws = words_by (\<lambda>c. white_space c \<or> c \<in> set [59, 124, 38, 40, 41, 123, 125]) (without [DQ, SQ, 96] (ascii_lower s)) in
      (case k of
         Bash \<Rightarrow> list_ex (\<lambda>w. is_lit w [''rm'', ''rmdir'']) ws \<and>
           list_ex (\<lambda>w. w = lit ''--recursive'' \<or>
             starts_with (lit ''-'') w \<and> \<not> starts_with (lit ''--'') w \<and> 114 \<in> set w) ws
       | PowerShell \<Rightarrow> list_ex (\<lambda>w. is_lit w [''remove-item'', ''rm'', ''ri'', ''del'', ''erase'', ''rd'', ''rmdir'']) ws \<and>
           list_ex (\<lambda>w. starts_with (lit ''-recurse'') w \<or> is_lit w [''-r'', ''-rec'', ''-re'']) ws))"

text \<open>A drive's root: a letter, a colon, a slash, and at most a wildcard. The bytes are those of the characters.\<close>

definition drive_root :: "nat list \<Rightarrow> bool" where
  "drive_root b \<longleftrightarrow>
     3 \<le> length b \<and> 97 \<le> b ! 0 \<and> b ! 0 \<le> 122 \<and> b ! 1 = 58 \<and> b ! 2 \<in> set [92, 47] \<and>
     (length b = 3 \<or> length b = 4 \<and> b ! 3 \<in> set [42, 63])"

definition looks_like_critical_delete :: "shell_kind \<Rightarrow> ustring \<Rightarrow> bool" where
  "looks_like_critical_delete k s \<longleftrightarrow>
     looks_like_recursive_delete k s \<and>
     (let low = without [DQ, SQ] (ascii_lower s) in
      case k of
        Bash \<Rightarrow> list_ex (\<lambda>t. contains (lit t) low)
          ['' /'', '' ~'', ''$home'', ''${home}'', ''/home'', ''/users'', ''/etc'', ''/bin'', ''/usr'', ''/var'']
      | PowerShell \<Rightarrow>
          list_ex (\<lambda>w. drive_root (utf8 (trim_matches (\<lambda>c. c \<in> set [DQ, SQ, 44, 59, 40, 41]) w))) (words_by white_space low) \<or>
          contains (lit '' c:'' @ [92]) low \<or> contains (lit '' c:/'') low \<or> contains (lit ''$home'') low \<or>
          contains (lit ''$env:userprofile'') low \<or> contains (92 # lit ''windows'') low \<or>
          contains (92 # lit ''program files'') low)"

section \<open>Paths\<close>

definition path_is_within_trusted_roots :: "(ustring \<Rightarrow> bool) \<Rightarrow> ustring \<Rightarrow> bool" where
  "path_is_within_trusted_roots resolves raw \<longleftrightarrow>
     trim raw \<noteq> [] \<and> \<not> is_dynamic_path_token raw \<and> \<not> contains_shell_meta raw \<and> \<not> has_network_path raw \<and> resolves raw"

definition embedded_path :: "ustring \<Rightarrow> ustring option" where
  "embedded_path t =
     (case split_once 61 t of
        Some (_, v) \<Rightarrow> Some v
      | None \<Rightarrow> if starts_with (lit ''-'') t then map_option snd (split_once 58 (tl t)) else None)"

definition explicitly_path_like :: "shell_host \<Rightarrow> ustring \<Rightarrow> bool" where
  "explicitly_path_like h c \<longleftrightarrow>
     absolute h c \<or> c = lit ''..'' \<or> starts_with (lit ''../'') c \<or> starts_with (lit ''..'' @ [92]) c \<or>
     starts_with (lit ''~/'') c \<or> starts_with (lit ''~'' @ [92]) c"

definition outside_path :: "shell_host \<Rightarrow> ustring \<Rightarrow> bool" where
  "outside_path h t \<longleftrightarrow>
     (if is_dynamic_path_token t \<or> has_network_path t then True
      else let c = (case embedded_path t of Some p \<Rightarrow> p | None \<Rightarrow> t) in
           if explicitly_path_like h c then \<not> path_is_within_trusted_roots (resolves_read h) c
           else exists_at h t \<and> \<not> path_is_within_trusted_roots (resolves_read h) t)"

definition contains_explicit_outside_path :: "shell_host \<Rightarrow> ustring list \<Rightarrow> bool" where
  "contains_explicit_outside_path h ts \<longleftrightarrow> list_ex (outside_path h) (tl ts)"

section \<open>Assignments and wrappers\<close>

definition safe_assignment :: "ustring \<Rightarrow> bool" where
  "safe_assignment t \<longleftrightarrow>
     (case split_once 61 t of
        None \<Rightarrow> False
      | Some (name, v) \<Rightarrow>
          is_lit (ascii_lower name) [''lang'', ''language'', ''lc_all'', ''lc_ctype'', ''lc_messages'', ''tz'', ''no_color'',
            ''force_color'', ''term'', ''colorterm''] \<and> \<not> is_dynamic_path_token v)"

definition strip_safe_environment_assignments :: "ustring list \<Rightarrow> ustring list" where
  "strip_safe_environment_assignments ts = dropWhile safe_assignment ts"

definition is_option :: "ustring \<Rightarrow> bool" where "is_option t \<longleftrightarrow> starts_with (lit ''-'') t"

definition timeout_option_with_value :: "ustring \<Rightarrow> bool" where
  "timeout_option_with_value t \<longleftrightarrow> is_lit t [''-k'', ''--kill-after'', ''-s'', ''--signal'']"

fun drop_timeout_options :: "ustring list \<Rightarrow> ustring list" where
  "drop_timeout_options [] = []"
| "drop_timeout_options (t # ts) =
     (if \<not> is_option t then t # ts
      else if timeout_option_with_value t
      then (case ts of [] \<Rightarrow> [] | _ # ts' \<Rightarrow> drop_timeout_options ts')
      else drop_timeout_options ts)"

lemma drop_timeout_shorter: "length (drop_timeout_options ts) \<le> length ts"
proof (induction ts rule: drop_timeout_options.induct)
  case (2 t ts)
  then show ?case by (cases ts; cases "timeout_option_with_value t") auto
qed simp

lemma drop_timeout_rest: "drop_timeout_options ts = t # rest \<Longrightarrow> length rest < Suc (length ts)"
  using drop_timeout_shorter [of ts] by simp

text \<open>The words after the wrappers; None where \<open>timeout\<close> has no command.\<close>

function strip_wrappers :: "ustring list \<Rightarrow> ustring list option" where
  "strip_wrappers [] = Some []"
| "strip_wrappers (t # ts) =
     (let first = ascii_lower (command_basename t) in
      if first = lit ''command'' \<and> ts \<noteq> [] \<and> hd ts = lit ''-v'' then Some (t # ts)
      else if is_lit first [''command'', ''builtin'', ''noglob'', ''nohup''] then strip_wrappers ts
      else if is_lit first [''time'', ''nice''] then strip_wrappers (dropWhile is_option ts)
      else if first = lit ''timeout''
      then (case drop_timeout_options ts of [] \<Rightarrow> None | _ # rest \<Rightarrow> strip_wrappers rest)
      else if first = lit ''stdbuf'' then strip_wrappers (dropWhile is_option ts)
      else Some (t # ts))"
  by pat_completeness auto
termination
  by (relation "measure length") (auto simp: less_Suc_eq_le length_dropWhile_le dest: drop_timeout_rest)

definition strip_process_wrappers :: "shell_kind \<Rightarrow> ustring list \<Rightarrow> ustring list option" where
  "strip_process_wrappers k ts = (case k of PowerShell \<Rightarrow> Some ts | Bash \<Rightarrow> strip_wrappers ts)"

section \<open>Git\<close>

definition unverifiable_git_option :: "ustring \<Rightarrow> bool" where
  "unverifiable_git_option t \<longleftrightarrow>
     contains_shell_meta t \<or>
     is_lit t [''-C'', ''-c'', ''--git-dir'', ''--work-tree'', ''--exec-path'', ''--config-env'', ''--ext-diff'', ''--textconv'',
       ''--output'', ''--global'', ''--system'', ''--file'', ''--blob'', ''-p'', ''--paginate'', ''--open-files-in-pager''] \<or>
     list_ex (\<lambda>p. starts_with (lit p) t) [''--git-dir='', ''--work-tree='', ''--exec-path='', ''--config-env='', ''--output='',
       ''--open-files-in-pager='']"

definition any_of :: "ustring list \<Rightarrow> string list \<Rightarrow> bool" where
  "any_of ts xs \<longleftrightarrow> list_ex (\<lambda>t. is_lit t xs) ts"

definition first_of :: "ustring list \<Rightarrow> string list \<Rightarrow> bool" where
  "first_of ts xs \<longleftrightarrow> ts \<noteq> [] \<and> is_lit (hd ts) xs"

definition git_read_only :: "ustring \<Rightarrow> ustring list \<Rightarrow> bool" where
  "git_read_only sub args \<longleftrightarrow>
     (if is_lit sub [''status'', ''log'', ''show'', ''diff'', ''grep'', ''rev-parse'', ''ls-files'', ''ls-tree'', ''describe'',
                     ''shortlog'', ''blame''] then True
      else if sub = lit ''branch''
      then args = [] \<or>
           any_of args [''-l'', ''--list'', ''--show-current'', ''--contains'', ''--no-contains'', ''--merged'', ''--no-merged''] \<and>
           \<not> any_of args [''-d'', ''-D'', ''-m'', ''-M'', ''-c'', ''-C'', ''--delete'', ''--move'', ''--copy'',
               ''--edit-description'', ''--set-upstream-to'', ''--unset-upstream'']
      else if sub = lit ''tag''
      then args = [] \<or>
           any_of args [''-l'', ''--list''] \<and>
           \<not> any_of args [''-d'', ''--delete'', ''-a'', ''--annotate'', ''-s'', ''--sign'', ''-u'', ''--local-user'', ''-m'',
               ''--message'', ''-F'', ''--file'', ''-f'', ''--force'']
      else if sub = lit ''remote''
      then args = [] \<or> length args = 1 \<and> first_of args [''-v'', ''--verbose''] \<or>
           first_of args [''get-url''] \<and>
           \<not> any_of args [''set-url'', ''add'', ''remove'', ''rename'', ''update'', ''prune'', ''--add'', ''--delete'']
      else if sub = lit ''config''
      then any_of args [''--get'', ''--get-all'', ''--get-regexp'', ''--list'', ''-l''] \<and>
           \<not> any_of args [''--unset'', ''--unset-all'', ''--rename-section'', ''--remove-section'', ''--add'', ''--replace-all'',
               ''--edit'', ''-e'']
      else if sub = lit ''stash'' then first_of args [''list'', ''show'']
      else if sub = lit ''worktree'' then first_of args [''list'']
      else if sub = lit ''reflog'' then args = [] \<or> first_of args [''show'', ''exists'', ''list'']
      else False)"

definition analyze_git :: "shell_host \<Rightarrow> ustring list \<Rightarrow> assessment" where
  "analyze_git h ts =
     (if list_ex unverifiable_git_option (tl ts) then unbounded ''git.unverifiable_options''
      else case dropWhile is_option (tl ts) of
             [] \<Rightarrow> unbounded ''git.missing_subcommand''
           | sub # args \<Rightarrow>
               if \<not> git_read_only (ascii_lower sub) args then unbounded ''git.state_change''
               else if contains_explicit_outside_path h ts then unbounded ''git.outside_trusted_roots''
               else read_only ''git.read_only'')"

section \<open>Bash\<close>

definition analyze_cd :: "shell_host \<Rightarrow> ustring list \<Rightarrow> assessment" where
  "analyze_cd h args =
     (case args of
        [] \<Rightarrow> unbounded ''shell.cd_home''
      | t # _ \<Rightarrow> if resolves_read h t \<and> directory_at h t then read_only ''shell.cd_trusted''
                 else unbounded ''shell.cd_outside_trusted_roots'')"

definition is_bash_read_only_command :: "ustring \<Rightarrow> bool" where
  "is_bash_read_only_command c \<longleftrightarrow>
     is_lit c [''ls'', ''cat'', ''echo'', ''printf'', ''pwd'', ''head'', ''tail'', ''grep'', ''egrep'', ''fgrep'', ''rg'', ''find'',
       ''wc'', ''which'', ''whereis'', ''diff'', ''cmp'', ''stat'', ''du'', ''df'', ''file'', ''basename'', ''dirname'', ''realpath'',
       ''readlink'', ''uname'', ''id'', ''whoami'', ''printenv'', ''true'', ''false'']"

definition bash_read_command_follows_paths :: "ustring \<Rightarrow> bool" where
  "bash_read_command_follows_paths c \<longleftrightarrow>
     \<not> is_lit c [''echo'', ''printf'', ''pwd'', ''which'', ''whereis'', ''uname'', ''id'', ''whoami'', ''printenv'', ''true'', ''false'']"

definition is_bash_builtin_read_command :: "ustring \<Rightarrow> bool" where
  "is_bash_builtin_read_command c \<longleftrightarrow> is_lit c [''echo'', ''printf'', ''pwd'', ''true'', ''false'']"

definition shell_search_path_is_suspicious :: "shell_host \<Rightarrow> bool" where
  "shell_search_path_is_suspicious h \<longleftrightarrow>
     (case search_path h of None \<Rightarrow> True | Some es \<Rightarrow> list_ex (\<lambda>e. e = [] \<or> \<not> absolute h e) es)"

definition is_bash_workspace_mutation :: "ustring \<Rightarrow> bool" where
  "is_bash_workspace_mutation c \<longleftrightarrow> is_lit c [''mkdir'', ''touch'', ''rm'', ''rmdir'', ''mv'', ''cp'', ''sed'']"

text \<open>The operands of the words after the command; for \<open>sed\<close> the first of them is the program.\<close>

definition operand_option_with_value :: "ustring \<Rightarrow> bool" where
  "operand_option_with_value t \<longleftrightarrow>
     is_lit t [''-m'', ''--mode'', ''-t'', ''--target-directory'', ''-S'', ''--suffix'']"

fun operands_go :: "ustring list \<Rightarrow> ustring list" where
  "operands_go [] = []"
| "operands_go (t # ts) =
     (if operand_option_with_value t
      then (case ts of [] \<Rightarrow> [] | _ # ts' \<Rightarrow> operands_go ts')
      else if is_option t then operands_go ts else t # operands_go ts)"

definition bash_path_operands :: "ustring \<Rightarrow> ustring list \<Rightarrow> ustring list" where
  "bash_path_operands c ts = (if c = lit ''sed'' then tl (operands_go (tl ts)) else operands_go (tl ts))"

definition sed_edits_in_place :: "ustring list \<Rightarrow> bool" where
  "sed_edits_in_place args \<longleftrightarrow>
     \<not> list_ex (\<lambda>t. t = lit ''e'' \<or> starts_with (lit ''--expression=e'') t) args \<and>
     list_ex (\<lambda>t. starts_with (lit ''-i'') t \<or> t = lit ''--in-place'') args"

definition bash_mutation_is_bounded :: "shell_host \<Rightarrow> ustring \<Rightarrow> ustring list \<Rightarrow> bool" where
  "bash_mutation_is_bounded h c ts \<longleftrightarrow>
     \<not> list_ex (\<lambda>t. contains_shell_meta t \<or> t = lit ''-'' \<or> starts_with (lit ''@'') t \<or> is_dynamic_path_token t) ts \<and>
     (c = lit ''sed'' \<longrightarrow> sed_edits_in_place (tl ts)) \<and>
     bash_path_operands c ts \<noteq> [] \<and>
     list_all (path_is_within_trusted_roots (resolves_write h)) (bash_path_operands c ts)"

text \<open>The refusals of particular options, in the order of the code; None where none applies.\<close>

definition risky_bash_option :: "ustring \<Rightarrow> ustring list \<Rightarrow> string option" where
  "risky_bash_option c ts =
     (if c = lit ''find'' \<and> any_of ts [''-exec'', ''-execdir'', ''-ok'', ''-okdir'', ''-delete'', ''-fls'', ''-fprint'',
            ''-fprint0'', ''-fprintf'']
      then Some ''shell.find_side_effect''
      else if is_lit c [''find'', ''wc'', ''du''] \<and>
              list_ex (\<lambda>t. is_lit t [''-files0-from'', ''--files0-from''] \<or> starts_with (lit ''-files0-from='') t \<or>
                starts_with (lit ''--files0-from='') t) ts
      then Some ''shell.runtime_path_list''
      else if is_lit c [''find'', ''file''] \<and> list_ex contains_shell_meta (tl ts) then Some ''shell.flag_glob''
      else if c = lit ''file'' \<and>
              list_ex (\<lambda>t. is_lit t [''-m'', ''--magic-file'', ''-f'', ''--files-from'', ''-C'', ''--compile''] \<or>
                starts_with (lit ''--magic-file='') t \<or> starts_with (lit ''--files-from='') t \<or>
                \<not> starts_with (lit ''--'') t \<and> byte_len t > 2 \<and> (starts_with (lit ''-m'') t \<or> starts_with (lit ''-f'') t)) ts
      then Some ''shell.file_external_input''
      else if is_lit c [''grep'', ''egrep'', ''fgrep'', ''rg''] \<and>
              list_ex (\<lambda>t. starts_with (lit ''--file='') t \<or>
                \<not> starts_with (lit ''--'') t \<and> byte_len t > 2 \<and> starts_with (lit ''-f'') t) ts
      then Some ''shell.pattern_file_argument''
      else if c = lit ''rg'' \<and>
              list_ex (\<lambda>t. is_lit t [''--pre'', ''--hostname-bin''] \<or> starts_with (lit ''--pre='') t \<or>
                starts_with (lit ''--hostname-bin='') t) ts
      then Some ''shell.ripgrep_external_command''
      else None)"

definition analyze_bash_read :: "shell_host \<Rightarrow> ustring \<Rightarrow> ustring list \<Rightarrow> assessment" where
  "analyze_bash_read h c ts =
     (if \<not> is_bash_builtin_read_command c \<and> shell_search_path_is_suspicious h
      then unbounded ''shell.suspicious_search_path''
      else if bash_read_command_follows_paths c \<and>
              list_ex (\<lambda>t. contains_shell_meta t \<or> starts_with (lit ''~'') t) (tl ts)
      then unbounded ''shell.dynamic_read_path''
      else if contains_explicit_outside_path h ts then unbounded ''shell.read_outside_trusted_roots''
      else read_only ''shell.read_only'')"

definition analyze_bash_tokens :: "shell_host \<Rightarrow> ustring list \<Rightarrow> assessment" where
  "analyze_bash_tokens h ts =
     (if names_a_path (hd ts) then unbounded ''shell.explicit_executable_path''
      else let c = ascii_lower (command_basename (hd ts)) in
        if c = lit ''xargs'' then unbounded ''shell.xargs_data_dependent_command''
        else if is_lit c [''watch'', ''setsid'', ''ionice'', ''flock''] then unbounded ''shell.exec_wrapper''
        else if c = lit ''git'' then analyze_git h ts
        else if c = lit ''cd'' then analyze_cd h (tl ts)
        else case risky_bash_option c ts of
               Some r \<Rightarrow> unbounded r
             | None \<Rightarrow>
                 if is_bash_read_only_command c then analyze_bash_read h c ts
                 else if is_bash_workspace_mutation c \<and> bash_mutation_is_bounded h c ts
                 then workspace_write ''shell.workspace_file_edit''
                 else unbounded ''shell.unclassified_command'')"

section \<open>PowerShell\<close>

definition canonical_powershell_command :: "ustring \<Rightarrow> ustring" where
  "canonical_powershell_command raw =
     (let c = ascii_lower (command_basename raw) in
      if is_lit c [''gci'', ''ls'', ''dir''] then lit ''Get-ChildItem''
      else if is_lit c [''gc'', ''cat'', ''type''] then lit ''Get-Content''
      else if is_lit c [''gl'', ''pwd''] then lit ''Get-Location''
      else if is_lit c [''sl'', ''cd'', ''chdir''] then lit ''Set-Location''
      else if c = lit ''gi'' then lit ''Get-Item''
      else if c = lit ''gp'' then lit ''Get-ItemProperty''
      else if c = lit ''sls'' then lit ''Select-String''
      else if c = lit ''measure'' then lit ''Measure-Object''
      else if is_lit c [''compare'', ''diff''] then lit ''Compare-Object''
      else if is_lit c [''echo'', ''write''] then lit ''Write-Output''
      else if c = lit ''sc'' then lit ''Set-Content''
      else if c = lit ''ac'' then lit ''Add-Content''
      else if c = lit ''clc'' then lit ''Clear-Content''
      else if is_lit c [''ri'', ''rm'', ''del'', ''erase'', ''rd'', ''rmdir''] then lit ''Remove-Item''
      else if is_lit c [''ni'', ''md'', ''mkdir''] then lit ''New-Item''
      else if is_lit c [''cpi'', ''cp'', ''copy''] then lit ''Copy-Item''
      else if is_lit c [''mi'', ''mv'', ''move''] then lit ''Move-Item''
      else if is_lit c [''rni'', ''ren''] then lit ''Rename-Item''
      else c)"

definition is_powershell_read_only_command :: "ustring \<Rightarrow> bool" where
  "is_powershell_read_only_command c \<longleftrightarrow>
     is_lit (ascii_lower c) [''get-childitem'', ''get-content'', ''get-location'', ''get-item'', ''get-itemproperty'', ''get-command'',
       ''get-process'', ''get-service'', ''get-date'', ''get-filehash'', ''get-member'', ''get-variable'', ''select-string'',
       ''select-object'', ''measure-object'', ''compare-object'', ''test-path'', ''resolve-path'', ''split-path'', ''join-path'',
       ''convertto-json'', ''convertfrom-json'', ''format-list'', ''format-table'', ''format-wide'', ''out-string'', ''write-output'']"

definition is_powershell_workspace_mutation :: "ustring \<Rightarrow> bool" where
  "is_powershell_workspace_mutation c \<longleftrightarrow>
     is_lit (ascii_lower c) [''set-content'', ''add-content'', ''clear-content'', ''remove-item'']"

text \<open>None where a parameter that names a path has no value.\<close>

fun powershell_operands_go :: "bool \<Rightarrow> bool \<Rightarrow> ustring list \<Rightarrow> ustring list option" where
  "powershell_operands_go both taken [] = Some []"
| "powershell_operands_go both taken (t # ts) =
     (if is_lit (ascii_lower t) [''-path'', ''-literalpath'', ''-destination'']
      then (case ts of [] \<Rightarrow> None | v # ts' \<Rightarrow> map_option ((#) v) (powershell_operands_go both taken ts'))
      else if is_lit (ascii_lower t) [''-value'', ''-filter'', ''-include'', ''-exclude'', ''-name'', ''-itemtype'']
      then (case ts of [] \<Rightarrow> Some [] | _ # ts' \<Rightarrow> powershell_operands_go both taken ts')
      else if is_option t then powershell_operands_go both taken ts
      else if \<not> taken then map_option ((#) t) (powershell_operands_go both True ts)
      else if both then map_option ((#) t) (powershell_operands_go both taken ts)
      else powershell_operands_go both taken ts)"

definition powershell_path_operands :: "ustring \<Rightarrow> ustring list \<Rightarrow> ustring list" where
  "powershell_path_operands c ts =
     (case powershell_operands_go (is_lit (ascii_lower c) [''copy-item'', ''move-item'', ''rename-item'']) False (tl ts) of
        Some ps \<Rightarrow> ps
      | None \<Rightarrow> [])"

definition powershell_mutation_is_bounded :: "shell_host \<Rightarrow> ustring \<Rightarrow> ustring list \<Rightarrow> bool" where
  "powershell_mutation_is_bounded h c ts \<longleftrightarrow>
     (let paths = powershell_path_operands c ts; removes = eq_ignore_case c ''Remove-Item'' in
      \<not> list_ex (\<lambda>t. contains_shell_meta t \<or> is_dynamic_path_token t \<or> eq_ignore_case t ''-Credential'' \<or>
          eq_ignore_case t ''-ComputerName'') ts \<and>
      \<not> (removes \<and> list_ex (\<lambda>t. eq_ignore_case t ''-Recurse'' \<or> t = lit ''-r'') ts) \<and>
      paths \<noteq> [] \<and> list_all (path_is_within_trusted_roots (resolves_in_workspace h)) paths \<and>
      (removes \<longrightarrow> list_all (\<lambda>p. resolves_in_workspace h p \<and> \<not> root_at h p) paths))"

definition analyze_powershell_tokens :: "shell_host \<Rightarrow> ustring list \<Rightarrow> assessment" where
  "analyze_powershell_tokens h ts =
     (if names_a_path (hd ts) then unbounded ''powershell.explicit_executable_path''
      else let c = canonical_powershell_command (hd ts) in
        if is_powershell_read_only_command c
        then (if list_ex (\<lambda>t. 123 \<in> set t \<or> 125 \<in> set t) ts then unbounded ''powershell.script_block''
              else if list_ex (\<lambda>t. contains_shell_meta t \<or> starts_with (lit ''~'') t) (tl ts)
              then unbounded ''powershell.dynamic_read_path''
              else if contains_explicit_outside_path h ts then unbounded ''powershell.read_outside_trusted_roots''
              else read_only ''powershell.read_only'')
        else if is_powershell_workspace_mutation c \<and> powershell_mutation_is_bounded h c ts
        then workspace_write ''powershell.workspace_file_edit''
        else unbounded ''powershell.unclassified_command'')"

section \<open>Subcommands and commands\<close>

definition analyze_words :: "shell_host \<Rightarrow> shell_kind \<Rightarrow> ustring list \<Rightarrow> assessment" where
  "analyze_words h k ts =
     (case strip_process_wrappers k ts of
        None \<Rightarrow> unbounded ''shell.wrapper_unverifiable''
      | Some ts \<Rightarrow>
          if ts = [] then unbounded ''shell.wrapper_missing_command''
          else case k of Bash \<Rightarrow> analyze_bash_tokens h ts | PowerShell \<Rightarrow> analyze_powershell_tokens h ts)"

definition analyze_shell_segment :: "shell_host \<Rightarrow> shell_kind \<Rightarrow> ustring \<Rightarrow> assessment" where
  "analyze_shell_segment h k s =
     (if contains_unsafe_redirection k s then unbounded ''shell.redirection''
      else case tokenize_shell_segment k s of
             Inl _ \<Rightarrow> unbounded ''shell.tokenize_failed''
           | Inr ts \<Rightarrow>
               if ts = [] then read_only ''shell.comment''
               else let ts = strip_safe_environment_assignments ts in
                    if ts = [] then read_only ''shell.environment_assignment'' else analyze_words h k ts)"

fun combine :: "shell_host \<Rightarrow> shell_kind \<Rightarrow> assessment \<Rightarrow> ustring list \<Rightarrow> assessment" where
  "combine h k a [] = a"
| "combine h k a (s # ss) =
     (let next = analyze_shell_segment h k s in
      if mandatory_prompt next then next
      else combine h k
        (a\<lparr>rule_id := (if risk_rank (risk a) < risk_rank (risk next) then rule_id next else rule_id a),
           risk := (if risk_rank (risk a) < risk_rank (risk next) then risk next else risk a),
           effect := combine_effect (effect a) (effect next)\<rparr>) ss)"

definition analyze_shell :: "shell_host \<Rightarrow> shell_kind \<Rightarrow> ustring \<Rightarrow> assessment" where
  "analyze_shell h k s =
     (if has_network_path s then unbounded ''shell.network_path''
      else if has_background_or_call_operator k s then unbounded ''shell.background_or_call_operator''
      else if has_dynamic_shell_expansion k s
      then (if looks_like_recursive_delete k s then circuit_breaker ''shell.unverifiable_recursive_delete''
            else unbounded ''shell.dynamic_expansion'')
      else if k = PowerShell \<and> has_powershell_non_filesystem_provider h s
      then unbounded ''powershell.non_filesystem_provider''
      else if looks_like_critical_delete k s then circuit_breaker ''shell.critical_delete''
      else case split_shell_segments k s of
             Inl _ \<Rightarrow> unbounded ''shell.parse_failed''
           | Inr segs \<Rightarrow>
               if segs = [] then unbounded ''shell.empty_analysis''
               else combine h k (read_only ''shell.read_only'') segs)"

datatype security_level = RequestApproval | AllowEdits | FullAccess

definition MAX_SHELL_ANALYSIS_CHARS :: nat where "MAX_SHELL_ANALYSIS_CHARS = 10000"

text \<open>\<open>classify_shell\<close>: whether a person is asked, and the rating shown.\<close>

definition classify_shell :: "shell_host \<Rightarrow> security_level \<Rightarrow> shell_kind \<Rightarrow> ustring \<Rightarrow> bool \<times> assessment" where
  "classify_shell h level k s =
     (let a = (if length s > MAX_SHELL_ANALYSIS_CHARS then unbounded ''shell.analysis_limit'' else analyze_shell h k s)
      in (mandatory_prompt a \<or> level \<noteq> FullAccess, a))"

end
