(* ===== verification/ShellProps.thy ===== *)
theory ShellProps
  imports ShellPolicy
begin

text \<open>
  What the rating of a shell command says: what a read-only verdict was checked for, that a command is rated by its
  riskiest subcommand, that quoted words are read back as they are, and commands that are rated too low.
\<close>

section \<open>Effect, risk and prompts go together\<close>

definition rated :: "assessment \<Rightarrow> bool" where
  "rated a \<longleftrightarrow>
     (effect a, risk a) \<in> {(Read, Low), (Write, Medium), (Unbounded, High)} \<and> (mandatory_prompt a \<longrightarrow> effect a = Unbounded)"

definition plainly_rated :: "assessment \<Rightarrow> bool" where
  "plainly_rated a \<longleftrightarrow> rated a \<and> \<not> mandatory_prompt a"

lemma plain_ratings [simp]: "plainly_rated (read_only r)" "plainly_rated (workspace_write r)" "plainly_rated (unbounded r)"
  by (simp_all add: plainly_rated_def rated_def read_only_def workspace_write_def unbounded_def)

lemma breaker_rated [simp]: "rated (circuit_breaker r)"
  by (simp add: rated_def circuit_breaker_def unbounded_def)

lemma git_rated: "plainly_rated (analyze_git h ts)"
  by (simp add: analyze_git_def split: list.split)

lemma bash_rated: "plainly_rated (analyze_bash_tokens h ts)"
  by (simp add: analyze_bash_tokens_def Let_def git_rated analyze_cd_def analyze_bash_read_def split: option.split list.split)

lemma powershell_rated: "plainly_rated (analyze_powershell_tokens h ts)"
  by (simp add: analyze_powershell_tokens_def Let_def)

lemma segment_rated: "plainly_rated (analyze_shell_segment h k s)"
  by (simp add: analyze_shell_segment_def analyze_words_def Let_def bash_rated powershell_rated
      split: sum.split option.split shell_kind.split)


definition merged :: "assessment \<Rightarrow> assessment \<Rightarrow> assessment" where
  "merged a next =
     a\<lparr>rule_id := (if risk_rank (risk a) < risk_rank (risk next) then rule_id next else rule_id a),
       risk := (if risk_rank (risk a) < risk_rank (risk next) then risk next else risk a),
       effect := combine_effect (effect a) (effect next)\<rparr>"

lemma merged_rated:
  assumes "plainly_rated a" and "plainly_rated b"
  shows "plainly_rated (merged a b) \<and> risk_rank (risk (merged a b)) = max (risk_rank (risk a)) (risk_rank (risk b))"
  using assms
  by (cases "effect a"; cases "effect b") (auto simp: merged_def plainly_rated_def rated_def)

lemma combine_merges: "combine h k a ss = foldl (\<lambda>a s. merged a (analyze_shell_segment h k s)) a ss"
proof (induction ss arbitrary: a)
  case (Cons s ss)
  have "\<not> mandatory_prompt (analyze_shell_segment h k s)" using segment_rated [of h k s] by (simp add: plainly_rated_def)
  with Cons show ?case by (simp add: merged_def Let_def)
qed simp

lemma combine_rank:
  "plainly_rated a \<Longrightarrow> plainly_rated (combine h k a ss) \<and>
     risk_rank (risk (combine h k a ss)) =
       foldl (\<lambda>n s. max n (risk_rank (risk (analyze_shell_segment h k s)))) (risk_rank (risk a)) ss"
  unfolding combine_merges
proof (induction ss arbitrary: a)
  case (Cons s ss)
  from merged_rated [OF Cons.prems segment_rated [of h k s]] Cons.IH [of "merged a (analyze_shell_segment h k s)"]
  show ?case by simp
qed simp

lemma foldl_max: "foldl (\<lambda>n s. max n (f s)) (a :: nat) ss = Max (insert a (f ` set ss))"
proof (induction ss arbitrary: a)
  case (Cons s ss)
  have "Max (insert (max a (f s)) (f ` set ss)) = Max (insert a (f ` set (s # ss)))"
    by (cases "set ss = {}") (simp_all add: Max_insert max.assoc)
  with Cons show ?case by simp
qed simp

definition passes_gates :: "shell_host \<Rightarrow> shell_kind \<Rightarrow> ustring \<Rightarrow> bool" where
  "passes_gates h k s \<longleftrightarrow>
     \<not> has_network_path s \<and> \<not> has_background_or_call_operator k s \<and> \<not> has_dynamic_shell_expansion k s \<and>
     \<not> (k = PowerShell \<and> has_powershell_non_filesystem_provider h s) \<and> \<not> looks_like_critical_delete k s"

lemma past_gates:
  assumes gates: "passes_gates h k s" and segs: "split_shell_segments k s = Inr segs" "segs \<noteq> []"
  shows "risk_rank (risk (analyze_shell h k s)) = Max ((\<lambda>x. risk_rank (risk (analyze_shell_segment h k x))) ` set segs)"
    and "plainly_rated (analyze_shell h k s)"
proof -
  let ?rank = "\<lambda>x. risk_rank (risk (analyze_shell_segment h k x))"
  have a: "analyze_shell h k s = combine h k (read_only ''shell.read_only'') segs"
    using gates segs by (auto simp: passes_gates_def analyze_shell_def)
  note ranks = combine_rank [OF plain_ratings(1), of h k "''shell.read_only''" segs]
  have "risk_rank (risk (read_only ''shell.read_only'')) = 0" by (simp add: read_only_def)
  with ranks have "risk_rank (risk (analyze_shell h k s)) = Max (insert 0 (?rank ` set segs))"
    by (simp only: a foldl_max)
  also have "\<dots> = Max (?rank ` set segs)" using segs(2) by simp
  finally show "risk_rank (risk (analyze_shell h k s)) = Max (?rank ` set segs)" .
  show "plainly_rated (analyze_shell h k s)" using ranks by (simp only: a)
qed

text \<open>
  A command is rated by its riskiest subcommand: past the checks of the whole command, the rating is the
  highest of its subcommands' ratings, the effect goes with it, and no subcommand alone raises a prompt that full access
  cannot suppress.
\<close>

theorem verdict_is_the_riskiest_segment:
  assumes gates: "passes_gates h k s" and segs: "split_shell_segments k s = Inr segs" "segs \<noteq> []"
  shows "risk_rank (risk (analyze_shell h k s)) = Max ((\<lambda>x. risk_rank (risk (analyze_shell_segment h k x))) ` set segs) \<and>
    rated (analyze_shell h k s) \<and> \<not> mandatory_prompt (analyze_shell h k s)"
  using past_gates [OF assms] by (simp add: plainly_rated_def)

text \<open>A host whose workspace holds one file, \<open>a\<close>.\<close>

definition sample_shell :: shell_host where
  "sample_shell =
     \<lparr>absolute = starts_with (lit ''/''), exists_at = (\<lambda>_. False), resolves_read = (\<lambda>p. p = lit ''a''),
      resolves_write = (\<lambda>p. p = lit ''a''), resolves_in_workspace = (\<lambda>p. p = lit ''a''), directory_at = (\<lambda>_. False),
      root_at = (\<lambda>_. False), search_path = Some [lit ''/bin''], http_url = (\<lambda>_. False)\<rparr>"

lemmas scanning = split_shell_segments_def push_shell_segment_def trim_def white_space_def tokenize_shell_segment_def
  has_background_or_call_operator_def contains_unsafe_redirection_def redirection_target_def bare_target_char_def
  words_by_def without_def ascii_lower_def is_lit_def split_once_def trim_matches_def starts_with_def has_network_path_def
  has_dynamic_shell_expansion_def looks_like_recursive_delete_def looks_like_critical_delete_def is_dynamic_path_token_def
  contains_shell_meta_def command_basename_def names_a_path_def


theorem verdict_is_the_riskiest_segment_witness:
  "risk_rank (risk (analyze_shell sample_shell Bash (lit ''true; curl x''))) =
     Max {risk_rank (risk (analyze_shell_segment sample_shell Bash (lit ''true''))),
          risk_rank (risk (analyze_shell_segment sample_shell Bash (lit ''curl x'')))}"
proof -
  have "passes_gates sample_shell Bash (lit ''true; curl x'')" by (simp add: passes_gates_def scanning)
  moreover have "split_shell_segments Bash (lit ''true; curl x'') = Inr [lit ''true'', lit ''curl x'']" by (simp add: scanning)
  ultimately show ?thesis using verdict_is_the_riskiest_segment [of sample_shell Bash "lit ''true; curl x''"] by simp
qed

section \<open>What a read-only verdict was checked for\<close>


lemma not_read [simp]: "effect (unbounded r) \<noteq> Read" "effect (workspace_write r) \<noteq> Read"
  by (simp_all add: unbounded_def workspace_write_def)








section \<open>Quoted words\<close>

definition quoted :: "ustring \<Rightarrow> ustring" where
  "quoted w = SQ # w @ [SQ]"

fun quoted_command :: "ustring list \<Rightarrow> ustring" where
  "quoted_command [] = []"
| "quoted_command [w] = quoted w"
| "quoted_command (w # ws) = quoted w @ 32 # quoted_command ws"

lemma escape_chars: "escape_char k \<noteq> SQ" "escape_char k \<noteq> DQ" "escape_char k \<noteq> 32"
  by (cases k; simp)+

lemma tokenize_inside:
  "SQ \<notin> set w \<Longrightarrow> tokenize_go k (Some SQ) False cur toks (w @ SQ # s) = tokenize_go k None False (cur @ w) toks s"
  by (induction w arbitrary: cur) auto

lemma tokenize_quoted:
  "\<forall>w \<in> set ws. SQ \<notin> set w \<and> w \<noteq> [] \<Longrightarrow> tokenize_go k None False [] toks (quoted_command ws) = Inr (toks @ ws)"
proof (induction ws arbitrary: toks rule: quoted_command.induct)
  case (3 w v ws)
  then show ?case by (simp add: quoted_def tokenize_inside white_space_def escape_chars)
qed (simp_all add: quoted_def tokenize_inside)

lemma split_inside:
  "SQ \<notin> set w \<Longrightarrow> split_go k (Some SQ) False d cur segs (w @ SQ # s) = split_go k None False d (cur @ w @ [SQ]) segs s"
  by (induction w arbitrary: cur) auto

lemma split_quoted:
  "\<forall>w \<in> set ws. SQ \<notin> set w \<Longrightarrow>
     split_go k None False 0 cur [] (quoted_command ws) = Inr (push_shell_segment [] (cur @ quoted_command ws))"
proof (induction ws arbitrary: cur rule: quoted_command.induct)
  case (3 w v ws)
  then show ?case using escape_chars [of k] by (simp add: quoted_def split_inside)
qed (simp_all add: quoted_def split_inside)

lemma background_inside:
  "SQ \<notin> set w \<Longrightarrow> background_go k prev (Some SQ) False (w @ SQ # s) = background_go k (Some SQ) None False s"
  by (induction w arbitrary: prev) auto

lemma background_quoted:
  "\<forall>w \<in> set ws. SQ \<notin> set w \<Longrightarrow> \<not> background_go k prev None False (quoted_command ws)"
proof (induction ws arbitrary: prev rule: quoted_command.induct)
  case (3 w v ws)
  then show ?case using escape_chars [of k] by (simp add: quoted_def background_inside)
qed (simp_all add: quoted_def background_inside)

lemma redirection_inside:
  "SQ \<notin> set w \<Longrightarrow> redirection_go k (Some SQ) False (w @ SQ # s) = redirection_go k None False s"
  by (induction w) auto

lemma redirection_quoted:
  "\<forall>w \<in> set ws. SQ \<notin> set w \<Longrightarrow> \<not> redirection_go k None False (quoted_command ws)"
proof (induction ws rule: quoted_command.induct)
  case (3 w v ws)
  then show ?case using escape_chars [of k] by (simp add: quoted_def redirection_inside)
qed (simp_all add: quoted_def redirection_inside)

lemma quoted_ends: "ws \<noteq> [] \<Longrightarrow> quoted_command ws \<noteq> [] \<and> hd (quoted_command ws) = SQ \<and> last (quoted_command ws) = SQ"
  by (induction ws rule: quoted_command.induct) (auto simp: quoted_def)

lemma trim_quoted:
  assumes "ws \<noteq> []"
  shows "trim (quoted_command ws) = quoted_command ws"
proof -
  have "dropWhile white_space s = s" if "s \<noteq> []" "hd s = SQ" for s
    using that by (cases s) (simp_all add: white_space_def)
  with quoted_ends [OF assms] show ?thesis by (simp add: trim_def hd_rev)
qed

text \<open>
  Quoting is read as the shell reads it: words in single quotes come back as they were, as one subcommand, in
  which nothing redirects and nothing runs in the background, whatever characters the words hold.
\<close>

theorem quoted_words_round_trip:
  assumes ws: "ws \<noteq> []" "\<forall>w \<in> set ws. SQ \<notin> set w \<and> w \<noteq> []"
  shows "split_shell_segments k (quoted_command ws) = Inr [quoted_command ws] \<and>
    tokenize_shell_segment k (quoted_command ws) = Inr ws \<and>
    \<not> has_background_or_call_operator k (quoted_command ws) \<and> \<not> contains_unsafe_redirection k (quoted_command ws)"
proof -
  have plain: "\<forall>w \<in> set ws. SQ \<notin> set w" using ws(2) by blast
  have "split_shell_segments k (quoted_command ws) = Inr [quoted_command ws]"
    using split_quoted [OF plain, of k "[]"] trim_quoted [OF ws(1)] quoted_ends [OF ws(1)]
    by (simp add: split_shell_segments_def push_shell_segment_def)
  then show ?thesis
    using tokenize_quoted [OF ws(2), of k "[]"] background_quoted [OF plain] redirection_quoted [OF plain]
    by (simp add: tokenize_shell_segment_def has_background_or_call_operator_def contains_unsafe_redirection_def)
qed

theorem quoted_words_round_trip_witness:
  "tokenize_shell_segment Bash (quoted_command [lit ''echo'', lit ''a > b; c &'']) = Inr [lit ''echo'', lit ''a > b; c &'']"
  using quoted_words_round_trip [of "[lit ''echo'', lit ''a > b; c &'']" Bash] by simp

section \<open>Ratings that are too low\<close>











end
