(* ===== verification/PromptCard.thy ===== *)
theory PromptCard
  imports Utf8 Json Risk
begin

text \<open>
  What a confirmation card says (\<^verbatim>\<open>src/tool_prompt.rs\<close>): the calls, cards and answers, and the one line the user reads
  before deciding.
\<close>

section \<open>Calls, cards, answers\<close>

record tool_request =
  conversation_id :: ustring
  workspace_path :: ustring
  tool_name :: ustring
  input :: "(ustring \<times> json) list"

datatype decision = Deny | AllowOnce | AllowAlways

fun allows :: "decision \<Rightarrow> bool" where
  "allows Deny = False"
| "allows AllowOnce = True"
| "allows AllowAlways = True"

datatype prompt_kind = ToolCard | PlanExit | QuestionCard

datatype question_action = Submit | Close | Chat

record question_response =
  q_action :: question_action
  q_answers :: "ustring option list"
  q_previews :: "ustring option list"
  q_notes :: "ustring option list"

record prompt_answer =
  decision :: decision
  feedback :: "ustring option"
  question :: "question_response option"

definition plain_answer :: "decision \<Rightarrow> prompt_answer" where
  "plain_answer d = \<lparr>decision = d, feedback = None, question = None\<rparr>"

record prompt_card =
  prompt_id :: ustring
  card_tool :: ustring
  card_kind :: prompt_kind
  card_label :: ustring
  card_summary :: ustring
  card_risk :: ustring
  card_reason :: ustring
  requester :: "ustring option"
  source_agent :: "ustring option"
  source_call_id :: "ustring option"
  allow_always_offered :: bool
  card_mandatory :: bool
  card_questions :: "json option"

datatype prompt_owner = RunOwner ustring | TaskOwner

section \<open>Tools that no allowance may answer\<close>

definition is_shell_tool :: "ustring \<Rightarrow> bool" where
  "is_shell_tool t \<longleftrightarrow> t \<in> set (map lit [''bash'', ''zsh'', ''sh'', ''powershell''])"

definition is_preview_tool :: "ustring \<Rightarrow> bool" where
  "is_preview_tool t \<longleftrightarrow>
     t \<in> set (map lit [''preview_console_logs'', ''preview_screenshot'', ''preview_snapshot'', ''preview_inspect'', ''preview_click'',
       ''preview_fill'', ''preview_eval'', ''preview_network'', ''preview_resize'', ''preview_upload_image'', ''preview_dialog''])"

definition never_blanket_allowed :: "ustring \<Rightarrow> bool" where
  "never_blanket_allowed t \<longleftrightarrow> is_shell_tool t \<or> is_preview_tool t"

section \<open>The line on the card\<close>

definition MAX_SUMMARY_CHARS :: nat where "MAX_SUMMARY_CHARS = 240"
definition MAX_FEEDBACK_CHARS :: nat where "MAX_FEEDBACK_CHARS = 4000"

text \<open>Bidirectional controls and characters of no width.\<close>

definition disguising :: "nat \<Rightarrow> bool" where
  "disguising c \<longleftrightarrow>
     c = 0x00ad \<or> c = 0x061c \<or> c = 0x180e \<or> 0x200b \<le> c \<and> c \<le> 0x200f \<or> 0x2028 \<le> c \<and> c \<le> 0x202e \<or>
     0x2060 \<le> c \<and> c \<le> 0x206f \<or> c = 0xfeff"

definition upper_hex :: "nat \<Rightarrow> nat" where
  "upper_hex d = (if d < 10 then 48 + d else 55 + d)"

text \<open>\<open>{:04X}\<close> of a code point below \<open>0x10000\<close>, which those escaped are.\<close>

definition hex4 :: "nat \<Rightarrow> ustring" where
  "hex4 c = map (\<lambda>k. upper_hex (c div 16 ^ k mod 16)) [3, 2, 1, 0]"

definition escape_display_text :: "ustring \<Rightarrow> ustring" where
  "escape_display_text s = concat (map (\<lambda>c. if disguising c then [92, 117, 123] @ hex4 c @ [125] else [c]) s)"

fun spaced :: "ustring list \<Rightarrow> ustring" where
  "spaced [] = []"
| "spaced [w] = w"
| "spaced (w # ws) = w @ 32 # spaced ws"

definition truncate_for_display :: "ustring \<Rightarrow> ustring" where
  "truncate_for_display s =
     (let line = spaced (words_by white_space s)
      in if length line \<le> MAX_SUMMARY_CHARS then line else take MAX_SUMMARY_CHARS line @ [0x2026])"

text \<open>\<open>max_by_key\<close>: of several longest, the one that comes last.\<close>

fun longest :: "ustring list \<Rightarrow> ustring option" where
  "longest [] = None"
| "longest (s # ss) = (case longest ss of None \<Rightarrow> Some s | Some t \<Rightarrow> Some (if length s \<le> length t then t else s))"

text \<open>The argument \<open>num\<close> is \<open>Number::to_string\<close>.\<close>

fun scalar_text :: "(json_number \<Rightarrow> ustring) \<Rightarrow> json \<Rightarrow> ustring option" where
  "scalar_text num (JNum n) = Some (num n)"
| "scalar_text num (JBool b) = Some (lit (if b then ''true'' else ''false''))"
| "scalar_text num _ = None"

definition most_descriptive_scalar :: "(json_number \<Rightarrow> ustring) \<Rightarrow> (ustring \<times> json) list \<Rightarrow> ustring option" where
  "most_descriptive_scalar num m =
     (case longest (filter (\<lambda>s. s \<noteq> []) (map trim (List.map_filter as_str (map snd m)))) of
        Some s \<Rightarrow> Some s
      | None \<Rightarrow> (case List.map_filter (scalar_text num) (map snd m) of t # _ \<Rightarrow> Some t | [] \<Rightarrow> None))"

definition text_of :: "(ustring \<times> json) list \<Rightarrow> string \<Rightarrow> ustring option" where
  "text_of m k = map_option trim (Option.bind (map_of m (lit k)) as_str)"

definition summary_of :: "ustring \<Rightarrow> (ustring \<times> json) list \<Rightarrow> ustring option" where
  "summary_of t m =
     (if t \<in> set (map lit [''bash'', ''powershell'']) then
        map_option (\<lambda>c. if map_of m (lit ''run_in_background'') = Some (JBool True)
                        then [91, 0x540e, 0x53f0, 93, 32] @ c else c) (text_of m ''command'')
      else if t \<in> set (map lit [''read'', ''write'', ''edit'', ''delete'', ''list'']) then text_of m ''path''
      else if t \<in> set (map lit [''search'', ''grep'']) then
        (case (text_of m ''pattern'', text_of m ''path'') of
           (Some q, Some p) \<Rightarrow> Some (q @ [32, 0xb7, 32] @ p)
         | (Some q, None) \<Rightarrow> Some q
         | (None, _) \<Rightarrow> None)
      else if t = lit ''workflow'' then text_of m ''name''
      else None)"

definition summarize_tool_input :: "(json_number \<Rightarrow> ustring) \<Rightarrow> ustring \<Rightarrow> (ustring \<times> json) list \<Rightarrow> ustring" where
  "summarize_tool_input num t m =
     (let shown = (case Option.bind (summary_of t m) (\<lambda>s. if s = [] then None else Some s) of
                     Some s \<Rightarrow> Some s
                   | None \<Rightarrow> most_descriptive_scalar num m)
      in truncate_for_display (escape_display_text (case shown of Some s \<Rightarrow> s | None \<Rightarrow> [])))"

definition sanitize_prompt_feedback :: "ustring option \<Rightarrow> ustring option" where
  "sanitize_prompt_feedback f =
     (case f of
        None \<Rightarrow> None
      | Some s \<Rightarrow> (if trim s = [] then None else Some (take MAX_FEEDBACK_CHARS (trim s))))"

section \<open>The line hides nothing\<close>

lemma hex4_plain: "c \<in> set (hex4 n) \<Longrightarrow> 48 \<le> c \<and> c \<le> 70"
  by (auto simp: hex4_def upper_hex_def)

lemma escaped_plain: "c \<in> set (escape_display_text s) \<Longrightarrow> \<not> disguising c"
  by (auto simp: escape_display_text_def disguising_def dest: hex4_plain split: if_splits)

lemma words_go_plain:
  "\<not> list_ex sep cur \<Longrightarrow> w \<in> set (words_go sep cur s) \<Longrightarrow> c \<in> set w \<Longrightarrow> (c \<in> set cur \<or> c \<in> set s) \<and> \<not> sep c"
proof (induction sep cur s rule: words_go.induct)
  case (1 sep cur)
  then show ?case by (auto simp: list_ex_iff split: if_splits)
next
  case (2 sep cur c' s)
  then show ?case by (auto simp: list_ex_iff split: if_splits)
qed

lemma words_by_plain: "w \<in> set (words_by sep s) \<Longrightarrow> c \<in> set w \<Longrightarrow> c \<in> set s \<and> \<not> sep c"
  using words_go_plain [of sep "[]"] by (simp add: words_by_def)

lemma set_spaced: "c \<in> set (spaced ws) \<Longrightarrow> c = 32 \<or> (\<exists>w \<in> set ws. c \<in> set w)"
  by (induction ws rule: spaced.induct) auto

lemma line_plain:
  assumes "c \<in> set (truncate_for_display (escape_display_text s))"
  shows "\<not> disguising c \<and> (white_space c \<longrightarrow> c = 32)"
proof -
  have special: "\<not> disguising 32" "\<not> disguising 0x2026" "\<not> white_space 0x2026"
    by (simp_all add: disguising_def white_space_def)
  let ?line = "spaced (words_by white_space (escape_display_text s))"
  have "c = 0x2026 \<or> c \<in> set ?line"
    using assms by (auto simp: truncate_for_display_def Let_def dest: in_set_takeD split: if_splits)
  then show ?thesis
    using special by (auto dest!: set_spaced words_by_plain escaped_plain)
qed

lemma length_line: "length (truncate_for_display s) \<le> MAX_SUMMARY_CHARS + 1"
  by (simp add: truncate_for_display_def Let_def)

end
