(* ===== verification/Approval.thy ===== *)
theory Approval
  imports PromptCard "HOL-Library.Multiset"
begin

text \<open>
  The one-time approvals of calls made from the tool editor, and the directories the user has granted
  (\<^verbatim>\<open>src/approval.rs\<close>). Times are in milliseconds. The random names a nonce is drawn from are an argument.
\<close>

section \<open>What the host answers\<close>

text \<open>
  \<open>canonicalize\<close> is \<open>fs::canonicalize\<close>, which fails with a message; \<open>lossy\<close> is \<open>to_string_lossy\<close>; \<open>fold_case\<close> is
  \<open>to_lowercase\<close> on Windows and nothing elsewhere; \<open>input_text\<close> is \<open>serde_json::to_string\<close>.
\<close>

record approval_host =
  is_absolute :: "ustring \<Rightarrow> bool"
  has_root :: "ustring \<Rightarrow> bool"
  canonicalize :: "ustring \<Rightarrow> ustring + ustring"
  is_directory :: "ustring \<Rightarrow> bool"
  lossy :: "ustring \<Rightarrow> ustring"
  fold_case :: "ustring \<Rightarrow> ustring"
  input_text :: "(ustring \<times> json) list \<Rightarrow> ustring"

datatype approval_error =
    OtherMachine ustring
  | NotAbsolute
  | Unreachable ustring
  | NotDirectory
  | NoConversation
  | NoToolName
  | MissingNonce
  | UnknownNonce
  | Expired
  | Mismatch
  | NotGranted
  | DrawsSpent

section \<open>The registry\<close>

record tool_binding =
  for_conversation :: ustring
  in_workspace :: ustring
  of_tool :: ustring
  with_input :: ustring
  in_environment :: ustring

record tool_approval =
  binding :: tool_binding
  expires_at :: nat

record approval_registry =
  tool_approvals :: "(ustring \<times> tool_approval) list"
  workspace_paths :: "ustring list"

definition TOOL_APPROVAL_TTL :: nat where "TOOL_APPROVAL_TTL = 90 * 1000"
definition MAX_TOOL_APPROVALS :: nat where "MAX_TOOL_APPROVALS = 256"

definition no_approvals :: approval_registry where
  "no_approvals = \<lparr>tool_approvals = [], workspace_paths = []\<rparr>"

record tool_approval_grant =
  nonce :: "ustring option"
  expires_in_ms :: nat
  prompt :: "prompt_card option"

definition not_required :: tool_approval_grant where
  "not_required = \<lparr>nonce = None, expires_in_ms = 0, prompt = None\<rparr>"

definition pending_card :: "prompt_card \<Rightarrow> tool_approval_grant" where
  "pending_card c = \<lparr>nonce = None, expires_in_ms = 0, prompt = Some c\<rparr>"

section \<open>What an approval is bound to\<close>

definition canonical_workspace :: "approval_host \<Rightarrow> ustring \<Rightarrow> approval_error + ustring \<times> ustring" where
  "canonical_workspace h p =
     (if \<not> is_absolute h p then Inl (if has_root h p then OtherMachine p else NotAbsolute)
      else case canonicalize h p of
             Inl e \<Rightarrow> Inl (Unreachable e)
           | Inr c \<Rightarrow> (if is_directory h c then Inr (fold_case h (lossy h c), lossy h p) else Inl NotDirectory))"

definition tool_binding_of :: "approval_host \<Rightarrow> tool_request \<Rightarrow> ustring \<Rightarrow> approval_error + tool_binding" where
  "tool_binding_of h r env =
     (case canonical_workspace h (workspace_path r) of
        Inl e \<Rightarrow> Inl e
      | Inr (w, _) \<Rightarrow>
          (if trim (conversation_id r) = [] then Inl NoConversation
           else if trim (tool_name r) = [] then Inl NoToolName
           else Inr \<lparr>for_conversation = conversation_id r, in_workspace = w, of_tool = tool_name r,
                     with_input = input_text h (input r), in_environment = env\<rparr>))"

section \<open>Issuing and consuming\<close>

text \<open>
  \<open>min_by_key\<close> over the entries. Of several that expire at the same instant it is the first of the list, where the code
  leaves the choice to the hash map.
\<close>

fun soonest :: "(ustring \<times> tool_approval) list \<Rightarrow> ustring option" where
  "soonest [] = None"
| "soonest ((n, a) # m) =
     (case soonest m of
        None \<Rightarrow> Some n
      | Some k \<Rightarrow>
          (case map_of m k of
             Some b \<Rightarrow> Some (if expires_at a \<le> expires_at b then n else k)
           | None \<Rightarrow> Some n))"

definition make_room :: "ustring \<Rightarrow> (ustring \<times> tool_approval) list \<Rightarrow> (ustring \<times> tool_approval) list" where
  "make_room conv m =
     (if length m < MAX_TOOL_APPROVALS then m
      else case (case soonest (filter (\<lambda>(_, a). for_conversation (binding a) = conv) m) of
                   Some n \<Rightarrow> Some n
                 | None \<Rightarrow> soonest m) of
             Some n \<Rightarrow> al_del n m
           | None \<Rightarrow> m)"

text \<open>The loop that draws names until one is new; \<open>None\<close> is a loop still drawing.\<close>

definition draw :: "(ustring \<times> 'v) list \<Rightarrow> ustring list \<Rightarrow> ustring option" where
  "draw m names = List.find (\<lambda>n. map_of m n = None) names"

definition issue_with_ttl ::
    "approval_host \<Rightarrow> nat \<Rightarrow> ustring list \<Rightarrow> tool_request \<Rightarrow> ustring \<Rightarrow> nat \<Rightarrow> approval_registry
      \<Rightarrow> (approval_error + tool_approval_grant) \<times> approval_registry" where
  "issue_with_ttl h now names r env ttl reg =
     (case tool_binding_of h r env of
        Inl e \<Rightarrow> (Inl e, reg)
      | Inr b \<Rightarrow>
          (let m = make_room (for_conversation b) (filter (\<lambda>(_, a). now < expires_at a) (tool_approvals reg)) in
           case draw m names of
             None \<Rightarrow> (Inl DrawsSpent, reg\<lparr>tool_approvals := m\<rparr>)
           | Some n \<Rightarrow>
               (Inr \<lparr>nonce = Some n, expires_in_ms = min ttl u64_max, prompt = None\<rparr>,
                reg\<lparr>tool_approvals := al_put n \<lparr>binding = b, expires_at = now + ttl\<rparr> m\<rparr>)))"

definition issue_tool_approval ::
    "approval_host \<Rightarrow> nat \<Rightarrow> ustring list \<Rightarrow> tool_request \<Rightarrow> ustring \<Rightarrow> approval_registry
      \<Rightarrow> (approval_error + tool_approval_grant) \<times> approval_registry" where
  "issue_tool_approval h now names r env reg = issue_with_ttl h now names r env TOOL_APPROVAL_TTL reg"

definition consume_tool_approval ::
    "approval_host \<Rightarrow> nat \<Rightarrow> ustring \<Rightarrow> tool_request \<Rightarrow> ustring \<Rightarrow> approval_registry
      \<Rightarrow> (approval_error + unit) \<times> approval_registry" where
  "consume_tool_approval h now n r env reg =
     (if trim n = [] then (Inl MissingNonce, reg)
      else case tool_binding_of h r env of
             Inl e \<Rightarrow> (Inl e, reg)
           | Inr b \<Rightarrow>
               (case map_of (tool_approvals reg) n of
                  None \<Rightarrow> (Inl UnknownNonce, reg)
                | Some a \<Rightarrow>
                    (if expires_at a \<le> now then Inl Expired
                     else if binding a \<noteq> b then Inl Mismatch
                     else Inr (),
                     reg\<lparr>tool_approvals := al_del n (tool_approvals reg)\<rparr>)))"

section \<open>Granted directories\<close>

definition remote_workspace_key :: "ustring \<Rightarrow> ustring \<Rightarrow> ustring" where
  "remote_workspace_key machine p = machine @ 0 # p"

definition authorize_workspace :: "approval_host \<Rightarrow> ustring \<Rightarrow> approval_registry \<Rightarrow> (approval_error + ustring) \<times> approval_registry" where
  "authorize_workspace h p reg =
     (case canonical_workspace h p of
        Inl e \<Rightarrow> (Inl e, reg)
      | Inr (k, shown) \<Rightarrow> (Inr shown, reg\<lparr>workspace_paths := List.insert k (workspace_paths reg)\<rparr>))"

definition require_workspace_authorization :: "approval_host \<Rightarrow> ustring \<Rightarrow> approval_registry \<Rightarrow> approval_error + unit" where
  "require_workspace_authorization h p reg =
     (case canonical_workspace h p of
        Inl e \<Rightarrow> Inl e
      | Inr (k, _) \<Rightarrow> (if k \<in> set (workspace_paths reg) then Inr () else Inl NotGranted))"

definition workspace_key :: "approval_host \<Rightarrow> ustring \<Rightarrow> ustring option" where
  "workspace_key h p = (case canonical_workspace h p of Inl _ \<Rightarrow> None | Inr (k, _) \<Rightarrow> Some k)"

definition authorize_remote_workspace :: "ustring \<Rightarrow> ustring \<Rightarrow> approval_registry \<Rightarrow> approval_registry" where
  "authorize_remote_workspace machine p reg =
     reg\<lparr>workspace_paths := List.insert (remote_workspace_key machine p) (workspace_paths reg)\<rparr>"

definition require_remote_workspace_authorization :: "ustring \<Rightarrow> ustring \<Rightarrow> approval_registry \<Rightarrow> approval_error + unit" where
  "require_remote_workspace_authorization machine p reg =
     (if remote_workspace_key machine p \<in> set (workspace_paths reg) then Inr () else Inl NotGranted)"

definition clear_approvals :: "approval_registry \<Rightarrow> approval_registry" where
  "clear_approvals reg = no_approvals"

section \<open>Lemmas on the table\<close>

lemma draw_Some: "draw m names = Some n \<Longrightarrow> map_of m n = None \<and> n \<in> set names"
  by (auto simp: draw_def find_Some_iff)

lemma draw_ends:
  assumes "distinct names" and "length m < length names"
  shows "\<exists>n. draw m names = Some n"
proof (rule ccontr)
  assume "\<not> ?thesis"
  then have "\<forall>n \<in> set names. map_of m n \<noteq> None" by (auto simp: draw_def find_None_iff)
  then have "set names \<subseteq> fst ` set m" by (auto simp: map_of_eq_None_iff)
  then have "card (set names) \<le> card (fst ` set m)" by (intro card_mono) auto
  also have "\<dots> \<le> length m" using card_image_le [of "set m" fst] card_length [of m] by simp
  finally show False using assms by (simp add: distinct_card)
qed

lemma soonest_in: "soonest m = Some n \<Longrightarrow> n \<in> fst ` set m"
  by (induction m rule: soonest.induct) (auto split: option.splits if_splits)

lemma soonest_none: "soonest m = None \<longleftrightarrow> m = []"
  by (cases m rule: soonest.cases) (auto split: option.splits)

lemma soonest_least:
  "distinct (map fst m) \<Longrightarrow> soonest m = Some n \<Longrightarrow> map_of m n = Some a \<Longrightarrow> (k, b) \<in> set m \<Longrightarrow> expires_at a \<le> expires_at b"
proof (induction m arbitrary: n a rule: soonest.induct)
  case 1
  then show ?case by simp
next
  case (2 l c m)
  show ?case
  proof (cases "soonest m")
    case None
    with "2.prems" show ?thesis by (auto simp: soonest_none)
  next
    case (Some q)
    then have "q \<in> fst ` set m" by (rule soonest_in)
    then obtain d where d: "map_of m q = Some d" and ne: "q \<noteq> l"
      using "2.prems"(1) by (cases "map_of m q") (auto simp: map_of_eq_None_iff)
    have least: "(k, b) \<in> set m \<Longrightarrow> expires_at d \<le> expires_at b"
      using "2.IH" [OF _ Some d] "2.prems"(1) by simp
    show ?thesis
      using "2.prems" Some d ne least by (cases "expires_at c \<le> expires_at d") auto
  qed
qed

lemma distinct_make_room [simp]: "distinct (map fst m) \<Longrightarrow> distinct (map fst (make_room conv m))"
  by (auto simp: make_room_def split: option.splits)

lemma set_make_room: "set (make_room conv m) \<subseteq> set m"
  by (auto simp: make_room_def set_al_del split: option.splits)

lemma length_make_room:
  assumes "distinct (map fst m)" and "length m \<le> MAX_TOOL_APPROVALS"
  shows "length (make_room conv m) < MAX_TOOL_APPROVALS"
proof (cases "length m < MAX_TOOL_APPROVALS")
  case True
  then show ?thesis by (simp add: make_room_def)
next
  case False
  then have "m \<noteq> []" by (auto simp: MAX_TOOL_APPROVALS_def)
  let ?n = "case soonest (filter (\<lambda>(_, a). for_conversation (binding a) = conv) m) of Some n \<Rightarrow> Some n | None \<Rightarrow> soonest m"
  have sub: "set (filter (\<lambda>(_, a). for_conversation (binding a) = conv) m) \<subseteq> set m" by auto
  obtain n where n: "?n = Some n" and "n \<in> fst ` set m"
    using sub \<open>m \<noteq> []\<close> by (cases "soonest (filter (\<lambda>(_, a). for_conversation (binding a) = conv) m)"; cases "soonest m")
      (auto simp: soonest_none dest: soonest_in, force dest: soonest_in)
  then obtain a where "map_of m n = Some a" by (meson map_of_eq_None_iff not_None_eq)
  then have "Suc (length (al_del n m)) = length m" by (rule length_al_del [OF assms(1)])
  with False n assms(2) show ?thesis by (simp add: make_room_def)
qed

end
