(* ===== verification/Prompts.thy ===== *)
theory Prompts
  imports Approval
begin

text \<open>
  The registry of open confirmation cards and standing allowances (\<open>ToolPromptRegistry\<close> of
  \<^verbatim>\<open>src/tool_prompt.rs\<close>), one definition per operation that holds a lock. Times are in milliseconds; a sender is the
  number of the worker that waits on its channel.
\<close>

section \<open>Limits\<close>

definition PROMPT_TIMEOUT :: nat where "PROMPT_TIMEOUT = 30 * 60 * 1000"
definition CANCELLATION_POLL :: nat where "CANCELLATION_POLL = 150"
definition MANUAL_PROMPT_TTL :: nat where "MANUAL_PROMPT_TTL = 30 * 60 * 1000"
definition MAX_PENDING_PROMPTS :: nat where "MAX_PENDING_PROMPTS = 64"

section \<open>The registry\<close>

datatype pending_prompt =
    ModelPrompt ustring prompt_owner prompt_card nat
  | ManualPrompt tool_request risk_level nat

record prompt_registry =
  pending :: "(ustring \<times> pending_prompt) list"
  allowances :: "((ustring \<times> ustring) \<times> risk_level) list"

datatype prompt_error =
    TooManyCards
  | NeedsAnswers
  | PromptEnded
  | QuestionEnded
  | NotAQuestion
  | AnswersMismatch
  | StoppedBefore
  | StoppedWaiting
  | CardRetracted
  | CardTimedOut
  | NotShown ustring
  | NamesSpent

fun prompt_conversation :: "pending_prompt \<Rightarrow> ustring" where
  "prompt_conversation (ModelPrompt conv _ _ _) = conv"
| "prompt_conversation (ManualPrompt r _ _) = conversation_id r"

definition no_prompts :: prompt_registry where
  "no_prompts = \<lparr>pending = [], allowances = []\<rparr>"

section \<open>Allowances\<close>

definition is_always_allowed :: "ustring \<Rightarrow> ustring \<Rightarrow> risk_level \<Rightarrow> prompt_registry \<Rightarrow> bool" where
  "is_always_allowed conv tool risk reg =
     (case map_of (allowances reg) (conv, tool) of None \<Rightarrow> False | Some granted \<Rightarrow> risk \<le> granted)"

definition remember_allowance :: "ustring \<Rightarrow> ustring \<Rightarrow> risk_level \<Rightarrow> prompt_registry \<Rightarrow> prompt_registry" where
  "remember_allowance conv tool risk reg =
     reg\<lparr>allowances := al_put (conv, tool)
            (case map_of (allowances reg) (conv, tool) of None \<Rightarrow> risk | Some granted \<Rightarrow> max granted risk) (allowances reg)\<rparr>"

section \<open>Opening and closing cards\<close>

text \<open>What \<open>retain\<close> keeps: a card someone waits on, and a card of the tool editor that is not abandoned.\<close>

fun still_open :: "nat \<Rightarrow> pending_prompt \<Rightarrow> bool" where
  "still_open now (ModelPrompt _ _ _ _) = True"
| "still_open now (ManualPrompt _ _ opened_at) = (now - opened_at < MANUAL_PROMPT_TTL)"

definition register ::
    "nat \<Rightarrow> ustring list \<Rightarrow> (ustring \<Rightarrow> pending_prompt) \<Rightarrow> prompt_registry \<Rightarrow> (prompt_error + ustring) \<times> prompt_registry" where
  "register now names build reg =
     (let kept = filter (\<lambda>(_, e). still_open now e) (pending reg) in
      case draw kept names of
        None \<Rightarrow> (Inl NamesSpent, reg)
      | Some i \<Rightarrow>
          (if MAX_PENDING_PROMPTS \<le> length (filter (\<lambda>(_, e). prompt_conversation e = prompt_conversation (build i)) kept)
           then (Inl TooManyCards, reg\<lparr>pending := kept\<rparr>)
           else (Inr i, reg\<lparr>pending := al_put i (build i) kept\<rparr>)))"

definition close :: "ustring \<Rightarrow> prompt_registry \<Rightarrow> prompt_registry" where
  "close i reg = reg\<lparr>pending := al_del i (pending reg)\<rparr>"

definition open_manual ::
    "nat \<Rightarrow> ustring list \<Rightarrow> tool_request \<Rightarrow> risk_level \<Rightarrow> prompt_registry \<Rightarrow> (prompt_error + ustring) \<times> prompt_registry" where
  "open_manual now names r risk reg = register now names (\<lambda>_. ManualPrompt r risk now) reg"

definition all_pending_cards :: "prompt_registry \<Rightarrow> (ustring \<times> prompt_card) list" where
  "all_pending_cards reg =
     List.map_filter (\<lambda>(_, e). case e of ModelPrompt conv _ c _ \<Rightarrow> Some (conv, c) | ManualPrompt _ _ _ \<Rightarrow> None) (pending reg)"

section \<open>Answering\<close>

text \<open>The first half of \<open>resolve\<close>, under the lock: the card that is taken off.\<close>

definition take_card :: "ustring \<Rightarrow> decision \<Rightarrow> prompt_registry \<Rightarrow> (prompt_error + pending_prompt) \<times> prompt_registry" where
  "take_card i d reg =
     (case map_of (pending reg) i of
        None \<Rightarrow> (Inl PromptEnded, reg)
      | Some e \<Rightarrow>
          (if (case e of ModelPrompt _ _ c _ \<Rightarrow> card_kind c = QuestionCard | ManualPrompt _ _ _ \<Rightarrow> False) \<and> allows d
           then (Inl NeedsAnswers, reg)
           else (Inr e, close i reg)))"

text \<open>The other half of it for a card of the tool editor.\<close>

definition settle_manual :: "tool_request \<Rightarrow> risk_level \<Rightarrow> decision \<Rightarrow> prompt_registry \<Rightarrow> prompt_registry" where
  "settle_manual r risk d reg =
     (if d = AllowAlways then remember_allowance (conversation_id r) (tool_name r) risk reg else reg)"

definition question_count :: "prompt_card \<Rightarrow> nat" where
  "question_count c =
     (case Option.bind (card_questions c) as_array of None \<Rightarrow> 0 | Some qs \<Rightarrow> length qs)"

definition lines_up :: "prompt_card \<Rightarrow> question_response \<Rightarrow> bool" where
  "lines_up c r \<longleftrightarrow>
     (length (q_answers r) = question_count c \<or> q_action r = Close \<and> q_answers r = []) \<and>
     (q_previews r = [] \<or> length (q_previews r) = question_count c) \<and>
     (q_notes r = [] \<or> length (q_notes r) = question_count c)"

definition take_question :: "ustring \<Rightarrow> question_response \<Rightarrow> prompt_registry \<Rightarrow> (prompt_error + nat) \<times> prompt_registry" where
  "take_question i r reg =
     (case map_of (pending reg) i of
        Some (ModelPrompt _ _ c s) \<Rightarrow>
          (if card_kind c \<noteq> QuestionCard then (Inl NotAQuestion, reg)
           else if \<not> lines_up c r then (Inl AnswersMismatch, reg)
           else (Inr s, close i reg))
      | _ \<Rightarrow> (Inl QuestionEnded, reg))"

fun question_decision :: "question_action \<Rightarrow> decision" where
  "question_decision Submit = AllowOnce"
| "question_decision Close = Deny"
| "question_decision Chat = Deny"

definition question_answer :: "question_response \<Rightarrow> prompt_answer" where
  "question_answer r = \<lparr>decision = question_decision (q_action r), feedback = None, question = Some r\<rparr>"

section \<open>Retracting\<close>

definition cancel_run_prompts :: "ustring \<Rightarrow> ustring \<Rightarrow> prompt_registry \<Rightarrow> prompt_registry" where
  "cancel_run_prompts conv run reg =
     reg\<lparr>pending := filter (\<lambda>(_, e). case e of
            ModelPrompt c (RunOwner r) _ _ \<Rightarrow> \<not> (c = conv \<and> r = run)
          | _ \<Rightarrow> True) (pending reg)\<rparr>"

definition clear_pending :: "prompt_registry \<Rightarrow> prompt_registry" where
  "clear_pending reg = reg\<lparr>pending := []\<rparr>"

definition clear_allowances :: "prompt_registry \<Rightarrow> prompt_registry" where
  "clear_allowances reg = reg\<lparr>allowances := []\<rparr>"

section \<open>What the registry keeps\<close>

definition prompts_ok :: "prompt_registry \<Rightarrow> bool" where
  "prompts_ok reg \<longleftrightarrow>
     distinct (map fst (pending reg)) \<and>
     (\<forall>conv. length (filter (\<lambda>(_, e). prompt_conversation e = conv) (pending reg)) \<le> MAX_PENDING_PROMPTS)"

lemma length_filter_both: "length (filter (\<lambda>x. Q x \<and> P x) xs) \<le> length (filter P xs)"
  by (induction xs) auto

lemma prompts_ok_filter: "prompts_ok reg \<Longrightarrow> prompts_ok (reg\<lparr>pending := filter Q (pending reg)\<rparr>)"
  unfolding prompts_ok_def
  by (auto intro: distinct_map_filter order_trans [OF length_filter_both])

lemma prompts_ok_close: "prompts_ok reg \<Longrightarrow> prompts_ok (close i reg)"
  by (simp add: close_def al_del_def prompts_ok_filter)

lemma prompts_ok_cancel: "prompts_ok reg \<Longrightarrow> prompts_ok (cancel_run_prompts conv run reg)"
  by (simp add: cancel_run_prompts_def prompts_ok_filter)

lemma prompts_ok_clear: "prompts_ok (clear_pending reg)" "prompts_ok (clear_allowances reg) = prompts_ok reg"
  by (simp_all add: prompts_ok_def clear_pending_def clear_allowances_def)

lemma prompts_ok_remember: "prompts_ok (remember_allowance conv tool risk reg) = prompts_ok reg"
  by (simp add: prompts_ok_def remember_allowance_def)

lemma prompts_ok_new: "prompts_ok no_prompts"
  by (simp add: prompts_ok_def no_prompts_def)

lemma prompts_ok_register:
  assumes "prompts_ok reg"
  shows "prompts_ok (snd (register now names build reg))"
proof -
  let ?kept = "filter (\<lambda>(_, e). still_open now e) (pending reg)"
  have kept: "prompts_ok (reg\<lparr>pending := ?kept\<rparr>)" by (rule prompts_ok_filter [OF assms])
  show ?thesis
  proof (cases "draw ?kept names")
    case None
    with assms show ?thesis by (simp add: register_def)
  next
    case (Some i)
    then have new: "al_del i ?kept = ?kept" by (intro al_del_absent) (blast dest: draw_Some)
    moreover have "i \<notin> fst ` set ?kept" using draw_Some [OF Some] by (simp add: map_of_eq_None_iff)
    ultimately show ?thesis
      using kept Some by (auto simp: register_def Let_def prompts_ok_def al_put_def)
  qed
qed

end
