(* ===== verification/PromptWorld.thy ===== *)
theory PromptWorld
  imports Prompts
begin

text \<open>
  The threads around the registries: workers inside \<open>ask_answer\<close> (\<^verbatim>\<open>src/tool_prompt.rs\<close>), the renderer's commands
  \<open>request_tool_approval\<close>, \<open>resolve_tool_prompt\<close> and \<open>execute_tool\<close> (\<^verbatim>\<open>src/lib.rs\<close>), the end of a run and the reset
  (\<^verbatim>\<open>src/state.rs\<close>). One event is one stretch of a thread between two locks, so every interleaving is a list of events.
  \<open>said\<close> is the history and decides nothing.
\<close>

section \<open>Workers\<close>

text \<open>What \<open>ask_answer\<close> is called with; a flag is its number.\<close>

record asking =
  ask_conversation :: ustring
  ask_owner :: prompt_owner
  ask_mandatory :: bool
  ask_risk :: risk_level
  ask_flags :: "nat list"
  ask_card :: prompt_card

datatype outcome = Answered prompt_answer | Cancelled | TimedOut | Retracted

text \<open>
  Where a worker stands: before the allowance is looked up, before the flags, before \<open>register\<close>, before \<open>announce\<close>, at the
  head of the loop and inside \<open>recv_timeout\<close> with what it has waited, before \<open>close\<close>, before the outcome is acted on,
  before the allowance is recorded, and returned.
\<close>

datatype phase =
    Starting
  | Checking
  | Registering
  | Showing ustring
  | Waiting ustring nat
  | Receiving ustring nat
  | Closing ustring outcome
  | Settling outcome
  | Remembering prompt_answer
  | Returned "prompt_error + prompt_answer"

section \<open>Commands\<close>

record security_decision =
  requires_approval :: bool
  must_prompt :: bool
  decided_risk :: risk_level

text \<open>
  \<open>trusted_conversation_policy\<close> read from the saved document, and the verdict of \<open>classify_in_workspaces\<close> under it, which
  may fail. \<open>memory_tools\<close> are the tools of the memory category.
\<close>

record trusted_policy =
  policy_workspace :: ustring
  enabled_tools :: "ustring list"
  known_tools :: "ustring list"
  memory_tools :: "ustring list"
  fingerprint :: ustring
  classify :: "tool_request \<Rightarrow> unit + security_decision"

text \<open>A thread of the renderer's between two locks. A nonce is issued for an answer or under a standing allowance.\<close>

datatype hand =
    Sending nat prompt_answer
  | Settle tool_request risk_level decision
  | IssueAnswered tool_request
  | IssueStanding tool_request risk_level ustring
  | Opening tool_request risk_level
  | ResetPrompts
  | ResetAllowances

section \<open>The world\<close>

datatype said =
    CardOpened nat ustring
  | CardAnswered nat ustring prompt_answer
  | ManualAnswered tool_request risk_level decision
  | Issued ustring tool_binding nat tool_request "risk_level option"
  | Ran ustring tool_binding nat
  | RunEnded ustring ustring
  | CardsCleared

record prompt_world =
  prompts :: prompt_registry
  approvals :: approval_registry
  asked :: "asking list"
  phases :: "phase list"
  mailbox :: "prompt_answer option list"
  hands :: "hand list"
  raised :: "nat list"
  clock :: nat
  said :: "said list"

definition prompt_world_new :: prompt_world where
  "prompt_world_new =
     \<lparr>prompts = no_prompts, approvals = no_approvals, asked = [], phases = [], mailbox = [], hands = [], raised = [],
      clock = 0, said = []\<rparr>"

definition log_said :: "said \<Rightarrow> prompt_world \<Rightarrow> prompt_world" where
  "log_said x w = w\<lparr>said := x # said w\<rparr>"

definition set_phase :: "nat \<Rightarrow> phase \<Rightarrow> prompt_world \<Rightarrow> prompt_world" where
  "set_phase c p w = w\<lparr>phases := (phases w)[c := p]\<rparr>"

definition on_prompts :: "(prompt_registry \<Rightarrow> prompt_registry) \<Rightarrow> prompt_world \<Rightarrow> prompt_world" where
  "on_prompts f w = w\<lparr>prompts := f (prompts w)\<rparr>"

section \<open>A worker's turn\<close>

definition blanket_allowable :: "asking \<Rightarrow> bool" where
  "blanket_allowable a \<longleftrightarrow>
     card_kind (ask_card a) = ToolCard \<and> \<not> ask_mandatory a \<and> \<not> never_blanket_allowed (card_tool (ask_card a))"

definition never_times_out :: "asking \<Rightarrow> bool" where
  "never_times_out a \<longleftrightarrow> card_kind (ask_card a) = QuestionCard"

definition stopped :: "prompt_world \<Rightarrow> asking \<Rightarrow> bool" where
  "stopped w a \<longleftrightarrow> list_ex (\<lambda>f. f \<in> set (raised w)) (ask_flags a)"

text \<open>Whether a sender of this worker's channel is left: in the registry, or in the hand of who is about to send.\<close>

definition sender_left :: "nat \<Rightarrow> prompt_world \<Rightarrow> bool" where
  "sender_left c w \<longleftrightarrow>
     list_ex (\<lambda>(_, e). case e of ModelPrompt _ _ _ s \<Rightarrow> s = c | ManualPrompt _ _ _ \<Rightarrow> False) (pending (prompts w)) \<or>
     list_ex (\<lambda>h. case h of Sending s _ \<Rightarrow> s = c | _ \<Rightarrow> False) (hands w)"

definition open_card :: "nat \<Rightarrow> asking \<Rightarrow> ustring list \<Rightarrow> prompt_world \<Rightarrow> prompt_world" where
  "open_card c a names w =
     (case register (clock w) names
             (\<lambda>i. ModelPrompt (ask_conversation a) (ask_owner a) ((ask_card a)\<lparr>prompt_id := i\<rparr>) c) (prompts w) of
        (Inl e, reg) \<Rightarrow> (if e = NamesSpent then w else set_phase c (Returned (Inl e)) (w\<lparr>prompts := reg\<rparr>))
      | (Inr i, reg) \<Rightarrow> log_said (CardOpened c i) (set_phase c (Showing i) (w\<lparr>prompts := reg\<rparr>)))"

definition poll :: "nat \<Rightarrow> asking \<Rightarrow> ustring \<Rightarrow> nat \<Rightarrow> prompt_world \<Rightarrow> prompt_world" where
  "poll c a i waited w =
     (case mailbox w ! c of
        Some m \<Rightarrow> set_phase c (Closing i (Answered m)) (w\<lparr>mailbox := (mailbox w)[c := None]\<rparr>)
      | None \<Rightarrow>
          (if \<not> sender_left c w then set_phase c (Closing i Retracted) w
           else let waited = waited + CANCELLATION_POLL
                in if \<not> never_times_out a \<and> PROMPT_TIMEOUT \<le> waited then set_phase c (Closing i TimedOut) w
                   else set_phase c (Waiting i waited) w))"

definition settle :: "nat \<Rightarrow> asking \<Rightarrow> outcome \<Rightarrow> prompt_world \<Rightarrow> prompt_world" where
  "settle c a out w =
     set_phase c
       (case out of
          Answered m \<Rightarrow>
            (if stopped w a then Returned (Inl StoppedWaiting)
             else if blanket_allowable a \<and> decision m = AllowAlways then Remembering m
             else Returned (Inr m))
        | Cancelled \<Rightarrow> Returned (Inl StoppedWaiting)
        | Retracted \<Rightarrow> Returned (Inl CardRetracted)
        | TimedOut \<Rightarrow> Returned (Inl CardTimedOut)) w"

text \<open>\<open>shown\<close> is what \<open>announce\<close> returns: \<open>None\<close>, or the error that kept the card off the screen.\<close>

definition turn :: "nat \<Rightarrow> ustring list \<Rightarrow> ustring option \<Rightarrow> prompt_world \<Rightarrow> prompt_world" where
  "turn c names shown w =
     (if length (asked w) \<le> c then w
      else let a = asked w ! c in
      case phases w ! c of
        Starting \<Rightarrow>
          (if blanket_allowable a \<and> is_always_allowed (ask_conversation a) (card_tool (ask_card a)) (ask_risk a) (prompts w)
           then set_phase c (Returned (Inr (plain_answer AllowAlways))) w
           else set_phase c Checking w)
      | Checking \<Rightarrow> set_phase c (if stopped w a then Returned (Inl StoppedBefore) else Registering) w
      | Registering \<Rightarrow> open_card c a names w
      | Showing i \<Rightarrow>
          (case shown of
             Some e \<Rightarrow> set_phase c (Returned (Inl (NotShown e))) (on_prompts (close i) w)
           | None \<Rightarrow> set_phase c (Waiting i 0) w)
      | Waiting i t \<Rightarrow> set_phase c (if stopped w a then Closing i Cancelled else Receiving i t) w
      | Receiving i t \<Rightarrow> poll c a i t w
      | Closing i out \<Rightarrow> set_phase c (Settling out) (on_prompts (close i) w)
      | Settling out \<Rightarrow> settle c a out w
      | Remembering m \<Rightarrow>
          set_phase c (Returned (Inr m))
            (on_prompts (remember_allowance (ask_conversation a) (card_tool (ask_card a)) (ask_risk a)) w)
      | Returned r \<Rightarrow> w)"

section \<open>The renderer's commands\<close>

text \<open>The renderer answers a card; the entry is taken off under the lock, and acted on afterwards.\<close>

definition resolve :: "ustring \<Rightarrow> decision \<Rightarrow> ustring option \<Rightarrow> prompt_world \<Rightarrow> prompt_world" where
  "resolve i d said_too w =
     (case take_card i d (prompts w) of
        (Inl e, _) \<Rightarrow> w
      | (Inr (ModelPrompt _ _ _ s), reg) \<Rightarrow>
          (let m = \<lparr>decision = d, feedback = sanitize_prompt_feedback said_too, question = None\<rparr>
           in log_said (CardAnswered s i m) (w\<lparr>prompts := reg, hands := hands w @ [Sending s m]\<rparr>))
      | (Inr (ManualPrompt r risk _), reg) \<Rightarrow>
          log_said (ManualAnswered r risk d) (w\<lparr>prompts := reg, hands := hands w @ [Settle r risk d]\<rparr>))"

definition resolve_question :: "ustring \<Rightarrow> question_response \<Rightarrow> prompt_world \<Rightarrow> prompt_world" where
  "resolve_question i r w =
     (case take_question i r (prompts w) of
        (Inl e, _) \<Rightarrow> w
      | (Inr s, reg) \<Rightarrow>
          log_said (CardAnswered s i (question_answer r)) (w\<lparr>prompts := reg, hands := hands w @ [Sending s (question_answer r)]\<rparr>))"

text \<open>The checks that \<open>request_tool_approval\<close> and \<open>execute_tool\<close> share: the trusted workspace, the tool enabled and known.\<close>

definition admitted :: "trusted_policy \<Rightarrow> tool_request \<Rightarrow> (tool_request \<times> security_decision) option" where
  "admitted pol r =
     (let r = r\<lparr>workspace_path := policy_workspace pol\<rparr> in
      if tool_name r \<notin> set (enabled_tools pol) \<or> tool_name r \<notin> set (known_tools pol) then None
      else case classify pol r of Inl _ \<Rightarrow> None | Inr d \<Rightarrow> Some (r, d))"

definition request_tool_approval :: "trusted_policy \<Rightarrow> tool_request \<Rightarrow> prompt_world \<Rightarrow> prompt_world" where
  "request_tool_approval pol r w =
     (case admitted pol r of
        None \<Rightarrow> w
      | Some (r, d) \<Rightarrow>
          (if \<not> requires_approval d then w
           else if \<not> must_prompt d \<and> is_always_allowed (conversation_id r) (tool_name r) (decided_risk d) (prompts w)
           then w\<lparr>hands := hands w @ [IssueStanding r (decided_risk d) (fingerprint pol)]\<rparr>
           else w\<lparr>hands := hands w @ [Opening r (decided_risk d)]\<rparr>))"

definition issue ::
    "approval_host \<Rightarrow> ustring list \<Rightarrow> tool_request \<Rightarrow> risk_level option \<Rightarrow> ustring \<Rightarrow> prompt_world \<Rightarrow> prompt_world" where
  "issue h names r why env w =
     (case issue_tool_approval h (clock w) names r env (approvals w) of
        (Inl _, reg) \<Rightarrow> w\<lparr>approvals := reg\<rparr>
      | (Inr g, reg) \<Rightarrow>
          (case (nonce g, tool_binding_of h r env) of
             (Some n, Inr b) \<Rightarrow> log_said (Issued n b (clock w + TOOL_APPROVAL_TTL) r why) (w\<lparr>approvals := reg\<rparr>)
           | _ \<Rightarrow> w\<lparr>approvals := reg\<rparr>))"

text \<open>What a thread in between does next. An allowed manual answer goes on to its nonce.\<close>

definition act :: "approval_host \<Rightarrow> ustring list \<Rightarrow> ustring \<Rightarrow> hand \<Rightarrow> prompt_world \<Rightarrow> prompt_world" where
  "act h names env x w =
     (case x of
        Sending s m \<Rightarrow>
          w\<lparr>mailbox := (mailbox w)[s := (case mailbox w ! s of None \<Rightarrow> Some m | Some m' \<Rightarrow> Some m')]\<rparr>
      | Settle r risk d \<Rightarrow>
          (let w = on_prompts (settle_manual r risk d) w
           in if allows d then w\<lparr>hands := hands w @ [IssueAnswered r]\<rparr> else w)
      | IssueAnswered r \<Rightarrow> issue h names r None env w
      | IssueStanding r risk env \<Rightarrow> issue h names r (Some risk) env w
      | Opening r risk \<Rightarrow> on_prompts (\<lambda>reg. snd (open_manual (clock w) names r risk reg)) w
      | ResetPrompts \<Rightarrow>
          log_said CardsCleared (on_prompts clear_pending (w\<lparr>hands := hands w @ [ResetAllowances]\<rparr>))
      | ResetAllowances \<Rightarrow> on_prompts clear_allowances w)"

definition execute_tool :: "approval_host \<Rightarrow> trusted_policy \<Rightarrow> ustring option \<Rightarrow> tool_request \<Rightarrow> prompt_world \<Rightarrow> prompt_world" where
  "execute_tool h pol given r w =
     (case admitted pol r of
        None \<Rightarrow> w
      | Some (r, d) \<Rightarrow>
          (if tool_name r \<in> set (memory_tools pol) \<or> \<not> requires_approval d then w
           else case given of
             None \<Rightarrow> w
           | Some n \<Rightarrow>
               (case (consume_tool_approval h (clock w) n r (fingerprint pol) (approvals w), tool_binding_of h r (fingerprint pol)) of
                  ((Inr _, reg), Inr b) \<Rightarrow> log_said (Ran n b (clock w)) (w\<lparr>approvals := reg\<rparr>)
                | ((_, reg), _) \<Rightarrow> w\<lparr>approvals := reg\<rparr>)))"

section \<open>Events\<close>

datatype prompt_event =
    Tick nat
  | RaiseFlag nat
  | Ask asking
  | Turn nat "ustring list" "ustring option"
  | Resolve ustring decision "ustring option"
  | ResolveQuestion ustring question_response
  | Request trusted_policy tool_request
  | Act nat approval_host "ustring list" ustring
  | Execute approval_host trusted_policy "ustring option" tool_request
  | EndRun ustring ustring
  | Reset

fun prompt_step :: "prompt_world \<Rightarrow> prompt_event \<Rightarrow> prompt_world" where
  "prompt_step w (Tick n) = w\<lparr>clock := clock w + n\<rparr>"
| "prompt_step w (RaiseFlag f) = w\<lparr>raised := f # raised w\<rparr>"
| "prompt_step w (Ask a) = w\<lparr>asked := asked w @ [a], phases := phases w @ [Starting], mailbox := mailbox w @ [None]\<rparr>"
| "prompt_step w (Turn c names shown) = turn c names shown w"
| "prompt_step w (Resolve i d s) = resolve i d s w"
| "prompt_step w (ResolveQuestion i r) = resolve_question i r w"
| "prompt_step w (Request pol r) = request_tool_approval pol r w"
| "prompt_step w (Act k h names env) =
     (if k < length (hands w)
      then act h names env (hands w ! k) (w\<lparr>hands := take k (hands w) @ drop (Suc k) (hands w)\<rparr>) else w)"
| "prompt_step w (Execute h pol given r) = execute_tool h pol given r w"
| "prompt_step w (EndRun conv run) = log_said (RunEnded conv run) (on_prompts (cancel_run_prompts conv run) w)"
| "prompt_step w Reset = w\<lparr>approvals := clear_approvals (approvals w), hands := hands w @ [ResetPrompts]\<rparr>"

end
