(* ===== verification/PromptInv.thy ===== *)
theory PromptInv
  imports PromptWorld
begin

text \<open>
  What holds in every state of the threads around the registries: each answer in flight, each allowance and each nonce goes
  back to something the user said. Each part is stated over the questions asked and the history, which only grow.
\<close>

section \<open>Where authority comes from\<close>

text \<open>
  Some earlier answer stands for the tool in this conversation, at this risk or a higher one. On a worker's card it must
  have been one the level alone was to settle.
\<close>

fun stands_for :: "asking list \<Rightarrow> ustring \<Rightarrow> ustring \<Rightarrow> risk_level \<Rightarrow> said \<Rightarrow> bool" where
  "stands_for A conv tool risk (CardAnswered c i m) =
     (c < length A \<and> decision m = AllowAlways \<and> blanket_allowable (A ! c) \<and> ask_conversation (A ! c) = conv \<and>
      card_tool (ask_card (A ! c)) = tool \<and> risk \<le> ask_risk (A ! c))"
| "stands_for A conv tool risk (ManualAnswered r k d) =
     (d = AllowAlways \<and> conversation_id r = conv \<and> tool_name r = tool \<and> risk \<le> k)"
| "stands_for A conv tool risk _ = False"

definition standing :: "asking list \<Rightarrow> said list \<Rightarrow> ustring \<Rightarrow> ustring \<Rightarrow> risk_level \<Rightarrow> bool" where
  "standing A S conv tool risk \<longleftrightarrow> list_ex (stands_for A conv tool risk) S"

fun agrees_to :: "tool_request \<Rightarrow> said \<Rightarrow> bool" where
  "agrees_to r (ManualAnswered r' k d) = (r' = r \<and> allows d)"
| "agrees_to r _ = False"

definition agreed :: "asking list \<Rightarrow> said list \<Rightarrow> tool_request \<Rightarrow> risk_level option \<Rightarrow> bool" where
  "agreed A S r why =
     (case why of
        None \<Rightarrow> list_ex (agrees_to r) S
      | Some k \<Rightarrow> standing A S (conversation_id r) (tool_name r) k)"

text \<open>The user's answer to this worker: given to a card, by its name, that was opened for it.\<close>

fun answer_to :: "nat \<Rightarrow> prompt_answer \<Rightarrow> said list \<Rightarrow> said \<Rightarrow> bool" where
  "answer_to c m S (CardAnswered c' i m') = (c' = c \<and> m' = m \<and> CardOpened c i \<in> set S)"
| "answer_to c m S _ = False"

definition answered :: "nat \<Rightarrow> prompt_answer \<Rightarrow> said list \<Rightarrow> bool" where
  "answered c m S \<longleftrightarrow> list_ex (answer_to c m S) S"

section \<open>Parts of the state\<close>

fun phase_ok :: "asking list \<Rightarrow> said list \<Rightarrow> nat \<Rightarrow> phase \<Rightarrow> bool" where
  "phase_ok A S c (Closing i (Answered m)) = (answered c m S)"
| "phase_ok A S c (Settling (Answered m)) = (answered c m S)"
| "phase_ok A S c (Remembering m) = (answered c m S \<and> decision m = AllowAlways \<and> blanket_allowable (A ! c))"
| "phase_ok A S c (Returned (Inr m)) =
     (answered c m S \<or>
      m = plain_answer AllowAlways \<and> blanket_allowable (A ! c) \<and>
      standing A S (ask_conversation (A ! c)) (card_tool (ask_card (A ! c))) (ask_risk (A ! c)))"
| "phase_ok A S c _ = True"

fun hand_ok :: "asking list \<Rightarrow> said list \<Rightarrow> hand \<Rightarrow> bool" where
  "hand_ok A S (Sending c m) = (c < length A \<and> answered c m S)"
| "hand_ok A S (Settle r k d) = (ManualAnswered r k d \<in> set S)"
| "hand_ok A S (IssueAnswered r) = agreed A S r None"
| "hand_ok A S (IssueStanding r k env) = agreed A S r (Some k)"
| "hand_ok A S _ = True"

definition issued_ok :: "asking list \<Rightarrow> said list \<Rightarrow> ustring \<Rightarrow> tool_binding \<Rightarrow> nat \<Rightarrow> said \<Rightarrow> bool" where
  "issued_ok A S n b e x =
     (case x of
        Issued n' b' e' r why \<Rightarrow> n' = n \<and> b' = b \<and> e' = e \<and> agreed A S r why \<and>
          for_conversation b = conversation_id r \<and> of_tool b = tool_name r
      | _ \<Rightarrow> False)"

definition issued_for :: "asking list \<Rightarrow> said list \<Rightarrow> ustring \<Rightarrow> tool_binding \<Rightarrow> nat \<Rightarrow> bool" where
  "issued_for A S n b e \<longleftrightarrow> list_ex (issued_ok A S n b e) S"

definition in_time :: "asking list \<Rightarrow> said list \<Rightarrow> ustring \<Rightarrow> tool_binding \<Rightarrow> nat \<Rightarrow> bool" where
  "in_time A S n b t \<longleftrightarrow> (\<exists>e > t. issued_for A S n b e)"

fun entry_ok :: "asking list \<Rightarrow> said list \<Rightarrow> ustring \<Rightarrow> pending_prompt \<Rightarrow> bool" where
  "entry_ok A S i (ModelPrompt conv owner k c) \<longleftrightarrow>
     c < length A \<and> CardOpened c i \<in> set S \<and> conv = ask_conversation (A ! c) \<and> owner = ask_owner (A ! c) \<and>
     k = (ask_card (A ! c))\<lparr>prompt_id := i\<rparr>"
| "entry_ok A S i (ManualPrompt _ _ _) \<longleftrightarrow> True"

text \<open>Nonces issued, and nonces that ran a call or still may: none is used twice.\<close>

definition issues :: "said list \<Rightarrow> (ustring \<times> tool_binding) multiset" where
  "issues S = mset (List.map_filter (\<lambda>x. case x of Issued n b _ _ _ \<Rightarrow> Some (n, b) | _ \<Rightarrow> None) S)"

definition runs :: "said list \<Rightarrow> (ustring \<times> tool_binding) multiset" where
  "runs S = mset (List.map_filter (\<lambda>x. case x of Ran n b _ \<Rightarrow> Some (n, b) | _ \<Rightarrow> None) S)"

definition open_nonces :: "(ustring \<times> tool_approval) list \<Rightarrow> (ustring \<times> tool_binding) multiset" where
  "open_nonces m = mset (map (\<lambda>(n, a). (n, binding a)) m)"

definition workers_ok :: "asking list \<Rightarrow> said list \<Rightarrow> phase list \<Rightarrow> prompt_answer option list \<Rightarrow> bool" where
  "workers_ok A S P M \<longleftrightarrow>
     length P = length A \<and> length M = length A \<and>
     (\<forall>c < length A. phase_ok A S c (P ! c) \<and> (\<forall>m. M ! c = Some m \<longrightarrow> answered c m S))"

definition prompts_told :: "asking list \<Rightarrow> said list \<Rightarrow> prompt_registry \<Rightarrow> bool" where
  "prompts_told A S reg \<longleftrightarrow>
     prompts_ok reg \<and> (\<forall>(i, e) \<in> set (pending reg). entry_ok A S i e) \<and>
     (\<forall>conv tool g. map_of (allowances reg) (conv, tool) = Some g \<longrightarrow> standing A S conv tool g)"

definition approvals_told :: "asking list \<Rightarrow> said list \<Rightarrow> approval_registry \<Rightarrow> bool" where
  "approvals_told A S reg \<longleftrightarrow>
     distinct (map fst (tool_approvals reg)) \<and> length (tool_approvals reg) \<le> MAX_TOOL_APPROVALS \<and>
     (\<forall>(n, a) \<in> set (tool_approvals reg). issued_for A S n (binding a) (expires_at a)) \<and>
     (\<forall>n b t. Ran n b t \<in> set S \<longrightarrow> in_time A S n b t) \<and>
     open_nonces (tool_approvals reg) + runs S \<subseteq># issues S"

definition world_ok :: "prompt_world \<Rightarrow> bool" where
  "world_ok w \<longleftrightarrow>
     workers_ok (asked w) (said w) (phases w) (mailbox w) \<and>
     prompts_told (asked w) (said w) (prompts w) \<and>
     approvals_told (asked w) (said w) (approvals w) \<and>
     (\<forall>h \<in> set (hands w). hand_ok (asked w) (said w) h)"

section \<open>The history only grows\<close>

lemma stands_for_mono: "stands_for A conv tool risk x \<Longrightarrow> stands_for (A @ B) conv tool risk x"
  by (cases x) (auto simp: nth_append)

lemma standing_mono: "standing A S conv tool risk \<Longrightarrow> set S \<subseteq> set S' \<Longrightarrow> standing (A @ B) S' conv tool risk"
  by (auto simp: standing_def list_ex_iff intro: stands_for_mono)

lemma standing_less: "standing A S conv tool g \<Longrightarrow> risk \<le> g \<Longrightarrow> standing A S conv tool risk"
proof -
  have "stands_for A conv tool g x \<Longrightarrow> risk \<le> g \<Longrightarrow> stands_for A conv tool risk x" for x
    by (cases x) auto
  then show "standing A S conv tool g \<Longrightarrow> risk \<le> g \<Longrightarrow> standing A S conv tool risk"
    by (auto simp: standing_def list_ex_iff)
qed

lemma agreed_mono: "agreed A S r why \<Longrightarrow> set S \<subseteq> set S' \<Longrightarrow> agreed (A @ B) S' r why"
  by (auto simp: agreed_def list_ex_iff intro: standing_mono split: option.splits)

lemma answered_mono: "answered c m S \<Longrightarrow> set S \<subseteq> set S' \<Longrightarrow> answered c m S'"
proof -
  have "answer_to c m S x \<Longrightarrow> set S \<subseteq> set S' \<Longrightarrow> answer_to c m S' x" for x by (cases x) auto
  then show "answered c m S \<Longrightarrow> set S \<subseteq> set S' \<Longrightarrow> answered c m S'" by (auto simp: answered_def list_ex_iff)
qed

lemma phase_ok_mono: "phase_ok A S c p \<Longrightarrow> c < length A \<Longrightarrow> set S \<subseteq> set S' \<Longrightarrow> phase_ok (A @ B) S' c p"
  by (cases "(A, S, c, p)" rule: phase_ok.cases) (auto simp: nth_append intro: standing_mono answered_mono)

lemma hand_ok_mono: "hand_ok A S h \<Longrightarrow> set S \<subseteq> set S' \<Longrightarrow> hand_ok (A @ B) S' h"
  by (cases h) (auto intro: agreed_mono answered_mono)

lemma issued_ok_mono: "issued_ok A S n b e x \<Longrightarrow> set S \<subseteq> set S' \<Longrightarrow> issued_ok (A @ B) S' n b e x"
  by (cases x) (auto simp: issued_ok_def intro: agreed_mono)

lemma issued_for_mono: "issued_for A S n b e \<Longrightarrow> set S \<subseteq> set S' \<Longrightarrow> issued_for (A @ B) S' n b e"
  by (auto simp: issued_for_def list_ex_iff intro: issued_ok_mono)

lemma in_time_mono: "in_time A S n b t \<Longrightarrow> set S \<subseteq> set S' \<Longrightarrow> in_time (A @ B) S' n b t"
  by (auto simp: in_time_def intro: issued_for_mono)

lemma entry_ok_mono: "entry_ok A S i e \<Longrightarrow> set S \<subseteq> set S' \<Longrightarrow> entry_ok (A @ B) S' i e"
  by (cases e) (auto simp: nth_append)

lemma workers_ok_said: "workers_ok A S P M \<Longrightarrow> set S \<subseteq> set S' \<Longrightarrow> workers_ok A S' P M"
  using phase_ok_mono [where B = "[]"] answered_mono by (auto simp: workers_ok_def)

lemma prompts_told_mono: "prompts_told A S reg \<Longrightarrow> set S \<subseteq> set S' \<Longrightarrow> prompts_told (A @ B) S' reg"
  by (fastforce simp: prompts_told_def intro: entry_ok_mono standing_mono)

lemma hands_ok_mono:
  "\<forall>h \<in> set hs. hand_ok A S h \<Longrightarrow> set S \<subseteq> set S' \<Longrightarrow> \<forall>h \<in> set hs. hand_ok (A @ B) S' h"
  by (blast intro: hand_ok_mono)

text \<open>A saying that neither issues nor runs leaves the nonces as they were.\<close>

definition plain_said :: "said \<Rightarrow> bool" where
  "plain_said x = (case x of Issued _ _ _ _ _ \<Rightarrow> False | Ran _ _ _ \<Rightarrow> False | _ \<Rightarrow> True)"

lemma approvals_told_mono: "approvals_told A S reg \<Longrightarrow> approvals_told (A @ B) S reg"
  unfolding approvals_told_def by (fastforce intro: issued_for_mono in_time_mono)

lemma approvals_told_plain:
  assumes "approvals_told A S reg" and "plain_said x"
  shows "approvals_told A (x # S) reg"
proof -
  have "issues (x # S) = issues S" and "runs (x # S) = runs S"
    using assms(2) by (cases x; simp add: plain_said_def issues_def runs_def)+
  moreover have "issued_for A S n b e \<Longrightarrow> issued_for A (x # S) n b e" "in_time A S n b t \<Longrightarrow> in_time A (x # S) n b t" for n b e t
    using issued_for_mono [of A S n b e "x # S" "[]"] in_time_mono [of A S n b t "x # S" "[]"] by auto
  moreover have "Ran n b t \<in> set (x # S) \<Longrightarrow> Ran n b t \<in> set S" for n b t
    using assms(2) by (auto simp: plain_said_def)
  ultimately show ?thesis using assms(1) by (fastforce simp: approvals_told_def)
qed

lemma world_ok_said:
  assumes "world_ok w" and "plain_said x"
  shows "world_ok (log_said x w)"
  using assms workers_ok_said [of "asked w" "said w" "phases w" "mailbox w" "x # said w"]
    prompts_told_mono [of "asked w" "said w" "prompts w" "x # said w" "[]"] approvals_told_plain
    hands_ok_mono [of "hands w" "asked w" "said w" "x # said w" "[]"]
  by (auto simp: world_ok_def log_said_def)

section \<open>The registries keep what they were told\<close>

lemma prompts_told_filter:
  "prompts_told A S reg \<Longrightarrow> prompts_told A S (reg\<lparr>pending := filter P (pending reg)\<rparr>)"
  unfolding prompts_told_def using prompts_ok_filter [of reg P] by auto

lemma prompts_told_close: "prompts_told A S reg \<Longrightarrow> prompts_told A S (close i reg)"
  by (simp add: close_def al_del_def prompts_told_filter)

lemma prompts_told_cancel: "prompts_told A S reg \<Longrightarrow> prompts_told A S (cancel_run_prompts conv run reg)"
  by (simp add: cancel_run_prompts_def prompts_told_filter)

lemma prompts_told_clear:
  "prompts_told A S reg \<Longrightarrow> prompts_told A S (clear_pending reg)"
  "prompts_told A S reg \<Longrightarrow> prompts_told A S (clear_allowances reg)"
  using prompts_ok_clear [of reg] by (auto simp: prompts_told_def clear_pending_def clear_allowances_def)

lemma prompts_told_remember:
  assumes "prompts_told A S reg" and "standing A S conv tool risk"
  shows "prompts_told A S (remember_allowance conv tool risk reg)"
proof -
  have "standing A S conv tool (case map_of (allowances reg) (conv, tool) of None \<Rightarrow> risk | Some g \<Rightarrow> max g risk)"
    using assms by (auto simp: prompts_told_def max_def split: option.split)
  then show ?thesis
    using assms(1) prompts_ok_remember [of conv tool risk reg] by (auto simp: prompts_told_def remember_allowance_def)
qed

lemma registering_cases:
  obtains (same) e where "register now names build reg = (Inl e, reg)"
  | (refused) P e where "register now names build reg = (Inl e, reg\<lparr>pending := filter P (pending reg)\<rparr>)"
  | (opened) P i where "register now names build reg = (Inr i, reg\<lparr>pending := al_put i (build i) (filter P (pending reg))\<rparr>)"
    and "prompts_ok reg \<Longrightarrow> i \<in> set names \<and> map_of (filter P (pending reg)) i = None"
proof -
  let ?kept = "filter (\<lambda>(_, e). still_open now e) (pending reg)"
  show thesis
  proof (cases "draw ?kept names")
    case None
    then show thesis by (intro same) (simp add: register_def)
  next
    case (Some i)
    show thesis
    proof (cases "MAX_PENDING_PROMPTS \<le> length (filter (\<lambda>(_, e). prompt_conversation e = prompt_conversation (build i)) ?kept)")
      case True
      with Some show thesis by (intro refused) (simp add: register_def Let_def)
    next
      case False
      with Some have "register now names build reg = (Inr i, reg\<lparr>pending := al_put i (build i) ?kept\<rparr>)"
        by (simp add: register_def Let_def)
      then show thesis by (rule opened) (use draw_Some [OF Some] in blast)
    qed
  qed
qed

lemma prompts_told_register:
  assumes told: "prompts_told A S reg" and new: "\<And>i. register now names build reg = (Inr i, reg') \<Longrightarrow> entry_ok A S i (build i)"
    and reg: "register now names build reg = (x, reg')"
  shows "prompts_told A S reg'"
proof -
  have "prompts_ok reg'"
    using told prompts_ok_register [of reg now names build] reg by (simp add: prompts_told_def)
  with told show ?thesis
    by (cases rule: registering_cases [of now names build reg])
       (use reg new in \<open>auto simp: prompts_told_def al_put_def set_al_del\<close>)
qed

section \<open>Frames\<close>

lemma world_ok_phase:
  "world_ok w \<Longrightarrow> c < length (asked w) \<Longrightarrow> phase_ok (asked w) (said w) c p \<Longrightarrow> world_ok (set_phase c p w)"
  by (auto simp: world_ok_def set_phase_def workers_ok_def nth_list_update)

lemma world_ok_prompts:
  "world_ok w \<Longrightarrow> prompts_told (asked w) (said w) reg \<Longrightarrow> world_ok (w\<lparr>prompts := reg\<rparr>)"
  by (simp add: world_ok_def)

lemma world_ok_on_prompts:
  "world_ok w \<Longrightarrow> prompts_told (asked w) (said w) (f (prompts w)) \<Longrightarrow> world_ok (on_prompts f w)"
  by (simp add: on_prompts_def world_ok_prompts)

lemma world_ok_hand: "world_ok w \<Longrightarrow> hand_ok (asked w) (said w) h \<Longrightarrow> world_ok (w\<lparr>hands := hands w @ [h]\<rparr>)"
  by (auto simp: world_ok_def)

lemma frame_simps [simp]:
  "asked (set_phase c p w) = asked w" "said (set_phase c p w) = said w" "prompts (set_phase c p w) = prompts w"
  "asked (on_prompts f w) = asked w" "said (on_prompts f w) = said w" "prompts (on_prompts f w) = f (prompts w)"
  "asked (log_said x w) = asked w" "said (log_said x w) = x # said w" "prompts (log_said x w) = prompts w"
  "hands (log_said x w) = hands w" "hands (set_phase c p w) = hands w" "hands (on_prompts f w) = hands w"
  "mailbox (log_said x w) = mailbox w" "mailbox (set_phase c p w) = mailbox w" "mailbox (on_prompts f w) = mailbox w"
  "phases (log_said x w) = phases w" "phases (on_prompts f w) = phases w"
  "raised (log_said x w) = raised w" "raised (set_phase c p w) = raised w" "raised (on_prompts f w) = raised w"
  "approvals (log_said x w) = approvals w" "approvals (set_phase c p w) = approvals w" "approvals (on_prompts f w) = approvals w"
  by (simp_all add: set_phase_def on_prompts_def log_said_def)

lemma world_ok_prompts_told: "world_ok w \<Longrightarrow> prompts_told (asked w) (said w) (prompts w)"
  by (simp add: world_ok_def)

section \<open>A worker's turn\<close>

lemma allowed_stands:
  assumes "world_ok w" and "is_always_allowed conv tool risk (prompts w)"
  shows "standing (asked w) (said w) conv tool risk"
proof -
  from assms(2) obtain g where g: "map_of (allowances (prompts w)) (conv, tool) = Some g" and "risk \<le> g"
    by (auto simp: is_always_allowed_def split: option.splits)
  from g have "standing (asked w) (said w) conv tool g"
    using world_ok_prompts_told [OF assms(1)] by (simp add: prompts_told_def)
  then show ?thesis using \<open>risk \<le> g\<close> by (rule standing_less)
qed

lemma world_ok_open_card:
  assumes "world_ok w" and "c < length (asked w)"
  shows "world_ok (open_card c (asked w ! c) names w)"
proof -
  let ?a = "asked w ! c"
  define build where
    "build = (\<lambda>i. ModelPrompt (ask_conversation ?a) (ask_owner ?a) ((ask_card ?a)\<lparr>prompt_id := i\<rparr>) c)"
  obtain r reg where reg: "register (clock w) names build (prompts w) = (r, reg)" by force
  note told = world_ok_prompts_told [OF assms(1)]
  show ?thesis
  proof (cases r)
    case (Inl e)
    have "prompts_told (asked w) (said w) reg"
      by (rule prompts_told_register [OF told _ reg]) (simp add: reg Inl)
    then have "world_ok (set_phase c (Returned (Inl e)) (w\<lparr>prompts := reg\<rparr>))"
      using assms by (simp add: world_ok_phase world_ok_prompts)
    with assms(1) Inl reg show ?thesis by (simp add: open_card_def build_def)
  next
    case (Inr i)
    let ?x = "CardOpened c i"
    have "prompts_told (asked w) (?x # said w) (prompts w)"
      using prompts_told_mono [OF told, of "?x # said w" "[]"] by auto
    then have "prompts_told (asked w) (?x # said w) reg"
      by (rule prompts_told_register [OF _ _ reg]) (use assms(2) reg Inr in \<open>auto simp: build_def\<close>)
    moreover have "world_ok (log_said ?x w)" using assms(1) by (simp add: world_ok_said plain_said_def)
    ultimately have "world_ok (set_phase c (Showing i) ((log_said ?x w)\<lparr>prompts := reg\<rparr>))"
      using assms(2) by (intro world_ok_phase world_ok_prompts) simp_all
    with reg Inr show ?thesis by (simp add: open_card_def build_def world_ok_def log_said_def set_phase_def)
  qed
qed

lemma world_ok_poll:
  assumes "world_ok w" and "c < length (asked w)"
  shows "world_ok (poll c a i t w)"
proof -
  have "world_ok (set_phase c (Closing i (Answered m)) (w\<lparr>mailbox := (mailbox w)[c := None]\<rparr>))"
    if "mailbox w ! c = Some m" for m
  proof (rule world_ok_phase)
    show "world_ok (w\<lparr>mailbox := (mailbox w)[c := None]\<rparr>)"
      using assms by (auto simp: world_ok_def workers_ok_def nth_list_update)
  qed (use assms that in \<open>auto simp: world_ok_def workers_ok_def\<close>)
  with assms show ?thesis by (auto simp: poll_def Let_def world_ok_phase split: option.split)
qed

lemma world_ok_settle:
  assumes "world_ok w" and "c < length (asked w)" and "phases w ! c = Settling out"
  shows "world_ok (settle c (asked w ! c) out w)"
proof -
  have "phase_ok (asked w) (said w) c (Settling out)"
    using assms by (auto simp: world_ok_def workers_ok_def dest: spec [of _ c])
  with assms show ?thesis
    unfolding settle_def by (intro world_ok_phase) (auto split: outcome.split)
qed

lemma remembered_stands:
  assumes "answered c m S" and "decision m = AllowAlways" and "blanket_allowable (A ! c)" and "c < length A"
  shows "standing A S (ask_conversation (A ! c)) (card_tool (ask_card (A ! c))) (ask_risk (A ! c))"
proof -
  obtain x where x: "x \<in> set S" and "answer_to c m S x" using assms(1) by (auto simp: answered_def list_ex_iff)
  from this(2) have "stands_for A (ask_conversation (A ! c)) (card_tool (ask_card (A ! c))) (ask_risk (A ! c)) x"
    using assms(2-4) by (cases x) auto
  with x show ?thesis by (auto simp: standing_def list_ex_iff)
qed

lemma world_ok_turn:
  assumes "world_ok w"
  shows "world_ok (turn c names shown w)"
proof (cases "c < length (asked w)")
  case False
  with assms show ?thesis by (simp add: turn_def)
next
  case True
  have here: "phase_ok (asked w) (said w) c (phases w ! c)"
    using assms True by (auto simp: world_ok_def workers_ok_def)
  note told = world_ok_prompts_told [OF assms]
  show ?thesis
  proof (cases "phases w ! c")
    case Starting
    with assms True show ?thesis by (auto simp: turn_def Let_def intro!: world_ok_phase dest: allowed_stands)
  next
    case (Showing i)
    with assms True told show ?thesis
      by (auto simp: turn_def Let_def intro!: world_ok_phase world_ok_on_prompts prompts_told_close split: option.split)
  next
    case (Closing i out)
    with here have "phase_ok (asked w) (said w) c (Settling out)" by (cases out) auto
    with assms True told Closing show ?thesis
      by (auto simp: turn_def Let_def intro!: world_ok_phase world_ok_on_prompts prompts_told_close)
  next
    case (Remembering m)
    with here True have "standing (asked w) (said w) (ask_conversation (asked w ! c)) (card_tool (ask_card (asked w ! c)))
        (ask_risk (asked w ! c))"
      by (auto intro: remembered_stands)
    with assms True told here Remembering show ?thesis
      by (auto simp: turn_def Let_def intro!: world_ok_phase world_ok_on_prompts prompts_told_remember)
  qed (use assms True in \<open>auto simp: turn_def Let_def world_ok_open_card world_ok_poll world_ok_settle intro!: world_ok_phase\<close>)
qed

end
