(* ===== verification/PromptSafe.thy ===== *)
theory PromptSafe
  imports PromptInv
begin

text \<open>
  The renderer's commands keep the invariant of \<open>PromptInv\<close>, so every interleaving does.
\<close>

section \<open>Nonces\<close>

lemma open_nonces_filter: "open_nonces (filter P m) \<subseteq># open_nonces m"
  by (auto simp: open_nonces_def intro!: image_mset_subseteq_mono simp flip: mset_map) (simp add: image_mset_subseteq_mono)

lemma approvals_told_filter:
  assumes "approvals_told A S reg"
  shows "approvals_told A S (reg\<lparr>tool_approvals := filter P (tool_approvals reg)\<rparr>)"
proof -
  have "open_nonces (filter P (tool_approvals reg)) + runs S \<subseteq># issues S"
    using assms subset_mset.order_trans [OF subset_mset.add_right_mono [OF open_nonces_filter]]
    by (simp add: approvals_told_def)
  moreover have "length (filter P (tool_approvals reg)) \<le> MAX_TOOL_APPROVALS"
    using assms by (auto simp: approvals_told_def intro: order_trans [OF length_filter_le])
  ultimately show ?thesis using assms by (auto simp: approvals_told_def distinct_map_filter)
qed

lemma make_room_filter: "\<exists>P. make_room conv m = filter P m"
proof -
  have "make_room conv m = m \<or> (\<exists>n. make_room conv m = al_del n m)"
    by (auto simp: make_room_def split: option.split)
  moreover have "m = filter (\<lambda>_. True) m" by simp
  ultimately show ?thesis unfolding al_del_def by metis
qed

text \<open>What \<open>issue_with_ttl\<close> draws its names against.\<close>

definition room_for :: "tool_binding \<Rightarrow> nat \<Rightarrow> approval_registry \<Rightarrow> (ustring \<times> tool_approval) list" where
  "room_for b now reg = make_room (for_conversation b) (filter (\<lambda>(_, a). now < expires_at a) (tool_approvals reg))"

lemma approvals_told_room:
  assumes "approvals_told A S reg"
  shows "approvals_told A S (reg\<lparr>tool_approvals := room_for b now reg\<rparr>)" and "length (room_for b now reg) < MAX_TOOL_APPROVALS"
proof -
  obtain P where P: "room_for b now reg = filter P (tool_approvals reg)"
    using make_room_filter [of "for_conversation b"] unfolding room_for_def filter_filter by (metis filter_filter)
  show "approvals_told A S (reg\<lparr>tool_approvals := room_for b now reg\<rparr>)"
    unfolding P by (rule approvals_told_filter [OF assms])
  show "length (room_for b now reg) < MAX_TOOL_APPROVALS"
    unfolding room_for_def using assms
    by (intro length_make_room) (auto simp: approvals_told_def distinct_map_filter intro: order_trans [OF length_filter_le])
qed

lemma agreed_said: "agreed A S r why \<Longrightarrow> agreed A (x # S) r why"
  using agreed_mono [of A S r why "x # S" "[]"] by auto

lemma approvals_told_add:
  assumes told: "approvals_told A S reg" and new: "map_of (tool_approvals reg) n = None"
    and room: "length (tool_approvals reg) < MAX_TOOL_APPROVALS"
    and x: "x = Issued n b e r why" and ok: "issued_ok A S n b e x"
  shows "approvals_told A (x # S) (reg\<lparr>tool_approvals := al_put n \<lparr>binding = b, expires_at = e\<rparr> (tool_approvals reg)\<rparr>)"
proof -
  let ?m = "tool_approvals reg"
  have del: "al_del n ?m = ?m" by (rule al_del_absent [OF new])
  have out: "n \<notin> fst ` set ?m" using new by (simp add: map_of_eq_None_iff)
  have mono: "issued_for A S n' b' e' \<Longrightarrow> issued_for A (x # S) n' b' e'" "in_time A S n' b' t \<Longrightarrow> in_time A (x # S) n' b' t" for n' b' e' t
    using issued_for_mono [of A S n' b' e' "x # S" "[]"] in_time_mono [of A S n' b' t "x # S" "[]"] by auto
  have fresh: "issued_for A (x # S) n b e"
    using issued_ok_mono [OF ok, of "x # S" "[]"] by (auto simp: issued_for_def)
  have sayings: "issues (x # S) = add_mset (n, b) (issues S)" "runs (x # S) = runs S"
    by (simp_all add: x issues_def runs_def)
  show ?thesis
    unfolding approvals_told_def
  proof (intro conjI)
    show "distinct (map fst (tool_approvals (reg\<lparr>tool_approvals := al_put n \<lparr>binding = b, expires_at = e\<rparr> ?m\<rparr>)))"
      using told by (simp add: approvals_told_def)
    show "length (tool_approvals (reg\<lparr>tool_approvals := al_put n \<lparr>binding = b, expires_at = e\<rparr> ?m\<rparr>)) \<le> MAX_TOOL_APPROVALS"
      using room by (simp add: al_put_def del)
    show "\<forall>(n', a) \<in> set (tool_approvals (reg\<lparr>tool_approvals := al_put n \<lparr>binding = b, expires_at = e\<rparr> ?m\<rparr>)).
        issued_for A (x # S) n' (binding a) (expires_at a)"
      using told mono(1) fresh by (auto simp: approvals_told_def al_put_def del)
    show "\<forall>n' b' t. Ran n' b' t \<in> set (x # S) \<longrightarrow> in_time A (x # S) n' b' t"
      using told mono(2) by (auto simp: approvals_told_def x)
    show "open_nonces (tool_approvals (reg\<lparr>tool_approvals := al_put n \<lparr>binding = b, expires_at = e\<rparr> ?m\<rparr>)) + runs (x # S) \<subseteq># issues (x # S)"
      using told by (simp add: approvals_told_def al_put_def del sayings open_nonces_def)
  qed
qed

lemma mset_al_del: "distinct (map fst m) \<Longrightarrow> map_of m n = Some a \<Longrightarrow> mset m = add_mset (n, a) (mset (al_del n m))"
proof (induction m)
  case Nil
  then show ?case by simp
next
  case (Cons p m)
  have "fst p = n \<Longrightarrow> al_del n m = m"
    using Cons.prems(1) by (intro al_del_absent) (simp add: map_of_eq_None_iff)
  with Cons show ?case by (cases p) (auto simp: al_del_def split: if_splits)
qed

lemma approvals_told_run:
  assumes told: "approvals_told A S reg" and a: "map_of (tool_approvals reg) n = Some a" and t: "t < expires_at a"
  shows "approvals_told A (Ran n (binding a) t # S) (reg\<lparr>tool_approvals := al_del n (tool_approvals reg)\<rparr>)"
proof -
  let ?m = "tool_approvals reg" and ?x = "Ran n (binding a) t"
  have dist: "distinct (map fst ?m)" using told by (simp add: approvals_told_def)
  have "mset ?m = add_mset (n, a) (mset (al_del n ?m))" by (rule mset_al_del [OF dist a])
  then have nonces: "open_nonces ?m = add_mset (n, binding a) (open_nonces (al_del n ?m))"
    by (simp add: open_nonces_def)
  have mono: "issued_for A S n' b' e' \<Longrightarrow> issued_for A (?x # S) n' b' e'" "in_time A S n' b' t' \<Longrightarrow> in_time A (?x # S) n' b' t'" for n' b' e' t'
    using issued_for_mono [of A S n' b' e' "?x # S" "[]"] in_time_mono [of A S n' b' t' "?x # S" "[]"] by auto
  have "issued_for A S n (binding a) (expires_at a)" using told map_of_SomeD [OF a] by (fastforce simp: approvals_told_def)
  then have ran: "in_time A (?x # S) n (binding a) t" using t mono(1) by (auto simp: in_time_def)
  have sayings: "issues (?x # S) = issues S" "runs (?x # S) = add_mset (n, binding a) (runs S)"
    by (simp_all add: issues_def runs_def)
  show ?thesis
    unfolding approvals_told_def
  proof (intro conjI)
    show "distinct (map fst (tool_approvals (reg\<lparr>tool_approvals := al_del n ?m\<rparr>)))" using dist by simp
    show "length (tool_approvals (reg\<lparr>tool_approvals := al_del n ?m\<rparr>)) \<le> MAX_TOOL_APPROVALS"
      using told length_al_del_le [of n ?m] by (simp add: approvals_told_def)
    show "\<forall>(n', c) \<in> set (tool_approvals (reg\<lparr>tool_approvals := al_del n ?m\<rparr>)). issued_for A (?x # S) n' (binding c) (expires_at c)"
      using told mono(1) by (auto simp: approvals_told_def set_al_del)
    show "\<forall>n' b' t'. Ran n' b' t' \<in> set (?x # S) \<longrightarrow> in_time A (?x # S) n' b' t'"
      using told mono(2) ran by (auto simp: approvals_told_def)
    show "open_nonces (tool_approvals (reg\<lparr>tool_approvals := al_del n ?m\<rparr>)) + runs (?x # S) \<subseteq># issues (?x # S)"
      using told by (simp add: approvals_told_def sayings nonces)
  qed
qed

section \<open>The commands\<close>

lemma world_ok_parts:
  assumes "world_ok w"
  shows "workers_ok (asked w) (said w) (phases w) (mailbox w)" and "prompts_told (asked w) (said w) (prompts w)"
    and "approvals_told (asked w) (said w) (approvals w)" and "\<And>h. h \<in> set (hands w) \<Longrightarrow> hand_ok (asked w) (said w) h"
  using assms by (simp_all add: world_ok_def)

lemma world_ok_approvals:
  "world_ok w \<Longrightarrow> approvals_told (asked w) (said w) reg \<Longrightarrow> world_ok (w\<lparr>approvals := reg\<rparr>)"
  by (simp add: world_ok_def)

lemma world_ok_nonce:
  assumes "world_ok w" and "approvals_told (asked w) (x # said w) reg"
  shows "world_ok (log_said x (w\<lparr>approvals := reg\<rparr>))"
  using assms workers_ok_said [of "asked w" "said w" "phases w" "mailbox w" "x # said w"]
    prompts_told_mono [of "asked w" "said w" "prompts w" "x # said w" "[]"]
    hands_ok_mono [of "hands w" "asked w" "said w" "x # said w" "[]"]
  by (auto simp: world_ok_def log_said_def)

text \<open>Who takes a card off the registry and holds what to do about it.\<close>

lemma world_ok_taken:
  assumes "world_ok w" and "prompts_told (asked w) (said w) reg" and "plain_said x" and "hand_ok (asked w) (x # said w) h"
  shows "world_ok (log_said x (w\<lparr>prompts := reg, hands := hands w @ [h]\<rparr>))"
proof -
  have "world_ok (log_said x (w\<lparr>prompts := reg\<rparr>))"
    using assms by (intro world_ok_said world_ok_prompts)
  then have "world_ok ((log_said x (w\<lparr>prompts := reg\<rparr>))\<lparr>hands := hands (log_said x (w\<lparr>prompts := reg\<rparr>)) @ [h]\<rparr>)"
    using assms(4) by (intro world_ok_hand) simp_all
  then show ?thesis by (simp add: log_said_def world_ok_def)
qed

lemma taken_card:
  assumes "world_ok w" and "take_card i d (prompts w) = (Inr e, reg)"
  shows "prompts_told (asked w) (said w) reg \<and> entry_ok (asked w) (said w) i e"
proof -
  have e: "(i, e) \<in> set (pending (prompts w))" and reg: "reg = close i (prompts w)"
    using assms(2) by (auto simp: take_card_def dest: map_of_SomeD split: option.splits if_splits)
  note told = world_ok_parts(2) [OF assms(1)]
  have "prompts_told (asked w) (said w) reg" unfolding reg by (rule prompts_told_close [OF told])
  moreover have "entry_ok (asked w) (said w) i e" using told e by (auto simp: prompts_told_def)
  ultimately show ?thesis by simp
qed

lemma answered_now: "CardOpened c i \<in> set S \<Longrightarrow> answered c m (CardAnswered c i m # S)"
  by (simp add: answered_def)

lemma world_ok_resolve:
  assumes "world_ok w"
  shows "world_ok (resolve i d s w)"
proof (cases "take_card i d (prompts w)")
  case (Pair res reg)
  show ?thesis
  proof (cases res)
    case (Inl e)
    with Pair assms show ?thesis by (simp add: resolve_def)
  next
    case (Inr e)
    with taken_card [OF assms] Pair have told: "prompts_told (asked w) (said w) reg" and e: "entry_ok (asked w) (said w) i e"
      by blast+
    show ?thesis
      using Pair Inr e told assms
      by (cases e) (auto simp: resolve_def Let_def plain_said_def answered_now intro!: world_ok_taken)
  qed
qed

lemma taken_question:
  assumes "world_ok w" and "take_question i r (prompts w) = (Inr c, reg)"
  shows "prompts_told (asked w) (said w) reg \<and> c < length (asked w) \<and> CardOpened c i \<in> set (said w)"
proof -
  obtain conv owner k where e: "(i, ModelPrompt conv owner k c) \<in> set (pending (prompts w))" and reg: "reg = close i (prompts w)"
    using assms(2) by (auto simp: take_question_def dest: map_of_SomeD split: option.splits pending_prompt.splits if_splits)
  note told = world_ok_parts(2) [OF assms(1)]
  have "prompts_told (asked w) (said w) reg" unfolding reg by (rule prompts_told_close [OF told])
  moreover have "entry_ok (asked w) (said w) i (ModelPrompt conv owner k c)" using told e by (auto simp: prompts_told_def)
  ultimately show ?thesis by simp
qed

lemma world_ok_resolve_question:
  assumes "world_ok w"
  shows "world_ok (resolve_question i r w)"
proof (cases "take_question i r (prompts w)")
  case (Pair res reg)
  show ?thesis
  proof (cases res)
    case (Inl e)
    with Pair assms show ?thesis by (simp add: resolve_question_def)
  next
    case (Inr c)
    with taken_question [OF assms, of i r c reg] Pair assms show ?thesis
      by (auto simp: resolve_question_def plain_said_def answered_now intro!: world_ok_taken)
  qed
qed

lemma world_ok_request:
  assumes "world_ok w"
  shows "world_ok (request_tool_approval pol r w)"
  using assms
  by (auto simp: request_tool_approval_def agreed_def intro!: world_ok_hand intro: allowed_stands split: option.split)

lemma binding_of_call:
  "tool_binding_of h r env = Inr b \<Longrightarrow> for_conversation b = conversation_id r \<and> of_tool b = tool_name r"
  by (auto simp: tool_binding_of_def split: sum.splits prod.splits if_splits)

lemma world_ok_issue:
  assumes "world_ok w" and "agreed (asked w) (said w) r why"
  shows "world_ok (issue h names r why env w)"
proof (cases "tool_binding_of h r env")
  case (Inl e)
  with assms show ?thesis by (simp add: issue_def issue_tool_approval_def issue_with_ttl_def)
next
  case (Inr b)
  let ?m = "room_for b (clock w) (approvals w)" and ?e = "clock w + TOOL_APPROVAL_TTL"
  note told = world_ok_parts(3) [OF assms(1)]
  show ?thesis
  proof (cases "draw ?m names")
    case None
    with Inr assms approvals_told_room(1) [OF told] show ?thesis
      by (simp add: issue_def issue_tool_approval_def issue_with_ttl_def room_for_def [symmetric] Let_def world_ok_approvals)
  next
    case (Some n)
    let ?x = "Issued n b ?e r why"
    have "issued_ok (asked w) (said w) n b ?e ?x"
      using assms(2) binding_of_call [OF Inr] by (simp add: issued_ok_def)
    then have "approvals_told (asked w) (?x # said w) ((approvals w)\<lparr>tool_approvals := ?m\<rparr>
        \<lparr>tool_approvals := al_put n \<lparr>binding = b, expires_at = ?e\<rparr> (tool_approvals ((approvals w)\<lparr>tool_approvals := ?m\<rparr>))\<rparr>)"
      using draw_Some [OF Some] approvals_told_room [OF told, of b "clock w"] by (intro approvals_told_add) auto
    then show ?thesis
      using world_ok_nonce [OF assms(1)] Inr Some
      by (simp add: issue_def issue_tool_approval_def issue_with_ttl_def room_for_def [symmetric] Let_def)
  qed
qed

lemma world_ok_mail:
  assumes "world_ok w" and "c < length (asked w)" and "answered c m (said w)"
  shows "world_ok (w\<lparr>mailbox := (mailbox w)[c := (case mailbox w ! c of None \<Rightarrow> Some m | Some m' \<Rightarrow> Some m')]\<rparr>)"
  using assms by (auto simp: world_ok_def workers_ok_def nth_list_update split: option.split)

lemma world_ok_act:
  assumes "world_ok w" and "hand_ok (asked w) (said w) x"
  shows "world_ok (act h names env x w)"
proof (cases x)
  case (Sending c m)
  with assms show ?thesis by (simp add: act_def world_ok_mail)
next
  case (Settle r k d)
  have "prompts_told (asked w) (said w) (settle_manual r k d (prompts w))"
    using assms Settle world_ok_parts(2) [OF assms(1)]
    by (auto simp: settle_manual_def standing_def list_ex_iff intro!: prompts_told_remember bexI [of _ "ManualAnswered r k d"])
  then have "world_ok (on_prompts (settle_manual r k d) w)" by (rule world_ok_on_prompts [OF assms(1)])
  moreover have "allows d \<Longrightarrow> agreed (asked w) (said w) r None"
    using assms(2) Settle by (auto simp: agreed_def list_ex_iff intro!: bexI [of _ "ManualAnswered r k d"])
  ultimately show ?thesis
    using Settle world_ok_hand [of "on_prompts (settle_manual r k d) w" "IssueAnswered r"]
    by (simp add: act_def Let_def)
next
  case (Opening r k)
  have "prompts_told (asked w) (said w) (snd (open_manual (clock w) names r k (prompts w)))"
    using prompts_told_register [OF world_ok_parts(2) [OF assms(1)], of "clock w" names "\<lambda>_. ManualPrompt r k (clock w)"]
    by (cases "open_manual (clock w) names r k (prompts w)") (simp add: open_manual_def)
  with assms Opening show ?thesis by (simp add: act_def world_ok_on_prompts)
next
  case ResetPrompts
  have "world_ok (w\<lparr>hands := hands w @ [ResetAllowances]\<rparr>)" using assms(1) by (simp add: world_ok_hand)
  with ResetPrompts show ?thesis
    by (auto simp: act_def plain_said_def intro!: world_ok_said world_ok_on_prompts prompts_told_clear dest: world_ok_parts(2))
next
  case ResetAllowances
  with assms world_ok_parts(2) [OF assms(1)] show ?thesis by (simp add: act_def world_ok_on_prompts prompts_told_clear)
qed (use assms in \<open>simp_all add: act_def world_ok_issue\<close>)

lemma world_ok_execute:
  assumes "world_ok w"
  shows "world_ok (execute_tool h pol given r w)"
proof (cases "admitted pol r")
  case None
  with assms show ?thesis by (simp add: execute_tool_def)
next
  case (Some rd)
  obtain q d where q: "admitted pol r = Some (q, d)" using Some by (cases rd) auto
  note told = world_ok_parts(3) [OF assms]
  have drop: "approvals_told (asked w) (said w) ((approvals w)\<lparr>tool_approvals := al_del n (tool_approvals (approvals w))\<rparr>)" for n
    unfolding al_del_def by (rule approvals_told_filter [OF told])
  have same: "(approvals w)\<lparr>tool_approvals := tool_approvals (approvals w)\<rparr> = approvals w" by simp
  have used: "world_ok (case (consume_tool_approval h (clock w) n q (fingerprint pol) (approvals w), tool_binding_of h q (fingerprint pol)) of
                  ((Inr _, reg), Inr b) \<Rightarrow> log_said (Ran n b (clock w)) (w\<lparr>approvals := reg\<rparr>)
                | ((_, reg), _) \<Rightarrow> w\<lparr>approvals := reg\<rparr>)" for n
    using assms drop approvals_told_run [OF told, of n]
    by (auto simp: consume_tool_approval_def intro!: world_ok_approvals world_ok_nonce split: sum.split option.split)
  show ?thesis
    using q assms used by (auto simp: execute_tool_def split: option.split)
qed

lemma world_ok_hands_out:
  assumes "world_ok w" and "k < length (hands w)"
  shows "world_ok (w\<lparr>hands := take k (hands w) @ drop (Suc k) (hands w)\<rparr>)"
  using assms by (auto simp: world_ok_def dest: in_set_takeD in_set_dropD)

lemma world_ok_ask:
  assumes "world_ok w"
  shows "world_ok (w\<lparr>asked := asked w @ [a], phases := phases w @ [Starting], mailbox := mailbox w @ [None]\<rparr>)"
proof -
  have "workers_ok (asked w @ [a]) (said w) (phases w @ [Starting]) (mailbox w @ [None])"
    using world_ok_parts(1) [OF assms] phase_ok_mono [where S = "said w" and S' = "said w"]
    by (auto simp: workers_ok_def nth_append less_Suc_eq)
  then show ?thesis
    using assms prompts_told_mono [of "asked w" "said w" "prompts w" "said w"] approvals_told_mono
      hands_ok_mono [of "hands w" "asked w" "said w" "said w"]
    by (simp add: world_ok_def)
qed

lemma world_ok_step: "world_ok w \<Longrightarrow> world_ok (prompt_step w e)"
proof (induction w e rule: prompt_step.induct)
  case (8 w k h names env)
  have "hand_ok (asked w) (said w) (hands w ! k)" if "k < length (hands w)"
    using 8 that by (simp add: world_ok_def)
  with 8 world_ok_hands_out [of w k] show ?case
    by (auto intro!: world_ok_act)
next
  case (10 w conv run)
  then show ?case by (auto simp: plain_said_def intro!: world_ok_said world_ok_on_prompts prompts_told_cancel dest: world_ok_parts(2))
next
  case (11 w)
  have "approvals_told (asked w) (said w) (clear_approvals (approvals w))"
    using approvals_told_filter [OF world_ok_parts(3) [OF 11], of "\<lambda>_. False"]
    by (simp add: approvals_told_def clear_approvals_def no_approvals_def)
  then have "world_ok (w\<lparr>approvals := clear_approvals (approvals w)\<rparr>)" using 11 by (rule world_ok_approvals [rotated])
  from world_ok_hand [OF this, of ResetPrompts] show ?case by simp
qed (simp_all add: world_ok_turn world_ok_resolve world_ok_resolve_question world_ok_request world_ok_execute world_ok_ask,
     simp_all add: world_ok_def)

lemma world_ok_new: "world_ok prompt_world_new"
  using prompts_ok_new
  by (simp add: world_ok_def prompt_world_new_def workers_ok_def prompts_told_def approvals_told_def no_prompts_def
      no_approvals_def open_nonces_def runs_def issues_def)

interpretation confirmation: total_machine "\<lambda>w. w = prompt_world_new" prompt_step world_ok
  by unfold_locales (simp_all add: world_ok_new world_ok_step)

end
