(* ===== verification/PromptEnds.thy ===== *)
theory PromptEnds
  imports PromptSafe
begin

text \<open>
  Why a worker stops waiting: what each refusal says did happen, when no name is drawn twice, as \<open>Uuid::new_v4\<close> promises;
  and that a worker on the processor does stop waiting.
\<close>

section \<open>What each ending rests on\<close>

fun phase_card :: "phase \<Rightarrow> ustring option" where
  "phase_card (Showing i) = Some i"
| "phase_card (Waiting i t) = Some i"
| "phase_card (Receiving i t) = Some i"
| "phase_card (Closing i out) = Some i"
| "phase_card _ = None"

text \<open>The card was taken away: everything was cleared, or the run that raised it ended.\<close>

definition taken_away :: "prompt_world \<Rightarrow> nat \<Rightarrow> bool" where
  "taken_away w c \<longleftrightarrow>
     CardsCleared \<in> set (said w) \<or>
     (case ask_owner (asked w ! c) of
        RunOwner run \<Rightarrow> RunEnded (ask_conversation (asked w ! c)) run \<in> set (said w)
      | TaskOwner \<Rightarrow> False)"

text \<open>Somebody can still answer, or has.\<close>

definition awaited :: "prompt_world \<Rightarrow> nat \<Rightarrow> ustring \<Rightarrow> bool" where
  "awaited w c i \<longleftrightarrow>
     (\<exists>conv owner k. (i, ModelPrompt conv owner k c) \<in> set (pending (prompts w))) \<or>
     (\<exists>m. Sending c m \<in> set (hands w)) \<or> mailbox w ! c \<noteq> None"

fun outcome_told :: "prompt_world \<Rightarrow> nat \<Rightarrow> outcome \<Rightarrow> bool" where
  "outcome_told w c (Answered m) = True"
| "outcome_told w c Cancelled = stopped w (asked w ! c)"
| "outcome_told w c TimedOut = (\<not> never_times_out (asked w ! c))"
| "outcome_told w c Retracted = taken_away w c"

fun refusal_told :: "prompt_world \<Rightarrow> nat \<Rightarrow> prompt_error \<Rightarrow> bool" where
  "refusal_told w c StoppedBefore = stopped w (asked w ! c)"
| "refusal_told w c StoppedWaiting = stopped w (asked w ! c)"
| "refusal_told w c CardRetracted = taken_away w c"
| "refusal_told w c CardTimedOut = (\<not> never_times_out (asked w ! c))"
| "refusal_told w c _ = True"

fun phase_told :: "prompt_world \<Rightarrow> nat \<Rightarrow> phase \<Rightarrow> bool" where
  "phase_told w c (Showing i) = (awaited w c i \<or> taken_away w c)"
| "phase_told w c (Waiting i t) = (awaited w c i \<or> taken_away w c)"
| "phase_told w c (Receiving i t) = (awaited w c i \<or> taken_away w c)"
| "phase_told w c (Closing i out) = outcome_told w c out"
| "phase_told w c (Settling out) = outcome_told w c out"
| "phase_told w c (Returned (Inl e)) = refusal_told w c e"
| "phase_told w c _ = True"

fun names_in :: "prompt_event \<Rightarrow> ustring list" where
  "names_in (Turn c names shown) = names"
| "names_in (Act k h names env) = names"
| "names_in _ = []"

text \<open>\<open>N\<close> holds the names still to be drawn.\<close>

definition ends_ok :: "ustring set \<Rightarrow> prompt_world \<Rightarrow> bool" where
  "ends_ok N w \<longleftrightarrow>
     (\<forall>c < length (asked w). phase_told w c (phases w ! c)) \<and>
     (\<forall>c < length (asked w). \<forall>c' < length (asked w). \<forall>i.
        phase_card (phases w ! c) = Some i \<longrightarrow> phase_card (phases w ! c') = Some i \<longrightarrow> c = c') \<and>
     (\<forall>n \<in> N. n \<notin> fst ` set (pending (prompts w)) \<and> (\<forall>c < length (asked w). phase_card (phases w ! c) \<noteq> Some n))"

section \<open>What others do\<close>

text \<open>\<open>w'\<close> is later than \<open>w\<close>, and who was awaited is, unless the card was taken away.\<close>

definition later :: "prompt_world \<Rightarrow> prompt_world \<Rightarrow> bool" where
  "later w w' \<longleftrightarrow> (\<exists>B. asked w' = asked w @ B) \<and> set (said w) \<subseteq> set (said w') \<and> set (raised w) \<subseteq> set (raised w')"

lemma laterI: "asked w' = asked w @ B \<Longrightarrow> set (said w) \<subseteq> set (said w') \<Longrightarrow> set (raised w) \<subseteq> set (raised w') \<Longrightarrow> later w w'"
  by (auto simp: later_def)

lemma asked_later: "later w w' \<Longrightarrow> c < length (asked w) \<Longrightarrow> asked w' ! c = asked w ! c \<and> c < length (asked w')"
  by (auto simp: later_def nth_append)

lemma stopped_later: "later w w' \<Longrightarrow> stopped w a \<Longrightarrow> stopped w' a"
  by (auto simp: later_def stopped_def list_ex_iff)

lemma taken_away_later: "later w w' \<Longrightarrow> c < length (asked w) \<Longrightarrow> taken_away w c \<Longrightarrow> taken_away w' c"
  using asked_later [of w w' c] by (auto simp: taken_away_def later_def split: prompt_owner.splits)

lemma phase_told_later:
  assumes "later w w'" and "c < length (asked w)" and "phase_told w c p"
    and "\<And>i. phase_card p = Some i \<Longrightarrow> awaited w c i \<Longrightarrow> awaited w' c i \<or> taken_away w' c"
  shows "phase_told w' c p"
proof -
  have out: "outcome_told w c out \<Longrightarrow> outcome_told w' c out" for out
    using assms asked_later [OF assms(1,2)] by (cases out) (auto intro: stopped_later taken_away_later)
  have refusal: "refusal_told w c e \<Longrightarrow> refusal_told w' c e" for e
    using assms asked_later [OF assms(1,2)] by (cases e) (auto intro: stopped_later taken_away_later)
  show ?thesis
    using assms out refusal by (cases "(w, c, p)" rule: phase_told.cases) (auto dest: taken_away_later)
qed

lemma ends_ok_frame:
  assumes ok: "ends_ok N w" and later: "later w w'" and same: "phases w' = phases w @ replicate (length (asked w') - length (asked w)) Starting"
    and len: "length (phases w) = length (asked w)"
    and waits: "\<And>c i. c < length (asked w) \<Longrightarrow> phase_card (phases w ! c) = Some i \<Longrightarrow> awaited w c i \<Longrightarrow> awaited w' c i \<or> taken_away w' c"
    and ids: "fst ` set (pending (prompts w')) \<subseteq> fst ` set (pending (prompts w)) \<union> D"
  shows "ends_ok (N - D) w'"
proof -
  have old: "phases w' ! c = phases w ! c" if "c < length (asked w)" for c
    using that len by (simp add: same nth_append)
  have new: "phases w' ! c = Starting" if "\<not> c < length (asked w)" "c < length (asked w')" for c
    using that len by (simp add: same nth_append)
  have told: "phase_told w' c (phases w' ! c)" if "c < length (asked w')" for c
  proof (cases "c < length (asked w)")
    case True
    then show ?thesis
      using ok waits by (auto simp: old ends_ok_def intro!: phase_told_later [OF later])
  next
    case False
    with new that show ?thesis by simp
  qed
  have card: "c < length (asked w) \<and> phase_card (phases w ! c) = Some i"
    if "c < length (asked w')" "phase_card (phases w' ! c) = Some i" for c i
    using that old new by (cases "c < length (asked w)") auto
  show ?thesis
    unfolding ends_ok_def
  proof (intro conjI allI impI ballI)
    fix c c' i
    assume "c < length (asked w')" "c' < length (asked w')" "phase_card (phases w' ! c) = Some i" "phase_card (phases w' ! c') = Some i"
    with card ok show "c = c'" by (metis ends_ok_def)
  next
    fix n assume "n \<in> N - D"
    moreover from this ok have "n \<notin> fst ` set (pending (prompts w))" by (simp add: ends_ok_def)
    ultimately show "n \<notin> fst ` set (pending (prompts w'))" using ids by blast
  next
    fix n c assume "n \<in> N - D" "c < length (asked w')"
    then show "phase_card (phases w' ! c) \<noteq> Some n" using ok card by (metis DiffD1 ends_ok_def)
  qed (use told in auto)
qed

lemma ends_ok_one:
  assumes ok: "ends_ok N w" and later: "later w w'" and asked: "asked w' = asked w" and k: "k < length (asked w)"
    and len: "length (phases w) = length (asked w)" and upd: "phases w' = (phases w)[k := p]"
    and told: "phase_told w' k p"
    and card: "\<And>i. phase_card p = Some i \<Longrightarrow> phase_card (phases w ! k) = Some i \<or> i \<in> D \<inter> N"
    and waits: "\<And>c i. c < length (asked w) \<Longrightarrow> c \<noteq> k \<Longrightarrow> phase_card (phases w ! c) = Some i \<Longrightarrow> awaited w c i \<Longrightarrow>
      awaited w' c i \<or> taken_away w' c"
    and ids: "fst ` set (pending (prompts w')) \<subseteq> fst ` set (pending (prompts w)) \<union> D"
  shows "ends_ok (N - D) w'"
proof -
  have at: "phases w' ! c = (if c = k then p else phases w ! c)" if "c < length (asked w)" for c
    using that len k by (simp add: upd nth_list_update)
  have out: "phase_card (phases w ! c) \<noteq> Some i" if "i \<in> N" "c < length (asked w)" for c i
    using ok that by (auto simp: ends_ok_def)
  have one: "c = c'" if "c < length (asked w)" "c' < length (asked w)" "phase_card (phases w ! c) = Some i"
      "phase_card (phases w ! c') = Some i" for c c' i
    using ok that by (auto simp: ends_ok_def)
  have other: "c = k" if "c < length (asked w)" "phase_card p = Some i" "phase_card (phases w ! c) = Some i" for c i
    using card [OF that(2)] one [OF that(1) k that(3)] out [of i c] that by auto
  have all: "phase_told w' c (phases w' ! c)" if "c < length (asked w)" for c
  proof (cases "c = k")
    case True
    with told that show ?thesis by (simp add: at)
  next
    case False
    have "phase_told w' c (phases w ! c)"
      using ok that False by (intro phase_told_later [OF later] waits) (auto simp: ends_ok_def)
    with False that show ?thesis by (simp add: at)
  qed
  show ?thesis
    unfolding ends_ok_def asked
  proof (intro conjI allI impI ballI)
    fix c c' i
    assume "c < length (asked w)" "c' < length (asked w)" "phase_card (phases w' ! c) = Some i" "phase_card (phases w' ! c') = Some i"
    then show "c = c'" using one other by (auto simp: at split: if_splits)
  next
    fix n assume "n \<in> N - D"
    moreover from this ok have "n \<notin> fst ` set (pending (prompts w))" by (simp add: ends_ok_def)
    ultimately show "n \<notin> fst ` set (pending (prompts w'))" using ids by blast
  next
    fix n c assume "n \<in> N - D" "c < length (asked w)"
    then show "phase_card (phases w' ! c) \<noteq> Some n" using card out k by (auto simp: at split: if_splits)
  qed (use all in auto)
qed

section \<open>One worker's turn\<close>

lemma pending_unique:
  "world_ok w \<Longrightarrow> (i, e) \<in> set (pending (prompts w)) \<Longrightarrow> map_of (pending (prompts w)) i = Some e"
  by (simp add: world_ok_def prompts_told_def prompts_ok_def)

lemma draw_in: "draw m names = Some n \<Longrightarrow> n \<in> set names"
  by (auto dest: draw_Some)

lemma register_opens:
  assumes "register now names build reg = (x, reg')"
  shows "fst ` set (pending reg') \<subseteq> fst ` set (pending reg) \<union> set names"
    and "(i, ModelPrompt a b k c) \<in> set (pending reg) \<Longrightarrow> (i, ModelPrompt a b k c) \<in> set (pending reg')"
    and "x = Inr j \<Longrightarrow> j \<in> set names \<and> (j, build j) \<in> set (pending reg')"
proof -
  let ?kept = "filter (\<lambda>(_, e). still_open now e) (pending reg)"
  have kept: "(i, ModelPrompt a b k c) \<in> set ?kept" if "(i, ModelPrompt a b k c) \<in> set (pending reg)" using that by simp
  have drawn: "j \<in> set names" if "draw ?kept names = Some j" for j using that by (rule draw_in)
  show "fst ` set (pending reg') \<subseteq> fst ` set (pending reg) \<union> set names"
  proof (cases "draw ?kept names")
    case None
    with assms show ?thesis by (simp add: register_def)
  next
    case (Some j)
    with assms drawn [OF Some] show ?thesis by (force simp: register_def Let_def al_put_def set_al_del split: if_splits)
  qed
  show "x = Inr j \<Longrightarrow> j \<in> set names \<and> (j, build j) \<in> set (pending reg')"
    using assms drawn by (auto simp: register_def Let_def al_put_def split: option.splits if_splits)
  show "(i, ModelPrompt a b k c) \<in> set (pending reg')" if "(i, ModelPrompt a b k c) \<in> set (pending reg)"
  proof (cases "draw ?kept names")
    case None
    with assms that show ?thesis by (simp add: register_def)
  next
    case (Some j)
    have "map_of ?kept j = None" using draw_Some [OF Some] by blast
    then have "j \<notin> fst ` set ?kept" unfolding map_of_eq_None_iff .
    then have "i \<noteq> j" using imageI [OF kept [OF that], of fst] by auto
    with Some assms kept [OF that] show ?thesis
      by (auto simp: register_def Let_def al_put_def set_al_del split: if_splits)
  qed
qed

lemma close_keeps:
  assumes ok: "ends_ok N w" and "c < length (asked w)" and "k < length (asked w)" and "c \<noteq> k"
    and "phase_card (phases w ! c) = Some i" and "phase_card (phases w ! k) = Some j" and "awaited w c i"
  shows "awaited (set_phase k p (on_prompts (close j) w)) c i"
proof -
  have "i \<noteq> j" using assms by (auto simp: ends_ok_def)
  with assms(7) show ?thesis by (auto simp: awaited_def close_def set_al_del)
qed

lemma same_waits: "prompts w' = prompts w \<Longrightarrow> hands w' = hands w \<Longrightarrow> mailbox w' ! c = mailbox w ! c \<Longrightarrow> awaited w c i \<Longrightarrow> awaited w' c i"
  by (simp add: awaited_def)

lemma ends_ok_less: "ends_ok N w \<Longrightarrow> ends_ok (N - D) w"
  by (simp add: ends_ok_def)

lemma later_turn [simp]:
  "later w (set_phase c p w)" "later w (on_prompts f w)" "later w (set_phase c p (on_prompts f w))"
  by (auto intro: laterI [where B = "[]"])

lemma phases_set_phase: "phases (set_phase c p w) = (phases w)[c := p]"
  by (simp add: set_phase_def)

text \<open>A turn that moves the worker on and touches nothing else.\<close>

lemma ends_ok_move:
  assumes "world_ok w" and "ends_ok N w" and "k < length (asked w)" and "phase_told w k p"
    and "\<And>i. phase_card p = Some i \<Longrightarrow> phase_card (phases w ! k) = Some i"
  shows "ends_ok (N - D) (set_phase k p w)"
proof (rule ends_ok_one [OF assms(2) later_turn(1) _ assms(3)])
  show "length (phases w) = length (asked w)" using assms(1) by (simp add: world_ok_def workers_ok_def)
  have "awaited w k i \<Longrightarrow> awaited (set_phase k p w) k i" for i by (simp add: awaited_def)
  then show "phase_told (set_phase k p w) k p" by (intro phase_told_later [OF later_turn(1) assms(3,4)]) simp
qed (use assms in \<open>auto simp: phases_set_phase awaited_def\<close>)

text \<open>A turn that takes the worker's own card down.\<close>

lemma ends_ok_closed:
  assumes "world_ok w" and "ends_ok N w" and "k < length (asked w)" and "phase_card (phases w ! k) = Some j"
    and "phase_card p = None" and "phase_told w k p"
  shows "ends_ok (N - D) (set_phase k p (on_prompts (close j) w))"
proof (rule ends_ok_one [OF assms(2) later_turn(3) _ assms(3)])
  show "length (phases w) = length (asked w)" using assms(1) by (simp add: world_ok_def workers_ok_def)
  show "phase_told (set_phase k p (on_prompts (close j) w)) k p"
    using assms(5) by (intro phase_told_later [OF later_turn(3) assms(3,6)]) simp
  fix c i
  assume "c < length (asked w)" "c \<noteq> k" "phase_card (phases w ! c) = Some i" "awaited w c i"
  then show "awaited (set_phase k p (on_prompts (close j) w)) c i \<or> taken_away (set_phase k p (on_prompts (close j) w)) c"
    using close_keeps [OF assms(2) _ assms(3)] assms(4) by blast
qed (use assms in \<open>auto simp: phases_set_phase close_def set_al_del on_prompts_def\<close>)

lemma ends_ok_open_card:
  assumes ok: "world_ok w" "ends_ok N w" and k: "k < length (asked w)" and ph: "phases w ! k = Registering"
    and names: "set names \<subseteq> N"
  shows "ends_ok (N - set names) (open_card k (asked w ! k) names w)"
proof -
  let ?a = "asked w ! k"
  define build where
    "build = (\<lambda>i. ModelPrompt (ask_conversation ?a) (ask_owner ?a) ((ask_card ?a)\<lparr>prompt_id := i\<rparr>) k)"
  obtain r reg where reg: "register (clock w) names build (prompts w) = (r, reg)" by force
  have len: "length (phases w) = length (asked w)" using ok(1) by (simp add: world_ok_def workers_ok_def)
  have keeps: "awaited w c i \<Longrightarrow> awaited w' c i" if "prompts w' = reg" "hands w' = hands w" "mailbox w' = mailbox w" for w' c i
    using register_opens(2) [OF reg] that unfolding awaited_def by metis
  have ids: "fst ` set (pending reg) \<subseteq> fst ` set (pending (prompts w)) \<union> set names" by (rule register_opens(1) [OF reg])
  show ?thesis
  proof (cases r)
    case (Inl e)
    let ?w = "set_phase k (Returned (Inl e)) (w\<lparr>prompts := reg\<rparr>)"
    have "ends_ok (N - set names) ?w" if "e \<noteq> NamesSpent"
    proof (rule ends_ok_one [OF ok(2) laterI [where B = "[]"] _ k len])
      have "e = TooManyCards" using reg Inl that by (auto simp: register_def Let_def split: option.splits if_splits)
      then show "phase_told ?w k (Returned (Inl e))" by simp
    qed (use ids keeps in \<open>auto simp: phases_set_phase\<close>)
    with reg Inl ends_ok_less [OF ok(2)] show ?thesis by (simp add: open_card_def build_def)
  next
    case (Inr i)
    let ?w = "log_said (CardOpened k i) (set_phase k (Showing i) (w\<lparr>prompts := reg\<rparr>))"
    note opened = register_opens(3) [OF reg Inr]
    have "ends_ok (N - set names) ?w"
    proof (rule ends_ok_one [OF ok(2) laterI [where B = "[]"] _ k len])
      show "phase_told ?w k (Showing i)" using opened by (auto simp: awaited_def build_def)
    qed (use ids keeps opened names in \<open>auto simp: phases_set_phase\<close>)
    with reg Inr show ?thesis by (simp add: open_card_def build_def)
  qed
qed

lemma ends_ok_poll:
  assumes ok: "world_ok w" "ends_ok N w" and k: "k < length (asked w)" and ph: "phases w ! k = Receiving i t"
  shows "ends_ok (N - D) (poll k (asked w ! k) i t w)"
proof -
  have here: "awaited w k i \<or> taken_away w k" using ok(2) k ph by (auto simp: ends_ok_def dest: spec [of _ k])
  show ?thesis
  proof (cases "mailbox w ! k")
    case (Some m)
    let ?w = "set_phase k (Closing i (Answered m)) (w\<lparr>mailbox := (mailbox w)[k := None]\<rparr>)"
    have "ends_ok (N - D) ?w"
    proof (rule ends_ok_one [OF ok(2) laterI [where B = "[]"] _ k])
      show "length (phases w) = length (asked w)" using ok(1) by (simp add: world_ok_def workers_ok_def)
    qed (auto simp: phases_set_phase awaited_def ph)
    with Some show ?thesis by (simp add: poll_def)
  next
    case None
    have gone: "taken_away w k" if "\<not> sender_left k w"
      using here that None by (auto simp: awaited_def sender_left_def list_ex_iff split: hand.splits)
    have moved: "ends_ok (N - D) (set_phase k p w)"
      if "phase_told w k p" "\<And>j. phase_card p = Some j \<Longrightarrow> j = i" for p
      using that ok k by (intro ends_ok_move) (auto simp: ph)
    show ?thesis using None here gone by (auto simp: poll_def Let_def intro!: moved)
  qed
qed

lemma ends_ok_turn:
  assumes ok: "world_ok w" "ends_ok N w" and names: "set names \<subseteq> N"
  shows "ends_ok (N - set names) (turn k names shown w)"
proof (cases "k < length (asked w)")
  case False
  with ends_ok_less [OF ok(2)] show ?thesis by (simp add: turn_def)
next
  case True
  have here: "phase_told w k (phases w ! k)" using ok(2) True by (simp add: ends_ok_def)
  note move = ends_ok_move [OF ok True]
  show ?thesis
  proof (cases "phases w ! k")
    case Starting
    with True show ?thesis by (auto simp: turn_def Let_def intro!: move)
  next
    case Checking
    with True show ?thesis by (auto simp: turn_def Let_def intro!: move)
  next
    case Registering
    with True ok names show ?thesis by (simp add: turn_def ends_ok_open_card)
  next
    case (Showing i)
    with True here show ?thesis
      by (auto simp: turn_def Let_def intro!: move ends_ok_closed [OF ok True] split: option.split)
  next
    case (Waiting i t)
    with True here show ?thesis by (auto simp: turn_def Let_def intro!: move)
  next
    case (Receiving i t)
    with True ok show ?thesis by (simp add: turn_def ends_ok_poll)
  next
    case (Closing i out)
    with True here show ?thesis by (auto simp: turn_def Let_def intro!: ends_ok_closed [OF ok True])
  next
    case (Settling out)
    with True here show ?thesis
      by (cases out) (auto simp: turn_def Let_def settle_def intro!: move)
  next
    case (Remembering m)
    let ?f = "remember_allowance (ask_conversation (asked w ! k)) (card_tool (ask_card (asked w ! k))) (ask_risk (asked w ! k))"
    have "ends_ok (N - set names) (set_phase k (Returned (Inr m)) (on_prompts ?f w))"
    proof (rule ends_ok_one [OF ok(2) later_turn(3) _ True])
      show "length (phases w) = length (asked w)" using ok(1) by (simp add: world_ok_def workers_ok_def)
    qed (auto simp: phases_set_phase awaited_def remember_allowance_def)
    with True Remembering show ?thesis by (simp add: turn_def Let_def)
  next
    case (Returned r)
    with True ends_ok_less [OF ok(2)] show ?thesis by (simp add: turn_def)
  qed
qed

section \<open>Everyone else\<close>

text \<open>An event of the renderer's: no worker moves.\<close>

lemma ends_ok_still:
  assumes ok: "world_ok w" "ends_ok N w" and "asked w' = asked w" and "phases w' = phases w"
    and "set (said w) \<subseteq> set (said w')" and "raised w' = raised w"
    and "\<And>c i. c < length (asked w) \<Longrightarrow> awaited w c i \<Longrightarrow> awaited w' c i \<or> taken_away w' c"
    and "fst ` set (pending (prompts w')) \<subseteq> fst ` set (pending (prompts w)) \<union> D"
  shows "ends_ok (N - D) w'"
  using assms by (intro ends_ok_frame [OF ok(2) laterI [where B = "[]"]]) (auto simp: world_ok_def workers_ok_def)

lemma taken_entry:
  "take_card i d reg = (Inr e, reg') \<Longrightarrow> map_of (pending reg) i = Some e \<and> reg' = close i reg"
  by (auto simp: take_card_def split: option.splits if_splits)

lemma taken_question_entry:
  "take_question i r reg = (Inr c, reg') \<Longrightarrow> (\<exists>conv owner k. map_of (pending reg) i = Some (ModelPrompt conv owner k c)) \<and> reg' = close i reg"
  by (auto simp: take_question_def split: option.splits pending_prompt.splits if_splits)

lemma awaited_taken:
  assumes "world_ok w" and "map_of (pending (prompts w)) i = Some e" and "awaited w c j"
    and "prompts w' = close i (prompts w)" and "set (hands w) \<subseteq> set (hands w')" and "mailbox w' = mailbox w"
    and "\<And>conv owner k. e = ModelPrompt conv owner k c \<Longrightarrow> \<exists>m. Sending c m \<in> set (hands w')"
  shows "awaited w' c j"
proof (cases "\<exists>conv owner k. (j, ModelPrompt conv owner k c) \<in> set (pending (prompts w))")
  case True
  then obtain conv owner k where entry: "(j, ModelPrompt conv owner k c) \<in> set (pending (prompts w))" by blast
  show ?thesis
  proof (cases "j = i")
    case True
    with pending_unique [OF assms(1) entry] assms(2) have "e = ModelPrompt conv owner k c" by simp
    with assms(7) show ?thesis by (auto simp: awaited_def)
  next
    case False
    with entry have "(j, ModelPrompt conv owner k c) \<in> set (pending (prompts w'))"
      by (simp add: assms(4) close_def set_al_del)
    then show ?thesis by (auto simp: awaited_def)
  qed
next
  case False
  with assms(3,5,6) show ?thesis by (auto simp: awaited_def)
qed

lemma ends_ok_resolve:
  assumes ok: "world_ok w" "ends_ok N w"
  shows "ends_ok (N - D) (resolve i d s w)"
proof (cases "take_card i d (prompts w)")
  case (Pair r reg)
  show ?thesis
  proof (cases r)
    case (Inl e)
    with Pair ends_ok_less [OF ok(2)] show ?thesis by (simp add: resolve_def)
  next
    case (Inr e)
    with Pair taken_entry have e: "map_of (pending (prompts w)) i = Some e" and reg: "reg = close i (prompts w)" by blast+
    have shape: "resolve i d s w = log_said x (w\<lparr>prompts := close i (prompts w), hands := hands w @ [h]\<rparr>)"
      if "x = (case e of ModelPrompt _ _ _ c \<Rightarrow> CardAnswered c i \<lparr>decision = d, feedback = sanitize_prompt_feedback s, question = None\<rparr>
                | ManualPrompt q k _ \<Rightarrow> ManualAnswered q k d)"
        and "h = (case e of ModelPrompt _ _ _ c \<Rightarrow> Sending c \<lparr>decision = d, feedback = sanitize_prompt_feedback s, question = None\<rparr>
                | ManualPrompt q k _ \<Rightarrow> Settle q k d)" for x h
      using Pair Inr reg that by (auto simp: resolve_def Let_def split: pending_prompt.split)
    show ?thesis
      unfolding shape [OF refl refl]
      by (rule ends_ok_still [OF ok])
         (auto simp: close_def set_al_del intro!: disjI1 awaited_taken [OF ok(1) e])
  qed
qed

lemma ends_ok_resolve_question:
  assumes ok: "world_ok w" "ends_ok N w"
  shows "ends_ok (N - D) (resolve_question i r w)"
proof (cases "take_question i r (prompts w)")
  case (Pair x reg)
  show ?thesis
  proof (cases x)
    case (Inl e)
    with Pair ends_ok_less [OF ok(2)] show ?thesis by (simp add: resolve_question_def)
  next
    case (Inr c)
    with Pair taken_question_entry obtain conv owner k
      where e: "map_of (pending (prompts w)) i = Some (ModelPrompt conv owner k c)" and reg: "reg = close i (prompts w)" by blast
    have "resolve_question i r w =
        log_said (CardAnswered c i (question_answer r)) (w\<lparr>prompts := close i (prompts w), hands := hands w @ [Sending c (question_answer r)]\<rparr>)"
      using Pair Inr reg by (simp add: resolve_question_def)
    then show ?thesis
      by (simp only:) (rule ends_ok_still [OF ok],
         auto simp: close_def set_al_del intro!: disjI1 awaited_taken [OF ok(1) e])
  qed
qed

lemma awaited_hands:
  assumes "awaited w c i" and "k < length (hands w)" and "\<And>m. hands w ! k \<noteq> Sending c m"
  shows "awaited (w\<lparr>hands := take k (hands w) @ drop (Suc k) (hands w)\<rparr>) c i"
proof -
  have "set (hands w) = insert (hands w ! k) (set (take k (hands w)) \<union> set (drop (Suc k) (hands w)))"
    using arg_cong [OF id_take_nth_drop [OF assms(2)], of set] by (simp only: set_append list.set) blast
  moreover have "hands w ! k \<noteq> Sending c m" "Sending c m \<noteq> hands w ! k" for m using assms(3) [of m] by metis+
  ultimately show ?thesis using assms(1) unfolding awaited_def by auto
qed

text \<open>What a hand does, once it is out: it keeps whoever is awaited, or clears everything.\<close>

lemma act_frame:
  "asked (act h names env x w) = asked w" "phases (act h names env x w) = phases w" "raised (act h names env x w) = raised w"
  "set (said w) \<subseteq> set (said (act h names env x w))"
  by (auto simp: act_def issue_def Let_def split: hand.split sum.split option.split prod.split)

lemma issue_prompts [simp]:
  "prompts (issue h names r why env w) = prompts w" "hands (issue h names r why env w) = hands w"
  "mailbox (issue h names r why env w) = mailbox w"
  by (auto simp: issue_def split: sum.split option.split prod.split)

lemma act_ids:
  "fst ` set (pending (prompts (act h names env x w))) \<subseteq> fst ` set (pending (prompts w)) \<union> set names"
proof (cases x)
  case (Opening r k)
  then show ?thesis
    using register_opens(1) [of "clock w" names "\<lambda>_. ManualPrompt r k (clock w)" "prompts w"]
    by (cases "open_manual (clock w) names r k (prompts w)") (simp add: act_def open_manual_def)
qed (auto simp: act_def Let_def settle_manual_def remember_allowance_def clear_pending_def clear_allowances_def)

lemma act_waits:
  assumes "awaited w c i \<or> (\<exists>m. x = Sending c m)" and "c < length (mailbox w)"
  shows "awaited (act h names env x w) c i \<or> taken_away (act h names env x w) c"
proof (cases x)
  case (Sending s m)
  with assms show ?thesis
    by (cases "s = c") (auto simp: act_def awaited_def nth_list_update split: option.split)
next
  case (Settle r k d)
  with assms show ?thesis by (auto simp: act_def awaited_def Let_def settle_manual_def remember_allowance_def)
next
  case (Opening r k)
  obtain y reg where reg: "open_manual (clock w) names r k (prompts w) = (y, reg)" by force
  then have "(j, ModelPrompt a b e c) \<in> set (pending (prompts w)) \<Longrightarrow> (j, ModelPrompt a b e c) \<in> set (pending reg)" for j a b e
    unfolding open_manual_def by (rule register_opens(2))
  with Opening assms reg show ?thesis by (auto simp: act_def awaited_def) blast+
next
  case ResetPrompts
  then show ?thesis by (simp add: act_def taken_away_def)
next
  case ResetAllowances
  with assms show ?thesis by (auto simp: act_def awaited_def clear_allowances_def)
qed (use assms in \<open>auto simp: act_def awaited_def\<close>)

lemma ends_ok_act:
  assumes ok: "world_ok w" "ends_ok N w" and k: "k < length (hands w)"
  shows "ends_ok (N - set names) (act h names env (hands w ! k) (w\<lparr>hands := take k (hands w) @ drop (Suc k) (hands w)\<rparr>))"
    (is "ends_ok _ (act h names env ?x ?w)")
proof (rule ends_ok_still [OF ok])
  show "set (said w) \<subseteq> set (said (act h names env ?x ?w))" using act_frame(4) [of ?w h names env ?x] by simp
  show "fst ` set (pending (prompts (act h names env ?x ?w))) \<subseteq> fst ` set (pending (prompts w)) \<union> set names"
    using act_ids [of h names env ?x ?w] by simp
  fix c i
  assume c: "c < length (asked w)" and waits: "awaited w c i"
  have "awaited ?w c i \<or> (\<exists>m. ?x = Sending c m)" using awaited_hands [OF waits k] by blast
  moreover have "c < length (mailbox ?w)" using ok(1) c by (simp add: world_ok_def workers_ok_def)
  ultimately show "awaited (act h names env ?x ?w) c i \<or> taken_away (act h names env ?x ?w) c" by (rule act_waits)
qed (simp_all add: act_frame)

lemma ends_ok_end_run:
  assumes ok: "world_ok w" "ends_ok N w"
  shows "ends_ok (N - D) (log_said (RunEnded conv run) (on_prompts (cancel_run_prompts conv run) w))" (is "ends_ok _ ?w")
proof (rule ends_ok_still [OF ok])
  fix c i
  assume c: "c < length (asked w)" and waits: "awaited w c i"
  show "awaited ?w c i \<or> taken_away ?w c"
  proof (cases "\<exists>a b e. (i, ModelPrompt a b e c) \<in> set (pending (prompts w))")
    case True
    then obtain a b e where entry: "(i, ModelPrompt a b e c) \<in> set (pending (prompts w))" by blast
    then have ab: "a = ask_conversation (asked w ! c) \<and> b = ask_owner (asked w ! c)"
      using ok(1) by (auto simp: world_ok_def prompts_told_def)
    show ?thesis
    proof (cases "a = conv \<and> b = RunOwner run")
      case True
      with ab have "ask_owner (asked w ! c) = RunOwner run" and "ask_conversation (asked w ! c) = conv" by metis+
      then have "taken_away ?w c" by (simp add: taken_away_def)
      then show ?thesis ..
    next
      case False
      with entry have "(i, ModelPrompt a b e c) \<in> set (pending (prompts ?w))"
        by (cases b) (auto simp: cancel_run_prompts_def)
      then have "awaited ?w c i" unfolding awaited_def by blast
      then show ?thesis ..
    qed
  next
    case False
    with waits show ?thesis by (auto simp: awaited_def)
  qed
qed (auto simp: cancel_run_prompts_def)

lemma execute_frame [simp]:
  "asked (execute_tool h pol given r w) = asked w" "phases (execute_tool h pol given r w) = phases w"
  "raised (execute_tool h pol given r w) = raised w" "prompts (execute_tool h pol given r w) = prompts w"
  "hands (execute_tool h pol given r w) = hands w" "mailbox (execute_tool h pol given r w) = mailbox w"
  "set (said w) \<subseteq> set (said (execute_tool h pol given r w))"
  by (auto simp: execute_tool_def split: option.split sum.split prod.split)

lemma request_frame [simp]:
  "asked (request_tool_approval pol r w) = asked w" "phases (request_tool_approval pol r w) = phases w"
  "raised (request_tool_approval pol r w) = raised w" "prompts (request_tool_approval pol r w) = prompts w"
  "set (hands w) \<subseteq> set (hands (request_tool_approval pol r w))" "mailbox (request_tool_approval pol r w) = mailbox w"
  "said (request_tool_approval pol r w) = said w"
  by (auto simp: request_tool_approval_def split: option.split)

lemma ends_ok_step:
  assumes ok: "world_ok w" "ends_ok N w" and names: "set (names_in e) \<subseteq> N"
  shows "ends_ok (N - set (names_in e)) (prompt_step w e)"
proof (cases e)
  case (Ask a)
  have "ends_ok (N - {}) (prompt_step w e)"
    using ok by (intro ends_ok_frame [OF ok(2) laterI [where B = "[a]"]])
      (auto simp: Ask awaited_def world_ok_def workers_ok_def nth_append)
  with Ask show ?thesis by simp
next
  case (Turn c names shown)
  with ends_ok_turn [OF ok] assms(3) show ?thesis by simp
next
  case (Resolve i d s)
  with ends_ok_resolve [OF ok, of "{}"] show ?thesis by simp
next
  case (ResolveQuestion i r)
  with ends_ok_resolve_question [OF ok, of "{}"] show ?thesis by simp
next
  case (Act k h names env)
  with ends_ok_act [OF ok] ends_ok_less [OF ok(2)] show ?thesis by simp
next
  case (EndRun conv run)
  with ends_ok_end_run [OF ok, of "{}"] show ?thesis by simp
next
  case (RaiseFlag f)
  have "ends_ok (N - {}) (prompt_step w e)"
    using ok by (intro ends_ok_frame [OF ok(2) laterI [where B = "[]"]])
      (auto simp: RaiseFlag awaited_def world_ok_def workers_ok_def)
  with RaiseFlag show ?thesis by simp
next
  case (Request pol r)
  have "ends_ok (N - {}) (request_tool_approval pol r w)"
  proof (rule ends_ok_still [OF ok])
    fix c i
    assume "awaited w c i"
    then have "awaited (request_tool_approval pol r w) c i"
      using subsetD [OF request_frame(5) [of w pol r]] by (auto simp: awaited_def)
    then show "awaited (request_tool_approval pol r w) c i \<or> taken_away (request_tool_approval pol r w) c" ..
  qed auto
  with Request show ?thesis by simp
next
  case (Execute h pol given r)
  have "ends_ok (N - {}) (execute_tool h pol given r w)" by (intro ends_ok_still [OF ok]) (auto simp: awaited_def)
  with Execute show ?thesis by simp
next
  case (Tick n)
  have "ends_ok (N - {}) (prompt_step w e)" by (intro ends_ok_still [OF ok]) (auto simp: Tick awaited_def)
  with Tick show ?thesis by simp
next
  case Reset
  have "ends_ok (N - {}) (prompt_step w e)" by (intro ends_ok_still [OF ok]) (auto simp: Reset awaited_def)
  with Reset show ?thesis by simp
qed

lemma ends_ok_run:
  "world_ok w \<Longrightarrow> ends_ok N w \<Longrightarrow> set (concat (map names_in es)) \<subseteq> N \<Longrightarrow> distinct (concat (map names_in es)) \<Longrightarrow>
   \<exists>M. ends_ok M (foldl prompt_step w es)"
proof (induction es arbitrary: w N)
  case Nil
  then show ?case by auto
next
  case (Cons e es)
  have "ends_ok (N - set (names_in e)) (prompt_step w e)" using Cons.prems by (intro ends_ok_step) auto
  moreover have "set (concat (map names_in es)) \<subseteq> N - set (names_in e)" using Cons.prems by auto
  ultimately show ?case using Cons.IH [of "prompt_step w e" "N - set (names_in e)"] Cons.prems world_ok_step by simp
qed

lemma ends_ok_new: "ends_ok UNIV prompt_world_new"
  by (simp add: ends_ok_def prompt_world_new_def no_prompts_def)

end
