(* ===== verification/PromptProps.thy ===== *)
theory PromptProps
  imports PromptEnds
begin

text \<open>
  What the confirmation cards promise (\<^verbatim>\<open>src/tool_prompt.rs\<close>, \<^verbatim>\<open>src/approval.rs\<close> and the commands of
  \<^verbatim>\<open>src/lib.rs\<close>), over every interleaving of workers and commands, and two places where they fall short.
\<close>

section \<open>A worker that waits comes back\<close>

definition polls_left :: "nat \<Rightarrow> nat" where
  "polls_left t = (PROMPT_TIMEOUT - t) div CANCELLATION_POLL"

fun turns_left :: "asking \<Rightarrow> phase \<Rightarrow> nat" where
  "turns_left a (Waiting i t) = (if never_times_out a then 4 else 2 * polls_left t + 5)"
| "turns_left a (Receiving i t) = (if never_times_out a then 5 else 2 * polls_left t + 4)"
| "turns_left a (Closing i out) = 3"
| "turns_left a (Settling out) = 2"
| "turns_left a (Remembering m) = 1"
| "turns_left a _ = 0"

fun shown_phase :: "phase \<Rightarrow> bool" where
  "shown_phase Starting = False"
| "shown_phase Checking = False"
| "shown_phase Registering = False"
| "shown_phase (Showing i) = False"
| "shown_phase _ = True"

fun turns_of :: "nat \<Rightarrow> prompt_event list \<Rightarrow> nat" where
  "turns_of c [] = 0"
| "turns_of c (Turn c' names shown # es) = (if c' = c then 1 else 0) + turns_of c es"
| "turns_of c (_ # es) = turns_of c es"

lemma polls_left_down: "t + CANCELLATION_POLL < PROMPT_TIMEOUT \<Longrightarrow> polls_left t = polls_left (t + CANCELLATION_POLL) + 1"
  by (simp add: polls_left_def PROMPT_TIMEOUT_def CANCELLATION_POLL_def)

lemma own_turn:
  assumes "world_ok w" and c: "c < length (asked w)" and sh: "shown_phase (phases w ! c)"
    and ends: "\<not> never_times_out (asked w ! c) \<or> stopped w (asked w ! c)"
  shows "shown_phase (phases (turn c names shown w) ! c) \<and>
    turns_left (asked w ! c) (phases (turn c names shown w) ! c) \<le> turns_left (asked w ! c) (phases w ! c) - 1"
proof -
  have len: "length (phases w) = length (asked w)" using assms(1) by (simp add: world_ok_def workers_ok_def)
  with c have at: "phases (set_phase c p w') ! c = p" if "phases w' = phases w" for p w'
    using that by (simp add: phases_set_phase)
  show ?thesis
  proof (cases "phases w ! c")
    case (Receiving i t)
    have "\<not> never_times_out (asked w ! c) \<Longrightarrow> \<not> PROMPT_TIMEOUT \<le> t + CANCELLATION_POLL \<Longrightarrow>
        polls_left t = polls_left (t + CANCELLATION_POLL) + 1"
      by (simp add: polls_left_down)
    with Receiving c show ?thesis by (auto simp: turn_def poll_def Let_def at split: option.split)
  next
    case (Settling out)
    with c show ?thesis by (cases out) (auto simp: turn_def settle_def Let_def at)
  qed (use c sh ends in \<open>auto simp: turn_def Let_def at on_prompts_def\<close>)
qed

lemma other_event:
  assumes "world_ok w" and c: "c < length (asked w)"
  shows "asked (prompt_step w e) ! c = asked w ! c \<and> c < length (asked (prompt_step w e)) \<and>
    (stopped w (asked w ! c) \<longrightarrow> stopped (prompt_step w e) (asked w ! c)) \<and>
    ((\<forall>names shown. e \<noteq> Turn c names shown) \<longrightarrow> phases (prompt_step w e) ! c = phases w ! c)"
proof -
  have len: "length (phases w) = length (asked w)" using assms(1) by (simp add: world_ok_def workers_ok_def)
  show ?thesis
  proof (cases e)
    case (Turn k names shown)
    then show ?thesis
      using c by (auto simp: turn_def open_card_def poll_def settle_def Let_def phases_set_phase stopped_def
          split: phase.split option.split sum.split prod.split)
  next
    case (Resolve i d s)
    then show ?thesis
      using c by (auto simp: resolve_def Let_def stopped_def split: sum.split prod.split pending_prompt.split)
  next
    case (ResolveQuestion i r)
    then show ?thesis using c by (auto simp: resolve_question_def stopped_def split: sum.split prod.split)
  qed (use c len in \<open>auto simp: nth_append stopped_def act_frame list_ex_iff\<close>)
qed

lemma comes_back:
  assumes "world_ok w" and "c < length (asked w)" and "shown_phase (phases w ! c)"
    and "\<not> never_times_out (asked w ! c) \<or> stopped w (asked w ! c)"
    and "turns_left (asked w ! c) (phases w ! c) \<le> turns_of c es"
  shows "\<exists>r. phases (foldl prompt_step w es) ! c = Returned r"
  using assms
proof (induction es arbitrary: w)
  case Nil
  then show ?case by (cases "phases w ! c") (auto split: if_splits)
next
  case (Cons e es)
  note frame = other_event [OF Cons.prems(1,2), of e]
  let ?w = "prompt_step w e"
  have "shown_phase (phases ?w ! c) \<and> turns_left (asked w ! c) (phases ?w ! c) \<le> turns_of c es"
  proof (cases "\<exists>names shown. e = Turn c names shown")
    case True
    then obtain names shown where e: "e = Turn c names shown" by blast
    with own_turn [OF Cons.prems(1-4), of names shown] Cons.prems(5) show ?thesis by auto
  next
    case False
    then have "turns_of c (e # es) = turns_of c es" by (cases e) auto
    with False frame Cons.prems show ?thesis by auto
  qed
  then show ?case using Cons.IH [OF world_ok_step [OF Cons.prems(1)], of e] frame Cons.prems by auto
qed

lemma reached_ok: "world_ok (foldl prompt_step prompt_world_new es)"
  by (rule confirmation.foldl_inv) simp

section \<open>What was said was sent\<close>

fun sends :: "ustring \<Rightarrow> prompt_answer \<Rightarrow> prompt_event \<Rightarrow> bool" where
  "sends i m (Resolve j d s) = (j = i \<and> m = \<lparr>decision = d, feedback = sanitize_prompt_feedback s, question = None\<rparr>)"
| "sends i m (ResolveQuestion j r) = (j = i \<and> m = question_answer r)"
| "sends i m _ = False"

lemma said_was_sent:
  "CardAnswered c i m \<in> set (said (foldl prompt_step w es)) \<Longrightarrow> CardAnswered c i m \<in> set (said w) \<or> list_ex (sends i m) es"
proof (induction es arbitrary: w)
  case Nil
  then show ?case by simp
next
  case (Cons e es)
  have "CardAnswered c i m \<in> set (said (prompt_step w e)) \<Longrightarrow> CardAnswered c i m \<in> set (said w) \<or> sends i m e"
    by (cases e)
      (auto simp: turn_def open_card_def poll_def settle_def resolve_def resolve_question_def Let_def execute_tool_def act_def issue_def
        split: phase.splits option.splits sum.splits prod.splits pending_prompt.splits hand.splits outcome.splits if_splits)
  with Cons show ?case by auto
qed

section \<open>The promises\<close>

text \<open>An answer the renderer sent, under the name of a card that was opened for this worker.\<close>

fun sent_to :: "prompt_event list \<Rightarrow> nat \<Rightarrow> prompt_answer \<Rightarrow> said list \<Rightarrow> said \<Rightarrow> bool" where
  "sent_to es c m S (CardAnswered c' i m') = (c' = c \<and> m' = m \<and> CardOpened c i \<in> set S \<and> list_ex (sends i m) es)"
| "sent_to es c m S _ = False"

lemma answered_was_sent:
  assumes "answered c m (said (foldl prompt_step prompt_world_new es))"
  shows "list_ex (sent_to es c m (said (foldl prompt_step prompt_world_new es))) (said (foldl prompt_step prompt_world_new es))"
proof -
  let ?S = "said (foldl prompt_step prompt_world_new es)"
  obtain x where x: "x \<in> set ?S" "answer_to c m ?S x" using assms by (auto simp: answered_def list_ex_iff)
  obtain i where i: "x = CardAnswered c i m" and opened: "CardOpened c i \<in> set ?S" using x(2) by (cases x) auto
  have "list_ex (sends i m) es"
    using said_was_sent [of c i m prompt_world_new es] x(1) i by (auto simp: prompt_world_new_def)
  with i opened have "sent_to es c m ?S x" by simp
  with x(1) show ?thesis by (auto simp: list_ex_iff)
qed

text \<open>
  Claim C35. Whatever answer a worker returns from its card, a denial as much as a permission, is one the renderer sent
  under the name of a card opened for that very worker; the one exception is a permission that rests on a standing
  allowance, and then the call is a tool call that no mandatory prompt or forbidden tool excludes, and an earlier answer of
  the user's was \<open>AllowAlways\<close> for the same tool in the same conversation at this risk or a higher one.
\<close>

theorem answers_come_from_the_user:
  assumes "w = foldl prompt_step prompt_world_new es" and "c < length (asked w)" and "phases w ! c = Returned (Inr m)"
  shows "list_ex (sent_to es c m (said w)) (said w) \<or>
    m = plain_answer AllowAlways \<and> blanket_allowable (asked w ! c) \<and>
    standing (asked w) (said w) (ask_conversation (asked w ! c)) (card_tool (ask_card (asked w ! c))) (ask_risk (asked w ! c))"
proof -
  have "phase_ok (asked w) (said w) c (Returned (Inr m))"
    using reached_ok [of es] assms by (auto simp: world_ok_def workers_ok_def dest!: spec [of _ c])
  then show ?thesis using answered_was_sent [of c m es] assms(1) by auto
qed


text \<open>
  Claim C37. A worker that returns an error was told the truth, when no name is drawn twice: it says stopped only when one
  of the flags it watches is up, timed out never of a question, and retracted only when everything was cleared or the very
  run that raised the card ended, so the end of a turn never takes down the card of a task.
\<close>

theorem refusals_tell_what_happened:
  assumes "distinct (concat (map names_in es))" and "w = foldl prompt_step prompt_world_new es"
    and "c < length (asked w)" and "phases w ! c = Returned (Inl e)"
  shows "refusal_told w c e"
proof -
  have new: "world_ok prompt_world_new" by (rule world_ok_new)
  obtain M where "ends_ok M w"
    using ends_ok_run [OF new ends_ok_new _ assms(1)] assms(2) by auto
  then have "phase_told w c (Returned (Inl e))" using assms(3,4) by (auto simp: ends_ok_def dest!: spec [of _ c])
  then show ?thesis by simp
qed

text \<open>
  Claim C38. No worker is pinned behind a card nobody answers: from the moment its card is shown, 24005 of its own turns
  bring it back whatever the others do meanwhile, which is the half hour of polls; a question waits for its user, and comes
  back in as many once a flag it watches is up.
\<close>

theorem shown_cards_come_back:
  assumes "w = foldl prompt_step prompt_world_new es" and "c < length (asked w)" and "phases w ! c = Waiting i t"
    and "\<not> never_times_out (asked w ! c) \<or> stopped w (asked w ! c)" and "24005 \<le> turns_of c fs"
  shows "\<exists>r. phases (foldl prompt_step w fs) ! c = Returned r"
proof (rule comes_back)
  show "world_ok w" using assms(1) reached_ok by simp
  have "polls_left t \<le> polls_left 0" by (simp add: polls_left_def div_le_mono)
  moreover have "polls_left 0 = 12000" by (simp add: polls_left_def PROMPT_TIMEOUT_def CANCELLATION_POLL_def)
  ultimately show "turns_left (asked w ! c) (phases w ! c) \<le> turns_of c fs" using assms(3,5) by simp
qed (use assms in simp_all)

text \<open>
  However many calls ask, a conversation has at most 64 cards open, and at most 256 one-time approvals are kept.
\<close>

theorem cards_and_nonces_are_bounded:
  "length (filter (\<lambda>(i, e). prompt_conversation e = conv) (pending (prompts (foldl prompt_step prompt_world_new es)))) \<le> 64 \<and>
   length (tool_approvals (approvals (foldl prompt_step prompt_world_new es))) \<le> 256"
  using reached_ok [of es]
  by (simp add: world_ok_def prompts_told_def prompts_ok_def approvals_told_def MAX_PENDING_PROMPTS_def MAX_TOOL_APPROVALS_def)

end
