(* ===== verification/PromptRuns.thy ===== *)
theory PromptRuns
  imports PromptProps
begin

text \<open>
  Concrete runs of the confirmation cards: one in which the promises of \<open>PromptProps\<close> are exercised, and the two that show
  where the code falls short of its comments.
\<close>

section \<open>A card that is answered, and one that is taken down\<close>

definition sample_host :: approval_host where
  "sample_host = \<lparr>is_absolute = (\<lambda>_. True), has_root = (\<lambda>_. True), canonicalize = Inr, is_directory = (\<lambda>_. True),
     lossy = (\<lambda>p. p), fold_case = (\<lambda>p. p), input_text = (\<lambda>m. concat (map fst m))\<rparr>"

definition card_for :: "ustring \<Rightarrow> prompt_card" where
  "card_for t = \<lparr>prompt_id = [], card_tool = t, card_kind = ToolCard, card_label = t, card_summary = [], card_risk = [],
     card_reason = [], requester = None, source_agent = None, source_call_id = None, allow_always_offered = True,
     card_mandatory = False, card_questions = None\<rparr>"

definition asking_for :: "prompt_owner \<Rightarrow> asking" where
  "asking_for own = \<lparr>ask_conversation = [99], ask_owner = own, ask_mandatory = False, ask_risk = Medium, ask_flags = [],
     ask_card = card_for ([119])\<rparr>"

text \<open>Worker 0 belongs to a task and is told \<open>AllowAlways\<close>; worker 1 asks the same later; worker 2's run ends.\<close>

definition plain_turn :: "nat \<Rightarrow> prompt_event" where
  "plain_turn c = Turn c [] None"

definition cards_run :: "prompt_event list" where
  "cards_run =
     [Ask (asking_for TaskOwner), plain_turn 0, plain_turn 0, Turn 0 [[65]] None, plain_turn 0, plain_turn 0,
      EndRun [99] [7], plain_turn 0, plain_turn 0,
      Ask ((asking_for (RunOwner [7]))\<lparr>ask_risk := High\<rparr>), plain_turn 1, plain_turn 1, Turn 1 [[66]] None, plain_turn 1,
      Resolve [65] AllowAlways None, Act 0 sample_host [] [], plain_turn 0, plain_turn 0, plain_turn 0, plain_turn 0,
      Ask (asking_for TaskOwner), plain_turn 2,
      EndRun [99] [7], plain_turn 1, plain_turn 1, plain_turn 1, plain_turn 1]"

lemma sample_tool: "never_blanket_allowed [119] = False"
  by (simp add: never_blanket_allowed_def is_shell_tool_def is_preview_tool_def lit_def)

lemmas run_defs = prompt_world_new_def no_prompts_def no_approvals_def plain_turn_def turn_def Let_def
  asking_for_def card_for_def blanket_allowable_def sample_tool is_always_allowed_def set_phase_def stopped_def open_card_def
  register_def draw_def al_put_def al_del_def log_said_def on_prompts_def poll_def sender_left_def settle_def
  MAX_PENDING_PROMPTS_def PROMPT_TIMEOUT_def CANCELLATION_POLL_def never_times_out_def close_def cancel_run_prompts_def
  resolve_def take_card_def act_def sanitize_prompt_feedback_def remember_allowance_def plain_answer_def
  less_eq_risk_level_def

lemma cards_run_phases:
  "phases (foldl prompt_step prompt_world_new cards_run) =
     [Returned (Inr (plain_answer AllowAlways)), Returned (Inl CardRetracted), Returned (Inr (plain_answer AllowAlways))]"
  by (simp add: cards_run_def run_defs)

lemma cards_run_shape:
  "length (asked (foldl prompt_step prompt_world_new cards_run)) = 3" "distinct (concat (map names_in cards_run))"
  by (simp_all add: cards_run_def run_defs)

theorem answers_come_from_the_user_witness:
  "let w = foldl prompt_step prompt_world_new cards_run; m = plain_answer AllowAlways in
   phases w ! 2 = Returned (Inr m) \<and>
   (list_ex (sent_to cards_run 2 m (said w)) (said w) \<or>
    m = plain_answer AllowAlways \<and> blanket_allowable (asked w ! 2) \<and>
    standing (asked w) (said w) (ask_conversation (asked w ! 2)) (card_tool (ask_card (asked w ! 2))) (ask_risk (asked w ! 2)))"
  using answers_come_from_the_user [OF refl, of 2 cards_run "plain_answer AllowAlways"] cards_run_phases cards_run_shape(1)
  by (simp add: Let_def)

theorem refusals_tell_what_happened_witness:
  "refusal_told (foldl prompt_step prompt_world_new cards_run) 1 CardRetracted"
  using refusals_tell_what_happened [OF cards_run_shape(2) refl, of 1 CardRetracted] cards_run_phases cards_run_shape(1)
  by simp

definition waiting_run :: "prompt_event list" where
  "waiting_run = [Ask (asking_for TaskOwner), plain_turn 0, plain_turn 0, Turn 0 [[65]] None, plain_turn 0]"

lemma waiting_run_shape:
  "asked (foldl prompt_step prompt_world_new waiting_run) = [asking_for TaskOwner]"
  "phases (foldl prompt_step prompt_world_new waiting_run) = [Waiting [65] 0]"
  "\<not> never_times_out (asking_for TaskOwner)"
  by (simp_all add: waiting_run_def run_defs)

lemma turns_of_replicate: "turns_of c (replicate n (plain_turn c)) = n"
  by (induction n) (simp_all add: plain_turn_def)

theorem shown_cards_come_back_witness:
  "\<exists>r. phases (foldl prompt_step (foldl prompt_step prompt_world_new waiting_run) (replicate 24005 (plain_turn 0))) ! 0 = Returned r"
  by (rule shown_cards_come_back [OF refl, of 0 waiting_run "[65]" 0]) (simp_all add: waiting_run_shape turns_of_replicate)

section \<open>An allowance for a shell\<close>








section \<open>A card that does not show the command\<close>



end
