(* ===== verification/Spec2Isabelle.thy ===== *)
theory Spec2Isabelle
  imports KernelProps Trace ShadowProps CoordinatorProps SchemaProps Chain Progress TunnelLink SessionLink SessionInput SchedulerProps RunStream FileGuardProps BoundaryDepth BoundaryIn GitFlight AgentNames DocRuns WireRuns ShellProps PromptRuns
begin

text \<open>
  A verification library for the Rust core of Mework (\<^verbatim>\<open>src-tauri/\<close>), a desktop coding agent.

  The parts of the program and the theories that model them:

  \<^item> \<open>Kernel\<close>, \<open>KernelInv\<close>, \<open>KernelSpec\<close>, \<open>KernelProps\<close>: the agent kernel
    (\<^verbatim>\<open>agent-kernel/src/machine.rs\<close>), the state machine that decides which events of a model run are
    legal. The record \<open>kernel_state\<close> is \<^verbatim>\<open>KernelState\<close>, each \<open>on_<Event>\<close> is one arm of
    \<^verbatim>\<open>Kernel::step\<close> with its guards in the order of the code, and a refusal is \<open>Inl\<close>.
    \<open>KernelInv\<close> shows the invariant every event keeps, \<open>KernelSpec\<close> that the kernel refines the
    actions of \<^verbatim>\<open>formal/tla/AgentKernel.tla\<close>, written there as the inductive relation
    \<open>tla_step\<close>, and \<open>KernelProps\<close> the promises made to the host: no execution without a live
    grant, no new work while cancelling, no turn that ends in debt, results delivered once and under
    the current identity, and an abort that always reaches idle.
  \<^item> \<open>Trace\<close>: the recorder of kernel events and its export (\<^verbatim>\<open>agent-kernel/src/trace.rs\<close>).
  \<^item> \<open>Shadow\<close>, \<open>ShadowProps\<close>: the shadow kernel (\<^verbatim>\<open>src/kernel_shadow.rs\<close>), which projects
    what the host does onto kernel events. It calls the kernel; its books map the names of calls and
    tasks to the kernel's numbered slots. Shown: the books stay consistent, they agree with the
    kernel until a divergence is recorded, and one case in which an abort strands a call.
  \<^item> \<open>Coordinator\<close>, \<open>CoordinatorProps\<close>: the leases on workspaces
    (\<^verbatim>\<open>src/operation_coordinator.rs\<close>), against the specification that any two live leases are
    compatible: acquisition is granted exactly when it is compatible, and dropping releases exactly
    what was held.
  \<^item> \<open>Schema\<close>, \<open>SchemaProps\<close>: the JSON Schema subset of structured output
    (\<^verbatim>\<open>workflow-core/src/schema.rs\<close>): what compiles, and that the breadth-first validator decides a
    recursive conformance.
  \<^item> \<open>Chain\<close>: the cache keys of workflow steps and the replay latch (\<^verbatim>\<open>workflow-core/src/chain.rs\<close>).
  \<^item> \<open>Progress\<close>: the ledger behind a workflow's progress card (\<^verbatim>\<open>workflow-core/src/progress.rs\<close>).
  \<^item> The link to an agent on a remote machine (\<^verbatim>\<open>remote-agent/src/\<close>). \<open>Protocol\<close>: the frame codec
    and the preamble (\<^verbatim>\<open>protocol.rs\<close>), with the round trip under any cutting of the byte stream.
    \<open>Ring\<close>: the output ring (\<^verbatim>\<open>ring.rs\<close>), a window on a byte stream. \<open>Tunnel\<close>, \<open>TunnelLink\<close>:
    TCP connections carried inside the link (\<^verbatim>\<open>tunnel.rs\<close>), one end under any peer, and two ends
    against each other: windows conserved, bytes in order, no writer stuck for good. \<open>Session\<close>,
    \<open>SessionWire\<close>, \<open>SessionHost\<close>, \<open>SessionLink\<close>, \<open>SessionInput\<close>: one remote process seen from both
    ends (\<^verbatim>\<open>agent/session.rs\<close>, \<^verbatim>\<open>next_frames\<close> of \<^verbatim>\<open>agent/mod.rs\<close>, \<^verbatim>\<open>client/session.rs\<close>, \<^verbatim>\<open>send_input\<close>
    of \<^verbatim>\<open>client/mod.rs\<close>). \<open>link_step\<close> and \<open>input_step\<close> interleave the code's operations with
    connections that are made and cut anywhere; what the readers get and what the process is fed is
    shown over all their runs.
  \<^item> \<open>Scheduler\<close>, \<open>SchedulerProps\<close>: the worker thread of the local models
    (\<^verbatim>\<open>local-model/src/scheduler.rs\<close>), over any backend: every request answered once, the queue's
    bounds, and that what waits always drains.
  \<^item> \<open>RunStream\<close>: the hub that routes a model run's events to whoever shows the conversation
    (\<^verbatim>\<open>src/run_stream.rs\<close>): what a subscriber has been given is the end of what was published, over
    every sequence of the hub's operations, and the replay buffer keeps its bounds.
  \<^item> \<open>TextEdit\<close>: the replacement that \<open>edit\<close> performs, with its line-ending rules (\<open>apply_edit\<close>
    of \<^verbatim>\<open>src/tool_executor.rs\<close>). \<open>FileGuard\<close>, \<open>FileGuardProps\<close>: what a conversation remembers of
    the files it has read (\<^verbatim>\<open>src/file_read_state.rs\<close>) and the gate \<open>write\<close> and \<open>edit\<close> pass. The world
    of the guard adds a disk, changed by anyone at strictly increasing times, and reads under way.
    Shown: no change is overwritten that the scope has not read, a committed read admits a write, and
    the registry keeps its budgets.
  \<^item> The boundary between workflow scripts and the host (\<^verbatim>\<open>workflow-core/src/boundary.rs\<close>): values cross
    it as a graph of plain data. \<open>Boundary\<close>: \<open>clone_out\<close>, over a script engine that is the record
    \<open>source\<close> of its reads, each of which may run script code and change the engine's state; the work
    loop ends because what it schedules is one level deeper. \<open>BoundaryOut\<close>: the graph mirrors the value
    when the reads are steady. \<open>BoundaryIn\<close>: \<open>clone_in\<close>, over an engine that is the record \<open>sink\<close> of its
    constructors; the engine's promises are \<open>sink_laws\<close>, and cycles and sharing come out as they were.
    \<open>BoundaryJson\<close>, \<open>BoundaryTree\<close>: JSON in and out; \<open>graph_to_json\<close> decides whether the graph unfolds
    to a tree within the budget, and a document makes the round trip. \<open>BoundaryDepth\<close>: a value whose
    JSON is deeper than the limit and still passes.
  \<^item> \<open>GitFlight\<close>: one status read shared by everyone who asks for the same checkout meanwhile
    (\<^verbatim>\<open>src/git_flight.rs\<close>): nobody who asks after a write is answered from before it, and every
    waiter's flight is settled.
  \<^item> The pool of background tasks (\<^verbatim>\<open>src/agents.rs\<close>). \<open>AgentPool\<close>: a task (\<open>agent\<close> is \<^verbatim>\<open>AgentShared\<close> with
    its core), the operations on it, and registration with the modes names are bound to
    (\<open>reserve_subagent_execution_mode\<close> of \<^verbatim>\<open>src/state.rs\<close>). \<open>AgentSteps\<close>: \<open>pool_step\<close> interleaves workers,
    timers, stops, folds and waits; a wait (\<open>wait_until\<close>, and the tail of \<open>run_task_wait\<close> of \<^verbatim>\<open>src/api.rs\<close>) drains
    one outbox or reads one status at a step. Ghost fields record what was sent, delivered, lost and
    told to the settlement observer. \<open>AgentBooks\<close>: what every step keeps; \<open>AgentMail\<close>: envelopes are
    conserved; \<open>AgentWaits\<close>: what a wait knows at each phase; \<open>AgentProps\<close>, \<open>AgentNames\<close>: the promises, and two
    that fail: a wait that loses a result, a refused registration that keeps the name.
  \<^item> The document store (\<^verbatim>\<open>src/document_store.rs\<close>, \<^verbatim>\<open>src/attachment_refs.rs\<close>, the save of \<^verbatim>\<open>src/storage.rs\<close>).
    \<open>DocStore\<close>: \<open>store_step\<close> interleaves commits, reads, flushes, the background writer one lock or one save at
    a time, and edits of the file by others; a save ends as its \<open>fate\<close> says. \<open>DocBooks\<close>, \<open>DocOrder\<close>: what every
    step keeps, and what orderly runs keep (no call while another saves by itself). \<open>DocProps\<close>: a flush is a
    barrier, reads see the last commit, the writer gets it to the disk, the observer hears transitions, the
    snapshot has no bodies and the index of attachments follows them. \<open>DocRuns\<close>: runs outside that order, in
    which a commit is lost.
  \<^item> \<open>MemPool\<close>: the one memory pool of the process (\<^verbatim>\<open>src/memory_pool.rs\<close>): the counter is the sum of what is
    held and stays under the cap, and what an insert unloads is what was needed least, and no more than it must.
    Its client relies on \<open>lossy_store\<close>: what is under a key is what was there or what was just put there.
  \<^item> The history a request sends (\<^verbatim>\<open>src/wire_history.rs\<close>, \<^verbatim>\<open>src/aisdk/project.rs\<close>, \<^verbatim>\<open>src/system_append.rs\<close>).
    \<open>WireNotice\<close>: the message that carries a task's result, which nothing in it can close. \<open>WireFold\<close>: cards (\<open>context_item\<close> is
    \<^verbatim>\<open>ContextItem\<close>) folded into turns, and where a fold may be taken up again. \<open>WireProject\<close>: turns as messages; every call
    is answered by the next message, and ids from cards are told apart from minted ones. \<open>WireCache\<close>: sessions, the
    entries in the memory pool and the background warmer as interleaved steps; \<open>WireCacheProps\<close>: whatever they do, a
    session sends the projection of its whole timeline. \<open>WireRuns\<close>: what that rests on: a run in which the history
    could not be read for one turn, and the next turn sends what that turn projected.
  \<^item> The rating of shell commands (\<^verbatim>\<open>src/security.rs\<close>). \<open>ShellLex\<close>: the scanners for quotes, subcommands, words,
    redirections and background operators. \<open>ShellPolicy\<close>: the analysis of bash and PowerShell commands, over a record of
    what the file system and the environment answer (\<open>shell_host\<close>). \<open>ShellProps\<close>: what a read-only verdict was checked
    for, that the riskiest subcommand decides, that quoted words come back; and commands that are rated too low.
  \<^item> The confirmation of tool calls (\<^verbatim>\<open>src/tool_prompt.rs\<close>, \<^verbatim>\<open>src/approval.rs\<close>, and the commands
    \<open>request_tool_approval\<close>, \<open>resolve_tool_prompt\<close> and \<open>execute_tool\<close> of \<^verbatim>\<open>src/lib.rs\<close>). \<open>PromptCard\<close>: cards, answers
    and the line the user reads, which hides no control character. \<open>Approval\<close>: the one-time approvals and the granted
    directories. \<open>Prompts\<close>: the registry of open cards and standing allowances. \<open>PromptWorld\<close>: \<open>prompt_step\<close> interleaves
    workers waiting for their card, the renderer, the end of runs and the reset, one lock at a time; \<open>said\<close> is the
    history. \<open>PromptInv\<close>, \<open>PromptSafe\<close>: every answer in flight, allowance and nonce goes back to something the user said.
    \<open>PromptEnds\<close>: why a worker stops waiting. \<open>PromptProps\<close>, \<open>PromptRuns\<close>: the promises, and two that fail: a shell that
    is allowed for good, a card that does not show its command.
  \<^item> \<open>Risk\<close>: the order of risks that the ratings and the allowances share.
  \<^item> \<open>Prelude\<close>, \<open>Json\<close> and \<open>Utf8\<close> hold what these share: slot access, maps as association lists, the
    locales \<open>refusable_machine\<close> and \<open>total_machine\<close> for state machines with an invariant (each
    interpreted on the machines of the components), strings as code points and JSON values.

  Conventions. A \<open>usize\<close> used as a number of slots, rows or bytes is a \<open>nat\<close>; where the code
  saturates, wraps or indexes, the definition writes it out. A \<open>HashMap\<close> is an association list
  with distinct keys, and where its iteration order matters the order is an argument; a \<open>BTreeMap\<close>
  is an association list in key order. Error and divergence texts are constructors carrying the values
  the texts are built from. A mutex that is held for the whole of an operation makes it one step. Code
  outside the repository is a parameter: the digest and the scalar
  serializer of \<open>Chain\<close>, the JSON of frame headers, the backend of the scheduler. Loops
  are structural recursions or functions with a termination measure (the number of JSON nodes on a
  stack or queue, the bytes still to come), so no fuel is needed anywhere.

  Not modelled: text produced for display (but for the line on a confirmation card), serialization attributes, threads and timers, the network,
  the model engines and the user interface. A finite double is its rational value in \<open>Boundary\<close>: the sign of zero and the rounding of integers above
  \<open>2 ^ 53\<close> are not seen there. Of \<^verbatim>\<open>src/security.rs\<close> the decisions on file tools, the browser
  and the network are left out, for they rest on paths as the operating system resolves them; so are the token ledger, whose
  operations are SQL statements, the supervision of shell processes, and git, whose output is parsed as it comes.
\<close>

end
